(* ===== verification/Prelude.thy ===== *)
theory Prelude
  imports Main "HOL-Library.Word"
begin

text \<open>
  Shared vocabulary of the development: the machine types of the C++ sources, the ways a
  translated operation can fail, the sequencing combinator for operations that may fail, and
  lemmas on byte lists and words that several components use.

  A C++ \<open>assert\<close> that does not hold, a load through a null pointer, a read or write outside a
  buffer, an integer division by zero, a shift by the width or more and a call of \<open>abort\<close> end the
  program, or leave what the language defines. They are the
  values of type \<open>error\<close>; an operation that may end that way returns \<open>error + 'a\<close>.
\<close>

unbundle bit_operations_syntax

type_synonym byte = "8 word"
type_synonym u8 = "8 word"
type_synonym u16 = "16 word"
type_synonym u32 = "32 word"
type_synonym u64 = "64 word"
type_synonym bytes = "byte list"

datatype error = AssertFailed | NullDeref | OutOfRange | DivByZero | UndefinedShift | Aborted

type_synonym 'a result = "error + 'a"

named_theorems codec \<open>facts that unfold the byte level encoders and decoders\<close>
named_theorems seq_simps \<open>facts that move sequence numbers to distances\<close>

subsection \<open>Sequencing operations that may fail\<close>

fun andThen :: "'a result \<Rightarrow> ('a \<Rightarrow> 'b result) \<Rightarrow> 'b result" where
  "andThen (Inl e) f = Inl e"
| "andThen (Inr a) f = f a"

lemma andThen_eq_Inr_iff [simp]:
  "andThen m f = Inr b \<longleftrightarrow> (\<exists>a. m = Inr a \<and> f a = Inr b)"
  by (cases m) auto

lemma andThen_eq_Inl_iff:
  "andThen m f = Inl e \<longleftrightarrow> m = Inl e \<or> (\<exists>a. m = Inr a \<and> f a = Inl e)"
  by (cases m) auto

lemma andThen_Inr_right [simp]: "andThen m Inr = m"
  by (cases m) auto

definition assertion :: "bool \<Rightarrow> unit result" where
  "assertion b = (if b then Inr () else Inl AssertFailed)"

lemma assertion_simps [simp]:
  "assertion True = Inr ()" "assertion False = Inl AssertFailed"
  by (simp_all add: assertion_def)

lemma assertion_Inr_iff [simp]: "assertion b = Inr u \<longleftrightarrow> b"
  by (simp add: assertion_def)

subsection \<open>Byte strings as numbers\<close>

text \<open>The number a run of bytes denotes, least significant byte first and last.\<close>

fun le_nat :: "bytes \<Rightarrow> nat" where
  "le_nat [] = 0"
| "le_nat (b # bs) = unat b + 256 * le_nat bs"

definition be_nat :: "bytes \<Rightarrow> nat" where
  "be_nat bs = le_nat (rev bs)"

text \<open>The \<open>k\<close> bytes of a number, least significant byte first and last.\<close>

fun to_le :: "nat \<Rightarrow> nat \<Rightarrow> bytes" where
  "to_le 0 x = []"
| "to_le (Suc k) x = word_of_nat (x mod 256) # to_le k (x div 256)"

definition to_be :: "nat \<Rightarrow> nat \<Rightarrow> bytes" where
  "to_be k x = rev (to_le k x)"

lemma unat_byte_less [simp]: "unat (b :: byte) < 256"
  using unsigned_less [of b] by simp

lemma unat_of_nat_byte [simp]: "unat (word_of_nat (x mod 256) :: byte) = x mod 256"
  by (simp add: unsigned_of_nat take_bit_eq_mod)

lemma to_le_numeral:
  "to_le (numeral k) x = word_of_nat (x mod 256) # to_le (pred_numeral k) (x div 256)"
  by (simp add: numeral_eq_Suc [of k])

lemma length_to_le [simp]: "length (to_le k x) = k"
  by (induction k arbitrary: x) auto

lemma length_to_be [simp]: "length (to_be k x) = k"
  by (simp add: to_be_def)

lemma le_nat_append: "le_nat (xs @ ys) = le_nat xs + 256 ^ length xs * le_nat ys"
  by (induction xs) (auto simp: algebra_simps)

lemma le_nat_less: "le_nat bs < 256 ^ length bs"
proof (induction bs)
  case Nil
  then show ?case by simp
next
  case (Cons b bs)
  have "unat b + 256 * le_nat bs < 256 + 256 * le_nat bs" by simp
  also have "\<dots> \<le> 256 * 256 ^ length bs" using Cons.IH by simp
  finally show ?case by simp
qed

lemma be_nat_less: "be_nat bs < 256 ^ length bs"
  using le_nat_less [of "rev bs"] by (simp add: be_nat_def)

lemma be_nat_Nil [simp]: "be_nat [] = 0"
  by (simp add: be_nat_def)

lemma be_nat_Cons: "be_nat (b # bs) = unat b * 256 ^ length bs + be_nat bs"
  by (simp add: be_nat_def le_nat_append algebra_simps)

lemma be_nat_append: "be_nat (xs @ ys) = be_nat xs * 256 ^ length ys + be_nat ys"
  by (simp add: be_nat_def le_nat_append algebra_simps)

lemma le_nat_to_le: "le_nat (to_le k x) = x mod 256 ^ k"
proof (induction k arbitrary: x)
  case 0
  then show ?case by simp
next
  case (Suc k)
  then show ?case by (simp add: mod_mult2_eq)
qed

lemma be_nat_to_be: "be_nat (to_be k x) = x mod 256 ^ k"
  by (simp add: be_nat_def to_be_def le_nat_to_le)

lemma to_le_le_nat: "length bs = k \<Longrightarrow> to_le k (le_nat bs) = bs"
proof (induction bs arbitrary: k)
  case Nil
  then show ?case by simp
next
  case (Cons b bs)
  have "(word_of_nat (unat b) :: byte) = b" by simp
  moreover have "unat b mod 256 = unat b" by simp
  ultimately show ?case using Cons by (auto simp: div_add1_eq)
qed

lemma to_be_be_nat: "length bs = k \<Longrightarrow> to_be k (be_nat bs) = bs"
  by (simp add: to_be_def be_nat_def to_le_le_nat)

subsection \<open>Words\<close>

lemma u16_less [simp]: "unat (x :: u16) < 65536"
  using unsigned_less [of x] by simp

lemma u32_less [simp]: "unat (x :: u32) < 4294967296"
  using unsigned_less [of x] by simp

lemma u64_less [simp]: "unat (x :: u64) < 18446744073709551616"
  using unsigned_less [of x] by simp

lemma uint_u8_less: "uint (x :: u8) < 256"
  by (rule order.strict_trans2 [OF unsigned_less]) simp

lemma uint_u16_less: "uint (x :: u16) < 65536"
  by (rule order.strict_trans2 [OF unsigned_less]) simp

lemma uint_u64_less: "uint (x :: u64) < 18446744073709551616"
  by (rule order.strict_trans2 [OF unsigned_less]) simp

lemma unat_not_u64: "unat (NOT (x :: u64)) = 18446744073709551615 - unat x"
proof -
  have "NOT x = - 1 - x" by (simp add: not_eq_complement)
  moreover have "x \<le> - 1" by simp
  then have "unat (- 1 - x) = unat (- 1 :: u64) - unat x" by (simp add: unat_sub)
  ultimately show ?thesis by (simp add: unsigned_minus_1_eq_mask mask_numeral)
qed

lemma unat_add_noof: "unat x + unat y < 2 ^ LENGTH('a) \<Longrightarrow> unat (x + y) = unat x + unat y"
  for x y :: "'a::len word"
  by (simp add: unat_word_ariths)

lemma and_mask16: "(x :: u64) AND 65535 = take_bit 16 x"
  by (simp add: take_bit_eq_mask mask_numeral)

lemma unat_and_mask16: "unat ((x :: u64) AND 65535) = unat x mod 65536"
  by (simp only: and_mask16 unsigned_take_bit_eq) (simp add: take_bit_eq_mod)

lemma unat_drop_bit_div: "unat (drop_bit n (x :: 'a::len word)) = unat x div 2 ^ n"
  by (simp only: unat_drop_bit_eq) (rule drop_bit_eq_div)

lemma take_drop_split: "n + m \<le> length xs \<Longrightarrow> xs = take n xs @ take m (drop n xs) @ drop (n + m) xs"
  by (metis add.commute append_take_drop_id drop_drop)

end
