(* ===== verification/Byteorder.thy ===== *)
theory Byteorder
  imports Prelude
begin

text \<open>
  Byte order (\<open>network/byteorder.hh\<close>, \<open>network/const.hh\<close>) on the little endian branch of
  \<open>ntohq\<close>: the host stores the least significant byte first, and \<open>ntoh\<close>/\<open>hton\<close> reverse the
  bytes of a 16, 32 or 64 bit integer. A \<open>packed<T>\<close> field inside a header is a load or a store
  of the bytes in memory order.

  The accessors \<open>read_be\<close>, \<open>write_be\<close>, \<open>consume_be\<close> and \<open>produce_be\<close> come from the core library,
  which is not part of this repository. They are the parameter \<open>be_ops\<close> of every definition
  that uses them; \<open>be_ok\<close> states their documented behaviour (big endian, fixed width).
\<close>

subsection \<open>Protocol numbers\<close>

datatype ip_protocol_num = icmp_num | tcp_num | udp_num | unused_num

fun ip_protocol_code :: "ip_protocol_num \<Rightarrow> u8" where
  "ip_protocol_code icmp_num = 1"
| "ip_protocol_code tcp_num = 6"
| "ip_protocol_code udp_num = 17"
| "ip_protocol_code unused_num = 255"

datatype eth_protocol_num = ipv4_num | arp_num | ipv6_num

fun eth_protocol_code :: "eth_protocol_num \<Rightarrow> u16" where
  "eth_protocol_code ipv4_num = 0x0800"
| "eth_protocol_code arp_num = 0x0806"
| "eth_protocol_code ipv6_num = 0x86dd"

abbreviation (input) eth_hdr_len :: nat where "eth_hdr_len \<equiv> 14"
abbreviation (input) tcp_hdr_len_min :: nat where "tcp_hdr_len_min \<equiv> 20"
abbreviation (input) ipv4_hdr_len_min :: nat where "ipv4_hdr_len_min \<equiv> 20"
abbreviation (input) ip_packet_len_max :: nat where "ip_packet_len_max \<equiv> 65535"

subsection \<open>Loads and stores of packed integers\<close>

definition load16 :: "bytes \<Rightarrow> u16" where
  "load16 bs = word_of_nat (le_nat (take 2 bs))"

definition load32 :: "bytes \<Rightarrow> u32" where
  "load32 bs = word_of_nat (le_nat (take 4 bs))"

definition load64 :: "bytes \<Rightarrow> u64" where
  "load64 bs = word_of_nat (le_nat (take 8 bs))"

definition store16 :: "u16 \<Rightarrow> bytes" where
  "store16 x = to_le 2 (unat x)"

definition store32 :: "u32 \<Rightarrow> bytes" where
  "store32 x = to_le 4 (unat x)"

subsection \<open>ntoh and hton\<close>

definition bswap :: "nat \<Rightarrow> 'a::len word \<Rightarrow> 'a word" where
  "bswap k x = word_of_nat (be_nat (to_le k (unat x)))"

definition ntoh16 :: "u16 \<Rightarrow> u16" where "ntoh16 x = bswap 2 x"
definition hton16 :: "u16 \<Rightarrow> u16" where "hton16 x = bswap 2 x"
definition ntoh32 :: "u32 \<Rightarrow> u32" where "ntoh32 x = bswap 4 x"
definition hton32 :: "u32 \<Rightarrow> u32" where "hton32 x = bswap 4 x"
definition ntohq :: "u64 \<Rightarrow> u64" where "ntohq v = bswap 8 v"
definition htonq :: "u64 \<Rightarrow> u64" where "htonq v = ntohq v"

lemma unat_bswap:
  "256 ^ k \<le> (2 ^ LENGTH('a) :: nat) \<Longrightarrow> unat (bswap k (x :: 'a::len word)) = be_nat (to_le k (unat x))"
  using be_nat_less [of "to_le k (unat x)"]
  by (simp add: bswap_def unsigned_of_nat take_bit_eq_mod)

lemma be_nat_to_le_involutive:
  "x < 256 ^ k \<Longrightarrow> be_nat (to_le k (be_nat (to_le k x))) = x"
proof -
  assume x: "x < 256 ^ k"
  have "to_le k (be_nat (to_le k x)) = rev (to_le k x)"
    by (simp add: be_nat_def to_le_le_nat)
  then show ?thesis
    using x by (simp add: be_nat_def le_nat_to_le)
qed

lemma bswap_bswap: "256 ^ k = (2 ^ LENGTH('a) :: nat) \<Longrightarrow> bswap k (bswap k (x :: 'a::len word)) = x"
proof -
  assume k: "256 ^ k = (2 ^ LENGTH('a) :: nat)"
  have "unat x < 256 ^ k" using unsigned_less [of x] k by simp
  then have "unat (bswap k (bswap k x)) = unat x"
    using k by (simp add: unat_bswap be_nat_to_le_involutive)
  then show ?thesis by (simp only: word_unat_eq_iff)
qed

text \<open>Loading a packed field and converting it gives the big endian value of its bytes.\<close>

lemma unat_load:
  "length bs = 2 \<Longrightarrow> unat (load16 bs) = le_nat bs"
  "length bs = 4 \<Longrightarrow> unat (load32 bs) = le_nat bs"
  "length bs = 8 \<Longrightarrow> unat (load64 bs) = le_nat bs"
  using le_nat_less [of bs]
  by (simp_all add: load16_def load32_def load64_def unsigned_of_nat take_bit_eq_mod)

lemma unat_ntoh_load [codec]:
  "length bs = 2 \<Longrightarrow> unat (ntoh16 (load16 bs)) = be_nat bs"
  "length bs = 4 \<Longrightarrow> unat (ntoh32 (load32 bs)) = be_nat bs"
  "length bs = 8 \<Longrightarrow> unat (ntohq (load64 bs)) = be_nat bs"
  by (simp_all add: ntoh16_def ntoh32_def ntohq_def unat_bswap unat_load to_le_le_nat)

lemma ntoh_hton [simp]:
  "ntoh16 (hton16 x) = x" "hton16 (ntoh16 x) = x"
  "ntoh32 (hton32 y) = y" "hton32 (ntoh32 y) = y"
  "ntohq (htonq z) = z" "htonq (ntohq z) = z"
  by (simp_all add: ntoh16_def hton16_def ntoh32_def hton32_def ntohq_def htonq_def bswap_bswap)

lemma length_store [simp]: "length (store16 x) = 2" "length (store32 y) = 4"
  by (simp_all add: store16_def store32_def)

lemma load_store [simp]:
  "load16 (store16 x @ bs) = x" "load32 (store32 y @ bs) = y"
  "load16 (store16 x) = x" "load32 (store32 y) = y"
  by (simp_all add: load16_def store16_def load32_def store32_def le_nat_to_le)

text \<open>A stored network order field is the big endian byte string of its value.\<close>

lemma store_hton [codec]:
  "store16 (hton16 x) = to_be 2 (unat x)" "store32 (hton32 y) = to_be 4 (unat y)"
  by (simp_all add: store16_def store32_def hton16_def hton32_def unat_bswap be_nat_def
      to_le_le_nat to_be_def)

subsection \<open>The core library's big endian accessors\<close>

record be_ops =
  read_be16 :: "bytes \<Rightarrow> u16"
  read_be32 :: "bytes \<Rightarrow> u32"
  write_be16 :: "u16 \<Rightarrow> bytes"
  write_be32 :: "u32 \<Rightarrow> bytes"

definition be_ok :: "be_ops \<Rightarrow> bool" where
  "be_ok be \<longleftrightarrow>
     (\<forall>bs. length bs \<ge> 2 \<longrightarrow> read_be16 be bs = word_of_nat (be_nat (take 2 bs))) \<and>
     (\<forall>bs. length bs \<ge> 4 \<longrightarrow> read_be32 be bs = word_of_nat (be_nat (take 4 bs))) \<and>
     (\<forall>x. write_be16 be x = to_be 2 (unat x)) \<and>
     (\<forall>x. write_be32 be x = to_be 4 (unat x))"

text \<open>An instance of the accessors, for the witnesses.\<close>

definition be_ref :: be_ops where
  "be_ref = \<lparr>read_be16 = (\<lambda>bs. word_of_nat (be_nat (take 2 bs))),
             read_be32 = (\<lambda>bs. word_of_nat (be_nat (take 4 bs))),
             write_be16 = (\<lambda>x. to_be 2 (unat x)),
             write_be32 = (\<lambda>x. to_be 4 (unat x))\<rparr>"

lemma be_ok_ref: "be_ok be_ref"
  by (simp add: be_ok_def be_ref_def)

lemma be_ok_length [simp]:
  "be_ok be \<Longrightarrow> length (write_be16 be x) = 2"
  "be_ok be \<Longrightarrow> length (write_be32 be y) = 4"
  by (simp_all add: be_ok_def)

lemma be_ok_read_write [simp]:
  "be_ok be \<Longrightarrow> read_be16 be (write_be16 be x @ bs) = x"
  "be_ok be \<Longrightarrow> read_be32 be (write_be32 be y @ bs) = y"
  by (simp_all add: be_ok_def be_nat_to_be)

end
