(* ===== verification/Checksum.thy ===== *)
theory Checksum
  imports Byteorder
begin

text \<open>
  The Internet checksum accumulator (\<open>network/ip_checksum.hh\<close>, \<open>network/ip_checksum.cc\<close>). The
  \<open>__int128\<close> accumulator is an \<open>int\<close>; \<open>sum_bound\<close> below shows that it stays far from the
  128 bit limit. Loads of 8 and 2 bytes are converted with \<open>ntoh\<close>, as in the source.

  The reference is the sum of RFC 1071: big endian 16 bit words, a trailing odd byte padded
  with a zero byte, modulo \<open>2^16 - 1\<close>. The lemmas show that the word at a time loop, the odd
  byte carry over between calls and the folding in \<open>get\<close> all compute that sum; the last
  theorem records what \<open>get\<close> then returns.
\<close>

record checksummer =
  csum :: int
  csum_odd :: bool

definition checksummer_init :: checksummer where
  "checksummer_init = \<lparr>csum = 0, csum_odd = False\<rparr>"

subsection \<open>The accumulation loops of sum(const char*, size_t)\<close>

text \<open>\<open>while (len >= 8)\<close>, \<open>while (len >= 2)\<close> and the last byte.\<close>

fun sum64_loop :: "int \<Rightarrow> bytes \<Rightarrow> int \<times> bytes" where
  "sum64_loop c (b0 # b1 # b2 # b3 # b4 # b5 # b6 # b7 # bs) =
     sum64_loop (c + uint (ntohq (load64 [b0, b1, b2, b3, b4, b5, b6, b7]))) bs"
| "sum64_loop c bs = (c, bs)"

fun sum16_loop :: "int \<Rightarrow> bytes \<Rightarrow> int \<times> bytes" where
  "sum16_loop c (b0 # b1 # bs) = sum16_loop (c + uint (ntoh16 (load16 [b0, b1]))) bs"
| "sum16_loop c bs = (c, bs)"

definition sum_tail :: "int \<Rightarrow> bytes \<Rightarrow> int" where
  "sum_tail c bs = (case bs of [] \<Rightarrow> c | b # _ \<Rightarrow> c + uint b * 256)"

definition sum_aligned :: "int \<Rightarrow> bytes \<Rightarrow> int" where
  "sum_aligned c bs =
     (let (c1, rest1) = sum64_loop c bs;
          (c2, rest2) = sum16_loop c1 rest1
      in sum_tail c2 rest2)"

text \<open>
  With \<open>odd\<close> set the first byte is read before the length is looked at; a call with length 0
  then reads outside the buffer, so it is an error of the model.
\<close>

definition sum_data :: "bytes \<Rightarrow> checksummer \<Rightarrow> checksummer result" where
  "sum_data data cs =
     (if csum_odd cs then
        (case data of
           [] \<Rightarrow> Inl OutOfRange
         | b # rest \<Rightarrow>
             Inr \<lparr>csum = sum_aligned (csum cs + uint b) rest,
                  csum_odd = (csum_odd cs \<noteq> odd (length data))\<rparr>)
      else Inr \<lparr>csum = sum_aligned (csum cs) data,
                csum_odd = (csum_odd cs \<noteq> odd (length data))\<rparr>)"

text \<open>\<open>sum(const packet &)\<close>: one call per fragment.\<close>

fun sum_fragments :: "bytes list \<Rightarrow> checksummer \<Rightarrow> checksummer result" where
  "sum_fragments [] cs = Inr cs"
| "sum_fragments (f # fs) cs = andThen (sum_data f cs) (sum_fragments fs)"

subsection \<open>The integer overloads\<close>

definition sum_u8 :: "u8 \<Rightarrow> checksummer \<Rightarrow> checksummer" where
  "sum_u8 data cs =
     \<lparr>csum = csum cs + (if csum_odd cs then uint data else uint data * 256),
      csum_odd = (\<not> csum_odd cs)\<rparr>"

definition sum_u16 :: "u16 \<Rightarrow> checksummer \<Rightarrow> checksummer" where
  "sum_u16 data cs =
     (if csum_odd cs then sum_u8 (ucast data) (sum_u8 (ucast (drop_bit 8 data)) cs)
      else cs\<lparr>csum := csum cs + uint data\<rparr>)"

definition sum_u32 :: "u32 \<Rightarrow> checksummer \<Rightarrow> checksummer" where
  "sum_u32 data cs =
     (if csum_odd cs then sum_u16 (ucast (drop_bit 16 data)) (sum_u16 (ucast data) cs)
      else cs\<lparr>csum := csum cs + uint data\<rparr>)"

subsection \<open>get\<close>

definition csum_fold :: "int \<Rightarrow> u64" where
  "csum_fold c =
     (let csum1 = take_bit 64 c + drop_bit 64 c;
          c0 = (word_of_int (take_bit 64 csum1 + drop_bit 64 csum1) :: u64);
          c1 = (c0 AND 65535) + (drop_bit 16 c0 AND 65535) + (drop_bit 32 c0 AND 65535)
               + drop_bit 48 c0;
          c2 = (c1 AND 65535) + drop_bit 16 c1
      in (c2 AND 65535) + drop_bit 16 c2)"

text \<open>
  The argument of \<open>hton\<close> in the return statement is a \<open>uint64_t\<close>, so overload resolution
  selects the 64 bit byte swap; its result is then truncated to \<open>uint16_t\<close>.
\<close>

definition checksummer_get :: "checksummer \<Rightarrow> u16" where
  "checksummer_get cs = ucast (htonq (NOT (csum_fold (csum cs))))"

definition ip_checksum :: "bytes \<Rightarrow> u16 result" where
  "ip_checksum data = andThen (sum_data data checksummer_init) (\<lambda>cs. Inr (checksummer_get cs))"

subsection \<open>The reference sum of RFC 1071\<close>

fun rfc_sum :: "bytes \<Rightarrow> nat" where
  "rfc_sum [] = 0"
| "rfc_sum [b] = 256 * unat b"
| "rfc_sum (b0 # b1 # bs) = 256 * unat b0 + unat b1 + rfc_sum bs"

text \<open>The same sum when the first byte is the low half of a word begun earlier.\<close>

definition rfc_sum_from :: "bool \<Rightarrow> bytes \<Rightarrow> nat" where
  "rfc_sum_from odd_start bs =
     (if odd_start then (case bs of [] \<Rightarrow> 0 | b # r \<Rightarrow> unat b + rfc_sum r) else rfc_sum bs)"

lemma rfc_sum_append:
  "rfc_sum (xs @ ys) = rfc_sum xs + rfc_sum_from (odd (length xs)) ys"
  by (induction xs rule: rfc_sum.induct) (auto simp: rfc_sum_from_def split: list.split)

lemma rfc_sum_from_append:
  "rfc_sum_from q (xs @ ys) = rfc_sum_from q xs + rfc_sum_from (q \<noteq> odd (length xs)) ys"
proof (cases q)
  case True
  then show ?thesis
    by (cases xs) (auto simp: rfc_sum_from_def rfc_sum_append split: list.split)
next
  case False
  then show ?thesis
    by (auto simp: rfc_sum_from_def rfc_sum_append)
qed

subsection \<open>The loops compute the reference sum\<close>

lemma be_nat_8_cong:
  "be_nat [b0, b1, b2, b3, b4, b5, b6, b7] mod 65535 =
     rfc_sum [b0, b1, b2, b3, b4, b5, b6, b7] mod 65535"
proof -
  have "be_nat [b0, b1, b2, b3, b4, b5, b6, b7] =
     rfc_sum [b0, b1, b2, b3, b4, b5, b6, b7] +
       ((256 * unat b0 + unat b1) * 4295032833 + (256 * unat b2 + unat b3) * 65537 +
        (256 * unat b4 + unat b5)) * 65535"
    by (simp add: be_nat_Cons)
  then show ?thesis by (simp only: mod_mult_self1)
qed

lemma be_nat_2: "be_nat [b0, b1] = 256 * unat b0 + unat b1"
  by (simp add: be_nat_Cons)

lemma sum64_loop_cong:
  "sum64_loop c bs = (c', rest) \<Longrightarrow>
     (c' + int (rfc_sum rest)) mod 65535 = (c + int (rfc_sum bs)) mod 65535"
proof (induction c bs arbitrary: c' rest rule: sum64_loop.induct)
  case (1 c b0 b1 b2 b3 b4 b5 b6 b7 bs)
  let ?w = "[b0, b1, b2, b3, b4, b5, b6, b7]"
  have "uint (ntohq (load64 ?w)) = int (unat (ntohq (load64 ?w)))"
    by (rule uint_nat)
  also have "unat (ntohq (load64 ?w)) = be_nat ?w"
    by (rule unat_ntoh_load) simp
  finally have w: "uint (ntohq (load64 ?w)) mod 65535 = int (rfc_sum ?w) mod 65535"
    using arg_cong [OF be_nat_8_cong, of int] by (simp only: zmod_int of_nat_numeral)
  have split: "int (rfc_sum (?w @ bs)) = int (rfc_sum ?w) + int (rfc_sum bs)"
    by simp
  from 1 have "(c' + int (rfc_sum rest)) mod 65535 =
      (c + uint (ntohq (load64 ?w)) + int (rfc_sum bs)) mod 65535"
    by simp
  also have "\<dots> = (c + int (rfc_sum ?w) + int (rfc_sum bs)) mod 65535"
    by (intro mod_add_cong w refl)
  also have "\<dots> = (c + int (rfc_sum (?w @ bs))) mod 65535"
    by (simp only: split add.assoc)
  finally show ?case by simp
qed auto

lemma sum16_loop_eq:
  "sum16_loop c bs = (c', rest) \<Longrightarrow> sum_tail c' rest = c + int (rfc_sum bs)"
proof (induction c bs arbitrary: c' rest rule: sum16_loop.induct)
  case (1 c b0 b1 bs)
  have "unat (ntoh16 (load16 [b0, b1])) = 256 * unat b0 + unat b1"
    by (simp add: unat_ntoh_load be_nat_2)
  then have "uint (ntoh16 (load16 [b0, b1])) = int (256 * unat b0 + unat b1)"
    by (simp only: uint_nat)
  with 1 show ?case by simp
qed (auto simp: sum_tail_def)

lemma sum_aligned_cong:
  "sum_aligned c bs mod 65535 = (c + int (rfc_sum bs)) mod 65535"
proof -
  obtain c1 r1 where 1: "sum64_loop c bs = (c1, r1)" by fastforce
  obtain c2 r2 where 2: "sum16_loop c1 r1 = (c2, r2)" by fastforce
  have "sum_aligned c bs = c1 + int (rfc_sum r1)"
    using 1 2 sum16_loop_eq [OF 2] by (simp add: sum_aligned_def)
  then show ?thesis using sum64_loop_cong [OF 1] by simp
qed

lemma sum_data_cong:
  assumes "sum_data data cs = Inr cs'"
  shows "csum cs' mod 65535 = (csum cs + int (rfc_sum_from (csum_odd cs) data)) mod 65535"
    and "csum_odd cs' = (csum_odd cs \<noteq> odd (length data))"
  using assms
  by (auto simp: sum_data_def rfc_sum_from_def sum_aligned_cong add.assoc
      split: if_splits list.splits)

lemma sum_fragments_cong:
  assumes "sum_fragments fs cs = Inr cs'"
  shows "csum cs' mod 65535 =
      (csum cs + int (rfc_sum_from (csum_odd cs) (concat fs))) mod 65535"
    and "csum_odd cs' = (csum_odd cs \<noteq> odd (length (concat fs)))"
proof -
  have "csum cs' mod 65535 =
      (csum cs + int (rfc_sum_from (csum_odd cs) (concat fs))) mod 65535 \<and>
      csum_odd cs' = (csum_odd cs \<noteq> odd (length (concat fs)))"
    using assms
  proof (induction fs arbitrary: cs)
    case Nil
    then show ?case by (simp add: rfc_sum_from_def)
  next
    case (Cons f fs)
    then obtain c1 where f: "sum_data f cs = Inr c1" and fs: "sum_fragments fs c1 = Inr cs'"
      by auto
    note IH = Cons.IH [OF fs] and hd = sum_data_cong [OF f]
    have "csum cs' mod 65535 =
        (csum c1 mod 65535 + int (rfc_sum_from (csum_odd c1) (concat fs))) mod 65535"
      using IH by (simp add: mod_simps)
    also have "\<dots> = (csum cs + int (rfc_sum_from (csum_odd cs) f) +
        int (rfc_sum_from (csum_odd c1) (concat fs))) mod 65535"
      by (simp only: hd(1) mod_add_left_eq)
    finally show ?case
      using IH hd(2) by (auto simp: rfc_sum_from_append add.assoc)
  qed
  then show "csum cs' mod 65535 =
      (csum cs + int (rfc_sum_from (csum_odd cs) (concat fs))) mod 65535"
    and "csum_odd cs' = (csum_odd cs \<noteq> odd (length (concat fs)))"
    by auto
qed

lemma sum_data_defined: "data \<noteq> [] \<Longrightarrow> \<exists>cs'. sum_data data cs = Inr cs'"
  by (cases data) (auto simp: sum_data_def)

lemma sum_fragments_defined:
  "(\<forall>f \<in> set fs. f \<noteq> []) \<Longrightarrow> \<exists>cs'. sum_fragments fs cs = Inr cs'"
proof (induction fs arbitrary: cs)
  case Nil
  then show ?case by simp
next
  case (Cons f fs)
  then obtain c1 where "sum_data f cs = Inr c1" using sum_data_defined [of f cs] by auto
  with Cons show ?case by simp
qed

subsection \<open>Folding\<close>

text \<open>One step of end around carry: the high part is added to the low part.\<close>

lemma carry_fold:
  "((x :: nat) mod 65536 + x div 65536) mod 65535 = x mod 65535"
  "(x mod 65536 + x div 65536 = 0) = (x = 0)"
proof -
  have x: "65536 * (x div 65536) + x mod 65536 = x" by (rule mult_div_mod_eq)
  then have "x = (x mod 65536 + x div 65536) + 65535 * (x div 65536)" by linarith
  then show "(x mod 65536 + x div 65536) mod 65535 = x mod 65535"
    by (metis mod_mult_self2)
  show "(x mod 65536 + x div 65536 = 0) = (x = 0)"
    using x by (metis add_is_0 mult_is_0 div_0 mod_0)
qed

lemma carry_fold64:
  "0 \<le> c \<Longrightarrow> (take_bit 64 c + drop_bit 64 c) mod 65535 = c mod 65535" for c :: int
proof -
  have "c = c mod 2 ^ 64 + 2 ^ 64 * (c div 2 ^ 64)" by simp
  also have "\<dots> = (c mod 2 ^ 64 + c div 2 ^ 64) + 65535 * (281479271743489 * (c div 2 ^ 64))"
    by simp
  finally have "c mod 65535 = (c mod 2 ^ 64 + c div 2 ^ 64) mod 65535"
    by (metis mod_mult_self2)
  then show ?thesis by (simp only: take_bit_eq_mod drop_bit_eq_div)
qed

definition fold4 :: "nat \<Rightarrow> nat" where
  "fold4 x = x mod 65536 + (x div 65536) mod 65536 + (x div 4294967296) mod 65536
             + x div 281474976710656"

lemma fold4_cong: "fold4 x mod 65535 = x mod 65535"
proof -
  let ?h = "x div 65536" and ?hh = "x div 4294967296" and ?t = "x div 281474976710656"
  have hh: "?hh = ?h div 65536" and t: "?t = ?hh div 65536"
    by (simp_all add: div_mult2_eq [symmetric])
  have "(?hh mod 65536 + ?t) mod 65535 = ?hh mod 65535"
    unfolding t by (rule carry_fold)
  then have "(?h mod 65536 + (?hh mod 65536 + ?t)) mod 65535 = (?h mod 65536 + ?hh) mod 65535"
    by (rule mod_add_cong [OF refl])
  also have "\<dots> = ?h mod 65535" unfolding hh by (rule carry_fold)
  finally have "(x mod 65536 + (?h mod 65536 + (?hh mod 65536 + ?t))) mod 65535 =
      (x mod 65536 + ?h) mod 65535"
    by (rule mod_add_cong [OF refl])
  also have "\<dots> = x mod 65535" by (rule carry_fold)
  finally show ?thesis by (simp only: fold4_def add.assoc)
qed

lemma fold4_bound: "x < 18446744073709551616 \<Longrightarrow> fold4 x \<le> 262140"
proof -
  assume x: "x < 18446744073709551616"
  have le: "y mod 65536 \<le> 65535" for y :: nat
    using mod_less_divisor [of 65536 y] by linarith
  have "x div 281474976710656 < 65536"
    using x by (simp add: less_mult_imp_div_less)
  then show ?thesis
    unfolding fold4_def using le [of x] le [of "x div 65536"] le [of "x div 4294967296"]
    by linarith
qed

lemma fold4_zero: "(fold4 x = 0) = (x = 0)"
proof -
  have hh: "x div 4294967296 = x div 65536 div 65536"
    and t: "x div 281474976710656 = x div 4294967296 div 65536"
    by (simp_all add: div_mult2_eq [symmetric])
  have "fold4 x = 0 \<longleftrightarrow> x mod 65536 = 0 \<and> x div 65536 mod 65536 = 0 \<and>
      x div 4294967296 mod 65536 + x div 4294967296 div 65536 = 0"
    by (simp only: fold4_def t add_is_0 conj_assoc)
  also have "\<dots> \<longleftrightarrow> x mod 65536 = 0 \<and> x div 65536 mod 65536 + x div 65536 div 65536 = 0"
    by (metis carry_fold(2) add_is_0 hh)
  also have "\<dots> \<longleftrightarrow> x mod 65536 + x div 65536 = 0"
    by (metis carry_fold(2) add_is_0)
  finally show ?thesis by (simp only: carry_fold(2))
qed

text \<open>The last two carries leave a 16 bit value.\<close>

definition carry :: "nat \<Rightarrow> nat" where
  "carry x = x mod 65536 + x div 65536"

lemma carry_carry_bound: "x \<le> 262140 \<Longrightarrow> carry (carry x) \<le> 65535"
proof -
  assume x: "x \<le> 262140"
  have le: "y mod 65536 \<le> 65535" for y :: nat
    using mod_less_divisor [of 65536 y] by linarith
  have d: "x div 65536 \<le> 3" using div_le_mono [OF x, of 65536] by simp
  then have c: "carry x \<le> 65538" using le [of x] by (simp only: carry_def)
  show ?thesis
  proof (cases "carry x < 65536")
    case True
    then show ?thesis by (simp add: carry_def [of "carry x"])
  next
    case False
    then obtain d where "carry x = 65536 + d" "d \<le> 2"
      using c by (metis add_le_cancel_left le_Suc_ex not_less numeral_plus_numeral add_num_simps)
    then have "carry (carry x) = carry (65536 + d)" by simp
    then show ?thesis using \<open>d \<le> 2\<close> by (simp add: carry_def)
  qed
qed

lemma unat_csum_fold:
  "unat (csum_fold c) = carry (carry (fold4 (unat
     (word_of_int (take_bit 64 (take_bit 64 c + drop_bit 64 c) +
                   drop_bit 64 (take_bit 64 c + drop_bit 64 c)) :: u64))))"
  (is "_ = carry (carry (fold4 (unat ?c0)))")
proof -
  define c0 where "c0 = ?c0"
  define c1 where "c1 = (c0 AND 65535) + (drop_bit 16 c0 AND 65535) + (drop_bit 32 c0 AND 65535)
               + drop_bit 48 c0"
  define c2 where "c2 = (c1 AND 65535) + drop_bit 16 c1"
  have le: "y mod 65536 \<le> 65535" for y :: nat
    using mod_less_divisor [of 65536 y] by linarith
  have parts: "unat (c0 AND 65535) = unat c0 mod 65536"
      "unat (drop_bit 16 c0 AND 65535) = (unat c0 div 65536) mod 65536"
      "unat (drop_bit 32 c0 AND 65535) = (unat c0 div 4294967296) mod 65536"
      "unat (drop_bit 48 c0) = unat c0 div 281474976710656"
    by (simp_all add: unat_and_mask16 unat_drop_bit_div)
  have b: "fold4 (unat c0) \<le> 262140" by (rule fold4_bound) simp
  have c1: "unat c1 = fold4 (unat c0)"
    using b unfolding c1_def fold4_def
    by (simp only: unat_word_ariths parts mod_add_left_eq mod_add_right_eq) simp
  have c2: "unat c2 = carry (unat c1)"
    using b unfolding c2_def carry_def c1 [symmetric]
    by (simp only: unat_word_ariths unat_and_mask16 unat_drop_bit_div)
      (auto intro!: mod_less le_less_trans [OF add_mono [OF le div_le_dividend]])
  have "csum_fold c = (c2 AND 65535) + drop_bit 16 c2"
    by (simp only: csum_fold_def Let_def c2_def c1_def c0_def)
  moreover have "carry (unat c2) \<le> 65535"
    unfolding c2 c1 by (rule carry_carry_bound [OF b])
  ultimately have "unat (csum_fold c) = carry (unat c2)"
    unfolding carry_def
    by (simp only: unat_word_ariths unat_and_mask16 unat_drop_bit_div) simp
  then show ?thesis by (simp only: c2 c1 c0_def)
qed

lemma csum_fold_le: "unat (csum_fold c) \<le> 65535"
  unfolding unat_csum_fold by (rule carry_carry_bound [OF fold4_bound]) simp

lemma carry_fold64_zero:
  "0 \<le> c \<Longrightarrow> (take_bit 64 c + drop_bit 64 c = 0) = (c = 0)" for c :: int
proof -
  assume c: "0 \<le> c"
  have "0 \<le> c mod 2 ^ 64" "0 \<le> c div 2 ^ 64"
    using c by (simp_all add: pos_imp_zdiv_nonneg_iff)
  moreover have "2 ^ 64 * (c div 2 ^ 64) + c mod 2 ^ 64 = c" by (rule mult_div_mod_eq)
  ultimately have "c mod 2 ^ 64 + c div 2 ^ 64 = 0 \<longleftrightarrow> c = 0"
    by (metis add_nonneg_eq_0_iff div_0 mod_0 mult_zero_right add_0)
  then show ?thesis by (simp only: take_bit_eq_mod drop_bit_eq_div)
qed

lemma csum_fold_cong:
  assumes "0 \<le> c" "c < 2 ^ 127"
  shows "int (unat (csum_fold c)) mod 65535 = c mod 65535"
    and "csum_fold c = 0 \<longleftrightarrow> c = 0"
proof -
  define a where "a = take_bit 64 c + drop_bit 64 c"
  define b where "b = take_bit 64 a + drop_bit 64 a"
  have d: "0 \<le> drop_bit 64 c" "drop_bit 64 c < 2 ^ 63"
    using assms zdiv_mono1 [of c "2 ^ 127 - 1" "2 ^ 64"]
    by (simp_all add: drop_bit_eq_div)
  have t: "0 \<le> take_bit 64 c" "take_bit 64 c < 2 ^ 64"
    by (simp_all add: take_bit_eq_mod)
  have a: "0 \<le> a" "a < 2 ^ 64 + 2 ^ 63" using d t by (simp_all add: a_def)
  have b: "0 \<le> b" "b < 2 ^ 64"
  proof -
    show "0 \<le> b" using a by (simp add: b_def)
    show "b < 2 ^ 64"
    proof (cases "a < 2 ^ 64")
      case True
      then show ?thesis using a by (simp add: b_def take_bit_eq_mod drop_bit_eq_div)
    next
      case False
      then have "a div 2 ^ 64 = 1" "a mod 2 ^ 64 = a - 2 ^ 64"
        using a by (simp_all add: int_div_pos_eq [where r = "a - 2 ^ 64"]
            int_mod_pos_eq [where q = 1])
      then show ?thesis using a by (simp add: b_def take_bit_eq_mod drop_bit_eq_div)
    qed
  qed
  define w where "w = (word_of_int b :: u64)"
  have w: "unat w = nat b"
    using b by (simp add: w_def unsigned_of_int take_bit_eq_mod)
  have f: "unat (csum_fold c) = carry (carry (fold4 (nat b)))"
    by (simp only: unat_csum_fold a_def [symmetric] b_def [symmetric] w_def [symmetric] w)
  have "unat (csum_fold c) mod 65535 = nat b mod 65535"
    by (simp only: f carry_def carry_fold(1) fold4_cong)
  then have "int (unat (csum_fold c)) mod 65535 = b mod 65535"
    using b by (metis zmod_int of_nat_numeral int_nat_eq)
  then show "int (unat (csum_fold c)) mod 65535 = c mod 65535"
    using a assms by (simp only: b_def a_def carry_fold64)
  have "unat (csum_fold c) = 0 \<longleftrightarrow> nat b = 0"
    by (simp only: f carry_def carry_fold(2) fold4_zero)
  moreover have "b = 0 \<longleftrightarrow> c = 0"
    using a assms by (simp only: b_def a_def carry_fold64_zero)
  ultimately show "csum_fold c = 0 \<longleftrightarrow> c = 0"
    using b by (simp add: unat_eq_zero)
qed

subsection \<open>The accumulator stays within 128 bits\<close>

lemma sum64_loop_bound:
  "sum64_loop c bs = (c', rest) \<Longrightarrow>
     c \<le> c' \<and> c' + 2 ^ 64 * int (length rest) \<le> c + 2 ^ 64 * int (length bs)"
proof (induction c bs arbitrary: c' rest rule: sum64_loop.induct)
  case (1 c b0 b1 b2 b3 b4 b5 b6 b7 bs)
  let ?v = "uint (ntohq (load64 [b0, b1, b2, b3, b4, b5, b6, b7]))"
  obtain v where v: "?v = v" "0 \<le> v" "v < 18446744073709551616"
    using uint_u64_less by simp
  from "1.prems" have "sum64_loop (c + ?v) bs = (c', rest)" by simp
  from "1.IH" [OF this] v show ?case by simp
qed auto

lemma sum16_loop_bound:
  "sum16_loop c bs = (c', rest) \<Longrightarrow>
     c \<le> c' \<and> c' + 2 ^ 64 * int (length rest) \<le> c + 2 ^ 64 * int (length bs)"
proof (induction c bs arbitrary: c' rest rule: sum16_loop.induct)
  case (1 c b0 b1 bs)
  let ?v = "uint (ntoh16 (load16 [b0, b1]))"
  obtain v where v: "?v = v" "0 \<le> v" "v < 65536"
    using uint_u16_less by simp
  from "1.prems" have "sum16_loop (c + ?v) bs = (c', rest)" by simp
  from "1.IH" [OF this] v show ?case by simp
qed auto

lemma sum_aligned_bound:
  "c \<le> sum_aligned c bs \<and> sum_aligned c bs \<le> c + 2 ^ 64 * int (length bs)"
proof -
  obtain c1 r1 where 1: "sum64_loop c bs = (c1, r1)" by fastforce
  obtain c2 r2 where 2: "sum16_loop c1 r1 = (c2, r2)" by fastforce
  have "c2 \<le> sum_tail c2 r2 \<and> sum_tail c2 r2 \<le> c2 + 2 ^ 64 * int (length r2)"
    using uint_u8_less [of "hd r2"] by (cases r2) (auto simp: sum_tail_def)
  then show ?thesis
    using sum64_loop_bound [OF 1] sum16_loop_bound [OF 2] 1 2
    by (auto simp: sum_aligned_def)
qed

lemma sum_data_bound:
  "sum_data data cs = Inr cs' \<Longrightarrow>
     csum cs \<le> csum cs' \<and> csum cs' \<le> csum cs + 2 ^ 64 * int (length data)"
proof (cases data)
  case Nil
  then show "sum_data data cs = Inr cs' \<Longrightarrow> ?thesis"
    using sum_aligned_bound [of "csum cs" "[]"] by (auto simp: sum_data_def split: if_splits)
next
  case (Cons b bs)
  have "csum cs \<le> csum cs + uint b" by simp
  note le = order_trans [OF this]
  show "sum_data data cs = Inr cs' \<Longrightarrow> ?thesis"
    using sum_aligned_bound [of "csum cs" data] sum_aligned_bound [of "csum cs + uint b" bs]
      uint_u8_less [of b] Cons
    by (auto simp: sum_data_def intro: le split: if_splits)
qed

lemma sum_fragments_bound:
  "sum_fragments fs cs = Inr cs' \<Longrightarrow>
     csum cs \<le> csum cs' \<and> csum cs' \<le> csum cs + 2 ^ 64 * int (length (concat fs))"
proof (induction fs arbitrary: cs)
  case Nil
  then show ?case by simp
next
  case (Cons f fs)
  then obtain c1 where "sum_data f cs = Inr c1" "sum_fragments fs c1 = Inr cs'" by auto
  with Cons.IH [of c1] sum_data_bound [of f cs c1] show ?case
    by (auto simp: algebra_simps)
qed

text \<open>C30. For any way of cutting the bytes into non empty fragments of total length below \<open>2^60\<close>,
  summing the fragments one after the other succeeds, the 128 bit accumulator does not
  overflow, and the folded accumulator is a 16 bit value that equals the RFC 1071 sum of the
  concatenated bytes modulo \<open>2^16 - 1\<close> and is zero only when the accumulator is.
\<close>

theorem checksum_fragments_rfc1071:
  assumes "\<forall>f \<in> set fs. f \<noteq> []" and "length (concat fs) < 2 ^ 60"
  shows "\<exists>cs. sum_fragments fs checksummer_init = Inr cs \<and>
    0 \<le> csum cs \<and> csum cs < 2 ^ 127 \<and>
    unat (csum_fold (csum cs)) \<le> 65535 \<and>
    unat (csum_fold (csum cs)) mod 65535 = rfc_sum (concat fs) mod 65535 \<and>
    (csum_fold (csum cs) = 0 \<longleftrightarrow> csum cs = 0)"
proof -
  obtain cs where cs: "sum_fragments fs checksummer_init = Inr cs"
    using sum_fragments_defined [OF assms(1)] by blast
  have b: "0 \<le> csum cs" "csum cs < 2 ^ 127"
    using sum_fragments_bound [OF cs] assms(2) by (auto simp: checksummer_init_def)
  have "csum cs mod 65535 = int (rfc_sum (concat fs)) mod 65535"
    using sum_fragments_cong(1) [OF cs]
    by (simp add: checksummer_init_def rfc_sum_from_def)
  then have "int (unat (csum_fold (csum cs))) mod 65535 = int (rfc_sum (concat fs)) mod 65535"
    using csum_fold_cong(1) [OF b] by simp
  then have "unat (csum_fold (csum cs)) mod 65535 = rfc_sum (concat fs) mod 65535"
    by (metis zmod_int of_nat_numeral of_nat_eq_iff)
  then show ?thesis
    using cs b csum_fold_le csum_fold_cong(2) [OF b] by blast
qed

theorem checksum_fragments_rfc1071_witness:
  "\<exists>cs. sum_fragments [[0x45, 0x00, 0x00], [0x1c]] checksummer_init = Inr cs \<and>
    unat (csum_fold (csum cs)) mod 65535 = rfc_sum [0x45, 0x00, 0x00, 0x1c] mod 65535"
  using checksum_fragments_rfc1071 [of "[[0x45, 0x00, 0x00], [0x1c]]"] by auto

lemma to_le_add: "to_le (m + n) x = to_le m x @ to_le n (x div 256 ^ m)"
  by (induction m arbitrary: x) (auto simp: div_mult2_eq)

lemma checksummer_get_eq: "checksummer_get cs = 0xffff"
proof -
  define x where "x = unat (NOT (csum_fold (csum cs)))"
  have "x = 18446744073709551615 - unat (csum_fold (csum cs))"
    unfolding x_def by (rule unat_not_u64)
  then have x: "18446744073709486080 \<le> x" "x < 18446744073709551616"
    using csum_fold_le [of "csum cs"] by simp_all
  have hi: "x div 256 ^ 6 = 65535"
    using x by (intro div_nat_eqI) simp_all
  have "be_nat (to_le 8 x) = be_nat (to_le 6 x) * 65536 + be_nat (to_le 2 65535)"
    using to_le_add [of 6 2 x] by (simp only: hi) (simp add: be_nat_append)
  moreover have "be_nat (to_le 2 65535) = 65535"
    by (subst numeral_2_eq_2, simp only: to_le.simps) (simp add: be_nat_Cons)
  ultimately have "be_nat (to_le 8 x) mod 65536 = 65535" by simp
  moreover have "unat (bswap 8 (NOT (csum_fold (csum cs)))) = be_nat (to_le 8 x)"
    unfolding x_def by (rule unat_bswap) simp
  ultimately have "unat (ucast (bswap 8 (NOT (csum_fold (csum cs)))) :: u16) = 65535"
    by (simp only: unsigned_ucast_eq take_bit_eq_mod) simp
  then show ?thesis
    unfolding checksummer_get_def htonq_def ntohq_def
    by (simp add: word_unat_eq_iff)
qed

text \<open>Whatever was summed, \<open>get\<close> returns \<open>0xffff\<close>: the 64 bit byte swap moves the two always
  zero high bytes of the folded sum into the returned half word.
\<close>

theorem checksummer_get_constant: "checksummer_get cs = 0xffff"
  by (rule checksummer_get_eq)

end
