(* ===== verification/Packet.thy ===== *)
theory Packet
  imports Checksum
begin

text \<open>
  The zero copy packet class (\<open>network/packet.hh\<close>, \<open>network/packet.cc\<close>).

  A packet is a list of fragments, each a base pointer and a size, plus 112 bytes of internal
  data in which the first fragment may live so that headers can be prepended in place. Base
  pointers are explicit: \<open>InData off\<close> points into the packet's own \<open>_data\<close> array, \<open>Heap b off\<close>
  into buffer \<open>b\<close> of the heap, which several packets may share. Reads and writes are checked
  against the bounds of the array they go to. The contents of fresh memory is not specified:
  the heap carries an arbitrary function \<open>raw\<close> for it. Deleters only decide when a buffer is
  released and have no counterpart here.

  \<open>packet_bytes\<close> is the byte string a packet denotes and \<open>packet_wf\<close> the class invariant. Each
  operation has a lemma that gives its effect on both.
\<close>

abbreviation (input) internal_data_size :: nat where "internal_data_size \<equiv> 112"
text \<open>The length of a packet is kept as a 32-bit \<open>unsigned\<close>: adding to it wraps around.\<close>

definition len32 :: "nat \<Rightarrow> nat" where
  "len32 n = n mod 4294967296"

lemma len32_small [simp]: "n < 4294967296 \<Longrightarrow> len32 n = n"
  by (simp add: len32_def)

lemma len32_add [simp]: "len32 (len32 a + b) = len32 (a + b)" "len32 (b + len32 a) = len32 (b + a)"
  by (simp_all add: len32_def mod_simps)

lemma len32_idem [simp]: "len32 (len32 a) = len32 a"
  by (simp add: len32_def)

abbreviation (input) default_nr_frags :: nat where "default_nr_frags \<equiv> 4"

subsection \<open>Memory\<close>

datatype ptr = InData int | Heap nat int

record fragment =
  frag_base :: ptr
  frag_size :: nat

record heap =
  bufs :: "bytes list"
  raw :: "nat \<Rightarrow> byte"

definition fresh_bytes :: "heap \<Rightarrow> nat \<Rightarrow> bytes" where
  "fresh_bytes h n = map (raw h) [0..<n]"

definition alloc_buf :: "heap \<Rightarrow> bytes \<Rightarrow> heap \<times> ptr" where
  "alloc_buf h bs = (h\<lparr>bufs := bufs h @ [bs]\<rparr>, Heap (length (bufs h)) 0)"

fun ptr_add :: "ptr \<Rightarrow> int \<Rightarrow> ptr" where
  "ptr_add (InData off) n = InData (off + n)"
| "ptr_add (Heap b off) n = Heap b (off + n)"

definition in_range :: "int \<Rightarrow> nat \<Rightarrow> bytes \<Rightarrow> bool" where
  "in_range off n bs \<longleftrightarrow> 0 \<le> off \<and> nat off + n \<le> length bs"

definition slice :: "nat \<Rightarrow> nat \<Rightarrow> bytes \<Rightarrow> bytes" where
  "slice off n bs = take n (drop off bs)"

definition overwrite :: "nat \<Rightarrow> bytes \<Rightarrow> bytes \<Rightarrow> bytes" where
  "overwrite off new bs = take off bs @ new @ drop (off + length new) bs"

definition read_frag :: "heap \<Rightarrow> bytes \<Rightarrow> fragment \<Rightarrow> bytes result" where
  "read_frag h data f =
     (case frag_base f of
        InData off \<Rightarrow>
          if in_range off (frag_size f) data then Inr (slice (nat off) (frag_size f) data)
          else Inl OutOfRange
      | Heap b off \<Rightarrow>
          if b < length (bufs h) \<and> in_range off (frag_size f) (bufs h ! b)
          then Inr (slice (nat off) (frag_size f) (bufs h ! b)) else Inl OutOfRange)"

subsection \<open>The packet implementation object\<close>

record offload_info =
  oi_protocol :: ip_protocol_num
  oi_needs_csum :: bool
  oi_ip_hdr_len :: u8
  oi_tcp_hdr_len :: u8
  oi_udp_hdr_len :: u8
  oi_needs_ip_csum :: bool
  oi_reassembled :: bool
  oi_tso_seg_size :: u16
  oi_vlan_tci :: "u16 option"

definition offload_info_init :: offload_info where
  "offload_info_init =
     \<lparr>oi_protocol = unused_num, oi_needs_csum = False, oi_ip_hdr_len = 20, oi_tcp_hdr_len = 20,
      oi_udp_hdr_len = 8, oi_needs_ip_csum = False, oi_reassembled = False,
      oi_tso_seg_size = 0, oi_vlan_tci = None\<rparr>"

record packet =
  p_len :: nat
  p_frags :: "fragment list"
  p_allocated_frags :: nat
  p_offload_info :: offload_info
  p_rss_hash :: "u32 option"
  p_data :: bytes
  p_headroom :: nat

definition impl_allocate :: "heap \<Rightarrow> nat \<Rightarrow> packet result" where
  "impl_allocate h nr_frags =
     (let n = max nr_frags default_nr_frags in
      if n < 65536 then
        Inr \<lparr>p_len = 0, p_frags = [], p_allocated_frags = n, p_offload_info = offload_info_init,
             p_rss_hash = None, p_data = fresh_bytes h internal_data_size,
             p_headroom = internal_data_size\<rparr>
      else Inl AssertFailed)"

fun using_internal_data :: "fragment list \<Rightarrow> bool" where
  "using_internal_data [] = False"
| "using_internal_data (f # fs) =
     (case frag_base f of InData off \<Rightarrow> 0 \<le> off \<and> off < int internal_data_size
                        | Heap b off \<Rightarrow> False)"

definition unuse_internal_data :: "heap \<Rightarrow> packet \<Rightarrow> (heap \<times> packet) result" where
  "unuse_internal_data h p =
     (if \<not> using_internal_data (p_frags p) then Inr (h, p)
      else andThen (read_frag h (p_data p) (hd (p_frags p))) (\<lambda>bs.
        (let (h', buf) = alloc_buf h bs in
         Inr (h', p\<lparr>p_frags := (hd (p_frags p))\<lparr>frag_base := buf\<rparr> # tl (p_frags p),
                    p_headroom := internal_data_size\<rparr>))))"

definition copy_internal_fragment_to :: "heap \<Rightarrow> packet \<Rightarrow> packet \<Rightarrow> packet result" where
  "copy_internal_fragment_to h old to =
     (if \<not> using_internal_data (p_frags old) then Inr to
      else andThen (read_frag h (p_data old) (hd (p_frags old))) (\<lambda>bs.
        if p_headroom old + length bs \<le> length (p_data to) then
          Inr (to\<lparr>p_frags := (hd (p_frags to))\<lparr>frag_base := InData (int (p_headroom old))\<rparr>
                             # tl (p_frags to),
                  p_data := overwrite (p_headroom old) bs (p_data to)\<rparr>)
        else Inl OutOfRange))"

definition impl_copy :: "heap \<Rightarrow> packet \<Rightarrow> nat \<Rightarrow> packet result" where
  "impl_copy h old nr =
     andThen (impl_allocate h nr) (\<lambda>n.
       copy_internal_fragment_to h old
         (n\<lparr>p_len := p_len old, p_frags := p_frags old, p_headroom := p_headroom old,
            p_offload_info := p_offload_info old, p_rss_hash := p_rss_hash old\<rparr>))"

definition allocate_if_needed :: "heap \<Rightarrow> packet \<Rightarrow> nat \<Rightarrow> packet result" where
  "allocate_if_needed h old extra_frags =
     (let nr = length (p_frags old) in
      if nr + extra_frags \<le> p_allocated_frags old then Inr old
      else impl_copy h old (max (nr + extra_frags) (2 * nr)))"

subsection \<open>Constructors\<close>

definition packet_empty :: "heap \<Rightarrow> packet result" where
  "packet_empty h = impl_allocate h 1"

text \<open>\<open>packet(fragment)\<close>: copy the data, into the internal array when it fits.\<close>

definition packet_copy :: "heap \<Rightarrow> bytes \<Rightarrow> (heap \<times> packet) result" where
  "packet_copy h bs =
     (let n = length bs;
          base = \<lparr>p_len = len32 n, p_frags = [], p_allocated_frags = default_nr_frags,
                  p_offload_info = offload_info_init, p_rss_hash = None,
                  p_data = fresh_bytes h internal_data_size, p_headroom = internal_data_size\<rparr>
      in if n \<le> internal_data_size then
           (let hr = internal_data_size - n in
            Inr (h, base\<lparr>p_headroom := hr, p_data := overwrite hr bs (p_data base),
                         p_frags := [\<lparr>frag_base = InData (int hr), frag_size = n\<rparr>]\<rparr>))
         else
           (let (h', buf) = alloc_buf h bs in
            Inr (h', base\<lparr>p_frags := [\<lparr>frag_base = buf, frag_size = n\<rparr>]\<rparr>)))"

text \<open>\<open>packet(std::vector<fragment>, deleter)\<close> and the one fragment case: no copy.\<close>

definition packet_of_frags :: "heap \<Rightarrow> fragment list \<Rightarrow> packet result" where
  "packet_of_frags h fs =
     andThen (impl_allocate h (length fs)) (\<lambda>p.
       Inr (p\<lparr>p_frags := fs, p_len := len32 (sum_list (map frag_size fs))\<rparr>))"

text \<open>\<open>packet(packet &&x, fragment)\<close>: append a copy. \<open>packet(packet &&x, fragment, deleter)\<close>:
  append without copying.\<close>

definition packet_append_copy :: "heap \<Rightarrow> packet \<Rightarrow> bytes \<Rightarrow> (heap \<times> packet) result" where
  "packet_append_copy h x bs =
     andThen (allocate_if_needed h x 1) (\<lambda>p.
       (let (h', buf) = alloc_buf h bs in
        Inr (h', p\<lparr>p_len := len32 (p_len p + length bs),
                   p_frags := p_frags p @ [\<lparr>frag_base = buf, frag_size = length bs\<rparr>]\<rparr>)))"

definition packet_append_frag :: "heap \<Rightarrow> packet \<Rightarrow> fragment \<Rightarrow> packet result" where
  "packet_append_frag h x f =
     andThen (allocate_if_needed h x 1) (\<lambda>p.
       Inr (p\<lparr>p_len := len32 (p_len p + frag_size f), p_frags := p_frags p @ [f]\<rparr>))"

subsection \<open>Prepending\<close>

definition allocate_headroom :: "heap \<Rightarrow> packet \<Rightarrow> nat \<Rightarrow> (bool \<times> packet) result" where
  "allocate_headroom h p sz =
     (if sz \<le> p_headroom p then
        (let p1 = p\<lparr>p_len := len32 (p_len p + sz)\<rparr> in
         andThen
           (if \<not> using_internal_data (p_frags p1) then
              andThen (allocate_if_needed h p1 1) (\<lambda>p2.
                Inr (p2\<lparr>p_frags := \<lparr>frag_base = InData (int internal_data_size), frag_size = 0\<rparr>
                                    # p_frags p2\<rparr>))
            else Inr p1)
           (\<lambda>p3. Inr (True,
              p3\<lparr>p_headroom := p_headroom p3 - sz,
                 p_frags := \<lparr>frag_base = ptr_add (frag_base (hd (p_frags p3))) (- int sz),
                              frag_size = frag_size (hd (p_frags p3)) + sz\<rparr>
                            # tl (p_frags p3)\<rparr>)))
      else Inr (False, p))"

text \<open>Storing bytes through the pointer to the first fragment.\<close>

definition store_front :: "heap \<Rightarrow> packet \<Rightarrow> bytes \<Rightarrow> (heap \<times> packet) result" where
  "store_front h p bs =
     (case p_frags p of
        [] \<Rightarrow> Inl NullDeref
      | f # _ \<Rightarrow>
          (case frag_base f of
             InData off \<Rightarrow>
               if in_range off (length bs) (p_data p)
               then Inr (h, p\<lparr>p_data := overwrite (nat off) bs (p_data p)\<rparr>) else Inl OutOfRange
           | Heap b off \<Rightarrow>
               if b < length (bufs h) \<and> in_range off (length bs) (bufs h ! b)
               then Inr (h\<lparr>bufs := (bufs h)[b := overwrite (nat off) bs (bufs h ! b)]\<rparr>, p)
               else Inl OutOfRange))"

definition packet_prepend_copy :: "heap \<Rightarrow> bytes \<Rightarrow> packet \<Rightarrow> (heap \<times> packet) result" where
  "packet_prepend_copy h bs x =
     andThen (allocate_headroom h x (length bs)) (\<lambda>(ok, p).
       if ok then store_front h p bs
       else andThen (unuse_internal_data h p) (\<lambda>(h1, p1).
         andThen (allocate_if_needed h1 p1 1) (\<lambda>p2.
           (let (h2, buf) = alloc_buf h1 bs in
            Inr (h2, p2\<lparr>p_len := len32 (p_len p2 + length bs),
                        p_frags := \<lparr>frag_base = buf, frag_size = length bs\<rparr> # p_frags p2\<rparr>)))))"

definition prepend_uninitialized_header :: "heap \<Rightarrow> packet \<Rightarrow> nat \<Rightarrow> (heap \<times> packet) result" where
  "prepend_uninitialized_header h x sz =
     andThen (allocate_headroom h x sz) (\<lambda>(ok, p).
       if ok then Inr (h, p)
       else andThen (unuse_internal_data h p) (\<lambda>(h1, p1).
         andThen (allocate_headroom h1 p1 sz) (\<lambda>(ok2, p2).
           if ok2 then Inr (h1, p2)
           else andThen (allocate_if_needed h1 (p2\<lparr>p_len := len32 (p_len p2 + sz)\<rparr>) 1) (\<lambda>p3.
             (let (h2, buf) = alloc_buf h1 (fresh_bytes h1 sz) in
              Inr (h2, p3\<lparr>p_frags := \<lparr>frag_base = buf, frag_size = sz\<rparr> # p_frags p3\<rparr>))))))"

text \<open>A header is prepended and then written through the returned pointer.\<close>

definition prepend_header :: "heap \<Rightarrow> packet \<Rightarrow> bytes \<Rightarrow> (heap \<times> packet) result" where
  "prepend_header h x hdr =
     andThen (prepend_uninitialized_header h x (length hdr)) (\<lambda>(h1, p). store_front h1 p hdr)"

subsection \<open>Appending, sharing, trimming, linearizing\<close>

definition packet_append :: "heap \<Rightarrow> packet \<Rightarrow> packet \<Rightarrow> (heap \<times> packet) result" where
  "packet_append h x p =
     (if p_len x = 0 then Inr (h, p)
      else andThen (allocate_if_needed h x (length (p_frags p))) (\<lambda>x1.
        andThen (unuse_internal_data h p) (\<lambda>(h1, p1).
          Inr (h1, x1\<lparr>p_len := len32 (p_len x1 + p_len p1), p_frags := p_frags x1 @ p_frags p1\<rparr>))))"

text \<open>The two loops of \<open>share\<close>: skip whole fragments, then take views.\<close>

fun share_skip :: "nat \<Rightarrow> fragment list \<Rightarrow> (nat \<times> fragment list) result" where
  "share_skip offset fs =
     (if offset = 0 then Inr (0, fs)
      else (case fs of
              [] \<Rightarrow> Inl OutOfRange
            | f # rest \<Rightarrow>
                if frag_size f \<le> offset then share_skip (offset - frag_size f) rest
                else Inr (offset, fs)))"

fun share_take :: "nat \<Rightarrow> nat \<Rightarrow> fragment list \<Rightarrow> (fragment list) result" where
  "share_take offset remaining fs =
     (if remaining = 0 then Inr []
      else (case fs of
              [] \<Rightarrow> Inl OutOfRange
            | f # rest \<Rightarrow>
                (let fsize = min remaining (frag_size f - offset) in
                 andThen (share_take 0 (remaining - fsize) rest) (\<lambda>gs.
                   Inr (\<lparr>frag_base = ptr_add (frag_base f) (int offset), frag_size = fsize\<rparr>
                        # gs)))))"

declare share_skip.simps [simp del] share_take.simps [simp del]

text \<open>\<open>share\<close> also changes the shared packet: its internal data is moved to the heap.\<close>

definition packet_share ::
  "heap \<Rightarrow> packet \<Rightarrow> nat \<Rightarrow> nat \<Rightarrow> (heap \<times> packet \<times> packet) result" where
  "packet_share h p offset len =
     andThen (unuse_internal_data h p) (\<lambda>(h1, p1).
       andThen (packet_empty h1) (\<lambda>n0.
         andThen (allocate_if_needed h1 n0 (length (p_frags p1))) (\<lambda>n.
           andThen (share_skip offset (p_frags p1)) (\<lambda>(off, fs).
             andThen (share_take off len fs) (\<lambda>gs.
               Inr (h1, p1, n\<lparr>p_frags := gs, p_len := len32 (sum_list (map frag_size gs)),
                              p_offload_info := p_offload_info p1\<rparr>))))))"

fun drop_front :: "nat \<Rightarrow> fragment list \<Rightarrow> (nat \<times> fragment list) result" where
  "drop_front how_much fs =
     (if how_much = 0 then Inr (0, fs)
      else (case fs of
              [] \<Rightarrow> Inl OutOfRange
            | f # rest \<Rightarrow>
                if frag_size f \<le> how_much then drop_front (how_much - frag_size f) rest
                else Inr (how_much, fs)))"

declare drop_front.simps [simp del]

definition trim_front :: "packet \<Rightarrow> nat \<Rightarrow> packet result" where
  "trim_front p how_much =
     (if \<not> how_much \<le> p_len p then Inl AssertFailed
      else andThen (drop_front how_much (p_frags p)) (\<lambda>(rest, fs).
        (let internal = using_internal_data fs;
             p1 = p\<lparr>p_len := p_len p - how_much, p_frags := fs,
                    p_headroom := (if internal then p_headroom p else internal_data_size)\<rparr>
         in if rest = 0 then Inr p1
            else Inr (p1\<lparr>p_headroom := (if internal then p_headroom p1 + rest
                                        else p_headroom p1),
                         p_frags := \<lparr>frag_base = ptr_add (frag_base (hd fs)) (int rest),
                                      frag_size = frag_size (hd fs) - rest\<rparr> # tl fs\<rparr>))))"

text \<open>\<open>trim_back\<close> walks from the last fragment; the list is kept reversed here.\<close>

definition trim_back :: "packet \<Rightarrow> nat \<Rightarrow> packet result" where
  "trim_back p how_much =
     (if \<not> how_much \<le> p_len p then Inl AssertFailed
      else andThen (drop_front how_much (rev (p_frags p))) (\<lambda>(rest, rfs).
        (let fs = rev rfs;
             p1 = p\<lparr>p_len := p_len p - how_much, p_frags := fs\<rparr>
         in if rest = 0 then Inr p1
            else
              (let fs' = butlast fs @ [(last fs)\<lparr>frag_size := frag_size (last fs) - rest\<rparr>]
               in Inr (p1\<lparr>p_frags := fs',
                          p_headroom := (if length fs = 1 \<and> using_internal_data fs'
                                         then p_headroom p + rest else p_headroom p)\<rparr>)))))"

fun count_frags :: "nat \<Rightarrow> fragment list \<Rightarrow> nat result" where
  "count_frags desired fs =
     (if desired = 0 then Inr 0
      else (case fs of
              [] \<Rightarrow> Inl OutOfRange
            | f # rest \<Rightarrow>
                andThen (count_frags (desired - frag_size f) rest) (\<lambda>n. Inr (Suc n))))"

declare count_frags.simps [simp del]

fun read_frags :: "heap \<Rightarrow> bytes \<Rightarrow> fragment list \<Rightarrow> bytes result" where
  "read_frags h data [] = Inr []"
| "read_frags h data (f # fs) =
     andThen (read_frag h data f) (\<lambda>bs. andThen (read_frags h data fs) (\<lambda>r. Inr (bs @ r)))"

definition linearize :: "heap \<Rightarrow> packet \<Rightarrow> nat \<Rightarrow> nat \<Rightarrow> (heap \<times> packet) result" where
  "linearize h p at_frag desired_size =
     andThen (unuse_internal_data h p) (\<lambda>(h1, p1).
       andThen (count_frags desired_size (drop at_frag (p_frags p1))) (\<lambda>nr.
         andThen (read_frags h1 (p_data p1) (take nr (drop at_frag (p_frags p1)))) (\<lambda>bs.
           (let (h2, buf) = alloc_buf h1 bs in
            Inr (h2, p1\<lparr>p_frags := take at_frag (p_frags p1)
                           @ [\<lparr>frag_base = buf, frag_size = length bs\<rparr>]
                           @ drop (at_frag + nr) (p_frags p1)\<rparr>)))))"

text \<open>\<open>get_header\<close>: the fragment index and offset at which the header can be read, or none.\<close>

fun find_header :: "nat \<Rightarrow> nat \<Rightarrow> fragment list \<Rightarrow> (nat \<times> nat) option" where
  "find_header i offset [] = None"
| "find_header i offset (f # fs) =
     (if frag_size f \<le> offset then find_header (Suc i) (offset - frag_size f) fs
      else Some (i, offset))"

definition get_header ::
  "heap \<Rightarrow> packet \<Rightarrow> nat \<Rightarrow> nat \<Rightarrow> (heap \<times> packet \<times> ptr option) result" where
  "get_header h p offset sz =
     (if p_len p < offset + sz then Inr (h, p, None)
      else (case find_header 0 offset (p_frags p) of
              None \<Rightarrow> Inr (h, p, None)
            | Some (i, off) \<Rightarrow>
                andThen (if frag_size (p_frags p ! i) < off + sz
                         then linearize h p i (off + sz) else Inr (h, p))
                  (\<lambda>(h1, p1).
                     Inr (h1, p1, Some (ptr_add (frag_base (p_frags p1 ! i)) (int off))))))"

subsection \<open>Reserving, releasing and handing to another core\<close>

definition packet_reserve :: "heap \<Rightarrow> packet \<Rightarrow> nat \<Rightarrow> packet result" where
  "packet_reserve h p n_frags =
     (if length (p_frags p) < n_frags
      then allocate_if_needed h p (n_frags - length (p_frags p)) else Inr p)"

text \<open>\<open>release_into\<close> hands the contents out as one buffer per fragment, in order.\<close>

fun release_into :: "heap \<Rightarrow> bytes \<Rightarrow> fragment list \<Rightarrow> (bytes list) result" where
  "release_into h data [] = Inr []"
| "release_into h data (f # fs) =
     andThen (read_frag h data f) (\<lambda>bs. andThen (release_into h data fs) (\<lambda>r. Inr (bs # r)))"

definition free_on_cpu :: "heap \<Rightarrow> packet \<Rightarrow> packet result" where
  "free_on_cpu h p = impl_copy h p (length (p_frags p))"

subsection \<open>The class invariant and the bytes of a packet\<close>

text \<open>
  A plain fragment lies in a heap buffer, or is an empty fragment at the end of \<open>_data\<close>. The
  first fragment may instead lie in \<open>_data\<close>, and then its base is \<open>_data + _headroom\<close>.
\<close>

definition plain_ok :: "heap \<Rightarrow> fragment \<Rightarrow> bool" where
  "plain_ok h f =
     (case frag_base f of
        InData off \<Rightarrow> off = int internal_data_size \<and> frag_size f = 0
      | Heap b off \<Rightarrow> b < length (bufs h) \<and> in_range off (frag_size f) (bufs h ! b))"

definition internal_ok :: "nat \<Rightarrow> fragment \<Rightarrow> bool" where
  "internal_ok hr f \<longleftrightarrow>
     frag_base f = InData (int hr) \<and> hr + frag_size f \<le> internal_data_size"

definition packet_core :: "heap \<Rightarrow> packet \<Rightarrow> bool" where
  "packet_core h p \<longleftrightarrow>
     length (p_data p) = internal_data_size \<and>
     (if p_headroom p < internal_data_size
      then p_frags p \<noteq> [] \<and> internal_ok (p_headroom p) (hd (p_frags p)) \<and>
           list_all (plain_ok h) (tl (p_frags p))
      else p_headroom p = internal_data_size \<and> list_all (plain_ok h) (p_frags p))"

definition packet_wf :: "heap \<Rightarrow> packet \<Rightarrow> bool" where
  "packet_wf h p \<longleftrightarrow> packet_core h p \<and> p_len p = len32 (sum_list (map frag_size (p_frags p)))"

definition frag_bytes :: "heap \<Rightarrow> bytes \<Rightarrow> fragment \<Rightarrow> bytes" where
  "frag_bytes h data f =
     (case frag_base f of
        InData off \<Rightarrow> slice (nat off) (frag_size f) data
      | Heap b off \<Rightarrow> slice (nat off) (frag_size f) (bufs h ! b))"

definition packet_bytes :: "heap \<Rightarrow> packet \<Rightarrow> bytes" where
  "packet_bytes h p = concat (map (frag_bytes h (p_data p)) (p_frags p))"

text \<open>The heap only grows by new buffers; old ones keep their contents.\<close>

definition heap_le :: "heap \<Rightarrow> heap \<Rightarrow> bool" where
  "heap_le h h' \<longleftrightarrow> (\<exists>x. bufs h' = bufs h @ x) \<and> raw h' = raw h"

lemma heap_le_refl [simp]: "heap_le h h"
  by (simp add: heap_le_def)

lemma heap_le_trans: "heap_le a b \<Longrightarrow> heap_le b c \<Longrightarrow> heap_le a c"
  by (auto simp: heap_le_def)

lemma heap_le_alloc: "alloc_buf h bs = (h', b) \<Longrightarrow> heap_le h h'"
  by (auto simp: heap_le_def alloc_buf_def)

lemma length_slice [simp]: "off + n \<le> length bs \<Longrightarrow> length (slice off n bs) = n"
  by (simp add: slice_def)

lemma slice_0 [simp]: "slice off 0 bs = []"
  by (simp add: slice_def)

lemma length_overwrite [simp]: "off + length new \<le> length bs \<Longrightarrow> length (overwrite off new bs) = length bs"
  by (simp add: overwrite_def)

lemma slice_overwrite_same: "off \<le> length bs \<Longrightarrow> slice off (length new) (overwrite off new bs) = new"
  by (simp add: slice_def overwrite_def)

lemma slice_overwrite_front:
  "off + length new + n \<le> length bs \<Longrightarrow>
     slice off (length new + n) (overwrite off new bs) = new @ slice (off + length new) n bs"
  by (simp add: slice_def overwrite_def)

lemma plain_ok_mono: "plain_ok h f \<Longrightarrow> heap_le h h' \<Longrightarrow> plain_ok h' f"
  by (auto simp: plain_ok_def heap_le_def in_range_def nth_append split: ptr.splits)

lemma list_plain_ok_mono: "list_all (plain_ok h) fs \<Longrightarrow> heap_le h h' \<Longrightarrow> list_all (plain_ok h') fs"
  by (auto simp: list_all_iff intro: plain_ok_mono)

lemma packet_core_mono: "packet_core h p \<Longrightarrow> heap_le h h' \<Longrightarrow> packet_core h' p"
  by (auto simp: packet_core_def intro: list_plain_ok_mono)

lemma packet_wf_mono: "packet_wf h p \<Longrightarrow> heap_le h h' \<Longrightarrow> packet_wf h' p"
  by (auto simp: packet_wf_def intro: packet_core_mono)

lemma plain_bytes_frame:
  "plain_ok h f \<Longrightarrow> heap_le h h' \<Longrightarrow> frag_bytes h' d' f = frag_bytes h d f"
  by (auto simp: plain_ok_def frag_bytes_def heap_le_def nth_append split: ptr.splits)

lemma list_plain_bytes_frame:
  "list_all (plain_ok h) fs \<Longrightarrow> heap_le h h' \<Longrightarrow>
     map (frag_bytes h' d') fs = map (frag_bytes h d) fs"
  by (auto simp: list_all_iff intro: plain_bytes_frame)

lemma concat_plain_bytes_frame:
  "list_all (plain_ok h) fs \<Longrightarrow> heap_le h h' \<Longrightarrow>
     concat (map (frag_bytes h' d') fs) = concat (map (frag_bytes h d) fs)"
  by (rule arg_cong [where f = concat]) (rule list_plain_bytes_frame)

lemma internal_bytes_frame:
  "internal_ok hr f \<Longrightarrow> frag_bytes h' d f = frag_bytes h d f"
  by (auto simp: internal_ok_def frag_bytes_def)

lemma packet_bytes_frame:
  "packet_core h p \<Longrightarrow> heap_le h h' \<Longrightarrow> packet_bytes h' p = packet_bytes h p"
  by (cases "p_frags p")
    (auto simp: packet_core_def packet_bytes_def split: if_splits
      intro!: arg_cong2 [where f = append] arg_cong [where f = concat] list_plain_bytes_frame
      intro: plain_bytes_frame internal_bytes_frame)

lemma read_plain:
  "plain_ok h f \<Longrightarrow> length d = internal_data_size \<Longrightarrow> read_frag h d f = Inr (frag_bytes h d f)"
  by (auto simp: plain_ok_def read_frag_def frag_bytes_def in_range_def split: ptr.splits)

lemma read_internal:
  "internal_ok hr f \<Longrightarrow> length d = internal_data_size \<Longrightarrow> read_frag h d f = Inr (frag_bytes h d f)"
  by (auto simp: internal_ok_def read_frag_def frag_bytes_def in_range_def)

lemma length_plain_bytes: "plain_ok h f \<Longrightarrow> length (frag_bytes h d f) = frag_size f"
  by (auto simp: plain_ok_def frag_bytes_def in_range_def split: ptr.splits)

lemma length_internal_bytes:
  "internal_ok hr f \<Longrightarrow> length d = internal_data_size \<Longrightarrow> length (frag_bytes h d f) = frag_size f"
  by (auto simp: internal_ok_def frag_bytes_def)

lemma length_list_plain_bytes:
  "list_all (plain_ok h) fs \<Longrightarrow>
     length (concat (map (frag_bytes h d) fs)) = sum_list (map frag_size fs)"
  by (induction fs) (auto simp: length_plain_bytes)

lemma length_core_bytes: "packet_core h p \<Longrightarrow> length (packet_bytes h p) = sum_list (map frag_size (p_frags p))"
  by (cases "p_frags p")
    (auto simp: packet_core_def packet_bytes_def length_plain_bytes length_internal_bytes length_list_plain_bytes
      split: if_splits)

text \<open>The lengths a packet can count.\<close>

abbreviation (input) countable_len :: "bytes \<Rightarrow> bool" where
  "countable_len bs \<equiv> length bs < 4294967296"

lemma length_packet_bytes:
  assumes "packet_wf h p" "countable_len (packet_bytes h p)"
  shows "length (packet_bytes h p) = p_len p" "p_len p = sum_list (map frag_size (p_frags p))"
  using assms length_core_bytes [of h p] by (simp_all add: packet_wf_def)

lemma using_internal_iff:
  "packet_core h p \<Longrightarrow> using_internal_data (p_frags p) \<longleftrightarrow> p_headroom p < internal_data_size"
  by (cases "p_frags p")
    (auto simp: packet_core_def internal_ok_def plain_ok_def split: if_splits ptr.splits)

subsection \<open>The allocation helpers keep the bytes\<close>

lemma length_fresh_bytes [simp]: "length (fresh_bytes h n) = n"
  by (simp add: fresh_bytes_def)

lemma impl_allocate_ok:
  "nr < 65536 \<Longrightarrow> \<exists>p. impl_allocate h nr = Inr p \<and> packet_wf h p \<and> p_frags p = [] \<and>
     nr \<le> p_allocated_frags p \<and> p_len p = 0 \<and> length (p_data p) = internal_data_size \<and>
     p_headroom p = internal_data_size"
  by (auto simp: impl_allocate_def packet_wf_def packet_core_def Let_def)

lemma unuse_internal_data_ok:
  assumes "packet_core h p"
  shows "\<exists>h' p'. unuse_internal_data h p = Inr (h', p') \<and> heap_le h h' \<and> packet_core h' p' \<and>
    p_headroom p' = internal_data_size \<and> packet_bytes h' p' = packet_bytes h p \<and>
    map frag_size (p_frags p') = map frag_size (p_frags p) \<and> p_len p' = p_len p \<and>
    p_offload_info p' = p_offload_info p \<and> p_allocated_frags p' = p_allocated_frags p"
proof (cases "p_headroom p < internal_data_size")
  case False
  then have "unuse_internal_data h p = Inr (h, p)"
    using assms by (simp add: unuse_internal_data_def using_internal_iff)
  with False assms show ?thesis by (auto simp: packet_core_def)
next
  case True
  then obtain f fs where fs: "p_frags p = f # fs" "internal_ok (p_headroom p) f"
      "list_all (plain_ok h) fs" and d: "length (p_data p) = internal_data_size"
    using assms by (cases "p_frags p") (auto simp: packet_core_def)
  define bs where "bs = frag_bytes h (p_data p) f"
  define h' where "h' = h\<lparr>bufs := bufs h @ [bs]\<rparr>"
  define g where "g = f\<lparr>frag_base := Heap (length (bufs h)) 0\<rparr>"
  have le: "heap_le h h'" by (simp add: h'_def heap_le_def)
  have n: "length bs = frag_size f" using fs d by (simp add: bs_def length_internal_bytes)
  have "plain_ok h' g" "frag_bytes h' d' g = bs" for d'
    using n by (simp_all add: plain_ok_def g_def h'_def in_range_def frag_bytes_def slice_def)
  moreover have "concat (map (frag_bytes h' (p_data p)) fs) = concat (map (frag_bytes h (p_data p)) fs)"
    by (rule concat_plain_bytes_frame [OF fs(3) le])
  moreover have "unuse_internal_data h p =
      Inr (h', p\<lparr>p_frags := g # fs, p_headroom := internal_data_size\<rparr>)"
    using True fs read_internal [OF fs(2) d, of h]
    by (simp add: unuse_internal_data_def internal_ok_def alloc_buf_def g_def h'_def bs_def)
  ultimately show ?thesis
    using fs d le list_plain_ok_mono [OF fs(3) le]
    by (simp add: packet_core_def packet_bytes_def bs_def g_def)
qed

lemma impl_copy_ok:
  assumes "packet_core h p" and "nr < 65536"
  shows "\<exists>q. impl_copy h p nr = Inr q \<and> packet_core h q \<and> packet_bytes h q = packet_bytes h p \<and>
    p_frags q = p_frags p \<and> p_headroom q = p_headroom p \<and> p_len q = p_len p \<and>
    p_offload_info q = p_offload_info p \<and> nr \<le> p_allocated_frags q"
proof -
  obtain n where n: "impl_allocate h nr = Inr n" "nr \<le> p_allocated_frags n"
      "length (p_data n) = internal_data_size"
    using impl_allocate_ok [OF assms(2), of h] by blast
  let ?n = "n\<lparr>p_len := p_len p, p_frags := p_frags p, p_headroom := p_headroom p,
            p_offload_info := p_offload_info p, p_rss_hash := p_rss_hash p\<rparr>"
  show ?thesis
  proof (cases "p_headroom p < internal_data_size")
    case False
    then have "list_all (plain_ok h) (p_frags p)" "p_headroom p = internal_data_size"
      using assms(1) by (auto simp: packet_core_def)
    then show ?thesis
      using False assms n concat_plain_bytes_frame [of h "p_frags p" h "p_data n" "p_data p"]
      by (simp add: impl_copy_def copy_internal_fragment_to_def using_internal_iff
          packet_core_def packet_bytes_def)
  next
    case True
    then obtain f fs where fs: "p_frags p = f # fs" "internal_ok (p_headroom p) f"
        "list_all (plain_ok h) fs" and d: "length (p_data p) = internal_data_size"
      using assms by (cases "p_frags p") (auto simp: packet_core_def)
    define bs where "bs = frag_bytes h (p_data p) f"
    define q where "q = ?n\<lparr>p_data := overwrite (p_headroom p) bs (p_data n)\<rparr>"
    have len: "length bs = frag_size f" using fs d by (simp add: bs_def length_internal_bytes)
    have hr: "p_headroom p + frag_size f \<le> internal_data_size"
        and b: "frag_base f = InData (int (p_headroom p))"
      using fs by (auto simp: internal_ok_def)
    have "impl_copy h p nr = Inr q"
      using True assms fs n read_internal [OF fs(2) d, of h] len hr b
      by (simp add: impl_copy_def copy_internal_fragment_to_def using_internal_iff bs_def q_def)
    moreover have "length (p_data q) = internal_data_size"
      using n hr len by (simp add: q_def)
    moreover have "frag_bytes h (p_data q) f = bs"
      using hr b n slice_overwrite_same [of "p_headroom p" "p_data n" bs]
      by (simp add: frag_bytes_def q_def len)
    ultimately show ?thesis
      using fs True n concat_plain_bytes_frame [OF fs(3), of h "p_data q" "p_data p"]
      by (simp add: packet_core_def packet_bytes_def q_def bs_def)
  qed
qed

lemma allocate_if_needed_ok:
  assumes "packet_core h p" and "length (p_frags p) + extra < 32768"
  shows "\<exists>q. allocate_if_needed h p extra = Inr q \<and> packet_core h q \<and>
    packet_bytes h q = packet_bytes h p \<and> p_frags q = p_frags p \<and>
    p_headroom q = p_headroom p \<and> p_len q = p_len p \<and> p_offload_info q = p_offload_info p"
proof (cases "length (p_frags p) + extra \<le> p_allocated_frags p")
  case True
  then show ?thesis using assms by (simp add: allocate_if_needed_def)
next
  case False
  have "max (length (p_frags p) + extra) (2 * length (p_frags p)) < 65536"
    using assms(2) by simp
  from impl_copy_ok [OF assms(1) this] False show ?thesis
    by (auto simp: allocate_if_needed_def)
qed

subsection \<open>Views of a fragment\<close>

definition frag_view :: "fragment \<Rightarrow> nat \<Rightarrow> nat \<Rightarrow> fragment" where
  "frag_view f off n = \<lparr>frag_base = ptr_add (frag_base f) (int off), frag_size = n\<rparr>"

lemma slice_slice: "off + n \<le> m \<Longrightarrow> slice (b + off) n bs = slice off n (slice b m bs)"
  by (simp add: slice_def drop_take min_absorb1 add.commute)

lemma frag_view_plain:
  assumes "plain_ok h f" "off + n \<le> frag_size f" "0 < frag_size f \<or> off = 0"
  shows "plain_ok h (frag_view f off n)"
    and "frag_bytes h d (frag_view f off n) = slice off n (frag_bytes h d f)"
proof -
  show "plain_ok h (frag_view f off n)"
    using assms by (auto simp: plain_ok_def frag_view_def in_range_def split: ptr.splits)
  show "frag_bytes h d (frag_view f off n) = slice off n (frag_bytes h d f)"
  proof (cases "frag_base f")
    case (InData b)
    then have "off = 0" "n = 0" using assms by (auto simp: plain_ok_def)
    then show ?thesis using InData by (simp add: frag_bytes_def frag_view_def)
  next
    case (Heap b o')
    then have "0 \<le> o'" using assms by (simp add: plain_ok_def in_range_def)
    then show ?thesis
      using Heap assms(2) slice_slice [of off n "frag_size f" "nat o'" "bufs h ! b"]
      by (simp add: frag_bytes_def frag_view_def nat_add_distrib)
  qed
qed

lemma frag_view_internal:
  assumes "internal_ok hr f" "off + n \<le> frag_size f"
  shows "internal_ok (hr + off) (frag_view f off n)"
    and "frag_bytes h d (frag_view f off n) = slice off n (frag_bytes h d f)"
  using assms slice_slice [of off n "frag_size f" hr d]
  by (auto simp: internal_ok_def frag_view_def frag_bytes_def nat_add_distrib)

subsection \<open>Skipping fragments\<close>

lemma drop_front_ok:
  "n \<le> sum_list (map frag_size fs) \<Longrightarrow>
     \<exists>r pre gs. drop_front n fs = Inr (r, gs) \<and> fs = pre @ gs \<and>
       sum_list (map frag_size pre) + r = n \<and> (0 < r \<longrightarrow> gs \<noteq> [] \<and> r < frag_size (hd gs))"
proof (induction n fs rule: drop_front.induct)
  case (1 n fs)
  show ?case
  proof (cases "n = 0")
    case True
    show ?thesis unfolding True
      by (rule exI [of _ 0], rule exI [of _ "[]"], rule exI [of _ fs],
          simp add: drop_front.simps)
  next
    case False
    then obtain f rest where fs: "fs = f # rest" using "1.prems" by (cases fs) auto
    show ?thesis
    proof (cases "frag_size f \<le> n")
      case True
      have "n - frag_size f \<le> sum_list (map frag_size rest)"
        using "1.prems" fs True by simp
      then obtain r pre gs where g:
        "drop_front (n - frag_size f) rest = Inr (r, gs)" "rest = pre @ gs"
        "sum_list (map frag_size pre) + r = n - frag_size f"
        "0 < r \<longrightarrow> gs \<noteq> [] \<and> r < frag_size (hd gs)"
        using "1.IH" [OF False fs True] by blast
      have "drop_front n fs = Inr (r, gs)" "fs = (f # pre) @ gs"
          "sum_list (map frag_size (f # pre)) + r = n"
        using g False fs True by (simp_all add: drop_front.simps [of n "f # pre @ gs"])
      with g(4) show ?thesis by blast
    next
      case F: False
      then have "drop_front n fs = Inr (n, fs)" "fs = [] @ fs" "n < frag_size (hd fs)" "fs \<noteq> []"
        using False fs by (simp_all add: drop_front.simps [of n "f # rest"])
      then show ?thesis by (metis add.left_neutral list.simps(8) sum_list.Nil)
    qed
  qed
qed

lemma share_skip_eq: "share_skip n fs = drop_front n fs"
proof (induction n fs rule: drop_front.induct)
  case (1 n fs)
  then show ?case
    by (auto simp: share_skip.simps [of n fs] drop_front.simps [of n fs] split: list.splits)
qed

text \<open>The first of the remaining fragments loses its first \<open>r\<close> bytes.\<close>

definition cut_hd :: "nat \<Rightarrow> fragment list \<Rightarrow> fragment list" where
  "cut_hd r gs = (if r = 0 then gs else frag_view (hd gs) r (frag_size (hd gs) - r) # tl gs)"

lemma cut_hd_plain:
  assumes "list_all (plain_ok h) gs" "0 < r \<longrightarrow> gs \<noteq> [] \<and> r < frag_size (hd gs)"
  shows "list_all (plain_ok h) (cut_hd r gs)"
    and "concat (map (frag_bytes h d) (cut_hd r gs)) = drop r (concat (map (frag_bytes h d) gs))"
proof -
  have "list_all (plain_ok h) (cut_hd r gs) \<and>
    concat (map (frag_bytes h d) (cut_hd r gs)) = drop r (concat (map (frag_bytes h d) gs))"
  proof (cases "r = 0")
    case True
    then show ?thesis using assms by (simp add: cut_hd_def)
  next
    case F: False
    then obtain f fs where fs: "gs = f # fs" "plain_ok h f" "list_all (plain_ok h) fs"
        "r < frag_size f"
      using assms by (cases gs) auto
    show ?thesis
      using fs F frag_view_plain [OF fs(2), of r "frag_size f - r"]
        length_plain_bytes [OF fs(2), of d]
      by (simp add: cut_hd_def slice_def)
  qed
  then show "list_all (plain_ok h) (cut_hd r gs)"
    and "concat (map (frag_bytes h d) (cut_hd r gs)) = drop r (concat (map (frag_bytes h d) gs))"
    by auto
qed

lemma plain_not_internal: "list_all (plain_ok h) gs \<Longrightarrow> \<not> using_internal_data gs"
  by (cases gs) (auto simp: plain_ok_def split: ptr.splits)

text \<open>The prefix of a packet's fragments, and the plain rest after at least one of them.\<close>

lemma core_prefix_bytes:
  assumes "packet_core h p" "p_frags p = pre @ gs"
  shows "length (concat (map (frag_bytes h (p_data p)) pre)) = sum_list (map frag_size pre)"
proof (cases pre)
  case Nil
  then show ?thesis by simp
next
  case (Cons a as)
  then show ?thesis
    using assms length_list_plain_bytes [of h as "p_data p"]
    by (auto simp: packet_core_def length_plain_bytes length_internal_bytes split: if_splits)
qed

lemma core_suffix_plain:
  assumes "packet_core h p" "p_frags p = pre @ gs" "pre \<noteq> [] \<or> \<not> p_headroom p < internal_data_size"
  shows "list_all (plain_ok h) gs"
  using assms by (cases pre) (auto simp: packet_core_def split: if_splits)

lemma trim_front_internal:
  assumes core: "packet_core h p" and hr: "p_headroom p < internal_data_size"
    and n: "0 < n \<longrightarrow> n < frag_size (hd (p_frags p))"
  shows "packet_core h (p\<lparr>p_len := l, p_frags := cut_hd n (p_frags p), p_headroom := p_headroom p + n\<rparr>)"
      (is "packet_core h ?q")
    and "packet_bytes h (p\<lparr>p_len := l, p_frags := cut_hd n (p_frags p),
           p_headroom := p_headroom p + n\<rparr>) = drop n (packet_bytes h p)"
proof -
  obtain f fs where fs: "p_frags p = f # fs" "internal_ok (p_headroom p) f"
      "list_all (plain_ok h) fs" and d: "length (p_data p) = internal_data_size"
    using core hr by (cases "p_frags p") (auto simp: packet_core_def)
  note v = frag_view_internal [OF fs(2), of n "frag_size f - n"]
  have "p_headroom p + n < internal_data_size"
    using n fs(1,2) hr by (auto simp: internal_ok_def)
  then show "packet_core h ?q" "packet_bytes h ?q = drop n (packet_bytes h p)"
    using hr fs d n v length_internal_bytes [OF fs(2) d, of h]
    by (auto simp: cut_hd_def packet_core_def packet_bytes_def slice_def)
qed

lemma trim_front_plain:
  assumes core: "packet_core h p" and fs: "p_frags p = pre @ gs"
    and r: "0 < r \<longrightarrow> gs \<noteq> [] \<and> r < frag_size (hd gs)" and pl: "list_all (plain_ok h) gs"
  shows "packet_core h (p\<lparr>p_len := l, p_frags := cut_hd r gs, p_headroom := internal_data_size\<rparr>)"
      (is "packet_core h ?q")
    and "packet_bytes h (p\<lparr>p_len := l, p_frags := cut_hd r gs, p_headroom := internal_data_size\<rparr>) =
          drop (sum_list (map frag_size pre) + r) (packet_bytes h p)"
  using core cut_hd_plain [OF pl r] core_prefix_bytes [OF core fs] fs
  by (simp_all add: packet_core_def packet_bytes_def)

lemma trim_front_ok:
  assumes wf: "packet_wf h p" and c: "countable_len (packet_bytes h p)" and n: "n \<le> p_len p"
  shows "\<exists>q. trim_front p n = Inr q \<and> packet_wf h q \<and> p_len q = p_len p - n \<and>
    packet_bytes h q = drop n (packet_bytes h p)"
proof -
  have len: "p_len p = sum_list (map frag_size (p_frags p))" and core: "packet_core h p"
    using wf length_packet_bytes(2) [OF wf c] by (auto simp: packet_wf_def)
  have small: "p_len p < 4294967296" using c length_packet_bytes(1) [OF wf c] by simp
  obtain r pre gs where g: "drop_front n (p_frags p) = Inr (r, gs)" "p_frags p = pre @ gs"
      "sum_list (map frag_size pre) + r = n" "0 < r \<longrightarrow> gs \<noteq> [] \<and> r < frag_size (hd gs)"
    using drop_front_ok [of n "p_frags p"] n len by auto
  define hr where
    "hr = (if using_internal_data gs then p_headroom p + r else internal_data_size)"
  define q where "q = p\<lparr>p_len := p_len p - n, p_frags := cut_hd r gs, p_headroom := hr\<rparr>"
  have q: "trim_front p n = Inr q"
    using n g(1) by (simp add: trim_front_def q_def cut_hd_def hr_def frag_view_def)
  have sz: "sum_list (map frag_size (cut_hd r gs)) = p_len p - n"
    using g len by (cases gs) (auto simp: cut_hd_def frag_view_def)
  have "packet_core h q \<and> packet_bytes h q = drop n (packet_bytes h p)"
  proof (cases "p_headroom p < internal_data_size \<and> pre = []")
    case True
    then have "using_internal_data gs" using using_internal_iff [OF core] g(2) by simp
    then show ?thesis
      using trim_front_internal [OF core] True g by (auto simp: q_def hr_def)
  next
    case False
    then have pl: "list_all (plain_ok h) gs" using core_suffix_plain [OF core g(2)] by blast
    show ?thesis
      using trim_front_plain [OF core g(2,4) pl] plain_not_internal [OF pl] g(3)
      by (simp add: q_def hr_def)
  qed
  then show ?thesis using q sz small by (auto simp: packet_wf_def q_def)
qed

subsection \<open>share\<close>

lemma share_take_ok:
  "list_all (plain_ok h) fs \<Longrightarrow> off = 0 \<or> (fs \<noteq> [] \<and> off < frag_size (hd fs)) \<Longrightarrow>
     off + rem \<le> sum_list (map frag_size fs) \<Longrightarrow>
     \<exists>gs. share_take off rem fs = Inr gs \<and> list_all (plain_ok h) gs \<and>
       sum_list (map frag_size gs) = rem \<and> length gs \<le> length fs \<and>
       concat (map (frag_bytes h d) gs) = take rem (drop off (concat (map (frag_bytes h d) fs)))"
proof (induction off rem fs rule: share_take.induct)
  case (1 off rem fs)
  show ?case
  proof (cases "rem = 0")
    case True
    then show ?thesis by (simp add: share_take.simps)
  next
    case False
    then obtain f rest where fs: "fs = f # rest" using "1.prems" by (cases fs) auto
    define k where "k = min rem (frag_size f - off)"
    have f: "plain_ok h f" and rest: "list_all (plain_ok h) rest"
        and off: "off = 0 \<or> off < frag_size f"
        and ok: "0 + (rem - k) \<le> sum_list (map frag_size rest)" "off + k \<le> frag_size f"
      using "1.prems" fs by (auto simp: k_def)
    obtain gs where gs: "share_take 0 (rem - k) rest = Inr gs" "list_all (plain_ok h) gs"
        "sum_list (map frag_size gs) = rem - k" "length gs \<le> length rest"
        "concat (map (frag_bytes h d) gs) = take (rem - k) (concat (map (frag_bytes h d) rest))"
      using "1.IH" [OF False fs k_def rest _ ok(1)] by auto
    have v: "plain_ok h (frag_view f off k)"
        "frag_bytes h d (frag_view f off k) = slice off k (frag_bytes h d f)"
      using frag_view_plain [OF f ok(2)] off by auto
    have "share_take off rem fs = Inr (frag_view f off k # gs)"
      using False fs gs(1)
      by (simp add: share_take.simps [of off rem "f # rest"] k_def frag_view_def)
    moreover have "slice off k (frag_bytes h d f) @ take (rem - k) (concat (map (frag_bytes h d) rest)) =
        take rem (drop off (concat (map (frag_bytes h d) fs)))"
      using fs off length_plain_bytes [OF f, of d] by (auto simp: slice_def k_def min_def)
    ultimately show ?thesis
      using v gs k_def fs by (auto simp: frag_view_def)
  qed
qed

lemma packet_share_ok:
  assumes "packet_wf h p" and "countable_len (packet_bytes h p)" and "offset + len \<le> p_len p" and "length (p_frags p) < 32768"
  shows "\<exists>h' p' n. packet_share h p offset len = Inr (h', p', n) \<and> heap_le h h' \<and>
    packet_wf h' p' \<and> packet_bytes h' p' = packet_bytes h p \<and> p_len p' = p_len p \<and>
    packet_wf h' n \<and> packet_bytes h' n = take len (drop offset (packet_bytes h p)) \<and>
    p_offload_info n = p_offload_info p \<and> length (p_frags n) \<le> length (p_frags p)"
proof -
  have core: "packet_core h p" and l: "p_len p = sum_list (map frag_size (p_frags p))"
    using assms(1) length_packet_bytes(2) [OF assms(1,2)] by (auto simp: packet_wf_def)
  have small: "sum_list (map frag_size (p_frags p)) < 4294967296" using l length_packet_bytes(1) [OF assms(1,2)] assms(2) by simp
  obtain h1 p1 where 1: "unuse_internal_data h p = Inr (h1, p1)" "heap_le h h1" "packet_core h1 p1"
      "p_headroom p1 = internal_data_size" "packet_bytes h1 p1 = packet_bytes h p"
      "map frag_size (p_frags p1) = map frag_size (p_frags p)" "p_len p1 = p_len p"
      "p_offload_info p1 = p_offload_info p"
    using unuse_internal_data_ok [OF core] by blast
  have pl: "list_all (plain_ok h1) (p_frags p1)" using 1 by (simp add: packet_core_def)
  obtain n0 where n0: "packet_empty h1 = Inr n0" "packet_wf h1 n0" "p_frags n0 = []"
      "p_headroom n0 = internal_data_size"
    using impl_allocate_ok [of 1 h1] by (auto simp: packet_empty_def)
  have lp: "length (p_frags p1) = length (p_frags p)" using 1(6) by (metis length_map)
  then obtain n where n: "allocate_if_needed h1 n0 (length (p_frags p1)) = Inr n" "packet_core h1 n"
      "p_headroom n = internal_data_size"
    using allocate_if_needed_ok [of h1 n0 "length (p_frags p1)"] n0 assms(4)
    by (auto simp: packet_wf_def)
  obtain r pre fs where s: "drop_front offset (p_frags p1) = Inr (r, fs)" "p_frags p1 = pre @ fs"
      "sum_list (map frag_size pre) + r = offset" "0 < r \<longrightarrow> fs \<noteq> [] \<and> r < frag_size (hd fs)"
    using drop_front_ok [of offset "p_frags p1"] assms(3) l 1(6) by auto
  have sum: "sum_list (map frag_size pre) + sum_list (map frag_size fs) = p_len p"
    using l 1(6) s(2) by (metis map_append sum_list_append)
  then obtain gs where gs: "share_take r len fs = Inr gs" "list_all (plain_ok h1) gs"
      "sum_list (map frag_size gs) = len" "length gs \<le> length fs" "concat (map (frag_bytes h1 (p_data n)) gs) =
         take len (drop r (concat (map (frag_bytes h1 (p_data n)) fs)))"
    using share_take_ok [of h1 fs r len "p_data n"] pl s assms(3) by auto
  have fr: "concat (map (frag_bytes h1 (p_data n)) fs) = concat (map (frag_bytes h1 (p_data p1)) fs)"
    using pl s(2) by (intro concat_plain_bytes_frame) auto
  have "take len (drop offset (packet_bytes h p)) = concat (map (frag_bytes h1 (p_data n)) gs)"
    unfolding 1(5) [symmetric] s(3) [symmetric] using core_prefix_bytes [OF 1(3) s(2)] s(2)
    by (simp add: gs fr packet_bytes_def)
  then show ?thesis
    using 1 n0 n s gs l lp small assms(3)
    by (simp add: packet_share_def share_skip_eq packet_wf_def packet_core_def packet_bytes_def)
qed

subsection \<open>append\<close>

lemma packet_append_ok:
  assumes x: "packet_wf h x" and p: "packet_wf h p" and c: "countable_len (packet_bytes h x)"
    and n: "length (p_frags x) + length (p_frags p) < 32768"
  shows "\<exists>h' q. packet_append h x p = Inr (h', q) \<and> heap_le h h' \<and> packet_wf h' q \<and>
    packet_bytes h' q = packet_bytes h x @ packet_bytes h p"
proof (cases "p_len x = 0")
  case True
  then have "packet_bytes h x = []" using length_packet_bytes(1) [OF x c] by simp
  then show ?thesis using True p by (simp add: packet_append_def)
next
  case False
  have cx: "packet_core h x" and cp: "packet_core h p" using x p by (auto simp: packet_wf_def)
  obtain x1 where x1: "allocate_if_needed h x (length (p_frags p)) = Inr x1" "packet_core h x1"
      "packet_bytes h x1 = packet_bytes h x" "p_frags x1 = p_frags x" "p_len x1 = p_len x"
    using allocate_if_needed_ok [OF cx n] by blast
  obtain h1 p1 where p1: "unuse_internal_data h p = Inr (h1, p1)" "heap_le h h1" "packet_core h1 p1"
      "p_headroom p1 = internal_data_size" "packet_bytes h1 p1 = packet_bytes h p"
      "map frag_size (p_frags p1) = map frag_size (p_frags p)" "p_len p1 = p_len p"
    using unuse_internal_data_ok [OF cp] by blast
  let ?q = "x1\<lparr>p_len := len32 (p_len x1 + p_len p1), p_frags := p_frags x1 @ p_frags p1\<rparr>"
  have pl: "list_all (plain_ok h1) (p_frags p1)" using p1 by (simp add: packet_core_def)
  have c1: "packet_core h1 x1" by (rule packet_core_mono [OF x1(2) p1(2)])
  have ne: "p_frags x1 \<noteq> []" using x False x1(4) by (auto simp: packet_wf_def)
  have "packet_core h1 ?q"
    using c1 pl ne by (auto simp: packet_core_def split: if_splits)
  moreover have "p_len ?q = len32 (sum_list (map frag_size (p_frags ?q)))"
    using x p x1 p1 by (simp add: packet_wf_def)
  moreover have "packet_bytes h1 ?q = packet_bytes h1 x1 @ packet_bytes h1 p1"
    using concat_plain_bytes_frame [OF pl heap_le_refl, of "p_data x1" "p_data p1"]
    by (simp add: packet_bytes_def)
  ultimately show ?thesis
    using False x1 p1 packet_bytes_frame [OF x1(2) p1(2)]
    by (simp add: packet_append_def packet_wf_def)
qed

subsection \<open>Prepending a header\<close>

lemma nat_int_diff [simp]: "nat (int x - int y) = x - y"
  by simp

text \<open>A successful \<open>allocate_headroom\<close> followed by a store through the returned pointer.\<close>

lemma store_internal_ok:
  assumes core: "packet_core h p" and hr: "length bs \<le> p_headroom p"
    and fs: "p_frags p = f # fs" "frag_base f = InData (int (p_headroom p))"
      "p_headroom p + frag_size f \<le> internal_data_size"
    and pl: "list_all (plain_ok h) fs"
  defines "q \<equiv> p\<lparr>p_headroom := p_headroom p - length bs,
      p_frags := \<lparr>frag_base = ptr_add (frag_base f) (- int (length bs)),
                   frag_size = frag_size f + length bs\<rparr> # fs\<rparr>"
  shows "\<exists>q'. store_front h q bs = Inr (h, q') \<and> packet_core h q' \<and> p_len q' = p_len p \<and>
    map frag_size (p_frags q') = (length bs + frag_size f) # map frag_size fs \<and>
    packet_bytes h q' = bs @ packet_bytes h p"
proof -
  let ?k = "p_headroom p - length bs"
  have d: "length (p_data p) = internal_data_size" using core by (simp add: packet_core_def)
  have b: "ptr_add (frag_base f) (- int (length bs)) = InData (int ?k)"
    using fs hr by (simp add: of_nat_diff)
  define g where "g = \<lparr>frag_base = InData (int ?k), frag_size = frag_size f + length bs\<rparr>"
  define q' where "q' = q\<lparr>p_data := overwrite ?k bs (p_data p)\<rparr>"
  have q: "p_frags q = g # fs" "p_data q = p_data p" "p_headroom q = ?k" "p_len q = p_len p"
    using b by (simp_all add: q_def g_def)
  have st: "store_front h q bs = Inr (h, q')"
    using d hr fs(3) by (simp add: store_front_def q g_def q'_def in_range_def)
  have dq: "length (p_data q') = internal_data_size"
    using d fs(3) hr by (simp add: q'_def q)
  have "frag_bytes h (p_data q') g = bs @ frag_bytes h (p_data p) f"
    using slice_overwrite_front [of ?k bs "frag_size f" "p_data p"] d fs(2,3) hr
    by (simp add: frag_bytes_def g_def q'_def add.commute)
  moreover have "concat (map (frag_bytes h (p_data q')) fs) = concat (map (frag_bytes h (p_data p)) fs)"
    by (rule concat_plain_bytes_frame [OF pl heap_le_refl])
  ultimately have "packet_bytes h q' = bs @ packet_bytes h p"
    by (simp add: packet_bytes_def fs(1) q'_def q)
  moreover have "bs = [] \<and> frag_size f = 0 \<and> p_headroom p = internal_data_size"
    if "\<not> ?k < internal_data_size"
    using that fs(3) hr by (cases bs) auto
  then have "packet_core h q'"
    using dq pl fs(2,3) hr
    by (auto simp: packet_core_def q'_def q g_def internal_ok_def plain_ok_def)
  ultimately show ?thesis using st by (simp add: q'_def q g_def)
qed

lemma allocate_headroom_ok:
  assumes core: "packet_core h p" and hr: "length bs \<le> p_headroom p"
    and n: "length (p_frags p) + 1 < 32768"
  shows "\<exists>q q'. allocate_headroom h p (length bs) = Inr (True, q) \<and>
    store_front h q bs = Inr (h, q') \<and> packet_core h q' \<and> p_len q' = len32 (p_len p + length bs) \<and>
    sum_list (map frag_size (p_frags q')) = length bs + sum_list (map frag_size (p_frags p)) \<and>
    packet_bytes h q' = bs @ packet_bytes h p"
proof (cases "p_headroom p < internal_data_size")
  case True
  define p1 where "p1 = p\<lparr>p_len := len32 (p_len p + length bs)\<rparr>"
  obtain f fs where fs: "p_frags p1 = f # fs" "internal_ok (p_headroom p) f"
      "list_all (plain_ok h) fs"
    using core True by (cases "p_frags p") (auto simp: packet_core_def p1_def)
  have c1: "packet_core h p1" and b1: "packet_bytes h p1 = packet_bytes h p"
    using core by (auto simp: packet_core_def packet_bytes_def p1_def)
  have u: "using_internal_data (p_frags p)" using True using_internal_iff [OF core] by simp
  show ?thesis
    using store_internal_ok [OF c1, of bs f fs] fs hr u b1
    by (auto simp: allocate_headroom_def internal_ok_def p1_def)
next
  case False
  then have h112: "p_headroom p = internal_data_size" and pl: "list_all (plain_ok h) (p_frags p)"
    using core by (auto simp: packet_core_def)
  define p1 where "p1 = p\<lparr>p_len := len32 (p_len p + length bs)\<rparr>"
  have c1: "packet_core h p1" and b1: "packet_bytes h p1 = packet_bytes h p"
    using core by (auto simp: packet_core_def packet_bytes_def p1_def)
  obtain p2 where p2: "allocate_if_needed h p1 1 = Inr p2" "packet_core h p2"
      "packet_bytes h p2 = packet_bytes h p" "p_frags p2 = p_frags p"
      "p_headroom p2 = internal_data_size" "p_len p2 = len32 (p_len p + length bs)"
    using allocate_if_needed_ok [OF c1, of 1] n b1 h112 by (auto simp: p1_def)
  define e where "e = \<lparr>frag_base = InData (int internal_data_size), frag_size = 0\<rparr>"
  define p3 where "p3 = p2\<lparr>p_frags := e # p_frags p2\<rparr>"
  have c3: "packet_core h p3" and b3: "packet_bytes h p3 = packet_bytes h p"
    using p2 pl by (auto simp: packet_core_def packet_bytes_def p3_def e_def plain_ok_def frag_bytes_def)
  have u: "\<not> using_internal_data (p_frags p)" using False using_internal_iff [OF core] by simp
  show ?thesis
    using store_internal_ok [OF c3, of bs e "p_frags p2"] p2 pl hr u b3 h112
    by (auto simp: allocate_headroom_def p1_def p3_def e_def)
qed

lemma store_fresh_ok:
  assumes pl: "list_all (plain_ok h) fs" and d: "length (p_data p) = internal_data_size"
    and hr: "p_headroom p = internal_data_size"
    and f: "p_frags p = \<lparr>frag_base = Heap (length (bufs h)) 0, frag_size = length bs\<rparr> # fs"
    and junk: "length junk = length bs"
  shows "\<exists>h'. store_front (h\<lparr>bufs := bufs h @ [junk]\<rparr>) p bs = Inr (h', p) \<and> heap_le h h' \<and>
    packet_core h' p \<and> packet_bytes h' p = bs @ concat (map (frag_bytes h (p_data p)) fs)"
proof -
  define h' where "h' = h\<lparr>bufs := bufs h @ [bs]\<rparr>"
  have le: "heap_le h h'" by (simp add: h'_def heap_le_def)
  have ow: "overwrite 0 bs junk = bs" using junk by (simp add: overwrite_def)
  have "store_front (h\<lparr>bufs := bufs h @ [junk]\<rparr>) p bs = Inr (h', p)"
    using junk by (simp add: store_front_def f in_range_def ow h'_def)
  moreover have "packet_core h' p"
    using d hr list_plain_ok_mono [OF pl le]
    by (simp add: packet_core_def f plain_ok_def h'_def in_range_def)
  moreover have "packet_bytes h' p = bs @ concat (map (frag_bytes h (p_data p)) fs)"
    using concat_plain_bytes_frame [OF pl le, of "p_data p" "p_data p"]
    by (simp add: packet_bytes_def f frag_bytes_def h'_def slice_def)
  ultimately show ?thesis using le by blast
qed

lemma prepend_header_ok:
  assumes wf: "packet_wf h p" and n: "length (p_frags p) + 1 < 32768"
  shows "\<exists>h' q. prepend_header h p hdr = Inr (h', q) \<and> heap_le h h' \<and> packet_wf h' q \<and>
    packet_bytes h' q = hdr @ packet_bytes h p"
proof (cases "length hdr \<le> p_headroom p")
  case True
  have core: "packet_core h p" using wf by (simp add: packet_wf_def)
  from allocate_headroom_ok [OF core True n] wf show ?thesis
    by (force simp: prepend_header_def prepend_uninitialized_header_def packet_wf_def add.commute)
next
  case False
  have core: "packet_core h p" using wf by (simp add: packet_wf_def)
  obtain h1 p1 where 1: "unuse_internal_data h p = Inr (h1, p1)" "heap_le h h1" "packet_core h1 p1"
      "p_headroom p1 = internal_data_size" "packet_bytes h1 p1 = packet_bytes h p"
      "map frag_size (p_frags p1) = map frag_size (p_frags p)" "p_len p1 = p_len p"
    using unuse_internal_data_ok [OF core] by blast
  have n1: "length (p_frags p1) + 1 < 32768" using n 1(6) by (metis length_map)
  have F: "allocate_headroom h p (length hdr) = Inr (False, p)"
    using False by (simp add: allocate_headroom_def)
  show ?thesis
  proof (cases "length hdr \<le> internal_data_size")
    case True
    with allocate_headroom_ok [OF 1(3) _ n1, of hdr] 1 wf F show ?thesis
      by (force simp: prepend_header_def prepend_uninitialized_header_def packet_wf_def add.commute)
  next
    case big: False
    define p2 where "p2 = p1\<lparr>p_len := len32 (p_len p1 + length hdr)\<rparr>"
    have c2: "packet_core h1 p2" "packet_bytes h1 p2 = packet_bytes h p"
      using 1 by (auto simp: p2_def packet_core_def packet_bytes_def)
    obtain p3 where p3: "allocate_if_needed h1 p2 1 = Inr p3" "packet_core h1 p3"
        "packet_bytes h1 p3 = packet_bytes h p" "p_frags p3 = p_frags p1"
        "p_headroom p3 = internal_data_size" "p_len p3 = len32 (p_len p + length hdr)"
      using allocate_if_needed_ok [OF c2(1), of 1] n1 c2(2) 1 by (auto simp: p2_def)
    let ?f = "\<lparr>frag_base = Heap (length (bufs h1)) 0, frag_size = length hdr\<rparr>"
    define q where "q = p3\<lparr>p_frags := ?f # p_frags p3\<rparr>"
    have pl: "list_all (plain_ok h1) (p_frags p3)" and d: "length (p_data q) = internal_data_size"
      using p3 by (auto simp: packet_core_def q_def)
    obtain h' where h': "store_front (h1\<lparr>bufs := bufs h1 @ [fresh_bytes h1 (length hdr)]\<rparr>) q hdr
          = Inr (h', q)" "heap_le h1 h'" "packet_core h' q"
        "packet_bytes h' q = hdr @ packet_bytes h p"
      using store_fresh_ok [OF pl d, of hdr "fresh_bytes h1 (length hdr)"] p3
      by (auto simp: q_def packet_bytes_def)
    have "p_len q = len32 (sum_list (map frag_size (p_frags q)))"
      using wf p3 1(6) by (simp add: q_def packet_wf_def add.commute)
    then show ?thesis
      using F big 1 p3 h' heap_le_trans [OF 1(2) h'(2)]
      by (auto simp: prepend_header_def prepend_uninitialized_header_def allocate_headroom_def
          alloc_buf_def p2_def q_def packet_wf_def)
  qed
qed

subsection \<open>linearize and get_header\<close>

lemma count_frags_ok:
  "desired \<le> sum_list (map frag_size fs) \<Longrightarrow>
     \<exists>n. count_frags desired fs = Inr n \<and> n \<le> length fs \<and>
       desired \<le> sum_list (map frag_size (take n fs))"
proof (induction desired fs rule: count_frags.induct)
  case (1 desired fs)
  show ?case
  proof (cases "desired = 0")
    case True
    then show ?thesis by (simp add: count_frags.simps)
  next
    case False
    then obtain f rest where fs: "fs = f # rest" using "1.prems" by (cases fs) auto
    then have "desired - frag_size f \<le> sum_list (map frag_size rest)" using "1.prems" by simp
    then obtain n where n: "count_frags (desired - frag_size f) rest = Inr n" "n \<le> length rest"
        "desired - frag_size f \<le> sum_list (map frag_size (take n rest))"
      using "1.IH" [OF False fs] by blast
    show ?thesis
      using False fs n by (intro exI [of _ "Suc n"]) (auto simp: count_frags.simps [of desired "f # rest"])
  qed
qed

lemma read_frags_ok:
  "list_all (plain_ok h) fs \<Longrightarrow> length d = internal_data_size \<Longrightarrow>
     read_frags h d fs = Inr (concat (map (frag_bytes h d) fs))"
  by (induction fs) (auto simp: read_plain)

lemma linearize_ok:
  assumes wf: "packet_wf h p" and d: "desired \<le> sum_list (map frag_size (drop at (p_frags p)))"
    and at: "at \<le> length (p_frags p)"
  shows "\<exists>h' q f. linearize h p at desired = Inr (h', q) \<and> heap_le h h' \<and> packet_wf h' q \<and>
    packet_bytes h' q = packet_bytes h p \<and> p_len q = p_len p \<and> at < length (p_frags q) \<and>
    map frag_size (take at (p_frags q)) = map frag_size (take at (p_frags p)) \<and>
    desired \<le> frag_size (p_frags q ! at)"
proof -
  have core: "packet_core h p" using wf by (simp add: packet_wf_def)
  obtain h1 p1 where 1: "unuse_internal_data h p = Inr (h1, p1)" "heap_le h h1" "packet_core h1 p1"
      "p_headroom p1 = internal_data_size" "packet_bytes h1 p1 = packet_bytes h p"
      "map frag_size (p_frags p1) = map frag_size (p_frags p)" "p_len p1 = p_len p"
    using unuse_internal_data_ok [OF core] by blast
  have pl: "list_all (plain_ok h1) (p_frags p1)" and dl: "length (p_data p1) = internal_data_size"
    using 1 by (auto simp: packet_core_def)
  have at1: "at \<le> length (p_frags p1)" using at 1(6) by (metis length_map)
  obtain nr where nr: "count_frags desired (drop at (p_frags p1)) = Inr nr"
      "nr \<le> length (drop at (p_frags p1))"
      "desired \<le> sum_list (map frag_size (take nr (drop at (p_frags p1))))"
    using count_frags_ok [of desired "drop at (p_frags p1)"] d 1(6) by (auto simp: drop_map [symmetric])
  define a where "a = take at (p_frags p1)"
  define b where "b = take nr (drop at (p_frags p1))"
  define c where "c = drop (at + nr) (p_frags p1)"
  have abc: "p_frags p1 = a @ b @ c" unfolding a_def b_def c_def
    by (metis append_take_drop_id drop_drop add.commute)
  have pls: "list_all (plain_ok h1) a" "list_all (plain_ok h1) b" "list_all (plain_ok h1) c"
    using pl abc by auto
  define bs where "bs = concat (map (frag_bytes h1 (p_data p1)) b)"
  define h2 where "h2 = h1\<lparr>bufs := bufs h1 @ [bs]\<rparr>"
  define g where "g = \<lparr>frag_base = Heap (length (bufs h1)) 0, frag_size = length bs\<rparr>"
  define q where "q = p1\<lparr>p_frags := a @ [g] @ c\<rparr>"
  have le: "heap_le h1 h2" by (simp add: h2_def heap_le_def)
  have lin: "linearize h p at desired = Inr (h2, q)"
    using 1 nr read_frags_ok [OF pls(2) dl]
    by (simp add: linearize_def alloc_buf_def b_def [symmetric] a_def [symmetric]
        c_def [symmetric] bs_def [symmetric] h2_def q_def g_def)
  have lb: "length bs = sum_list (map frag_size b)"
    unfolding bs_def by (rule length_list_plain_bytes [OF pls(2)])
  have "plain_ok h2 g" "frag_bytes h2 (p_data p1) g = bs"
    by (simp_all add: plain_ok_def g_def h2_def in_range_def frag_bytes_def slice_def)
  then have "packet_core h2 q" "packet_bytes h2 q = packet_bytes h1 p1"
    using 1(4) dl list_plain_ok_mono [OF pls(1) le] list_plain_ok_mono [OF pls(3) le]
      concat_plain_bytes_frame [OF pls(1) le, of "p_data p1" "p_data p1"]
      concat_plain_bytes_frame [OF pls(3) le, of "p_data p1" "p_data p1"]
    by (simp_all add: packet_core_def q_def packet_bytes_def abc bs_def)
  moreover have "p_len q = len32 (sum_list (map frag_size (p_frags q)))"
  proof -
    have "p_len p = len32 (sum_list (map frag_size (p_frags p1)))" using wf 1(6) by (simp add: packet_wf_def)
    then show ?thesis using lb 1(7) by (simp add: q_def abc g_def)
  qed
  moreover have "map frag_size a = map frag_size (take at (p_frags p))" "length a = at"
    using 1(6) at1 by (simp_all add: a_def take_map [symmetric])
  ultimately show ?thesis
    using lin 1 le nr(3) lb heap_le_trans [OF 1(2) le] at1
    by (auto simp: packet_wf_def q_def g_def b_def nth_append)
qed

lemma find_header_Some:
  "off < sum_list (map frag_size fs) \<Longrightarrow>
     \<exists>i off'. find_header i0 off fs = Some (i0 + i, off') \<and> i < length fs \<and>
       sum_list (map frag_size (take i fs)) + off' = off \<and> off' < frag_size (fs ! i)"
proof (induction i0 off fs rule: find_header.induct)
  case (1 i0 off)
  then show ?case by simp
next
  case (2 i0 off f fs)
  show ?case
  proof (cases "frag_size f \<le> off")
    case True
    then have "off - frag_size f < sum_list (map frag_size fs)" using "2.prems" by simp
    then obtain i off' where "find_header (Suc i0) (off - frag_size f) fs = Some (Suc i0 + i, off')"
        "i < length fs" "sum_list (map frag_size (take i fs)) + off' = off - frag_size f"
        "off' < frag_size (fs ! i)"
      using "2.IH" [OF True] by blast
    then show ?thesis using True by (intro exI [of _ "Suc i"] exI [of _ off']) auto
  next
    case False
    then show ?thesis by (intro exI [of _ 0] exI [of _ off]) auto
  qed
qed

lemma read_view:
  assumes core: "packet_core h q" and i: "i < length (p_frags q)" and n: "off + n \<le> frag_size (p_frags q ! i)"
  shows "read_frag h (p_data q) (frag_view (p_frags q ! i) off n) =
    Inr (slice (sum_list (map frag_size (take i (p_frags q))) + off) n (packet_bytes h q))"
proof -
  let ?f = "p_frags q ! i" and ?pre = "take i (p_frags q)"
  have fs: "p_frags q = ?pre @ ?f # drop (Suc i) (p_frags q)" by (rule id_take_nth_drop [OF i])
  have d: "length (p_data q) = internal_data_size" using core by (simp add: packet_core_def)
  have f: "plain_ok h ?f \<or> internal_ok (p_headroom q) ?f"
    using core core_suffix_plain [OF core fs] i
    by (cases i; cases "p_frags q") (auto simp: packet_core_def split: if_splits)
  have off: "0 < frag_size ?f \<or> off = 0" using n by auto
  have "read_frag h (p_data q) (frag_view ?f off n) = Inr (slice off n (frag_bytes h (p_data q) ?f))"
    using f frag_view_plain [OF _ n off] frag_view_internal [OF _ n] read_plain [OF _ d] read_internal [OF _ d]
    by metis
  moreover have "length (frag_bytes h (p_data q) ?f) = frag_size ?f"
    using f d by (auto simp: length_plain_bytes length_internal_bytes)
  moreover have "packet_bytes h q = concat (map (frag_bytes h (p_data q)) ?pre) @
      frag_bytes h (p_data q) ?f @ concat (map (frag_bytes h (p_data q)) (drop (Suc i) (p_frags q)))"
    unfolding packet_bytes_def by (subst fs) simp
  ultimately show ?thesis
    using core_prefix_bytes [OF core fs] n by (simp add: slice_def)
qed

lemma get_header_ok:
  assumes wf: "packet_wf h p" and c: "countable_len (packet_bytes h p)" and n: "offset + sz \<le> p_len p" "0 < sz"
  shows "\<exists>h' q b. get_header h p offset sz = Inr (h', q, Some b) \<and> heap_le h h' \<and>
    packet_wf h' q \<and> packet_bytes h' q = packet_bytes h p \<and>
    read_frag h' (p_data q) \<lparr>frag_base = b, frag_size = sz\<rparr> =
      Inr (take sz (drop offset (packet_bytes h p)))"
proof -
  have len: "p_len p = sum_list (map frag_size (p_frags p))" and core: "packet_core h p"
    using wf length_packet_bytes(2) [OF wf c] by (auto simp: packet_wf_def)
  obtain i off where f: "find_header 0 offset (p_frags p) = Some (i, off)" "i < length (p_frags p)"
      "sum_list (map frag_size (take i (p_frags p))) + off = offset" "off < frag_size (p_frags p ! i)"
    using find_header_Some [of offset "p_frags p" 0] n len by auto
  show ?thesis
  proof (cases "frag_size (p_frags p ! i) < off + sz")
    case False
    have "get_header h p offset sz = Inr (h, p, Some (ptr_add (frag_base (p_frags p ! i)) (int off)))"
      using n(1) f(1) False by (simp add: get_header_def)
    then show ?thesis
      using wf read_view [OF core f(2), of off sz] False f(3)
      by (simp add: frag_view_def slice_def)
  next
    case True
    have "sum_list (map frag_size (take i (p_frags p))) + sum_list (map frag_size (drop i (p_frags p))) = p_len p"
      unfolding len by (metis append_take_drop_id map_append sum_list_append)
    then have "off + sz \<le> sum_list (map frag_size (drop i (p_frags p)))" using f(3) n(1) by simp
    then obtain h' q where l: "linearize h p i (off + sz) = Inr (h', q)" "heap_le h h'" "packet_wf h' q"
        "packet_bytes h' q = packet_bytes h p" "i < length (p_frags q)"
        "map frag_size (take i (p_frags q)) = map frag_size (take i (p_frags p))"
        "off + sz \<le> frag_size (p_frags q ! i)"
      using linearize_ok [OF wf, of "off + sz" i] f(2) by auto
    have "get_header h p offset sz = Inr (h', q, Some (ptr_add (frag_base (p_frags q ! i)) (int off)))"
      using n(1) f(1) True l(1) by (simp add: get_header_def)
    then show ?thesis
      using l read_view [OF _ l(5,7)] f(3)
      by (simp add: frag_view_def slice_def packet_wf_def)
  qed
qed

subsection \<open>trim_back\<close>

lemma trim_back_ok:
  assumes wf: "packet_wf h p" and c: "countable_len (packet_bytes h p)" and n: "n \<le> p_len p"
    and hr: "p_headroom p = internal_data_size"
  shows "\<exists>q. trim_back p n = Inr q \<and> packet_wf h q \<and> p_len q = p_len p - n \<and>
    packet_bytes h q = take (p_len p - n) (packet_bytes h p)"
proof -
  have len: "p_len p = sum_list (map frag_size (p_frags p))" and core: "packet_core h p"
      and pl: "list_all (plain_ok h) (p_frags p)" and d: "length (p_data p) = internal_data_size"
    using wf hr length_packet_bytes(2) [OF wf c] by (auto simp: packet_wf_def packet_core_def)
  have small: "p_len p < 4294967296" using c length_packet_bytes(1) [OF wf c] by simp
  have "n \<le> sum_list (map frag_size (rev (p_frags p)))"
    using n len by (simp add: rev_map [symmetric])
  from drop_front_ok [OF this] obtain r pre gs where g:
      "drop_front n (rev (p_frags p)) = Inr (r, gs)" "rev (p_frags p) = pre @ gs"
      "sum_list (map frag_size pre) + r = n" "0 < r \<longrightarrow> gs \<noteq> [] \<and> r < frag_size (hd gs)"
    by blast
  have fs: "p_frags p = rev gs @ rev pre" using g(2) by (metis rev_append rev_rev_ident)
  have pls: "list_all (plain_ok h) (rev gs)" "list_all (plain_ok h) (rev pre)" using pl fs by auto
  let ?B = "\<lambda>fs. concat (map (frag_bytes h (p_data p)) fs)"
  have lens: "length (?B (rev gs)) = sum_list (map frag_size gs)"
      "length (?B (rev pre)) = sum_list (map frag_size pre)"
      "p_len p = sum_list (map frag_size gs) + sum_list (map frag_size pre)"
    using length_list_plain_bytes [OF pls(1)] length_list_plain_bytes [OF pls(2)] len fs
    by (simp_all add: rev_map [symmetric])
  have B: "packet_bytes h p = ?B (rev gs) @ ?B (rev pre)" by (simp add: packet_bytes_def fs)
  show ?thesis
  proof (cases "r = 0")
    case True
    let ?q = "p\<lparr>p_len := p_len p - n, p_frags := rev gs\<rparr>"
    have "trim_back p n = Inr ?q" using n g(1) True by (simp add: trim_back_def)
    moreover have "packet_wf h ?q"
      using core hr small pls lens g(3) True
      by (simp add: packet_wf_def packet_core_def rev_map [symmetric])
    ultimately show ?thesis using B lens g(3) True by (simp add: packet_bytes_def)
  next
    case False
    then obtain f rest where gs: "gs = f # rest" "r < frag_size f" using g(4) by (cases gs) auto
    let ?f = "f\<lparr>frag_size := frag_size f - r\<rparr>"
    have fv: "?f = frag_view f 0 (frag_size f - r)" by (cases f; cases "frag_base f") (simp_all add: frag_view_def)
    have f: "plain_ok h f" using pls gs by simp
    note v = frag_view_plain [OF f, of 0 "frag_size f - r", folded fv]
    have u: "\<not> using_internal_data (rev rest @ [?f])"
      by (rule plain_not_internal [of h]) (use pls gs v(1) in auto)
    let ?q = "p\<lparr>p_len := p_len p - n, p_frags := rev rest @ [?f]\<rparr>"
    have "trim_back p n = Inr ?q" using n g(1) False gs u by (simp add: trim_back_def)
    moreover have "packet_wf h ?q"
      using core hr small pls lens g(3) gs v(1)
      by (simp add: packet_wf_def packet_core_def rev_map [symmetric])
    moreover have "packet_bytes h ?q = take (p_len p - n) (packet_bytes h p)"
      using B lens g(3) [symmetric] gs v(2) length_plain_bytes [OF f]
      by (simp add: packet_bytes_def slice_def)
    ultimately show ?thesis by simp
  qed
qed

subsection \<open>What the protocol code relies on\<close>

text \<open>
  The interface between packets and the protocols that cut byte streams into packets: a state
  of memory, an invariant, the bytes of a packet, a count of fragments, and the laws of
  \<open>share\<close>, \<open>trim_front\<close> and \<open>append\<close>.
\<close>

locale packet_cutting =
  fixes ok :: "'h \<Rightarrow> 'p \<Rightarrow> bool"
    and view :: "'h \<Rightarrow> 'p \<Rightarrow> bytes"
    and le :: "'h \<Rightarrow> 'h \<Rightarrow> bool"
    and nr_frags :: "'p \<Rightarrow> nat"
    and share :: "'h \<Rightarrow> 'p \<Rightarrow> nat \<Rightarrow> nat \<Rightarrow> ('h \<times> 'p \<times> 'p) result"
    and trim :: "'p \<Rightarrow> nat \<Rightarrow> 'p result"
    and app :: "'h \<Rightarrow> 'p \<Rightarrow> 'p \<Rightarrow> ('h \<times> 'p) result"
  assumes frame: "ok h p \<Longrightarrow> le h h' \<Longrightarrow> ok h' p \<and> view h' p = view h p"
    and share_law: "ok h p \<Longrightarrow> countable_len (view h p) \<Longrightarrow> off + n \<le> length (view h p) \<Longrightarrow> nr_frags p < 32768 \<Longrightarrow>
      \<exists>h' p' q. share h p off n = Inr (h', p', q) \<and> le h h' \<and> ok h' p' \<and>
        view h' p' = view h p \<and> ok h' q \<and> view h' q = take n (drop off (view h p)) \<and>
        nr_frags q \<le> nr_frags p"
    and trim_law: "ok h p \<Longrightarrow> countable_len (view h p) \<Longrightarrow> n \<le> length (view h p) \<Longrightarrow>
      \<exists>p'. trim p n = Inr p' \<and> ok h p' \<and> view h p' = drop n (view h p)"
    and app_law: "ok h p \<Longrightarrow> ok h q \<Longrightarrow> countable_len (view h p) \<Longrightarrow> nr_frags p + nr_frags q < 32768 \<Longrightarrow>
      \<exists>h' r. app h p q = Inr (h', r) \<and> le h h' \<and> ok h' r \<and> view h' r = view h p @ view h q"
begin

text \<open>Cutting a packet in two: the views of the parts, put together, are the packet.\<close>

lemma split_at:
  assumes "ok h p" "n \<le> length (view h p)" "nr_frags p < 32768" "countable_len (view h p)"
  shows "\<exists>h' p' front rest. share h p 0 n = Inr (h', p', front) \<and> trim p' n = Inr rest \<and>
    le h h' \<and> ok h' front \<and> ok h' rest \<and> length (view h' front) = n \<and>
    view h' front @ view h' rest = view h p"
proof -
  obtain h' p' front where s: "share h p 0 n = Inr (h', p', front)" "le h h'" "ok h' p'"
      "view h' p' = view h p" "ok h' front" "view h' front = take n (view h p)"
    using share_law [of h p 0 n] assms by auto
  obtain rest where "trim p' n = Inr rest" "ok h' rest" "view h' rest = drop n (view h p)"
    using trim_law [of h' p' n] s assms(2,4) by auto
  with s assms(2) show ?thesis by auto
qed

text \<open>Moving the first bytes of the next packet behind this one keeps the stream.\<close>

lemma move_front:
  assumes "ok h p" "ok h q" "n \<le> length (view h q)" "nr_frags p + nr_frags q < 32768"
    and "countable_len (view h p)" "countable_len (view h q)"
  shows "\<exists>h1 q' front h2 r rest. share h q 0 n = Inr (h1, q', front) \<and>
    app h1 p front = Inr (h2, r) \<and> trim q' n = Inr rest \<and> ok h2 r \<and> ok h2 rest \<and>
    view h2 r @ view h2 rest = view h p @ view h q"
proof -
  obtain h1 q' front where s: "share h q 0 n = Inr (h1, q', front)" "le h h1" "ok h1 q'"
      "view h1 q' = view h q" "ok h1 front" "view h1 front = take n (view h q)"
      "nr_frags front \<le> nr_frags q"
    using share_law [of h q 0 n] assms by auto
  have p: "ok h1 p" "view h1 p = view h p" using frame [OF assms(1) s(2)] by auto
  obtain h2 r where a: "app h1 p front = Inr (h2, r)" "le h1 h2" "ok h2 r"
      "view h2 r = view h p @ take n (view h q)"
    using app_law [OF p(1) s(5)] p s assms(4,5) by auto
  obtain rest where t: "trim q' n = Inr rest" "ok h1 rest" "view h1 rest = drop n (view h q)"
    using trim_law [of h1 q' n] s assms(3,6) by auto
  show ?thesis using s a t frame [OF t(2) a(2)] by auto
qed

end

interpretation pkt: packet_cutting packet_wf packet_bytes heap_le "\<lambda>p. length (p_frags p)"
  packet_share trim_front packet_append
proof unfold_locales
  fix h p h'
  assume "packet_wf h p" "heap_le h h'"
  then show "packet_wf h' p \<and> packet_bytes h' p = packet_bytes h p"
    by (auto simp: packet_wf_def intro: packet_core_mono packet_bytes_frame)
next
  fix h p off n
  assume p: "packet_wf h p" "countable_len (packet_bytes h p)" "off + n \<le> length (packet_bytes h p)" "length (p_frags p) < 32768"
  then show "\<exists>h' p' q. packet_share h p off n = Inr (h', p', q) \<and> heap_le h h' \<and> packet_wf h' p' \<and>
      packet_bytes h' p' = packet_bytes h p \<and> packet_wf h' q \<and>
      packet_bytes h' q = take n (drop off (packet_bytes h p)) \<and>
      length (p_frags q) \<le> length (p_frags p)"
    using packet_share_ok [OF p(1,2), of off n] length_packet_bytes(1) [OF p(1,2)] by fastforce
next
  fix h p n
  assume p: "packet_wf h p" "countable_len (packet_bytes h p)" "n \<le> length (packet_bytes h p)"
  then show "\<exists>p'. trim_front p n = Inr p' \<and> packet_wf h p' \<and>
      packet_bytes h p' = drop n (packet_bytes h p)"
    using trim_front_ok [of h p n] length_packet_bytes(1) [OF p(1,2)] by auto
next
  fix h p q
  assume "packet_wf h p" "packet_wf h q" "countable_len (packet_bytes h p)" "length (p_frags p) + length (p_frags q) < 32768"
  then show "\<exists>h' r. packet_append h p q = Inr (h', r) \<and> heap_le h h' \<and> packet_wf h' r \<and>
      packet_bytes h' r = packet_bytes h p @ packet_bytes h q"
    by (rule packet_append_ok)
qed

subsection \<open>Byte string view\<close>

text \<open>
  The protocol components above use packets only through the operations below on their byte
  strings; the refinement lemma says that the packet class implements them.
\<close>

definition v_trim_front :: "bytes \<Rightarrow> nat \<Rightarrow> bytes result" where
  "v_trim_front bs n = (if n \<le> length bs then Inr (drop n bs) else Inl AssertFailed)"

definition v_trim_back :: "bytes \<Rightarrow> nat \<Rightarrow> bytes result" where
  "v_trim_back bs n = (if n \<le> length bs then Inr (take (length bs - n) bs) else Inl AssertFailed)"

definition v_share :: "bytes \<Rightarrow> nat \<Rightarrow> nat \<Rightarrow> bytes result" where
  "v_share bs off n = (if off + n \<le> length bs then Inr (slice off n bs) else Inl OutOfRange)"

definition v_get_header :: "bytes \<Rightarrow> nat \<Rightarrow> nat \<Rightarrow> bytes option" where
  "v_get_header bs off sz = (if length bs < off + sz then None else Some (slice off sz bs))"

lemma v_trim_front_ok [simp]: "n \<le> length bs \<Longrightarrow> v_trim_front bs n = Inr (drop n bs)"
  by (simp add: v_trim_front_def)

lemma v_share_ok [simp]: "off + n \<le> length bs \<Longrightarrow> v_share bs off n = Inr (take n (drop off bs))"
  by (simp add: v_share_def slice_def)

subsection \<open>Properties\<close>

text \<open>C29. The packet class refines its byte string view: on a well formed packet of less than four
  gigabytes \<open>trim_front\<close> fails its assertion or drops bytes exactly when the view operation does;
  \<open>get_header\<close> returns a null pointer exactly when the view has too few bytes, and else a pointer to
  the bytes at the offset, leaving the contents unchanged even when it has to linearize; \<open>share\<close>
  gives a packet of the bytes asked for and leaves the contents of the packet unchanged; and
  appending another packet appends its bytes. (\<open>trim_back\<close> is not among them: see
  \<open>trim_back_headroom_underflow\<close>.)\<close>

theorem packet_refines_view:
  assumes "packet_wf h p" "length (packet_bytes h p) < 4294967296" "0 < sz"
    and "packet_wf h x" "length (p_frags p) + length (p_frags x) < 32768"
  shows "(case v_trim_front (packet_bytes h p) n of
            Inl e \<Rightarrow> trim_front p n = Inl e
          | Inr bs \<Rightarrow> \<exists>q. trim_front p n = Inr q \<and> packet_wf h q \<and> packet_bytes h q = bs) \<and>
         (case v_get_header (packet_bytes h p) off sz of
            None \<Rightarrow> get_header h p off sz = Inr (h, p, None)
          | Some bs \<Rightarrow> \<exists>h' q b. get_header h p off sz = Inr (h', q, Some b) \<and> packet_wf h' q \<and>
              packet_bytes h' q = packet_bytes h p \<and>
              read_frag h' (p_data q) \<lparr>frag_base = b, frag_size = sz\<rparr> = Inr bs) \<and>
         (\<forall>bs. v_share (packet_bytes h p) off n = Inr bs \<longrightarrow>
            (\<exists>h' p' q. packet_share h p off n = Inr (h', p', q) \<and> heap_le h h' \<and> packet_wf h' p' \<and>
              packet_bytes h' p' = packet_bytes h p \<and> packet_wf h' q \<and> packet_bytes h' q = bs)) \<and>
         (\<exists>h' q. packet_append h p x = Inr (h', q) \<and> heap_le h h' \<and> packet_wf h' q \<and>
            packet_bytes h' q = packet_bytes h p @ packet_bytes h x)"
proof -
  have len: "length (packet_bytes h p) = p_len p" by (rule length_packet_bytes [OF assms(1,2)])
  have "\<not> n \<le> p_len p \<Longrightarrow> trim_front p n = Inl AssertFailed"
    by (simp add: trim_front_def)
  moreover have "p_len p < off + sz \<Longrightarrow> get_header h p off sz = Inr (h, p, None)"
    by (simp add: get_header_def)
  moreover have "off + sz \<le> p_len p \<Longrightarrow> \<exists>h' q b. get_header h p off sz = Inr (h', q, Some b) \<and>
      packet_wf h' q \<and> packet_bytes h' q = packet_bytes h p \<and>
      read_frag h' (p_data q) \<lparr>frag_base = b, frag_size = sz\<rparr> = Inr (slice off sz (packet_bytes h p))"
    using get_header_ok [OF assms(1,2) _ assms(3), of off] unfolding slice_def by blast
  moreover have "\<exists>h' p' q. packet_share h p off n = Inr (h', p', q) \<and> heap_le h h' \<and> packet_wf h' p' \<and>
      packet_bytes h' p' = packet_bytes h p \<and> packet_wf h' q \<and> packet_bytes h' q = bs"
    if "v_share (packet_bytes h p) off n = Inr bs" for bs
    using that pkt.share_law [OF assms(1,2), of off n] assms(5) by (auto simp: v_share_def slice_def split: if_splits)
  moreover have "\<exists>h' q. packet_append h p x = Inr (h', q) \<and> heap_le h h' \<and> packet_wf h' q \<and>
      packet_bytes h' q = packet_bytes h p @ packet_bytes h x"
    by (rule pkt.app_law [OF assms(1,4,2,5)])
  ultimately show ?thesis
    using trim_front_ok [OF assms(1,2), of n] len
    by (auto simp: v_trim_front_def v_get_header_def)
qed

text \<open>A small packet in the internal array, for the witnesses.\<close>

definition sample_heap :: heap where
  "sample_heap = \<lparr>bufs = [], raw = (\<lambda>_. 0)\<rparr>"

definition sample_packet :: "bytes \<Rightarrow> packet" where
  "sample_packet bs = \<lparr>p_len = length bs,
     p_frags = [\<lparr>frag_base = InData (int (internal_data_size - length bs)), frag_size = length bs\<rparr>],
     p_allocated_frags = 4, p_offload_info = offload_info_init, p_rss_hash = None,
     p_data = replicate (internal_data_size - length bs) 0 @ bs,
     p_headroom = internal_data_size - length bs\<rparr>"

lemma sample_packet_wf:
  "length bs \<le> 112 \<Longrightarrow> packet_wf sample_heap (sample_packet bs)"
  "length bs \<le> 112 \<Longrightarrow> packet_bytes sample_heap (sample_packet bs) = bs"
  by (cases bs; auto simp: packet_wf_def packet_core_def sample_packet_def internal_ok_def
      packet_bytes_def plain_ok_def frag_bytes_def slice_def)+

lemma sample_packet_simps [simp]:
  "length (p_frags (sample_packet bs)) = 1" "p_len (sample_packet bs) = length bs"
  by (simp_all add: sample_packet_def)

theorem packet_refines_view_witness:
  "(\<exists>q. trim_front (sample_packet [7, 8]) 1 = Inr q \<and> packet_bytes sample_heap q = [8]) \<and>
   get_header sample_heap (sample_packet [7, 8]) 0 3 = Inr (sample_heap, sample_packet [7, 8], None) \<and>
   (\<exists>h' q. packet_append sample_heap (sample_packet [7, 8]) (sample_packet [9]) = Inr (h', q) \<and> packet_bytes h' q = [7, 8, 9])"
  using packet_refines_view [of sample_heap "sample_packet [7, 8]" 3 "sample_packet [9]" 1 0]
    sample_packet_wf [of "[7, 8]"] sample_packet_wf [of "[9]"] by (auto simp: v_trim_front_def v_get_header_def)

text \<open>Header round trip: prepending a header to a well formed packet and writing it succeeds,
  whatever the headroom; \<open>get_header\<close> at offset 0 then points at exactly the bytes written, and
  trimming the header off again leaves the original contents.\<close>

theorem prepend_get_trim:
  assumes "packet_wf h p" "length (p_frags p) + 1 < 32768" "hdr \<noteq> []" "length hdr + length (packet_bytes h p) < 4294967296"
  shows "\<exists>h1 q h2 q2 b r. prepend_header h p hdr = Inr (h1, q) \<and>
    get_header h1 q 0 (length hdr) = Inr (h2, q2, Some b) \<and>
    read_frag h2 (p_data q2) \<lparr>frag_base = b, frag_size = length hdr\<rparr> = Inr hdr \<and>
    trim_front q2 (length hdr) = Inr r \<and> packet_wf h2 r \<and> packet_bytes h2 r = packet_bytes h p"
proof -
  obtain h1 q where 1: "prepend_header h p hdr = Inr (h1, q)" "packet_wf h1 q"
      "packet_bytes h1 q = hdr @ packet_bytes h p"
    using prepend_header_ok [OF assms(1,2)] by blast
  have c: "countable_len (packet_bytes h1 q)" using assms(4) 1(3) by simp
  have len: "length hdr \<le> p_len q" using length_packet_bytes(1) [OF 1(2) c] 1(3) by simp
  obtain h2 q2 b where 2: "get_header h1 q 0 (length hdr) = Inr (h2, q2, Some b)" "packet_wf h2 q2"
      "packet_bytes h2 q2 = packet_bytes h1 q"
      "read_frag h2 (p_data q2) \<lparr>frag_base = b, frag_size = length hdr\<rparr> = Inr hdr"
    using get_header_ok [OF 1(2) c, of 0 "length hdr"] len assms(3) 1(3) by auto
  have c2: "countable_len (packet_bytes h2 q2)" using c 2(3) by simp
  have "length hdr \<le> p_len q2" using length_packet_bytes(1) [OF 2(2) c2] 2(3) 1(3) by simp
  then obtain r where "trim_front q2 (length hdr) = Inr r" "packet_wf h2 r"
      "packet_bytes h2 r = drop (length hdr) (packet_bytes h2 q2)"
    using trim_front_ok [OF 2(2) c2] by blast
  with 1 2 show ?thesis by auto
qed

theorem prepend_get_trim_witness:
  "\<exists>h1 q h2 q2 b r. prepend_header sample_heap (sample_packet [7, 8]) [1, 2, 3] = Inr (h1, q) \<and>
    get_header h1 q 0 3 = Inr (h2, q2, Some b) \<and>
    read_frag h2 (p_data q2) \<lparr>frag_base = b, frag_size = 3\<rparr> = Inr [1, 2, 3] \<and>
    trim_front q2 3 = Inr r \<and> packet_wf h2 r \<and> packet_bytes h2 r = [7, 8]"
  using prepend_get_trim [of sample_heap "sample_packet [7, 8]" "[1, 2, 3]"]
    sample_packet_wf [of "[7, 8]"] by (simp add: numeral_3_eq_3)

text \<open>Cutting a packet at any point with \<open>share(0, n)\<close> and \<open>trim_front(n)\<close>, as the TCP and IP
  output paths do, never fails and splits the contents: the parts put together are the packet.\<close>

theorem packet_split_at:
  assumes "packet_wf h p" "n \<le> length (packet_bytes h p)" "length (p_frags p) < 32768" "length (packet_bytes h p) < 4294967296"
  shows "\<exists>h' p' front rest. packet_share h p 0 n = Inr (h', p', front) \<and>
    trim_front p' n = Inr rest \<and> heap_le h h' \<and> packet_wf h' front \<and> packet_wf h' rest \<and>
    length (packet_bytes h' front) = n \<and>
    packet_bytes h' front @ packet_bytes h' rest = packet_bytes h p"
  by (rule pkt.split_at [OF assms])

theorem packet_split_at_witness:
  "\<exists>h' p' front rest. packet_share sample_heap (sample_packet [7, 8, 9]) 0 2 = Inr (h', p', front) \<and>
    trim_front p' 2 = Inr rest \<and> packet_bytes h' front @ packet_bytes h' rest = [7, 8, 9]"
  using packet_split_at [of sample_heap "sample_packet [7, 8, 9]" 2]
    sample_packet_wf [of "[7, 8, 9]"] by auto

text \<open>Moving the first \<open>n\<close> bytes of one packet behind another (share, append, trim) keeps the
  byte stream of the pair.\<close>

theorem packet_move_front:
  assumes "packet_wf h p" "packet_wf h q" "n \<le> length (packet_bytes h q)"
    "length (p_frags p) + length (p_frags q) < 32768"
    "length (packet_bytes h p) < 4294967296" "length (packet_bytes h q) < 4294967296"
  shows "\<exists>h1 q' front h2 r rest. packet_share h q 0 n = Inr (h1, q', front) \<and>
    packet_append h1 p front = Inr (h2, r) \<and> trim_front q' n = Inr rest \<and> packet_wf h2 r \<and>
    packet_wf h2 rest \<and>
    packet_bytes h2 r @ packet_bytes h2 rest = packet_bytes h p @ packet_bytes h q"
  by (rule pkt.move_front [OF assms])

theorem packet_move_front_witness:
  "\<exists>h1 q' front h2 r rest. packet_share sample_heap (sample_packet [7, 8]) 0 1 = Inr (h1, q', front) \<and>
    packet_append h1 (sample_packet [5]) front = Inr (h2, r) \<and> trim_front q' 1 = Inr rest \<and>
    packet_wf h2 r \<and> packet_wf h2 rest \<and> packet_bytes h2 r @ packet_bytes h2 rest = [5, 7, 8]"
  using packet_move_front [of sample_heap "sample_packet [5]" "sample_packet [7, 8]" 1]
    sample_packet_wf [of "[7, 8]"] sample_packet_wf [of "[5]"] by simp

text \<open>\<open>trim_back\<close> on a packet held in the internal array adds the trimmed size to the headroom
  although the data does not move: a later header that fits only the enlarged headroom is
  written in front of the array.\<close>

theorem trim_back_headroom_underflow:
  assumes "p_frags p = [\<lparr>frag_base = InData (int (p_headroom p)), frag_size = p_len p\<rparr>]"
    "length (p_data p) = 112" "p_headroom p + p_len p \<le> 112" "0 < r" "r < p_len p"
    "p_headroom p < length hdr" "length hdr \<le> p_headroom p + r"
  shows "\<exists>q. trim_back p r = Inr q \<and> p_len q = p_len p - r \<and>
    prepend_header h q hdr = Inl OutOfRange"
proof -
  let ?q = "p\<lparr>p_len := p_len p - r,
      p_frags := [\<lparr>frag_base = InData (int (p_headroom p)), frag_size = p_len p - r\<rparr>],
      p_headroom := p_headroom p + r\<rparr>"
  have t: "trim_back p r = Inr ?q"
    using assms by (simp add: trim_back_def drop_front.simps)
  have "prepend_header h ?q hdr = Inl OutOfRange"
    using assms by (simp add: prepend_header_def prepend_uninitialized_header_def
        allocate_headroom_def store_front_def in_range_def Let_def)
  with t show ?thesis by (intro exI [of _ ?q]) simp
qed

theorem trim_back_headroom_underflow_witness:
  "\<exists>q. trim_back (sample_packet (replicate 100 0)) 20 = Inr q \<and> p_len q = 80 \<and>
    prepend_header sample_heap q (replicate 14 0) = Inl OutOfRange"
  using trim_back_headroom_underflow [of "sample_packet (replicate 100 0)" 20 "replicate 14 0" sample_heap]
  by (simp add: sample_packet_def)

end
