(* ===== verification/PacketMerger.thy ===== *)
theory PacketMerger
  imports Packet
begin

text \<open>
  The template \<open>packet_merger<Offset, Tag>\<close> (\<open>network/packet-util.hh\<close>): segments that arrive in
  any order are kept in a \<open>std::map\<close> from their offset, overlapping and adjacent ones merged.

  The template parameter is the record \<open>offset_ops\<close> of the operators the code uses on offsets.
  The map is an association list in key order; \<open>emplace\<close> keeps an entry that is already there.
  Packets are their byte strings; \<open>linearize\<close> keeps them.

  The lemmas hold in the locale \<open>offset_order\<close>: the operators behave like naturals below a
  bound. It is interpreted here for \<open>uint32_t\<close> (IP fragments), and in the theory of sequence
  numbers for \<open>tcp_seq\<close> (out of order TCP segments), where the bound is half the space.
\<close>

record 'o offset_ops =
  o_le :: "'o \<Rightarrow> 'o \<Rightarrow> bool"
  o_lt :: "'o \<Rightarrow> 'o \<Rightarrow> bool"
  o_add :: "'o \<Rightarrow> nat \<Rightarrow> 'o"
  o_sub :: "'o \<Rightarrow> 'o \<Rightarrow> nat"

type_synonym 'o merge_map = "('o \<times> bytes) list"

fun map_emplace :: "'o offset_ops \<Rightarrow> 'o \<Rightarrow> bytes \<Rightarrow> 'o merge_map \<Rightarrow> 'o merge_map" where
  "map_emplace ops k v [] = [(k, v)]"
| "map_emplace ops k v ((k', v') # m) =
     (if o_lt ops k k' then (k, v) # (k', v') # m
      else if o_lt ops k' k then (k', v') # map_emplace ops k v m
      else (k', v') # m)"

text \<open>What the first loop leaves: return at once, or the map and the packet still to insert.\<close>

datatype 'o pass1 = Covered | Insert "'o merge_map" bytes | Absorbed "'o merge_map"

fun keep :: "('o \<times> bytes) \<Rightarrow> 'o pass1 \<Rightarrow> 'o pass1" where
  "keep s Covered = Covered"
| "keep s (Insert m p) = Insert (s # m) p"
| "keep s (Absorbed m) = Absorbed (s # m)"

fun merge_with_existing ::
  "'o offset_ops \<Rightarrow> 'o \<Rightarrow> bytes \<Rightarrow> 'o merge_map \<Rightarrow> 'o pass1 result" where
  "merge_with_existing ops beg p [] = Inr (Insert [] p)"
| "merge_with_existing ops beg p ((seg_beg, seg_pkt) # m) =
     (let p_end = o_add ops beg (length p);
          seg_end = o_add ops seg_beg (length seg_pkt)
      in if o_le ops seg_beg beg \<and> o_le ops p_end seg_end then Inr Covered
         else if o_le ops beg seg_beg \<and> o_le ops seg_end p_end then Inr (Insert m p)
         else if o_lt ops beg seg_beg \<and> o_le ops seg_beg p_end \<and> o_le ops p_end seg_end then
           andThen (v_trim_front seg_pkt (o_sub ops p_end seg_beg)) (\<lambda>rest.
             Inr (Insert m (p @ rest)))
         else if o_le ops seg_beg beg \<and> o_le ops beg seg_end \<and> o_lt ops seg_end p_end then
           andThen (v_trim_front p (o_sub ops seg_end beg)) (\<lambda>rest.
             Inr (Absorbed ((seg_beg, seg_pkt @ rest) # m)))
         else andThen (merge_with_existing ops beg p m) (\<lambda>r. Inr (keep (seg_beg, seg_pkt) r)))"

function merge_adjacent :: "'o offset_ops \<Rightarrow> 'o merge_map \<Rightarrow> 'o merge_map result" where
  "merge_adjacent ops [] = Inr []"
| "merge_adjacent ops [s] = Inr [s]"
| "merge_adjacent ops ((seg_beg, seg_pkt) # (beg, p) # m) =
     (let seg_end = o_add ops seg_beg (length seg_pkt);
          p_end = o_add ops beg (length p)
      in if o_le ops seg_beg beg \<and> o_le ops beg seg_end \<and> o_lt ops seg_end p_end then
           (case v_trim_front p (o_sub ops seg_end beg) of
              Inl e \<Rightarrow> Inl e
            | Inr rest \<Rightarrow> merge_adjacent ops ((seg_beg, seg_pkt @ rest) # m))
         else if o_le ops p_end seg_end then merge_adjacent ops ((seg_beg, seg_pkt) # m)
         else if o_lt ops seg_end beg then
           andThen (merge_adjacent ops ((beg, p) # m)) (\<lambda>r. Inr ((seg_beg, seg_pkt) # r))
         else Inl Aborted)"
  by pat_completeness auto
termination by (relation "measure (\<lambda>(ops, m). length m)") auto

definition merge :: "'o offset_ops \<Rightarrow> 'o merge_map \<Rightarrow> 'o \<Rightarrow> bytes \<Rightarrow> 'o merge_map result" where
  "merge ops m offset p =
     andThen (merge_with_existing ops offset p m) (\<lambda>r.
       case r of
         Covered \<Rightarrow> Inr m
       | Insert m' p' \<Rightarrow> merge_adjacent ops (map_emplace ops offset p' m')
       | Absorbed m' \<Rightarrow> merge_adjacent ops m')"

text \<open>A sequence of arrivals.\<close>

fun merge_all :: "'o offset_ops \<Rightarrow> 'o merge_map \<Rightarrow> ('o \<times> bytes) list \<Rightarrow> 'o merge_map result" where
  "merge_all ops m [] = Inr m"
| "merge_all ops m ((offset, p) # arrivals) =
     andThen (merge ops m offset p) (\<lambda>m'. merge_all ops m' arrivals)"

subsection \<open>Offsets that behave like naturals below a bound\<close>

definition seg_cover :: "('o \<Rightarrow> nat) \<Rightarrow> 'o \<times> bytes \<Rightarrow> nat set" where
  "seg_cover pos s = {pos (fst s) ..< pos (fst s) + length (snd s)}"

definition seg_content :: "('o \<Rightarrow> nat) \<Rightarrow> 'o \<times> bytes \<Rightarrow> (nat \<times> byte) set" where
  "seg_content pos s = {(k, b). k \<in> seg_cover pos s \<and> b = snd s ! (k - pos (fst s))}"

text \<open>The positions a map covers, and the bytes it holds there.\<close>

definition covers :: "('o \<Rightarrow> nat) \<Rightarrow> 'o merge_map \<Rightarrow> nat set" where
  "covers pos m = \<Union> (seg_cover pos ` set m)"

definition content :: "('o \<Rightarrow> nat) \<Rightarrow> 'o merge_map \<Rightarrow> (nat \<times> byte) set" where
  "content pos m = \<Union> (seg_content pos ` set m)"

definition fits :: "('o \<Rightarrow> nat) \<Rightarrow> nat \<Rightarrow> 'o \<times> bytes \<Rightarrow> bool" where
  "fits pos bound s \<longleftrightarrow> pos (fst s) + length (snd s) \<le> bound"

text \<open>The invariant: segments in order with a gap between any two.\<close>

definition separated :: "('o \<Rightarrow> nat) \<Rightarrow> nat \<Rightarrow> 'o merge_map \<Rightarrow> bool" where
  "separated pos bound m \<longleftrightarrow>
     sorted_wrt (\<lambda>a b. pos (fst a) + length (snd a) < pos (fst b)) m \<and> list_all (fits pos bound) m"

definition ordered :: "('o \<Rightarrow> nat) \<Rightarrow> nat \<Rightarrow> 'o merge_map \<Rightarrow> bool" where
  "ordered pos bound m \<longleftrightarrow>
     sorted_wrt (\<lambda>a b. pos a < pos b) (map fst m) \<and> list_all (fits pos bound) m"

lemma covers_simps [simp]:
  "covers pos [] = {}" "covers pos (s # m) = seg_cover pos s \<union> covers pos m"
  "content pos [] = {}" "content pos (s # m) = seg_content pos s \<union> content pos m"
  by (simp_all add: covers_def content_def)

lemma separated_Cons:
  "separated pos bound (s # m) \<longleftrightarrow>
     fits pos bound s \<and> (\<forall>t \<in> set m. pos (fst s) + length (snd s) < pos (fst t)) \<and>
     separated pos bound m"
  by (auto simp: separated_def)

lemma ordered_Cons:
  "ordered pos bound (s # m) \<longleftrightarrow>
     fits pos bound s \<and> (\<forall>t \<in> set m. pos (fst s) < pos (fst t)) \<and> ordered pos bound m"
  by (auto simp: ordered_def)

lemma separated_ordered: "separated pos bound m \<Longrightarrow> ordered pos bound m"
  by (induction m) (auto simp: separated_Cons ordered_Cons ordered_def intro: le_less_trans [OF le_add1])

lemma fst_content: "fst ` content pos m = covers pos m"
  by (force simp: content_def covers_def seg_content_def)

text \<open>Segments cut from a stream of bytes hold its bytes, and conversely.\<close>

definition of_stream :: "('o \<Rightarrow> nat) \<Rightarrow> (nat \<Rightarrow> byte) \<Rightarrow> 'o \<times> bytes \<Rightarrow> bool" where
  "of_stream pos stream s \<longleftrightarrow> snd s = map stream [pos (fst s) ..< pos (fst s) + length (snd s)]"

lemma of_stream_seg:
  "of_stream pos stream s \<longleftrightarrow> (\<forall>(k, b) \<in> seg_content pos s. b = stream k)"
proof
  assume "of_stream pos stream s"
  then have "snd s ! i = stream (pos (fst s) + i)" if "i < length (snd s)" for i
    using that nth_map [of i "[pos (fst s) ..< pos (fst s) + length (snd s)]" stream]
    by (simp add: of_stream_def)
  then show "\<forall>(k, b) \<in> seg_content pos s. b = stream k"
    by (auto simp: seg_content_def seg_cover_def)
next
  assume a: "\<forall>(k, b) \<in> seg_content pos s. b = stream k"
  show "of_stream pos stream s"
    unfolding of_stream_def
  proof (rule nth_equalityI)
    fix i
    assume i: "i < length (snd s)"
    then have "(pos (fst s) + i, snd s ! i) \<in> seg_content pos s"
      by (auto simp: seg_content_def seg_cover_def)
    then show "snd s ! i = map stream [pos (fst s) ..< pos (fst s) + length (snd s)] ! i"
      using a i by auto
  qed simp
qed

lemma of_stream_content:
  "list_all (of_stream pos stream) m \<longleftrightarrow> (\<forall>(k, b) \<in> content pos m. b = stream k)"
  by (force simp: list_all_iff content_def of_stream_seg)

text \<open>Gluing two segments: the front one whole, the back one without the overlap.\<close>

lemma glue_segments:
  assumes "pos a \<le> pos b" "pos b \<le> pos a + length p" "pos a + length p \<le> pos b + length q"
  shows "seg_cover pos (a, p @ drop (pos a + length p - pos b) q) = seg_cover pos (a, p) \<union> seg_cover pos (b, q)"
    "seg_content pos (a, p @ drop (pos a + length p - pos b) q) \<subseteq> seg_content pos (a, p) \<union> seg_content pos (b, q)"
proof -
  let ?r = "drop (pos a + length p - pos b) q"
  show "seg_cover pos (a, p @ ?r) = seg_cover pos (a, p) \<union> seg_cover pos (b, q)"
    using assms by (auto simp: seg_cover_def)
  show "seg_content pos (a, p @ ?r) \<subseteq> seg_content pos (a, p) \<union> seg_content pos (b, q)"
  proof (intro subsetI)
    fix x
    assume x: "x \<in> seg_content pos (a, p @ ?r)"
    show "x \<in> seg_content pos (a, p) \<union> seg_content pos (b, q)"
    proof (cases "fst x < pos a + length p")
      case True
      then show ?thesis using x by (auto simp: seg_content_def seg_cover_def nth_append)
    next
      case False
      then have "pos a + length p - pos b + (fst x - pos a - length p) = fst x - pos b"
          "\<not> fst x - pos a < length p" using assms by simp_all
      then show ?thesis using x False assms by (auto simp: seg_content_def seg_cover_def nth_append)
    qed
  qed
qed

locale offset_order =
  fixes ops :: "'o offset_ops"
    and pos :: "'o \<Rightarrow> nat"
    and bound :: nat
  assumes le_law: "pos x \<le> bound \<Longrightarrow> pos y \<le> bound \<Longrightarrow> o_le ops x y \<longleftrightarrow> pos x \<le> pos y"
    and lt_law: "pos x \<le> bound \<Longrightarrow> pos y \<le> bound \<Longrightarrow> o_lt ops x y \<longleftrightarrow> pos x < pos y"
    and add_law: "pos x + n \<le> bound \<Longrightarrow> pos (o_add ops x n) = pos x + n"
    and sub_law: "pos x \<le> bound \<Longrightarrow> pos y \<le> pos x \<Longrightarrow> o_sub ops x y = pos x - pos y"
begin

lemmas laws = le_law lt_law add_law sub_law

lemma map_emplace_ok:
  assumes "ordered pos bound m" "fits pos bound (k, v)" "\<forall>t \<in> set m. pos (fst t) \<noteq> pos k"
  shows "ordered pos bound (map_emplace ops k v m) \<and> set (map_emplace ops k v m) = insert (k, v) (set m)"
  using assms
proof (induction m)
  case Nil
  then show ?case by (simp add: ordered_def)
next
  case (Cons s m)
  obtain k' v' where s: "s = (k', v')" by (cases s)
  have "pos k \<le> bound" "pos k' \<le> bound" using Cons.prems by (auto simp: s fits_def ordered_Cons)
  then show ?case using Cons by (auto simp: s ordered_Cons lt_law)
qed

lemma merge_adjacent_ok:
  "ordered pos bound m \<Longrightarrow>
     \<exists>r. merge_adjacent ops m = Inr r \<and> separated pos bound r \<and> covers pos r = covers pos m \<and>
       content pos r \<subseteq> content pos m \<and> fst ` set r \<subseteq> fst ` set m"
proof (induction m rule: measure_induct_rule [where f = length])
  case (less m)
  consider "m = []" | s where "m = [s]" | a p b q n where "m = (a, p) # (b, q) # n"
    by (metis list.exhaust surj_pair)
  then show ?case
  proof cases
    case 1
    then show ?thesis by (simp add: separated_def)
  next
    case 2
    then show ?thesis using less.prems by (simp add: separated_def ordered_def)
  next
    case (3 a p b q n)
    have o: "fits pos bound (a, p)" "fits pos bound (b, q)" "pos a < pos b" "ordered pos bound n"
        "\<forall>t \<in> set n. pos a < pos (fst t)" "\<forall>t \<in> set n. pos b < pos (fst t)"
      using less.prems by (auto simp: 3 ordered_Cons)
    have ends: "pos (o_add ops a (length p)) = pos a + length p"
        "pos (o_add ops b (length q)) = pos b + length q"
        "pos a + length p \<le> bound" "pos b + length q \<le> bound" "pos a \<le> bound" "pos b \<le> bound"
      using o(1,2) by (auto simp: fits_def add_law)
    consider (glue) "pos b \<le> pos a + length p" "pos a + length p < pos b + length q"
      | (inside) "pos b + length q \<le> pos a + length p" | (gap) "pos a + length p < pos b"
      by linarith
    then show ?thesis
    proof cases
      case glue
      let ?m = "(a, p @ drop (pos a + length p - pos b) q) # n"
      have "ordered pos bound ?m" using o glue by (auto simp: ordered_Cons fits_def)
      then obtain r where "merge_adjacent ops ?m = Inr r" "separated pos bound r"
          "covers pos r = covers pos ?m" "content pos r \<subseteq> content pos ?m" "fst ` set r \<subseteq> fst ` set ?m"
        using less.IH [of ?m] by (auto simp: 3)
      then show ?thesis
        using glue o ends glue_segments [of pos a b p q] by (auto simp: 3 laws Let_def)
    next
      case inside
      let ?m = "(a, p) # n"
      have "ordered pos bound ?m" using o by (auto simp: ordered_Cons)
      moreover have "seg_cover pos (b, q) \<subseteq> seg_cover pos (a, p)"
        using o(3) inside by (auto simp: seg_cover_def)
      moreover obtain r where "merge_adjacent ops ?m = Inr r" "separated pos bound r"
          "covers pos r = covers pos ?m" "content pos r \<subseteq> content pos ?m" "fst ` set r \<subseteq> fst ` set ?m"
        using less.IH [of ?m] calculation(1) by (auto simp: 3)
      ultimately show ?thesis
        using inside o(3) ends by (simp add: 3 laws Let_def) blast
    next
      case gap
      let ?m = "(b, q) # n"
      have "ordered pos bound ?m" using o by (auto simp: ordered_Cons)
      then obtain r where r: "merge_adjacent ops ?m = Inr r" "separated pos bound r"
          "covers pos r = covers pos ?m" "content pos r \<subseteq> content pos ?m" "fst ` set r \<subseteq> fst ` set ?m"
        using less.IH [of ?m] by (auto simp: 3)
      have "\<forall>t \<in> set r. pos a + length p < pos (fst t)"
        using r(5) gap o(6) by fastforce
      then show ?thesis
        using r gap o ends by (auto simp: 3 laws Let_def separated_Cons)
    qed
  qed
qed

definition pass1_ok :: "'o merge_map \<Rightarrow> 'o \<Rightarrow> bytes \<Rightarrow> 'o pass1 \<Rightarrow> bool" where
  "pass1_ok m beg p r =
     (case r of
        Covered \<Rightarrow> seg_cover pos (beg, p) \<subseteq> covers pos m
      | Insert m' p' \<Rightarrow> ordered pos bound m' \<and> set m' \<subseteq> set m \<and> fits pos bound (beg, p') \<and>
          (\<forall>t \<in> set m'. pos (fst t) \<noteq> pos beg) \<and>
          seg_cover pos (beg, p') \<union> covers pos m' = seg_cover pos (beg, p) \<union> covers pos m \<and>
          seg_content pos (beg, p') \<subseteq> seg_content pos (beg, p) \<union> content pos m
      | Absorbed m' \<Rightarrow> map fst m' = map fst m \<and> list_all (fits pos bound) m' \<and>
          covers pos m' = seg_cover pos (beg, p) \<union> covers pos m \<and>
          content pos m' \<subseteq> seg_content pos (beg, p) \<union> content pos m)"

lemma pass1_ok_keep:
  assumes "pass1_ok m beg p r" "ordered pos bound (s # m)" "pos (fst s) \<noteq> pos beg"
  shows "pass1_ok (s # m) beg p (keep s r)"
  using assms by (cases r) (auto simp: pass1_ok_def ordered_Cons)

lemma merge_with_existing_ok:
  assumes "separated pos bound m" "fits pos bound (beg, p)"
  shows "\<exists>r. merge_with_existing ops beg p m = Inr r \<and> pass1_ok m beg p r"
  using assms
proof (induction m)
  case Nil
  then show ?case by (simp add: pass1_ok_def ordered_def)
next
  case (Cons s m)
  obtain a q where s: "s = (a, q)" by (cases s)
  have o: "ordered pos bound (s # m)" "ordered pos bound m"
    using Cons.prems(1) separated_ordered [of pos bound "s # m"] by (auto simp: ordered_Cons)
  have f: "fits pos bound (a, q)" using Cons.prems by (auto simp: separated_Cons s fits_def)
  have after: "\<forall>t \<in> set m. pos a + length q < pos (fst t)" using Cons.prems by (auto simp: separated_Cons s)
  have ends: "pos (o_add ops a (length q)) = pos a + length q"
      "pos (o_add ops beg (length p)) = pos beg + length p"
      "pos a + length q \<le> bound" "pos beg + length p \<le> bound" "pos a \<le> bound" "pos beg \<le> bound"
    using f(1) Cons.prems(2) by (auto simp: fits_def add_law)
  consider (1) "pos a \<le> pos beg" "pos beg + length p \<le> pos a + length q"
    | (2) "pos beg \<le> pos a" "pos a + length q \<le> pos beg + length p"
          "\<not> (pos a \<le> pos beg \<and> pos beg + length p \<le> pos a + length q)"
    | (3) "pos beg < pos a" "pos a \<le> pos beg + length p" "pos beg + length p < pos a + length q"
    | (4) "pos a < pos beg" "pos beg \<le> pos a + length q" "pos a + length q < pos beg + length p"
    | (5) "pos a + length q < pos beg \<or> pos beg + length p < pos a"
    by linarith
  then show ?case
  proof cases
    case 1
    then have "seg_cover pos (beg, p) \<subseteq> seg_cover pos (a, q)" by (auto simp: seg_cover_def)
    then show ?thesis using 1 ends by (auto simp: s laws Let_def pass1_ok_def)
  next
    case 2
    have "seg_cover pos (a, q) \<subseteq> seg_cover pos (beg, p)" using 2 by (auto simp: seg_cover_def)
    moreover have "\<forall>t \<in> set m. pos (fst t) \<noteq> pos beg" using 2(1) after by fastforce
    ultimately show ?thesis
      using 2 ends o Cons.prems(2) by (auto simp: s laws Let_def pass1_ok_def)
  next
    case 3
    have "\<forall>t \<in> set m. pos (fst t) \<noteq> pos beg" using 3 after by fastforce
    then show ?thesis
      using 3 ends o f glue_segments [of pos beg a p q] by (auto simp: s laws Let_def pass1_ok_def fits_def)
  next
    case 4
    then show ?thesis
      using ends o f glue_segments [of pos a beg q p] by (auto simp: s laws Let_def pass1_ok_def fits_def ordered_def)
  next
    case 5
    obtain r where "merge_with_existing ops beg p m = Inr r" "pass1_ok m beg p r"
      using Cons by (auto simp: separated_Cons)
    then show ?thesis
      using 5 ends f pass1_ok_keep [OF _ o(1)] by (auto simp: s laws Let_def)
  qed
qed

lemma merge_ok:
  assumes "separated pos bound m" "fits pos bound (beg, p)"
  shows "\<exists>r. merge ops m beg p = Inr r \<and> separated pos bound r \<and>
    covers pos r = covers pos m \<union> seg_cover pos (beg, p) \<and>
    content pos r \<subseteq> content pos m \<union> seg_content pos (beg, p)"
proof -
  obtain r1 where r1: "merge_with_existing ops beg p m = Inr r1" "pass1_ok m beg p r1"
    using merge_with_existing_ok [OF assms] by blast
  show ?thesis
  proof (cases r1)
    case Covered
    then show ?thesis using r1 assms by (auto simp: merge_def pass1_ok_def)
  next
    case (Insert m' p')
    let ?m = "map_emplace ops beg p' m'"
    have k: "ordered pos bound ?m" "set ?m = insert (beg, p') (set m')"
      using r1(2) map_emplace_ok [of m' beg p'] by (auto simp: Insert pass1_ok_def)
    have "covers pos ?m = seg_cover pos (beg, p') \<union> covers pos m'"
      "content pos ?m = seg_content pos (beg, p') \<union> content pos m'"
      using k(2) by (auto simp: covers_def content_def)
    moreover have "content pos m' \<subseteq> content pos m"
      using r1(2) by (auto simp: Insert pass1_ok_def content_def)
    ultimately show ?thesis
      using merge_adjacent_ok [OF k(1)] r1 by (auto simp: merge_def Insert pass1_ok_def) blast
  next
    case (Absorbed m')
    have "ordered pos bound m'"
      using r1(2) separated_ordered [OF assms(1)] by (simp add: Absorbed pass1_ok_def ordered_def)
    then show ?thesis
      using merge_adjacent_ok [of m'] r1 by (auto simp: merge_def Absorbed pass1_ok_def) blast
  qed
qed

lemma merge_all_ok:
  assumes "separated pos bound m" "list_all (fits pos bound) xs"
  shows "\<exists>r. merge_all ops m xs = Inr r \<and> separated pos bound r \<and>
    covers pos r = covers pos m \<union> covers pos xs \<and> content pos r \<subseteq> content pos m \<union> content pos xs"
  using assms
proof (induction xs arbitrary: m)
  case Nil
  then show ?case by simp
next
  case (Cons x xs)
  obtain m' where m': "merge ops m (fst x) (snd x) = Inr m'" "separated pos bound m'"
      "covers pos m' = covers pos m \<union> seg_cover pos x" "content pos m' \<subseteq> content pos m \<union> seg_content pos x"
    using merge_ok [OF Cons.prems(1), of "fst x" "snd x"] Cons.prems(2) by auto
  from Cons.IH [OF m'(2)] Cons.prems(2) obtain r where "merge_all ops m' xs = Inr r"
      "separated pos bound r" "covers pos r = covers pos m' \<union> covers pos xs"
      "content pos r \<subseteq> content pos m' \<union> content pos xs" by auto
  then show ?case using m' by (cases x) auto
qed

text \<open>Segments cut from one stream, whatever their order and overlaps, give back the stream.\<close>

lemma reassembly:
  assumes "list_all (fits pos bound) xs" "list_all (of_stream pos stream) xs"
  shows "\<exists>r. merge_all ops [] xs = Inr r \<and> separated pos bound r \<and> covers pos r = covers pos xs \<and>
    list_all (of_stream pos stream) r"
  using merge_all_ok [OF _ assms(1), of "[]"] assms(2)
  by (auto simp: separated_def of_stream_content)

lemma merge_of_stream:
  assumes "separated pos bound m" "list_all (of_stream pos stream) m"
    "fits pos bound (beg, p)" "of_stream pos stream (beg, p)"
  shows "\<exists>r. merge ops m beg p = Inr r \<and> separated pos bound r \<and> list_all (of_stream pos stream) r \<and>
    covers pos r = covers pos m \<union> seg_cover pos (beg, p)"
  using merge_ok [OF assms(1,3)] assms(2,4) by (fastforce simp: of_stream_content of_stream_seg)

end

subsection \<open>Offsets of type uint32_t\<close>

definition u32_ops :: "u32 offset_ops" where
  "u32_ops = \<lparr>o_le = (\<le>), o_lt = (<), o_add = (\<lambda>x n. x + word_of_nat n), o_sub = (\<lambda>x y. unat (x - y))\<rparr>"

interpretation u32_merge: offset_order u32_ops unat 4294967295
proof unfold_locales
  fix x y :: u32 and n :: nat
  show "o_le u32_ops x y \<longleftrightarrow> unat x \<le> unat y" "o_lt u32_ops x y \<longleftrightarrow> unat x < unat y"
    by (simp_all add: u32_ops_def word_le_nat_alt word_less_nat_alt)
  show "unat (o_add u32_ops x n) = unat x + n" if "unat x + n \<le> 4294967295"
    using that by (simp add: u32_ops_def unat_word_ariths unsigned_of_nat take_bit_eq_mod)
  show "o_sub u32_ops x y = unat x - unat y" if "unat y \<le> unat x"
    using that by (simp add: u32_ops_def unat_sub word_le_nat_alt)
qed

text \<open>C28. Reassembly: fragments cut from one byte stream and merged in any order, with any
  overlaps and repetitions, never make \<open>merge\<close> abort; what is left are segments in order with a
  gap between any two, which cover exactly the positions received and hold the stream's bytes.\<close>

theorem merge_reassembles_stream:
  assumes "list_all (\<lambda>(offset, p). unat offset + length p \<le> 4294967295 \<and>
    p = map stream [unat offset ..< unat offset + length p]) arrivals"
  shows "\<exists>m. merge_all u32_ops [] arrivals = Inr m \<and> separated unat 4294967295 m \<and>
    covers unat m = covers unat arrivals \<and>
    list_all (\<lambda>(offset, p). p = map stream [unat offset ..< unat offset + length p]) m"
  using u32_merge.reassembly [of arrivals stream] assms
  by (simp add: list_all_iff fits_def of_stream_def case_prod_unfold)

theorem merge_reassembles_stream_witness:
  "\<exists>m. merge_all u32_ops [] [(8, [0, 0]), (0, [0, 0, 0]), (2, [0, 0, 0, 0, 0, 0, 0])] = Inr m \<and>
    covers unat m = {0 ..< 10}"
proof -
  have "covers unat [(8 :: u32, [0, 0 :: byte]), (0, [0, 0, 0]), (2, [0, 0, 0, 0, 0, 0, 0])] = {0 ..< 10}"
    by (auto simp: covers_def seg_cover_def)
  then show ?thesis
    using merge_reassembles_stream [of "\<lambda>_. 0" "[(8, [0, 0]), (0, [0, 0, 0]), (2, [0, 0, 0, 0, 0, 0, 0])]"]
    by (auto simp: upt_rec)
qed

end
