(* ===== verification/Rss.thy ===== *)
theory Rss
  imports Byteorder
begin

text \<open>
  Receive side scaling: the Toeplitz hash (\<open>network/toeplitz.hh\<close>), the \<open>forward_hash\<close> byte
  buffer (\<open>network/net.hh\<close>) and the hash of a connection identifier (\<open>l4connid\<close> in
  \<open>network/ip.hh\<close>), by which a connection finds the core that owns it.
\<close>

definition default_rsskey_40bytes :: bytes where
  "default_rsskey_40bytes =
     [0xd1, 0x81, 0xc6, 0x2c, 0xf7, 0xf4, 0xdb, 0x5b, 0x19, 0x83, 0xa2, 0xfc, 0x94, 0x3e,
      0x1a, 0xdb, 0xd9, 0x38, 0x9e, 0x6b, 0xd1, 0x03, 0x9c, 0x2c, 0xa7, 0x44, 0x99, 0xad,
      0x59, 0x3d, 0x56, 0xd9, 0xf3, 0x25, 0x3c, 0x06, 0x2a, 0xdc, 0x1f, 0xfc]"

definition default_rsskey_52bytes :: bytes where
  "default_rsskey_52bytes =
     [0x44, 0x39, 0x79, 0x6b, 0xb5, 0x4c, 0x50, 0x23, 0xb6, 0x75, 0xea, 0x5b, 0x12, 0x4f, 0x9f, 0x30, 0xb8, 0xa2,
      0xc0, 0x3d, 0xdf, 0xdc, 0x4d, 0x02, 0xa0, 0x8c, 0x9b, 0x33, 0x4a, 0xf6, 0x4a, 0x4c, 0x05, 0xc6, 0xfa, 0x34,
      0x39, 0x58, 0xd8, 0x55, 0x7d, 0x99, 0x58, 0x3a, 0xe1, 0x38, 0xc9, 0x2e, 0x81, 0x15, 0x03, 0x66]"

subsection \<open>The hash\<close>

text \<open>One turn of the inner loop, for bit \<open>b\<close> of data byte \<open>i\<close>.\<close>

definition toeplitz_bit :: "bytes \<Rightarrow> nat \<Rightarrow> byte \<Rightarrow> nat \<Rightarrow> u32 \<times> u32 \<Rightarrow> u32 \<times> u32" where
  "toeplitz_bit key i d b hv =
     (let (hash, v) = hv;
          hash' = (if d AND push_bit (7 - b) 1 \<noteq> 0 then hash XOR v else hash);
          v' = push_bit 1 v
      in (hash', if i + 4 < length key \<and> key ! (i + 4) AND push_bit (7 - b) 1 \<noteq> 0
                 then v' OR 1 else v'))"

fun toeplitz_loop :: "bytes \<Rightarrow> nat \<Rightarrow> bytes \<Rightarrow> u32 \<times> u32 \<Rightarrow> u32 \<times> u32" where
  "toeplitz_loop key i [] hv = hv"
| "toeplitz_loop key i (d # data) hv =
     toeplitz_loop key (Suc i) data (fold (toeplitz_bit key i d) [0..<8] hv)"

definition toeplitz_init :: "bytes \<Rightarrow> u32" where
  "toeplitz_init key = push_bit 24 (ucast (key ! 0)) + push_bit 16 (ucast (key ! 1)) +
     push_bit 8 (ucast (key ! 2)) + ucast (key ! 3)"

definition toeplitz_hash :: "bytes \<Rightarrow> bytes \<Rightarrow> u32 result" where
  "toeplitz_hash key data =
     (if length key < 4 then Inl OutOfRange
      else Inr (fst (toeplitz_loop key 0 data (0, toeplitz_init key))))"

subsection \<open>The specification: an exclusive or of windows of the key\<close>

text \<open>Bit \<open>n\<close> of a byte string, most significant bit of the first byte first.\<close>

definition bit_of :: "bytes \<Rightarrow> nat \<Rightarrow> bool" where
  "bit_of bs n \<longleftrightarrow> n < 8 * length bs \<and> bit (bs ! (n div 8)) (7 - n mod 8)"

definition window :: "bytes \<Rightarrow> nat \<Rightarrow> u32" where
  "window key k = horner_sum of_bool 2 (map (\<lambda>j. bit_of key (k + 31 - j)) [0..<32])"

fun xor_windows :: "bytes \<Rightarrow> bytes \<Rightarrow> nat \<Rightarrow> u32" where
  "xor_windows key data 0 = 0"
| "xor_windows key data (Suc k) =
     (if bit_of data k then xor_windows key data k XOR window key k else xor_windows key data k)"

lemma bit_window: "bit (window key k) j \<longleftrightarrow> j < 32 \<and> bit_of key (k + 31 - j)"
  by (auto simp: window_def bit_horner_sum_bit_word_iff)

lemma and_push_bit_1: "(x :: byte) AND push_bit n 1 \<noteq> 0 \<longleftrightarrow> bit x n"
  by (metis and_exp_eq_0_iff_not_bit push_bit_of_1)

lemma window_Suc:
  "window key (Suc k) = (if bit_of key (k + 32) then push_bit 1 (window key k) OR 1
                         else push_bit 1 (window key k))"
proof (rule bit_word_eqI)
  fix j
  assume j: "j < LENGTH(32)"
  have "Suc (k + 31) - j = k + 31 - (j - 1)" if "j \<noteq> 0" using that j by simp
  moreover have "j - Suc 0 < 32" using j by simp
  ultimately show "bit (window key (Suc k)) j \<longleftrightarrow> bit (if bit_of key (k + 32)
      then push_bit 1 (window key k) OR 1 else push_bit 1 (window key k)) j"
    using j by (cases j) (auto simp: bit_window bit_or_iff bit_push_bit_iff bit_1_iff add.commute
        simp del: push_bit_Suc One_nat_def)
qed

lemma toeplitz_bit_step:
  assumes "b < 8" "i < length data" 
  shows "toeplitz_bit key i (data ! i) b (xor_windows key data (8 * i + b), window key (8 * i + b)) =
    (xor_windows key data (8 * i + Suc b), window key (8 * i + Suc b))"
proof -
  have d: "bit_of data (8 * i + b) \<longleftrightarrow> bit (data ! i) (7 - b)"
    using assms by (simp add: bit_of_def)
  have "(8 * i + b + 32) div 8 = i + 4" "(8 * i + b + 32) mod 8 = b" using assms by presburger+
  moreover have "8 * i + b + 32 < 8 * length key \<longleftrightarrow> i + 4 < length key" using assms by presburger
  ultimately have k: "bit_of key (8 * i + b + 32) \<longleftrightarrow> i + 4 < length key \<and> bit (key ! (i + 4)) (7 - b)"
    by (simp add: bit_of_def)
  show ?thesis
    using d k window_Suc [of key "8 * i + b"]
    by (simp add: toeplitz_bit_def Let_def and_push_bit_1 del: push_bit_of_1 One_nat_def)
qed

lemma toeplitz_byte:
  assumes "n \<le> 8" "i < length data"
  shows "fold (toeplitz_bit key i (data ! i)) [0..<n] (xor_windows key data (8 * i), window key (8 * i)) =
    (xor_windows key data (8 * i + n), window key (8 * i + n))"
  using assms
proof (induction n)
  case 0
  then show ?case by simp
next
  case (Suc n)
  then show ?case using toeplitz_bit_step [of n i data key] by simp
qed

lemma toeplitz_loop_windows:
  "i + length rest = length data \<Longrightarrow> rest = drop i data \<Longrightarrow>
   toeplitz_loop key i rest (xor_windows key data (8 * i), window key (8 * i)) =
     (xor_windows key data (8 * length data), window key (8 * length data))"
proof (induction rest arbitrary: i)
  case Nil
  then show ?case by simp
next
  case (Cons d rest)
  have i: "i < length data" using Cons.prems(1) by simp
  have d: "d = data ! i" "rest = drop (Suc i) data"
    using Cons.prems(2) Cons_nth_drop_Suc [OF i] by (metis list.inject)+
  have "8 * i + 8 = 8 * Suc i" by simp
  then show ?case
    using Cons.IH [of "Suc i"] Cons.prems(1) d i toeplitz_byte [of 8 i data key] by (simp add: add.commute)
qed

lemma disjoint_sum:
  assumes "\<And>n. bit a n \<Longrightarrow> n < 32 \<Longrightarrow> \<not> bit b n"
  shows "(a :: u32) + b = a OR b"
  by (rule disjunctive_add_eq_or) (use assms in \<open>auto simp: bit_eq_iff bit_and_iff dest: bit_imp_le_length\<close>)

lemma window_0:
  assumes "4 \<le> length key"
  shows "toeplitz_init key = window key 0"
proof -
  let ?k = "\<lambda>i. ucast (key ! i) :: u32"
  have b: "bit (?k i) n \<longleftrightarrow> n < 8 \<and> bit (key ! i) n" for i n
    by (auto simp: bit_ucast_iff dest: bit_imp_le_length)
  have p: "bit (push_bit m (?k i)) n \<longleftrightarrow> m \<le> n \<and> n < 32 \<and> n < m + 8 \<and> bit (key ! i) (n - m)" for i m n
    by (auto simp: bit_push_bit_iff b dest: bit_imp_le_length)
  have "toeplitz_init key = push_bit 24 (?k 0) OR push_bit 16 (?k 1) OR push_bit 8 (?k 2) OR ?k 3"
  proof -
    have "push_bit 24 (?k 0) + push_bit 16 (?k 1) = push_bit 24 (?k 0) OR push_bit 16 (?k 1)"
      by (rule disjoint_sum) (auto simp: p)
    moreover have "(push_bit 24 (?k 0) OR push_bit 16 (?k 1)) + push_bit 8 (?k 2) =
        (push_bit 24 (?k 0) OR push_bit 16 (?k 1)) OR push_bit 8 (?k 2)"
      by (rule disjoint_sum) (auto simp: p bit_or_iff)
    moreover have "((push_bit 24 (?k 0) OR push_bit 16 (?k 1)) OR push_bit 8 (?k 2)) + ?k 3 =
        ((push_bit 24 (?k 0) OR push_bit 16 (?k 1)) OR push_bit 8 (?k 2)) OR ?k 3"
      by (rule disjoint_sum) (auto simp: p b bit_or_iff)
    ultimately show ?thesis by (simp only: toeplitz_init_def or.assoc)
  qed
  moreover have "bit (push_bit 24 (?k 0) OR push_bit 16 (?k 1) OR push_bit 8 (?k 2) OR ?k 3) n \<longleftrightarrow>
      bit (window key 0) n" if n32: "n < 32" for n
  proof -
    have "31 - n < 8 * length key" using assms by arith
    then have n: "bit (window key 0) n \<longleftrightarrow> bit (key ! ((31 - n) div 8)) (7 - (31 - n) mod 8)"
      using n32 by (simp add: bit_window bit_of_def)
    define a c where "a = n div 8" and "c = n mod 8"
    have ac: "n = 8 * a + c" "c < 8" "a < 4" using n32 by (auto simp: a_def c_def)
    define d where "d = 7 - c"
    have d: "d < 8" "7 - d = c" "31 - n = 8 * (3 - a) + d" using ac unfolding d_def by arith+
    then have e: "(31 - n) div 8 = 3 - a" "7 - (31 - n) mod 8 = c" by simp_all
    consider "a = 0" | "a = 1" | "a = 2" | "a = 3" using ac(3) by linarith
    then show ?thesis
      by cases (use ac n e in \<open>simp_all add: bit_or_iff p b\<close>)
  qed
  ultimately show ?thesis by (auto intro!: bit_word_eqI)
qed

lemma toeplitz_hash_eq:
  "4 \<le> length key \<Longrightarrow> toeplitz_hash key data = Inr (xor_windows key data (8 * length data))"
  using toeplitz_loop_windows [of 0 data data key] by (simp add: toeplitz_hash_def window_0)

subsection \<open>The bytes that are hashed\<close>

type_synonym forward_hash = bytes

definition push_back8 :: "forward_hash \<Rightarrow> u8 \<Rightarrow> forward_hash result" where
  "push_back8 fh b = (if length fh < 64 then Inr (fh @ [b]) else Inl AssertFailed)"

definition push_back16 :: "forward_hash \<Rightarrow> u16 \<Rightarrow> forward_hash result" where
  "push_back16 fh b = andThen (push_back8 fh (ucast b)) (\<lambda>fh1. push_back8 fh1 (ucast (drop_bit 8 b)))"

definition push_back32 :: "forward_hash \<Rightarrow> u32 \<Rightarrow> forward_hash result" where
  "push_back32 fh b = andThen (push_back16 fh (ucast b)) (\<lambda>fh1. push_back16 fh1 (ucast (drop_bit 16 b)))"

record connid =
  local_ip :: u32
  foreign_ip :: u32
  local_port :: u16
  foreign_port :: u16

definition connid_hash_data :: "connid \<Rightarrow> forward_hash result" where
  "connid_hash_data c =
     andThen (push_back32 [] (hton32 (foreign_ip c))) (\<lambda>d1.
     andThen (push_back32 d1 (hton32 (local_ip c))) (\<lambda>d2.
     andThen (push_back16 d2 (hton16 (foreign_port c))) (\<lambda>d3.
     push_back16 d3 (hton16 (local_port c)))))"

definition connid_hash :: "bytes \<Rightarrow> connid \<Rightarrow> u32 result" where
  "connid_hash rss_key c = andThen (connid_hash_data c) (\<lambda>d. toeplitz_hash rss_key d)"

lemma u8_of_nat_mod: "(word_of_nat n :: u8) = word_of_nat (n mod 256)"
  by (simp add: word_unat_eq_iff unsigned_of_nat take_bit_eq_mod)

lemma ucast_u8: "(ucast (x :: 'a::len word) :: u8) = word_of_nat (unat x mod 256)"
  by (simp add: word_unat_eq_iff unsigned_ucast_eq take_bit_eq_mod)

lemma store16_bytes: "store16 b = [ucast b, ucast (drop_bit 8 b)]"
  by (simp add: store16_def ucast_u8 unat_drop_bit_div to_le_numeral del: of_nat_mod)

lemma store32_halves: "store32 b = store16 (ucast b) @ store16 (ucast (drop_bit 16 b))"
proof -
  have lo: "unat (ucast b :: u16) = unat b mod 65536"
    by (simp add: unsigned_ucast_eq take_bit_eq_mod)
  have "unat (ucast (drop_bit 16 b) :: u16) = unat b div 65536"
    using u32_less [of b] by (simp add: unsigned_ucast_eq take_bit_eq_mod unat_drop_bit_div less_mult_imp_div_less)
  moreover have "unat b mod 65536 = 256 * (unat b div 256 mod 256) + unat b mod 256"
    using mod_mult2_eq [of "unat b" 256 256] by simp
  then have "unat b mod 65536 mod 256 = unat b mod 256"
      "unat b mod 65536 div 256 mod 256 = unat b div 256 mod 256" by simp_all
  moreover have "unat b div 65536 = unat b div 256 div 256" by (simp add: div_mult2_eq [symmetric])
  ultimately show ?thesis
    using lo by (simp add: store16_def store32_def to_le_numeral)
qed

lemma push_back_ok [simp]:
  "length fh \<le> 62 \<Longrightarrow> push_back16 fh x = Inr (fh @ store16 x)"
  "length fh \<le> 60 \<Longrightarrow> push_back32 fh y = Inr (fh @ store32 y)"
proof -
  show 16: "length fh \<le> 62 \<Longrightarrow> push_back16 fh x = Inr (fh @ store16 x)" for fh x
    by (simp add: push_back16_def push_back8_def store16_bytes)
  show "length fh \<le> 60 \<Longrightarrow> push_back32 fh y = Inr (fh @ store32 y)"
    by (simp add: push_back32_def 16 store32_halves)
qed

lemma connid_hash_data_ok:
  "connid_hash_data c = Inr (to_be 4 (unat (foreign_ip c)) @ to_be 4 (unat (local_ip c)) @
     to_be 2 (unat (foreign_port c)) @ to_be 2 (unat (local_port c)))"
  by (simp add: connid_hash_data_def codec)

text \<open>C36. The hash of a connection never fails for a key of four bytes or more, and is the
  Toeplitz hash of the twelve bytes foreign address, local address, foreign port, local port in
  network order: the exclusive or, over the bits set in them, of the 32 key bits that start at
  the position of the bit.\<close>

theorem connid_hash_is_toeplitz:
  assumes "4 \<le> length key"
  shows "connid_hash key c = Inr (xor_windows key
     (to_be 4 (unat (foreign_ip c)) @ to_be 4 (unat (local_ip c)) @
      to_be 2 (unat (foreign_port c)) @ to_be 2 (unat (local_port c))) 96)"
  using assms by (simp add: connid_hash_def connid_hash_data_ok toeplitz_hash_eq)

lemma to_be_bytes:
  "to_be 4 0 = [0, 0, 0, 0]" "to_be 4 1 = [0, 0, 0, 1]" "to_be 2 0 = [0, 0]"
  by (simp_all add: to_be_def to_le_numeral)

lemma key_length [simp]: "length default_rsskey_40bytes = 40"
  by (simp add: default_rsskey_40bytes_def)

theorem connid_hash_is_toeplitz_witness:
  "connid_hash default_rsskey_40bytes
     \<lparr>local_ip = 1, foreign_ip = 0, local_port = 0, foreign_port = 0\<rparr> =
   Inr (xor_windows default_rsskey_40bytes ([0, 0, 0, 0] @ [0, 0, 0, 1] @ [0, 0] @ [0, 0]) 96)"
  using connid_hash_is_toeplitz [of default_rsskey_40bytes
     "\<lparr>local_ip = 1, foreign_ip = 0, local_port = 0, foreign_port = 0\<rparr>"]
  by (simp add: to_be_bytes [simplified] del: xor_windows.simps)

end
