(* ===== verification/NetTypes.thy ===== *)
theory NetTypes
  imports PacketMerger Rss
begin

text \<open>
  Data types the protocols share: Ethernet addresses and headers (\<open>network/ethernet.hh\<close>), the
  features a device offers (\<open>hw_features\<close> in \<open>network/net.hh\<close>), IPv4 addresses and the pseudo
  header checksums of \<open>ipv4_traits\<close> (\<open>network/ip.hh\<close>), and shifts by a variable amount.
\<close>

subsection \<open>Shifts\<close>

text \<open>Shifting a 32 bit integer by its width or more has no defined result.\<close>

definition shl32 :: "u32 \<Rightarrow> u8 \<Rightarrow> u32 result" where
  "shl32 x n = (if unat n < 32 then Inr (push_bit (unat n) x) else Inl UndefinedShift)"

definition shr32 :: "u32 \<Rightarrow> u8 \<Rightarrow> u32 result" where
  "shr32 x n = (if unat n < 32 then Inr (drop_bit (unat n) x) else Inl UndefinedShift)"

subsection \<open>Ethernet\<close>

datatype ethernet_address = Mac u8 u8 u8 u8 u8 u8

definition ethernet_address_zero :: ethernet_address where
  "ethernet_address_zero = Mac 0 0 0 0 0 0"

definition ethernet_address_read :: "bytes \<Rightarrow> ethernet_address" where
  "ethernet_address_read p = Mac (p ! 0) (p ! 1) (p ! 2) (p ! 3) (p ! 4) (p ! 5)"

fun ethernet_address_write :: "ethernet_address \<Rightarrow> bytes" where
  "ethernet_address_write (Mac a b c d e f) = [a, b, c, d, e, f]"

definition ethernet_broadcast_address :: ethernet_address where
  "ethernet_broadcast_address = Mac 0xff 0xff 0xff 0xff 0xff 0xff"

record eth_hdr =
  dst_mac :: ethernet_address
  src_mac :: ethernet_address
  eth_proto :: u16

text \<open>\<open>eth_proto\<close> is a packed field: these are loads and stores in memory order, and \<open>ntoh\<close> and
  \<open>hton\<close> of the whole header adjust it.\<close>

definition eth_hdr_load :: "bytes \<Rightarrow> eth_hdr" where
  "eth_hdr_load p = \<lparr>dst_mac = ethernet_address_read p, src_mac = ethernet_address_read (drop 6 p),
                     eth_proto = load16 (drop 12 p)\<rparr>"

definition eth_hdr_store :: "eth_hdr \<Rightarrow> bytes" where
  "eth_hdr_store eh = ethernet_address_write (dst_mac eh) @ ethernet_address_write (src_mac eh) @
                      store16 (eth_proto eh)"

definition eth_hdr_hton :: "eth_hdr \<Rightarrow> eth_hdr" where
  "eth_hdr_hton eh = eh\<lparr>eth_proto := hton16 (eth_proto eh)\<rparr>"

definition eth_hdr_ntoh :: "eth_hdr \<Rightarrow> eth_hdr" where
  "eth_hdr_ntoh eh = eh\<lparr>eth_proto := ntoh16 (eth_proto eh)\<rparr>"

lemma length_ethernet_address_write [simp]: "length (ethernet_address_write a) = 6"
  by (cases a) simp

lemma ethernet_address_read_write [simp]:
  "ethernet_address_read (ethernet_address_write a @ rest) = a"
  "ethernet_address_read (ethernet_address_write a) = a"
  by (cases a, simp add: ethernet_address_read_def)+

lemma eth_hdr_round_trip:
  "eth_hdr_ntoh (eth_hdr_load (eth_hdr_store (eth_hdr_hton eh) @ payload)) = eh"
  by (cases eh) (simp add: eth_hdr_ntoh_def eth_hdr_load_def eth_hdr_store_def eth_hdr_hton_def)

lemma length_eth_hdr_store [simp]: "length (eth_hdr_store eh) = 14"
  by (simp add: eth_hdr_store_def)

subsection \<open>Device features\<close>

record hw_features =
  tx_csum_ip_offload :: bool
  tx_csum_l4_offload :: bool
  rx_csum_offload :: bool
  rx_lro :: bool
  tx_tso :: bool
  tx_ufo :: bool
  mtu :: u16
  max_packet_len :: u16

definition hw_features_init :: hw_features where
  "hw_features_init = \<lparr>tx_csum_ip_offload = False, tx_csum_l4_offload = False,
     rx_csum_offload = False, rx_lro = False, tx_tso = False, tx_ufo = False,
     mtu = 1500, max_packet_len = 65535 - 14\<rparr>"

subsection \<open>IPv4 addresses and pseudo headers\<close>

text \<open>An \<open>ipv4_address\<close> is its 32 bit value in host order.\<close>

type_synonym ipv4_address = u32

definition ipv4_address_read :: "be_ops \<Rightarrow> bytes \<Rightarrow> ipv4_address" where
  "ipv4_address_read be p = read_be32 be p"

definition ipv4_address_write :: "be_ops \<Rightarrow> ipv4_address \<Rightarrow> bytes" where
  "ipv4_address_write be a = write_be32 be a"

definition tcp_pseudo_header_checksum ::
  "checksummer \<Rightarrow> ipv4_address \<Rightarrow> ipv4_address \<Rightarrow> u16 \<Rightarrow> checksummer" where
  "tcp_pseudo_header_checksum cs src dst len =
     sum_u16 len (sum_u8 (ip_protocol_code tcp_num) (sum_u8 0 (sum_u32 dst (sum_u32 src cs))))"

definition udp_pseudo_header_checksum ::
  "checksummer \<Rightarrow> ipv4_address \<Rightarrow> ipv4_address \<Rightarrow> u16 \<Rightarrow> checksummer" where
  "udp_pseudo_header_checksum cs src dst len =
     sum_u16 len (sum_u8 (ip_protocol_code udp_num) (sum_u8 0 (sum_u32 dst (sum_u32 src cs))))"

text \<open>A packet on its way down, with where it goes.\<close>

record l4packet =
  l4_to :: ipv4_address
  l4_p :: bytes
  l4_oi :: offload_info
  l4_e_dst :: ethernet_address
  l4_proto_num :: ip_protocol_num

record l3packet =
  l3_proto_num :: eth_protocol_num
  l3_to :: ethernet_address
  l3_p :: bytes
  l3_oi :: offload_info

end
