(* ===== verification/Arp.thy ===== *)
theory Arp
  imports NetTypes
begin

text \<open>
  Address resolution (\<open>network/arp.hh\<close>, \<open>network/arp.cc\<close>): the ARP header, the table and the
  resolutions in progress, requests and replies, and the dispatch of the \<open>arp\<close> base class to its
  protocol. A promise handed to a caller of \<open>lookup\<close> is a number; \<open>arp_completed\<close> lists the
  promises completed so far with the address, or \<open>None\<close> for an \<open>arp_timeout_error\<close>. A reply makes
  every shard learn an address in the background: the request to do so is appended to
  \<open>arp_learn_all\<close>. The periodic timer of a resolution is armed exactly while the resolution is in
  the map.
\<close>

subsection \<open>The header\<close>

record arp_hdr =
  ah_htype :: u16
  ah_ptype :: u16
  ah_hlen :: u8
  ah_plen :: u8
  ah_oper :: u16
  sender_hwaddr :: ethernet_address
  sender_paddr :: ipv4_address
  target_hwaddr :: ethernet_address
  target_paddr :: ipv4_address

abbreviation (input) arp_hdr_size :: nat where "arp_hdr_size \<equiv> 28"
abbreviation (input) op_request :: u16 where "op_request \<equiv> 1"
abbreviation (input) op_reply :: u16 where "op_reply \<equiv> 2"
abbreviation (input) ipv4_broadcast :: ipv4_address where "ipv4_broadcast \<equiv> 0xffffffff"
abbreviation (input) max_waiters :: nat where "max_waiters \<equiv> 512"

definition arp_hdr_read :: "be_ops \<Rightarrow> bytes \<Rightarrow> arp_hdr" where
  "arp_hdr_read be p =
     \<lparr>ah_htype = read_be16 be p, ah_ptype = read_be16 be (drop 2 p), ah_hlen = p ! 4, ah_plen = p ! 5,
      ah_oper = read_be16 be (drop 6 p), sender_hwaddr = ethernet_address_read (drop 8 p),
      sender_paddr = ipv4_address_read be (drop 14 p),
      target_hwaddr = ethernet_address_read (drop 18 p),
      target_paddr = ipv4_address_read be (drop 24 p)\<rparr>"

definition arp_hdr_write :: "be_ops \<Rightarrow> arp_hdr \<Rightarrow> bytes" where
  "arp_hdr_write be h =
     write_be16 be (ah_htype h) @ write_be16 be (ah_ptype h) @ [ah_hlen h, ah_plen h] @
     write_be16 be (ah_oper h) @ ethernet_address_write (sender_hwaddr h) @
     ipv4_address_write be (sender_paddr h) @ ethernet_address_write (target_hwaddr h) @
     ipv4_address_write be (target_paddr h)"

lemma length_ipv4_address_write [simp]: "be_ok be \<Longrightarrow> length (ipv4_address_write be a) = 4"
  by (simp add: ipv4_address_write_def)

lemma ipv4_address_read_write [simp]:
  "be_ok be \<Longrightarrow> ipv4_address_read be (ipv4_address_write be a @ rest) = a"
  by (simp add: ipv4_address_read_def ipv4_address_write_def)

lemma length_arp_hdr_write [simp]: "be_ok be \<Longrightarrow> length (arp_hdr_write be h) = arp_hdr_size"
  by (simp add: arp_hdr_write_def)

lemma arp_hdr_read_write [simp]: "be_ok be \<Longrightarrow> arp_hdr_read be (arp_hdr_write be h @ rest) = h"
  by (cases h) (simp add: arp_hdr_read_def arp_hdr_write_def nth_append)

subsection \<open>State\<close>

record arp_state =
  arp_l2self :: ethernet_address
  arp_l3self :: ipv4_address
  arp_table :: "ipv4_address \<Rightarrow> ethernet_address option"
  arp_in_progress :: "ipv4_address \<Rightarrow> nat list option"
  arp_protos :: "u16 \<Rightarrow> bool"
  arp_packetq :: "l3packet list"
  arp_next_promise :: nat
  arp_completed :: "(nat \<times> ethernet_address option) list"
  arp_learn_all :: "(ethernet_address \<times> ipv4_address) list"

datatype arp_future = Arp_ready ethernet_address | Arp_waiting nat | Arp_queue_full

definition arp_init :: "ethernet_address \<Rightarrow> arp_state" where
  "arp_init l2 = \<lparr>arp_l2self = l2, arp_l3self = ipv4_broadcast,
     arp_table = [ipv4_broadcast \<mapsto> ethernet_broadcast_address], arp_in_progress = Map.empty,
     arp_protos = (\<lambda>p. p = eth_protocol_code ipv4_num), arp_packetq = [], arp_next_promise = 0,
     arp_completed = [], arp_learn_all = []\<rparr>"

definition arp_add :: "u16 \<Rightarrow> arp_state \<Rightarrow> arp_state" where
  "arp_add proto st = st\<lparr>arp_protos := (arp_protos st)(proto := True)\<rparr>"

definition arp_del :: "u16 \<Rightarrow> arp_state \<Rightarrow> arp_state" where
  "arp_del proto st = st\<lparr>arp_protos := (arp_protos st)(proto := False)\<rparr>"

definition set_self_addr :: "ipv4_address \<Rightarrow> arp_state \<Rightarrow> arp_state" where
  "set_self_addr addr st =
     st\<lparr>arp_table := ((arp_table st)(arp_l3self st := None))(addr \<mapsto> arp_l2self st),
        arp_l3self := addr\<rparr>"

subsection \<open>Queries and lookups\<close>

definition make_query_packet :: "be_ops \<Rightarrow> ipv4_address \<Rightarrow> arp_state \<Rightarrow> bytes" where
  "make_query_packet be paddr st = arp_hdr_write be
     \<lparr>ah_htype = 1, ah_ptype = eth_protocol_code ipv4_num, ah_hlen = 6, ah_plen = 4,
      ah_oper = op_request, sender_hwaddr = arp_l2self st, sender_paddr = arp_l3self st,
      target_hwaddr = ethernet_broadcast_address, target_paddr = paddr\<rparr>"

definition arp_send :: "ethernet_address \<Rightarrow> bytes \<Rightarrow> arp_state \<Rightarrow> arp_state" where
  "arp_send to p st = st\<lparr>arp_packetq := arp_packetq st @
     [\<lparr>l3_proto_num = arp_num, l3_to = to, l3_p = p, l3_oi = offload_info_init\<rparr>]\<rparr>"

definition send_query :: "be_ops \<Rightarrow> ipv4_address \<Rightarrow> arp_state \<Rightarrow> arp_state" where
  "send_query be paddr st = arp_send ethernet_broadcast_address (make_query_packet be paddr st) st"

definition arp_lookup :: "be_ops \<Rightarrow> ipv4_address \<Rightarrow> arp_state \<Rightarrow> arp_future \<times> arp_state" where
  "arp_lookup be paddr st =
     (case arp_table st paddr of
        Some l2 \<Rightarrow> (Arp_ready l2, st)
      | None \<Rightarrow>
          (let (waiters, st1) =
                 (case arp_in_progress st paddr of
                    None \<Rightarrow> ([], send_query be paddr (st\<lparr>arp_in_progress := (arp_in_progress st)(paddr \<mapsto> [])\<rparr>))
                  | Some ws \<Rightarrow> (ws, st))
           in if length waiters \<ge> max_waiters then (Arp_queue_full, st1)
              else (Arp_waiting (arp_next_promise st1),
                    st1\<lparr>arp_in_progress := (arp_in_progress st1)(paddr \<mapsto> waiters @ [arp_next_promise st1]),
                        arp_next_promise := arp_next_promise st1 + 1\<rparr>)))"

text \<open>The callback of the periodic timer of the resolution of \<open>paddr\<close>.\<close>

definition resolution_timeout :: "be_ops \<Rightarrow> ipv4_address \<Rightarrow> arp_state \<Rightarrow> arp_state" where
  "resolution_timeout be paddr st =
     (case arp_in_progress st paddr of
        None \<Rightarrow> st
      | Some ws \<Rightarrow>
          (let st1 = send_query be paddr st
           in st1\<lparr>arp_completed := arp_completed st1 @ map (\<lambda>w. (w, None)) ws,
                  arp_in_progress := (arp_in_progress st1)(paddr \<mapsto> [])\<rparr>))"

definition arp_learn :: "ethernet_address \<Rightarrow> ipv4_address \<Rightarrow> arp_state \<Rightarrow> arp_state" where
  "arp_learn hwaddr paddr st =
     (let st1 = st\<lparr>arp_table := (arp_table st)(paddr \<mapsto> hwaddr)\<rparr>
      in case arp_in_progress st paddr of
           None \<Rightarrow> st1
         | Some ws \<Rightarrow>
             st1\<lparr>arp_completed := arp_completed st @ map (\<lambda>w. (w, Some hwaddr)) ws,
                 arp_in_progress := (arp_in_progress st)(paddr := None)\<rparr>)"

subsection \<open>Incoming packets\<close>

definition handle_request :: "be_ops \<Rightarrow> arp_hdr \<Rightarrow> arp_state \<Rightarrow> arp_state" where
  "handle_request be ah st =
     (if target_paddr ah = arp_l3self st \<and> arp_l3self st \<noteq> ipv4_broadcast then
        (let reply = ah\<lparr>ah_oper := op_reply, target_hwaddr := sender_hwaddr ah,
               target_paddr := sender_paddr ah, sender_hwaddr := arp_l2self st,
               sender_paddr := arp_l3self st\<rparr>
         in arp_send (target_hwaddr reply) (arp_hdr_write be reply) st)
      else st)"

definition arp_received :: "be_ops \<Rightarrow> bytes \<Rightarrow> arp_state \<Rightarrow> arp_state" where
  "arp_received be p st =
     (case v_get_header p 0 arp_hdr_size of
        None \<Rightarrow> st
      | Some ah \<Rightarrow>
          (let h = arp_hdr_read be ah
           in if ah_hlen h \<noteq> 6 \<or> ah_plen h \<noteq> 4 then st
              else if ah_oper h = op_request then handle_request be h st
              else if ah_oper h = op_reply then
                st\<lparr>arp_learn_all := arp_learn_all st @ [(sender_hwaddr h, sender_paddr h)]\<rparr>
              else st))"

text \<open>The base class: \<open>process_packet\<close> reads the first four bytes to find the protocol; \<open>forward\<close>
  dereferences the header without a check and asks the protocol, which answers false.\<close>

definition process_packet :: "be_ops \<Rightarrow> bytes \<Rightarrow> arp_state \<Rightarrow> arp_state" where
  "process_packet be p st =
     (case v_get_header p 0 4 of
        None \<Rightarrow> st
      | Some h \<Rightarrow> if arp_protos st (read_be16 be (drop 2 h)) then arp_received be p st else st)"

definition arp_forward :: "bytes \<Rightarrow> nat \<Rightarrow> arp_state \<Rightarrow> bool result" where
  "arp_forward p off st =
     (case v_get_header p off 4 of
        None \<Rightarrow> Inl NullDeref
      | Some h \<Rightarrow> Inr (if arp_protos st (ntoh16 (load16 (drop 2 h))) then False else False))"

definition arp_get_packet :: "arp_state \<Rightarrow> l3packet option \<times> arp_state" where
  "arp_get_packet st =
     (case arp_packetq st of [] \<Rightarrow> (None, st) | p # ps \<Rightarrow> (Some p, st\<lparr>arp_packetq := ps\<rparr>))"

subsection \<open>Promises are kept\<close>

text \<open>The promises of a resolution that are still waiting, and the invariant: every promise handed
  out so far is either completed, once, or waits in exactly one resolution.\<close>

definition waiting :: "arp_state \<Rightarrow> ipv4_address \<Rightarrow> nat list" where
  "waiting st a = (case arp_in_progress st a of None \<Rightarrow> [] | Some ws \<Rightarrow> ws)"

definition arp_inv :: "arp_state \<Rightarrow> bool" where
  "arp_inv st \<longleftrightarrow>
     (\<forall>a. distinct (waiting st a) \<and> length (waiting st a) \<le> max_waiters) \<and>
     (\<forall>a b. a \<noteq> b \<longrightarrow> set (waiting st a) \<inter> set (waiting st b) = {}) \<and>
     distinct (map fst (arp_completed st)) \<and>
     (\<forall>a. set (waiting st a) \<inter> fst ` set (arp_completed st) = {}) \<and>
     {0..<arp_next_promise st} = fst ` set (arp_completed st) \<union> (\<Union>a. set (waiting st a))"

lemma waiting_fields [simp]:
  "waiting (arp_send to p st) = waiting st" "waiting (send_query be a st) = waiting st"
  "waiting (st\<lparr>arp_table := tb\<rparr>) = waiting st" "waiting (st\<lparr>arp_next_promise := n\<rparr>) = waiting st"
  "waiting (st\<lparr>arp_completed := c\<rparr>) = waiting st" "waiting (st\<lparr>arp_l3self := x\<rparr>) = waiting st"
  "waiting (st\<lparr>arp_protos := ps\<rparr>) = waiting st" "waiting (st\<lparr>arp_packetq := q\<rparr>) = waiting st"
  "waiting (st\<lparr>arp_learn_all := l\<rparr>) = waiting st"
  by (auto simp: waiting_def arp_send_def send_query_def fun_eq_iff)

lemma waiting_upd [simp]:
  "waiting (st\<lparr>arp_in_progress := (arp_in_progress st')(a := w)\<rparr>) =
     (waiting st')(a := (case w of None \<Rightarrow> [] | Some ws \<Rightarrow> ws))"
  by (auto simp: waiting_def fun_eq_iff)

lemma arp_invI:
  assumes "\<And>a. distinct (waiting st a)" "\<And>a. length (waiting st a) \<le> max_waiters"
    "\<And>a b. a \<noteq> b \<Longrightarrow> set (waiting st a) \<inter> set (waiting st b) = {}"
    "distinct (map fst (arp_completed st))"
    "\<And>a. set (waiting st a) \<inter> fst ` set (arp_completed st) = {}"
    "{0..<arp_next_promise st} = fst ` set (arp_completed st) \<union> (\<Union>a. set (waiting st a))"
  shows "arp_inv st"
  using assms by (simp add: arp_inv_def)

lemma arp_invD:
  assumes "arp_inv st"
  shows "distinct (waiting st a)" "length (waiting st a) \<le> max_waiters"
    "a \<noteq> b \<Longrightarrow> set (waiting st a) \<inter> set (waiting st b) = {}"
    "distinct (map fst (arp_completed st))"
    "set (waiting st a) \<inter> fst ` set (arp_completed st) = {}"
    "i \<in> set (waiting st a) \<Longrightarrow> i < arp_next_promise st"
    "i \<in> fst ` set (arp_completed st) \<Longrightarrow> i < arp_next_promise st"
    "{0..<arp_next_promise st} = fst ` set (arp_completed st) \<union> (\<Union>a. set (waiting st a))"
proof -
  show u: "{0..<arp_next_promise st} = fst ` set (arp_completed st) \<union> (\<Union>a. set (waiting st a))"
    using assms by (simp add: arp_inv_def)
  show "i \<in> set (waiting st a) \<Longrightarrow> i < arp_next_promise st"
    using u by (metis UN_I UNIV_I UnI2 atLeastLessThan_iff)
  show "i \<in> fst ` set (arp_completed st) \<Longrightarrow> i < arp_next_promise st"
    using u by (metis UnI1 atLeastLessThan_iff)
qed (use assms in \<open>simp_all add: arp_inv_def\<close>)

lemma arp_inv_cong:
  assumes "waiting st' = waiting st" "arp_completed st' = arp_completed st" "arp_next_promise st' = arp_next_promise st"
  shows "arp_inv st' \<longleftrightarrow> arp_inv st"
  using assms by (simp add: arp_inv_def)

lemma arp_inv_fields [simp]:
  "arp_inv (st\<lparr>arp_table := tb\<rparr>) = arp_inv st" "arp_inv (st\<lparr>arp_l3self := x\<rparr>) = arp_inv st"
  "arp_inv (st\<lparr>arp_protos := ps\<rparr>) = arp_inv st" "arp_inv (st\<lparr>arp_packetq := q\<rparr>) = arp_inv st"
  "arp_inv (st\<lparr>arp_learn_all := l\<rparr>) = arp_inv st" "arp_inv (arp_send to p st) = arp_inv st"
  by (rule arp_inv_cong, simp_all add: arp_send_def)+

lemma arp_inv_init [simp]: "arp_inv (arp_init l2)"
  by (simp add: arp_inv_def arp_init_def waiting_def)

text \<open>Handing out one more promise for \<open>a\<close>.\<close>

lemma arp_inv_issue:
  assumes inv: "arp_inv st" and room: "length (waiting st a) < max_waiters"
    and st': "waiting st' = (waiting st)(a := waiting st a @ [arp_next_promise st])"
      "arp_completed st' = arp_completed st" "arp_next_promise st' = arp_next_promise st + 1"
  shows "arp_inv st'"
proof (rule arp_invI)
  note D = arp_invD [OF inv]
  have new: "arp_next_promise st \<notin> set (waiting st b)" "arp_next_promise st \<notin> fst ` set (arp_completed st)" for b
    using D(6,7) by blast+
  show "distinct (waiting st' b)" for b using D(1) new st' by simp
  show "length (waiting st' b) \<le> max_waiters" for b using D(2) room st' by simp
  show "b \<noteq> c \<Longrightarrow> set (waiting st' b) \<inter> set (waiting st' c) = {}" for b c
    using D(3) [of b c] new st' by auto
  show "distinct (map fst (arp_completed st'))" using D(4) st' by simp
  show "set (waiting st' b) \<inter> fst ` set (arp_completed st') = {}" for b using D(5) [of b] new st' by auto
  have "(\<Union>b. set (waiting st' b)) = insert (arp_next_promise st) (\<Union>b. set (waiting st b))"
    using st'(1) by (auto split: if_splits)
  then show "{0..<arp_next_promise st'} = fst ` set (arp_completed st') \<union> (\<Union>b. set (waiting st' b))"
    using D(8) st' by (simp add: atLeast0_lessThan_Suc)
qed

text \<open>Completing all promises that wait for \<open>a\<close>.\<close>

lemma arp_inv_complete:
  assumes inv: "arp_inv st"
    and st': "waiting st' = (waiting st)(a := [])"
      "arp_completed st' = arp_completed st @ map (\<lambda>w. (w, r)) (waiting st a)"
      "arp_next_promise st' = arp_next_promise st"
  shows "arp_inv st'"
proof (rule arp_invI)
  note D = arp_invD [OF inv]
  have c: "fst ` set (arp_completed st') = fst ` set (arp_completed st) \<union> set (waiting st a)"
    using st'(2) by (simp add: image_Un image_image)
  show "distinct (waiting st' b)" for b using D(1) st' by simp
  show "length (waiting st' b) \<le> max_waiters" for b using D(2) st' by simp
  show "b \<noteq> d \<Longrightarrow> set (waiting st' b) \<inter> set (waiting st' d) = {}" for b d
    using D(3) [of b d] st' by auto
  have "map fst (arp_completed st') = map fst (arp_completed st) @ waiting st a"
    using st'(2) by (simp add: comp_def)
  then show "distinct (map fst (arp_completed st'))"
    using D(1) [of a] D(4) D(5) [of a] by (simp add: Int_commute)
  show "set (waiting st' b) \<inter> fst ` set (arp_completed st') = {}" for b
    using D(5) [of b] D(3) [of b a] st'(1) c by (cases "b = a") (auto simp: Int_Un_distrib)
  have "(\<Union>b. set (waiting st b)) = set (waiting st a) \<union> (\<Union>b. set (waiting st' b))"
    using st'(1) by (auto split: if_splits)
  then show "{0..<arp_next_promise st'} = fst ` set (arp_completed st') \<union> (\<Union>b. set (waiting st' b))"
    using D(8) st'(3) c by auto
qed

lemma arp_lookup_inv:
  assumes "arp_inv st" "arp_lookup be a st = (f, st')"
  shows "arp_inv st'"
proof (cases "arp_table st a")
  case (Some l2)
  then show ?thesis using assms by (simp add: arp_lookup_def)
next
  case None
  define st1 where "st1 = (case arp_in_progress st a of
      None \<Rightarrow> send_query be a (st\<lparr>arp_in_progress := (arp_in_progress st)(a \<mapsto> [])\<rparr>) | Some ws \<Rightarrow> st)"
  have w1: "waiting st1 = waiting st" and c1: "arp_completed st1 = arp_completed st"
    "arp_next_promise st1 = arp_next_promise st"
    by (auto simp: st1_def send_query_def arp_send_def waiting_def fun_eq_iff split: option.split)
  have inv1: "arp_inv st1" using assms(1) arp_inv_cong [OF w1 c1] by simp
  have "st' = (if length (waiting st1 a) \<ge> max_waiters then st1
      else st1\<lparr>arp_in_progress := (arp_in_progress st1)(a \<mapsto> waiting st1 a @ [arp_next_promise st1]),
              arp_next_promise := arp_next_promise st1 + 1\<rparr>)"
    using assms(2) None
    by (auto simp: arp_lookup_def st1_def waiting_def Let_def send_query_def arp_send_def split: option.splits if_splits)
  then show ?thesis
    using inv1 by (auto intro!: arp_inv_issue [OF inv1, of a])
qed

lemma resolution_timeout_inv: "arp_inv st \<Longrightarrow> arp_inv (resolution_timeout be a st)"
  by (auto simp: resolution_timeout_def Let_def send_query_def arp_send_def waiting_def split: option.split
      intro!: arp_inv_complete [of st _ a None] ext)

lemma arp_learn_inv: "arp_inv st \<Longrightarrow> arp_inv (arp_learn l2 a st)"
  by (auto simp: arp_learn_def Let_def waiting_def split: option.split
      intro!: arp_inv_complete [of st _ a "Some l2"] ext)

lemma other_inv [simp]:
  "arp_inv (set_self_addr a st) = arp_inv st" "arp_inv (handle_request be h st) = arp_inv st"
  "arp_inv (arp_received be p st) = arp_inv st" "arp_inv (process_packet be p st) = arp_inv st"
  "arp_inv (arp_add n st) = arp_inv st" "arp_inv (arp_del n st) = arp_inv st"
  "arp_inv (snd (arp_get_packet st)) = arp_inv st"
  by (simp_all add: set_self_addr_def handle_request_def process_packet_def arp_received_def arp_add_def
      arp_del_def arp_get_packet_def Let_def split: option.split list.split)

text \<open>What can happen to the resolver.\<close>

inductive arp_step :: "arp_state \<Rightarrow> arp_state \<Rightarrow> bool" where
  lookup: "arp_lookup be a st = (f, st') \<Longrightarrow> arp_step st st'"
| timeout: "arp_step st (resolution_timeout be a st)"
| learned: "arp_step st (arp_learn l2 a st)"
| received: "arp_step st (process_packet be p st)"
| configured: "arp_step st (set_self_addr a st)"
| polled: "arp_get_packet st = (p, st') \<Longrightarrow> arp_step st st'"
| added: "arp_step st (arp_add n st)"
| deleted: "arp_step st (arp_del n st)"

inductive arp_reachable :: "arp_state \<Rightarrow> bool" where
  start: "arp_reachable (arp_init l2)"
| step: "arp_reachable st \<Longrightarrow> arp_step st st' \<Longrightarrow> arp_reachable st'"

lemma arp_step_inv: "arp_step st st' \<Longrightarrow> arp_inv st \<Longrightarrow> arp_inv st'"
proof (induction rule: arp_step.induct)
  case (polled st p st')
  then show ?case using other_inv(7) [of st] by simp
qed (auto intro: arp_lookup_inv resolution_timeout_inv arp_learn_inv)

lemma arp_reachable_inv: "arp_reachable st \<Longrightarrow> arp_inv st"
  by (induction rule: arp_reachable.induct) (auto intro: arp_step_inv)

subsection \<open>Properties\<close>

text \<open>C19. Every address lookup is answered at most once and never lost: after any sequence of lookups,
  timeouts, replies, requests and reconfigurations, the promises handed out so far are those
  completed, each once, and those waiting, each in one resolution, and no resolution has more than
  512 waiters.\<close>

theorem arp_promises_kept:
  assumes "arp_reachable st"
  shows "distinct (map fst (arp_completed st)) \<and>
    {0..<arp_next_promise st} = fst ` set (arp_completed st) \<union> (\<Union>a. set (waiting st a)) \<and>
    set (waiting st a) \<inter> fst ` set (arp_completed st) = {} \<and>
    distinct (waiting st a) \<and> length (waiting st a) \<le> max_waiters"
  using arp_reachable_inv [OF assms] by (simp add: arp_inv_def)

theorem arp_promises_kept_witness:
  "distinct (map fst (arp_completed
     (resolution_timeout be_ref 7 (snd (arp_lookup be_ref 7 (arp_init ethernet_address_zero))))))"
proof -
  have "arp_reachable (resolution_timeout be_ref 7 (snd (arp_lookup be_ref 7 (arp_init ethernet_address_zero))))"
    by (rule arp_reachable.step [OF arp_reachable.step [OF arp_reachable.start] arp_step.timeout])
      (rule arp_step.lookup [of be_ref 7 _ "fst (arp_lookup be_ref 7 (arp_init ethernet_address_zero))"], simp)
  from arp_promises_kept [OF this] show ?thesis by blast
qed

text \<open>Learning an address wakes everybody who waits for it with that address, leaves nobody waiting
  for it, and makes every later lookup of it immediate. A timeout wakes everybody with an error
  and sends the query again.\<close>

theorem learn_and_timeout_wake_waiters:
  "arp_completed (arp_learn l2 a st) = arp_completed st @ map (\<lambda>w. (w, Some l2)) (waiting st a) \<and>
   waiting (arp_learn l2 a st) a = [] \<and>
   arp_lookup be a (arp_learn l2 a st) = (Arp_ready l2, arp_learn l2 a st) \<and>
   (arp_in_progress st a \<noteq> None \<longrightarrow>
      arp_completed (resolution_timeout be a st) = arp_completed st @ map (\<lambda>w. (w, None)) (waiting st a) \<and>
      waiting (resolution_timeout be a st) a = [] \<and>
      arp_packetq (resolution_timeout be a st) = arp_packetq st @
        [\<lparr>l3_proto_num = arp_num, l3_to = ethernet_broadcast_address, l3_p = make_query_packet be a st,
          l3_oi = offload_info_init\<rparr>])"
  by (auto simp: arp_learn_def resolution_timeout_def waiting_def arp_lookup_def send_query_def arp_send_def
      Let_def split: option.split)

theorem learn_and_timeout_wake_waiters_witness:
  "\<exists>st. waiting st 7 = [0] \<and>
     arp_completed (resolution_timeout be_ref 7 st) = arp_completed st @ [(0, None)]"
proof -
  let ?st = "snd (arp_lookup be_ref 7 (arp_init ethernet_address_zero))"
  have w: "waiting ?st 7 = [0]" "arp_in_progress ?st 7 = Some [0]"
    by (simp_all add: arp_lookup_def arp_init_def waiting_def send_query_def arp_send_def)
  then show ?thesis
    using learn_and_timeout_wake_waiters [of ethernet_address_zero 7 ?st be_ref] by (intro exI [of _ ?st]) simp
qed

text \<open>Answering a request: a well formed request for our address, even with bytes behind the
  header, queues exactly one reply to the asker, which the asker's own decoder reads as our
  hardware address for our protocol address. Requests for other addresses change nothing.\<close>

theorem request_answered:
  assumes "be_ok be" "ah_hlen h = 6" "ah_plen h = 4" "ah_oper h = op_request"
  shows "if target_paddr h = arp_l3self st \<and> arp_l3self st \<noteq> ipv4_broadcast
    then \<exists>p. arp_received be (arp_hdr_write be h @ pad) st = arp_send (sender_hwaddr h) p st \<and>
      arp_hdr_read be p = h\<lparr>ah_oper := op_reply, sender_hwaddr := arp_l2self st, sender_paddr := arp_l3self st,
        target_hwaddr := sender_hwaddr h, target_paddr := sender_paddr h\<rparr>
    else arp_received be (arp_hdr_write be h @ pad) st = st"
proof -
  have hd: "v_get_header (arp_hdr_write be h @ pad) 0 arp_hdr_size = Some (arp_hdr_write be h)"
    using assms(1) by (simp add: v_get_header_def slice_def)
  have rw: "arp_hdr_read be (arp_hdr_write be x) = x" for x
    using arp_hdr_read_write [OF assms(1), of x "[]"] by simp
  show ?thesis
    using assms(2-4) by (auto simp: arp_received_def hd rw handle_request_def Let_def)
qed

definition sample_request :: arp_hdr where
  "sample_request = \<lparr>ah_htype = 1, ah_ptype = 0x0800, ah_hlen = 6, ah_plen = 4, ah_oper = 1,
     sender_hwaddr = Mac 2 0 0 0 0 9, sender_paddr = 9, target_hwaddr = ethernet_broadcast_address,
     target_paddr = 7\<rparr>"

theorem request_answered_witness:
  "\<exists>p. arp_received be_ref (arp_hdr_write be_ref sample_request @ [0, 0])
       (set_self_addr 7 (arp_init ethernet_address_zero)) =
     arp_send (Mac 2 0 0 0 0 9) p (set_self_addr 7 (arp_init ethernet_address_zero))"
  using request_answered [OF be_ok_ref, of sample_request "set_self_addr 7 (arp_init ethernet_address_zero)" "[0, 0]"]
  by (auto simp: sample_request_def set_self_addr_def arp_init_def)

text \<open>The first address a stack is given makes it forget the broadcast address: the table entry
  that maps 255.255.255.255 to the broadcast hardware address belongs to the initial self address
  and is erased with it, so that sending to the broadcast address asks the network for a
  hardware address instead of answering from the table.\<close>

theorem first_address_forgets_broadcast:
  assumes "a \<noteq> ipv4_broadcast"
  shows "fst (arp_lookup be ipv4_broadcast (arp_init l2)) = Arp_ready ethernet_broadcast_address \<and>
    fst (arp_lookup be ipv4_broadcast (set_self_addr a (arp_init l2))) = Arp_waiting 0"
  using assms by (simp add: arp_lookup_def set_self_addr_def arp_init_def send_query_def arp_send_def)

theorem first_address_forgets_broadcast_witness:
  "fst (arp_lookup be_ref ipv4_broadcast (set_self_addr 7 (arp_init ethernet_address_zero))) = Arp_waiting 0"
  using first_address_forgets_broadcast [of 7 be_ref ethernet_address_zero] by simp

end
