(* ===== verification/Ip.thy ===== *)
theory Ip
  imports Arp "HOL-Library.AList"
begin

text \<open>
  The IPv4 layer (\<open>network/ip.hh\<close>, \<open>network/ip.cc\<close>): the header, sending with fragmentation,
  the table of datagrams being reassembled with its memory limit and timeout, and the handling of
  a received packet. Datagrams handed to an upper protocol and packets forwarded to another shard
  are the events of the handler. Parameters (\<open>ip_env\<close>) are what the device says (features, hash
  to shard, key), the running shard, the clock, the packet filter that a DHCP client installs, and
  the size of \<open>packet::impl\<close>, which \<open>packet::memory\<close> adds to the length of a packet.
\<close>

subsection \<open>The header\<close>

record ip_hdr =
  ip_ihl :: u8
  ip_ver :: u8
  ip_dscp :: u8
  ip_ecn :: u8
  ip_len :: u16
  ip_id :: u16
  ip_frag :: u16
  ip_ttl :: u8
  ip_proto :: u8
  ip_csum :: u16
  ip_src :: ipv4_address
  ip_dst :: ipv4_address

definition ip_hdr_load :: "bytes \<Rightarrow> ip_hdr" where
  "ip_hdr_load p =
     \<lparr>ip_ihl = p ! 0 AND 0xf, ip_ver = drop_bit 4 (p ! 0), ip_dscp = p ! 1 AND 0x3f,
      ip_ecn = drop_bit 6 (p ! 1), ip_len = load16 (drop 2 p), ip_id = load16 (drop 4 p),
      ip_frag = load16 (drop 6 p), ip_ttl = p ! 8, ip_proto = p ! 9, ip_csum = load16 (drop 10 p),
      ip_src = load32 (drop 12 p), ip_dst = load32 (drop 16 p)\<rparr>"

definition ip_hdr_store :: "ip_hdr \<Rightarrow> bytes" where
  "ip_hdr_store h =
     [(ip_ihl h AND 0xf) OR push_bit 4 (ip_ver h), (ip_dscp h AND 0x3f) OR push_bit 6 (ip_ecn h)] @
     store16 (ip_len h) @ store16 (ip_id h) @ store16 (ip_frag h) @ [ip_ttl h, ip_proto h] @
     store16 (ip_csum h) @ store32 (ip_src h) @ store32 (ip_dst h)"

definition ip_hdr_hton :: "ip_hdr \<Rightarrow> ip_hdr" where
  "ip_hdr_hton h = h\<lparr>ip_len := hton16 (ip_len h), ip_id := hton16 (ip_id h), ip_frag := hton16 (ip_frag h),
     ip_csum := hton16 (ip_csum h), ip_src := hton32 (ip_src h), ip_dst := hton32 (ip_dst h)\<rparr>"

definition ip_hdr_ntoh :: "ip_hdr \<Rightarrow> ip_hdr" where
  "ip_hdr_ntoh h = h\<lparr>ip_len := ntoh16 (ip_len h), ip_id := ntoh16 (ip_id h), ip_frag := ntoh16 (ip_frag h),
     ip_csum := ntoh16 (ip_csum h), ip_src := ntoh32 (ip_src h), ip_dst := ntoh32 (ip_dst h)\<rparr>"

definition ip_mf :: "ip_hdr \<Rightarrow> bool" where
  "ip_mf h \<longleftrightarrow> ip_frag h AND push_bit 13 1 \<noteq> 0"

definition ip_df :: "ip_hdr \<Rightarrow> bool" where
  "ip_df h \<longleftrightarrow> ip_frag h AND push_bit 14 1 \<noteq> 0"

definition ip_offset :: "ip_hdr \<Rightarrow> u16" where
  "ip_offset h = push_bit 3 (ip_frag h)"

subsection \<open>State\<close>

record ipv4_frag_id =
  id_src :: ipv4_address
  id_dst :: ipv4_address
  identification :: u16
  id_protocol :: u8

record frag =
  fr_header :: bytes
  fr_data :: "u32 merge_map"
  fr_rx_time :: int
  fr_mem_size :: u32
  last_frag_received :: bool

definition frag_init :: frag where
  "frag_init = \<lparr>fr_header = [], fr_data = [], fr_rx_time = 0, fr_mem_size = 0, last_frag_received = False\<rparr>"

record ipv4 =
  ip_arp :: arp_state
  host_address :: ipv4_address
  gw_address :: ipv4_address
  netmask_address :: ipv4_address
  ip_frags :: "(ipv4_frag_id \<times> frag) list"
  frags_age :: "ipv4_frag_id list"
  frag_mem :: u32
  frag_timer :: "int option"
  ip_packetq :: "l3packet list"
  pkt_provider_idx :: nat

record ip_env =
  ie_hw :: hw_features
  ie_be :: be_ops
  ie_hw_address :: ethernet_address
  ie_hash2cpu :: "u32 \<Rightarrow> nat"
  ie_rss_key :: bytes
  ie_shard :: nat
  ie_now :: int
  ie_filter :: "(bytes \<Rightarrow> ip_hdr \<Rightarrow> ethernet_address \<Rightarrow> bool) option"
  ie_impl_size :: u32

datatype ip_event =
    Deliver ip_protocol_num bytes ipv4_address ipv4_address
  | Forward_packet nat bytes

text \<open>Times are in milliseconds.\<close>

abbreviation (input) frag_timeout_ms :: int where "frag_timeout_ms \<equiv> 30000"
abbreviation (input) frag_low_thresh :: u32 where "frag_low_thresh \<equiv> 3145728"
abbreviation (input) frag_high_thresh :: u32 where "frag_high_thresh \<equiv> 4194304"

definition ipv4_init :: "ethernet_address \<Rightarrow> ipv4" where
  "ipv4_init l2 = \<lparr>ip_arp = arp_init l2, host_address = 0, gw_address = 0, netmask_address = 0,
     ip_frags = [], frags_age = [], frag_mem = 0, frag_timer = None, ip_packetq = [],
     pkt_provider_idx = 0\<rparr>"

definition set_host_address :: "ipv4_address \<Rightarrow> ipv4 \<Rightarrow> ipv4" where
  "set_host_address ip st = st\<lparr>host_address := ip, ip_arp := set_self_addr ip (ip_arp st)\<rparr>"

definition set_gw_address :: "ipv4_address \<Rightarrow> ipv4 \<Rightarrow> ipv4" where
  "set_gw_address ip st = st\<lparr>gw_address := ip\<rparr>"

definition set_netmask_address :: "ipv4_address \<Rightarrow> ipv4 \<Rightarrow> ipv4" where
  "set_netmask_address ip st = st\<lparr>netmask_address := ip\<rparr>"

definition in_my_netmask :: "ipv4 \<Rightarrow> ipv4_address \<Rightarrow> bool" where
  "in_my_netmask st a \<longleftrightarrow> (a XOR host_address st) AND netmask_address st = 0"

definition get_l2_dst_address :: "be_ops \<Rightarrow> ipv4_address \<Rightarrow> ipv4 \<Rightarrow> arp_future \<times> ipv4" where
  "get_l2_dst_address be to st =
     (let (f, a) = arp_lookup be (if in_my_netmask st to then to else gw_address st) (ip_arp st)
      in (f, st\<lparr>ip_arp := a\<rparr>))"

definition ip_learn :: "ethernet_address \<Rightarrow> ipv4_address \<Rightarrow> ipv4 \<Rightarrow> ipv4" where
  "ip_learn l2 l3 st = st\<lparr>ip_arp := arp_learn l2 l3 (ip_arp st)\<rparr>"

subsection \<open>Sending\<close>

definition needs_frag :: "nat \<Rightarrow> ip_protocol_num \<Rightarrow> hw_features \<Rightarrow> bool" where
  "needs_frag len prot hw \<longleftrightarrow>
     \<not> (len + ipv4_hdr_len_min \<le> unat (mtu hw)) \<and>
     \<not> (prot = tcp_num \<and> tx_tso hw \<or> prot = udp_num \<and> tx_ufo hw)"

text \<open>The header of one packet, in network order but for a zero checksum.\<close>

definition send_header :: "ipv4_address \<Rightarrow> ipv4_address \<Rightarrow> ip_protocol_num \<Rightarrow> u16 \<Rightarrow> u16 \<Rightarrow> ip_hdr" where
  "send_header src to proto len frg =
     \<lparr>ip_ihl = 5, ip_ver = 4, ip_dscp = 0, ip_ecn = 0, ip_len = len, ip_id = 0, ip_frag = frg,
      ip_ttl = 64, ip_proto = ip_protocol_code proto, ip_csum = 0, ip_src = src, ip_dst = to\<rparr>"

definition send_pkt ::
  "hw_features \<Rightarrow> ipv4_address \<Rightarrow> ipv4_address \<Rightarrow> ip_protocol_num \<Rightarrow> bool \<Rightarrow> ethernet_address \<Rightarrow>
   bytes \<Rightarrow> offload_info \<Rightarrow> u16 \<Rightarrow> u16 \<Rightarrow> l3packet result" where
  "send_pkt hw src to proto frg e_dst pkt oi remaining offset =
     (let len = word_of_nat (length pkt + ipv4_hdr_len_min) :: u16;
          frag_field = (if frg then push_bit 13 (if remaining > 0 then 1 else 0) OR (offset div 8) else 0);
          h = ip_hdr_hton (send_header src to proto len frag_field)
      in if tx_csum_ip_offload hw then
           Inr \<lparr>l3_proto_num = ipv4_num, l3_to = e_dst, l3_p = ip_hdr_store (h\<lparr>ip_csum := 0\<rparr>) @ pkt,
                l3_oi = oi\<lparr>oi_needs_ip_csum := True\<rparr>\<rparr>
         else
           andThen (sum_data (ip_hdr_store h) checksummer_init) (\<lambda>cs.
             Inr \<lparr>l3_proto_num = ipv4_num, l3_to = e_dst,
                  l3_p = ip_hdr_store (h\<lparr>ip_csum := checksummer_get cs\<rparr>) @ pkt, l3_oi = oi\<rparr>))"

text \<open>The loop over the fragments ends when nothing remains; with an MTU that leaves no room for
  payload it never does, and its value is \<open>None\<close>.\<close>

partial_function (option) send_fragments ::
  "(bytes \<Rightarrow> u16 \<Rightarrow> u16 \<Rightarrow> l3packet result) \<Rightarrow> u16 \<Rightarrow> bytes \<Rightarrow> u16 \<Rightarrow> u16 \<Rightarrow> l3packet list result option" where
  "send_fragments mk m p offset remaining =
     (if remaining = 0 then Some (Inr [])
      else
        (let can_send = min (m - 20) remaining;
             remaining' = remaining - can_send
         in case andThen (v_share p (unat offset) (unat can_send)) (\<lambda>pkt. mk pkt remaining' offset) of
              Inl e \<Rightarrow> Some (Inl e)
            | Inr q \<Rightarrow>
                Option.bind (send_fragments mk m p (offset + can_send) remaining')
                  (\<lambda>r. Some (andThen r (\<lambda>qs. Inr (q # qs))))))"

definition ip_send ::
  "ip_env \<Rightarrow> ipv4_address \<Rightarrow> ip_protocol_num \<Rightarrow> bytes \<Rightarrow> offload_info \<Rightarrow> ethernet_address \<Rightarrow> ipv4 \<Rightarrow>
   ipv4 result option" where
  "ip_send e to proto p oi e_dst st =
     (let hw = ie_hw e;
          frg = needs_frag (length p) proto hw;
          mk = (\<lambda>pkt. send_pkt hw (host_address st) to proto frg e_dst pkt oi)
      in map_option (\<lambda>r. andThen r (\<lambda>qs. Inr (st\<lparr>ip_packetq := ip_packetq st @ qs\<rparr>)))
           (if frg then send_fragments mk (mtu hw) p 0 (word_of_nat (length p))
            else Some (andThen (mk p 0 0) (\<lambda>q. Inr [q]))))"

text \<open>Polling the packet providers of the upper protocols, round robin. A provider is a function of
  the state \<open>'w\<close> of those protocols.\<close>

fun poll_providers ::
  "('w \<Rightarrow> l4packet option \<times> 'w) list \<Rightarrow> nat \<Rightarrow> nat \<Rightarrow> 'w \<Rightarrow> l4packet option \<times> nat \<times> 'w" where
  "poll_providers prs 0 idx w = (None, idx, w)"
| "poll_providers prs (Suc n) idx w =
     (let (l4p, w') = (prs ! idx) w;
          idx' = (if idx + 1 = length prs then 0 else idx + 1)
      in case l4p of Some p \<Rightarrow> (Some p, idx', w') | None \<Rightarrow> poll_providers prs n idx' w')"

definition ip_get_packet ::
  "ip_env \<Rightarrow> ('w \<Rightarrow> l4packet option \<times> 'w) list \<Rightarrow> 'w \<Rightarrow> ipv4 \<Rightarrow> (l3packet option \<times> 'w \<times> ipv4) result option" where
  "ip_get_packet e prs w st =
     (let (l4p, idx, w') = (if ip_packetq st = [] then poll_providers prs (length prs) (pkt_provider_idx st) w
                            else (None, pkt_provider_idx st, w));
          st1 = st\<lparr>pkt_provider_idx := idx\<rparr>;
          pop = (\<lambda>s. case ip_packetq s of [] \<Rightarrow> (None, w', s) | q # qs \<Rightarrow> (Some q, w', s\<lparr>ip_packetq := qs\<rparr>))
      in case l4p of
           None \<Rightarrow> Some (Inr (pop st1))
         | Some p \<Rightarrow>
             map_option (\<lambda>r. andThen r (\<lambda>s. Inr (pop s)))
               (ip_send e (l4_to p) (l4_proto_num p) (l4_p p) (l4_oi p) (l4_e_dst p) st1))"

subsection \<open>The upper protocols' part in forwarding\<close>

definition l4_of :: "u8 \<Rightarrow> ip_protocol_num option" where
  "l4_of code = (if code = ip_protocol_code tcp_num then Some tcp_num
     else if code = ip_protocol_code icmp_num then Some icmp_num
     else if code = ip_protocol_code udp_num then Some udp_num else None)"

definition tcp_forward :: "forward_hash \<Rightarrow> bytes \<Rightarrow> nat \<Rightarrow> forward_hash result" where
  "tcp_forward fh p off =
     (case v_get_header p off 20 of
        None \<Rightarrow> Inr fh
      | Some th \<Rightarrow> andThen (push_back8 fh (th ! 0)) (\<lambda>f1. andThen (push_back8 f1 (th ! 1)) (\<lambda>f2.
          andThen (push_back8 f2 (th ! 2)) (\<lambda>f3. push_back8 f3 (th ! 3)))))"

definition udp_forward :: "forward_hash \<Rightarrow> bytes \<Rightarrow> nat \<Rightarrow> forward_hash result" where
  "udp_forward fh p off =
     (case v_get_header p off 8 of
        None \<Rightarrow> Inr fh
      | Some uh \<Rightarrow> andThen (push_back16 fh (load16 uh)) (\<lambda>f1. push_back16 f1 (load16 (drop 2 uh))))"

definition l4_forward :: "ip_protocol_num \<Rightarrow> forward_hash \<Rightarrow> bytes \<Rightarrow> nat \<Rightarrow> forward_hash result" where
  "l4_forward proto fh p off =
     (case proto of tcp_num \<Rightarrow> tcp_forward fh p off | udp_num \<Rightarrow> udp_forward fh p off | _ \<Rightarrow> Inr fh)"

text \<open>\<open>forward\<close> fills the bytes to hash of an incoming frame; it dereferences the header without
  looking whether the frame holds one.\<close>

definition ip_forward :: "bytes \<Rightarrow> nat \<Rightarrow> forward_hash result" where
  "ip_forward p off =
     (case v_get_header p off ipv4_hdr_len_min of
        None \<Rightarrow> Inl NullDeref
      | Some iph \<Rightarrow>
          (let raw = ip_hdr_load iph; h = ip_hdr_ntoh raw
           in andThen (push_back32 [] (ip_src raw)) (\<lambda>f1. andThen (push_back32 f1 (ip_dst raw)) (\<lambda>f2.
                case l4_of (ip_proto h) of
                  None \<Rightarrow> Inr f2
                | Some l4 \<Rightarrow> if \<not> ip_mf h \<and> ip_offset h = 0
                              then l4_forward l4 f2 p (off + ipv4_hdr_len_min) else Inr f2))))"

subsection \<open>Reassembly\<close>

definition packet_memory :: "u32 \<Rightarrow> bytes \<Rightarrow> u32" where
  "packet_memory impl_size p = word_of_nat (length p) + impl_size"

definition frag_memory :: "u32 \<Rightarrow> frag \<Rightarrow> u32" where
  "frag_memory impl_size f =
     packet_memory impl_size (fr_header f) + sum_list (map (packet_memory impl_size \<circ> snd) (fr_data f))"

definition frag_merge :: "u32 \<Rightarrow> ip_hdr \<Rightarrow> u16 \<Rightarrow> bytes \<Rightarrow> frag \<Rightarrow> (u32 \<times> frag) result" where
  "frag_merge impl_size h offset p f =
     (let old = fr_mem_size f;
          ip_hdr_len = unat (ip_ihl h) * 4
      in andThen (if offset = 0 then andThen (v_share p 0 ip_hdr_len) (\<lambda>hd. Inr (f\<lparr>fr_header := hd\<rparr>)) else Inr f)
           (\<lambda>f1. andThen (v_trim_front p ip_hdr_len) (\<lambda>payload.
              andThen (merge u32_ops (fr_data f1) (ucast offset) payload) (\<lambda>m.
                (let f2 = f1\<lparr>fr_data := m\<rparr>;
                     f3 = f2\<lparr>fr_mem_size := frag_memory impl_size f2\<rparr>
                 in Inr (fr_mem_size f3 - old, f3))))))"

definition is_complete :: "frag \<Rightarrow> bool result" where
  "is_complete f =
     (case fr_data f of
        [] \<Rightarrow> Inl NullDeref
      | (offset, _) # rest \<Rightarrow> Inr (last_frag_received f \<and> rest = [] \<and> offset = 0))"

definition get_assembled_packet :: "ethernet_address \<Rightarrow> ethernet_address \<Rightarrow> frag \<Rightarrow> bytes result" where
  "get_assembled_packet from to f =
     (case fr_data f of
        [] \<Rightarrow> Inl NullDeref
      | (_, ip_data) # _ \<Rightarrow>
          (let eh = eth_hdr_hton \<lparr>dst_mac = to, src_mac = from, eth_proto = eth_protocol_code ipv4_num\<rparr>;
               pkt = eth_hdr_store eh @ fr_header f @ ip_data
           in case v_get_header pkt eth_hdr_len ipv4_hdr_len_min of
                None \<Rightarrow> Inl NullDeref
              | Some iph \<Rightarrow>
                  (let h = (ip_hdr_load iph)\<lparr>ip_len := hton16 (word_of_nat (length pkt - eth_hdr_len)), ip_frag := 0\<rparr>
                   in Inr (overwrite eth_hdr_len (ip_hdr_store h) pkt))))"

definition frag_drop :: "ipv4_frag_id \<Rightarrow> u32 \<Rightarrow> ipv4 \<Rightarrow> ipv4" where
  "frag_drop i dropped_size st = st\<lparr>ip_frags := AList.delete i (ip_frags st), frag_mem := frag_mem st - dropped_size\<rparr>"

text \<open>\<open>_frags[id]\<close>: a missing entry is created.\<close>

definition frag_at :: "ipv4_frag_id \<Rightarrow> ipv4 \<Rightarrow> frag" where
  "frag_at i st = (case map_of (ip_frags st) i of None \<Rightarrow> frag_init | Some f \<Rightarrow> f)"

definition set_frag :: "ipv4_frag_id \<Rightarrow> frag \<Rightarrow> ipv4 \<Rightarrow> ipv4" where
  "set_frag i f st = st\<lparr>ip_frags := AList.update i f (ip_frags st)\<rparr>"

fun limit_mem_loop :: "ipv4_frag_id list \<Rightarrow> u32 \<Rightarrow> ipv4 \<Rightarrow> ipv4" where
  "limit_mem_loop [] drp st = st\<lparr>frags_age := []\<rparr>"
| "limit_mem_loop (i # age) drp st =
     (if drp = 0 then st\<lparr>frags_age := i # age\<rparr>
      else (let dropped_size = fr_mem_size (frag_at i st)
            in limit_mem_loop age (drp - min drp dropped_size) (frag_drop i dropped_size st)))"

definition frag_limit_mem :: "ipv4 \<Rightarrow> ipv4" where
  "frag_limit_mem st =
     (if frag_mem st \<le> frag_high_thresh then st
      else limit_mem_loop (frags_age st) (frag_mem st - frag_low_thresh) st)"

fun timeout_loop :: "int \<Rightarrow> ipv4_frag_id list \<Rightarrow> ipv4 \<Rightarrow> ipv4" where
  "timeout_loop now [] st = st\<lparr>frags_age := []\<rparr>"
| "timeout_loop now (i # age) st =
     (let f = frag_at i st
      in if now > fr_rx_time f + frag_timeout_ms
         then timeout_loop now age (frag_drop i (fr_mem_size f) st)
         else (set_frag i f st)\<lparr>frags_age := i # age\<rparr>)"

text \<open>The timer's callback: the timer has fired, so it is not armed any more when the callback
  runs, and it is armed again only when fragments are left.\<close>

definition frag_timeout :: "int \<Rightarrow> ipv4 \<Rightarrow> ipv4" where
  "frag_timeout now st =
     (let st0 = st\<lparr>frag_timer := None\<rparr>
      in if ip_frags st0 = [] then st0
         else (let st1 = timeout_loop now (frags_age st0) st0
               in if ip_frags st1 \<noteq> [] then st1\<lparr>frag_timer := Some (now + frag_timeout_ms)\<rparr>
                  else st1\<lparr>frag_mem := 0\<rparr>))"

text \<open>A complete datagram goes to its protocol on the shard its connection hashes to.\<close>

definition dispatch_complete ::
  "ip_env \<Rightarrow> ip_hdr \<Rightarrow> ethernet_address \<Rightarrow> frag \<Rightarrow> ip_event list result" where
  "dispatch_complete e h from f =
     (case l4_of (ip_proto h) of
        None \<Rightarrow> Inr []
      | Some l4 \<Rightarrow>
          (let ip_data = snd (hd (fr_data f))
           in andThen (push_back32 [] (hton32 (ip_src h))) (\<lambda>f1. andThen (push_back32 f1 (hton32 (ip_dst h))) (\<lambda>f2.
              andThen (l4_forward l4 f2 ip_data 0) (\<lambda>hash_data.
              andThen (toeplitz_hash (ie_rss_key e) hash_data) (\<lambda>hash.
                (let cpu_id = ie_hash2cpu e hash
                 in if cpu_id = ie_shard e then Inr [Deliver l4 ip_data (ip_src h) (ip_dst h)]
                    else andThen (get_assembled_packet from (ie_hw_address e) f) (\<lambda>pkt.
                           Inr [Forward_packet cpu_id pkt]))))))))"

definition frag_arm :: "int \<Rightarrow> ipv4 \<Rightarrow> ipv4" where
  "frag_arm now st = st\<lparr>frag_timer := Some (now + frag_timeout_ms)\<rparr>"

text \<open>The entry of a fragment's datagram, a new one with its age; then merging the fragment into it.\<close>

definition frag_id_of :: "ip_hdr \<Rightarrow> ipv4_frag_id" where
  "frag_id_of h = \<lparr>id_src = ip_src h, id_dst = ip_dst h, identification = ip_id h, id_protocol = ip_proto h\<rparr>"

definition enter_frag :: "ip_env \<Rightarrow> ip_hdr \<Rightarrow> ipv4 \<Rightarrow> ipv4 \<times> frag" where
  "enter_frag e h st =
     (let i = frag_id_of h;
          f0 = frag_at i st;
          f1 = (if \<not> ip_mf h then f0\<lparr>last_frag_received := True\<rparr> else f0)
      in if fr_mem_size f1 = 0
         then (st\<lparr>frags_age := frags_age st @ [i]\<rparr>, f1\<lparr>fr_rx_time := ie_now e\<rparr>) else (st, f1))"

definition add_fragment ::
  "ip_env \<Rightarrow> ip_hdr \<Rightarrow> ethernet_address \<Rightarrow> bytes \<Rightarrow> ipv4 \<Rightarrow> frag \<Rightarrow> (ipv4 \<times> ip_event list) result" where
  "add_fragment e h from p st f =
     andThen (frag_merge (ie_impl_size e) h (ip_offset h) p f) (\<lambda>(added_size, f1).
       (let i = frag_id_of h;
            st1 = (set_frag i f1 st)\<lparr>frag_mem := frag_mem st + added_size\<rparr>
        in andThen (is_complete f1) (\<lambda>complete.
             if complete then
               andThen (dispatch_complete e h from f1) (\<lambda>evs.
                 (let st2 = frag_drop i (fr_mem_size f1) st1
                  in Inr (st2\<lparr>frags_age := removeAll i (frags_age st2)\<rparr>, evs)))
             else Inr (if frag_timer st1 = None then frag_arm (ie_now e) st1 else st1, []))))"

definition handle_fragment ::
  "ip_env \<Rightarrow> ip_hdr \<Rightarrow> ethernet_address \<Rightarrow> bytes \<Rightarrow> ipv4 \<Rightarrow> (ipv4 \<times> ip_event list) result" where
  "handle_fragment e h from p st =
     (let (st1, f) = enter_frag e h (frag_limit_mem st) in add_fragment e h from p st1 f)"

subsection \<open>A received packet\<close>

text \<open>The checks before the destination is looked at: \<open>None\<close> drops the packet.\<close>

definition check_received ::
  "ip_env \<Rightarrow> bytes \<Rightarrow> bool \<Rightarrow> (ip_hdr \<times> bytes) option result" where
  "check_received e p reassembled =
     (case v_get_header p 0 ipv4_hdr_len_min of
        None \<Rightarrow> Inr None
      | Some iph \<Rightarrow>
          andThen (if \<not> rx_csum_offload (ie_hw e) \<and> \<not> reassembled
                   then andThen (sum_data iph checksummer_init) (\<lambda>cs. Inr (checksummer_get cs = 0))
                   else Inr True)
            (\<lambda>csum_ok.
               if \<not> csum_ok then Inr None
               else
                 (let h = ip_hdr_ntoh (ip_hdr_load iph);
                      len = unat (ip_len h)
                  in andThen (if length p > len then v_trim_back p (length p - len) else Inr p) (\<lambda>p1.
                       if length p < len \<or> unat (ip_offset h) + length p1 > ip_packet_len_max
                       then Inr None else Inr (Some (h, p1))))))"

definition handle_received_packet ::
  "ip_env \<Rightarrow> bytes \<Rightarrow> bool \<Rightarrow> ethernet_address \<Rightarrow> ipv4 \<Rightarrow> (ipv4 \<times> ip_event list) result" where
  "handle_received_packet e p reassembled from st =
     andThen (check_received e p reassembled) (\<lambda>c.
       case c of
         None \<Rightarrow> Inr (st, [])
       | Some (h, p1) \<Rightarrow>
           (let st1 = (if in_my_netmask st (ip_src h) \<and> ip_src h \<noteq> host_address st
                       then ip_learn from (ip_src h) st else st);
                handled = (case ie_filter e of None \<Rightarrow> False | Some filt \<Rightarrow> filt p1 h from)
            in if handled \<or> ip_dst h \<noteq> host_address st1 then Inr (st1, [])
               else if ip_mf h \<or> ip_offset h \<noteq> 0 then handle_fragment e h from p1 st1
               else (case l4_of (ip_proto h) of
                       None \<Rightarrow> Inr (st1, [])
                     | Some l4 \<Rightarrow>
                         andThen (v_trim_front p1 (unat (ip_ihl h) * 4)) (\<lambda>payload.
                           Inr (st1, [Deliver l4 payload (ip_src h) (ip_dst h)])))))"

end
