(* ===== verification/L4.thy ===== *)
theory L4
  imports Ip
begin

text \<open>
  The protocols above IPv4 other than TCP: what they share (waiting for the hardware address of a
  destination, then queueing the packet), ICMP echo (\<open>class icmp\<close> in \<open>network/ip.hh\<close>,
  \<open>network/ip.cc\<close>) and UDP (\<open>class ipv4_udp\<close> in \<open>network/ip.hh\<close>, \<open>network/udp.hh\<close>,
  \<open>network/udp.cc\<close>).

  Semaphores and bounded queues come from the core library, which is not part of this repository:
  they are the parameters \<open>sem_ops\<close> and \<open>queue_ops\<close>, records of the operations the code calls.
\<close>

subsection \<open>The core library's semaphore and queue\<close>

text \<open>\<open>sem_wait n w\<close> takes \<open>n\<close> units for waiter \<open>w\<close> now (true) or enters \<open>w\<close> in the line;
  \<open>sem_signal n\<close> returns units and yields the waiters that are resumed.\<close>

record 's sem_ops =
  sem_new :: "nat \<Rightarrow> 's"
  sem_try_wait :: "nat \<Rightarrow> 's \<Rightarrow> 's option"
  sem_wait :: "nat \<Rightarrow> nat \<Rightarrow> 's \<Rightarrow> bool \<times> 's"
  sem_signal :: "nat \<Rightarrow> 's \<Rightarrow> nat list \<times> 's"
  sem_units :: "'s \<Rightarrow> int"
  sem_idle :: "'s \<Rightarrow> bool"

text \<open>What its documentation says of a semaphore nobody waits for (\<open>sem_idle\<close>): \<open>try_wait\<close> succeeds
  only if the units are there and takes them, \<open>signal\<close> returns them.\<close>

definition sem_ok :: "'s sem_ops \<Rightarrow> bool" where
  "sem_ok ops \<longleftrightarrow>
     (\<forall>n. sem_units ops (sem_new ops n) = int n \<and> sem_idle ops (sem_new ops n)) \<and>
     (\<forall>n s s'. sem_idle ops s \<longrightarrow> sem_try_wait ops n s = Some s' \<longrightarrow>
        sem_units ops s' = sem_units ops s - int n \<and> 0 \<le> sem_units ops s' \<and> sem_idle ops s') \<and>
     (\<forall>n s. sem_idle ops s \<longrightarrow> sem_units ops (snd (sem_signal ops n s)) = sem_units ops s + int n \<and>
        sem_idle ops (snd (sem_signal ops n s)))"

record ('d, 'q) queue_ops =
  q_new :: "nat \<Rightarrow> 'q"
  q_push :: "'d \<Rightarrow> 'q \<Rightarrow> bool \<times> 'q"
  q_pop :: "'q \<Rightarrow> 'd \<times> 'q"
  q_size :: "'q \<Rightarrow> nat"
  q_max_size :: "'q \<Rightarrow> nat"

text \<open>A bounded queue: \<open>push\<close> enters an element and answers whether there was room.\<close>

definition queue_ok :: "('d, 'q) queue_ops \<Rightarrow> bool" where
  "queue_ok qo \<longleftrightarrow>
     (\<forall>n. q_size qo (q_new qo n) = 0 \<and> q_max_size qo (q_new qo n) = n) \<and>
     (\<forall>d q. q_push qo d q =
        (if q_size qo q < q_max_size qo q then (True, snd (q_push qo d q)) else (False, q))) \<and>
     (\<forall>d q. q_size qo q < q_max_size qo q \<longrightarrow>
        q_size qo (snd (q_push qo d q)) = q_size qo q + 1 \<and>
        q_max_size qo (snd (q_push qo d q)) = q_max_size qo q) \<and>
     (\<forall>q. 0 < q_size qo q \<longrightarrow> q_size qo (snd (q_pop qo q)) = q_size qo q - 1 \<and>
        q_max_size qo (snd (q_pop qo q)) = q_max_size qo q)"

text \<open>Instances, for the witnesses.\<close>

fun resume_waiters :: "int \<Rightarrow> (nat \<times> nat) list \<Rightarrow> nat list \<times> int \<times> (nat \<times> nat) list" where
  "resume_waiters k [] = ([], k, [])"
| "resume_waiters k ((w, n) # ws) =
     (if int n \<le> k then (let (r, s) = resume_waiters (k - int n) ws in (w # r, s)) else ([], k, (w, n) # ws))"

definition sem_ref :: "(int \<times> (nat \<times> nat) list) sem_ops" where
  "sem_ref =
     \<lparr>sem_new = (\<lambda>n. (int n, [])),
      sem_try_wait = (\<lambda>n (k, ws). if int n \<le> k \<and> ws = [] then Some (k - int n, ws) else None),
      sem_wait = (\<lambda>n w (k, ws). if int n \<le> k \<and> ws = [] then (True, (k - int n, ws)) else (False, (k, ws @ [(w, n)]))),
      sem_signal = (\<lambda>n (k, ws). resume_waiters (k + int n) ws),
      sem_units = fst, sem_idle = (\<lambda>(k, ws). ws = [])\<rparr>"

lemma sem_ok_ref: "sem_ok sem_ref"
  by (auto simp: sem_ok_def sem_ref_def split: if_splits)

definition queue_ref :: "('d, nat \<times> 'd list) queue_ops" where
  "queue_ref =
     \<lparr>q_new = (\<lambda>n. (n, [])),
      q_push = (\<lambda>d (n, q). if length q < n then (True, (n, q @ [d])) else (False, (n, q))),
      q_pop = (\<lambda>(n, q). (hd q, (n, tl q))), q_size = (\<lambda>(n, q). length q), q_max_size = fst\<rparr>"

lemma queue_ok_ref: "queue_ok queue_ref"
  by (auto simp: queue_ok_def queue_ref_def)

text \<open>The queue is first in, first out: \<open>items\<close> lists what it holds, the oldest element first.\<close>

definition queue_fifo :: "('d, 'q) queue_ops \<Rightarrow> ('q \<Rightarrow> 'd list) \<Rightarrow> bool" where
  "queue_fifo qo items \<longleftrightarrow> queue_ok qo \<and> (\<forall>n. items (q_new qo n) = []) \<and>
     (\<forall>q. q_size qo q = length (items q)) \<and>
     (\<forall>d q. q_size qo q < q_max_size qo q \<longrightarrow> items (snd (q_push qo d q)) = items q @ [d]) \<and>
     (\<forall>q. items q \<noteq> [] \<longrightarrow> fst (q_pop qo q) = hd (items q) \<and> items (snd (q_pop qo q)) = tl (items q))"

lemma queue_fifo_ref: "queue_fifo queue_ref snd"
  using queue_ok_ref by (auto simp: queue_fifo_def) (auto simp: queue_ref_def)

subsection \<open>Waiting for a hardware address\<close>

record l4_tx =
  tx_packetq :: "l4packet list"
  tx_waiting :: "(nat \<times> l4packet) list"

text \<open>The continuation of \<open>get_l2_dst_address\<close>: run at once, when its promise is kept, or never,
  when resolving the address failed.\<close>

definition then_emplace :: "arp_future \<Rightarrow> l4packet \<Rightarrow> l4_tx \<Rightarrow> l4_tx" where
  "then_emplace f pk tx =
     (case f of
        Arp_ready e \<Rightarrow> tx\<lparr>tx_packetq := tx_packetq tx @ [pk\<lparr>l4_e_dst := e\<rparr>]\<rparr>
      | Arp_waiting n \<Rightarrow> tx\<lparr>tx_waiting := tx_waiting tx @ [(n, pk)]\<rparr>
      | Arp_queue_full \<Rightarrow> tx)"

definition tx_complete :: "nat \<Rightarrow> ethernet_address option \<Rightarrow> l4_tx \<Rightarrow> l4_tx" where
  "tx_complete n r tx =
     tx\<lparr>tx_waiting := filter (\<lambda>w. fst w \<noteq> n) (tx_waiting tx),
        tx_packetq := tx_packetq tx @
          (case r of
             None \<Rightarrow> []
           | Some e \<Rightarrow> map (\<lambda>w. (snd w)\<lparr>l4_e_dst := e\<rparr>) (filter (\<lambda>w. fst w = n) (tx_waiting tx)))\<rparr>"

subsection \<open>ICMP\<close>

record icmp_hdr =
  icmp_type :: u8
  icmp_code :: u8
  icmp_csum :: u16
  icmp_rest :: u32

abbreviation (input) echo_reply :: u8 where "echo_reply \<equiv> 0"
abbreviation (input) echo_request :: u8 where "echo_request \<equiv> 8"

definition icmp_hdr_load :: "bytes \<Rightarrow> icmp_hdr" where
  "icmp_hdr_load p = \<lparr>icmp_type = p ! 0, icmp_code = p ! 1, icmp_csum = load16 (drop 2 p), icmp_rest = load32 (drop 4 p)\<rparr>"

definition icmp_hdr_store :: "icmp_hdr \<Rightarrow> bytes" where
  "icmp_hdr_store h = [icmp_type h, icmp_code h] @ store16 (icmp_csum h) @ store32 (icmp_rest h)"

record 's icmp =
  icmp_tx :: l4_tx
  icmp_queue_space :: 's

definition icmp_init :: "'s sem_ops \<Rightarrow> 's icmp" where
  "icmp_init ops = \<lparr>icmp_tx = \<lparr>tx_packetq = [], tx_waiting = []\<rparr>, icmp_queue_space = sem_new ops 212992\<rparr>"

text \<open>Replies that do not fit the queue are dropped.\<close>

definition icmp_reply ::
  "'s sem_ops \<Rightarrow> be_ops \<Rightarrow> offload_info \<Rightarrow> ipv4_address \<Rightarrow> bytes \<Rightarrow> ipv4 \<Rightarrow> 's icmp \<Rightarrow> ipv4 \<times> 's icmp" where
  "icmp_reply ops be oi from p st ic =
     (case sem_try_wait ops (length p) (icmp_queue_space ic) of
        None \<Rightarrow> (st, ic)
      | Some s \<Rightarrow>
          (let (f, st1) = get_l2_dst_address be from st;
               pk = \<lparr>l4_to = from, l4_p = p, l4_oi = oi, l4_e_dst = ethernet_address_zero, l4_proto_num = icmp_num\<rparr>
           in (st1, ic\<lparr>icmp_queue_space := s, icmp_tx := then_emplace f pk (icmp_tx ic)\<rparr>)))"

text \<open>The checksum of the reply is taken over memory from the header on, as many bytes as the packet
  has; \<open>run\<close> is what follows the header in its buffer.\<close>

definition icmp_received ::
  "'s sem_ops \<Rightarrow> be_ops \<Rightarrow> offload_info \<Rightarrow> bytes \<Rightarrow> bytes \<Rightarrow> ipv4_address \<Rightarrow> ipv4 \<Rightarrow> 's icmp \<Rightarrow>
   (ipv4 \<times> 's icmp) result" where
  "icmp_received ops be oi run p from st ic =
     (case v_get_header p 0 8 of
        None \<Rightarrow> Inr (st, ic)
      | Some hb \<Rightarrow>
          if icmp_type (icmp_hdr_load hb) \<noteq> echo_request then Inr (st, ic)
          else
            (let hdr = (icmp_hdr_load hb)\<lparr>icmp_type := echo_reply, icmp_code := 0, icmp_csum := 0\<rparr>;
                 mem = icmp_hdr_store hdr @ run
             in if length mem < length p then Inl OutOfRange
                else andThen (sum_data (take (length p) mem) checksummer_init) (\<lambda>cs.
                  Inr (icmp_reply ops be oi from
                         (overwrite 0 (icmp_hdr_store (hdr\<lparr>icmp_csum := checksummer_get cs\<rparr>)) p) st ic))))"

definition icmp_resolved :: "nat \<Rightarrow> ethernet_address option \<Rightarrow> 's icmp \<Rightarrow> 's icmp" where
  "icmp_resolved n r ic = ic\<lparr>icmp_tx := tx_complete n r (icmp_tx ic)\<rparr>"

definition icmp_get_packet :: "'s sem_ops \<Rightarrow> 's icmp \<Rightarrow> l4packet option \<times> 's icmp" where
  "icmp_get_packet ops ic =
     (case tx_packetq (icmp_tx ic) of
        [] \<Rightarrow> (None, ic)
      | l4p # q \<Rightarrow>
          (Some l4p, ic\<lparr>icmp_tx := (icmp_tx ic)\<lparr>tx_packetq := q\<rparr>,
             icmp_queue_space := snd (sem_signal ops (length (l4_p l4p)) (icmp_queue_space ic))\<rparr>))"

subsection \<open>UDP: datagrams and channels\<close>

record udp_hdr =
  uh_src_port :: u16
  uh_dst_port :: u16
  uh_len :: u16
  uh_cksum :: u16

definition udp_hdr_load :: "bytes \<Rightarrow> udp_hdr" where
  "udp_hdr_load p = \<lparr>uh_src_port = load16 p, uh_dst_port = load16 (drop 2 p), uh_len = load16 (drop 4 p),
     uh_cksum = load16 (drop 6 p)\<rparr>"

definition udp_hdr_store :: "udp_hdr \<Rightarrow> bytes" where
  "udp_hdr_store h = store16 (uh_src_port h) @ store16 (uh_dst_port h) @ store16 (uh_len h) @ store16 (uh_cksum h)"

definition udp_hdr_hton :: "udp_hdr \<Rightarrow> udp_hdr" where
  "udp_hdr_hton h = \<lparr>uh_src_port = hton16 (uh_src_port h), uh_dst_port = hton16 (uh_dst_port h),
     uh_len = hton16 (uh_len h), uh_cksum = hton16 (uh_cksum h)\<rparr>"

definition udp_hdr_ntoh :: "udp_hdr \<Rightarrow> udp_hdr" where
  "udp_hdr_ntoh h = \<lparr>uh_src_port = ntoh16 (uh_src_port h), uh_dst_port = ntoh16 (uh_dst_port h),
     uh_len = ntoh16 (uh_len h), uh_cksum = ntoh16 (uh_cksum h)\<rparr>"

record udp_datagram =
  dg_src :: "ipv4_address \<times> u16"
  dg_dst :: "ipv4_address \<times> u16"
  dg_data :: bytes

text \<open>The constructor reads the header without looking whether the packet holds one.\<close>

definition native_datagram :: "ipv4_address \<Rightarrow> ipv4_address \<Rightarrow> bytes \<Rightarrow> udp_datagram result" where
  "native_datagram src dst p =
     (case v_get_header p 0 8 of
        None \<Rightarrow> Inl NullDeref
      | Some hdr \<Rightarrow>
          (let h = udp_hdr_ntoh (udp_hdr_load hdr)
           in andThen (v_trim_front p 8) (\<lambda>data.
                Inr \<lparr>dg_src = (src, uh_src_port h), dg_dst = (dst, uh_dst_port h), dg_data = data\<rparr>)))"

record ('q, 's) udp_channel_state =
  uc_queue :: 'q
  uc_user_queue_space :: 's

record ('q, 's) udp =
  udp_tx :: l4_tx
  udp_channels :: "u16 \<Rightarrow> nat option"
  udp_states :: "nat \<Rightarrow> ('q, 's) udp_channel_state"
  udp_next_state :: nat
  udp_queue_size :: nat
  udp_next_anonymous_port :: u16
  udp_sends :: "(nat \<times> (nat \<times> u16 \<times> (ipv4_address \<times> u16) \<times> bytes)) list"
  udp_next_waiter :: nat

record native_channel =
  nc_port :: u16
  nc_state :: nat
  nc_closed :: bool

text \<open>A datagram that arrives goes to the channel of its destination port, if there is one.\<close>

definition udp_received ::
  "(udp_datagram, 'q) queue_ops \<Rightarrow> bytes \<Rightarrow> ipv4_address \<Rightarrow> ipv4_address \<Rightarrow> ('q, 's) udp \<Rightarrow> ('q, 's) udp result" where
  "udp_received qo p from to u =
     andThen (native_datagram from to p) (\<lambda>dgram.
       case udp_channels u (snd (dg_dst dgram)) of
         None \<Rightarrow> Inr u
       | Some c \<Rightarrow>
           (let s = udp_states u c
            in Inr (u\<lparr>udp_states := (udp_states u)(c := s\<lparr>uc_queue := snd (q_push qo dgram (uc_queue s))\<rparr>)\<rparr>)))"

definition udp_send ::
  "ip_env \<Rightarrow> u16 \<Rightarrow> ipv4_address \<times> u16 \<Rightarrow> bytes \<Rightarrow> ipv4 \<Rightarrow> ('q, 's) udp \<Rightarrow> (ipv4 \<times> ('q, 's) udp) result" where
  "udp_send e src_port dst data st u =
     (let hw = ie_hw e;
          len = length data + 8;
          h = udp_hdr_hton \<lparr>uh_src_port = src_port, uh_dst_port = snd dst, uh_len = word_of_nat len, uh_cksum = 0\<rparr>;
          cs = udp_pseudo_header_checksum checksummer_init (host_address st) (fst dst) (word_of_nat len)
      in andThen (if tx_csum_l4_offload hw \<and> \<not> needs_frag len udp_num hw
                  then Inr (NOT (checksummer_get cs), True)
                  else andThen (sum_fragments [udp_hdr_store h, data] cs) (\<lambda>cs1. Inr (checksummer_get cs1, False)))
           (\<lambda>(c, needs_csum).
              (let p = udp_hdr_store (h\<lparr>uh_cksum := c\<rparr>) @ data;
                   oi = offload_info_init\<lparr>oi_needs_csum := needs_csum, oi_protocol := udp_num\<rparr>;
                   (f, st1) = get_l2_dst_address (ie_be e) (fst dst) st;
                   pk = \<lparr>l4_to = fst dst, l4_p = p, l4_oi = oi, l4_e_dst = ethernet_address_zero, l4_proto_num = udp_num\<rparr>
               in Inr (st1, u\<lparr>udp_tx := then_emplace f pk (udp_tx u)\<rparr>))))"

definition udp_resolved :: "nat \<Rightarrow> ethernet_address option \<Rightarrow> ('q, 's) udp \<Rightarrow> ('q, 's) udp" where
  "udp_resolved n r u = u\<lparr>udp_tx := tx_complete n r (udp_tx u)\<rparr>"

definition udp_get_packet :: "('q, 's) udp \<Rightarrow> l4packet option \<times> ('q, 's) udp" where
  "udp_get_packet u =
     (case tx_packetq (udp_tx u) of
        [] \<Rightarrow> (None, u)
      | l4p # q \<Rightarrow> (Some l4p, u\<lparr>udp_tx := (udp_tx u)\<lparr>tx_packetq := q\<rparr>\<rparr>))"

text \<open>A channel sends when its semaphore lets it; destroying the packet returns the units, which may
  resume other sends.\<close>

definition channel_send ::
  "'s sem_ops \<Rightarrow> ip_env \<Rightarrow> native_channel \<Rightarrow> ipv4_address \<times> u16 \<Rightarrow> bytes \<Rightarrow> ipv4 \<Rightarrow> ('q, 's) udp \<Rightarrow>
   (ipv4 \<times> ('q, 's) udp) result" where
  "channel_send ops e ch dst p st u =
     (let s = udp_states u (nc_state ch);
          w = udp_next_waiter u;
          (now, space) = sem_wait ops (length p) w (uc_user_queue_space s);
          u1 = u\<lparr>udp_states := (udp_states u)(nc_state ch := s\<lparr>uc_user_queue_space := space\<rparr>),
                 udp_next_waiter := w + 1\<rparr>
      in if now then udp_send e (nc_port ch) dst p st u1
         else Inr (st, u1\<lparr>udp_sends := udp_sends u1 @ [(w, (nc_state ch, nc_port ch, dst, p))]\<rparr>))"

fun resume_sends ::
  "ip_env \<Rightarrow> nat list \<Rightarrow> ipv4 \<Rightarrow> ('q, 's) udp \<Rightarrow> (ipv4 \<times> ('q, 's) udp) result" where
  "resume_sends e [] st u = Inr (st, u)"
| "resume_sends e (w # ws) st u =
     (case map_of (udp_sends u) w of
        None \<Rightarrow> resume_sends e ws st u
      | Some (c, port, dst, p) \<Rightarrow>
          andThen (udp_send e port dst p st (u\<lparr>udp_sends := filter (\<lambda>x. fst x \<noteq> w) (udp_sends u)\<rparr>))
            (\<lambda>(st1, u1). resume_sends e ws st1 u1))"

definition complete_send ::
  "'s sem_ops \<Rightarrow> ip_env \<Rightarrow> nat \<Rightarrow> nat \<Rightarrow> ipv4 \<Rightarrow> ('q, 's) udp \<Rightarrow> (ipv4 \<times> ('q, 's) udp) result" where
  "complete_send ops e c len st u =
     (let s = udp_states u c;
          (ws, space) = sem_signal ops len (uc_user_queue_space s)
      in resume_sends e ws st (u\<lparr>udp_states := (udp_states u)(c := s\<lparr>uc_user_queue_space := space\<rparr>)\<rparr>))"

subsection \<open>UDP: ports\<close>

abbreviation (input) min_anonymous_port :: u16 where "min_anonymous_port \<equiv> 32768"

text \<open>The comparison is of \<open>int\<close> values, so it never holds.\<close>

definition next_port :: "u16 \<Rightarrow> u16" where
  "next_port port = (if uint port + 1 = 0 then min_anonymous_port else word_of_int (uint port + 1))"

definition udp_init :: "(nat \<Rightarrow> ('q, 's) udp_channel_state) \<Rightarrow> ('q, 's) udp" where
  "udp_init states = \<lparr>udp_tx = \<lparr>tx_packetq = [], tx_waiting = []\<rparr>, udp_channels = Map.empty, udp_states = states,
     udp_next_state = 0, udp_queue_size = 1024, udp_next_anonymous_port = min_anonymous_port, udp_sends = [],
     udp_next_waiter = 0\<rparr>"

text \<open>The search for a free port, from \<open>port\<close> on until it is back at \<open>starting_port\<close>: the port where it
  stops, and whether that port is free.\<close>

function find_port :: "(u16 \<Rightarrow> nat option) \<Rightarrow> u16 \<Rightarrow> u16 \<Rightarrow> u16 \<times> bool" where
  "find_port chans starting_port port =
     (if chans port = None then (port, True)
      else if starting_port = next_port port then (next_port port, False)
      else find_port chans starting_port (next_port port))"
  by pat_completeness auto

lemma next_port_eq [simp]: "next_port p = p + 1"
proof -
  have "uint p + 1 \<noteq> 0" using uint_ge_0 [of p] by linarith
  then show ?thesis by (simp add: next_port_def)
qed

text \<open>How many ports are left before the search is back where it started.\<close>

lemma find_port_decreases:
  fixes start p :: u16
  assumes "start \<noteq> p + 1"
  shows "unat (start - p - 2) < unat (start - p - 1)"
proof -
  have nz: "start - p - 1 \<noteq> 0" using assms by (auto simp: algebra_simps)
  have "start - p - 2 = (start - p - 1) - 1" by simp
  then have "unat (start - p - 2) = unat (start - p - 1) - 1" using unat_minus_one [OF nz] by simp
  then show ?thesis using nz by (metis diff_less unat_gt_0 zero_less_one)
qed

termination find_port
  by (relation "measure (\<lambda>(chans, start, p). unat (start - p - 1))") (auto simp: find_port_decreases)

declare find_port.simps [simp del]

datatype udp_error = Not_supported | Address_in_use | No_free_port

definition make_channel ::
  "'s sem_ops \<Rightarrow> ('d, 'q) queue_ops \<Rightarrow> ipv4_address \<times> u16 \<Rightarrow> ('q, 's) udp \<Rightarrow>
   (udp_error + native_channel) \<times> ('q, 's) udp" where
  "make_channel ops qo addr u =
     (if fst addr \<noteq> 0 then (Inl Not_supported, u)
      else if snd addr \<noteq> 0 \<and> udp_channels u (snd addr) \<noteq> None then (Inl Address_in_use, u)
      else
        (let (bind_port, ok, u1) =
               (if snd addr \<noteq> 0 then (snd addr, True, u)
                else (let (port, found) = find_port (udp_channels u) (udp_next_anonymous_port u) (udp_next_anonymous_port u)
                      in (port, found, u\<lparr>udp_next_anonymous_port := (if found then next_port port else port)\<rparr>)));
             c = udp_next_state u1
         in if \<not> ok then (Inl No_free_port, u1)
            else (Inr \<lparr>nc_port = bind_port, nc_state = c, nc_closed = False\<rparr>,
                  u1\<lparr>udp_channels := (udp_channels u1)(bind_port \<mapsto> c), udp_next_state := c + 1,
                     udp_states := (udp_states u1)(c := \<lparr>uc_queue = q_new qo (udp_queue_size u1),
                        uc_user_queue_space = sem_new ops 212992\<rparr>)\<rparr>)))"

text \<open>Erasing through the iterator of a port that is not there is undefined.\<close>

definition unregister :: "u16 \<Rightarrow> ('q, 's) udp \<Rightarrow> ('q, 's) udp result" where
  "unregister port u =
     (if udp_channels u port = None then Inl OutOfRange
      else Inr (u\<lparr>udp_channels := (udp_channels u)(port := None)\<rparr>))"

definition channel_close :: "native_channel \<Rightarrow> ('q, 's) udp \<Rightarrow> (native_channel \<times> ('q, 's) udp) result" where
  "channel_close ch u = andThen (unregister (nc_port ch) u) (\<lambda>u1. Inr (ch\<lparr>nc_closed := True\<rparr>, u1))"

end
