(* ===== verification/TcpHdr.thy ===== *)
theory TcpHdr
  imports PacketMerger
begin

text \<open>
  TCP sequence numbers, the TCP header and the TCP options (\<open>network/tcp.hh\<close> up to class \<open>tcp\<close>,
  and \<open>tcp_option\<close> in \<open>network/tcp.cc\<close>). Sequence numbers are 32 bit words whose order is the
  sign of their difference. \<open>align_up\<close> is a function of the core library and a parameter.
\<close>

subsection \<open>Sequence numbers\<close>

datatype tcp_seq = make_seq (raw: u32)

definition seq_add :: "tcp_seq \<Rightarrow> u32 \<Rightarrow> tcp_seq" where
  "seq_add s n = make_seq (raw s + n)"

definition seq_subtract :: "tcp_seq \<Rightarrow> u32 \<Rightarrow> tcp_seq" where
  "seq_subtract s n = make_seq (raw s - n)"

definition seq_diff :: "tcp_seq \<Rightarrow> tcp_seq \<Rightarrow> int" where
  "seq_diff s q = sint (raw s - raw q)"

definition seq_less :: "tcp_seq \<Rightarrow> tcp_seq \<Rightarrow> bool" where
  "seq_less s q \<longleftrightarrow> seq_diff s q < 0"

definition seq_less_eq :: "tcp_seq \<Rightarrow> tcp_seq \<Rightarrow> bool" where
  "seq_less_eq s q \<longleftrightarrow> \<not> seq_less q s"

instantiation tcp_seq :: ord
begin

definition less_tcp_seq :: "tcp_seq \<Rightarrow> tcp_seq \<Rightarrow> bool" where
  less_is_seq_less: "less_tcp_seq s q \<longleftrightarrow> seq_less s q"

definition less_eq_tcp_seq :: "tcp_seq \<Rightarrow> tcp_seq \<Rightarrow> bool" where
  less_eq_is_seq_less_eq: "less_eq_tcp_seq s q \<longleftrightarrow> seq_less_eq s q"

instance ..

end

lemma less_tcp_seq_def: "s < q \<longleftrightarrow> seq_diff s q < 0" for s q :: tcp_seq
  by (simp add: less_is_seq_less seq_less_def)

lemma less_eq_tcp_seq_def: "s \<le> q \<longleftrightarrow> \<not> q < s" for s q :: tcp_seq
  by (simp add: less_is_seq_less less_eq_is_seq_less_eq seq_less_eq_def)

text \<open>The distance of a sequence number from a base; the order is that of the distances as long
  as they stay below half the sequence space.\<close>

definition dist :: "tcp_seq \<Rightarrow> tcp_seq \<Rightarrow> nat" where
  "dist base s = unat (raw s - raw base)"

lemma sint_u32: "sint (x :: u32) = (if unat x < 2147483648 then int (unat x) else int (unat x) - 4294967296)"
proof -
  have u: "int (unat x) = uint x" by simp
  have b: "0 \<le> uint x" "uint x < 4294967296" using u32_less [of x] by (simp, metis u of_nat_less_iff of_nat_numeral)
  have e: "sint x = (uint x + 2147483648) mod 4294967296 - 2147483648"
    by (simp add: sint_uint signed_take_bit_eq_take_bit_shift take_bit_eq_mod)
  have "unat x < 2147483648 \<longleftrightarrow> uint x < 2147483648"
    using of_nat_less_iff [of "unat x" 2147483648, where 'a = int] by (simp only: u of_nat_numeral)
  moreover have "(uint x + 2147483648) mod 4294967296 = uint x - 2147483648" if "\<not> uint x < 2147483648"
  proof -
    have "uint x + 2147483648 = (uint x - 2147483648) + 4294967296" by simp
    then have "(uint x + 2147483648) mod 4294967296 = (uint x - 2147483648) mod 4294967296"
      by (metis mod_add_self2)
    then show ?thesis using that b by simp
  qed
  ultimately show ?thesis using e b by (auto simp: u)
qed

lemma sint_diff_u32:
  assumes "unat (x :: u32) < 2147483648" "unat y < 2147483648"
  shows "sint (x - y) = int (unat x) - int (unat y)"
proof (cases "unat y \<le> unat x")
  case True
  then have "unat (x - y) = unat x - unat y" by (simp add: unat_sub word_le_nat_alt)
  then show ?thesis using assms True unfolding sint_u32 by (simp only: of_nat_diff) simp
next
  case False
  then have d: "unat (x - y) = 4294967296 + unat x - unat y"
    using unat_sub_if' [of x y] by simp
  then have "int (unat (x - y)) = 4294967296 + int (unat x) - int (unat y)"
    using assms False by (simp only: of_nat_diff of_nat_add of_nat_numeral)
  moreover have "\<not> unat (x - y) < 2147483648" using assms False d by arith
  ultimately show ?thesis unfolding sint_u32 by (simp only: if_False)
qed

lemma seq_diff_dist [seq_simps]:
  assumes "dist b s < 2147483648" "dist b q < 2147483648"
  shows "seq_diff s q = int (dist b s) - int (dist b q)"
proof -
  have "raw s - raw q = (raw s - raw b) - (raw q - raw b)" by simp
  then show ?thesis using assms sint_diff_u32 unfolding seq_diff_def dist_def by presburger
qed

lemma seq_order_dist [seq_simps]:
  assumes "dist b s < 2147483648" "dist b q < 2147483648"
  shows "s < q \<longleftrightarrow> dist b s < dist b q" "s \<le> q \<longleftrightarrow> dist b s \<le> dist b q"
  using seq_diff_dist [OF assms] seq_diff_dist [OF assms(2,1)]
  by (auto simp: less_tcp_seq_def less_eq_tcp_seq_def)

lemma dist_add [seq_simps]:
  "dist b s + n < 4294967296 \<Longrightarrow> dist b (seq_add s (word_of_nat n)) = dist b s + n"
proof -
  assume n: "dist b s + n < 4294967296"
  have "raw s + word_of_nat n - raw b = (raw s - raw b) + word_of_nat n" by simp
  then show ?thesis
    using n by (simp only: dist_def seq_add_def tcp_seq.sel)
      (simp add: unat_word_ariths unsigned_of_nat take_bit_eq_mod)
qed

lemma seq_le_refl [simp]: "(s :: tcp_seq) \<le> s" "\<not> (s :: tcp_seq) < s"
  by (simp_all add: less_eq_tcp_seq_def less_tcp_seq_def seq_diff_def)

text \<open>\<open>tcp_packet_merger\<close>: the difference of two sequence numbers becomes a \<open>size_t\<close> with its
  sign extended.\<close>

definition seq_ops :: "tcp_seq offset_ops" where
  "seq_ops = \<lparr>o_le = (\<le>), o_lt = (<), o_add = (\<lambda>s n. seq_add s (word_of_nat n)),
              o_sub = (\<lambda>s q. unat (word_of_int (seq_diff s q) :: u64))\<rparr>"

interpretation seq_merge: offset_order seq_ops "dist b" 2147483647 for b
proof unfold_locales
  fix x y :: tcp_seq and n :: nat
  show "o_le seq_ops x y \<longleftrightarrow> dist b x \<le> dist b y" "o_lt seq_ops x y \<longleftrightarrow> dist b x < dist b y"
    if "dist b x \<le> 2147483647" "dist b y \<le> 2147483647"
    using that by (simp_all add: seq_ops_def seq_order_dist)
  show "dist b (o_add seq_ops x n) = dist b x + n" if "dist b x + n \<le> 2147483647"
    using that by (simp add: seq_ops_def dist_add)
  show "o_sub seq_ops x y = dist b x - dist b y" if "dist b x \<le> 2147483647" "dist b y \<le> dist b x"
  proof -
    have "seq_diff x y = int (dist b x - dist b y)" using that by (simp add: seq_diff_dist)
    moreover have "dist b x - dist b y < 18446744073709551616" using that by arith
    ultimately show ?thesis by (simp add: seq_ops_def unsigned_of_nat take_bit_eq_mod)
  qed
qed

subsection \<open>The header\<close>

record tcp_hdr =
  src_port :: u16
  dst_port :: u16
  th_seq :: tcp_seq
  th_ack :: tcp_seq
  rsvd1 :: "4 word"
  data_offset :: "4 word"
  f_fin :: bool
  f_syn :: bool
  f_rst :: bool
  f_psh :: bool
  f_ack :: bool
  f_urg :: bool
  rsvd2 :: "2 word"
  th_window :: u16
  th_checksum :: u16
  th_urgent :: u16

abbreviation (input) tcp_hdr_len :: nat where "tcp_hdr_len \<equiv> 20"

definition flag_bit :: "byte \<Rightarrow> nat \<Rightarrow> bool" where
  "flag_bit b n \<longleftrightarrow> drop_bit n b AND 1 = 1"

definition tcp_hdr_read :: "be_ops \<Rightarrow> bytes \<Rightarrow> tcp_hdr" where
  "tcp_hdr_read be p =
     \<lparr>src_port = read_be16 be p,
      dst_port = read_be16 be (drop 2 p),
      th_seq = make_seq (read_be32 be (drop 4 p)),
      th_ack = make_seq (read_be32 be (drop 8 p)),
      rsvd1 = ucast (p ! 12 AND 15),
      data_offset = ucast (drop_bit 4 (p ! 12)),
      f_fin = flag_bit (p ! 13) 0, f_syn = flag_bit (p ! 13) 1, f_rst = flag_bit (p ! 13) 2,
      f_psh = flag_bit (p ! 13) 3, f_ack = flag_bit (p ! 13) 4, f_urg = flag_bit (p ! 13) 5,
      rsvd2 = ucast (drop_bit 6 (p ! 13) AND 3),
      th_window = read_be16 be (drop 14 p),
      th_checksum = read_be16 be (drop 16 p),
      th_urgent = read_be16 be (drop 18 p)\<rparr>"

definition tcp_hdr_write :: "be_ops \<Rightarrow> tcp_hdr \<Rightarrow> bytes" where
  "tcp_hdr_write be h =
     write_be16 be (src_port h) @ write_be16 be (dst_port h) @
     write_be32 be (raw (th_seq h)) @ write_be32 be (raw (th_ack h)) @
     [ucast (rsvd1 h) OR push_bit 4 (ucast (data_offset h)),
      of_bool (f_fin h) OR push_bit 1 (of_bool (f_syn h)) OR push_bit 2 (of_bool (f_rst h)) OR
      push_bit 3 (of_bool (f_psh h)) OR push_bit 4 (of_bool (f_ack h)) OR
      push_bit 5 (of_bool (f_urg h)) OR push_bit 6 (ucast (rsvd2 h))] @
     write_be16 be (th_window h) @ write_be16 be (th_checksum h) @ write_be16 be (th_urgent h)"

lemma bit_masks: "bit (15 :: byte) n \<longleftrightarrow> n < 4" "bit (3 :: byte) n \<longleftrightarrow> n < 2"
proof -
  have "(15 :: byte) = mask 4" "(3 :: byte) = mask 2" by (simp_all add: mask_numeral)
  then show "bit (15 :: byte) n \<longleftrightarrow> n < 4" "bit (3 :: byte) n \<longleftrightarrow> n < 2"
    by (simp_all only: bit_mask_iff) auto
qed

lemma flag_bit_iff: "flag_bit b n \<longleftrightarrow> bit b n"
proof -
  have "drop_bit n b AND 1 = of_bool (bit b n)" by (simp add: and_one_eq odd_iff_mod_2_eq_one [symmetric] bit_iff_odd_drop_bit mod_2_eq_odd)
  then show ?thesis by (simp add: flag_bit_def)
qed

lemma bit_of_bool_byte: "bit (of_bool P :: byte) n \<longleftrightarrow> P \<and> n = 0"
  by (cases P) (auto simp: bit_1_iff)

lemma low_nibble_bit: "bit (ucast (b AND 15 :: byte) :: 4 word) n \<longleftrightarrow> n < 4 \<and> bit b n"
  by (simp only: bit_ucast_iff bit_and_iff bit_masks) (auto dest: bit_imp_le_length)

lemma high_nibble_bit: "bit (ucast (drop_bit 4 b :: byte) :: 4 word) n \<longleftrightarrow> n < 4 \<and> bit b (n + 4)"
  by (simp only: bit_ucast_iff bit_drop_bit_eq) (auto simp: add.commute dest: bit_imp_le_length)

lemma two_bits_bit: "bit (ucast (drop_bit 6 b AND 3 :: byte) :: 2 word) n \<longleftrightarrow> n < 2 \<and> bit b (n + 6)"
  by (simp only: bit_ucast_iff bit_and_iff bit_masks bit_drop_bit_eq) (auto simp: add.commute dest: bit_imp_le_length)

lemma nibbles_bit:
  "bit (ucast (r :: 4 word) OR push_bit 4 (ucast (d :: 4 word)) :: byte) n \<longleftrightarrow>
     n < 8 \<and> (if n < 4 then bit r n else bit d (n - 4))"
  by (simp only: bit_or_iff bit_push_bit_iff bit_ucast_iff) (auto dest: bit_imp_le_length)

lemma offset_byte:
  "ucast ((ucast r OR push_bit 4 (ucast d)) AND 15 :: byte) = (r :: 4 word)"
  "ucast (drop_bit 4 (ucast r OR push_bit 4 (ucast d)) :: byte) = (d :: 4 word)"
  by (rule bit_word_eqI; simp only: low_nibble_bit high_nibble_bit nibbles_bit; simp)+

lemma offset_byte_inv: "ucast (ucast (b AND 15) :: 4 word) OR push_bit 4 (ucast (ucast (drop_bit 4 b) :: 4 word)) = (b :: byte)"
  by (rule bit_word_eqI; simp only: low_nibble_bit high_nibble_bit nibbles_bit; auto)

definition flag_byte :: "bool \<Rightarrow> bool \<Rightarrow> bool \<Rightarrow> bool \<Rightarrow> bool \<Rightarrow> bool \<Rightarrow> 2 word \<Rightarrow> byte" where
  "flag_byte fin syn rst psh ack urg r =
     of_bool fin OR push_bit 1 (of_bool syn) OR push_bit 2 (of_bool rst) OR
     push_bit 3 (of_bool psh) OR push_bit 4 (of_bool ack) OR
     push_bit 5 (of_bool urg) OR push_bit 6 (ucast r)"

lemma bit_flag_byte:
  "bit (flag_byte fin syn rst psh ack urg r) n \<longleftrightarrow> n < 8 \<and>
     (n = 0 \<and> fin \<or> n = 1 \<and> syn \<or> n = 2 \<and> rst \<or> n = 3 \<and> psh \<or> n = 4 \<and> ack \<or> n = 5 \<and> urg \<or>
      6 \<le> n \<and> bit r (n - 6))"
proof (cases "n < 8")
  case True
  then have "n \<in> {0, 1, 2, 3, 4, 5, 6, 7}" by auto
  then show ?thesis
    unfolding flag_byte_def bit_or_iff bit_push_bit_iff bit_of_bool_byte bit_ucast_iff
    by (elim insertE emptyE; simp only:; simp)
next
  case False
  then show ?thesis by (auto dest: bit_imp_le_length)
qed

lemma flag_byte_reads:
  fixes r :: "2 word" and fin syn rst psh ack urg :: bool
  defines "b \<equiv> flag_byte fin syn rst psh ack urg r"
  shows "flag_bit b 0 = fin" "flag_bit b 1 = syn" "flag_bit b 2 = rst" "flag_bit b 3 = psh"
    "flag_bit b 4 = ack" "flag_bit b 5 = urg" "ucast (drop_bit 6 b AND 3) = r"
proof -
  show "ucast (drop_bit 6 b AND 3) = r"
    by (rule bit_word_eqI; simp only: b_def two_bits_bit bit_flag_byte; simp)
qed (simp_all add: b_def flag_bit_iff bit_flag_byte)

lemma flag_byte_inv:
  "flag_byte (flag_bit b 0) (flag_bit b 1) (flag_bit b 2) (flag_bit b 3) (flag_bit b 4) (flag_bit b 5)
     (ucast (drop_bit 6 b AND 3)) = b"
proof (rule bit_word_eqI)
  fix n
  assume "n < LENGTH(8)"
  then have "n \<in> {0, 1, 2, 3, 4, 5, 6, 7}" by auto
  then show "bit (flag_byte (flag_bit b 0) (flag_bit b 1) (flag_bit b 2) (flag_bit b 3) (flag_bit b 4)
      (flag_bit b 5) (ucast (drop_bit 6 b AND 3))) n \<longleftrightarrow> bit b n"
    by (simp only: bit_flag_byte flag_bit_iff two_bits_bit) auto
qed

lemma tcp_hdr_write_alt:
  "tcp_hdr_write be h =
     write_be16 be (src_port h) @ write_be16 be (dst_port h) @
     write_be32 be (raw (th_seq h)) @ write_be32 be (raw (th_ack h)) @
     [ucast (rsvd1 h) OR push_bit 4 (ucast (data_offset h)),
      flag_byte (f_fin h) (f_syn h) (f_rst h) (f_psh h) (f_ack h) (f_urg h) (rsvd2 h)] @
     write_be16 be (th_window h) @ write_be16 be (th_checksum h) @ write_be16 be (th_urgent h)"
  by (simp add: tcp_hdr_write_def flag_byte_def)

lemma tcp_hdr_read_write:
  "be_ok be \<Longrightarrow> tcp_hdr_read be (tcp_hdr_write be h @ rest) = h"
  by (cases h) (simp add: tcp_hdr_read_def tcp_hdr_write_alt nth_append offset_byte flag_byte_reads
      del: drop_bit_or One_nat_def)

lemma length_tcp_hdr_write [simp]: "be_ok be \<Longrightarrow> length (tcp_hdr_write be h) = 20"
  by (simp add: tcp_hdr_write_def)

lemma be_ok_write_read:
  "be_ok be \<Longrightarrow> 2 \<le> length bs \<Longrightarrow> write_be16 be (read_be16 be bs) = take 2 bs"
  "be_ok be \<Longrightarrow> 4 \<le> length bs \<Longrightarrow> write_be32 be (read_be32 be bs) = take 4 bs"
  using be_nat_less [of "take 2 bs"] be_nat_less [of "take 4 bs"]
  by (simp_all add: be_ok_def unsigned_of_nat take_bit_eq_mod to_be_be_nat)

lemma tcp_hdr_write_read:
  assumes "be_ok be" "length p = 20"
  shows "tcp_hdr_write be (tcp_hdr_read be p) = p"
proof -
  have "take 2 p @ take 2 (drop 2 p) @ take 4 (drop 4 p) @ take 4 (drop 8 p) @ [p ! 12, p ! 13] @
      take 2 (drop 14 p) @ take 2 (drop 16 p) @ take 2 (drop 18 p) = p"
  proof (rule nth_equalityI)
    fix i
    assume "i < length (take 2 p @ take 2 (drop 2 p) @ take 4 (drop 4 p) @ take 4 (drop 8 p) @
      [p ! 12, p ! 13] @ take 2 (drop 14 p) @ take 2 (drop 16 p) @ take 2 (drop 18 p))"
    then have "i < 20" using assms by simp
    then have "i \<in> {0, 1, 2, 3, 4, 5, 6, 7, 8, 9, 10, 11, 12, 13, 14, 15, 16, 17, 18, 19}"
      by (simp only: insert_iff empty_iff) arith
    then show "(take 2 p @ take 2 (drop 2 p) @ take 4 (drop 4 p) @ take 4 (drop 8 p) @ [p ! 12, p ! 13] @
      take 2 (drop 14 p) @ take 2 (drop 16 p) @ take 2 (drop 18 p)) ! i = p ! i"
      using assms by (elim insertE emptyE) (simp_all add: nth_append)
  qed (use assms in simp)
  then show ?thesis
    using assms
    by (simp add: tcp_hdr_write_alt tcp_hdr_read_def be_ok_write_read offset_byte_inv flag_byte_inv
        del: One_nat_def)
qed

subsection \<open>Options\<close>

record tcp_option =
  mss_received :: bool
  win_scale_received :: bool
  timestamps_received :: bool
  sack_received :: bool
  remote_mss :: u16
  local_mss :: u16
  remote_win_scale :: u8
  local_win_scale :: u8

text \<open>The local MSS is not initialised by the constructor: its value is an argument.\<close>

definition tcp_option_init :: "u16 \<Rightarrow> tcp_option" where
  "tcp_option_init indeterminate =
     \<lparr>mss_received = False, win_scale_received = False, timestamps_received = False,
      sack_received = False, remote_mss = 536, local_mss = indeterminate,
      remote_win_scale = 0, local_win_scale = 0\<rparr>"

datatype option_kind = opt_mss | opt_win_scale | opt_sack | opt_timestamps | opt_nop | opt_eol

fun option_kind_code :: "option_kind \<Rightarrow> u8" where
  "option_kind_code opt_mss = 2" | "option_kind_code opt_win_scale = 3"
| "option_kind_code opt_sack = 4" | "option_kind_code opt_timestamps = 8"
| "option_kind_code opt_nop = 1" | "option_kind_code opt_eol = 0"

fun option_len :: "option_kind \<Rightarrow> u8" where
  "option_len opt_mss = 4" | "option_len opt_win_scale = 3"
| "option_len opt_sack = 2" | "option_len opt_timestamps = 10"
| "option_len opt_nop = 1" | "option_len opt_eol = 1"

text \<open>
  \<open>parse\<close> reads from \<open>mem\<close>, the memory from \<open>beg\<close> on, with \<open>n\<close> bytes left up to \<open>end\<close>. A read
  past the end of the memory is out of range; a read past \<open>end\<close> inside it is not noticed.
\<close>

function tcp_option_parse :: "be_ops \<Rightarrow> tcp_option \<Rightarrow> bytes \<Rightarrow> nat \<Rightarrow> tcp_option result" where
  "tcp_option_parse be opt mem n =
     (if n = 0 then Inr opt
      else if mem = [] then Inl OutOfRange
      else
        (let kind = mem ! 0;
             sized = kind \<noteq> option_kind_code opt_nop \<and> kind \<noteq> option_kind_code opt_eol
         in if sized \<and> length mem < 2 then Inl OutOfRange
            else if sized \<and> n < unat (mem ! 1) then Inr opt
            else if kind = option_kind_code opt_mss then
              if length mem < 4 then Inl OutOfRange
              else tcp_option_parse be
                     (opt\<lparr>mss_received := True, remote_mss := read_be16 be (drop 2 mem)\<rparr>)
                     (drop 4 mem) (n - 4)
            else if kind = option_kind_code opt_win_scale then
              if length mem < 3 then Inl OutOfRange
              else tcp_option_parse be
                     (opt\<lparr>win_scale_received := True, remote_win_scale := mem ! 2,
                          local_win_scale := 7\<rparr>)
                     (drop 3 mem) (n - 3)
            else if kind = option_kind_code opt_sack then
              tcp_option_parse be (opt\<lparr>sack_received := True\<rparr>) (drop 2 mem) (n - 2)
            else if kind = option_kind_code opt_nop then tcp_option_parse be opt (drop 1 mem) (n - 1)
            else if kind = option_kind_code opt_eol then Inr opt
            else if unat (mem ! 1) = 0 then Inr opt
            else tcp_option_parse be opt (drop (unat (mem ! 1)) mem) (n - unat (mem ! 1))))"
  by pat_completeness auto
termination by (relation "measure (\<lambda>(be, opt, mem, n). n)") auto

declare tcp_option_parse.simps [simp del]

definition write_option :: "option_kind \<Rightarrow> bytes" where
  "write_option k =
     (if unat (option_len k) > 1 then [option_kind_code k, option_len k] else [option_kind_code k])"

definition write_mss :: "be_ops \<Rightarrow> u16 \<Rightarrow> bytes" where
  "write_mss be m = write_option opt_mss @ write_be16 be m"

definition write_win_scale :: "u8 \<Rightarrow> bytes" where
  "write_win_scale shift = write_option opt_win_scale @ [shift]"

text \<open>\<open>fill\<close> writes the options behind the header; the result is what it wrote.\<close>

definition tcp_option_fill ::
  "be_ops \<Rightarrow> (u8 \<Rightarrow> u8 \<Rightarrow> u8) \<Rightarrow> tcp_option \<Rightarrow> bool \<Rightarrow> bool \<Rightarrow> u8 \<Rightarrow> bytes result" where
  "tcp_option_fill be align_up opt syn_on ack_on options_size =
     (let o1 = (if syn_on \<and> (mss_received opt \<or> \<not> ack_on) then write_mss be (local_mss opt) else []);
          o2 = (if syn_on \<and> (win_scale_received opt \<or> \<not> ack_on)
                then o1 @ write_win_scale (local_win_scale opt) else o1);
          o3 = (if o2 \<noteq> [] then
                  (let size_max = unat (align_up (word_of_nat (length o2 + 1)) 4)
                   in o2 @ concat (replicate (size_max - 1 - length o2) (write_option opt_nop))
                      @ write_option opt_eol)
                else o2)
      in if length o3 = unat options_size then Inr o3 else Inl AssertFailed)"

definition tcp_option_get_size :: "(u8 \<Rightarrow> u8 \<Rightarrow> u8) \<Rightarrow> tcp_option \<Rightarrow> bool \<Rightarrow> bool \<Rightarrow> u8" where
  "tcp_option_get_size align_up opt syn_on ack_on =
     (let s1 = (if syn_on \<and> (mss_received opt \<or> \<not> ack_on) then option_len opt_mss else 0);
          s2 = (if syn_on \<and> (win_scale_received opt \<or> \<not> ack_on)
                then s1 + option_len opt_win_scale else s1)
      in if s2 > 0 then align_up (s2 + option_len opt_eol) 4 else s2)"

text \<open>The core library's \<open>align_up\<close> rounds up to a multiple, and an instance.\<close>

definition align_ok :: "(u8 \<Rightarrow> u8 \<Rightarrow> u8) \<Rightarrow> bool" where
  "align_ok align_up \<longleftrightarrow>
     (\<forall>v. unat v \<le> 252 \<longrightarrow> unat (align_up v 4) = (unat v + 3) div 4 * 4)"

definition align_ref :: "u8 \<Rightarrow> u8 \<Rightarrow> u8" where
  "align_ref v a = word_of_nat ((unat v + unat a - 1) div unat a * unat a)"

lemma align_ok_ref: "align_ok align_ref"
proof -
  have small: "unat (word_of_nat m :: u8) = m" if "m < 256" for m
    using that by (simp add: unsigned_of_nat take_bit_eq_mod)
  have "(unat v + 3) div 4 * 4 < 256" if "unat v \<le> 252" for v :: u8
    using that by presburger
  then have "unat (word_of_nat ((unat v + 3) div 4 * 4) :: u8) = (unat v + 3) div 4 * 4"
    if "unat v \<le> 252" for v :: u8
    using that by (intro small)
  moreover have "unat (4 :: u8) = 4" by simp
  then have "align_ref v 4 = word_of_nat ((unat v + 3) div 4 * 4)" for v
    by (simp only: align_ref_def) (simp add: add.commute)
  ultimately show ?thesis unfolding align_ok_def by (simp only:) blast
qed

lemma parse_0 [simp]: "tcp_option_parse be opt mem 0 = Inr opt"
  by (simp add: tcp_option_parse.simps)

lemma parse_mss:
  "be_ok be \<Longrightarrow> 4 \<le> n \<Longrightarrow> tcp_option_parse be opt (write_mss be m @ mem) n =
     tcp_option_parse be (opt\<lparr>mss_received := True, remote_mss := m\<rparr>) mem (n - 4)"
  by (subst tcp_option_parse.simps) (simp add: write_mss_def write_option_def)

lemma parse_win_scale:
  "3 \<le> n \<Longrightarrow> tcp_option_parse be opt (write_win_scale w @ mem) n =
     tcp_option_parse be (opt\<lparr>win_scale_received := True, remote_win_scale := w, local_win_scale := 7\<rparr>)
       mem (n - 3)"
  by (subst tcp_option_parse.simps) (simp add: write_win_scale_def write_option_def)

lemma parse_nop: "0 < n \<Longrightarrow> tcp_option_parse be opt (1 # mem) n = tcp_option_parse be opt mem (n - 1)"
  by (subst tcp_option_parse.simps) simp

lemma parse_eol: "tcp_option_parse be opt (0 # mem) n = Inr opt"
  by (subst tcp_option_parse.simps) simp

lemma length_write_mss [simp]: "be_ok be \<Longrightarrow> length (write_mss be m) = 4" "write_mss be m \<noteq> []"
  by (simp_all add: write_mss_def write_option_def)

lemma length_write_win_scale [simp]: "length (write_win_scale w) = 3" "write_win_scale w \<noteq> []"
  by (simp_all add: write_win_scale_def write_option_def)

lemma align_ok_values:
  "align_ok al \<Longrightarrow> al 4 4 = 4" "align_ok al \<Longrightarrow> al 5 4 = 8" "align_ok al \<Longrightarrow> al 8 4 = 8"
  by (auto simp: align_ok_def word_unat_eq_iff)

text \<open>The options a sender fills in, by what it sends.\<close>

lemma fill_cases:
  assumes "be_ok be" "align_ok al"
  defines "m \<equiv> \<lambda>opt syn ack. syn \<and> (mss_received opt \<or> \<not> ack)"
    and "w \<equiv> \<lambda>opt syn ack. syn \<and> (win_scale_received opt \<or> \<not> ack)"
  shows "tcp_option_fill be al opt syn ack (tcp_option_get_size al opt syn ack) =
    Inr (if m opt syn ack then
           if w opt syn ack then write_mss be (local_mss opt) @ write_win_scale (local_win_scale opt) @ [0]
           else write_mss be (local_mss opt) @ [1, 1, 1, 0]
         else if w opt syn ack then write_win_scale (local_win_scale opt) @ [0] else [])"
proof -
  have w1: "(word_of_nat (Suc 4) :: u8) = 5" "(word_of_nat (Suc 3) :: u8) = 4" "(word_of_nat (Suc 7) :: u8) = 8"
    by (simp_all add: word_unat_eq_iff)
  show ?thesis
    using assms(1) align_ok_values [OF assms(2)]
    by (cases "m opt syn ack"; cases "w opt syn ack")
      (auto simp: tcp_option_fill_def tcp_option_get_size_def m_def w_def w1 Let_def write_option_def
        numeral_3_eq_3)
qed

lemma get_size_values:
  "align_ok al \<Longrightarrow> unat (tcp_option_get_size al opt syn ack) =
      (if syn \<and> (mss_received opt \<or> \<not> ack) then 8
       else if syn \<and> (win_scale_received opt \<or> \<not> ack) then 4 else 0)"
  using align_ok_values [of al] by (auto simp: tcp_option_get_size_def Let_def)

lemma fill_ok:
  assumes "be_ok be" "align_ok al"
  shows "\<exists>bs. tcp_option_fill be al opt syn ack (tcp_option_get_size al opt syn ack) = Inr bs \<and>
    length bs = unat (tcp_option_get_size al opt syn ack)"
  using assms fill_cases [OF assms, of opt syn ack] by (auto simp: get_size_values)

text \<open>The checksum is stored into the header in network byte order.\<close>

lemma write_checksum_field:
  assumes "be_ok be"
  shows "overwrite 16 (store16 c) (tcp_hdr_write be h @ rest) =
    tcp_hdr_write be (h\<lparr>th_checksum := ntoh16 c\<rparr>) @ rest"
proof -
  have "store16 c = write_be16 be (ntoh16 c)"
    using assms store_hton(1) [of "ntoh16 c"] by (simp add: be_ok_def)
  then show ?thesis using assms by (simp add: overwrite_def tcp_hdr_write_def)
qed

text \<open>TCP options round trip: \<open>fill\<close> with the size \<open>get_size\<close> announces never fails its
  assertion and writes a multiple of four bytes, and \<open>parse\<close> of these bytes, whatever follows
  them in memory, gives the peer exactly the MSS and window scale the sender put in.\<close>

theorem options_round_trip:
  assumes "be_ok be" "align_ok align_up"
  shows "\<exists>bs. tcp_option_fill be align_up opt syn ack (tcp_option_get_size align_up opt syn ack) = Inr bs \<and>
    length bs = unat (tcp_option_get_size align_up opt syn ack) \<and> 4 dvd length bs \<and>
    tcp_option_parse be peer (bs @ mem) (length bs) =
      Inr (let peer1 = (if syn \<and> (mss_received opt \<or> \<not> ack)
                        then peer\<lparr>mss_received := True, remote_mss := local_mss opt\<rparr> else peer)
           in if syn \<and> (win_scale_received opt \<or> \<not> ack)
              then peer1\<lparr>win_scale_received := True, remote_win_scale := local_win_scale opt,
                         local_win_scale := 7\<rparr> else peer1)"
  using assms fill_cases [OF assms, of opt syn ack]
  by (auto simp: get_size_values parse_mss parse_win_scale parse_nop parse_eol Let_def)

theorem options_round_trip_witness:
  "\<exists>bs. tcp_option_fill be_ref align_ref (tcp_option_init 1460) True False
      (tcp_option_get_size align_ref (tcp_option_init 1460) True False) = Inr bs \<and>
    tcp_option_parse be_ref (tcp_option_init 0) bs (length bs) =
      Inr ((tcp_option_init 0)\<lparr>mss_received := True, remote_mss := 1460, win_scale_received := True,
             remote_win_scale := 0, local_win_scale := 7\<rparr>)"
  using options_round_trip [OF be_ok_ref align_ok_ref, of "tcp_option_init 1460" True False
      "tcp_option_init 0" "[]"]
  by (auto simp: tcp_option_init_def)

text \<open>The TCP header codec is a bijection between header values and twenty byte strings:
  \<open>read\<close> after \<open>write\<close> gives the header back, whatever follows it, and \<open>write\<close> after \<open>read\<close> the
  bytes.\<close>

theorem tcp_hdr_codec:
  assumes "be_ok be" "length p = 20"
  shows "tcp_hdr_read be (tcp_hdr_write be h @ payload) = h \<and>
    length (tcp_hdr_write be h) = 20 \<and> tcp_hdr_write be (tcp_hdr_read be p) = p"
  using assms by (simp add: tcp_hdr_read_write tcp_hdr_write_read)

theorem tcp_hdr_codec_witness:
  "tcp_hdr_write be_ref (tcp_hdr_read be_ref (replicate 20 255)) = replicate 20 255"
  using tcp_hdr_codec [OF be_ok_ref, of "replicate 20 255"] by simp

text \<open>\<open>parse\<close> stays in bounds when three bytes follow the options.\<close>

lemma parse_total:
  "(0 < n \<Longrightarrow> n + 3 \<le> length mem) \<Longrightarrow> \<exists>opt'. tcp_option_parse be opt mem n = Inr opt'"
proof (induction n arbitrary: mem opt rule: less_induct)
  case (less n)
  have step: "\<exists>opt'. tcp_option_parse be o1 (drop k mem) (n - k) = Inr opt'" if "0 < n" "0 < k" for o1 k
    using less.IH [of "n - k" "drop k mem" o1] that less.prems by auto
  show ?case
  proof (cases "n = 0")
    case True
    then show ?thesis by (simp add: tcp_option_parse.simps)
  next
    case False
    then show ?thesis
      using less.prems step by (subst tcp_option_parse.simps) (auto simp: Let_def)
  qed
qed

text \<open>\<open>parse\<close> returns for every option string (no endless loop) and stays inside memory when
  at least three bytes follow the options, but not in general: an option with a payload whose
  kind is the last byte of the buffer makes it read past the end.\<close>

theorem options_parse_bounds:
  shows "(n + 3 \<le> length mem \<longrightarrow> (\<exists>opt'. tcp_option_parse be opt mem n = Inr opt')) \<and>
    (kind \<notin> {0, 1} \<longrightarrow> tcp_option_parse be opt [kind] 1 = Inl OutOfRange)"
  using parse_total by (auto simp: tcp_option_parse.simps [of be opt "[kind]" "Suc 0"])

theorem options_parse_bounds_witness:
  "(\<exists>opt'. tcp_option_parse be_ref (tcp_option_init 0) [2, 4, 5, 180, 0, 0, 0] 4 = Inr opt') \<and>
   tcp_option_parse be_ref (tcp_option_init 0) [2] 1 = Inl OutOfRange"
  using options_parse_bounds [of 4 "[2, 4, 5, 180, 0, 0, 0]" be_ref "tcp_option_init 0" 2] by simp

text \<open>Out of order TCP segments: segments cut from one stream at sequence numbers that lie
  within half the sequence space of a base, across the wrap around too, are merged in any order
  without abort into separated segments that hold exactly the stream's bytes received.\<close>

theorem tcp_merger_reassembles_stream:
  assumes "list_all (\<lambda>(seq, p). dist base seq + length p \<le> 2147483647 \<and>
    p = map stream [dist base seq ..< dist base seq + length p]) arrivals"
  shows "\<exists>m. merge_all seq_ops [] arrivals = Inr m \<and> separated (dist base) 2147483647 m \<and>
    covers (dist base) m = covers (dist base) arrivals \<and>
    list_all (\<lambda>(seq, p). p = map stream [dist base seq ..< dist base seq + length p]) m"
  using seq_merge.reassembly [of base arrivals stream] assms
  by (simp add: list_all_iff fits_def of_stream_def case_prod_unfold)

theorem tcp_merger_reassembles_stream_witness:
  "\<exists>m. merge_all seq_ops [] [(make_seq 1, [7, 7]), (make_seq (- 2), [7, 7, 7])] = Inr m \<and>
    covers (dist (make_seq (- 2))) m = {0 ..< 5}"
proof -
  let ?xs = "[(make_seq 1, [7, 7 :: byte]), (make_seq (- 2), [7, 7, 7])]"
  have d: "dist (make_seq (- 2)) (make_seq 1) = 3" "dist (make_seq (- 2)) (make_seq (- 2)) = 0"
    by (simp_all add: dist_def)
  have "covers (dist (make_seq (- 2))) ?xs = {0 ..< 5}"
    by (auto simp: covers_def seg_cover_def d)
  then show ?thesis
    using tcp_merger_reassembles_stream [of "make_seq (- 2)" "\<lambda>_. 7" ?xs]
    by (auto simp: d upt_rec)
qed

end
