(* ===== verification/Tcb.thy ===== *)
theory Tcb
  imports TcpHdr NetTypes "HOL-Library.Signed_Division"
begin

text \<open>
  The transmission control block of a TCP connection (\<open>class tcb\<close> in \<open>network/tcp.hh\<close>): its
  state and the operations that do not send or receive a segment. Packets are byte strings.

  What a call needs from outside is in the record \<open>tcp_env\<close>: the device features, the core
  library's byte order accessors and \<open>align_up\<close>, the time in milliseconds, the result of
  \<open>get_isn\<close> (which hashes with a third party library), and the memory that follows a header in
  its buffer. What a call does to the world is appended to \<open>t_events\<close>: starting to poll the
  tcb, handing a segment to \<open>respond_with_reset\<close>, removing the tcb from the table, announcing a
  new connection, and completing a promise. A timer is its expiry time, if armed. Members that
  the constructor leaves uninitialised have the value an argument gives them.
\<close>

subsection \<open>State\<close>

datatype tcp_state = CLOSED | LISTEN | SYN_SENT | SYN_RECEIVED | ESTABLISHED | FIN_WAIT_1
  | FIN_WAIT_2 | CLOSE_WAIT | CLOSING | LAST_ACK | TIME_WAIT

datatype tcp_err = tcp_reset_error | tcp_connect_error | tcp_refused_error | tcp_aborted_error
  | arp_timeout_error

datatype event =
    Poll_tcb
  | Respond_with_reset tcp_hdr
  | Removed_from_tcbs
  | Add_connected_tcb
  | Connect_done
  | Connect_failed tcp_err
  | Data_received
  | Data_failed tcp_err
  | All_data_acked
  | All_data_acked_failed tcp_err
  | Send_available
  | Send_available_failed tcp_err

record tcp_env =
  e_hw :: hw_features
  e_be :: be_ops
  e_align :: "u8 \<Rightarrow> u8 \<Rightarrow> u8"
  e_now :: int
  e_isn :: tcp_seq
  e_after :: bytes

record unacked_segment =
  us_p :: bytes
  us_data_len :: u16
  us_nr_transmits :: u32
  us_tx_time :: int

record send =
  snd_unacknowledged :: tcp_seq
  snd_next :: tcp_seq
  snd_window :: u32
  snd_window_scale :: u8
  snd_mss :: u16
  snd_urgent :: tcp_seq
  snd_wl1 :: tcp_seq
  snd_wl2 :: tcp_seq
  snd_initial :: tcp_seq
  snd_data :: "unacked_segment list"
  snd_unsent :: "bytes list"
  snd_unsent_len :: u32
  snd_closed :: bool
  snd_all_data_acked_promise :: bool
  snd_max_queue_space :: u64
  snd_current_queue_space :: u64
  snd_send_available_promise :: bool
  snd_rttvar :: int
  snd_srtt :: int
  snd_first_rto_sample :: bool
  snd_syn_tx_time :: int
  snd_cwnd :: u32
  snd_ssthresh :: u32
  snd_dupacks :: u16
  snd_syn_retransmit :: u32
  snd_fin_retransmit :: u32
  snd_limited_transfer :: u32
  snd_partial_ack :: u32
  snd_recover :: tcp_seq
  snd_window_probe :: bool
  snd_zero_window_probing_out :: u8

record receive =
  rcv_next :: tcp_seq
  rcv_window :: u32
  rcv_window_scale :: u8
  rcv_mss :: u16
  rcv_urgent :: tcp_seq
  rcv_initial :: tcp_seq
  rcv_data :: "bytes list"
  rcv_data_size :: u64
  rcv_out_of_order :: "tcp_seq merge_map"
  rcv_data_received_promise :: bool
  rcv_max_receive_buf_size :: u64

record tcb =
  t_state :: tcp_state
  t_id :: connid
  t_snd :: send
  t_rcv :: receive
  t_option :: tcp_option
  t_delayed_ack :: "int option"
  t_rto :: int
  t_persist_time_out :: int
  t_retransmit :: "int option"
  t_persist :: "int option"
  t_nr_full_seg_received :: u16
  t_packetq :: "l4packet list"
  t_poll_active :: bool
  t_events :: "event list"

text \<open>The constructor: members with a default initialiser get it, the others come from a block
  of arbitrary contents.\<close>

definition tcb_new :: "send \<Rightarrow> receive \<Rightarrow> u16 \<Rightarrow> connid \<Rightarrow> tcb" where
  "tcb_new s0 r0 m0 cid =
     \<lparr>t_state = CLOSED, t_id = cid,
      t_snd = s0\<lparr>snd_data := [], snd_unsent := [], snd_unsent_len := 0, snd_closed := False,
                 snd_all_data_acked_promise := False, snd_max_queue_space := 212992,
                 snd_current_queue_space := 0, snd_send_available_promise := False,
                 snd_first_rto_sample := True, snd_dupacks := 0, snd_syn_retransmit := 0,
                 snd_fin_retransmit := 0, snd_limited_transfer := 0, snd_partial_ack := 0,
                 snd_window_probe := False, snd_zero_window_probing_out := 0\<rparr>,
      t_rcv = r0\<lparr>rcv_data := [], rcv_data_size := 0, rcv_out_of_order := [],
                 rcv_data_received_promise := False, rcv_max_receive_buf_size := 3737600\<rparr>,
      t_option = tcp_option_init m0, t_delayed_ack = None, t_rto = 1000,
      t_persist_time_out = 1000, t_retransmit = None, t_persist = None,
      t_nr_full_seg_received = 0, t_packetq = [], t_poll_active = False, t_events = []\<rparr>"

subsection \<open>Small operations\<close>

definition emit :: "event \<Rightarrow> tcb \<Rightarrow> tcb" where
  "emit ev t = t\<lparr>t_events := t_events t @ [ev]\<rparr>"

definition in_state :: "tcb \<Rightarrow> tcp_state set \<Rightarrow> bool" where
  "in_state t ss \<longleftrightarrow> t_state t \<in> ss"

definition syn_needs_on :: "tcb \<Rightarrow> bool" where
  "syn_needs_on t = in_state t {SYN_SENT, SYN_RECEIVED}"

definition fin_needs_on :: "tcb \<Rightarrow> bool" where
  "fin_needs_on t \<longleftrightarrow> in_state t {FIN_WAIT_1, CLOSING, LAST_ACK} \<and> snd_closed (t_snd t) \<and>
     snd_unsent_len (t_snd t) = 0"

definition ack_needs_on :: "tcb \<Rightarrow> bool" where
  "ack_needs_on t = (\<not> in_state t {CLOSED, LISTEN, SYN_SENT})"

definition foreign_will_not_send :: "tcb \<Rightarrow> bool" where
  "foreign_will_not_send t = in_state t {CLOSING, TIME_WAIT, CLOSE_WAIT, LAST_ACK, CLOSED}"

definition get_default_receive_window_size :: "tcb \<Rightarrow> u32 result" where
  "get_default_receive_window_size t = shl32 29200 (rcv_window_scale (t_rcv t))"

definition get_modified_receive_window_size :: "tcb \<Rightarrow> u32 result" where
  "get_modified_receive_window_size t =
     (let r = t_rcv t;
          left = (if rcv_data_size r > rcv_max_receive_buf_size r then 0
                  else ucast (rcv_max_receive_buf_size r - rcv_data_size r))
      in andThen (get_default_receive_window_size t) (\<lambda>d. Inr (min left d)))"

definition local_mss_of :: "hw_features \<Rightarrow> u16" where
  "local_mss_of hw = mtu hw - 20 - 20"

definition tcb_output :: "tcb \<Rightarrow> tcb" where
  "tcb_output t = (if t_poll_active t then t else emit Poll_tcb (t\<lparr>t_poll_active := True\<rparr>))"

definition start_retransmit_timer :: "int \<Rightarrow> tcb \<Rightarrow> tcb" where
  "start_retransmit_timer now t = t\<lparr>t_retransmit := Some (now + t_rto t)\<rparr>"

definition stop_retransmit_timer :: "tcb \<Rightarrow> tcb" where
  "stop_retransmit_timer t = t\<lparr>t_retransmit := None\<rparr>"

definition start_persist_timer :: "int \<Rightarrow> tcb \<Rightarrow> tcb" where
  "start_persist_timer now t = t\<lparr>t_persist := Some (now + t_persist_time_out t)\<rparr>"

definition stop_persist_timer :: "tcb \<Rightarrow> tcb" where
  "stop_persist_timer t = t\<lparr>t_persist := None\<rparr>"

definition clear_delayed_ack :: "tcb \<Rightarrow> tcb" where
  "clear_delayed_ack t = t\<lparr>t_delayed_ack := None\<rparr>"

definition queue_packet :: "bytes \<Rightarrow> offload_info \<Rightarrow> tcb \<Rightarrow> tcb" where
  "queue_packet p oi t =
     t\<lparr>t_packetq := t_packetq t @ [\<lparr>l4_to = foreign_ip (t_id t), l4_p = p, l4_oi = oi,
         l4_e_dst = ethernet_address_zero, l4_proto_num = tcp_num\<rparr>]\<rparr>"

definition cleanup :: "tcb \<Rightarrow> tcb" where
  "cleanup t =
     emit Removed_from_tcbs (clear_delayed_ack (stop_retransmit_timer
       (t\<lparr>t_snd := (t_snd t)\<lparr>snd_unsent := [], snd_data := []\<rparr>,
          t_rcv := (t_rcv t)\<lparr>rcv_out_of_order := [], rcv_data_size := 0, rcv_data := []\<rparr>\<rparr>)))"

definition signal_data_received :: "tcb \<Rightarrow> tcb" where
  "signal_data_received t =
     (if rcv_data_received_promise (t_rcv t)
      then emit Data_received (t\<lparr>t_rcv := (t_rcv t)\<lparr>rcv_data_received_promise := False\<rparr>\<rparr>) else t)"

definition signal_all_data_acked :: "tcb \<Rightarrow> tcb" where
  "signal_all_data_acked t =
     (if snd_all_data_acked_promise (t_snd t) \<and> snd_unsent_len (t_snd t) = 0
      then emit All_data_acked (t\<lparr>t_snd := (t_snd t)\<lparr>snd_all_data_acked_promise := False\<rparr>\<rparr>) else t)"

definition signal_send_available :: "tcb \<Rightarrow> tcb" where
  "signal_send_available t =
     (if snd_send_available_promise (t_snd t) \<and>
         snd_max_queue_space (t_snd t) > snd_current_queue_space (t_snd t)
      then emit Send_available (t\<lparr>t_snd := (t_snd t)\<lparr>snd_send_available_promise := False\<rparr>\<rparr>) else t)"

definition do_syn_sent :: "tcp_env \<Rightarrow> tcb \<Rightarrow> tcb" where
  "do_syn_sent e t =
     tcb_output (t\<lparr>t_state := SYN_SENT, t_snd := (t_snd t)\<lparr>snd_syn_tx_time := e_now e\<rparr>\<rparr>)"

definition do_syn_received :: "tcp_env \<Rightarrow> tcb \<Rightarrow> tcb" where
  "do_syn_received e t =
     tcb_output (t\<lparr>t_state := SYN_RECEIVED, t_snd := (t_snd t)\<lparr>snd_syn_tx_time := e_now e\<rparr>\<rparr>)"

definition do_reset :: "tcb \<Rightarrow> tcb" where
  "do_reset t =
     (let t1 = cleanup (t\<lparr>t_state := CLOSED\<rparr>);
          t2 = (if rcv_data_received_promise (t_rcv t1)
                then emit (Data_failed tcp_reset_error)
                       (t1\<lparr>t_rcv := (t_rcv t1)\<lparr>rcv_data_received_promise := False\<rparr>\<rparr>) else t1);
          t3 = (if snd_all_data_acked_promise (t_snd t2)
                then emit (All_data_acked_failed tcp_reset_error)
                       (t2\<lparr>t_snd := (t_snd t2)\<lparr>snd_all_data_acked_promise := False\<rparr>\<rparr>) else t2)
      in if snd_send_available_promise (t_snd t3)
         then emit (Send_available_failed tcp_reset_error)
                (t3\<lparr>t_snd := (t_snd t3)\<lparr>snd_send_available_promise := False\<rparr>\<rparr>) else t3)"

definition do_time_wait :: "tcb \<Rightarrow> tcb" where
  "do_time_wait t = cleanup (t\<lparr>t_state := TIME_WAIT\<rparr>)"

definition do_closed :: "tcb \<Rightarrow> tcb" where
  "do_closed t = cleanup (t\<lparr>t_state := CLOSED\<rparr>)"

definition do_setup_isn :: "tcp_env \<Rightarrow> tcb \<Rightarrow> tcb" where
  "do_setup_isn e t =
     t\<lparr>t_snd := (t_snd t)\<lparr>snd_initial := e_isn e, snd_unacknowledged := e_isn e,
                         snd_next := seq_add (e_isn e) 1, snd_recover := e_isn e\<rparr>\<rparr>"

definition do_local_fin_acked :: "tcb \<Rightarrow> tcb" where
  "do_local_fin_acked t =
     t\<lparr>t_snd := (t_snd t)\<lparr>snd_unacknowledged := seq_add (snd_unacknowledged (t_snd t)) 1,
                         snd_next := seq_add (snd_next (t_snd t)) 1\<rparr>\<rparr>"

definition exit_fast_recovery :: "tcb \<Rightarrow> tcb" where
  "exit_fast_recovery t =
     t\<lparr>t_snd := (t_snd t)\<lparr>snd_dupacks := 0, snd_limited_transfer := 0, snd_partial_ack := 0\<rparr>\<rparr>"

text \<open>The continuation of \<open>output\<close> when the address of the peer cannot be resolved.\<close>

definition output_arp_queue_full :: "tcp_env \<Rightarrow> tcb \<Rightarrow> tcb" where
  "output_arp_queue_full e t = start_retransmit_timer (e_now e) (t\<lparr>t_poll_active := False\<rparr>)"

definition output_arp_timeout :: "tcb \<Rightarrow> tcb" where
  "output_arp_timeout t =
     (if in_state t {SYN_SENT} then cleanup (emit (Connect_failed arp_timeout_error) t) else t)"

subsection \<open>Round trip time and congestion window\<close>

abbreviation (input) rto_min :: int where "rto_min \<equiv> 1000"
abbreviation (input) rto_max :: int where "rto_max \<equiv> 60000"
abbreviation (input) rto_clk_granularity :: int where "rto_clk_granularity \<equiv> 1"
abbreviation (input) max_nr_retransmit :: u32 where "max_nr_retransmit \<equiv> 5"

definition update_rto :: "tcp_env \<Rightarrow> int \<Rightarrow> tcb \<Rightarrow> tcb" where
  "update_rto e tx_time t =
     (let R = e_now e - tx_time;
          s = t_snd t;
          s1 = (if snd_first_rto_sample s
                then s\<lparr>snd_first_rto_sample := False, snd_rttvar := R sdiv 2, snd_srtt := R\<rparr>
                else
                  (let delta = (if snd_srtt s > R then snd_srtt s - R else R - snd_srtt s)
                   in s\<lparr>snd_rttvar := snd_rttvar s * 3 sdiv 4 + delta sdiv 4,
                        snd_srtt := snd_srtt s * 7 sdiv 8 + R sdiv 8\<rparr>));
          rto = snd_srtt s1 + max rto_clk_granularity (4 * snd_rttvar s1)
      in t\<lparr>t_snd := s1, t_rto := min (max rto rto_min) rto_max\<rparr>)"

definition update_cwnd :: "u32 \<Rightarrow> tcb \<Rightarrow> tcb result" where
  "update_cwnd acked_bytes t =
     (let s = t_snd t;
          smss = ucast (snd_mss s) :: u32
      in if snd_cwnd s < snd_ssthresh s
         then Inr (t\<lparr>t_snd := s\<lparr>snd_cwnd := snd_cwnd s + min acked_bytes smss\<rparr>\<rparr>)
         else if snd_cwnd s = 0 then Inl DivByZero
         else Inr (t\<lparr>t_snd := s\<lparr>snd_cwnd := snd_cwnd s + max 1 (smss * smss div snd_cwnd s)\<rparr>\<rparr>))"

definition do_established :: "tcp_env \<Rightarrow> tcb \<Rightarrow> tcb" where
  "do_established e t =
     (let t1 = t\<lparr>t_state := ESTABLISHED\<rparr>
      in emit Connect_done (update_rto e (snd_syn_tx_time (t_snd t1)) t1))"

fun flight_size :: "unacked_segment list \<Rightarrow> u32" where
  "flight_size [] = 0"
| "flight_size (s # ss) = word_of_nat (length (us_p s)) + flight_size ss"

text \<open>\<open>can_send\<close> also counts what limited transfer allows.\<close>

definition can_send :: "tcb \<Rightarrow> u32 \<times> tcb" where
  "can_send t =
     (let s = t_snd t;
          window_used = word_of_int (seq_diff (snd_next s) (snd_unacknowledged s)) :: u32
      in if snd_window_probe s then (1, t)
         else if snd_window s = 0 then (0, t)
         else if window_used > snd_window s then (0, t)
         else
           (let x = min (snd_cwnd s) (min (snd_window s - window_used) (snd_unsent_len s))
            in if snd_dupacks s = 1 \<or> snd_dupacks s = 2 then
                 (let flight = flight_size (snd_data s);
                      mx = snd_cwnd s + 2 * ucast (snd_mss s);
                      x1 = (if flight \<le> mx then min x (mx - flight) else 0)
                  in (x1, t\<lparr>t_snd := s\<lparr>snd_limited_transfer := snd_limited_transfer s + x1\<rparr>\<rparr>))
               else if snd_dupacks s \<ge> 3 then (min (ucast (snd_mss s)) x, t)
               else (x, t)))"

subsection \<open>Acknowledgement of sent data\<close>

text \<open>The loop over fully acknowledged segments; \<open>acked\<close> is \<open>total_acked_bytes\<close>.\<close>

fun ack_full_segments ::
  "tcp_env \<Rightarrow> tcp_seq \<Rightarrow> unacked_segment list \<Rightarrow> u32 \<Rightarrow> tcb \<Rightarrow> (u32 \<times> tcb) result" where
  "ack_full_segments e seg_ack [] acked t = Inr (acked, t)"
| "ack_full_segments e seg_ack (seg # rest) acked t =
     (let acked_bytes = word_of_nat (length (us_p seg)) :: u32;
          una = seq_add (snd_unacknowledged (t_snd t)) acked_bytes
      in if una \<le> seg_ack then
           (let t1 = t\<lparr>t_snd := (t_snd t)\<lparr>snd_unacknowledged := una\<rparr>\<rparr>;
                t2 = (if us_nr_transmits seg = 0 then update_rto e (us_tx_time seg) t1 else t1)
            in case update_cwnd acked_bytes t2 of
                 Inl er \<Rightarrow> Inl er
               | Inr t3 \<Rightarrow>
                   (let t4 = signal_send_available
                          (t3\<lparr>t_snd := (t_snd t3)\<lparr>snd_current_queue_space :=
                                 snd_current_queue_space (t_snd t3) - ucast (us_data_len seg)\<rparr>\<rparr>)
                    in ack_full_segments e seg_ack rest (acked + acked_bytes)
                         (t4\<lparr>t_snd := (t_snd t4)\<lparr>snd_data := rest\<rparr>\<rparr>)))
         else Inr (acked, t))"

definition data_segment_acked :: "tcp_env \<Rightarrow> tcp_seq \<Rightarrow> tcb \<Rightarrow> (u32 \<times> tcb) result" where
  "data_segment_acked e seg_ack t =
     andThen (ack_full_segments e seg_ack (snd_data (t_snd t)) 0 t) (\<lambda>(total, t1).
       if snd_unacknowledged (t_snd t1) < seg_ack then
         (let acked_bytes = seq_diff seg_ack (snd_unacknowledged (t_snd t1))
          in andThen
               (case snd_data (t_snd t1) of
                  [] \<Rightarrow> Inr t1
                | seg # rest \<Rightarrow>
                    andThen (v_trim_front (us_p seg) (nat acked_bytes)) (\<lambda>p.
                      Inr (t1\<lparr>t_snd := (t_snd t1)\<lparr>snd_data := seg\<lparr>us_p := p\<rparr> # rest\<rparr>\<rparr>)))
               (\<lambda>t2.
                 let t3 = t2\<lparr>t_snd := (t_snd t2)\<lparr>snd_unacknowledged := seg_ack\<rparr>\<rparr>
                 in andThen (update_cwnd (word_of_int acked_bytes) t3) (\<lambda>t4.
                      Inr (total + word_of_int acked_bytes, t4))))
       else Inr (total, t1))"

subsection \<open>Acceptance and reassembly of received data\<close>

definition segment_acceptable :: "tcb \<Rightarrow> tcp_seq \<Rightarrow> u32 \<Rightarrow> bool" where
  "segment_acceptable t seg_seq seg_len =
     (let nxt = rcv_next (t_rcv t);
          wnd = rcv_window (t_rcv t);
          seg_last = seq_subtract (seq_add seg_seq seg_len) 1
      in if seg_len = 0 \<and> wnd = 0 then seg_seq = nxt
         else if seg_len = 0 \<and> wnd > 0 then nxt \<le> seg_seq \<and> seg_seq < seq_add nxt wnd
         else if seg_len > 0 \<and> wnd > 0 then
           (nxt \<le> seg_seq \<and> seg_seq < seq_add nxt wnd) \<or>
           (nxt \<le> seg_last \<and> seg_last < seq_add nxt wnd)
         else False)"

definition insert_out_of_order :: "tcp_seq \<Rightarrow> bytes \<Rightarrow> tcb \<Rightarrow> tcb result" where
  "insert_out_of_order seg p t =
     andThen (merge seq_ops (rcv_out_of_order (t_rcv t)) seg p) (\<lambda>m.
       Inr (t\<lparr>t_rcv := (t_rcv t)\<lparr>rcv_out_of_order := m\<rparr>\<rparr>))"

text \<open>The loop of \<open>merge_out_of_order\<close> over the map.\<close>

fun merge_ooo_loop :: "tcp_seq merge_map \<Rightarrow> bool \<Rightarrow> receive \<Rightarrow> (bool \<times> receive) result" where
  "merge_ooo_loop [] merged r = Inr (merged, r\<lparr>rcv_out_of_order := []\<rparr>)"
| "merge_ooo_loop ((seg_beg, p) # m) merged r =
     (let seg_end = seq_add seg_beg (word_of_nat (length p))
      in if seg_beg \<le> rcv_next r \<and> rcv_next r < seg_end then
           (let trim = seq_diff (rcv_next r) seg_beg
            in case (if trim \<noteq> 0 then v_trim_front p (nat trim) else Inr p) of
                 Inl er \<Rightarrow> Inl er
               | Inr p1 \<Rightarrow>
                   merge_ooo_loop m True
                     (r\<lparr>rcv_next := seq_add (rcv_next r) (word_of_nat (length p) - word_of_int trim),
                        rcv_data_size := rcv_data_size r + word_of_nat (length p1),
                        rcv_data := rcv_data r @ [p1]\<rparr>))
         else if rcv_next r \<ge> seg_end then merge_ooo_loop m merged r
         else Inr (merged, r\<lparr>rcv_out_of_order := (seg_beg, p) # m\<rparr>))"

definition merge_out_of_order :: "tcb \<Rightarrow> (bool \<times> tcb) result" where
  "merge_out_of_order t =
     andThen (merge_ooo_loop (rcv_out_of_order (t_rcv t)) False (t_rcv t)) (\<lambda>(merged, r).
       Inr (merged, t\<lparr>t_rcv := r\<rparr>))"

definition should_send_ack :: "tcp_env \<Rightarrow> u16 \<Rightarrow> tcb \<Rightarrow> bool \<times> tcb" where
  "should_send_ack e seg_len t =
     (if seg_len > rcv_mss (t_rcv t) then
        (True, t\<lparr>t_nr_full_seg_received := 0, t_delayed_ack := None\<rparr>)
      else if seg_len = rcv_mss (t_rcv t) \<and> t_nr_full_seg_received t \<ge> 1 then
        (True, t\<lparr>t_nr_full_seg_received := 0, t_delayed_ack := None\<rparr>)
      else
        (let t1 = (if seg_len = rcv_mss (t_rcv t)
                   then t\<lparr>t_nr_full_seg_received := t_nr_full_seg_received t + 1\<rparr> else t)
         in if t_delayed_ack t1 \<noteq> None then (False, t1)
            else (False, t1\<lparr>t_delayed_ack := Some (e_now e + 200)\<rparr>)))"

subsection \<open>Negotiation\<close>

text \<open>The window of the header is shifted by the scale the peer sent: by 32 or more that is
  \<open>UndefinedShift\<close> (\<open>shl32\<close>); by less, bits that do not fit are lost, as compilers do it.\<close>

definition init_from_options :: "tcp_env \<Rightarrow> tcp_hdr \<Rightarrow> bytes \<Rightarrow> nat \<Rightarrow> tcb \<Rightarrow> tcb result" where
  "init_from_options e th mem opt_len t =
     andThen (tcp_option_parse (e_be e) (t_option t) mem opt_len) (\<lambda>opt.
       (let m = local_mss_of (e_hw e);
            mss = remote_mss opt;
            t1 = t\<lparr>t_option := opt\<lparr>local_mss := m\<rparr>,
                   t_snd := (t_snd t)\<lparr>snd_window_scale := remote_win_scale opt, snd_mss := mss\<rparr>,
                   t_rcv := (t_rcv t)\<lparr>rcv_window_scale := local_win_scale opt, rcv_mss := m\<rparr>\<rparr>
        in andThen (get_default_receive_window_size t1) (\<lambda>rwnd.
             andThen (shl32 (ucast (th_window th)) (remote_win_scale opt)) (\<lambda>swnd.
               Inr (t1\<lparr>t_rcv := (t_rcv t1)\<lparr>rcv_window := rwnd\<rparr>,
                       t_snd := (t_snd t1)\<lparr>snd_window := swnd, snd_wl1 := th_seq th,
                          snd_wl2 := th_ack th,
                          snd_cwnd := (if 2190 < mss then 2 * ucast mss
                                       else if 1095 < mss then 3 * ucast mss else 4 * ucast mss),
                          snd_ssthresh := swnd\<rparr>\<rparr>)))))"

end
