(* ===== verification/TcbOutput.thy ===== *)
theory TcbOutput
  imports Tcb
begin

text \<open>
  The sending side of a connection (\<open>network/tcp.hh\<close>): cutting the queued data into segments,
  building and queueing one segment, the retransmission and persist timers, and the user's
  calls \<open>connect\<close>, \<open>send\<close>, \<open>read\<close>, \<open>close\<close>.
\<close>

subsection \<open>Cutting the next segment\<close>

text \<open>The loop of the hard case: whole packets while they fit.\<close>

fun take_whole :: "u32 \<Rightarrow> bytes \<Rightarrow> bytes list \<Rightarrow> bytes \<times> u32 \<times> bytes list" where
  "take_whole room p [] = (p, room, [])"
| "take_whole room p (q # qs) =
     (if word_of_nat (length q) \<le> room
      then take_whole (room - word_of_nat (length q)) (p @ q) qs
      else (p, room, q # qs))"

definition transmit_limit :: "hw_features \<Rightarrow> u16 \<Rightarrow> u32" where
  "transmit_limit hw mss =
     (if tx_tso hw then ucast (max_packet_len hw) - 20 - 20 else ucast (min (mtu hw - 20 - 20) mss))"

definition get_transmit_packet :: "tcp_env \<Rightarrow> tcb \<Rightarrow> (bytes \<times> tcb) result" where
  "get_transmit_packet e t =
     (case snd_unsent (t_snd t) of
        [] \<Rightarrow> Inr ([], t)
      | q0 # qs \<Rightarrow>
          (let (cs, t1) = can_send t;
               room = min cs (transmit_limit (e_hw e) (snd_mss (t_snd t1)));
               upd = (\<lambda>p unsent. t1\<lparr>t_snd := (t_snd t1)\<lparr>snd_unsent := unsent,
                        snd_unsent_len := snd_unsent_len (t_snd t1) - word_of_nat (length p)\<rparr>\<rparr>)
           in if qs = [] \<and> word_of_nat (length q0) \<le> room then Inr (q0, upd q0 [])
              else if word_of_nat (length q0) > room then
                andThen (v_share q0 0 (unat room)) (\<lambda>p.
                  andThen (v_trim_front q0 (unat room)) (\<lambda>rest.
                    Inr (p, upd p (rest # qs))))
              else
                (let (p, room1, rest) = take_whole (room - word_of_nat (length q0)) q0 qs
                 in case rest of
                      [] \<Rightarrow> Inr (p, upd p [])
                    | q # rest' \<Rightarrow>
                        if room1 \<noteq> 0 then
                          andThen (v_share q 0 (unat room1)) (\<lambda>front.
                            andThen (v_trim_front q (unat room1)) (\<lambda>back.
                              Inr (p @ front, upd (p @ front) (back # rest'))))
                        else Inr (p, upd p rest))))"

subsection \<open>Building one segment\<close>

definition segment_header ::
  "tcb \<Rightarrow> bool \<Rightarrow> bool \<Rightarrow> bool \<Rightarrow> tcp_seq \<Rightarrow> u8 \<Rightarrow> u16 \<Rightarrow> tcp_hdr" where
  "segment_header t syn_on ack_on fin_on seq options_size wnd =
     \<lparr>src_port = local_port (t_id t), dst_port = foreign_port (t_id t), th_seq = seq,
      th_ack = rcv_next (t_rcv t), rsvd1 = 0,
      data_offset = word_of_nat ((tcp_hdr_len + unat options_size) div 4),
      f_fin = fin_on, f_syn = syn_on, f_rst = False, f_psh = False, f_ack = ack_on, f_urg = False,
      rsvd2 = 0, th_window = wnd, th_checksum = 0, th_urgent = 0\<rparr>"

text \<open>The checksum and offload request of a segment whose header bytes still have a zero
  checksum field.\<close>

definition segment_checksum ::
  "hw_features \<Rightarrow> connid \<Rightarrow> u16 \<Rightarrow> u8 \<Rightarrow> u16 \<Rightarrow> bytes \<Rightarrow> (u16 \<times> offload_info) result" where
  "segment_checksum hw cid mss options_size len seg =
     (let tso = tx_csum_l4_offload hw \<and> tx_tso hw \<and> len > mss;
          seg_len = (if tso then 0 else 20 + ucast options_size + len);
          cs = tcp_pseudo_header_checksum checksummer_init (local_ip cid) (foreign_ip cid) seg_len;
          oi = offload_info_init\<lparr>oi_tcp_hdr_len := 20 + options_size,
                 oi_needs_csum := tx_csum_l4_offload hw,
                 oi_tso_seg_size := (if tso then mss else 0), oi_protocol := tcp_num\<rparr>
      in if tx_csum_l4_offload hw then Inr (NOT (checksummer_get cs), oi)
         else andThen (sum_fragments [seg] cs) (\<lambda>cs1. Inr (checksummer_get cs1, oi)))"

definition write_nbo_checksum :: "bytes \<Rightarrow> u16 \<Rightarrow> bytes" where
  "write_nbo_checksum seg c = overwrite 16 (store16 c) seg"

text \<open>What a sent segment leaves behind: a copy for retransmission, and an armed timer.\<close>

definition remember_segment :: "tcp_env \<Rightarrow> bool \<Rightarrow> bytes \<Rightarrow> u16 \<Rightarrow> bool \<Rightarrow> bool \<Rightarrow> tcb \<Rightarrow> tcb" where
  "remember_segment e data_retransmit clone len syn_on fin_on t =
     (if \<not> data_retransmit \<and> (len \<noteq> 0 \<or> syn_on \<or> fin_on) then
        (let t1 = (if len \<noteq> 0 then
                     t\<lparr>t_snd := (t_snd t)\<lparr>snd_data := snd_data (t_snd t) @
                        [\<lparr>us_p = clone, us_data_len = len, us_nr_transmits = 0,
                          us_tx_time = e_now e\<rparr>]\<rparr>\<rparr>
                   else t)
         in if t_retransmit t1 = None then start_retransmit_timer (e_now e) t1 else t1)
      else t)"

definition output_segment :: "tcp_env \<Rightarrow> bool \<Rightarrow> bytes \<Rightarrow> tcb \<Rightarrow> tcb result" where
  "output_segment e data_retransmit p t =
     (let len = word_of_nat (length p) :: u16;
          syn_on = syn_needs_on t;
          ack_on = ack_needs_on t;
          options_size = tcp_option_get_size (e_align e) (t_option t) syn_on ack_on;
          t1 = (if ack_on then clear_delayed_ack t else t);
          seq = (if data_retransmit then snd_unacknowledged (t_snd t1)
                 else if syn_on then snd_initial (t_snd t1) else snd_next (t_snd t1));
          t2 = (if data_retransmit then t1
                else t1\<lparr>t_snd := (t_snd t1)\<lparr>snd_next := seq_add (snd_next (t_snd t1)) (ucast len)\<rparr>\<rparr>);
          fin_on = fin_needs_on t2
      in andThen (shr32 (rcv_window (t_rcv t2)) (rcv_window_scale (t_rcv t2))) (\<lambda>wnd.
         andThen (tcp_option_fill (e_be e) (e_align e) (t_option t2) syn_on ack_on options_size) (\<lambda>opts.
         (let h = segment_header t2 syn_on ack_on fin_on seq options_size (ucast wnd);
              seg = tcp_hdr_write (e_be e) h @ opts @ p
          in andThen (segment_checksum (e_hw e) (t_id t2) (snd_mss (t_snd t2)) options_size len seg)
               (\<lambda>(c, oi).
                 let t3 = remember_segment e data_retransmit p len syn_on fin_on t2
                 in andThen (assertion (snd_window (t_snd t3) > 0 \<or> len \<le> 1)) (\<lambda>_.
                      Inr (queue_packet (write_nbo_checksum seg c) oi t3)))))))"

definition output_one :: "tcp_env \<Rightarrow> bool \<Rightarrow> tcb \<Rightarrow> tcb result" where
  "output_one e data_retransmit t =
     (if in_state t {CLOSED} then Inr t
      else andThen
        (if data_retransmit
         then (case snd_data (t_snd t) of [] \<Rightarrow> Inl NullDeref | seg # _ \<Rightarrow> Inr (us_p seg, t))
         else get_transmit_packet e t)
        (\<lambda>(p, t1). output_segment e data_retransmit p t1))"

definition get_packet :: "tcp_env \<Rightarrow> tcb \<Rightarrow> (l4packet option \<times> tcb) result" where
  "get_packet e t =
     (let t0 = t\<lparr>t_poll_active := False\<rparr>
      in andThen (if t_packetq t0 = [] then output_one e False t0 else Inr t0) (\<lambda>t1.
           if in_state t1 {CLOSED} then Inr (None, t1)
           else (case t_packetq t1 of
                   [] \<Rightarrow> Inl AssertFailed
                 | p # ps \<Rightarrow>
                     (let t2 = t1\<lparr>t_packetq := ps\<rparr>
                      in if ps \<noteq> [] then Inr (Some p, tcb_output t2)
                         else if snd_dupacks (t_snd t2) < 3 then
                           (let (cs, t3) = can_send t2
                            in if cs > 0 \<and> snd_window (t_snd t3) > 0 then Inr (Some p, tcb_output t3)
                               else Inr (Some p, t3))
                         else Inr (Some p, t2)))))"

subsection \<open>Timers\<close>

definition delayed_ack_fired :: "tcb \<Rightarrow> tcb" where
  "delayed_ack_fired t = tcb_output (t\<lparr>t_nr_full_seg_received := 0\<rparr>)"

definition fast_retransmit :: "tcp_env \<Rightarrow> tcb \<Rightarrow> tcb result" where
  "fast_retransmit e t =
     (case snd_data (t_snd t) of
        [] \<Rightarrow> Inr t
      | seg # rest \<Rightarrow>
          andThen (output_one e True
             (t\<lparr>t_snd := (t_snd t)\<lparr>snd_data := seg\<lparr>us_nr_transmits := us_nr_transmits seg + 1\<rparr> # rest\<rparr>\<rparr>))
            (\<lambda>t1. Inr (tcb_output t1)))"

definition output_update_rto :: "tcp_env \<Rightarrow> tcb \<Rightarrow> tcb" where
  "output_update_rto e t =
     (let t1 = tcb_output t
      in start_retransmit_timer (e_now e) (t1\<lparr>t_rto := min (t_rto t1 * 2) rto_max\<rparr>))"

definition retransmit_data :: "tcp_env \<Rightarrow> tcb \<Rightarrow> tcb result" where
  "retransmit_data e t =
     (case snd_data (t_snd t) of
        [] \<Rightarrow> Inr t
      | seg # rest \<Rightarrow>
          (let s = t_snd t;
               smss = ucast (snd_mss s) :: u32;
               s1 = (if us_nr_transmits seg = 0
                     then s\<lparr>snd_ssthresh := max (flight_size (snd_data s) div 2) (2 * smss)\<rparr> else s);
               t1 = exit_fast_recovery (t\<lparr>t_snd := s1\<lparr>snd_recover := seq_subtract (snd_next s1) 1,
                                                        snd_cwnd := smss\<rparr>\<rparr>)
           in if us_nr_transmits seg < max_nr_retransmit then
                andThen (output_one e True
                   (t1\<lparr>t_snd := (t_snd t1)\<lparr>snd_data :=
                          seg\<lparr>us_nr_transmits := us_nr_transmits seg + 1\<rparr> # rest\<rparr>\<rparr>))
                  (\<lambda>t2. Inr (output_update_rto e t2))
              else Inr (do_reset t1)))"

definition retransmit :: "tcp_env \<Rightarrow> tcb \<Rightarrow> tcb result" where
  "retransmit e t =
     (let syn = syn_needs_on t;
          syn_left = snd_syn_retransmit (t_snd t) < max_nr_retransmit;
          t1 = (if syn then t\<lparr>t_snd := (t_snd t)\<lparr>snd_syn_retransmit := snd_syn_retransmit (t_snd t) + 1\<rparr>\<rparr>
                else t)
      in if syn \<and> \<not> syn_left then Inr (cleanup (emit (Connect_failed tcp_connect_error) t1))
         else
           (let t2 = (if syn then output_update_rto e t1 else t1);
                fin = fin_needs_on t2;
                fin_left = snd_fin_retransmit (t_snd t2) < max_nr_retransmit;
                t3 = (if fin then t2\<lparr>t_snd := (t_snd t2)\<lparr>snd_fin_retransmit := snd_fin_retransmit (t_snd t2) + 1\<rparr>\<rparr>
                      else t2)
            in if fin \<and> \<not> fin_left then Inr (cleanup t3)
               else retransmit_data e (if fin then output_update_rto e t3 else t3)))"

definition persist :: "tcp_env \<Rightarrow> tcb \<Rightarrow> tcb result" where
  "persist e t =
     andThen (output_one e False
        (t\<lparr>t_snd := (t_snd t)\<lparr>snd_window_probe := True,
              snd_zero_window_probing_out := snd_zero_window_probing_out (t_snd t) + 1\<rparr>\<rparr>))
       (\<lambda>t1. let t2 = tcb_output (t1\<lparr>t_snd := (t_snd t1)\<lparr>snd_window_probe := False\<rparr>\<rparr>)
             in Inr (start_persist_timer (e_now e)
                       (t2\<lparr>t_persist_time_out := min (t_persist_time_out t2 * 2) rto_max\<rparr>)))"

subsection \<open>The user's calls\<close>

text \<open>A call that returns a future reports whether the future is ready.\<close>

definition wait_for_data :: "tcb \<Rightarrow> bool \<times> tcb" where
  "wait_for_data t =
     (if rcv_data (t_rcv t) \<noteq> [] \<or> foreign_will_not_send t then (True, t)
      else (False, t\<lparr>t_rcv := (t_rcv t)\<lparr>rcv_data_received_promise := True\<rparr>\<rparr>))"

definition abort_reader :: "tcb \<Rightarrow> tcb" where
  "abort_reader t =
     (if rcv_data_received_promise (t_rcv t)
      then emit (Data_failed tcp_aborted_error)
             (t\<lparr>t_rcv := (t_rcv t)\<lparr>rcv_data_received_promise := False\<rparr>\<rparr>) else t)"

definition wait_for_all_data_acked :: "tcb \<Rightarrow> bool \<times> tcb" where
  "wait_for_all_data_acked t =
     (if snd_data (t_snd t) = [] \<and> snd_unsent_len (t_snd t) = 0 then (True, t)
      else (False, t\<lparr>t_snd := (t_snd t)\<lparr>snd_all_data_acked_promise := True\<rparr>\<rparr>))"

definition connect :: "tcp_env \<Rightarrow> tcb \<Rightarrow> tcb result" where
  "connect e t =
     (let m = local_mss_of (e_hw e);
          t1 = do_setup_isn e t;
          t2 = t1\<lparr>t_option := (t_option t1)\<lparr>local_win_scale := 7, local_mss := m\<rparr>,
                  t_rcv := (t_rcv t1)\<lparr>rcv_window_scale := 7, rcv_mss := m\<rparr>\<rparr>
      in andThen (get_default_receive_window_size t2) (\<lambda>w.
           Inr (do_syn_sent e (t2\<lparr>t_rcv := (t_rcv t2)\<lparr>rcv_window := w\<rparr>\<rparr>))))"

definition tcb_read :: "tcb \<Rightarrow> (bytes \<times> tcb) result" where
  "tcb_read t =
     (let t1 = t\<lparr>t_rcv := (t_rcv t)\<lparr>rcv_data_size := 0, rcv_data := []\<rparr>\<rparr>
      in andThen (get_default_receive_window_size t1) (\<lambda>w.
           Inr (concat (rcv_data (t_rcv t)), t1\<lparr>t_rcv := (t_rcv t1)\<lparr>rcv_window := w\<rparr>\<rparr>)))"

definition wait_send_available :: "tcb \<Rightarrow> bool \<times> tcb" where
  "wait_send_available t =
     (if snd_max_queue_space (t_snd t) > snd_current_queue_space (t_snd t) then (True, t)
      else (False, t\<lparr>t_snd := (t_snd t)\<lparr>snd_send_available_promise := True\<rparr>\<rparr>))"

definition tcb_send :: "bytes \<Rightarrow> tcb \<Rightarrow> tcp_err + bool \<times> tcb" where
  "tcb_send p t =
     (if snd_closed (t_snd t) \<or> in_state t {CLOSED} then Inl tcp_reset_error
      else
        (let s = t_snd t;
             t1 = t\<lparr>t_snd := s\<lparr>snd_current_queue_space := snd_current_queue_space s + word_of_nat (length p),
                               snd_unsent_len := snd_unsent_len s + word_of_nat (length p),
                               snd_unsent := snd_unsent s @ [p]\<rparr>\<rparr>;
             (cs, t2) = can_send t1;
             t3 = (if cs > 0 then tcb_output t2 else t2)
         in Inr (wait_send_available t3)))"

text \<open>\<open>close\<close> waits for all data to be acknowledged; its continuation is \<open>close_then\<close>.\<close>

definition close_then :: "tcp_env \<Rightarrow> tcb \<Rightarrow> tcb result" where
  "close_then e t =
     (let t1 = t\<lparr>t_snd := (t_snd t)\<lparr>snd_closed := True\<rparr>\<rparr>;
          t2 = (if in_state t1 {CLOSE_WAIT} then t1\<lparr>t_state := LAST_ACK\<rparr>
                else if in_state t1 {ESTABLISHED} then t1\<lparr>t_state := FIN_WAIT_1\<rparr> else t1)
      in andThen (output_one e False t2) (\<lambda>t3. Inr (tcb_output t3)))"

definition tcb_close :: "tcp_env \<Rightarrow> tcb \<Rightarrow> tcb result" where
  "tcb_close e t =
     (if in_state t {CLOSED} \<or> snd_closed (t_snd t) then Inr t
      else (let (ready, t1) = wait_for_all_data_acked t
            in if ready then close_then e t1 else Inr t1))"

definition shutdown_connect :: "tcp_env \<Rightarrow> tcb \<Rightarrow> tcb result" where
  "shutdown_connect e t =
     (if syn_needs_on t then Inr (cleanup (emit (Connect_failed tcp_refused_error) t))
      else tcb_close e (abort_reader t))"

end
