(* ===== verification/TcbInput.thy ===== *)
theory TcbInput
  imports TcbOutput
begin

text \<open>
  The receiving side of a connection (\<open>network/tcp.hh\<close>): the handlers of an incoming segment in
  the LISTEN and SYN_SENT states and in all others. The long handler of the other states is
  composed of the numbered steps of its source; \<open>flow\<close> says whether a step returns from the
  handler or goes on, and carries the local \<open>do_output_data\<close>.
\<close>

datatype flow = Return tcb | Continue bool tcb

definition then_flow :: "flow result \<Rightarrow> (bool \<Rightarrow> tcb \<Rightarrow> flow result) \<Rightarrow> flow result" where
  "then_flow m k =
     andThen m (\<lambda>fl. case fl of Return t \<Rightarrow> Inr (Return t) | Continue d t \<Rightarrow> k d t)"

subsection \<open>LISTEN and SYN_SENT\<close>

definition option_memory :: "tcp_env \<Rightarrow> tcp_hdr \<Rightarrow> bytes \<Rightarrow> bytes" where
  "option_memory e th p = drop tcp_hdr_len (take (unat (data_offset th) * 4) p) @ e_after e"

definition input_handle_listen_state :: "tcp_env \<Rightarrow> tcp_hdr \<Rightarrow> bytes \<Rightarrow> tcb \<Rightarrow> tcb result" where
  "input_handle_listen_state e th p t =
     andThen (v_trim_front p (unat (data_offset th) * 4)) (\<lambda>_.
       (let t1 = do_setup_isn e
              (t\<lparr>t_rcv := (t_rcv t)\<lparr>rcv_next := seq_add (th_seq th) 1, rcv_initial := th_seq th\<rparr>\<rparr>);
            t2 = t1\<lparr>t_rcv := (t_rcv t1)\<lparr>rcv_urgent := rcv_next (t_rcv t1)\<rparr>\<rparr>
        in andThen (init_from_options e th (option_memory e th p)
                      (unat (data_offset th) * 4 - tcp_hdr_len) t2)
             (\<lambda>t3. Inr (do_syn_received e t3))))"

definition syn_sent_syn :: "tcp_env \<Rightarrow> tcp_hdr \<Rightarrow> bytes \<Rightarrow> tcb \<Rightarrow> tcb result" where
  "syn_sent_syn e th p t =
     (let t1 = t\<lparr>t_rcv := (t_rcv t)\<lparr>rcv_next := seq_add (th_seq th) 1, rcv_initial := th_seq th\<rparr>\<rparr>;
          t2 = (if f_ack th then t1\<lparr>t_snd := (t_snd t1)\<lparr>snd_unacknowledged := th_ack th\<rparr>\<rparr> else t1)
      in if snd_initial (t_snd t2) < snd_unacknowledged (t_snd t2) then
           andThen (init_from_options e th (option_memory e th p)
                      (unat (data_offset th) * 4 - tcp_hdr_len) t2)
             (\<lambda>t3. Inr (tcb_output (do_established e t3)))
         else Inr (do_syn_received e t2))"

definition input_handle_syn_sent_state :: "tcp_env \<Rightarrow> tcp_hdr \<Rightarrow> bytes \<Rightarrow> tcb \<Rightarrow> tcb result" where
  "input_handle_syn_sent_state e th p t =
     andThen (v_trim_front p (unat (data_offset th) * 4)) (\<lambda>_.
       (let s = t_snd t; seg_ack = th_ack th;
            acceptable = f_ack th \<and> snd_unacknowledged s \<le> seg_ack \<and> seg_ack \<le> snd_next s
        in if f_ack th \<and> (seg_ack \<le> snd_initial s \<or> snd_next s < seg_ack)
           then Inr (emit (Respond_with_reset th) t)
           else if f_rst th then Inr (if acceptable then do_reset t else t)
           else if f_syn th then syn_sent_syn e th p t
           else Inr t))"

subsection \<open>Processing an acknowledgement\<close>

definition update_window :: "tcp_env \<Rightarrow> tcp_hdr \<Rightarrow> tcp_seq \<Rightarrow> tcp_seq \<Rightarrow> tcb \<Rightarrow> tcb result" where
  "update_window e th seg_seq seg_ack t =
     andThen (shl32 (ucast (th_window th)) (snd_window_scale (t_snd t))) (\<lambda>w.
       (let t1 = t\<lparr>t_snd := (t_snd t)\<lparr>snd_window := w, snd_wl1 := seg_seq, snd_wl2 := seg_ack,
                                     snd_zero_window_probing_out := 0\<rparr>\<rparr>
        in if w = 0 then Inr (start_persist_timer (e_now e) (t1\<lparr>t_persist_time_out := t_rto t1\<rparr>))
           else Inr (stop_persist_timer t1)))"

definition set_retransmit_timer :: "tcp_env \<Rightarrow> tcb \<Rightarrow> tcb" where
  "set_retransmit_timer e t =
     (if snd_data (t_snd t) = [] then signal_all_data_acked (stop_retransmit_timer t)
      else start_retransmit_timer (e_now e) t)"

definition in_recovery_ack :: "tcp_env \<Rightarrow> tcp_seq \<Rightarrow> u32 \<Rightarrow> tcb \<Rightarrow> tcb result" where
  "in_recovery_ack e seg_ack acked_bytes t =
     (let s = t_snd t; smss = ucast (snd_mss s) :: u32
      in if snd_recover s < seg_ack then
           Inr (set_retransmit_timer e (exit_fast_recovery
             (t\<lparr>t_snd := s\<lparr>snd_cwnd := min (snd_ssthresh s)
                              (max (flight_size (snd_data s)) smss + smss)\<rparr>\<rparr>)))
         else
           andThen (fast_retransmit e t) (\<lambda>t1.
             (let s1 = t_snd t1;
                  c1 = snd_cwnd s1 - acked_bytes;
                  c2 = (if acked_bytes \<ge> smss then c1 + smss else c1);
                  t2 = t1\<lparr>t_snd := s1\<lparr>snd_cwnd := c2, snd_partial_ack := snd_partial_ack s1 + 1\<rparr>\<rparr>
              in Inr (if snd_partial_ack (t_snd t2) = 1
                      then start_retransmit_timer (e_now e) t2 else t2))))"

definition ack_new_data :: "tcp_env \<Rightarrow> tcp_hdr \<Rightarrow> tcp_seq \<Rightarrow> tcp_seq \<Rightarrow> tcb \<Rightarrow> tcb result" where
  "ack_new_data e th seg_seq seg_ack t =
     andThen (data_segment_acked e seg_ack t) (\<lambda>(acked_bytes, t1).
       andThen
         (if snd_wl1 (t_snd t1) < seg_seq \<or>
             (snd_wl1 (t_snd t1) = seg_seq \<and> snd_wl2 (t_snd t1) \<le> seg_ack)
          then update_window e th seg_seq seg_ack t1 else Inr t1)
         (\<lambda>t2. if snd_dupacks (t_snd t2) \<ge> 3 then in_recovery_ack e seg_ack acked_bytes t2
               else Inr (set_retransmit_timer e (exit_fast_recovery t2))))"

definition ack_duplicate :: "tcp_env \<Rightarrow> tcp_seq \<Rightarrow> tcb \<Rightarrow> (bool \<times> tcb) result" where
  "ack_duplicate e seg_ack t =
     (let s = (t_snd t)\<lparr>snd_dupacks := snd_dupacks (t_snd t) + 1\<rparr>;
          t1 = t\<lparr>t_snd := s\<rparr>;
          smss = ucast (snd_mss s) :: u32
      in if snd_dupacks s = 1 \<or> snd_dupacks s = 2 then Inr (True, t1)
         else if snd_dupacks s = 3 then
           andThen
             (if snd_recover s < seq_subtract seg_ack 1 then
                fast_retransmit e (t1\<lparr>t_snd := s\<lparr>snd_recover := seq_subtract (snd_next s) 1,
                  snd_ssthresh := max ((flight_size (snd_data s) - snd_limited_transfer s) div 2) (2 * smss)\<rparr>\<rparr>)
              else Inr t1)
             (\<lambda>t2. Inr (False, t2\<lparr>t_snd := (t_snd t2)\<lparr>snd_cwnd := snd_ssthresh (t_snd t2) + 3 * smss\<rparr>\<rparr>))
         else if snd_dupacks s > 3 then Inr (True, t1\<lparr>t_snd := s\<lparr>snd_cwnd := snd_cwnd s + smss\<rparr>\<rparr>)
         else Inr (False, t1))"

text \<open>ESTABLISHED and CLOSE_WAIT.\<close>

definition ack_established ::
  "tcp_env \<Rightarrow> tcp_hdr \<Rightarrow> tcp_seq \<Rightarrow> tcp_seq \<Rightarrow> u32 \<Rightarrow> tcb \<Rightarrow> flow result" where
  "ack_established e th seg_seq seg_ack seg_len t =
     (let s = t_snd t;
          packets_out = seq_diff (snd_next s) (snd_unacknowledged s) - uint (snd_zero_window_probing_out s)
      in if snd_unacknowledged s < seg_ack \<and> seg_ack \<le> snd_next s then
           andThen (ack_new_data e th seg_seq seg_ack t) (\<lambda>t1. Inr (Continue True t1))
         else
           andThen
             (if packets_out > 0 \<and> snd_data s \<noteq> [] \<and> seg_len = 0 \<and> \<not> f_fin th \<and> \<not> f_syn th \<and>
                 th_ack th = snd_unacknowledged s
              then andThen (shl32 (ucast (th_window th)) (snd_window_scale s)) (\<lambda>w. Inr (w = snd_window s))
              else Inr False)
             (\<lambda>dup.
               if dup then andThen (ack_duplicate e seg_ack t) (\<lambda>(d, t1). Inr (Continue d t1))
               else if snd_next s < seg_ack then Inr (Return (tcb_output t))
               else if snd_window s = 0 \<and> th_window th > 0 then
                 andThen (update_window e th seg_seq seg_ack t) (\<lambda>t1. Inr (Continue True t1))
               else Inr (Continue False t)))"

text \<open>The states in which our FIN may be acknowledged.\<close>

definition ack_fin_states :: "tcp_seq \<Rightarrow> bool \<Rightarrow> tcb \<Rightarrow> flow" where
  "ack_fin_states seg_ack d t =
     (let t1 = (if in_state t {FIN_WAIT_1} \<and> seg_ack = seq_add (snd_next (t_snd t)) 1
                then do_local_fin_acked (t\<lparr>t_state := FIN_WAIT_2\<rparr>) else t)
      in if in_state t1 {CLOSING} then
           (if seg_ack = seq_add (snd_next (t_snd t1)) 1
            then Return (do_time_wait (do_local_fin_acked t1)) else Return t1)
         else if in_state t1 {LAST_ACK} \<and> seg_ack = seq_add (snd_next (t_snd t1)) 1
         then Return (do_closed (do_local_fin_acked t1))
         else Continue d t1)"

definition process_ack ::
  "tcp_env \<Rightarrow> tcp_hdr \<Rightarrow> tcp_seq \<Rightarrow> tcp_seq \<Rightarrow> u32 \<Rightarrow> tcb \<Rightarrow> flow result" where
  "process_ack e th seg_seq seg_ack seg_len t =
     (if \<not> f_ack th then Inr (Return t)
      else
        (let s = t_snd t;
             syn_acked = snd_unacknowledged s \<le> seg_ack \<and> seg_ack \<le> snd_next s
         in if in_state t {SYN_RECEIVED} \<and> \<not> syn_acked
            then Inr (Return (emit (Respond_with_reset th) t))
            else
              (let t1 = (if in_state t {SYN_RECEIVED}
                         then emit Add_connected_tcb (do_established e t) else t)
               in then_flow
                    (if in_state t1 {ESTABLISHED, CLOSE_WAIT}
                     then ack_established e th seg_seq seg_ack seg_len t1 else Inr (Continue False t1))
                    (\<lambda>d t2. Inr (ack_fin_states seg_ack d t2)))))"

subsection \<open>Text and FIN\<close>

text \<open>Step 4.7; the result carries the local \<open>do_output\<close>.\<close>

definition process_text :: "tcp_env \<Rightarrow> bytes \<Rightarrow> u32 \<Rightarrow> tcb \<Rightarrow> flow result" where
  "process_text e p seg_len t =
     (if in_state t {ESTABLISHED, FIN_WAIT_1, FIN_WAIT_2} then
        if p \<noteq> [] then
          (let r = t_rcv t;
               t1 = t\<lparr>t_rcv := r\<lparr>rcv_data_size := rcv_data_size r + word_of_nat (length p),
                                 rcv_data := rcv_data r @ [p],
                                 rcv_next := seq_add (rcv_next r) seg_len\<rparr>\<rparr>
           in andThen (merge_out_of_order t1) (\<lambda>(merged, t2).
                andThen (get_modified_receive_window_size t2) (\<lambda>w.
                  (let t3 = signal_data_received (t2\<lparr>t_rcv := (t_rcv t2)\<lparr>rcv_window := w\<rparr>\<rparr>)
                   in if merged then Inr (Continue True t3)
                      else (let (ack, t4) = should_send_ack e (ucast seg_len) t3
                            in Inr (Continue ack t4))))))
        else Inr (Continue False t)
      else if in_state t {CLOSE_WAIT, CLOSING, LAST_ACK, TIME_WAIT} then Inr (Return t)
      else Inr (Continue False t))"

definition process_fin :: "tcp_hdr \<Rightarrow> tcp_seq \<Rightarrow> u32 \<Rightarrow> bool \<Rightarrow> tcb \<Rightarrow> flow" where
  "process_fin th seg_seq seg_len do_output t =
     (if \<not> f_fin th then Continue do_output t
      else if in_state t {CLOSED, LISTEN, SYN_SENT} then Return t
      else
        (let fin_seq = seq_add seg_seq seg_len
         in if fin_seq = rcv_next (t_rcv t) then
              (let t1 = signal_data_received (t\<lparr>t_rcv := (t_rcv t)\<lparr>rcv_next := seq_add fin_seq 1\<rparr>\<rparr>);
                   t2 = tcb_output (clear_delayed_ack t1);
                   t3 = (if in_state t2 {SYN_RECEIVED, ESTABLISHED} then t2\<lparr>t_state := CLOSE_WAIT\<rparr> else t2);
                   t4 = (if in_state t3 {FIN_WAIT_1} then t3\<lparr>t_state := CLOSING\<rparr> else t3)
               in if in_state t4 {FIN_WAIT_2} then Return (do_time_wait t4) else Continue False t4)
            else Continue do_output t))"

definition finish_input :: "bool \<Rightarrow> bool \<Rightarrow> tcb \<Rightarrow> tcb" where
  "finish_input do_output do_output_data t =
     (if do_output then tcb_output (clear_delayed_ack t)
      else if do_output_data then
        (let (cs, t1) = can_send t
         in if cs \<noteq> 0 then tcb_output (clear_delayed_ack t1) else t1)
      else t)"

subsection \<open>All other states\<close>

definition process_rst_syn :: "tcp_hdr \<Rightarrow> tcb \<Rightarrow> flow" where
  "process_rst_syn th t =
     (if f_rst th \<and> in_state t {SYN_RECEIVED}
      then Return (do_reset (emit (Connect_failed tcp_refused_error) t))
      else if f_rst th \<and> in_state t {ESTABLISHED, FIN_WAIT_1, FIN_WAIT_2, CLOSE_WAIT} then Return (do_reset t)
      else if f_rst th \<and> in_state t {CLOSING, LAST_ACK, TIME_WAIT} then Return (do_closed t)
      else if f_syn th then Return (do_reset (emit (Respond_with_reset th) t))
      else Continue False t)"

text \<open>A segment that begins at \<open>RCV.NXT\<close>: steps 4.2 to 4.8.\<close>

definition input_in_order ::
  "tcp_env \<Rightarrow> tcp_hdr \<Rightarrow> tcp_seq \<Rightarrow> bytes \<Rightarrow> u32 \<Rightarrow> tcb \<Rightarrow> flow result" where
  "input_in_order e th seg_seq p seg_len t =
     then_flow (Inr (process_rst_syn th t)) (\<lambda>_ t1.
     then_flow (process_ack e th seg_seq (th_ack th) seg_len t1) (\<lambda>do_output_data t2.
     then_flow (process_text e p seg_len t2) (\<lambda>do_output t3.
     then_flow (Inr (process_fin th seg_seq seg_len do_output t3)) (\<lambda>do_output' t4.
       Inr (Return (finish_input do_output' do_output_data t4))))))"

definition flow_end :: "flow \<Rightarrow> tcb" where
  "flow_end fl = (case fl of Return t \<Rightarrow> t | Continue _ t \<Rightarrow> t)"

definition input_handle_other_state :: "tcp_env \<Rightarrow> tcp_hdr \<Rightarrow> bytes \<Rightarrow> tcb \<Rightarrow> tcb result" where
  "input_handle_other_state e th pkt t =
     andThen (v_trim_front pkt (unat (data_offset th) * 4)) (\<lambda>p.
       (let seg_seq = th_seq th;
            seg_len = word_of_nat (length p) :: u32;
            nxt = rcv_next (t_rcv t)
        in if \<not> segment_acceptable t seg_seq seg_len then Inr (tcb_output t)
           else
             (let dup = (if seg_seq < nxt then min (word_of_int (seq_diff nxt seg_seq)) seg_len else 0)
              in andThen (if seg_seq < nxt then v_trim_front p (unat dup) else Inr p) (\<lambda>p1.
                   (let seg_len1 = seg_len - dup;
                        seg_seq1 = seq_add seg_seq dup
                    in if seg_seq1 \<noteq> nxt then
                         andThen (insert_out_of_order seg_seq1 p1 t) (\<lambda>t1. Inr (tcb_output t1))
                       else
                         andThen (input_in_order e th seg_seq1 p1 seg_len1 t) (\<lambda>fl.
                           Inr (flow_end fl)))))))"

end
