(* ===== verification/TcpLayer.thy ===== *)
theory TcpLayer
  imports L4 TcbInput TcbOutput
begin

text \<open>
  The TCP protocol object (\<open>class tcp\<close> in \<open>network/tcp.hh\<close>): the table of connections and
  listeners, dispatch of received segments, resets for segments that belong to no connection, the
  polling of connections for packets, and choosing a port to connect from.

  Connections are shared objects: a store of control blocks indexed by a number, to which the
  table, the polling list and the connections of the user refer. An operation on a control block
  leaves what it asks of its surroundings in \<open>t_events\<close>; \<open>tcb_apply\<close> runs an operation and then
  carries these requests out, in order. Continuations are kept with what they wait for:
  \<open>tl_poll_waiting\<close> for an address, \<open>tl_closing\<close> for a turn of the reactor after all data was
  acknowledged. Promises to the user are a log.
\<close>

subsection \<open>State\<close>

record 'q listener =
  ls_port :: u16
  ls_q :: 'q
  ls_pending :: u64

record ('q, 's) tcp_layer =
  tl_store :: "nat \<Rightarrow> tcb"
  tl_next :: nat
  tl_tcbs :: "connid \<Rightarrow> nat option"
  tl_listeners :: "nat \<Rightarrow> 'q listener"
  tl_next_listener :: nat
  tl_listening :: "u16 \<Rightarrow> nat option"
  tl_poll_tcbs :: "(nat \<times> ethernet_address) list"
  tl_poll_waiting :: "(nat \<times> nat) list"
  tl_tx :: l4_tx
  tl_queue_space :: 's
  tl_tcb_polled :: u32
  tl_closing :: "nat list"
  tl_dropped :: "nat list"
  tl_promises :: "(nat \<times> event) list"

type_synonym ('q, 's) world = "ipv4 \<times> ('q, 's) tcp_layer"

definition tcp_layer_init :: "'s sem_ops \<Rightarrow> (nat \<Rightarrow> tcb) \<Rightarrow> (nat \<Rightarrow> 'q listener) \<Rightarrow> ('q, 's) tcp_layer" where
  "tcp_layer_init ops store ls =
     \<lparr>tl_store = store, tl_next = 0, tl_tcbs = Map.empty, tl_listeners = ls, tl_next_listener = 0,
      tl_listening = Map.empty, tl_poll_tcbs = [], tl_poll_waiting = [],
      tl_tx = \<lparr>tx_packetq = [], tx_waiting = []\<rparr>, tl_queue_space = sem_new ops 212992,
      tl_tcb_polled = 0, tl_closing = [], tl_dropped = [], tl_promises = []\<rparr>"

definition set_tcb :: "nat \<Rightarrow> tcb \<Rightarrow> ('q, 's) tcp_layer \<Rightarrow> ('q, 's) tcp_layer" where
  "set_tcb i t ly = ly\<lparr>tl_store := (tl_store ly)(i := t)\<rparr>"

subsection \<open>Packets that belong to no connection\<close>

definition send_packet_without_tcb ::
  "'s sem_ops \<Rightarrow> be_ops \<Rightarrow> ipv4_address \<Rightarrow> bytes \<Rightarrow> offload_info \<Rightarrow> ('q, 's) world \<Rightarrow> ('q, 's) world" where
  "send_packet_without_tcb ops be to p oi = (\<lambda>(st, ly).
     case sem_try_wait ops (length p) (tl_queue_space ly) of
       None \<Rightarrow> (st, ly)
     | Some s \<Rightarrow>
         (let (f, st1) = get_l2_dst_address be to st;
              pk = \<lparr>l4_to = to, l4_p = p, l4_oi = oi, l4_e_dst = ethernet_address_zero, l4_proto_num = tcp_num\<rparr>
          in (st1, ly\<lparr>tl_queue_space := s, tl_tx := then_emplace f pk (tl_tx ly)\<rparr>)))"

definition reset_header :: "tcp_hdr \<Rightarrow> tcp_hdr" where
  "reset_header rth =
     \<lparr>src_port = dst_port rth, dst_port = src_port rth,
      th_seq = (if f_ack rth then th_ack rth else make_seq 0),
      th_ack = (if f_syn rth then seq_add (th_seq rth) 1 else make_seq 0),
      rsvd1 = 0, data_offset = 5, f_fin = False, f_syn = False, f_rst = True, f_psh = False,
      f_ack = f_syn rth, f_urg = False, rsvd2 = 0, th_window = 0, th_checksum = 0, th_urgent = 0\<rparr>"

definition reset_packet ::
  "tcp_env \<Rightarrow> tcp_hdr \<Rightarrow> ipv4_address \<Rightarrow> ipv4_address \<Rightarrow> (bytes \<times> offload_info) result" where
  "reset_packet e rth local foreign =
     (let th = tcp_hdr_write (e_be e) (reset_header rth);
          cs = tcp_pseudo_header_checksum checksummer_init local foreign 20
      in andThen (if tx_csum_l4_offload (e_hw e) then Inr (NOT (checksummer_get cs), True)
                  else andThen (sum_fragments [th] cs) (\<lambda>cs1. Inr (checksummer_get cs1, False)))
           (\<lambda>(c, needs_csum). Inr (write_nbo_checksum th c,
              offload_info_init\<lparr>oi_needs_csum := needs_csum, oi_protocol := tcp_num, oi_tcp_hdr_len := 20\<rparr>)))"

definition tcp_respond_with_reset ::
  "'s sem_ops \<Rightarrow> tcp_env \<Rightarrow> tcp_hdr \<Rightarrow> ipv4_address \<Rightarrow> ipv4_address \<Rightarrow> ('q, 's) world \<Rightarrow> ('q, 's) world result" where
  "tcp_respond_with_reset ops e rth local foreign w =
     (if f_rst rth then Inr w
      else andThen (reset_packet e rth local foreign) (\<lambda>(p, oi).
             Inr (send_packet_without_tcb ops (e_be e) foreign p oi w)))"

definition tcp_resolved :: "nat \<Rightarrow> ethernet_address option \<Rightarrow> ('q, 's) tcp_layer \<Rightarrow> ('q, 's) tcp_layer" where
  "tcp_resolved n r ly = ly\<lparr>tl_tx := tx_complete n r (tl_tx ly)\<rparr>"

subsection \<open>Carrying out what a connection asks for\<close>

definition poll_tcb :: "tcp_env \<Rightarrow> nat \<Rightarrow> ('q, 's) world \<Rightarrow> ('q, 's) world" where
  "poll_tcb e i = (\<lambda>(st, ly).
     let (f, st1) = get_l2_dst_address (e_be e) (foreign_ip (t_id (tl_store ly i))) st
     in (st1,
         case f of
           Arp_ready dst \<Rightarrow> ly\<lparr>tl_poll_tcbs := tl_poll_tcbs ly @ [(i, dst)]\<rparr>
         | Arp_waiting n \<Rightarrow> ly\<lparr>tl_poll_waiting := tl_poll_waiting ly @ [(n, i)]\<rparr>
         | Arp_queue_full \<Rightarrow> set_tcb i (output_arp_queue_full e (tl_store ly i)) ly))"

text \<open>A connection the listener's queue has no room for is destroyed, which closes it
  (\<open>connection_destroyed\<close>).\<close>

definition add_connected_tcb ::
  "(nat, 'q) queue_ops \<Rightarrow> nat \<Rightarrow> u16 \<Rightarrow> ('q, 's) tcp_layer \<Rightarrow> ('q, 's) tcp_layer" where
  "add_connected_tcb qo i port ly =
     (case tl_listening ly port of
        None \<Rightarrow> ly
      | Some l \<Rightarrow>
          (let L = tl_listeners ly l;
               (pushed, q) = q_push qo i (ls_q L)
           in ly\<lparr>tl_listeners := (tl_listeners ly)(l := L\<lparr>ls_q := q, ls_pending := ls_pending L - 1\<rparr>),
                 tl_dropped := (if pushed then tl_dropped ly else tl_dropped ly @ [i])\<rparr>))"

definition handle_event ::
  "'s sem_ops \<Rightarrow> (nat, 'q) queue_ops \<Rightarrow> tcp_env \<Rightarrow> nat \<Rightarrow> event \<Rightarrow> ('q, 's) world \<Rightarrow> ('q, 's) world result" where
  "handle_event ops qo e i ev w =
     (let (st, ly) = w; cid = t_id (tl_store ly i)
      in case ev of
           Poll_tcb \<Rightarrow> Inr (poll_tcb e i w)
         | Respond_with_reset rth \<Rightarrow> tcp_respond_with_reset ops e rth (local_ip cid) (foreign_ip cid) w
         | Removed_from_tcbs \<Rightarrow> Inr (st, ly\<lparr>tl_tcbs := (tl_tcbs ly)(cid := None)\<rparr>)
         | Add_connected_tcb \<Rightarrow> Inr (st, add_connected_tcb qo i (local_port cid) ly)
         | All_data_acked \<Rightarrow> Inr (st, ly\<lparr>tl_closing := tl_closing ly @ [i]\<rparr>)
         | _ \<Rightarrow> Inr (st, ly\<lparr>tl_promises := tl_promises ly @ [(i, ev)]\<rparr>))"

fun handle_events ::
  "'s sem_ops \<Rightarrow> (nat, 'q) queue_ops \<Rightarrow> tcp_env \<Rightarrow> nat \<Rightarrow> event list \<Rightarrow> ('q, 's) world \<Rightarrow> ('q, 's) world result" where
  "handle_events ops qo e i [] w = Inr w"
| "handle_events ops qo e i (ev # evs) w =
     andThen (handle_event ops qo e i ev w) (handle_events ops qo e i evs)"

text \<open>The control block after an operation, with its requests taken out and carried out.\<close>

definition tcb_after ::
  "'s sem_ops \<Rightarrow> (nat, 'q) queue_ops \<Rightarrow> tcp_env \<Rightarrow> nat \<Rightarrow> tcb \<Rightarrow> ('q, 's) world \<Rightarrow> ('q, 's) world result" where
  "tcb_after ops qo e i t = (\<lambda>(st, ly).
     handle_events ops qo e i (t_events t) (st, set_tcb i (t\<lparr>t_events := []\<rparr>) ly))"

definition tcb_apply ::
  "'s sem_ops \<Rightarrow> (nat, 'q) queue_ops \<Rightarrow> tcp_env \<Rightarrow> nat \<Rightarrow> (tcb \<Rightarrow> tcb result) \<Rightarrow> ('q, 's) world \<Rightarrow>
   ('q, 's) world result" where
  "tcb_apply ops qo e i op = (\<lambda>(st, ly).
     andThen (op (tl_store ly i)) (\<lambda>t. tcb_after ops qo e i t (st, ly)))"

definition connection_destroyed ::
  "'s sem_ops \<Rightarrow> (nat, 'q) queue_ops \<Rightarrow> tcp_env \<Rightarrow> nat \<Rightarrow> ('q, 's) world \<Rightarrow> ('q, 's) world result" where
  "connection_destroyed ops qo e i = tcb_apply ops qo e i (\<lambda>t. tcb_close e (abort_reader t))"

text \<open>The promises of addresses that connections wait for.\<close>

definition poll_resolved :: "nat \<Rightarrow> ethernet_address \<Rightarrow> ('q, 's) tcp_layer \<Rightarrow> ('q, 's) tcp_layer" where
  "poll_resolved n dst ly =
     ly\<lparr>tl_poll_waiting := filter (\<lambda>w. fst w \<noteq> n) (tl_poll_waiting ly),
        tl_poll_tcbs := tl_poll_tcbs ly @
          map (\<lambda>w. (snd w, dst)) (filter (\<lambda>w. fst w = n) (tl_poll_waiting ly))\<rparr>"

definition poll_failed ::
  "'s sem_ops \<Rightarrow> (nat, 'q) queue_ops \<Rightarrow> tcp_env \<Rightarrow> nat \<Rightarrow> nat \<Rightarrow> ('q, 's) world \<Rightarrow> ('q, 's) world result" where
  "poll_failed ops qo e n i = (\<lambda>(st, ly).
     tcb_apply ops qo e i (\<lambda>t. Inr (output_arp_timeout t))
       (st, ly\<lparr>tl_poll_waiting := filter (\<lambda>w. w \<noteq> (n, i)) (tl_poll_waiting ly)\<rparr>))"

subsection \<open>Listeners\<close>

text \<open>\<open>emplace\<close> keeps an entry that is there; the destructor erases the entry of its port.\<close>

definition listen :: "(nat, 'q) queue_ops \<Rightarrow> u16 \<Rightarrow> nat \<Rightarrow> ('q, 's) tcp_layer \<Rightarrow> nat \<times> ('q, 's) tcp_layer" where
  "listen qo port queue_length ly =
     (let l = tl_next_listener ly
      in (l, ly\<lparr>tl_next_listener := l + 1,
                tl_listeners := (tl_listeners ly)(l := \<lparr>ls_port = port, ls_q = q_new qo queue_length, ls_pending = 0\<rparr>),
                tl_listening := (if tl_listening ly port = None then (tl_listening ly)(port \<mapsto> l) else tl_listening ly)\<rparr>))"

definition listener_move :: "nat \<Rightarrow> ('q, 's) tcp_layer \<Rightarrow> nat \<times> ('q, 's) tcp_layer" where
  "listener_move x ly =
     (let l = tl_next_listener ly; L = tl_listeners ly x
      in (l, ly\<lparr>tl_next_listener := l + 1,
                tl_listeners := (tl_listeners ly)(l := L\<lparr>ls_pending := 0\<rparr>, x := L\<lparr>ls_port := 0\<rparr>),
                tl_listening := (tl_listening ly)(ls_port L \<mapsto> l)\<rparr>))"

definition listener_destroyed :: "nat \<Rightarrow> ('q, 's) tcp_layer \<Rightarrow> ('q, 's) tcp_layer" where
  "listener_destroyed l ly =
     (let port = ls_port (tl_listeners ly l)
      in if port \<noteq> 0 then ly\<lparr>tl_listening := (tl_listening ly)(port := None)\<rparr> else ly)"

definition listener_full :: "(nat, 'q) queue_ops \<Rightarrow> 'q listener \<Rightarrow> bool" where
  "listener_full qo L \<longleftrightarrow> ls_pending L + word_of_nat (q_size qo (ls_q L)) \<ge> word_of_nat (q_max_size qo (ls_q L))"

definition accept :: "(nat, 'q) queue_ops \<Rightarrow> nat \<Rightarrow> ('q, 's) tcp_layer \<Rightarrow> nat option \<times> ('q, 's) tcp_layer" where
  "accept qo l ly =
     (let L = tl_listeners ly l
      in if q_size qo (ls_q L) = 0 then (None, ly)
         else (let (i, q) = q_pop qo (ls_q L)
               in (Some i, ly\<lparr>tl_listeners := (tl_listeners ly)(l := L\<lparr>ls_q := q\<rparr>)\<rparr>)))"

subsection \<open>A received segment\<close>

text \<open>The members a control block's constructor leaves alone are \<open>fresh\<close>.\<close>

type_synonym fresh = "send \<times> receive \<times> u16"

definition new_tcb :: "fresh \<Rightarrow> connid \<Rightarrow> ('q, 's) tcp_layer \<Rightarrow> nat \<times> ('q, 's) tcp_layer" where
  "new_tcb fresh cid ly =
     (let i = tl_next ly; (s0, r0, m0) = fresh
      in (i, (set_tcb i (tcb_new s0 r0 m0 cid) ly)\<lparr>tl_next := i + 1,
               tl_tcbs := (if tl_tcbs ly cid = None then (tl_tcbs ly)(cid \<mapsto> i) else tl_tcbs ly)\<rparr>))"

definition to_listener ::
  "'s sem_ops \<Rightarrow> (nat, 'q) queue_ops \<Rightarrow> tcp_env \<Rightarrow> fresh \<Rightarrow> tcp_hdr \<Rightarrow> bytes \<Rightarrow> connid \<Rightarrow> nat \<Rightarrow> ('q, 's) world \<Rightarrow>
   ('q, 's) world result" where
  "to_listener ops qo e fresh h p cid l = (\<lambda>(st, ly).
     if f_rst h then Inr (st, ly)
     else if f_ack h then tcp_respond_with_reset ops e h (local_ip cid) (foreign_ip cid) (st, ly)
     else if f_syn h then
       (let (i, ly1) = new_tcb fresh cid ly;
            L = tl_listeners ly1 l;
            ly2 = ly1\<lparr>tl_listeners := (tl_listeners ly1)(l := L\<lparr>ls_pending := ls_pending L + 1\<rparr>)\<rparr>
        in tcb_apply ops qo e i (input_handle_listen_state e h p) (st, ly2))
     else Inr (st, ly))"

definition tcp_dispatch ::
  "'s sem_ops \<Rightarrow> (nat, 'q) queue_ops \<Rightarrow> tcp_env \<Rightarrow> fresh \<Rightarrow> tcp_hdr \<Rightarrow> bytes \<Rightarrow> connid \<Rightarrow> ('q, 's) world \<Rightarrow>
   ('q, 's) world result" where
  "tcp_dispatch ops qo e fresh h p cid = (\<lambda>(st, ly).
     case tl_tcbs ly cid of
       None \<Rightarrow>
         (case tl_listening ly (local_port cid) of
            None \<Rightarrow> tcp_respond_with_reset ops e h (local_ip cid) (foreign_ip cid) (st, ly)
          | Some l \<Rightarrow>
              if listener_full qo (tl_listeners ly l)
              then tcp_respond_with_reset ops e h (local_ip cid) (foreign_ip cid) (st, ly)
              else to_listener ops qo e fresh h p cid l (st, ly))
     | Some i \<Rightarrow>
         if t_state (tl_store ly i) = SYN_SENT
         then tcb_apply ops qo e i (input_handle_syn_sent_state e h p) (st, ly)
         else tcb_apply ops qo e i (input_handle_other_state e h p) (st, ly))"

definition tcp_received ::
  "'s sem_ops \<Rightarrow> (nat, 'q) queue_ops \<Rightarrow> tcp_env \<Rightarrow> fresh \<Rightarrow> bytes \<Rightarrow> ipv4_address \<Rightarrow> ipv4_address \<Rightarrow>
   ('q, 's) world \<Rightarrow> ('q, 's) world result" where
  "tcp_received ops qo e fresh p from to w =
     (case v_get_header p 0 tcp_hdr_len of
        None \<Rightarrow> Inr w
      | Some th \<Rightarrow>
          if unat (drop_bit 4 (th ! 12)) * 4 < tcp_hdr_len then Inr w
          else
            andThen
              (if rx_csum_offload (e_hw e) then Inr True
               else andThen (sum_fragments [p] (tcp_pseudo_header_checksum checksummer_init from to
                      (word_of_nat (length p)))) (\<lambda>cs. Inr (checksummer_get cs = 0)))
              (\<lambda>csum_ok.
                 if \<not> csum_ok then Inr w
                 else
                   (let h = tcp_hdr_read (e_be e) th
                    in tcp_dispatch ops qo e fresh h p
                         \<lparr>local_ip = to, foreign_ip = from, local_port = dst_port h, foreign_port = src_port h\<rparr> w)))"

subsection \<open>Connecting\<close>

text \<open>The ports drawn are \<open>ports 0\<close>, \<open>ports 1\<close> and so on; the loop may go on for ever.\<close>

definition port_unsuitable ::
  "ip_env \<Rightarrow> nat \<Rightarrow> (connid \<Rightarrow> nat option) \<Rightarrow> connid \<Rightarrow> bool result" where
  "port_unsuitable ie hw_queues tcbs cid =
     (if hw_queues > 1 then
        andThen (connid_hash (ie_rss_key ie) cid) (\<lambda>hash.
          Inr (ie_hash2cpu ie hash \<noteq> ie_shard ie \<or> tcbs cid \<noteq> None))
      else Inr False)"

partial_function (option) pick_port ::
  "(connid \<Rightarrow> bool result) \<Rightarrow> (u16 \<Rightarrow> connid) \<Rightarrow> (nat \<Rightarrow> u16) \<Rightarrow> nat \<Rightarrow> connid result option" where
  "pick_port unsuitable cid ports k =
     (case unsuitable (cid (ports k)) of
        Inl er \<Rightarrow> Some (Inl er)
      | Inr again \<Rightarrow> if again then pick_port unsuitable cid ports (k + 1) else Some (Inr (cid (ports k))))"

definition tcp_connect ::
  "'s sem_ops \<Rightarrow> (nat, 'q) queue_ops \<Rightarrow> tcp_env \<Rightarrow> ip_env \<Rightarrow> nat \<Rightarrow> fresh \<Rightarrow> (nat \<Rightarrow> u16) \<Rightarrow>
   ipv4_address \<Rightarrow> u16 \<Rightarrow> ('q, 's) world \<Rightarrow> (nat \<times> ('q, 's) world) result option" where
  "tcp_connect ops qo e ie hw_queues fresh ports dst_ip port = (\<lambda>(st, ly).
     map_option (\<lambda>r. andThen r (\<lambda>cid.
         let (i, ly1) = new_tcb fresh cid ly
         in andThen (tcb_apply ops qo e i (connect e) (st, ly1)) (\<lambda>w. Inr (i, w))))
       (pick_port (port_unsuitable ie hw_queues (tl_tcbs ly))
          (\<lambda>src. \<lparr>local_ip = host_address st, foreign_ip = dst_ip, local_port = src, foreign_port = port\<rparr>)
          ports 0))"

subsection \<open>The packet provider\<close>

fun poll_loop ::
  "'s sem_ops \<Rightarrow> (nat, 'q) queue_ops \<Rightarrow> tcp_env \<Rightarrow> nat \<Rightarrow> ('q, 's) world \<Rightarrow> (l4packet option \<times> ('q, 's) world) result" where
  "poll_loop ops qo e 0 w = Inr (None, w)"
| "poll_loop ops qo e (Suc c) w =
     (let (st, ly) = w
      in case tl_poll_tcbs ly of
           [] \<Rightarrow> Inl NullDeref
         | (i, dst) # rest \<Rightarrow>
             andThen (get_packet e (tl_store ly i)) (\<lambda>(l4p, t).
             andThen (tcb_after ops qo e i t
                        (st, ly\<lparr>tl_poll_tcbs := rest, tl_tcb_polled := tl_tcb_polled ly + 1\<rparr>)) (\<lambda>w1.
               case l4p of
                 Some p \<Rightarrow> Inr (Some (p\<lparr>l4_e_dst := dst\<rparr>), w1)
               | None \<Rightarrow> poll_loop ops qo e c w1)))"

definition tcp_get_packet ::
  "'s sem_ops \<Rightarrow> (nat, 'q) queue_ops \<Rightarrow> tcp_env \<Rightarrow> ('q, 's) world \<Rightarrow> (l4packet option \<times> ('q, 's) world) result" where
  "tcp_get_packet ops qo e w =
     (let (st, ly) = w; c = length (tl_poll_tcbs ly)
      in case tx_packetq (tl_tx ly) of
           l4p # q \<Rightarrow>
             if tl_tcb_polled ly mod 128 = 0 \<or> c = 0
             then Inr (Some l4p, (st, ly\<lparr>tl_tx := (tl_tx ly)\<lparr>tx_packetq := q\<rparr>,
                    tl_queue_space := snd (sem_signal ops (length (l4_p l4p)) (tl_queue_space ly))\<rparr>))
             else poll_loop ops qo e c w
         | [] \<Rightarrow> poll_loop ops qo e c w)"

end
