(* ===== verification/TcbSend.thy ===== *)
theory TcbSend
  imports TcbInput
begin

text \<open>
  Correctness of the sending side: what \<open>can_send\<close> admits, how the byte stream is cut, what the
  queued segment contains, the retransmission timeout and the acknowledgement of data.
\<close>

subsection \<open>Queued data\<close>

definition unsent_ok :: "tcb \<Rightarrow> bool" where
  "unsent_ok t \<longleftrightarrow> unat (snd_unsent_len (t_snd t)) = length (concat (snd_unsent (t_snd t)))"

lemma unat_of_nat_u32: "n < 4294967296 \<Longrightarrow> unat (word_of_nat n :: u32) = n"
  by (simp add: unsigned_of_nat take_bit_eq_mod)

lemma of_nat_le_u32: "n < 4294967296 \<Longrightarrow> (word_of_nat n :: u32) \<le> x \<longleftrightarrow> n \<le> unat x"
  by (simp add: word_le_nat_alt unat_of_nat_u32)

lemma of_nat_gt_u32: "n < 4294967296 \<Longrightarrow> x < (word_of_nat n :: u32) \<longleftrightarrow> unat x < n"
  by (simp add: word_less_nat_alt unat_of_nat_u32)

lemma unat_diff_of_nat: "n \<le> unat x \<Longrightarrow> unat (x - word_of_nat n :: u32) = unat x - n"
proof -
  assume n: "n \<le> unat x"
  then have "n < 4294967296" using u32_less [of x] by linarith
  with n show ?thesis by (simp add: unat_sub word_le_nat_alt unat_of_nat_u32)
qed

lemma take_whole_ok:
  assumes "take_whole room p qs = (p', room', rest)" "length (concat qs) < 4294967296"
  shows "p' @ concat rest = p @ concat qs \<and> length p' + unat room' = length p + unat room \<and>
    (case rest of [] \<Rightarrow> True | q # _ \<Rightarrow> unat room' < length q \<and> length q < 4294967296)"
  using assms
proof (induction room p qs rule: take_whole.induct)
  case (1 room p)
  then show ?case by simp
next
  case (2 room p q qs)
  have q: "length q < 4294967296" "length (concat qs) < 4294967296" using "2.prems"(2) by auto
  show ?case
  proof (cases "word_of_nat (length q) \<le> room")
    case True
    then have "length q \<le> unat room" using q by (simp add: of_nat_le_u32)
    then show ?thesis
      using "2.IH" [OF True _ q(2)] "2.prems"(1) True by (auto simp: unat_diff_of_nat)
  next
    case False
    then show ?thesis using "2.prems"(1) q by (auto simp: of_nat_le_u32 not_le)
  qed
qed

text \<open>What \<open>can_send\<close> may change.\<close>

lemma can_send_frame:
  assumes "can_send t = (x, t')"
  shows "\<exists>lt. t' = t\<lparr>t_snd := (t_snd t)\<lparr>snd_limited_transfer := lt\<rparr>\<rparr>"
proof -
  have r: "\<exists>lt. u = u\<lparr>t_snd := (t_snd u)\<lparr>snd_limited_transfer := lt\<rparr>\<rparr>" for u :: tcb
    by (rule exI [of _ "snd_limited_transfer (t_snd u)"]) simp
  show ?thesis
    using assms unfolding can_send_def Let_def by (auto split: if_splits intro: r)
qed

lemma can_send_bounds:
  assumes "\<not> snd_window_probe (t_snd t)"
  defines "s \<equiv> t_snd t"
  shows "fst (can_send t) \<le> snd_unsent_len s"
    "fst (can_send t) > 0 \<Longrightarrow>
      unat (raw (snd_next s) - raw (snd_unacknowledged s)) + unat (fst (can_send t)) \<le> unat (snd_window s)"
    "fst (can_send t) \<le> snd_cwnd s"
proof -
  let ?used = "raw (snd_next s) - raw (snd_unacknowledged s)"
  let ?x = "min (snd_cwnd s) (min (snd_window s - ?used) (snd_unsent_len s))"
  have used: "word_of_int (seq_diff (snd_next s) (snd_unacknowledged s)) = ?used"
    by (simp add: seq_diff_def)
  have le: "fst (can_send t) \<le> ?x \<and> ?used \<le> snd_window s \<or> fst (can_send t) = 0"
    using assms(1) unfolding can_send_def Let_def s_def [symmetric] used
    by (auto simp: s_def min.coboundedI1 min.coboundedI2 not_less)
  then show "fst (can_send t) \<le> snd_unsent_len s" "fst (can_send t) \<le> snd_cwnd s" by auto
  assume "fst (can_send t) > 0"
  then have "fst (can_send t) \<le> snd_window s - ?used" "?used \<le> snd_window s" using le by auto
  then show "unat ?used + unat (fst (can_send t)) \<le> unat (snd_window s)"
    by (simp add: word_le_nat_alt unat_sub)
qed

lemma can_send_probe: "snd_window_probe (t_snd t) \<Longrightarrow> can_send t = (1, t)"
  by (simp add: can_send_def Let_def)

lemma can_send_window_0: "snd_window (t_snd t) = 0 \<Longrightarrow> fst (can_send t) \<le> 1"
  by (auto simp: can_send_def Let_def)

definition cut_unsent :: "tcb \<Rightarrow> u32 \<Rightarrow> bytes list \<Rightarrow> u32 \<Rightarrow> tcb" where
  "cut_unsent t lt unsent len =
     t\<lparr>t_snd := (t_snd t)\<lparr>snd_limited_transfer := lt, snd_unsent := unsent, snd_unsent_len := len\<rparr>\<rparr>"

lemma get_transmit_packet_ok:
  assumes ok: "unsent_ok t"
  shows "\<exists>p lt unsent len. get_transmit_packet e t = Inr (p, cut_unsent t lt unsent len) \<and>
    p @ concat unsent = concat (snd_unsent (t_snd t)) \<and> unat len = length (concat unsent) \<and>
    (snd_unsent (t_snd t) \<noteq> [] \<longrightarrow> length p \<le> unat (min (fst (can_send t))
        (transmit_limit (e_hw e) (snd_mss (t_snd t)))))"
proof (cases "snd_unsent (t_snd t)")
  case Nil
  have "t = cut_unsent t (snd_limited_transfer (t_snd t)) [] (snd_unsent_len (t_snd t))"
    using Nil by (simp add: cut_unsent_def)
  then show ?thesis
    using Nil ok unfolding get_transmit_packet_def unsent_ok_def
    by (intro exI [of _ "[]"] exI [of _ "snd_limited_transfer (t_snd t)"]
        exI [of _ "snd_unsent_len (t_snd t)"]) auto
next
  case (Cons q0 qs)
  obtain cs lt where cs: "can_send t = (cs, t\<lparr>t_snd := (t_snd t)\<lparr>snd_limited_transfer := lt\<rparr>\<rparr>)"
    using can_send_frame by (metis surj_pair)
  let ?room = "min cs (transmit_limit (e_hw e) (snd_mss (t_snd t)))"
  let ?len = "snd_unsent_len (t_snd t)"
  have total: "unat ?len = length q0 + length (concat qs)" using ok Cons by (simp add: unsent_ok_def)
  then have small: "length q0 < 4294967296" "length (concat qs) < 4294967296"
    using u32_less [of ?len] by linarith+
  have len: "unat (?len - word_of_nat n) = length q0 + length (concat qs) - n"
    if "n \<le> length q0 + length (concat qs)" for n
    using that total by (simp add: unat_diff_of_nat)
  have found: ?thesis if "get_transmit_packet e t = Inr (p, cut_unsent t lt unsent (?len - word_of_nat (length p)))"
      "p @ concat unsent = q0 @ concat qs" "length p \<le> unat ?room" for p unsent
  proof -
    have "length p + length (concat unsent) = length q0 + length (concat qs)"
      using arg_cong [OF that(2), of length] by simp
    then show ?thesis using that len [of "length p"] Cons cs by (intro exI conjI) auto
  qed
  show ?thesis
  proof (cases "length q0 \<le> unat ?room")
    case False
    then show ?thesis
      using small cs Cons
      by (intro found [of "take (unat ?room) q0" "drop (unat ?room) q0 # qs"])
        (auto simp: get_transmit_packet_def cut_unsent_def of_nat_le_u32 of_nat_gt_u32 Let_def)
  next
    case fits: True
    show ?thesis
    proof (cases "qs = []")
      case True
      then show ?thesis
        using small cs Cons fits
        by (intro found [of q0 "[]"])
          (auto simp: get_transmit_packet_def cut_unsent_def of_nat_le_u32 of_nat_gt_u32 Let_def)
    next
      case False
      obtain p room1 rest where tw: "take_whole (?room - word_of_nat (length q0)) q0 qs = (p, room1, rest)"
        by (metis prod_cases3)
      note ok1 = take_whole_ok [OF tw small(2)]
      have room1: "length p + unat room1 = unat ?room"
        using ok1 fits by (simp add: unat_diff_of_nat)
      have g: "get_transmit_packet e t = (case rest of
          [] \<Rightarrow> Inr (p, cut_unsent t lt [] (?len - word_of_nat (length p)))
        | q # rest' \<Rightarrow> if room1 \<noteq> 0 then
              andThen (v_share q 0 (unat room1)) (\<lambda>front.
                andThen (v_trim_front q (unat room1)) (\<lambda>back.
                  Inr (p @ front, cut_unsent t lt (back # rest') (?len - word_of_nat (length (p @ front))))))
            else Inr (p, cut_unsent t lt rest (?len - word_of_nat (length p))))"
        using False fits small cs Cons tw
        by (simp add: get_transmit_packet_def cut_unsent_def of_nat_le_u32 of_nat_gt_u32 Let_def
            split: list.split)
      show ?thesis
      proof (cases "rest = [] \<or> room1 = 0")
        case True
        then show ?thesis
          using ok1 room1 by (intro found [of p rest]) (auto simp: g split: list.split)
      next
        case False
        then obtain q rest' where "rest = q # rest'" "room1 \<noteq> 0" by (cases rest) auto
        then show ?thesis
        proof (intro found [of "p @ take (unat room1) q" "drop (unat room1) q # rest'"])
          assume r: "rest = q # rest'" "room1 \<noteq> 0"
          have q: "unat room1 \<le> length q" "p @ q @ concat rest' = q0 @ concat qs" using ok1 r by auto
          show "get_transmit_packet e t = Inr (p @ take (unat room1) q, cut_unsent t lt
              (drop (unat room1) q # rest') (?len - word_of_nat (length (p @ take (unat room1) q))))"
            using q r by (simp add: g del: length_append of_nat_add)
          show "(p @ take (unat room1) q) @ concat (drop (unat room1) q # rest') = q0 @ concat qs"
            using q(2) by (metis append_assoc append_take_drop_id concat.simps(2))
          show "length (p @ take (unat room1) q) \<le> unat ?room" using q room1 by simp
        qed
      qed
    qed
  qed
qed

subsection \<open>The segment that is queued\<close>

lemma sum_fragments_even: "\<not> csum_odd cs \<Longrightarrow> \<exists>cs1. sum_fragments [seg] cs = Inr cs1"
  by (simp add: sum_data_def)

lemma pseudo_even: "\<not> csum_odd (tcp_pseudo_header_checksum checksummer_init a b n)"
  by (simp add: tcp_pseudo_header_checksum_def checksummer_init_def sum_u32_def sum_u16_def sum_u8_def)

lemma segment_checksum_ok: "\<exists>c oi. segment_checksum hw cid mss osz len seg = Inr (c, oi)"
  using sum_fragments_even [OF pseudo_even] unfolding segment_checksum_def Let_def
  by (auto simp del: sum_fragments.simps)

lemma remember_segment_fields [simp]:
  "snd_window (t_snd (remember_segment e r c n a b t)) = snd_window (t_snd t)"
  "t_packetq (remember_segment e r c n a b t) = t_packetq t"
  "t_state (remember_segment e r c n a b t) = t_state t"
  "t_rcv (remember_segment e r c n a b t) = t_rcv t"
  "t_id (remember_segment e r c n a b t) = t_id t"
  "snd_next (t_snd (remember_segment e r c n a b t)) = snd_next (t_snd t)"
  "snd_unacknowledged (t_snd (remember_segment e r c n a b t)) = snd_unacknowledged (t_snd t)"
  "snd_unsent (t_snd (remember_segment e r c n a b t)) = snd_unsent (t_snd t)"
  "snd_unsent_len (t_snd (remember_segment e r c n a b t)) = snd_unsent_len (t_snd t)"
  "t_rto (remember_segment e r c n a b t) = t_rto t"
  by (simp_all add: remember_segment_def start_retransmit_timer_def Let_def)

definition first_seq :: "bool \<Rightarrow> tcb \<Rightarrow> tcp_seq" where
  "first_seq data_retransmit t =
     (if data_retransmit then snd_unacknowledged (t_snd t)
      else if syn_needs_on t then snd_initial (t_snd t) else snd_next (t_snd t))"

text \<open>What the peer reads from a queued packet.\<close>

definition carries :: "be_ops \<Rightarrow> l4packet \<Rightarrow> tcb \<Rightarrow> tcp_seq \<Rightarrow> bytes \<Rightarrow> bool" where
  "carries be pkt t seq p =
     (let h = tcp_hdr_read be (l4_p pkt)
      in l4_to pkt = foreign_ip (t_id t) \<and> l4_proto_num pkt = tcp_num \<and>
         src_port h = local_port (t_id t) \<and> dst_port h = foreign_port (t_id t) \<and>
         th_seq h = seq \<and> th_ack h = rcv_next (t_rcv t) \<and> f_syn h = syn_needs_on t \<and>
         f_ack h = ack_needs_on t \<and> \<not> f_rst h \<and>
         drop (4 * unat (data_offset h)) (l4_p pkt) = p)"

definition after_output :: "tcp_env \<Rightarrow> bool \<Rightarrow> bytes \<Rightarrow> tcb \<Rightarrow> tcb" where
  "after_output e data_retransmit p t =
     (let t1 = (if ack_needs_on t then clear_delayed_ack t else t);
          t2 = (if data_retransmit then t1
                else t1\<lparr>t_snd := (t_snd t1)\<lparr>snd_next := seq_add (snd_next (t_snd t1))
                          (ucast (word_of_nat (length p) :: u16))\<rparr>\<rparr>)
      in remember_segment e data_retransmit p (word_of_nat (length p)) (syn_needs_on t)
           (fin_needs_on t2) t2)"

lemma output_segment_eq:
  assumes core: "be_ok (e_be e)" "align_ok (e_align e)"
    and scale: "unat (rcv_window_scale (t_rcv t)) < 32"
  shows "\<exists>pkt. output_segment e r p t =
      andThen (assertion (snd_window (t_snd t) > 0 \<or> (word_of_nat (length p) :: u16) \<le> 1))
        (\<lambda>_. Inr ((after_output e r p t)\<lparr>t_packetq := t_packetq t @ [pkt]\<rparr>)) \<and>
    carries (e_be e) pkt t (first_seq r t) p"
proof -
  let ?osz = "tcp_option_get_size (e_align e) (t_option t) (syn_needs_on t) (ack_needs_on t)"
  define t2 where "t2 = (let t1 = (if ack_needs_on t then clear_delayed_ack t else t)
      in if r then t1 else t1\<lparr>t_snd := (t_snd t1)\<lparr>snd_next := seq_add (snd_next (t_snd t1))
            (ucast (word_of_nat (length p) :: u16))\<rparr>\<rparr>)"
  have t2: "t_option t2 = t_option t" "t_rcv t2 = t_rcv t" "t_id t2 = t_id t" "t_packetq t2 = t_packetq t"
      "snd_window (t_snd t2) = snd_window (t_snd t)"
    by (simp_all add: t2_def clear_delayed_ack_def Let_def)
  obtain opts where opts: "tcp_option_fill (e_be e) (e_align e) (t_option t) (syn_needs_on t)
      (ack_needs_on t) ?osz = Inr opts" "length opts = unat ?osz"
    using fill_ok [OF core] by blast
  obtain w where w: "shr32 (rcv_window (t_rcv t)) (rcv_window_scale (t_rcv t)) = Inr w"
    using scale by (simp add: shr32_def)
  define h where "h = segment_header t2 (syn_needs_on t) (ack_needs_on t) (fin_needs_on t2)
      (first_seq r t) ?osz (ucast w)"
  define seg where "seg = tcp_hdr_write (e_be e) h @ opts @ p"
  obtain c oi where c: "segment_checksum (e_hw e) (t_id t2) (snd_mss (t_snd t2)) ?osz
      (word_of_nat (length p)) seg = Inr (c, oi)"
    using segment_checksum_ok by blast
  define pkt where "pkt = \<lparr>l4_to = foreign_ip (t_id t), l4_p = write_nbo_checksum seg c, l4_oi = oi,
      l4_e_dst = ethernet_address_zero, l4_proto_num = tcp_num\<rparr>"
  have fs: "first_seq r t = (let t1 = (if ack_needs_on t then clear_delayed_ack t else t) in
      if r then snd_unacknowledged (t_snd t1)
      else if syn_needs_on t then snd_initial (t_snd t1) else snd_next (t_snd t1))"
    by (simp add: first_seq_def clear_delayed_ack_def Let_def)
  have "output_segment e r p t =
      andThen (assertion (snd_window (t_snd t) > 0 \<or> (word_of_nat (length p) :: u16) \<le> 1))
        (\<lambda>_. Inr (queue_packet (write_nbo_checksum seg c) oi
          (remember_segment e r p (word_of_nat (length p)) (syn_needs_on t) (fin_needs_on t2) t2)))"
    unfolding output_segment_def Let_def
      t2_def [unfolded Let_def, symmetric] fs [unfolded Let_def, symmetric]
    using w opts(1) c t2 by (simp add: h_def [symmetric] seg_def [symmetric])
  moreover have "queue_packet (write_nbo_checksum seg c) oi
      (remember_segment e r p (word_of_nat (length p)) (syn_needs_on t) (fin_needs_on t2) t2) =
      (after_output e r p t)\<lparr>t_packetq := t_packetq t @ [pkt]\<rparr>"
    using t2 by (simp add: queue_packet_def after_output_def pkt_def Let_def t2_def [unfolded Let_def, symmetric])
  moreover have "carries (e_be e) pkt t (first_seq r t) p"
  proof -
    have "unat ?osz \<in> {0, 4, 8}" using get_size_values [OF core(2)] by simp
    then have off: "unat (data_offset h) * 4 = 20 + unat ?osz"
      by (auto simp: h_def segment_header_def unsigned_of_nat take_bit_eq_mod)
    have p: "l4_p pkt = tcp_hdr_write (e_be e) (h\<lparr>th_checksum := ntoh16 c\<rparr>) @ opts @ p"
      by (simp add: pkt_def seg_def write_nbo_checksum_def write_checksum_field [OF core(1)])
    show ?thesis
      unfolding carries_def p Let_def
      using off core(1) opts(2) t2
      by (simp add: tcp_hdr_read_write mult.commute pkt_def) (simp add: h_def segment_header_def)
  qed
  ultimately show ?thesis by (intro exI [of _ pkt]) simp
qed

lemma output_segment_ok:
  assumes "be_ok (e_be e)" "align_ok (e_align e)" "unat (rcv_window_scale (t_rcv t)) < 32"
    and room: "snd_window (t_snd t) > 0 \<or> (word_of_nat (length p) :: u16) \<le> 1"
  shows "\<exists>pkt. output_segment e r p t =
      Inr ((after_output e r p t)\<lparr>t_packetq := t_packetq t @ [pkt]\<rparr>) \<and>
    carries (e_be e) pkt t (first_seq r t) p"
proof -
  have "assertion (snd_window (t_snd t) > 0 \<or> (word_of_nat (length p) :: u16) \<le> 1) = Inr ()"
    by (simp only: assertion_def room if_True)
  then show ?thesis using output_segment_eq [OF assms(1-3), of r p] by (metis andThen.simps(2))
qed

lemma output_segment_fails:
  assumes "be_ok (e_be e)" "align_ok (e_align e)" "unat (rcv_window_scale (t_rcv t)) < 32"
    and "snd_window (t_snd t) = 0" "1 < length p" "length p < 65536"
  shows "output_segment e r p t = Inl AssertFailed"
proof -
  have "\<not> (word_of_nat (length p) :: u16) \<le> 1"
    using assms(5,6) by (simp add: word_le_nat_alt unsigned_of_nat take_bit_eq_mod)
  then have "assertion (snd_window (t_snd t) > 0 \<or> (word_of_nat (length p) :: u16) \<le> 1) = Inl AssertFailed"
    using assms(4) by (simp add: assertion_def)
  then show ?thesis using output_segment_eq [OF assms(1-3), of r p] by (metis andThen.simps(1))
qed

lemma after_output_fields [simp]:
  "t_state (after_output e r p t) = t_state t" "t_rcv (after_output e r p t) = t_rcv t"
  "t_id (after_output e r p t) = t_id t" "t_rto (after_output e r p t) = t_rto t"
  "snd_unsent (t_snd (after_output e r p t)) = snd_unsent (t_snd t)"
  "snd_unsent_len (t_snd (after_output e r p t)) = snd_unsent_len (t_snd t)"
  "snd_window (t_snd (after_output e r p t)) = snd_window (t_snd t)"
  "snd_unacknowledged (t_snd (after_output e r p t)) = snd_unacknowledged (t_snd t)"
  by (simp_all add: after_output_def Let_def clear_delayed_ack_def)

lemma after_output_next:
  "snd_next (t_snd (after_output e r p t)) =
     (if r then snd_next (t_snd t) else seq_add (snd_next (t_snd t)) (ucast (word_of_nat (length p) :: u16)))"
  by (simp add: after_output_def Let_def clear_delayed_ack_def)

text \<open>The bytes sent and not acknowledged.\<close>

definition in_flight :: "tcb \<Rightarrow> bytes" where
  "in_flight t = concat (map us_p (snd_data (t_snd t)))"

lemma word16_len_0: "length p < 65536 \<Longrightarrow> (word_of_nat (length p) :: u16) = 0 \<longleftrightarrow> p = []"
  by (simp add: word_unat_eq_iff unsigned_of_nat take_bit_eq_mod)

lemma after_output_in_flight:
  "length p < 65536 \<Longrightarrow> in_flight (after_output e r p t) = (if r then in_flight t else in_flight t @ p)"
  by (auto simp: in_flight_def after_output_def Let_def clear_delayed_ack_def remember_segment_def
      start_retransmit_timer_def word16_len_0)

lemma ucast_len: "n < 65536 \<Longrightarrow> (ucast (word_of_nat n :: u16) :: u32) = word_of_nat n"
  by (simp add: word_unat_eq_iff unsigned_ucast_eq unsigned_of_nat take_bit_eq_mod)

lemma unat_ucast_u16 [simp]: "unat (ucast (x :: u16) :: u32) = unat x"
  by (simp add: unsigned_ucast_eq take_bit_nat_eq_self_iff order.strict_trans [OF u16_less])

lemma transmit_limit_u16:
  assumes "tx_tso hw \<Longrightarrow> 40 \<le> max_packet_len hw"
  shows "unat (transmit_limit hw mss) < 65536"
proof (cases "tx_tso hw")
  case True
  let ?m = "ucast (max_packet_len hw) :: u32"
  have m: "unat ?m = unat (max_packet_len hw)" by simp
  have "?m - 20 - 20 = ?m - 40" by simp
  moreover have "40 \<le> ?m" using assms [OF True] m by (simp add: word_le_nat_alt)
  ultimately have "unat (?m - 20 - 20) = unat (max_packet_len hw) - 40" using m by (simp add: unat_sub)
  then show ?thesis
    using True le_less_trans [OF diff_le_self u16_less, of "max_packet_len hw" 40] by (simp add: transmit_limit_def)
next
  case False
  then show ?thesis by (simp add: transmit_limit_def)
qed

definition core_ok :: "tcp_env \<Rightarrow> bool" where
  "core_ok e \<longleftrightarrow> be_ok (e_be e) \<and> align_ok (e_align e) \<and>
     (tx_tso (e_hw e) \<longrightarrow> 40 \<le> max_packet_len (e_hw e))"

lemma output_one_new_ok:
  assumes core: "core_ok e" and scale: "unat (rcv_window_scale (t_rcv t)) < 32"
    and ok: "unsent_ok t" and st: "t_state t \<noteq> CLOSED"
  shows "\<exists>t' pkt p. output_one e False t = Inr t' \<and> t_packetq t' = t_packetq t @ [pkt] \<and>
    carries (e_be e) pkt t (first_seq False t) p \<and> length p < 65536 \<and>
    (p \<noteq> [] \<longrightarrow> length p \<le> unat (fst (can_send t))) \<and>
    snd_next (t_snd t') = seq_add (snd_next (t_snd t)) (word_of_nat (length p)) \<and>
    in_flight t' = in_flight t @ p \<and> p @ concat (snd_unsent (t_snd t')) = concat (snd_unsent (t_snd t)) \<and>
    unsent_ok t' \<and> t_state t' = t_state t \<and> t_rcv t' = t_rcv t \<and> t_rto t' = t_rto t"
proof -
  obtain p lt unsent len where g: "get_transmit_packet e t = Inr (p, cut_unsent t lt unsent len)"
      "p @ concat unsent = concat (snd_unsent (t_snd t))" "unat len = length (concat unsent)"
      "snd_unsent (t_snd t) \<noteq> [] \<longrightarrow> length p \<le> unat (min (fst (can_send t))
        (transmit_limit (e_hw e) (snd_mss (t_snd t))))"
    using get_transmit_packet_ok [OF ok] by blast
  let ?t = "cut_unsent t lt unsent len"
  have lim: "unat (transmit_limit (e_hw e) (snd_mss (t_snd t))) < 65536"
    using core by (intro transmit_limit_u16) (auto simp: core_ok_def)
  have small: "p \<noteq> [] \<longrightarrow> length p \<le> unat (fst (can_send t))" "length p < 65536"
    using g(2,4) lim by (cases p; auto simp: min_def word_le_nat_alt split: if_splits)+
  have same: "t_state ?t = t_state t" "t_rcv ?t = t_rcv t" "t_id ?t = t_id t" "t_packetq ?t = t_packetq t"
      "snd_window (t_snd ?t) = snd_window (t_snd t)" "snd_next (t_snd ?t) = snd_next (t_snd t)"
      "syn_needs_on ?t = syn_needs_on t" "ack_needs_on ?t = ack_needs_on t" "t_rto ?t = t_rto t"
      "first_seq False ?t = first_seq False t" "in_flight ?t = in_flight t"
    by (simp_all add: cut_unsent_def syn_needs_on_def ack_needs_on_def in_state_def first_seq_def in_flight_def)
  have room: "snd_window (t_snd ?t) > 0 \<or> (word_of_nat (length p) :: u16) \<le> 1"
  proof (cases "snd_window (t_snd t) = 0")
    case True
    then have "unat (fst (can_send t)) \<le> 1" using can_send_window_0 [of t] by (simp add: word_le_nat_alt)
    then have "length p \<le> 1" using small(1) by (cases "p = []") (simp, linarith)
    then show ?thesis by (auto simp: le_Suc_eq)
  qed (simp add: same word_neq_0_conv)
  obtain pkt where o: "output_segment e False p ?t =
      Inr ((after_output e False p ?t)\<lparr>t_packetq := t_packetq t @ [pkt]\<rparr>)"
      "carries (e_be e) pkt ?t (first_seq False t) p"
    using output_segment_ok [OF _ _ _ room, of e False] core scale same by (auto simp: core_ok_def)
  have "carries (e_be e) pkt t (first_seq False t) p" using o(2) same by (simp add: carries_def)
  moreover have "output_one e False t = Inr ((after_output e False p ?t)\<lparr>t_packetq := t_packetq t @ [pkt]\<rparr>)"
    using st g(1) o(1) by (simp add: output_one_def in_state_def)
  moreover have "in_flight (after_output e False p ?t) = in_flight t @ p"
    using small(2) same by (simp add: after_output_in_flight)
  moreover have "snd_unsent (t_snd ?t) = unsent" "snd_unsent_len (t_snd ?t) = len"
    by (simp_all add: cut_unsent_def)
  ultimately show ?thesis
    using g small same
    by (intro exI [of _ "(after_output e False p ?t)\<lparr>t_packetq := t_packetq t @ [pkt]\<rparr>"]
        exI [of _ pkt] exI [of _ p])
      (simp add: after_output_next ucast_len in_flight_def unsent_ok_def)
qed

subsection \<open>Acknowledgement of data\<close>

text \<open>
  The state in which acknowledgements are processed: no more than half the sequence space in
  flight, and a congestion window of at least one segment that is far from wrapping around.
\<close>

definition cwnd_room :: "nat \<Rightarrow> tcb \<Rightarrow> bool" where
  "cwnd_room n t \<longleftrightarrow> 0 < snd_mss (t_snd t) \<and> unat (snd_mss (t_snd t)) \<le> unat (snd_cwnd (t_snd t)) \<and>
     unat (snd_cwnd (t_snd t)) + n * unat (snd_mss (t_snd t)) < 4294967296"

lemma cwnd_room_mono: "cwnd_room n t \<Longrightarrow> k \<le> n \<Longrightarrow> cwnd_room k t"
proof -
  assume "cwnd_room n t" "k \<le> n"
  moreover have "k * unat (snd_mss (t_snd t)) \<le> n * unat (snd_mss (t_snd t))"
    using \<open>k \<le> n\<close> by (rule mult_le_mono1)
  ultimately show ?thesis unfolding cwnd_room_def by linarith
qed

lemma cwnd_step_le:
  assumes "0 < m" "m \<le> c" shows "max 1 (m * m div c) \<le> (m :: nat)"
proof -
  have "m * m div c \<le> m * m div m" using assms by (intro div_le_mono2) auto
  then show ?thesis using assms by simp
qed

lemma update_cwnd_ok:
  assumes "cwnd_room (Suc n) t"
  shows "\<exists>c. update_cwnd a t = Inr (t\<lparr>t_snd := (t_snd t)\<lparr>snd_cwnd := c\<rparr>\<rparr>) \<and>
    cwnd_room n (t\<lparr>t_snd := (t_snd t)\<lparr>snd_cwnd := c\<rparr>\<rparr>)"
proof -
  define m c where "m = unat (snd_mss (t_snd t))" and "c = unat (snd_cwnd (t_snd t))"
  let ?smss = "ucast (snd_mss (t_snd t)) :: u32" and ?cwnd = "snd_cwnd (t_snd t)"
  have r: "0 < m" "m \<le> c" "c + (m + n * m) < 4294967296" "unat ?smss = m" "unat ?cwnd = c"
    using assms by (auto simp: cwnd_room_def m_def c_def word_less_nat_alt)
  have grow: "cwnd_room n (t\<lparr>t_snd := (t_snd t)\<lparr>snd_cwnd := ?cwnd + d\<rparr>\<rparr>)" if "unat d \<le> m" for d :: u32
  proof -
    have "unat (?cwnd + d) = c + unat d" using that r by (simp add: unat_add_noof)
    then show ?thesis using that r by (auto simp: cwnd_room_def m_def [symmetric] word_less_nat_alt)
  qed
  have "unat (min a ?smss) \<le> m" using r by (simp add: min_def word_le_nat_alt)
  moreover have "unat (max 1 (?smss * ?smss div ?cwnd)) \<le> m"
  proof -
    have "m \<le> 65535" using u16_less [of "snd_mss (t_snd t)"] unfolding m_def by linarith
    then have "m * m \<le> 65535 * 65535" by (intro mult_le_mono)
    then have "unat (?smss * ?smss) = m * m" using r(4) by (simp add: unat_word_ariths)
    then have "unat (?smss * ?smss div ?cwnd) = m * m div c" using r(5) by (simp add: unat_div)
    then show ?thesis using cwnd_step_le [OF r(1,2)] by (simp add: max_def word_le_nat_alt split: if_splits)
  qed
  moreover have "?cwnd \<noteq> 0" using r by (auto simp: word_unat_eq_iff)
  ultimately show ?thesis
    using grow by (auto simp: update_cwnd_def Let_def)
qed

text \<open>What the acknowledgement loop leaves alone.\<close>

definition same_conn :: "tcb \<Rightarrow> tcb \<Rightarrow> bool" where
  "same_conn t t' \<longleftrightarrow> t_state t' = t_state t \<and> t_rcv t' = t_rcv t \<and> t_id t' = t_id t \<and>
     t_option t' = t_option t \<and> snd_next (t_snd t') = snd_next (t_snd t) \<and>
     snd_unsent (t_snd t') = snd_unsent (t_snd t) \<and> snd_unsent_len (t_snd t') = snd_unsent_len (t_snd t) \<and>
     snd_window (t_snd t') = snd_window (t_snd t) \<and> snd_window_scale (t_snd t') = snd_window_scale (t_snd t) \<and>
     snd_mss (t_snd t') = snd_mss (t_snd t) \<and> t_packetq t' = t_packetq t"

lemma same_conn_trans: "same_conn a b \<Longrightarrow> same_conn b c \<Longrightarrow> same_conn a c"
  by (simp add: same_conn_def)

lemma same_conn_refl [simp]: "same_conn a a"
  by (simp add: same_conn_def)

lemma update_rto_frame:
  "same_conn t (update_rto e x t)" "snd_unacknowledged (t_snd (update_rto e x t)) = snd_unacknowledged (t_snd t)"
  "snd_data (t_snd (update_rto e x t)) = snd_data (t_snd t)" "snd_cwnd (t_snd (update_rto e x t)) = snd_cwnd (t_snd t)"
  "snd_mss (t_snd (update_rto e x t)) = snd_mss (t_snd t)"
  by (simp_all add: update_rto_def same_conn_def Let_def)

lemma signal_send_available_frame:
  "same_conn t (signal_send_available t)"
  "snd_unacknowledged (t_snd (signal_send_available t)) = snd_unacknowledged (t_snd t)"
  "snd_cwnd (t_snd (signal_send_available t)) = snd_cwnd (t_snd t)"
  "snd_mss (t_snd (signal_send_available t)) = snd_mss (t_snd t)"
  "t_rto (signal_send_available t) = t_rto t"
  by (simp_all add: signal_send_available_def same_conn_def emit_def)

lemma ack_full_segments_ok:
  assumes "cwnd_room (length segs + k) t" "snd_data (t_snd t) = segs"
    "dist b (snd_unacknowledged (t_snd t)) + length (concat (map us_p segs)) < 2147483648"
    "dist b seg_ack < 2147483648" "dist b (snd_unacknowledged (t_snd t)) \<le> dist b seg_ack"
  shows "\<exists>t' front rest. ack_full_segments e seg_ack segs acked t =
      Inr (acked + word_of_nat (length (concat (map us_p front))), t') \<and> segs = front @ rest \<and>
    snd_data (t_snd t') = rest \<and> same_conn t t' \<and> cwnd_room k t' \<and>
    dist b (snd_unacknowledged (t_snd t')) =
      dist b (snd_unacknowledged (t_snd t)) + length (concat (map us_p front)) \<and>
    dist b (snd_unacknowledged (t_snd t')) \<le> dist b seg_ack \<and>
    (case rest of [] \<Rightarrow> True | seg # _ \<Rightarrow>
       dist b seg_ack < dist b (snd_unacknowledged (t_snd t')) + length (us_p seg))"
  using assms
proof (induction segs arbitrary: t acked)
  case Nil
  then show ?case by (auto intro!: exI [of _ t])
next
  case (Cons seg segs)
  let ?n = "length (us_p seg)" and ?una = "snd_unacknowledged (t_snd t)"
  let ?u = "seq_add ?una (word_of_nat ?n)"
  have d: "dist b ?u = dist b ?una + ?n" using Cons.prems(3) by (simp add: dist_add)
  have small: "dist b ?u < 2147483648" using d Cons.prems(3) by simp
  have le: "?u \<le> seg_ack \<longleftrightarrow> dist b ?una + ?n \<le> dist b seg_ack"
    using seq_order_dist(2) [OF small Cons.prems(4)] d by simp
  show ?case
  proof (cases "?u \<le> seg_ack")
    case False
    then show ?thesis
      using Cons.prems le cwnd_room_mono [of _ t k]
      by (intro exI [of _ t] exI [of _ "[]"] exI [of _ "seg # segs"]) auto
  next
    case True
    define t2 where "t2 = (let t1 = t\<lparr>t_snd := (t_snd t)\<lparr>snd_unacknowledged := ?u\<rparr>\<rparr>
        in if us_nr_transmits seg = 0 then update_rto e (us_tx_time seg) t1 else t1)"
    have t2: "same_conn t t2" "snd_unacknowledged (t_snd t2) = ?u" "cwnd_room (Suc (length segs + k)) t2"
      using Cons.prems(1) unfolding t2_def Let_def
      by (auto simp: update_rto_frame cwnd_room_def same_conn_def update_rto_frame(1) [unfolded same_conn_def])
    obtain c where c: "update_cwnd (word_of_nat ?n) t2 = Inr (t2\<lparr>t_snd := (t_snd t2)\<lparr>snd_cwnd := c\<rparr>\<rparr>)"
        "cwnd_room (length segs + k) (t2\<lparr>t_snd := (t_snd t2)\<lparr>snd_cwnd := c\<rparr>\<rparr>)"
      using update_cwnd_ok [OF t2(3)] by blast
    define t4 where "t4 = (let t3 = t2\<lparr>t_snd := (t_snd t2)\<lparr>snd_cwnd := c\<rparr>\<rparr>;
        t4 = signal_send_available (t3\<lparr>t_snd := (t_snd t3)\<lparr>snd_current_queue_space :=
               snd_current_queue_space (t_snd t3) - ucast (us_data_len seg)\<rparr>\<rparr>)
        in t4\<lparr>t_snd := (t_snd t4)\<lparr>snd_data := segs\<rparr>\<rparr>)"
    have t4: "same_conn t t4" "snd_unacknowledged (t_snd t4) = ?u" "cwnd_room (length segs + k) t4"
        "snd_data (t_snd t4) = segs"
      using t2 c(2) unfolding t4_def Let_def
      by (auto simp: signal_send_available_frame cwnd_room_def same_conn_def
          signal_send_available_frame(1) [unfolded same_conn_def])
    have "ack_full_segments e seg_ack (seg # segs) acked t =
        ack_full_segments e seg_ack segs (acked + word_of_nat ?n) t4"
      using True c(1) by (simp add: Let_def t2_def [unfolded Let_def, symmetric] t4_def)
    moreover obtain t' front rest where "ack_full_segments e seg_ack segs (acked + word_of_nat ?n) t4 =
          Inr (acked + word_of_nat ?n + word_of_nat (length (concat (map us_p front))), t')"
        "segs = front @ rest" "snd_data (t_snd t') = rest" "same_conn t4 t'" "cwnd_room k t'"
        "dist b (snd_unacknowledged (t_snd t')) = dist b ?u + length (concat (map us_p front))"
        "dist b (snd_unacknowledged (t_snd t')) \<le> dist b seg_ack"
        "case rest of [] \<Rightarrow> True | seg # _ \<Rightarrow>
           dist b seg_ack < dist b (snd_unacknowledged (t_snd t')) + length (us_p seg)"
      using Cons.IH [OF t4(3,4), of "acked + word_of_nat ?n"] Cons.prems(3,4) t4(2) d True le by auto
    ultimately show ?thesis
      using d same_conn_trans [OF t4(1)]
      by (intro exI [of _ t'] exI [of _ "seg # front"] exI [of _ rest]) (auto simp: algebra_simps)
  qed
qed

lemma data_segment_acked_ok:
  assumes room: "cwnd_room (Suc (length (snd_data (t_snd t)))) t"
    and flight: "length (in_flight t) < 2147483648"
    and n: "0 < n" "n \<le> length (in_flight t)" "seg_ack = seq_add (snd_unacknowledged (t_snd t)) (word_of_nat n)"
  shows "\<exists>t'. data_segment_acked e seg_ack t = Inr (word_of_nat n, t') \<and> same_conn t t' \<and>
    snd_unacknowledged (t_snd t') = seg_ack \<and> in_flight t' = drop n (in_flight t)"
proof -
  let ?b = "snd_unacknowledged (t_snd t)"
  have b: "dist ?b ?b = 0" "dist ?b seg_ack = n"
    using n flight dist_add [of ?b ?b n] by (simp_all add: dist_def)
  obtain t1 front rest where 1: "ack_full_segments e seg_ack (snd_data (t_snd t)) 0 t =
        Inr (word_of_nat (length (concat (map us_p front))), t1)" "snd_data (t_snd t) = front @ rest"
      "snd_data (t_snd t1) = rest" "same_conn t t1" "cwnd_room (Suc 0) t1"
      "dist ?b (snd_unacknowledged (t_snd t1)) = length (concat (map us_p front))"
      "dist ?b (snd_unacknowledged (t_snd t1)) \<le> n"
      "case rest of [] \<Rightarrow> True | seg # _ \<Rightarrow> n < dist ?b (snd_unacknowledged (t_snd t1)) + length (us_p seg)"
  proof -
    have "cwnd_room (length (snd_data (t_snd t)) + Suc 0) t"
        "dist ?b ?b + length (concat (map us_p (snd_data (t_snd t)))) < 2147483648"
        "dist ?b seg_ack < 2147483648" "dist ?b ?b \<le> dist ?b seg_ack"
      using room flight n b by (simp_all add: in_flight_def)
    from ack_full_segments_ok [OF this(1) refl this(2-), of e 0] that show thesis
      unfolding b add_0 by blast
  qed
  let ?k = "length (concat (map us_p front))" and ?una = "snd_unacknowledged (t_snd t1)"
  have fl: "in_flight t = concat (map us_p front) @ concat (map us_p rest)"
    using 1(2) by (simp add: in_flight_def)
  have small: "dist ?b ?una < 2147483648" "dist ?b seg_ack < 2147483648" using 1(7) n(2) flight b by simp_all
  have ord: "?una < seg_ack \<longleftrightarrow> ?k < n" using seq_order_dist(1) [OF small] 1(6) b by simp
  have diff: "seq_diff seg_ack ?una = int (n - ?k)"
    using seq_diff_dist [OF small(2,1)] 1(6,7) b by simp
  show ?thesis
  proof (cases "?k < n")
    case False
    then have "?k = n" using 1(6,7) by simp
    moreover have "?una = seg_ack"
    proof -
      have "raw ?una - raw ?b = raw seg_ack - raw ?b"
        using 1(6) b \<open>?k = n\<close> by (simp add: dist_def word_unat_eq_iff)
      then show ?thesis by (cases ?una; cases seg_ack) simp
    qed
    ultimately show ?thesis
      using 1 ord fl by (intro exI [of _ t1]) (auto simp: data_segment_acked_def in_flight_def)
  next
    case True
    then obtain seg segs where rest: "rest = seg # segs" using n(2) fl by (cases rest) auto
    have in_seg: "n - ?k < length (us_p seg)" using 1(6,8) rest True by simp
    define t2 where "t2 = t1\<lparr>t_snd := (t_snd t1)\<lparr>snd_data := seg\<lparr>us_p := drop (n - ?k) (us_p seg)\<rparr> # segs,
        snd_unacknowledged := seg_ack\<rparr>\<rparr>"
    have "cwnd_room (Suc 0) t2" using 1(5) by (simp add: t2_def cwnd_room_def)
    then obtain c where c: "update_cwnd (word_of_int (int (n - ?k))) t2 = Inr (t2\<lparr>t_snd := (t_snd t2)\<lparr>snd_cwnd := c\<rparr>\<rparr>)"
      using update_cwnd_ok by blast
    have "word_of_nat ?k + (word_of_nat (n - ?k) :: u32) = word_of_nat n"
      using True by (metis le_add_diff_inverse less_imp_le of_nat_add)
    then have "data_segment_acked e seg_ack t = Inr (word_of_nat n, t2\<lparr>t_snd := (t_snd t2)\<lparr>snd_cwnd := c\<rparr>\<rparr>)"
      using 1(1,3) True ord diff in_seg c rest
      by (simp add: data_segment_acked_def t2_def Let_def)
    moreover have "same_conn t (t2\<lparr>t_snd := (t_snd t2)\<lparr>snd_cwnd := c\<rparr>\<rparr>)"
      using 1(4) by (simp add: same_conn_def t2_def)
    moreover have "in_flight (t2\<lparr>t_snd := (t_snd t2)\<lparr>snd_cwnd := c\<rparr>\<rparr>) = drop n (in_flight t)"
      using fl rest True in_seg by (simp add: in_flight_def t2_def)
    ultimately show ?thesis by (simp add: t2_def)
  qed
qed

subsection \<open>What output leaves alone\<close>

definition keeps :: "tcb \<Rightarrow> tcb \<Rightarrow> bool" where
  "keeps t t' \<longleftrightarrow> t_state t' = t_state t \<and> t_rcv t' = t_rcv t \<and> t_id t' = t_id t \<and> t_rto t' = t_rto t \<and>
     t_option t' = t_option t \<and> t_persist_time_out t' = t_persist_time_out t"

lemma keeps_refl [simp]: "keeps t t"
  by (simp add: keeps_def)

lemma keeps_trans [trans]: "keeps a b \<Longrightarrow> keeps b c \<Longrightarrow> keeps a c"
  by (simp add: keeps_def)

lemma keeps_simps [simp]:
  "keeps t (t\<lparr>t_snd := s\<rparr>)" "keeps t (tcb_output t)" "keeps t (clear_delayed_ack t)"
  "keeps t (start_retransmit_timer now t)" "keeps t (stop_retransmit_timer t)"
  "keeps t (exit_fast_recovery t)" "keeps t (queue_packet p oi t)" "keeps t (emit ev t)"
  "keeps t (signal_all_data_acked t)" "keeps t (signal_send_available t)"
  "keeps t (start_persist_timer now t)" "keeps t (stop_persist_timer t)"
  "keeps t (remember_segment e r c n a b t)" "keeps t (set_retransmit_timer e t)"
  "keeps t (t\<lparr>t_packetq := pq\<rparr>)" "keeps t (t\<lparr>t_poll_active := pa\<rparr>)"
  by (simp_all add: keeps_def tcb_output_def clear_delayed_ack_def start_retransmit_timer_def
      stop_retransmit_timer_def exit_fast_recovery_def queue_packet_def emit_def
      signal_all_data_acked_def signal_send_available_def start_persist_timer_def
      stop_persist_timer_def remember_segment_def set_retransmit_timer_def Let_def)

lemma can_send_keeps: "can_send t = (x, t') \<Longrightarrow> keeps t t'"
  using can_send_frame by fastforce

lemma get_transmit_packet_keeps:
  assumes "get_transmit_packet e t = Inr (p, t')"
  shows "keeps t t' \<and> snd_window (t_snd t') = snd_window (t_snd t)"
proof -
  obtain cs lt where "can_send t = (cs, t\<lparr>t_snd := (t_snd t)\<lparr>snd_limited_transfer := lt\<rparr>\<rparr>)"
    using can_send_frame by (metis surj_pair)
  then show ?thesis
    using assms unfolding get_transmit_packet_def
    by (auto simp: Let_def split: list.splits if_splits prod.splits)
qed

lemma output_segment_keeps:
  assumes "output_segment e r p t = Inr t'"
  shows "keeps t t'"
proof -
  define t2 where "t2 = (let t1 = (if ack_needs_on t then clear_delayed_ack t else t)
      in if r then t1 else t1\<lparr>t_snd := (t_snd t1)\<lparr>snd_next := seq_add (snd_next (t_snd t1))
            (ucast (word_of_nat (length p) :: u16))\<rparr>\<rparr>)"
  have t2: "keeps t t2" by (simp add: t2_def keeps_def clear_delayed_ack_def Let_def)
  obtain seg oi n a b where "t' = queue_packet seg oi (remember_segment e r p n a b t2)"
    using assms unfolding output_segment_def Let_def t2_def [unfolded Let_def, symmetric]
    by auto
  then show ?thesis
    using keeps_trans [OF t2 keeps_trans [OF keeps_simps(13) keeps_simps(7)]] by simp
qed

lemma output_one_keeps: "output_one e r t = Inr t' \<Longrightarrow> keeps t t'"
  by (auto simp: output_one_def split: if_splits list.splits
      dest!: get_transmit_packet_keeps output_segment_keeps intro: keeps_trans)

lemma fast_retransmit_keeps: "fast_retransmit e t = Inr t' \<Longrightarrow> keeps t t'"
  by (auto simp: fast_retransmit_def split: list.splits dest!: output_one_keeps
      intro: keeps_trans [OF keeps_simps(1)] keeps_trans [OF _ keeps_simps(2)])

lemma update_cwnd_keeps: "update_cwnd a t = Inr t' \<Longrightarrow> keeps t t'"
  by (auto simp: update_cwnd_def Let_def split: if_splits)

text \<open>The retransmission timeout.\<close>

definition rto_ok :: "tcb \<Rightarrow> bool" where
  "rto_ok t \<longleftrightarrow> rto_min \<le> t_rto t \<and> t_rto t \<le> rto_max"

lemma update_rto_ok [simp]: "rto_ok (update_rto e x t)"
  by (simp add: rto_ok_def update_rto_def Let_def)

lemma keeps_rto: "keeps t t' \<Longrightarrow> rto_ok t' = rto_ok t"
  by (simp add: keeps_def rto_ok_def)

lemma cleanup_rto [simp]: "rto_ok (cleanup t) = rto_ok t" "t_rto (cleanup t) = t_rto t"
  by (simp_all add: cleanup_def rto_ok_def emit_def clear_delayed_ack_def stop_retransmit_timer_def)

lemma do_reset_rto [simp]: "rto_ok (do_reset t) = rto_ok t"
  by (simp add: do_reset_def Let_def emit_def) (simp add: rto_ok_def)

lemma output_update_rto_ok: "rto_ok t \<Longrightarrow> rto_ok (output_update_rto e t)"
  by (auto simp: output_update_rto_def rto_ok_def Let_def start_retransmit_timer_def tcb_output_def emit_def)

lemma rto_ok_simps [simp]:
  "rto_ok (t\<lparr>t_snd := s\<rparr>) = rto_ok t" "rto_ok (emit ev t) = rto_ok t" "rto_ok (exit_fast_recovery t) = rto_ok t"
  "rto_ok (tcb_output t) = rto_ok t"
  by (simp_all add: rto_ok_def emit_def exit_fast_recovery_def tcb_output_def)

lemma retransmit_data_rto: "rto_ok t \<Longrightarrow> retransmit_data e t = Inr t' \<Longrightarrow> rto_ok t'"
  unfolding retransmit_data_def Let_def
  by (auto split: list.splits if_splits dest!: output_one_keeps keeps_rto intro!: output_update_rto_ok)

lemma retransmit_rto: "rto_ok t \<Longrightarrow> retransmit e t = Inr t' \<Longrightarrow> rto_ok t'"
  unfolding retransmit_def Let_def
  by (auto split: if_splits elim!: retransmit_data_rto [rotated] intro!: output_update_rto_ok)

subsection \<open>Properties\<close>

text \<open>A connection for the witnesses: established, with some data queued.\<close>

definition sample_env :: tcp_env where
  "sample_env = \<lparr>e_hw = hw_features_init, e_be = be_ref, e_align = align_ref, e_now = 5000,
     e_isn = make_seq 100, e_after = []\<rparr>"

definition sample_connid :: connid where
  "sample_connid = \<lparr>local_ip = 1, foreign_ip = 2, local_port = 80, foreign_port = 4000\<rparr>"

definition sample_snd :: send where
  "sample_snd = \<lparr>snd_unacknowledged = make_seq 101, snd_next = make_seq 101, snd_window = 8000,
     snd_window_scale = 0, snd_mss = 1000, snd_urgent = make_seq 0, snd_wl1 = make_seq 0,
     snd_wl2 = make_seq 0, snd_initial = make_seq 100, snd_data = [], snd_unsent = [],
     snd_unsent_len = 0, snd_closed = False, snd_all_data_acked_promise = False,
     snd_max_queue_space = 212992, snd_current_queue_space = 0, snd_send_available_promise = False,
     snd_rttvar = 0, snd_srtt = 0, snd_first_rto_sample = True, snd_syn_tx_time = 0,
     snd_cwnd = 4000, snd_ssthresh = 8000, snd_dupacks = 0, snd_syn_retransmit = 0,
     snd_fin_retransmit = 0, snd_limited_transfer = 0, snd_partial_ack = 0,
     snd_recover = make_seq 100, snd_window_probe = False, snd_zero_window_probing_out = 0\<rparr>"

definition sample_rcv :: receive where
  "sample_rcv = \<lparr>rcv_next = make_seq 501, rcv_window = 29200, rcv_window_scale = 0, rcv_mss = 1460,
     rcv_urgent = make_seq 501, rcv_initial = make_seq 500, rcv_data = [], rcv_data_size = 0,
     rcv_out_of_order = [], rcv_data_received_promise = False, rcv_max_receive_buf_size = 3737600\<rparr>"

definition sample_tcb :: "send \<Rightarrow> receive \<Rightarrow> tcb" where
  "sample_tcb s r = (tcb_new s r 1460 sample_connid)\<lparr>t_state := ESTABLISHED, t_snd := s, t_rcv := r\<rparr>"

lemma sample_tcb_simps [simp]:
  "t_state (sample_tcb s r) = ESTABLISHED" "t_snd (sample_tcb s r) = s" "t_rcv (sample_tcb s r) = r"
  "t_packetq (sample_tcb s r) = []" "t_rto (sample_tcb s r) = 1000"
  by (simp_all add: sample_tcb_def tcb_new_def)

lemma sample_core_ok: "core_ok sample_env"
  by (simp add: core_ok_def sample_env_def be_ok_ref align_ok_ref hw_features_init_def)

text \<open>C18. Sending new data: as long as the queue length is tracked, \<open>output_one\<close> never fails, not
  even its zero window assertion. It queues one packet to the peer whose header has the right
  sequence and acknowledgement numbers and whose payload is the next piece of the stream: not
  more than \<open>can_send\<close> admits, and the bytes in flight followed by the bytes unsent stay the same.\<close>

theorem output_one_sends_stream:
  assumes "core_ok e" "unat (rcv_window_scale (t_rcv t)) < 32" "unsent_ok t" "t_state t \<noteq> CLOSED"
  shows "\<exists>t' pkt p. output_one e False t = Inr t' \<and> t_packetq t' = t_packetq t @ [pkt] \<and>
    carries (e_be e) pkt t (first_seq False t) p \<and>
    (p \<noteq> [] \<longrightarrow> length p \<le> unat (fst (can_send t))) \<and>
    snd_next (t_snd t') = seq_add (snd_next (t_snd t)) (word_of_nat (length p)) \<and>
    in_flight t' = in_flight t @ p \<and> unsent_ok t' \<and>
    in_flight t' @ concat (snd_unsent (t_snd t')) = in_flight t @ concat (snd_unsent (t_snd t))"
  using output_one_new_ok [OF assms] by fastforce

theorem output_one_sends_stream_witness:
  "\<exists>t' pkt. output_one sample_env False
      (sample_tcb (sample_snd\<lparr>snd_unsent := [[1, 2], [3]], snd_unsent_len := 3\<rparr>) sample_rcv) = Inr t' \<and>
    t_packetq t' = [pkt] \<and> in_flight t' @ concat (snd_unsent (t_snd t')) = [1, 2, 3]"
  using output_one_sends_stream [OF sample_core_ok,
      of "sample_tcb (sample_snd\<lparr>snd_unsent := [[1, 2], [3]], snd_unsent_len := 3\<rparr>) sample_rcv"]
  by (auto simp: unsent_ok_def in_flight_def sample_snd_def sample_rcv_def)

text \<open>C35. Outside a window probe, what \<open>can_send\<close> admits fits the peer's window behind the bytes in
  flight, is at most what is queued and is at most the congestion window. The code does not
  subtract what is already in flight from the congestion window, so nothing more is claimed of it.\<close>

theorem can_send_respects_windows:
  assumes "\<not> snd_window_probe (t_snd t)" "0 < fst (can_send t)"
  shows "unat (raw (snd_next (t_snd t)) - raw (snd_unacknowledged (t_snd t))) + unat (fst (can_send t))
      \<le> unat (snd_window (t_snd t)) \<and>
    fst (can_send t) \<le> snd_unsent_len (t_snd t) \<and> fst (can_send t) \<le> snd_cwnd (t_snd t)"
  using can_send_bounds [OF assms(1)] assms(2) by blast

theorem can_send_respects_windows_witness:
  "fst (can_send (sample_tcb (sample_snd\<lparr>snd_unsent := [[1, 2]], snd_unsent_len := 2\<rparr>) sample_rcv)) \<le> 2"
proof -
  have "fst (can_send (sample_tcb (sample_snd\<lparr>snd_unsent := [[1, 2]], snd_unsent_len := 2\<rparr>) sample_rcv)) = 2"
    by (simp add: can_send_def sample_snd_def seq_diff_def Let_def)
  then show ?thesis
    using can_send_respects_windows [of "sample_tcb (sample_snd\<lparr>snd_unsent := [[1, 2]], snd_unsent_len := 2\<rparr>) sample_rcv"]
    by (simp add: sample_snd_def)
qed

text \<open>Acknowledging \<open>n\<close> of the bytes in flight, at a segment boundary or inside a segment,
  never fails when the congestion window has room, reports \<open>n\<close> bytes, advances SND.UNA by exactly
  \<open>n\<close> (across the sequence wrap around too) and keeps exactly the other bytes for retransmission.\<close>

theorem acknowledgement_drops_prefix:
  assumes "cwnd_room (Suc (length (snd_data (t_snd t)))) t" "length (in_flight t) < 2147483648"
    "0 < n" "n \<le> length (in_flight t)" "seg_ack = seq_add (snd_unacknowledged (t_snd t)) (word_of_nat n)"
  shows "\<exists>t'. data_segment_acked e seg_ack t = Inr (word_of_nat n, t') \<and>
    snd_unacknowledged (t_snd t') = seg_ack \<and> in_flight t' = drop n (in_flight t) \<and>
    t_state t' = t_state t \<and> t_rcv t' = t_rcv t \<and> snd_next (t_snd t') = snd_next (t_snd t)"
  using data_segment_acked_ok [OF assms, of e] by (auto simp: same_conn_def)

theorem acknowledgement_drops_prefix_witness:
  "\<exists>t'. data_segment_acked sample_env (make_seq 104)
      (sample_tcb (sample_snd\<lparr>snd_data := [\<lparr>us_p = [1, 2], us_data_len = 2, us_nr_transmits = 0, us_tx_time = 0\<rparr>,
         \<lparr>us_p = [3, 4], us_data_len = 2, us_nr_transmits = 1, us_tx_time = 0\<rparr>]\<rparr>) sample_rcv) =
      Inr (3, t') \<and> in_flight t' = [4]"
  using acknowledgement_drops_prefix [of "sample_tcb (sample_snd\<lparr>snd_data :=
      [\<lparr>us_p = [1, 2], us_data_len = 2, us_nr_transmits = 0, us_tx_time = 0\<rparr>,
       \<lparr>us_p = [3, 4], us_data_len = 2, us_nr_transmits = 1, us_tx_time = 0\<rparr>]\<rparr>) sample_rcv" 3 "make_seq 104" sample_env]
  by (auto simp: cwnd_room_def in_flight_def sample_snd_def seq_add_def)

text \<open>The retransmission timeout stays between one second and one minute: every round trip
  sample puts it there, whatever the clock says, and the exponential backoff of the
  retransmission timer keeps it there.\<close>

theorem rto_stays_in_bounds:
  shows "rto_ok (update_rto e tx_time t) \<and> (rto_ok t \<and> retransmit e t = Inr t' \<longrightarrow> rto_ok t')"
  using retransmit_rto by auto

theorem rto_stays_in_bounds_witness:
  "rto_ok (update_rto sample_env (- 999999) (sample_tcb sample_snd sample_rcv)) \<and>
   (\<exists>t'. retransmit sample_env (sample_tcb sample_snd sample_rcv) = Inr t' \<and> rto_ok t')"
proof -
  have "retransmit sample_env (sample_tcb sample_snd sample_rcv) = Inr (sample_tcb sample_snd sample_rcv)"
    by (simp add: retransmit_def syn_needs_on_def fin_needs_on_def in_state_def retransmit_data_def
        sample_snd_def Let_def)
  moreover have "rto_ok (sample_tcb sample_snd sample_rcv)" by (simp add: rto_ok_def)
  ultimately show ?thesis
    using rto_stays_in_bounds [of sample_env "- 999999" "sample_tcb sample_snd sample_rcv"
        "sample_tcb sample_snd sample_rcv"] by blast
qed

text \<open>A peer can end the program: when it shrinks its window to zero while a segment of more
  than one byte is unacknowledged, the retransmission timer runs into the assertion that only a
  one byte probe is sent to a closed window.\<close>

theorem retransmit_to_zero_window_aborts:
  assumes "core_ok e" "unat (rcv_window_scale (t_rcv t)) < 32" "t_state t = ESTABLISHED"
    "snd_window (t_snd t) = 0" "snd_data (t_snd t) = seg # rest"
    "us_nr_transmits seg < max_nr_retransmit" "1 < length (us_p seg)" "length (us_p seg) < 65536"
  shows "retransmit e t = Inl AssertFailed"
proof -
  have f: "\<not> syn_needs_on t" "\<not> fin_needs_on t"
    using assms(3) by (simp_all add: syn_needs_on_def fin_needs_on_def in_state_def)
  have o: "output_segment e True (us_p seg) u = Inl AssertFailed"
    if "t_rcv u = t_rcv t" "snd_window (t_snd u) = 0" for u
    using assms that by (intro output_segment_fails) (auto simp: core_ok_def)
  show ?thesis
    using assms(3-6) f o
    by (simp add: retransmit_def retransmit_data_def output_one_def in_state_def
        exit_fast_recovery_def Let_def)
qed

theorem retransmit_to_zero_window_aborts_witness:
  "retransmit sample_env (sample_tcb (sample_snd\<lparr>snd_window := 0, snd_data :=
      [\<lparr>us_p = [1, 2], us_data_len = 2, us_nr_transmits = 0, us_tx_time = 0\<rparr>]\<rparr>) sample_rcv) = Inl AssertFailed"
  by (rule retransmit_to_zero_window_aborts [OF sample_core_ok])
    (simp_all add: sample_snd_def sample_rcv_def, simp_all)

text \<open>A peer that opens with a maximum segment size of zero and a closed window sets both the
  congestion window and the slow start threshold to zero, and the first byte it acknowledges then
  makes \<open>update_cwnd\<close> divide by zero.\<close>

theorem zero_mss_divides_by_zero:
  assumes "init_from_options e th mem n t = Inr t1" "th_window th = 0"
    "tcp_option_parse (e_be e) (t_option t) mem n = Inr opt" "remote_mss opt = 0"
    "snd_unacknowledged (t_snd t1) < seg_ack" "snd_data (t_snd t1) = []"
  shows "data_segment_acked e seg_ack t1 = Inl DivByZero"
proof -
  have "shl32 0 n = Inr w \<Longrightarrow> w = 0" for n w by (auto simp: shl32_def split: if_splits)
  then have "snd_cwnd (t_snd t1) = 0" "snd_ssthresh (t_snd t1) = 0"
    using assms(1-4) by (auto simp: init_from_options_def Let_def)
  then show ?thesis
    using assms(5,6) by (simp add: data_segment_acked_def update_cwnd_def Let_def)
qed

theorem zero_mss_divides_by_zero_witness:
  "\<exists>th t1. init_from_options sample_env th [2, 4, 0, 0] 4 (sample_tcb sample_snd sample_rcv) = Inr t1 \<and>
    data_segment_acked sample_env (make_seq 102) t1 = Inl DivByZero"
proof -
  let ?th = "segment_header (sample_tcb sample_snd sample_rcv) True False False (make_seq 0) 4 0"
  let ?opt = "(tcp_option_init 1460)\<lparr>mss_received := True, remote_mss := 0\<rparr>"
  let ?t = "sample_tcb sample_snd sample_rcv"
  have o: "t_option ?t = tcp_option_init 1460" "e_be sample_env = be_ref"
    by (simp_all add: sample_tcb_def tcb_new_def sample_env_def)
  have "write_mss be_ref 0 = [2, 4, 0, 0]"
    by (simp add: write_mss_def write_option_def be_ref_def to_be_def to_le_numeral)
  then have p: "tcp_option_parse be_ref (tcp_option_init 1460) [2, 4, 0, 0] 4 = Inr ?opt"
    using parse_mss [OF be_ok_ref, of 4 "tcp_option_init 1460" 0 "[]"] by simp
  obtain t1 where t1: "init_from_options sample_env ?th [2, 4, 0, 0] 4 ?t = Inr t1"
      "snd_unacknowledged (t_snd t1) = make_seq 101" "snd_data (t_snd t1) = []"
    using p o by (simp add: init_from_options_def get_default_receive_window_size_def shl32_def Let_def
        tcp_option_init_def sample_snd_def)
  have "data_segment_acked sample_env (make_seq 102) t1 = Inl DivByZero"
    using p o t1 by (intro zero_mss_divides_by_zero [OF t1(1)])
      (auto simp: segment_header_def less_tcp_seq_def seq_diff_def)
  with t1 show ?thesis by blast
qed

end
