(* ===== verification/TcbRecv.thy ===== *)
theory TcbRecv
  imports TcbSend
begin

text \<open>
  Correctness of the receiving side: the acceptance test against its window, the delivery of the
  peer's byte stream in order, and the states the input handlers can move to.
\<close>

subsection \<open>Acceptance\<close>

lemma sint_offset:
  assumes "- 2147483648 \<le> sint (x :: u32) + k" "sint x + k < 2147483648"
  shows "sint (x + word_of_int k) = sint x + k"
proof -
  have "x + word_of_int k = word_of_int (sint x + k)" by simp
  moreover have "sint (word_of_int (sint x + k) :: u32) = signed_take_bit 31 (sint x + k)"
    using sint_sbintrunc' [of "sint x + k", where 'a = 32] by (simp only: len_num1 len_bit0) simp
  ultimately have "sint (x + word_of_int k) = signed_take_bit 31 (sint x + k)" by (simp only:)
  also have "\<dots> = sint x + k" using assms by (intro signed_take_bit_int_eq_self) simp_all
  finally show ?thesis .
qed

lemma sint_range: "- 2147483648 \<le> sint (x :: u32)" "sint x < 2147483648"
  using sint_ge [of x] sint_less [of x] by simp_all

text \<open>C34. The acceptance test is the one of RFC 793, across the wrap around of sequence numbers:
  with \<open>off\<close> the signed distance of the segment from RCV.NXT, a segment is acceptable when its
  first or its last byte lies in the window, or when it is empty and begins in the window or, with
  a closed window, exactly at RCV.NXT.\<close>

theorem segment_acceptable_rfc793:
  assumes "off = seq_diff seg_seq (rcv_next (t_rcv t))" "wnd = int (unat (rcv_window (t_rcv t)))"
    "len = int (unat seg_len)" "wnd < 2147483648" "off + len < 2147483648" "len < 2147483648"
  shows "segment_acceptable t seg_seq seg_len \<longleftrightarrow>
    (if wnd = 0 then len = 0 \<and> off = 0
     else (0 \<le> off \<and> off < wnd) \<or> (0 < len \<and> 0 \<le> off + len - 1 \<and> off + len - 1 < wnd))"
proof -
  let ?r = "t_rcv t" and ?x = "raw seg_seq - raw (rcv_next (t_rcv t))"
  let ?last = "seq_subtract (seq_add seg_seq seg_len) 1"
  let ?edge = "seq_add (rcv_next ?r) (rcv_window ?r)"
  have x: "sint ?x = off" using assms(1) by (simp add: seq_diff_def)
  have range: "- 2147483648 \<le> off" "off < 2147483648" using sint_range [of ?x] x by simp_all
  have w: "word_of_int wnd = rcv_window ?r" "word_of_int len = seg_len" "0 \<le> wnd" "0 \<le> len"
    using assms(2,3) by simp_all
  have first: "rcv_next ?r \<le> seg_seq \<longleftrightarrow> 0 \<le> off"
    using x by (simp add: less_eq_tcp_seq_def less_tcp_seq_def seq_diff_def not_less)
  have edge: "sint (y - rcv_window ?r) < 0 \<longleftrightarrow> sint y < wnd" if "0 \<le> sint y" for y
    using sint_offset [of y "- wnd"] that sint_range [of y] assms(4) w by simp
  have first_in: "seg_seq < ?edge \<longleftrightarrow> off < wnd" if "0 \<le> off"
    using edge [of ?x] that x by (simp add: less_tcp_seq_def seq_diff_def seq_add_def algebra_simps)
  have last: "raw ?last - raw (rcv_next ?r) = ?x + word_of_int (len - 1)"
    using w by (simp add: seq_add_def seq_subtract_def)
  have last_off: "sint (?x + word_of_int (len - 1)) = off + len - 1" if "0 < len"
    using sint_offset [of ?x "len - 1"] x range assms(5) that by simp
  have last_le: "rcv_next ?r \<le> ?last \<longleftrightarrow> 0 \<le> off + len - 1" if "0 < len"
    by (simp only: less_eq_tcp_seq_def less_tcp_seq_def seq_diff_def not_less last last_off [OF that])
  have last_in: "?last < ?edge \<longleftrightarrow> off + len - 1 < wnd" if "0 < len" "0 \<le> off + len - 1"
  proof -
    have "raw ?last - raw ?edge = ?x + word_of_int (len - 1) - rcv_window ?r"
      using last by (simp add: seq_add_def algebra_simps)
    then show ?thesis
      using edge [of "?x + word_of_int (len - 1)"] last_off that
      by (simp only: less_tcp_seq_def seq_diff_def)
  qed
  have zero: "rcv_window ?r = 0 \<longleftrightarrow> wnd = 0" "seg_len = 0 \<longleftrightarrow> len = 0"
    unfolding assms(2,3) of_nat_eq_0_iff by (simp_all only: word_unat_eq_iff unat_0)
  have pos: "rcv_window ?r > 0 \<longleftrightarrow> wnd \<noteq> 0" "seg_len > 0 \<longleftrightarrow> 0 < len"
    using zero w(4) by (simp_all add: word_neq_0_conv [symmetric] less_le)
  have eq: "seg_seq = rcv_next ?r \<longleftrightarrow> off = 0"
  proof -
    have "off = 0 \<longleftrightarrow> ?x = 0" using x by (metis signed_eq_0_iff)
    then show ?thesis by (cases seg_seq; cases "rcv_next ?r") simp
  qed
  show ?thesis
    unfolding segment_acceptable_def Let_def
    using first first_in last_le last_in zero pos eq w(4) by auto
qed

theorem segment_acceptable_rfc793_witness:
  "segment_acceptable (sample_tcb sample_snd sample_rcv) (make_seq 500) 3 \<and>
   \<not> segment_acceptable (sample_tcb sample_snd sample_rcv) (make_seq 500) 1"
  using segment_acceptable_rfc793 [of "- 1" "make_seq 500" "sample_tcb sample_snd sample_rcv" 29200 3 3]
    segment_acceptable_rfc793 [of "- 1" "make_seq 500" "sample_tcb sample_snd sample_rcv" 29200 1 1]
  by (simp add: sample_rcv_def seq_diff_def)

subsection \<open>In order delivery\<close>

text \<open>
  \<open>stream\<close> is the byte stream of the peer, counted from sequence number \<open>b\<close>; the user has read
  the bytes below \<open>lo\<close>. The bytes queued for the user continue there up to RCV.NXT, and the
  segments kept out of order are pieces of the stream.
\<close>

definition rcv_stream :: "tcp_seq \<Rightarrow> (nat \<Rightarrow> byte) \<Rightarrow> nat \<Rightarrow> receive \<Rightarrow> bool" where
  "rcv_stream b stream lo r \<longleftrightarrow>
     lo \<le> dist b (rcv_next r) \<and> dist b (rcv_next r) \<le> 2147483647 \<and>
     concat (rcv_data r) = map stream [lo ..< dist b (rcv_next r)]"

definition ooo_ok :: "tcp_seq \<Rightarrow> (nat \<Rightarrow> byte) \<Rightarrow> tcp_seq merge_map \<Rightarrow> bool" where
  "ooo_ok b stream m \<longleftrightarrow> separated (dist b) 2147483647 m \<and> list_all (of_stream (dist b) stream) m"

definition recv_ok :: "tcp_seq \<Rightarrow> (nat \<Rightarrow> byte) \<Rightarrow> nat \<Rightarrow> tcb \<Rightarrow> bool" where
  "recv_ok b stream lo t \<longleftrightarrow>
     rcv_stream b stream lo (t_rcv t) \<and> ooo_ok b stream (rcv_out_of_order (t_rcv t))"

lemma map_upt_append: "i \<le> j \<Longrightarrow> j \<le> k \<Longrightarrow> map f [i ..< j] @ map f [j ..< k] = map f [i ..< k]"
  by (metis le_Suc_ex map_append upt_add_eq_append)

lemma ooo_ok_Cons:
  "ooo_ok b stream (s # m) \<Longrightarrow> ooo_ok b stream m"
  "ooo_ok b stream ((a, p) # m) \<Longrightarrow>
     dist b a + length p \<le> 2147483647 \<and> p = map stream [dist b a ..< dist b a + length p]"
  by (auto simp: ooo_ok_def separated_Cons fits_def of_stream_def)

lemma merge_ooo_loop_ok:
  assumes "ooo_ok b stream m" "rcv_stream b stream lo r"
  shows "\<exists>merged' next' size' data' m'.
    merge_ooo_loop m merged r = Inr (merged', r\<lparr>rcv_next := next', rcv_data_size := size',
       rcv_data := data', rcv_out_of_order := m'\<rparr>) \<and>
    rcv_stream b stream lo (r\<lparr>rcv_next := next', rcv_data := data'\<rparr>) \<and> ooo_ok b stream m' \<and>
    dist b (rcv_next r) \<le> dist b next'"
  using assms
proof (induction m arbitrary: merged r)
  case Nil
  then show ?case
    by (intro exI [of _ merged] exI [of _ "rcv_next r"] exI [of _ "rcv_data_size r"]
        exI [of _ "rcv_data r"] exI [of _ "[]"]) simp
next
  case (Cons s m)
  obtain a p where s: "s = (a, p)" by (cases s)
  let ?n = "dist b (rcv_next r)" and ?stop = "seq_add a (word_of_nat (length p))"
  have ap: "dist b a + length p \<le> 2147483647" "p = map stream [dist b a ..< dist b a + length p]"
    using ooo_ok_Cons(2) Cons.prems(1) s by blast+
  have m: "ooo_ok b stream m" using ooo_ok_Cons(1) Cons.prems(1) by blast
  have n: "?n \<le> 2147483647" "lo \<le> ?n" "concat (rcv_data r) = map stream [lo ..< ?n]"
    using Cons.prems(2) by (auto simp: rcv_stream_def)
  have e: "dist b ?stop = dist b a + length p" using ap(1) by (simp add: dist_add)
  have small: "?n < 2147483648" "dist b a < 2147483648" "dist b ?stop < 2147483648"
    using n ap(1) e by simp_all
  have ord: "a \<le> rcv_next r \<longleftrightarrow> dist b a \<le> ?n" "rcv_next r < ?stop \<longleftrightarrow> ?n < dist b a + length p"
      "?stop \<le> rcv_next r \<longleftrightarrow> dist b a + length p \<le> ?n"
    using seq_order_dist [OF small(2,1)] seq_order_dist [OF small(1,3)] seq_order_dist [OF small(3,1)] e
    by auto
  have diff: "dist b a \<le> ?n \<Longrightarrow> seq_diff (rcv_next r) a = int (?n - dist b a)"
    using seq_diff_dist [OF small(1,2)] by simp
  consider (take) "dist b a \<le> ?n" "?n < dist b a + length p" | (drop) "dist b a + length p \<le> ?n"
    | (stop) "?n < dist b a" by linarith
  then show ?case
  proof cases
    case take
    let ?k = "?n - dist b a"
    let ?r = "r\<lparr>rcv_next := seq_add (rcv_next r) (word_of_nat (length p - ?k)),
      rcv_data_size := rcv_data_size r + word_of_nat (length (drop ?k p)), rcv_data := rcv_data r @ [drop ?k p]\<rparr>"
    have w: "word_of_nat (length p) - word_of_int (int ?k) = (word_of_nat (length p - ?k) :: u32)"
      using take by (simp add: of_nat_diff)
    have trim: "(if int ?k \<noteq> 0 then v_trim_front p (nat (int ?k)) else Inr p) = Inr (drop ?k p)"
      using take by simp
    have "merge_ooo_loop (s # m) merged r = merge_ooo_loop m True ?r"
      using take unfolding s merge_ooo_loop.simps Let_def ord diff [OF take(1)] trim w by simp
    moreover have next': "dist b (rcv_next ?r) = dist b a + length p"
      using dist_add [of b "rcv_next r" "length p - ?k"] take ap(1) by simp
    moreover have "drop ?k p = map stream [?n ..< dist b a + length p]"
      using take by (subst ap(2)) (simp add: drop_map)
    then have "rcv_stream b stream lo ?r"
      unfolding rcv_stream_def next' using n take ap(1) by (simp add: map_upt_append)
    from Cons.IH [OF m this, of True] obtain mg nx sz dt mm where
        "merge_ooo_loop m True ?r = Inr (mg, ?r\<lparr>rcv_next := nx, rcv_data_size := sz, rcv_data := dt,
           rcv_out_of_order := mm\<rparr>)"
        "rcv_stream b stream lo (?r\<lparr>rcv_next := nx, rcv_data := dt\<rparr>)" "ooo_ok b stream mm"
        "dist b (rcv_next ?r) \<le> dist b nx" by blast
    ultimately show ?thesis
      using take by (intro exI [of _ mg] exI [of _ nx] exI [of _ sz] exI [of _ dt] exI [of _ mm])
        (simp add: rcv_stream_def)
  next
    case drop
    then have "merge_ooo_loop (s # m) merged r = merge_ooo_loop m merged r"
      using ord by (auto simp: s Let_def)
    then show ?thesis using Cons.IH [OF m Cons.prems(2)] by simp
  next
    case stop
    then have "merge_ooo_loop (s # m) merged r = Inr (merged, r\<lparr>rcv_out_of_order := s # m\<rparr>)"
      using ord by (auto simp: s Let_def)
    then show ?thesis
      using Cons.prems
      by (intro exI [of _ merged] exI [of _ "rcv_next r"] exI [of _ "rcv_data_size r"]
          exI [of _ "rcv_data r"] exI [of _ "s # m"]) simp
  qed
qed

lemma update_window_ok:
  "unat (snd_window_scale (t_snd t)) < 32 \<Longrightarrow>
     \<exists>t'. update_window e th a b t = Inr t' \<and> t_state t' = t_state t \<and> t_rcv t' = t_rcv t"
  by (simp add: update_window_def shl32_def start_persist_timer_def stop_persist_timer_def Let_def)

text \<open>A segment that acknowledges nothing new.\<close>

lemma process_ack_old:
  assumes "t_state t = ESTABLISHED" "f_ack th" "th_ack th = snd_unacknowledged (t_snd t)"
    "snd_unacknowledged (t_snd t) \<le> snd_next (t_snd t)" "unat (snd_window_scale (t_snd t)) < 32" "seg_len \<noteq> 0"
  shows "\<exists>d t'. process_ack e th seg_seq (th_ack th) seg_len t = Inr (Continue d t') \<and>
    t_state t' = ESTABLISHED \<and> t_rcv t' = t_rcv t"
proof -
  have fin: "ack_fin_states a d u = Continue d u" if "t_state u = ESTABLISHED" for a d u
    using that by (simp add: ack_fin_states_def in_state_def Let_def)
  have "\<not> snd_next (t_snd t) < snd_unacknowledged (t_snd t)"
    using assms(4) by (simp add: less_eq_tcp_seq_def)
  then have "\<exists>d t'. ack_established e th seg_seq (th_ack th) seg_len t = Inr (Continue d t') \<and>
      t_state t' = ESTABLISHED \<and> t_rcv t' = t_rcv t"
    using assms update_window_ok [OF assms(5), of e th seg_seq "snd_unacknowledged (t_snd t)"]
    by (simp add: ack_established_def Let_def) blast
  then show ?thesis
    using assms(1,2) fin by (auto simp: process_ack_def in_state_def then_flow_def Let_def)
qed

lemma recv_ok_cong:
  "rcv_next (t_rcv t') = rcv_next (t_rcv t) \<Longrightarrow> rcv_data (t_rcv t') = rcv_data (t_rcv t) \<Longrightarrow>
   rcv_out_of_order (t_rcv t') = rcv_out_of_order (t_rcv t) \<Longrightarrow> recv_ok b stream lo t' = recv_ok b stream lo t"
  by (simp add: recv_ok_def rcv_stream_def)

lemma recv_ok_keeps: "keeps t t' \<Longrightarrow> recv_ok b stream lo t' = recv_ok b stream lo t"
  by (simp add: keeps_def recv_ok_def)

lemma signal_data_received_rcv:
  "t_state (signal_data_received t) = t_state t"
  "rcv_next (t_rcv (signal_data_received t)) = rcv_next (t_rcv t)"
  "rcv_data (t_rcv (signal_data_received t)) = rcv_data (t_rcv t)"
  "rcv_out_of_order (t_rcv (signal_data_received t)) = rcv_out_of_order (t_rcv t)"
  by (simp_all add: signal_data_received_def emit_def)

lemma should_send_ack_rcv: "should_send_ack e n t = (a, t') \<Longrightarrow> t_state t' = t_state t \<and> t_rcv t' = t_rcv t"
  by (auto simp: should_send_ack_def Let_def split: if_splits)

lemma process_text_ok:
  assumes "t_state t = ESTABLISHED" "unat (rcv_window_scale (t_rcv t)) < 32" "recv_ok b stream lo t"
    "p \<noteq> []" "dist b (rcv_next (t_rcv t)) + length p \<le> 2147483647"
    "p = map stream [dist b (rcv_next (t_rcv t)) ..< dist b (rcv_next (t_rcv t)) + length p]"
  shows "\<exists>a t'. process_text e p (word_of_nat (length p)) t = Inr (Continue a t') \<and>
    t_state t' = ESTABLISHED \<and> recv_ok b stream lo t' \<and>
    dist b (rcv_next (t_rcv t)) + length p \<le> dist b (rcv_next (t_rcv t'))"
proof -
  let ?r = "t_rcv t" and ?n = "dist b (rcv_next (t_rcv t))"
  define r1 where "r1 = ?r\<lparr>rcv_data_size := rcv_data_size ?r + word_of_nat (length p),
    rcv_data := rcv_data ?r @ [p], rcv_next := seq_add (rcv_next ?r) (word_of_nat (length p))\<rparr>"
  have n: "dist b (rcv_next r1) = ?n + length p" using assms(5) by (simp add: r1_def dist_add)
  have "rcv_stream b stream lo r1"
    unfolding rcv_stream_def n
    using assms(3,5) map_upt_append [of lo ?n "?n + length p" stream, unfolded assms(6) [symmetric]]
    by (simp add: r1_def recv_ok_def rcv_stream_def)
  moreover have "ooo_ok b stream (rcv_out_of_order r1)" using assms(3) by (simp add: recv_ok_def r1_def)
  ultimately obtain mg nx sz dt mm where m: "merge_ooo_loop (rcv_out_of_order r1) False r1 =
        Inr (mg, r1\<lparr>rcv_next := nx, rcv_data_size := sz, rcv_data := dt, rcv_out_of_order := mm\<rparr>)"
      "rcv_stream b stream lo (r1\<lparr>rcv_next := nx, rcv_data := dt\<rparr>)" "ooo_ok b stream mm"
      "dist b (rcv_next r1) \<le> dist b nx"
    using merge_ooo_loop_ok by blast
  define t2 where "t2 = t\<lparr>t_rcv := r1\<lparr>rcv_next := nx, rcv_data_size := sz, rcv_data := dt, rcv_out_of_order := mm\<rparr>\<rparr>"
  have merged: "merge_out_of_order (t\<lparr>t_rcv := r1\<rparr>) = Inr (mg, t2)"
    using m(1) by (simp add: merge_out_of_order_def t2_def)
  obtain w where w: "get_modified_receive_window_size t2 = Inr w"
    using assms(2) by (simp add: get_modified_receive_window_size_def get_default_receive_window_size_def
        shl32_def t2_def r1_def Let_def)
  define t3 where "t3 = signal_data_received (t2\<lparr>t_rcv := (t_rcv t2)\<lparr>rcv_window := w\<rparr>\<rparr>)"
  have t3: "t_state t3 = ESTABLISHED" "rcv_next (t_rcv t3) = nx" "recv_ok b stream lo t3"
    using assms(1) m(2,3) by (simp_all add: t3_def signal_data_received_rcv t2_def recv_ok_def rcv_stream_def)
  obtain a t4 where a: "should_send_ack e (ucast (word_of_nat (length p) :: u32)) t3 = (a, t4)"
    by (metis surj_pair)
  have t4: "t_state t4 = ESTABLISHED" "t_rcv t4 = t_rcv t3" using should_send_ack_rcv [OF a] t3 by auto
  have "process_text e p (word_of_nat (length p)) t =
      (if mg then Inr (Continue True t3) else Inr (Continue a t4))"
    using assms(1,4) merged w a
    by (simp add: process_text_def in_state_def r1_def [symmetric] t3_def [symmetric] Let_def)
  moreover have "recv_ok b stream lo t4" using t3(3) t4(2) by (simp add: recv_ok_def)
  ultimately show ?thesis using t3 t4 m(4) n by (cases mg) auto
qed

lemma finish_input_keeps: "keeps t (finish_input a d t)"
  by (auto simp: finish_input_def Let_def split: prod.split dest!: can_send_keeps
      intro: keeps_trans [OF keeps_simps(3) keeps_simps(2)] keeps_trans [OF _ keeps_trans [OF keeps_simps(3) keeps_simps(2)]])

lemma insert_out_of_order_ok:
  assumes "recv_ok b stream lo t" "dist b seg + length p \<le> 2147483647"
    "p = map stream [dist b seg ..< dist b seg + length p]"
  shows "\<exists>t'. insert_out_of_order seg p t = Inr t' \<and> recv_ok b stream lo t' \<and> t_state t' = t_state t \<and>
    rcv_next (t_rcv t') = rcv_next (t_rcv t)"
proof -
  obtain m where "merge seq_ops (rcv_out_of_order (t_rcv t)) seg p = Inr m" "ooo_ok b stream m"
    using seq_merge.merge_of_stream [of b "rcv_out_of_order (t_rcv t)" stream seg p] assms
    by (auto simp: recv_ok_def ooo_ok_def fits_def of_stream_def)
  then show ?thesis
    using assms(1) by (simp add: insert_out_of_order_def recv_ok_def rcv_stream_def)
qed

lemma acceptable_overlap:
  assumes "segment_acceptable t seg_seq (word_of_nat (length p))" "p \<noteq> []" "seg_seq < rcv_next (t_rcv t)"
    "dist b seg_seq + length p \<le> 2147483647" "dist b (rcv_next (t_rcv t)) \<le> 2147483647"
  shows "dist b (rcv_next (t_rcv t)) < dist b seg_seq + length p"
proof -
  let ?last = "seq_subtract (seq_add seg_seq (word_of_nat (length p))) 1"
  have "?last = seq_add seg_seq (word_of_nat (length p - 1))"
    using assms(2) by (cases p) (simp_all add: seq_subtract_def seq_add_def)
  then have last: "dist b ?last = dist b seg_seq + (length p - 1)"
    using assms(4) by (simp add: dist_add del: of_nat_diff)
  have "(word_of_nat (length p) :: u32) \<noteq> 0"
    using assms(2,4) by (simp add: word_unat_eq_iff unat_of_nat_u32)
  then have "rcv_next (t_rcv t) \<le> ?last"
    using assms(1,3) by (auto simp: segment_acceptable_def Let_def less_eq_tcp_seq_def split: if_splits)
  then have "dist b (rcv_next (t_rcv t)) \<le> dist b seg_seq + (length p - 1)"
    using seq_order_dist(2) [of b "rcv_next (t_rcv t)" ?last] last assms(4,5) by simp
  moreover have "0 < length p" using assms(2) by simp
  ultimately show ?thesis by arith
qed

lemma input_in_order_ok:
  assumes st: "t_state t = ESTABLISHED" and hdr: "\<not> f_fin th" "\<not> f_syn th" "\<not> f_rst th" "f_ack th"
    and ack: "th_ack th = snd_unacknowledged (t_snd t)" "snd_unacknowledged (t_snd t) \<le> snd_next (t_snd t)"
    and scale: "unat (snd_window_scale (t_snd t)) < 32" "unat (rcv_window_scale (t_rcv t)) < 32"
    and ok: "recv_ok b stream lo t"
    and p: "p \<noteq> []" "dist b (rcv_next (t_rcv t)) + length p \<le> 2147483647"
      "p = map stream [dist b (rcv_next (t_rcv t)) ..< dist b (rcv_next (t_rcv t)) + length p]"
  shows "\<exists>t'. input_in_order e th seg_seq p (word_of_nat (length p)) t = Inr (Return t') \<and>
    t_state t' = ESTABLISHED \<and> recv_ok b stream lo t' \<and>
    dist b (rcv_next (t_rcv t)) + length p \<le> dist b (rcv_next (t_rcv t'))"
proof -
  have "(word_of_nat (length p) :: u32) \<noteq> 0"
    using p by (simp add: word_unat_eq_iff unat_of_nat_u32)
  then obtain d t2 where 2: "process_ack e th seg_seq (th_ack th) (word_of_nat (length p)) t = Inr (Continue d t2)"
      "t_state t2 = ESTABLISHED" "t_rcv t2 = t_rcv t"
    using process_ack_old [OF st hdr(4) ack scale(1)] by blast
  have "recv_ok b stream lo t2" using ok 2(3) by (simp add: recv_ok_def)
  then obtain a t3 where 3: "process_text e p (word_of_nat (length p)) t2 = Inr (Continue a t3)"
      "t_state t3 = ESTABLISHED" "recv_ok b stream lo t3"
      "dist b (rcv_next (t_rcv t)) + length p \<le> dist b (rcv_next (t_rcv t3))"
    using process_text_ok [of t2 b stream lo p e] 2 scale(2) p by auto
  have "input_in_order e th seg_seq p (word_of_nat (length p)) t = Inr (Return (finish_input a d t3))"
    using hdr 2(1) 3(1) by (simp add: input_in_order_def then_flow_def process_rst_syn_def process_fin_def)
  then show ?thesis
    using 3 finish_input_keeps [of t3 a d] by (auto simp: keeps_def recv_ok_def)
qed

text \<open>
  An acceptable segment with text: what was received before is cut off its front, and the rest is in order
  or kept for later.
\<close>

lemma acceptable_segment_handled:
  assumes acc: "segment_acceptable t (th_seq th) (word_of_nat (length p))"
    and pkt: "unat (data_offset th) * 4 < length pkt" "p = drop (unat (data_offset th) * 4) pkt"
    and p: "dist b (th_seq th) + length p \<le> 2147483647"
      "p = map stream [dist b (th_seq th) ..< dist b (th_seq th) + length p]"
    and n: "dist b (rcv_next (t_rcv t)) \<le> 2147483647"
  shows "\<exists>seq1 p1. p1 \<noteq> [] \<and> p1 = map stream [dist b seq1 ..< dist b seq1 + length p1] \<and>
    dist b seq1 + length p1 = dist b (th_seq th) + length p \<and> dist b seq1 = max (dist b (th_seq th)) (dist b (rcv_next (t_rcv t))) \<and>
    input_handle_other_state e th pkt t =
      (if seq1 \<noteq> rcv_next (t_rcv t) then andThen (insert_out_of_order seq1 p1 t) (\<lambda>t1. Inr (tcb_output t1))
       else andThen (input_in_order e th seq1 p1 (word_of_nat (length p1)) t) (\<lambda>fl. Inr (flow_end fl)))"
proof -
  let ?seq = "th_seq th" and ?nxt = "rcv_next (t_rcv t)"
  let ?s = "dist b ?seq" and ?n = "dist b ?nxt" and ?len = "word_of_nat (length p) :: u32"
  have ne: "p \<noteq> []" using pkt by auto
  have small: "?s < 2147483648" "?n < 2147483648" using n p(1) by simp_all
  have ord: "?seq < ?nxt \<longleftrightarrow> ?s < ?n" "?seq \<le> ?nxt \<longleftrightarrow> ?s \<le> ?n" using seq_order_dist [OF small] by auto
  define dup where "dup = (if ?s < ?n then ?n - ?s else 0)"
  let ?p1 = "drop dup p" and ?seq1 = "seq_add ?seq (word_of_nat dup)"
  have dup: "dup < length p" "?s < ?n \<longrightarrow> ?s + dup = ?n"
    using acceptable_overlap [OF acc ne _ p(1) n] ord ne by (auto simp: dup_def)
  have wdup: "(if ?seq < ?nxt then min (word_of_int (seq_diff ?nxt ?seq)) ?len else 0) = (word_of_nat dup :: u32)"
  proof (cases "?s < ?n")
    case True
    then have "seq_diff ?nxt ?seq = int dup" using seq_diff_dist [OF small(2,1)] by (simp add: dup_def)
    moreover have "(word_of_nat dup :: u32) \<le> ?len"
      using dup(1) p(1) by (simp add: of_nat_le_u32 unat_of_nat_u32)
    ultimately show ?thesis using True ord by (simp add: min_def)
  qed (simp add: ord dup_def)
  have udup: "unat (word_of_nat dup :: u32) = dup" using dup(1) p(1) by (simp add: unat_of_nat_u32)
  have wlen: "?len - word_of_nat dup = word_of_nat (length ?p1)" using dup(1) by (simp add: of_nat_diff)
  have trim: "(if ?seq < ?nxt then v_trim_front p dup else Inr p) = Inr ?p1"
    by (cases "?s < ?n") (use dup(1) ord in \<open>simp_all add: dup_def\<close>)
  have s1: "dist b ?seq1 = ?s + dup" using dup(1) p(1) by (simp add: dist_add)
  have p1: "?p1 = map stream [dist b ?seq1 ..< dist b ?seq1 + length ?p1]" "?p1 \<noteq> []"
      "dist b ?seq1 + length ?p1 = ?s + length p"
    using dup(1) s1 arg_cong [OF p(2), of "drop dup"] ne by (simp_all add: drop_map)
  have "input_handle_other_state e th pkt t =
      (if ?seq1 \<noteq> ?nxt then andThen (insert_out_of_order ?seq1 ?p1 t) (\<lambda>t1. Inr (tcb_output t1))
       else andThen (input_in_order e th ?seq1 ?p1 (word_of_nat (length ?p1)) t) (\<lambda>fl. Inr (flow_end fl)))"
    using pkt acc unfolding input_handle_other_state_def Let_def
    by (simp only: v_trim_front_ok less_imp_le andThen.simps pkt(2) [symmetric] wdup udup trim wlen) simp
  moreover have "dist b ?seq1 = max ?s ?n" using s1 dup(2) by (auto simp: dup_def)
  ultimately show ?thesis using p1 by blast
qed

text \<open>C11. In order delivery: in an established connection, a data segment cut from the peer's byte
  stream, whether it is old, overlaps, fills the gap or is out of order, never makes the handler
  fail, and the bytes queued for the user stay the stream up to RCV.NXT, in order, without loss,
  duplication or reordering. A segment that reaches RCV.NXT and is acceptable is delivered whole.\<close>

theorem data_segments_delivered_in_order:
  assumes "t_state t = ESTABLISHED" "\<not> f_fin th" "\<not> f_syn th" "\<not> f_rst th" "f_ack th"
    "th_ack th = snd_unacknowledged (t_snd t)" "snd_unacknowledged (t_snd t) \<le> snd_next (t_snd t)"
    "unat (snd_window_scale (t_snd t)) < 32" "unat (rcv_window_scale (t_rcv t)) < 32"
    and ok: "recv_ok b stream lo t"
    and pkt: "unat (data_offset th) * 4 < length pkt" "p = drop (unat (data_offset th) * 4) pkt"
    and p: "dist b (th_seq th) + length p \<le> 2147483647"
      "p = map stream [dist b (th_seq th) ..< dist b (th_seq th) + length p]"
  shows "\<exists>t'. input_handle_other_state e th pkt t = Inr t' \<and> t_state t' = ESTABLISHED \<and>
    recv_ok b stream lo t' \<and> dist b (rcv_next (t_rcv t)) \<le> dist b (rcv_next (t_rcv t')) \<and>
    (segment_acceptable t (th_seq th) (word_of_nat (length p)) \<and> th_seq th \<le> rcv_next (t_rcv t) \<longrightarrow>
       dist b (th_seq th) + length p \<le> dist b (rcv_next (t_rcv t')))"
proof -
  let ?seq = "th_seq th" and ?nxt = "rcv_next (t_rcv t)"
  let ?s = "dist b ?seq" and ?n = "dist b ?nxt" and ?len = "word_of_nat (length p) :: u32"
  have n: "?n \<le> 2147483647" using ok by (simp add: recv_ok_def rcv_stream_def)
  have small: "?s < 2147483648" "?n < 2147483648" using n p(1) by simp_all
  have ord: "?seq \<le> ?nxt \<longleftrightarrow> ?s \<le> ?n" using seq_order_dist [OF small] by auto
  have keep: "recv_ok b stream lo (tcb_output u) = recv_ok b stream lo u" "t_state (tcb_output u) = t_state u"
      "t_rcv (tcb_output u) = t_rcv u" for u
    using recv_ok_keeps [OF keeps_simps(2)] keeps_simps(2) [of u] by (auto simp: keeps_def)
  show ?thesis
  proof (cases "segment_acceptable t ?seq ?len")
    case False
    then have "input_handle_other_state e th pkt t = Inr (tcb_output t)"
      using pkt by (simp add: input_handle_other_state_def Let_def)
    then show ?thesis using False ok assms(1) keep by simp
  next
    case acc: True
    obtain seq1 p1 where h: "p1 \<noteq> []" "p1 = map stream [dist b seq1 ..< dist b seq1 + length p1]"
        "dist b seq1 + length p1 = ?s + length p" "dist b seq1 = max ?s ?n"
        "input_handle_other_state e th pkt t =
          (if seq1 \<noteq> ?nxt then andThen (insert_out_of_order seq1 p1 t) (\<lambda>t1. Inr (tcb_output t1))
           else andThen (input_in_order e th seq1 p1 (word_of_nat (length p1)) t) (\<lambda>fl. Inr (flow_end fl)))"
      using acceptable_segment_handled [OF acc pkt p n] by blast
    show ?thesis
    proof (cases "seq1 = ?nxt")
      case False
      then have "\<not> ?s \<le> ?n"
        using h(4) by (auto simp: max_def dist_def word_unat_eq_iff [symmetric] split: if_splits)
          (metis add_diff_cancel_right' tcp_seq.expand)+
      then show ?thesis
        using insert_out_of_order_ok [OF ok _ h(2)] h(3,5) p(1) False assms(1) keep ord by auto
    next
      case True
      then show ?thesis
        using input_in_order_ok [OF assms(1-9) ok h(1), of e seq1] h(2-5) p(1) True by (auto simp: flow_end_def)
    qed
  qed
qed

theorem data_segments_delivered_in_order_witness:
  "\<exists>t'. input_handle_other_state sample_env
      ((segment_header (sample_tcb sample_snd sample_rcv) False True False (make_seq 501) 0 8000)
         \<lparr>th_ack := make_seq 101\<rparr>)
      (replicate 20 0 @ [9, 9]) (sample_tcb sample_snd sample_rcv) = Inr t' \<and>
    recv_ok (make_seq 501) (\<lambda>_. 9) 0 t' \<and> 2 \<le> dist (make_seq 501) (rcv_next (t_rcv t'))"
proof -
  let ?t = "sample_tcb sample_snd sample_rcv"
  let ?th = "(segment_header ?t False True False (make_seq 501) 0 8000)\<lparr>th_ack := make_seq 101\<rparr>"
  have d: "dist (make_seq 501) (make_seq 501) = 0" by (simp add: dist_def)
  have "recv_ok (make_seq 501) (\<lambda>_. 9) 0 ?t"
    by (simp add: recv_ok_def rcv_stream_def ooo_ok_def separated_def sample_rcv_def d)
  moreover have "segment_acceptable ?t (make_seq 501) 2"
    by (simp add: segment_acceptable_def sample_rcv_def Let_def less_tcp_seq_def seq_add_def seq_diff_def)
  moreover have th: "th_seq ?th = make_seq 501" "th_ack ?th = make_seq 101" "data_offset ?th = 5"
      "f_fin ?th = False" "f_syn ?th = False" "f_rst ?th = False" "f_ack ?th = True"
    by (simp_all add: segment_header_def)
  moreover have "\<exists>t'. input_handle_other_state sample_env ?th (replicate 20 0 @ [9, 9]) ?t = Inr t' \<and>
      t_state t' = ESTABLISHED \<and> recv_ok (make_seq 501) (\<lambda>_. 9) 0 t' \<and>
      dist (make_seq 501) (rcv_next (t_rcv ?t)) \<le> dist (make_seq 501) (rcv_next (t_rcv t')) \<and>
      (segment_acceptable ?t (th_seq ?th) (word_of_nat (length [9, 9 :: byte])) \<and>
       th_seq ?th \<le> rcv_next (t_rcv ?t) \<longrightarrow>
       dist (make_seq 501) (th_seq ?th) + length [9, 9 :: byte] \<le> dist (make_seq 501) (rcv_next (t_rcv t')))"
    by (rule data_segments_delivered_in_order)
      (use th calculation(1) in \<open>simp_all add: d upt_rec sample_snd_def sample_rcv_def\<close>)
  ultimately show ?thesis by (auto simp: d sample_rcv_def)
qed

end
