(* ===== verification/TcbStates.thy ===== *)
theory TcbStates
  imports TcbRecv
begin

text \<open>
  A connection as a state machine: the steps a tcb can take (segments, timers, polling, the
  user's calls, continuations), the states a step may move to, and the invariant of every
  reachable tcb.
\<close>

subsection \<open>The invariant\<close>

definition tcb_inv :: "connid \<Rightarrow> tcb \<Rightarrow> bool" where
  "tcb_inv cid t \<longleftrightarrow> t_id t = cid \<and> rto_ok t \<and> t_persist_time_out t \<le> rto_max \<and>
     rcv_window_scale (t_rcv t) \<in> {0, 7} \<and> local_win_scale (t_option t) \<in> {0, 7}"

text \<open>A change that keeps the state of the connection and the invariant.\<close>

definition stays :: "tcb \<Rightarrow> tcb \<Rightarrow> bool" where
  "stays t t' \<longleftrightarrow> t_state t' = t_state t \<and> (\<forall>cid. tcb_inv cid t \<longrightarrow> tcb_inv cid t')"

lemma keeps_state: "keeps t t' \<Longrightarrow> t_state t' = t_state t \<and> (\<forall>cid. tcb_inv cid t' = tcb_inv cid t)"
  by (simp add: keeps_def tcb_inv_def rto_ok_def)

lemma keeps_state_simps [simp]:
  "t_state (tcb_output t) = t_state t" "tcb_inv cid (tcb_output t) = tcb_inv cid t"
  "t_state (clear_delayed_ack t) = t_state t" "tcb_inv cid (clear_delayed_ack t) = tcb_inv cid t"
  "t_state (exit_fast_recovery t) = t_state t" "tcb_inv cid (exit_fast_recovery t) = tcb_inv cid t"
  "t_state (emit ev t) = t_state t" "tcb_inv cid (emit ev t) = tcb_inv cid t"
  "t_state (set_retransmit_timer e t) = t_state t" "tcb_inv cid (set_retransmit_timer e t) = tcb_inv cid t"
  "t_state (start_retransmit_timer now t) = t_state t" "tcb_inv cid (start_retransmit_timer now t) = tcb_inv cid t"
  "t_state (start_persist_timer now t) = t_state t" "tcb_inv cid (start_persist_timer now t) = tcb_inv cid t"
  "t_state (stop_persist_timer t) = t_state t" "tcb_inv cid (stop_persist_timer t) = tcb_inv cid t"
  "t_state (signal_send_available t) = t_state t" "tcb_inv cid (signal_send_available t) = tcb_inv cid t"
  "t_state (finish_input a d t) = t_state t" "tcb_inv cid (finish_input a d t) = tcb_inv cid t"
  using keeps_state [OF keeps_simps(2)] keeps_state [OF keeps_simps(3)] keeps_state [OF keeps_simps(4)]
    keeps_state [OF keeps_simps(6)] keeps_state [OF keeps_simps(8)] keeps_state [OF keeps_simps(10)]
    keeps_state [OF keeps_simps(11)] keeps_state [OF keeps_simps(12)] keeps_state [OF keeps_simps(14)]
    keeps_state [OF finish_input_keeps] by auto

lemma state_simps [simp]:
  "t_state (cleanup t) = t_state t" "tcb_inv cid (cleanup t) = tcb_inv cid t"
  "t_state (signal_data_received t) = t_state t" "tcb_inv cid (signal_data_received t) = tcb_inv cid t"
  "t_state (do_local_fin_acked t) = t_state t" "tcb_inv cid (do_local_fin_acked t) = tcb_inv cid t"
  "t_state (abort_reader t) = t_state t" "tcb_inv cid (abort_reader t) = tcb_inv cid t"
  "t_state (do_setup_isn e t) = t_state t" "tcb_inv cid (do_setup_isn e t) = tcb_inv cid t"
  "tcb_inv cid (t\<lparr>t_state := s\<rparr>) = tcb_inv cid t" "tcb_inv cid (t\<lparr>t_snd := sn\<rparr>) = tcb_inv cid t"
  "tcb_inv cid (t\<lparr>t_packetq := pq\<rparr>) = tcb_inv cid t" "tcb_inv cid (t\<lparr>t_poll_active := pa\<rparr>) = tcb_inv cid t"
  "tcb_inv cid (t\<lparr>t_nr_full_seg_received := nf\<rparr>) = tcb_inv cid t" "tcb_inv cid (t\<lparr>t_delayed_ack := da\<rparr>) = tcb_inv cid t"
  "tcb_inv cid (t\<lparr>t_retransmit := da\<rparr>) = tcb_inv cid t" "tcb_inv cid (t\<lparr>t_persist := da\<rparr>) = tcb_inv cid t"
  "rcv_window_scale r = rcv_window_scale (t_rcv t) \<Longrightarrow> tcb_inv cid (t\<lparr>t_rcv := r\<rparr>) = tcb_inv cid t"
  "t_state (update_rto e x t) = t_state t" "tcb_inv cid t \<Longrightarrow> tcb_inv cid (update_rto e x t)"
  by (auto simp: tcb_inv_def cleanup_def emit_def clear_delayed_ack_def stop_retransmit_timer_def
      rto_ok_def signal_data_received_def do_local_fin_acked_def abort_reader_def do_setup_isn_def
      update_rto_def Let_def)

lemma do_reset_state [simp]: "t_state (do_reset t) = CLOSED" "tcb_inv cid (do_reset t) = tcb_inv cid t"
  by (simp_all add: do_reset_def Let_def)

lemma do_end_state [simp]:
  "t_state (do_closed t) = CLOSED" "tcb_inv cid (do_closed t) = tcb_inv cid t"
  "t_state (do_time_wait t) = TIME_WAIT" "tcb_inv cid (do_time_wait t) = tcb_inv cid t"
  "t_state (do_established e t) = ESTABLISHED" "tcb_inv cid t \<Longrightarrow> tcb_inv cid (do_established e t)"
  "t_state (do_syn_received e t) = SYN_RECEIVED" "tcb_inv cid (do_syn_received e t) = tcb_inv cid t"
  "t_state (do_syn_sent e t) = SYN_SENT" "tcb_inv cid (do_syn_sent e t) = tcb_inv cid t"
  by (simp_all add: do_closed_def do_time_wait_def do_established_def do_syn_received_def do_syn_sent_def Let_def)

subsection \<open>Acknowledgements and text\<close>

lemma stays_trans: "stays a b \<Longrightarrow> stays b c \<Longrightarrow> stays a c"
  by (simp add: stays_def)

lemma keeps_stays: "keeps t t' \<Longrightarrow> stays t t'"
  by (simp add: keeps_state stays_def)

lemma ack_full_segments_stays: "ack_full_segments e a segs n t = Inr (n', t') \<Longrightarrow> stays t t'"
proof (induction segs arbitrary: n t)
  case Nil
  then show ?case by (simp add: stays_def)
next
  case (Cons seg segs)
  then show ?case
    by (auto simp: Let_def stays_def split: if_splits sum.splits dest!: update_cwnd_keeps keeps_state)
qed

lemma data_segment_acked_stays: "data_segment_acked e a t = Inr (n, t') \<Longrightarrow> stays t t'"
proof -
  assume a: "data_segment_acked e a t = Inr (n, t')"
  then obtain n1 t1 where 1: "ack_full_segments e a (snd_data (t_snd t)) 0 t = Inr (n1, t1)"
    by (auto simp: data_segment_acked_def)
  have snd: "stays t1 t2 \<Longrightarrow> update_cwnd k (t2\<lparr>t_snd := sn\<rparr>) = Inr t4 \<Longrightarrow> stays t1 t4" for t2 k sn t4
    using keeps_state [OF update_cwnd_keeps, of k "t2\<lparr>t_snd := sn\<rparr>" t4] by (simp add: stays_def)
  have self: "stays t1 t1" "stays t1 (t1\<lparr>t_snd := sn\<rparr>)" for sn by (simp_all add: stays_def)
  have "stays t1 t'"
    using a 1 snd [OF self(1)] snd [OF self(2)] self
    by (cases "snd_data (t_snd t1)") (auto simp: data_segment_acked_def Let_def simp del: tcb.update_convs split: if_splits)
  then show ?thesis using ack_full_segments_stays [OF 1] stays_trans by blast
qed

lemma update_window_stays: "update_window e th a b t = Inr t' \<Longrightarrow> stays t t'"
  unfolding update_window_def Let_def
  by (auto simp: stays_def stop_persist_timer_def split: if_splits)
    (auto simp: tcb_inv_def rto_ok_def)

lemma fast_retransmit_stays: "fast_retransmit e t = Inr t' \<Longrightarrow> stays t t'"
  by (rule keeps_stays) (rule fast_retransmit_keeps)

lemma in_recovery_ack_stays: "in_recovery_ack e a n t = Inr t' \<Longrightarrow> stays t t'"
  unfolding in_recovery_ack_def Let_def
  by (auto simp: stays_def split: if_splits dest!: fast_retransmit_stays)

lemma ack_new_data_stays: "ack_new_data e th a b t = Inr t' \<Longrightarrow> stays t t'"
  unfolding ack_new_data_def
  by (auto simp: stays_def split: if_splits dest!: data_segment_acked_stays update_window_stays in_recovery_ack_stays)

lemma ack_duplicate_stays: "ack_duplicate e a t = Inr (d, t') \<Longrightarrow> stays t t'"
  unfolding ack_duplicate_def Let_def
  by (auto simp: stays_def split: if_splits dest!: fast_retransmit_stays)

lemma ack_established_stays: "ack_established e th a b n t = Inr fl \<Longrightarrow> stays t (flow_end fl)"
  unfolding ack_established_def Let_def
  by (auto simp: stays_def flow_end_def split: if_splits dest!: ack_new_data_stays ack_duplicate_stays update_window_stays)

lemma merge_ooo_loop_scale: "merge_ooo_loop m b r = Inr (c, r') \<Longrightarrow> rcv_window_scale r' = rcv_window_scale r"
  by (induction m arbitrary: b r) (auto simp: Let_def split: if_splits sum.splits)

lemma should_send_ack_stays: "should_send_ack e n t = (a, t') \<Longrightarrow> stays t t'"
  by (auto simp: should_send_ack_def Let_def stays_def split: if_splits)

lemma process_text_stays: "process_text e p n t = Inr fl \<Longrightarrow> stays t (flow_end fl)"
  unfolding process_text_def Let_def merge_out_of_order_def
  by (auto simp: stays_def flow_end_def split: if_splits prod.splits dest!: merge_ooo_loop_scale should_send_ack_stays)

subsection \<open>The moves of the input handlers\<close>

text \<open>The states a single step may reach.\<close>

fun may_move :: "tcp_state \<Rightarrow> tcp_state set" where
  "may_move CLOSED = {CLOSED}"
| "may_move LISTEN = {LISTEN, CLOSED}"
| "may_move SYN_SENT = {SYN_SENT, SYN_RECEIVED, ESTABLISHED, CLOSED}"
| "may_move SYN_RECEIVED = {SYN_RECEIVED, ESTABLISHED, CLOSE_WAIT, CLOSED}"
| "may_move ESTABLISHED = {ESTABLISHED, FIN_WAIT_1, CLOSE_WAIT, CLOSED}"
| "may_move FIN_WAIT_1 = {FIN_WAIT_1, FIN_WAIT_2, CLOSING, TIME_WAIT, CLOSED}"
| "may_move FIN_WAIT_2 = {FIN_WAIT_2, TIME_WAIT, CLOSED}"
| "may_move CLOSE_WAIT = {CLOSE_WAIT, LAST_ACK, CLOSED}"
| "may_move CLOSING = {CLOSING, TIME_WAIT, CLOSED}"
| "may_move LAST_ACK = {LAST_ACK, CLOSED}"
| "may_move TIME_WAIT = {TIME_WAIT, CLOSED}"

definition moves :: "tcb \<Rightarrow> tcb \<Rightarrow> bool" where
  "moves t t' \<longleftrightarrow> t_state t' \<in> may_move (t_state t) \<and> (\<forall>cid. tcb_inv cid t \<longrightarrow> tcb_inv cid t')"

lemma may_move_self [simp]: "s \<in> may_move s"
  by (cases s) simp_all

lemma stays_moves: "stays t t' \<Longrightarrow> moves t t'"
  by (simp add: stays_def moves_def)

lemma moves_closed: "t_state t' = CLOSED \<Longrightarrow> (\<forall>cid. tcb_inv cid t' = tcb_inv cid t) \<Longrightarrow> moves t t'"
  by (cases "t_state t") (simp_all add: moves_def)

fun ack_move :: "tcp_state \<Rightarrow> tcp_state set" where
  "ack_move SYN_RECEIVED = {SYN_RECEIVED, ESTABLISHED}"
| "ack_move FIN_WAIT_1 = {FIN_WAIT_1, FIN_WAIT_2}"
| "ack_move CLOSING = {CLOSING, TIME_WAIT}"
| "ack_move LAST_ACK = {LAST_ACK, CLOSED}"
| "ack_move s = {s}"

fun fin_move :: "tcp_state \<Rightarrow> tcp_state set" where
  "fin_move SYN_RECEIVED = {SYN_RECEIVED, CLOSE_WAIT}"
| "fin_move ESTABLISHED = {ESTABLISHED, CLOSE_WAIT}"
| "fin_move FIN_WAIT_1 = {FIN_WAIT_1, CLOSING}"
| "fin_move FIN_WAIT_2 = {FIN_WAIT_2, TIME_WAIT}"
| "fin_move s = {s}"

lemma move_compose: "s1 \<in> ack_move s \<Longrightarrow> s2 \<in> fin_move s1 \<Longrightarrow> s2 \<in> may_move s"
  by (cases s) auto

lemma fin_move_self [simp]: "s \<in> fin_move s"
  by (cases s) simp_all

lemma ack_move_may: "s1 \<in> ack_move s \<Longrightarrow> s1 \<in> may_move s"
  using move_compose fin_move_self by blast

lemma ack_fin_states_move:
  "t_state (flow_end (ack_fin_states a d t)) \<in> ack_move (t_state t) \<and>
   (\<forall>cid. tcb_inv cid (flow_end (ack_fin_states a d t)) = tcb_inv cid t)"
  by (cases "t_state t") (auto simp: ack_fin_states_def flow_end_def in_state_def Let_def)

lemma ack_fin_states_established:
  "t_state t \<in> {ESTABLISHED, CLOSE_WAIT} \<Longrightarrow> ack_fin_states a d t = Continue d t"
  by (auto simp: ack_fin_states_def in_state_def Let_def)

lemma process_ack_move:
  assumes "process_ack e th a b n t = Inr fl"
  shows "t_state (flow_end fl) \<in> ack_move (t_state t) \<and> (\<forall>cid. tcb_inv cid t \<longrightarrow> tcb_inv cid (flow_end fl))"
proof -
  define t1 where "t1 = (if in_state t {SYN_RECEIVED} then emit Add_connected_tcb (do_established e t) else t)"
  have t1: "\<forall>cid. tcb_inv cid t \<longrightarrow> tcb_inv cid t1" by (auto simp: t1_def)
  have s1: "t_state t1 = (if t_state t = SYN_RECEIVED then ESTABLISHED else t_state t)"
    by (simp add: t1_def in_state_def)
  consider (ret) u where "fl = Return u" "t_state u = t_state t" "(\<forall>cid. tcb_inv cid u = tcb_inv cid t)"
    | (est) fl1 where "t_state t1 \<in> {ESTABLISHED, CLOSE_WAIT}" "ack_established e th a b n t1 = Inr fl1"
        "then_flow (Inr fl1) (\<lambda>d t2. Inr (ack_fin_states b d t2)) = Inr fl"
    | (other) "t_state t1 \<notin> {ESTABLISHED, CLOSE_WAIT}" "fl = ack_fin_states b False t1"
    using assms unfolding process_ack_def Let_def t1_def [symmetric]
    by (auto simp: in_state_def then_flow_def split: if_splits)
  then show ?thesis
  proof cases
    case ret
    then show ?thesis by (cases "t_state t") (simp_all add: flow_end_def)
  next
    case est
    then have st: "stays t1 (flow_end fl1)" using ack_established_stays by blast
    then have "flow_end fl = flow_end fl1"
      using est(1,3) ack_fin_states_established
      by (cases fl1) (auto simp: then_flow_def flow_end_def stays_def)
    then show ?thesis
      using st t1 s1 est(1) by (cases "t_state t") (auto simp: stays_def)
  next
    case other
    then show ?thesis
      using ack_fin_states_move [of b False t1] s1 t1 by (cases "t_state t") auto
  qed
qed

lemma process_fin_move:
  "t_state (flow_end (process_fin th a n d t)) \<in> fin_move (t_state t) \<and>
   (\<forall>cid. tcb_inv cid (flow_end (process_fin th a n d t)) = tcb_inv cid t)"
  by (cases "t_state t") (auto simp: process_fin_def flow_end_def in_state_def Let_def)

lemma then_flow_cases:
  assumes "then_flow (Inr fl) k = Inr fl'"
  shows "(\<exists>t. fl = Return t \<and> fl' = Return t) \<or> (\<exists>d t. fl = Continue d t \<and> k d t = Inr fl')"
  using assms by (cases fl) (auto simp: then_flow_def)

lemma then_flow_Inr: "then_flow m k = Inr fl' \<Longrightarrow> \<exists>fl. m = Inr fl \<and> then_flow (Inr fl) k = Inr fl'"
  by (cases m) (auto simp: then_flow_def)

lemma then_flow_Continue: "then_flow (Inr (Continue d t)) k = k d t"
  by (simp add: then_flow_def)

lemma input_in_order_moves:
  assumes "input_in_order e th a p n t = Inr fl"
  shows "moves t (flow_end fl)"
proof (cases "process_rst_syn th t")
  case (Return u)
  then have "fl = Return u" "t_state u = CLOSED" "(\<forall>cid. tcb_inv cid u = tcb_inv cid t)"
    using assms by (auto simp: input_in_order_def then_flow_def process_rst_syn_def split: if_splits)
  then show ?thesis by (auto simp: flow_end_def intro: moves_closed)
next
  case (Continue d u)
  then have u: "u = t" by (auto simp: process_rst_syn_def split: if_splits)
  obtain fl1 where 1: "process_ack e th a (th_ack th) n t = Inr fl1"
      "then_flow (Inr fl1) (\<lambda>dd t2. then_flow (process_text e p n t2) (\<lambda>d3 t3.
         then_flow (Inr (process_fin th a n d3 t3)) (\<lambda>d4 t4. Inr (Return (finish_input d4 dd t4))))) = Inr fl"
  proof -
    have "then_flow (process_ack e th a (th_ack th) n t) (\<lambda>dd t2. then_flow (process_text e p n t2)
        (\<lambda>d3 t3. then_flow (Inr (process_fin th a n d3 t3))
           (\<lambda>d4 t4. Inr (Return (finish_input d4 dd t4))))) = Inr fl"
      using assms Continue u by (simp add: input_in_order_def then_flow_Continue)
    from then_flow_Inr [OF this] that show thesis by blast
  qed
  note m1 = process_ack_move [OF 1(1)]
  from then_flow_cases [OF 1(2)] show ?thesis
  proof (elim disjE exE conjE)
    fix v assume "fl1 = Return v" "fl = Return v"
    then show ?thesis using m1 ack_move_may by (auto simp: moves_def flow_end_def)
  next
    fix dd t2
    assume c1: "fl1 = Continue dd t2" and k1: "then_flow (process_text e p n t2) (\<lambda>d3 t3.
         then_flow (Inr (process_fin th a n d3 t3)) (\<lambda>d4 t4. Inr (Return (finish_input d4 dd t4)))) = Inr fl"
    have m2: "t_state t2 \<in> ack_move (t_state t)" "\<forall>cid. tcb_inv cid t \<longrightarrow> tcb_inv cid t2"
      using m1 c1 by (auto simp: flow_end_def)
    obtain fl2 where 2: "process_text e p n t2 = Inr fl2"
        "then_flow (Inr fl2) (\<lambda>d3 t3. then_flow (Inr (process_fin th a n d3 t3))
           (\<lambda>d4 t4. Inr (Return (finish_input d4 dd t4)))) = Inr fl"
      using then_flow_Inr [OF k1] by blast
    have s2: "stays t2 (flow_end fl2)" by (rule process_text_stays [OF 2(1)])
    from then_flow_cases [OF 2(2)] show ?thesis
    proof (elim disjE exE conjE)
      fix v assume "fl2 = Return v" "fl = Return v"
      then show ?thesis using m2 s2 ack_move_may by (auto simp: moves_def flow_end_def stays_def)
    next
      fix d3 t3
      assume c2: "fl2 = Continue d3 t3" and k2: "then_flow (Inr (process_fin th a n d3 t3))
          (\<lambda>d4 t4. Inr (Return (finish_input d4 dd t4))) = Inr fl"
      have m3: "t_state t3 \<in> ack_move (t_state t)" "\<forall>cid. tcb_inv cid t \<longrightarrow> tcb_inv cid t3"
        using m2 s2 c2 by (auto simp: flow_end_def stays_def)
      have "t_state (flow_end fl) = t_state (flow_end (process_fin th a n d3 t3)) \<and>
          (\<forall>cid. tcb_inv cid (flow_end fl) = tcb_inv cid (flow_end (process_fin th a n d3 t3)))"
        using then_flow_cases [OF k2] by (auto simp: flow_end_def)
      then show ?thesis
        using process_fin_move [of th a n d3 t3] m3 move_compose by (auto simp: moves_def)
    qed
  qed
qed

lemma input_handle_other_state_moves:
  assumes "input_handle_other_state e th pkt t = Inr t'"
  shows "moves t t'"
  using assms unfolding input_handle_other_state_def Let_def
  by (auto simp: insert_out_of_order_def moves_def stays_def split: if_splits
      dest!: input_in_order_moves)

subsection \<open>Opening a connection\<close>

definition scale_ok :: "tcp_option \<Rightarrow> bool" where
  "scale_ok opt \<longleftrightarrow> local_win_scale opt \<in> {0, 7}"

lemma parse_scale_ok: "scale_ok opt \<Longrightarrow> tcp_option_parse be opt mem n = Inr opt' \<Longrightarrow> scale_ok opt'"
proof (induction n arbitrary: mem opt rule: less_induct)
  case (less n)
  have step: "scale_ok opt'" if "tcp_option_parse be o1 mem1 (n - k) = Inr opt'" "0 < n" "0 < k" "scale_ok o1" for o1 mem1 k
    using less.IH [of "n - k" o1 mem1] that by auto
  have upd: "scale_ok (opt\<lparr>mss_received := True, remote_mss := v\<rparr>)"
      "scale_ok (opt\<lparr>win_scale_received := True, remote_win_scale := w, local_win_scale := 7\<rparr>)"
      "scale_ok (opt\<lparr>sack_received := True\<rparr>)" for v w
    using less.prems(1) by (simp_all add: scale_ok_def)
  show ?case
    using less.prems(2) less.prems(1) unfolding tcp_option_parse.simps [of be opt mem n]
    by (auto simp: Let_def split: if_splits option.splits intro: step upd)
qed

lemma parse_local_win_scale:
  "tcp_option_parse be opt mem n = Inr opt' \<Longrightarrow> local_win_scale opt \<in> {0, 7} \<Longrightarrow> local_win_scale opt' \<in> {0, 7}"
  using parse_scale_ok unfolding scale_ok_def by blast

text \<open>Negotiation sets the receive window scale, whatever it was.\<close>

definition opening_inv :: "connid \<Rightarrow> tcb \<Rightarrow> bool" where
  "opening_inv cid t \<longleftrightarrow> t_id t = cid \<and> rto_ok t \<and> t_persist_time_out t \<le> rto_max \<and> local_win_scale (t_option t) \<in> {0, 7}"

lemma init_from_options_inv:
  assumes "init_from_options e th mem n t = Inr t'" "opening_inv cid t"
  shows "tcb_inv cid t' \<and> t_state t' = t_state t"
proof -
  obtain opt where "tcp_option_parse (e_be e) (t_option t) mem n = Inr opt"
    using assms(1) by (auto simp: init_from_options_def)
  moreover from this have "local_win_scale opt \<in> {0, 7}"
    using assms(2) parse_local_win_scale by (fastforce simp: opening_inv_def)
  ultimately show ?thesis
    using assms by (auto simp: init_from_options_def opening_inv_def tcb_inv_def rto_ok_def Let_def)
qed

lemma init_from_options_opens:
  assumes "init_from_options e th mem n t = Inr t'"
  shows "t_state t' = t_state t \<and> (\<forall>cid. opening_inv cid t \<longrightarrow> tcb_inv cid t')"
proof
  show "t_state t' = t_state t" using assms by (auto simp: init_from_options_def Let_def)
qed (use init_from_options_inv [OF assms] in blast)

lemma tcb_inv_opening: "tcb_inv cid t \<Longrightarrow> opening_inv cid t"
  by (simp add: tcb_inv_def opening_inv_def)

lemma opening_simps [simp]:
  "opening_inv cid (t\<lparr>t_rcv := r\<rparr>) = opening_inv cid t" "opening_inv cid (t\<lparr>t_snd := s\<rparr>) = opening_inv cid t"
  "opening_inv cid (do_setup_isn e t) = opening_inv cid t" "opening_inv cid (tcb_new s0 r0 m0 cid)"
  by (simp_all add: opening_inv_def rto_ok_def do_setup_isn_def tcb_new_def tcp_option_init_def)

lemma input_handle_listen_state_inv:
  "input_handle_listen_state e th p t = Inr t' \<Longrightarrow> opening_inv cid t \<Longrightarrow> tcb_inv cid t' \<and> t_state t' = SYN_RECEIVED"
  unfolding input_handle_listen_state_def Let_def by (auto dest!: init_from_options_inv)

lemma connect_inv: "connect e t = Inr t' \<Longrightarrow> opening_inv cid t \<Longrightarrow> tcb_inv cid t' \<and> t_state t' = SYN_SENT"
  unfolding connect_def Let_def
  by (auto simp: opening_inv_def) (auto simp: tcb_inv_def rto_ok_def do_setup_isn_def)

lemma input_handle_syn_sent_state_moves:
  "t_state t = SYN_SENT \<Longrightarrow> input_handle_syn_sent_state e th p t = Inr t' \<Longrightarrow> moves t t'"
  unfolding input_handle_syn_sent_state_def syn_sent_syn_def Let_def moves_def
  by (auto split: if_splits dest!: init_from_options_opens dest: tcb_inv_opening)

subsection \<open>Timers and calls\<close>

lemma output_one_stays: "output_one e r t = Inr t' \<Longrightarrow> stays t t'"
  by (rule keeps_stays) (rule output_one_keeps)

lemma can_send_stays: "can_send t = (n, t') \<Longrightarrow> stays t t'"
  by (rule keeps_stays) (rule can_send_keeps)

lemma stays_updates:
  "stays t (t\<lparr>t_poll_active := b\<rparr>)" "stays t (t\<lparr>t_packetq := q\<rparr>)" "stays t (tcb_output t)"
  by (simp_all add: stays_def)

lemma get_packet_stays: "get_packet e t = Inr (p, t') \<Longrightarrow> stays t t'"
proof -
  assume g: "get_packet e t = Inr (p, t')"
  let ?t0 = "t\<lparr>t_poll_active := False\<rparr>"
  obtain t1 where t1: "(if t_packetq ?t0 = [] then output_one e False ?t0 else Inr ?t0) = Inr t1"
      "(if in_state t1 {CLOSED} then Inr (None, t1)
        else (case t_packetq t1 of [] \<Rightarrow> Inl AssertFailed
          | p # ps \<Rightarrow>
              (let t2 = t1\<lparr>t_packetq := ps\<rparr>
               in if ps \<noteq> [] then Inr (Some p, tcb_output t2)
                  else if snd_dupacks (t_snd t2) < 3 then
                    (let (cs, t3) = can_send t2
                     in if cs > 0 \<and> snd_window (t_snd t3) > 0 then Inr (Some p, tcb_output t3) else Inr (Some p, t3))
                  else Inr (Some p, t2)))) = Inr (p, t')"
    using g unfolding get_packet_def Let_def by (auto simp del: split_paired_Ex)
  have s0: "stays t ?t0" by (rule stays_updates)
  have "stays ?t0 t1" using t1(1) output_one_stays by (auto simp: stays_def split: if_splits)
  then have s1: "stays t t1" by (rule stays_trans [OF s0])
  have s2: "stays t (t1\<lparr>t_packetq := ps\<rparr>)" for ps by (rule stays_trans [OF s1 stays_updates(2)])
  obtain cs t3 where c: "can_send (t1\<lparr>t_packetq := []\<rparr>) = (cs, t3)" by fastforce
  then have s3: "stays t t3" using can_send_stays s2 stays_trans by blast
  have s4: "stays t (tcb_output (t1\<lparr>t_packetq := ps\<rparr>))" "stays t (tcb_output t3)" for ps
    using s2 s3 stays_updates(3) stays_trans by blast+
  show ?thesis using t1(2) s1 s2 s3 s4 c by (auto simp: Let_def split: if_splits list.splits)
qed

lemma output_update_rto_inv:
  "t_state (output_update_rto e t) = t_state t" "tcb_inv cid t \<Longrightarrow> tcb_inv cid (output_update_rto e t)"
  using output_update_rto_ok [of t e]
  by (auto simp: tcb_inv_def output_update_rto_def tcb_output_def emit_def start_retransmit_timer_def Let_def)

lemma output_update_rto_stays: "stays t (output_update_rto e t)"
  by (simp add: stays_def output_update_rto_inv)

lemma stays_moves_trans: "stays t u \<Longrightarrow> moves u v \<Longrightarrow> moves t v"
  by (simp add: stays_def moves_def)

lemma do_reset_moves: "stays t u \<Longrightarrow> moves t (do_reset u)"
  by (rule stays_moves_trans) (auto intro: moves_closed)

lemma retransmit_data_moves: "retransmit_data e t = Inr t' \<Longrightarrow> moves t t'"
proof (cases "snd_data (t_snd t)")
  case Nil
  moreover assume "retransmit_data e t = Inr t'"
  ultimately show ?thesis by (simp add: retransmit_data_def moves_def)
next
  case (Cons seg rest)
  assume a: "retransmit_data e t = Inr t'"
  define s1 where "s1 = (if us_nr_transmits seg = 0
      then (t_snd t)\<lparr>snd_ssthresh := max (flight_size (snd_data (t_snd t)) div 2)
             (2 * (ucast (snd_mss (t_snd t)) :: u32))\<rparr> else t_snd t)"
  define t1 where "t1 = exit_fast_recovery (t\<lparr>t_snd := s1\<lparr>snd_recover := seq_subtract (snd_next s1) 1,
      snd_cwnd := ucast (snd_mss (t_snd t))\<rparr>\<rparr>)"
  have s1: "stays t t1" by (simp add: t1_def stays_def)
  show ?thesis
  proof (cases "us_nr_transmits seg < max_nr_retransmit")
    case True
    then obtain t2 where "output_one e True (t1\<lparr>t_snd := (t_snd t1)\<lparr>snd_data :=
          seg\<lparr>us_nr_transmits := us_nr_transmits seg + 1\<rparr> # rest\<rparr>\<rparr>) = Inr t2"
        and t': "t' = output_update_rto e t2"
      using a Cons by (auto simp: retransmit_data_def Let_def t1_def s1_def)
    from output_one_stays [OF this(1)] have "stays t1 t2" by (simp add: stays_def)
    then show ?thesis
      using s1 output_update_rto_stays [of t2 e] t' by (blast intro: stays_moves stays_trans)
  next
    case False
    then show ?thesis
      using a Cons s1 by (auto simp: retransmit_data_def Let_def t1_def s1_def intro: do_reset_moves)
  qed
qed

lemma retransmit_moves: "retransmit e t = Inr t' \<Longrightarrow> moves t t'"
proof -
  assume a: "retransmit e t = Inr t'"
  define t1 where "t1 = (if syn_needs_on t
      then t\<lparr>t_snd := (t_snd t)\<lparr>snd_syn_retransmit := snd_syn_retransmit (t_snd t) + 1\<rparr>\<rparr> else t)"
  define t2 where "t2 = (if syn_needs_on t then output_update_rto e t1 else t1)"
  define t3 where "t3 = (if fin_needs_on t2
      then t2\<lparr>t_snd := (t_snd t2)\<lparr>snd_fin_retransmit := snd_fin_retransmit (t_snd t2) + 1\<rparr>\<rparr> else t2)"
  define t4 where "t4 = (if fin_needs_on t2 then output_update_rto e t3 else t3)"
  have s1: "stays t t1" and "stays t1 t2" and s3: "stays t2 t3" and "stays t3 t4"
    by (simp_all add: t1_def t2_def t3_def t4_def stays_def output_update_rto_inv)
  then have s2: "stays t t2" and s4: "stays t t4" by (blast intro: stays_trans)+
  consider "t' = cleanup (emit (Connect_failed tcp_connect_error) t1)" | "t' = cleanup t3"
    | "retransmit_data e t4 = Inr t'"
    using a by (auto simp: retransmit_def Let_def t1_def t2_def t3_def t4_def split: if_splits)
  then show ?thesis
  proof cases
    case 1
    have "stays t1 t'"
      unfolding 1 by (simp add: stays_def)
    then show ?thesis by (rule stays_moves [OF stays_trans [OF s1]])
  next
    case 2
    have "stays t3 t'" unfolding 2 by (simp add: stays_def)
    then show ?thesis by (rule stays_moves [OF stays_trans [OF stays_trans [OF s2 s3]]])
  next
    case 3
    then show ?thesis by (rule stays_moves_trans [OF s4 retransmit_data_moves])
  qed
qed

lemma persist_stays: "persist e t = Inr t' \<Longrightarrow> stays t t'"
  unfolding persist_def Let_def
  by (auto simp: stays_def dest!: output_one_stays)
    (auto simp: tcb_inv_def rto_ok_def start_persist_timer_def tcb_output_def emit_def)

lemma close_then_moves: "close_then e t = Inr t' \<Longrightarrow> moves t t'"
  unfolding close_then_def Let_def
  by (auto simp: moves_def stays_def in_state_def split: if_splits dest!: output_one_stays)

lemma tcb_close_moves: "tcb_close e t = Inr t' \<Longrightarrow> moves t t'"
  unfolding tcb_close_def wait_for_all_data_acked_def
  by (auto split: if_splits prod.splits dest!: close_then_moves) (auto simp: moves_def)

lemma tcb_send_stays: "tcb_send p t = Inr (b, t') \<Longrightarrow> stays t t'"
  unfolding tcb_send_def Let_def wait_send_available_def
  by (auto simp: stays_def split: if_splits prod.splits dest!: can_send_stays)

lemma tcb_read_stays: "tcb_read t = Inr (p, t') \<Longrightarrow> stays t t'"
  unfolding tcb_read_def Let_def by (auto simp: stays_def)

lemma shutdown_connect_moves: "shutdown_connect e t = Inr t' \<Longrightarrow> moves t t'"
  unfolding shutdown_connect_def
  by (auto split: if_splits dest!: tcb_close_moves) (auto simp: moves_def)

subsection \<open>Steps, reachable connections, and their invariant\<close>

inductive tcb_step :: "tcb \<Rightarrow> tcb \<Rightarrow> bool" where
  segment_syn_sent: "t_state t = SYN_SENT \<Longrightarrow> input_handle_syn_sent_state e th p t = Inr t' \<Longrightarrow> tcb_step t t'"
| segment: "t_state t \<noteq> SYN_SENT \<Longrightarrow> input_handle_other_state e th p t = Inr t' \<Longrightarrow> tcb_step t t'"
| polled: "get_packet e t = Inr (pkt, t') \<Longrightarrow> tcb_step t t'"
| delayed_ack: "t_delayed_ack t \<noteq> None \<Longrightarrow> tcb_step t (delayed_ack_fired (t\<lparr>t_delayed_ack := None\<rparr>))"
| retransmit_timer: "t_retransmit t \<noteq> None \<Longrightarrow> retransmit e (t\<lparr>t_retransmit := None\<rparr>) = Inr t' \<Longrightarrow> tcb_step t t'"
| persist_timer: "t_persist t \<noteq> None \<Longrightarrow> persist e (t\<lparr>t_persist := None\<rparr>) = Inr t' \<Longrightarrow> tcb_step t t'"
| arp_queue_full: "tcb_step t (output_arp_queue_full e t)"
| arp_timeout: "tcb_step t (output_arp_timeout t)"
| user_send: "tcb_send p t = Inr (ready, t') \<Longrightarrow> tcb_step t t'"
| user_read: "tcb_read t = Inr (p, t') \<Longrightarrow> tcb_step t t'"
| user_wait: "wait_for_data t = (ready, t') \<Longrightarrow> tcb_step t t'"
| user_close: "tcb_close e t = Inr t' \<Longrightarrow> tcb_step t t'"
| close_continues: "All_data_acked \<in> set (t_events t) \<Longrightarrow> close_then e t = Inr t' \<Longrightarrow> tcb_step t t'"
| user_abort_reader: "tcb_step t (abort_reader t)"
| user_shutdown: "shutdown_connect e t = Inr t' \<Longrightarrow> tcb_step t t'"

inductive tcb_reachable :: "tcb \<Rightarrow> bool" where
  passive_open: "input_handle_listen_state e th p (tcb_new s0 r0 m0 c) = Inr t \<Longrightarrow> tcb_reachable t"
| active_open: "connect e (tcb_new s0 r0 m0 c) = Inr t \<Longrightarrow> tcb_reachable t"
| step: "tcb_reachable t \<Longrightarrow> tcb_step t t' \<Longrightarrow> tcb_reachable t'"

lemma tcb_step_moves: "tcb_step t t' \<Longrightarrow> moves t t'"
proof (induction rule: tcb_step.induct)
  case (delayed_ack t)
  then show ?case by (simp add: moves_def delayed_ack_fired_def)
next
  case (retransmit_timer t e t')
  then show ?case using retransmit_moves [of e "t\<lparr>t_retransmit := None\<rparr>" t'] by (simp add: moves_def)
next
  case (persist_timer t e t')
  then show ?case using persist_stays [of e "t\<lparr>t_persist := None\<rparr>" t'] by (simp add: moves_def stays_def)
next
  case (arp_queue_full t e)
  then show ?case by (simp add: moves_def output_arp_queue_full_def)
next
  case (arp_timeout t)
  then show ?case by (simp add: moves_def output_arp_timeout_def)
next
  case (user_wait t ready t')
  then show ?case by (auto simp: moves_def wait_for_data_def split: if_splits)
next
  case (user_abort_reader t)
  then show ?case by (simp add: moves_def)
qed (auto intro: input_handle_syn_sent_state_moves input_handle_other_state_moves stays_moves get_packet_stays
    tcb_send_stays tcb_read_stays tcb_close_moves close_then_moves shutdown_connect_moves)

lemma moves_inv: "moves t t' \<Longrightarrow> tcb_inv cid t \<Longrightarrow> tcb_inv cid t'"
  by (simp add: moves_def)

lemma tcb_reachable_ok: "tcb_reachable t \<Longrightarrow> tcb_inv (t_id t) t \<and> t_state t \<noteq> LISTEN"
proof (induction rule: tcb_reachable.induct)
  case (passive_open e th p s0 r0 m0 c t)
  then have "tcb_inv c t" "t_state t = SYN_RECEIVED"
    using input_handle_listen_state_inv [of e th p "tcb_new s0 r0 m0 c" t c] by simp_all
  then show ?case by (simp add: tcb_inv_def)
next
  case (active_open e s0 r0 m0 c t)
  then have "tcb_inv c t" "t_state t = SYN_SENT"
    using connect_inv [of e "tcb_new s0 r0 m0 c" t c] by simp_all
  then show ?case by (simp add: tcb_inv_def)
next
  case (step t t')
  then have m: "moves t t'" by (simp add: tcb_step_moves)
  have "tcb_inv (t_id t) t'" using moves_inv [OF m] step.IH by blast
  then have "tcb_inv (t_id t') t'" by (simp add: tcb_inv_def)
  then show ?case using m step.IH by (cases "t_state t") (auto simp: moves_def)
qed

lemma sample_connects: "\<exists>t. connect sample_env (tcb_new sample_snd sample_rcv 1460 sample_connid) = Inr t"
  by (simp add: connect_def get_default_receive_window_size_def shl32_def shr32_def do_syn_sent_def Let_def)

subsection \<open>The properties\<close>

text \<open>C17. Every step of a connection follows the state diagram: whatever segment arrives, whatever
  timer fires and whatever the user calls, the new state is one the diagram allows after the old
  one (a closed connection stays closed, a connection is never listening again, and the closing
  states are left only in the order of the protocol).\<close>

theorem tcb_step_follows_diagram:
  assumes "tcb_step t t'"
  shows "t_state t' \<in> may_move (t_state t)"
  using tcb_step_moves [OF assms] by (simp add: moves_def)

lemma tcb_step_follows_diagram_witness:
  "\<exists>t t'. tcb_step t t' \<and> t_state t = SYN_SENT \<and> t_state t' = CLOSED \<and> CLOSED \<in> may_move SYN_SENT"
proof -
  let ?t = "(sample_tcb sample_snd sample_rcv)\<lparr>t_state := SYN_SENT\<rparr>"
  let ?th = "(segment_header ?t False True False (make_seq 501) 0 0)\<lparr>f_ack := True, f_rst := True,
      th_ack := make_seq 101, data_offset := 5\<rparr>"
  have h: "v_trim_front (replicate 20 0) 20 = Inr []" by (simp add: v_trim_front_def)
  have "input_handle_syn_sent_state sample_env ?th (replicate 20 0) ?t = Inr (do_reset ?t)"
    by (simp add: input_handle_syn_sent_state_def h sample_snd_def Let_def less_eq_tcp_seq_def
        less_tcp_seq_def seq_diff_def)
  then have step: "tcb_step ?t (do_reset ?t)" by (intro segment_syn_sent) simp_all
  from tcb_step_follows_diagram [OF this] show ?thesis using step
    by (intro exI [of _ ?t] exI [of _ "do_reset ?t"]) simp
qed

text \<open>The state every connection keeps, opened passively by a SYN or actively by a connect, and
  after any sequence of segments, timers and calls: the retransmission timeout stays between one
  and sixty seconds, the persist timeout at most sixty seconds, the window scale in use is 0 or 7
  (so a window shift is always defined), and the state is never LISTEN.\<close>

theorem tcb_reachable_inv:
  assumes "tcb_reachable t"
  shows "rto_min \<le> t_rto t \<and> t_rto t \<le> rto_max \<and> t_persist_time_out t \<le> rto_max \<and>
    rcv_window_scale (t_rcv t) \<in> {0, 7} \<and> t_state t \<noteq> LISTEN"
  using tcb_reachable_ok [OF assms] by (simp add: tcb_inv_def rto_ok_def)

lemma tcb_reachable_inv_witness:
  "\<exists>t. connect sample_env (tcb_new sample_snd sample_rcv 1460 sample_connid) = Inr t \<and> t_rto t \<le> rto_max"
  using sample_connects tcb_reachable_inv [OF active_open] by blast

text \<open>The peer's window scale is used as it arrives: a SYN whose window scale option holds 32 or
  more makes the negotiation shift a 32-bit window by it, which C++ leaves undefined. (The
  protocol limits the shift to 14; the code does not.)\<close>

theorem wide_window_scale_undefined:
  assumes "tcp_option_parse (e_be e) (t_option t) mem n = Inr opt"
    and "32 \<le> unat (remote_win_scale opt)" "opening_inv (t_id t) t"
  shows "init_from_options e th mem n t = Inl UndefinedShift"
proof -
  have "local_win_scale opt \<in> {0, 7}"
    using assms(1,3) parse_local_win_scale by (fastforce simp: opening_inv_def)
  then show ?thesis
    using assms(1,2)
    by (auto simp: init_from_options_def get_default_receive_window_size_def shl32_def shr32_def Let_def)
qed

lemma wide_window_scale_undefined_witness:
  "\<forall>th. init_from_options sample_env th [3, 3, 32] 3 (tcb_new sample_snd sample_rcv 1460 sample_connid)
     = Inl UndefinedShift"
  by (intro allI, rule wide_window_scale_undefined
        [of _ _ _ _ "(tcp_option_init 1460)\<lparr>win_scale_received := True, remote_win_scale := 32, local_win_scale := 7\<rparr>"])
    (simp_all add: tcp_option_parse.simps [of _ _ "[3, 3, 32]"] tcp_option_parse.simps [of _ _ "[]"]
      tcb_new_def tcp_option_init_def sample_env_def opening_inv_def rto_ok_def Let_def)

end
