(* ===== verification/IpSend.thy ===== *)
theory IpSend
  imports Ip
begin

text \<open>
  Facts about the IPv4 header and the sending side: what the header of a sent packet reads back
  as, and the way \<open>send\<close> cuts a datagram into fragments.
\<close>

subsection \<open>The header reads back\<close>

lemma ip_hdr_ntoh_hton [simp]: "ip_hdr_ntoh (ip_hdr_hton h) = h" "ip_hdr_hton (ip_hdr_ntoh h) = h"
  by (cases h, simp add: ip_hdr_ntoh_def ip_hdr_hton_def)+

lemma length_ip_hdr_store [simp]: "length (ip_hdr_store h) = 20"
  by (simp add: ip_hdr_store_def)

lemma nibble_mask: "x AND 0xf = take_bit 4 (x :: byte)"
  by (simp add: take_bit_eq_mask mask_eq_exp_minus_1)

lemma nibble_pair:
  assumes "a AND 0xf = (a :: byte)" "b AND 0xf = b"
  shows "(a OR push_bit 4 b) AND 0xf = a" "drop_bit 4 (a OR push_bit 4 b) = b"
proof -
  have a: "\<not> bit a n" and b: "\<not> bit b n" if "4 \<le> n" for n
    using that assms unfolding nibble_mask by (metis bit_take_bit_iff not_le)+
  show "(a OR push_bit 4 b) AND 0xf = a"
    unfolding nibble_mask
    by (rule bit_word_eqI) (use a in \<open>auto simp: bit_take_bit_iff bit_or_iff bit_push_bit_iff not_le\<close>)
  show "drop_bit 4 (a OR push_bit 4 b) = b"
    by (rule bit_word_eqI, use a b in \<open>simp add: bit_drop_bit_eq bit_or_iff bit_push_bit_iff add.commute\<close>)
      (metis not_le b)
qed

lemma load_ip_hdr_store:
  assumes "ip_ihl h AND 0xf = ip_ihl h" "ip_ver h AND 0xf = ip_ver h" "ip_dscp h = 0" "ip_ecn h = 0"
  shows "ip_hdr_load (ip_hdr_store h @ rest) = h"
  using assms(3,4) nibble_pair [OF assms(1,2)] assms(1)
  by (cases h) (simp add: ip_hdr_load_def ip_hdr_store_def nth_append)

subsection \<open>Offsets and the more fragments bit\<close>

definition frag_field :: "bool \<Rightarrow> u16 \<Rightarrow> u16" where
  "frag_field mf offset = push_bit 13 (if mf then 1 else 0) OR (offset div 8)"

lemma div8_drop_bit: "(x :: 'a::len word) div 8 = drop_bit 3 x"
  by (simp add: drop_bit_eq_div)

lemma bit_frag_field:
  "bit (frag_field mf offset) n \<longleftrightarrow> n < 16 \<and> (n = 13 \<and> mf \<or> n < 13 \<and> bit offset (n + 3))"
proof -
  have "bit (push_bit 13 (if mf then 1 else 0 :: u16)) n \<longleftrightarrow> n = 13 \<and> mf"
    by (auto simp: bit_push_bit_iff bit_1_iff)
  moreover have "bit (drop_bit 3 offset) n \<longleftrightarrow> n < 13 \<and> bit offset (n + 3)"
    by (auto simp: bit_drop_bit_eq add.commute dest: bit_imp_le_length)
  ultimately show ?thesis by (auto simp: frag_field_def div8_drop_bit bit_or_iff)
qed

lemma and_single_bit: "(x AND push_bit n 1 \<noteq> 0) \<longleftrightarrow> bit (x :: 'a::len word) n"
  by (simp add: and_exp_eq_0_iff_not_bit)

lemma frag_field_reads [simp]:
  "ip_frag h = frag_field mf offset \<Longrightarrow> ip_mf h = mf"
  "ip_frag h = frag_field mf offset \<Longrightarrow> unat offset mod 8 = 0 \<Longrightarrow> ip_offset h = offset"
proof -
  assume f: "ip_frag h = frag_field mf offset"
  show "ip_mf h = mf"
    unfolding ip_mf_def and_single_bit f by (simp add: bit_frag_field)
  assume "unat offset mod 8 = 0"
  then have "take_bit 3 offset = 0"
    by (simp only: word_unat_eq_iff unsigned_take_bit_eq) (simp add: take_bit_eq_mod)
  then have lo: "\<not> bit offset n" if "n < 3" for n
    using that by (metis bit_take_bit_iff bit_0_eq bot_apply bot_bool_def)
  show "ip_offset h = offset"
    unfolding ip_offset_def f
  proof (rule bit_word_eqI)
    fix n assume n: "n < LENGTH(16)"
    show "bit (push_bit 3 (frag_field mf offset)) n = bit offset n"
      using n lo [of n] by (cases "n < 3") (auto simp: bit_push_bit_iff bit_frag_field)
  qed
qed

subsection \<open>One packet\<close>

text \<open>The bytes and offload request \<open>send_pkt\<close> makes, and what its header says.\<close>

definition sent_packet ::
  "hw_features \<Rightarrow> ipv4_address \<Rightarrow> ipv4_address \<Rightarrow> ip_protocol_num \<Rightarrow> bool \<Rightarrow> ethernet_address \<Rightarrow>
   bytes \<Rightarrow> offload_info \<Rightarrow> u16 \<Rightarrow> u16 \<Rightarrow> l3packet" where
  "sent_packet hw src to proto frg e_dst pkt oi remaining offset =
     (case send_pkt hw src to proto frg e_dst pkt oi remaining offset of Inr q \<Rightarrow> q)"

definition header_of :: "l3packet \<Rightarrow> ip_hdr" where
  "header_of q = ip_hdr_ntoh (ip_hdr_load (l3_p q))"

definition payload_of :: "l3packet \<Rightarrow> bytes" where
  "payload_of q = drop 20 (l3_p q)"

lemma send_pkt_ok:
  "send_pkt hw src to proto frg e_dst pkt oi remaining offset =
     Inr (sent_packet hw src to proto frg e_dst pkt oi remaining offset)"
  by (auto simp: sent_packet_def send_pkt_def Let_def sum_data_def checksummer_init_def split: sum.split)

lemma sent_packet_reads:
  fixes hw src to proto frg e_dst pkt oi remaining offset
  defines "q \<equiv> sent_packet hw src to proto frg e_dst pkt oi remaining offset"
  shows "payload_of q = pkt" "length (l3_p q) = length pkt + 20" "l3_to q = e_dst"
    "l3_proto_num q = ipv4_num" "\<exists>c. header_of q = (send_header src to proto
      (word_of_nat (length pkt + 20)) (if frg then frag_field (remaining > 0) offset else 0))\<lparr>ip_csum := c\<rparr>"
proof -
  define h where "h = send_header src to proto (word_of_nat (length pkt + 20))
      (if frg then frag_field (remaining > 0) offset else 0)"
  have eq: "\<exists>c. l3_p q = ip_hdr_store (ip_hdr_hton (h\<lparr>ip_csum := c\<rparr>)) @ pkt \<and> l3_to q = e_dst \<and> l3_proto_num q = ipv4_num"
  proof -
    have s: "(ip_hdr_hton h)\<lparr>ip_csum := c\<rparr> = ip_hdr_hton (h\<lparr>ip_csum := ntoh16 c\<rparr>)" for c
      by (simp add: ip_hdr_hton_def)
    have "\<exists>c. l3_p q = ip_hdr_store ((ip_hdr_hton h)\<lparr>ip_csum := c\<rparr>) @ pkt \<and> l3_to q = e_dst \<and> l3_proto_num q = ipv4_num"
      unfolding q_def sent_packet_def send_pkt_def h_def frag_field_def
      by (auto simp: Let_def sum_data_def checksummer_init_def)
    then show ?thesis unfolding s by blast
  qed
  then obtain c where q: "l3_p q = ip_hdr_store (ip_hdr_hton (h\<lparr>ip_csum := c\<rparr>)) @ pkt"
      "l3_to q = e_dst" "l3_proto_num q = ipv4_num" by blast
  show "payload_of q = pkt" "length (l3_p q) = length pkt + 20" "l3_to q = e_dst" "l3_proto_num q = ipv4_num"
    by (simp_all add: q payload_of_def)
  have "header_of q = h\<lparr>ip_csum := c\<rparr>"
    by (simp add: header_of_def q load_ip_hdr_store ip_hdr_hton_def send_header_def h_def)
      (simp add: ip_hdr_ntoh_def)
  then show "\<exists>c. header_of q = (send_header src to proto
      (word_of_nat (length pkt + 20)) (if frg then frag_field (remaining > 0) offset else 0))\<lparr>ip_csum := c\<rparr>"
    by (auto simp: h_def)
qed

subsection \<open>Cutting a datagram\<close>

text \<open>The cuts of \<open>rest\<close> bytes that start at \<open>off\<close> into pieces of at most \<open>c\<close>.\<close>

function cuts :: "nat \<Rightarrow> nat \<Rightarrow> nat \<Rightarrow> (nat \<times> nat) list" where
  "cuts c off rest =
     (if rest = 0 \<or> c = 0 then [] else (off, min c rest) # cuts c (off + min c rest) (rest - min c rest))"
  by pat_completeness auto
termination by (relation "measure (\<lambda>(c, off, rest). rest)") auto

declare cuts.simps [simp del]

lemma cuts_0 [simp]: "cuts c off 0 = []"
  by (simp add: cuts.simps)

lemma cuts_step: "0 < rest \<Longrightarrow> 0 < c \<Longrightarrow>
    cuts c off rest = (off, min c rest) # cuts c (off + min c rest) (rest - min c rest)"
  by (simp add: cuts.simps)

lemma unat_min: "unat (min x y :: 'a::len word) = min (unat x) (unat y)"
  by (simp add: min_def word_le_nat_alt)

lemma unat_sub_min: "unat (y - min x y :: 'a::len word) = unat y - min (unat x) (unat y)"
  by (simp add: unat_sub unat_min)

lemma send_fragments_cuts:
  assumes "\<And>pkt r off. mk pkt r off = Inr (g pkt r off)" "0 < unat (m - 20)"
    "unat offset + unat remaining = length p" "length p < 65536"
  shows "send_fragments mk m p offset remaining =
    Some (Inr (map (\<lambda>(off, n). g (take n (drop off p)) (word_of_nat (length p - off - n)) (word_of_nat off))
       (cuts (unat (m - 20)) (unat offset) (unat remaining))))"
  using assms(3)
proof (induction "unat remaining" arbitrary: offset remaining rule: less_induct)
  case less
  let ?c = "unat (m - 20)" and ?n = "min (unat (m - 20)) (unat remaining)"
  show ?case
  proof (cases "remaining = 0")
    case True
    then show ?thesis by (simp add: send_fragments.simps)
  next
    case False
    then have pos: "0 < unat remaining" by (simp add: unat_gt_0)
    have n: "0 < ?n" "unat (min (m - 20) remaining) = ?n" "unat (remaining - min (m - 20) remaining) = unat remaining - ?n"
      using pos assms(2) by (simp_all add: unat_min unat_sub_min)
    have off: "unat (offset + min (m - 20) remaining) = unat offset + ?n"
      using less.prems assms(4) n(2) by (subst unat_word_ariths) simp
    have ih: "send_fragments mk m p (offset + min (m - 20) remaining) (remaining - min (m - 20) remaining) =
        Some (Inr (map (\<lambda>(off, n). g (take n (drop off p)) (word_of_nat (length p - off - n)) (word_of_nat off))
          (cuts ?c (unat offset + ?n) (unat remaining - ?n))))"
      using less.hyps [of "remaining - min (m - 20) remaining" "offset + min (m - 20) remaining"] less.prems n off pos
      by simp
    have r: "remaining - min (m - 20) remaining = word_of_nat (length p - unat offset - ?n)"
    proof -
      have "length p - unat offset - ?n = unat (remaining - min (m - 20) remaining)"
        using less.prems n(3) by simp
      then show ?thesis by (simp del: of_nat_diff)
    qed
    have "v_share p (unat offset) (unat (min (m - 20) remaining)) = Inr (take ?n (drop (unat offset) p))"
      using less.prems n by simp
    then show ?thesis
      using False pos assms(1,2) ih r n(2)
      by (subst send_fragments.simps) (simp add: cuts_step Let_def)
  qed
qed

lemma cuts_member:
  "0 < c \<Longrightarrow> (off, n) \<in> set (cuts c a rest) \<Longrightarrow>
     a \<le> off \<and> 0 < n \<and> n \<le> c \<and> off + n \<le> a + rest \<and> (\<exists>k. off = a + k * c)"
proof (induction c a rest rule: cuts.induct)
  case (1 c a rest)
  show ?case
  proof (cases "rest = 0")
    case False
    let ?n = "min c rest"
    from 1 False consider "off = a" "n = ?n" | "(off, n) \<in> set (cuts c (a + ?n) (rest - ?n))"
      by (auto simp: cuts_step)
    then show ?thesis
    proof cases
      case 2
      then have "rest - ?n \<noteq> 0" by (cases "rest - ?n = 0") auto
      then have "?n = c" by linarith
      moreover from 1(1) [OF _ 1(2) 2] 1(2) False
      have "a + ?n \<le> off \<and> 0 < n \<and> n \<le> c \<and> off + n \<le> a + ?n + (rest - ?n) \<and> (\<exists>k. off = a + ?n + k * c)"
        by simp
      moreover have "a + ?n + (rest - ?n) = a + rest" by simp
      ultimately obtain k where "off = a + c + k * c" "a + c \<le> off" "0 < n" "n \<le> c" "off + n \<le> a + rest"
        by metis
      then show ?thesis by (intro conjI exI [of _ "Suc k"]) simp_all
    next
      case 1
      then show ?thesis using 1(1) False \<open>0 < c\<close> by (simp add: exI [of _ 0])
    qed
  next
    case True
    then show ?thesis using 1 by simp
  qed
qed

lemma cuts_concat:
  "0 < c \<Longrightarrow> concat (map (\<lambda>(off, n). take n (drop off p)) (cuts c a rest)) = take rest (drop a p)"
proof (induction c a rest rule: cuts.induct)
  case (1 c a rest)
  show ?case
  proof (cases "rest = 0")
    case False
    have "take rest (drop a p) = take (min c rest) (drop a p) @ take (rest - min c rest) (drop (a + min c rest) p)"
      using take_add [of "min c rest" "rest - min c rest" "drop a p"] by (simp add: add.commute)
    then show ?thesis using 1 False by (simp add: cuts_step)
  qed simp
qed

lemma cuts_cover:
  "0 < c \<Longrightarrow> (\<Union>(off, n) \<in> set (cuts c a rest). {off ..< off + n}) = {a ..< a + rest}"
proof (induction c a rest rule: cuts.induct)
  case (1 c a rest)
  show ?case
  proof (cases "rest = 0")
    case False
    have "{a ..< a + min c rest} \<union> {a + min c rest ..< a + min c rest + (rest - min c rest)} = {a ..< a + rest}"
      by (simp add: ivl_disj_un_two(3))
    then show ?thesis using 1 False by (simp add: cuts_step)
  qed simp
qed

lemma length_cuts: "0 < c \<Longrightarrow> length (cuts c a rest) \<le> rest"
proof (induction c a rest rule: cuts.induct)
  case (1 c a rest)
  then show ?case by (cases "rest = 0") (auto simp: cuts_step)
qed

text \<open>Only the last piece reaches the end.\<close>

lemma cuts_disjoint:
  "0 < c \<Longrightarrow> sorted_wrt (\<lambda>(o1, n1) (o2, n2). o1 + n1 \<le> o2) (cuts c a rest)"
proof (induction c a rest rule: cuts.induct)
  case (1 c a rest)
  show ?case
  proof (cases "rest = 0")
    case False
    have "\<forall>(o2, n2) \<in> set (cuts c (a + min c rest) (rest - min c rest)). a + min c rest \<le> o2"
      using cuts_member [OF 1(2)] by blast
    then show ?thesis using 1(1) [OF _ 1(2)] 1(2) False by (simp add: cuts_step)
  qed simp
qed

end
