(* ===== verification/IpFrag.thy ===== *)
theory IpFrag
  imports IpSend
begin

text \<open>
  The reassembly table: facts on the segments a datagram holds, on the memory they account for,
  and the invariant of the table (ages, entries and the memory counter agree; the memory stays
  within its limit plus one datagram).
\<close>

interpretation u16_merge: offset_order u32_ops unat 65535
proof unfold_locales
  fix x y :: u32 and n :: nat
  show "o_le u32_ops x y \<longleftrightarrow> unat x \<le> unat y" "o_lt u32_ops x y \<longleftrightarrow> unat x < unat y"
    by (simp_all add: u32_ops_def word_le_nat_alt word_less_nat_alt)
  show "unat (o_add u32_ops x n) = unat x + n" if "unat x + n \<le> 65535"
    using that by (simp add: u32_ops_def unat_word_ariths unsigned_of_nat take_bit_eq_mod)
  show "o_sub u32_ops x y = unat x - unat y" if "unat y \<le> unat x"
    using that by (simp add: u32_ops_def unat_sub word_le_nat_alt)
qed

subsection \<open>Segments\<close>

definition seg_total :: "'o merge_map \<Rightarrow> nat" where
  "seg_total m = sum_list (map (length \<circ> snd) m)"

lemma seg_total_simps [simp]: "seg_total [] = 0" "seg_total (s # m) = length (snd s) + seg_total m"
  by (simp_all add: seg_total_def)

text \<open>Separated segments below a bound: there is room for a gap behind each but the last.\<close>

lemma separated_room:
  "separated pos bound (s # m) \<Longrightarrow> pos (fst s) + seg_total (s # m) + length m \<le> bound"
proof (induction m arbitrary: s)
  case Nil
  then show ?case by (simp add: separated_Cons fits_def)
next
  case (Cons t m)
  then have "pos (fst s) + length (snd s) < pos (fst t)" "separated pos bound (t # m)"
    by (auto simp: separated_Cons)
  then show ?case using Cons.IH [of t] by simp
qed

lemma separated_bounds:
  assumes "separated pos bound m"
  shows "seg_total m \<le> bound" "length m \<le> Suc bound"
  using separated_room [of pos bound "hd m" "tl m"] assms by (cases m; simp)+

text \<open>Segments that cover an interval without a gap are one segment.\<close>

lemma covered_interval_single:
  assumes sep: "separated pos bound m" and ne: "\<forall>s \<in> set m. snd s \<noteq> []"
    and cov: "covers pos m = {0 ..< l}" and l: "0 < l"
  shows "\<exists>a q. m = [(a, q)] \<and> pos a = 0 \<and> length q = l"
proof (cases m)
  case Nil
  then show ?thesis using cov l by simp
next
  case (Cons s n)
  let ?e = "pos (fst s) + length (snd s)"
  have n: "n = []"
  proof (rule ccontr)
    assume "n \<noteq> []"
    then obtain t where t: "t \<in> set n" by (cases n) auto
    then have "?e < pos (fst t)" "snd t \<noteq> []" using sep ne Cons by (auto simp: separated_Cons)
    then have "pos (fst t) \<in> covers pos m"
      using t Cons by (auto simp: covers_def seg_cover_def)
    then have "?e < l" using cov \<open>?e < pos (fst t)\<close> by auto
    then have "?e \<in> covers pos m" using cov by simp
    then obtain u where "u \<in> set m" "?e \<in> seg_cover pos u" by (auto simp: covers_def)
    then show False using sep Cons by (fastforce simp: separated_Cons seg_cover_def)
  qed
  have "snd s \<noteq> []" using ne Cons by simp
  moreover have "{pos (fst s) ..< ?e} = {0 ..< l}" using cov Cons n by (simp add: seg_cover_def)
  ultimately have "pos (fst s) = 0 \<and> length (snd s) = l"
    using l by (metis add_0 atLeastLessThan_inj(1,2) length_greater_0_conv less_add_same_cancel1)
  then show ?thesis using Cons n by (intro exI [of _ "fst s"] exI [of _ "snd s"]) simp
qed

subsection \<open>Merging keeps segments non empty and does not invent bytes\<close>

lemma merge_with_existing_nonempty:
  assumes "merge_with_existing ops beg p m = Inr r" "p \<noteq> []" "\<forall>s \<in> set m. snd s \<noteq> []"
  shows "case r of Covered \<Rightarrow> True | Insert m' p' \<Rightarrow> p' \<noteq> [] \<and> (\<forall>s \<in> set m'. snd s \<noteq> [])
      | Absorbed m' \<Rightarrow> \<forall>s \<in> set m'. snd s \<noteq> []"
  using assms
proof (induction m arbitrary: r)
  case Nil
  then show ?case by auto
next
  case (Cons s m)
  obtain a q where s: "s = (a, q)" by (cases s)
  from Cons.prems s consider "r = Covered" | "r = Insert m p"
    | rest where "r = Insert m (p @ rest)" | rest where "r = Absorbed ((a, q @ rest) # m)"
    | r' where "merge_with_existing ops beg p m = Inr r'" "r = keep (a, q) r'"
    by (auto simp: Let_def split: if_splits)
  then show ?case
  proof cases
    case 5
    then show ?thesis using Cons s by (cases r') fastforce+
  qed (use Cons.prems s in auto)
qed

lemma map_emplace_set: "set (map_emplace ops k v m) \<subseteq> insert (k, v) (set m)"
  by (induction m) (auto split: if_splits)

lemma merge_adjacent_nonempty:
  "merge_adjacent ops m = Inr r \<Longrightarrow> \<forall>s \<in> set m. snd s \<noteq> [] \<Longrightarrow> \<forall>s \<in> set r. snd s \<noteq> []"
proof (induction ops m arbitrary: r rule: merge_adjacent.induct)
  case (3 ops seg_beg seg_pkt beg p m)
  show ?case
    using 3 by (simp add: Let_def split: if_splits sum.splits) fastforce+
qed auto

lemma merge_nonempty:
  assumes "merge ops m beg p = Inr r" "p \<noteq> []" "\<forall>s \<in> set m. snd s \<noteq> []"
  shows "\<forall>s \<in> set r. snd s \<noteq> []"
proof -
  obtain r1 where r1: "merge_with_existing ops beg p m = Inr r1"
      "(case r1 of Covered \<Rightarrow> Inr m | Insert m' p' \<Rightarrow> merge_adjacent ops (map_emplace ops beg p' m')
        | Absorbed m' \<Rightarrow> merge_adjacent ops m') = Inr r"
    using assms(1) by (auto simp: merge_def)
  note ne = merge_with_existing_nonempty [OF r1(1) assms(2,3)]
  show ?thesis
  proof (cases r1)
    case Covered
    then show ?thesis using r1(2) assms(3) by simp
  next
    case (Insert m' p')
    then have "\<forall>s \<in> set (map_emplace ops beg p' m'). snd s \<noteq> []"
      using ne map_emplace_set [of ops beg p' m'] by fastforce
    then show ?thesis using r1(2) Insert merge_adjacent_nonempty by fastforce
  next
    case (Absorbed m')
    then show ?thesis using r1(2) ne merge_adjacent_nonempty by fastforce
  qed
qed

subsection \<open>The memory a datagram accounts for\<close>

definition frag_nat :: "u32 \<Rightarrow> frag \<Rightarrow> nat" where
  "frag_nat impl f = length (fr_header f) + unat impl + seg_total (fr_data f) + length (fr_data f) * unat impl"

definition impl_ok :: "u32 \<Rightarrow> bool" where
  "impl_ok impl \<longleftrightarrow> 0 < impl \<and> impl \<le> 1000"

text \<open>The most a datagram can account for.\<close>

definition frag_max :: "u32 \<Rightarrow> nat" where
  "frag_max impl = 60 + unat impl + 65535 + 65536 * unat impl"

definition frag_good :: "u32 \<Rightarrow> frag \<Rightarrow> bool" where
  "frag_good impl f \<longleftrightarrow> separated unat 65535 (fr_data f) \<and> length (fr_header f) \<le> 60 \<and>
     fr_mem_size f = frag_memory impl f"

lemma frag_memory_eq: "frag_memory impl f = word_of_nat (frag_nat impl f)"
proof -
  have "sum_list (map (packet_memory impl \<circ> snd) m) = word_of_nat (seg_total m + length m * unat impl)" for m :: "u32 merge_map"
    by (induction m) (simp_all add: packet_memory_def)
  then show ?thesis by (simp add: frag_memory_def packet_memory_def frag_nat_def)
qed

lemma impl_ok_bound: "impl_ok impl \<Longrightarrow> 0 < unat impl \<and> unat impl \<le> 1000"
  by (simp add: impl_ok_def word_le_nat_alt word_less_nat_alt)

lemma frag_max_bound: "impl_ok impl \<Longrightarrow> frag_max impl \<le> 65602595"
  using impl_ok_bound [of impl] by (simp add: frag_max_def)

lemma frag_nat_bounds:
  assumes "frag_good impl f" "impl_ok impl"
  shows "frag_nat impl f \<le> frag_max impl" "unat (fr_mem_size f) = frag_nat impl f" "0 < frag_nat impl f"
proof -
  note b = separated_bounds [of unat 65535 "fr_data f"]
  have "length (fr_data f) * unat impl \<le> 65536 * unat impl"
    using b assms(1) by (intro mult_right_mono) (auto simp: frag_good_def)
  then show m: "frag_nat impl f \<le> frag_max impl"
    using b assms(1) unfolding frag_good_def frag_nat_def frag_max_def by linarith
  have "frag_nat impl f < 4294967296" using m frag_max_bound [OF assms(2)] by simp
  then show "unat (fr_mem_size f) = frag_nat impl f"
    using assms(1) by (simp add: frag_good_def frag_memory_eq unsigned_of_nat take_bit_eq_mod)
  show "0 < frag_nat impl f" using impl_ok_bound [OF assms(2)] by (simp add: frag_nat_def)
qed

text \<open>Merging another fragment keeps a good datagram good.\<close>

lemma unat_ucast_offset [simp]: "unat (ucast (offset :: u16) :: u32) = unat offset"
proof -
  have "unat offset < 4294967296" by (rule less_trans [OF u16_less]) simp
  then show ?thesis by (simp add: unsigned_ucast_eq take_bit_eq_mod)
qed

lemma frag_merge_good:
  assumes "frag_merge impl h offset p f = Inr (added, f')"
    and "separated unat 65535 (fr_data f)" "length (fr_header f) \<le> 60"
    and "unat (ip_ihl h) \<le> 15" "unat offset + length p \<le> 65535"
  shows "frag_good impl f'" "added = fr_mem_size f' - fr_mem_size f" "fr_rx_time f' = fr_rx_time f"
    "last_frag_received f' = last_frag_received f"
proof -
  let ?n = "unat (ip_ihl h) * 4"
  obtain f1 payload m where 1: "(if offset = 0 then andThen (v_share p 0 ?n) (\<lambda>hd. Inr (f\<lparr>fr_header := hd\<rparr>)) else Inr f) = Inr f1"
      and 2: "v_trim_front p ?n = Inr payload" and 3: "merge u32_ops (fr_data f1) (ucast offset) payload = Inr m"
      and 4: "f' = (f1\<lparr>fr_data := m\<rparr>)\<lparr>fr_mem_size := frag_memory impl (f1\<lparr>fr_data := m\<rparr>)\<rparr>"
        "added = frag_memory impl (f1\<lparr>fr_data := m\<rparr>) - fr_mem_size f"
    using assms(1) by (auto simp: frag_merge_def Let_def)
  have f1: "fr_data f1 = fr_data f" "length (fr_header f1) \<le> 60" "fr_rx_time f1 = fr_rx_time f"
      "last_frag_received f1 = last_frag_received f"
    using 1 assms(3,4) by (auto simp: v_share_def slice_def split: if_splits)
  have "length payload \<le> length p" using 2 by (auto simp: v_trim_front_def split: if_splits)
  then have "fits unat 65535 (ucast offset :: u32, payload)" using assms(5) by (simp add: fits_def)
  then have "separated unat 65535 m" using u16_merge.merge_ok [of "fr_data f" "ucast offset" payload] assms(2) 3 f1 by auto
  then show "frag_good impl f'" using 4 f1 by (simp add: frag_good_def frag_memory_def)
  show "added = fr_mem_size f' - fr_mem_size f" "fr_rx_time f' = fr_rx_time f"
    "last_frag_received f' = last_frag_received f" using 4 f1 by simp_all
qed

subsection \<open>The invariant of the table\<close>

definition table_total :: "u32 \<Rightarrow> ipv4 \<Rightarrow> nat" where
  "table_total impl st = sum_list (map (frag_nat impl \<circ> snd) (ip_frags st))"

definition frag_table :: "u32 \<Rightarrow> ipv4 \<Rightarrow> bool" where
  "frag_table impl st \<longleftrightarrow>
     distinct (map fst (ip_frags st)) \<and> distinct (frags_age st) \<and>
     set (frags_age st) = fst ` set (ip_frags st) \<and>
     (\<forall>(i, f) \<in> set (ip_frags st). frag_good impl f) \<and>
     frag_mem st = word_of_nat (table_total impl st)"

lemma frag_at_mem: "(i, f) \<in> set (ip_frags st) \<Longrightarrow> distinct (map fst (ip_frags st)) \<Longrightarrow> frag_at i st = f"
  by (simp add: frag_at_def)

lemma sum_delete:
  "distinct (map fst al) \<Longrightarrow> (i, f) \<in> set al \<Longrightarrow>
     sum_list (map (g \<circ> snd) al) = (g f :: nat) + sum_list (map (g \<circ> snd) (AList.delete i al))"
proof (induction al)
  case (Cons kx al)
  obtain k x where kx: "kx = (k, x)" by (cases kx)
  show ?case
  proof (cases "k = i")
    case True
    then have "i \<notin> fst ` set al" using Cons.prems kx by auto
    moreover from this have "x = f" using Cons.prems(2) kx True by force
    ultimately show ?thesis using kx True by (simp add: AList.delete_idem)
  next
    case False
    then show ?thesis using Cons kx by simp
  qed
qed simp

lemma delete_keys: "fst ` set (AList.delete i al) = fst ` set al - {i}"
  by (auto simp: AList.delete_eq)

text \<open>Dropping the entry of \<open>i\<close>.\<close>

lemma frag_drop_table:
  assumes t: "frag_table impl st" and impl: "impl_ok impl" and i: "(i, f) \<in> set (ip_frags st)"
  shows "frag_table impl ((frag_drop i (fr_mem_size f) st)\<lparr>frags_age := removeAll i (frags_age st)\<rparr>)"
    "table_total impl st = frag_nat impl f + table_total impl (frag_drop i (fr_mem_size f) st)"
proof -
  have d: "distinct (map fst (ip_frags st))" using t by (simp add: frag_table_def)
  show tot: "table_total impl st = frag_nat impl f + table_total impl (frag_drop i (fr_mem_size f) st)"
    using sum_delete [OF d i] by (simp add: table_total_def frag_drop_def)
  have "frag_good impl f" using t i by (auto simp: frag_table_def)
  then have "fr_mem_size f = word_of_nat (frag_nat impl f)" by (simp add: frag_good_def frag_memory_eq)
  then have "frag_mem st - fr_mem_size f = word_of_nat (table_total impl (frag_drop i (fr_mem_size f) st))"
    using t tot by (simp add: frag_table_def)
  then show "frag_table impl ((frag_drop i (fr_mem_size f) st)\<lparr>frags_age := removeAll i (frags_age st)\<rparr>)"
    using t d distinct_map_filter [of fst "ip_frags st" "\<lambda>x. i \<noteq> fst x"]
    by (auto simp: frag_table_def frag_drop_def delete_keys AList.delete_eq table_total_def distinct_removeAll case_prod_unfold)
qed

text \<open>Replacing or adding the entry of \<open>i\<close>.\<close>

lemma sum_update:
  "distinct (map fst al) \<Longrightarrow>
     sum_list (map (g \<circ> snd) (AList.update i f al)) + (case map_of al i of None \<Rightarrow> 0 | Some f0 \<Rightarrow> g f0) =
     sum_list (map (g \<circ> snd) al) + (g f :: nat)"
proof (induction al)
  case (Cons kx al)
  obtain k x where kx: "kx = (k, x)" by (cases kx)
  then show ?case using Cons by (cases "k = i") auto
qed simp

lemma update_in: "(j, f') \<in> set (AList.update i f al) \<Longrightarrow> (j, f') = (i, f) \<or> (j, f') \<in> set al"
  by (induction al) (auto split: if_splits)

lemma set_frag_table:
  assumes t: "frag_table impl st" and f: "frag_good impl f"
    and st': "st' = (set_frag i f st)\<lparr>frags_age := (if i \<in> fst ` set (ip_frags st) then frags_age st else frags_age st @ [i]),
        frag_mem := frag_mem st + (fr_mem_size f - fr_mem_size (frag_at i st))\<rparr>"
  shows "frag_table impl st'" "table_total impl st' \<le> table_total impl st + frag_nat impl f" "(i, f) \<in> set (ip_frags st')"
proof -
  have d: "distinct (map fst (ip_frags st))" and mem: "frag_mem st = word_of_nat (table_total impl st)"
    and age: "distinct (frags_age st)" "set (frags_age st) = fst ` set (ip_frags st)"
    and good: "\<forall>(i, f) \<in> set (ip_frags st). frag_good impl f"
    using t by (auto simp: frag_table_def)
  have size: "fr_mem_size f = word_of_nat (frag_nat impl f)" using f by (simp add: frag_good_def frag_memory_eq)
  define old where "old = (case map_of (ip_frags st) i of None \<Rightarrow> 0 | Some f0 \<Rightarrow> frag_nat impl f0)"
  have tot: "table_total impl st' + old = table_total impl st + frag_nat impl f"
    using sum_update [OF d, of "frag_nat impl" i f] by (simp add: table_total_def st' set_frag_def old_def)
  have "fr_mem_size (frag_at i st) = word_of_nat old"
    using good map_of_SomeD [of "ip_frags st" i]
    by (auto simp: frag_at_def old_def frag_init_def frag_good_def frag_memory_eq split: option.split)
  moreover have "word_of_nat (table_total impl st') + (word_of_nat old :: u32) =
      word_of_nat (table_total impl st) + word_of_nat (frag_nat impl f)"
    using tot by (metis of_nat_add)
  ultimately have "frag_mem st' = word_of_nat (table_total impl st')"
    using mem size by (simp add: st' algebra_simps)
  then show "frag_table impl st'"
    using d age good f update_in [of _ _ i f "ip_frags st"]
    by (auto simp: frag_table_def st' set_frag_def AList.distinct_update AList.dom_update table_total_def)
      (fastforce)+
  show "table_total impl st' \<le> table_total impl st + frag_nat impl f" using tot by simp
  show "(i, f) \<in> set (ip_frags st')"
    by (rule map_of_SomeD) (simp add: st' set_frag_def AList.update_conv')
qed

lemma frag_drop_head:
  assumes "frag_table impl (st\<lparr>frags_age := i # age\<rparr>)" "impl_ok impl"
  shows "frag_table impl ((frag_drop i (fr_mem_size (frag_at i st)) st)\<lparr>frags_age := age\<rparr>)"
    "table_total impl st = frag_nat impl (frag_at i st) + table_total impl (frag_drop i (fr_mem_size (frag_at i st)) st)"
    "unat (fr_mem_size (frag_at i st)) = frag_nat impl (frag_at i st)"
proof -
  let ?st = "st\<lparr>frags_age := i # age\<rparr>"
  have "i \<in> fst ` set (ip_frags st)" "distinct (i # age)" "distinct (map fst (ip_frags st))"
    using assms(1) by (auto simp: frag_table_def)
  then obtain f where f: "(i, f) \<in> set (ip_frags ?st)" "removeAll i (i # age) = age" "frag_at i st = f"
    by (auto simp: frag_at_mem)
  note D = frag_drop_table [OF assms f(1)]
  show "frag_table impl ((frag_drop i (fr_mem_size (frag_at i st)) st)\<lparr>frags_age := age\<rparr>)"
    using D(1) f(2,3) by (simp add: frag_drop_def)
  show "table_total impl st = frag_nat impl (frag_at i st) + table_total impl (frag_drop i (fr_mem_size (frag_at i st)) st)"
    using D(2) f(3) by (simp add: table_total_def frag_drop_def)
  show "unat (fr_mem_size (frag_at i st)) = frag_nat impl (frag_at i st)"
    using frag_nat_bounds(2) [OF _ assms(2)] assms(1) f by (auto simp: frag_table_def)
qed

lemma limit_mem_loop_ok:
  "frag_table impl (st\<lparr>frags_age := age\<rparr>) \<Longrightarrow> impl_ok impl \<Longrightarrow>
     frag_table impl (limit_mem_loop age drp st) \<and>
     table_total impl (limit_mem_loop age drp st) \<le> table_total impl st - unat drp"
proof (induction age drp st rule: limit_mem_loop.induct)
  case (1 drp st)
  then have "ip_frags st = []" by (simp add: frag_table_def)
  then show ?case using 1 by (simp add: table_total_def)
next
  case (2 i age drp st)
  show ?case
  proof (cases "drp = 0")
    case True
    then show ?thesis using 2 by (simp add: table_total_def)
  next
    case False
    let ?f = "frag_at i st"
    let ?st = "frag_drop i (fr_mem_size ?f) st"
    note D = frag_drop_head [OF 2(2,3)]
    have "unat (drp - min drp (fr_mem_size ?f)) = unat drp - min (unat drp) (frag_nat impl ?f)"
      using D(3) by (simp add: unat_sub unat_min)
    moreover have "frag_table impl (limit_mem_loop age (drp - min drp (fr_mem_size ?f)) ?st) \<and>
        table_total impl (limit_mem_loop age (drp - min drp (fr_mem_size ?f)) ?st) \<le>
        table_total impl ?st - unat (drp - min drp (fr_mem_size ?f))"
      using 2(1) [OF False refl D(1) 2(3)] .
    ultimately show ?thesis using False D(2) by (simp add: Let_def) linarith
  qed
qed

lemma frag_limit_mem_ok:
  assumes "frag_table impl st" "impl_ok impl" "table_total impl st < 4294967296"
  shows "frag_table impl (frag_limit_mem st)" "table_total impl (frag_limit_mem st) \<le> 4194304"
proof -
  have mem: "unat (frag_mem st) = table_total impl st"
    using assms(1,3) by (simp add: frag_table_def unsigned_of_nat take_bit_eq_mod)
  have "frag_table impl (frag_limit_mem st) \<and> table_total impl (frag_limit_mem st) \<le> 4194304"
  proof (cases "frag_mem st \<le> frag_high_thresh")
    case True
    then show ?thesis using assms(1) mem by (simp add: frag_limit_mem_def word_le_nat_alt)
  next
    case False
    then have big: "4194304 < table_total impl st" and "frag_low_thresh \<le> frag_mem st"
      using mem by (simp_all add: word_le_nat_alt)
    then have "unat (frag_mem st - frag_low_thresh) = table_total impl st - 3145728"
      using mem by (simp add: unat_sub)
    then show ?thesis
      using big False limit_mem_loop_ok [of impl "frags_age st" st "frag_mem st - frag_low_thresh"] assms(1,2)
      by (simp add: frag_limit_mem_def)
  qed
  then show "frag_table impl (frag_limit_mem st)" "table_total impl (frag_limit_mem st) \<le> 4194304" by blast+
qed

lemma timeout_loop_ok:
  "frag_table impl (st\<lparr>frags_age := age\<rparr>) \<Longrightarrow> impl_ok impl \<Longrightarrow>
     frag_table impl (timeout_loop now age st) \<and> table_total impl (timeout_loop now age st) \<le> table_total impl st"
proof (induction now age st rule: timeout_loop.induct)
  case (1 now st)
  then show ?case by (simp add: table_total_def)
next
  case (2 now i age st)
  note D = frag_drop_head [OF 2(2,3)]
  show ?case
  proof (cases "now > fr_rx_time (frag_at i st) + frag_timeout_ms")
    case True
    then show ?thesis using 2(1) [OF refl True D(1) 2(3)] D(2) by (simp add: Let_def)
  next
    case False
    have "i \<in> fst ` set (ip_frags st)" using 2(2) by (auto simp: frag_table_def)
    then have "map_of (ip_frags st) i = Some (frag_at i st)"
      by (auto simp: frag_at_def split: option.split) (meson weak_map_of_SomeI)
    then have "set_frag i (frag_at i st) st = st" by (simp add: set_frag_def AList.update_triv)
    then show ?thesis using False 2(2) by (simp add: Let_def table_total_def)
  qed
qed

lemma frag_timeout_ok:
  assumes "frag_table impl st" "impl_ok impl"
  shows "frag_table impl (frag_timeout now st) \<and> table_total impl (frag_timeout now st) \<le> table_total impl st"
proof -
  let ?st = "st\<lparr>frag_timer := None\<rparr>"
  have "frag_table impl ?st" "table_total impl ?st = table_total impl st"
    using assms(1) by (simp_all add: frag_table_def table_total_def)
  then have "frag_table impl (timeout_loop now (frags_age ?st) ?st) \<and>
      table_total impl (timeout_loop now (frags_age ?st) ?st) \<le> table_total impl st"
    using timeout_loop_ok [of impl "frags_age ?st" ?st now] assms by simp
  then show ?thesis
    using assms by (auto simp: frag_timeout_def Let_def frag_table_def table_total_def)
qed

subsection \<open>Handling a packet keeps the invariant\<close>

lemma ihl_nibble: "unat (ip_ihl (ip_hdr_ntoh (ip_hdr_load p))) \<le> 15"
proof -
  have "unat (take_bit 4 (x :: byte)) < 16" for x
    by (simp only: unsigned_take_bit_eq) (simp add: take_bit_eq_mod)
  then show ?thesis unfolding ip_hdr_ntoh_def ip_hdr_load_def by (simp add: nibble_mask less_Suc_eq_le [symmetric])
qed

lemma check_received_bounds:
  assumes "check_received e p r = Inr (Some (h, p1))"
  shows "unat (ip_ihl h) \<le> 15" "unat (ip_offset h) + length p1 \<le> 65535"
  using assms ihl_nibble
  by (auto simp: check_received_def Let_def split: option.splits if_splits)

definition mem_limit :: "u32 \<Rightarrow> nat" where
  "mem_limit impl = 4194304 + frag_max impl"

lemma mem_limit_u32: "impl_ok impl \<Longrightarrow> mem_limit impl < 4294967296"
  using frag_max_bound [of impl] by (simp add: mem_limit_def)

lemma frag_at_good:
  assumes "frag_table impl st"
  shows "separated unat 65535 (fr_data (frag_at i st)) \<and> length (fr_header (frag_at i st)) \<le> 60"
proof (cases "map_of (ip_frags st) i")
  case None
  then show ?thesis by (simp add: frag_at_def frag_init_def separated_def)
next
  case (Some f)
  then have "frag_good impl f" using assms map_of_SomeD [OF Some] by (auto simp: frag_table_def)
  then show ?thesis using Some by (simp add: frag_at_def frag_good_def)
qed

lemma frag_at_present: "fr_mem_size (frag_at i st) \<noteq> 0 \<Longrightarrow> i \<in> fst ` set (ip_frags st)"
  by (cases "map_of (ip_frags st) i") (auto simp: frag_at_def frag_init_def dest: map_of_SomeD intro: rev_image_eqI)

lemma enter_frag_ok:
  assumes t: "frag_table impl st" and impl: "impl_ok impl" and e: "enter_frag e h st = (st1, f)"
  shows "separated unat 65535 (fr_data f)" "length (fr_header f) \<le> 60"
    "fr_mem_size f = fr_mem_size (frag_at (frag_id_of h) st)" "frag_mem st1 = frag_mem st" "frag_timer st1 = frag_timer st"
    "set_frag (frag_id_of h) g st1 = (set_frag (frag_id_of h) g st)\<lparr>frags_age :=
       (if frag_id_of h \<in> fst ` set (ip_frags st) then frags_age st else frags_age st @ [frag_id_of h])\<rparr>"
proof -
  let ?i = "frag_id_of h"
  have f: "fr_data f = fr_data (frag_at ?i st)" "fr_header f = fr_header (frag_at ?i st)"
      "fr_mem_size f = fr_mem_size (frag_at ?i st)" "frag_mem st1 = frag_mem st" "frag_timer st1 = frag_timer st"
    using e by (auto simp: enter_frag_def Let_def split: if_splits)
  then show "fr_mem_size f = fr_mem_size (frag_at ?i st)" "frag_mem st1 = frag_mem st" "frag_timer st1 = frag_timer st"
    by simp_all
  show "separated unat 65535 (fr_data f)" "length (fr_header f) \<le> 60"
    using frag_at_good [OF t] f by simp_all
  have "?i \<in> fst ` set (ip_frags st) \<longleftrightarrow> fr_mem_size (frag_at ?i st) \<noteq> 0"
  proof
    assume "?i \<in> fst ` set (ip_frags st)"
    then obtain g where "(?i, g) \<in> set (ip_frags st)" by auto
    then have "frag_at ?i st = g" "frag_good impl g"
      using t by (auto simp: frag_table_def frag_at_mem)
    then show "fr_mem_size (frag_at ?i st) \<noteq> 0" using frag_nat_bounds(2,3) [OF _ impl, of g] by auto
  next
    assume "fr_mem_size (frag_at ?i st) \<noteq> 0"
    then show "?i \<in> fst ` set (ip_frags st)" by (rule frag_at_present)
  qed
  then show "set_frag ?i g st1 = (set_frag ?i g st)\<lparr>frags_age :=
       (if ?i \<in> fst ` set (ip_frags st) then frags_age st else frags_age st @ [?i])\<rparr>"
    using e by (auto simp: enter_frag_def Let_def set_frag_def split: if_splits)
qed

text \<open>The state after merging a fragment, whether or not it completed its datagram.\<close>

definition after_add :: "ip_env \<Rightarrow> ip_hdr \<Rightarrow> u32 \<Rightarrow> frag \<Rightarrow> bool \<Rightarrow> ipv4 \<Rightarrow> ipv4" where
  "after_add e h added f complete st =
     (let st1 = (set_frag (frag_id_of h) f st)\<lparr>frag_mem := frag_mem st + added\<rparr>
      in if complete then (frag_drop (frag_id_of h) (fr_mem_size f) st1)
             \<lparr>frags_age := removeAll (frag_id_of h) (frags_age st1)\<rparr>
         else if frag_timer st1 = None then frag_arm (ie_now e) st1 else st1)"

lemma add_fragment_cases:
  assumes "add_fragment e h from p st f = Inr (st', evs)"
  shows "\<exists>added f3 complete. frag_merge (ie_impl_size e) h (ip_offset h) p f = Inr (added, f3) \<and>
    is_complete f3 = Inr complete \<and> st' = after_add e h added f3 complete st \<and>
    (if complete then dispatch_complete e h from f3 = Inr evs else evs = [])"
proof -
  obtain added f3 complete where m: "frag_merge (ie_impl_size e) h (ip_offset h) p f = Inr (added, f3)"
      "is_complete f3 = Inr complete"
    using assms by (auto simp: add_fragment_def Let_def)
  have age: "frags_age (frag_drop i n s) = frags_age s" for i n s by (simp add: frag_drop_def)
  show ?thesis
  proof (cases complete)
    case True
    then obtain evs' where "dispatch_complete e h from f3 = Inr evs'"
      using assms m by (auto simp: add_fragment_def Let_def)
    then show ?thesis
      using assms m True by (intro exI [of _ added] exI [of _ f3] exI [of _ complete])
        (simp add: add_fragment_def Let_def after_add_def age)
  next
    case False
    then show ?thesis
      using assms m by (intro exI [of _ added] exI [of _ f3] exI [of _ complete])
        (simp add: add_fragment_def Let_def after_add_def)
  qed
qed

lemma handle_fragment_ok:
  assumes t: "frag_table (ie_impl_size e) st" "table_total (ie_impl_size e) st \<le> mem_limit (ie_impl_size e)"
    and impl: "impl_ok (ie_impl_size e)"
    and h: "unat (ip_ihl h) \<le> 15" "unat (ip_offset h) + length p \<le> 65535"
    and run: "handle_fragment e h from p st = Inr (st', evs)"
  shows "frag_table (ie_impl_size e) st' \<and> table_total (ie_impl_size e) st' \<le> mem_limit (ie_impl_size e)"
proof -
  let ?impl = "ie_impl_size e" and ?i = "frag_id_of h"
  define st0 where "st0 = frag_limit_mem st"
  obtain st1 f where en: "enter_frag e h st0 = (st1, f)" by (cases "enter_frag e h st0")
  have t0: "frag_table ?impl st0" "table_total ?impl st0 \<le> 4194304"
    using frag_limit_mem_ok [OF t(1) impl] t(2) mem_limit_u32 [OF impl] by (auto simp: st0_def)
  note E = enter_frag_ok [OF t0(1) impl en]
  have "add_fragment e h from p st1 f = Inr (st', evs)"
    using run en by (simp add: handle_fragment_def st0_def)
  from add_fragment_cases [OF this] obtain added f3 complete where
      m: "frag_merge ?impl h (ip_offset h) p f = Inr (added, f3)"
    and st': "st' = after_add e h added f3 complete st1" by blast
  note G = frag_merge_good [OF m E(1,2) h]
  let ?st2 = "(set_frag ?i f3 st1)\<lparr>frag_mem := frag_mem st1 + added\<rparr>"
  have st2: "?st2 = (set_frag ?i f3 st0)\<lparr>frags_age := (if ?i \<in> fst ` set (ip_frags st0) then frags_age st0 else frags_age st0 @ [?i]),
        frag_mem := frag_mem st0 + (fr_mem_size f3 - fr_mem_size (frag_at ?i st0))\<rparr>"
    using E(3,4) G(2) by (simp add: E(6))
  note T = set_frag_table [OF t0(1) G(1) st2]
  have tot: "table_total ?impl ?st2 \<le> mem_limit ?impl"
    using T(2) t0(2) frag_nat_bounds(1) [OF G(1) impl] by (simp add: mem_limit_def)
  show ?thesis
  proof (cases complete)
    case True
    note D = frag_drop_table [OF T(1) impl T(3)]
    have "table_total ?impl st' = table_total ?impl (frag_drop ?i (fr_mem_size f3) ?st2)"
      using st' True by (simp add: table_total_def after_add_def Let_def)
    then show ?thesis using D tot st' True by (simp add: after_add_def Let_def frag_drop_def)
  next
    case False
    then have "frag_table ?impl st' = frag_table ?impl ?st2" "table_total ?impl st' = table_total ?impl ?st2"
      using st' by (auto simp: after_add_def Let_def frag_arm_def frag_table_def table_total_def)
    then show ?thesis using T(1) tot by simp
  qed
qed

lemma frag_table_arp [simp]: "frag_table impl (ip_learn l2 l3 st) = frag_table impl st"
  "table_total impl (ip_learn l2 l3 st) = table_total impl st"
  by (simp_all add: frag_table_def table_total_def ip_learn_def)

lemma handle_received_ok:
  assumes "frag_table (ie_impl_size e) st" "table_total (ie_impl_size e) st \<le> mem_limit (ie_impl_size e)"
    and "impl_ok (ie_impl_size e)" and "handle_received_packet e p r from st = Inr (st', evs)"
  shows "frag_table (ie_impl_size e) st' \<and> table_total (ie_impl_size e) st' \<le> mem_limit (ie_impl_size e)"
proof -
  obtain c where c: "check_received e p r = Inr c" using assms(4) by (auto simp: handle_received_packet_def)
  show ?thesis
  proof (cases c)
    case None
    then show ?thesis using assms c by (simp add: handle_received_packet_def)
  next
    case (Some hp)
    obtain h p1 where hp: "hp = (h, p1)" by (cases hp)
    note b = check_received_bounds [of e p r h p1]
    show ?thesis
      using assms c Some hp b
      by (auto simp: handle_received_packet_def Let_def split: if_splits option.splits
          dest!: handle_fragment_ok [rotated 5])
  qed
qed

end
