(* ===== verification/IpGather.thy ===== *)
theory IpGather
  imports IpFrag "HOL-Library.Multiset"
begin

text \<open>
  Gathering the fragments of one datagram: what the table entry holds while they arrive in any
  order, and that the last one to arrive hands the datagram over, once.
\<close>

subsection \<open>Fragments arriving in any order\<close>

fun receive_all ::
  "ip_env \<Rightarrow> ethernet_address \<Rightarrow> bytes list \<Rightarrow> ipv4 \<Rightarrow> (ipv4 \<times> ip_event list) result" where
  "receive_all e from [] st = Inr (st, [])"
| "receive_all e from (p # ps) st =
     andThen (handle_received_packet e p False from st) (\<lambda>(st1, ev1).
       andThen (receive_all e from ps st1) (\<lambda>(st2, ev2). Inr (st2, ev1 @ ev2)))"

text \<open>One fragment as the receiver sees it: where it lies, and its bytes.\<close>

definition is_fragment ::
  "ipv4_address \<Rightarrow> ipv4_address \<Rightarrow> ip_protocol_num \<Rightarrow> bytes \<Rightarrow> bytes \<Rightarrow> nat \<times> nat \<Rightarrow> bool" where
  "is_fragment src to proto p bs = (\<lambda>(off, n).
     length bs = n + 20 \<and> drop 20 bs = take n (drop off p) \<and>
     (let h = ip_hdr_ntoh (ip_hdr_load bs) in
        ip_ihl h = 5 \<and> ip_len h = word_of_nat (n + 20) \<and> ip_id h = 0 \<and>
        ip_proto h = ip_protocol_code proto \<and> ip_src h = src \<and> ip_dst h = to \<and>
        ip_mf h = (off + n < length p) \<and> ip_offset h = word_of_nat off))"

text \<open>What a receiver of datagrams from \<open>src\<close> to \<open>to\<close> needs: the device has checked the checksum,
  nothing filters or redirects packets, and this is the receiver's address.\<close>

definition receiver_ok :: "ip_env \<Rightarrow> bool" where
  "receiver_ok e \<longleftrightarrow> rx_csum_offload (ie_hw e) \<and> ie_filter e = None \<and> (\<forall>h. ie_hash2cpu e h = ie_shard e) \<and>
     4 \<le> length (ie_rss_key e) \<and> impl_ok (ie_impl_size e)"

lemma handle_received_fragment:
  assumes "receiver_ok e" "is_fragment src to proto p bs (off, n)" "0 < n" "off + n \<le> length p" "length p \<le> 65515"
    and "off + n < length p \<or> 0 < off" "host_address st = to"
  shows "\<exists>st1. ip_frags st1 = ip_frags st \<and> frag_mem st1 = frag_mem st \<and> frags_age st1 = frags_age st \<and>
    host_address st1 = to \<and>
    handle_received_packet e bs False from st = handle_fragment e (ip_hdr_ntoh (ip_hdr_load bs)) from bs st1"
proof -
  let ?h = "ip_hdr_ntoh (ip_hdr_load bs)"
  have h: "ip_len ?h = word_of_nat (n + 20)" "ip_dst ?h = to" "ip_mf ?h = (off + n < length p)"
      "ip_offset ?h = word_of_nat off" "length bs = n + 20"
    using assms(2) by (auto simp: is_fragment_def Let_def)
  have s: "slice 0 20 bs = take 20 bs" by (simp add: slice_def)
  have ld: "ip_hdr_load (take 20 bs) = ip_hdr_load bs"
    using h(5) by (simp add: ip_hdr_load_def load16_def load32_def drop_take min_def)
  have len: "unat (ip_len ?h) = length bs" "unat (ip_offset ?h) = off"
    using h assms(3-5) by (simp_all add: unsigned_of_nat take_bit_eq_mod del: of_nat_add)
  have chk: "check_received e bs False = Inr (Some (?h, bs))"
    using assms(1,4,5) len h(5) by (simp add: check_received_def v_get_header_def s ld Let_def receiver_ok_def)
  have frg: "ip_mf ?h \<or> ip_offset ?h \<noteq> 0"
    using assms(6) h len(2) by (metis gr_implies_not0 unat_0)
  define st1 where "st1 = (if in_my_netmask st (ip_src ?h) \<and> ip_src ?h \<noteq> host_address st
      then ip_learn from (ip_src ?h) st else st)"
  have "handle_received_packet e bs False from st = handle_fragment e ?h from bs st1"
    using assms(1,7) chk frg h(2)
    by (auto simp: handle_received_packet_def Let_def receiver_ok_def st1_def ip_learn_def)
  then show ?thesis using assms(7) by (intro exI [of _ st1]) (auto simp: st1_def ip_learn_def)
qed

lemma merge_with_existing_length:
  "merge_with_existing ops beg p m = Inr r \<Longrightarrow>
     (case r of Covered \<Rightarrow> True | Insert m' p' \<Rightarrow> length m' \<le> length m | Absorbed m' \<Rightarrow> length m' = length m)"
proof (induction m arbitrary: r)
  case (Cons s m)
  obtain a q where s: "s = (a, q)" by (cases s)
  from Cons.prems s consider "r = Covered" | p' where "r = Insert m p'" | q' where "r = Absorbed ((a, q') # m)"
    | r' where "merge_with_existing ops beg p m = Inr r'" "r = keep (a, q) r'"
    by (auto simp: Let_def split: if_splits)
  then show ?case
  proof cases
    case 4
    then show ?thesis using Cons.IH [OF 4(1)] by (cases r') auto
  qed auto
qed auto

lemma map_emplace_length: "length (map_emplace ops k v m) \<le> Suc (length m)"
  by (induction m) auto

lemma merge_adjacent_length: "merge_adjacent ops m = Inr r \<Longrightarrow> length r \<le> length m"
proof (induction ops m arbitrary: r rule: merge_adjacent.induct)
  case (3 ops seg_beg seg_pkt beg p m)
  from 3(4) consider
    rest where "v_trim_front p (o_sub ops (o_add ops seg_beg (length seg_pkt)) beg) = Inr rest"
      "o_le ops seg_beg beg \<and> o_le ops beg (o_add ops seg_beg (length seg_pkt)) \<and>
       o_lt ops (o_add ops seg_beg (length seg_pkt)) (o_add ops beg (length p))"
      "merge_adjacent ops ((seg_beg, seg_pkt @ rest) # m) = Inr r"
    | "merge_adjacent ops ((seg_beg, seg_pkt) # m) = Inr r"
      "\<not> (o_le ops seg_beg beg \<and> o_le ops beg (o_add ops seg_beg (length seg_pkt)) \<and>
       o_lt ops (o_add ops seg_beg (length seg_pkt)) (o_add ops beg (length p)))"
      "o_le ops (o_add ops beg (length p)) (o_add ops seg_beg (length seg_pkt))"
    | r' where "merge_adjacent ops ((beg, p) # m) = Inr r'" "r = (seg_beg, seg_pkt) # r'"
      "\<not> (o_le ops seg_beg beg \<and> o_le ops beg (o_add ops seg_beg (length seg_pkt)) \<and>
       o_lt ops (o_add ops seg_beg (length seg_pkt)) (o_add ops beg (length p)))"
      "\<not> o_le ops (o_add ops beg (length p)) (o_add ops seg_beg (length seg_pkt))"
      "o_lt ops (o_add ops seg_beg (length seg_pkt)) beg"
    by (auto simp: Let_def split: if_splits sum.splits)
  then show ?case
  proof cases
    case 1
    then show ?thesis using 3(1) [OF refl refl 1(2,1,3)] by simp
  next
    case 2
    then show ?thesis using 3(2) [OF refl refl 2(2,3,1)] by simp
  next
    case 3
    then show ?thesis using "3.IH"(3) [OF refl refl 3(3,4,5,1)] by simp
  qed
qed auto

lemma merge_length: "merge ops m beg p = Inr r \<Longrightarrow> length r \<le> Suc (length m)"
proof -
  assume "merge ops m beg p = Inr r"
  then obtain r1 where r1: "merge_with_existing ops beg p m = Inr r1"
      "(case r1 of Covered \<Rightarrow> Inr m | Insert m' p' \<Rightarrow> merge_adjacent ops (map_emplace ops beg p' m')
        | Absorbed m' \<Rightarrow> merge_adjacent ops m') = Inr r"
    by (auto simp: merge_def)
  note len = merge_with_existing_length [OF r1(1)]
  show ?thesis
  proof (cases r1)
    case (Insert m' p')
    then have "length r \<le> length (map_emplace ops beg p' m')" using r1(2) merge_adjacent_length by auto
    also have "\<dots> \<le> Suc (length m')" by (rule map_emplace_length)
    finally show ?thesis using len Insert by simp
  next
    case (Absorbed m')
    then show ?thesis using r1(2) len merge_adjacent_length [of ops m' r] by simp
  qed (use r1(2) in simp)
qed

text \<open>The state while the fragments \<open>done\<close> of the datagram \<open>p\<close> with id \<open>i\<close> have arrived. The memory
  held for other datagrams is \<open>m0\<close>.\<close>

definition gathering ::
  "u32 \<Rightarrow> ipv4_frag_id \<Rightarrow> bytes \<Rightarrow> nat \<Rightarrow> ipv4_address \<Rightarrow> (nat \<times> nat) list \<Rightarrow> ipv4 \<Rightarrow> bool" where
  "gathering impl i p m0 to done st \<longleftrightarrow>
     (let f = frag_at i st in
      host_address st = to \<and> separated unat 65535 (fr_data f) \<and>
      list_all (of_stream unat (\<lambda>k. p ! k)) (fr_data f) \<and> (\<forall>s \<in> set (fr_data f). snd s \<noteq> []) \<and>
      covers unat (fr_data f) = (\<Union>(off, n) \<in> set done. {off ..< off + n}) \<and>
      length (fr_header f) \<le> 20 \<and> length (fr_data f) \<le> length done \<and>
      fr_mem_size f = (if done = [] then 0 else frag_memory impl f) \<and>
      last_frag_received f = (\<exists>(off, n) \<in> set done. off + n = length p) \<and>
      frag_mem st = word_of_nat m0 + fr_mem_size f)"

lemma l4_of_code [simp]: "proto \<noteq> unused_num \<Longrightarrow> l4_of (ip_protocol_code proto) = Some proto"
  by (cases proto) (simp_all add: l4_of_def)

lemma push_back8_ok: "length fh < 64 \<Longrightarrow> push_back8 fh b = Inr (fh @ [b])"
  by (simp add: push_back8_def)

lemma l4_forward_ok: "length fh \<le> 60 \<Longrightarrow> \<exists>x. l4_forward l4 fh p off = Inr x"
  by (cases l4) (auto simp: l4_forward_def tcp_forward_def udp_forward_def push_back8_ok split: option.split)

lemma dispatch_complete_ok:
  assumes "receiver_ok e" "ip_proto h = ip_protocol_code proto" "proto \<noteq> unused_num" "fr_data f = [(a, p)]"
  shows "dispatch_complete e h from f = Inr [Deliver proto p (ip_src h) (ip_dst h)]"
proof -
  have l: "length (store32 x @ store32 y) \<le> 60" for x y by simp
  obtain x where "l4_forward proto (store32 (hton32 (ip_src h)) @ store32 (hton32 (ip_dst h))) p 0 = Inr x"
    using l4_forward_ok [OF l] by blast
  then show ?thesis
    using assms by (simp add: dispatch_complete_def receiver_ok_def toeplitz_hash_def)
qed

lemma add_fragment_run:
  assumes "frag_merge (ie_impl_size e) h (ip_offset h) p f = Inr (added, f3)" "is_complete f3 = Inr complete"
    and "complete \<Longrightarrow> dispatch_complete e h from f3 = Inr evs" "\<not> complete \<Longrightarrow> evs = []"
  shows "add_fragment e h from p st f = Inr (after_add e h added f3 complete st, evs)"
proof (cases complete)
  case True
  then have "dispatch_complete e h from f3 = Inr evs" "is_complete f3 = Inr True" using assms by simp_all
  then show ?thesis
    using assms(1) True by (simp add: add_fragment_def Let_def after_add_def frag_drop_def)
next
  case False
  then have "evs = []" "is_complete f3 = Inr False" using assms by simp_all
  then show ?thesis
    using assms(1) False by (simp add: add_fragment_def Let_def after_add_def)
qed

lemma after_add_frags:
  "map_of (ip_frags (after_add e h added f complete st)) (frag_id_of h) = (if complete then None else Some f)"
  "host_address (after_add e h added f complete st) = host_address st"
  "frag_mem (after_add e h added f complete st) =
     (if complete then frag_mem st + added - fr_mem_size f else frag_mem st + added)"
  by (simp_all add: after_add_def Let_def frag_drop_def set_frag_def frag_arm_def AList.delete_conv' AList.update_conv')

text \<open>The merged datagram after one more fragment.\<close>

lemma gathering_merge:
  assumes g: "gathering impl i p m0 to done st"
    and cut: "is_fragment src to proto p bs (off, n)" "0 < n" "off + n \<le> length p" "length p \<le> 65515"
    and en: "fr_data f = fr_data (frag_at i st)" "fr_header f = fr_header (frag_at i st)"
      "fr_mem_size f = fr_mem_size (frag_at i st)"
  defines "h \<equiv> ip_hdr_ntoh (ip_hdr_load bs)"
  shows "\<exists>f3. frag_merge impl h (ip_offset h) bs f = Inr (fr_mem_size f3 - fr_mem_size f, f3) \<and>
    separated unat 65535 (fr_data f3) \<and> list_all (of_stream unat (\<lambda>k. p ! k)) (fr_data f3) \<and>
    (\<forall>s \<in> set (fr_data f3). snd s \<noteq> []) \<and>
    covers unat (fr_data f3) = (\<Union>(off, n) \<in> set (done @ [(off, n)]). {off ..< off + n}) \<and>
    length (fr_header f3) \<le> 20 \<and> length (fr_data f3) \<le> length (done @ [(off, n)]) \<and>
    fr_mem_size f3 = frag_memory impl f3 \<and> last_frag_received f3 = last_frag_received f"
proof -
  let ?m = "fr_data f" and ?pl = "take n (drop off p)"
  have h: "ip_ihl h = 5" "ip_offset h = word_of_nat off" "length bs = n + 20" "drop 20 bs = ?pl"
    using cut(1) by (auto simp: is_fragment_def h_def Let_def)
  have off: "unat (ip_offset h) = off" using h(2) cut by (simp add: unsigned_of_nat take_bit_eq_mod)
  have len: "length ?pl = n" using cut by simp
  have pl: "of_stream unat (\<lambda>k. p ! k) (ucast (ip_offset h) :: u32, ?pl)"
    using off len cut(3) by (simp add: of_stream_def list_eq_iff_nth_eq)
  have fits: "fits unat 65535 (ucast (ip_offset h) :: u32, ?pl)" using off len cut by (simp add: fits_def)
  have G: "separated unat 65535 ?m" "list_all (of_stream unat (\<lambda>k. p ! k)) ?m" "\<forall>s \<in> set ?m. snd s \<noteq> []"
      "covers unat ?m = (\<Union>(off, n) \<in> set done. {off ..< off + n})" "length (fr_header f) \<le> 20" "length ?m \<le> length done"
    using g en by (auto simp: gathering_def Let_def)
  obtain r where r: "merge u32_ops ?m (ucast (ip_offset h)) ?pl = Inr r" "separated unat 65535 r"
      "list_all (of_stream unat (\<lambda>k. p ! k)) r" "covers unat r = covers unat ?m \<union> seg_cover unat (ucast (ip_offset h) :: u32, ?pl)"
    using u16_merge.merge_of_stream [OF G(1,2) fits pl] by blast
  define f1 where "f1 = (if ip_offset h = 0 then f\<lparr>fr_header := take 20 bs\<rparr> else f)"
  define f3 where "f3 = (f1\<lparr>fr_data := r\<rparr>)\<lparr>fr_mem_size := frag_memory impl (f1\<lparr>fr_data := r\<rparr>)\<rparr>"
  have "(if ip_offset h = 0 then andThen (v_share bs 0 20) (\<lambda>hd. Inr (f\<lparr>fr_header := hd\<rparr>)) else Inr f) = Inr f1"
    using h(3) by (simp add: f1_def)
  moreover have "v_trim_front bs 20 = Inr ?pl" using h(3,4) by simp
  moreover have "fr_data f1 = ?m" by (simp add: f1_def)
  ultimately have "frag_merge impl h (ip_offset h) bs f = Inr (fr_mem_size f3 - fr_mem_size f, f3)"
    using h(1) r(1) by (simp add: frag_merge_def Let_def f3_def)
  moreover have "\<forall>s \<in> set r. snd s \<noteq> []" using merge_nonempty [OF r(1) _ G(3)] len cut(2) by auto
  moreover have "covers unat r = (\<Union>(off, n) \<in> set (done @ [(off, n)]). {off ..< off + n})"
    using r(4) G(4) off len by (auto simp: seg_cover_def)
  moreover have "length r \<le> length (done @ [(off, n)])" using merge_length [OF r(1)] G(6) by simp
  moreover have "length (fr_header f1) \<le> 20" using G(5) h(3) by (simp add: f1_def)
  moreover have "frag_memory impl f3 = frag_memory impl (f1\<lparr>fr_data := r\<rparr>)"
    by (simp add: f3_def frag_memory_def)
  ultimately show ?thesis using r(2,3) by (intro exI [of _ f3]) (simp add: f3_def f1_def)
qed

lemma cuts_len: "0 < c \<Longrightarrow> (off, n) \<in> set (cuts c a rest) \<Longrightarrow> n = min c (a + rest - off)"
proof (induction c a rest rule: cuts.induct)
  case (1 c a rest)
  show ?case
  proof (cases "rest = 0")
    case False
    have sum: "a + min c rest + (rest - min c rest) = a + rest" by simp
    from 1 False consider "off = a" "n = min c rest" | "(off, n) \<in> set (cuts c (a + min c rest) (rest - min c rest))"
      by (auto simp: cuts_step)
    then show ?thesis
    proof cases
      case 2
      then show ?thesis using 1(1) [OF _ 1(2) 2] 1(2) False sum by simp
    qed simp
  qed (use 1 in simp)
qed

lemma cuts_unique:
  assumes "0 < c" "(o1, n1) \<in> set (cuts c a rest)" "(o2, n2) \<in> set (cuts c a rest)" "o1 \<le> x" "x < o1 + n1" "o2 \<le> x" "x < o2 + n2"
  shows "(o1, n1) = (o2, n2)"
proof -
  obtain k1 k2 where k: "o1 = a + k1 * c" "o2 = a + k2 * c" "n1 \<le> c" "n2 \<le> c"
    using cuts_member [OF assms(1)] assms(2,3) by meson
  then have "k1 * c < (k2 + 1) * c" "k2 * c < (k1 + 1) * c" using assms(4-7) by simp_all
  then have "k1 = k2" using assms(1) by (simp only: mult_less_cancel2) linarith
  then show ?thesis using k cuts_len [OF assms(1) assms(2)] cuts_len [OF assms(1) assms(3)] by simp
qed

lemma length_cuts_div: "0 < c \<Longrightarrow> length (cuts c a rest) \<le> rest div c + 1"
proof (induction c a rest rule: cuts.induct)
  case (1 c a rest)
  show ?case
  proof (cases "rest \<le> c")
    case True
    then show ?thesis using 1 by (cases "rest = 0") (simp_all add: cuts_step)
  next
    case False
    then have "rest div c = (rest - c) div c + 1" using 1 by (simp add: le_div_geq)
    then show ?thesis using 1 False by (simp add: cuts_step)
  qed
qed

text \<open>A datagram is complete exactly when all its fragments have arrived.\<close>

lemma complete_iff:
  assumes c: "0 < c" and l: "0 < length p" and sub: "S \<subseteq> set (cuts c 0 (length p))"
    and f: "separated unat 65535 (fr_data f)" "list_all (of_stream unat (\<lambda>k. p ! k)) (fr_data f)"
      "\<forall>s \<in> set (fr_data f). snd s \<noteq> []" "covers unat (fr_data f) = (\<Union>(off, n) \<in> S. {off ..< off + n})"
      "last_frag_received f = (\<exists>(off, n) \<in> S. off + n = length p)"
    and ne: "S \<noteq> {}"
  shows "is_complete f = Inr (S = set (cuts c 0 (length p)))"
    "S = set (cuts c 0 (length p)) \<Longrightarrow> \<exists>a. fr_data f = [(a, p)]"
proof -
  let ?cs = "cuts c 0 (length p)"
  have whole: "(\<exists>a. fr_data f = [(a, p)] \<and> a = 0) \<and> last_frag_received f" if S: "S = set ?cs"
  proof -
    have cov: "covers unat (fr_data f) = {0 ..< length p}" using f(4) S cuts_cover [OF c, of 0 "length p"] by simp
    obtain a q where aq: "fr_data f = [(a, q)]" "unat a = 0" "length q = length p"
      using covered_interval_single [OF f(1,3) cov l] by blast
    have "q = p" using f(2) aq by (simp add: of_stream_def map_nth)
    moreover have "length p - 1 \<in> (\<Union>(off, n) \<in> set ?cs. {off ..< off + n})"
      unfolding cuts_cover [OF c] using l by simp
    then obtain off n where on: "(off, n) \<in> set ?cs" "length p - 1 < off + n" by auto
    then have "off + n = length p" using cuts_member [OF c on(1)] l by linarith
    then have "last_frag_received f" using f(5) S on(1) by auto
    ultimately show ?thesis using aq by (auto simp: unat_eq_0)
  qed
  then show "S = set ?cs \<Longrightarrow> \<exists>a. fr_data f = [(a, p)]" by blast
  have all: "S = set ?cs" if "last_frag_received f" "fr_data f = [(0, q)]" for q
  proof -
    have cov: "(\<Union>(off, n) \<in> S. {off ..< off + n}) = {0 ..< length q}" using that(2) f(4) by (simp add: seg_cover_def)
    have "\<exists>(off, n) \<in> S. off + n = length p" using that(1) f(5) by simp
    then obtain off n where on: "(off, n) \<in> S" "off + n = length p" by blast
    then have "0 < n" using cuts_member [OF c, of off n] sub by blast
    then have "length p - 1 \<in> {0 ..< length q}" unfolding cov [symmetric] using on by (intro UN_I [of "(off, n)"]) auto
    then have "length p \<le> length q" by simp
    have "x \<in> S" if "x \<in> set ?cs" for x
    proof -
      obtain o1 n1 where x: "x = (o1, n1)" by (cases x)
      then have o1: "0 < n1" "o1 + n1 \<le> length p" using cuts_member [OF c, of o1 n1 0 "length p"] that by auto
      then have "o1 \<in> {0 ..< length q}" using \<open>length p \<le> length q\<close> by simp
      then obtain o2 n2 where "(o2, n2) \<in> S" "o2 \<le> o1" "o1 < o2 + n2" unfolding cov [symmetric] by auto
      then show "x \<in> S" using cuts_unique [OF c, of o1 n1 0 "length p" o2 n2 o1] x that sub o1 by auto
    qed
    then show ?thesis using sub by blast
  qed
  have "fr_data f \<noteq> []"
  proof
    assume e: "fr_data f = []"
    obtain off n where "(off, n) \<in> S" using ne by auto
    then have "0 < n" "off \<in> (\<Union>(off, n) \<in> S. {off ..< off + n})"
      using cuts_member [OF c, of off n] sub by force+
    then show False using f(4) e by simp
  qed
  then obtain a q rest where d: "fr_data f = (a, q) # rest" by (metis neq_Nil_conv surj_pair)
  have "(last_frag_received f \<and> rest = [] \<and> a = 0) \<longleftrightarrow> S = set ?cs"
    using whole all [of q] d by auto
  then show "is_complete f = Inr (S = set ?cs)" using d by (simp add: is_complete_def)
qed

lemma frag_mem_room:
  assumes g: "gathering impl i p m0 to done st" and room: "m0 + 65555 + (length done + 1) * unat impl \<le> 4194304"
  shows "frag_mem st \<le> frag_high_thresh"
proof -
  let ?f = "frag_at i st"
  have mem: "frag_mem st = word_of_nat m0 + fr_mem_size ?f" and
    f: "fr_mem_size ?f = (if done = [] then 0 else frag_memory impl ?f)" "length (fr_header ?f) \<le> 20"
       "length (fr_data ?f) \<le> length done" "separated unat 65535 (fr_data ?f)"
    using g by (auto simp: gathering_def Let_def)
  define k where "k = (if done = [] then 0 else frag_nat impl ?f)"
  have "length (fr_data ?f) * unat impl \<le> length done * unat impl" using f(3) by simp
  then have "frag_nat impl ?f \<le> 65555 + (length done + 1) * unat impl"
    using f(2) separated_bounds(1) [OF f(4)] unfolding frag_nat_def add_mult_distrib by linarith
  then have k: "m0 + k \<le> 4194304" using room by (simp add: k_def)
  have "frag_mem st = word_of_nat (m0 + k)" using mem f(1) by (simp add: k_def frag_memory_eq)
  then have "unat (frag_mem st) = m0 + k" using k by (simp add: unsigned_of_nat take_bit_eq_mod del: of_nat_add)
  then show ?thesis using k by (simp add: word_le_nat_alt)
qed

lemma gathering_step:
  assumes e: "receiver_ok e" and g: "gathering (ie_impl_size e) i p m0 to done st"
    and c: "0 < c" "c < length p" "length p \<le> 65515" and proto: "proto \<noteq> unused_num"
    and room: "m0 + 65555 + (length done + 1) * unat (ie_impl_size e) \<le> 4194304"
    and sub: "set done \<subseteq> set (cuts c 0 (length p))" and cut: "(off, n) \<in> set (cuts c 0 (length p))"
    and frg: "is_fragment src to proto p bs (off, n)"
    and i: "i = \<lparr>id_src = src, id_dst = to, identification = 0, id_protocol = ip_protocol_code proto\<rparr>"
  shows "\<exists>st' evs. handle_received_packet e bs False from st = Inr (st', evs) \<and>
    (if set (done @ [(off, n)]) = set (cuts c 0 (length p))
     then evs = [Deliver proto p src to] \<and> map_of (ip_frags st') i = None
     else evs = [] \<and> gathering (ie_impl_size e) i p m0 to (done @ [(off, n)]) st')"
proof -
  let ?impl = "ie_impl_size e" and ?h = "ip_hdr_ntoh (ip_hdr_load bs)" and ?D = "done @ [(off, n)]"
  note m = cuts_member [OF c(1) cut]
  have mf: "off + n < length p \<or> 0 < off"
    using m cuts_len [OF c(1) cut] c(2) by (cases "off = 0") auto
  have h: "ip_mf ?h = (off + n < length p)" "ip_proto ?h = ip_protocol_code proto" "ip_src ?h = src" "ip_dst ?h = to"
      "frag_id_of ?h = i"
    using frg i by (auto simp: is_fragment_def Let_def frag_id_of_def)
  have host: "host_address st = to" using g by (simp add: gathering_def Let_def)
  obtain st1 where st1: "ip_frags st1 = ip_frags st" "frag_mem st1 = frag_mem st" "host_address st1 = to"
      "handle_received_packet e bs False from st = handle_fragment e ?h from bs st1"
    using handle_received_fragment [OF e frg _ _ c(3) mf host, of "from"] m by auto
  have at: "frag_at i st1 = frag_at i st" using st1(1) by (simp add: frag_at_def)
  have lim: "frag_limit_mem st1 = st1"
    using frag_mem_room [OF g room] st1(2) by (simp add: frag_limit_mem_def)
  obtain st2 f where en: "enter_frag e ?h st1 = (st2, f)" by (cases "enter_frag e ?h st1")
  have f: "fr_data f = fr_data (frag_at i st)" "fr_header f = fr_header (frag_at i st)"
      "fr_mem_size f = fr_mem_size (frag_at i st)"
      "last_frag_received f = (last_frag_received (frag_at i st) \<or> \<not> off + n < length p)"
      "frag_mem st2 = frag_mem st" "host_address st2 = to"
    using en st1(2,3) at h(1,5) by (auto simp: enter_frag_def Let_def split: if_splits)
  obtain f3 where f3: "frag_merge ?impl ?h (ip_offset ?h) bs f = Inr (fr_mem_size f3 - fr_mem_size f, f3)"
      "separated unat 65535 (fr_data f3)" "list_all (of_stream unat (\<lambda>k. p ! k)) (fr_data f3)"
      "\<forall>s \<in> set (fr_data f3). snd s \<noteq> []"
      "covers unat (fr_data f3) = (\<Union>(off, n) \<in> set ?D. {off ..< off + n})"
      "length (fr_header f3) \<le> 20" "length (fr_data f3) \<le> length ?D"
      "fr_mem_size f3 = frag_memory ?impl f3" "last_frag_received f3 = last_frag_received f"
    using gathering_merge [OF g frg _ _ c(3) f(1-3)] m by auto
  have last: "last_frag_received f3 = (\<exists>(off, n) \<in> set ?D. off + n = length p)"
    using g f3(9) f(4) m by (auto simp: gathering_def Let_def)
  have sub': "set ?D \<subseteq> set (cuts c 0 (length p))" using sub cut by simp
  have l: "0 < length p" using c by linarith
  note C = complete_iff [OF c(1) l sub' f3(2-5) last]
  let ?done = "set ?D = set (cuts c 0 (length p))"
  define evs where "evs = (if ?done then [Deliver proto p src to] else [])"
  have "dispatch_complete e ?h from f3 = Inr evs" if ?done
    using C(2) that dispatch_complete_ok [OF e h(2) proto] h(3,4) by (auto simp: evs_def)
  then have run: "add_fragment e ?h from bs st2 f = Inr (after_add e ?h (fr_mem_size f3 - fr_mem_size f) f3 ?done st2, evs)"
    using C(1) by (intro add_fragment_run [OF f3(1)]) (auto simp: evs_def)
  let ?st' = "after_add e ?h (fr_mem_size f3 - fr_mem_size f) f3 ?done st2"
  note A = after_add_frags [of e ?h "fr_mem_size f3 - fr_mem_size f" f3 ?done st2, unfolded h(5)]
  have "gathering ?impl i p m0 to ?D ?st'" if "\<not> ?done"
  proof -
    have "frag_at i ?st' = f3" using A(1) that by (simp add: frag_at_def)
    moreover have "frag_mem ?st' = word_of_nat m0 + fr_mem_size f3"
      using A(3) that g f(3,5) by (simp add: gathering_def Let_def)
    ultimately show ?thesis
      using f3(2-8) last A(2) f(6) by (simp add: gathering_def Let_def)
  qed
  moreover have "handle_received_packet e bs False from st = Inr (?st', evs)"
    using st1(4) lim en run by (simp add: handle_fragment_def)
  moreover have "?done \<Longrightarrow> map_of (ip_frags ?st') i = None" using A(1) by simp
  ultimately show ?thesis by (intro exI [of _ ?st'] exI [of _ evs]) (auto simp: evs_def)
qed

lemma gather_all:
  assumes e: "receiver_ok e" and c: "0 < c" "c < length p" "length p \<le> 65515" and proto: "proto \<noteq> unused_num"
    and i: "i = \<lparr>id_src = src, id_dst = to, identification = 0, id_protocol = ip_protocol_code proto\<rparr>"
    and frg: "\<And>x. x \<in> set (cuts c 0 (length p)) \<Longrightarrow> is_fragment src to proto p (g x) x"
  shows "gathering (ie_impl_size e) i p m0 to done st \<Longrightarrow> mset (done @ rest) = mset (cuts c 0 (length p)) \<Longrightarrow>
    rest \<noteq> [] \<Longrightarrow> m0 + 65555 + (length (done @ rest) + 1) * unat (ie_impl_size e) \<le> 4194304 \<Longrightarrow>
    \<exists>st'. receive_all e from (map g rest) st = Inr (st', [Deliver proto p src to]) \<and> map_of (ip_frags st') i = None"
proof (induction rest arbitrary: "done" st)
  case (Cons x rest)
  let ?cs = "cuts c 0 (length p)"
  obtain off n where x: "x = (off, n)" by (cases x)
  have ms: "set (done @ x # rest) = set ?cs" using Cons.prems(2) by (metis set_mset_mset)
  have d: "distinct (done @ x # rest)"
  proof -
    have "distinct ?cs"
      using cuts_disjoint [OF c(1), of 0 "length p"] cuts_member [OF c(1)]
      by (auto simp: distinct_conv_nth sorted_wrt_iff_nth_less nat_neq_iff)
        (metis (no_types, lifting) add_le_same_cancel1 case_prod_conv leD nth_mem prod.collapse)+
    then show ?thesis using Cons.prems(2) by (metis distinct_count_atmost_1 mset_eq_setD count_mset_set'  distinct_count_atmost_1)
  qed
  have room: "m0 + 65555 + (length done + 1) * unat (ie_impl_size e) \<le> 4194304"
  proof -
    have "(length done + 1) * unat (ie_impl_size e) \<le> (length (done @ x # rest) + 1) * unat (ie_impl_size e)"
      by (intro mult_right_mono) simp_all
    then show ?thesis using Cons.prems(4) by linarith
  qed
  obtain st1 evs where s: "handle_received_packet e (g x) False from st = Inr (st1, evs)"
      "if set (done @ [x]) = set ?cs then evs = [Deliver proto p src to] \<and> map_of (ip_frags st1) i = None
       else evs = [] \<and> gathering (ie_impl_size e) i p m0 to (done @ [x]) st1"
    using gathering_step [OF e Cons.prems(1) c proto room _ _ _ i, of off n "g x" "from"] ms frg [of x] x by auto
  show ?case
  proof (cases rest)
    case Nil
    then show ?thesis using s ms by simp
  next
    case (Cons y ys)
    then have "y \<in> set ?cs" "y \<notin> set (done @ [x])" using ms d by auto
    then have ne: "set (done @ [x]) \<noteq> set ?cs" by blast
    then obtain st' where "receive_all e from (map g rest) st1 = Inr (st', [Deliver proto p src to])"
        "map_of (ip_frags st') i = None"
      using Cons.IH [of "done @ [x]" st1] Cons.prems s Cons by auto
    then show ?thesis using s ne by (intro exI [of _ st']) simp
  qed
qed simp

end
