(* ===== verification/IpProps.thy ===== *)
theory IpProps
  imports IpGather
begin

text \<open>
  Properties of the IPv4 layer: a fragmented datagram is delivered whole whatever the order of its
  fragments, the reassembly table stays consistent and bounded, upper protocols are polled in
  turn, and what hostile packets and unusual settings lead to.
\<close>

subsection \<open>Fragments\<close>

lemma mset_map_perm:
  "mset arr = mset (map g cs) \<Longrightarrow> \<exists>ds. mset ds = mset cs \<and> arr = map g ds"
proof (induction arr arbitrary: cs)
  case (Cons a arr)
  then have "a \<in> set (map g cs)" by (metis list.set_intros(1) set_mset_mset)
  then obtain c where c: "c \<in> set cs" "a = g c" by auto
  then obtain xs ys where cs: "cs = xs @ c # ys" by (meson split_list)
  then have "mset arr = mset (map g (xs @ ys))" using Cons.prems c by simp
  then obtain ds where "mset ds = mset (xs @ ys)" "arr = map g ds" using Cons.IH by blast
  then show ?case using c cs by (intro exI [of _ "c # ds"]) simp
qed simp

definition fragment_packet ::
  "hw_features \<Rightarrow> ipv4_address \<Rightarrow> ipv4_address \<Rightarrow> ip_protocol_num \<Rightarrow> ethernet_address \<Rightarrow> offload_info \<Rightarrow>
   bytes \<Rightarrow> nat \<times> nat \<Rightarrow> l3packet" where
  "fragment_packet hw src to proto e_dst oi p = (\<lambda>(off, n).
     sent_packet hw src to proto True e_dst (take n (drop off p)) oi
       (word_of_nat (length p - off - n)) (word_of_nat off))"

lemma fragment_packet_is_fragment:
  assumes c: "0 < c" "c mod 8 = 0" and p: "length p \<le> 65515" and cut: "(off, n) \<in> set (cuts c 0 (length p))"
  shows "is_fragment src to proto p (l3_p (fragment_packet hw src to proto e_dst oi p (off, n))) (off, n)"
    "length (l3_p (fragment_packet hw src to proto e_dst oi p (off, n))) = n + 20"
proof -
  let ?r = "word_of_nat (length p - off - n) :: u16" and ?o = "word_of_nat off :: u16"
  let ?q = "sent_packet hw src to proto True e_dst (take n (drop off p)) oi ?r ?o"
  have m: "off + n \<le> length p" "\<exists>k. off = k * c" using cuts_member [OF c(1) cut] by auto
  then have "off mod 8 = 0" using c(2) by (metis mod_mult_right_eq mult_0_right mod_0)
  moreover have o: "unat ?o = off" using m p by (simp add: unsigned_of_nat take_bit_eq_mod)
  ultimately have al: "unat ?o mod 8 = 0" by simp
  have "unat ?r = length p - off - n" using p by (simp add: unsigned_of_nat take_bit_eq_mod del: of_nat_diff)
  then have r: "(?r > 0) = (off + n < length p)" using m(1) by (metis unat_gt_0 word_neq_0_conv zero_less_diff less_diff_conv add.commute)
  have len: "length (take n (drop off p)) = n" using m by simp
  obtain ck where hd: "header_of ?q = (send_header src to proto (word_of_nat (n + 20)) (frag_field (?r > 0) ?o))\<lparr>ip_csum := ck\<rparr>"
    using sent_packet_reads(5) [of hw src to proto True e_dst "take n (drop off p)" oi ?r ?o] len by auto
  have f: "ip_frag (header_of ?q) = frag_field (?r > 0) ?o" using hd by (simp add: send_header_def)
  show "length (l3_p (fragment_packet hw src to proto e_dst oi p (off, n))) = n + 20"
    using sent_packet_reads(2) len by (simp add: fragment_packet_def)
  then show "is_fragment src to proto p (l3_p (fragment_packet hw src to proto e_dst oi p (off, n))) (off, n)"
    using sent_packet_reads(1) [of hw src to proto True e_dst "take n (drop off p)" oi ?r ?o]
      frag_field_reads(1) [OF f] frag_field_reads(2) [OF f al] hd r
    by (simp add: is_fragment_def fragment_packet_def payload_of_def header_of_def Let_def send_header_def)
qed

lemma ip_send_fragments:
  assumes frag: "needs_frag (length p) proto hw" and mtu: "28 \<le> mtu hw" and p: "length p \<le> 65515" and hw: "hw = ie_hw es"
  shows "ip_send es to proto p oi e_dst ss = Some (Inr (ss\<lparr>ip_packetq := ip_packetq ss @
      map (fragment_packet hw (host_address ss) to proto e_dst oi p) (cuts (unat (mtu hw - 20)) 0 (length p))\<rparr>))"
proof -
  have "unat (mtu hw - 20) = unat (mtu hw) - 20"
    using mtu by (subst unat_sub) (auto simp: word_le_nat_alt)
  then have pos: "0 < unat (mtu hw - 20)" using mtu by (simp add: word_le_nat_alt)
  have len: "unat (word_of_nat (length p) :: u16) = length p"
    using p by (simp add: unsigned_of_nat take_bit_eq_mod)
  have "send_fragments (\<lambda>pkt. send_pkt hw (host_address ss) to proto True e_dst pkt oi) (mtu hw) p 0 (word_of_nat (length p)) =
      Some (Inr (map (fragment_packet hw (host_address ss) to proto e_dst oi p) (cuts (unat (mtu hw - 20)) 0 (length p))))"
    using send_fragments_cuts [where g = "\<lambda>pkt. sent_packet hw (host_address ss) to proto True e_dst pkt oi", OF send_pkt_ok pos,
        of 0 "word_of_nat (length p)" p] len p
    by (simp add: fragment_packet_def)
  then show ?thesis using frag hw by (simp add: ip_send_def Let_def)
qed

lemma gather_any_order:
  assumes "needs_frag (length p) proto (ie_hw es)" "28 \<le> mtu (ie_hw es)" "(mtu (ie_hw es) - 20) mod 8 = 0"
    and "length p \<le> 65515" "proto \<noteq> unused_num"
    and "receiver_ok er" "host_address sr = to" "map_of (ip_frags sr) \<lparr>id_src = host_address ss, id_dst = to,
        identification = 0, id_protocol = ip_protocol_code proto\<rparr> = None"
    and "unat (frag_mem sr) + 65555 + (length p div unat (mtu (ie_hw es) - 20) + 2) * unat (ie_impl_size er) \<le> 4194304"
  shows "\<exists>qs. ip_send es to proto p oi e_dst ss = Some (Inr (ss\<lparr>ip_packetq := ip_packetq ss @ qs\<rparr>)) \<and>
    (\<forall>q \<in> set qs. length (l3_p q) \<le> unat (mtu (ie_hw es)) \<and> l3_to q = e_dst) \<and>
    (\<forall>arr. mset arr = mset (map l3_p qs) \<longrightarrow>
      (\<exists>st'. receive_all er from arr sr = Inr (st', [Deliver proto p (host_address ss) to]) \<and>
        map_of (ip_frags st') \<lparr>id_src = host_address ss, id_dst = to,
          identification = 0, id_protocol = ip_protocol_code proto\<rparr> = None))"
proof -
  let ?hw = "ie_hw es" and ?src = "host_address ss" and ?impl = "ie_impl_size er"
  let ?c = "unat (mtu ?hw - 20)" and ?f = "fragment_packet (ie_hw es) (host_address ss) to proto e_dst oi p"
  let ?cs = "cuts ?c 0 (length p)" and ?i = "\<lparr>id_src = ?src, id_dst = to, identification = 0, id_protocol = ip_protocol_code proto\<rparr>"
  have c: "?c = unat (mtu ?hw) - 20" using assms(2) by (subst unat_sub) (auto simp: word_le_nat_alt)
  then have pos: "0 < ?c" "?c \<le> unat (mtu ?hw) - 20" using assms(2) by (simp_all add: word_le_nat_alt)
  have al: "?c mod 8 = 0" using assms(3) unat_mod [of "mtu ?hw - 20" 8] by simp
  have lt: "?c < length p"
    using assms(1) c pos(1) unfolding needs_frag_def by linarith
  have len: "length (l3_p (?f x)) \<le> unat (mtu ?hw)" "l3_to (?f x) = e_dst" "is_fragment ?src to proto p (l3_p (?f x)) x"
    if "x \<in> set ?cs" for x
  proof -
    obtain off n where x: "x = (off, n)" by (cases x)
    note F = fragment_packet_is_fragment [OF pos(1) al assms(4) that [unfolded x]]
    show "is_fragment ?src to proto p (l3_p (?f x)) x" using F(1) x by simp
    have "n \<le> ?c" using cuts_member [OF pos(1) that [unfolded x]] by simp
    then show "length (l3_p (?f x)) \<le> unat (mtu ?hw)" using F(2) x pos c assms(2) by (simp add: word_le_nat_alt)
    show "l3_to (?f x) = e_dst" using sent_packet_reads(3) x by (simp add: fragment_packet_def)
  qed
  have g0: "gathering ?impl ?i p (unat (frag_mem sr)) to [] sr"
    using assms(7,8) by (simp add: gathering_def frag_at_def frag_init_def Let_def covers_def separated_def)
  have rcv: "\<exists>st'. receive_all er from arr sr = Inr (st', [Deliver proto p ?src to]) \<and> map_of (ip_frags st') ?i = None"
    if arr: "mset arr = mset (map l3_p (map ?f ?cs))" for arr
  proof -
    obtain ds where ds: "mset ds = mset ?cs" "arr = map (l3_p \<circ> ?f) ds"
      using mset_map_perm [of arr "l3_p \<circ> ?f" ?cs] arr by auto
    have "length ds = length ?cs" using ds(1) by (metis size_mset)
    then have l: "length ds \<le> length p div ?c + 1" using length_cuts_div [OF pos(1), of 0 "length p"] by simp
    have "(length ds + 1) * unat ?impl \<le> (length p div ?c + 2) * unat ?impl"
      using l by (intro mult_right_mono) simp_all
    then have room: "unat (frag_mem sr) + 65555 + (length ([] @ ds) + 1) * unat ?impl \<le> 4194304"
      using assms(9) by simp
    have "0 < length p" using lt by linarith
    then have ne: "ds \<noteq> []" using ds(1) cuts_step [OF _ pos(1), of "length p" 0] by auto
    have frg: "is_fragment ?src to proto p ((l3_p \<circ> ?f) x) x" if "x \<in> set ?cs" for x using len(3) [OF that] by simp
    show ?thesis
      using gather_all [OF assms(6) pos(1) lt assms(4,5) refl frg g0, of ds "from"] ds ne room
      by (auto simp: comp_def)
  qed
  show ?thesis
    by (intro exI [of _ "map ?f ?cs"] conjI)
      (use len rcv ip_send_fragments [OF assms(1,2,4) refl] in auto)
qed


text \<open>C12. Fragmentation and reassembly: a datagram too long for one packet is cut into packets of
  at most the MTU, and a receiver that has no fragments of the same identification and room for
  them (no reassembly memory beyond its threshold) hands the datagram to its protocol exactly
  once, whatever the order the fragments arrive in, and forgets the entry. The conditions: the MTU
  is 20 more than a multiple of eight (other MTUs break \<open>ipv4::send\<close>), and the receiver verifies
  checksums in hardware (without it \<open>handle_received_packet\<close> drops every packet), has no packet
  filter and handles the fragments on the shard they belong to (\<open>receiver_ok\<close>).\<close>

theorem fragments_delivered:
  assumes "needs_frag (length p) proto (ie_hw es)" "28 \<le> mtu (ie_hw es)" "(mtu (ie_hw es) - 20) mod 8 = 0"
    and "length p \<le> 65515" "proto \<noteq> unused_num"
    and "receiver_ok er" "host_address sr = to" "map_of (ip_frags sr) \<lparr>id_src = host_address ss, id_dst = to,
        identification = 0, id_protocol = ip_protocol_code proto\<rparr> = None"
    and "unat (frag_mem sr) + 65555 + (length p div unat (mtu (ie_hw es) - 20) + 2) * unat (ie_impl_size er) \<le> 4194304"
  shows "\<exists>qs. ip_send es to proto p oi e_dst ss = Some (Inr (ss\<lparr>ip_packetq := ip_packetq ss @ qs\<rparr>)) \<and>
    (\<forall>q \<in> set qs. length (l3_p q) \<le> unat (mtu (ie_hw es)) \<and> l3_to q = e_dst) \<and>
    (\<forall>arr. mset arr = mset (map l3_p qs) \<longrightarrow>
      (\<exists>st'. receive_all er from arr sr = Inr (st', [Deliver proto p (host_address ss) to]) \<and>
        map_of (ip_frags st') \<lparr>id_src = host_address ss, id_dst = to,
          identification = 0, id_protocol = ip_protocol_code proto\<rparr> = None))"
  using assms by (rule gather_any_order)

definition sample_env :: ip_env where
  "sample_env = \<lparr>ie_hw = hw_features_init\<lparr>mtu := 28, rx_csum_offload := True\<rparr>, ie_be = be_ref,
     ie_hw_address = Mac 2 0 0 0 0 1, ie_hash2cpu = (\<lambda>h. 0), ie_rss_key = default_rsskey_40bytes,
     ie_shard = 0, ie_now = 0, ie_filter = None, ie_impl_size = 100\<rparr>"

lemma sample_env_sel [simp]:
  "ie_hw sample_env = hw_features_init\<lparr>mtu := 28, rx_csum_offload := True\<rparr>"
  "ie_impl_size sample_env = 100" "ie_filter sample_env = None"
  by (simp_all add: sample_env_def)

lemma receiver_ok_sample [simp]: "receiver_ok sample_env"
  by (simp add: receiver_ok_def sample_env_def impl_ok_def)

theorem fragments_delivered_witness:
  "\<exists>qs st'. ip_send sample_env 7 udp_num (replicate 20 1) offload_info_init (Mac 2 0 0 0 0 7) (ipv4_init (Mac 2 0 0 0 0 1)) =
       Some (Inr ((ipv4_init (Mac 2 0 0 0 0 1))\<lparr>ip_packetq := qs\<rparr>)) \<and>
     receive_all sample_env (Mac 2 0 0 0 0 1) (rev (map l3_p qs)) (set_host_address 7 (ipv4_init (Mac 2 0 0 0 0 7))) =
       Inr (st', [Deliver udp_num (replicate 20 1) 0 7])"
proof -
  let ?ss = "ipv4_init (Mac 2 0 0 0 0 1)" and ?sr = "set_host_address 7 (ipv4_init (Mac 2 0 0 0 0 7))"
  have h: "needs_frag (length (replicate 20 (1 :: byte))) udp_num (ie_hw sample_env)"
      "28 \<le> mtu (ie_hw sample_env)" "(mtu (ie_hw sample_env) - 20) mod 8 = 0" "length (replicate 20 (1 :: byte)) \<le> 65515"
      "udp_num \<noteq> unused_num" "host_address ?sr = 7"
      "map_of (ip_frags ?sr) \<lparr>id_src = host_address ?ss, id_dst = 7, identification = 0, id_protocol = ip_protocol_code udp_num\<rparr> = None"
      "unat (frag_mem ?sr) + 65555 + (length (replicate 20 (1 :: byte)) div unat (mtu (ie_hw sample_env) - 20) + 2) *
        unat (ie_impl_size sample_env) \<le> 4194304" "host_address ?ss = 0"
    by (simp_all add: needs_frag_def hw_features_init_def set_host_address_def ipv4_init_def)
  obtain qs where qs: "ip_send sample_env 7 udp_num (replicate 20 1) offload_info_init (Mac 2 0 0 0 0 7) ?ss =
       Some (Inr (?ss\<lparr>ip_packetq := ip_packetq ?ss @ qs\<rparr>))"
      "\<And>arr. mset arr = mset (map l3_p qs) \<Longrightarrow>
        \<exists>st'. receive_all sample_env (Mac 2 0 0 0 0 1) arr ?sr = Inr (st', [Deliver udp_num (replicate 20 1) 0 7])"
    using fragments_delivered [OF h(1-5) receiver_ok_sample h(6-8), of offload_info_init "Mac 2 0 0 0 0 7" "Mac 2 0 0 0 0 1"]
    unfolding h(9) by blast
  have "ip_packetq ?ss = []" by (simp add: ipv4_init_def)
  note sent = qs(1) [unfolded this append_Nil]
  have "mset (rev (map l3_p qs)) = mset (map l3_p qs)" by simp
  from qs(2) [OF this] sent show ?thesis by blast
qed

subsection \<open>The reassembly table\<close>

text \<open>Everything that happens to an IPv4 stack, next to the state \<open>'w\<close> of the upper protocols.\<close>

inductive ip_step :: "u32 \<Rightarrow> 'w \<times> ipv4 \<Rightarrow> 'w \<times> ipv4 \<Rightarrow> bool" for impl :: u32 where
  received: "ie_impl_size e = impl \<Longrightarrow> handle_received_packet e p r from st = Inr (st', evs) \<Longrightarrow>
    ip_step impl (w, st) (w', st')"
| timeout: "ip_step impl (w, st) (w, frag_timeout now st)"
| sent: "ip_send e to proto p oi e_dst st = Some (Inr st') \<Longrightarrow> ip_step impl (w, st) (w', st')"
| polled: "ip_get_packet e prs w st = Some (Inr (q, w', st')) \<Longrightarrow> ip_step impl (w, st) (w', st')"
| looked_up: "get_l2_dst_address be to st = (f, st') \<Longrightarrow> ip_step impl (w, st) (w', st')"
| host: "ip_step impl (w, st) (w, set_host_address a st)"
| gateway: "ip_step impl (w, st) (w, set_gw_address a st)"
| netmask: "ip_step impl (w, st) (w, set_netmask_address a st)"

inductive ip_reachable :: "u32 \<Rightarrow> 'w \<times> ipv4 \<Rightarrow> bool" for impl :: u32 where
  start: "ip_reachable impl (w, ipv4_init l2)"
| step: "ip_reachable impl s \<Longrightarrow> ip_step impl s t \<Longrightarrow> ip_reachable impl t"

lemma ip_send_frags:
  assumes "ip_send e to proto p oi e_dst st = Some (Inr st')"
  shows "ip_frags st' = ip_frags st \<and> frags_age st' = frags_age st \<and> frag_mem st' = frag_mem st"
  using assms by (auto simp: ip_send_def Let_def)

lemma ip_get_packet_frags:
  assumes "ip_get_packet e prs w st = Some (Inr (q, w', st'))"
  shows "ip_frags st' = ip_frags st \<and> frags_age st' = frags_age st \<and> frag_mem st' = frag_mem st"
proof -
  obtain l4p idx w1 where poll: "(if ip_packetq st = [] then poll_providers prs (length prs) (pkt_provider_idx st) w
      else (None, pkt_provider_idx st, w)) = (l4p, idx, w1)" by (metis prod_cases3)
  show ?thesis
  proof (cases l4p)
    case None
    then show ?thesis using assms poll by (auto simp: ip_get_packet_def Let_def split: list.splits)
  next
    case (Some p)
    then obtain st1 where "ip_send e (l4_to p) (l4_proto_num p) (l4_p p) (l4_oi p) (l4_e_dst p)
        (st\<lparr>pkt_provider_idx := idx\<rparr>) = Some (Inr st1)"
        "(case ip_packetq st1 of [] \<Rightarrow> (None, w1, st1) | q # qs \<Rightarrow> (Some q, w1, st1\<lparr>ip_packetq := qs\<rparr>)) = (q, w', st')"
      using assms poll by (auto simp: ip_get_packet_def Let_def)
    then show ?thesis using ip_send_frags by (cases "ip_packetq st1") fastforce+
  qed
qed

lemma frag_table_same:
  assumes "ip_frags st' = ip_frags st \<and> frags_age st' = frags_age st \<and> frag_mem st' = frag_mem st"
  shows "frag_table impl st' = frag_table impl st" "table_total impl st' = table_total impl st"
  using assms by (simp_all add: frag_table_def table_total_def)

lemma ip_step_table:
  assumes "ip_step impl (w, st) (w', st')" "impl_ok impl" "frag_table impl st" "table_total impl st \<le> mem_limit impl"
  shows "frag_table impl st' \<and> table_total impl st' \<le> mem_limit impl"
proof -
  have eq: ?thesis if "ip_frags st' = ip_frags st \<and> frags_age st' = frags_age st \<and> frag_mem st' = frag_mem st"
    using frag_table_same [OF that, of impl] assms(3,4) by simp
  from assms(1) show ?thesis
  proof cases
    case (received e p r "from" evs)
    then show ?thesis using handle_received_ok [of e st p r "from" st' evs] assms by simp
  next
    case (timeout now)
    then show ?thesis using frag_timeout_ok [OF assms(3,2), of now] assms(4) by simp
  next
    case sent
    then show ?thesis by (rule eq [OF ip_send_frags])
  next
    case polled
    then show ?thesis by (rule eq [OF ip_get_packet_frags])
  next
    case looked_up
    then show ?thesis by (intro eq) (auto simp: get_l2_dst_address_def Let_def split: prod.splits)
  qed (use assms(3,4) in \<open>simp_all add: set_host_address_def set_gw_address_def set_netmask_address_def
      frag_table_def table_total_def\<close>)
qed

text \<open>C20. In every reachable state of an IPv4 stack the table of datagrams being reassembled is
  consistent: no identification occurs twice, the list of ages names exactly the entries, the
  segments of an entry are apart from one another, in order and within 65535 bytes, an entry's recorded size is the memory it
  holds, and the memory counter has not wrapped: it is the sum over the entries. That memory is at
  most the threshold of four megabytes plus what a single datagram can hold.\<close>

theorem frag_table_bounded:
  assumes "ip_reachable impl (w, st)" "impl_ok impl"
  shows "distinct (map fst (ip_frags st)) \<and> distinct (frags_age st) \<and> set (frags_age st) = fst ` set (ip_frags st) \<and>
    (\<forall>(i, f) \<in> set (ip_frags st). separated unat 65535 (fr_data f) \<and> unat (fr_mem_size f) = frag_nat impl f) \<and>
    unat (frag_mem st) = table_total impl st \<and> table_total impl st \<le> 4194304 + frag_max impl"
proof -
  have "frag_table impl (snd s) \<and> table_total impl (snd s) \<le> mem_limit impl" if "ip_reachable impl s" for s :: "'a \<times> ipv4"
    using that
  proof induction
    case (start w l2)
    then show ?case by (simp add: frag_table_def table_total_def ipv4_init_def)
  next
    case (step s t)
    then show ?case using ip_step_table [of impl "fst s" "snd s" "fst t" "snd t"] assms(2) by simp
  qed
  from this [OF assms(1)] have t: "frag_table impl st" "table_total impl st \<le> mem_limit impl" by simp_all
  then have "unat (frag_mem st) = table_total impl st"
    using mem_limit_u32 [OF assms(2)] by (simp add: frag_table_def unsigned_of_nat take_bit_eq_mod)
  then show ?thesis
    using t frag_nat_bounds(2) [OF _ assms(2)] by (auto simp: frag_table_def mem_limit_def frag_good_def)
qed

definition first_fragment :: bytes where
  "first_fragment = ip_hdr_store (ip_hdr_hton (send_header 0 7 udp_num 28 8192)) @ replicate 8 1"

lemma first_fragment_is_fragment: "is_fragment 0 7 udp_num (replicate 20 1) first_fragment (0, 8)"
proof -
  have "ip_hdr_ntoh (ip_hdr_load first_fragment) = send_header 0 7 udp_num 28 8192"
    using load_ip_hdr_store [of "ip_hdr_hton (send_header 0 7 udp_num 28 8192)" "replicate 8 1"]
    by (simp add: first_fragment_def) (simp add: send_header_def ip_hdr_hton_def ip_hdr_ntoh_def)
  then show ?thesis
    by (simp add: is_fragment_def) (simp add: first_fragment_def send_header_def ip_mf_def ip_offset_def)
qed

theorem frag_table_bounded_witness:
  "\<exists>st'. handle_received_packet sample_env first_fragment False (Mac 2 0 0 0 0 1)
       (set_host_address 7 (ipv4_init (Mac 2 0 0 0 0 7))) = Inr (st', []) \<and>
     ip_frags st' \<noteq> [] \<and> unat (frag_mem st') = table_total 100 st' \<and> table_total 100 st' \<le> 4194304 + frag_max 100"
proof -
  let ?st = "set_host_address 7 (ipv4_init (Mac 2 0 0 0 0 7))" and ?p = "replicate 20 1 :: bytes"
  let ?i = "\<lparr>id_src = 0, id_dst = 7, identification = 0, id_protocol = ip_protocol_code udp_num\<rparr>"
  have g: "gathering (ie_impl_size sample_env) ?i ?p 0 7 [] ?st"
    by (simp add: gathering_def frag_at_def frag_init_def Let_def covers_def separated_def set_host_address_def ipv4_init_def)
  have c: "cuts 8 0 20 = [(0, 8), (8, 8), (16, 4)]" by (simp add: cuts.simps)
  obtain st' where st': "handle_received_packet sample_env first_fragment False (Mac 2 0 0 0 0 1) ?st = Inr (st', [])"
      "gathering 100 ?i ?p 0 7 [(0, 8)] st'"
    using gathering_step [OF receiver_ok_sample g, of 8 udp_num 0 8 0 first_fragment "Mac 2 0 0 0 0 1"] first_fragment_is_fragment
    by (auto simp: c)
  have "ip_frags st' \<noteq> []"
    using st'(2) by (auto simp: gathering_def frag_at_def frag_init_def Let_def covers_def)
  moreover have "ip_reachable 100 (() , st')"
    by (rule ip_reachable.step [OF ip_reachable.step [OF ip_reachable.start ip_step.host] ip_step.received [OF _ st'(1)]])
      (simp add: sample_env_def)
  ultimately show ?thesis using frag_table_bounded [of 100 "()" st'] st'(1) by (simp add: impl_ok_def)
qed

subsection \<open>What goes wrong\<close>

text \<open>A host whose device does not check checksums receives nothing: the checksum the receiver
  recomputes is never zero, so every packet that is not a reassembled one is dropped without a
  trace, whatever it holds.\<close>

theorem no_rx_offload_drops_everything:
  assumes "\<not> rx_csum_offload (ie_hw e)"
  shows "handle_received_packet e p False from st = Inr (st, [])"
proof (cases "v_get_header p 0 20")
  case (Some h)
  then show ?thesis
    using assms by (simp add: handle_received_packet_def check_received_def checksummer_get_eq sum_data_def checksummer_init_def)
qed (simp add: handle_received_packet_def check_received_def)

theorem no_rx_offload_drops_everything_witness:
  "\<forall>p from st. handle_received_packet (sample_env\<lparr>ie_hw := hw_features_init\<rparr>) p False from st = Inr (st, [])"
  using no_rx_offload_drops_everything [of "sample_env\<lparr>ie_hw := hw_features_init\<rparr>"]
  by (simp add: hw_features_init_def)

text \<open>A packet to this host whose header length field is larger than its total length ends the
  program: the assertion of \<open>trim_front\<close> fails when the header is taken off.\<close>

theorem header_longer_than_packet_aborts:
  assumes "rx_csum_offload (ie_hw e)" "ie_filter e = None" "20 \<le> length p"
    and "h = ip_hdr_ntoh (ip_hdr_load (take 20 p))" "ip_dst h = host_address st"
    and "\<not> ip_mf h" "ip_offset h = 0" "l4_of (ip_proto h) = Some proto"
    and "unat (ip_len h) \<le> length p" "unat (ip_len h) < 4 * unat (ip_ihl h)"
  shows "handle_received_packet e p False from st = Inl AssertFailed"
proof -
  have g: "v_get_header p 0 20 = Some (take 20 p)" using assms(3) by (simp add: v_get_header_def slice_def)
  let ?p1 = "take (unat (ip_len h)) p"
  have "length ?p1 \<le> 65535" using u16_less [of "ip_len h"] unfolding length_take by linarith
  then have chk: "check_received e p False = Inr (Some (h, ?p1))"
    using assms(1,7,9) g by (auto simp: check_received_def Let_def assms(4) [symmetric] v_trim_back_def)
  have trim: "v_trim_front ?p1 (unat (ip_ihl h) * 4) = Inl AssertFailed"
    using assms(9,10) by (simp add: v_trim_front_def)
  have host: "host_address (if b then ip_learn from a st else st) = host_address st" for a b
    by (simp add: ip_learn_def)
  show ?thesis
    using assms(2,5-8) chk trim by (simp add: handle_received_packet_def Let_def host)
qed

definition short_header :: ip_hdr where
  "short_header = \<lparr>ip_ihl = 15, ip_ver = 4, ip_dscp = 0, ip_ecn = 0, ip_len = 20, ip_id = 0, ip_frag = 0, ip_ttl = 64,
     ip_proto = 17, ip_csum = 0, ip_src = 1, ip_dst = 7\<rparr>"

definition short_packet :: bytes where
  "short_packet = ip_hdr_store (ip_hdr_hton short_header)"

theorem header_longer_than_packet_aborts_witness:
  "handle_received_packet sample_env short_packet False ethernet_address_zero (set_host_address 7 (ipv4_init ethernet_address_zero)) =
     Inl AssertFailed"
proof -
  have len: "length short_packet = 20" by (simp add: short_packet_def)
  then have h: "short_header = ip_hdr_ntoh (ip_hdr_load (take 20 short_packet))"
    using load_ip_hdr_store [of "ip_hdr_hton short_header" "[]"]
    by (simp add: short_packet_def) (simp add: short_header_def ip_hdr_hton_def ip_hdr_ntoh_def)
  show ?thesis
    by (rule header_longer_than_packet_aborts [where proto = udp_num, OF _ _ _ h])
      (simp_all add: len short_header_def hw_features_init_def set_host_address_def ip_mf_def ip_offset_def l4_of_def)
qed

lemma send_fragments_returns:
  assumes "m \<noteq> 20"
  shows "send_fragments mk m p offset remaining \<noteq> None"
proof (induction "unat remaining" arbitrary: offset remaining rule: less_induct)
  case less
  show ?case
  proof (cases "remaining = 0")
    case False
    let ?n = "min (m - 20) remaining"
    have "0 < unat ?n" using assms False by (auto simp: unat_min unat_gt_0)
    moreover have "unat (remaining - ?n) = unat remaining - min (unat (m - 20)) (unat remaining)" by (rule unat_sub_min)
    ultimately have "unat (remaining - ?n) < unat remaining" by (simp add: unat_min)
    from less.hyps [OF this, of "offset + ?n"]
    obtain r where "send_fragments mk m p (offset + ?n) (remaining - ?n) = Some r" by blast
    then show ?thesis using False by (subst send_fragments.simps) (simp add: Let_def split: sum.split)
  qed (simp add: send_fragments.simps)
qed

lemma send_fragments_diverges:
  assumes "\<And>pkt r off. mk pkt r off = Inr (g pkt r off)" "remaining \<noteq> 0"
  shows "send_fragments mk 20 p 0 remaining = None"
proof -
  have "m = 20 \<longrightarrow> offset = 0 \<longrightarrow> mk = (\<lambda>pkt r off. Inr (g pkt r off)) \<longrightarrow> remaining = 0"
    if "send_fragments mk m p offset remaining = Some r" for mk m p offset remaining r
  proof (rule send_fragments.raw_induct [where P = "\<lambda>mk m p offset remaining r. m = 20 \<longrightarrow> offset = 0 \<longrightarrow>
      mk = (\<lambda>pkt r off. Inr (g pkt r off)) \<longrightarrow> remaining = 0", OF _ that])
    fix sf mk m p offset remaining r
    assume ih: "\<And>mk m p offset remaining r. sf mk m p offset remaining = Some r \<Longrightarrow>
        m = 20 \<longrightarrow> offset = 0 \<longrightarrow> mk = (\<lambda>pkt r off. Inr (g pkt r off)) \<longrightarrow> remaining = 0"
      and step: "(if remaining = 0 then Some (Inr [])
        else let can_send = min (m - 20) remaining; remaining' = remaining - can_send
             in case andThen (v_share p (unat offset) (unat can_send)) (\<lambda>pkt. mk pkt remaining' offset) of
                  Inl er \<Rightarrow> Some (Inl er)
                | Inr q \<Rightarrow> Option.bind (sf mk m p (offset + can_send) remaining')
                    (\<lambda>r. Some (andThen r (\<lambda>qs. Inr (q # qs))))) = Some r"
    show "m = 20 \<longrightarrow> offset = 0 \<longrightarrow> mk = (\<lambda>pkt r off. Inr (g pkt r off)) \<longrightarrow> remaining = 0"
      using step ih [of mk m p offset remaining] by (auto simp: Let_def split: if_splits bind_splits)
  qed
  then show ?thesis using assms by (metis (no_types, lifting) ext not_Some_eq)
qed

lemma send_fragments_0 [simp]: "send_fragments mk m p offset 0 = Some (Inr [])"
  by (simp add: send_fragments.simps)

text \<open>Sending returns, unless the packet must be cut and the MTU is exactly the header length: then
  every fragment is empty and the loop goes on for ever (for a length whose low sixteen bits are
  not all zero).\<close>

theorem send_returns_iff:
  "ip_send e to proto p oi e_dst st = None \<longleftrightarrow>
     needs_frag (length p) proto (ie_hw e) \<and> mtu (ie_hw e) = 20 \<and> (word_of_nat (length p) :: u16) \<noteq> 0"
  using send_fragments_returns [of "mtu (ie_hw e)"] send_fragments_diverges [OF send_pkt_ok]
  by (cases "mtu (ie_hw e) = 20"; cases "(word_of_nat (length p) :: u16) = 0")
    (auto simp: ip_send_def Let_def)

end
