(* ===== verification/L4Props.thy ===== *)
theory L4Props
  imports IpProps L4
begin

text \<open>
  Properties of ICMP and UDP: the limit on queued echo replies and what is lost from it, the
  search for a free port, and a datagram's way from the sender's channel through IPv4, fragmented
  or not, to the channel it is addressed to.
\<close>

subsection \<open>A datagram through IPv4\<close>

lemma whole_packet_carried:
  assumes "\<not> needs_frag (length p) proto (ie_hw es)" "length p \<le> 65515" "proto \<noteq> unused_num"
    and "receiver_ok er" "host_address sr = to"
  shows "\<exists>q. ip_send es to proto p oi e_dst ss = Some (Inr (ss\<lparr>ip_packetq := ip_packetq ss @ [q]\<rparr>)) \<and>
    (\<exists>st'. handle_received_packet er (l3_p q) False from sr = Inr (st', [Deliver proto p (host_address ss) to]))"
proof -
  let ?q = "sent_packet (ie_hw es) (host_address ss) to proto False e_dst p oi 0 0"
  let ?h = "header_of ?q"
  have send: "ip_send es to proto p oi e_dst ss = Some (Inr (ss\<lparr>ip_packetq := ip_packetq ss @ [?q]\<rparr>))"
    using assms(1) by (simp add: ip_send_def Let_def send_pkt_ok)
  obtain c where hd: "?h = (send_header (host_address ss) to proto (word_of_nat (length p + 20)) 0)\<lparr>ip_csum := c\<rparr>"
    using sent_packet_reads(5) [of "ie_hw es" "host_address ss" to proto False e_dst p oi 0 0] by auto
  have len: "length (l3_p ?q) = length p + 20" and pay: "drop 20 (l3_p ?q) = p"
    using sent_packet_reads(1,2) [of "ie_hw es" "host_address ss" to proto False e_dst p oi 0 0] by (simp_all add: payload_of_def)
  have s: "v_get_header (l3_p ?q) 0 20 = Some (take 20 (l3_p ?q))" using len by (simp add: v_get_header_def slice_def)
  have ld: "ip_hdr_load (take 20 (l3_p ?q)) = ip_hdr_load (l3_p ?q)"
    using len by (simp add: ip_hdr_load_def load16_def load32_def drop_take min_def)
  have n: "unat (ip_len ?h) = length p + 20" "ip_offset ?h = 0" "\<not> ip_mf ?h" "ip_dst ?h = to" "ip_src ?h = host_address ss"
      "ip_proto ?h = ip_protocol_code proto" "unat (ip_ihl ?h) = 5"
    using assms(2) by (simp_all add: hd send_header_def ip_offset_def ip_mf_def unsigned_of_nat take_bit_eq_mod del: of_nat_add)
  have chk: "check_received er (l3_p ?q) False = Inr (Some (?h, l3_p ?q))"
    using assms(2,4) s len n(1,2) by (simp add: check_received_def receiver_ok_def Let_def ld header_of_def [symmetric])
  have host: "host_address (if b then ip_learn from a sr else sr) = to" for a b
    using assms(5) by (simp add: ip_learn_def)
  have "\<exists>st'. handle_received_packet er (l3_p ?q) False from sr = Inr (st', [Deliver proto p (host_address ss) to])"
    using assms(3,4) chk n pay len host
    by (simp add: handle_received_packet_def receiver_ok_def Let_def)
  with send show ?thesis by blast
qed

lemma datagram_carried:
  assumes "28 \<le> mtu (ie_hw es)" "(mtu (ie_hw es) - 20) mod 8 = 0" "length p \<le> 65515" "proto \<noteq> unused_num"
    and "receiver_ok er" "host_address sr = to" "ip_frags sr = []" "frag_mem sr = 0"
    and "65555 + (length p div unat (mtu (ie_hw es) - 20) + 2) * unat (ie_impl_size er) \<le> 4194304"
  shows "\<exists>qs. ip_send es to proto p oi e_dst ss = Some (Inr (ss\<lparr>ip_packetq := ip_packetq ss @ qs\<rparr>)) \<and>
    (\<forall>arr. mset arr = mset (map l3_p qs) \<longrightarrow>
      (\<exists>st'. receive_all er from arr sr = Inr (st', [Deliver proto p (host_address ss) to])))"
proof (cases "needs_frag (length p) proto (ie_hw es)")
  case True
  have none: "map_of (ip_frags sr) \<lparr>id_src = host_address ss, id_dst = to, identification = 0,
      id_protocol = ip_protocol_code proto\<rparr> = None" using assms(7) by simp
  have room: "unat (frag_mem sr) + 65555 + (length p div unat (mtu (ie_hw es) - 20) + 2) * unat (ie_impl_size er) \<le> 4194304"
    using assms(8,9) by simp
  show ?thesis
    using gather_any_order [OF True assms(1-6) none room, of oi e_dst "from"] by blast
next
  case False
  obtain q where q: "ip_send es to proto p oi e_dst ss = Some (Inr (ss\<lparr>ip_packetq := ip_packetq ss @ [q]\<rparr>))"
      "\<exists>st'. handle_received_packet er (l3_p q) False from sr = Inr (st', [Deliver proto p (host_address ss) to])"
    using whole_packet_carried [OF False assms(3-6)] by blast
  then obtain st' where st': "receive_all er from [l3_p q] sr = Inr (st', [Deliver proto p (host_address ss) to])" by auto
  have "arr = [l3_p q]" if "mset arr = mset (map l3_p [q])" for arr using that by simp
  then show ?thesis using q(1) st' by (intro exI [of _ "[q]"]) blast
qed

subsection \<open>UDP\<close>

lemma udp_hdr_codec: "udp_hdr_ntoh (udp_hdr_load (udp_hdr_store (udp_hdr_hton h) @ rest)) = h"
  by (cases h) (simp add: udp_hdr_ntoh_def udp_hdr_load_def udp_hdr_store_def udp_hdr_hton_def)

lemma length_udp_hdr_store [simp]: "length (udp_hdr_store h) = 8"
  by (simp add: udp_hdr_store_def)

lemma native_datagram_store:
  "native_datagram src dst (udp_hdr_store (udp_hdr_hton h) @ data) =
     Inr \<lparr>dg_src = (src, uh_src_port h), dg_dst = (dst, uh_dst_port h), dg_data = data\<rparr>"
proof -
  have "udp_hdr_load (udp_hdr_store (udp_hdr_hton h)) = udp_hdr_load (udp_hdr_store (udp_hdr_hton h) @ [])" by simp
  then have "udp_hdr_ntoh (udp_hdr_load (udp_hdr_store (udp_hdr_hton h))) = h" by (simp only: udp_hdr_codec)
  then show ?thesis by (simp add: native_datagram_def v_get_header_def slice_def Let_def)
qed

lemma sum_pair_ok:
  "\<exists>cs'. sum_fragments [udp_hdr_store h, data] (udp_pseudo_header_checksum checksummer_init a b n) = Inr cs'"
proof -
  have o: "\<not> csum_odd (udp_pseudo_header_checksum checksummer_init a b n)"
    by (simp add: udp_pseudo_header_checksum_def sum_u16_def sum_u8_def sum_u32_def checksummer_init_def)
  show ?thesis by (simp add: sum_data_def o)
qed

lemma udp_send_packet:
  assumes "get_l2_dst_address (ie_be e) to st = (Arp_ready mac, st)"
  shows "\<exists>pk c. udp_send e sport (to, dport) data st u =
      Inr (st, u\<lparr>udp_tx := (udp_tx u)\<lparr>tx_packetq := tx_packetq (udp_tx u) @ [pk]\<rparr>\<rparr>) \<and>
    l4_to pk = to \<and> l4_proto_num pk = udp_num \<and> l4_e_dst pk = mac \<and>
    l4_p pk = udp_hdr_store (udp_hdr_hton \<lparr>uh_src_port = sport, uh_dst_port = dport,
      uh_len = word_of_nat (length data + 8), uh_cksum = c\<rparr>) @ data"
proof -
  let ?h = "udp_hdr_hton \<lparr>uh_src_port = sport, uh_dst_port = dport, uh_len = word_of_nat (length data + 8), uh_cksum = 0\<rparr>"
  let ?cs = "udp_pseudo_header_checksum checksummer_init (host_address st) to (word_of_nat (length data + 8))"
  obtain cs' where cs': "sum_fragments [udp_hdr_store ?h, data] ?cs = Inr cs'" using sum_pair_ok by blast
  obtain c b where c: "(if tx_csum_l4_offload (ie_hw e) \<and> \<not> needs_frag (length data + 8) udp_num (ie_hw e)
      then Inr (NOT (checksummer_get ?cs), True)
      else andThen (sum_fragments [udp_hdr_store ?h, data] ?cs) (\<lambda>cs1. Inr (checksummer_get cs1, False))) = Inr (c, b)"
    using cs' by (cases "tx_csum_l4_offload (ie_hw e) \<and> \<not> needs_frag (length data + 8) udp_num (ie_hw e)") auto
  have h: "?h\<lparr>uh_cksum := c\<rparr> = udp_hdr_hton \<lparr>uh_src_port = sport, uh_dst_port = dport,
      uh_len = word_of_nat (length data + 8), uh_cksum = ntoh16 c\<rparr>" by (simp add: udp_hdr_hton_def)
  let ?pk = "\<lparr>l4_to = to, l4_p = udp_hdr_store (?h\<lparr>uh_cksum := c\<rparr>) @ data,
      l4_oi = offload_info_init\<lparr>oi_needs_csum := b, oi_protocol := udp_num\<rparr>, l4_e_dst = mac, l4_proto_num = udp_num\<rparr>"
  have "udp_send e sport (to, dport) data st u =
      Inr (st, u\<lparr>udp_tx := (udp_tx u)\<lparr>tx_packetq := tx_packetq (udp_tx u) @ [?pk]\<rparr>\<rparr>)"
    using c assms unfolding udp_send_def Let_def fst_conv snd_conv by (simp add: then_emplace_def)
  then show ?thesis using h by (intro exI [of _ ?pk] exI [of _ "ntoh16 c"]) simp
qed

text \<open>C13. A UDP datagram arrives: what a channel sends to an address whose hardware address is known is
  queued as one packet for IPv4, which cuts it if it has to; when all its packets have arrived, in
  any order, the receiving stack hands the payload to UDP, and the queue of the channel bound to
  the destination port, when it has room, holds what it held and after that one datagram with the
  sender's address and port and the very bytes sent. The conditions: the MTU is 20 more than a
  multiple of eight (other MTUs break \<open>ipv4::send\<close>), and the receiver verifies checksums in
  hardware (without it \<open>handle_received_packet\<close> drops every packet), has no packet filter, handles
  the packets on the shard they belong to and has no reassembly pending.\<close>

theorem udp_datagram_delivered:
  assumes "get_l2_dst_address (ie_be es) to ss = (Arp_ready mac, ss)"
    and "28 \<le> mtu (ie_hw es)" "(mtu (ie_hw es) - 20) mod 8 = 0" "length data \<le> 65507"
    and "receiver_ok er" "host_address sr = to" "ip_frags sr = []" "frag_mem sr = 0"
    and "65555 + ((length data + 8) div unat (mtu (ie_hw es) - 20) + 2) * unat (ie_impl_size er) \<le> 4194304"
    and "udp_channels ur dport = Some c"
    and "queue_fifo qo items" "q_size qo (uc_queue (udp_states ur c)) < q_max_size qo (uc_queue (udp_states ur c))"
  shows "\<exists>pk qs p. udp_send es sport (to, dport) data ss us =
      Inr (ss, us\<lparr>udp_tx := (udp_tx us)\<lparr>tx_packetq := tx_packetq (udp_tx us) @ [pk]\<rparr>\<rparr>) \<and>
    ip_send es (l4_to pk) (l4_proto_num pk) (l4_p pk) (l4_oi pk) (l4_e_dst pk) ss =
      Some (Inr (ss\<lparr>ip_packetq := ip_packetq ss @ qs\<rparr>)) \<and>
    (\<forall>arr. mset arr = mset (map l3_p qs) \<longrightarrow>
      (\<exists>sr'. receive_all er from arr sr = Inr (sr', [Deliver udp_num p (host_address ss) to]))) \<and>
    (\<exists>ur'. udp_received qo p (host_address ss) to ur = Inr ur' \<and>
      items (uc_queue (udp_states ur' c)) = items (uc_queue (udp_states ur c)) @
        [\<lparr>dg_src = (host_address ss, sport), dg_dst = (to, dport), dg_data = data\<rparr>])"
proof -
  obtain pk ck where pk: "udp_send es sport (to, dport) data ss us =
      Inr (ss, us\<lparr>udp_tx := (udp_tx us)\<lparr>tx_packetq := tx_packetq (udp_tx us) @ [pk]\<rparr>\<rparr>)"
      "l4_to pk = to" "l4_proto_num pk = udp_num" "l4_e_dst pk = mac"
      "l4_p pk = udp_hdr_store (udp_hdr_hton \<lparr>uh_src_port = sport, uh_dst_port = dport,
        uh_len = word_of_nat (length data + 8), uh_cksum = ck\<rparr>) @ data"
    using udp_send_packet [OF assms(1)] by blast
  have len: "length (l4_p pk) = length data + 8" by (simp add: pk(5))
  obtain qs where qs: "ip_send es to udp_num (l4_p pk) (l4_oi pk) mac ss = Some (Inr (ss\<lparr>ip_packetq := ip_packetq ss @ qs\<rparr>))"
      "\<forall>arr. mset arr = mset (map l3_p qs) \<longrightarrow>
        (\<exists>sr'. receive_all er from arr sr = Inr (sr', [Deliver udp_num (l4_p pk) (host_address ss) to]))"
    using datagram_carried [OF assms(2,3) _ _ assms(5-8), of "l4_p pk" udp_num "l4_oi pk" mac ss "from"] assms(4,9) len by auto
  have "native_datagram (host_address ss) to (l4_p pk) =
      Inr \<lparr>dg_src = (host_address ss, sport), dg_dst = (to, dport), dg_data = data\<rparr>"
    using native_datagram_store by (simp add: pk(5))
  then have "\<exists>ur'. udp_received qo (l4_p pk) (host_address ss) to ur = Inr ur' \<and>
      items (uc_queue (udp_states ur' c)) = items (uc_queue (udp_states ur c)) @
        [\<lparr>dg_src = (host_address ss, sport), dg_dst = (to, dport), dg_data = data\<rparr>]"
    using assms(10-12) by (simp add: udp_received_def queue_fifo_def Let_def)
  then show ?thesis using pk qs by (intro exI [of _ pk] exI [of _ qs] exI [of _ "l4_p pk"]) simp
qed


definition sample_channel :: "(nat \<times> udp_datagram list, int \<times> (nat \<times> nat) list) udp" where
  "sample_channel = snd (make_channel sem_ref queue_ref (0, 53) (udp_init (\<lambda>c. \<lparr>uc_queue = (0, []), uc_user_queue_space = (0, [])\<rparr>)))"

definition sample_stack :: ipv4 where
  "sample_stack = ip_learn (Mac 2 0 0 0 0 7) 7 (ipv4_init (Mac 2 0 0 0 0 1))"

theorem udp_datagram_delivered_witness:
  "\<exists>us' pk qs p. udp_send sample_env 9 (7, 53) (replicate 30 1) sample_stack sample_channel = Inr (sample_stack, us') \<and>
    tx_packetq (udp_tx us') = [pk] \<and>
    ip_send sample_env (l4_to pk) (l4_proto_num pk) (l4_p pk) (l4_oi pk) (l4_e_dst pk) sample_stack =
      Some (Inr (sample_stack\<lparr>ip_packetq := qs\<rparr>)) \<and>
    (\<exists>sr'. receive_all sample_env (Mac 2 0 0 0 0 1) (rev (map l3_p qs)) (set_host_address 7 (ipv4_init (Mac 2 0 0 0 0 7))) =
      Inr (sr', [Deliver udp_num p 0 7])) \<and>
    (\<exists>ur'. udp_received queue_ref p 0 7 sample_channel = Inr ur' \<and>
      snd (uc_queue (udp_states ur' 0)) = [\<lparr>dg_src = (0, 9), dg_dst = (7, 53), dg_data = replicate 30 1\<rparr>])"
proof -
  let ?ss = sample_stack and ?us = sample_channel
  let ?sr = "set_host_address 7 (ipv4_init (Mac 2 0 0 0 0 7))"
  have arp: "get_l2_dst_address (ie_be sample_env) 7 ?ss = (Arp_ready (Mac 2 0 0 0 0 7), ?ss)"
    by (simp add: sample_stack_def get_l2_dst_address_def in_my_netmask_def ip_learn_def ipv4_init_def arp_lookup_def
        arp_learn_def arp_init_def)
  have h: "28 \<le> mtu (ie_hw sample_env)" "(mtu (ie_hw sample_env) - 20) mod 8 = 0" "length (replicate 30 (1 :: byte)) \<le> 65507"
      "host_address ?sr = 7" "ip_frags ?sr = []" "frag_mem ?sr = 0" "udp_channels sample_channel 53 = Some 0"
      "65555 + ((length (replicate 30 (1 :: byte)) + 8) div unat (mtu (ie_hw sample_env) - 20) + 2) *
        unat (ie_impl_size sample_env) \<le> 4194304" "host_address ?ss = 0" "ip_packetq ?ss = []"
      "uc_queue (udp_states sample_channel 0) = (1024, [])" "tx_packetq (udp_tx sample_channel) = []"
    by (simp_all add: sample_stack_def hw_features_init_def set_host_address_def ip_learn_def ipv4_init_def sample_channel_def make_channel_def
        udp_init_def queue_ref_def)
  have room: "q_size queue_ref (uc_queue (udp_states sample_channel 0)) < q_max_size queue_ref (uc_queue (udp_states sample_channel 0))"
    unfolding h(11) by (simp add: queue_ref_def)
  obtain pk qs p where r:
      "udp_send sample_env 9 (7, 53) (replicate 30 1) ?ss ?us =
        Inr (?ss, ?us\<lparr>udp_tx := (udp_tx ?us)\<lparr>tx_packetq := tx_packetq (udp_tx ?us) @ [pk]\<rparr>\<rparr>)"
      "ip_send sample_env (l4_to pk) (l4_proto_num pk) (l4_p pk) (l4_oi pk) (l4_e_dst pk) ?ss =
        Some (Inr (?ss\<lparr>ip_packetq := ip_packetq ?ss @ qs\<rparr>))"
      "\<forall>arr. mset arr = mset (map l3_p qs) \<longrightarrow>
        (\<exists>sr'. receive_all sample_env (Mac 2 0 0 0 0 1) arr ?sr = Inr (sr', [Deliver udp_num p 0 7]))"
      "\<exists>ur'. udp_received queue_ref p 0 7 sample_channel = Inr ur' \<and>
        snd (uc_queue (udp_states ur' 0)) = [\<lparr>dg_src = (0, 9), dg_dst = (7, 53), dg_data = replicate 30 1\<rparr>]"
    using udp_datagram_delivered [OF arp h(1-3) receiver_ok_sample h(4-6,8,7) queue_fifo_ref room, of 9 ?us "Mac 2 0 0 0 0 1"]
    unfolding h(9,11) by auto
  have "mset (rev (map l3_p qs)) = mset (map l3_p qs)" by simp
  with r(3) obtain sr' where "receive_all sample_env (Mac 2 0 0 0 0 1) (rev (map l3_p qs)) ?sr =
      Inr (sr', [Deliver udp_num p 0 7])" by blast
  with r(1,2,4) h(10,12) show ?thesis
    by (intro exI [of _ "?us\<lparr>udp_tx := (udp_tx ?us)\<lparr>tx_packetq := tx_packetq (udp_tx ?us) @ [pk]\<rparr>\<rparr>"]
        exI [of _ pk] exI [of _ qs] exI [of _ p]) simp
qed

subsection \<open>Ports\<close>

lemma used_shift:
  fixes p :: u16
  assumes "chans p \<noteq> None" "\<forall>j < k. chans (p + 1 + word_of_nat j) \<noteq> None"
  shows "\<forall>j < Suc k. chans (p + word_of_nat j) \<noteq> None"
proof (intro allI impI)
  fix j assume "j < Suc k"
  then show "chans (p + word_of_nat j) \<noteq> None"
    using assms by (cases j) (auto simp: add.assoc)
qed

lemma find_port_step:
  "chans p \<noteq> None \<Longrightarrow> start \<noteq> p + 1 \<Longrightarrow> find_port chans start p = find_port chans start (p + 1)"
  "chans p \<noteq> None \<Longrightarrow> start = p + 1 \<Longrightarrow> find_port chans start p = (p + 1, False)"
  "chans p = None \<Longrightarrow> find_port chans start p = (p, True)"
  unfolding find_port.simps [of chans start p] next_port_eq by auto

lemma find_port_found:
  "find_port chans start p = (q, True) \<Longrightarrow>
     chans q = None \<and> (\<exists>k. q = p + word_of_nat k \<and> (\<forall>j < k. chans (p + word_of_nat j) \<noteq> None))"
proof (induction "unat (start - p - 1)" arbitrary: p rule: less_induct)
  case less
  show ?case
  proof (cases "chans p = None")
    case True
    then have "q = p + word_of_nat 0" "chans q = None" using less.prems find_port_step(3) [of chans p start] by simp_all
    then show ?thesis by blast
  next
    case used: False
    then have ne: "start \<noteq> p + 1" using less.prems find_port_step(2) [of chans p start] by auto
    then have rec: "find_port chans start (p + 1) = (q, True)" using less.prems find_port_step(1) [of chans p start] used by simp
    have "unat (start - (p + 1) - 1) < unat (start - p - 1)" using find_port_decreases [OF ne] by simp
    then obtain k where k: "chans q = None" "q = p + 1 + word_of_nat k" "\<forall>j < k. chans (p + 1 + word_of_nat j) \<noteq> None"
      using less.hyps rec by blast
    have "q = p + word_of_nat (Suc k)" using k(2) by (simp add: add.assoc)
    then show ?thesis using k(1) used_shift [of chans p, OF used k(3)] by blast
  qed
qed

lemma find_port_none:
  "find_port chans start p = (q, False) \<Longrightarrow> \<forall>j < Suc (unat (start - p - 1)). chans (p + word_of_nat j) \<noteq> None"
proof (induction "unat (start - p - 1)" arbitrary: p rule: less_induct)
  case less
  have used: "chans p \<noteq> None" using less.prems find_port_step(3) [of chans p start] by auto
  show ?case
  proof (cases "start = p + 1")
    case True
    then have z: "start - p - 1 = 0" by simp
    show ?thesis unfolding z using used by simp
  next
    case False
    then have rec: "find_port chans start (p + 1) = (q, False)" using less.prems find_port_step(1) [of chans p start] used by simp
    have nz: "start - p - 1 \<noteq> 0" using False by (auto simp: algebra_simps)
    have u: "unat (start - p - 1) = Suc (unat (start - (p + 1) - 1))"
    proof -
      have "start - (p + 1) - 1 = (start - p - 1) - 1" by simp
      then have "unat (start - (p + 1) - 1) = unat (start - p - 1) - 1" using unat_minus_one [OF nz] by simp
      then show ?thesis using nz by (metis Suc_diff_1 unat_gt_0)
    qed
    have "unat (start - (p + 1) - 1) < unat (start - p - 1)" using u by linarith
    then have "\<forall>j < Suc (unat (start - (p + 1) - 1)). chans (p + 1 + word_of_nat j) \<noteq> None"
      using less.hyps rec by blast
    then show ?thesis unfolding u by (rule used_shift [of chans p, OF used])
  qed
qed

text \<open>A channel for any port gets one that no channel uses, the first free one from the remembered
  port on, and the search continues behind it next time; the request is refused only when all
  65536 ports are in use. The search goes through all port numbers: the wrap to the anonymous range
  never happens, after 65535 comes 0.\<close>

theorem make_channel_any_port:
  assumes "make_channel ops qo (0, 0) u = (r, u')"
  shows "(case r of
      Inr ch \<Rightarrow> udp_channels u (nc_port ch) = None \<and>
        (\<exists>k. nc_port ch = udp_next_anonymous_port u + word_of_nat k \<and>
          (\<forall>j < k. udp_channels u (udp_next_anonymous_port u + word_of_nat j) \<noteq> None)) \<and>
        udp_channels u' = (udp_channels u)(nc_port ch \<mapsto> nc_state ch) \<and>
        udp_next_anonymous_port u' = nc_port ch + 1
    | Inl er \<Rightarrow> er = No_free_port \<and> (\<forall>port. udp_channels u port \<noteq> None) \<and> udp_channels u' = udp_channels u) \<and>
    next_port 65535 = 0"
proof -
  let ?n = "udp_next_anonymous_port u"
  obtain q ok where q: "find_port (udp_channels u) ?n ?n = (q, ok)" by fastforce
  show ?thesis
  proof (cases ok)
    case True
    then have "find_port (udp_channels u) ?n ?n = (q, True)" using q by simp
    from find_port_found [OF this] this assms show ?thesis by (auto simp: make_channel_def Let_def)
  next
    case False
    then have none: "find_port (udp_channels u) ?n ?n = (q, False)" using q by simp
    have "udp_channels u port \<noteq> None" for port
    proof -
      have "Suc (unat (?n - ?n - 1)) = 65536" by (simp add: unsigned_minus_1_eq_mask mask_numeral)
      then have "unat (port - ?n) < Suc (unat (?n - ?n - 1))" using u16_less [of "port - ?n"] by linarith
      then have "udp_channels u (?n + word_of_nat (unat (port - ?n))) \<noteq> None" using find_port_none [OF none] by blast
      then show ?thesis by simp
    qed
    then show ?thesis using assms none by (auto simp: make_channel_def Let_def)
  qed
qed

theorem make_channel_any_port_witness:
  "\<exists>ch u'. make_channel sem_ref queue_ref (0, 0) (sample_channel\<lparr>udp_next_anonymous_port := 53\<rparr>) = (Inr ch, u') \<and>
     nc_port ch \<noteq> 53"
proof -
  let ?u = "sample_channel\<lparr>udp_next_anonymous_port := 53\<rparr>"
  obtain r u' where r: "make_channel sem_ref queue_ref (0, 0) ?u = (r, u')" by fastforce
  have used: "udp_channels ?u 53 = Some 0" "udp_channels ?u 54 = None"
    by (simp_all add: sample_channel_def make_channel_def udp_init_def Let_def)
  note M = make_channel_any_port [OF r]
  show ?thesis
  proof (cases r)
    case (Inl er)
    then have "udp_channels ?u 54 \<noteq> None" using M by simp
    then show ?thesis using used(2) by simp
  next
    case (Inr ch)
    then show ?thesis using M used(1) r by auto
  qed
qed

subsection \<open>The limit on echo replies\<close>

inductive icmp_step :: "'s sem_ops \<Rightarrow> 's icmp \<Rightarrow> 's icmp \<Rightarrow> bool" for ops :: "'s sem_ops" where
  received: "icmp_received ops be oi run p from st ic = Inr (st', ic') \<Longrightarrow> icmp_step ops ic ic'"
| resolved: "icmp_step ops ic (icmp_resolved n r ic)"
| polled: "icmp_get_packet ops ic = (q, ic') \<Longrightarrow> icmp_step ops ic ic'"

inductive icmp_steps :: "'s sem_ops \<Rightarrow> 's icmp \<Rightarrow> 's icmp \<Rightarrow> bool" for ops :: "'s sem_ops" where
  refl: "icmp_steps ops ic ic"
| step: "icmp_steps ops ic ic1 \<Longrightarrow> icmp_step ops ic1 ic2 \<Longrightarrow> icmp_steps ops ic ic2"

text \<open>The bytes of the replies that are queued or wait for an address, and with them the units left.\<close>

definition bytes_of :: "l4packet list \<Rightarrow> nat" where
  "bytes_of ps = sum_list (map (length \<circ> l4_p) ps)"

definition held_bytes :: "l4_tx \<Rightarrow> nat" where
  "held_bytes tx = bytes_of (tx_packetq tx) + bytes_of (map snd (tx_waiting tx))"

definition waiting_on :: "nat \<Rightarrow> l4_tx \<Rightarrow> l4packet list" where
  "waiting_on n tx = map snd (filter (\<lambda>w. fst w = n) (tx_waiting tx))"

lemma bytes_of_simps [simp]: "bytes_of [] = 0" "bytes_of (p # ps) = length (l4_p p) + bytes_of ps"
  "bytes_of (ps @ qs) = bytes_of ps + bytes_of qs"
  by (simp_all add: bytes_of_def)

lemma bytes_of_address [simp]: "bytes_of (map (\<lambda>w. (snd w)\<lparr>l4_e_dst := a\<rparr>) ws) = bytes_of (map snd ws)"
  by (induction ws) simp_all

lemma bytes_of_partition:
  "bytes_of (map snd (filter P ws)) + bytes_of (map snd (filter (\<lambda>w. \<not> P w) ws)) = bytes_of (map snd ws)"
  by (induction ws) auto

lemma held_then_emplace: "held_bytes (then_emplace f pk tx) \<le> held_bytes tx + length (l4_p pk)"
  by (cases f) (simp_all add: then_emplace_def held_bytes_def)

lemma held_complete:
  "held_bytes (tx_complete n r tx) = held_bytes tx - (if r = None then bytes_of (waiting_on n tx) else 0)"
  using bytes_of_partition [of "\<lambda>w. fst w = n" "tx_waiting tx"]
  by (cases r) (simp_all add: tx_complete_def held_bytes_def waiting_on_def)

lemma waiting_on_held: "bytes_of (waiting_on n tx) \<le> held_bytes tx"
  using bytes_of_partition [of "\<lambda>w. fst w = n" "tx_waiting tx"] by (simp add: held_bytes_def waiting_on_def)


definition icmp_total :: "'s sem_ops \<Rightarrow> 's icmp \<Rightarrow> int" where
  "icmp_total ops ic = sem_units ops (icmp_queue_space ic) + int (held_bytes (icmp_tx ic))"

definition icmp_sound :: "'s sem_ops \<Rightarrow> 's icmp \<Rightarrow> bool" where
  "icmp_sound ops ic \<longleftrightarrow> sem_idle ops (icmp_queue_space ic) \<and> 0 \<le> sem_units ops (icmp_queue_space ic)"

lemma icmp_reply_total:
  assumes "sem_ok ops" "icmp_sound ops ic" "icmp_reply ops be oi from p st ic = (st', ic')"
  shows "icmp_sound ops ic' \<and> icmp_total ops ic' \<le> icmp_total ops ic"
proof (cases "sem_try_wait ops (length p) (icmp_queue_space ic)")
  case None
  then show ?thesis using assms by (simp add: icmp_reply_def)
next
  case (Some s)
  obtain f st1 where f: "get_l2_dst_address be from st = (f, st1)" by fastforce
  let ?pk = "\<lparr>l4_to = from, l4_p = p, l4_oi = oi, l4_e_dst = ethernet_address_zero, l4_proto_num = icmp_num\<rparr>"
  have ic': "ic' = ic\<lparr>icmp_queue_space := s, icmp_tx := then_emplace f ?pk (icmp_tx ic)\<rparr>"
    using assms(3) Some f by (simp add: icmp_reply_def)
  have "sem_units ops s = sem_units ops (icmp_queue_space ic) - int (length p)" "0 \<le> sem_units ops s" "sem_idle ops s"
    using assms(1,2) Some unfolding sem_ok_def icmp_sound_def by blast+
  then show ?thesis using ic' held_then_emplace [of f ?pk "icmp_tx ic"] by (simp add: icmp_sound_def icmp_total_def)
qed

lemma icmp_received_total:
  assumes "sem_ok ops" "icmp_sound ops ic" "icmp_received ops be oi run p from st ic = Inr (st', ic')"
  shows "icmp_sound ops ic' \<and> icmp_total ops ic' \<le> icmp_total ops ic"
proof -
  have "ic' = ic \<or> (\<exists>p1. icmp_reply ops be oi from p1 st ic = (st', ic'))"
    using assms(3) by (auto simp: icmp_received_def Let_def split: option.splits if_splits)
  then show ?thesis using icmp_reply_total [OF assms(1,2)] assms(2) by blast
qed

lemma icmp_polled_total:
  assumes "sem_ok ops" "icmp_sound ops ic" "icmp_get_packet ops ic = (q, ic')"
  shows "icmp_sound ops ic' \<and> icmp_total ops ic' = icmp_total ops ic"
proof (cases "tx_packetq (icmp_tx ic)")
  case Nil
  then show ?thesis using assms by (simp add: icmp_get_packet_def)
next
  case (Cons pk ps)
  let ?s = "snd (sem_signal ops (length (l4_p pk)) (icmp_queue_space ic))"
  have "sem_units ops ?s = sem_units ops (icmp_queue_space ic) + int (length (l4_p pk))" "sem_idle ops ?s"
    using assms(1,2) unfolding sem_ok_def icmp_sound_def by blast+
  then show ?thesis
    using assms(2,3) Cons by (auto simp: icmp_get_packet_def icmp_sound_def icmp_total_def held_bytes_def)
qed

lemma icmp_resolved_total:
  "icmp_total ops (icmp_resolved n r ic) =
     icmp_total ops ic - (if r = None then int (bytes_of (waiting_on n (icmp_tx ic))) else 0)"
  using waiting_on_held [of n "icmp_tx ic"]
  by (simp add: icmp_total_def icmp_resolved_def held_complete)

lemma icmp_steps_total:
  assumes "icmp_steps ops ic ic'" "sem_ok ops" "icmp_sound ops ic"
  shows "icmp_sound ops ic' \<and> icmp_total ops ic' \<le> icmp_total ops ic"
  using assms(1,3)
proof induction
  case (step ic ic1 ic2)
  then have ih: "icmp_sound ops ic1" "icmp_total ops ic1 \<le> icmp_total ops ic" by blast+
  from step.hyps(2) show ?case
  proof cases
    case (received be oi run p "from" st st')
    from icmp_received_total [OF assms(2) ih(1) received] ih(2) show ?thesis by simp
  next
    case (resolved n r)
    then show ?thesis using ih by (simp add: icmp_resolved_total) (simp add: icmp_sound_def icmp_resolved_def)
  next
    case (polled q)
    from icmp_polled_total [OF assms(2) ih(1) polled] ih(2) show ?thesis by simp
  qed
qed simp

text \<open>The echo replies that are queued or wait for a hardware address never hold more than 212992
  bytes together. Room taken by a reply whose address could not be resolved never comes back: from
  then on, whatever happens, the limit is smaller by its length, so that a host which was pinged
  often enough from addresses that do not answer stops answering.\<close>

theorem echo_queue_space_leaks:
  assumes "sem_ok ops" "icmp_steps ops (icmp_init ops) ic"
  shows "0 \<le> sem_units ops (icmp_queue_space ic) \<and>
    sem_units ops (icmp_queue_space ic) + int (held_bytes (icmp_tx ic)) \<le> 212992 \<and>
    (\<forall>n ic'. icmp_steps ops (icmp_resolved n None ic) ic' \<longrightarrow>
      sem_units ops (icmp_queue_space ic') + int (held_bytes (icmp_tx ic')) \<le>
        212992 - int (bytes_of (waiting_on n (icmp_tx ic))))"
proof -
  have i: "icmp_sound ops (icmp_init ops)" "icmp_total ops (icmp_init ops) = 212992"
    using assms(1) by (auto simp: sem_ok_def icmp_sound_def icmp_total_def icmp_init_def held_bytes_def)
  have ic: "icmp_sound ops ic" "icmp_total ops ic \<le> 212992"
    using icmp_steps_total [OF assms(2,1) i(1)] i(2) by simp_all
  have "icmp_total ops ic' \<le> 212992 - int (bytes_of (waiting_on n (icmp_tx ic)))"
    if "icmp_steps ops (icmp_resolved n None ic) ic'" for n ic'
  proof -
    have "icmp_sound ops (icmp_resolved n None ic)" using ic(1) by (simp add: icmp_sound_def icmp_resolved_def)
    from icmp_steps_total [OF that assms(1) this] show ?thesis using ic(2) by (simp add: icmp_resolved_total)
  qed
  then show ?thesis using ic by (auto simp: icmp_sound_def icmp_total_def)
qed

definition sample_ping :: bytes where
  "sample_ping = [8, 0, 0, 0, 0, 1, 0, 1]"

theorem echo_queue_space_leaks_witness:
  "\<exists>st ic. icmp_received sem_ref be_ref offload_info_init [] sample_ping 9 (ipv4_init ethernet_address_zero) (icmp_init sem_ref) =
     Inr (st, ic) \<and>
    sem_units sem_ref (icmp_queue_space (icmp_resolved 0 None ic)) + int (held_bytes (icmp_tx (icmp_resolved 0 None ic))) \<le> 212984"
proof -
  let ?st = "ipv4_init ethernet_address_zero"
  have arp: "\<exists>st. get_l2_dst_address be_ref 9 ?st = (Arp_waiting 0, st)"
    by (simp add: get_l2_dst_address_def in_my_netmask_def ipv4_init_def arp_lookup_def arp_init_def send_query_def arp_send_def)
  obtain st ic where r: "icmp_received sem_ref be_ref offload_info_init [] sample_ping 9 ?st (icmp_init sem_ref) = Inr (st, ic)"
      "bytes_of (waiting_on 0 (icmp_tx ic)) = 8"
  proof -
    obtain st where st: "get_l2_dst_address be_ref 9 ?st = (Arp_waiting 0, st)" using arp by blast
    have g: "v_get_header sample_ping 0 8 = Some sample_ping" "length sample_ping = 8"
      by (simp_all add: v_get_header_def slice_def sample_ping_def)
    have l: "length (icmp_hdr_store h) = 8" for h by (simp add: icmp_hdr_store_def)
    have t: "icmp_type (icmp_hdr_load sample_ping) = 8" by (simp add: icmp_hdr_load_def sample_ping_def)
    show ?thesis
      using that st g l t
      by (simp add: icmp_received_def icmp_reply_def Let_def sum_data_def checksummer_init_def sem_ref_def icmp_init_def overwrite_def
          then_emplace_def waiting_on_def)
  qed
  have "icmp_steps sem_ref (icmp_init sem_ref) ic"
    by (rule icmp_steps.step [OF icmp_steps.refl icmp_step.received [OF r(1)]])
  from echo_queue_space_leaks [OF sem_ok_ref this] have
    "sem_units sem_ref (icmp_queue_space (icmp_resolved 0 None ic)) + int (held_bytes (icmp_tx (icmp_resolved 0 None ic))) \<le>
       212992 - int (bytes_of (waiting_on 0 (icmp_tx ic)))"
    using icmp_steps.refl by blast
  then show ?thesis using r by auto
qed

end
