(* ===== verification/TcpTables.thy ===== *)
theory TcpTables
  imports TcpLayer TcbStates L4Props
begin

text \<open>
  The invariant of the TCP protocol object: its tables are sound in every reachable state.
\<close>

subsection \<open>The tables\<close>

definition connections_ok :: "('q, 's) tcp_layer \<Rightarrow> bool" where
  "connections_ok ly \<longleftrightarrow>
     (\<forall>i < tl_next ly. tcb_inv (t_id (tl_store ly i)) (tl_store ly i) \<and> t_state (tl_store ly i) \<noteq> LISTEN)"

definition refs_ok :: "('q, 's) tcp_layer \<Rightarrow> bool" where
  "refs_ok ly \<longleftrightarrow>
     fst ` set (tl_poll_tcbs ly) \<subseteq> {..< tl_next ly} \<and> snd ` set (tl_poll_waiting ly) \<subseteq> {..< tl_next ly} \<and>
     set (tl_closing ly) \<subseteq> {..< tl_next ly} \<and> set (tl_dropped ly) \<subseteq> {..< tl_next ly}"

definition tables_ok :: "('q, 's) tcp_layer \<Rightarrow> bool" where
  "tables_ok ly \<longleftrightarrow>
     (\<forall>cid i. tl_tcbs ly cid = Some i \<longrightarrow> i < tl_next ly \<and> t_id (tl_store ly i) = cid) \<and>
     (\<forall>port l. tl_listening ly port = Some l \<longrightarrow> l < tl_next_listener ly)"

definition layer_inv :: "('q, 's) tcp_layer \<Rightarrow> bool" where
  "layer_inv ly \<longleftrightarrow> connections_ok ly \<and> refs_ok ly \<and> tables_ok ly"

lemmas layer_defs = layer_inv_def connections_ok_def refs_ok_def tables_ok_def set_tcb_def

text \<open>Putting a sound control block in place of another of the same connection.\<close>

lemma moves_not_listen: "moves t t' \<Longrightarrow> t_state t \<noteq> LISTEN \<Longrightarrow> t_state t' \<noteq> LISTEN"
  by (cases "t_state t") (auto simp: moves_def)

definition sound_tcb :: "connid \<Rightarrow> tcb \<Rightarrow> bool" where
  "sound_tcb cid t \<longleftrightarrow> tcb_inv cid t \<and> t_state t \<noteq> LISTEN"

lemma sound_moves: "moves t t' \<Longrightarrow> sound_tcb cid t \<Longrightarrow> sound_tcb cid t'"
  using moves_not_listen by (auto simp: sound_tcb_def moves_inv)

lemma sound_id: "sound_tcb cid t \<Longrightarrow> t_id t = cid"
  by (simp add: sound_tcb_def tcb_inv_def)

lemma sound_events [simp]: "sound_tcb cid (t\<lparr>t_events := es\<rparr>) = sound_tcb cid t"
  by (simp add: sound_tcb_def tcb_inv_def rto_ok_def)

lemma layer_inv_sound: "layer_inv ly \<Longrightarrow> i < tl_next ly \<Longrightarrow> sound_tcb (t_id (tl_store ly i)) (tl_store ly i)"
  by (simp add: layer_inv_def connections_ok_def sound_tcb_def)

lemma layer_inv_set_tcb:
  assumes "layer_inv ly" "sound_tcb (t_id (tl_store ly i)) t"
  shows "layer_inv (set_tcb i t ly)"
  using assms sound_id [OF assms(2)] by (auto simp: layer_defs sound_tcb_def)

lemma set_tcb_sel [simp]:
  "tl_next (set_tcb i t ly) = tl_next ly" "tl_store (set_tcb i t ly) i = t" "tl_tcbs (set_tcb i t ly) = tl_tcbs ly"
  by (simp_all add: set_tcb_def)

lemma poll_tcb_inv:
  assumes "layer_inv ly" "i < tl_next ly" "poll_tcb e i (st, ly) = (st', ly')"
  shows "layer_inv ly' \<and> tl_next ly' = tl_next ly \<and> t_id (tl_store ly' i) = t_id (tl_store ly i)"
proof -
  have "sound_tcb (t_id (tl_store ly i)) (output_arp_queue_full e (tl_store ly i))"
    using layer_inv_sound [OF assms(1,2)] sound_moves [OF tcb_step_moves [OF tcb_step.arp_queue_full]] by blast
  note s = layer_inv_set_tcb [OF assms(1) this] sound_id [OF this]
  show ?thesis
    using assms s by (auto simp: poll_tcb_def split: prod.splits arp_future.splits)
      (auto simp: layer_defs)
qed

lemma layer_inv_frame [simp]:
  "layer_inv (ly\<lparr>tl_tx := x\<rparr>) = layer_inv ly" "layer_inv (ly\<lparr>tl_queue_space := s\<rparr>) = layer_inv ly"
  "layer_inv (ly\<lparr>tl_promises := ps\<rparr>) = layer_inv ly" "layer_inv (ly\<lparr>tl_listeners := ls\<rparr>) = layer_inv ly"
  "layer_inv (ly\<lparr>tl_tcb_polled := k\<rparr>) = layer_inv ly"
  by (simp_all add: layer_defs)

lemma layer_inv_update:
  assumes "layer_inv ly"
  shows "layer_inv (ly\<lparr>tl_tcbs := (tl_tcbs ly)(cid := None)\<rparr>)"
    "i < tl_next ly \<Longrightarrow> layer_inv (ly\<lparr>tl_closing := tl_closing ly @ [i]\<rparr>)"
    "i < tl_next ly \<Longrightarrow> layer_inv (ly\<lparr>tl_dropped := tl_dropped ly @ [i]\<rparr>)"
  using assms by (auto simp: layer_defs)

lemma send_packet_frame:
  "\<exists>s x. snd (send_packet_without_tcb ops be to p oi (st, ly)) = ly\<lparr>tl_queue_space := s, tl_tx := x\<rparr>"
proof (cases "sem_try_wait ops (length p) (tl_queue_space ly)")
  case None
  then show ?thesis
    by (intro exI [of _ "tl_queue_space ly"] exI [of _ "tl_tx ly"]) (simp add: send_packet_without_tcb_def)
next
  case (Some s)
  obtain f st1 where "get_l2_dst_address be to st = (f, st1)" by fastforce
  then show ?thesis using Some by (auto simp: send_packet_without_tcb_def)
qed

lemma reset_frame:
  assumes "tcp_respond_with_reset ops e rth a b (st, ly) = Inr (st', ly')"
  shows "\<exists>s x. ly' = ly\<lparr>tl_queue_space := s, tl_tx := x\<rparr>"
proof (cases "f_rst rth")
  case True
  then show ?thesis
    using assms by (intro exI [of _ "tl_queue_space ly"] exI [of _ "tl_tx ly"]) (simp add: tcp_respond_with_reset_def)
next
  case False
  then obtain p oi where "send_packet_without_tcb ops (e_be e) b p oi (st, ly) = (st', ly')"
    using assms by (auto simp: tcp_respond_with_reset_def)
  then show ?thesis using send_packet_frame [of ops "e_be e" b p oi st ly] by simp
qed

lemma add_connected_inv:
  assumes "layer_inv ly" "i < tl_next ly"
  shows "layer_inv (add_connected_tcb qo i port ly)" "tl_next (add_connected_tcb qo i port ly) = tl_next ly"
    "tl_store (add_connected_tcb qo i port ly) = tl_store ly"
proof -
  have d: "layer_inv (ly\<lparr>tl_dropped := tl_dropped ly\<rparr>)" using assms(1) by simp
  have swap: "ly\<lparr>tl_listeners := ls, tl_dropped := ds\<rparr> = ly\<lparr>tl_dropped := ds, tl_listeners := ls\<rparr>" for ls ds by simp
  show "layer_inv (add_connected_tcb qo i port ly)"
    using layer_inv_update(3) [OF assms] d assms(1)
    by (simp add: add_connected_tcb_def Let_def swap split: option.split prod.split del: tcp_layer.update_convs)
  show "tl_next (add_connected_tcb qo i port ly) = tl_next ly"
    "tl_store (add_connected_tcb qo i port ly) = tl_store ly"
    by (simp_all add: add_connected_tcb_def Let_def split: option.split prod.split)
qed

lemma handle_event_inv:
  assumes "layer_inv ly" "i < tl_next ly" "handle_event ops qo e i ev (st, ly) = Inr (st', ly')"
  shows "layer_inv ly' \<and> tl_next ly' = tl_next ly \<and> t_id (tl_store ly' i) = t_id (tl_store ly i)"
proof (cases ev)
  case Poll_tcb
  then show ?thesis using poll_tcb_inv [OF assms(1,2), of e st st' ly'] assms(3) by (simp add: handle_event_def Let_def)
next
  case (Respond_with_reset rth)
  then obtain s x where "ly' = ly\<lparr>tl_queue_space := s, tl_tx := x\<rparr>"
    using reset_frame assms(3) by (fastforce simp: handle_event_def Let_def)
  then show ?thesis using assms(1) by simp
next
  case Removed_from_tcbs
  then have "ly' = ly\<lparr>tl_tcbs := (tl_tcbs ly)(t_id (tl_store ly i) := None)\<rparr>"
    using assms(3) by (simp add: handle_event_def Let_def)
  then show ?thesis using layer_inv_update(1) [OF assms(1)] by simp
next
  case Add_connected_tcb
  then have "ly' = add_connected_tcb qo i (local_port (t_id (tl_store ly i))) ly"
    using assms(3) by (simp add: handle_event_def Let_def)
  then show ?thesis using add_connected_inv [OF assms(1,2)] by simp
next
  case All_data_acked
  then have "ly' = ly\<lparr>tl_closing := tl_closing ly @ [i]\<rparr>"
    using assms(3) by (simp add: handle_event_def Let_def)
  then show ?thesis using layer_inv_update(2) [OF assms(1,2)] by simp
qed (use assms in \<open>auto simp: handle_event_def Let_def\<close>)

lemma handle_events_inv:
  "layer_inv ly \<Longrightarrow> i < tl_next ly \<Longrightarrow> handle_events ops qo e i evs (st, ly) = Inr (st', ly') \<Longrightarrow>
     layer_inv ly' \<and> tl_next ly' = tl_next ly"
proof (induction evs arbitrary: st ly)
  case (Cons ev evs)
  then obtain w1 where w1: "handle_event ops qo e i ev (st, ly) = Inr w1" "handle_events ops qo e i evs w1 = Inr (st', ly')"
    by auto
  obtain st1 ly1 where s1: "w1 = (st1, ly1)" by (cases w1)
  note H = handle_event_inv [OF Cons.prems(1,2) w1(1) [unfolded s1]]
  then have i1: "i < tl_next ly1" using Cons.prems(2) by simp
  show ?case using Cons.IH [OF _ i1 w1(2) [unfolded s1]] H by simp
qed simp

lemma tcb_after_inv:
  assumes "layer_inv (set_tcb i (t\<lparr>t_events := []\<rparr>) ly)" "i < tl_next ly" "tcb_after ops qo e i t (st, ly) = Inr (st', ly')"
  shows "layer_inv ly' \<and> tl_next ly' = tl_next ly"
  using handle_events_inv [OF assms(1)] assms(2,3) by (simp add: tcb_after_def)

lemma tcb_move_inv:
  assumes "layer_inv ly" "i < tl_next ly" "moves (tl_store ly i) t" "tcb_after ops qo e i t (st, ly) = Inr (st', ly')"
  shows "layer_inv ly' \<and> tl_next ly' = tl_next ly"
proof (rule tcb_after_inv [OF layer_inv_set_tcb [OF assms(1)] assms(2,4)])
  show "sound_tcb (t_id (tl_store ly i)) (t\<lparr>t_events := []\<rparr>)"
    using sound_moves [OF assms(3) layer_inv_sound [OF assms(1,2)]] by simp
qed

lemma new_tcb_eq:
  assumes "new_tcb fresh cid ly = (i, ly1)"
  shows "i = tl_next ly" "ly1 = (set_tcb i (tcb_new (fst fresh) (fst (snd fresh)) (snd (snd fresh)) cid) ly)\<lparr>tl_next := Suc i,
      tl_tcbs := (if tl_tcbs ly cid = None then (tl_tcbs ly)(cid \<mapsto> i) else tl_tcbs ly)\<rparr>"
  using assms by (auto simp: new_tcb_def Let_def split: prod.splits)

lemma new_tcb_inv:
  assumes "layer_inv ly" "new_tcb fresh cid ly = (i, ly1)" "sound_tcb cid t"
  shows "layer_inv (set_tcb i t ly1)"
proof -
  note N = new_tcb_eq [OF assms(2)]
  have c: "connections_ok (set_tcb i t ly1)"
    using assms(1,3) sound_id [OF assms(3)] unfolding N(2) N(1)
    by (auto simp: layer_inv_def connections_ok_def set_tcb_def sound_tcb_def less_Suc_eq)
  have up: "{..< tl_next ly} \<subseteq> {..< Suc i}" using N(1) by auto
  have r: "refs_ok (set_tcb i t ly1)"
    using assms(1) up by (simp add: N(2) layer_inv_def refs_ok_def set_tcb_def subset_trans [OF _ up])
  have old: "k < i \<and> t_id (tl_store ly k) = c'" if "tl_tcbs ly c' = Some k" for c' k
    using assms(1) that N(1) by (simp add: layer_inv_def tables_ok_def)
  have new: "k < Suc i \<and> t_id (((tl_store ly)(i := t)) k) = c'"
    if "(if tl_tcbs ly cid = None then (tl_tcbs ly)(cid \<mapsto> i) else tl_tcbs ly) c' = Some k" for c' k
    using that old [of c' k] sound_id [OF assms(3)] by (auto split: if_splits)
  have sel: "tl_tcbs (set_tcb i t ly1) = (if tl_tcbs ly cid = None then (tl_tcbs ly)(cid \<mapsto> i) else tl_tcbs ly)"
      "tl_store (set_tcb i t ly1) = (tl_store ly)(i := t)" "tl_next (set_tcb i t ly1) = Suc i"
      "tl_listening (set_tcb i t ly1) = tl_listening ly" "tl_next_listener (set_tcb i t ly1) = tl_next_listener ly"
    by (simp_all add: N(2) set_tcb_def)
  have "tables_ok (set_tcb i t ly1)"
    unfolding tables_ok_def sel using new assms(1) unfolding layer_inv_def tables_ok_def by blast
  with c r show ?thesis by (simp add: layer_inv_def)
qed

subsection \<open>Every operation keeps the tables sound\<close>

lemma tcb_apply_moves:
  assumes "layer_inv ly" "i < tl_next ly" "tcb_apply ops qo e i op (st, ly) = Inr (st', ly')"
    and "\<And>t. op (tl_store ly i) = Inr t \<Longrightarrow> moves (tl_store ly i) t"
  shows "layer_inv ly' \<and> tl_next ly' = tl_next ly"
proof -
  obtain t where "op (tl_store ly i) = Inr t" "tcb_after ops qo e i t (st, ly) = Inr (st', ly')"
    using assms(3) by (auto simp: tcb_apply_def)
  then show ?thesis using tcb_move_inv [OF assms(1,2)] assms(4) by blast
qed

lemma tcb_apply_new:
  assumes "layer_inv ly" "new_tcb fresh cid ly = (i, ly1)"
    and "tcb_apply ops qo e i op (st, ly1\<lparr>tl_listeners := ls\<rparr>) = Inr (st', ly')"
    and "\<And>t. op (tcb_new (fst fresh) (fst (snd fresh)) (snd (snd fresh)) cid) = Inr t \<Longrightarrow> sound_tcb cid t"
  shows "layer_inv ly'"
proof -
  note N = new_tcb_eq [OF assms(2)]
  have st: "tl_store ly1 i = tcb_new (fst fresh) (fst (snd fresh)) (snd (snd fresh)) cid" by (simp add: N(2))
  obtain t where t: "op (tl_store ly1 i) = Inr t" "tcb_after ops qo e i t (st, ly1\<lparr>tl_listeners := ls\<rparr>) = Inr (st', ly')"
    using assms(3) by (auto simp: tcb_apply_def)
  then have "sound_tcb cid (t\<lparr>t_events := []\<rparr>)" using assms(4) st by simp
  from new_tcb_inv [OF assms(1,2) this]
  have "layer_inv (set_tcb i (t\<lparr>t_events := []\<rparr>) (ly1\<lparr>tl_listeners := ls\<rparr>))" by (simp add: layer_defs)
  moreover have "i < tl_next (ly1\<lparr>tl_listeners := ls\<rparr>)" by (simp add: N(2))
  ultimately show ?thesis using tcb_after_inv t(2) by blast
qed

lemma listen_sound: "input_handle_listen_state e h p (tcb_new s0 r0 m0 cid) = Inr t \<Longrightarrow> sound_tcb cid t"
  using input_handle_listen_state_inv [of e h p "tcb_new s0 r0 m0 cid" t cid] by (simp add: sound_tcb_def)

lemma connect_sound: "connect e (tcb_new s0 r0 m0 cid) = Inr t \<Longrightarrow> sound_tcb cid t"
  using connect_inv [of e "tcb_new s0 r0 m0 cid" t cid] by (simp add: sound_tcb_def)

lemma reset_inv: "layer_inv ly \<Longrightarrow> tcp_respond_with_reset ops e rth a b (st, ly) = Inr (st', ly') \<Longrightarrow> layer_inv ly'"
  using reset_frame by fastforce

lemma to_listener_inv:
  assumes "layer_inv ly" "to_listener ops qo e fresh h p cid l (st, ly) = Inr (st', ly')"
  shows "layer_inv ly'"
proof -
  consider "ly' = ly" | "tcp_respond_with_reset ops e h (local_ip cid) (foreign_ip cid) (st, ly) = Inr (st', ly')"
    | i ly1 where "new_tcb fresh cid ly = (i, ly1)"
        "tcb_apply ops qo e i (input_handle_listen_state e h p) (st, ly1\<lparr>tl_listeners := (tl_listeners ly1)(l :=
          (tl_listeners ly1 l)\<lparr>ls_pending := ls_pending (tl_listeners ly1 l) + 1\<rparr>)\<rparr>) = Inr (st', ly')"
    using assms(2) by (auto simp: to_listener_def Let_def split: if_splits prod.splits)
  then show ?thesis
  proof cases
    case 2
    then show ?thesis by (rule reset_inv [OF assms(1)])
  next
    case 3
    then show ?thesis by (rule tcb_apply_new [OF assms(1)]) (rule listen_sound)
  qed (use assms(1) in simp)
qed

lemma tcp_dispatch_inv:
  assumes "layer_inv ly" "tcp_dispatch ops qo e fresh h p cid (st, ly) = Inr (st', ly')"
  shows "layer_inv ly'"
proof (cases "tl_tcbs ly cid")
  case None
  then show ?thesis
    using assms reset_inv [OF assms(1)] to_listener_inv [OF assms(1)]
    by (auto simp: tcp_dispatch_def split: option.splits if_splits)
next
  case (Some i)
  then have i: "i < tl_next ly" using assms(1) by (simp add: layer_inv_def tables_ok_def)
  have m: "moves (tl_store ly i) t" if "t_state (tl_store ly i) = SYN_SENT"
      "input_handle_syn_sent_state e h p (tl_store ly i) = Inr t" for t
    using tcb_step_moves [OF tcb_step.segment_syn_sent [OF that]] .
  have n: "moves (tl_store ly i) t" if "t_state (tl_store ly i) \<noteq> SYN_SENT"
      "input_handle_other_state e h p (tl_store ly i) = Inr t" for t
    using tcb_step_moves [OF tcb_step.segment [OF that]] .
  show ?thesis
  proof (cases "t_state (tl_store ly i) = SYN_SENT")
    case True
    then have "tcb_apply ops qo e i (input_handle_syn_sent_state e h p) (st, ly) = Inr (st', ly')"
      using assms(2) Some by (simp add: tcp_dispatch_def)
    from tcb_apply_moves [OF assms(1) i this m [OF True]] show ?thesis by blast
  next
    case False
    then have "tcb_apply ops qo e i (input_handle_other_state e h p) (st, ly) = Inr (st', ly')"
      using assms(2) Some by (simp add: tcp_dispatch_def)
    from tcb_apply_moves [OF assms(1) i this n [OF False]] show ?thesis by blast
  qed
qed

lemma tcp_received_inv:
  assumes "layer_inv ly" "tcp_received ops qo e fresh p from to (st, ly) = Inr (st', ly')"
  shows "layer_inv ly'"
proof -
  have "ly' = ly \<or> (\<exists>h cid. tcp_dispatch ops qo e fresh h p cid (st, ly) = Inr (st', ly'))"
    using assms(2) by (auto simp: tcp_received_def Let_def split: option.splits if_splits)
  then show ?thesis using tcp_dispatch_inv [OF assms(1)] assms(1) by blast
qed

lemma tcp_connect_inv:
  assumes "layer_inv ly" "tcp_connect ops qo e ie n fresh ports dst port (st, ly) = Some (Inr (i, st', ly'))"
  shows "layer_inv ly'"
proof -
  obtain cid where c: "(let (i, ly1) = new_tcb fresh cid ly in
      andThen (tcb_apply ops qo e i (connect e) (st, ly1)) (\<lambda>w. Inr (i, w))) = Inr (i, st', ly')"
    using assms(2) by (auto simp: tcp_connect_def)
  obtain j ly1 where n: "new_tcb fresh cid ly = (j, ly1)" by fastforce
  then have "tcb_apply ops qo e j (connect e) (st, ly1\<lparr>tl_listeners := tl_listeners ly1\<rparr>) = Inr (st', ly')"
    using c by auto
  from tcb_apply_new [OF assms(1) n this] connect_sound show ?thesis by blast
qed


lemma poll_loop_inv:
  "layer_inv ly \<Longrightarrow> poll_loop ops qo e c (st, ly) = Inr (pk, st', ly') \<Longrightarrow> layer_inv ly'"
proof (induction c arbitrary: st ly)
  case (Suc c)
  obtain i dst rest where q: "tl_poll_tcbs ly = (i, dst) # rest"
    using Suc.prems(2) by (auto simp: Let_def split: list.splits)
  let ?ly = "ly\<lparr>tl_poll_tcbs := rest, tl_tcb_polled := tl_tcb_polled ly + 1\<rparr>"
  obtain l4p t w1 where g: "get_packet e (tl_store ly i) = Inr (l4p, t)" "tcb_after ops qo e i t (st, ?ly) = Inr w1"
      "(case l4p of Some p \<Rightarrow> Inr (Some (p\<lparr>l4_e_dst := dst\<rparr>), w1) | None \<Rightarrow> poll_loop ops qo e c w1) = Inr (pk, st', ly')"
    using Suc.prems(2) q by (auto simp: Let_def)
  obtain st1 ly1 where w1: "w1 = (st1, ly1)" by (cases w1)
  have l: "layer_inv ?ly" "i < tl_next ?ly" using Suc.prems(1) q by (auto simp: layer_defs)
  have "moves (tl_store ?ly i) t" using tcb_step_moves [OF tcb_step.polled [OF g(1)]] by simp
  from tcb_move_inv [OF l this] g(2) w1 have "layer_inv ly1" by blast
  then show ?case using g(3) w1 Suc.IH by (cases l4p) auto
qed simp

lemma tcp_get_packet_inv:
  assumes "layer_inv ly" "tcp_get_packet ops qo e (st, ly) = Inr (pk, st', ly')"
  shows "layer_inv ly'"
proof -
  have "poll_loop ops qo e (length (tl_poll_tcbs ly)) (st, ly) = Inr (pk, st', ly') \<or>
      (\<exists>x s. ly' = ly\<lparr>tl_tx := x, tl_queue_space := s\<rparr>)"
    using assms(2) by (auto simp: tcp_get_packet_def Let_def split: list.splits if_splits)
  then show ?thesis using poll_loop_inv assms(1) by fastforce
qed

text \<open>What may happen to the protocol object: a segment arrives, the user or a timer acts on a
  connection, a continuation runs, packets are polled, listeners come and go, and the IPv4 state
  changes in between.\<close>

inductive layer_step :: "'s sem_ops \<Rightarrow> (nat, 'q) queue_ops \<Rightarrow> ('q, 's) world \<Rightarrow> ('q, 's) world \<Rightarrow> bool"
  for ops :: "'s sem_ops" and qo :: "(nat, 'q) queue_ops" where
  received: "tcp_received ops qo e fresh p from to (st, ly) = Inr (st', ly') \<Longrightarrow> layer_step ops qo (st, ly) (st', ly')"
| connected: "tcp_connect ops qo e ie n fresh ports dst port (st, ly) = Some (Inr (i, st', ly')) \<Longrightarrow>
    layer_step ops qo (st, ly) (st', ly')"
| call: "i < tl_next ly \<Longrightarrow> tcb_step (tl_store ly i) t \<Longrightarrow> tcb_after ops qo e i t (st, ly) = Inr (st', ly') \<Longrightarrow>
    layer_step ops qo (st, ly) (st', ly')"
| polled: "tcp_get_packet ops qo e (st, ly) = Inr (pk, st', ly') \<Longrightarrow> layer_step ops qo (st, ly) (st', ly')"
| closing: "tl_closing ly = i # rest \<Longrightarrow>
    tcb_apply ops qo e i (close_then e) (st, ly\<lparr>tl_closing := rest\<rparr>) = Inr (st', ly') \<Longrightarrow>
    layer_step ops qo (st, ly) (st', ly')"
| dropped: "tl_dropped ly = i # rest \<Longrightarrow>
    connection_destroyed ops qo e i (st, ly\<lparr>tl_dropped := rest\<rparr>) = Inr (st', ly') \<Longrightarrow>
    layer_step ops qo (st, ly) (st', ly')"
| resolved: "layer_step ops qo (st, ly) (st, poll_resolved n dst (tcp_resolved n (Some dst) ly))"
| failed: "(n, i) \<in> set (tl_poll_waiting ly) \<Longrightarrow> poll_failed ops qo e n i (st, ly) = Inr (st', ly') \<Longrightarrow>
    layer_step ops qo (st, ly) (st', ly')"
| reset_failed: "layer_step ops qo (st, ly) (st, tcp_resolved n None ly)"
| listens: "listen qo port len ly = (l, ly') \<Longrightarrow> layer_step ops qo (st, ly) (st, ly')"
| listener_moves: "listener_move x ly = (l, ly') \<Longrightarrow> layer_step ops qo (st, ly) (st, ly')"
| listener_ends: "layer_step ops qo (st, ly) (st, listener_destroyed l ly)"
| accepts: "accept qo l ly = (i, ly') \<Longrightarrow> layer_step ops qo (st, ly) (st, ly')"
| ip_changes: "layer_step ops qo (st, ly) (st', ly)"

inductive layer_reachable :: "'s sem_ops \<Rightarrow> (nat, 'q) queue_ops \<Rightarrow> ('q, 's) world \<Rightarrow> bool"
  for ops :: "'s sem_ops" and qo :: "(nat, 'q) queue_ops" where
  start: "layer_reachable ops qo (st, tcp_layer_init ops store ls)"
| step: "layer_reachable ops qo w \<Longrightarrow> layer_step ops qo w w' \<Longrightarrow> layer_reachable ops qo w'"

lemma resolved_inv: "layer_inv ly \<Longrightarrow> layer_inv (tcp_resolved n r ly)"
  by (simp add: tcp_resolved_def)

lemma poll_resolved_inv: "layer_inv ly \<Longrightarrow> layer_inv (poll_resolved n dst ly)"
  by (auto simp: layer_defs poll_resolved_def)

lemma tcb_close_abort_moves: "tcb_close e (abort_reader t) = Inr t' \<Longrightarrow> moves t t'"
  using stays_moves_trans [of t "abort_reader t"] tcb_close_moves by (simp add: stays_def)

lemma layer_inv_listening:
  assumes "layer_inv ly" "\<And>port l. f port = Some l \<Longrightarrow> l < n"
  shows "layer_inv (ly\<lparr>tl_next_listener := n, tl_listeners := ls, tl_listening := f\<rparr>)"
  using assms by (simp add: layer_defs)

lemma listening_bound: "layer_inv ly \<Longrightarrow> tl_listening ly port = Some l \<Longrightarrow> l < Suc (tl_next_listener ly)"
  by (simp add: layer_inv_def tables_ok_def less_SucI)

lemma listen_inv:
  assumes "layer_inv ly"
  shows "layer_inv (snd (listen qo port len ly))"
proof -
  have "layer_inv (ly\<lparr>tl_next_listener := tl_next_listener ly + 1,
      tl_listeners := (tl_listeners ly)(tl_next_listener ly := \<lparr>ls_port = port, ls_q = q_new qo len, ls_pending = 0\<rparr>),
      tl_listening := (if tl_listening ly port = None then (tl_listening ly)(port \<mapsto> tl_next_listener ly)
        else tl_listening ly)\<rparr>)"
    by (rule layer_inv_listening [OF assms]) (use listening_bound [OF assms] in \<open>auto split: if_splits\<close>)
  then show ?thesis by (simp only: listen_def Let_def snd_conv)
qed

lemma listener_move_inv:
  assumes "layer_inv ly"
  shows "layer_inv (snd (listener_move x ly))"
proof -
  let ?L = "tl_listeners ly x"
  have "layer_inv (ly\<lparr>tl_next_listener := tl_next_listener ly + 1,
      tl_listeners := (tl_listeners ly)(tl_next_listener ly := ?L\<lparr>ls_pending := 0\<rparr>, x := ?L\<lparr>ls_port := 0\<rparr>),
      tl_listening := (tl_listening ly)(ls_port ?L \<mapsto> tl_next_listener ly)\<rparr>)"
    by (rule layer_inv_listening [OF assms]) (use listening_bound [OF assms] in \<open>auto split: if_splits\<close>)
  then show ?thesis by (simp only: listener_move_def Let_def snd_conv)
qed

lemma listener_destroyed_inv:
  assumes "layer_inv ly"
  shows "layer_inv (listener_destroyed l ly)"
proof -
  have "layer_inv (ly\<lparr>tl_next_listener := tl_next_listener ly, tl_listeners := tl_listeners ly,
      tl_listening := (tl_listening ly)(port := None)\<rparr>)" for port
    using assms by (intro layer_inv_listening [OF assms]) (auto simp: layer_inv_def tables_ok_def split: if_splits)
  then show ?thesis using assms by (simp add: listener_destroyed_def Let_def)
qed

lemma accept_inv: "layer_inv ly \<Longrightarrow> layer_inv (snd (accept qo l ly))"
  by (simp add: accept_def Let_def split: prod.split)

lemma layer_step_inv:
  assumes "layer_step ops qo (st, ly) (st', ly')" "layer_inv ly"
  shows "layer_inv ly'"
  using assms(1)
proof cases
  case (received e fresh p "from" to)
  then show ?thesis by (rule tcp_received_inv [OF assms(2)])
next
  case (connected e ie n fresh ports dst port i)
  then show ?thesis by (rule tcp_connect_inv [OF assms(2)])
next
  case (call i t e)
  then show ?thesis using tcb_move_inv [OF assms(2) call(1) tcb_step_moves [OF call(2)] call(3)] by blast
next
  case (polled e pk)
  then show ?thesis by (rule tcp_get_packet_inv [OF assms(2)])
next
  case (closing i rest e)
  have l: "layer_inv (ly\<lparr>tl_closing := rest\<rparr>)" "i < tl_next (ly\<lparr>tl_closing := rest\<rparr>)"
    using assms(2) closing(1) by (auto simp: layer_defs)
  show ?thesis using tcb_apply_moves [OF l closing(2) close_then_moves] by simp
next
  case (dropped i rest e)
  have l: "layer_inv (ly\<lparr>tl_dropped := rest\<rparr>)" "i < tl_next (ly\<lparr>tl_dropped := rest\<rparr>)"
    using assms(2) dropped(1) by (auto simp: layer_defs)
  show ?thesis using tcb_apply_moves [OF l dropped(2) [unfolded connection_destroyed_def] tcb_close_abort_moves] by simp
next
  case (resolved n dst)
  then show ?thesis using assms(2) resolved_inv poll_resolved_inv by blast
next
  case (failed n i e)
  let ?ly = "ly\<lparr>tl_poll_waiting := filter (\<lambda>w. w \<noteq> (n, i)) (tl_poll_waiting ly)\<rparr>"
  have "i \<in> snd ` set (tl_poll_waiting ly)" using failed(1) by (metis image_eqI snd_conv)
  then have i: "i < tl_next ?ly" using assms(2) unfolding layer_inv_def refs_ok_def by auto
  have "snd ` set (tl_poll_waiting ?ly) \<subseteq> snd ` set (tl_poll_waiting ly)" by auto
  then have l: "layer_inv ?ly"
    using assms(2) unfolding layer_inv_def connections_ok_def refs_ok_def tables_ok_def by (simp add: subset_trans)
  have m: "moves (tl_store ?ly i) t" if "Inr (output_arp_timeout (tl_store ?ly i)) = Inr t" for t
    using that tcb_step_moves [OF tcb_step.arp_timeout [of "tl_store ?ly i"]] by simp
  have "tcb_apply ops qo e i (\<lambda>t. Inr (output_arp_timeout t)) (st, ?ly) = Inr (st', ly')"
    using failed(2) by (simp add: poll_failed_def)
  from tcb_apply_moves [OF l i this m] show ?thesis by blast
next
  case (reset_failed n)
  then show ?thesis using assms(2) resolved_inv by blast
next
  case (listens port len l)
  then show ?thesis using listen_inv [OF assms(2), of qo port len] by simp
next
  case (listener_moves x l)
  then show ?thesis using listener_move_inv [OF assms(2), of x] by simp
next
  case (listener_ends l)
  then show ?thesis using listener_destroyed_inv [OF assms(2)] by simp
next
  case (accepts l i)
  then show ?thesis using accept_inv [OF assms(2), of qo l] by simp
next
  case ip_changes
  then show ?thesis using assms(2) by simp
qed

lemma layer_reachable_inv: "layer_reachable ops qo w \<Longrightarrow> layer_inv (snd w)"
proof (induction rule: layer_reachable.induct)
  case (start st store ls)
  then show ?case by (simp add: tcp_layer_init_def layer_defs)
next
  case (step w w')
  then show ?case using layer_step_inv [of ops qo "fst w" "snd w" "fst w'" "snd w'"] by simp
qed

end
