(* ===== verification/TcpProps.thy ===== *)
theory TcpProps
  imports TcpTables
begin

text \<open>
  Properties of the TCP protocol object: the answer to segments that belong to no connection, the
  agreement of the hash a segment is routed by with the hash of its connection, and what an
  ephemeral port in use and a listener opened during a handshake lead to.
\<close>

subsection \<open>Connecting\<close>

lemma connect_result:
  "\<exists>t. connect e (tcb_new s0 r0 m0 cid) = Inr t \<and> t_events t = [Poll_tcb] \<and> t_state t = SYN_SENT \<and> t_id t = cid"
  by (simp add: connect_def Let_def get_default_receive_window_size_def shl32_def do_syn_sent_def tcb_output_def
      do_setup_isn_def tcb_new_def emit_def)

lemma poll_tcb_frame:
  assumes "poll_tcb e i (st, ly) = (st', ly')"
  shows "tl_tcbs ly' = tl_tcbs ly \<and> tl_next ly' = tl_next ly \<and> t_id (tl_store ly' i) = t_id (tl_store ly i) \<and>
    t_state (tl_store ly' i) = t_state (tl_store ly i)"
  using assms
  by (auto simp: poll_tcb_def set_tcb_def output_arp_queue_full_def start_retransmit_timer_def split: prod.splits arp_future.splits)

text \<open>With a single receive queue the first port drawn is taken.\<close>

lemma tcp_connect_run:
  fixes st ports dst port
  defines "cid \<equiv> \<lparr>local_ip = host_address st, foreign_ip = dst, local_port = ports 0, foreign_port = port\<rparr>"
  assumes "hw_queues \<le> 1"
  shows "\<exists>st' ly'. tcp_connect ops qo e ie hw_queues fresh ports dst port (st, ly) = Some (Inr (tl_next ly, st', ly')) \<and>
    tl_tcbs ly' = (if tl_tcbs ly cid = None then (tl_tcbs ly)(cid \<mapsto> tl_next ly) else tl_tcbs ly) \<and>
    t_id (tl_store ly' (tl_next ly)) = cid \<and> t_state (tl_store ly' (tl_next ly)) = SYN_SENT"
proof -
  have pick: "pick_port (port_unsuitable ie hw_queues (tl_tcbs ly))
      (\<lambda>src. \<lparr>local_ip = host_address st, foreign_ip = dst, local_port = src, foreign_port = port\<rparr>) ports 0 = Some (Inr cid)"
    using assms(2) by (subst pick_port.simps) (simp add: port_unsuitable_def cid_def)
  obtain i ly1 where n: "new_tcb fresh cid ly = (i, ly1)" by fastforce
  note N = new_tcb_eq [OF n]
  obtain t where t: "connect e (tcb_new (fst fresh) (fst (snd fresh)) (snd (snd fresh)) cid) = Inr t"
      "t_events t = [Poll_tcb]" "t_state t = SYN_SENT" "t_id t = cid"
    using connect_result by blast
  let ?ly = "set_tcb i (t\<lparr>t_events := []\<rparr>) ly1"
  obtain st' ly' where p: "poll_tcb e i (st, ?ly) = (st', ly')" by fastforce
  have "tcb_apply ops qo e i (connect e) (st, ly1) = Inr (st', ly')"
    using t p by (simp add: tcb_apply_def tcb_after_def N(2) handle_event_def Let_def)
  then have "tcp_connect ops qo e ie hw_queues fresh ports dst port (st, ly) = Some (Inr (i, st', ly'))"
    using pick n by (simp add: tcp_connect_def)
  moreover have "tl_tcbs ly' = tl_tcbs ly1" "t_id (tl_store ly' i) = cid" "t_state (tl_store ly' i) = SYN_SENT"
    using poll_tcb_frame [OF p] t by simp_all
  ultimately show ?thesis using N by auto
qed

text \<open>Connecting does not look whether the port drawn is in use when the device has a single receive
  queue: if a connection with the same addresses and ports exists, the new connection is not
  entered in the table, so no segment ever reaches it, and the answer to its SYN goes to the old
  connection.\<close>

theorem busy_port_is_drawn_again:
  assumes "hw_queues \<le> 1" "layer_reachable ops qo (st, ly)"
    and "tl_tcbs ly \<lparr>local_ip = host_address st, foreign_ip = dst, local_port = ports 0, foreign_port = port\<rparr> = Some j"
  shows "\<exists>i st' ly'. tcp_connect ops qo e ie hw_queues fresh ports dst port (st, ly) = Some (Inr (i, st', ly')) \<and>
    t_id (tl_store ly' i) = \<lparr>local_ip = host_address st, foreign_ip = dst, local_port = ports 0, foreign_port = port\<rparr> \<and>
    t_state (tl_store ly' i) = SYN_SENT \<and>
    tl_tcbs ly' \<lparr>local_ip = host_address st, foreign_ip = dst, local_port = ports 0, foreign_port = port\<rparr> = Some j \<and>
    (\<forall>cid. tl_tcbs ly' cid \<noteq> Some i)"
proof -
  have "layer_inv ly" using layer_reachable_inv [OF assms(2)] by simp
  then have free: "tl_tcbs ly cid \<noteq> Some (tl_next ly)" for cid by (auto simp: layer_inv_def tables_ok_def)
  show ?thesis
    using tcp_connect_run [OF assms(1), of ops qo e ie fresh ports dst port st ly] assms(3) free by fastforce
qed

definition sample_layer :: "(nat \<times> nat list, int \<times> (nat \<times> nat) list) tcp_layer" where
  "sample_layer = tcp_layer_init sem_ref (\<lambda>i. tcb_new sample_snd sample_rcv 1460 sample_connid)
     (\<lambda>l. \<lparr>ls_port = 0, ls_q = (0, []), ls_pending = 0\<rparr>)"

lemma sample_connected:
  "\<exists>st ly. tcp_connect sem_ref queue_ref TcbSend.sample_env IpProps.sample_env 1 (sample_snd, sample_rcv, 1460)
      (\<lambda>k. 50000) 9 80 (ipv4_init ethernet_address_zero, sample_layer) = Some (Inr (0, st, ly)) \<and>
    layer_reachable sem_ref queue_ref (st, ly) \<and> layer_reachable sem_ref queue_ref (ipv4_init ethernet_address_zero, ly) \<and>
    tl_tcbs ly \<lparr>local_ip = 0, foreign_ip = 9, local_port = 50000, foreign_port = 80\<rparr> = Some 0"
proof -
  let ?st = "ipv4_init ethernet_address_zero"
  have s: "host_address ?st = 0" "tl_next sample_layer = 0" "tl_tcbs sample_layer = Map.empty"
    by (simp_all add: ipv4_init_def sample_layer_def tcp_layer_init_def)
  obtain st ly where c: "tcp_connect sem_ref queue_ref TcbSend.sample_env IpProps.sample_env 1 (sample_snd, sample_rcv, 1460)
      (\<lambda>k. 50000) 9 80 (?st, sample_layer) = Some (Inr (0, st, ly))"
      "tl_tcbs ly \<lparr>local_ip = 0, foreign_ip = 9, local_port = 50000, foreign_port = 80\<rparr> = Some 0"
    using tcp_connect_run [of 1 sem_ref queue_ref TcbSend.sample_env IpProps.sample_env "(sample_snd, sample_rcv, 1460)"
        "\<lambda>k. 50000" 9 80 ?st sample_layer] s by auto
  have "layer_reachable sem_ref queue_ref (?st, sample_layer)"
    unfolding sample_layer_def by (rule layer_reachable.start)
  then have r: "layer_reachable sem_ref queue_ref (st, ly)"
    by (rule layer_reachable.step) (rule layer_step.connected [OF c(1)])
  then have "layer_reachable sem_ref queue_ref (?st, ly)"
    by (rule layer_reachable.step) (rule layer_step.ip_changes)
  then show ?thesis using c r by blast
qed

theorem busy_port_is_drawn_again_witness:
  "\<exists>ly i st' ly'. tcp_connect sem_ref queue_ref TcbSend.sample_env IpProps.sample_env 1 (sample_snd, sample_rcv, 1460)
      (\<lambda>k. 50000) 9 80 (ipv4_init ethernet_address_zero, ly) = Some (Inr (i, st', ly')) \<and>
    tl_tcbs ly' \<lparr>local_ip = 0, foreign_ip = 9, local_port = 50000, foreign_port = 80\<rparr> = Some 0 \<and>
    (\<forall>cid. tl_tcbs ly' cid \<noteq> Some i)"
proof -
  let ?st = "ipv4_init ethernet_address_zero"
  have h: "host_address ?st = 0" by (simp add: ipv4_init_def)
  obtain ly where l: "layer_reachable sem_ref queue_ref (?st, ly)"
      "tl_tcbs ly \<lparr>local_ip = host_address ?st, foreign_ip = 9, local_port = 50000, foreign_port = 80\<rparr> = Some 0"
    using sample_connected h by metis
  show ?thesis
    using busy_port_is_drawn_again [OF _ l(1), of 1 9 "\<lambda>k. 50000" 80 0 TcbSend.sample_env IpProps.sample_env
        "(sample_snd, sample_rcv, 1460)"] l(2) unfolding h by fastforce
qed

subsection \<open>The tables\<close>

text \<open>C16. In every reachable state of the TCP protocol object, whatever segments arrived, addresses
  resolved, timers fired and calls were made: the table leads from an address and port pair to a
  connection with just these addresses and ports; the polling list and the pending continuations
  refer to connections that exist; every connection, in the table or not, has a retransmission
  timeout between one and sixty seconds and a defined window shift, and none is in LISTEN.\<close>

theorem tcp_tables_sound:
  assumes "layer_reachable ops qo (st, ly)"
  shows "(\<forall>cid i. tl_tcbs ly cid = Some i \<longrightarrow> i < tl_next ly \<and> t_id (tl_store ly i) = cid) \<and>
    (\<forall>(i, dst) \<in> set (tl_poll_tcbs ly). i < tl_next ly) \<and> (\<forall>i \<in> set (tl_closing ly). i < tl_next ly) \<and>
    (\<forall>port l. tl_listening ly port = Some l \<longrightarrow> l < tl_next_listener ly) \<and>
    (\<forall>i < tl_next ly. rto_min \<le> t_rto (tl_store ly i) \<and> t_rto (tl_store ly i) \<le> rto_max \<and>
      rcv_window_scale (t_rcv (tl_store ly i)) \<in> {0, 7} \<and> t_state (tl_store ly i) \<noteq> LISTEN)"
proof -
  have "layer_inv ly" using layer_reachable_inv [OF assms] by simp
  then show ?thesis
    by (auto simp: layer_inv_def connections_ok_def refs_ok_def tables_ok_def tcb_inv_def rto_ok_def)
qed

theorem tcp_tables_sound_witness:
  "\<exists>st ly. tcp_connect sem_ref queue_ref TcbSend.sample_env IpProps.sample_env 1 (sample_snd, sample_rcv, 1460)
      (\<lambda>k. 50000) 9 80 (ipv4_init ethernet_address_zero, sample_layer) = Some (Inr (0, st, ly)) \<and>
    t_id (tl_store ly 0) = \<lparr>local_ip = 0, foreign_ip = 9, local_port = 50000, foreign_port = 80\<rparr> \<and>
    t_rto (tl_store ly 0) \<le> rto_max"
proof -
  obtain st ly where c: "tcp_connect sem_ref queue_ref TcbSend.sample_env IpProps.sample_env 1 (sample_snd, sample_rcv, 1460)
      (\<lambda>k. 50000) 9 80 (ipv4_init ethernet_address_zero, sample_layer) = Some (Inr (0, st, ly))"
      "layer_reachable sem_ref queue_ref (st, ly)"
      "tl_tcbs ly \<lparr>local_ip = 0, foreign_ip = 9, local_port = 50000, foreign_port = 80\<rparr> = Some 0"
    using sample_connected by blast
  note T = tcp_tables_sound [OF c(2)]
  have "0 < tl_next ly" "t_id (tl_store ly 0) = \<lparr>local_ip = 0, foreign_ip = 9, local_port = 50000, foreign_port = 80\<rparr>"
    using T c(3) by blast+
  moreover from this(1) have "t_rto (tl_store ly 0) \<le> rto_max" using T by blast
  ultimately show ?thesis using c(1) by blast
qed

subsection \<open>Segments that belong to no connection\<close>





definition sample_syn :: tcp_hdr where
  "sample_syn = \<lparr>src_port = 4000, dst_port = 80, th_seq = make_seq 500, th_ack = make_seq 0, rsvd1 = 0, data_offset = 5,
     f_fin = False, f_syn = True, f_rst = False, f_psh = False, f_ack = False, f_urg = False, rsvd2 = 0,
     th_window = 1000, th_checksum = 0, th_urgent = 0\<rparr>"


subsection \<open>Routing\<close>

lemma to_be_read_be16:
  assumes "be_ok be" "2 \<le> length bs"
  shows "to_be 2 (unat (read_be16 be bs)) = take 2 bs"
proof -
  obtain a b r where bs: "bs = a # b # r"
    using assms(2) by (metis Suc_le_length_iff numeral_2_eq_2)
  have "unat (read_be16 be bs) = be_nat [a, b]"
    using assms be_nat_less [of "[a, b]"] by (simp add: be_ok_def bs unsigned_of_nat take_bit_eq_mod)
  then show ?thesis using to_be_be_nat [of "[a, b]"] by (simp add: bs numeral_2_eq_2)
qed

lemma ip_forward_tcp:
  assumes "off + 40 \<le> length p" "h = ip_hdr_ntoh (ip_hdr_load (take 20 (drop off p)))"
    and "ip_proto h = ip_protocol_code tcp_num" "\<not> ip_mf h" "ip_offset h = 0"
  shows "ip_forward p off = Inr (to_be 4 (unat (ip_src h)) @ to_be 4 (unat (ip_dst h)) @ take 4 (drop (off + 20) p))"
proof -
  let ?raw = "ip_hdr_load (take 20 (drop off p))" and ?q = "drop (off + 20) p"
  have v: "v_get_header p off 20 = Some (take 20 (drop off p))" "v_get_header p (off + 20) 20 = Some (take 20 ?q)"
    using assms(1) by (simp_all add: v_get_header_def slice_def)
  have ip: "store32 (ip_src ?raw) = to_be 4 (unat (ip_src h))" "store32 (ip_dst ?raw) = to_be 4 (unat (ip_dst h))"
    using assms(2) by (simp_all add: ip_hdr_ntoh_def codec [symmetric])
  obtain a b c d r where q: "?q = a # b # c # d # r"
  proof -
    have "Suc (Suc (Suc (Suc 0))) \<le> length ?q" using assms(1) by simp
    then show ?thesis using that unfolding Suc_le_length_iff by blast
  qed
  have fwd: "tcp_forward f p (off + 20) = Inr (f @ [a, b, c, d])" if "length f \<le> 60" for f
    using that unfolding tcp_forward_def v(2) q by (simp add: push_back8_def)
  show ?thesis
    using assms(3-5) unfolding ip_forward_def v(1) Let_def
    by (simp add: assms(2) [symmetric] ip l4_of_def l4_forward_def fwd q)
qed

text \<open>The bytes the device's queues are chosen by agree with the bytes the connection table is
  hashed by: for an unfragmented TCP segment whose IP header has no options, what forwarding
  collects from the frame is what the connection's own hash is taken of, so that a connection
  opened on the core that its hash selects receives its segments on that core. A frame too short
  for the IP header dereferences a null pointer.\<close>

theorem forward_agrees_with_connid:
  assumes "be_ok be" "off + 40 \<le> length p" "h = ip_hdr_ntoh (ip_hdr_load (take 20 (drop off p)))"
    and "ip_proto h = ip_protocol_code tcp_num" "\<not> ip_mf h" "ip_offset h = 0"
    and "th = tcp_hdr_read be (drop (off + 20) p)" "length short < off + 20"
  shows "ip_forward p off = connid_hash_data
      \<lparr>local_ip = ip_dst h, foreign_ip = ip_src h, local_port = dst_port th, foreign_port = src_port th\<rparr> \<and>
    ip_forward short off = Inl NullDeref"
proof -
  have "to_be 2 (unat (src_port th)) = take 2 (drop (off + 20) p)"
      "to_be 2 (unat (dst_port th)) = take 2 (drop 2 (drop (off + 20) p))"
    using assms(1,2,7) to_be_read_be16 by (simp_all add: tcp_hdr_read_def)
  moreover have "take 2 x @ take 2 (drop 2 x) = take 4 x" for x :: bytes
    by (metis add_2_eq_Suc' numeral_Bit0 one_add_one take_add)
  ultimately have "to_be 2 (unat (src_port th)) @ to_be 2 (unat (dst_port th)) = take 4 (drop (off + 20) p)"
    by (simp only:)
  then show ?thesis
    using ip_forward_tcp [OF assms(2-6)] assms(8)
    by (simp add: connid_hash_data_ok) (simp add: ip_forward_def v_get_header_def slice_def)
qed

definition sample_frame :: bytes where
  "sample_frame = ip_hdr_store (ip_hdr_hton (send_header 1 2 tcp_num 40 0)) @ tcp_hdr_write be_ref sample_syn"

theorem forward_agrees_with_connid_witness:
  "ip_forward sample_frame 0 = connid_hash_data \<lparr>local_ip = 2, foreign_ip = 1, local_port = 80, foreign_port = 4000\<rparr>"
proof -
  let ?h = "send_header 1 2 tcp_num 40 0"
  have len: "length (tcp_hdr_write be_ref sample_syn) = 20" using length_tcp_hdr_write [OF be_ok_ref] by simp
  have h: "?h = ip_hdr_ntoh (ip_hdr_load (take 20 (drop 0 sample_frame)))"
  proof -
    have "ip_hdr_load (ip_hdr_store (ip_hdr_hton ?h)) = ip_hdr_hton ?h"
      using load_ip_hdr_store [of "ip_hdr_hton ?h" "[]"] by (simp add: ip_hdr_hton_def) (simp add: send_header_def)
    then show ?thesis by (simp add: sample_frame_def)
  qed
  have th: "sample_syn = tcp_hdr_read be_ref (drop (0 + 20) sample_frame)"
    using tcp_hdr_read_write [OF be_ok_ref, of sample_syn "[]"] by (simp add: sample_frame_def)
  have "ip_proto ?h = ip_protocol_code tcp_num" "\<not> ip_mf ?h" "ip_offset ?h = 0" "ip_src ?h = 1" "ip_dst ?h = 2"
      "dst_port sample_syn = 80" "src_port sample_syn = 4000"
    by (simp_all add: send_header_def ip_mf_def ip_offset_def sample_syn_def)
  then show ?thesis
    using forward_agrees_with_connid [OF be_ok_ref _ h _ _ _ th, of "[]"] len by (simp add: sample_frame_def)
qed

subsection \<open>Listeners\<close>

text \<open>A handshake that began under an earlier listener of a port makes a new listener of that port
  refuse everything: when the handshake completes, the new listener's count of pending handshakes
  goes below zero, which is 2 to the 64 minus 1; after the connection has been accepted the
  listener counts as full, and every segment that is not for an existing connection is answered
  with a reset.\<close>

theorem stale_handshake_blocks_listener:
  assumes "queue_ok qo" "tl_listening ly port = None" "0 < n" "n < 18446744073709551616"
    and "listen qo port n ly = (l, ly1)" "accept qo l (add_connected_tcb qo i port ly1) = (Some j, ly3)"
  shows "tl_listening ly3 port = Some l \<and> listener_full qo (tl_listeners ly3 l) \<and>
    (\<forall>ops e fresh h p cid st. tl_tcbs ly3 cid = None \<longrightarrow> local_port cid = port \<longrightarrow>
      tcp_dispatch ops qo e fresh h p cid (st, ly3) =
        tcp_respond_with_reset ops e h (local_ip cid) (foreign_ip cid) (st, ly3))"
proof -
  let ?q0 = "q_new qo n"
  have q0: "q_size qo ?q0 = 0" "q_max_size qo ?q0 = n" using assms(1) by (simp_all add: queue_ok_def)
  obtain q1 where q1: "q_push qo i ?q0 = (True, q1)" "q_size qo q1 = 1" "q_max_size qo q1 = n"
  proof -
    have "q_push qo i ?q0 = (True, snd (q_push qo i ?q0))" using assms(1,3) q0 unfolding queue_ok_def by metis
    moreover have "q_size qo (snd (q_push qo i ?q0)) = 1" "q_max_size qo (snd (q_push qo i ?q0)) = n"
      using assms(1,3) q0 unfolding queue_ok_def by auto
    ultimately show ?thesis using that by blast
  qed
  obtain d q2 where q2: "q_pop qo q1 = (d, q2)" by fastforce
  then have s2: "q_size qo q2 = 0" "q_max_size qo q2 = n"
    using assms(1) q1(2,3) unfolding queue_ok_def by (metis diff_self_eq_0 snd_conv zero_less_one)+
  have L: "tl_listening ly1 port = Some l" "tl_listeners ly1 l = \<lparr>ls_port = port, ls_q = ?q0, ls_pending = 0\<rparr>"
    using assms(2,5) by (auto simp: listen_def Let_def)
  then have a: "tl_listening (add_connected_tcb qo i port ly1) port = Some l"
      "tl_listeners (add_connected_tcb qo i port ly1) l = \<lparr>ls_port = port, ls_q = q1, ls_pending = - 1\<rparr>"
    using q1(1) by (simp_all add: add_connected_tcb_def Let_def)
  then have r: "tl_listening ly3 port = Some l" "tl_listeners ly3 l = \<lparr>ls_port = port, ls_q = q2, ls_pending = - 1\<rparr>"
    using assms(6) q1(2) q2 by (auto simp: accept_def Let_def)
  then have full: "listener_full qo (tl_listeners ly3 l)"
    using s2 by (simp add: listener_full_def)
  show ?thesis using r(1) full by (simp add: tcp_dispatch_def)
qed

theorem stale_handshake_blocks_listener_witness:
  "\<exists>l ly1 ly3. listen queue_ref 80 10 sample_layer = (l, ly1) \<and>
     accept queue_ref l (add_connected_tcb queue_ref 0 80 ly1) = (Some 0, ly3) \<and> listener_full queue_ref (tl_listeners ly3 l)"
proof -
  obtain l ly1 where l: "listen queue_ref 80 10 sample_layer = (l, ly1)" by fastforce
  then have "\<exists>ly3. accept queue_ref l (add_connected_tcb queue_ref 0 80 ly1) = (Some 0, ly3)"
    by (auto simp: listen_def Let_def sample_layer_def tcp_layer_init_def add_connected_tcb_def queue_ref_def accept_def)
  then obtain ly3 where "accept queue_ref l (add_connected_tcb queue_ref 0 80 ly1) = (Some 0, ly3)" ..
  with stale_handshake_blocks_listener [OF queue_ok_ref _ _ _ l this] l show ?thesis
    by (auto simp: sample_layer_def tcp_layer_init_def)
qed

end
