(* ===== verification/Text.thy ===== *)
theory Text
  imports Prelude
begin

text \<open>
  Character strings. The sources use \<open>sstring\<close>, \<open>std::string\<close> and \<open>std::string_view\<close>, whose searches and
  substrings behave alike; a string is a list of characters here, a position that was not found
  (\<open>npos\<close>) is \<open>None\<close>, and a substring that begins behind the end is the exception \<open>std::out_of_range\<close>,
  which is thrown and not an end of the program: \<open>None\<close> again.
\<close>

subsection \<open>Searching\<close>

text \<open>\<open>find(c, pos)\<close>: the first position from \<open>pos\<close> on that holds the character.\<close>

fun index_of :: "char \<Rightarrow> string \<Rightarrow> nat option" where
  "index_of c [] = None"
| "index_of c (x # xs) = (if x = c then Some 0 else map_option Suc (index_of c xs))"

definition find_char :: "char \<Rightarrow> string \<Rightarrow> nat \<Rightarrow> nat option" where
  "find_char c s pos = map_option (\<lambda>i. pos + i) (index_of c (drop pos s))"

text \<open>\<open>find_last_of(c)\<close>: the last position that holds the character.\<close>

definition find_last_of :: "char \<Rightarrow> string \<Rightarrow> nat option" where
  "find_last_of c s = map_option (\<lambda>i. length s - 1 - i) (index_of c (rev s))"

text \<open>\<open>find(str, pos)\<close>: the first position from \<open>pos\<close> on where the string occurs.\<close>

definition starts_with :: "string \<Rightarrow> string \<Rightarrow> bool" where
  "starts_with p s \<longleftrightarrow> take (length p) s = p"

fun occurs_at :: "string \<Rightarrow> string \<Rightarrow> nat option" where
  "occurs_at p [] = (if p = [] then Some 0 else None)"
| "occurs_at p (x # xs) = (if starts_with p (x # xs) then Some 0 else map_option Suc (occurs_at p xs))"

definition find_str :: "string \<Rightarrow> string \<Rightarrow> nat \<Rightarrow> nat option" where
  "find_str p s pos = (if pos \<le> length s then map_option (\<lambda>i. pos + i) (occurs_at p (drop pos s)) else None)"

text \<open>\<open>substr(pos, len)\<close>.\<close>

definition substr :: "string \<Rightarrow> nat \<Rightarrow> nat \<Rightarrow> string option" where
  "substr s pos len = (if pos \<le> length s then Some (take len (drop pos s)) else None)"

definition substr_from :: "string \<Rightarrow> nat \<Rightarrow> string option" where
  "substr_from s pos = (if pos \<le> length s then Some (drop pos s) else None)"

lemma index_of_None [simp]: "index_of c s = None \<longleftrightarrow> c \<notin> set s"
  by (induction s) auto

lemma index_of_absent [simp]: "c \<notin> set s \<Longrightarrow> index_of c s = None"
  by simp

lemma map_option_plus_0 [simp]: "map_option ((+) (0 :: nat)) x = x"
  by (cases x) simp_all

lemma index_of_append:
  "index_of c (s @ t) =
     (if c \<in> set s then index_of c s else map_option (\<lambda>i. length s + i) (index_of c t))"
  by (induction s) (auto simp: option.map_comp comp_def)

lemma index_of_found: "c \<notin> set s \<Longrightarrow> index_of c (s @ c # t) = Some (length s)"
  by (simp add: index_of_append)

lemma index_of_SomeD:
  assumes "index_of c s = Some i"
  shows "i < length s \<and> s ! i = c \<and> c \<notin> set (take i s)"
  using assms
  by (induction s arbitrary: i) (auto split: if_splits)

lemma starts_with_iff: "starts_with p s \<longleftrightarrow> (\<exists>r. s = p @ r)"
  unfolding starts_with_def by (metis append_take_drop_id append_eq_conv_conj)

lemma occurs_at_0: "occurs_at p s = Some 0 \<longleftrightarrow> starts_with p s"
  by (cases s) (auto simp: starts_with_def)

lemma find_str_here: "find_str p s pos = Some pos \<longleftrightarrow> pos \<le> length s \<and> starts_with p (drop pos s)"
  by (auto simp: find_str_def occurs_at_0 [symmetric])

subsection \<open>Taking strings apart\<close>

text \<open>The pieces between the occurrences of a separator; there is always one.\<close>

fun split_on :: "char \<Rightarrow> string \<Rightarrow> string list" where
  "split_on c [] = [[]]"
| "split_on c (x # xs) =
     (if x = c then [] # split_on c xs
      else (case split_on c xs of [] \<Rightarrow> [[x]] | p # ps \<Rightarrow> (x # p) # ps))"

fun join_with :: "char \<Rightarrow> string list \<Rightarrow> string" where
  "join_with c [] = []"
| "join_with c [p] = p"
| "join_with c (p # q # ps) = p @ c # join_with c (q # ps)"

lemma split_on_not_Nil [simp]: "split_on c s \<noteq> []"
  by (induction s) (auto split: list.split)

lemma split_on_no_sep: "c \<notin> set s \<Longrightarrow> split_on c s = [s]"
  by (induction s) auto

lemma split_on_append: "c \<notin> set s \<Longrightarrow> split_on c (s @ c # t) = s # split_on c t"
  by (induction s) auto

lemma split_join:
  "ps \<noteq> [] \<Longrightarrow> \<forall>p \<in> set ps. c \<notin> set p \<Longrightarrow> split_on c (join_with c ps) = ps"
  by (induction c ps rule: join_with.induct) (simp_all add: split_on_no_sep split_on_append)

end
