(* ===== verification/HttpUrl.thy ===== *)
theory HttpUrl
  imports Text
begin

text \<open>
  The HTTP request and the query part of its URL: \<open>http/request.hh\<close>, and the URL functions of
  \<open>http/httpd.cc\<close>. A header map compares its keys without regard to case; here its keys are in lower
  case.
\<close>

subsection \<open>Requests\<close>

type_synonym string_map = "string \<Rightarrow> string option"

datatype ctclass = Ct_other | Ct_multipart | Ct_app_x_www_urlencoded

record request =
  req_method :: string
  req_url :: string
  req_version :: string
  content_type_class :: ctclass
  content_length :: u64
  req_headers :: string_map
  query_parameters :: string_map
  req_param :: string_map
  req_content :: string
  protocol_name :: string

definition tolower :: "char \<Rightarrow> char" where
  "tolower c = (let n = of_char c :: nat in if 65 \<le> n \<and> n \<le> 90 then char_of (n + 32) else c)"

definition case_insensitive_cmp :: "string \<Rightarrow> string \<Rightarrow> bool" where
  "case_insensitive_cmp s1 s2 \<longleftrightarrow> map tolower s1 = map tolower s2"

definition or_empty :: "string option \<Rightarrow> string" where
  "or_empty v = (case v of None \<Rightarrow> '''' | Some s \<Rightarrow> s)"

definition get_header_field :: "request \<Rightarrow> string \<Rightarrow> string" where
  "get_header_field req name = or_empty (req_headers req (map tolower name))"

definition get_query_param :: "request \<Rightarrow> string \<Rightarrow> string" where
  "get_query_param req name = or_empty (query_parameters req name)"

definition get_url :: "request \<Rightarrow> string" where
  "get_url req = protocol_name req @ ''://'' @ get_header_field req ''Host'' @ req_url req"

definition is_multi_part :: "request \<Rightarrow> bool" where
  "is_multi_part req \<longleftrightarrow> content_type_class req = Ct_multipart"

definition is_form_post :: "request \<Rightarrow> bool" where
  "is_form_post req \<longleftrightarrow> content_type_class req = Ct_app_x_www_urlencoded"

subsection \<open>Percent decoding\<close>

text \<open>A \<open>char\<close> is signed.\<close>

definition char_int :: "char \<Rightarrow> int" where
  "char_int c = (let n = of_char c :: int in if n < 128 then n else n - 256)"

definition hex_to_byte :: "char \<Rightarrow> int" where
  "hex_to_byte c =
     (let n = char_int c
      in if 97 \<le> n \<and> n \<le> 122 then n - 97 + 10 else if 65 \<le> n \<and> n \<le> 90 then n - 65 + 10 else n - 48)"

definition hexstr_to_char :: "string \<Rightarrow> nat \<Rightarrow> char" where
  "hexstr_to_char s from = char_of ((hex_to_byte (s ! from) * 16 + hex_to_byte (s ! (from + 1))) mod 256)"

text \<open>The loop over the input; what has been written to the buffer so far is \<open>out\<close>.\<close>

function url_decode_loop :: "string \<Rightarrow> nat \<Rightarrow> string \<Rightarrow> string option" where
  "url_decode_loop s i out =
     (if i < length s then
        if s ! i = CHR 0x25 then
          if i + 3 \<le> length s then url_decode_loop s (i + 3) (out @ [hexstr_to_char s (i + 1)]) else None
        else url_decode_loop s (i + 1) (out @ [if s ! i = CHR 0x2B then CHR 0x20 else s ! i])
      else Some out)"
  by pat_completeness auto
termination by (relation "measure (\<lambda>(s, i, out). length s - i)") auto

declare url_decode_loop.simps [simp del]

definition url_decode :: "string \<Rightarrow> string option" where
  "url_decode s = url_decode_loop s 0 []"

subsection \<open>Query parameters\<close>

definition add_param :: "string \<Rightarrow> string_map \<Rightarrow> string_map" where
  "add_param p m =
     (case index_of CHR 0x3D p of
        None \<Rightarrow> (case url_decode p of Some k \<Rightarrow> m(k \<mapsto> []) | None \<Rightarrow> m)
      | Some i \<Rightarrow>
          if length p \<le> i + 1 then (case url_decode (take i p) of Some k \<Rightarrow> m(k \<mapsto> []) | None \<Rightarrow> m)
          else (case url_decode (take i p) of
                  None \<Rightarrow> m
                | Some k \<Rightarrow> (case url_decode (drop (i + 1) p) of Some v \<Rightarrow> m(k \<mapsto> v) | None \<Rightarrow> m)))"

function query_loop :: "string \<Rightarrow> nat \<Rightarrow> string_map \<Rightarrow> string_map" where
  "query_loop url cur m =
     (case find_char CHR 0x26 url cur of
        Some e \<Rightarrow> query_loop url (e + 1) (add_param (take (e - cur) (drop cur url)) m)
      | None \<Rightarrow> add_param (drop cur url) m)"
  by pat_completeness auto
termination
  by (relation "measure (\<lambda>(url, cur, m). length url - cur)")
    (auto simp: find_char_def dest!: index_of_SomeD)

declare query_loop.simps [simp del]

definition set_query_param :: "request \<Rightarrow> string \<times> request" where
  "set_query_param req =
     (case index_of CHR 0x3F (req_url req) of
        None \<Rightarrow> (req_url req, req)
      | Some pos \<Rightarrow>
          (take pos (req_url req),
           req\<lparr>query_parameters := query_loop (req_url req) (pos + 1) (query_parameters req)\<rparr>))"

subsection \<open>Decoding is what an encoder expects\<close>

text \<open>The decoder as a reader of the string from the front, and an encoder.\<close>

fun decode_ref :: "string \<Rightarrow> string option" where
  "decode_ref [] = Some []"
| "decode_ref (c # s) =
     (if c = CHR 0x25 then
        (case s of
           a # b # r \<Rightarrow> map_option (Cons (hexstr_to_char [a, b] 0)) (decode_ref r)
         | _ \<Rightarrow> None)
      else map_option (Cons (if c = CHR 0x2B then CHR 0x20 else c)) (decode_ref s))"

definition hexdigit :: "nat \<Rightarrow> char" where
  "hexdigit n = (if n < 10 then char_of (48 + n) else char_of (55 + n))"

text \<open>The characters an encoder must not leave as they are.\<close>

definition reserved :: "char \<Rightarrow> bool" where
  "reserved c \<longleftrightarrow> c \<in> set ''%+&=?'' \<or> c = CHR 0x20"

definition encode_char :: "(char \<Rightarrow> bool) \<Rightarrow> char \<Rightarrow> string" where
  "encode_char esc c =
     (if reserved c \<or> esc c then [CHR 0x25, hexdigit (of_char c div 16), hexdigit (of_char c mod 16)] else [c])"

definition url_encode :: "(char \<Rightarrow> bool) \<Rightarrow> string \<Rightarrow> string" where
  "url_encode esc s = concat (map (encode_char esc) s)"

lemma hexdigit_cases:
  assumes "n < 16"
  shows "hex_to_byte (hexdigit n) = int n" "\<not> reserved (hexdigit n)"
proof -
  have "n \<in> {0, 1, 2, 3, 4, 5, 6, 7, 8, 9, 10, 11, 12, 13, 14, 15}"
    using assms by (simp only: insert_iff empty_iff) arith
  then have "hex_to_byte (hexdigit n) = int n \<and> \<not> reserved (hexdigit n)"
    by (elim insertE emptyE) (simp_all add: hexdigit_def hex_to_byte_def char_int_def reserved_def char_of_def bit_0)
  then show "hex_to_byte (hexdigit n) = int n" "\<not> reserved (hexdigit n)" by simp_all
qed

lemma of_char_less: "(of_char c :: nat) < 256"
  by (metis of_char_of nat_of_char_less_256)

lemma hexstr_encoded:
  "hexstr_to_char [hexdigit (of_char c div 16), hexdigit (of_char c mod 16)] 0 = c"
proof -
  have "(of_char c :: nat) div 16 < 16" using of_char_less [of c] by (simp add: less_mult_imp_div_less)
  then have "hex_to_byte (hexdigit (of_char c div 16)) * 16 + hex_to_byte (hexdigit (of_char c mod 16)) = int (of_char c)"
    by (simp add: hexdigit_cases of_nat_div of_nat_mod)
  then show ?thesis by (simp add: hexstr_to_char_def)
qed

lemma decode_loop_ref:
  "url_decode_loop s i out = map_option (\<lambda>r. out @ r) (decode_ref (drop i s))"
proof (induction s i out rule: url_decode_loop.induct)
  case (1 s i out)
  show ?case
  proof (cases "i < length s")
    case i: True
    then have d: "drop i s = s ! i # drop (Suc i) s" by (simp add: Cons_nth_drop_Suc)
    show ?thesis
    proof (cases "s ! i = CHR 0x25")
      case pc: True
      show ?thesis
      proof (cases "i + 3 \<le> length s")
        case True
        then have "drop (Suc i) s = s ! Suc i # s ! Suc (Suc i) # drop (i + 3) s"
          by (simp add: Cons_nth_drop_Suc numeral_3_eq_3)
        moreover have "hexstr_to_char [s ! Suc i, s ! Suc (Suc i)] 0 = hexstr_to_char s (i + 1)"
          by (simp add: hexstr_to_char_def)
        ultimately show ?thesis
          using 1(1) [OF i pc True] True i pc d
          by (simp add: url_decode_loop.simps [of s i] option.map_comp comp_def)
      next
        case False
        then have "length (drop (Suc i) s) < 2" by simp
        then have "drop (Suc i) s = [] \<or> (\<exists>a. drop (Suc i) s = [a])"
          by (cases "drop (Suc i) s"; cases "List.tl (drop (Suc i) s)") simp_all
        then have "decode_ref (drop i s) = None" using d pc by auto
        then show ?thesis using False i pc by (simp add: url_decode_loop.simps [of s i])
      qed
    next
      case False
      show ?thesis
        using 1(2) [OF i False] i False d
        by (simp add: url_decode_loop.simps [of s i] option.map_comp comp_def)
    qed
  qed (simp add: url_decode_loop.simps [of s i])
qed

lemma decode_ref_step:
  "decode_ref (CHR 0x25 # a # b # s) = map_option (Cons (hexstr_to_char [a, b] 0)) (decode_ref s)"
  "decode_ref [CHR 0x25] = None" "decode_ref [CHR 0x25, a] = None"
  "c \<noteq> CHR 0x25 \<Longrightarrow> decode_ref (c # s) = map_option (Cons (if c = CHR 0x2B then CHR 0x20 else c)) (decode_ref s)"
  by simp_all

lemma decode_ref_cases:
  obtains "s = []" | a b r where "s = CHR 0x25 # a # b # r" | "s = [CHR 0x25]" | a where "s = [CHR 0x25, a]"
    | c r where "s = c # r" "c \<noteq> CHR 0x25"
  by (metis list.exhaust)

declare decode_ref.simps(2) [simp del] decode_ref_step [simp]

lemma decode_ref_rest:
  assumes "P []" "\<And>a b s. P s \<Longrightarrow> P (CHR 0x25 # a # b # s)" "P [CHR 0x25]" "\<And>a. P [CHR 0x25, a]"
    and "\<And>c s. c \<noteq> CHR 0x25 \<Longrightarrow> P s \<Longrightarrow> P (c # s)"
  shows "P s"
proof (induction s rule: length_induct)
  case (1 s)
  then have ih: "P r" if "length r < length s" for r using that by blast
  show ?case by (cases s rule: decode_ref_cases) (use ih assms in auto)
qed

lemma decode_ref_length: "decode_ref s = Some r \<Longrightarrow> length r \<le> length s"
  by (induction s arbitrary: r rule: decode_ref_rest) fastforce+

lemma decode_ref_None: "decode_ref s = None \<Longrightarrow> CHR 0x25 \<in> set s"
  by (induction s rule: decode_ref_rest) auto

lemma decode_ref_encode_char: "decode_ref (encode_char esc c @ s) = map_option (Cons c) (decode_ref s)"
  by (auto simp: encode_char_def hexstr_encoded reserved_def)

lemma decode_ref_encode: "decode_ref (url_encode esc s) = Some s"
  by (induction s) (simp_all add: url_encode_def decode_ref_encode_char)

text \<open>Decoding a URL is total and undoes every encoding: the index loop computes what reading the
  string from the front gives, and never more than the room set aside for it; a string that was
  encoded, with any choice of the characters to escape beyond the reserved ones, decodes to the
  original; and the only strings refused are those in which an escape is cut off.\<close>

theorem url_decode_inverts_encode:
  "url_decode (url_encode esc s) = Some s \<and> url_decode t = decode_ref t \<and>
    (case url_decode t of Some r \<Rightarrow> length r \<le> length t | None \<Rightarrow> CHR 0x25 \<in> set t)"
proof -
  have u: "url_decode x = decode_ref x" for x
    by (simp add: url_decode_def decode_loop_ref option.map_ident)
  then show ?thesis using decode_ref_encode decode_ref_length decode_ref_None by (simp split: option.split)
qed

subsection \<open>Query strings\<close>

definition query_string :: "(char \<Rightarrow> bool) \<Rightarrow> (string \<times> string) list \<Rightarrow> string" where
  "query_string esc kvs =
     join_with CHR 0x26 (map (\<lambda>(k, v). url_encode esc k @ CHR 0x3D # url_encode esc v) kvs)"

lemma encode_not_reserved:
  assumes "c \<in> set (url_encode esc s)" "reserved c"
  shows "c = CHR 0x25"
proof -
  obtain d where d: "c \<in> set (encode_char esc d)" using assms(1) by (auto simp: url_encode_def)
  have h: "(of_char d :: nat) div 16 < 16" "(of_char d :: nat) mod 16 < 16"
    using of_char_less [of d] by (simp_all add: less_mult_imp_div_less)
  show ?thesis using d assms(2) hexdigit_cases(2) [OF h(1)] hexdigit_cases(2) [OF h(2)]
    by (auto simp: encode_char_def split: if_splits)
qed

lemma encode_no_sep: "CHR 0x3D \<notin> set (url_encode esc s)" "CHR 0x26 \<notin> set (url_encode esc s)"
  using encode_not_reserved [of _ esc s] by (fastforce simp: reserved_def)+

lemma url_decode_ref: "url_decode s = decode_ref s"
  by (simp add: url_decode_def decode_loop_ref option.map_ident)

lemma add_param_encoded: "add_param (url_encode esc k @ CHR 0x3D # url_encode esc v) m = m(k \<mapsto> v)"
proof -
  have "index_of CHR 0x3D (url_encode esc k @ CHR 0x3D # url_encode esc v) = Some (length (url_encode esc k))"
    using encode_no_sep by (intro index_of_found)
  moreover have "v = []" if "url_encode esc v = []"
    using that decode_ref_encode [of esc v] by simp
  ultimately show ?thesis by (auto simp: add_param_def url_decode_ref decode_ref_encode)
qed

lemma query_loop_fold:
  "cur \<le> length url \<Longrightarrow> query_loop url cur m = fold add_param (split_on CHR 0x26 (drop cur url)) m"
proof (induction url cur m rule: query_loop.induct)
  case (1 url cur m)
  show ?case
  proof (cases "index_of CHR 0x26 (drop cur url)")
    case None
    then show ?thesis by (simp add: query_loop.simps [of url cur] find_char_def split_on_no_sep)
  next
    case (Some i)
    then have f: "find_char CHR 0x26 url cur = Some (cur + i)" by (simp add: find_char_def)
    have i: "i < length (drop cur url)" "drop cur url ! i = CHR 0x26" "CHR 0x26 \<notin> set (take i (drop cur url))"
      using index_of_SomeD [OF Some] by auto
    then have "split_on CHR 0x26 (drop cur url) = take i (drop cur url) # split_on CHR 0x26 (drop (cur + i + 1) url)"
      using split_on_append [OF i(3), of "drop (Suc i) (drop cur url)"] id_take_nth_drop [OF i(1)]
      by (simp add: add.commute)
    then show ?thesis using 1(1) [OF f] f i(1) by (simp add: query_loop.simps [of url cur])
  qed
qed

lemma fold_updates: "fold (\<lambda>(k, v) m. m(k \<mapsto> v)) kvs m = m ++ map_of (rev kvs)"
  by (induction kvs arbitrary: m) (auto simp: map_add_assoc [symmetric] map_add_def fun_eq_iff split: option.split)

text \<open>A query string is read back: for a URL made of a path and the encoded names and values of
  the parameters, setting the query parameters returns the path and enters every name with its
  value, the last one when a name occurs twice; a URL without a question mark is left alone.\<close>

theorem query_parameters_round_trip:
  assumes "CHR 0x3F \<notin> set path" "kvs \<noteq> []"
  shows "set_query_param (req\<lparr>req_url := path @ CHR 0x3F # query_string esc kvs\<rparr>) =
      (path, req\<lparr>req_url := path @ CHR 0x3F # query_string esc kvs,
         query_parameters := query_parameters req ++ map_of (rev kvs)\<rparr>) \<and>
    set_query_param (req\<lparr>req_url := path\<rparr>) = (path, req\<lparr>req_url := path\<rparr>)"
proof -
  let ?url = "path @ CHR 0x3F # query_string esc kvs" and ?ps = "map (\<lambda>(k, v). url_encode esc k @ CHR 0x3D # url_encode esc v) kvs"
  have "split_on CHR 0x26 (query_string esc kvs) = ?ps"
    unfolding query_string_def by (rule split_join) (use assms(2) encode_no_sep in \<open>auto simp: reserved_def\<close>)
  moreover have "fold add_param ?ps m = fold (\<lambda>(k, v) m. m(k \<mapsto> v)) kvs m" for m
    by (induction kvs arbitrary: m) (auto simp: add_param_encoded)
  ultimately have "query_loop ?url (length path + 1) m = m ++ map_of (rev kvs)" for m
    by (simp add: query_loop_fold fold_updates)
  then show ?thesis using assms(1) by (simp add: set_query_param_def index_of_found)
qed

definition sample_get :: request where
  "sample_get = \<lparr>req_method = ''GET'', req_url = [], req_version = ''1.1'', content_type_class = Ct_other,
     content_length = 0, req_headers = Map.empty, query_parameters = Map.empty, req_param = Map.empty,
     req_content = [], protocol_name = ''http''\<rparr>"

theorem query_parameters_round_trip_witness:
  "fst (set_query_param (sample_get\<lparr>req_url := ''/a?x=1%2B2&y=b''\<rparr>)) = ''/a'' \<and>
   query_parameters (snd (set_query_param (sample_get\<lparr>req_url := ''/a?x=1%2B2&y=b''\<rparr>))) ''x'' = Some ''1+2''"
proof -
  have "''/a?x=1%2B2&y=b'' = ''/a'' @ CHR 0x3F # query_string (\<lambda>c. False) [(''x'', ''1+2''), (''y'', ''b'')]"
    by (simp add: query_string_def url_encode_def encode_char_def reserved_def hexdigit_def char_of_def bit_0)
  then show ?thesis
    using query_parameters_round_trip [of "''/a''" "[(''x'', ''1+2''), (''y'', ''b'')]" "\<lambda>c. False" sample_get]
    by (simp add: sample_get_def)
qed

end
