(* ===== verification/HttpMatch.thy ===== *)
theory HttpMatch
  imports Text HttpUrl
begin

text \<open>
  Matching a URL against a rule: \<open>http/matcher.hh\<close>, \<open>http/matcher.cc\<close> and \<open>http/matchrules.hh\<close>. A matcher
  gets the URL and a position and returns the end of what it matched, or nothing, with the
  parameters it has set; \<open>None\<close> of the outer option is an exception thrown by \<open>substr\<close>.
\<close>

subsection \<open>Matchers\<close>

datatype matcher = Param_matcher string bool | Str_matcher string

definition find_end_param :: "string \<Rightarrow> nat \<Rightarrow> bool \<Rightarrow> nat" where
  "find_end_param url ind entire_path =
     (if entire_path then length url
      else case find_char CHR 0x2F url (ind + 1) of None \<Rightarrow> length url | Some pos \<Rightarrow> pos)"

definition param_match :: "string \<Rightarrow> bool \<Rightarrow> string \<Rightarrow> nat \<Rightarrow> string_map \<Rightarrow> (nat option \<times> string_map) option" where
  "param_match name entire_path url ind param =
     (let last = find_end_param url ind entire_path
      in if last = ind then
           (if entire_path then Some (Some ind, param(name \<mapsto> [])) else Some (None, param))
         else map_option (\<lambda>v. (Some last, param(name \<mapsto> v))) (substr url ind (last - ind)))"

definition str_match :: "string \<Rightarrow> string \<Rightarrow> nat \<Rightarrow> string_map \<Rightarrow> (nat option \<times> string_map) option" where
  "str_match cmp url ind param =
     (if length cmp + ind \<le> length url \<and> find_str cmp url ind = Some ind \<and>
         (length url = length cmp + ind \<or> url ! (length cmp + ind) = CHR 0x2F)
      then Some (Some (length cmp + ind), param) else Some (None, param))"

definition matcher_match :: "matcher \<Rightarrow> string \<Rightarrow> nat \<Rightarrow> string_map \<Rightarrow> (nat option \<times> string_map) option" where
  "matcher_match m = (case m of Param_matcher name entire \<Rightarrow> param_match name entire | Str_matcher cmp \<Rightarrow> str_match cmp)"

subsection \<open>Rules\<close>

text \<open>A handler is named by a number.\<close>

record match_rule =
  match_list :: "matcher list"
  rule_handler :: nat

definition match_rule_new :: "nat \<Rightarrow> match_rule" where
  "match_rule_new handler = \<lparr>match_list = [], rule_handler = handler\<rparr>"

definition add_matcher :: "matcher \<Rightarrow> match_rule \<Rightarrow> match_rule" where
  "add_matcher m r = r\<lparr>match_list := match_list r @ [m]\<rparr>"

definition add_str :: "string \<Rightarrow> match_rule \<Rightarrow> match_rule" where
  "add_str str r = add_matcher (Str_matcher str) r"

definition rule_add_param :: "string \<Rightarrow> bool \<Rightarrow> match_rule \<Rightarrow> match_rule" where
  "rule_add_param str fullpath r = add_matcher (Param_matcher str fullpath) r"

text \<open>The loop of \<open>match_rule::get\<close> over the matchers.\<close>

fun match_loop :: "matcher list \<Rightarrow> string \<Rightarrow> nat \<Rightarrow> string_map \<Rightarrow> (nat option \<times> string_map) option" where
  "match_loop [] url ind params = Some (Some ind, params)"
| "match_loop (m # ms) url ind params =
     (case matcher_match m url ind params of
        None \<Rightarrow> None
      | Some (None, ps) \<Rightarrow> Some (None, ps)
      | Some (Some ind', ps) \<Rightarrow> match_loop ms url ind' ps)"

definition rule_get :: "match_rule \<Rightarrow> string \<Rightarrow> string_map \<Rightarrow> (nat option \<times> string_map) option" where
  "rule_get r url params =
     (if match_list r = [] then Some (Some (rule_handler r), params)
      else case match_loop (match_list r) url 0 params of
             None \<Rightarrow> None
           | Some (None, ps) \<Rightarrow> Some (None, ps)
           | Some (Some ind, ps) \<Rightarrow> Some (if length url \<le> ind + 1 then Some (rule_handler r) else None, ps))"

subsection \<open>What a rule matches\<close>

text \<open>The end of a URL component: nothing more, or a slash.\<close>

definition at_boundary :: "string \<Rightarrow> bool" where
  "at_boundary s \<longleftrightarrow> s = [] \<or> hd s = CHR 0x2F"

text \<open>How a list of matchers takes a string apart: fixed strings and whole components; the
  parameters are listed in the order in which they are set. What is left is at most one character.\<close>

inductive takes_apart :: "matcher list \<Rightarrow> string \<Rightarrow> (string \<times> string) list \<Rightarrow> bool" where
  at_end: "length rest \<le> 1 \<Longrightarrow> takes_apart [] rest []"
| fixed: "at_boundary rest \<Longrightarrow> takes_apart ms rest kvs \<Longrightarrow> takes_apart (Str_matcher s # ms) (s @ rest) kvs"
| component: "at_boundary rest \<Longrightarrow> CHR 0x2F \<notin> set v \<Longrightarrow> takes_apart ms rest kvs \<Longrightarrow>
    takes_apart (Param_matcher name False # ms) (c # v @ rest) ((name, c # v) # kvs)"
| remainder: "takes_apart ms [] kvs \<Longrightarrow> takes_apart (Param_matcher name True # ms) v ((name, v) # kvs)"

inductive_cases takes_apart_NilE: "takes_apart [] s kvs"
inductive_cases takes_apart_StrE: "takes_apart (Str_matcher p # ms) s kvs"
inductive_cases takes_apart_ParamE: "takes_apart (Param_matcher name False # ms) s kvs"
inductive_cases takes_apart_RestE: "takes_apart (Param_matcher name True # ms) s kvs"

lemma matcher_match_ok:
  assumes "ind \<le> length url"
  shows "matcher_match m url ind ps \<noteq> None \<and>
    (\<forall>i ps'. matcher_match m url ind ps = Some (Some i, ps') \<longrightarrow> ind \<le> i \<and> i \<le> length url)"
proof -
  have f: "ind \<le> find_end_param url ind b \<and> find_end_param url ind b \<le> length url" for b
    using assms index_of_SomeD [of "CHR 0x2F" "drop (Suc ind) url"]
    by (fastforce simp: find_end_param_def find_char_def split: option.split)
  show ?thesis
    using assms f
    by (cases m) (auto simp: matcher_match_def param_match_def str_match_def substr_def Let_def)
qed

lemma str_match_eq:
  assumes "ind \<le> length url"
  shows "str_match cmp url ind ps =
    (if \<exists>rest. drop ind url = cmp @ rest \<and> at_boundary rest then Some (Some (ind + length cmp), ps) else Some (None, ps))"
proof -
  have n: "length cmp + ind \<le> length url \<and> (length url = length cmp + ind \<or> url ! (length cmp + ind) = CHR 0x2F) \<longleftrightarrow>
      at_boundary rest" if "drop ind url = cmp @ rest" for rest
  proof -
    have "length url - ind = length cmp + length rest" using that by (metis length_append length_drop)
    then have "length url = length cmp + ind + length rest" using assms by simp
    moreover have "rest \<noteq> [] \<Longrightarrow> url ! (length cmp + ind) = hd rest"
      using that assms by (metis add.commute hd_conv_nth nth_append_length_plus nth_drop plus_nat.add_0)
    ultimately show ?thesis using assms by (cases rest) (simp_all add: at_boundary_def)
  qed
  show ?thesis
    using n assms by (auto simp: str_match_def find_str_here starts_with_iff)
qed

lemma split_at_slash: "\<exists>v rest. s = v @ rest \<and> CHR 0x2F \<notin> set v \<and> at_boundary rest"
proof (induction s)
  case (Cons c s)
  then obtain v rest where "s = v @ rest" "CHR 0x2F \<notin> set v" "at_boundary rest" by blast
  then show ?case
    by (cases "c = CHR 0x2F") (rule exI [of _ "[]"], simp add: at_boundary_def, rule exI [of _ "c # v"], simp)
qed (simp add: at_boundary_def)

lemma component_end:
  assumes "drop ind url = c # v @ rest" "CHR 0x2F \<notin> set v" "at_boundary rest"
  shows "find_end_param url ind False = ind + length (c # v)"
proof -
  have d: "drop (Suc ind) url = v @ rest" using assms(1) by (metis drop_Suc List.tl_drop list.sel(3))
  have l: "length url - ind = 1 + length v + length rest" using assms(1) by (metis length_append length_drop length_Cons plus_1_eq_Suc add_Suc)
  show ?thesis
  proof (cases rest)
    case Nil
    then show ?thesis using d l assms(2) by (simp add: find_end_param_def find_char_def)
  next
    case (Cons x xs)
    then show ?thesis using d assms(2,3) by (simp add: find_end_param_def find_char_def index_of_found at_boundary_def)
  qed
qed

lemma param_match_eq:
  assumes "ind \<le> length url" "drop ind url = c # v @ rest" "CHR 0x2F \<notin> set v" "at_boundary rest"
  shows "param_match name False url ind ps = Some (Some (ind + length (c # v)), ps(name \<mapsto> c # v))"
  using assms component_end [OF assms(2-4)] by (simp add: param_match_def substr_def)

lemma rest_match_eq:
  "ind \<le> length url \<Longrightarrow> param_match name True url ind ps = Some (Some (length url), ps(name \<mapsto> drop ind url))"
  by (auto simp: param_match_def find_end_param_def substr_def Let_def)

lemma map_upd_add: "ps(k \<mapsto> v) ++ map_of (rev kvs) = ps ++ map_of (rev ((k, v) # kvs))"
  by (simp add: map_add_assoc [symmetric] map_add_upd_left)

lemma match_loop_sound:
  "takes_apart ms s kvs \<Longrightarrow> ind \<le> length url \<Longrightarrow> drop ind url = s \<Longrightarrow>
    \<exists>i. match_loop ms url ind ps = Some (Some i, ps ++ map_of (rev kvs)) \<and> length url \<le> i + 1"
proof (induction arbitrary: ind ps rule: takes_apart.induct)
  case (at_end rest)
  then have "length url - ind \<le> 1" by (metis length_drop)
  then show ?case by simp
next
  case (fixed rest ms kvs s)
  have "drop (ind + length s) url = rest" "ind + length s \<le> length url"
    using fixed.prems by (metis append_eq_conv_conj drop_drop add.commute, metis le_add1 le_diff_conv2 length_append length_drop add.commute)
  from fixed.IH [OF this(2,1)] show ?case
    using fixed str_match_eq [OF fixed.prems(1), of s] by (auto simp: matcher_match_def)
next
  case (component rest v ms kvs name c)
  have "drop (ind + length (c # v)) url = rest" "ind + length (c # v) \<le> length url"
    using component.prems
    by (metis append_Cons append_eq_conv_conj drop_drop add.commute,
        metis append_Cons le_add1 le_diff_conv2 length_append length_drop add.commute)
  from component.IH [OF this(2,1), of "ps(name \<mapsto> c # v)", unfolded map_upd_add] show ?case
    using param_match_eq [OF component.prems component.hyps(2,1)]
    by (simp add: matcher_match_def del: map_of.simps rev.simps length_Cons fun_upd_apply)
next
  case (remainder ms kvs name v)
  from remainder.IH [of "length url" "ps(name \<mapsto> v)", unfolded map_upd_add] show ?case
    using rest_match_eq [OF remainder.prems(1)] remainder.prems(2)
    by (simp add: matcher_match_def del: map_of.simps rev.simps fun_upd_apply)
qed

lemma match_loop_complete:
  "match_loop ms url ind ps = Some (Some i, ps') \<Longrightarrow> length url \<le> i + 1 \<Longrightarrow> ind \<le> length url \<Longrightarrow>
    \<exists>kvs. takes_apart ms (drop ind url) kvs \<and> ps' = ps ++ map_of (rev kvs)"
proof (induction ms arbitrary: ind ps)
  case Nil
  then show ?case by (intro exI [of _ "[]"]) (auto intro: takes_apart.at_end)
next
  case (Cons m ms)
  obtain j ps1 where j: "matcher_match m url ind ps = Some (Some j, ps1)" "match_loop ms url j ps1 = Some (Some i, ps')"
    using Cons.prems(1) by (auto split: option.splits prod.splits)
  have le: "j \<le> length url" using matcher_match_ok [OF Cons.prems(3)] j(1) by blast
  obtain kvs where k: "takes_apart ms (drop j url) kvs" "ps' = ps1 ++ map_of (rev kvs)"
    using Cons.IH [OF j(2) Cons.prems(2) le] by blast
  show ?case
  proof (cases m)
    case (Str_matcher s)
    then obtain rest where r: "drop ind url = s @ rest" "at_boundary rest" "j = ind + length s" "ps1 = ps"
      using j(1) str_match_eq [OF Cons.prems(3), of s ps] by (auto simp: matcher_match_def split: if_splits)
    then have "drop j url = rest" by (metis append_eq_conv_conj drop_drop add.commute)
    then show ?thesis using takes_apart.fixed [OF r(2)] k r Str_matcher by auto
  next
    case (Param_matcher name b)
    show ?thesis
    proof (cases b)
      case True
      then have "j = length url" "ps1 = ps(name \<mapsto> drop ind url)"
        using j(1) rest_match_eq [OF Cons.prems(3)] Param_matcher by (auto simp: matcher_match_def)
      then show ?thesis using k takes_apart.remainder [of ms kvs name "drop ind url"] Param_matcher True map_upd_add
        by auto
    next
      case False
      show ?thesis
      proof (cases "drop ind url")
        case Nil
        then have "find_end_param url ind False = ind"
          using Cons.prems(3) by (simp add: find_end_param_def find_char_def)
        then show ?thesis using j(1) Param_matcher False by (simp add: matcher_match_def param_match_def)
      next
        case (Cons c s)
        obtain v rest where v: "s = v @ rest" "CHR 0x2F \<notin> set v" "at_boundary rest" using split_at_slash by blast
        then have d: "drop ind url = c # v @ rest" using Cons by simp
        have "j = ind + length (c # v)" "ps1 = ps(name \<mapsto> c # v)"
          using j(1) param_match_eq [OF Cons.prems(3) d v(2,3)] Param_matcher False by (auto simp: matcher_match_def)
        then have "drop j url = rest" "ps' = ps ++ map_of (rev ((name, c # v) # kvs))"
          using d k(2) map_upd_add by (metis append_Cons append_eq_conv_conj drop_drop add.commute, simp only:)
        then show ?thesis using takes_apart.component [OF v(3,2), of ms kvs name c] k(1) d Param_matcher False by auto
      qed
    qed
  qed
qed

lemma match_loop_total:
  "ind \<le> length url \<Longrightarrow> \<exists>x ps'. match_loop ms url ind ps = Some (x, ps')"
proof (induction ms arbitrary: ind ps)
  case (Cons m ms)
  obtain x ps1 where "matcher_match m url ind ps = Some (x, ps1)"
    using matcher_match_ok [OF Cons.prems, of m ps] by fastforce
  then show ?case
    using Cons.IH matcher_match_ok [OF Cons.prems, of m ps] by (cases x) auto
qed simp

text \<open>A rule matches exactly the URLs that its matchers take apart: fixed strings that end at a slash
  or at the end, parameters that are whole components with their leading slash or the rest of the
  URL, and at most one character after that. The parameters are then those of this reading, and no
  URL makes the search throw. A rule without matchers matches everything.\<close>

lemma rule_get_eq:
  "if match_list r = [] then rule_get r url ps = Some (Some (rule_handler r), ps)
   else (\<exists>x ps'. rule_get r url ps = Some (x, ps') \<and> x \<in> {None, Some (rule_handler r)}) \<and>
     (\<forall>ps'. rule_get r url ps = Some (Some (rule_handler r), ps') \<longleftrightarrow>
       (\<exists>kvs. takes_apart (match_list r) url kvs \<and> ps' = ps ++ map_of (rev kvs)))"
proof (cases "match_list r = []")
  case False
  obtain x ps1 where x: "match_loop (match_list r) url 0 ps = Some (x, ps1)"
    using match_loop_total [of 0 url] by fastforce
  have iff: "(\<exists>i. x = Some i \<and> length url \<le> i + 1 \<and> ps' = ps1) \<longleftrightarrow>
      (\<exists>kvs. takes_apart (match_list r) url kvs \<and> ps' = ps ++ map_of (rev kvs))" for ps'
    using match_loop_complete [of "match_list r" url 0 ps _ ps'] match_loop_sound [of "match_list r" url _ 0 url ps] x
    by fastforce
  show ?thesis unfolding iff [symmetric] using False x by (cases x) (auto simp: rule_get_def)
qed (simp add: rule_get_def)

end
