(* ===== verification/Json.thy ===== *)
theory Json
  imports Text
begin

text \<open>
  The JSON printer: \<open>json/formatter.hh\<close>, \<open>json/formatter.cc\<close>, \<open>json/json_elements.hh\<close> and
  \<open>json/json_elements.cc\<close>. Values are what the formatter's overloads take; an object is the list of
  its registered elements. Floating point numbers and dates, which the C library prints, are left
  out. An output stream is the text written to it.
\<close>

subsection \<open>Values\<close>

datatype jvalue =
    V_str string
  | V_int int
  | V_bool bool
  | V_vec "jvalue list"
  | V_map "(jvalue \<times> jvalue) list"
  | V_pairs "(jvalue \<times> jvalue) list"
  | V_obj "(string \<times> bool \<times> bool \<times> jvalue) list"

text \<open>\<open>V_map\<close> is a map of any key type, in the order of its iterators, and \<open>V_pairs\<close> a vector of pairs.
  An element of an object: its name, whether it is mandatory, whether it is set, and its value.\<close>

type_synonym element = "string \<times> bool \<times> bool \<times> jvalue"

definition element_new :: "jvalue \<Rightarrow> element" where
  "element_new v = ([], False, False, v)"

definition element_assign :: "jvalue \<Rightarrow> element \<Rightarrow> element" where
  "element_assign v el = (case el of (name, mandatory, is_set, old) \<Rightarrow> (name, mandatory, True, v))"

definition element_is_verify :: "element \<Rightarrow> bool" where
  "element_is_verify el = (case el of (name, mandatory, is_set, v) \<Rightarrow> \<not> (mandatory \<and> \<not> is_set))"

definition json_list_push :: "jvalue \<Rightarrow> element \<Rightarrow> element" where
  "json_list_push x el =
     (case el of (name, mandatory, is_set, v) \<Rightarrow>
        (name, mandatory, True, case v of V_vec xs \<Rightarrow> V_vec (xs @ [x]) | _ \<Rightarrow> V_vec [x]))"

definition json_base_add :: "element \<Rightarrow> string \<Rightarrow> bool \<Rightarrow> element list \<Rightarrow> element list" where
  "json_base_add el name mandatory els = (case el of (n, m, is_set, v) \<Rightarrow> els @ [(name, mandatory, is_set, v)])"

definition json_base_is_verify :: "element list \<Rightarrow> bool" where
  "json_base_is_verify els \<longleftrightarrow> list_all element_is_verify els"

subsection \<open>Printing to a string\<close>

fun show_nat :: "nat \<Rightarrow> string" where
  "show_nat n = (if n < 10 then [char_of (48 + n)] else show_nat (n div 10) @ [char_of (48 + n mod 10)])"

declare show_nat.simps [simp del]

definition show_int :: "int \<Rightarrow> string" where
  "show_int i = (if i < 0 then CHR 0x2D # show_nat (nat (- i)) else show_nat (nat i))"

text \<open>A string goes through \<open>c_str\<close>: it ends at the first zero character.\<close>

definition c_str :: "string \<Rightarrow> string" where
  "c_str s = takeWhile (\<lambda>c. c \<noteq> CHR 0x00) s"

definition to_json_str :: "string \<Rightarrow> string" where
  "to_json_str s = CHR 0x22 # c_str s @ [CHR 0x22]"

datatype fmt_state = Fmt_array | Fmt_map

definition fmt_begin :: "fmt_state \<Rightarrow> string" where
  "fmt_begin s = (case s of Fmt_array \<Rightarrow> ''['' | Fmt_map \<Rightarrow> ''{'')"

definition fmt_end :: "fmt_state \<Rightarrow> string" where
  "fmt_end s = (case s of Fmt_array \<Rightarrow> '']'' | Fmt_map \<Rightarrow> ''}'')"

text \<open>The loop over a range: a comma before every item but the first.\<close>

fun fmt_items :: "nat \<Rightarrow> string list \<Rightarrow> string" where
  "fmt_items n [] = []"
| "fmt_items n (x # xs) = (if n \<noteq> 0 then '','' else []) @ x @ fmt_items (Suc n) xs"

definition fmt_range :: "fmt_state \<Rightarrow> string list \<Rightarrow> string" where
  "fmt_range s xs = fmt_begin s @ fmt_items 0 xs @ fmt_end s"

record json_builder =
  jb_result :: string
  jb_first :: bool

definition json_builder_init :: json_builder where
  "json_builder_init = \<lparr>jb_result = ''{'', jb_first = True\<rparr>"

definition builder_add :: "string \<Rightarrow> string \<Rightarrow> json_builder \<Rightarrow> json_builder" where
  "builder_add name str b =
     \<lparr>jb_result = jb_result b @ (if jb_first b then [] else '', '') @ CHR 0x22 # name @ [CHR 0x22] @ '': '' @ str,
      jb_first = False\<rparr>"

definition builder_add_element :: "string \<times> bool \<times> bool \<times> string \<Rightarrow> json_builder \<Rightarrow> json_builder" where
  "builder_add_element el b = (case el of (name, mandatory, is_set, str) \<Rightarrow> if \<not> is_set then b else builder_add name str b)"

definition as_json :: "json_builder \<Rightarrow> string" where
  "as_json b = jb_result b @ ''}''"

definition base_to_json :: "(string \<times> bool \<times> bool \<times> string) list \<Rightarrow> string" where
  "base_to_json els = as_json (fold builder_add_element els json_builder_init)"

fun to_json :: "jvalue \<Rightarrow> string" where
  "to_json (V_str s) = to_json_str s"
| "to_json (V_int i) = show_int i"
| "to_json (V_bool b) = (if b then ''true'' else ''false'')"
| "to_json (V_vec vs) = fmt_range Fmt_array (map to_json vs)"
| "to_json (V_map kvs) = fmt_range Fmt_map (map (\<lambda>(k, v). to_json k @ '':'' @ to_json v) kvs)"
| "to_json (V_pairs kvs) = fmt_range Fmt_array (map (\<lambda>(k, v). ''{'' @ (to_json k @ '':'' @ to_json v) @ ''}'') kvs)"
| "to_json (V_obj els) = base_to_json (map (\<lambda>(n, m, is_set, v). (n, m, is_set, to_json v)) els)"

subsection \<open>Printing to a stream\<close>

record json_stream_builder =
  js_first :: bool
  js_open :: bool
  js_out :: string

definition stream_builder_init :: json_stream_builder where
  "stream_builder_init = \<lparr>js_first = True, js_open = False, js_out = []\<rparr>"

text \<open>\<open>add\<close> writes the opening brace when it is first called, then calls itself.\<close>

definition stream_add_open :: "string \<Rightarrow> string \<Rightarrow> json_stream_builder \<Rightarrow> json_stream_builder" where
  "stream_add_open name text b =
     b\<lparr>js_out := js_out b @ (if js_first b then CHR 0x22 # name else CHR 0x2C # CHR 0x22 # name) @ [CHR 0x22, CHR 0x3A] @ text,
       js_first := False\<rparr>"

definition stream_add :: "string \<Rightarrow> string \<Rightarrow> json_stream_builder \<Rightarrow> json_stream_builder" where
  "stream_add name text b =
     (if \<not> js_open b then stream_add_open name text (b\<lparr>js_open := True, js_out := js_out b @ ''{''\<rparr>)
      else stream_add_open name text b)"

definition stream_add_element :: "string \<times> bool \<times> bool \<times> string \<Rightarrow> json_stream_builder \<Rightarrow> json_stream_builder" where
  "stream_add_element el b = (case el of (name, mandatory, is_set, text) \<Rightarrow> if \<not> is_set then b else stream_add name text b)"

definition stream_done :: "json_stream_builder \<Rightarrow> string" where
  "stream_done b = js_out b @ ''}''"

definition base_write :: "(string \<times> bool \<times> bool \<times> string) list \<Rightarrow> string" where
  "base_write els = stream_done (fold stream_add_element els stream_builder_init)"

text \<open>The loop over a range that is streamed.\<close>

fun write_items :: "bool \<Rightarrow> string list \<Rightarrow> string" where
  "write_items first [] = []"
| "write_items first (x # xs) = (if first then [] else '','') @ x @ write_items False xs"

definition write_range :: "fmt_state \<Rightarrow> string list \<Rightarrow> string" where
  "write_range s xs = fmt_begin s @ write_items True xs @ fmt_end s"

text \<open>\<open>formatter::write\<close>: an object inside is printed to a string first. The loop over a range calls
  \<open>write\<close> of its items without the state, and no overload takes a pair then: for a map, or a vector of
  pairs, there is no code (\<open>None\<close>).\<close>

fun write_json :: "jvalue \<Rightarrow> string option" where
  "write_json (V_vec vs) = map_option (write_range Fmt_array) (those (map write_json vs))"
| "write_json (V_map kvs) = None"
| "write_json (V_pairs kvs) = None"
| "write_json v = Some (to_json v)"

definition write_element :: "element \<Rightarrow> (string \<times> bool \<times> bool \<times> string) option" where
  "write_element el = (case el of (n, m, is_set, v) \<Rightarrow> map_option (\<lambda>text. (n, m, is_set, text)) (write_json v))"

definition json_base_write :: "element list \<Rightarrow> string option" where
  "json_base_write els = map_option base_write (those (map write_element els))"

definition json_base_to_json :: "element list \<Rightarrow> string" where
  "json_base_to_json els = to_json (V_obj els)"

text \<open>\<open>stream_range_as_array\<close>: here the comma is followed by a space.\<close>

fun stream_range_items :: "bool \<Rightarrow> string list \<Rightarrow> string" where
  "stream_range_items first [] = []"
| "stream_range_items first (x # xs) = (if first then [] else '', '') @ x @ stream_range_items False xs"

definition stream_range_as_array :: "('a \<Rightarrow> jvalue) \<Rightarrow> 'a list \<Rightarrow> string option" where
  "stream_range_as_array f xs =
     map_option (\<lambda>ts. ''['' @ stream_range_items True ts @ '']'') (those (map (\<lambda>x. write_json (f x)) xs))"

end
