(* ===== verification/JsonRead.thy ===== *)
theory JsonRead
  imports Json
begin

text \<open>
  What the JSON printer promises: a reader of JSON, written here after RFC 8259, gets back the
  values that were printed, to a string or to a stream, as long as no string holds a character
  that would have needed an escape.
\<close>

subsection \<open>A reader\<close>

datatype json = J_str string | J_int int | J_bool bool | J_arr "json list" | J_obj "(string \<times> json) list"

abbreviation (input) skip_space :: "string \<Rightarrow> string" where
  "skip_space s \<equiv> dropWhile (\<lambda>c. c = CHR 0x20) s"

definition control_char :: "char \<Rightarrow> bool" where
  "control_char c \<longleftrightarrow> (of_char c :: nat) < 32"

fun read_str :: "string \<Rightarrow> (string \<times> string) option" where
  "read_str [] = None"
| "read_str (c # s) =
     (if c = CHR 0x22 then Some ([], s)
      else if c = CHR 0x5C then
        (case s of
           [] \<Rightarrow> None
         | d # r \<Rightarrow> if d = CHR 0x22 \<or> d = CHR 0x5C \<or> d = CHR 0x2F then map_option (map_prod (Cons d) id) (read_str r) else None)
      else if control_char c then None
      else map_option (map_prod (Cons c) id) (read_str s))"

definition is_digit :: "char \<Rightarrow> bool" where
  "is_digit c \<longleftrightarrow> 48 \<le> (of_char c :: nat) \<and> (of_char c :: nat) \<le> 57"

fun read_nat :: "nat \<Rightarrow> string \<Rightarrow> nat \<times> string" where
  "read_nat a [] = (a, [])"
| "read_nat a (c # s) = (if is_digit c then read_nat (10 * a + (of_char c - 48)) s else (a, c # s))"

fun read_value :: "nat \<Rightarrow> string \<Rightarrow> (json \<times> string) option"
  and read_items :: "nat \<Rightarrow> string \<Rightarrow> (json list \<times> string) option"
  and read_members :: "nat \<Rightarrow> string \<Rightarrow> ((string \<times> json) list \<times> string) option" where
  "read_value 0 s = None"
| "read_value (Suc n) s =
     (case skip_space s of
        [] \<Rightarrow> None
      | c # r \<Rightarrow>
          if c = CHR 0x22 then map_option (map_prod J_str id) (read_str r)
          else if c = CHR 0x5B then
            (if starts_with '']'' (skip_space r) then Some (J_arr [], drop 1 (skip_space r))
             else map_option (map_prod J_arr id) (read_items n r))
          else if c = CHR 0x7B then
            (if starts_with ''}'' (skip_space r) then Some (J_obj [], drop 1 (skip_space r))
             else map_option (map_prod J_obj id) (read_members n r))
          else if starts_with ''true'' (c # r) then Some (J_bool True, drop 3 r)
          else if starts_with ''false'' (c # r) then Some (J_bool False, drop 4 r)
          else if c = CHR 0x2D then
            (if r \<noteq> [] \<and> is_digit (hd r) then Some (map_prod (\<lambda>k. J_int (- int k)) id (read_nat 0 r)) else None)
          else if is_digit c then Some (map_prod (\<lambda>k. J_int (int k)) id (read_nat 0 (c # r)))
          else None)"
| "read_items 0 s = None"
| "read_items (Suc n) s =
     (case read_value n s of
        None \<Rightarrow> None
      | Some (v, y) \<Rightarrow>
          (case skip_space y of
             [] \<Rightarrow> None
           | c # r \<Rightarrow> if c = CHR 0x2C then map_option (map_prod (Cons v) id) (read_items n r)
                       else if c = CHR 0x5D then Some ([v], r) else None))"
| "read_members 0 s = None"
| "read_members (Suc n) s =
     (case skip_space s of
        [] \<Rightarrow> None
      | c # r \<Rightarrow>
          if c \<noteq> CHR 0x22 then None
          else (case read_str r of
                  None \<Rightarrow> None
                | Some (k, y) \<Rightarrow>
                    (case skip_space y of
                       [] \<Rightarrow> None
                     | d # z \<Rightarrow>
                         if d \<noteq> CHR 0x3A then None
                         else (case read_value n z of
                                 None \<Rightarrow> None
                               | Some (v, w) \<Rightarrow>
                                   (case skip_space w of
                                      [] \<Rightarrow> None
                                    | e # q \<Rightarrow>
                                        if e = CHR 0x2C then map_option (map_prod (Cons (k, v)) id) (read_members n q)
                                        else if e = CHR 0x7D then Some ([(k, v)], q) else None)))))"

definition read_json :: "string \<Rightarrow> json option" where
  "read_json s =
     (case read_value (length s) s of
        Some (v, r) \<Rightarrow> if skip_space r = [] then Some v else None
      | None \<Rightarrow> None)"

subsection \<open>What is printed\<close>

text \<open>The keys of a JSON object are strings, so only keys that are strings are printed as JSON.\<close>

definition key_text :: "jvalue \<Rightarrow> string" where
  "key_text k = (case k of V_str s \<Rightarrow> s | _ \<Rightarrow> to_json k)"

fun value_of :: "jvalue \<Rightarrow> json" where
  "value_of (V_str s) = J_str s"
| "value_of (V_int i) = J_int i"
| "value_of (V_bool b) = J_bool b"
| "value_of (V_vec vs) = J_arr (map value_of vs)"
| "value_of (V_map kvs) = J_obj (map (\<lambda>(k, v). (key_text k, value_of v)) kvs)"
| "value_of (V_pairs kvs) = J_arr (map (\<lambda>(k, v). J_obj [(key_text k, value_of v)]) kvs)"
| "value_of (V_obj els) = J_obj (map (\<lambda>(n, m, is_set, v). (n, value_of v)) (filter (\<lambda>(n, m, is_set, v). is_set) els))"

definition plain_str :: "string \<Rightarrow> bool" where
  "plain_str s \<longleftrightarrow> (\<forall>c \<in> set s. c \<noteq> CHR 0x22 \<and> c \<noteq> CHR 0x5C \<and> \<not> control_char c)"

definition plain_key :: "jvalue \<Rightarrow> bool" where
  "plain_key k \<longleftrightarrow> (case k of V_str s \<Rightarrow> plain_str s | _ \<Rightarrow> False)"

fun plain :: "jvalue \<Rightarrow> bool" where
  "plain (V_str s) \<longleftrightarrow> plain_str s"
| "plain (V_vec vs) \<longleftrightarrow> list_all plain vs"
| "plain (V_map kvs) \<longleftrightarrow> list_all (\<lambda>(k, v). plain_key k \<and> plain v) kvs"
| "plain (V_pairs kvs) \<longleftrightarrow> list_all (\<lambda>(k, v). plain_key k \<and> plain v) kvs"
| "plain (V_obj els) \<longleftrightarrow> list_all (\<lambda>(n, m, is_set, v). is_set \<longrightarrow> plain_str n \<and> plain v) els"
| "plain _ \<longleftrightarrow> True"

text \<open>The values that have a streaming form.\<close>

fun streamable :: "jvalue \<Rightarrow> bool" where
  "streamable (V_vec vs) \<longleftrightarrow> list_all streamable vs"
| "streamable (V_map kvs) \<longleftrightarrow> False"
| "streamable (V_pairs kvs) \<longleftrightarrow> False"
| "streamable _ \<longleftrightarrow> True"

lemma those_Some: "those (map f xs) = (if \<forall>x \<in> set xs. f x \<noteq> None then Some (map (\<lambda>x. the (f x)) xs) else None)"
  by (induction xs) (auto split: option.split)

lemma write_json_streamable: "write_json v \<noteq> None \<longleftrightarrow> streamable v"
  by (induction v rule: write_json.induct) (auto simp: those_Some list_all_iff)

definition plain_char :: "char \<Rightarrow> bool" where
  "plain_char c \<longleftrightarrow> c \<noteq> CHR 0x22 \<and> c \<noteq> CHR 0x5C \<and> \<not> control_char c"

lemma plain_str_Cons [simp]: "plain_str []" "plain_str (c # s) \<longleftrightarrow> plain_char c \<and> plain_str s"
  by (simp_all add: plain_str_def plain_char_def)

lemma read_str_step:
  "read_str (CHR 0x22 # s) = Some ([], s)"
  "plain_char c \<Longrightarrow> read_str (c # s) = map_option (map_prod (Cons c) id) (read_str s)"
  by (simp_all add: plain_char_def)

lemma read_str_plain: "plain_str s \<Longrightarrow> read_str (s @ CHR 0x22 # rest) = Some (s, rest)"
  by (induction s) (simp_all add: read_str_step del: read_str.simps(2))

lemma c_str_plain: "plain_str s \<Longrightarrow> c_str s = s"
proof (induction s)
  case (Cons c s)
  then have "c \<noteq> CHR 0x00" by (auto simp: plain_char_def control_char_def)
  with Cons show ?case by (simp add: c_str_def)
qed (simp add: c_str_def)

lemma read_str_exact:
  "read_str t = Some (x, r) \<Longrightarrow> length x + length r < length t \<and>
     (Suc (length x + length r) = length t \<longrightarrow> t = x @ CHR 0x22 # r \<and> plain_str x)"
proof (induction t arbitrary: x rule: read_str.induct)
  case (2 c s)
  show ?case
  proof (cases "c = CHR 0x5C")
    case True
    then obtain d r' x' where "s = d # r'" "read_str r' = Some (x', r)" "x = d # x'"
      "d = CHR 0x22 \<or> d = CHR 0x5C \<or> d = CHR 0x2F"
      using 2(3) by (auto split: list.splits if_splits)
    then show ?thesis using 2(1) [of d r' x'] True by auto
  next
    case False
    show ?thesis
    proof (cases "c = CHR 0x22")
      case True
      then show ?thesis using 2(3) by (auto simp: plain_str_def)
    next
      case q: False
      then obtain x' where "read_str s = Some (x', r)" "x = c # x'" "\<not> control_char c"
        using 2(3) False by (auto split: if_splits)
      then show ?thesis using 2(2) [of x'] False q by (auto simp: plain_str_def)
    qed
  qed
qed simp

subsection \<open>Numbers\<close>

lemma is_digit_char: "d < 10 \<Longrightarrow> is_digit (char_of (48 + d)) \<and> of_char (char_of (48 + d) :: char) = (48 + d :: nat)"
  by (simp add: is_digit_def)

lemma show_nat_step: "show_nat n = (if n < 10 then [char_of (48 + n)] else show_nat (n div 10) @ [char_of (48 + n mod 10)])"
  by (rule show_nat.simps)

lemma read_show_nat:
  "read_nat a (show_nat n @ s) = read_nat (a * 10 ^ length (show_nat n) + n) s"
proof (induction n arbitrary: a s rule: show_nat.induct)
  case (1 n)
  show ?case
  proof (cases "n < 10")
    case True
    then show ?thesis by (simp add: show_nat_step [of n] is_digit_char mult.commute)
  next
    case False
    have d: "n mod 10 < 10" by simp
    let ?k = "length (show_nat (n div 10))"
    have "read_nat a (show_nat n @ s) =
        read_nat (a * 10 ^ ?k + n div 10) (char_of (48 + n mod 10) # s)"
      using 1 [OF False, of a "char_of (48 + n mod 10) # s"] False by (simp add: show_nat_step [of n])
    also have "\<dots> = read_nat (10 * (a * 10 ^ ?k + n div 10) + n mod 10) s"
      using is_digit_char [OF d] by simp
    also have "10 * (a * 10 ^ ?k + n div 10) + n mod 10 = a * 10 ^ Suc ?k + n"
      by (simp add: algebra_simps) 
    finally show ?thesis using False by (simp add: show_nat_step [of n])
  qed
qed

lemma show_nat_digits: "show_nat n \<noteq> []" "is_digit (hd (show_nat n))"
proof (induction n rule: show_nat.induct)
  case (1 n)
  have "show_nat n \<noteq> [] \<and> is_digit (hd (show_nat n))"
    using 1 by (cases "n < 10") (simp_all add: show_nat_step [of n] is_digit_char)
  then show "show_nat n \<noteq> []" "is_digit (hd (show_nat n))" by simp_all
qed

definition ends_number :: "string \<Rightarrow> bool" where
  "ends_number rest \<longleftrightarrow> (\<forall>c r. rest = c # r \<longrightarrow> \<not> is_digit c)"

lemma read_nat_end: "ends_number s \<Longrightarrow> read_nat a s = (a, s)"
  by (cases s) (auto simp: ends_number_def)

lemma digit_not_special:
  "is_digit c \<Longrightarrow> c \<notin> {CHR 0x20, CHR 0x22, CHR 0x5B, CHR 0x7B, CHR 0x2D, CHR 0x74, CHR 0x66}"
  by (auto simp: is_digit_def)

lemma read_show_int:
  assumes "ends_number rest"
  shows "read_value (Suc n) (show_int i @ rest) = Some (J_int i, rest)"
proof -
  have d: "show_nat k = hd (show_nat k) # List.tl (show_nat k)" "is_digit (hd (show_nat k))" for k
    using show_nat_digits by simp_all
  have r: "read_nat 0 (hd (show_nat k) # List.tl (show_nat k) @ rest) = (k, rest)" for k
    using read_show_nat [of 0 k rest] read_nat_end [OF assms] d(1) [of k] by (metis add_0 append_Cons mult_0)
  show ?thesis
  proof (cases "i < 0")
    case True
    then have "show_int i @ rest = CHR 0x2D # hd (show_nat (nat (- i))) # List.tl (show_nat (nat (- i))) @ rest"
      using d(1) [of "nat (- i)"] by (simp add: show_int_def)
    then show ?thesis using d(2) [of "nat (- i)"] r [of "nat (- i)"] True by (simp add: starts_with_def)
  next
    case False
    then have "show_int i @ rest = hd (show_nat (nat i)) # List.tl (show_nat (nat i)) @ rest"
      using d(1) [of "nat i"] by (simp add: show_int_def)
    then show ?thesis using d(2) [of "nat i"] r [of "nat i"] False digit_not_special [OF d(2) [of "nat i"]]
      by (simp add: starts_with_def)
  qed
qed

subsection \<open>Lists of texts\<close>

definition joined :: "string \<Rightarrow> string list \<Rightarrow> string" where
  "joined sep xs = (case xs of [] \<Rightarrow> [] | x # r \<Rightarrow> x @ concat (map ((@) sep) r))"

lemma joined_simps [simp]:
  "joined sep [] = []" "joined sep [x] = x" "joined sep (x # y # r) = x @ sep @ joined sep (y # r)"
  by (simp_all add: joined_def)

lemma later_items:
  "fmt_items (Suc n) r = concat (map ((@) '','') r)"
  "write_items False r = concat (map ((@) '','') r)"
  "stream_range_items False r = concat (map ((@) '', '') r)"
  by (induction r arbitrary: n) simp_all

lemma items_joined:
  "fmt_items 0 xs = joined '','' xs" "write_items True xs = joined '','' xs"
  "stream_range_items True xs = joined '', '' xs"
proof -
  show "fmt_items 0 xs = joined '','' xs" by (cases xs) (simp_all add: joined_def later_items)
  show "write_items True xs = joined '','' xs" by (cases xs) (simp_all add: joined_def later_items)
  show "stream_range_items True xs = joined '', '' xs" by (cases xs) (simp_all add: joined_def later_items)
qed

definition member_text :: "string \<Rightarrow> string \<times> string \<Rightarrow> string" where
  "member_text col kt = (case kt of (k, t) \<Rightarrow> CHR 0x22 # k @ CHR 0x22 # col @ t)"

lemma member_text_pair [simp]: "member_text col (k, t) = CHR 0x22 # k @ CHR 0x22 # col @ t"
  by (simp add: member_text_def)

definition set_members :: "(string \<times> bool \<times> bool \<times> 'a) list \<Rightarrow> (string \<times> 'a) list" where
  "set_members els = map (\<lambda>(n, m, is_set, t). (n, t)) (filter (\<lambda>(n, m, is_set, t). is_set) els)"

lemma set_members_simps [simp]:
  "set_members [] = []"
  "set_members ((n, m, True, t) # els) = (n, t) # set_members els"
  "set_members ((n, m, False, t) # els) = set_members els"
  by (simp_all add: set_members_def)

lemma add_element_simps [simp]:
  "builder_add_element (n, m, True, t) b = builder_add n t b" "builder_add_element (n, m, False, t) b = b"
  "stream_add_element (n, m, True, t) c = stream_add n t c" "stream_add_element (n, m, False, t) c = c"
  by (simp_all add: builder_add_element_def stream_add_element_def)

lemma builder_fold:
  "\<not> jb_first b \<Longrightarrow> fold builder_add_element els b =
     b\<lparr>jb_result := jb_result b @ concat (map ((@) '', '') (map (member_text '': '') (set_members els)))\<rparr>"
proof (induction els arbitrary: b)
  case (Cons el els)
  obtain n m s t where el: "el = (n, m, s, t)" by (cases el)
  show ?case using Cons.prems Cons.IH [of "builder_add_element el b"]
    by (cases s) (simp_all add: el builder_add_def)
qed simp

lemma base_to_json_joined:
  "base_to_json els = ''{'' @ joined '', '' (map (member_text '': '') (set_members els)) @ ''}''"
proof -
  have "jb_result (fold builder_add_element els b) = jb_result b @ joined '', '' (map (member_text '': '') (set_members els))"
    if "jb_first b" for b
    using that
  proof (induction els arbitrary: b)
    case (Cons el els)
    obtain n m s t where el: "el = (n, m, s, t)" by (cases el)
    show ?case
    proof (cases s)
      case True
      have "\<not> jb_first (builder_add n t b)" by (simp add: builder_add_def)
      from builder_fold [OF this] show ?thesis
        using True Cons.prems by (simp add: el builder_add_def joined_def)
    qed (use Cons in \<open>simp add: el\<close>)
  qed simp
  then show ?thesis by (simp add: base_to_json_def as_json_def json_builder_init_def)
qed

lemma stream_fold:
  "js_open b \<Longrightarrow> \<not> js_first b \<Longrightarrow> fold stream_add_element els b =
     b\<lparr>js_out := js_out b @ concat (map ((@) '','') (map (member_text '':'') (set_members els)))\<rparr>"
proof (induction els arbitrary: b)
  case (Cons el els)
  obtain n m s t where el: "el = (n, m, s, t)" by (cases el)
  show ?case using Cons.prems Cons.IH [of "stream_add_element el b"]
    by (cases s) (simp_all add: el stream_add_def stream_add_open_def)
qed simp

lemma base_write_joined:
  "base_write els =
     (if set_members els = [] then [] else ''{'') @ joined '','' (map (member_text '':'') (set_members els)) @ ''}''"
proof (induction els)
  case (Cons el els)
  obtain n m s t where el: "el = (n, m, s, t)" by (cases el)
  show ?case
  proof (cases s)
    case True
    have "js_open (stream_add n t stream_builder_init)" "\<not> js_first (stream_add n t stream_builder_init)"
      by (simp_all add: stream_add_def stream_add_open_def stream_builder_init_def)
    from stream_fold [OF this] show ?thesis
      using True by (simp add: base_write_def stream_done_def el stream_add_def
          stream_add_open_def stream_builder_init_def joined_def)
  qed (use Cons in \<open>simp add: el base_write_def\<close>)
qed (simp add: base_write_def stream_builder_init_def stream_done_def)

subsection \<open>Reading what was printed\<close>

definition reads :: "json \<Rightarrow> string \<Rightarrow> bool" where
  "reads j txt \<longleftrightarrow> txt \<noteq> [] \<and> hd txt \<notin> {CHR 0x20, CHR 0x5D, CHR 0x7D} \<and>
     (\<forall>n rest. length txt \<le> n \<longrightarrow> ends_number rest \<longrightarrow> read_value n (txt @ rest) = Some (j, rest))"

lemma readsD: "reads j txt \<Longrightarrow> length txt \<le> n \<Longrightarrow> ends_number rest \<Longrightarrow> read_value n (txt @ rest) = Some (j, rest)"
  by (simp add: reads_def)

lemma read_space [simp]:
  "read_value n (CHR 0x20 # s) = read_value n s" "read_items n (CHR 0x20 # s) = read_items n s"
  "read_members n (CHR 0x20 # s) = read_members n s"
proof -
  show v: "read_value n (CHR 0x20 # s) = read_value n s" for n by (cases n) simp_all
  show "read_items n (CHR 0x20 # s) = read_items n s" by (cases n) (simp_all add: v)
  show "read_members n (CHR 0x20 # s) = read_members n s" by (cases n) simp_all
qed

lemma ends_number_simps [simp]: "ends_number []" "ends_number (c # r) \<longleftrightarrow> \<not> is_digit c"
  by (auto simp: ends_number_def)

lemma not_digits [simp]: "\<not> is_digit CHR 0x2C" "\<not> is_digit CHR 0x5D" "\<not> is_digit CHR 0x7D"
  by (simp_all add: is_digit_def)

lemma read_items_joined:
  assumes "list_all2 reads js txts" "txts \<noteq> []" "sep = '','' \<or> sep = '', ''" "length (joined sep txts) < n"
  shows "read_items n (joined sep txts @ CHR 0x5D # rest) = Some (js, rest)"
  using assms(1,2,4)
proof (induction txts arbitrary: js n rule: list.induct)
  case (Cons t txts)
  obtain j js' where js: "js = j # js'" "reads j t" "list_all2 reads js' txts"
    using Cons.prems(1) by (auto simp: list_all2_Cons2)
  obtain m where n: "n = Suc m" using Cons.prems(3) by (cases n) auto
  show ?case
  proof (cases txts)
    case Nil
    have "length t \<le> m" using Cons.prems(3) n Nil by simp
    with readsD [OF js(2), of m "CHR 0x5D # rest"] show ?thesis using js Nil by (simp add: n)
  next
    case (Cons u us)
    let ?more = "joined sep txts @ CHR 0x5D # rest"
    have len: "length t \<le> m" "length (joined sep txts) < m"
      using Cons.prems(3) n Cons assms(3) by (auto simp: Cons)
    have "read_value m (t @ sep @ ?more) = Some (j, sep @ ?more)"
      using readsD [OF js(2) len(1), of "sep @ ?more"] assms(3) by auto
    moreover have "read_items m ?more = Some (js', rest)"
      using Cons.IH [OF js(3) _ len(2)] Cons by simp
    ultimately show ?thesis using assms(3) js Cons by (auto simp: n)
  qed
qed simp

lemma read_members_joined:
  assumes "list_all2 (\<lambda>(k, j) (k', t). k' = k \<and> plain_str k \<and> reads j t) kjs kts" "kts \<noteq> []"
    and "sep = '','' \<or> sep = '', ''" "col = '':'' \<or> col = '': ''"
    and "length (joined sep (map (member_text col) kts)) < n"
  shows "read_members n (joined sep (map (member_text col) kts) @ CHR 0x7D # rest) = Some (kjs, rest)"
  using assms(1,2,5)
proof (induction kts arbitrary: kjs n rule: list.induct)
  case (Cons kt kts)
  obtain k t where kt: "kt = (k, t)" by fastforce
  obtain j kjs' where js: "kjs = (k, j) # kjs'" "plain_str k" "reads j t"
      "list_all2 (\<lambda>(k, j) (k', t). k' = k \<and> plain_str k \<and> reads j t) kjs' kts"
    using Cons.prems(1) by (auto simp: kt list_all2_Cons2)
  obtain m where n: "n = Suc m" using Cons.prems(3) by (cases n) auto
  have key: "read_str (k @ CHR 0x22 # s) = Some (k, s)" for s using read_str_plain [OF js(2)] .
  show ?case
  proof (cases kts)
    case Nil
    have "length t \<le> m" using Cons.prems(3) n Nil by (simp add: kt)
    with readsD [OF js(3), of m "CHR 0x7D # rest"] show ?thesis
      using js Nil assms(4) by (auto simp: n kt key)
  next
    case (Cons u us)
    let ?more = "joined sep (map (member_text col) kts) @ CHR 0x7D # rest"
    have len: "length t \<le> m" "length (joined sep (map (member_text col) kts)) < m"
      using Cons.prems(3) n Cons assms(3) by (auto simp: kt Cons)
    have "read_value m (t @ sep @ ?more) = Some (j, sep @ ?more)"
      using readsD [OF js(3) len(1), of "sep @ ?more"] assms(3) by auto
    moreover have "read_members m ?more = Some (kjs', rest)"
      using Cons.IH [OF js(4) _ len(2)] Cons by simp
    ultimately show ?thesis using assms(3,4) js Cons by (auto simp: n kt key)
  qed
qed simp

lemma readsI:
  assumes "\<And>m rest. length txt \<le> Suc m \<Longrightarrow> ends_number rest \<Longrightarrow> read_value (Suc m) (txt @ rest) = Some (j, rest)"
    and "txt \<noteq> []" "hd txt \<notin> {CHR 0x20, CHR 0x5D, CHR 0x7D}"
  shows "reads j txt"
proof -
  have "read_value n (txt @ rest) = Some (j, rest)" if "length txt \<le> n" "ends_number rest" for n rest
    using assms(1) [of "n - 1" rest] that assms(2) by (cases n) auto
  then show ?thesis using assms(2,3) by (simp add: reads_def)
qed

lemma reads_str: "plain_str s \<Longrightarrow> reads (J_str s) (to_json_str s)"
  by (rule readsI) (simp_all add: to_json_str_def c_str_plain read_str_plain)

lemma hd_joined: "list_all2 reads js txts \<Longrightarrow> txts \<noteq> [] \<Longrightarrow>
    joined sep txts \<noteq> [] \<and> hd (joined sep txts) \<notin> {CHR 0x20, CHR 0x5D, CHR 0x7D}"
  by (cases txts) (auto simp: joined_def list_all2_Cons2 reads_def)

lemma starts_skip:
  assumes "s \<noteq> []" "hd s \<notin> {CHR 0x20, c}"
  shows "\<not> starts_with [c] (skip_space (s @ rest))"
  using assms by (cases s) (auto simp: starts_with_def)

lemma reads_array:
  assumes "list_all2 reads js txts" "sep = '','' \<or> sep = '', ''"
  shows "reads (J_arr js) (CHR 0x5B # joined sep txts @ [CHR 0x5D])"
proof (rule readsI)
  fix m rest
  assume len: "length (CHR 0x5B # joined sep txts @ [CHR 0x5D]) \<le> Suc m"
  show "read_value (Suc m) ((CHR 0x5B # joined sep txts @ [CHR 0x5D]) @ rest) = Some (J_arr js, rest)"
  proof (cases "txts = []")
    case True
    then show ?thesis using assms(1) by (simp add: starts_with_def)
  next
    case False
    have "read_items m (joined sep txts @ CHR 0x5D # rest) = Some (js, rest)"
      using read_items_joined [OF assms(1) False assms(2)] len by simp
    moreover have "\<not> starts_with '']'' (skip_space (joined sep txts @ CHR 0x5D # rest))"
      using starts_skip hd_joined [OF assms(1) False] by blast
    ultimately show ?thesis by simp
  qed
qed simp_all

lemma reads_object:
  assumes "list_all2 (\<lambda>(k, j) (k', t). k' = k \<and> plain_str k \<and> reads j t) kjs kts"
    and "sep = '','' \<or> sep = '', ''" "col = '':'' \<or> col = '': ''"
  shows "reads (J_obj kjs) (CHR 0x7B # joined sep (map (member_text col) kts) @ [CHR 0x7D])"
proof (rule readsI)
  fix m rest
  let ?ts = "joined sep (map (member_text col) kts)"
  assume len: "length (CHR 0x7B # ?ts @ [CHR 0x7D]) \<le> Suc m"
  show "read_value (Suc m) ((CHR 0x7B # ?ts @ [CHR 0x7D]) @ rest) = Some (J_obj kjs, rest)"
  proof (cases "kts = []")
    case True
    then show ?thesis using assms(1) by (simp add: starts_with_def)
  next
    case False
    have "read_members m (?ts @ CHR 0x7D # rest) = Some (kjs, rest)"
      using read_members_joined [OF assms(1) False assms(2,3)] len by simp
    moreover have "\<not> starts_with ''}'' (skip_space (?ts @ CHR 0x7D # rest))"
      using False by (cases kts) (auto simp: joined_def starts_with_def member_text_def)
    ultimately show ?thesis by simp
  qed
qed simp_all

lemma set_members_map:
  "set_members (map (\<lambda>(n, m, is_set, v). (n, m, is_set, f v)) els) = map (\<lambda>(n, v). (n, f v)) (set_members els)"
  by (induction els) (auto simp: set_members_def)

lemma members_read:
  assumes "\<And>k v. (k, v) \<in> set kvs \<Longrightarrow> plain_str k \<and> reads (value_of v) (txt v)"
  shows "list_all2 (\<lambda>(k, j) (k', t). k' = k \<and> plain_str k \<and> reads j t)
    (map (\<lambda>(k, v). (k, value_of v)) kvs) (map (\<lambda>(k, v). (k, txt v)) kvs)"
  using assms by (induction kvs) auto

lemma set_members_in: "(n, v) \<in> set (set_members els) \<longleftrightarrow> (\<exists>m. (n, m, True, v) \<in> set els)"
  by (force simp: set_members_def)

lemma value_of_obj: "value_of (V_obj els) = J_obj (map (\<lambda>(n, v). (n, value_of v)) (set_members els))"
  by (auto simp: set_members_def)

lemma plain_objD: "plain (V_obj els) \<Longrightarrow> (n, m, True, v) \<in> set els \<Longrightarrow> plain_str n \<and> plain v"
  by (auto simp: list_all_iff)

lemma reads_base_to_json:
  assumes "\<And>n v. (n, v) \<in> set (set_members els) \<Longrightarrow> plain_str n \<and> reads (value_of v) (txt v)"
  shows "reads (value_of (V_obj els)) (base_to_json (map (\<lambda>(n, m, is_set, v). (n, m, is_set, txt v)) els))"
  using reads_object [OF members_read [OF assms], where sep = "'', ''" and col = "'': ''"]
  by (simp add: base_to_json_joined set_members_map value_of_obj del: value_of.simps)

lemma reads_int: "reads (J_int i) (show_int i)"
proof (rule readsI)
  show "show_int i \<noteq> []" using show_nat_digits(1) by (simp add: show_int_def)
  have "c \<notin> {CHR 0x20, CHR 0x5D, CHR 0x7D}" if "is_digit c" for c
    using that by (auto simp: is_digit_def)
  then show "hd (show_int i) \<notin> {CHR 0x20, CHR 0x5D, CHR 0x7D}"
    using show_nat_digits(2) by (simp add: show_int_def)
qed (rule read_show_int)

lemma plain_keyD: "plain_key k \<Longrightarrow> plain_str (key_text k) \<and> to_json k = CHR 0x22 # key_text k @ [CHR 0x22]"
  by (cases k) (simp_all add: plain_key_def key_text_def to_json_str_def c_str_plain)

lemma to_json_reads: "plain v \<Longrightarrow> reads (value_of v) (to_json v)"
proof (induction v rule: to_json.induct)
  case (1 s)
  then show ?case by (simp add: reads_str)
next
  case (2 i)
  show ?case by (simp add: reads_int)
next
  case (3 b)
  show ?case by (rule readsI) (simp_all add: starts_with_def)
next
  case (4 vs)
  then have "list_all2 reads (map value_of vs) (map to_json vs)"
    by (auto simp: list_all2_map1 list_all2_map2 list_all_iff intro!: list.rel_refl_strong)
  from reads_array [OF this] show ?case by (simp add: fmt_range_def fmt_begin_def fmt_end_def items_joined)
next
  case (5 kvs)
  let ?kvs = "map (\<lambda>(k, v). (key_text k, v)) kvs"
  have "list_all2 (\<lambda>(k, j) (k', t). k' = k \<and> plain_str k \<and> reads j t)
      (map (\<lambda>(k, v). (k, value_of v)) ?kvs) (map (\<lambda>(k, v). (k, to_json v)) ?kvs)"
    using 5 plain_keyD by (intro members_read) (fastforce simp: list_all_iff)
  moreover have "map (\<lambda>(k, v). to_json k @ '':'' @ to_json v) kvs = map (member_text '':'') (map (\<lambda>(k, v). (k, to_json v)) ?kvs)"
    using 5(3) plain_keyD by (auto simp: list_all_iff)
  moreover have "value_of (V_map kvs) = J_obj (map (\<lambda>(k, v). (k, value_of v)) ?kvs)" by (simp add: case_prod_beta comp_def)
  ultimately show ?case
    using reads_object [where sep = "'',''" and col = "'':''"]
    by (simp only: to_json.simps fmt_range_def fmt_begin_def fmt_end_def fmt_state.case items_joined append_Cons append_Nil) blast
next
  case (6 kvs)
  have "reads (J_obj [(key_text k, value_of v)]) (''{'' @ (to_json k @ '':'' @ to_json v) @ ''}'')" if m: "(k, v) \<in> set kvs" for k v
  proof -
    have v: "plain_str (key_text k)" "to_json k = CHR 0x22 # key_text k @ [CHR 0x22]" "reads (value_of v) (to_json v)"
      using 6 plain_keyD m by (fastforce simp: list_all_iff)+
    show ?thesis using reads_object [of "[(key_text k, value_of v)]" "[(key_text k, to_json v)]" "'',''" "'':''"] v by simp
  qed
  then have "list_all2 reads (map (\<lambda>(k, v). J_obj [(key_text k, value_of v)]) kvs)
      (map (\<lambda>(k, v). ''{'' @ (to_json k @ '':'' @ to_json v) @ ''}'') kvs)"
    by (auto simp: list_all2_map1 list_all2_map2 intro!: list.rel_refl_strong)
  from reads_array [OF this, of "'',''"] show ?case
    by (simp only: to_json.simps value_of.simps fmt_range_def fmt_begin_def fmt_end_def fmt_state.case items_joined append_Cons append_Nil) blast
next
  case (7 els)
  have "plain_str n \<and> reads (value_of v) (to_json v)" if i: "(n, v) \<in> set (set_members els)" for n v
  proof -
    obtain m where m: "(n, m, True, v) \<in> set els" using i by (auto simp: set_members_in)
    show ?thesis using 7(1) [OF m refl refl refl] plain_objD [OF 7(2) m] by blast
  qed
  then show ?case unfolding to_json.simps by (rule reads_base_to_json)
qed

lemma write_json_reads: "plain v \<Longrightarrow> streamable v \<Longrightarrow> reads (value_of v) (the (write_json v))"
proof (induction v rule: write_json.induct)
  case (1 vs)
  then have "list_all2 reads (map value_of vs) (map (\<lambda>v. the (write_json v)) vs)"
    by (auto simp: list_all2_map1 list_all2_map2 list_all_iff intro!: list.rel_refl_strong)
  from reads_array [OF this] show ?case
    using 1(3) write_json_streamable by (simp add: those_Some list_all_iff write_range_def fmt_begin_def fmt_end_def items_joined)
qed (simp_all add: to_json_reads del: to_json.simps value_of.simps)

lemma read_json_reads: "reads j t \<Longrightarrow> read_json t = Some j"
  using readsD [of j t "length t" "[]"] by (simp add: read_json_def)

lemma json_base_write_eq:
  assumes "list_all (\<lambda>(n, m, is_set, v). streamable v) els"
  shows "json_base_write els = Some (base_write (map (\<lambda>(n, m, is_set, v). (n, m, is_set, the (write_json v))) els))"
proof -
  have "write_element el = Some (case el of (n, m, is_set, v) \<Rightarrow> (n, m, is_set, the (write_json v)))" if "el \<in> set els" for el
    using assms that write_json_streamable by (fastforce simp: write_element_def list_all_iff split: prod.splits)
  then have "those (map write_element els) = Some (map (\<lambda>(n, m, is_set, v). (n, m, is_set, the (write_json v))) els)"
    by (simp add: those_Some)
  then show ?thesis by (simp add: json_base_write_def)
qed

lemma json_base_write_reads:
  assumes "plain (V_obj els)" "set_members els \<noteq> []" "list_all (\<lambda>(n, m, is_set, v). streamable v) els"
  shows "reads (value_of (V_obj els)) (the (json_base_write els))"
proof -
  have r: "plain_str n \<and> reads (value_of v) (the (write_json v))" if i: "(n, v) \<in> set (set_members els)" for n v
  proof -
    obtain m where m: "(n, m, True, v) \<in> set els" using i by (auto simp: set_members_in)
    then have "streamable v" using assms(3) by (fastforce simp: list_all_iff)
    then show ?thesis using plain_objD [OF assms(1) m] write_json_reads by blast
  qed
  from reads_object [OF members_read [OF r], where sep = "'',''" and col = "'':''"] show ?thesis
    using assms(2) by (simp add: json_base_write_eq [OF assms(3)] base_write_joined set_members_map value_of_obj del: value_of.simps)
qed

text \<open>C27. What the formatter prints is read back as the value: for every value whose strings need no
  escapes and whose maps and pairs have strings for keys, the text of \<open>to_json\<close> is a JSON text for
  that value, with arrays, maps, pairs and objects nested in any way, and with the elements of an
  object that are not set left out. So is the text written to a stream, for the values that have a
  streaming form (no maps and no pairs outside of objects), and the text of a streamed range.\<close>

theorem json_reads_back:
  assumes "plain v" "\<forall>x \<in> set xs. plain (f x) \<and> streamable (f x)"
  shows "read_json (to_json v) = Some (value_of v) \<and>
    (streamable v \<longrightarrow> (\<exists>t. write_json v = Some t \<and> read_json t = Some (value_of v))) \<and>
    (\<exists>t. stream_range_as_array f xs = Some t \<and> read_json t = Some (J_arr (map (\<lambda>x. value_of (f x)) xs)))"
proof -
  have "list_all2 reads (map (\<lambda>x. value_of (f x)) xs) (map (\<lambda>x. the (write_json (f x))) xs)"
    using assms(2) write_json_reads by (auto simp: list_all2_map1 list_all2_map2 intro!: list.rel_refl_strong)
  from read_json_reads [OF reads_array [OF this]]
  have "\<exists>t. stream_range_as_array f xs = Some t \<and> read_json t = Some (J_arr (map (\<lambda>x. value_of (f x)) xs))"
    using assms(2) write_json_streamable by (simp add: stream_range_as_array_def those_Some items_joined)
  moreover have "\<exists>t. write_json v = Some t \<and> read_json t = Some (value_of v)" if "streamable v"
    using read_json_reads [OF write_json_reads [OF assms(1) that]] write_json_streamable [of v] that by auto
  ultimately show ?thesis using assms(1) to_json_reads read_json_reads by blast
qed

theorem json_reads_back_witness:
  "read_json (to_json (V_obj [(''a'', False, True, V_vec [V_int (- 12), V_bool True]), (''b'', False, False, V_int 0),
       (''c'', True, True, V_map [(V_str ''k'', V_int 1)])])) =
     Some (J_obj [(''a'', J_arr [J_int (- 12), J_bool True]), (''c'', J_obj [(''k'', J_int 1)])])"
  using json_reads_back [of "V_obj [(''a'', False, True, V_vec [V_int (- 12), V_bool True]), (''b'', False, False, V_int 0),
    (''c'', True, True, V_map [(V_str ''k'', V_int 1)])]" "[] :: int list" V_int]
  by (simp add: plain_char_def control_char_def plain_key_def key_text_def)

lemma show_int_head: "show_int i \<noteq> [] \<and> hd (show_int i) \<notin> {CHR 0x20, CHR 0x22, CHR 0x7D}"
proof -
  have "c \<notin> {CHR 0x20, CHR 0x22, CHR 0x7D}" if "is_digit c" for c using that by (auto simp: is_digit_def)
  then show ?thesis using show_nat_digits by (simp add: show_int_def)
qed

text \<open>A map with another key first is printed with that key as it is, which is no JSON.\<close>

theorem unquoted_keys:
  "to_json (V_map [(V_int 1, V_int 2), (V_int 3, V_int 4)]) = ''{1:2,3:4}''"
  "read_json (to_json (V_map ((V_int i, v) # kvs))) = None"
proof -
  show "to_json (V_map [(V_int 1, V_int 2), (V_int 3, V_int 4)]) = ''{1:2,3:4}''"
    by (simp add: fmt_range_def fmt_begin_def fmt_end_def show_int_def show_nat.simps char_of_def bit_0)
  obtain d ds where d: "show_int i = d # ds" "d \<noteq> CHR 0x22" "d \<noteq> CHR 0x20" "d \<noteq> CHR 0x7D"
    using show_int_head [of i] by (cases "show_int i") auto
  then have "read_members n (show_int i @ s) = None" for n s by (cases n) simp_all
  moreover have "\<not> starts_with ''}'' (skip_space (show_int i @ s))" for s using d by (simp add: starts_with_def)
  ultimately show "read_json (to_json (V_map ((V_int i, v) # kvs))) = None"
    by (simp add: read_json_def fmt_range_def fmt_begin_def)
qed

text \<open>The two printers of an object agree as JSON, however the spaces differ, when at least one element
  is set. With none set, the string is an empty object, but the stream gets a closing brace only:
  the opening one is written with the first element.\<close>

theorem object_printers_agree:
  assumes "plain (V_obj els)" "list_all (\<lambda>(n, m, is_set, v). streamable v) els"
  shows "read_json (json_base_to_json els) = Some (value_of (V_obj els)) \<and>
    (\<exists>t. json_base_write els = Some t \<and>
      (if \<exists>(n, m, is_set, v) \<in> set els. is_set then read_json t = read_json (json_base_to_json els)
       else t = ''}'' \<and> read_json t = None))"
proof -
  have t: "read_json (json_base_to_json els) = Some (value_of (V_obj els))"
    using read_json_reads [OF to_json_reads [OF assms(1)]] by (simp only: json_base_to_json_def)
  have e: "set_members els \<noteq> [] \<longleftrightarrow> (\<exists>(n, m, is_set, v) \<in> set els. is_set)"
    by (auto simp: set_members_def filter_empty_conv)
  show ?thesis
  proof (cases "set_members els = []")
    case True
    then have "json_base_write els = Some ''}''"
      by (simp add: json_base_write_eq [OF assms(2)] base_write_joined set_members_map)
    then show ?thesis using t e True by (simp add: read_json_def starts_with_def is_digit_def)
  next
    case False
    then show ?thesis
      using t e read_json_reads [OF json_base_write_reads [OF assms(1) False assms(2)]] json_base_write_eq [OF assms(2)] by simp
  qed
qed

theorem object_printers_agree_witness:
  "(\<exists>t. json_base_write [(''a'', True, True, V_int 1)] = Some t \<and> read_json t = Some (J_obj [(''a'', J_int 1)])) \<and>
   json_base_write [(''a'', True, False, V_int 1)] = Some ''}''"
  using object_printers_agree [of "[(''a'', True, True, V_int 1)]"] object_printers_agree [of "[(''a'', True, False, V_int 1)]"]
  by (auto simp: plain_char_def control_char_def)

text \<open>A string is printed without escapes: it is read back if and only if no character of it is a
  quote, a backslash or a control character.\<close>

theorem json_string_needs_no_escapes:
  "read_json (to_json (V_str s)) = Some (J_str s) \<longleftrightarrow> plain_str s"
proof
  assume "plain_str s"
  then show "read_json (to_json (V_str s)) = Some (J_str s)"
    using read_json_reads [OF reads_str] by simp
next
  assume r: "read_json (to_json (V_str s)) = Some (J_str s)"
  then obtain y where y: "read_str (c_str s @ [CHR 0x22]) = Some (s, y)"
    by (auto simp: read_json_def to_json_str_def split: option.splits if_splits)
  have "length (c_str s) \<le> length s" by (simp add: c_str_def length_takeWhile_le)
  with read_str_exact [OF y] show "plain_str s" by auto
qed

end
