(* ===== verification/HttpReply.thy ===== *)
theory HttpReply
  imports HttpUrl JsonRead "HOL-Library.AList"
begin

text \<open>
  HTTP replies and how they are written: \<open>http/reply.hh\<close>, \<open>http/reply.cc\<close>, \<open>http/mime_types.cc\<close> and the
  writing side of \<open>http/httpd.cc\<close>. The header map is an association list without repeated keys in
  the order in which the hash table iterates. A body writer is what it does: the buffers that reach
  the chunking sink, and whether it fails. An output stream is the text written to it.
\<close>

subsection \<open>Status lines and content types\<close>

datatype status_type =
    St_continue | St_ok | St_created | St_accepted | St_no_content | St_multiple_choices | St_moved_permanently
  | St_moved_temporarily | St_not_modified | St_bad_request | St_unauthorized | St_forbidden | St_not_found
  | St_length_required | St_payload_too_large | St_internal_server_error | St_not_implemented | St_bad_gateway
  | St_service_unavailable

fun status_code :: "status_type \<Rightarrow> nat" where
  "status_code St_continue = 100"
| "status_code St_ok = 200"
| "status_code St_created = 201"
| "status_code St_accepted = 202"
| "status_code St_no_content = 204"
| "status_code St_multiple_choices = 300"
| "status_code St_moved_permanently = 301"
| "status_code St_moved_temporarily = 302"
| "status_code St_not_modified = 304"
| "status_code St_bad_request = 400"
| "status_code St_unauthorized = 401"
| "status_code St_forbidden = 403"
| "status_code St_not_found = 404"
| "status_code St_length_required = 411"
| "status_code St_payload_too_large = 413"
| "status_code St_internal_server_error = 500"
| "status_code St_not_implemented = 501"
| "status_code St_bad_gateway = 502"
| "status_code St_service_unavailable = 503"

definition crlf :: string where
  "crlf = [CHR 0x0D, CHR 0x0A]"

fun status_string :: "status_type \<Rightarrow> string" where
  "status_string St_continue = '' 100 Continue'' @ crlf"
| "status_string St_ok = '' 200 OK'' @ crlf"
| "status_string St_created = '' 201 Created'' @ crlf"
| "status_string St_accepted = '' 202 Accepted'' @ crlf"
| "status_string St_no_content = '' 204 No Content'' @ crlf"
| "status_string St_multiple_choices = '' 300 Multiple Choices'' @ crlf"
| "status_string St_moved_permanently = '' 301 Moved Permanently'' @ crlf"
| "status_string St_moved_temporarily = '' 302 Moved Temporarily'' @ crlf"
| "status_string St_not_modified = '' 304 Not Modified'' @ crlf"
| "status_string St_bad_request = '' 400 Bad Request'' @ crlf"
| "status_string St_unauthorized = '' 401 Unauthorized'' @ crlf"
| "status_string St_forbidden = '' 403 Forbidden'' @ crlf"
| "status_string St_not_found = '' 404 Not Found'' @ crlf"
| "status_string St_length_required = '' 411 Length Required'' @ crlf"
| "status_string St_payload_too_large = '' 413 Payload Too Large'' @ crlf"
| "status_string St_internal_server_error = '' 500 Internal Server Error'' @ crlf"
| "status_string St_not_implemented = '' 501 Not Implemented'' @ crlf"
| "status_string St_bad_gateway = '' 502 Bad Gateway'' @ crlf"
| "status_string St_service_unavailable = '' 503 Service Unavailable'' @ crlf"

definition mime_mappings :: "(string \<times> string) list" where
  "mime_mappings =
     [(''json'', ''application/json''), (''gif'', ''image/gif''), (''htm'', ''text/html''), (''css'', ''text/css''),
      (''js'', ''text/javascript''), (''html'', ''text/html''), (''jpg'', ''image/jpeg''), (''png'', ''image/png''),
      (''txt'', ''text/plain''), (''ico'', ''image/x-icon''), (''bin'', ''application/octet-stream''),
      (''proto'', ''application/vnd.google.protobuf; proto=io.prometheus.client.MetricFamily; encoding=delimited'')]"

fun mime_loop :: "(string \<times> string) list \<Rightarrow> string \<Rightarrow> string" where
  "mime_loop [] extension = ''text/plain''"
| "mime_loop ((e, t) # ms) extension = (if extension = e then t else mime_loop ms extension)"

definition extension_to_type :: "string \<Rightarrow> string" where
  "extension_to_type extension = mime_loop mime_mappings extension"

subsection \<open>Replies\<close>

record body_writer =
  bw_buffers :: "string list"
  bw_fails :: bool

record reply =
  rep_status :: status_type
  rep_headers :: "(string \<times> string) list"
  rep_version :: string
  rep_content :: string
  rep_response_line :: string
  rep_body_writer :: "body_writer option"

definition reply_new :: reply where
  "reply_new = \<lparr>rep_status = St_ok, rep_headers = [], rep_version = [], rep_content = [], rep_response_line = [],
     rep_body_writer = None\<rparr>"

definition add_header :: "string \<Rightarrow> string \<Rightarrow> reply \<Rightarrow> reply" where
  "add_header h v r = r\<lparr>rep_headers := AList.update h v (rep_headers r)\<rparr>"

definition set_version :: "string \<Rightarrow> reply \<Rightarrow> reply" where
  "set_version v r = r\<lparr>rep_version := v\<rparr>"

definition set_status :: "status_type \<Rightarrow> string \<Rightarrow> reply \<Rightarrow> reply" where
  "set_status s content r =
     (let r1 = r\<lparr>rep_status := s\<rparr> in if content \<noteq> [] then r1\<lparr>rep_content := content\<rparr> else r1)"

definition set_mime_type :: "string \<Rightarrow> reply \<Rightarrow> reply" where
  "set_mime_type mime r = add_header ''Content-Type'' mime r"

definition set_content_type :: "string \<Rightarrow> reply \<Rightarrow> reply" where
  "set_content_type ct r = set_mime_type (extension_to_type ct) r"

definition response_line :: "reply \<Rightarrow> string" where
  "response_line r = ''HTTP/'' @ rep_version r @ status_string (rep_status r)"

definition reply_done :: "reply \<Rightarrow> reply" where
  "reply_done r = r\<lparr>rep_response_line := response_line r\<rparr>"

definition reply_done_as :: "string \<Rightarrow> reply \<Rightarrow> reply" where
  "reply_done_as ct r = reply_done (set_content_type ct r)"

definition write_body_with :: "string \<Rightarrow> body_writer \<Rightarrow> reply \<Rightarrow> reply" where
  "write_body_with ct w r = (set_content_type ct r)\<lparr>rep_body_writer := Some w\<rparr>"

definition write_body :: "string \<Rightarrow> string \<Rightarrow> reply \<Rightarrow> reply" where
  "write_body ct content r = reply_done_as ct (r\<lparr>rep_content := content\<rparr>)"

subsection \<open>Chunks\<close>

fun show_hex :: "nat \<Rightarrow> string" where
  "show_hex n = (if n < 16 then [if n < 10 then char_of (48 + n) else char_of (87 + n)]
                 else show_hex (n div 16) @ [if n mod 16 < 10 then char_of (48 + n mod 16) else char_of (87 + n mod 16)])"

declare show_hex.simps [simp del]

text \<open>\<open>put\<close> of the chunking sink: what it writes for one buffer.\<close>

definition chunk_put :: "string \<Rightarrow> string" where
  "chunk_put buf = (if buf = [] then [] else show_hex (length buf) @ crlf @ buf @ crlf)"

definition write_reply_headers :: "reply \<Rightarrow> string" where
  "write_reply_headers r = concat (map (\<lambda>(h, v). h @ '': '' @ v @ crlf) (rep_headers r))"

definition write_reply_to_connection :: "reply \<Rightarrow> body_writer \<Rightarrow> string \<times> reply" where
  "write_reply_to_connection r w =
     (let r1 = add_header ''Transfer-Encoding'' ''chunked'' r
      in (response_line r1 @ write_reply_headers r1 @ crlf @ concat (map chunk_put (bw_buffers w)), r1))"

subsection \<open>Sending a reply\<close>

record http_server =
  sv_total_connections :: u64
  sv_current_connections :: u64
  sv_requests_served :: u64
  sv_read_errors :: u64
  sv_respond_errors :: u64
  sv_credentials :: bool
  sv_date :: string
  sv_content_length_limit :: u64

text \<open>A connection: what was written, what was flushed of it, the queue of replies (\<open>None\<close> marks the
  end of it), and the flag that no more requests are read. A queue that was aborted holds nothing.\<close>

record http_conn =
  cn_out :: string
  cn_done :: bool
  cn_replies :: "reply option list"

definition set_headers :: "http_server \<Rightarrow> reply \<Rightarrow> reply" where
  "set_headers sv r = add_header ''Date'' (sv_date sv) (add_header ''Server'' ''Actor httpd'' r)"

definition abort_replies :: "http_conn \<Rightarrow> http_conn" where
  "abort_replies c = c\<lparr>cn_done := True, cn_replies := [None]\<rparr>"

definition respond_ends :: "bool \<Rightarrow> http_server \<Rightarrow> http_server" where
  "respond_ends failed sv = (if failed then sv\<lparr>sv_respond_errors := sv_respond_errors sv + 1\<rparr> else sv)"

text \<open>Writing to the socket's stream, which is up to the socket: \<open>None\<close> takes whatever is written,
  \<open>Some n\<close> takes \<open>n\<close> more characters, and the write that goes beyond them fails. The result is what
  was taken, what is still taken after that, and whether the write failed.\<close>

definition stream_write :: "nat option \<Rightarrow> string \<Rightarrow> string \<times> nat option \<times> bool" where
  "stream_write room s =
     (case room of
        None \<Rightarrow> (s, None, False)
      | Some n \<Rightarrow> if length s \<le> n then (s, Some (n - length s), False) else (take n s, Some 0, True))"

text \<open>\<open>start_response\<close>. With a body writer every failure is handled here: the connection is closed, and
  the future it returns is ready. Without one a failed write or flush is the failure of the future
  (the last component).\<close>

definition start_response :: "nat option \<Rightarrow> bool \<Rightarrow> reply \<Rightarrow> http_server \<Rightarrow> http_conn \<Rightarrow> http_server \<times> http_conn \<times> bool" where
  "start_response room flush_ok r sv c =
     (case rep_body_writer r of
        Some w \<Rightarrow>
          (let (s1, room1, failed1) = stream_write room (fst (write_reply_to_connection r w));
               c1 = c\<lparr>cn_out := cn_out c @ s1\<rparr>;
               (sv2, c2, failed2) =
                 (if failed1 \<or> bw_fails w
                  then (sv\<lparr>sv_respond_errors := sv_respond_errors sv + 1\<rparr>, abort_replies c1, False)
                  else (let (s2, room2, failed) = stream_write room1 (''0'' @ crlf @ crlf)
                        in (sv, c1\<lparr>cn_out := cn_out c1 @ s2\<rparr>, failed)));
               (c3, failed3) = (if failed2 then (abort_replies c2, False) else (c2, \<not> flush_ok))
           in (sv2, if failed3 then abort_replies c3 else c3, False))
      | None \<Rightarrow>
          (let r1 = set_headers sv r;
               r2 = add_header ''Content-Length'' (show_nat (length (rep_content r1))) r1;
               (s, room1, failed) = stream_write room (rep_response_line r2 @ write_reply_headers r2 @ crlf @ rep_content r2)
           in (sv, c\<lparr>cn_out := cn_out c @ s\<rparr>, failed \<or> \<not> flush_ok)))"

text \<open>One turn of \<open>do_response_loop\<close>: it waits while the queue is empty, ends at the end mark, and
  sends the first reply otherwise. When that fails the loop ends too: \<open>respond\<close> counts the error and
  closes the stream.\<close>

datatype turn = Waits | Ends | Sent | Send_failed

definition respond_one :: "nat option \<Rightarrow> bool \<Rightarrow> http_server \<Rightarrow> http_conn \<Rightarrow> turn \<times> http_server \<times> http_conn" where
  "respond_one room flush_ok sv c =
     (case cn_replies c of
        [] \<Rightarrow> (Waits, sv, c)
      | None # q \<Rightarrow> (Ends, respond_ends False sv, c\<lparr>cn_replies := q\<rparr>)
      | Some r # q \<Rightarrow>
          (let (sv1, c1, failed) = start_response room flush_ok r sv (c\<lparr>cn_replies := q\<rparr>)
           in if failed then (Send_failed, respond_ends True sv1, c1) else (Sent, sv1, c1)))"

end
