(* ===== verification/HttpRoutes.thy ===== *)
theory HttpRoutes
  imports HttpMatch HttpReply
begin

text \<open>
  Routing of requests: \<open>http/common.cc\<close>, \<open>http/exception.hh\<close>, \<open>http/handlers.hh\<close>,
  \<open>http/function_handlers.hh\<close>, \<open>http/routes.hh\<close>, \<open>http/routes.cc\<close> and \<open>http/json_path.cc\<close>. Handlers are
  objects named by numbers; what a handler does is a function of the path, the request and the
  reply, whose outcome is a reply, a future that fails, or an exception thrown at once.
\<close>

subsection \<open>Operations and exceptions\<close>

datatype operation_type = Op_GET | Op_POST | Op_PUT | Op_DELETE | Op_HEAD | Op_OPTIONS | Op_TRACE | Op_CONNECT

definition str2type :: "string \<Rightarrow> operation_type" where
  "str2type t =
     (if t = ''DELETE'' then Op_DELETE else if t = ''POST'' then Op_POST else if t = ''PUT'' then Op_PUT
      else if t = ''HEAD'' then Op_HEAD else if t = ''OPTIONS'' then Op_OPTIONS else if t = ''TRACE'' then Op_TRACE
      else if t = ''CONNECT'' then Op_CONNECT else Op_GET)"

text \<open>\<open>base_exception\<close> with its message and status, \<open>redirect_exception\<close>, which is one, and any other
  exception with the text that describes it.\<close>

datatype http_exn = Base_exception string status_type | Redirect_exception string | Other_exception string

definition not_found_exception :: "string \<Rightarrow> http_exn" where
  "not_found_exception msg = Base_exception msg St_not_found"

definition bad_request_exception :: "string \<Rightarrow> http_exn" where
  "bad_request_exception msg = Base_exception msg St_bad_request"

definition missing_param_exception :: "string \<Rightarrow> http_exn" where
  "missing_param_exception param = bad_request_exception (''Missing mandatory parameter '' @ [CHR 0x27] @ param @ [CHR 0x27])"

definition server_error_exception :: "string \<Rightarrow> http_exn" where
  "server_error_exception msg = Base_exception msg St_internal_server_error"

definition exn_status :: "http_exn \<Rightarrow> status_type" where
  "exn_status e = (case e of Base_exception m s \<Rightarrow> s | Redirect_exception url \<Rightarrow> St_moved_permanently
     | Other_exception m \<Rightarrow> St_internal_server_error)"

definition exn_str :: "http_exn \<Rightarrow> string" where
  "exn_str e = (case e of Base_exception m s \<Rightarrow> m | Redirect_exception url \<Rightarrow> [] | Other_exception m \<Rightarrow> m)"

definition json_exception :: "http_exn \<Rightarrow> element list" where
  "json_exception e =
     json_base_add (element_assign (V_int (int (status_code (exn_status e)))) (element_new (V_int 0))) ''code'' False
       (json_base_add (element_assign (V_str (exn_str e)) (element_new (V_str []))) ''message'' False [])"

subsection \<open>Handlers\<close>

datatype outcome = Replies reply | Failed http_exn | Thrown http_exn

record route_handler =
  hd_mandatory :: "string list"
  hd_handle :: "string \<Rightarrow> request \<Rightarrow> reply \<Rightarrow> outcome"

definition mandatory :: "string \<Rightarrow> route_handler \<Rightarrow> route_handler" where
  "mandatory param h = h\<lparr>hd_mandatory := hd_mandatory h @ [param]\<rparr>"

definition function_handler :: "(request \<Rightarrow> reply \<Rightarrow> outcome) \<Rightarrow> string \<Rightarrow> route_handler" where
  "function_handler f type =
     \<lparr>hd_mandatory = [],
      hd_handle = (\<lambda>path req rep. case f req rep of Replies r \<Rightarrow> Replies (reply_done_as type r) | out \<Rightarrow> out)\<rparr>"

definition request_function_handler :: "(request \<Rightarrow> http_exn + string) \<Rightarrow> string \<Rightarrow> route_handler" where
  "request_function_handler f type =
     function_handler (\<lambda>req rep. case f req of Inl e \<Rightarrow> Thrown e | Inr s \<Rightarrow> Replies (rep\<lparr>rep_content := rep_content rep @ s\<rparr>)) type"

text \<open>A \<open>json_return_type\<close> is a text or a body writer.\<close>

definition future_json_handler :: "(request \<Rightarrow> http_exn + (string + body_writer)) \<Rightarrow> route_handler" where
  "future_json_handler f =
     function_handler (\<lambda>req rep.
       case f req of
         Inl e \<Rightarrow> Failed e
       | Inr (Inr w) \<Rightarrow> Replies (write_body_with ''json'' w rep)
       | Inr (Inl s) \<Rightarrow> Replies (rep\<lparr>rep_content := rep_content rep @ s\<rparr>)) ''json''"

subsection \<open>The tables\<close>

record routes =
  rt_map :: "operation_type \<Rightarrow> string \<Rightarrow> nat option"
  rt_rover :: u64
  rt_rules :: "operation_type \<Rightarrow> (u64 \<times> match_rule) list"
  rt_default :: "nat option"
  rt_exceptions :: "(u64 \<times> (http_exn \<Rightarrow> http_exn + reply)) list"
  rt_exception_id :: u64
  rt_handlers :: "nat \<Rightarrow> route_handler"

text \<open>\<open>std::map\<close>: the entries are in the order of their keys.\<close>

fun ordered_put :: "'k::linorder \<Rightarrow> 'v \<Rightarrow> ('k \<times> 'v) list \<Rightarrow> ('k \<times> 'v) list" where
  "ordered_put k v [] = [(k, v)]"
| "ordered_put k v ((k', v') # m) =
     (if k = k' then (k, v) # m else if k < k' then (k, v) # (k', v') # m else (k', v') # ordered_put k v m)"

definition route_put :: "operation_type \<Rightarrow> string \<Rightarrow> nat \<Rightarrow> routes \<Rightarrow> routes option" where
  "route_put type url handler rt =
     (if rt_map rt type url \<noteq> None then None
      else Some (rt\<lparr>rt_map := (rt_map rt)(type := (rt_map rt type)(url \<mapsto> handler))\<rparr>))"

definition route_drop :: "operation_type \<Rightarrow> string \<Rightarrow> routes \<Rightarrow> nat option \<times> routes" where
  "route_drop type url rt = (rt_map rt type url, rt\<lparr>rt_map := (rt_map rt)(type := (rt_map rt type)(url := None))\<rparr>)"

definition add_cookie :: "match_rule \<Rightarrow> operation_type \<Rightarrow> routes \<Rightarrow> u64 \<times> routes" where
  "add_cookie rule type rt =
     (rt_rover rt, rt\<lparr>rt_rules := (rt_rules rt)(type := ordered_put (rt_rover rt) rule (rt_rules rt type)),
                      rt_rover := rt_rover rt + 1\<rparr>)"

definition del_cookie :: "u64 \<Rightarrow> operation_type \<Rightarrow> routes \<Rightarrow> match_rule option \<times> routes" where
  "del_cookie cookie type rt =
     (map_of (rt_rules rt type) cookie, rt\<lparr>rt_rules := (rt_rules rt)(type := AList.delete cookie (rt_rules rt type))\<rparr>)"

definition route_add :: "operation_type \<Rightarrow> string \<times> string \<Rightarrow> nat \<Rightarrow> routes \<Rightarrow> routes" where
  "route_add type url handler rt =
     (let (path, param) = url;
          rule = add_str path (match_rule_new handler);
          rule1 = (if param \<noteq> [] then rule_add_param param True rule else rule)
      in snd (add_cookie rule1 type rt))"

definition add_default_handler :: "nat \<Rightarrow> routes \<Rightarrow> routes" where
  "add_default_handler handler rt = rt\<lparr>rt_default := Some handler\<rparr>"

definition register_exception_handler :: "(http_exn \<Rightarrow> http_exn + reply) \<Rightarrow> routes \<Rightarrow> u64 \<times> routes" where
  "register_exception_handler f rt =
     (rt_exception_id rt, rt\<lparr>rt_exceptions := ordered_put (rt_exception_id rt) f (rt_exceptions rt),
                             rt_exception_id := rt_exception_id rt + 1\<rparr>)"

definition remove_exception_handler :: "u64 \<Rightarrow> routes \<Rightarrow> routes" where
  "remove_exception_handler i rt = rt\<lparr>rt_exceptions := AList.delete i (rt_exceptions rt)\<rparr>"

subsection \<open>Finding a handler\<close>

definition normalize_url :: "string \<Rightarrow> string" where
  "normalize_url url = (if length url < 2 \<or> last url \<noteq> CHR 0x2F then url else butlast url)"

text \<open>The outer \<open>None\<close> is the exception of a rule.\<close>

fun rules_loop :: "(u64 \<times> match_rule) list \<Rightarrow> nat option \<Rightarrow> string \<Rightarrow> string_map \<Rightarrow> (nat option \<times> string_map) option" where
  "rules_loop [] dflt url params = Some (dflt, params)"
| "rules_loop ((c, rule) # rules) dflt url params =
     (case rule_get rule url params of
        None \<Rightarrow> None
      | Some (Some h, ps) \<Rightarrow> Some (Some h, ps)
      | Some (None, ps) \<Rightarrow> rules_loop rules dflt url Map.empty)"

definition get_handler :: "operation_type \<Rightarrow> string \<Rightarrow> string_map \<Rightarrow> routes \<Rightarrow> (nat option \<times> string_map) option" where
  "get_handler type url params rt =
     (case rt_map rt type url of
        Some h \<Rightarrow> Some (Some h, params)
      | None \<Rightarrow> rules_loop (rt_rules rt type) (rt_default rt) url params)"

subsection \<open>Handling a request\<close>

fun exception_loop :: "(u64 \<times> (http_exn \<Rightarrow> http_exn + reply)) list \<Rightarrow> http_exn \<Rightarrow> http_exn + reply" where
  "exception_loop [] e = Inl e"
| "exception_loop ((i, f) # fs) e = (case f e of Inr r \<Rightarrow> Inr r | Inl e' \<Rightarrow> exception_loop fs e')"

definition exception_reply :: "http_exn \<Rightarrow> routes \<Rightarrow> reply" where
  "exception_reply e rt =
     (case exception_loop (rt_exceptions rt) e of
        Inr r \<Rightarrow> r
      | Inl e' \<Rightarrow> reply_done_as ''json'' (set_status (exn_status e') (json_base_to_json (json_exception e')) reply_new))"

fun verify_params :: "request \<Rightarrow> string list \<Rightarrow> http_exn option" where
  "verify_params req [] = None"
| "verify_params req (p # ps) = (if get_query_param req p = [] then Some (missing_param_exception p) else verify_params req ps)"

definition routes_handle :: "string \<Rightarrow> request \<Rightarrow> reply \<Rightarrow> routes \<Rightarrow> reply option" where
  "routes_handle path req rep rt =
     (case get_handler (str2type (req_method req)) (normalize_url path) (req_param req) rt of
        None \<Rightarrow> None
      | Some (None, ps) \<Rightarrow>
          Some (reply_done_as ''json'' (set_status St_not_found
            (json_base_to_json (json_exception (not_found_exception ''Not found''))) reply_new))
      | Some (Some i, ps) \<Rightarrow>
          (let req1 = req\<lparr>req_param := ps\<rparr>; h = rt_handlers rt i
           in Some (case verify_params req1 (hd_mandatory h) of
                Some e \<Rightarrow> exception_reply e rt
              | None \<Rightarrow>
                  (case hd_handle h path req1 rep of
                     Replies r \<Rightarrow> r
                   | Failed e \<Rightarrow> exception_reply e rt
                   | Thrown (Redirect_exception url) \<Rightarrow>
                       reply_done_as ''json'' (set_status St_moved_permanently [] (add_header ''Location'' url reply_new))
                   | Thrown e \<Rightarrow> exception_reply e rt))))"

subsection \<open>Path descriptions\<close>

datatype url_component_type = Param | Param_until_end_of_path | Fixed_string

record path_description =
  pd_params :: "(string \<times> url_component_type) list"
  pd_path :: string
  pd_method :: operation_type
  pd_cookie :: u64
  pd_mandatory_queryparams :: "string list"

definition pushparam :: "string \<Rightarrow> bool \<Rightarrow> path_description \<Rightarrow> path_description" where
  "pushparam param all_path pd =
     pd\<lparr>pd_params := pd_params pd @ [(param, if all_path then Param_until_end_of_path else Param)]\<rparr>"

definition push_static_path_part :: "string \<Rightarrow> path_description \<Rightarrow> path_description" where
  "push_static_path_part url pd = pd\<lparr>pd_params := pd_params pd @ [(url, Fixed_string)]\<rparr>"

definition pushmandatory_param :: "string \<Rightarrow> path_description \<Rightarrow> path_description" where
  "pushmandatory_param param pd = pd\<lparr>pd_mandatory_queryparams := pd_mandatory_queryparams pd @ [param]\<rparr>"

definition part_matcher :: "string \<times> url_component_type \<Rightarrow> match_rule \<Rightarrow> match_rule" where
  "part_matcher p rule =
     (case p of (name, t) \<Rightarrow>
        if t = Fixed_string then add_str name rule else rule_add_param name (t = Param_until_end_of_path) rule)"

definition path_set :: "nat \<Rightarrow> path_description \<Rightarrow> routes \<Rightarrow> (path_description \<times> routes) option" where
  "path_set handler pd rt =
     (let rt1 = rt\<lparr>rt_handlers := (rt_handlers rt)(handler := fold mandatory (pd_mandatory_queryparams pd) (rt_handlers rt handler))\<rparr>
      in if pd_params pd = [] then map_option (\<lambda>rt2. (pd, rt2)) (route_put (pd_method pd) (pd_path pd) handler rt1)
         else (let rule = fold part_matcher (pd_params pd) (add_str (pd_path pd) (match_rule_new handler));
                   (cookie, rt2) = add_cookie rule (pd_method pd) rt1
               in Some (pd\<lparr>pd_cookie := cookie\<rparr>, rt2)))"

definition path_unset :: "path_description \<Rightarrow> routes \<Rightarrow> routes" where
  "path_unset pd rt =
     (if pd_params pd = [] then snd (route_drop (pd_method pd) (pd_path pd) rt)
      else snd (del_cookie (pd_cookie pd) (pd_method pd) rt))"

text \<open>An alias: the handler of the old path, found with a made up value for every parameter, is copied
  to the new one. \<open>new\<close> is the name of the new object; \<open>None\<close> is the exception that nothing was found.\<close>

definition alias_path :: "path_description \<Rightarrow> string" where
  "alias_path pd = pd_path pd @ concat (map (\<lambda>(name, t). if t = Fixed_string then name else ''/k'') (pd_params pd))"

definition add_alias :: "nat \<Rightarrow> path_description \<Rightarrow> path_description \<Rightarrow> routes \<Rightarrow> (path_description \<times> routes) option" where
  "add_alias new old_path new_path rt =
     (case get_handler (pd_method old_path) (alias_path old_path) Map.empty rt of
        Some (Some a, ps) \<Rightarrow> path_set new new_path (rt\<lparr>rt_handlers := (rt_handlers rt)(new := rt_handlers rt a)\<rparr>)
      | _ \<Rightarrow> None)"

end
