(* ===== verification/HttpRoutesProps.thy ===== *)
theory HttpRoutesProps
  imports HttpRoutes JsonRead
begin

text \<open>
  What routing promises: the rules stay in the order in which they were registered, the first one
  that matches is taken with its own parameters and no others, taking a path back restores the
  tables, and whatever a handler does ends in a reply.
\<close>

subsection \<open>The tables over time\<close>

text \<open>Everything that changes the tables. The counter of the cookies has 64 bits; it does not get round.\<close>

inductive routes_step :: "routes \<Rightarrow> routes \<Rightarrow> bool" where
  put: "route_put type url h rt = Some rt' \<Longrightarrow> routes_step rt rt'"
| drop: "routes_step rt (snd (route_drop type url rt))"
| cookie: "rt_rover rt \<noteq> - 1 \<Longrightarrow> routes_step rt (snd (add_cookie rule type rt))"
| uncookie: "routes_step rt (snd (del_cookie c type rt))"
| add: "rt_rover rt \<noteq> - 1 \<Longrightarrow> routes_step rt (route_add type url h rt)"
| dflt: "routes_step rt (add_default_handler h rt)"
| handler: "routes_step rt (snd (register_exception_handler f rt))"
| unhandler: "routes_step rt (remove_exception_handler i rt)"
| set_path: "rt_rover rt \<noteq> - 1 \<Longrightarrow> path_set h pd rt = Some (pd', rt') \<Longrightarrow> routes_step rt rt'"
| unset_path: "routes_step rt (path_unset pd rt)"
| aliased: "rt_rover rt \<noteq> - 1 \<Longrightarrow> add_alias new pd1 pd2 rt = Some (pd', rt') \<Longrightarrow> routes_step rt rt'"

definition routes_empty :: "(nat \<Rightarrow> route_handler) \<Rightarrow> routes" where
  "routes_empty hs = \<lparr>rt_map = (\<lambda>t. Map.empty), rt_rover = 0, rt_rules = (\<lambda>t. []), rt_default = None,
     rt_exceptions = [], rt_exception_id = 0, rt_handlers = hs\<rparr>"

inductive routes_reachable :: "routes \<Rightarrow> bool" where
  start: "routes_reachable (routes_empty hs)"
| step: "routes_reachable rt \<Longrightarrow> routes_step rt rt' \<Longrightarrow> routes_reachable rt'"

definition rules_ok :: "routes \<Rightarrow> bool" where
  "rules_ok rt \<longleftrightarrow> (\<forall>t. sorted_wrt (<) (map fst (rt_rules rt t)) \<and> (\<forall>(c, r) \<in> set (rt_rules rt t). c < rt_rover rt))"

lemma ordered_put_last: "\<forall>(k', v') \<in> set m. k' < k \<Longrightarrow> ordered_put k v m = m @ [(k, v)]"
  by (induction m) auto

lemma rover_less: "x \<noteq> - 1 \<Longrightarrow> x < x + (1 :: u64)"
proof -
  assume "x \<noteq> - 1"
  then have "1 + x \<noteq> 0" by (metis add.commute eq_neg_iff_add_eq_0)
  then show ?thesis by (simp add: word_less_nat_alt unatSuc add.commute)
qed

lemma rules_ok_same: "rules_ok rt \<Longrightarrow> rt_rules rt' = rt_rules rt \<Longrightarrow> rt_rover rt' = rt_rover rt \<Longrightarrow> rules_ok rt'"
  by (simp add: rules_ok_def)

lemma add_cookie_eq:
  assumes "rules_ok rt"
  shows "rt_rules (snd (add_cookie rule type rt)) type = rt_rules rt type @ [(rt_rover rt, rule)]"
    "t \<noteq> type \<Longrightarrow> rt_rules (snd (add_cookie rule type rt)) t = rt_rules rt t"
  using assms by (auto simp: add_cookie_def rules_ok_def intro!: ordered_put_last)

lemma add_cookie_ok:
  assumes "rules_ok rt" "rt_rover rt \<noteq> - 1"
  shows "rules_ok (snd (add_cookie rule type rt))"
proof -
  have r: "rt_rover (snd (add_cookie rule type rt)) = rt_rover rt + 1" by (simp add: add_cookie_def)
  have lt: "rt_rover rt < rt_rover rt + 1" by (rule rover_less [OF assms(2)])
  have "sorted_wrt (<) (map fst (rt_rules (snd (add_cookie rule type rt)) t)) \<and>
      (\<forall>(c, r) \<in> set (rt_rules (snd (add_cookie rule type rt)) t). c < rt_rover rt + 1)" for t
    using assms(1) lt add_cookie_eq [OF assms(1)]
    by (cases "t = type") (fastforce simp: rules_ok_def sorted_wrt_append)+
  then show ?thesis by (simp add: rules_ok_def r)
qed

lemma sorted_delete: "sorted_wrt (<) (map fst m) \<Longrightarrow> sorted_wrt (<) (map fst (AList.delete k m))"
  by (induction m) (auto simp: AList.delete_eq)

lemma set_delete_subset: "x \<in> set (AList.delete k m) \<Longrightarrow> x \<in> set m"
  by (auto simp: AList.delete_eq)

lemma del_cookie_ok: "rules_ok rt \<Longrightarrow> rules_ok (snd (del_cookie c type rt))"
  using set_delete_subset by (fastforce simp: rules_ok_def del_cookie_def sorted_delete)

lemma path_set_cases:
  assumes "path_set h pd rt = Some (pd', rt')"
  obtains hs where "pd_params pd = []" "route_put (pd_method pd) (pd_path pd) h (rt\<lparr>rt_handlers := hs\<rparr>) = Some rt'" "pd' = pd"
  | hs rule where "pd_params pd \<noteq> []" "rt' = snd (add_cookie rule (pd_method pd) (rt\<lparr>rt_handlers := hs\<rparr>))"
      "pd' = pd\<lparr>pd_cookie := rt_rover rt\<rparr>" "rule = fold part_matcher (pd_params pd) (add_str (pd_path pd) (match_rule_new h))"
proof (cases "pd_params pd = []")
  case True
  show ?thesis by (rule that(1) [OF True]) (use assms True in \<open>auto simp: path_set_def Let_def\<close>)
next
  case False
  show ?thesis
    by (rule that(2) [OF False _ _ refl]) (use assms False in \<open>auto simp: path_set_def Let_def add_cookie_def\<close>)
qed

lemma route_put_rules: "route_put type url h rt = Some rt' \<Longrightarrow> rt_rules rt' = rt_rules rt \<and> rt_rover rt' = rt_rover rt"
  by (auto simp: route_put_def split: if_splits)

lemma path_set_ok:
  assumes "rules_ok rt" "rt_rover rt \<noteq> - 1" "path_set h pd rt = Some (pd', rt')"
  shows "rules_ok rt'"
  using assms(3)
proof (cases rule: path_set_cases)
  case (1 hs)
  then show ?thesis using rules_ok_same [OF assms(1)] route_put_rules [OF 1(2)] by simp
next
  case (2 hs rule)
  have "rules_ok (rt\<lparr>rt_handlers := hs\<rparr>)" using rules_ok_same [OF assms(1)] by simp
  from add_cookie_ok [OF this] show ?thesis using 2 assms(2) by simp
qed

lemma routes_step_ok: "routes_step rt rt' \<Longrightarrow> rules_ok rt \<Longrightarrow> rules_ok rt'"
proof (induction rule: routes_step.induct)
  case (add rt type url h)
  then show ?case by (auto simp: route_add_def Let_def split: prod.split intro: add_cookie_ok)
next
  case (aliased rt new pd1 pd2 pd' rt')
  then obtain hs where "path_set new pd2 (rt\<lparr>rt_handlers := hs\<rparr>) = Some (pd', rt')"
    by (auto simp: add_alias_def split: option.splits prod.splits)
  moreover have "rules_ok (rt\<lparr>rt_handlers := hs\<rparr>)" using rules_ok_same [OF aliased.prems] by simp
  ultimately show ?case using path_set_ok [of "rt\<lparr>rt_handlers := hs\<rparr>"] aliased.hyps(1) by simp
next
  case (unset_path rt pd)
  then show ?case using del_cookie_ok rules_ok_same [OF unset_path] by (simp add: path_unset_def route_drop_def)
next
  case (put type url h rt rt')
  then show ?case using rules_ok_same route_put_rules by blast
next
  case (cookie rt rule type)
  then show ?case using add_cookie_ok by blast
next
  case (uncookie rt c type)
  then show ?case by (rule del_cookie_ok)
next
  case (set_path rt h pd pd' rt')
  then show ?case using path_set_ok by blast
qed (auto elim!: rules_ok_same
    simp: route_drop_def add_default_handler_def register_exception_handler_def remove_exception_handler_def)

lemma routes_reachable_ok: "routes_reachable rt \<Longrightarrow> rules_ok rt"
proof (induction rule: routes_reachable.induct)
  case (start hs)
  then show ?case by (simp add: rules_ok_def routes_empty_def)
qed (rule routes_step_ok)

subsection \<open>The first rule that matches\<close>

definition rule_matches :: "match_rule \<Rightarrow> string \<Rightarrow> bool" where
  "rule_matches r url \<longleftrightarrow> match_list r = [] \<or> (\<exists>kvs. takes_apart (match_list r) url kvs)"

definition rule_reads :: "match_rule \<Rightarrow> string \<Rightarrow> string_map \<Rightarrow> bool" where
  "rule_reads r url ps \<longleftrightarrow>
     (if match_list r = [] then ps = Map.empty else \<exists>kvs. takes_apart (match_list r) url kvs \<and> ps = map_of (rev kvs))"

lemma rule_get_cases:
  obtains ps' where "rule_get r url Map.empty = Some (Some (rule_handler r), ps')" "rule_matches r url" "rule_reads r url ps'"
  | ps' where "rule_get r url Map.empty = Some (None, ps')" "\<not> rule_matches r url"
proof (cases "match_list r = []")
  case True
  then show ?thesis using rule_get_eq [of r url Map.empty] that(1) by (simp add: rule_matches_def rule_reads_def)
next
  case False
  obtain x ps' where g: "rule_get r url Map.empty = Some (x, ps')" "x \<in> {None, Some (rule_handler r)}"
    "\<And>ps''. rule_get r url Map.empty = Some (Some (rule_handler r), ps'') \<longleftrightarrow>
       (\<exists>kvs. takes_apart (match_list r) url kvs \<and> ps'' = map_of (rev kvs))"
    using rule_get_eq [of r url Map.empty] False by auto
  show ?thesis
  proof (cases x)
    case None
    then show ?thesis using g that(2) [of ps'] False by (auto simp: rule_matches_def)
  next
    case (Some y)
    then have "rule_get r url Map.empty = Some (Some (rule_handler r), ps')" using g(1,2) by simp
    moreover from this obtain kvs where "takes_apart (match_list r) url kvs" "ps' = map_of (rev kvs)" using g(3) by blast
    ultimately show ?thesis using that(1) [of ps'] False unfolding rule_matches_def rule_reads_def by auto
  qed
qed

lemma rules_loop_first:
  assumes "sorted_wrt (<) (map fst rules)"
  shows "\<exists>h ps'. rules_loop rules dflt url Map.empty = Some (h, ps') \<and>
    (h = dflt \<and> ps' = Map.empty \<and> (\<forall>(c, r) \<in> set rules. \<not> rule_matches r url) \<or>
     (\<exists>(c, r) \<in> set rules. h = Some (rule_handler r) \<and> rule_reads r url ps' \<and> rule_matches r url \<and>
       (\<forall>(c', r') \<in> set rules. c' < c \<longrightarrow> \<not> rule_matches r' url)))"
  using assms
proof (induction rules)
  case (Cons cr rules)
  obtain c r where cr: "cr = (c, r)" by fastforce
  have later: "c < c'" if "(c', r') \<in> set rules" for c' r' using Cons.prems that by (auto simp: cr)
  show ?case
  proof (cases rule: rule_get_cases [of r url])
    case (1 ps')
    have "\<forall>(c', r') \<in> set (cr # rules). c' < c \<longrightarrow> \<not> rule_matches r' url"
      using later by (force simp: cr)
    then show ?thesis using 1 by (intro exI [of _ "Some (rule_handler r)"] exI [of _ ps']) (auto simp: cr)
  next
    case (2 ps')
    then have l: "rules_loop (cr # rules) dflt url Map.empty = rules_loop rules dflt url Map.empty" by (simp add: cr)
    have "sorted_wrt (<) (map fst rules)" using Cons.prems by simp
    from Cons.IH [OF this] obtain h ps1 where ih: "rules_loop rules dflt url Map.empty = Some (h, ps1)"
      "h = dflt \<and> ps1 = Map.empty \<and> (\<forall>(c, r) \<in> set rules. \<not> rule_matches r url) \<or>
       (\<exists>(c, r) \<in> set rules. h = Some (rule_handler r) \<and> rule_reads r url ps1 \<and> rule_matches r url \<and>
         (\<forall>(c', r') \<in> set rules. c' < c \<longrightarrow> \<not> rule_matches r' url))" by blast
    show ?thesis unfolding l using ih 2(2) by (intro exI [of _ h] exI [of _ ps1]) (auto simp: cr)
  qed
qed simp

text \<open>C31. Routing takes the exact match if there is one, and otherwise, of the rules registered for the
  operation, the one registered first that matches the URL; the parameters are those of that rule
  alone, whatever the rules tried before had set; without a match it is the default handler, with
  no parameters. Looking for a handler never throws.\<close>

theorem routing_takes_first_match:
  assumes "routes_reachable rt"
  shows "\<exists>h ps. get_handler type url Map.empty rt = Some (h, ps) \<and>
    (case rt_map rt type url of
       Some i \<Rightarrow> h = Some i \<and> ps = Map.empty
     | None \<Rightarrow>
         h = rt_default rt \<and> ps = Map.empty \<and> (\<forall>(c, r) \<in> set (rt_rules rt type). \<not> rule_matches r url) \<or>
         (\<exists>(c, r) \<in> set (rt_rules rt type). h = Some (rule_handler r) \<and> rule_reads r url ps \<and> rule_matches r url \<and>
           (\<forall>(c', r') \<in> set (rt_rules rt type). c' < c \<longrightarrow> \<not> rule_matches r' url)))"
proof -
  have "sorted_wrt (<) (map fst (rt_rules rt type))" using routes_reachable_ok [OF assms] by (simp add: rules_ok_def)
  from rules_loop_first [OF this, of "rt_default rt" url] show ?thesis
    by (cases "rt_map rt type url") (simp_all add: get_handler_def)
qed

definition sample_routes :: routes where
  "sample_routes = route_add Op_GET (''/a'', ''rest'') 5 (routes_empty (\<lambda>i. \<lparr>hd_mandatory = [], hd_handle = (\<lambda>path req rep. Replies rep)\<rparr>))"

lemma sample_routes_reachable: "routes_reachable sample_routes"
  unfolding sample_routes_def
  by (rule routes_reachable.step [OF routes_reachable.start routes_step.add]) (simp add: routes_empty_def)

theorem routing_takes_first_match_witness:
  "get_handler Op_GET ''/a/b'' Map.empty sample_routes = Some (Some 5, [''rest'' \<mapsto> ''/b''])"
proof -
  let ?r = "\<lparr>match_list = [Str_matcher ''/a'', Param_matcher ''rest'' True], rule_handler = 5\<rparr>"
  have r: "rt_map sample_routes Op_GET ''/a/b'' = None" "rt_rules sample_routes Op_GET = [(0, ?r)]"
    by (simp_all add: sample_routes_def route_add_def routes_empty_def add_cookie_def match_rule_new_def add_str_def
        rule_add_param_def add_matcher_def)
  have "takes_apart [Str_matcher ''/a'', Param_matcher ''rest'' True] (''/a'' @ ''/b'') [(''rest'', ''/b'')]"
    by (intro takes_apart.fixed takes_apart.remainder takes_apart.at_end) (simp_all add: at_boundary_def)
  then have "rule_matches ?r ''/a/b''" by (auto simp: rule_matches_def)
  moreover have "kvs = [(''rest'', ''/b'')]" if "takes_apart [Str_matcher ''/a'', Param_matcher ''rest'' True] ''/a/b'' kvs" for kvs
    using that by (auto elim!: takes_apart_StrE takes_apart_RestE takes_apart_NilE)
  then have "ps = [''rest'' \<mapsto> ''/b'']" if "rule_reads ?r ''/a/b'' ps" for ps
    using that unfolding rule_reads_def by fastforce
  ultimately show ?thesis
    using routing_takes_first_match [OF sample_routes_reachable, of Op_GET "''/a/b''"] r by auto
qed

subsection \<open>Registering a path and taking it back\<close>

lemma delete_last: "k \<notin> fst ` set m \<Longrightarrow> AList.delete k (m @ [(k, v)]) = m"
  by (induction m) auto

text \<open>C32. A path description that was set is routed, and taking it back restores the tables: with
  parameters, its rule stands behind all others of its operation, so that a URL that no exact match
  and no earlier rule takes, and that its matchers take apart, goes to its handler; without, its
  path goes to its handler unless the path was taken, which is an exception; and after taking it
  back every URL is routed as it was before.\<close>

theorem path_set_then_unset:
  assumes "routes_reachable rt" "rt_rover rt \<noteq> - 1"
  shows "case path_set h pd rt of
      None \<Rightarrow> pd_params pd = [] \<and> rt_map rt (pd_method pd) (pd_path pd) \<noteq> None
    | Some (pd', rt') \<Rightarrow>
        rt_map (path_unset pd' rt') = rt_map rt \<and> rt_rules (path_unset pd' rt') = rt_rules rt \<and>
        get_handler t url ps (path_unset pd' rt') = get_handler t url ps rt \<and>
        (if pd_params pd = [] then get_handler (pd_method pd) (pd_path pd) ps rt' = Some (Some h, ps)
         else \<exists>rule. rt_rules rt' (pd_method pd) = rt_rules rt (pd_method pd) @ [(rt_rover rt, rule)] \<and> rule_handler rule = h \<and>
           match_list rule = Str_matcher (pd_path pd) # map (\<lambda>(name, t). if t = Fixed_string then Str_matcher name
             else Param_matcher name (t = Param_until_end_of_path)) (pd_params pd))"
proof (cases "path_set h pd rt")
  case None
  then show ?thesis by (auto simp: path_set_def Let_def add_cookie_def route_put_def split: if_splits)
next
  case (Some x)
  obtain pd' rt' where x: "x = (pd', rt')" by fastforce
  have ok: "rules_ok rt" using routes_reachable_ok [OF assms(1)] .
  have def_eq: "rt_default (path_unset pd' rt') = rt_default rt"
    using Some x by (auto simp: path_set_def Let_def add_cookie_def route_put_def path_unset_def route_drop_def del_cookie_def
        split: if_splits)
  from Some x have "path_set h pd rt = Some (pd', rt')" by simp
  then show ?thesis
  proof (cases rule: path_set_cases)
    case (1 hs)
    then have rt': "rt_map rt (pd_method pd) (pd_path pd) = None"
      "rt' = rt\<lparr>rt_handlers := hs, rt_map := (rt_map rt)(pd_method pd := (rt_map rt (pd_method pd))(pd_path pd \<mapsto> h))\<rparr>"
      by (auto simp: route_put_def split: if_splits)
    then have m: "rt_map (path_unset pd' rt') = rt_map rt" "rt_rules (path_unset pd' rt') = rt_rules rt"
      using 1 by (auto simp: path_unset_def route_drop_def fun_eq_iff)
    have same: "get_handler t url ps (path_unset pd' rt') = get_handler t url ps rt"
      unfolding get_handler_def m def_eq ..
    have "get_handler (pd_method pd) (pd_path pd) ps rt' = Some (Some h, ps)"
      using rt'(2) by (simp add: get_handler_def)
    then show ?thesis using Some x 1(1) m same by simp
  next
    case (2 hs rule)
    have ok': "rules_ok (rt\<lparr>rt_handlers := hs\<rparr>)" using rules_ok_same [OF ok] by simp
    have fresh: "rt_rover rt \<notin> fst ` set (rt_rules rt (pd_method pd))"
      using ok by (fastforce simp: rules_ok_def)
    have rules: "rt_rules rt' (pd_method pd) = rt_rules rt (pd_method pd) @ [(rt_rover rt, rule)]"
      "\<And>t. t \<noteq> pd_method pd \<Longrightarrow> rt_rules rt' t = rt_rules rt t"
      using add_cookie_eq [OF ok', where rule = rule and type = "pd_method pd"] 2(2) by simp_all
    have m: "rt_map (path_unset pd' rt') = rt_map rt" "rt_rules (path_unset pd' rt') = rt_rules rt"
      using 2 rules delete_last [OF fresh] by (auto simp: path_unset_def del_cookie_def add_cookie_def fun_eq_iff)
    have "match_list (fold part_matcher ps r) = match_list r @ map (\<lambda>(name, t). if t = Fixed_string then Str_matcher name
        else Param_matcher name (t = Param_until_end_of_path)) ps \<and> rule_handler (fold part_matcher ps r) = rule_handler r" for ps r
      by (induction ps arbitrary: r) (auto simp: part_matcher_def add_str_def rule_add_param_def add_matcher_def)
    then have "rule_handler rule = h" "match_list rule = Str_matcher (pd_path pd) # map (\<lambda>(name, t). if t = Fixed_string then Str_matcher name
        else Param_matcher name (t = Param_until_end_of_path)) (pd_params pd)"
      using 2(4) by (simp_all add: add_str_def add_matcher_def match_rule_new_def)
    moreover have "get_handler t url ps (path_unset pd' rt') = get_handler t url ps rt"
      unfolding get_handler_def m def_eq ..
    ultimately show ?thesis using Some x 2(1) rules(1) m by simp
  qed
qed

theorem path_set_then_unset_witness:
  "\<exists>pd' rt'. path_set 3 \<lparr>pd_params = [(''id'', Param)], pd_path = ''/u'', pd_method = Op_GET, pd_cookie = 0,
      pd_mandatory_queryparams = []\<rparr> sample_routes = Some (pd', rt') \<and>
    rt_rules (path_unset pd' rt') = rt_rules sample_routes"
proof -
  let ?pd = "\<lparr>pd_params = [(''id'', Param)], pd_path = ''/u'', pd_method = Op_GET, pd_cookie = 0, pd_mandatory_queryparams = []\<rparr>"
  have "rt_rover sample_routes \<noteq> - 1"
    by (simp add: sample_routes_def route_add_def add_cookie_def routes_empty_def)
  note restored = path_set_then_unset [OF sample_routes_reachable this, where h = 3 and pd = ?pd]
  show ?thesis
  proof (cases "path_set 3 ?pd sample_routes")
    case None
    with restored show ?thesis by simp
  next
    case (Some x)
    with restored show ?thesis by (cases x) simp
  qed
qed

end
