(* ===== verification/Ragel.thy ===== *)
theory Ragel
  imports Text
begin

text \<open>
  The machines of the message parsers, as the parser generator writes them
  (\<open>http/request_parser.hh\<close>, \<open>http/response_parser.hh\<close>). A machine is a transition function: the actions
  and the next state for a state and the character read; state 0 is the error state. The text an
  action stores is collected by an \<open>sstring_builder\<close> of the core library, which is a parameter: the
  record of its operations, over any type of builder state. A pointer into the block that is parsed
  is a position in it.
\<close>

record 'b sstring_builder =
  sb_reset :: "'b \<Rightarrow> 'b"
  sb_enter :: "'b \<Rightarrow> 'b"
  sb_leave :: "string \<Rightarrow> 'b \<Rightarrow> 'b"
  sb_mark_start :: "nat option \<Rightarrow> 'b \<Rightarrow> 'b"
  sb_mark_end :: "string \<Rightarrow> nat \<Rightarrow> 'b \<Rightarrow> 'b"
  sb_get :: "'b \<Rightarrow> string \<times> 'b"

text \<open>\<open>Take\<close> ends the marked text at the current character and stores it; \<open>Take_no_mark\<close> stores what was
  collected up to the last end and forgets the mark.\<close>

datatype 'm parse_action =
  Mark | Checkpoint | Take "string \<Rightarrow> 'm \<Rightarrow> 'm" | Take_no_mark "string \<Rightarrow> 'm \<Rightarrow> 'm" | Update "'m \<Rightarrow> 'm" | is_Finish: Finish

datatype parser_state = Ps_error | Ps_eof | Ps_done

record ('b, 'm) ragel_parser =
  fsm_cs :: nat
  rg_builder :: 'b
  rg_data :: 'm
  rg_state :: parser_state

type_synonym 'm transitions = "nat \<Rightarrow> char \<Rightarrow> 'm parse_action list \<times> nat"

fun run_action :: "'b sstring_builder \<Rightarrow> string \<Rightarrow> nat \<Rightarrow> 'm parse_action \<Rightarrow> ('b, 'm) ragel_parser \<Rightarrow> ('b, 'm) ragel_parser" where
  "run_action bo blk p Mark par = par\<lparr>rg_builder := sb_mark_start bo (Some p) (rg_builder par)\<rparr>"
| "run_action bo blk p Checkpoint par =
     par\<lparr>rg_builder := sb_mark_start bo (Some p) (sb_mark_end bo blk p (rg_builder par))\<rparr>"
| "run_action bo blk p (Take f) par =
     (let (s, b) = sb_get bo (sb_mark_end bo blk p (rg_builder par)) in par\<lparr>rg_builder := b, rg_data := f s (rg_data par)\<rparr>)"
| "run_action bo blk p (Take_no_mark f) par =
     (let (s, b) = sb_get bo (rg_builder par)
      in par\<lparr>rg_builder := sb_mark_start bo None b, rg_data := f s (rg_data par)\<rparr>)"
| "run_action bo blk p (Update f) par = par\<lparr>rg_data := f (rg_data par)\<rparr>"
| "run_action bo blk p Finish par = par"

definition test_eof :: "nat \<Rightarrow> ('b, 'm) ragel_parser \<Rightarrow> ('b, 'm) ragel_parser" where
  "test_eof st par = par\<lparr>fsm_cs := st\<rparr>"

text \<open>The machine at position \<open>p\<close> of the block, whose rest from there is the list: the position where it
  stops, and whether the message is done.\<close>

fun fsm_run :: "'m transitions \<Rightarrow> nat \<Rightarrow> 'b sstring_builder \<Rightarrow> string \<Rightarrow> string \<Rightarrow> nat \<Rightarrow> nat \<Rightarrow> ('b, 'm) ragel_parser
    \<Rightarrow> nat \<times> bool \<times> ('b, 'm) ragel_parser" where
  "fsm_run T final bo blk [] p st par = (p, False, test_eof st par)"
| "fsm_run T final bo blk (c # cs) p st par =
     (let (acts, st') = T st c; par' = fold (run_action bo blk p) acts par
      in if list_ex is_Finish acts then (p + 1, True, par'\<lparr>fsm_cs := final\<rparr>)
         else if st' = 0 then (p, False, par'\<lparr>fsm_cs := 0\<rparr>)
         else fsm_run T final bo blk cs (p + 1) st' par')"

text \<open>One call of \<open>parse\<close> on a block: the result is the position behind the message, or \<open>None\<close> (the
  null pointer) when more input is wanted. \<open>at_eof\<close> says that the end of the block is the end of the
  input; only the request parser looks at it.\<close>

definition ragel_parse :: "'m transitions \<Rightarrow> nat \<Rightarrow> 'b sstring_builder \<Rightarrow> (nat \<Rightarrow> nat \<Rightarrow> parser_state \<Rightarrow> nat option \<times> parser_state)
    \<Rightarrow> string \<Rightarrow> ('b, 'm) ragel_parser \<Rightarrow> nat option \<times> ('b, 'm) ragel_parser" where
  "ragel_parse T final bo ending blk par =
     (let par1 = par\<lparr>rg_builder := sb_enter bo (rg_builder par), rg_state := if blk \<noteq> [] then Ps_error else rg_state par\<rparr>;
          (p, finished, par2) = fsm_run T final bo blk blk 0 (fsm_cs par1) par1;
          (res, s) = (if finished then (Some p, Ps_done) else ending p (length blk) (rg_state par2))
      in (res, par2\<lparr>rg_state := s, rg_builder := sb_leave bo blk (rg_builder par2)\<rparr>))"

text \<open>The calls of \<open>parse\<close> on the blocks of the input, up to the one that ends the message: the text of
  its block behind the message, and the blocks not looked at.\<close>

fun parse_blocks :: "(string \<Rightarrow> 'p \<Rightarrow> nat option \<times> 'p) \<Rightarrow> string list \<Rightarrow> 'p \<Rightarrow> (string \<times> string list) option \<times> 'p" where
  "parse_blocks P [] par = (None, par)"
| "parse_blocks P (b # bs) par =
     (case P b par of
        (None, par') \<Rightarrow> parse_blocks P bs par'
      | (Some p, par') \<Rightarrow> (Some (drop p b, bs), par'))"

subsection \<open>What the builder promises\<close>

text \<open>The documented behaviour of the builder, over what it has collected and the mark it holds: it
  collects the text between a mark and its end, also from the segments in between.\<close>

definition collects :: "'b sstring_builder \<Rightarrow> ('b \<Rightarrow> string) \<Rightarrow> ('b \<Rightarrow> nat option) \<Rightarrow> bool" where
  "collects bo val mark \<longleftrightarrow>
     (\<forall>b. val (sb_reset bo b) = [] \<and> mark (sb_reset bo b) = None) \<and>
     (\<forall>b. val (sb_enter bo b) = val b \<and> mark (sb_enter bo b) = (if val b = [] then mark b else Some 0)) \<and>
     (\<forall>blk b. val (sb_leave bo blk b) = val b @ (case mark b of None \<Rightarrow> [] | Some s \<Rightarrow> drop s blk) \<and>
        mark (sb_leave bo blk b) = None) \<and>
     (\<forall>p b. val (sb_mark_start bo p b) = val b \<and> mark (sb_mark_start bo p b) = p) \<and>
     (\<forall>blk b s p. mark b = Some s \<longrightarrow> s \<le> p \<longrightarrow> p \<le> length blk \<longrightarrow>
        val (sb_mark_end bo blk p b) = val b @ take (p - s) (drop s blk) \<and> mark (sb_mark_end bo blk p b) = None) \<and>
     (\<forall>b. fst (sb_get bo b) = val b \<and> val (snd (sb_get bo b)) = [] \<and> mark (snd (sb_get bo b)) = mark b)"

text \<open>A builder that does so.\<close>

definition plain_builder :: "(string \<times> nat option) sstring_builder" where
  "plain_builder =
     \<lparr>sb_reset = (\<lambda>b. ([], None)),
      sb_enter = (\<lambda>(v, m). (v, if v = [] then m else Some 0)),
      sb_leave = (\<lambda>blk (v, m). (v @ (case m of None \<Rightarrow> [] | Some s \<Rightarrow> drop s blk), None)),
      sb_mark_start = (\<lambda>p (v, m). (v, p)),
      sb_mark_end = (\<lambda>blk p (v, m). (case m of None \<Rightarrow> (v, None) | Some s \<Rightarrow> (v @ take (p - s) (drop s blk), None))),
      sb_get = (\<lambda>(v, m). (v, ([], m)))\<rparr>"

lemma plain_builder_collects: "collects plain_builder fst snd"
  by (auto simp: collects_def plain_builder_def)

subsection \<open>Machines on the whole text\<close>

text \<open>The same machine on a text that is not cut, with the text since the mark in place of a builder.
  \<open>sc_upto\<close>: all of it has been collected. It is stuck where the builder holds no mark, and where
  the collected part is wanted while there is more.\<close>

record 'm scan =
  sc_text :: "string option"
  sc_upto :: bool
  sc_data :: 'm

datatype 'm scanned = Stuck | More nat "'m scan" | Failing string 'm | Finished string 'm

fun scan_action :: "'m parse_action \<Rightarrow> 'm scan \<Rightarrow> 'm scan option" where
  "scan_action Mark s = (if sc_text s = None then Some (s\<lparr>sc_text := Some [], sc_upto := True\<rparr>) else None)"
| "scan_action Checkpoint s = (if sc_text s = None then None else Some (s\<lparr>sc_upto := True\<rparr>))"
| "scan_action (Take f) s =
     (case sc_text s of None \<Rightarrow> None | Some t \<Rightarrow> Some (s\<lparr>sc_text := None, sc_upto := False, sc_data := f t (sc_data s)\<rparr>))"
| "scan_action (Take_no_mark f) s =
     (case sc_text s of
        None \<Rightarrow> None
      | Some t \<Rightarrow> if sc_upto s then Some (s\<lparr>sc_text := None, sc_upto := False, sc_data := f t (sc_data s)\<rparr>) else None)"
| "scan_action (Update f) s = Some (s\<lparr>sc_data := f (sc_data s)\<rparr>)"
| "scan_action Finish s = Some s"

fun scan_actions :: "'m parse_action list \<Rightarrow> 'm scan \<Rightarrow> 'm scan option" where
  "scan_actions [] s = Some s"
| "scan_actions (a # as) s = (case scan_action a s of None \<Rightarrow> None | Some s' \<Rightarrow> scan_actions as s')"

definition scan_char :: "char \<Rightarrow> 'm scan \<Rightarrow> 'm scan" where
  "scan_char c s = s\<lparr>sc_text := map_option (\<lambda>t. t @ [c]) (sc_text s), sc_upto := False\<rparr>"

fun scan_run :: "'m transitions \<Rightarrow> string \<Rightarrow> nat \<Rightarrow> 'm scan \<Rightarrow> 'm scanned" where
  "scan_run T [] st s = More st s"
| "scan_run T (c # cs) st s =
     (let (acts, st') = T st c
      in case scan_actions acts s of
           None \<Rightarrow> Stuck
         | Some s' \<Rightarrow>
             if list_ex is_Finish acts then Finished cs (sc_data s')
             else if st' = 0 then Failing (c # cs) (sc_data s')
             else scan_run T cs st' (scan_char c s'))"

fun scan_more :: "'m transitions \<Rightarrow> string \<Rightarrow> 'm scanned \<Rightarrow> 'm scanned" where
  "scan_more T ys (More st s) = scan_run T ys st s"
| "scan_more T ys (Finished r m) = Finished (r @ ys) m"
| "scan_more T ys (Failing r m) = Failing (r @ ys) m"
| "scan_more T ys Stuck = Stuck"

lemma scan_run_append: "scan_run T (xs @ ys) st s = scan_more T ys (scan_run T xs st s)"
  by (induction xs arbitrary: st s) (auto simp: Let_def split: prod.split option.split)

subsection \<open>The machine on blocks follows the machine on the text\<close>

text \<open>At position \<open>p\<close> of a block; and between blocks.\<close>

definition follows :: "('b \<Rightarrow> string) \<Rightarrow> ('b \<Rightarrow> nat option) \<Rightarrow> string \<Rightarrow> nat \<Rightarrow> ('b, 'm) ragel_parser \<Rightarrow> 'm scan \<Rightarrow> bool" where
  "follows val mark blk p par s \<longleftrightarrow>
     rg_data par = sc_data s \<and> p \<le> length blk \<and>
     (case sc_text s of
        None \<Rightarrow> val (rg_builder par) = [] \<and> mark (rg_builder par) = None
      | Some t \<Rightarrow> (\<exists>q \<le> p. mark (rg_builder par) = Some q \<and> t = val (rg_builder par) @ take (p - q) (drop q blk) \<and>
          (sc_upto s \<longrightarrow> t = val (rg_builder par))))"

definition between :: "('b \<Rightarrow> string) \<Rightarrow> ('b \<Rightarrow> nat option) \<Rightarrow> ('b, 'm) ragel_parser \<Rightarrow> nat \<Rightarrow> 'm scan \<Rightarrow> bool" where
  "between val mark par st s \<longleftrightarrow>
     rg_data par = sc_data s \<and> fsm_cs par = st \<and> mark (rg_builder par) = None \<and> sc_text s \<noteq> Some [] \<and>
     \<not> sc_upto s \<and> val (rg_builder par) = (case sc_text s of None \<Rightarrow> [] | Some t \<Rightarrow> t)"

lemma collectsD:
  assumes "collects bo val mark"
  shows "val (sb_reset bo b) = []" "mark (sb_reset bo b) = None"
    "val (sb_enter bo b) = val b" "mark (sb_enter bo b) = (if val b = [] then mark b else Some 0)"
    "val (sb_leave bo blk b) = val b @ (case mark b of None \<Rightarrow> [] | Some s \<Rightarrow> drop s blk)"
    "mark (sb_leave bo blk b) = None"
    "val (sb_mark_start bo p b) = val b" "mark (sb_mark_start bo p b) = p"
    "mark b = Some s \<Longrightarrow> s \<le> q \<Longrightarrow> q \<le> length blk \<Longrightarrow> val (sb_mark_end bo blk q b) = val b @ take (q - s) (drop s blk)"
    "mark b = Some s \<Longrightarrow> s \<le> q \<Longrightarrow> q \<le> length blk \<Longrightarrow> mark (sb_mark_end bo blk q b) = None"
    "fst (sb_get bo b) = val b" "val (snd (sb_get bo b)) = []" "mark (snd (sb_get bo b)) = mark b"
  using assms unfolding collects_def by blast+

lemma run_action_keeps: "fsm_cs (run_action bo blk p a par) = fsm_cs par \<and> rg_state (run_action bo blk p a par) = rg_state par"
  by (cases a) (auto simp: Let_def split: prod.split)

lemma follows_action:
  assumes laws: "collects bo val mark" and par: "follows val mark blk p par s" and act: "scan_action a s = Some s'"
  shows "follows val mark blk p (run_action bo blk p a par) s'"
  using par act
  by (cases a; cases "sc_text s")
    (auto simp: follows_def collectsD [OF laws] Let_def case_prod_beta split: if_splits)

lemma follows_actions:
  assumes "collects bo val mark" "follows val mark blk p par s" "scan_actions as s = Some s'"
  shows "follows val mark blk p (fold (run_action bo blk p) as par) s'"
  using assms(2,3)
proof (induction as arbitrary: par s)
  case Nil
  then show ?case by simp
next
  case (Cons a as)
  then obtain s1 where "scan_action a s = Some s1" "scan_actions as s1 = Some s'" by (auto split: option.splits)
  with Cons.IH follows_action [OF assms(1) Cons.prems(1)] show ?case by auto
qed

lemma run_actions_keep: "fsm_cs (fold (run_action bo blk p) as par) = fsm_cs par \<and> rg_state (fold (run_action bo blk p) as par) = rg_state par"
  by (induction as arbitrary: par) (auto simp: run_action_keeps)

lemma follows_char:
  assumes "follows val mark blk p par s" "drop p blk = c # cs"
  shows "follows val mark blk (p + 1) par (scan_char c s)"
proof -
  have p: "p < length blk" "blk ! p = c"
    using assms(2) by (auto intro: ccontr) (metis nth_via_drop)
  have "take (Suc p - q) (drop q blk) = take (p - q) (drop q blk) @ [c]" if "q \<le> p" for q
    using take_Suc_conv_app_nth [of "p - q" "drop q blk"] p that by (simp add: Suc_diff_le)
  then show ?thesis
    using assms p(1) by (cases "sc_text s") (auto simp: follows_def scan_char_def)
qed

definition run_agrees :: "('b \<Rightarrow> string) \<Rightarrow> ('b \<Rightarrow> nat option) \<Rightarrow> string \<Rightarrow> ('b, 'm) ragel_parser \<Rightarrow> 'm scanned
    \<Rightarrow> nat \<times> bool \<times> ('b, 'm) ragel_parser \<Rightarrow> bool" where
  "run_agrees val mark blk par sc out \<longleftrightarrow>
     (case out of (p, finished, par') \<Rightarrow>
        (sc \<noteq> Stuck \<longrightarrow> rg_state par' = rg_state par) \<and>
        (case sc of
           Stuck \<Rightarrow> True
         | More st s \<Rightarrow> p = length blk \<and> \<not> finished \<and> follows val mark blk p par' s \<and> fsm_cs par' = st
         | Failing r m \<Rightarrow> p < length blk \<and> \<not> finished \<and> drop p blk = r \<and> rg_data par' = m
         | Finished r m \<Rightarrow> p \<le> length blk \<and> finished \<and> drop p blk = r \<and> rg_data par' = m))"

lemma run_agrees_trans: "rg_state par = rg_state par0 \<Longrightarrow> run_agrees val mark blk par sc out \<Longrightarrow> run_agrees val mark blk par0 sc out"
  by (auto simp: run_agrees_def)

lemma fsm_run_agrees:
  assumes laws: "collects bo val mark"
  shows "follows val mark blk p par s \<Longrightarrow> drop p blk = cs
    \<Longrightarrow> run_agrees val mark blk par (scan_run T cs st s) (fsm_run T final bo blk cs p st par)"
proof (induction cs arbitrary: p st par s)
  case Nil
  then have "p = length blk" by (simp add: follows_def)
  with Nil show ?case by (auto simp: run_agrees_def test_eof_def follows_def split: option.split)
next
  case (Cons c cs)
  obtain acts st' where T: "T st c = (acts, st')" by fastforce
  have p: "p < length blk" using Cons.prems(2) by (auto intro: ccontr)
  have rest: "drop (p + 1) blk = cs" using Cons.prems(2) by (metis add.commute drop_drop drop_Suc_Cons drop_0 plus_1_eq_Suc One_nat_def)
  show ?case
  proof (cases "scan_actions acts s")
    case None
    then show ?thesis by (simp add: T run_agrees_def split: prod.split)
  next
    case (Some s')
    let ?par = "fold (run_action bo blk p) acts par"
    have fol: "follows val mark blk p ?par s'" by (rule follows_actions [OF laws Cons.prems(1) Some])
    have step: "run_agrees val mark blk ?par (scan_run T cs st' (scan_char c s')) (fsm_run T final bo blk cs (p + 1) st' ?par)"
      by (rule Cons.IH [OF follows_char [OF fol Cons.prems(2)] rest])
    show ?thesis
    proof (cases "list_ex is_Finish acts \<or> st' = 0")
      case True
      then show ?thesis using Some T p rest Cons.prems(2) fol run_actions_keep [of bo blk p acts par]
        by (auto simp: run_agrees_def follows_def)
    next
      case False
      then show ?thesis using Some T run_agrees_trans [OF _ step] run_actions_keep [of bo blk p acts par] by simp
    qed
  qed
qed

lemma scan_run_text:
  "scan_run T cs st s = More st' s' \<Longrightarrow> sc_text s \<noteq> Some [] \<Longrightarrow> \<not> sc_upto s \<Longrightarrow> sc_text s' \<noteq> Some [] \<and> \<not> sc_upto s'"
proof (induction cs arbitrary: st s)
  case Nil
  then show ?case by simp
next
  case (Cons c cs)
  then show ?case by (auto simp: Let_def scan_char_def split: prod.splits option.splits if_splits)
qed

text \<open>One call of \<open>parse\<close>, and all of them. A block is never empty, unless it stands for the end of the
  input.\<close>

lemma enter_follows:
  assumes "collects bo val mark" "between val mark par st s"
  shows "follows val mark blk 0 (par\<lparr>rg_builder := sb_enter bo (rg_builder par), rg_state := x\<rparr>) s"
  using assms(2) by (auto simp: follows_def between_def collectsD [OF assms(1)] split: option.splits)

lemma leave_between:
  assumes "collects bo val mark" "follows val mark blk (length blk) par s" "sc_text s \<noteq> Some []" "\<not> sc_upto s"
  shows "between val mark (par\<lparr>rg_state := x, rg_builder := sb_leave bo blk (rg_builder par)\<rparr>) (fsm_cs par) s"
  using assms(2-) by (auto simp: follows_def between_def collectsD [OF assms(1)] split: option.splits)

lemma ragel_parse_agrees:
  fixes T :: "'m transitions" and final :: nat
  assumes laws: "collects bo val mark" and par: "between val mark par st s" and blk: "blk \<noteq> []"
    and ending: "\<And>x. ending (length blk) (length blk) x = (None, x)"
  defines "out \<equiv> ragel_parse T final bo ending blk par"
  shows "case scan_run T blk st s of
      Stuck \<Rightarrow> True
    | More st' s' \<Rightarrow> fst out = None \<and> rg_state (snd out) = Ps_error \<and> between val mark (snd out) st' s'
    | Failing r m \<Rightarrow> (\<exists>p < length blk. drop p blk = r \<and> fst out = fst (ending p (length blk) Ps_error) \<and>
        rg_state (snd out) = snd (ending p (length blk) Ps_error)) \<and> rg_data (snd out) = m
    | Finished r m \<Rightarrow> (\<exists>p. fst out = Some p \<and> drop p blk = r) \<and> rg_state (snd out) = Ps_done \<and> rg_data (snd out) = m"
proof -
  let ?par = "par\<lparr>rg_builder := sb_enter bo (rg_builder par), rg_state := Ps_error\<rparr>"
  have st: "fsm_cs ?par = st" using par by (simp add: between_def)
  obtain p finished par' where run: "fsm_run T final bo blk blk 0 st ?par = (p, finished, par')"
    by (metis prod_cases3)
  have agrees: "run_agrees val mark blk ?par (scan_run T blk st s) (p, finished, par')"
    using fsm_run_agrees [OF laws enter_follows [OF laws par, of blk Ps_error], of blk T st final] run by simp
  have out: "out = (let (res, x) = (if finished then (Some p, Ps_done) else ending p (length blk) (rg_state par'))
      in (res, par'\<lparr>rg_state := x, rg_builder := sb_leave bo blk (rg_builder par')\<rparr>))"
    using blk run st by (simp add: out_def ragel_parse_def Let_def)
  show ?thesis
  proof (cases "scan_run T blk st s")
    case (More st' s')
    have "sc_text s' \<noteq> Some [] \<and> \<not> sc_upto s'" using scan_run_text [OF More] par by (simp add: between_def)
    then show ?thesis using agrees More out ending leave_between [OF laws, of blk par' s']
      by (auto simp: run_agrees_def)
  qed (use agrees out in \<open>auto simp: run_agrees_def Let_def case_prod_beta\<close>)
qed

definition outcome_is :: "(string \<times> string list) option \<times> ('b, 'm) ragel_parser \<Rightarrow> string \<Rightarrow> 'm \<Rightarrow> parser_state \<Rightarrow> bool" where
  "outcome_is out r m x \<longleftrightarrow>
     (\<exists>d bs par. out = (Some (d, bs), par) \<and> d @ concat bs = r \<and> rg_data par = m \<and> rg_state par = x)"

lemma parse_blocks_agree:
  fixes T :: "'m transitions" and final :: nat
  assumes laws: "collects bo val mark"
    and ending: "\<And>x n. ending n n x = (None, x)"
  defines "P \<equiv> ragel_parse T final bo ending"
  shows "between val mark par st s \<Longrightarrow> \<forall>b \<in> set bs. b \<noteq> [] \<Longrightarrow>
    (case scan_run T (concat bs) st s of
      Stuck \<Rightarrow> True
    | More st' s' \<Rightarrow> (\<exists>par'. parse_blocks P bs par = (None, par') \<and> between val mark par' st' s')
    | Failing r m \<Rightarrow> (\<forall>p n. p < n \<longrightarrow> ending p n Ps_error = (Some p, Ps_error)) \<longrightarrow> outcome_is (parse_blocks P bs par) r m Ps_error
    | Finished r m \<Rightarrow> outcome_is (parse_blocks P bs par) r m Ps_done)"
proof (induction bs arbitrary: par st s)
  case Nil
  then show ?case by simp
next
  case (Cons b bs)
  have b: "b \<noteq> []" "\<forall>b \<in> set bs. b \<noteq> []" using Cons.prems(2) by simp_all
  have one: "case scan_run T b st s of
      Stuck \<Rightarrow> True
    | More st' s' \<Rightarrow> fst (P b par) = None \<and> rg_state (snd (P b par)) = Ps_error \<and> between val mark (snd (P b par)) st' s'
    | Failing r m \<Rightarrow> (\<exists>p < length b. drop p b = r \<and> fst (P b par) = fst (ending p (length b) Ps_error) \<and>
        rg_state (snd (P b par)) = snd (ending p (length b) Ps_error)) \<and> rg_data (snd (P b par)) = m
    | Finished r m \<Rightarrow> (\<exists>p. fst (P b par) = Some p \<and> drop p b = r) \<and> rg_state (snd (P b par)) = Ps_done \<and> rg_data (snd (P b par)) = m"
    unfolding P_def by (rule ragel_parse_agrees [OF laws Cons.prems(1) b(1) ending])
  obtain res par' where P: "P b par = (res, par')" by fastforce
  show ?case
  proof (cases "scan_run T b st s")
    case (More st' s')
    have "between val mark par' st' s'" "res = None" using one P by (simp_all add: More)
    moreover from this have "parse_blocks P (b # bs) par = parse_blocks P bs par'" using P by simp
    ultimately show ?thesis using Cons.IH [OF _ b(2), of par' st' s'] by (simp only: concat.simps scan_run_append More scan_more.simps)
  next
    case (Failing r m)
    then show ?thesis using one P by (auto simp: scan_run_append outcome_is_def)
  next
    case (Finished r m)
    then show ?thesis using one P by (auto simp: scan_run_append outcome_is_def)
  qed (simp add: scan_run_append)
qed

text \<open>A state that loops over the characters of a set, collecting them.\<close>

lemma scan_loop:
  assumes "\<And>c. c \<in> set cs \<Longrightarrow> T st c = ([], st)" "st \<noteq> 0" "sc_text s = Some t" "\<not> sc_upto s"
  shows "scan_run T (cs @ rest) st s = scan_run T rest st (s\<lparr>sc_text := Some (t @ cs)\<rparr>)"
  using assms
proof (induction cs arbitrary: s t)
  case Nil
  then show ?case by (cases s) simp
next
  case (Cons c cs)
  have "scan_char c s = s\<lparr>sc_text := Some (t @ [c])\<rparr>" using Cons.prems by (cases s) (simp add: scan_char_def)
  then show ?case using Cons.IH [of "s\<lparr>sc_text := Some (t @ [c])\<rparr>" "t @ [c]"] Cons.prems by simp
qed

text \<open>The same without a mark.\<close>

lemma scan_skip:
  assumes "\<And>c. c \<in> set cs \<Longrightarrow> T st c = ([], st)" "st \<noteq> 0" "sc_text s = None" "\<not> sc_upto s"
  shows "scan_run T (cs @ rest) st s = scan_run T rest st s"
  using assms
proof (induction cs)
  case Nil
  then show ?case by simp
next
  case (Cons c cs)
  have "scan_char c s = s" using Cons.prems by (cases s) (simp add: scan_char_def)
  then show ?case using Cons by simp
qed

end
