(* ===== verification/HttpRequestParser.thy ===== *)
theory HttpRequestParser
  imports Ragel HttpUrl
begin

text \<open>
  The parser of HTTP requests, \<open>http/request_parser.hh\<close>: the labels \<open>_ctr<n>\<close> and \<open>st_case_<n>\<close> of the
  generated code are the definitions \<open>rq_ctr<n>\<close> and \<open>rq_case_<n>\<close>. A character is signed, as the code
  compares it.
\<close>

subsection \<open>The request that is built\<close>

record request_data =
  rd_req :: request
  rd_field_name :: string
  rd_value :: string

definition request_new :: request where
  "request_new =
     \<lparr>req_method = [], req_url = [], req_version = [], content_type_class = Ct_other, content_length = 0,
      req_headers = Map.empty, query_parameters = Map.empty, req_param = Map.empty, req_content = [],
      protocol_name = ''http''\<rparr>"

definition store_method :: "request_data parse_action" where
  "store_method = Take (\<lambda>s d. d\<lparr>rd_req := (rd_req d)\<lparr>req_method := s\<rparr>\<rparr>)"

definition store_uri :: "request_data parse_action" where
  "store_uri = Take (\<lambda>s d. d\<lparr>rd_req := (rd_req d)\<lparr>req_url := s\<rparr>\<rparr>)"

definition store_version :: "request_data parse_action" where
  "store_version = Take (\<lambda>s d. d\<lparr>rd_req := (rd_req d)\<lparr>req_version := s\<rparr>\<rparr>)"

definition store_field_name :: "request_data parse_action" where
  "store_field_name = Take (\<lambda>s d. d\<lparr>rd_field_name := s\<rparr>)"

definition no_mark_store_value :: "request_data parse_action" where
  "no_mark_store_value = Take_no_mark (\<lambda>s d. d\<lparr>rd_value := s\<rparr>)"

definition put_header :: "string \<Rightarrow> string \<Rightarrow> request \<Rightarrow> request" where
  "put_header name v req = req\<lparr>req_headers := (req_headers req)(map tolower name \<mapsto> v)\<rparr>"

definition assign_field :: "request_data parse_action" where
  "assign_field = Update (\<lambda>d.
     d\<lparr>rd_value := [],
       rd_req := put_header (rd_field_name d)
         (case req_headers (rd_req d) (map tolower (rd_field_name d)) of
            Some old \<Rightarrow> old @ '','' @ rd_value d | None \<Rightarrow> rd_value d) (rd_req d)\<rparr>)"

definition extend_field :: "request_data parse_action" where
  "extend_field = Update (\<lambda>d.
     d\<lparr>rd_value := [],
       rd_req := put_header (rd_field_name d)
         (get_header_field (rd_req d) (rd_field_name d) @ '' '' @ rd_value d) (rd_req d)\<rparr>)"

subsection \<open>The machine\<close>

definition in_range :: "int \<Rightarrow> int \<Rightarrow> char \<Rightarrow> bool" where
  "in_range lo hi c \<longleftrightarrow> lo \<le> char_int c \<and> char_int c \<le> hi"

text \<open>The nest of comparisons that every state reading a field name has.\<close>

definition tchar_range :: "char \<Rightarrow> bool" where
  "tchar_range c \<longleftrightarrow>
     (if char_int c < 45 then (if char_int c > 39 then in_range 42 43 c else char_int c \<ge> 35)
      else if char_int c > 46 then
        (if char_int c < 65 then in_range 48 57 c
         else if char_int c > 90 then in_range 94 122 c else True)
      else True)"

definition rq_ctr2 :: "request_data parse_action list \<times> nat" where
  "rq_ctr2 = ([Mark], 2)"

definition rq_ctr4 :: "request_data parse_action list \<times> nat" where
  "rq_ctr4 = ([store_method], 3)"

definition rq_ctr6 :: "request_data parse_action list \<times> nat" where
  "rq_ctr6 = ([Mark], 4)"

definition rq_ctr7 :: "request_data parse_action list \<times> nat" where
  "rq_ctr7 = ([Mark], 5)"

definition rq_ctr10 :: "request_data parse_action list \<times> nat" where
  "rq_ctr10 = ([store_uri], 6)"

definition rq_ctr17 :: "request_data parse_action list \<times> nat" where
  "rq_ctr17 = ([Mark], 12)"

definition rq_ctr21 :: "request_data parse_action list \<times> nat" where
  "rq_ctr21 = ([store_version], 15)"

definition rq_ctr25 :: "request_data parse_action list \<times> nat" where
  "rq_ctr25 = ([Mark], 18)"

definition rq_ctr26 :: "request_data parse_action list \<times> nat" where
  "rq_ctr26 = ([Finish], 29)"

definition rq_ctr28 :: "request_data parse_action list \<times> nat" where
  "rq_ctr28 = ([store_field_name], 19)"

definition rq_ctr30 :: "request_data parse_action list \<times> nat" where
  "rq_ctr30 = ([Mark], 20)"

definition rq_ctr31 :: "request_data parse_action list \<times> nat" where
  "rq_ctr31 = ([Mark, no_mark_store_value], 22)"

definition rq_ctr33 :: "request_data parse_action list \<times> nat" where
  "rq_ctr33 = ([Checkpoint], 20)"

definition rq_ctr34 :: "request_data parse_action list \<times> nat" where
  "rq_ctr34 = ([Checkpoint], 21)"

definition rq_ctr35 :: "request_data parse_action list \<times> nat" where
  "rq_ctr35 = ([Checkpoint, no_mark_store_value], 22)"

definition rq_ctr37 :: "request_data parse_action list \<times> nat" where
  "rq_ctr37 = ([no_mark_store_value], 22)"

definition rq_ctr40 :: "request_data parse_action list \<times> nat" where
  "rq_ctr40 = ([assign_field], 24)"

definition rq_ctr41 :: "request_data parse_action list \<times> nat" where
  "rq_ctr41 = ([assign_field], 17)"

definition rq_ctr42 :: "request_data parse_action list \<times> nat" where
  "rq_ctr42 = ([assign_field, Mark], 18)"

definition rq_ctr44 :: "request_data parse_action list \<times> nat" where
  "rq_ctr44 = ([Mark], 25)"

definition rq_ctr45 :: "request_data parse_action list \<times> nat" where
  "rq_ctr45 = ([Mark, no_mark_store_value], 27)"

definition rq_ctr47 :: "request_data parse_action list \<times> nat" where
  "rq_ctr47 = ([Checkpoint], 25)"

definition rq_ctr48 :: "request_data parse_action list \<times> nat" where
  "rq_ctr48 = ([Checkpoint], 26)"

definition rq_ctr49 :: "request_data parse_action list \<times> nat" where
  "rq_ctr49 = ([Checkpoint, no_mark_store_value], 27)"

definition rq_ctr51 :: "request_data parse_action list \<times> nat" where
  "rq_ctr51 = ([no_mark_store_value], 27)"

definition rq_ctr54 :: "request_data parse_action list \<times> nat" where
  "rq_ctr54 = ([extend_field], 24)"

definition rq_ctr55 :: "request_data parse_action list \<times> nat" where
  "rq_ctr55 = ([extend_field], 17)"

definition rq_ctr56 :: "request_data parse_action list \<times> nat" where
  "rq_ctr56 = ([extend_field, Mark], 18)"

definition rq_case_0 :: "char \<Rightarrow> request_data parse_action list \<times> nat" where
  "rq_case_0 c = ([], 0)"

definition rq_case_1 :: "char \<Rightarrow> request_data parse_action list \<times> nat" where
  "rq_case_1 c =
     (if in_range 65 90 c then rq_ctr2
      else ([], 0))"

definition rq_case_2 :: "char \<Rightarrow> request_data parse_action list \<times> nat" where
  "rq_case_2 c =
     (if c = CHR 0x20 then rq_ctr4
      else if in_range 65 90 c then ([], 2)
      else ([], 0))"

definition rq_case_3 :: "char \<Rightarrow> request_data parse_action list \<times> nat" where
  "rq_case_3 c =
     (if c = CHR 0x0D then rq_ctr7
      else if c = CHR 0x20 then ([], 0)
      else rq_ctr6)"

definition rq_case_4 :: "char \<Rightarrow> request_data parse_action list \<times> nat" where
  "rq_case_4 c =
     (if c = CHR 0x0D then ([], 5)
      else if c = CHR 0x20 then rq_ctr10
      else ([], 4))"

definition rq_case_5 :: "char \<Rightarrow> request_data parse_action list \<times> nat" where
  "rq_case_5 c =
     (if c = CHR 0x0A then ([], 0)
      else if c = CHR 0x0D then ([], 5)
      else if c = CHR 0x20 then rq_ctr10
      else ([], 4))"

definition rq_case_6 :: "char \<Rightarrow> request_data parse_action list \<times> nat" where
  "rq_case_6 c =
     (if c = CHR 0x48 then ([], 7)
      else ([], 0))"

definition rq_case_7 :: "char \<Rightarrow> request_data parse_action list \<times> nat" where
  "rq_case_7 c =
     (if c = CHR 0x54 then ([], 8)
      else ([], 0))"

definition rq_case_8 :: "char \<Rightarrow> request_data parse_action list \<times> nat" where
  "rq_case_8 c =
     (if c = CHR 0x54 then ([], 9)
      else ([], 0))"

definition rq_case_9 :: "char \<Rightarrow> request_data parse_action list \<times> nat" where
  "rq_case_9 c =
     (if c = CHR 0x50 then ([], 10)
      else ([], 0))"

definition rq_case_10 :: "char \<Rightarrow> request_data parse_action list \<times> nat" where
  "rq_case_10 c =
     (if c = CHR 0x2F then ([], 11)
      else ([], 0))"

definition rq_case_11 :: "char \<Rightarrow> request_data parse_action list \<times> nat" where
  "rq_case_11 c =
     (if in_range 48 57 c then rq_ctr17
      else ([], 0))"

definition rq_case_12 :: "char \<Rightarrow> request_data parse_action list \<times> nat" where
  "rq_case_12 c =
     (if c = CHR 0x2E then ([], 13)
      else ([], 0))"

definition rq_case_13 :: "char \<Rightarrow> request_data parse_action list \<times> nat" where
  "rq_case_13 c =
     (if in_range 48 57 c then ([], 14)
      else ([], 0))"

definition rq_case_14 :: "char \<Rightarrow> request_data parse_action list \<times> nat" where
  "rq_case_14 c =
     (if c = CHR 0x0D then rq_ctr21
      else ([], 0))"

definition rq_case_15 :: "char \<Rightarrow> request_data parse_action list \<times> nat" where
  "rq_case_15 c =
     (if c = CHR 0x0A then ([], 16)
      else ([], 0))"

definition rq_case_16 :: "char \<Rightarrow> request_data parse_action list \<times> nat" where
  "rq_case_16 c =
     (if c = CHR 0x0D then ([], 17)
      else if c = CHR 0x21 \<or> c = CHR 0x7C \<or> c = CHR 0x7E \<or> tchar_range c then rq_ctr25
      else ([], 0))"

definition rq_case_17 :: "char \<Rightarrow> request_data parse_action list \<times> nat" where
  "rq_case_17 c =
     (if c = CHR 0x0A then rq_ctr26
      else ([], 0))"

definition rq_case_18 :: "char \<Rightarrow> request_data parse_action list \<times> nat" where
  "rq_case_18 c =
     (if c = CHR 0x21 then ([], 18)
      else if c = CHR 0x3A then rq_ctr28
      else if c = CHR 0x7C \<or> c = CHR 0x7E \<or> tchar_range c then ([], 18)
      else ([], 0))"

definition rq_case_19 :: "char \<Rightarrow> request_data parse_action list \<times> nat" where
  "rq_case_19 c =
     (if c = CHR 0x09 then ([], 19)
      else if c = CHR 0x0D then rq_ctr31
      else if c = CHR 0x20 then ([], 19)
      else if c = CHR 0x7F \<or> in_range 0 31 c then ([], 0)
      else rq_ctr30)"

definition rq_case_20 :: "char \<Rightarrow> request_data parse_action list \<times> nat" where
  "rq_case_20 c =
     (if c = CHR 0x09 then rq_ctr34
      else if c = CHR 0x0D then rq_ctr35
      else if c = CHR 0x20 then rq_ctr34
      else if c = CHR 0x7F \<or> in_range 0 31 c then ([], 0)
      else rq_ctr33)"

definition rq_case_21 :: "char \<Rightarrow> request_data parse_action list \<times> nat" where
  "rq_case_21 c =
     (if c = CHR 0x09 then ([], 21)
      else if c = CHR 0x0D then rq_ctr37
      else if c = CHR 0x20 then ([], 21)
      else if c = CHR 0x7F \<or> in_range 0 31 c then ([], 0)
      else ([], 20))"

definition rq_case_22 :: "char \<Rightarrow> request_data parse_action list \<times> nat" where
  "rq_case_22 c =
     (if c = CHR 0x0A then ([], 23)
      else ([], 0))"

definition rq_case_23 :: "char \<Rightarrow> request_data parse_action list \<times> nat" where
  "rq_case_23 c =
     (if c = CHR 0x09 then rq_ctr40
      else if c = CHR 0x0D then rq_ctr41
      else if c = CHR 0x20 then rq_ctr40
      else if c = CHR 0x21 \<or> c = CHR 0x7C \<or> c = CHR 0x7E \<or> tchar_range c then rq_ctr42
      else ([], 0))"

definition rq_case_24 :: "char \<Rightarrow> request_data parse_action list \<times> nat" where
  "rq_case_24 c =
     (if c = CHR 0x09 then ([], 24)
      else if c = CHR 0x0D then rq_ctr45
      else if c = CHR 0x20 then ([], 24)
      else if c = CHR 0x7F \<or> in_range 0 31 c then ([], 0)
      else rq_ctr44)"

definition rq_case_25 :: "char \<Rightarrow> request_data parse_action list \<times> nat" where
  "rq_case_25 c =
     (if c = CHR 0x09 then rq_ctr48
      else if c = CHR 0x0D then rq_ctr49
      else if c = CHR 0x20 then rq_ctr48
      else if c = CHR 0x7F \<or> in_range 0 31 c then ([], 0)
      else rq_ctr47)"

definition rq_case_26 :: "char \<Rightarrow> request_data parse_action list \<times> nat" where
  "rq_case_26 c =
     (if c = CHR 0x09 then ([], 26)
      else if c = CHR 0x0D then rq_ctr51
      else if c = CHR 0x20 then ([], 26)
      else if c = CHR 0x7F \<or> in_range 0 31 c then ([], 0)
      else ([], 25))"

definition rq_case_27 :: "char \<Rightarrow> request_data parse_action list \<times> nat" where
  "rq_case_27 c =
     (if c = CHR 0x0A then ([], 28)
      else ([], 0))"

definition rq_case_28 :: "char \<Rightarrow> request_data parse_action list \<times> nat" where
  "rq_case_28 c =
     (if c = CHR 0x09 then rq_ctr54
      else if c = CHR 0x0D then rq_ctr55
      else if c = CHR 0x20 then rq_ctr54
      else if c = CHR 0x21 \<or> c = CHR 0x7C \<or> c = CHR 0x7E \<or> tchar_range c then rq_ctr56
      else ([], 0))"

definition rq_case_29 :: "char \<Rightarrow> request_data parse_action list \<times> nat" where
  "rq_case_29 c =
     ([], 0)"

definition rq_transitions :: "request_data transitions" where
  "rq_transitions st c =
     (if st = 1 then rq_case_1 c
      else if st = 2 then rq_case_2 c
      else if st = 3 then rq_case_3 c
      else if st = 4 then rq_case_4 c
      else if st = 5 then rq_case_5 c
      else if st = 6 then rq_case_6 c
      else if st = 7 then rq_case_7 c
      else if st = 8 then rq_case_8 c
      else if st = 9 then rq_case_9 c
      else if st = 10 then rq_case_10 c
      else if st = 11 then rq_case_11 c
      else if st = 12 then rq_case_12 c
      else if st = 13 then rq_case_13 c
      else if st = 14 then rq_case_14 c
      else if st = 15 then rq_case_15 c
      else if st = 16 then rq_case_16 c
      else if st = 17 then rq_case_17 c
      else if st = 18 then rq_case_18 c
      else if st = 19 then rq_case_19 c
      else if st = 20 then rq_case_20 c
      else if st = 21 then rq_case_21 c
      else if st = 22 then rq_case_22 c
      else if st = 23 then rq_case_23 c
      else if st = 24 then rq_case_24 c
      else if st = 25 then rq_case_25 c
      else if st = 26 then rq_case_26 c
      else if st = 27 then rq_case_27 c
      else if st = 28 then rq_case_28 c
      else if st = 29 then rq_case_29 c
      else rq_case_0 c)"

subsection \<open>The parser\<close>

type_synonym 'b http_request_parser = "('b, request_data) ragel_parser"

definition request_parser_init :: "'b sstring_builder \<Rightarrow> 'b http_request_parser \<Rightarrow> 'b http_request_parser" where
  "request_parser_init bo par =
     par\<lparr>rg_builder := sb_reset bo (rg_builder par), rg_data := (rg_data par)\<lparr>rd_req := request_new\<rparr>,
         rg_state := Ps_eof, fsm_cs := 1\<rparr>"

definition request_ending :: "bool \<Rightarrow> nat \<Rightarrow> nat \<Rightarrow> parser_state \<Rightarrow> nat option \<times> parser_state" where
  "request_ending at_eof p n x =
     (if at_eof \<and> p = n then (Some p, Ps_eof) else if p \<noteq> n then (Some p, Ps_error) else (None, x))"

definition request_parse :: "'b sstring_builder \<Rightarrow> bool \<Rightarrow> string \<Rightarrow> 'b http_request_parser \<Rightarrow> nat option \<times> 'b http_request_parser" where
  "request_parse bo at_eof = ragel_parse rq_transitions 29 bo (request_ending at_eof)"

end
