(* ===== verification/HttpRequestText.thy ===== *)
theory HttpRequestText
  imports HttpRequestParser HttpReply
begin

text \<open>
  The request parser against the grammar of the message: the texts the parser is meant to read, and
  what it makes of them, cut into blocks anywhere.
\<close>

subsection \<open>Character classes\<close>

definition upper :: "char \<Rightarrow> bool" where
  "upper c \<longleftrightarrow> in_range 65 90 c"

definition dec_digit :: "char \<Rightarrow> bool" where
  "dec_digit c \<longleftrightarrow> in_range 48 57 c"

text \<open>Letters, digits and \<open>! # $ % & ' * + - . ^ _ ` | ~\<close>.\<close>

definition tchar :: "char \<Rightarrow> bool" where
  "tchar c \<longleftrightarrow> upper c \<or> in_range 97 122 c \<or> dec_digit c \<or> c = CHR 0x21 \<or> in_range 35 39 c \<or>
     in_range 42 43 c \<or> in_range 45 46 c \<or> in_range 94 96 c \<or> c = CHR 0x7C \<or> c = CHR 0x7E"

definition blank :: "char \<Rightarrow> bool" where
  "blank c \<longleftrightarrow> c = CHR 0x20 \<or> c = CHR 0x09"

text \<open>A printable character, or one of the upper half.\<close>

definition vchar :: "char \<Rightarrow> bool" where
  "vchar c \<longleftrightarrow> \<not> in_range 0 32 c \<and> c \<noteq> CHR 0x7F"

lemma char_int_inject: "char_int c = char_int c' \<longleftrightarrow> c = c'"
proof -
  have "0 \<le> (of_char x :: int) \<and> (of_char x :: int) < 256" for x
    using of_char_mod_256 [of x, where 'a = int] pos_mod_bound [of 256 "of_char x :: int"] pos_mod_sign [of 256 "of_char x :: int"]
    by simp
  from this [of c] this [of c'] have "char_int c = char_int c' \<longleftrightarrow> (of_char c :: int) = of_char c'"
    by (auto simp: char_int_def Let_def)
  then show ?thesis by simp
qed

lemma char_eq_int: "c = c' \<longleftrightarrow> char_int c = char_int c'"
  by (simp add: char_int_inject)

lemma char_int_code [simp]:
  "char_int CHR 0x21 = 33" "char_int CHR 0x7C = 124" "char_int CHR 0x7E = 126" "char_int CHR 0x7F = 127"
  "char_int CHR 0x20 = 32" "char_int CHR 0x09 = 9" "char_int CHR 0x0D = 13" "char_int CHR 0x0A = 10"
  "char_int CHR 0x3A = 58"
  by (simp_all add: char_int_def)

lemma tchar_range_iff: "c = CHR 0x21 \<or> c = CHR 0x7C \<or> c = CHR 0x7E \<or> tchar_range c \<longleftrightarrow> tchar c"
  unfolding tchar_range_def tchar_def upper_def dec_digit_def in_range_def by auto

lemma rq_transitions_simps [simp]:
  "rq_transitions (Suc 0) = rq_case_1" "rq_transitions 2 = rq_case_2" "rq_transitions 3 = rq_case_3"
  "rq_transitions 4 = rq_case_4" "rq_transitions 5 = rq_case_5" "rq_transitions 6 = rq_case_6"
  "rq_transitions 7 = rq_case_7" "rq_transitions 8 = rq_case_8" "rq_transitions 9 = rq_case_9"
  "rq_transitions 10 = rq_case_10" "rq_transitions 11 = rq_case_11" "rq_transitions 12 = rq_case_12"
  "rq_transitions 13 = rq_case_13" "rq_transitions 14 = rq_case_14" "rq_transitions 15 = rq_case_15"
  "rq_transitions 16 = rq_case_16" "rq_transitions 17 = rq_case_17" "rq_transitions 18 = rq_case_18"
  "rq_transitions 19 = rq_case_19" "rq_transitions 20 = rq_case_20" "rq_transitions 21 = rq_case_21"
  "rq_transitions 22 = rq_case_22" "rq_transitions 23 = rq_case_23" "rq_transitions 24 = rq_case_24"
  "rq_transitions 25 = rq_case_25" "rq_transitions 26 = rq_case_26" "rq_transitions 27 = rq_case_27"
  "rq_transitions 28 = rq_case_28" "rq_transitions 29 = rq_case_29"
  by (auto simp: rq_transitions_def fun_eq_iff)

subsection \<open>Pieces of a request\<close>

abbreviation idle :: "'m \<Rightarrow> 'm scan" where
  "idle d \<equiv> \<lparr>sc_text = None, sc_upto = False, sc_data = d\<rparr>"

abbreviation busy :: "string \<Rightarrow> 'm \<Rightarrow> 'm scan" where
  "busy t d \<equiv> \<lparr>sc_text = Some t, sc_upto = False, sc_data = d\<rparr>"

lemma scan_char_simps [simp]:
  "scan_char c \<lparr>sc_text = None, sc_upto = u, sc_data = d\<rparr> = idle d"
  "scan_char c \<lparr>sc_text = Some t, sc_upto = u, sc_data = d\<rparr> = busy (t @ [c]) d"
  by (simp_all add: scan_char_def)

lemmas rq_ctr_defs = rq_ctr2_def rq_ctr4_def rq_ctr6_def rq_ctr7_def rq_ctr10_def rq_ctr17_def rq_ctr21_def rq_ctr25_def
  rq_ctr26_def rq_ctr28_def rq_ctr30_def rq_ctr31_def rq_ctr33_def rq_ctr34_def rq_ctr35_def rq_ctr37_def rq_ctr40_def
  rq_ctr41_def rq_ctr42_def rq_ctr44_def rq_ctr45_def rq_ctr47_def rq_ctr48_def rq_ctr49_def rq_ctr51_def rq_ctr54_def
  rq_ctr55_def rq_ctr56_def

lemmas rq_stores = store_method_def store_uri_def store_version_def store_field_name_def no_mark_store_value_def

lemma not_upper [simp]: "\<not> upper CHR 0x20" "\<not> upper CHR 0x0D"
  by (simp_all add: upper_def in_range_def)

lemma scan_method:
  assumes "m \<noteq> []" "\<forall>c \<in> set m. upper c"
  shows "scan_run rq_transitions (m @ CHR 0x20 # rest) (Suc 0) (idle d) =
    scan_run rq_transitions rest 3 (idle (d\<lparr>rd_req := (rd_req d)\<lparr>req_method := m\<rparr>\<rparr>))"
proof -
  obtain c cs where m: "m = c # cs" using assms(1) by (cases m) auto
  have "scan_run rq_transitions (m @ CHR 0x20 # rest) (Suc 0) (idle d) =
      scan_run rq_transitions (cs @ CHR 0x20 # rest) 2 (busy [c] d)"
    using assms(2) by (simp add: m rq_case_1_def rq_ctr_defs upper_def [symmetric])
  also have "\<dots> = scan_run rq_transitions (CHR 0x20 # rest) 2 (busy m d)"
  proof -
    have "rq_transitions 2 x = ([], 2)" if "x \<in> set cs" for x
      using that assms(2) by (auto simp: m rq_case_2_def upper_def [symmetric])
    then show ?thesis by (subst scan_loop [where t = "[c]"]) (simp_all add: m)
  qed
  finally show ?thesis by (simp add: rq_case_2_def rq_ctr_defs rq_stores)
qed

text \<open>A target has no space and no line end.\<close>

fun has_crlf :: "string \<Rightarrow> bool" where
  "has_crlf [] = False"
| "has_crlf [x] = False"
| "has_crlf (x # y # s) \<longleftrightarrow> x = CHR 0x0D \<and> y = CHR 0x0A \<or> has_crlf (y # s)"

lemma scan_uri_rest:
  assumes "st = 4 \<and> \<not> has_crlf u \<or> st = 5 \<and> \<not> has_crlf (CHR 0x0D # u)" "CHR 0x20 \<notin> set u"
  shows "scan_run rq_transitions (u @ CHR 0x20 # rest) st (busy t d) =
    scan_run rq_transitions rest 6 (idle (d\<lparr>rd_req := (rd_req d)\<lparr>req_url := t @ u\<rparr>\<rparr>))"
  using assms
proof (induction u arbitrary: st t)
  case Nil
  then show ?case by (auto simp: rq_case_4_def rq_case_5_def rq_ctr_defs rq_stores)
next
  case (Cons c u)
  have ok: "\<not> has_crlf u" "\<not> has_crlf (c # u)" using Cons.prems by (cases u; auto)+
  show ?case
  proof (cases "c = CHR 0x0D")
    case True
    then show ?thesis using Cons.IH [of 5 "t @ [c]"] Cons.prems ok by (auto simp: rq_case_4_def rq_case_5_def)
  next
    case False
    then show ?thesis using Cons.IH [of 4 "t @ [c]"] Cons.prems ok by (auto simp: rq_case_4_def rq_case_5_def)
  qed
qed

lemma scan_uri:
  assumes "u \<noteq> []" "\<not> has_crlf u" "CHR 0x20 \<notin> set u"
  shows "scan_run rq_transitions (u @ CHR 0x20 # rest) 3 (idle d) =
    scan_run rq_transitions rest 6 (idle (d\<lparr>rd_req := (rd_req d)\<lparr>req_url := u\<rparr>\<rparr>))"
proof -
  obtain c cs where u: "u = c # cs" using assms(1) by (cases u) auto
  have ok: "\<not> has_crlf cs" using assms(2) u by (cases cs; auto)
  show ?thesis
    using scan_uri_rest [of 4 cs rest "[c]" d] scan_uri_rest [of 5 cs rest "[c]" d] assms ok
    by (auto simp: u rq_case_3_def rq_ctr_defs)
qed

definition version_text :: "char \<Rightarrow> char \<Rightarrow> string" where
  "version_text a b = [a, CHR 0x2E, b]"

lemma scan_version:
  assumes "dec_digit a" "dec_digit b"
  shows "scan_run rq_transitions (''HTTP/'' @ version_text a b @ crlf @ rest) 6 (idle d) =
    scan_run rq_transitions rest 16 (idle (d\<lparr>rd_req := (rd_req d)\<lparr>req_version := version_text a b\<rparr>\<rparr>))"
  using assms
  by (simp add: version_text_def crlf_def dec_digit_def rq_ctr_defs rq_stores rq_case_6_def rq_case_7_def rq_case_8_def rq_case_9_def
      rq_case_10_def rq_case_11_def rq_case_12_def rq_case_13_def rq_case_14_def rq_case_15_def)

lemma blank_vchar: "\<not> (blank c \<and> vchar c)"
  by (auto simp: blank_def vchar_def in_range_def)

lemma value_class:
  assumes "vchar c"
  shows "c \<noteq> CHR 0x09" "c \<noteq> CHR 0x0D" "c \<noteq> CHR 0x20" "c \<noteq> CHR 0x7F" "\<not> in_range 0 31 c"
  using assms by (auto simp: vchar_def in_range_def)

lemma blank_class: "blank c \<Longrightarrow> c = CHR 0x09 \<or> c = CHR 0x20"
  by (auto simp: blank_def)

text \<open>A field value: printable characters with blanks in between.\<close>

definition field_value :: "string \<Rightarrow> bool" where
  "field_value v \<longleftrightarrow> (\<forall>c \<in> set v. vchar c \<or> blank c) \<and> (v \<noteq> [] \<longrightarrow> vchar (hd v) \<and> vchar (last v))"

text \<open>The states that read a value, in a field (19 to 22) and in a continuation line (24 to 27).\<close>

lemma scan_value_rest:
  assumes "q = 20 \<and> e = 22 \<or> q = 25 \<and> e = 27"
    and "st = q \<or> st = q + 1 \<and> v \<noteq> []" "\<forall>c \<in> set v. vchar c \<or> blank c" "v \<noteq> [] \<longrightarrow> vchar (last v)"
  shows "scan_run rq_transitions (v @ CHR 0x0D # rest) st (busy t d) =
    scan_run rq_transitions rest e (idle (d\<lparr>rd_value := t @ v\<rparr>))"
  using assms(2-)
proof (induction v arbitrary: st t)
  case Nil
  then show ?case using assms(1) by (auto simp: rq_case_20_def rq_case_25_def rq_ctr_defs rq_stores)
next
  case (Cons c v)
  show ?case
  proof (cases "vchar c")
    case True
    then show ?thesis using Cons.IH [of q "t @ [c]"] Cons.prems assms(1) value_class [OF True]
      by (auto simp: rq_case_20_def rq_case_21_def rq_case_25_def rq_case_26_def rq_ctr_defs split: if_splits)
  next
    case False
    then have "v \<noteq> []" "blank c" using Cons.prems by (auto split: if_splits)
    then show ?thesis using Cons.IH [of "q + 1" "t @ [c]"] Cons.prems assms(1) blank_class [of c]
      by (auto simp: rq_case_20_def rq_case_21_def rq_case_25_def rq_case_26_def rq_ctr_defs split: if_splits)
  qed
qed

lemma scan_value:
  assumes q: "q = 19 \<and> e = 23 \<or> q = 24 \<and> e = 28" and sp: "\<forall>c \<in> set sp. blank c" and v: "field_value v"
  shows "scan_run rq_transitions (sp @ v @ crlf @ rest) q (idle d) =
    scan_run rq_transitions rest e (idle (d\<lparr>rd_value := v\<rparr>))"
proof -
  have "rq_transitions q c = ([], q)" if "c \<in> set sp" for c
    using blank_class [of c] that sp q by (auto simp: rq_case_19_def rq_case_24_def)
  then have "scan_run rq_transitions (sp @ v @ crlf @ rest) q (idle d) = scan_run rq_transitions (v @ crlf @ rest) q (idle d)"
    using q by (intro scan_skip) auto
  also have "\<dots> = scan_run rq_transitions rest e (idle (d\<lparr>rd_value := v\<rparr>))"
  proof (cases v)
    case Nil
    then show ?thesis using q
      by (auto simp: crlf_def rq_case_19_def rq_case_24_def rq_case_22_def rq_case_27_def rq_ctr_defs rq_stores)
  next
    case (Cons c cs)
    have c: "vchar c" and cs: "\<forall>c \<in> set cs. vchar c \<or> blank c" "cs \<noteq> [] \<longrightarrow> vchar (last cs)"
      using v by (auto simp: field_value_def Cons split: if_splits)
    show ?thesis
      using q scan_value_rest [of 20 22 20 cs "CHR 0x0A # rest" "[c]" d] scan_value_rest [of 25 27 25 cs "CHR 0x0A # rest" "[c]" d]
        c cs value_class [OF c]
      by (auto simp: Cons crlf_def rq_case_19_def rq_case_24_def rq_case_22_def rq_case_27_def rq_ctr_defs)
  qed
  finally show ?thesis .
qed

subsection \<open>Header fields\<close>

text \<open>A field whose value was read is stored when the next line begins: what the states between lines
  still have to do.\<close>

definition pending :: "nat \<Rightarrow> request_data \<Rightarrow> request_data" where
  "pending q d =
     (if q = 23 then (case assign_field of Update f \<Rightarrow> f d) else if q = 28 then (case extend_field of Update f \<Rightarrow> f d) else d)"

lemma pending_simps [simp]:
  "pending 16 d = d" "rd_field_name (pending q d) = rd_field_name d"
  by (simp_all add: pending_def assign_field_def extend_field_def)

lemma scan_store [simp]:
  "scan_action assign_field s = Some (s\<lparr>sc_data := pending 23 (sc_data s)\<rparr>)"
  "scan_action extend_field s = Some (s\<lparr>sc_data := pending 28 (sc_data s)\<rparr>)"
  "\<not> is_Finish assign_field" "\<not> is_Finish extend_field"
  by (simp_all add: pending_def assign_field_def extend_field_def)

lemma tchar_class:
  assumes "tchar c"
  shows "c \<noteq> CHR 0x09" "c \<noteq> CHR 0x0D" "c \<noteq> CHR 0x20" "c \<noteq> CHR 0x3A"
  using assms by (auto simp: tchar_def upper_def dec_digit_def in_range_def)

lemma scan_name:
  assumes q: "q \<in> {16, 23, 28}" and n: "n \<noteq> []" "\<forall>c \<in> set n. tchar c"
  shows "scan_run rq_transitions (n @ CHR 0x3A # rest) q (idle d) =
    scan_run rq_transitions rest 19 (idle ((pending q d)\<lparr>rd_field_name := n\<rparr>))"
proof -
  obtain c cs where m: "n = c # cs" using n(1) by (cases n) auto
  have c: "tchar c" using n(2) m by simp
  have "scan_run rq_transitions (n @ CHR 0x3A # rest) q (idle d) =
      scan_run rq_transitions (cs @ CHR 0x3A # rest) 18 (busy [c] (pending q d))"
    using q tchar_class [OF c] c by (auto simp: m rq_case_16_def rq_case_23_def rq_case_28_def rq_ctr_defs tchar_range_iff)
  also have "\<dots> = scan_run rq_transitions (CHR 0x3A # rest) 18 (busy n (pending q d))"
  proof -
    have "rq_transitions 18 x = ([], 18)" if "x \<in> set cs" for x
      using that n(2) tchar_class [of x] tchar_range_iff [of x] by (auto simp: m rq_case_18_def)
    then show ?thesis by (subst scan_loop [where t = "[c]"]) (simp_all add: m)
  qed
  finally show ?thesis by (simp add: rq_case_18_def rq_ctr_defs rq_stores)
qed

record header_field =
  hf_name :: string
  hf_space :: string
  hf_value :: string
  hf_folds :: "(string \<times> string) list"

definition field_ok :: "header_field \<Rightarrow> bool" where
  "field_ok h \<longleftrightarrow> hf_name h \<noteq> [] \<and> (\<forall>c \<in> set (hf_name h). tchar c) \<and> (\<forall>c \<in> set (hf_space h). blank c) \<and>
     field_value (hf_value h) \<and> (\<forall>(sp, v) \<in> set (hf_folds h). sp \<noteq> [] \<and> (\<forall>c \<in> set sp. blank c) \<and> field_value v)"

definition field_text :: "header_field \<Rightarrow> string" where
  "field_text h = hf_name h @ '':'' @ hf_space h @ hf_value h @ crlf @ concat (map (\<lambda>(sp, v). sp @ v @ crlf) (hf_folds h))"

text \<open>A field that was seen before is appended behind a comma, a continuation line behind a space.\<close>

definition folded :: "string \<Rightarrow> (string \<times> string) list \<Rightarrow> string" where
  "folded v folds = v @ concat (map (\<lambda>(sp, v). '' '' @ v) folds)"

definition join_field :: "header_field \<Rightarrow> string_map \<Rightarrow> string_map" where
  "join_field h m =
     (let k = map tolower (hf_name h); v = folded (hf_value h) (hf_folds h)
      in m(k \<mapsto> (case m k of None \<Rightarrow> v | Some old \<Rightarrow> old @ '','' @ v)))"

lemma put_header_simps [simp]:
  "get_header_field (put_header n x r) n = x" "put_header n y (put_header n x r) = put_header n y r"
  by (simp_all add: put_header_def get_header_field_def or_empty_def)

lemma folded_simps [simp]: "folded v [] = v" "folded v ((sp, w) # folds) = folded (v @ '' '' @ w) folds"
  by (simp_all add: folded_def)

lemma scan_folds:
  assumes "\<forall>(sp, v) \<in> set folds. sp \<noteq> [] \<and> (\<forall>c \<in> set sp. blank c) \<and> field_value v" "q \<in> {23, 28}"
  shows "\<exists>q' d'. q' \<in> {23, 28} \<and>
    scan_run rq_transitions (concat (map (\<lambda>(sp, v). sp @ v @ crlf) folds) @ rest) q (idle d) = scan_run rq_transitions rest q' (idle d') \<and>
    rd_req (pending q' d') = (if folds = [] then rd_req (pending q d)
      else put_header (rd_field_name d) (folded (get_header_field (rd_req (pending q d)) (rd_field_name d)) folds) (rd_req (pending q d)))"
  using assms
proof (induction folds arbitrary: q d)
  case Nil
  then show ?case by auto
next
  case (Cons f folds)
  obtain sp v where f: "f = (sp, v)" by fastforce
  obtain c cs where sp: "sp = c # cs" "blank c" "\<forall>c \<in> set cs. blank c" "field_value v"
    using Cons.prems(1) f by (cases sp) auto
  let ?d = "(pending q d)\<lparr>rd_value := v\<rparr>"
  let ?t = "concat (map (\<lambda>(sp, v). sp @ v @ crlf) folds) @ rest"
  have "scan_run rq_transitions (sp @ v @ crlf @ ?t) q (idle d) = scan_run rq_transitions (cs @ v @ crlf @ ?t) 24 (idle (pending q d))"
    using Cons.prems(2) blank_class [OF sp(2)] by (auto simp: sp(1) rq_case_23_def rq_case_28_def rq_ctr_defs)
  also have "\<dots> = scan_run rq_transitions ?t 28 (idle ?d)" by (rule scan_value) (use sp in auto)
  finally have "scan_run rq_transitions (sp @ v @ crlf @ ?t) q (idle d) = scan_run rq_transitions ?t 28 (idle ?d)" .
  then have step: "scan_run rq_transitions (concat (map (\<lambda>(sp, v). sp @ v @ crlf) (f # folds)) @ rest) q (idle d)
      = scan_run rq_transitions ?t 28 (idle ?d)"
    by (simp add: f)
  have now: "rd_req (pending 28 ?d) = put_header (rd_field_name d)
      (get_header_field (rd_req (pending q d)) (rd_field_name d) @ '' '' @ v) (rd_req (pending q d))"
    by (simp add: pending_def [of 28] extend_field_def)
  have "\<forall>(sp, v) \<in> set folds. sp \<noteq> [] \<and> (\<forall>c \<in> set sp. blank c) \<and> field_value v" using Cons.prems(1) by simp
  from Cons.IH [OF this, of 28 ?d] obtain q' d' where q': "q' \<in> {23, 28}"
    "scan_run rq_transitions ?t 28 (idle ?d) = scan_run rq_transitions rest q' (idle d')"
    "rd_req (pending q' d') = (if folds = [] then rd_req (pending 28 ?d)
      else put_header (rd_field_name ?d) (folded (get_header_field (rd_req (pending 28 ?d)) (rd_field_name ?d)) folds) (rd_req (pending 28 ?d)))"
    by auto
  have "rd_req (pending q' d') = put_header (rd_field_name d)
      (folded (get_header_field (rd_req (pending q d)) (rd_field_name d)) (f # folds)) (rd_req (pending q d))"
    unfolding q'(3) now by (simp add: f)
  then show ?case unfolding step using q'(1,2) by auto
qed

lemma scan_field:
  assumes h: "field_ok h" and q: "q \<in> {16, 23, 28}"
  shows "\<exists>q' d'. q' \<in> {16, 23, 28} \<and>
    scan_run rq_transitions (field_text h @ rest) q (idle d) = scan_run rq_transitions rest q' (idle d') \<and>
    rd_req (pending q' d') = (rd_req (pending q d))\<lparr>req_headers := join_field h (req_headers (rd_req (pending q d)))\<rparr>"
proof -
  let ?d = "(pending q d)\<lparr>rd_field_name := hf_name h, rd_value := hf_value h\<rparr>"
  let ?t = "concat (map (\<lambda>(sp, v). sp @ v @ crlf) (hf_folds h)) @ rest"
  have ok: "hf_name h \<noteq> []" "\<forall>c \<in> set (hf_name h). tchar c" "\<forall>c \<in> set (hf_space h). blank c" "field_value (hf_value h)"
    "\<forall>(sp, v) \<in> set (hf_folds h). sp \<noteq> [] \<and> (\<forall>c \<in> set sp. blank c) \<and> field_value v"
    using h unfolding field_ok_def by blast+
  have "scan_run rq_transitions (field_text h @ rest) q (idle d) = scan_run rq_transitions ?t 23 (idle ?d)"
    using scan_name [OF q ok(1,2), of "hf_space h @ hf_value h @ crlf @ ?t" d]
      scan_value [of 19 23 "hf_space h" "hf_value h" ?t "(pending q d)\<lparr>rd_field_name := hf_name h\<rparr>"] ok(3,4)
    by (simp add: field_text_def)
  moreover obtain q' d' where q': "q' \<in> {23, 28}"
    "scan_run rq_transitions ?t 23 (idle ?d) = scan_run rq_transitions rest q' (idle d')"
    "rd_req (pending q' d') = (if hf_folds h = [] then rd_req (pending 23 ?d)
      else put_header (rd_field_name ?d) (folded (get_header_field (rd_req (pending 23 ?d)) (rd_field_name ?d)) (hf_folds h))
        (rd_req (pending 23 ?d)))"
    using scan_folds [OF ok(5), where q = 23 and d = ?d and rest = rest] by auto
  moreover have "rd_req (pending 23 ?d) = put_header (hf_name h)
      (case req_headers (rd_req (pending q d)) (map tolower (hf_name h)) of Some old \<Rightarrow> old @ '','' @ hf_value h | None \<Rightarrow> hf_value h)
      (rd_req (pending q d))"
    by (simp add: pending_def [of 23] assign_field_def split: option.split)
  ultimately have "rd_req (pending q' d') = put_header (hf_name h)
      (folded (case req_headers (rd_req (pending q d)) (map tolower (hf_name h)) of Some old \<Rightarrow> old @ '','' @ hf_value h
        | None \<Rightarrow> hf_value h) (hf_folds h)) (rd_req (pending q d))"
    by simp
  then have "rd_req (pending q' d') = (rd_req (pending q d))\<lparr>req_headers := join_field h (req_headers (rd_req (pending q d)))\<rparr>"
    by (simp add: put_header_def join_field_def Let_def folded_def split: option.split)
  with q' \<open>scan_run rq_transitions (field_text h @ rest) q (idle d) = scan_run rq_transitions ?t 23 (idle ?d)\<close>
  show ?thesis by (intro exI [of _ q'] exI [of _ d']) auto
qed

lemma scan_fields:
  assumes "\<forall>h \<in> set hs. field_ok h" "q \<in> {16, 23, 28}"
  shows "\<exists>d'. scan_run rq_transitions (concat (map field_text hs) @ crlf @ rest) q (idle d) = Finished rest d' \<and>
    rd_req d' = (rd_req (pending q d))\<lparr>req_headers := fold join_field hs (req_headers (rd_req (pending q d)))\<rparr>"
  using assms
proof (induction hs arbitrary: q d)
  case Nil
  then show ?case by (auto simp: crlf_def rq_case_16_def rq_case_23_def rq_case_28_def rq_case_17_def rq_ctr_defs)
next
  case (Cons h hs)
  have h: "field_ok h" "\<forall>h \<in> set hs. field_ok h" using Cons.prems(1) by simp_all
  obtain q' d' where q': "q' \<in> {16, 23, 28}"
    "scan_run rq_transitions (field_text h @ concat (map field_text hs) @ crlf @ rest) q (idle d)
      = scan_run rq_transitions (concat (map field_text hs) @ crlf @ rest) q' (idle d')"
    "rd_req (pending q' d') = (rd_req (pending q d))\<lparr>req_headers := join_field h (req_headers (rd_req (pending q d)))\<rparr>"
    using scan_field [OF h(1) Cons.prems(2), of "concat (map field_text hs) @ crlf @ rest" d] by blast
  from Cons.IH [OF h(2) q'(1), of d'] show ?case using q'(2,3) by auto
qed

subsection \<open>Whole requests\<close>

record request_text =
  rt_method :: string
  rt_target :: string
  rt_version :: "char \<times> char"
  rt_fields :: "header_field list"

definition request_ok :: "request_text \<Rightarrow> bool" where
  "request_ok r \<longleftrightarrow> rt_method r \<noteq> [] \<and> (\<forall>c \<in> set (rt_method r). upper c) \<and>
     rt_target r \<noteq> [] \<and> \<not> has_crlf (rt_target r) \<and> CHR 0x20 \<notin> set (rt_target r) \<and>
     dec_digit (fst (rt_version r)) \<and> dec_digit (snd (rt_version r)) \<and> (\<forall>h \<in> set (rt_fields r). field_ok h)"

definition text_of :: "request_text \<Rightarrow> string" where
  "text_of r = rt_method r @ '' '' @ rt_target r @ '' HTTP/'' @ version_text (fst (rt_version r)) (snd (rt_version r)) @ crlf @
     concat (map field_text (rt_fields r)) @ crlf"

definition request_of :: "request_text \<Rightarrow> request" where
  "request_of r = request_new\<lparr>req_method := rt_method r, req_url := rt_target r,
     req_version := version_text (fst (rt_version r)) (snd (rt_version r)), req_headers := fold join_field (rt_fields r) Map.empty\<rparr>"

lemma scan_request:
  assumes "request_ok r" "rd_req d = request_new"
  shows "\<exists>d'. scan_run rq_transitions (text_of r @ rest) (Suc 0) (idle d) = Finished rest d' \<and> rd_req d' = request_of r"
proof -
  have ok: "rt_method r \<noteq> []" "\<forall>c \<in> set (rt_method r). upper c" "rt_target r \<noteq> []" "\<not> has_crlf (rt_target r)"
    "CHR 0x20 \<notin> set (rt_target r)" "dec_digit (fst (rt_version r))" "dec_digit (snd (rt_version r))"
    "\<forall>h \<in> set (rt_fields r). field_ok h"
    using assms(1) by (simp_all add: request_ok_def)
  let ?fields = "concat (map field_text (rt_fields r)) @ crlf @ rest"
  let ?version = "version_text (fst (rt_version r)) (snd (rt_version r))"
  let ?d = "d\<lparr>rd_req := (rd_req d)\<lparr>req_method := rt_method r, req_url := rt_target r, req_version := ?version\<rparr>\<rparr>"
  have "scan_run rq_transitions (text_of r @ rest) (Suc 0) (idle d) = scan_run rq_transitions ?fields 16 (idle ?d)"
    using scan_method [OF ok(1,2), of "rt_target r @ '' HTTP/'' @ ?version @ crlf @ ?fields" d]
      scan_uri [OF ok(3-5), of "''HTTP/'' @ ?version @ crlf @ ?fields" "d\<lparr>rd_req := (rd_req d)\<lparr>req_method := rt_method r\<rparr>\<rparr>"]
      scan_version [OF ok(6,7), of ?fields "d\<lparr>rd_req := (rd_req d)\<lparr>req_method := rt_method r, req_url := rt_target r\<rparr>\<rparr>"]
    by (simp add: text_of_def)
  moreover obtain d' where "scan_run rq_transitions ?fields 16 (idle ?d) = Finished rest d'"
    "rd_req d' = (rd_req (pending 16 ?d))\<lparr>req_headers := fold join_field (rt_fields r) (req_headers (rd_req (pending 16 ?d)))\<rparr>"
    using scan_fields [OF ok(8), of 16 rest ?d] by auto
  moreover from this have "rd_req d' = request_of r"
    using assms(2) by (simp add: request_of_def request_new_def)
  ultimately show ?thesis by auto
qed

lemma request_ending_laws: "request_ending False n n x = (None, x)" "p < n \<Longrightarrow> request_ending False p n Ps_error = (Some p, Ps_error)"
  by (simp_all add: request_ending_def)

lemma init_between:
  assumes "collects bo val mark"
  shows "between val mark (request_parser_init bo par) (Suc 0) (idle ((rg_data par)\<lparr>rd_req := request_new\<rparr>))"
  by (simp add: between_def request_parser_init_def collectsD [OF assms])

lemma request_is_read:
  assumes "collects bo val mark" "request_ok r" "\<forall>b \<in> set blocks. b \<noteq> []" "concat blocks = text_of r @ rest"
  shows "\<exists>behind blocks' par'. parse_blocks (request_parse bo False) blocks (request_parser_init bo par) = (Some (behind, blocks'), par') \<and>
    behind @ concat blocks' = rest \<and> rg_state par' = Ps_done \<and> rd_req (rg_data par') = request_of r"
proof -
  obtain d' where d': "scan_run rq_transitions (concat blocks) (Suc 0) (idle ((rg_data par)\<lparr>rd_req := request_new\<rparr>)) = Finished rest d'"
    "rd_req d' = request_of r"
    using scan_request [OF assms(2), of "(rg_data par)\<lparr>rd_req := request_new\<rparr>" rest] assms(4) by auto
  have "outcome_is (parse_blocks (ragel_parse rq_transitions 29 bo (request_ending False)) blocks (request_parser_init bo par)) rest d' Ps_done"
    using parse_blocks_agree [OF assms(1), of "request_ending False", OF request_ending_laws(1) init_between [OF assms(1)] assms(3),
        of rq_transitions 29 par] d'(1) by simp
  then show ?thesis using d'(2) by (auto simp: outcome_is_def request_parse_def)
qed

text \<open>C15. A request is read back: the parser, initialised and given a well formed request cut into
  blocks anywhere, with anything behind it, ends in the done state exactly behind the request, with
  the method, the target and the version, and with every field under its name in any case: the
  blanks in front of a value are gone (none may stand behind it), a continuation line is appended behind a space, and the values of
  a field that occurs again are joined by commas. The builder of the core library collects the text
  between its marks.\<close>

theorem request_reads_back:
  assumes "collects bo val mark" "request_ok r" "\<forall>b \<in> set blocks. b \<noteq> []" "concat blocks = text_of r @ rest"
  shows "\<exists>behind blocks' par'. parse_blocks (request_parse bo False) blocks (request_parser_init bo par) = (Some (behind, blocks'), par') \<and>
    behind @ concat blocks' = rest \<and> rg_state par' = Ps_done \<and> rd_req (rg_data par') = request_of r"
  by (rule request_is_read [OF assms])

subsection \<open>Independence of the blocks\<close>

text \<open>The states that hold a mark.\<close>

definition marked :: "nat set" where
  "marked = {2, 4, 5, 12, 13, 14, 18, 20, 21, 25, 26}"

lemmas rq_case_defs = rq_case_0_def rq_case_1_def rq_case_2_def rq_case_3_def rq_case_4_def rq_case_5_def rq_case_6_def
  rq_case_7_def rq_case_8_def rq_case_9_def rq_case_10_def rq_case_11_def rq_case_12_def rq_case_13_def
  rq_case_14_def rq_case_15_def rq_case_16_def rq_case_17_def rq_case_18_def rq_case_19_def rq_case_20_def
  rq_case_21_def rq_case_22_def rq_case_23_def rq_case_24_def rq_case_25_def rq_case_26_def rq_case_27_def
  rq_case_28_def rq_case_29_def

definition step_ok :: "'m scan \<Rightarrow> char \<Rightarrow> 'm parse_action list \<times> nat \<Rightarrow> bool" where
  "step_ok s c x \<longleftrightarrow> (case x of (acts, st') \<Rightarrow>
     (case scan_actions acts s of
        None \<Rightarrow> False
      | Some s' \<Rightarrow> list_ex is_Finish acts \<or> st' = 0 \<or>
          (sc_text s' = None \<longleftrightarrow> st' \<notin> marked) \<and> (st' \<in> {21, 26} \<longrightarrow> blank c)))"

lemma step_ok_if: "(p \<Longrightarrow> step_ok s c x) \<Longrightarrow> (\<not> p \<Longrightarrow> step_ok s c y) \<Longrightarrow> step_ok s c (if p then x else y)"
  by simp

lemma rq_step_ok:
  assumes "sc_text s = None \<longleftrightarrow> st \<notin> marked" "st \<in> {21, 26} \<Longrightarrow> c \<noteq> CHR 0x0D"
  shows "step_ok s c (rq_transitions st c)"
  unfolding rq_transitions_def
  by (intro step_ok_if; use assms in \<open>simp add: rq_case_defs\<close>)
    (auto simp: step_ok_def marked_def rq_ctr_defs rq_stores blank_def)

lemma rq_case_step:
  assumes "rq_transitions st c = (acts, st')" "sc_text s = None \<longleftrightarrow> st \<notin> marked" "st \<in> {21, 26} \<Longrightarrow> c \<noteq> CHR 0x0D"
  shows "\<exists>s'. scan_actions acts s = Some s' \<and> (list_ex is_Finish acts \<or> st' = 0 \<or>
    (sc_text s' = None \<longleftrightarrow> st' \<notin> marked) \<and> (st' \<in> {21, 26} \<longrightarrow> blank c))"
  using rq_step_ok [OF assms(2,3)] assms(1) by (auto simp: step_ok_def split: option.splits)

fun blank_cr :: "string \<Rightarrow> bool" where
  "blank_cr [] = False"
| "blank_cr [x] = False"
| "blank_cr (x # y # s) \<longleftrightarrow> blank x \<and> y = CHR 0x0D \<or> blank_cr (y # s)"

lemma rq_not_stuck:
  assumes "sc_text s = None \<longleftrightarrow> st \<notin> marked" "\<not> blank_cr cs" "st \<in> {21, 26} \<Longrightarrow> cs \<noteq> [] \<Longrightarrow> hd cs \<noteq> CHR 0x0D"
  shows "scan_run rq_transitions cs st s \<noteq> Stuck"
  using assms
proof (induction cs arbitrary: st s)
  case Nil
  then show ?case by simp
next
  case (Cons c cs)
  obtain acts st' where T: "rq_transitions st c = (acts, st')" by fastforce
  obtain s' where s': "scan_actions acts s = Some s'" "list_ex is_Finish acts \<or> st' = 0 \<or>
      (sc_text s' = None \<longleftrightarrow> st' \<notin> marked) \<and> (st' \<in> {21, 26} \<longrightarrow> blank c)"
    using rq_case_step [OF T Cons.prems(1)] Cons.prems(3) by auto
  show ?case
  proof (cases "list_ex is_Finish acts \<or> st' = 0")
    case True
    then show ?thesis by (auto simp: T s'(1))
  next
    case False
    have "scan_run rq_transitions cs st' (scan_char c s') \<noteq> Stuck"
    proof (rule Cons.IH)
      show "sc_text (scan_char c s') = None \<longleftrightarrow> st' \<notin> marked" using False s'(2) by (simp add: scan_char_def)
      show "\<not> blank_cr cs" using Cons.prems(2) by (cases cs) auto
      show "hd cs \<noteq> CHR 0x0D" if "st' \<in> {21, 26}" "cs \<noteq> []"
        using that False s'(2) Cons.prems(2) by (cases cs) auto
    qed
    then show ?thesis using False by (simp add: T s'(1))
  qed
qed

text \<open>What a run over blocks comes to: how it ended, the text left over, and the request.\<close>

definition verdict :: "(string \<times> string list) option \<times> 'b http_request_parser \<Rightarrow> (string \<times> parser_state) option \<times> request" where
  "verdict out = (case out of (res, par) \<Rightarrow>
     (map_option (\<lambda>(behind, blocks). (behind @ concat blocks, rg_state par)) res, rd_req (rg_data par)))"

lemma verdict_eq:
  assumes "collects bo val mark" "\<forall>b \<in> set blocks. b \<noteq> []" "\<not> blank_cr (concat blocks)"
  shows "verdict (parse_blocks (request_parse bo False) blocks (request_parser_init bo par)) =
    (case scan_run rq_transitions (concat blocks) (Suc 0) (idle ((rg_data par)\<lparr>rd_req := request_new\<rparr>)) of
       More st s \<Rightarrow> (None, rd_req (sc_data s))
     | Failing r d \<Rightarrow> (Some (r, Ps_error), rd_req d)
     | Finished r d \<Rightarrow> (Some (r, Ps_done), rd_req d)
     | Stuck \<Rightarrow> (None, request_new))"
proof -
  have "scan_run rq_transitions (concat blocks) (Suc 0) (idle ((rg_data par)\<lparr>rd_req := request_new\<rparr>)) \<noteq> Stuck"
    by (rule rq_not_stuck) (use assms(3) in \<open>auto simp: marked_def\<close>)
  then show ?thesis
    using parse_blocks_agree [OF assms(1), of "request_ending False", OF request_ending_laws(1) init_between [OF assms(1)] assms(2),
        of rq_transitions 29 par]
    by (auto simp: verdict_def outcome_is_def request_parse_def between_def request_ending_laws split: scanned.splits)
qed

text \<open>C24. What the parser says of a text does not depend on how the text was cut into blocks, as long as
  no blank stands before a carriage return: the same verdict, the same text left over, the same
  request, for texts that are no requests as well.\<close>

theorem parsing_ignores_blocks:
  assumes "collects bo val mark" "\<forall>b \<in> set blocks. b \<noteq> []" "\<forall>b \<in> set blocks'. b \<noteq> []" "concat blocks = concat blocks'"
    "\<not> blank_cr (concat blocks)"
  shows "verdict (parse_blocks (request_parse bo False) blocks (request_parser_init bo par)) =
    verdict (parse_blocks (request_parse bo False) blocks' (request_parser_init bo par))"
  using verdict_eq [OF assms(1,2,5)] verdict_eq [OF assms(1,3)] assms(4,5) by simp

subsection \<open>Sample requests\<close>

definition sample_parser :: "(string \<times> nat option) http_request_parser" where
  "sample_parser = \<lparr>fsm_cs = 0, rg_builder = ([], None), rg_data = \<lparr>rd_req = request_new, rd_field_name = [], rd_value = []\<rparr>,
     rg_state = Ps_error\<rparr>"

definition sample_text :: request_text where
  "sample_text = \<lparr>rt_method = ''GET'', rt_target = ''/a'', rt_version = (CHR 0x31, CHR 0x31),
     rt_fields = [\<lparr>hf_name = ''Host'', hf_space = '' '', hf_value = ''b c'', hf_folds = [('' '', ''d'')]\<rparr>,
       \<lparr>hf_name = ''hOST'', hf_space = [], hf_value = ''e'', hf_folds = []\<rparr>]\<rparr>"

lemma sample_text_ok: "request_ok sample_text"
  by (simp add: request_ok_def sample_text_def upper_def dec_digit_def in_range_def field_ok_def field_value_def tchar_def
      vchar_def blank_def char_int_def)

theorem request_reads_back_witness:
  "\<exists>behind blocks' par'. parse_blocks (request_parse plain_builder False) [''G'', tl (text_of sample_text), ''next'']
      (request_parser_init plain_builder sample_parser) = (Some (behind, blocks'), par') \<and>
    behind @ concat blocks' = ''next'' \<and> rg_state par' = Ps_done \<and>
    req_headers (rd_req (rg_data par')) ''host'' = Some ''b c d,e''"
proof -
  have "concat [''G'', tl (text_of sample_text), ''next''] = text_of sample_text @ ''next''" "tl (text_of sample_text) \<noteq> []"
    by (simp_all add: text_of_def sample_text_def)
  moreover have "req_headers (request_of sample_text) ''host'' = Some ''b c d,e''"
    by (simp add: request_of_def sample_text_def join_field_def folded_def tolower_def char_of_def bit_0)
  ultimately show ?thesis
    using request_reads_back [OF plain_builder_collects sample_text_ok, of "[''G'', tl (text_of sample_text), ''next'']" "''next''" sample_parser]
    by fastforce
qed

theorem parsing_ignores_blocks_witness:
  "verdict (parse_blocks (request_parse plain_builder False) [''GE'', ''T/ ''] (request_parser_init plain_builder sample_parser)) =
   verdict (parse_blocks (request_parse plain_builder False) [''GET'', ''/ ''] (request_parser_init plain_builder sample_parser))"
  by (rule parsing_ignores_blocks [OF plain_builder_collects]) (simp_all add: blank_def)

subsection \<open>Blanks at the end of a value\<close>

definition field_start :: string where
  "field_start = ''GET / HTTP/1.1'' @ crlf @ ''a:b''"

lemma scan_field_start:
  "\<exists>d. scan_run rq_transitions field_start (Suc 0) (idle ((rg_data par)\<lparr>rd_req := request_new\<rparr>)) = More 20 (busy ''b'' d) \<and>
    rd_field_name d = ''a'' \<and> req_headers (rd_req d) = Map.empty"
  by (simp add: field_start_def crlf_def rq_case_defs rq_ctr_defs rq_stores in_range_def char_int_def tchar_range_def request_new_def)

lemma scan_field_start_blank:
  "\<exists>d. scan_run rq_transitions (field_start @ '' '') (Suc 0) (idle ((rg_data par)\<lparr>rd_req := request_new\<rparr>)) = More 21 (busy ''b '' d) \<and>
    rd_field_name d = ''a'' \<and> req_headers (rd_req d) = Map.empty"
  using scan_field_start [of par] by (auto simp: scan_run_append rq_case_20_def rq_ctr_defs)

lemma parse_first_block:
  assumes "collects bo val mark" "between val mark par st s" "blk \<noteq> []" "scan_run rq_transitions blk st s = More st' s'"
  shows "\<exists>par'. request_parse bo False blk par = (None, par') \<and> between val mark par' st' s'"
  using ragel_parse_agrees [OF assms(1-3), of "request_ending False" rq_transitions 29] request_ending_laws(1) assms(4)
  by (cases "request_parse bo False blk par") (auto simp: request_parse_def)

lemma end_after_value:
  assumes laws: "collects bo val mark" and par: "between val mark par 20 (busy t d)" "t \<noteq> []"
    and d: "rd_field_name d = ''a''" "req_headers (rd_req d) = Map.empty"
  shows "req_headers (rd_req (rg_data (snd (request_parse bo False (CHR 0x20 # crlf @ crlf) par)))) ''a'' = Some t"
  using par d
  by (simp add: request_parse_def ragel_parse_def between_def crlf_def rq_case_defs rq_ctr_defs no_mark_store_value_def assign_field_def
      put_header_def collectsD [OF laws] case_prod_beta Let_def in_range_def char_int_def tchar_range_def tolower_def char_of_def bit_0
      request_ending_def)

lemma end_after_blank:
  assumes laws: "collects bo val mark" and par: "between val mark par 21 (busy t d)" "t \<noteq> []"
    and d: "rd_field_name d = ''a''" "req_headers (rd_req d) = Map.empty"
  shows "req_headers (rd_req (rg_data (snd (request_parse bo False (crlf @ crlf) par)))) ''a'' = Some t"
  using par d
  by (simp add: request_parse_def ragel_parse_def between_def crlf_def rq_case_defs rq_ctr_defs no_mark_store_value_def assign_field_def
      put_header_def collectsD [OF laws] case_prod_beta Let_def in_range_def char_int_def tchar_range_def tolower_def char_of_def bit_0
      request_ending_def)

text \<open>The blanks behind the value of a field are dropped or kept depending on where the blocks of the
  request end: cut before the blank, the value is \<open>b\<close>; cut behind it, the same text has the value
  \<open>b\<close> followed by the blank.\<close>

theorem trailing_blank_depends_on_blocks:
  assumes "collects bo val mark"
  shows "req_headers (snd (verdict (parse_blocks (request_parse bo False)
        [field_start, '' '' @ crlf @ crlf] (request_parser_init bo par)))) ''a'' = Some ''b'' \<and>
    req_headers (snd (verdict (parse_blocks (request_parse bo False)
        [field_start @ '' '', crlf @ crlf] (request_parser_init bo par)))) ''a'' = Some ''b ''"
proof -
  note init = init_between [OF assms, of par]
  obtain d where d: "scan_run rq_transitions field_start (Suc 0) (idle ((rg_data par)\<lparr>rd_req := request_new\<rparr>)) = More 20 (busy ''b'' d)"
    "rd_field_name d = ''a''" "req_headers (rd_req d) = Map.empty"
    using scan_field_start by blast
  obtain e where e: "scan_run rq_transitions (field_start @ '' '') (Suc 0) (idle ((rg_data par)\<lparr>rd_req := request_new\<rparr>)) =
      More 21 (busy ''b '' e)" "rd_field_name e = ''a''" "req_headers (rd_req e) = Map.empty"
    using scan_field_start_blank by blast
  obtain p1 where p1: "request_parse bo False field_start (request_parser_init bo par) = (None, p1)" "between val mark p1 20 (busy ''b'' d)"
    using parse_first_block [OF assms init _ d(1)] by (auto simp: field_start_def)
  obtain p2 where p2: "request_parse bo False (field_start @ '' '') (request_parser_init bo par) = (None, p2)"
    "between val mark p2 21 (busy ''b '' e)"
    using parse_first_block [OF assms init _ e(1)] by auto
  show ?thesis
    using end_after_value [OF assms p1(2) _ d(2,3)] end_after_blank [OF assms p2(2) _ e(2,3)] p1(1) p2(1)
    by (auto simp: verdict_def case_prod_beta split: option.split)
qed

theorem trailing_blank_depends_on_blocks_witness:
  "req_headers (snd (verdict (parse_blocks (request_parse plain_builder False)
      [field_start @ '' '', crlf @ crlf] (request_parser_init plain_builder sample_parser)))) ''a'' = Some ''b ''"
  using trailing_blank_depends_on_blocks [OF plain_builder_collects] by blast

end
