(* ===== verification/HttpConn.thy ===== *)
theory HttpConn
  imports HttpRoutesProps HttpRequestText
begin

text \<open>
  The reading side of a connection, \<open>http/httpd.cc\<close>: one request is read, its body, and its reply is
  generated and queued. What the socket delivers is an argument: what the parser made of the next
  bytes, and what \<open>read_exactly\<close> returns. The queue of replies is the core library's: below its limit
  a push appends; what a push on a full queue does is a parameter, \<open>full\<close>. \<open>read_one\<close> tells whether it
  ended with an exception.
\<close>

subsection \<open>Numbers\<close>

text \<open>\<open>strtol\<close> with base 10: white space, a sign, digits, and saturation at the ends of a \<open>long\<close>.\<close>

fun dec_digits :: "nat \<Rightarrow> string \<Rightarrow> nat" where
  "dec_digits a [] = a"
| "dec_digits a (c # s) = (if dec_digit c then dec_digits (10 * a + nat (char_int c - 48)) s else a)"

definition white :: "char \<Rightarrow> bool" where
  "white c \<longleftrightarrow> c = CHR 0x20 \<or> in_range 9 13 c"

definition strtol10 :: "string \<Rightarrow> int" where
  "strtol10 s =
     (let t = dropWhile white s;
          v = (case t of
                 [] \<Rightarrow> 0
               | c # u \<Rightarrow> if c = CHR 0x2D then - int (dec_digits 0 u) else if c = CHR 0x2B then int (dec_digits 0 u)
                          else int (dec_digits 0 t))
      in max (- (2 ^ 63)) (min (2 ^ 63 - 1) v))"

subsection \<open>Connections and counters\<close>

definition on_new_connection :: "http_server \<Rightarrow> http_server" where
  "on_new_connection sv =
     sv\<lparr>sv_total_connections := sv_total_connections sv + 1, sv_current_connections := sv_current_connections sv + 1\<rparr>"

definition connection_gone :: "http_server \<Rightarrow> http_server" where
  "connection_gone sv = sv\<lparr>sv_current_connections := sv_current_connections sv - 1\<rparr>"

definition push_reply :: "(reply option list \<Rightarrow> reply option \<Rightarrow> reply option list) \<Rightarrow> reply option \<Rightarrow> http_conn \<Rightarrow> http_conn" where
  "push_reply full x c =
     c\<lparr>cn_replies := if length (cn_replies c) < 10 then cn_replies c @ [x] else full (cn_replies c) x\<rparr>"

text \<open>The end of the read loop: a failure is counted, and the end mark is queued once there is room.\<close>

definition read_ends :: "bool \<Rightarrow> http_server \<Rightarrow> http_server" where
  "read_ends failed sv = (if failed then sv\<lparr>sv_read_errors := sv_read_errors sv + 1\<rparr> else sv)"

definition queue_end_mark :: "http_conn \<Rightarrow> http_conn" where
  "queue_end_mark c = c\<lparr>cn_replies := cn_replies c @ [None]\<rparr>"

subsection \<open>One request\<close>

datatype parsed = At_eof | Unparsable request | Request request

definition parsed_request :: "'b http_request_parser \<Rightarrow> parsed" where
  "parsed_request par =
     (case rg_state par of
        Ps_eof \<Rightarrow> At_eof
      | Ps_error \<Rightarrow> Unparsable (rd_req (rg_data par))
      | Ps_done \<Rightarrow> Request (rd_req (rg_data par)))"

definition keeps_alive :: "request \<Rightarrow> bool" where
  "keeps_alive req \<longleftrightarrow> req_headers req ''connection'' = Some ''Keep-Alive''"

definition wants_close :: "request \<Rightarrow> bool" where
  "wants_close req \<longleftrightarrow> req_headers req ''connection'' = Some ''Close''"

definition should_close :: "request \<Rightarrow> bool" where
  "should_close req =
     (if req_version req = ''1.0'' then \<not> keeps_alive req
      else if req_version req = ''1.1'' then wants_close req else True)"

text \<open>The reply to a request; \<open>None\<close> is the exception of the routing.\<close>

definition reply_to :: "request \<Rightarrow> routes \<Rightarrow> http_server \<Rightarrow> reply option" where
  "reply_to req rt sv =
     (let resp = set_version (req_version req) reply_new;
          resp1 = (if req_version req = ''1.0'' \<and> keeps_alive req then add_header ''Connection'' ''Keep-Alive'' resp else resp);
          (url, req1) = set_query_param req
      in map_option (\<lambda>rep. reply_done (set_version (req_version req) rep))
           (routes_handle url req1 (set_headers sv resp1) rt))"

definition generate_reply :: "(reply option list \<Rightarrow> reply option \<Rightarrow> reply option list) \<Rightarrow> request \<Rightarrow> routes \<Rightarrow> http_server
    \<Rightarrow> http_conn \<Rightarrow> http_conn \<times> bool" where
  "generate_reply full req rt sv c =
     (case reply_to req rt sv of
        None \<Rightarrow> (c, True)
      | Some rep \<Rightarrow> ((push_reply full (Some rep) c)\<lparr>cn_done := should_close req\<rparr>, False))"

definition continue_reply :: "request \<Rightarrow> http_server \<Rightarrow> reply" where
  "continue_reply req sv = reply_done (set_status St_continue [] (set_version (req_version req) (set_headers sv reply_new)))"

definition expects_continue :: "request \<Rightarrow> bool" where
  "expects_continue req \<longleftrightarrow>
     req_version req = ''1.1'' \<and> case_insensitive_cmp (get_header_field req ''Expect'') ''100-continue''"

definition read_request_body :: "(u64 \<Rightarrow> string) \<Rightarrow> request \<Rightarrow> request" where
  "read_request_body body req = (if content_length req = 0 then req else req\<lparr>req_content := body (content_length req)\<rparr>)"

text \<open>The protocol and the announced length of a request that was parsed.\<close>

definition prepare_request :: "http_server \<Rightarrow> request \<Rightarrow> request" where
  "prepare_request sv req =
     (let req1 = (if sv_credentials sv then req\<lparr>protocol_name := ''https''\<rparr> else req)
      in req1\<lparr>content_length := word_of_int (strtol10 (get_header_field req1 ''Content-Length''))\<rparr>)"

definition error_reply :: "request \<Rightarrow> status_type \<Rightarrow> string \<Rightarrow> reply" where
  "error_reply req status msg = reply_done (set_status status msg (set_version (req_version req) reply_new))"

definition generate_error_reply_and_close :: "(reply option list \<Rightarrow> reply option \<Rightarrow> reply option list) \<Rightarrow> request \<Rightarrow> status_type
    \<Rightarrow> string \<Rightarrow> http_conn \<Rightarrow> http_conn" where
  "generate_error_reply_and_close full req status msg c =
     push_reply full (Some (error_reply req status msg)) (c\<lparr>cn_done := True\<rparr>)"

text \<open>\<open>read_one\<close> up to where it waits for the body: what the parser made of the bytes is looked at, and a
  request that is not refused is handed on, with its reply to continue queued. The error replies do not
  wait for room in the queue. \<open>limit_message\<close> is the text of the library's \<open>format\<close>.\<close>

definition read_start :: "(reply option list \<Rightarrow> reply option \<Rightarrow> reply option list) \<Rightarrow> (u64 \<Rightarrow> u64 \<Rightarrow> string) \<Rightarrow> parsed
    \<Rightarrow> http_server \<Rightarrow> http_conn \<Rightarrow> http_server \<times> http_conn \<times> request option" where
  "read_start full limit_message p sv c =
     (case p of
        At_eof \<Rightarrow> (sv, c\<lparr>cn_done := True\<rparr>, None)
      | Unparsable req \<Rightarrow>
          (let req1 = (if sv_credentials sv then req\<lparr>protocol_name := ''https''\<rparr> else req);
               req2 = (if req_version req1 = [] then req1\<lparr>req_version := ''1.1''\<rparr> else req1)
           in (sv\<lparr>sv_requests_served := sv_requests_served sv + 1\<rparr>,
               generate_error_reply_and_close full req2 St_bad_request (''Can'' @ [CHR 0x27] @ ''t parse the request'') c, None))
      | Request req \<Rightarrow>
          (let sv1 = sv\<lparr>sv_requests_served := sv_requests_served sv + 1\<rparr>;
               req2 = prepare_request sv req
           in if content_length req2 > sv_content_length_limit sv1 then
                (sv1, generate_error_reply_and_close full req2 St_payload_too_large
                   (limit_message (sv_content_length_limit sv1) (content_length req2)) c, None)
              else
                (sv1, if expects_continue req2 then push_reply full (Some (continue_reply req2 sv1)) c else c, Some req2)))"

text \<open>The rest of \<open>read_one\<close>: the body is read and the reply is queued.\<close>

definition read_finish :: "(reply option list \<Rightarrow> reply option \<Rightarrow> reply option list) \<Rightarrow> request \<Rightarrow> (u64 \<Rightarrow> string) \<Rightarrow> routes
    \<Rightarrow> http_server \<Rightarrow> http_conn \<Rightarrow> http_conn \<times> bool" where
  "read_finish full req body rt sv c = generate_reply full (read_request_body body req) rt sv c"

definition read_one :: "(reply option list \<Rightarrow> reply option \<Rightarrow> reply option list) \<Rightarrow> (u64 \<Rightarrow> u64 \<Rightarrow> string) \<Rightarrow> parsed
    \<Rightarrow> (u64 \<Rightarrow> string) \<Rightarrow> routes \<Rightarrow> http_server \<Rightarrow> http_conn \<Rightarrow> http_server \<times> http_conn \<times> bool" where
  "read_one full limit_message p body rt sv c =
     (case read_start full limit_message p sv c of
        (sv1, c1, None) \<Rightarrow> (sv1, c1, False)
      | (sv1, c1, Some req) \<Rightarrow> (sv1, read_finish full req body rt sv1 c1))"

end
