(* ===== verification/HttpWire.thy ===== *)
theory HttpWire
  imports HttpReply
begin

text \<open>
  A reply on the wire is what a reader of HTTP expects: a reader of the message format of RFC 7230,
  written here, gets back the status line, the headers and the body, of fixed length or chunked,
  and nothing of what follows on the connection.
\<close>

subsection \<open>A reader of messages\<close>

fun take_line :: "string \<Rightarrow> (string \<times> string) option" where
  "take_line [] = None"
| "take_line [c] = None"
| "take_line (c # d # s) =
     (if c = CHR 0x0D \<and> d = CHR 0x0A then Some ([], s) else map_option (map_prod (Cons c) id) (take_line (d # s)))"

definition hex_value :: "char \<Rightarrow> nat option" where
  "hex_value c =
     (let n = of_char c :: nat
      in if 48 \<le> n \<and> n \<le> 57 then Some (n - 48) else if 97 \<le> n \<and> n \<le> 102 then Some (n - 87)
         else if 65 \<le> n \<and> n \<le> 70 then Some (n - 55) else None)"

fun read_hex :: "nat \<Rightarrow> string \<Rightarrow> nat option" where
  "read_hex a [] = Some a"
| "read_hex a (c # s) = Option.bind (hex_value c) (\<lambda>d. read_hex (16 * a + d) s)"

fun read_chunks :: "nat \<Rightarrow> string \<Rightarrow> (string \<times> string) option" where
  "read_chunks 0 s = None"
| "read_chunks (Suc n) s =
     Option.bind (take_line s) (\<lambda>(l, r).
       if l = [] then None
       else Option.bind (read_hex 0 l) (\<lambda>k.
         if k = 0 then (if starts_with crlf r then Some ([], drop 2 r) else None)
         else if k \<le> length r \<and> starts_with crlf (drop k r)
              then map_option (map_prod ((@) (take k r)) id) (read_chunks n (drop (k + 2) r))
              else None))"

fun read_headers :: "nat \<Rightarrow> string \<Rightarrow> ((string \<times> string) list \<times> string) option" where
  "read_headers 0 s = None"
| "read_headers (Suc n) s =
     Option.bind (take_line s) (\<lambda>(l, r).
       if l = [] then Some ([], r)
       else Option.bind (index_of CHR 0x3A l) (\<lambda>i.
         map_option (map_prod (Cons (take i l, dropWhile (\<lambda>c. c = CHR 0x20) (drop (i + 1) l))) id) (read_headers n r)))"

definition read_body :: "(string \<times> string) list \<Rightarrow> string \<Rightarrow> (string \<times> string) option" where
  "read_body hs s =
     (if map_of hs ''Transfer-Encoding'' = Some ''chunked'' then read_chunks (length s) s
      else case map_of hs ''Content-Length'' of
             None \<Rightarrow> None
           | Some v \<Rightarrow> (case read_nat 0 v of (k, e) \<Rightarrow>
               if v \<noteq> [] \<and> e = [] \<and> k \<le> length s then Some (take k s, drop k s) else None))"

definition read_message :: "string \<Rightarrow> (string \<times> (string \<times> string) list \<times> string \<times> string) option" where
  "read_message s =
     Option.bind (take_line s) (\<lambda>(l, r).
       Option.bind (read_headers (length r) r) (\<lambda>(hs, q).
         map_option (\<lambda>(b, rest). (l, hs, b, rest)) (read_body hs q)))"

subsection \<open>Lines\<close>

definition clean :: "string \<Rightarrow> bool" where
  "clean s \<longleftrightarrow> CHR 0x0D \<notin> set s \<and> CHR 0x0A \<notin> set s"

lemma clean_simps [simp]:
  "clean []" "clean (c # s) \<longleftrightarrow> c \<noteq> CHR 0x0D \<and> c \<noteq> CHR 0x0A \<and> clean s" "clean (s @ t) \<longleftrightarrow> clean s \<and> clean t"
  by (auto simp: clean_def)

lemma take_line_clean: "clean s \<Longrightarrow> take_line (s @ crlf @ r) = Some (s, r)"
proof (induction s)
  case (Cons c s)
  obtain d t where "s @ crlf @ r = d # t" by (cases s) (auto simp: crlf_def)
  with Cons show ?case by (simp add: map_prod_def)
qed (simp add: crlf_def)

subsection \<open>Numbers in hexadecimal\<close>

lemma hex_digit:
  assumes "d < 16"
  shows "hex_value (if d < 10 then char_of (48 + d) else char_of (87 + d)) = Some d"
  using assms by (auto simp: hex_value_def)

lemma show_hex_step: "show_hex n =
    (if n < 16 then [if n < 10 then char_of (48 + n) else char_of (87 + n)]
     else show_hex (n div 16) @ [if n mod 16 < 10 then char_of (48 + n mod 16) else char_of (87 + n mod 16)])"
  by (rule show_hex.simps)

lemma read_hex_append: "read_hex a (s @ t) = Option.bind (read_hex a s) (\<lambda>b. read_hex b t)"
  by (induction s arbitrary: a) (auto split: bind_splits)

lemma read_show_hex: "read_hex 0 (show_hex n) = Some n"
proof (induction n rule: show_hex.induct)
  case (1 n)
  show ?case
  proof (cases "n < 16")
    case True
    then show ?thesis using hex_digit [OF True] by (simp only: show_hex_step [of n] if_True read_hex.simps) simp
  next
    case False
    have d: "n mod 16 < 16" by simp
    show ?thesis using 1 [OF False] False hex_digit [OF d]
      by (simp only: show_hex_step [of n] if_False read_hex_append read_hex.simps) simp
  qed
qed

lemma char_of_hex_clean: "(d :: nat) < 16 \<Longrightarrow> (if d < 10 then char_of (48 + d) else char_of (87 + d)) \<notin> {CHR 0x0D, CHR 0x0A}"
  using hex_digit [of d] by (auto simp: hex_value_def)

lemma show_hex_clean: "clean (show_hex n) \<and> show_hex n \<noteq> []"
proof (induction n rule: show_hex.induct)
  case (1 n)
  have d: "n mod 16 < 16" by simp
  show ?case
  proof (cases "n < 16")
    case True
    then show ?thesis using char_of_hex_clean [OF True] by (simp only: show_hex_step [of n] if_True) simp
  next
    case False
    then show ?thesis using 1 [OF False] char_of_hex_clean [OF d]
      by (simp only: show_hex_step [of n] if_False clean_simps) simp
  qed
qed

lemma show_nat_clean: "clean (show_nat n)"
proof (induction n rule: show_nat.induct)
  case (1 n)
  have "is_digit (char_of (48 + n mod 10))" using is_digit_char [of "n mod 10"] by simp
  moreover have "\<not> is_digit CHR 0x0D" "\<not> is_digit CHR 0x0A" by (simp_all add: is_digit_def)
  ultimately have "char_of (48 + n mod 10) \<notin> {CHR 0x0D, CHR 0x0A}" by (metis insertE empty_iff)
  then show ?case using 1 by (cases "n < 10") (simp_all add: show_nat_step [of n])
qed

subsection \<open>Chunks\<close>

lemma read_chunk:
  assumes "buf \<noteq> []"
  shows "read_chunks (Suc n) (chunk_put buf @ r) = map_option (map_prod ((@) buf) id) (read_chunks n r)"
proof -
  have "take_line (chunk_put buf @ r) = Some (show_hex (length buf), buf @ crlf @ r)"
    using take_line_clean [of "show_hex (length buf)" "buf @ crlf @ r"] show_hex_clean assms
    by (simp add: chunk_put_def)
  then show ?thesis
    using assms show_hex_clean read_show_hex by (simp add: starts_with_def crlf_def)
qed

lemma read_last_chunk: "read_chunks (Suc n) (''0'' @ crlf @ crlf @ rest) = Some ([], rest)"
  using take_line_clean [of "''0''" "crlf @ rest"] by (simp add: starts_with_def hex_value_def crlf_def)

lemma read_all_chunks:
  "length (filter (\<lambda>b. b \<noteq> []) bufs) < n \<Longrightarrow>
    read_chunks n (concat (map chunk_put bufs) @ ''0'' @ crlf @ crlf @ rest) = Some (concat bufs, rest)"
proof (induction bufs arbitrary: n)
  case Nil
  then show ?case using read_last_chunk by (cases n) auto
next
  case (Cons b bufs)
  show ?case
  proof (cases "b = []")
    case True
    then show ?thesis using Cons by (simp add: chunk_put_def)
  next
    case False
    then obtain m where m: "n = Suc m" "length (filter (\<lambda>b. b \<noteq> []) bufs) < m" using Cons.prems by (cases n) auto
    then show ?thesis using read_chunk [OF False] Cons.IH [OF m(2)] by simp
  qed
qed

lemma chunks_length: "length (filter (\<lambda>b. b \<noteq> []) bufs) \<le> length (concat (map chunk_put bufs))"
  by (induction bufs) (auto simp: chunk_put_def crlf_def)

subsection \<open>Headers\<close>

definition clean_headers :: "(string \<times> string) list \<Rightarrow> bool" where
  "clean_headers hs \<longleftrightarrow> (\<forall>(h, v) \<in> set hs. h \<noteq> [] \<and> CHR 0x3A \<notin> set h \<and> clean h \<and> clean v \<and> (v \<noteq> [] \<longrightarrow> hd v \<noteq> CHR 0x20))"

lemma clean_headers_update:
  assumes "clean_headers hs" "h \<noteq> []" "CHR 0x3A \<notin> set h" "clean h" "clean v" "v \<noteq> [] \<longrightarrow> hd v \<noteq> CHR 0x20"
  shows "clean_headers (AList.update h v hs)"
  using assms by (induction hs) (auto simp: clean_headers_def)

lemma read_header_lines:
  "clean_headers hs \<Longrightarrow> length hs < n \<Longrightarrow>
    read_headers n (concat (map (\<lambda>(h, v). h @ '': '' @ v @ crlf) hs) @ crlf @ rest) = Some (hs, rest)"
proof (induction hs arbitrary: n)
  case Nil
  have "take_line (crlf @ rest) = Some ([], rest)" by (simp add: crlf_def)
  then show ?case using Nil by (cases n) auto
next
  case (Cons hv hs)
  obtain h v where hv: "hv = (h, v)" by fastforce
  obtain m where m: "n = Suc m" "length hs < m" using Cons.prems(2) by (cases n) auto
  have c: "h \<noteq> []" "CHR 0x3A \<notin> set h" "clean (h @ '': '' @ v)" "v \<noteq> [] \<longrightarrow> hd v \<noteq> CHR 0x20" "clean_headers hs"
    using Cons.prems(1) by (auto simp: clean_headers_def hv)
  let ?more = "concat (map (\<lambda>(h, v). h @ '': '' @ v @ crlf) hs) @ crlf @ rest"
  have line: "take_line (h @ '': '' @ v @ crlf @ ?more) = Some (h @ '': '' @ v, ?more)"
    using take_line_clean [OF c(3), of ?more] by simp
  moreover have "index_of CHR 0x3A (h @ '': '' @ v) = Some (length h)"
    using index_of_found [OF c(2)] by simp
  moreover have "dropWhile (\<lambda>c. c = CHR 0x20) v = v" using c(4) by (cases v) auto
  ultimately show ?case using Cons.IH [OF c(5) m(2)] c(1) by (simp add: hv m(1))
qed

lemma headers_length: "length hs \<le> length (concat (map (\<lambda>(h, v). h @ '': '' @ v @ crlf) hs))"
  by (induction hs) auto

lemma read_message_headers:
  assumes "clean line" "clean_headers hs" "read_body hs body = Some (b, rest)"
  shows "read_message (line @ crlf @ concat (map (\<lambda>(h, v). h @ '': '' @ v @ crlf) hs) @ crlf @ body) = Some (line, hs, b, rest)"
proof -
  let ?hs = "concat (map (\<lambda>(h, v). h @ '': '' @ v @ crlf) hs)"
  have "length hs < length (?hs @ crlf @ body)" using headers_length [of hs] by (simp add: crlf_def)
  from read_header_lines [OF assms(2) this] show ?thesis
    using assms(3) take_line_clean [OF assms(1)] by (simp add: read_message_def)
qed

subsection \<open>Replies\<close>

definition status_line :: "reply \<Rightarrow> string" where
  "status_line r = butlast (butlast (response_line r))"

lemma status_string_line: "\<exists>s. status_string st = s @ crlf \<and> clean s"
  by (cases st) (auto simp: clean_def)

lemma response_line_eq: "clean (rep_version r) \<Longrightarrow> response_line r = status_line r @ crlf \<and> clean (status_line r)"
  using status_string_line [of "rep_status r"]
  by (auto simp: status_line_def response_line_def crlf_def butlast_append)

text \<open>The headers that a reply is sent with and what goes out for it when nothing fails.\<close>

definition sent_reply :: "http_server \<Rightarrow> reply \<Rightarrow> reply" where
  "sent_reply sv r =
     (case rep_body_writer r of
        Some w \<Rightarrow> add_header ''Transfer-Encoding'' ''chunked'' r
      | None \<Rightarrow> add_header ''Content-Length'' (show_nat (length (rep_content r))) (set_headers sv r))"

definition wire_body :: "reply \<Rightarrow> string" where
  "wire_body r = (case rep_body_writer r of None \<Rightarrow> rep_content r | Some w \<Rightarrow> concat (map chunk_put (bw_buffers w)) @ ''0'' @ crlf @ crlf)"

definition wire :: "http_server \<Rightarrow> reply \<Rightarrow> string" where
  "wire sv r = (case rep_body_writer r of None \<Rightarrow> rep_response_line r | Some w \<Rightarrow> response_line r) @
     write_reply_headers (sent_reply sv r) @ crlf @ wire_body r"

text \<open>What was meant by a reply's body.\<close>

definition meant_body :: "reply \<Rightarrow> string" where
  "meant_body r = (case rep_body_writer r of None \<Rightarrow> rep_content r | Some w \<Rightarrow> concat (bw_buffers w))"

definition sendable :: "reply \<Rightarrow> bool" where
  "sendable r \<longleftrightarrow> (case rep_body_writer r of None \<Rightarrow> True | Some w \<Rightarrow> \<not> bw_fails w)"

lemma start_response_wire:
  "sendable r \<Longrightarrow> start_response None True r sv c = (sv, c\<lparr>cn_out := cn_out c @ wire sv r\<rparr>, False)"
  by (auto simp: sendable_def start_response_def stream_write_def wire_def sent_reply_def wire_body_def set_headers_def add_header_def
      response_line_def write_reply_to_connection_def Let_def split: option.splits)

lemma sent_reply_headers:
  "h \<notin> {''Server'', ''Date'', ''Content-Length'', ''Transfer-Encoding''} \<Longrightarrow>
    map_of (rep_headers (sent_reply sv r)) h = map_of (rep_headers r) h"
  by (auto simp: sent_reply_def set_headers_def add_header_def update_conv' split: option.split)

lemma sent_reply_framing:
  "case rep_body_writer r of
     None \<Rightarrow> map_of (rep_headers (sent_reply sv r)) ''Content-Length'' = Some (show_nat (length (rep_content r))) \<and>
       map_of (rep_headers (sent_reply sv r)) ''Server'' = Some ''Actor httpd'' \<and>
       map_of (rep_headers (sent_reply sv r)) ''Date'' = Some (sv_date sv)
   | Some w \<Rightarrow> map_of (rep_headers (sent_reply sv r)) ''Transfer-Encoding'' = Some ''chunked''"
  by (simp add: sent_reply_def set_headers_def add_header_def update_conv' split: option.split)

lemma show_nat_value: "clean (show_nat n)" "show_nat n \<noteq> []" "hd (show_nat n) \<noteq> CHR 0x20"
  using show_nat_digits [of n] show_nat_clean by (auto simp: is_digit_def)

lemma clean_sent_reply:
  assumes "clean_headers (rep_headers r)" "clean (sv_date sv)" "hd (sv_date sv) \<noteq> CHR 0x20"
  shows "clean_headers (rep_headers (sent_reply sv r))"
  using assms show_nat_value
  by (auto simp: sent_reply_def set_headers_def add_header_def intro!: clean_headers_update split: option.split)

lemma read_wire_body:
  assumes "case rep_body_writer r of None \<Rightarrow> map_of (rep_headers r) ''Transfer-Encoding'' = None | Some w \<Rightarrow> True"
  shows "read_body (rep_headers (sent_reply sv r)) (wire_body r @ rest) = Some (meant_body r, rest)"
proof (cases "rep_body_writer r")
  case None
  then show ?thesis
    using assms show_nat_value read_show_nat [of 0 "length (rep_content r)" "[]"]
    by (simp add: sent_reply_def wire_body_def meant_body_def read_body_def set_headers_def add_header_def update_conv')
next
  case (Some w)
  have "length (filter (\<lambda>b. b \<noteq> []) (bw_buffers w)) < length (wire_body r @ rest)"
    using chunks_length [of "bw_buffers w"] by (simp add: wire_body_def Some)
  from read_all_chunks [OF this] show ?thesis
    by (simp add: sent_reply_def wire_body_def meant_body_def read_body_def add_header_def update_conv' Some)
qed

lemma wire_reads_back:
  assumes "clean (rep_version r)" "clean_headers (rep_headers r)" "clean (sv_date sv)" "hd (sv_date sv) \<noteq> CHR 0x20"
    and "case rep_body_writer r of
      None \<Rightarrow> rep_response_line r = response_line r \<and> map_of (rep_headers r) ''Transfer-Encoding'' = None
    | Some w \<Rightarrow> True"
  shows "read_message (wire sv r @ rest) = Some (status_line r, rep_headers (sent_reply sv r), meant_body r, rest)"
proof -
  have "(case rep_body_writer r of None \<Rightarrow> rep_response_line r | Some w \<Rightarrow> response_line r) = status_line r @ crlf"
    "clean (status_line r)"
    using response_line_eq [OF assms(1)] assms(5) by (auto split: option.splits)
  moreover have "read_body (rep_headers (sent_reply sv r)) (wire_body r @ rest) = Some (meant_body r, rest)"
    using assms(5) by (intro read_wire_body) (auto split: option.splits)
  ultimately show ?thesis
    using read_message_headers [OF _ clean_sent_reply [OF assms(2-4)]] by (simp add: wire_def write_reply_headers_def)
qed

text \<open>C23. A reply that is sent is read as it was meant: the bytes written to the connection are one HTTP
  message with the status line of the reply, all its headers, and as body the content of the reply,
  with its length announced, or everything the body writer wrote, in chunks whatever the sizes of
  its buffers; and whatever follows on the connection is left for the next message.\<close>

theorem sent_reply_reads_back:
  assumes "clean (rep_version r)" "clean_headers (rep_headers r)" "clean (sv_date sv)" "hd (sv_date sv) \<noteq> CHR 0x20"
    and "case rep_body_writer r of
      None \<Rightarrow> rep_response_line r = response_line r \<and> map_of (rep_headers r) ''Transfer-Encoding'' = None
    | Some w \<Rightarrow> \<not> bw_fails w"
  shows "\<exists>m hs. start_response None True r sv c = (sv, c\<lparr>cn_out := cn_out c @ m\<rparr>, False) \<and>
    (\<forall>h. h \<notin> {''Server'', ''Date'', ''Content-Length'', ''Transfer-Encoding''} \<longrightarrow> map_of hs h = map_of (rep_headers r) h) \<and>
    (\<forall>rest. read_message (m @ rest) = Some (status_line r, hs,
      (case rep_body_writer r of None \<Rightarrow> rep_content r | Some w \<Rightarrow> concat (bw_buffers w)), rest))"
proof -
  have "sendable r" using assms(5) by (simp add: sendable_def split: option.splits)
  moreover have "read_message (wire sv r @ rest) = Some (status_line r, rep_headers (sent_reply sv r), meant_body r, rest)" for rest
    using assms(5) by (intro wire_reads_back [OF assms(1-4)]) (auto split: option.splits)
  ultimately show ?thesis
    using start_response_wire sent_reply_headers
    by (intro exI [of _ "wire sv r"] exI [of _ "rep_headers (sent_reply sv r)"]) (simp add: meant_body_def)
qed

definition sample_server :: http_server where
  "sample_server = \<lparr>sv_total_connections = 0, sv_current_connections = 0, sv_requests_served = 0, sv_read_errors = 0,
     sv_respond_errors = 0, sv_credentials = False, sv_date = ''now'', sv_content_length_limit = 1000\<rparr>"

definition sample_conn :: http_conn where
  "sample_conn = \<lparr>cn_out = [], cn_done = False, cn_replies = []\<rparr>"

theorem sent_reply_reads_back_witness:
  "\<exists>m hs. start_response None True (write_body_with ''txt'' \<lparr>bw_buffers = [''ab'', [], ''c''], bw_fails = False\<rparr>
       (set_version ''1.1'' reply_new)) sample_server sample_conn = (sample_server, sample_conn\<lparr>cn_out := m\<rparr>, False) \<and>
     read_message m = Some (''HTTP/1.1 200 OK'', hs, ''abc'', []) \<and> map_of hs ''Content-Type'' = Some ''text/plain''"
proof -
  let ?r = "write_body_with ''txt'' \<lparr>bw_buffers = [''ab'', [], ''c''], bw_fails = False\<rparr> (set_version ''1.1'' reply_new)"
  have r: "rep_version ?r = ''1.1''" "rep_headers ?r = [(''Content-Type'', ''text/plain'')]"
      "rep_body_writer ?r = Some \<lparr>bw_buffers = [''ab'', [], ''c''], bw_fails = False\<rparr>"
      "status_line ?r = ''HTTP/1.1 200 OK''" "cn_out sample_conn = []"
    by (simp_all add: write_body_with_def set_version_def reply_new_def set_content_type_def set_mime_type_def
        add_header_def extension_to_type_def mime_mappings_def status_line_def response_line_def crlf_def sample_conn_def)
  have h: "clean (rep_version ?r)" "clean_headers (rep_headers ?r)" "clean (sv_date sample_server)" "hd (sv_date sample_server) \<noteq> CHR 0x20"
    by (simp_all add: r clean_headers_def sample_server_def)
  have w: "case rep_body_writer ?r of None \<Rightarrow> rep_response_line ?r = response_line ?r \<and> map_of (rep_headers ?r) ''Transfer-Encoding'' = None
      | Some w \<Rightarrow> \<not> bw_fails w" by (simp add: r(3))
  obtain m hs where m: "start_response None True ?r sample_server sample_conn = (sample_server, sample_conn\<lparr>cn_out := cn_out sample_conn @ m\<rparr>, False)"
      "\<forall>h. h \<notin> {''Server'', ''Date'', ''Content-Length'', ''Transfer-Encoding''} \<longrightarrow> map_of hs h = map_of (rep_headers ?r) h"
      "\<forall>rest. read_message (m @ rest) = Some (status_line ?r, hs,
        (case rep_body_writer ?r of None \<Rightarrow> rep_content ?r | Some w \<Rightarrow> concat (bw_buffers w)), rest)"
    using sent_reply_reads_back [OF h w, of sample_conn] by (elim exE conjE)
  have "map_of hs ''Content-Type'' = Some ''text/plain''" using m(2) [THEN spec, of "''Content-Type''"] by (simp add: r(2))
  moreover have "read_message m = Some (''HTTP/1.1 200 OK'', hs, ''abc'', [])" using m(3) [THEN spec, of "[]"] by (simp add: r(3,4))
  moreover have "start_response None True ?r sample_server sample_conn = (sample_server, sample_conn\<lparr>cn_out := m\<rparr>, False)"
    using m(1) by (simp only: r(5) append_Nil)
  ultimately show ?thesis by blast
qed

end
