(* ===== verification/HttpConnProps.thy ===== *)
theory HttpConnProps
  imports HttpConn HttpWire
begin

text \<open>
  A connection as it runs: its read loop and its response loop, interleaved. The run keeps, beside
  the state of the code, what was read, request after request, and the replies that were sent; what
  replies a request calls for is said without the queue.
\<close>

subsection \<open>What a request calls for\<close>

text \<open>One exchange: what the parser made of the bytes, the server and the number of replies that waited
  when it did, and, once the request is handled, its body and the server at that time.\<close>

record exchange =
  ex_parsed :: parsed
  ex_server :: http_server
  ex_waiting :: nat
  ex_handled :: "((u64 \<Rightarrow> string) \<times> http_server) option"

definition refusal :: "(u64 \<Rightarrow> u64 \<Rightarrow> string) \<Rightarrow> http_server \<Rightarrow> parsed \<Rightarrow> reply option" where
  "refusal lm sv p =
     (case p of
        At_eof \<Rightarrow> None
      | Unparsable req \<Rightarrow>
          Some (error_reply (if req_version req = [] then req\<lparr>req_version := ''1.1''\<rparr> else req) St_bad_request
            (''Can'' @ [CHR 0x27] @ ''t parse the request''))
      | Request req \<Rightarrow>
          (let n = content_length (prepare_request sv req)
           in if n > sv_content_length_limit sv
              then Some (error_reply req St_payload_too_large (lm (sv_content_length_limit sv) n)) else None))"

text \<open>A refused request gets its error reply, unless ten replies wait already: that push does not wait
  for room, and the reply is lost. Any other request gets a reply to continue when it asks for
  one, and, once it is handled, the reply of the routing, if that does not throw.\<close>

definition called_for :: "(u64 \<Rightarrow> u64 \<Rightarrow> string) \<Rightarrow> routes \<Rightarrow> exchange \<Rightarrow> reply list" where
  "called_for lm rt ex =
     (case refusal lm (ex_server ex) (ex_parsed ex) of
        Some e \<Rightarrow> if ex_waiting ex < 10 then [e] else []
      | None \<Rightarrow>
          (case ex_parsed ex of
             Request req \<Rightarrow>
               (if expects_continue req then [continue_reply req (ex_server ex)] else []) @
               (case ex_handled ex of
                  None \<Rightarrow> []
                | Some (body, sv) \<Rightarrow>
                    (case reply_to (read_request_body body (prepare_request (ex_server ex) req)) rt sv of
                       None \<Rightarrow> [] | Some r \<Rightarrow> [r]))
           | _ \<Rightarrow> []))"

subsection \<open>Runs\<close>

text \<open>Where the read loop is: before a request, handling one, behind its last one, or over.\<close>

datatype read_phase = Reading | Handling request | Ending | Ended

record conn_run =
  run_server :: http_server
  run_conn :: http_conn
  run_phase :: read_phase
  run_responding :: bool
  run_broken :: bool
  run_log :: "exchange list"
  run_sent :: "reply list"

definition run_init :: "http_server \<Rightarrow> conn_run" where
  "run_init sv = \<lparr>run_server = on_new_connection sv, run_conn = \<lparr>cn_out = [], cn_done = False, cn_replies = []\<rparr>, run_phase = Reading,
     run_responding = True, run_broken = False, run_log = [], run_sent = []\<rparr>"

text \<open>The replies that the requests read so far call for, in their order.\<close>

definition called_so_far :: "(u64 \<Rightarrow> u64 \<Rightarrow> string) \<Rightarrow> routes \<Rightarrow> conn_run \<Rightarrow> reply list" where
  "called_so_far lm rt R = concat (map (called_for lm rt) (run_log R))"

definition handled_last :: "(u64 \<Rightarrow> string) \<Rightarrow> http_server \<Rightarrow> exchange list \<Rightarrow> exchange list" where
  "handled_last body sv log = butlast log @ [(last log)\<lparr>ex_handled := Some (body, sv)\<rparr>]"

text \<open>A reply to continue, the reply of a handler and the end mark wait for room in the queue; the error
  replies do not. Reading fails when the socket fails or the routing throws. The response loop takes its
  turns whenever something waits; the run is broken when a turn failed or gave the queue up.\<close>

inductive run_step :: "(reply option list \<Rightarrow> reply option \<Rightarrow> reply option list) \<Rightarrow> (u64 \<Rightarrow> u64 \<Rightarrow> string) \<Rightarrow> routes
    \<Rightarrow> conn_run \<Rightarrow> conn_run \<Rightarrow> bool"
  for full lm rt where
  starts: "run_phase R = Reading \<Longrightarrow> \<not> cn_done (run_conn R) \<Longrightarrow>
    read_start full lm p (run_server R) (run_conn R) = (sv, c, todo) \<Longrightarrow>
    (\<forall>req. todo = Some req \<and> expects_continue req \<longrightarrow> length (cn_replies (run_conn R)) < 10) \<Longrightarrow>
    run_step full lm rt R (R\<lparr>run_server := sv, run_conn := c,
      run_phase := (case todo of None \<Rightarrow> Reading | Some req \<Rightarrow> Handling req),
      run_log := run_log R @ [\<lparr>ex_parsed = p, ex_server = run_server R, ex_waiting = length (cn_replies (run_conn R)), ex_handled = None\<rparr>]\<rparr>)"
| finishes: "run_phase R = Handling req \<Longrightarrow> length (cn_replies (run_conn R)) < 10 \<Longrightarrow>
    read_finish full req body rt (run_server R) (run_conn R) = (c, failed) \<Longrightarrow>
    run_step full lm rt R (R\<lparr>run_server := (if failed then read_ends True (run_server R) else run_server R), run_conn := c,
      run_phase := (if failed then Ending else Reading), run_log := handled_last body (run_server R) (run_log R)\<rparr>)"
| socket_fails: "run_phase R = Reading \<and> \<not> cn_done (run_conn R) \<or> run_phase R = Handling req \<Longrightarrow>
    run_step full lm rt R (R\<lparr>run_server := read_ends True (run_server R), run_phase := Ending\<rparr>)"
| read_done: "run_phase R = Reading \<Longrightarrow> cn_done (run_conn R) \<Longrightarrow>
    run_step full lm rt R (R\<lparr>run_server := read_ends False (run_server R), run_phase := Ending\<rparr>)"
| marks_end: "run_phase R = Ending \<Longrightarrow> length (cn_replies (run_conn R)) < 10 \<Longrightarrow>
    run_step full lm rt R (R\<lparr>run_conn := queue_end_mark (run_conn R), run_phase := Ended\<rparr>)"
| responds: "run_responding R \<Longrightarrow> respond_one room flush_ok (run_server R) (run_conn R) = (turn, sv, c) \<Longrightarrow> turn \<noteq> Waits \<Longrightarrow>
    run_step full lm rt R (R\<lparr>run_server := sv, run_conn := c, run_responding := (turn = Sent),
      run_broken := run_broken R \<or> turn = Send_failed \<or> turn = Sent \<and> cn_replies c \<noteq> tl (cn_replies (run_conn R)),
      run_sent := run_sent R @ (case hd (cn_replies (run_conn R)) of None \<Rightarrow> [] | Some r \<Rightarrow> [r])\<rparr>)"
| dated: "run_step full lm rt R (R\<lparr>run_server := (run_server R)\<lparr>sv_date := d\<rparr>\<rparr>)"

definition run_reachable :: "(reply option list \<Rightarrow> reply option \<Rightarrow> reply option list) \<Rightarrow> (u64 \<Rightarrow> u64 \<Rightarrow> string) \<Rightarrow> routes \<Rightarrow> conn_run \<Rightarrow> bool" where
  "run_reachable full lm rt R \<longleftrightarrow> (\<exists>sv. (run_step full lm rt)\<^sup>*\<^sup>* (run_init sv) R)"

subsection \<open>The queue holds what the requests call for\<close>

text \<open>While a request is handled, it is the last one that was read, and it was not refused.\<close>

definition handling_ok :: "(u64 \<Rightarrow> u64 \<Rightarrow> string) \<Rightarrow> conn_run \<Rightarrow> bool" where
  "handling_ok lm R \<longleftrightarrow> (case run_phase R of
     Handling req \<Rightarrow>
       (\<exists>log ex r. run_log R = log @ [ex] \<and> ex_handled ex = None \<and> ex_parsed ex = Request r \<and>
         req = prepare_request (ex_server ex) r \<and> refusal lm (ex_server ex) (Request r) = None)
   | _ \<Rightarrow> True)"

lemma handling_ok_updates [simp]:
  "handling_ok lm (R\<lparr>run_server := sv\<rparr>) = handling_ok lm R" "handling_ok lm (R\<lparr>run_conn := c\<rparr>) = handling_ok lm R"
  "handling_ok lm (R\<lparr>run_responding := a\<rparr>) = handling_ok lm R" "handling_ok lm (R\<lparr>run_broken := b\<rparr>) = handling_ok lm R"
  "handling_ok lm (R\<lparr>run_sent := rs\<rparr>) = handling_ok lm R"
  by (simp_all add: handling_ok_def cong: read_phase.case_cong)

definition run_ok :: "(u64 \<Rightarrow> u64 \<Rightarrow> string) \<Rightarrow> routes \<Rightarrow> conn_run \<Rightarrow> bool" where
  "run_ok lm rt R \<longleftrightarrow> handling_ok lm R \<and>
     (\<exists>q. called_so_far lm rt R = run_sent R @ q \<and>
       (if run_broken R then run_responding R \<longrightarrow> cn_replies (run_conn R) \<noteq> [] \<and> hd (cn_replies (run_conn R)) = None
        else (run_responding R \<or> run_phase R = Ended \<and> q = []) \<and>
          cn_replies (run_conn R) = map Some q @ (if run_phase R = Ended \<and> run_responding R then [None] else [])))"

lemma expects_continue_prepare [simp]: "expects_continue (prepare_request sv req) = expects_continue req"
  by (simp add: expects_continue_def prepare_request_def get_header_field_def Let_def)

lemma push_reply_queue:
  "(\<And>q x. full q x = q) \<Longrightarrow>
    cn_replies (push_reply full x c) = cn_replies c @ (if length (cn_replies c) < 10 then [x] else [])"
  by (simp add: push_reply_def)

text \<open>The two halves of \<open>read_one\<close> queue what the request calls for.\<close>

lemma read_start_queues:
  assumes "read_start full lm p sv c = (sv', c', todo)" "\<And>q x. full q x = q"
    and "\<forall>req. todo = Some req \<and> expects_continue req \<longrightarrow> length (cn_replies c) < 10"
  shows "cn_replies c' = cn_replies c @ map Some (called_for lm rt
      \<lparr>ex_parsed = p, ex_server = sv, ex_waiting = length (cn_replies c), ex_handled = None\<rparr>) \<and>
    (\<forall>req. todo = Some req \<longrightarrow> (\<exists>r. p = Request r \<and> req = prepare_request sv r \<and> refusal lm sv p = None))"
proof (cases p)
  case At_eof
  then show ?thesis using assms(1) by (auto simp: read_start_def called_for_def refusal_def)
next
  case (Unparsable req)
  then show ?thesis using assms(1)
    by (auto simp: read_start_def called_for_def refusal_def generate_error_reply_and_close_def error_reply_def Let_def
        push_reply_queue [OF assms(2)])
next
  case (Request req)
  have same: "req_version (prepare_request sv req) = req_version req"
    "continue_reply (prepare_request sv req) (sv\<lparr>sv_requests_served := n\<rparr>) = continue_reply req sv" for n
    by (simp_all add: prepare_request_def continue_reply_def set_headers_def Let_def)
  show ?thesis
  proof (cases "content_length (prepare_request sv req) > sv_content_length_limit sv")
    case True
    then show ?thesis using assms(1)
      by (auto simp: Request read_start_def called_for_def refusal_def generate_error_reply_and_close_def error_reply_def Let_def
          push_reply_queue [OF assms(2)] same(1))
  next
    case False
    then show ?thesis using assms(1,3)
      by (auto simp: Request read_start_def called_for_def refusal_def Let_def push_reply_queue [OF assms(2)] same(2) split: if_splits)
  qed
qed

lemma read_finish_queues:
  assumes "read_finish full req body rt sv c = (c', failed)" "\<And>q x. full q x = q" "length (cn_replies c) < 10"
  shows "cn_replies c' = cn_replies c @ map Some (case reply_to (read_request_body body req) rt sv of None \<Rightarrow> [] | Some r \<Rightarrow> [r])"
  using assms(1,3) by (auto simp: read_finish_def generate_reply_def push_reply_queue [OF assms(2)] split: option.splits)

lemma respond_one_queue:
  assumes "respond_one room flush_ok sv c = (turn, sv', c')" "turn \<noteq> Waits"
  shows "cn_replies c \<noteq> [] \<and> (turn = Ends \<longleftrightarrow> hd (cn_replies c) = None) \<and>
    (cn_replies c' = tl (cn_replies c) \<or> turn = Sent \<and> cn_replies c' = [None])"
  using assms
  by (auto simp: respond_one_def start_response_def abort_replies_def Let_def split: list.splits option.splits if_splits prod.splits)

subsection \<open>Every run\<close>

lemma called_handled:
  assumes "run_log R = log @ [ex]" "ex_handled ex = None" "ex_parsed ex = Request r" "refusal lm (ex_server ex) (Request r) = None"
  shows "concat (map (called_for lm rt) (handled_last body sv (run_log R))) = called_so_far lm rt R @
    (case reply_to (read_request_body body (prepare_request (ex_server ex) r)) rt sv of None \<Rightarrow> [] | Some r \<Rightarrow> [r])"
  using assms by (simp add: called_so_far_def handled_last_def called_for_def)

lemma run_ok_appends:
  assumes "run_ok lm rt R" "handling_ok lm R'" "called_so_far lm rt R' = called_so_far lm rt R @ rs"
    and "cn_replies (run_conn R') = cn_replies (run_conn R) @ map Some rs" "run_sent R' = run_sent R" "run_broken R' = run_broken R"
    and "run_responding R' = run_responding R" "run_phase R \<noteq> Ended" "run_phase R' \<noteq> Ended"
  shows "run_ok lm rt R'"
  using assms by (auto simp: run_ok_def intro: exI [of _ "q @ rs" for q] split: if_splits)

lemma run_step_ok:
  assumes full: "\<And>q x. full q x = q"
  shows "run_step full lm rt R R' \<Longrightarrow> run_ok lm rt R \<Longrightarrow> run_ok lm rt R'"
proof (induction rule: run_step.induct)
  case (starts R p sv c todo)
  note q = read_start_queues [OF starts(3) full starts(4), of rt]
  show ?case
    by (rule run_ok_appends [OF starts(5)]) (use q starts(1) in \<open>auto simp: called_so_far_def handling_ok_def split: option.splits\<close>)
next
  case (finishes R req body c failed)
  obtain log ex r where h: "run_log R = log @ [ex]" "ex_handled ex = None" "ex_parsed ex = Request r"
      "req = prepare_request (ex_server ex) r" "refusal lm (ex_server ex) (Request r) = None"
    using finishes(1,4) by (auto simp: run_ok_def handling_ok_def)
  note q = read_finish_queues [OF finishes(3) full finishes(2)]
  note l = called_handled [OF h(1,2,3,5), of rt body "run_server R"]
  show ?case
    by (rule run_ok_appends [OF finishes(4)])
      (use q l h(4) finishes(1) in \<open>auto simp: called_so_far_def handling_ok_def\<close>)
next
  case (socket_fails R req)
  then show ?case by (auto simp: run_ok_def handling_ok_def called_so_far_def)
next
  case (read_done R)
  then show ?case by (auto simp: run_ok_def handling_ok_def called_so_far_def)
next
  case (marks_end R)
  then show ?case by (auto simp: run_ok_def handling_ok_def called_so_far_def queue_end_mark_def)
next
  case (responds R room flush_ok turn sv c)
  note t = respond_one_queue [OF responds(2,3)]
  show ?case
  proof (cases "run_broken R")
    case True
    then show ?thesis using responds(1,4) t by (auto simp: run_ok_def called_so_far_def)
  next
    case False
    then obtain q where q: "called_so_far lm rt R = run_sent R @ q"
        "cn_replies (run_conn R) = map Some q @ (if run_phase R = Ended then [None] else [])"
      using responds(1,4) by (auto simp: run_ok_def)
    show ?thesis
    proof (cases q)
      case Nil
      then show ?thesis using q t responds(1,4) False by (auto simp: run_ok_def called_so_far_def)
    next
      case (Cons r q')
      then show ?thesis using q t responds(1,3,4) False
        by (cases turn) (auto simp: run_ok_def called_so_far_def)
    qed
  qed
next
  case (dated R d)
  then show ?case by (auto simp: run_ok_def called_so_far_def)
qed

lemma run_reachable_ok:
  assumes "run_reachable full lm rt R" "\<And>q x. full q x = q"
  shows "run_ok lm rt R"
proof -
  obtain sv where "(run_step full lm rt)\<^sup>*\<^sup>* (run_init sv) R" using assms(1) by (auto simp: run_reachable_def)
  then show ?thesis
  proof (induction rule: rtranclp_induct)
    case base
    then show ?case by (simp add: run_init_def run_ok_def handling_ok_def called_so_far_def)
  next
    case (step y z)
    then show ?case by (intro run_step_ok [of full, OF assms(2) step(2)])
  qed
qed

subsection \<open>The response loop gets through the queue\<close>

lemma respond_all:
  assumes "cn_replies (run_conn R) = map Some q @ m" "\<forall>r \<in> set q. sendable r" "\<not> run_broken R" "run_responding R"
  shows "\<exists>R'. (run_step full lm rt)\<^sup>*\<^sup>* R R' \<and> run_sent R' = run_sent R @ q \<and> run_log R' = run_log R \<and>
    run_responding R' \<and> \<not> run_broken R' \<and> run_server R' = run_server R \<and> cn_replies (run_conn R') = m \<and>
    cn_out (run_conn R') = cn_out (run_conn R) @ concat (map (wire (run_server R)) q)"
  using assms
proof (induction q arbitrary: R)
  case Nil
  then show ?case by (intro exI [of _ R]) simp
next
  case (Cons r q)
  let ?c = "run_conn R" and ?sv = "run_server R"
  have head: "cn_replies ?c = Some r # map Some q @ m" and r: "sendable r" using Cons.prems by simp_all
  let ?c' = "?c\<lparr>cn_replies := map Some q @ m, cn_out := cn_out ?c @ wire ?sv r\<rparr>"
  have one: "respond_one None True ?sv ?c = (Sent, ?sv, ?c')"
    by (simp add: respond_one_def head start_response_wire [OF r])
  let ?R = "R\<lparr>run_server := ?sv, run_conn := ?c', run_responding := (Sent = Sent),
    run_broken := run_broken R \<or> Sent = Send_failed \<or> Sent = Sent \<and> cn_replies ?c' \<noteq> tl (cn_replies ?c),
    run_sent := run_sent R @ (case hd (cn_replies ?c) of None \<Rightarrow> [] | Some r \<Rightarrow> [r])\<rparr>"
  have step: "run_step full lm rt R ?R" by (rule run_step.responds [OF Cons.prems(4) one]) simp
  obtain R' where R': "(run_step full lm rt)\<^sup>*\<^sup>* ?R R'" "run_sent R' = run_sent ?R @ q" "run_log R' = run_log ?R"
    "run_responding R'" "\<not> run_broken R'" "run_server R' = run_server ?R" "cn_replies (run_conn R') = m"
    "cn_out (run_conn R') = cn_out (run_conn ?R) @ concat (map (wire (run_server ?R)) q)"
    using Cons.IH [of ?R] Cons.prems by auto
  show ?case
    using converse_rtranclp_into_rtranclp [of "run_step full lm rt", OF step R'(1)] R'(2-) head by (intro exI [of _ R']) simp
qed

text \<open>C22. In every run of a connection the replies sent are the first of those that the requests call for,
  in the order in which the requests were read, each once: an error reply for a request that cannot be
  parsed or is too long (lost only if ten replies wait), a reply to continue where it is asked for,
  and the reply of the routing. As long as no sending failed, the queue holds exactly the others; and
  the response loop gets through: run alone it sends all of them, appending the message of each to
  the output, and then waits for the next request, or ends when the reading has ended. A queue of
  the core library does not take what is pushed when it is full.\<close>

theorem replies_sent_in_order:
  assumes "run_reachable full lm rt R" "\<And>q x. full q x = q"
  shows "(\<exists>q. called_so_far lm rt R = run_sent R @ q) \<and>
    (\<not> run_broken R \<and> run_responding R \<and> (\<forall>r. Some r \<in> set (cn_replies (run_conn R)) \<longrightarrow> sendable r) \<longrightarrow>
      (\<exists>q R'. called_so_far lm rt R = run_sent R @ q \<and>
        cn_replies (run_conn R) = map Some q @ (if run_phase R = Ended then [None] else []) \<and>
        (run_step full lm rt)\<^sup>*\<^sup>* R R' \<and> run_log R' = run_log R \<and> run_sent R' = called_so_far lm rt R \<and>
        cn_out (run_conn R') = cn_out (run_conn R) @ concat (map (wire (run_server R)) q) \<and>
        fst (respond_one None True (run_server R') (run_conn R')) = (if run_phase R = Ended then Ends else Waits)))"
proof (intro conjI impI)
  note ok = run_reachable_ok [OF assms]
  then show "\<exists>q. called_so_far lm rt R = run_sent R @ q" by (auto simp: run_ok_def)
  assume fine: "\<not> run_broken R \<and> run_responding R \<and> (\<forall>r. Some r \<in> set (cn_replies (run_conn R)) \<longrightarrow> sendable r)"
  then obtain q where q: "called_so_far lm rt R = run_sent R @ q"
      "cn_replies (run_conn R) = map Some q @ (if run_phase R = Ended then [None] else [])"
    using ok by (auto simp: run_ok_def)
  have "\<forall>r \<in> set q. sendable r" using fine q(2) by auto
  from respond_all [OF q(2) this, of full lm rt] fine obtain R' where R': "(run_step full lm rt)\<^sup>*\<^sup>* R R'"
    "run_sent R' = run_sent R @ q" "run_log R' = run_log R" "cn_replies (run_conn R') = (if run_phase R = Ended then [None] else [])"
    "cn_out (run_conn R') = cn_out (run_conn R) @ concat (map (wire (run_server R)) q)"
    by blast
  have "fst (respond_one None True (run_server R') (run_conn R')) = (if run_phase R = Ended then Ends else Waits)"
    using R'(4) by (simp add: respond_one_def)
  then show "\<exists>q R'. called_so_far lm rt R = run_sent R @ q \<and>
        cn_replies (run_conn R) = map Some q @ (if run_phase R = Ended then [None] else []) \<and>
        (run_step full lm rt)\<^sup>*\<^sup>* R R' \<and> run_log R' = run_log R \<and> run_sent R' = called_so_far lm rt R \<and>
        cn_out (run_conn R') = cn_out (run_conn R) @ concat (map (wire (run_server R)) q) \<and>
        fst (respond_one None True (run_server R') (run_conn R')) = (if run_phase R = Ended then Ends else Waits)"
    using q R'(1-3,5) by (intro exI [of _ q] exI [of _ R']) simp
qed

text \<open>A run of a connection that gets a request that cannot be parsed.\<close>

theorem replies_sent_in_order_witness:
  "\<exists>R r R'. run_reachable (\<lambda>q x. q) (\<lambda>a b. []) (routes_empty (\<lambda>i. undefined)) R \<and>
     map ex_parsed (run_log R) = [Unparsable request_new] \<and> rep_status r = St_bad_request \<and> run_sent R = [] \<and>
     (run_step (\<lambda>q x. q) (\<lambda>a b. []) (routes_empty (\<lambda>i. undefined)))\<^sup>*\<^sup>* R R' \<and> run_sent R' = [r] \<and>
     cn_out (run_conn R') = wire (run_server R) r"
proof -
  let ?r = "error_reply (request_new\<lparr>req_version := ''1.1''\<rparr>) St_bad_request (''Can'' @ [CHR 0x27] @ ''t parse the request'')"
  let ?init = "run_init sample_server"
  let ?c = "\<lparr>cn_out = [], cn_done = True, cn_replies = [Some ?r]\<rparr>"
  let ?sv = "(on_new_connection sample_server)\<lparr>sv_requests_served := 1\<rparr>"
  let ?full = "\<lambda>q x. q" and ?lm = "\<lambda>a b. []" and ?rt = "routes_empty (\<lambda>i. undefined)"
  let ?ex = "\<lparr>ex_parsed = Unparsable request_new, ex_server = run_server ?init,
    ex_waiting = length (cn_replies (run_conn ?init)), ex_handled = None\<rparr>"
  let ?R = "?init\<lparr>run_server := ?sv, run_conn := ?c, run_phase := (case None of None \<Rightarrow> Reading | Some req \<Rightarrow> Handling req),
    run_log := run_log ?init @ [?ex]\<rparr>"
  have one: "read_start ?full ?lm (Unparsable request_new) (run_server ?init) (run_conn ?init) = (?sv, ?c, None)"
    by (simp add: run_init_def read_start_def generate_error_reply_and_close_def push_reply_def sample_server_def on_new_connection_def
        request_new_def Let_def)
  have "run_step ?full ?lm ?rt ?init ?R"
    by (rule run_step.starts [OF _ _ one]) (simp_all add: run_init_def)
  then have reach: "run_reachable ?full ?lm ?rt ?R" unfolding run_reachable_def by blast
  have R: "called_so_far ?lm ?rt ?R = [?r]" "run_sent ?R = []" "\<not> run_broken ?R" "run_responding ?R"
      "cn_replies (run_conn ?R) = [Some ?r]" "cn_out (run_conn ?R) = []" "map ex_parsed (run_log ?R) = [Unparsable request_new]"
    by (simp_all add: run_init_def called_so_far_def called_for_def refusal_def request_new_def)
  have status: "rep_status ?r = St_bad_request" "rep_body_writer ?r = None"
    by (simp_all add: error_reply_def reply_done_def set_status_def set_version_def reply_new_def Let_def)
  then have ready: "\<not> run_broken ?R \<and> run_responding ?R \<and> (\<forall>r. Some r \<in> set (cn_replies (run_conn ?R)) \<longrightarrow> sendable r)"
    using R(3-5) by (simp add: sendable_def)
  obtain q R' where q: "called_so_far ?lm ?rt ?R = run_sent ?R @ q" "(run_step ?full ?lm ?rt)\<^sup>*\<^sup>* ?R R'"
    "run_sent R' = called_so_far ?lm ?rt ?R" "cn_out (run_conn R') = cn_out (run_conn ?R) @ concat (map (wire (run_server ?R)) q)"
    using replies_sent_in_order [OF reach refl, THEN conjunct2, THEN mp, OF ready] by (elim exE conjE)
  have "q = [?r]" using q(1) R(1,2) by simp
  then have out: "cn_out (run_conn R') = wire (run_server ?R) ?r" using q(4) R(6) by simp
  have sent: "run_sent R' = [?r]" using q(3) R(1) by simp
  show ?thesis
    by (intro exI [of _ ?R] exI [of _ ?r] exI [of _ R'] conjI) (rule reach R(7) status(1) R(2) q(2) sent out)+
qed

text \<open>A response loop that failed leaves the queue as it is: when ten replies wait, the end mark never finds
  room, and the connection is never over.\<close>

lemma dead_response_loop_blocks_reader:
  assumes "(run_step full lm rt)\<^sup>*\<^sup>* R R'"
    and "\<not> run_responding R \<and> run_phase R = Ending \<and> 10 \<le> length (cn_replies (run_conn R))"
  shows "\<not> run_responding R' \<and> run_phase R' = Ending \<and> 10 \<le> length (cn_replies (run_conn R'))"
  using assms
proof (induction rule: rtranclp_induct)
  case (step y z)
  then show ?case by (auto elim!: run_step.cases)
qed

subsection \<open>The announced length\<close>

lemma char_bound: "(of_char c :: nat) < 256"
  using of_char_mod_256 [of c, where 'a = nat] mod_less_divisor [of 256 "of_char c :: nat"] by simp

lemma dec_digit_iff: "dec_digit c \<longleftrightarrow> is_digit c"
proof -
  have "(of_char c :: int) = int (of_char c)" by (rule of_nat_of_char [symmetric])
  then obtain n where "(of_char c :: nat) = n" "(of_char c :: int) = int n" "n < 256" using char_bound [of c] by simp
  then show ?thesis unfolding dec_digit_def in_range_def is_digit_def char_int_def Let_def by auto
qed

lemma digit_value: "is_digit c \<Longrightarrow> nat (char_int c - 48) = of_char c - 48"
proof -
  assume "is_digit c"
  moreover have "(of_char c :: int) = int (of_char c)" by (rule of_nat_of_char [symmetric])
  ultimately show ?thesis unfolding is_digit_def char_int_def Let_def by auto
qed

lemma dec_digits_read_nat: "dec_digits a s = fst (read_nat a s)"
  by (induction s arbitrary: a) (auto simp: dec_digit_iff digit_value)

lemma dec_digits_show: "ends_number rest \<Longrightarrow> dec_digits 0 (show_nat n @ rest) = n"
  by (simp add: dec_digits_read_nat read_show_nat read_nat_end)

lemma not_white: "is_digit c \<Longrightarrow> \<not> white c \<and> c \<noteq> CHR 0x2D \<and> c \<noteq> CHR 0x2B"
proof -
  assume "is_digit c"
  then have "dec_digit c" by (simp add: dec_digit_iff)
  then show ?thesis by (auto simp: dec_digit_def white_def in_range_def char_int_def)
qed

lemma strtol_show:
  assumes "\<forall>c \<in> set ws. white c" "sign \<in> {[], ''+'', ''-''}" "ends_number rest"
  shows "strtol10 (ws @ sign @ show_nat n @ rest) =
    (if sign = ''-'' then - (min (int n) (2 ^ 63)) else min (int n) (2 ^ 63 - 1))"
proof -
  obtain d ds where d: "show_nat n = d # ds" "is_digit d" using show_nat_digits [of n] by (cases "show_nat n") auto
  have skip: "dropWhile white (ws @ t) = dropWhile white t" for t using assms(1) by (induction ws) auto
  have "\<not> white CHR 0x2D" "\<not> white CHR 0x2B" by (simp_all add: white_def in_range_def char_int_def)
  moreover have "dec_digits 0 (d # ds @ rest) = n" using dec_digits_show [OF assms(3), of n] d(1) by simp
  ultimately show ?thesis using assms(2) not_white [OF d(2)]
    by (auto simp: strtol10_def skip d(1) Let_def min_def max_def simp del: dec_digits.simps)
qed

lemma unat_long:
  "unat (word_of_int (if s then - min (int n) (2 ^ 63) else min (int n) (2 ^ 63 - 1)) :: u64) =
    (if s then (if n = 0 then 0 else 2 ^ 64 - min n (2 ^ 63)) else min n (2 ^ 63 - 1))"
proof -
  have "(- int m) mod 2 ^ 64 = 2 ^ 64 - int m" if "0 < m" "m \<le> 2 ^ 63" for m
    using that by (simp add: zmod_zminus1_eq_if)
  then have "uint (word_of_int (- int m) :: u64) = 2 ^ 64 - int m" if "0 < m" "m \<le> 2 ^ 63" for m
    using that by (simp only: uint_word_of_int) simp
  then have "unat (word_of_int (- int m) :: u64) = 2 ^ 64 - m" if "0 < m" "m \<le> 2 ^ 63" for m
    using that by (simp only: unat_eq_nat_uint nat_diff_distrib) simp
  moreover have "unat (word_of_int (int m) :: u64) = m" if "m \<le> 2 ^ 63" for m
    using that by (simp add: unsigned_of_nat take_bit_eq_mod)
  moreover have "min (int n) (2 ^ 63) = int (min n (2 ^ 63))" "min (int n) (2 ^ 63 - 1) = int (min n (2 ^ 63 - 1))" by simp_all
  ultimately show ?thesis by (cases s) (auto simp: min_def)
qed

text \<open>The length of a body is read from the text of the field: up to 63 bits it is the number there,
  larger numbers are cut to the greatest of them, and a negative number becomes one of at least 2 to
  the 63. A request is refused with a 413, and is the last one that is read, exactly when that number
  is above the limit.\<close>

theorem announced_length:
  assumes "get_header_field req ''Content-Length'' = ws @ sign @ show_nat n @ rest" "\<forall>c \<in> set ws. white c"
    "sign \<in> {[], ''+'', ''-''}" "ends_number rest" "length (cn_replies c) < 10"
  shows "unat (content_length (prepare_request sv req)) =
      (if sign = ''-'' then (if n = 0 then 0 else 2 ^ 64 - min n (2 ^ 63)) else min n (2 ^ 63 - 1)) \<and>
    (sv_content_length_limit sv < content_length (prepare_request sv req) \<longrightarrow>
      (\<exists>sv' c' r. read_one full lm (Request req) body rt sv c = (sv', c', False) \<and> cn_done c' \<and>
        cn_replies c' = cn_replies c @ [Some r] \<and> rep_status r = St_payload_too_large))"
proof
  have field: "get_header_field (req\<lparr>protocol_name := s\<rparr>) ''Content-Length'' = get_header_field req ''Content-Length''" for s
    by (simp add: get_header_field_def)
  have "content_length (prepare_request sv req) = word_of_int (strtol10 (get_header_field req ''Content-Length''))"
    by (simp add: prepare_request_def Let_def field)
  then show "unat (content_length (prepare_request sv req)) =
      (if sign = ''-'' then (if n = 0 then 0 else 2 ^ 64 - min n (2 ^ 63)) else min n (2 ^ 63 - 1))"
    using unat_long [of "sign = ''-''" n] strtol_show [OF assms(2-4), of n] assms(1) by simp
  show "sv_content_length_limit sv < content_length (prepare_request sv req) \<longrightarrow>
      (\<exists>sv' c' r. read_one full lm (Request req) body rt sv c = (sv', c', False) \<and> cn_done c' \<and>
        cn_replies c' = cn_replies c @ [Some r] \<and> rep_status r = St_payload_too_large)"
    using assms(5)
    by (auto simp: read_one_def read_start_def Let_def generate_error_reply_and_close_def error_reply_def push_reply_def reply_done_def
        set_status_def)
qed

theorem announced_length_witness:
  "unat (content_length (prepare_request sample_server (put_header ''content-length'' '' -1;'' request_new))) = 18446744073709551615"
proof -
  have "get_header_field (put_header ''content-length'' '' -1;'' request_new) ''Content-Length'' = '' '' @ ''-'' @ show_nat 1 @ '';''"
    by (simp add: get_header_field_def put_header_def or_empty_def tolower_def char_of_def bit_0 show_nat.simps)
  moreover have "\<forall>c \<in> set '' ''. white c" "''-'' \<in> {[], ''+'', ''-''}" "ends_number '';''" "length (cn_replies sample_conn) < 10"
    by (simp_all add: white_def ends_number_def is_digit_def sample_conn_def)
  ultimately show ?thesis
    using announced_length [of "put_header ''content-length'' '' -1;'' request_new" "'' ''" "''-''" 1 "'';''" sample_conn sample_server] by simp
qed

end
