(* ===== verification/HttpErrors.thy ===== *)
theory HttpErrors
  imports HttpRoutesProps
begin

text \<open>
  Every way in which handling a request can fail becomes a reply: what the client gets, read with the
  reader of JSON texts.
\<close>

definition tells_error :: "reply \<Rightarrow> status_type \<Rightarrow> string \<Rightarrow> bool" where
  "tells_error rep s msg \<longleftrightarrow>
     rep_status rep = s \<and> map_of (rep_headers rep) ''Content-Type'' = Some ''application/json'' \<and>
     rep_response_line rep = response_line rep \<and>
     (plain_str msg \<longrightarrow>
        read_json (rep_content rep) = Some (J_obj [(''message'', J_str msg), (''code'', J_int (int (status_code s)))]))"

lemma json_type: "extension_to_type ''json'' = ''application/json''"
  by (simp add: extension_to_type_def mime_mappings_def)

lemma json_exception_eq:
  "json_exception e = [(''message'', False, True, V_str (exn_str e)), (''code'', False, True, V_int (int (status_code (exn_status e))))]"
  by (simp add: json_exception_def json_base_add_def element_assign_def element_new_def)

lemma json_exception_text: "json_base_to_json (json_exception e) \<noteq> []"
  by (simp add: json_base_to_json_def base_to_json_joined)

lemma json_exception_reads:
  "plain_str (exn_str e) \<Longrightarrow> read_json (json_base_to_json (json_exception e)) =
    Some (J_obj [(''message'', J_str (exn_str e)), (''code'', J_int (int (status_code (exn_status e))))])"
  by (simp only: json_base_to_json_def json_exception_eq, subst read_json_reads [OF to_json_reads])
    (simp_all add: plain_str_def control_char_def)

lemma error_reply_tells:
  "exn_status e = s \<Longrightarrow> exn_str e = msg \<Longrightarrow>
    tells_error (reply_done_as ''json'' (set_status s (json_base_to_json (json_exception e)) reply_new)) s msg"
  using json_exception_text [of e] json_exception_reads [of e]
  by (simp add: tells_error_def reply_done_as_def reply_done_def set_content_type_def set_mime_type_def add_header_def
      set_status_def reply_new_def json_type response_line_def)

lemma exception_reply_tells: "rt_exceptions rt = [] \<Longrightarrow> tells_error (exception_reply e rt) (exn_status e) (exn_str e)"
  using error_reply_tells [of e] by (simp add: exception_reply_def)

lemma exception_reply_no_location: "rt_exceptions rt = [] \<Longrightarrow> map_of (rep_headers (exception_reply e rt)) ''Location'' = None"
  using json_exception_text [of e]
  by (simp add: exception_reply_def reply_done_as_def reply_done_def set_content_type_def set_mime_type_def add_header_def
      set_status_def reply_new_def)

lemma verify_params_find: "verify_params req ps = map_option missing_param_exception (find (\<lambda>p. get_query_param req p = []) ps)"
  by (induction ps) auto

text \<open>C25. Whatever becomes of a request, the client gets a reply, when no exception handlers are registered:
  without a handler the JSON text of a 404; with a mandatory parameter missing that of a 400 which
  names the first one missing; the handler's own reply if there is one; for a future that fails and
  for an exception thrown at once, the status and the message of the exception, 500 for one that is
  not an HTTP exception. A redirection that is thrown at once gives the new location; one that comes
  from a future has the status only and not the location.\<close>

theorem failures_become_replies:
  assumes "rt_exceptions rt = []" "get_handler (str2type (req_method req)) (normalize_url path) (req_param req) rt = Some (target, ps)"
  shows "\<exists>out. routes_handle path req rep rt = Some out \<and>
    (case target of
       None \<Rightarrow> tells_error out St_not_found ''Not found''
     | Some i \<Rightarrow>
         (case find (\<lambda>p. get_query_param req p = []) (hd_mandatory (rt_handlers rt i)) of
            Some p \<Rightarrow> tells_error out St_bad_request (''Missing mandatory parameter '' @ [CHR 0x27] @ p @ [CHR 0x27])
          | None \<Rightarrow>
              (case hd_handle (rt_handlers rt i) path (req\<lparr>req_param := ps\<rparr>) rep of
                 Replies r \<Rightarrow> out = r
               | Failed e \<Rightarrow> tells_error out (exn_status e) (exn_str e) \<and> map_of (rep_headers out) ''Location'' = None
               | Thrown (Redirect_exception url) \<Rightarrow>
                   rep_status out = St_moved_permanently \<and> map_of (rep_headers out) ''Location'' = Some url
               | Thrown e \<Rightarrow> tells_error out (exn_status e) (exn_str e))))"
proof (cases target)
  case None
  then show ?thesis using assms(2)
    by (simp add: routes_handle_def error_reply_tells not_found_exception_def exn_status_def exn_str_def)
next
  case (Some i)
  let ?h = "rt_handlers rt i" and ?req = "req\<lparr>req_param := ps\<rparr>"
  have find: "verify_params ?req (hd_mandatory ?h) =
      map_option missing_param_exception (find (\<lambda>p. get_query_param req p = []) (hd_mandatory ?h))"
    by (simp add: verify_params_find get_query_param_def)
  show ?thesis
  proof (cases "find (\<lambda>p. get_query_param req p = []) (hd_mandatory ?h)")
    case (Some p)
    have "tells_error (exception_reply (missing_param_exception p) rt) St_bad_request
        (''Missing mandatory parameter '' @ [CHR 0x27] @ p @ [CHR 0x27])"
      using exception_reply_tells [OF assms(1), of "missing_param_exception p"]
      by (simp add: missing_param_exception_def bad_request_exception_def exn_status_def exn_str_def)
    then show ?thesis using assms(2) \<open>target = Some i\<close> find Some by (simp add: routes_handle_def Let_def)
  next
    case None
    have redirected: "rep_status (reply_done_as ''json'' (set_status St_moved_permanently [] (add_header ''Location'' url reply_new))) = St_moved_permanently \<and>
        map_of (rep_headers (reply_done_as ''json'' (set_status St_moved_permanently [] (add_header ''Location'' url reply_new)))) ''Location'' = Some url"
      for url
      by (simp add: reply_done_as_def reply_done_def set_content_type_def set_mime_type_def add_header_def set_status_def
          reply_new_def update_conv')
    show ?thesis
      using assms(2) \<open>target = Some i\<close> find None exception_reply_tells [OF assms(1)] exception_reply_no_location [OF assms(1)] redirected
      by (simp add: routes_handle_def Let_def split: outcome.split http_exn.split)
  qed
qed

definition needs_id :: routes where
  "needs_id = (routes_empty (\<lambda>i. mandatory ''id'' (function_handler (\<lambda>req rep. Replies rep) ''txt'')))\<lparr>rt_default := Some 0\<rparr>"

theorem failures_become_replies_witness:
  "\<exists>out. routes_handle ''/user'' sample_get reply_new needs_id = Some out \<and>
     tells_error out St_bad_request (''Missing mandatory parameter '' @ [CHR 0x27] @ ''id'' @ [CHR 0x27])"
proof -
  have "rt_exceptions needs_id = []" "get_handler (str2type (req_method sample_get)) (normalize_url ''/user'') (req_param sample_get)
      needs_id = Some (Some 0, Map.empty)"
    by (simp_all add: needs_id_def routes_empty_def get_handler_def sample_get_def)
  moreover have "find (\<lambda>p. get_query_param sample_get p = []) (hd_mandatory (rt_handlers needs_id 0)) = Some ''id''"
    by (simp add: needs_id_def routes_empty_def mandatory_def function_handler_def get_query_param_def sample_get_def or_empty_def)
  ultimately show ?thesis
    using failures_become_replies [of needs_id sample_get "''/user''" "Some 0" Map.empty reply_new] by simp
qed

end
