(* ===== verification/HttpResponseParser.thy ===== *)
theory HttpResponseParser
  imports HttpRequestParser
begin

text \<open>
  The parser of HTTP responses, \<open>http/response_parser.hh\<close>: \<open>rs_ctr<n>\<close> and \<open>rs_case_<n>\<close> are the labels
  \<open>_ctr<n>\<close> and \<open>st_case_<n>\<close> of the generated code. Its header map has regard to case. A text that was
  moved from is empty.
\<close>

record http_response =
  rsp_version :: string
  rsp_headers :: string_map

record response_data =
  sd_rsp :: http_response
  sd_field_name :: string
  sd_value :: string

definition response_new :: http_response where
  "response_new = \<lparr>rsp_version = [], rsp_headers = Map.empty\<rparr>"

definition rs_store_version :: "response_data parse_action" where
  "rs_store_version = Take (\<lambda>s d. d\<lparr>sd_rsp := (sd_rsp d)\<lparr>rsp_version := s\<rparr>\<rparr>)"

definition rs_store_field_name :: "response_data parse_action" where
  "rs_store_field_name = Take (\<lambda>s d. d\<lparr>sd_field_name := s\<rparr>)"

definition rs_store_value :: "response_data parse_action" where
  "rs_store_value = Take (\<lambda>s d. d\<lparr>sd_value := s\<rparr>)"

definition rsp_put :: "string \<Rightarrow> string \<Rightarrow> http_response \<Rightarrow> http_response" where
  "rsp_put name v rsp = rsp\<lparr>rsp_headers := (rsp_headers rsp)(name \<mapsto> v)\<rparr>"

definition rs_assign_field :: "response_data parse_action" where
  "rs_assign_field = Update (\<lambda>d. d\<lparr>sd_value := [], sd_rsp := rsp_put (sd_field_name d) (sd_value d) (sd_rsp d)\<rparr>)"

definition rs_extend_field :: "response_data parse_action" where
  "rs_extend_field = Update (\<lambda>d.
     d\<lparr>sd_value := [],
       sd_rsp := rsp_put (sd_field_name d) (or_empty (rsp_headers (sd_rsp d) (sd_field_name d)) @ '' '' @ sd_value d) (sd_rsp d)\<rparr>)"

subsection \<open>The machine\<close>

definition rs_ctr7 :: "response_data parse_action list \<times> nat" where
  "rs_ctr7 = ([Mark], 7)"

definition rs_ctr11 :: "response_data parse_action list \<times> nat" where
  "rs_ctr11 = ([rs_store_version], 10)"

definition rs_ctr20 :: "response_data parse_action list \<times> nat" where
  "rs_ctr20 = ([Mark], 18)"

definition rs_ctr21 :: "response_data parse_action list \<times> nat" where
  "rs_ctr21 = ([Finish], 34)"

definition rs_ctr23 :: "response_data parse_action list \<times> nat" where
  "rs_ctr23 = ([rs_store_field_name], 19)"

definition rs_ctr24 :: "response_data parse_action list \<times> nat" where
  "rs_ctr24 = ([rs_store_field_name], 20)"

definition rs_ctr27 :: "response_data parse_action list \<times> nat" where
  "rs_ctr27 = ([Mark], 21)"

definition rs_ctr28 :: "response_data parse_action list \<times> nat" where
  "rs_ctr28 = ([Mark, rs_store_value], 22)"

definition rs_ctr30 :: "response_data parse_action list \<times> nat" where
  "rs_ctr30 = ([rs_store_value], 22)"

definition rs_ctr33 :: "response_data parse_action list \<times> nat" where
  "rs_ctr33 = ([rs_assign_field], 24)"

definition rs_ctr34 :: "response_data parse_action list \<times> nat" where
  "rs_ctr34 = ([rs_assign_field], 17)"

definition rs_ctr35 :: "response_data parse_action list \<times> nat" where
  "rs_ctr35 = ([rs_assign_field, Mark], 18)"

definition rs_ctr37 :: "response_data parse_action list \<times> nat" where
  "rs_ctr37 = ([Mark], 25)"

definition rs_ctr38 :: "response_data parse_action list \<times> nat" where
  "rs_ctr38 = ([Mark, rs_store_value], 24)"

definition rs_ctr39 :: "response_data parse_action list \<times> nat" where
  "rs_ctr39 = ([Mark, rs_store_value], 26)"

definition rs_ctr41 :: "response_data parse_action list \<times> nat" where
  "rs_ctr41 = ([rs_store_value], 25)"

definition rs_ctr42 :: "response_data parse_action list \<times> nat" where
  "rs_ctr42 = ([rs_store_value], 26)"

definition rs_ctr45 :: "response_data parse_action list \<times> nat" where
  "rs_ctr45 = ([rs_store_value, rs_extend_field], 24)"

definition rs_ctr46 :: "response_data parse_action list \<times> nat" where
  "rs_ctr46 = ([rs_extend_field], 17)"

definition rs_ctr47 :: "response_data parse_action list \<times> nat" where
  "rs_ctr47 = ([rs_extend_field, Mark], 28)"

definition rs_ctr49 :: "response_data parse_action list \<times> nat" where
  "rs_ctr49 = ([rs_store_field_name, rs_store_value], 29)"

definition rs_ctr50 :: "response_data parse_action list \<times> nat" where
  "rs_ctr50 = ([rs_store_field_name], 30)"

definition rs_ctr52 :: "response_data parse_action list \<times> nat" where
  "rs_ctr52 = ([rs_store_value], 29)"

definition rs_ctr54 :: "response_data parse_action list \<times> nat" where
  "rs_ctr54 = ([Mark], 31)"

definition rs_ctr55 :: "response_data parse_action list \<times> nat" where
  "rs_ctr55 = ([Mark, rs_store_value], 31)"

definition rs_ctr56 :: "response_data parse_action list \<times> nat" where
  "rs_ctr56 = ([Mark, rs_store_value], 32)"

definition rs_ctr58 :: "response_data parse_action list \<times> nat" where
  "rs_ctr58 = ([rs_store_value], 31)"

definition rs_ctr59 :: "response_data parse_action list \<times> nat" where
  "rs_ctr59 = ([rs_store_value], 32)"

definition rs_ctr62 :: "response_data parse_action list \<times> nat" where
  "rs_ctr62 = ([rs_assign_field, rs_store_value, rs_extend_field], 24)"

definition rs_ctr63 :: "response_data parse_action list \<times> nat" where
  "rs_ctr63 = ([rs_assign_field, rs_extend_field], 17)"

definition rs_ctr64 :: "response_data parse_action list \<times> nat" where
  "rs_ctr64 = ([rs_assign_field, rs_extend_field, Mark], 28)"

definition rs_case_0 :: "char \<Rightarrow> response_data parse_action list \<times> nat" where
  "rs_case_0 c = ([], 0)"

definition rs_case_1 :: "char \<Rightarrow> response_data parse_action list \<times> nat" where
  "rs_case_1 c =
     (if c = CHR 0x48 then ([], 2)
      else ([], 0))"

definition rs_case_2 :: "char \<Rightarrow> response_data parse_action list \<times> nat" where
  "rs_case_2 c =
     (if c = CHR 0x54 then ([], 3)
      else ([], 0))"

definition rs_case_3 :: "char \<Rightarrow> response_data parse_action list \<times> nat" where
  "rs_case_3 c =
     (if c = CHR 0x54 then ([], 4)
      else ([], 0))"

definition rs_case_4 :: "char \<Rightarrow> response_data parse_action list \<times> nat" where
  "rs_case_4 c =
     (if c = CHR 0x50 then ([], 5)
      else ([], 0))"

definition rs_case_5 :: "char \<Rightarrow> response_data parse_action list \<times> nat" where
  "rs_case_5 c =
     (if c = CHR 0x2F then ([], 6)
      else ([], 0))"

definition rs_case_6 :: "char \<Rightarrow> response_data parse_action list \<times> nat" where
  "rs_case_6 c =
     (if in_range 48 57 c then rs_ctr7
      else ([], 0))"

definition rs_case_7 :: "char \<Rightarrow> response_data parse_action list \<times> nat" where
  "rs_case_7 c =
     (if c = CHR 0x2E then ([], 8)
      else ([], 0))"

definition rs_case_8 :: "char \<Rightarrow> response_data parse_action list \<times> nat" where
  "rs_case_8 c =
     (if in_range 48 57 c then ([], 9)
      else ([], 0))"

definition rs_case_9 :: "char \<Rightarrow> response_data parse_action list \<times> nat" where
  "rs_case_9 c =
     (if c = CHR 0x20 \<or> in_range 9 13 c then rs_ctr11
      else ([], 0))"

definition rs_case_10 :: "char \<Rightarrow> response_data parse_action list \<times> nat" where
  "rs_case_10 c =
     (if in_range 48 57 c then ([], 11)
      else ([], 0))"

definition rs_case_11 :: "char \<Rightarrow> response_data parse_action list \<times> nat" where
  "rs_case_11 c =
     (if in_range 48 57 c then ([], 12)
      else ([], 0))"

definition rs_case_12 :: "char \<Rightarrow> response_data parse_action list \<times> nat" where
  "rs_case_12 c =
     (if in_range 48 57 c then ([], 13)
      else ([], 0))"

definition rs_case_13 :: "char \<Rightarrow> response_data parse_action list \<times> nat" where
  "rs_case_13 c =
     (if c = CHR 0x20 \<or> in_range 9 13 c then ([], 14)
      else ([], 0))"

definition rs_case_14 :: "char \<Rightarrow> response_data parse_action list \<times> nat" where
  "rs_case_14 c =
     (if c = CHR 0x0A then ([], 0)
      else if c = CHR 0x0D then ([], 15)
      else ([], 14))"

definition rs_case_15 :: "char \<Rightarrow> response_data parse_action list \<times> nat" where
  "rs_case_15 c =
     (if c = CHR 0x0A then ([], 16)
      else ([], 0))"

definition rs_case_16 :: "char \<Rightarrow> response_data parse_action list \<times> nat" where
  "rs_case_16 c =
     (if c = CHR 0x0D then ([], 17)
      else if c = CHR 0x21 \<or> c = CHR 0x7C \<or> c = CHR 0x7E \<or> tchar_range c then rs_ctr20
      else ([], 0))"

definition rs_case_17 :: "char \<Rightarrow> response_data parse_action list \<times> nat" where
  "rs_case_17 c =
     (if c = CHR 0x0A then rs_ctr21
      else ([], 0))"

definition rs_case_18 :: "char \<Rightarrow> response_data parse_action list \<times> nat" where
  "rs_case_18 c =
     (if c = CHR 0x09 \<or> c = CHR 0x20 then rs_ctr23
      else if c = CHR 0x21 then ([], 18)
      else if c = CHR 0x3A then rs_ctr24
      else if c = CHR 0x7C \<or> c = CHR 0x7E \<or> tchar_range c then ([], 18)
      else ([], 0))"

definition rs_case_19 :: "char \<Rightarrow> response_data parse_action list \<times> nat" where
  "rs_case_19 c =
     (if c = CHR 0x09 \<or> c = CHR 0x20 then ([], 19)
      else if c = CHR 0x3A then ([], 20)
      else ([], 0))"

definition rs_case_20 :: "char \<Rightarrow> response_data parse_action list \<times> nat" where
  "rs_case_20 c =
     (if c = CHR 0x0D then rs_ctr28
      else rs_ctr27)"

definition rs_case_21 :: "char \<Rightarrow> response_data parse_action list \<times> nat" where
  "rs_case_21 c =
     (if c = CHR 0x0D then rs_ctr30
      else ([], 21))"

definition rs_case_22 :: "char \<Rightarrow> response_data parse_action list \<times> nat" where
  "rs_case_22 c =
     (if c = CHR 0x0A then ([], 23)
      else ([], 0))"

definition rs_case_23 :: "char \<Rightarrow> response_data parse_action list \<times> nat" where
  "rs_case_23 c =
     (if c = CHR 0x09 then rs_ctr33
      else if c = CHR 0x0D then rs_ctr34
      else if c = CHR 0x20 then rs_ctr33
      else if c = CHR 0x21 \<or> c = CHR 0x7C \<or> c = CHR 0x7E \<or> tchar_range c then rs_ctr35
      else ([], 0))"

definition rs_case_24 :: "char \<Rightarrow> response_data parse_action list \<times> nat" where
  "rs_case_24 c =
     (if c = CHR 0x09 then rs_ctr38
      else if c = CHR 0x0D then rs_ctr39
      else if c = CHR 0x20 then rs_ctr38
      else rs_ctr37)"

definition rs_case_25 :: "char \<Rightarrow> response_data parse_action list \<times> nat" where
  "rs_case_25 c =
     (if c = CHR 0x09 then rs_ctr41
      else if c = CHR 0x0D then rs_ctr42
      else if c = CHR 0x20 then rs_ctr41
      else ([], 25))"

definition rs_case_26 :: "char \<Rightarrow> response_data parse_action list \<times> nat" where
  "rs_case_26 c =
     (if c = CHR 0x09 then rs_ctr41
      else if c = CHR 0x0A then ([], 27)
      else if c = CHR 0x0D then rs_ctr42
      else if c = CHR 0x20 then rs_ctr41
      else ([], 25))"

definition rs_case_27 :: "char \<Rightarrow> response_data parse_action list \<times> nat" where
  "rs_case_27 c =
     (if c = CHR 0x09 then rs_ctr45
      else if c = CHR 0x0D then rs_ctr46
      else if c = CHR 0x20 then rs_ctr45
      else if c = CHR 0x21 \<or> c = CHR 0x7C \<or> c = CHR 0x7E \<or> tchar_range c then rs_ctr47
      else ([], 25))"

definition rs_case_28 :: "char \<Rightarrow> response_data parse_action list \<times> nat" where
  "rs_case_28 c =
     (if c = CHR 0x09 then rs_ctr49
      else if c = CHR 0x0D then rs_ctr42
      else if c = CHR 0x20 then rs_ctr49
      else if c = CHR 0x21 then ([], 28)
      else if c = CHR 0x3A then rs_ctr50
      else if c = CHR 0x7C \<or> c = CHR 0x7E \<or> tchar_range c then ([], 28)
      else ([], 25))"

definition rs_case_29 :: "char \<Rightarrow> response_data parse_action list \<times> nat" where
  "rs_case_29 c =
     (if c = CHR 0x09 then rs_ctr52
      else if c = CHR 0x0D then rs_ctr42
      else if c = CHR 0x20 then rs_ctr52
      else if c = CHR 0x3A then ([], 30)
      else ([], 25))"

definition rs_case_30 :: "char \<Rightarrow> response_data parse_action list \<times> nat" where
  "rs_case_30 c =
     (if c = CHR 0x09 then rs_ctr55
      else if c = CHR 0x0D then rs_ctr56
      else if c = CHR 0x20 then rs_ctr55
      else rs_ctr54)"

definition rs_case_31 :: "char \<Rightarrow> response_data parse_action list \<times> nat" where
  "rs_case_31 c =
     (if c = CHR 0x09 then rs_ctr58
      else if c = CHR 0x0D then rs_ctr59
      else if c = CHR 0x20 then rs_ctr58
      else ([], 31))"

definition rs_case_32 :: "char \<Rightarrow> response_data parse_action list \<times> nat" where
  "rs_case_32 c =
     (if c = CHR 0x09 then rs_ctr41
      else if c = CHR 0x0A then ([], 33)
      else if c = CHR 0x0D then rs_ctr42
      else if c = CHR 0x20 then rs_ctr41
      else ([], 25))"

definition rs_case_33 :: "char \<Rightarrow> response_data parse_action list \<times> nat" where
  "rs_case_33 c =
     (if c = CHR 0x09 then rs_ctr62
      else if c = CHR 0x0D then rs_ctr63
      else if c = CHR 0x20 then rs_ctr62
      else if c = CHR 0x21 \<or> c = CHR 0x7C \<or> c = CHR 0x7E \<or> tchar_range c then rs_ctr64
      else ([], 25))"

definition rs_case_34 :: "char \<Rightarrow> response_data parse_action list \<times> nat" where
  "rs_case_34 c =
     ([], 0)"

definition rs_transitions :: "response_data transitions" where
  "rs_transitions st c =
     (if st = 1 then rs_case_1 c
      else if st = 2 then rs_case_2 c
      else if st = 3 then rs_case_3 c
      else if st = 4 then rs_case_4 c
      else if st = 5 then rs_case_5 c
      else if st = 6 then rs_case_6 c
      else if st = 7 then rs_case_7 c
      else if st = 8 then rs_case_8 c
      else if st = 9 then rs_case_9 c
      else if st = 10 then rs_case_10 c
      else if st = 11 then rs_case_11 c
      else if st = 12 then rs_case_12 c
      else if st = 13 then rs_case_13 c
      else if st = 14 then rs_case_14 c
      else if st = 15 then rs_case_15 c
      else if st = 16 then rs_case_16 c
      else if st = 17 then rs_case_17 c
      else if st = 18 then rs_case_18 c
      else if st = 19 then rs_case_19 c
      else if st = 20 then rs_case_20 c
      else if st = 21 then rs_case_21 c
      else if st = 22 then rs_case_22 c
      else if st = 23 then rs_case_23 c
      else if st = 24 then rs_case_24 c
      else if st = 25 then rs_case_25 c
      else if st = 26 then rs_case_26 c
      else if st = 27 then rs_case_27 c
      else if st = 28 then rs_case_28 c
      else if st = 29 then rs_case_29 c
      else if st = 30 then rs_case_30 c
      else if st = 31 then rs_case_31 c
      else if st = 32 then rs_case_32 c
      else if st = 33 then rs_case_33 c
      else if st = 34 then rs_case_34 c
      else rs_case_0 c)"

subsection \<open>The parser\<close>

type_synonym 'b http_response_parser = "('b, response_data) ragel_parser"

definition response_parser_init :: "'b sstring_builder \<Rightarrow> 'b http_response_parser \<Rightarrow> 'b http_response_parser" where
  "response_parser_init bo par =
     par\<lparr>rg_builder := sb_reset bo (rg_builder par), rg_data := (rg_data par)\<lparr>sd_rsp := response_new\<rparr>,
         rg_state := Ps_eof, fsm_cs := 1\<rparr>"

text \<open>A response that is not done asks for more, also after an error.\<close>

definition response_ending :: "nat \<Rightarrow> nat \<Rightarrow> parser_state \<Rightarrow> nat option \<times> parser_state" where
  "response_ending p n x = (None, x)"

definition response_parse :: "'b sstring_builder \<Rightarrow> string \<Rightarrow> 'b http_response_parser \<Rightarrow> nat option \<times> 'b http_response_parser" where
  "response_parse bo = ragel_parse rs_transitions 34 bo response_ending"

end
