(* ===== verification/HttpResponseText.thy ===== *)
theory HttpResponseText
  imports HttpResponseParser HttpRequestText HttpWire
begin

text \<open>
  The response parser on what the server writes, and on continuation lines.
\<close>

lemma rs_transitions_simps [simp]:
  "rs_transitions (Suc 0) = rs_case_1" "rs_transitions 2 = rs_case_2" "rs_transitions 3 = rs_case_3"
  "rs_transitions 4 = rs_case_4" "rs_transitions 5 = rs_case_5" "rs_transitions 6 = rs_case_6"
  "rs_transitions 7 = rs_case_7" "rs_transitions 8 = rs_case_8" "rs_transitions 9 = rs_case_9"
  "rs_transitions 10 = rs_case_10" "rs_transitions 11 = rs_case_11" "rs_transitions 12 = rs_case_12"
  "rs_transitions 13 = rs_case_13" "rs_transitions 14 = rs_case_14" "rs_transitions 15 = rs_case_15"
  "rs_transitions 16 = rs_case_16" "rs_transitions 17 = rs_case_17" "rs_transitions 18 = rs_case_18"
  "rs_transitions 19 = rs_case_19" "rs_transitions 20 = rs_case_20" "rs_transitions 21 = rs_case_21"
  "rs_transitions 22 = rs_case_22" "rs_transitions 23 = rs_case_23" "rs_transitions 24 = rs_case_24"
  "rs_transitions 25 = rs_case_25" "rs_transitions 26 = rs_case_26" "rs_transitions 27 = rs_case_27"
  "rs_transitions 28 = rs_case_28" "rs_transitions 29 = rs_case_29" "rs_transitions 30 = rs_case_30"
  "rs_transitions 31 = rs_case_31" "rs_transitions 32 = rs_case_32" "rs_transitions 33 = rs_case_33"
  "rs_transitions 34 = rs_case_34"
  by (auto simp: rs_transitions_def fun_eq_iff)

lemmas rs_ctr_defs =
  rs_ctr7_def rs_ctr11_def rs_ctr20_def rs_ctr21_def rs_ctr23_def rs_ctr24_def rs_ctr27_def rs_ctr28_def
  rs_ctr30_def rs_ctr33_def rs_ctr34_def rs_ctr35_def rs_ctr37_def rs_ctr38_def rs_ctr39_def rs_ctr41_def
  rs_ctr42_def rs_ctr45_def rs_ctr46_def rs_ctr47_def rs_ctr49_def rs_ctr50_def rs_ctr52_def rs_ctr54_def
  rs_ctr55_def rs_ctr56_def rs_ctr58_def rs_ctr59_def rs_ctr62_def rs_ctr63_def rs_ctr64_def

lemmas rs_case_defs =
  rs_case_0_def rs_case_1_def rs_case_2_def rs_case_3_def rs_case_4_def rs_case_5_def rs_case_6_def
  rs_case_7_def rs_case_8_def rs_case_9_def rs_case_10_def rs_case_11_def rs_case_12_def rs_case_13_def
  rs_case_14_def rs_case_15_def rs_case_16_def rs_case_17_def rs_case_18_def rs_case_19_def rs_case_20_def
  rs_case_21_def rs_case_22_def rs_case_23_def rs_case_24_def rs_case_25_def rs_case_26_def rs_case_27_def
  rs_case_28_def rs_case_29_def rs_case_30_def rs_case_31_def rs_case_32_def rs_case_33_def rs_case_34_def

lemmas rs_stores = rs_store_version_def rs_store_field_name_def rs_store_value_def

subsection \<open>The head of a reply\<close>

lemma status_string_parts:
  "\<exists>a b c reason. status_string st = '' '' @ [a, b, c] @ '' '' @ reason @ crlf \<and> dec_digit a \<and> dec_digit b \<and> dec_digit c \<and> clean reason"
  by (cases st) (auto simp: dec_digit_def in_range_def char_int_def)

lemma scan_status:
  assumes "dec_digit a" "dec_digit b"
  shows "scan_run rs_transitions (''HTTP/'' @ version_text a b @ status_string st @ rest) (Suc 0) (idle d) =
    scan_run rs_transitions rest 16 (idle (d\<lparr>sd_rsp := (sd_rsp d)\<lparr>rsp_version := version_text a b\<rparr>\<rparr>))"
proof -
  obtain x y z reason where st: "status_string st = '' '' @ [x, y, z] @ '' '' @ reason @ crlf" "dec_digit x" "dec_digit y" "dec_digit z" "clean reason"
    using status_string_parts by blast
  let ?d = "d\<lparr>sd_rsp := (sd_rsp d)\<lparr>rsp_version := version_text a b\<rparr>\<rparr>"
  have "scan_run rs_transitions (''HTTP/'' @ version_text a b @ status_string st @ rest) (Suc 0) (idle d) =
      scan_run rs_transitions (reason @ crlf @ rest) 14 (idle ?d)"
    using assms st by (simp add: version_text_def rs_case_defs rs_ctr_defs rs_stores dec_digit_def)
  also have "\<dots> = scan_run rs_transitions (crlf @ rest) 14 (idle ?d)"
    using st(5) by (intro scan_skip) (auto simp: rs_case_14_def clean_def)
  finally show ?thesis by (simp add: crlf_def rs_case_14_def rs_case_15_def)
qed

text \<open>What the states between lines still have to do: nothing, or to store the field just read.\<close>

definition unstored :: "nat \<Rightarrow> response_data \<Rightarrow> response_data" where
  "unstored q d = (if q = 23 then (case rs_assign_field of Update f \<Rightarrow> f d) else d)"

lemma unstored_simps [simp]:
  "unstored 16 d = d" "scan_action rs_assign_field s = Some (s\<lparr>sc_data := unstored 23 (sc_data s)\<rparr>)"
  "\<not> is_Finish rs_assign_field"
  by (simp_all add: unstored_def rs_assign_field_def)

lemma scan_header:
  assumes q: "q \<in> {16, 23}" and h: "h \<noteq> []" "\<forall>c \<in> set h. tchar c" and v: "CHR 0x0D \<notin> set v"
  shows "scan_run rs_transitions (h @ '': '' @ v @ crlf @ rest) q (idle d) =
    scan_run rs_transitions rest 23 (idle ((unstored q d)\<lparr>sd_field_name := h, sd_value := '' '' @ v\<rparr>))"
proof -
  obtain c cs where m: "h = c # cs" using h(1) by (cases h) auto
  have c: "tchar c" using h(2) m by simp
  let ?t = "'': '' @ v @ crlf @ rest" and ?d = "(unstored q d)\<lparr>sd_field_name := h\<rparr>"
  have "scan_run rs_transitions (h @ ?t) q (idle d) = scan_run rs_transitions (cs @ ?t) 18 (busy [c] (unstored q d))"
    using q tchar_class [OF c] c by (auto simp: m rs_case_16_def rs_case_23_def rs_ctr_defs tchar_range_iff)
  also have "\<dots> = scan_run rs_transitions ?t 18 (busy h (unstored q d))"
  proof -
    have "rs_transitions 18 x = ([], 18)" if "x \<in> set cs" for x
      using that h(2) tchar_class [of x] tchar_range_iff [of x] by (auto simp: m rs_case_18_def)
    then show ?thesis by (subst scan_loop [where t = "[c]"]) (simp_all add: m)
  qed
  also have "\<dots> = scan_run rs_transitions (v @ crlf @ rest) 21 (busy '' '' ?d)"
    by (simp add: rs_case_18_def rs_case_20_def rs_ctr_defs rs_stores)
  also have "\<dots> = scan_run rs_transitions (crlf @ rest) 21 (busy ('' '' @ v) ?d)"
  proof -
    have "rs_transitions 21 x = ([], 21)" if "x \<in> set v" for x
      using that v by (auto simp: rs_case_21_def)
    then show ?thesis by (subst scan_loop [where t = "'' ''"]) simp_all
  qed
  finally show ?thesis by (simp add: crlf_def rs_case_21_def rs_case_22_def rs_ctr_defs rs_stores)
qed

definition header_ok :: "string \<times> string \<Rightarrow> bool" where
  "header_ok hv \<longleftrightarrow> fst hv \<noteq> [] \<and> (\<forall>c \<in> set (fst hv). tchar c) \<and> CHR 0x0D \<notin> set (snd hv)"

lemma scan_headers:
  assumes "\<forall>hv \<in> set hs. header_ok hv" "q \<in> {16, 23}"
  shows "\<exists>d'. scan_run rs_transitions (concat (map (\<lambda>(h, v). h @ '': '' @ v @ crlf) hs) @ crlf @ rest) q (idle d) = Finished rest d' \<and>
    sd_rsp d' = (sd_rsp (unstored q d))\<lparr>rsp_headers := rsp_headers (sd_rsp (unstored q d)) ++ map_of (rev (map (\<lambda>(h, v). (h, '' '' @ v)) hs))\<rparr>"
  using assms
proof (induction hs arbitrary: q d)
  case Nil
  then show ?case by (auto simp: crlf_def rs_case_16_def rs_case_23_def rs_case_17_def rs_ctr_defs)
next
  case (Cons hv hs)
  obtain h v where hv: "hv = (h, v)" by fastforce
  have ok: "h \<noteq> []" "\<forall>c \<in> set h. tchar c" "CHR 0x0D \<notin> set v" "\<forall>hv \<in> set hs. header_ok hv"
    using Cons.prems(1) by (auto simp: hv header_ok_def)
  let ?d = "(unstored q d)\<lparr>sd_field_name := h, sd_value := '' '' @ v\<rparr>"
  obtain d' where d': "scan_run rs_transitions (concat (map (\<lambda>(h, v). h @ '': '' @ v @ crlf) hs) @ crlf @ rest) 23 (idle ?d) = Finished rest d'"
    "sd_rsp d' = (sd_rsp (unstored 23 ?d))\<lparr>rsp_headers := rsp_headers (sd_rsp (unstored 23 ?d)) ++ map_of (rev (map (\<lambda>(h, v). (h, '' '' @ v)) hs))\<rparr>"
    using Cons.IH [OF ok(4), of 23 ?d] by auto
  have "sd_rsp (unstored 23 ?d) = rsp_put h ('' '' @ v) (sd_rsp (unstored q d))"
    by (simp add: unstored_def [of 23] rs_assign_field_def)
  then have "sd_rsp d' = (sd_rsp (unstored q d))\<lparr>rsp_headers := rsp_headers (sd_rsp (unstored q d)) ++
      map_of (rev (map (\<lambda>(h, v). (h, '' '' @ v)) (hv # hs)))\<rparr>"
    unfolding d'(2) by (simp add: rsp_put_def hv map_add_def fun_eq_iff split: option.split)
  then show ?case
    using d'(1) scan_header [OF Cons.prems(2) ok(1-3), of "concat (map (\<lambda>(h, v). h @ '': '' @ v @ crlf) hs) @ crlf @ rest" d]
    by (auto simp: hv)
qed

lemma response_ending_laws: "response_ending n n x = (None, x)"
  by (simp add: response_ending_def)

lemma response_init_between:
  assumes "collects bo val mark"
  shows "between val mark (response_parser_init bo par) (Suc 0) (idle ((rg_data par)\<lparr>sd_rsp := response_new\<rparr>))"
  by (simp add: between_def response_parser_init_def collectsD [OF assms])

definition reads_head :: "'b sstring_builder \<Rightarrow> 'b http_response_parser \<Rightarrow> string \<Rightarrow> string \<Rightarrow> (string \<times> string) list \<Rightarrow> string \<Rightarrow> bool" where
  "reads_head bo par m version hs rest \<longleftrightarrow>
     (\<forall>blocks. (\<forall>b \<in> set blocks. b \<noteq> []) \<longrightarrow> concat blocks = m \<longrightarrow>
        (\<exists>behind blocks' par'. parse_blocks (response_parse bo) blocks (response_parser_init bo par) = (Some (behind, blocks'), par') \<and>
           rg_state par' = Ps_done \<and> behind @ concat blocks' = rest \<and> rsp_version (sd_rsp (rg_data par')) = version \<and>
           (\<forall>h. rsp_headers (sd_rsp (rg_data par')) h = map_option (\<lambda>v. '' '' @ v) (map_of hs h))))"

lemma map_of_blanks: "map_of (map (\<lambda>(h, v). (h, '' '' @ v)) hs) h = map_option (\<lambda>v. '' '' @ v) (map_of hs h)"
  by (induction hs) auto

definition head_ok :: "reply \<Rightarrow> bool" where
  "head_ok r \<longleftrightarrow> (\<forall>hv \<in> set (rep_headers r). header_ok hv) \<and> distinct (map fst (rep_headers r))"

lemma map_of_rev_distinct: "distinct (map fst xs) \<Longrightarrow> map_of (rev xs) k = map_of xs k"
  by (induction xs) (auto simp: map_add_def weak_map_of_SomeI domIff dom_map_of_conv_image_fst image_iff split: option.split
      dest: map_of_SomeD)

lemma head_is_read:
  assumes laws: "collects bo val mark" and ab: "dec_digit a" "dec_digit b" "rep_version r = version_text a b"
    and head: "head_ok r"
  shows "reads_head bo par (response_line r @ write_reply_headers r @ crlf @ rest) (rep_version r) (rep_headers r) rest"
proof -
  have hs: "\<forall>hv \<in> set (rep_headers r). header_ok hv" "distinct (map fst (rep_headers r))" using head by (simp_all add: head_ok_def)
  have "\<exists>behind blocks' par'. parse_blocks (response_parse bo) blocks (response_parser_init bo par) = (Some (behind, blocks'), par') \<and>
      rg_state par' = Ps_done \<and> behind @ concat blocks' = rest \<and> rsp_version (sd_rsp (rg_data par')) = rep_version r \<and>
      (\<forall>h. rsp_headers (sd_rsp (rg_data par')) h = map_option (\<lambda>v. '' '' @ v) (map_of (rep_headers r) h))"
    if b: "\<forall>b \<in> set blocks. b \<noteq> []" "concat blocks = response_line r @ write_reply_headers r @ crlf @ rest" for blocks
  proof -
    let ?start = "(rg_data par)\<lparr>sd_rsp := response_new\<rparr>"
    let ?d = "?start\<lparr>sd_rsp := (sd_rsp ?start)\<lparr>rsp_version := version_text a b\<rparr>\<rparr>"
    have "scan_run rs_transitions (concat blocks) (Suc 0) (idle ?start) = scan_run rs_transitions (write_reply_headers r @ crlf @ rest) 16 (idle ?d)"
      using scan_status [OF ab(1,2), of "rep_status r" "write_reply_headers r @ crlf @ rest" ?start] b(2) ab(3) by (simp add: response_line_def)
    moreover obtain d' where d': "scan_run rs_transitions (write_reply_headers r @ crlf @ rest) 16 (idle ?d) = Finished rest d'"
      "sd_rsp d' = (sd_rsp ?d)\<lparr>rsp_headers := rsp_headers (sd_rsp ?d) ++ map_of (rev (map (\<lambda>(h, v). (h, '' '' @ v)) (rep_headers r)))\<rparr>"
      using scan_headers [OF hs(1), of 16 rest ?d] by (auto simp: write_reply_headers_def)
    moreover have names: "map fst (map (\<lambda>(h, v). (h, '' '' @ v)) (rep_headers r)) = map fst (rep_headers r)"
      by (simp add: case_prod_beta comp_def)
    have "map_of (rev (map (\<lambda>(h, v). (h, '' '' @ v)) (rep_headers r))) = map_of (map (\<lambda>(h, v). (h, '' '' @ v)) (rep_headers r))"
      by (intro ext map_of_rev_distinct) (simp only: names hs(2))
    ultimately have fin: "scan_run rs_transitions (concat blocks) (Suc 0) (idle ?start) = Finished rest d'"
      and res: "rsp_version (sd_rsp d') = rep_version r"
      "\<forall>h. rsp_headers (sd_rsp d') h = map_option (\<lambda>v. '' '' @ v) (map_of (rep_headers r) h)"
      using ab(3) by (simp_all add: response_new_def map_of_blanks [simplified])
    have "outcome_is (parse_blocks (ragel_parse rs_transitions 34 bo response_ending) blocks (response_parser_init bo par)) rest d' Ps_done"
      using parse_blocks_agree [OF laws, of response_ending, OF response_ending_laws response_init_between [OF laws] b(1),
          of rs_transitions 34 par] by (simp only: fin scanned.case)
    then show ?thesis using res by (auto simp: outcome_is_def response_parse_def)
  qed
  then show ?thesis unfolding reads_head_def by blast
qed

lemma header_ok_update: "\<forall>hv \<in> set hs. header_ok hv \<Longrightarrow> header_ok (h, v) \<Longrightarrow> \<forall>hv \<in> set (AList.update h v hs). header_ok hv"
  by (induction hs) auto

lemma header_ok_names:
  "CHR 0x0D \<notin> set v \<Longrightarrow> h \<in> {''Server'', ''Date'', ''Content-Length'', ''Transfer-Encoding''} \<Longrightarrow> header_ok (h, v)"
  by (elim insertE emptyE) (simp_all add: header_ok_def tchar_def upper_def dec_digit_def in_range_def char_int_def)

lemma head_ok_add:
  assumes "head_ok r" "CHR 0x0D \<notin> set v" "h \<in> {''Server'', ''Date'', ''Content-Length'', ''Transfer-Encoding''}"
  shows "head_ok (add_header h v r)"
  using assms(1) header_ok_update [OF _ header_ok_names [OF assms(2,3)], of "rep_headers r"]
  by (simp add: head_ok_def add_header_def distinct_update)

lemma add_header_keeps [simp]:
  "rep_version (add_header h v r) = rep_version r" "rep_status (add_header h v r) = rep_status r"
  "rep_content (add_header h v r) = rep_content r" "rep_response_line (add_header h v r) = rep_response_line r"
  by (simp_all add: add_header_def)

lemma show_nat_no_cr: "CHR 0x0D \<notin> set (show_nat n)"
  using show_nat_clean [of n] by (simp add: clean_def)

lemma wire_is_parsed:
  assumes "collects bo val mark" "dec_digit a" "dec_digit b" "rep_version r = version_text a b"
    and "head_ok r" "CHR 0x0D \<notin> set (sv_date sv)"
    and "case rep_body_writer r of None \<Rightarrow> rep_response_line r = response_line r | Some w \<Rightarrow> True"
  shows "reads_head bo par (wire sv r @ rest) (rep_version r) (rep_headers (sent_reply sv r)) (wire_body r @ rest)"
proof -
  have ok: "head_ok (sent_reply sv r)"
    using assms(5,6) show_nat_no_cr by (auto simp: sent_reply_def set_headers_def intro!: head_ok_add split: option.split)
  have same: "rep_version (sent_reply sv r) = rep_version r" "response_line (sent_reply sv r) = response_line r"
    by (simp_all add: sent_reply_def set_headers_def response_line_def split: option.split)
  have "wire sv r = response_line (sent_reply sv r) @ write_reply_headers (sent_reply sv r) @ crlf @ wire_body r"
    using assms(7) by (simp add: wire_def same split: option.splits)
  then show ?thesis
    using head_is_read [OF assms(1-3) _ ok, of par "wire_body r @ rest"] assms(4) by (simp add: same)
qed

text \<open>C40. What the server writes for a reply is read by the response parser of the library, cut into
  blocks anywhere: it ends exactly where the body begins, with the version of the reply and every
  header under its name, with the blank behind the colon as part of its value.\<close>

theorem reply_read_by_response_parser:
  assumes "collects bo val mark" "dec_digit a" "dec_digit b" "rep_version r = version_text a b"
    and "head_ok r" "CHR 0x0D \<notin> set (sv_date sv)"
    and "case rep_body_writer r of None \<Rightarrow> rep_response_line r = response_line r | Some w \<Rightarrow> \<not> bw_fails w"
  shows "\<exists>m hs. start_response None True r sv c = (sv, c\<lparr>cn_out := cn_out c @ m\<rparr>, False) \<and>
    (\<forall>h. h \<notin> {''Server'', ''Date'', ''Content-Length'', ''Transfer-Encoding''} \<longrightarrow> map_of hs h = map_of (rep_headers r) h) \<and>
    (\<forall>rest. reads_head bo par (m @ rest) (rep_version r) hs
      (case rep_body_writer r of None \<Rightarrow> rep_content r @ rest
       | Some w \<Rightarrow> concat (map chunk_put (bw_buffers w)) @ ''0'' @ crlf @ crlf @ rest))"
proof -
  have "sendable r" using assms(7) by (simp add: sendable_def split: option.splits)
  moreover have "reads_head bo par (wire sv r @ rest) (rep_version r) (rep_headers (sent_reply sv r)) (wire_body r @ rest)" for rest
    using assms(7) by (intro wire_is_parsed [OF assms(1-6)]) (auto split: option.splits)
  moreover have "wire_body r @ rest = (case rep_body_writer r of None \<Rightarrow> rep_content r @ rest
      | Some w \<Rightarrow> concat (map chunk_put (bw_buffers w)) @ ''0'' @ crlf @ crlf @ rest)" for rest
    by (simp add: wire_body_def split: option.split)
  ultimately show ?thesis
    using start_response_wire sent_reply_headers
    by (intro exI [of _ "wire sv r"] exI [of _ "rep_headers (sent_reply sv r)"]) simp
qed

definition sample_response_parser :: "(string \<times> nat option) http_response_parser" where
  "sample_response_parser = \<lparr>fsm_cs = 0, rg_builder = ([], None),
     rg_data = \<lparr>sd_rsp = response_new, sd_field_name = [], sd_value = []\<rparr>, rg_state = Ps_error\<rparr>"

definition sample_reply :: reply where
  "sample_reply = write_body_with ''txt'' \<lparr>bw_buffers = [''ab'', [], ''c''], bw_fails = False\<rparr> (set_version ''1.1'' reply_new)"

theorem reply_read_by_response_parser_witness:
  "\<exists>m hs. start_response None True sample_reply sample_server sample_conn = (sample_server, sample_conn\<lparr>cn_out := m\<rparr>, False) \<and>
     map_of hs ''Content-Type'' = Some ''text/plain'' \<and>
     reads_head plain_builder sample_response_parser m ''1.1'' hs (''2'' @ crlf @ ''ab'' @ crlf @ ''1'' @ crlf @ ''c'' @ crlf @ ''0'' @ crlf @ crlf)"
proof -
  have r: "rep_version sample_reply = version_text CHR 0x31 CHR 0x31" "rep_headers sample_reply = [(''Content-Type'', ''text/plain'')]"
      "rep_body_writer sample_reply = Some \<lparr>bw_buffers = [''ab'', [], ''c''], bw_fails = False\<rparr>" "cn_out sample_conn = []"
    by (simp_all add: sample_reply_def write_body_with_def set_version_def reply_new_def set_content_type_def set_mime_type_def
        add_header_def extension_to_type_def mime_mappings_def version_text_def sample_conn_def)
  have digit: "dec_digit CHR 0x31" by (simp add: dec_digit_def in_range_def char_int_def)
  have head: "head_ok sample_reply"
    by (simp add: head_ok_def r(2) header_ok_def tchar_def upper_def dec_digit_def in_range_def char_int_def)
  have date: "CHR 0x0D \<notin> set (sv_date sample_server)" by (simp add: sample_server_def)
  have w: "case rep_body_writer sample_reply of None \<Rightarrow> rep_response_line sample_reply = response_line sample_reply | Some w \<Rightarrow> \<not> bw_fails w"
    by (simp add: r(3))
  obtain m hs where m: "start_response None True sample_reply sample_server sample_conn =
        (sample_server, sample_conn\<lparr>cn_out := cn_out sample_conn @ m\<rparr>, False)"
      "\<forall>h. h \<notin> {''Server'', ''Date'', ''Content-Length'', ''Transfer-Encoding''} \<longrightarrow> map_of hs h = map_of (rep_headers sample_reply) h"
      "\<forall>rest. reads_head plain_builder sample_response_parser (m @ rest) (rep_version sample_reply) hs
        (case rep_body_writer sample_reply of None \<Rightarrow> rep_content sample_reply @ rest
         | Some w \<Rightarrow> concat (map chunk_put (bw_buffers w)) @ ''0'' @ crlf @ crlf @ rest)"
    using reply_read_by_response_parser [OF plain_builder_collects digit digit r(1) head date w, of sample_conn sample_response_parser]
    by (elim exE conjE)
  have "map_of hs ''Content-Type'' = Some ''text/plain''" using m(2) [THEN spec, of "''Content-Type''"] by (simp add: r(2))
  moreover have "reads_head plain_builder sample_response_parser m ''1.1'' hs
      (''2'' @ crlf @ ''ab'' @ crlf @ ''1'' @ crlf @ ''c'' @ crlf @ ''0'' @ crlf @ crlf)"
    using m(3) [THEN spec, of "[]"] by (simp add: r(1,3) version_text_def chunk_put_def show_hex.simps char_of_def bit_0)
  moreover have "start_response None True sample_reply sample_server sample_conn = (sample_server, sample_conn\<lparr>cn_out := m\<rparr>, False)"
    using m(1) by (simp only: r(4) append_Nil)
  ultimately show ?thesis by blast
qed

subsection \<open>Continuation lines\<close>

definition response_start :: string where
  "response_start = ''HTTP/1.1 200 OK'' @ crlf @ ''a:b'' @ crlf @ '' c''"

lemma scan_response_start:
  "\<exists>d'. scan_run rs_transitions (response_start @ rest) (Suc 0) (idle d) = scan_run rs_transitions rest 25 (busy ''c'' d') \<and>
    sd_field_name d' = ''a'' \<and> rsp_headers (sd_rsp d') ''a'' = Some ''b'' \<and> rsp_version (sd_rsp d') = ''1.1''"
  by (simp add: response_start_def crlf_def rs_case_defs rs_ctr_defs rs_stores unstored_def rs_assign_field_def rsp_put_def
      in_range_def char_int_def tchar_range_def) (rule exI, rule conjI, rule refl, simp)

text \<open>A continuation line of one word is appended to its field, and then the head may end. With a
  blank between two words, or with another field behind it, the parser ends a text that has no
  start: \<open>mark_end\<close> is called on a null start.\<close>

theorem folded_response_field:
  "(\<exists>d'. scan_run rs_transitions (response_start @ crlf @ crlf @ rest) (Suc 0) (idle d) = Finished rest d' \<and>
      rsp_headers (sd_rsp d') ''a'' = Some ''b c'' \<and> rsp_version (sd_rsp d') = ''1.1'') \<and>
   scan_run rs_transitions (response_start @ '' d'' @ crlf @ rest) (Suc 0) (idle d) = Stuck \<and>
   scan_run rs_transitions (response_start @ crlf @ ''d: e'' @ crlf @ rest) (Suc 0) (idle d) = Stuck"
proof -
  note start = scan_response_start [of _ d]
  have extend: "scan_action rs_extend_field s = Some (s\<lparr>sc_data := (sc_data s)\<lparr>sd_value := [],
      sd_rsp := rsp_put (sd_field_name (sc_data s)) (or_empty (rsp_headers (sd_rsp (sc_data s)) (sd_field_name (sc_data s))) @
        '' '' @ sd_value (sc_data s)) (sd_rsp (sc_data s))\<rparr>\<rparr>)" "\<not> is_Finish rs_extend_field" for s :: "response_data scan"
    by (simp_all add: rs_extend_field_def)
  have "\<exists>d'. scan_run rs_transitions (response_start @ crlf @ crlf @ rest) (Suc 0) (idle d) = Finished rest d' \<and>
      rsp_headers (sd_rsp d') ''a'' = Some ''b c'' \<and> rsp_version (sd_rsp d') = ''1.1''"
    using start [of "crlf @ crlf @ rest"]
    by (auto simp: crlf_def rs_case_25_def rs_case_26_def rs_case_27_def rs_case_17_def rs_ctr_defs rs_store_value_def extend
        rsp_put_def or_empty_def)
  moreover have "scan_run rs_transitions (response_start @ '' d'' @ crlf @ rest) (Suc 0) (idle d) = Stuck"
    using start [of "'' d'' @ crlf @ rest"] by (auto simp: crlf_def rs_case_25_def rs_ctr_defs rs_store_value_def)
  moreover have "scan_run rs_transitions (response_start @ crlf @ ''d: e'' @ crlf @ rest) (Suc 0) (idle d) = Stuck"
    using start [of "crlf @ ''d: e'' @ crlf @ rest"]
    by (auto simp: crlf_def rs_case_defs rs_ctr_defs rs_stores extend tchar_range_def in_range_def char_int_def)
  ultimately show ?thesis by blast
qed

end
