(* ===== verification/HttpServed.thy ===== *)
theory HttpServed
  imports HttpConnProps HttpErrors HttpResponseText
begin

text \<open>
  A request from the bytes that come in to the bytes that go out: parser, connection, routing, reply
  and the client's parser together.
\<close>

lemma reply_to_line: "reply_to req rt sv = Some rep \<Longrightarrow> rep_response_line rep = response_line rep \<and> rep_version rep = req_version req"
  by (auto simp: reply_to_def Let_def set_version_def reply_done_def response_line_def split: prod.splits if_splits)

text \<open>What is served for a request, once its length is known and its body is read.\<close>

definition served :: "request \<Rightarrow> (u64 \<Rightarrow> string) \<Rightarrow> http_server \<Rightarrow> request" where
  "served req body sv = read_request_body body (prepare_request sv req)"

lemma served_version: "req_version (served req body sv) = req_version req"
  by (simp add: served_def read_request_body_def prepare_request_def Let_def)

lemma version_text_clean: "dec_digit a \<Longrightarrow> dec_digit b \<Longrightarrow> clean (version_text a b)"
  by (auto simp: version_text_def dec_digit_def in_range_def char_int_def)

text \<open>What one turn of the response loop writes for a reply of the routing, read by both readers.\<close>

lemma turn_reads_back:
  assumes laws: "collects bo val mark" and digits: "dec_digit a" "dec_digit b" and version: "rep_version rep = version_text a b"
    and line: "rep_response_line rep = response_line rep" and rep: "head_ok rep" "clean_headers (rep_headers rep)" "sendable rep"
    and date: "clean (sv_date sv)" "hd (sv_date sv) \<noteq> CHR 0x20"
    and te: "rep_body_writer rep = None \<longrightarrow> map_of (rep_headers rep) ''Transfer-Encoding'' = None"
    and queue: "cn_replies c = Some rep # q"
  shows "respond_one None True sv c = (Sent, sv, c\<lparr>cn_replies := q, cn_out := cn_out c @ wire sv rep\<rparr>)"
    and "read_message (wire sv rep @ behind) = Some (status_line rep, rep_headers (sent_reply sv rep), meant_body rep, behind)"
    and "reads_head bo rpar (wire sv rep @ behind) (rep_version rep) (rep_headers (sent_reply sv rep)) (wire_body rep @ behind)"
proof -
  show "respond_one None True sv c = (Sent, sv, c\<lparr>cn_replies := q, cn_out := cn_out c @ wire sv rep\<rparr>)"
    by (simp add: respond_one_def queue start_response_wire [OF rep(3)])
  show "read_message (wire sv rep @ behind) = Some (status_line rep, rep_headers (sent_reply sv rep), meant_body rep, behind)"
    using version version_text_clean [OF digits] line te
    by (intro wire_reads_back [OF _ rep(2) date]) (auto split: option.split)
  show "reads_head bo rpar (wire sv rep @ behind) (rep_version rep) (rep_headers (sent_reply sv rep)) (wire_body rep @ behind)"
    using date(1) line by (intro wire_is_parsed [OF laws digits version rep(1)]) (auto simp: clean_def split: option.split)
qed

text \<open>C14. A well formed request, cut into blocks anywhere, is served: the parser ends exactly behind it,
  its reply is the one that the routing gives for it, and what is written is one HTTP message with
  the status line of that reply, all its headers (but for the four that the server sets itself) and
  its body, which leaves whatever follows for the next message. The response parser of the library,
  cut anywhere again, reads the version and the same headers, and ends where the body begins.\<close>

theorem request_served:
  assumes laws: "collects bo val mark" and r: "request_ok r" and blocks: "\<forall>b \<in> set blocks. b \<noteq> []" "concat blocks = text_of r @ rest"
    and plain: "\<not> expects_continue (request_of r)" "content_length (prepare_request sv (request_of r)) \<le> sv_content_length_limit sv"
    and rep: "reply_to (served (request_of r) body sv) rt (sv\<lparr>sv_requests_served := sv_requests_served sv + 1\<rparr>) = Some rep"
      "head_ok rep" "clean_headers (rep_headers rep)" "sendable rep" "clean (sv_date sv)" "hd (sv_date sv) \<noteq> CHR 0x20"
      "rep_body_writer rep = None \<longrightarrow> map_of (rep_headers rep) ''Transfer-Encoding'' = None"
    and c: "cn_replies c = []"
  shows "\<exists>behind blocks' par' sv' c1 c2 m hs.
    parse_blocks (request_parse bo False) blocks (request_parser_init bo par) = (Some (behind, blocks'), par') \<and> behind @ concat blocks' = rest \<and>
    read_one full lm (parsed_request par') body rt sv c = (sv', c1, False) \<and> cn_replies c1 = [Some rep] \<and>
    respond_one None True sv' c1 = (Sent, sv', c2) \<and> cn_replies c2 = [] \<and> cn_out c2 = cn_out c @ m \<and>
    (\<forall>more. read_message (m @ more) = Some (status_line rep, hs,
      (case rep_body_writer rep of None \<Rightarrow> rep_content rep | Some w \<Rightarrow> concat (bw_buffers w)), more)) \<and>
    (\<forall>h. h \<notin> {''Server'', ''Date'', ''Content-Length'', ''Transfer-Encoding''} \<longrightarrow> map_of hs h = map_of (rep_headers rep) h) \<and>
    (\<forall>more. reads_head bo rpar (m @ more) (req_version (request_of r)) hs
      (case rep_body_writer rep of None \<Rightarrow> rep_content rep @ more
       | Some w \<Rightarrow> concat (map chunk_put (bw_buffers w)) @ ''0'' @ crlf @ crlf @ more))"
proof -
  let ?sv = "sv\<lparr>sv_requests_served := sv_requests_served sv + 1\<rparr>"
  let ?c1 = "(push_reply full (Some rep) c)\<lparr>cn_done := should_close (served (request_of r) body sv)\<rparr>"
  obtain behind blocks' par' where parsed: "parse_blocks (request_parse bo False) blocks (request_parser_init bo par) = (Some (behind, blocks'), par')"
    "behind @ concat blocks' = rest" "rg_state par' = Ps_done" "rd_req (rg_data par') = request_of r"
    using request_is_read [OF laws r blocks, of par] by (elim exE conjE)
  have "parsed_request par' = Request (request_of r)" using parsed(3,4) by (simp add: parsed_request_def)
  then have read: "read_one full lm (parsed_request par') body rt sv c = (?sv, ?c1, False)"
    using plain rep(1) by (simp add: read_one_def read_start_def read_finish_def Let_def generate_reply_def served_def)
  have queue: "cn_replies ?c1 = Some rep # []" by (simp add: push_reply_def c)
  have version: "rep_version rep = version_text (fst (rt_version r)) (snd (rt_version r))" "rep_version rep = req_version (request_of r)"
    "rep_response_line rep = response_line rep"
    using reply_to_line [OF rep(1)] by (simp_all add: served_version request_of_def)
  have digits: "dec_digit (fst (rt_version r))" "dec_digit (snd (rt_version r))" using r by (simp_all add: request_ok_def)
  have date: "clean (sv_date ?sv)" "hd (sv_date ?sv) \<noteq> CHR 0x20" using rep(5,6) by simp_all
  note turn = turn_reads_back [OF laws digits version(1,3) rep(2-4) date rep(7) queue]
  have bodies: "meant_body rep = (case rep_body_writer rep of None \<Rightarrow> rep_content rep | Some w \<Rightarrow> concat (bw_buffers w))"
    "wire_body rep @ more = (case rep_body_writer rep of None \<Rightarrow> rep_content rep @ more
       | Some w \<Rightarrow> concat (map chunk_put (bw_buffers w)) @ ''0'' @ crlf @ crlf @ more)" for more
    by (simp_all add: meant_body_def wire_body_def split: option.split)
  let ?c2 = "?c1\<lparr>cn_replies := [], cn_out := cn_out ?c1 @ wire ?sv rep\<rparr>"
  show ?thesis
  proof (rule exI [of _ behind], rule exI [of _ blocks'], rule exI [of _ par'], rule exI [of _ ?sv], rule exI [of _ ?c1],
      rule exI [of _ ?c2], rule exI [of _ "wire ?sv rep"], rule exI [of _ "rep_headers (sent_reply ?sv rep)"], intro conjI)
    show "cn_out ?c2 = cn_out c @ wire ?sv rep" by (simp add: push_reply_def)
    show "\<forall>h. h \<notin> {''Server'', ''Date'', ''Content-Length'', ''Transfer-Encoding''} \<longrightarrow>
        map_of (rep_headers (sent_reply ?sv rep)) h = map_of (rep_headers rep) h"
      using sent_reply_headers by blast
    show "\<forall>more. read_message (wire ?sv rep @ more) = Some (status_line rep, rep_headers (sent_reply ?sv rep),
        (case rep_body_writer rep of None \<Rightarrow> rep_content rep | Some w \<Rightarrow> concat (bw_buffers w)), more)"
      using turn(2) bodies(1) by simp
    show "\<forall>more. reads_head bo rpar (wire ?sv rep @ more) (req_version (request_of r)) (rep_headers (sent_reply ?sv rep))
      (case rep_body_writer rep of None \<Rightarrow> rep_content rep @ more
       | Some w \<Rightarrow> concat (map chunk_put (bw_buffers w)) @ ''0'' @ crlf @ crlf @ more)"
      using turn(3) bodies(2) version(2) by simp
  qed (use parsed(1,2) read queue turn(1) in simp_all)
qed

definition not_found_reply :: reply where
  "not_found_reply = reply_done (set_version ''1.1'' (reply_done_as ''json'' (set_status St_not_found
     (json_base_to_json (json_exception (not_found_exception ''Not found''))) reply_new)))"

theorem request_served_witness:
  "\<exists>behind blocks' par' sv' c1 c2.
    parse_blocks (request_parse plain_builder False) [text_of sample_text] (request_parser_init plain_builder sample_parser) =
      (Some (behind, blocks'), par') \<and>
    read_one (\<lambda>q x. q) (\<lambda>a b. []) (parsed_request par') (\<lambda>n. []) (routes_empty (\<lambda>i. undefined)) sample_server sample_conn = (sv', c1, False) \<and>
    cn_replies c1 = [Some not_found_reply] \<and> respond_one None True sv' c1 = (Sent, sv', c2) \<and>
    (\<exists>m hs. cn_out c2 = m \<and> read_message m = Some (''HTTP/1.1 404 Not Found'', hs, rep_content not_found_reply, []) \<and>
      map_of hs ''Content-Type'' = Some ''application/json'' \<and> reads_head plain_builder sample_response_parser m ''1.1'' hs (rep_content not_found_reply))"
proof -
  have req: "req_headers (request_of sample_text) = [''host'' \<mapsto> ''b c d,e'']" "req_version (request_of sample_text) = ''1.1''"
    "req_url (request_of sample_text) = ''/a''" "req_method (request_of sample_text) = ''GET''"
    "req_param (request_of sample_text) = Map.empty"
    by (simp_all add: request_of_def sample_text_def join_field_def folded_def tolower_def version_text_def request_new_def char_of_def
        bit_0 fun_eq_iff)
  have blocks: "\<forall>b \<in> set [text_of sample_text]. b \<noteq> []" "concat [text_of sample_text] = text_of sample_text @ []"
    by (simp_all add: text_of_def sample_text_def)
  have none: "get_header_field (request_of sample_text) ''Expect'' = []" "get_header_field (request_of sample_text) ''Content-Length'' = []"
    by (simp_all add: get_header_field_def req(1) or_empty_def tolower_def char_of_def bit_0)
  have plain: "\<not> expects_continue (request_of sample_text)"
    by (simp add: expects_continue_def none case_insensitive_cmp_def)
  have len: "prepare_request sample_server (request_of sample_text) = request_of sample_text\<lparr>content_length := 0\<rparr>"
    by (simp add: prepare_request_def none sample_server_def strtol10_def)
  have rep: "reply_to (served (request_of sample_text) (\<lambda>n. []) sample_server) (routes_empty (\<lambda>i. undefined))
      (sample_server\<lparr>sv_requests_served := sv_requests_served sample_server + 1\<rparr>) = Some not_found_reply"
    by (simp add: reply_to_def served_def read_request_body_def len req set_query_param_def routes_handle_def get_handler_def
        routes_empty_def not_found_reply_def keeps_alive_def)
  have ok: "head_ok not_found_reply" "clean_headers (rep_headers not_found_reply)" "sendable not_found_reply" "clean (sv_date sample_server)"
      "hd (sv_date sample_server) \<noteq> CHR 0x20"
      "rep_body_writer not_found_reply = None \<longrightarrow> map_of (rep_headers not_found_reply) ''Transfer-Encoding'' = None" "cn_replies sample_conn = []"
    using json_exception_text [of "not_found_exception ''Not found''"]
    by (simp_all add: head_ok_def header_ok_def clean_headers_def not_found_reply_def reply_done_as_def reply_done_def set_version_def set_content_type_def
        set_mime_type_def add_header_def set_status_def reply_new_def json_type sendable_def sample_server_def sample_conn_def
        tchar_def upper_def dec_digit_def in_range_def char_int_def)
  have limit: "content_length (prepare_request sample_server (request_of sample_text)) \<le> sv_content_length_limit sample_server"
    by (simp add: len)
  obtain behind blocks' par' sv' c1 c2 m hs where all:
    "parse_blocks (request_parse plain_builder False) [text_of sample_text] (request_parser_init plain_builder sample_parser) =
      (Some (behind, blocks'), par')"
    "read_one (\<lambda>q x. q) (\<lambda>a b. []) (parsed_request par') (\<lambda>n. []) (routes_empty (\<lambda>i. undefined)) sample_server sample_conn = (sv', c1, False)"
    "cn_replies c1 = [Some not_found_reply]" "respond_one None True sv' c1 = (Sent, sv', c2)" "cn_out c2 = cn_out sample_conn @ m"
    "\<forall>more. read_message (m @ more) = Some (status_line not_found_reply, hs,
      (case rep_body_writer not_found_reply of None \<Rightarrow> rep_content not_found_reply | Some w \<Rightarrow> concat (bw_buffers w)), more)"
    "\<forall>h. h \<notin> {''Server'', ''Date'', ''Content-Length'', ''Transfer-Encoding''} \<longrightarrow> map_of hs h = map_of (rep_headers not_found_reply) h"
    "\<forall>more. reads_head plain_builder sample_response_parser (m @ more) (req_version (request_of sample_text)) hs
      (case rep_body_writer not_found_reply of None \<Rightarrow> rep_content not_found_reply @ more
       | Some w \<Rightarrow> concat (map chunk_put (bw_buffers w)) @ ''0'' @ crlf @ crlf @ more)"
    using request_served [OF plain_builder_collects sample_text_ok blocks plain limit rep ok, of sample_parser "\<lambda>q x. q" "\<lambda>a b. []"
        sample_response_parser] by (elim exE conjE)
  have none: "rep_body_writer not_found_reply = None" "cn_out sample_conn = []"
    and line: "status_line not_found_reply = ''HTTP/1.1 404 Not Found''"
      "map_of (rep_headers not_found_reply) ''Content-Type'' = Some ''application/json''"
    by (simp_all add: not_found_reply_def reply_done_as_def reply_done_def set_version_def set_content_type_def set_mime_type_def
        add_header_def set_status_def reply_new_def Let_def sample_conn_def json_type status_line_def response_line_def crlf_def)
  then have "reads_head plain_builder sample_response_parser m ''1.1'' hs (rep_content not_found_reply)" "cn_out c2 = m"
      "read_message m = Some (''HTTP/1.1 404 Not Found'', hs, rep_content not_found_reply, [])"
    using all(5) all(6,8) [THEN spec, of "[]"] req(2) by simp_all
  moreover have "map_of hs ''Content-Type'' = Some ''application/json''" using all(7) [THEN spec, of "''Content-Type''"] line(2) by simp
  ultimately show ?thesis using all(1-4) by blast
qed

end
