(* ===== verification/HttpReplace.thy ===== *)
theory HttpReplace
  imports HttpUrl
begin

text \<open>
  Replacing keys in a stream, \<open>http/transformers.cc\<close>: a key is the text between two pairs of braces. A
  potential match is the position of its key in the list of values, and how much of the key was
  matched.
\<close>

subsection \<open>The replacer\<close>

record buffer_replace =
  br_values :: "(string \<times> string) list"
  br_current :: "(nat \<times> nat) list"

definition replace_add :: "string \<Rightarrow> string \<Rightarrow> buffer_replace \<Rightarrow> buffer_replace" where
  "replace_add key v br = br\<lparr>br_values := br_values br @ [(''{{'' @ key @ ''}}'', v)]\<rparr>"

definition is_consuming :: "buffer_replace \<Rightarrow> bool" where
  "is_consuming br \<longleftrightarrow> br_current br \<noteq> []"

text \<open>\<open>strncmp\<close> finds no difference.\<close>

fun strncmp_eq :: "nat \<Rightarrow> string \<Rightarrow> string \<Rightarrow> bool" where
  "strncmp_eq 0 s t \<longleftrightarrow> True"
| "strncmp_eq (Suc n) [] t \<longleftrightarrow> True"
| "strncmp_eq (Suc n) (x # s) [] \<longleftrightarrow> False"
| "strncmp_eq (Suc n) (x # s) (y # t) \<longleftrightarrow> x = y \<and> (x = CHR 0x00 \<or> strncmp_eq n s t)"

fun find_braces :: "string \<Rightarrow> nat option" where
  "find_braces [] = None"
| "find_braces [c] = (if c = CHR 0x7B then Some 0 else None)"
| "find_braces (c # d # s) = (if c = CHR 0x7B \<and> d = CHR 0x7B then Some 0 else map_option Suc (find_braces (d # s)))"

definition get_remaining :: "(string \<times> string) list \<Rightarrow> (nat \<times> nat) list \<Rightarrow> string" where
  "get_remaining vals current = (case current of [] \<Rightarrow> [] | (i, b) # _ \<Rightarrow> take b (fst (vals ! i)))"

text \<open>The loop of \<open>match\<close>: the entries kept so far, and those from \<open>first\<close> on. The result: the output, the
  entries left, and the rest of the buffer.\<close>

fun replace_match :: "(string \<times> string) list \<Rightarrow> string \<Rightarrow> (nat \<times> nat) list \<Rightarrow> (nat \<times> nat) list \<Rightarrow> string \<times> (nat \<times> nat) list \<times> string" where
  "replace_match vals buf kept [] = ([], kept, [])"
| "replace_match vals buf kept ((i, b) # rest) =
     (let key = fst (vals ! i); n = min (length buf) (length key - b)
      in if \<not> strncmp_eq n (drop b key) buf then
           (if kept = [] \<and> rest = [] then (get_remaining vals [(i, b)], [], buf)
            else replace_match vals buf kept rest)
         else if b + n = length key then (snd (vals ! fst (hd (kept @ (i, b) # rest))), [], drop n buf)
         else replace_match vals buf (kept @ [(i, b + n)]) rest)"

definition replace_step :: "string \<Rightarrow> buffer_replace \<Rightarrow> string \<times> buffer_replace \<times> string" where
  "replace_step buf br =
     (if buf = [] then ([], br, [])
      else if is_consuming br then
        (let (res, current, buf') = replace_match (br_values br) buf [] (br_current br)
         in (res, br\<lparr>br_current := current\<rparr>, buf'))
      else case find_braces buf of
        Some start \<Rightarrow> (take start buf, br\<lparr>br_current := map (\<lambda>i. (i, 1)) [0..<length (br_values br)]\<rparr>, drop (start + 1) buf)
      | None \<Rightarrow> (buf, br, []))"

lemma find_braces_less: "find_braces s = Some i \<Longrightarrow> i < length s"
  by (induction s arbitrary: i rule: find_braces.induct) (auto split: if_splits)

lemma replace_match_shrinks:
  "replace_match vals buf kept es = (res, current, buf') \<Longrightarrow> buf \<noteq> [] \<Longrightarrow>
    length buf' < length buf \<or> length buf' \<le> length buf \<and> current = []"
  by (induction vals buf kept es rule: replace_match.induct) (auto simp: Let_def split: if_splits)

text \<open>\<open>put\<close> of the sink: the steps until the buffer is used up, and what they write.\<close>

function replace_put :: "string \<Rightarrow> buffer_replace \<Rightarrow> string \<times> buffer_replace" where
  "replace_put buf br =
     (if buf = [] then ([], br)
      else (let (res, br1, buf') = replace_step buf br; (out, br2) = replace_put buf' br1 in (res @ out, br2)))"
  by pat_completeness auto
termination
proof (relation "measure (\<lambda>(buf, br). 2 * length buf + (if is_consuming br then 1 else 0))", goal_cases)
  case 1
  show ?case by simp
next
  case (2 buf br x res y br1 buf')
  show ?case
  proof (cases "is_consuming br")
    case True
    obtain r c b where m: "replace_match (br_values br) buf [] (br_current br) = (r, c, b)" by (metis prod_cases3)
    then have "br1 = br\<lparr>br_current := c\<rparr>" "buf' = b" using 2 True by (auto simp: replace_step_def)
    then show ?thesis using replace_match_shrinks [OF m 2(1)] True by (auto simp: is_consuming_def)
  next
    case False
    then show ?thesis using 2 find_braces_less [of buf] by (auto simp: replace_step_def split: option.splits)
  qed
qed

declare replace_put.simps [simp del]

definition replace_close :: "buffer_replace \<Rightarrow> string" where
  "replace_close br = get_remaining (br_values br) (br_current br)"

text \<open>The sink over the buffers it is given, up to the close.\<close>

fun replace_stream :: "string list \<Rightarrow> buffer_replace \<Rightarrow> string" where
  "replace_stream [] br = replace_close br"
| "replace_stream (b # bs) br = (let (out, br') = replace_put b br in out @ replace_stream bs br')"

text \<open>\<open>content_replace::transform\<close>: whether the stream is replaced, and by which replacer.\<close>

definition content_transform :: "string \<Rightarrow> request \<Rightarrow> string \<Rightarrow> buffer_replace option" where
  "content_transform own req extension =
     (let host = get_header_field req ''Host''
      in if host = [] \<or> own \<noteq> [] \<and> extension \<noteq> own then None
         else Some (replace_add ''Host'' host (replace_add ''Protocol'' (protocol_name req) \<lparr>br_values = [], br_current = []\<rparr>)))"

end
