(* ===== verification/HttpReplaceProps.thy ===== *)
theory HttpReplaceProps
  imports HttpReplace
begin

text \<open>
  The stream replacer against its meaning: every key in the whole text is replaced by its value,
  wherever the buffers end.
\<close>

subsection \<open>The meaning\<close>

function replace_ref :: "(string \<times> string) list \<Rightarrow> string \<Rightarrow> string" where
  "replace_ref vals s =
     (if s = [] then []
      else case find (\<lambda>kv. fst kv \<noteq> [] \<and> starts_with (fst kv) s) vals of
        Some kv \<Rightarrow> snd kv @ replace_ref vals (drop (length (fst kv)) s)
      | None \<Rightarrow> hd s # replace_ref vals (tl s))"
  by pat_completeness auto
termination
  by (relation "measure (\<lambda>(vals, s). length s)") (auto simp: find_Some_iff)

declare replace_ref.simps [simp del]

definition key_ok :: "string \<Rightarrow> bool" where
  "key_ok k \<longleftrightarrow> (\<exists>name. k = ''{{'' @ name @ ''}}'' \<and> CHR 0x7B \<notin> set name \<and> CHR 0x7D \<notin> set name \<and> CHR 0x00 \<notin> set name)"

definition keys_ok :: "(string \<times> string) list \<Rightarrow> bool" where
  "keys_ok vals \<longleftrightarrow> vals \<noteq> [] \<and> (\<forall>kv \<in> set vals. key_ok (fst kv))"

definition three_braces :: "string \<Rightarrow> bool" where
  "three_braces s \<longleftrightarrow> (\<exists>u v. s = u @ ''{{{'' @ v)"

abbreviation key :: "(string \<times> string) list \<Rightarrow> nat \<Rightarrow> string" where
  "key vals i \<equiv> fst (vals ! i)"

definition extends :: "string \<Rightarrow> string \<Rightarrow> bool" where
  "extends p k \<longleftrightarrow> length p < length k \<and> take (length p) k = p"

lemma extends_iff: "extends p k \<longleftrightarrow> (\<exists>t. t \<noteq> [] \<and> k = p @ t)"
proof
  assume "extends p k"
  then have "k = p @ drop (length p) k" "drop (length p) k \<noteq> []"
    by (metis append_take_drop_id extends_def) (use \<open>extends p k\<close> in \<open>simp add: extends_def\<close>)
  then show "\<exists>t. t \<noteq> [] \<and> k = p @ t" by blast
qed (auto simp: extends_def)

lemma starts_with_drop: "starts_with k s \<Longrightarrow> s = k @ drop (length k) s"
  by (auto simp: starts_with_iff)

lemma common_start: "x @ z = y @ r \<Longrightarrow> (\<exists>t. x = y @ t) \<or> (\<exists>t. t \<noteq> [] \<and> y = x @ t)"
  unfolding append_eq_append_conv2 by (metis append_Nil2)

subsection \<open>Keys\<close>

lemma no_nul_key: "key_ok k \<Longrightarrow> CHR 0x00 \<notin> set k"
  by (auto simp: key_ok_def)

text \<open>No key goes on behind another one.\<close>

lemma key_not_extends: "key_ok k \<Longrightarrow> key_ok k' \<Longrightarrow> \<not> extends k k'"
proof
  assume k: "key_ok k" "key_ok k'" "extends k k'"
  obtain n where n: "k = ''{{'' @ n @ ''}}''" "CHR 0x7D \<notin> set n" using k(1) by (auto simp: key_ok_def)
  obtain m where m: "k' = ''{{'' @ m @ ''}}''" "CHR 0x7D \<notin> set m" using k(2) by (auto simp: key_ok_def)
  obtain t where t: "t \<noteq> []" "k' = k @ t" using k(3) by (auto simp: extends_iff)
  have "m @ ''}}'' = n @ ''}}'' @ t" using n(1) m(1) t(2) by simp
  then have "index_of CHR 0x7D (m @ ''}}'') = index_of CHR 0x7D (n @ ''}}'' @ t)" by simp
  then have "length m = length n" using n(2) m(2) by (simp add: index_of_append)
  with \<open>m @ ''}}'' = n @ ''}}'' @ t\<close> have "length t = 0" by (metis add_cancel_right_right append_assoc length_append)
  then show False using t(1) by simp
qed

lemma key_starts: "key_ok k \<Longrightarrow> starts_with k s \<Longrightarrow> \<exists>r. s = ''{{'' @ r"
  by (auto simp: key_ok_def starts_with_iff)

lemma no_key_step:
  assumes "\<And>kv. kv \<in> set vals \<Longrightarrow> \<not> starts_with (fst kv) (c # s)"
  shows "replace_ref vals (c # s) = c # replace_ref vals s"
proof -
  have "find (\<lambda>kv. fst kv \<noteq> [] \<and> starts_with (fst kv) (c # s)) vals = None"
    using assms by (auto simp: find_None_iff)
  then show ?thesis by (simp add: replace_ref.simps [of vals "c # s"])
qed

text \<open>A text in which no key begins is passed on.\<close>

lemma pass_on:
  assumes "\<And>u v kv. x = u @ v \<Longrightarrow> v \<noteq> [] \<Longrightarrow> kv \<in> set vals \<Longrightarrow> \<not> starts_with (fst kv) (v @ z)"
  shows "replace_ref vals (x @ z) = x @ replace_ref vals z"
  using assms
proof (induction x)
  case (Cons c x)
  have "\<not> starts_with (fst kv) (c # x @ z)" if "kv \<in> set vals" for kv
    using Cons.prems [of "[]" "c # x" kv] that by simp
  moreover have "replace_ref vals (x @ z) = x @ replace_ref vals z"
  proof (rule Cons.IH)
    fix u v kv assume "x = u @ v" "v \<noteq> []" "kv \<in> set vals"
    then show "\<not> starts_with (fst kv) (v @ z)" using Cons.prems [of "c # u" v kv] by simp
  qed
  ultimately show ?case using no_key_step [of vals c "x @ z"] by simp
qed simp

lemma replace_key:
  assumes "keys_ok vals" "i < length vals"
    and first: "\<And>j. j < i \<Longrightarrow> key vals j \<noteq> key vals i"
  shows "replace_ref vals (key vals i @ z) = snd (vals ! i) @ replace_ref vals z"
proof -
  have ok: "key_ok (key vals j)" if "j < length vals" for j using assms(1) that by (simp add: keys_ok_def)
  have "\<not> (fst (vals ! j) \<noteq> [] \<and> starts_with (fst (vals ! j)) (key vals i @ z))" if "j < i" for j
  proof
    assume "fst (vals ! j) \<noteq> [] \<and> starts_with (fst (vals ! j)) (key vals i @ z)"
    then obtain r where r: "key vals i @ z = key vals j @ r" by (auto simp: starts_with_iff)
    have "\<exists>t. key vals i = key vals j @ t \<or> key vals j = key vals i @ t"
      using common_start [OF r] by blast
    then obtain t where t: "key vals i = key vals j @ t \<or> key vals j = key vals i @ t" by blast
    have "j < length vals" using that assms(2) by simp
    have "t \<noteq> []" using t first [OF that] by auto
    then have "extends (key vals j) (key vals i) \<or> extends (key vals i) (key vals j)"
      using t by (auto simp: extends_def)
    then show False using key_not_extends [OF ok ok] \<open>j < length vals\<close> assms(2) by blast
  qed
  moreover have "fst (vals ! i) \<noteq> [] \<and> starts_with (fst (vals ! i)) (key vals i @ z)"
    using ok [OF assms(2)] by (auto simp: key_ok_def starts_with_iff)
  ultimately have "find (\<lambda>kv. fst kv \<noteq> [] \<and> starts_with (fst kv) (key vals i @ z)) vals = Some (vals ! i)"
    using assms(2) by (auto simp: find_Some_iff)
  moreover have "key vals i \<noteq> []" using ok [OF assms(2)] by (auto simp: key_ok_def)
  ultimately show ?thesis by (simp add: replace_ref.simps [of vals "key vals i @ z"])
qed

subsection \<open>One pass over the potential matches\<close>

lemma strncmp_eq_take:
  "n \<le> length s \<Longrightarrow> n \<le> length t \<Longrightarrow> CHR 0x00 \<notin> set s \<Longrightarrow> strncmp_eq n s t \<longleftrightarrow> take n s = take n t"
  by (induction n s t rule: strncmp_eq.induct) auto

lemma compare_entry:
  fixes buf :: string
  assumes "key_ok k" "extends p k"
  defines "n \<equiv> min (length buf) (length k - length p)"
  shows "strncmp_eq n (drop (length p) k) buf \<longleftrightarrow> starts_with k (p @ buf) \<or> extends (p @ buf) k"
    and "strncmp_eq n (drop (length p) k) buf \<Longrightarrow> length p + n = length k \<longleftrightarrow> starts_with k (p @ buf)"
proof -
  obtain t where t: "t \<noteq> []" "k = p @ t" using assms(2) by (auto simp: extends_iff)
  have c: "strncmp_eq n (drop (length p) k) buf \<longleftrightarrow> take n t = take n buf"
    using no_nul_key [OF assms(1)] t(2) by (subst strncmp_eq_take) (auto simp: n_def)
  have s: "starts_with k (p @ buf) \<longleftrightarrow> (\<exists>r. buf = t @ r)" "extends (p @ buf) k \<longleftrightarrow> (\<exists>r. r \<noteq> [] \<and> t = buf @ r)"
    by (auto simp: t(2) starts_with_iff extends_iff)
  show "strncmp_eq n (drop (length p) k) buf \<longleftrightarrow> starts_with k (p @ buf) \<or> extends (p @ buf) k"
  proof (cases "length t \<le> length buf")
    case True
    then have "n = length t" by (simp add: n_def t(2))
    then have "take n t = take n buf \<longleftrightarrow> (\<exists>r. buf = t @ r)" using True
      by (metis append_eq_conv_conj append_take_drop_id order_refl take_all)
    then show ?thesis using c s True by auto
  next
    case False
    then have "n = length buf" by (simp add: n_def t(2))
    then have "take n t = take n buf \<longleftrightarrow> (\<exists>r. r \<noteq> [] \<and> t = buf @ r)" using False
      by (metis append_eq_conv_conj append_take_drop_id append_self_conv nat_le_linear take_all)
    then show ?thesis using c s False by auto
  qed
  show "length p + n = length k \<longleftrightarrow> starts_with k (p @ buf)" if "strncmp_eq n (drop (length p) k) buf"
  proof (cases "length t \<le> length buf")
    case True
    then have "n = length t" by (simp add: n_def t(2))
    then show ?thesis using that c s(1) t(2) by (metis append_take_drop_id length_append order_refl take_all)
  next
    case False
    then have "n = length buf" by (simp add: n_def t(2))
    then show ?thesis using s(1) t(2) False by auto
  qed
qed

text \<open>The entries of the keys in \<open>is\<close> at the end of what was matched.\<close>

abbreviation entries :: "string \<Rightarrow> nat list \<Rightarrow> (nat \<times> nat) list" where
  "entries p is \<equiv> map (\<lambda>i. (i, length p)) is"

lemma match_result:
  assumes ok: "keys_ok vals"
  shows "\<forall>i \<in> set is. i < length vals \<and> extends p (key vals i) \<Longrightarrow> \<forall>i \<in> set ks. i < length vals \<and> extends (p @ buf) (key vals i) \<Longrightarrow>
    ks \<noteq> [] \<or> is \<noteq> [] \<Longrightarrow>
    replace_match vals buf (entries (p @ buf) ks) (entries p is) =
      (case find (\<lambda>i. starts_with (key vals i) (p @ buf)) is of
         Some i \<Rightarrow> (snd (vals ! i), [], drop (length (key vals i) - length p) buf)
       | None \<Rightarrow> (let left = ks @ filter (\<lambda>i. extends (p @ buf) (key vals i)) is
                  in if left = [] then (p, [], buf) else ([], entries (p @ buf) left, [])))"
proof (induction "is" arbitrary: ks)
  case Nil
  then show ?case by simp
next
  case (Cons i "is")
  let ?k = "key vals i"
  have i: "i < length vals" "extends p ?k" "key_ok ?k" using Cons.prems(1) ok by (simp_all add: keys_ok_def)
  have p: "take (length p) ?k = p" using i(2) by (simp add: extends_def)
  note cmp = compare_entry [OF i(3,2), of buf]
  have rest: "\<forall>i \<in> set is. i < length vals \<and> extends p (key vals i)" using Cons.prems(1) by simp
  consider (full) "starts_with ?k (p @ buf)" | (partial) "\<not> starts_with ?k (p @ buf)" "extends (p @ buf) ?k"
    | (none) "\<not> starts_with ?k (p @ buf)" "\<not> extends (p @ buf) ?k" by blast
  then show ?case
  proof cases
    case full
    have "ks = []"
    proof (rule ccontr)
      assume "ks \<noteq> []"
      then obtain j where j: "j \<in> set ks" by (cases ks) auto
      then have "extends (p @ buf) (key vals j)" "key_ok (key vals j)" using Cons.prems(2) ok by (simp_all add: keys_ok_def)
      then have "extends ?k (key vals j)" using full by (auto simp: extends_iff starts_with_iff)
      then show False using key_not_extends [OF i(3)] \<open>key_ok (key vals j)\<close> by blast
    qed
    moreover have "length ?k \<le> length (p @ buf)" using full by (metis length_append le_add1 starts_with_iff)
    then have "length ?k - length p \<le> length buf" by simp
    ultimately show ?thesis using full cmp by (simp add: Let_def min_def)
  next
    case partial
    have "min (length buf) (length ?k - length p) = length buf" using partial(2) by (auto simp: extends_def)
    then have eq: "replace_match vals buf (entries (p @ buf) ks) (entries p (i # is)) =
        replace_match vals buf (entries (p @ buf) (ks @ [i])) (entries p is)"
      using partial cmp by (simp add: Let_def)
    have ks: "\<forall>i \<in> set (ks @ [i]). i < length vals \<and> extends (p @ buf) (key vals i)" "ks @ [i] \<noteq> [] \<or> is \<noteq> []"
      using Cons.prems(2) i(1) partial by simp_all
    show ?thesis unfolding eq Cons.IH [OF rest ks] using partial by (simp add: Let_def split: option.split)
  next
    case none
    show ?thesis
    proof (cases "ks = [] \<and> is = []")
      case True
      then show ?thesis using none cmp p by (simp add: Let_def get_remaining_def)
    next
      case False
      then have eq: "replace_match vals buf (entries (p @ buf) ks) (entries p (i # is)) =
          replace_match vals buf (entries (p @ buf) ks) (entries p is)"
        using none cmp by (auto simp: Let_def)
      have ne: "ks \<noteq> [] \<or> is \<noteq> []" using False by blast
      show ?thesis unfolding eq Cons.IH [OF rest Cons.prems(2) ne] using none by (simp add: Let_def split: option.split)
    qed
  qed
qed

subsection \<open>Where a key can begin\<close>

lemma find_braces_before: "find_braces s = Some n \<Longrightarrow> i < n \<Longrightarrow> s ! i = CHR 0x7B \<Longrightarrow> s ! Suc i \<noteq> CHR 0x7B"
proof (induction s arbitrary: n i rule: find_braces.induct)
  case (3 c d s)
  then show ?case by (cases i) (auto split: if_splits)
qed (auto split: if_splits)

lemma find_braces_none: "find_braces s = None \<Longrightarrow> i < length s \<Longrightarrow> s ! i = CHR 0x7B \<Longrightarrow> Suc i < length s \<and> s ! Suc i \<noteq> CHR 0x7B"
proof (induction s arbitrary: i rule: find_braces.induct)
  case (3 c d s)
  then show ?case by (cases i) (auto split: if_splits)
qed (auto split: if_splits)

lemma find_braces_here: "find_braces s = Some n \<Longrightarrow> n < length s \<and> s ! n = CHR 0x7B"
  by (induction s arbitrary: n rule: find_braces.induct) (auto split: if_splits)

text \<open>Behind its first character, the beginning of a key holds no further beginning, but for a third brace.\<close>

lemma inside_key:
  assumes "key_ok k" "extends (u @ v) k" "u \<noteq> []" "v \<noteq> []" "key_ok k'" "starts_with k' (v @ w)"
  shows "u = ''{'' \<and> v = ''{'' \<and> (\<exists>r. w = CHR 0x7B # r)"
proof -
  obtain r where r: "v @ w = ''{{'' @ r" using key_starts [OF assms(5,6)] by blast
  obtain name t where k: "''{{'' @ name @ ''}}'' = u @ v @ t" "CHR 0x7B \<notin> set name"
    using assms(1,2) by (auto simp: key_ok_def extends_iff)
  obtain c u' where u: "u = c # u'" using assms(3) by (cases u) auto
  obtain v' where v: "v = CHR 0x7B # v'" using r assms(4) by (cases v) auto
  have e: "CHR 0x7B # name @ ''}}'' = u' @ CHR 0x7B # v' @ t" "c = CHR 0x7B" using k(1) u v by auto
  show ?thesis
  proof (cases u')
    case Nil
    then have "name @ ''}}'' = v' @ t" using e by simp
    moreover have "v' = []"
    proof (rule ccontr)
      assume "v' \<noteq> []"
      then obtain x where "v' = CHR 0x7B # x" using r v by (cases v') auto
      then have "CHR 0x7B \<in> set (name @ ''}}'')" using \<open>name @ ''}}'' = v' @ t\<close> by simp
      then show False using k(2) by simp
    qed
    ultimately show ?thesis using Nil u v e r by simp
  next
    case (Cons y ys)
    then have "CHR 0x7B \<in> set (name @ ''}}'')" using e by simp
    then show ?thesis using k(2) by simp
  qed
qed

text \<open>What was matched and leads to no key is passed on.\<close>

lemma matched_passed_on:
  assumes ok: "keys_ok vals" and i: "i < length vals" "extends p (key vals i)"
    and none: "\<And>j. j < length vals \<Longrightarrow> \<not> starts_with (key vals j) (p @ z)"
    and tb: "\<not> three_braces (p @ z)"
  shows "replace_ref vals (p @ z) = p @ replace_ref vals z"
proof (rule pass_on)
  fix u v kv assume uv: "p = u @ v" "v \<noteq> []" "kv \<in> set vals"
  have kv: "key_ok (fst kv)" "key_ok (key vals i)" using ok uv(3) i(1) by (auto simp: keys_ok_def)
  show "\<not> starts_with (fst kv) (v @ z)"
  proof (cases "u = []")
    case True
    obtain j where "j < length vals" "kv = vals ! j" using uv(3) by (auto simp: in_set_conv_nth)
    then show ?thesis using none [of j] True uv(1) by simp
  next
    case False
    show ?thesis
    proof
      assume "starts_with (fst kv) (v @ z)"
      then obtain r where "u = ''{''" "v = ''{''" "z = CHR 0x7B # r"
        using inside_key [OF kv(2) _ False uv(2) kv(1)] i(2) uv(1) by blast
      then have "p @ z = [] @ ''{{{'' @ r" using uv(1) by simp
      then show False using tb by (auto simp: three_braces_def)
    qed
  qed
qed

lemma pass_on_at:
  assumes ok: "keys_ok vals"
    and no: "\<And>i. i < length x \<Longrightarrow> x ! i = CHR 0x7B \<Longrightarrow> (x @ z) ! Suc i \<noteq> CHR 0x7B"
  shows "replace_ref vals (x @ z) = x @ replace_ref vals z"
proof (rule pass_on)
  fix u v kv assume uv: "x = u @ v" "v \<noteq> []" "kv \<in> set vals"
  have "key_ok (fst kv)" using ok uv(3) by (simp add: keys_ok_def)
  show "\<not> starts_with (fst kv) (v @ z)"
  proof
    assume "starts_with (fst kv) (v @ z)"
    then obtain r where r: "v @ z = ''{{'' @ r" using key_starts [OF \<open>key_ok (fst kv)\<close>] by blast
    then have "hd v = CHR 0x7B" using uv(2) by (cases v) auto
    then have "x ! length u = CHR 0x7B" "length u < length x" using uv by (auto simp: nth_append hd_conv_nth)
    moreover have "(x @ z) ! Suc (length u) = CHR 0x7B" using r uv(1) by (simp add: nth_append)
    ultimately show False using no by blast
  qed
qed

subsection \<open>The stream\<close>

text \<open>The state of a replacer that has read \<open>p\<close> of what may be a key.\<close>

definition matched :: "(string \<times> string) list \<Rightarrow> string \<Rightarrow> buffer_replace \<Rightarrow> bool" where
  "matched vals p br \<longleftrightarrow> br_values br = vals
     \<and> br_current br = (if p = [] then [] else entries p (filter (\<lambda>i. extends p (key vals i)) [0..<length vals]))
     \<and> (p \<noteq> [] \<longrightarrow> br_current br \<noteq> [])"

lemma matched_extends:
  assumes "matched vals p br" "p \<noteq> []"
  shows "\<exists>i < length vals. extends p (key vals i)"
proof -
  have "filter (\<lambda>i. extends p (key vals i)) [0..<length vals] \<noteq> []" using assms by (auto simp: matched_def)
  then show ?thesis unfolding filter_empty_conv by auto
qed

text \<open>Behind what was matched no key begins when none of the potential matches goes on.\<close>

lemma no_key_at_all:
  assumes ok: "keys_ok vals" and i: "i < length vals" "extends p (key vals i)"
    and ns: "\<And>j. j < length vals \<Longrightarrow> extends p (key vals j) \<Longrightarrow> \<not> starts_with (key vals j) (p @ buf)"
    and j: "j < length vals" and left: "\<not> extends (p @ buf) (key vals j)"
  shows "\<not> starts_with (key vals j) (p @ buf @ z)"
proof
  assume s: "starts_with (key vals j) (p @ buf @ z)"
  have "key_ok (key vals i)" "key_ok (key vals j)" using ok i(1) j by (simp_all add: keys_ok_def)
  have "extends p (key vals j)"
  proof (rule ccontr)
    assume "\<not> extends p (key vals j)"
    moreover obtain r where "p @ buf @ z = key vals j @ r" using s by (auto simp: starts_with_iff)
    ultimately obtain t where "p = key vals j @ t" using common_start [of p "buf @ z" "key vals j" r] by (auto simp: extends_iff)
    then have "extends (key vals j) (key vals i)" using i(2) by (auto simp: extends_iff)
    then show False using key_not_extends \<open>key_ok (key vals i)\<close> \<open>key_ok (key vals j)\<close> by blast
  qed
  then have "\<not> starts_with (key vals j) (p @ buf)" using ns j by blast
  moreover obtain r where "(p @ buf) @ z = key vals j @ r" using s by (auto simp: starts_with_iff)
  ultimately show False using left common_start [of "p @ buf" z "key vals j" r] by (auto simp: starts_with_iff extends_iff)
qed

text \<open>What a step writes, and what it leaves to be read, mean what was there before.\<close>

definition step_means :: "(string \<times> string) list \<Rightarrow> string \<Rightarrow> string \<times> buffer_replace \<times> string \<Rightarrow> bool" where
  "step_means vals s r \<longleftrightarrow> (case r of (out, br, buf) \<Rightarrow> \<exists>p. matched vals p br \<and> (\<exists>u. s = u @ p @ buf)
     \<and> (\<forall>z. \<not> three_braces (s @ z) \<longrightarrow> replace_ref vals (s @ z) = out @ replace_ref vals (p @ buf @ z)))"

lemma step_meansI:
  "matched vals p br \<Longrightarrow> s = u @ p @ buf \<Longrightarrow>
    (\<And>z. \<not> three_braces (s @ z) \<Longrightarrow> replace_ref vals (s @ z) = out @ replace_ref vals (p @ buf @ z)) \<Longrightarrow>
    step_means vals s (out, br, buf)"
  unfolding step_means_def by blast

lemma step_meansE:
  assumes "step_means vals s (out, br, buf)"
  obtains p u where "matched vals p br" "s = u @ p @ buf"
    "\<And>z. \<not> three_braces (s @ z) \<Longrightarrow> replace_ref vals (s @ z) = out @ replace_ref vals (p @ buf @ z)"
  using assms unfolding step_means_def by blast

lemma step_searching:
  assumes ok: "keys_ok vals" and m: "matched vals [] br" and b: "buf \<noteq> []"
  shows "step_means vals buf (replace_step buf br)"
proof -
  have cur: "br_values br = vals" "br_current br = []" using m by (simp_all add: matched_def)
  show ?thesis
  proof (cases "find_braces buf")
    case None
    then have st: "replace_step buf br = (buf, br, [])" using b cur by (simp add: replace_step_def is_consuming_def)
    show ?thesis unfolding st
    proof (rule step_meansI [OF m])
      show "buf = buf @ [] @ []" by simp
      show "replace_ref vals (buf @ z) = buf @ replace_ref vals ([] @ [] @ z)" for z
        using pass_on_at [OF ok, of buf z] find_braces_none [OF None] by (simp add: nth_append)
    qed
  next
    case (Some n)
    let ?br = "br\<lparr>br_current := entries ''{'' [0..<length vals]\<rparr>"
    have n: "n < length buf" "buf ! n = CHR 0x7B" using find_braces_here [OF Some] by simp_all
    have st: "replace_step buf br = (take n buf, ?br, drop (n + 1) buf)"
      using b cur Some by (simp add: replace_step_def is_consuming_def)
    have "extends ''{'' (key vals i)" if "i < length vals" for i
      using ok nth_mem [OF that] by (auto simp: keys_ok_def key_ok_def extends_def)
    then have "filter (\<lambda>i. extends ''{'' (key vals i)) [0..<length vals] = [0..<length vals]" by (intro filter_True) simp
    then have m1: "matched vals ''{'' ?br" using cur(1) ok by (simp add: matched_def keys_ok_def)
    have e: "buf = take n buf @ ''{'' @ drop (n + 1) buf" using id_take_nth_drop [OF n(1)] n(2) by simp
    have before: "replace_ref vals (take n buf @ w) = take n buf @ replace_ref vals w" if "w = ''{'' @ drop (n + 1) buf @ z" for w z
    proof (rule pass_on_at [OF ok])
      fix i assume i: "i < length (take n buf)" "take n buf ! i = CHR 0x7B"
      then have "buf ! Suc i \<noteq> CHR 0x7B" using find_braces_before [OF Some, of i] by simp
      moreover have "take n buf @ w = buf @ z" using e that by (metis append_assoc)
      moreover have "Suc i < length buf" using i(1) n(1) by simp
      ultimately show "(take n buf @ w) ! Suc i \<noteq> CHR 0x7B" by (simp add: nth_append)
    qed
    show ?thesis unfolding st
    proof (rule step_meansI [OF m1 e])
      fix z
      have ez: "buf @ z = take n buf @ ''{'' @ drop (n + 1) buf @ z" using e by (metis append_assoc)
      show "replace_ref vals (buf @ z) = take n buf @ replace_ref vals (''{'' @ drop (n + 1) buf @ z)"
        unfolding ez by (rule before [OF refl])
    qed
  qed
qed

lemma find_first:
  "find P xs = Some x \<Longrightarrow> \<exists>ys zs. xs = ys @ x # zs \<and> P x \<and> (\<forall>y \<in> set ys. \<not> P y)"
proof (induction xs)
  case (Cons a xs)
  show ?case
  proof (cases "P a")
    case True
    then have "a # xs = [] @ x # xs" "P x" using Cons.prems by simp_all
    then show ?thesis by (metis empty_iff list.set(1))
  next
    case False
    then obtain ys zs where "xs = ys @ x # zs" "P x" "\<forall>y \<in> set ys. \<not> P y" using Cons by auto
    then have "a # xs = (a # ys) @ x # zs" "\<forall>y \<in> set (a # ys). \<not> P y" using False by simp_all
    then show ?thesis using \<open>P x\<close> by blast
  qed
qed simp

text \<open>The first of the potential matches is the first of its key.\<close>

lemma first_of_its_key:
  assumes "find (\<lambda>i. P (key vals i)) (filter (\<lambda>i. Q (key vals i)) [0..<n]) = Some i" "j < i"
  shows "key vals j \<noteq> key vals i"
proof
  let ?xs = "filter (\<lambda>i. Q (key vals i)) [0..<n]"
  assume same: "key vals j = key vals i"
  obtain ys zs where s: "?xs = ys @ i # zs" "P (key vals i)" "\<forall>y \<in> set ys. \<not> P (key vals y)"
    using find_first [OF assms(1)] by blast
  have "i \<in> set ?xs" using s(1) by simp
  then have "j \<in> set ?xs" using assms(2) same by simp
  moreover have "sorted_wrt (<) ?xs" by (simp add: sorted_wrt_filter)
  ultimately have "j \<in> set ys" using s(1) assms(2) by (auto simp: sorted_wrt_append)
  then have "\<not> P (key vals j)" using s(3) by blast
  then show False using s(2) same by simp
qed

lemma step_matching:
  assumes ok: "keys_ok vals" and m: "matched vals p br" "p \<noteq> []" and b: "buf \<noteq> []"
  shows "step_means vals (p @ buf) (replace_step buf br)"
proof -
  let ?is = "filter (\<lambda>i. extends p (key vals i)) [0..<length vals]"
  let ?left = "filter (\<lambda>i. extends (p @ buf) (key vals i)) [0..<length vals]"
  have cur: "br_values br = vals" "br_current br = entries p ?is" "?is \<noteq> []" using m by (auto simp: matched_def)
  obtain i where i: "i < length vals" "extends p (key vals i)" using matched_extends [OF m] by blast
  have sub: "extends (p @ buf) k \<Longrightarrow> extends p k" for k by (auto simp: extends_iff)
  have lf: "filter (\<lambda>i. extends (p @ buf) (key vals i)) ?is = ?left" by (auto intro: filter_cong dest: sub)
  note res = match_result [OF ok, of "?is" p "[]" buf, simplified append_Nil list.map lf]
  have st: "replace_step buf br = (let (res, current, buf') = replace_match vals buf [] (entries p ?is) in (res, br\<lparr>br_current := current\<rparr>, buf'))"
    using b cur by (simp add: replace_step_def is_consuming_def)
  have none: "matched vals [] (br\<lparr>br_current := []\<rparr>)" using cur by (simp add: matched_def)
  show ?thesis
  proof (cases "find (\<lambda>i. starts_with (key vals i) (p @ buf)) ?is")
    case (Some i)
    let ?k = "key vals i"
    have k: "i < length vals" "starts_with ?k (p @ buf)" "extends p ?k" using Some by (auto simp: find_Some_iff dest: nth_mem)
    have r: "replace_step buf br = (snd (vals ! i), br\<lparr>br_current := []\<rparr>, drop (length ?k - length p) buf)"
      using st res Some cur(3) by simp
    have e: "p @ buf = ?k @ drop (length ?k - length p) buf"
      using starts_with_drop [OF k(2)] k(3) by (simp add: extends_def)
    show ?thesis unfolding r
    proof (rule step_meansI [OF none])
      show "p @ buf = ?k @ [] @ drop (length ?k - length p) buf" using e by simp
      show "replace_ref vals ((p @ buf) @ z) = snd (vals ! i) @ replace_ref vals ([] @ drop (length ?k - length p) buf @ z)" for z
        using replace_key [OF ok k(1) first_of_its_key [OF Some]] by (subst e) simp
    qed
  next
    case None
    have ns: "\<not> starts_with (key vals j) (p @ buf)" if "j < length vals" "extends p (key vals j)" for j
      using None that by (auto simp: find_None_iff)
    show ?thesis
    proof (cases "?left = []")
      case True
      have r: "replace_step buf br = (p, br\<lparr>br_current := []\<rparr>, buf)" using st res None cur(3) True by simp
      have "\<not> starts_with (key vals j) (p @ buf @ z)" if "j < length vals" for j z
        using no_key_at_all [OF ok i ns that] True that by (simp add: filter_empty_conv)
      then show ?thesis unfolding r
        using matched_passed_on [OF ok i, of "buf @ z" for z] by (intro step_meansI [OF none, where u = p]) simp_all
    next
      case False
      have r: "replace_step buf br = ([], br\<lparr>br_current := entries (p @ buf) ?left\<rparr>, [])" using st res None cur(3) False by simp
      show ?thesis unfolding r
        by (rule step_meansI [where p = "p @ buf" and u = "[]"]) (use False cur(1) m(2) in \<open>simp_all add: matched_def\<close>)
    qed
  qed
qed

text \<open>All of a buffer, and all buffers.\<close>

lemma step_means_then:
  assumes "step_means vals s (out, br, buf)" and "\<And>p. matched vals p br \<Longrightarrow> step_means vals (p @ buf) (out', br', buf')"
  shows "step_means vals s (out @ out', br', buf')"
proof -
  obtain p u where p: "matched vals p br" "s = u @ p @ buf"
    and z: "\<And>z. \<not> three_braces (s @ z) \<Longrightarrow> replace_ref vals (s @ z) = out @ replace_ref vals (p @ buf @ z)"
    by (rule step_meansE [OF assms(1)]) (rule that)
  obtain q w where q: "matched vals q br'" "p @ buf = w @ q @ buf'"
    and y: "\<And>z. \<not> three_braces ((p @ buf) @ z) \<Longrightarrow> replace_ref vals ((p @ buf) @ z) = out' @ replace_ref vals (q @ buf' @ z)"
    by (rule step_meansE [OF assms(2) [OF p(1)]]) (rule that)
  show ?thesis
  proof (rule step_meansI [OF q(1), where u = "u @ w"])
    show "s = (u @ w) @ q @ buf'" using p(2) q(2) by simp
    fix r assume n: "\<not> three_braces (s @ r)"
    have "s @ r = u @ (p @ buf) @ r" using p(2) by simp
    then have "\<not> three_braces ((p @ buf) @ r)" using n by (metis append_assoc three_braces_def)
    then show "replace_ref vals (s @ r) = (out @ out') @ replace_ref vals (q @ buf' @ r)" using z [OF n] y by simp
  qed
qed

lemma step_replace:
  assumes "keys_ok vals" "matched vals p br" "buf \<noteq> []"
  shows "step_means vals (p @ buf) (replace_step buf br)"
  using step_searching [OF assms(1) _ assms(3)] step_matching [OF assms(1,2) _ assms(3)] assms(2) by (cases "p = []") auto

lemma put_means:
  assumes ok: "keys_ok vals"
  shows "matched vals p br \<Longrightarrow> replace_put buf br = (out, br') \<Longrightarrow> step_means vals (p @ buf) (out, br', [])"
proof (induction buf br arbitrary: p out br' rule: replace_put.induct)
  case (1 buf br)
  show ?case
  proof (cases "buf = []")
    case True
    then show ?thesis using 1(2,3) by (intro step_meansI [of vals p _ _ "[]"]) (auto simp: replace_put.simps)
  next
    case False
    obtain res b1 buf' where st: "replace_step buf br = (res, b1, buf')" by (metis prod_cases3)
    obtain o1 b2 where pt: "replace_put buf' b1 = (o1, b2)" by (metis surj_pair)
    have "out = res @ o1" "br' = b2" using 1(3) False st pt by (simp_all add: replace_put.simps [of buf br])
    moreover have "step_means vals (p @ buf) (res, b1, buf')" using step_replace [OF ok 1(2) False] st by simp
    moreover have "step_means vals (q @ buf') (o1, b2, [])" if "matched vals q b1" for q
      by (rule 1(1) [OF False st [symmetric] refl refl that pt])
    ultimately show ?thesis using step_means_then [of vals "p @ buf" res b1 buf' o1 b2 "[]"] by simp
  qed
qed

lemma close_means:
  assumes ok: "keys_ok vals" and m: "matched vals p br" and t: "\<not> three_braces p"
  shows "replace_close br = replace_ref vals p"
proof (cases "p = []")
  case True
  then show ?thesis using m by (simp add: matched_def replace_close_def get_remaining_def replace_ref.simps)
next
  case False
  let ?is = "filter (\<lambda>i. extends p (key vals i)) [0..<length vals]"
  have c: "br_values br = vals" "br_current br = entries p ?is" "?is \<noteq> []" using m False by (auto simp: matched_def)
  obtain i rest where i: "?is = i # rest" using c(3) by (cases ?is) auto
  then have "i \<in> set ?is" by simp
  then have e: "i < length vals" "extends p (key vals i)" by simp_all
  have "\<not> starts_with (key vals j) (p @ [])" if "j < length vals" for j
  proof
    assume "starts_with (key vals j) (p @ [])"
    then have "extends (key vals j) (key vals i)" using e(2) by (auto simp: starts_with_iff extends_iff)
    then show False using key_not_extends ok e(1) that by (simp add: keys_ok_def)
  qed
  then have "replace_ref vals (p @ []) = p @ replace_ref vals []" using matched_passed_on [OF ok e, of "[]"] t by simp
  moreover have "replace_close br = p" using c(1,2) i e(2) by (simp add: replace_close_def get_remaining_def extends_def)
  ultimately show ?thesis by (simp add: replace_ref.simps [of vals "[]"])
qed

lemma stream_means:
  assumes ok: "keys_ok vals"
  shows "matched vals p br \<Longrightarrow> \<not> three_braces (p @ concat bufs) \<Longrightarrow> replace_stream bufs br = replace_ref vals (p @ concat bufs)"
proof (induction bufs arbitrary: p br)
  case Nil
  then show ?case using close_means [OF ok] by simp
next
  case (Cons b bs)
  obtain out br' where pt: "replace_put b br = (out, br')" by (metis surj_pair)
  obtain q u where q: "matched vals q br'" "p @ b = u @ q"
    and z: "replace_ref vals ((p @ b) @ concat bs) = out @ replace_ref vals (q @ concat bs)"
  proof (rule step_meansE [OF put_means [OF ok Cons.prems(1) pt]])
    fix q u assume a: "matched vals q br'" "p @ b = u @ q @ []"
      and z: "\<And>z. \<not> three_braces ((p @ b) @ z) \<Longrightarrow> replace_ref vals ((p @ b) @ z) = out @ replace_ref vals (q @ [] @ z)"
    have "\<not> three_braces ((p @ b) @ concat bs)" using Cons.prems(2) by simp
    then show thesis using that [OF a(1)] a(2) z [of "concat bs"] by simp
  qed
  have "p @ concat (b # bs) = u @ (q @ concat bs)" using q(2) by (metis append_assoc concat.simps(2))
  then have "\<not> three_braces (q @ concat bs)" using Cons.prems(2) by (metis append_assoc three_braces_def)
  then show ?case using Cons.IH [OF q(1)] pt z by simp
qed

text \<open>C37. For keys in two pairs of braces and a text without three braces in a row, the replacer writes the
  text with every key replaced by its value, whatever the buffers the text comes in.\<close>

theorem replace_ignores_blocks:
  assumes "keys_ok vals" "\<not> three_braces (concat bufs)"
  shows "replace_stream bufs \<lparr>br_values = vals, br_current = []\<rparr> = replace_ref vals (concat bufs)"
proof -
  have "matched vals [] \<lparr>br_values = vals, br_current = []\<rparr>" by (simp add: matched_def)
  from stream_means [OF assms(1) this, of bufs] assms(2) show ?thesis by (simp only: append_Nil not_False_eq_True)
qed

lemma key_okI: "CHR 0x7B \<notin> set n \<Longrightarrow> CHR 0x7D \<notin> set n \<Longrightarrow> CHR 0x00 \<notin> set n \<Longrightarrow> key_ok (''{{'' @ n @ ''}}'')"
  by (auto simp: key_ok_def)

lemma three_braces_Cons: "three_braces (c # s) \<longleftrightarrow> starts_with ''{{{'' (c # s) \<or> three_braces s"
proof
  assume "three_braces (c # s)"
  then obtain u v where uv: "c # s = u @ ''{{{'' @ v" unfolding three_braces_def by blast
  show "starts_with ''{{{'' (c # s) \<or> three_braces s"
  proof (cases u)
    case Nil
    then show ?thesis using uv by (simp add: starts_with_iff)
  next
    case (Cons x xs)
    then have "s = xs @ ''{{{'' @ v" using uv by simp
    then show ?thesis unfolding three_braces_def by blast
  qed
next
  assume "starts_with ''{{{'' (c # s) \<or> three_braces s"
  then consider r where "c # s = [] @ ''{{{'' @ r" | u v where "c # s = (c # u) @ ''{{{'' @ v"
    unfolding three_braces_def starts_with_iff by fastforce
  then show "three_braces (c # s)" unfolding three_braces_def by (metis (no_types))
qed

lemma three_braces_Nil: "\<not> three_braces []"
  by (simp add: three_braces_def)

theorem replace_ignores_blocks_witness:
  "replace_stream [''GET {'', ''{Ho'', ''st}} {{x}''] \<lparr>br_values = [(''{{Protocol}}'', ''http''), (''{{Host}}'', ''a.b'')], br_current = []\<rparr>
     = replace_ref [(''{{Protocol}}'', ''http''), (''{{Host}}'', ''a.b'')] ''GET {{Host}} {{x}''"
proof -
  have "keys_ok [(''{{Protocol}}'', ''http''), (''{{Host}}'', ''a.b'')]"
    using key_okI [of "''Protocol''"] key_okI [of "''Host''"] by (simp add: keys_ok_def)
  moreover have "\<not> three_braces (concat [''GET {'', ''{Ho'', ''st}} {{x}''])"
    by (simp add: three_braces_Cons three_braces_Nil starts_with_iff)
  ultimately show ?thesis using replace_ignores_blocks [of _ "[''GET {'', ''{Ho'', ''st}} {{x}'']"] by simp
qed

lemma put_Nil: "replace_put [] br = ([], br)"
  by (simp add: replace_put.simps)

lemma put_step: "buf \<noteq> [] \<Longrightarrow> replace_step buf br = (r, b1, buf') \<Longrightarrow>
    replace_put buf br = (let (out, b2) = replace_put buf' b1 in (r @ out, b2))"
  by (simp add: replace_put.simps [of buf br])

text \<open>With three braces in a row the boundary matters: whole, the brace is passed on and the key behind it
  replaced; with the third brace in the next buffer, nothing is replaced.\<close>

theorem three_braces_depend_on_blocks:
  "replace_stream [''{{{Host}}''] \<lparr>br_values = [(''{{Host}}'', ''a.b'')], br_current = []\<rparr> = ''{a.b''
   \<and> replace_stream [''{{'', ''{Host}}''] \<lparr>br_values = [(''{{Host}}'', ''a.b'')], br_current = []\<rparr> = ''{{{Host}}''"
  by (simp add: put_step put_Nil replace_step_def is_consuming_def Let_def replace_close_def get_remaining_def upt_rec)

end
