(* ===== verification/HttpFiles.thy ===== *)
theory HttpFiles
  imports HttpRoutes HttpReplace
begin

text \<open>
  Serving files, \<open>http/file_handler.hh\<close> and \<open>http/file_handler.cc\<close>: handlers that answer with a file or with
  a file of a directory, through a transformer, or with a redirection.

  The file system is a parameter: what a path is, and the blocks that are read from the file, if it can
  be opened. The blocks are read when the reply is written; here they are part of the body writer.
\<close>

datatype directory_entry_type = Regular_file | Directory | Other_entry

record file_system =
  fs_type :: "string \<Rightarrow> directory_entry_type option"
  fs_blocks :: "string \<Rightarrow> string list option"

text \<open>A transformer: from the request, the extension and the blocks to what is written.\<close>

type_synonym file_transformer = "request \<Rightarrow> string \<Rightarrow> string list \<Rightarrow> string list"

text \<open>\<open>content_replace\<close> as a transformer. Text it writes at once is one block here.\<close>

definition content_replace :: "string \<Rightarrow> file_transformer" where
  "content_replace own req extension blocks =
     (case content_transform own req extension of None \<Rightarrow> blocks | Some br \<Rightarrow> [replace_stream blocks br])"

text \<open>A position that is not there is the greatest number.\<close>

definition get_extension :: "string \<Rightarrow> string" where
  "get_extension file =
     (case find_last_of CHR ''.'' file of
        None \<Rightarrow> []
      | Some dot \<Rightarrow> (case find_last_of CHR ''/'' file of
          None \<Rightarrow> []
        | Some slash \<Rightarrow> if dot > slash then drop (dot + 1) file else []))"

definition get_stream :: "file_transformer option \<Rightarrow> request \<Rightarrow> string \<Rightarrow> string list \<Rightarrow> string list" where
  "get_stream tr req extension blocks = (case tr of Some f \<Rightarrow> f req extension blocks | None \<Rightarrow> blocks)"

definition file_read :: "file_system \<Rightarrow> file_transformer option \<Rightarrow> string \<Rightarrow> request \<Rightarrow> reply \<Rightarrow> reply" where
  "file_read fs tr file_name req rep =
     (let extension = get_extension file_name
      in write_body_with extension
           (case fs_blocks fs file_name of
              Some blocks \<Rightarrow> \<lparr>bw_buffers = get_stream tr req extension blocks, bw_fails = False\<rparr>
            | None \<Rightarrow> \<lparr>bw_buffers = [], bw_fails = True\<rparr>) rep)"

definition redirect_if_needed :: "request \<Rightarrow> reply \<Rightarrow> bool \<times> reply" where
  "redirect_if_needed req rep =
     (if req_url req = [] \<or> last (req_url req) \<noteq> CHR ''/'' then
        (True, reply_done (add_header ''Location'' (get_url req @ ''/'') (set_status St_moved_permanently [] rep)))
      else (False, rep))"

definition file_handler :: "file_system \<Rightarrow> string \<Rightarrow> file_transformer option \<Rightarrow> bool \<Rightarrow> route_handler" where
  "file_handler fs file tr force_path =
     \<lparr>hd_mandatory = [],
      hd_handle = (\<lambda>path req rep.
        let (redirected, rep1) = (if force_path then redirect_if_needed req rep else (False, rep))
        in Replies (if redirected then rep1 else file_read fs tr file req rep1))\<rparr>"

text \<open>\<open>parameters\<close>: looking a parameter up may throw, and so may dropping its first character.\<close>

definition param_path :: "string_map \<Rightarrow> string \<Rightarrow> http_exn + string" where
  "param_path m key = (case m key of Some v \<Rightarrow> Inr v | None \<Rightarrow> Inl (Other_exception ''_Map_base::at''))"

definition param_get :: "string_map \<Rightarrow> string \<Rightarrow> http_exn + string" where
  "param_get m key =
     (case param_path m key of
        Inl e \<Rightarrow> Inl e
      | Inr v \<Rightarrow> (case substr_from v 1 of Some s \<Rightarrow> Inr s | None \<Rightarrow> Inl (Other_exception ''sstring::substr out of range'')))"

definition directory_handler :: "file_system \<Rightarrow> string \<Rightarrow> file_transformer option \<Rightarrow> route_handler" where
  "directory_handler fs doc_root tr =
     \<lparr>hd_mandatory = [],
      hd_handle = (\<lambda>path req rep.
        case param_get (req_param req) ''path'' of
          Inl e \<Rightarrow> Thrown e
        | Inr p \<Rightarrow>
            (let full_path = doc_root @ p
             in (case fs_type fs full_path of
                   None \<Rightarrow> Replies (reply_done (set_status St_not_found [] rep))
                 | Some Directory \<Rightarrow>
                     (let (redirected, rep1) = redirect_if_needed req rep
                      in Replies (if redirected then rep1 else file_read fs tr (full_path @ ''/index.html'') req rep1))
                 | Some _ \<Rightarrow> Replies (file_read fs tr full_path req rep))))\<rparr>"

end
