(* ===== verification/HttpFilesProps.thy ===== *)
theory HttpFilesProps
  imports HttpFiles HttpRoutesProps
begin

text \<open>
  Which file a request gets, under which type, and when it is sent somewhere else.
\<close>

subsection \<open>Extensions\<close>

lemma find_last_of_here: "c \<notin> set t \<Longrightarrow> find_last_of c (s @ c # t) = Some (length s)"
  by (simp add: find_last_of_def index_of_append)

lemma find_last_of_before: "c \<notin> set t \<Longrightarrow> find_last_of c (s @ t) = find_last_of c s"
proof -
  assume "c \<notin> set t"
  then have "index_of c (rev (s @ t)) = map_option (\<lambda>i. length t + i) (index_of c (rev s))" by (simp add: index_of_append)
  then show "find_last_of c (s @ t) = find_last_of c s" by (cases "index_of c (rev s)") (simp_all add: find_last_of_def)
qed

lemma extension_there:
  assumes "CHR ''/'' \<notin> set name" "CHR ''/'' \<notin> set ext" "CHR ''.'' \<notin> set ext"
  shows "get_extension (dir @ ''/'' @ name @ ''.'' @ ext) = ext"
proof -
  have "find_last_of CHR ''.'' ((dir @ ''/'' @ name) @ CHR ''.'' # ext) = Some (length (dir @ ''/'' @ name))"
    by (rule find_last_of_here [OF assms(3)])
  moreover have "find_last_of CHR ''/'' (dir @ CHR ''/'' # (name @ ''.'' @ ext)) = Some (length dir)"
    by (rule find_last_of_here) (use assms(1,2) in simp)
  ultimately show ?thesis by (simp add: get_extension_def)
qed

lemma extension_none:
  assumes "CHR ''/'' \<notin> set name" "CHR ''.'' \<notin> set name"
  shows "get_extension (dir @ ''/'' @ name) = []"
proof -
  have "find_last_of CHR ''/'' (dir @ CHR ''/'' # name) = Some (length dir)" by (rule find_last_of_here [OF assms(1)])
  moreover have "find_last_of CHR ''.'' (dir @ ''/'' @ name) = find_last_of CHR ''.'' dir"
    using find_last_of_before [of "CHR ''.''" "''/'' @ name" dir] assms(2) by simp
  moreover have "find_last_of CHR ''.'' dir = Some k \<Longrightarrow> k < length dir \<or> dir = []" for k
    by (auto simp: find_last_of_def dest: index_of_SomeD)
  moreover have "find_last_of CHR ''.'' [] = None" by (simp add: find_last_of_def)
  ultimately show ?thesis by (auto simp: get_extension_def split: option.splits)
qed

lemma extension_no_slash: "CHR ''/'' \<notin> set file \<Longrightarrow> get_extension file = []"
proof -
  assume "CHR ''/'' \<notin> set file"
  then have "find_last_of CHR ''/'' file = None" by (simp add: find_last_of_def)
  then show "get_extension file = []" by (simp add: get_extension_def split: option.splits)
qed

text \<open>
  The extension is what follows the last dot of the last component of a path, and nothing if there is no dot in it; but a
  path without a slash has none, whatever its name.
\<close>
theorem extension_of_path:
  "(CHR ''/'' \<notin> set name \<and> CHR ''/'' \<notin> set ext \<and> CHR ''.'' \<notin> set ext \<longrightarrow> get_extension (dir @ ''/'' @ name @ ''.'' @ ext) = ext) \<and>
   (CHR ''/'' \<notin> set name \<and> CHR ''.'' \<notin> set name \<longrightarrow> get_extension (dir @ ''/'' @ name) = []) \<and>
   (CHR ''/'' \<notin> set name \<longrightarrow> get_extension (name @ ''.'' @ ext) = (if CHR ''/'' \<in> set ext then get_extension (name @ ''.'' @ ext) else []))"
  using extension_there [of name ext dir] extension_none [of name dir] extension_no_slash [of "name @ ''.'' @ ext"] by auto

lemma extension_of_path_witness:
  "get_extension ''/srv/a.b/c.d.html'' = ''html'' \<and> get_extension ''/srv/a.b/c'' = [] \<and> get_extension ''a.html'' = []"
  using extension_of_path [of "''c.d''" "''html''" "''/srv/a.b''"] extension_of_path [of "''c''" "''x''" "''/srv/a.b''"]
    extension_of_path [of "''a''" "''html''" "[]"] by simp

subsection \<open>The route of a directory\<close>

lemma directory_rule:
  "rule_get (rule_add_param ''path'' True (add_str u (match_rule_new i))) (u @ CHR ''/'' # p) m = Some (Some i, m(''path'' \<mapsto> CHR ''/'' # p))"
proof -
  have "str_match u (u @ CHR ''/'' # p) 0 m = Some (Some (length u), m)"
    using str_match_eq [of 0 "u @ CHR ''/'' # p" u m] by (auto simp: at_boundary_def)
  then show ?thesis
    by (simp add: rule_get_def rule_add_param_def add_str_def add_matcher_def match_rule_new_def matcher_match_def param_match_def
        find_end_param_def substr_def)
qed

text \<open>Tables with one route: everything below a path is a file of a directory.\<close>

definition serves_directory :: "operation_type \<Rightarrow> string \<Rightarrow> route_handler \<Rightarrow> routes \<Rightarrow> bool" where
  "serves_directory ty u h rt \<longleftrightarrow> rt_map rt ty = Map.empty \<and>
     (\<exists>c i. rt_rules rt ty = [(c, rule_add_param ''path'' True (add_str u (match_rule_new i)))] \<and> rt_handlers rt i = h)"

definition rest_of :: "request \<Rightarrow> string \<Rightarrow> request" where
  "rest_of req p = req\<lparr>req_param := (req_param req)(''path'' \<mapsto> CHR ''/'' # p)\<rparr>"

lemma directory_found:
  assumes "serves_directory (str2type (req_method req)) u (directory_handler fs root tr) rt" "p \<noteq> []" "last p \<noteq> CHR ''/''"
    and "path = u @ CHR ''/'' # p \<or> path = u @ CHR ''/'' # p @ ''/''"
  shows "routes_handle path req rep rt =
    Some (case fs_type fs (root @ p) of
        None \<Rightarrow> reply_done (set_status St_not_found [] rep)
      | Some Directory \<Rightarrow>
          (let (redirected, rep1) = redirect_if_needed (rest_of req p) rep
           in if redirected then rep1 else file_read fs tr (root @ p @ ''/index.html'') (rest_of req p) rep1)
      | Some _ \<Rightarrow> file_read fs tr (root @ p) (rest_of req p) rep)"
proof -
  obtain c i where r: "rt_map rt (str2type (req_method req)) = Map.empty"
      "rt_rules rt (str2type (req_method req)) = [(c, rule_add_param ''path'' True (add_str u (match_rule_new i)))]"
      "rt_handlers rt i = directory_handler fs root tr" using assms(1) unfolding serves_directory_def by blast
  have n: "normalize_url path = u @ CHR ''/'' # p"
    using assms(2-4) by (auto simp: normalize_url_def butlast_append)
  have "get_handler (str2type (req_method req)) (normalize_url path) (req_param req) rt =
      Some (Some i, (req_param req)(''path'' \<mapsto> CHR ''/'' # p))"
    using r(1,2) by (simp add: get_handler_def n directory_rule)
  then show ?thesis
    using r(3) by (auto simp: routes_handle_def directory_handler_def param_get_def param_path_def substr_from_def rest_of_def Let_def
        split: option.splits directory_entry_type.splits prod.splits if_splits)
qed

text \<open>
  Below a path that stands for a directory, every path is looked up in the file system as it is, \<open>..\<close> and all: a
  file is the reply, through the transformer and under the type of its extension; a directory without a
  slash is redirected to the same address with one, where its index is the reply; what is not there is not found.
\<close>
theorem directory_answers:
  assumes "serves_directory (str2type (req_method req)) u (directory_handler fs root tr) rt" and "p \<noteq> []" and "last p \<noteq> CHR ''/''"
  shows "(fs_type fs (root @ p) = Some Regular_file \<and> fs_blocks fs (root @ p) = Some blocks \<longrightarrow>
      routes_handle (u @ ''/'' @ p) req rep rt = Some (write_body_with (get_extension (root @ p))
        \<lparr>bw_buffers = get_stream tr (rest_of req p) (get_extension (root @ p)) blocks, bw_fails = False\<rparr> rep)) \<and>
    (fs_type fs (root @ p) = Some Directory \<and> req_url req = u @ ''/'' @ p \<longrightarrow>
      (\<exists>r. routes_handle (u @ ''/'' @ p) req rep rt = Some r \<and> rep_status r = St_moved_permanently \<and>
        map_of (rep_headers r) ''Location'' = Some (get_url req @ ''/''))) \<and>
    (fs_type fs (root @ p) = Some Directory \<and> req_url req = u @ ''/'' @ p @ ''/'' \<longrightarrow>
      routes_handle (u @ ''/'' @ p @ ''/'') req rep rt = Some (file_read fs tr (root @ p @ ''/index.html'') (rest_of req p) rep)) \<and>
    (fs_type fs (root @ p) = None \<longrightarrow>
      (\<exists>r. routes_handle (u @ ''/'' @ p) req rep rt = Some r \<and> rep_status r = St_not_found \<and> rep_content r = rep_content rep))"
proof -
  note plain = directory_found [OF assms, of "u @ ''/'' @ p" rep]
  note slash = directory_found [OF assms, of "u @ ''/'' @ p @ ''/''" rep]
  have url: "get_url (rest_of req p) = get_url req" "req_url (rest_of req p) = req_url req"
    by (simp_all add: rest_of_def get_url_def get_header_field_def)
  have last: "last (u @ ''/'' @ p) \<noteq> CHR ''/''" using assms(2,3) by simp
  show ?thesis
  proof (intro conjI impI)
    assume "fs_type fs (root @ p) = Some Regular_file \<and> fs_blocks fs (root @ p) = Some blocks"
    then show "routes_handle (u @ ''/'' @ p) req rep rt = Some (write_body_with (get_extension (root @ p))
        \<lparr>bw_buffers = get_stream tr (rest_of req p) (get_extension (root @ p)) blocks, bw_fails = False\<rparr> rep)"
      using plain by (simp add: file_read_def Let_def)
  next
    assume a: "fs_type fs (root @ p) = Some Directory \<and> req_url req = u @ ''/'' @ p"
    then have "redirect_if_needed (rest_of req p) rep =
        (True, reply_done (add_header ''Location'' (get_url req @ ''/'') (set_status St_moved_permanently [] rep)))"
      using last url by (simp add: redirect_if_needed_def)
    then have "routes_handle (u @ ''/'' @ p) req rep rt =
        Some (reply_done (add_header ''Location'' (get_url req @ ''/'') (set_status St_moved_permanently [] rep)))" using plain a by simp
    then show "\<exists>r. routes_handle (u @ ''/'' @ p) req rep rt = Some r \<and> rep_status r = St_moved_permanently \<and>
        map_of (rep_headers r) ''Location'' = Some (get_url req @ ''/'')"
      by (simp add: reply_done_def add_header_def set_status_def update_conv)
  next
    assume a: "fs_type fs (root @ p) = Some Directory \<and> req_url req = u @ ''/'' @ p @ ''/''"
    then have "redirect_if_needed (rest_of req p) rep = (False, rep)" using url by (simp add: redirect_if_needed_def)
    then show "routes_handle (u @ ''/'' @ p @ ''/'') req rep rt = Some (file_read fs tr (root @ p @ ''/index.html'') (rest_of req p) rep)"
      using slash a by simp
  next
    assume "fs_type fs (root @ p) = None"
    then show "\<exists>r. routes_handle (u @ ''/'' @ p) req rep rt = Some r \<and> rep_status r = St_not_found \<and> rep_content r = rep_content rep"
      using plain by (simp add: reply_done_def set_status_def)
  qed
qed

text \<open>A file system with a file outside of what is served.\<close>

definition w_files :: file_system where
  "w_files = \<lparr>fs_type = (\<lambda>p. if p = ''/srv/../etc/keys.txt'' then Some Regular_file else None),
     fs_blocks = (\<lambda>p. if p = ''/srv/../etc/keys.txt'' then Some [''key''] else None)\<rparr>"

definition w_directory :: routes where
  "w_directory = \<lparr>rt_map = (\<lambda>_. Map.empty), rt_rover = 1,
     rt_rules = (\<lambda>_. [(0, rule_add_param ''path'' True (add_str ''/static'' (match_rule_new 0)))]), rt_default = None, rt_exceptions = [],
     rt_exception_id = 0, rt_handlers = (\<lambda>_. directory_handler w_files ''/srv/'' None)\<rparr>"

lemma w_serves: "serves_directory ty ''/static'' (directory_handler w_files ''/srv/'' None) w_directory"
  unfolding serves_directory_def w_directory_def by auto

lemma directory_answers_witness:
  "routes_handle ''/static/../etc/keys.txt'' sample_get reply_new w_directory =
    Some (write_body_with ''txt'' \<lparr>bw_buffers = [''key''], bw_fails = False\<rparr> reply_new)"
proof -
  have e: "get_extension ''/srv/../etc/keys.txt'' = ''txt''" using extension_there [of "''keys''" "''txt''" "''/srv/../etc''"] by simp
  have "fs_type w_files (''/srv/'' @ ''../etc/keys.txt'') = Some Regular_file \<and> fs_blocks w_files (''/srv/'' @ ''../etc/keys.txt'') = Some [''key'']"
    by (simp add: w_files_def)
  with directory_answers [OF w_serves, where p = "''../etc/keys.txt''" and req = sample_get and rep = reply_new and blocks = "[''key'']"]
  have "routes_handle (''/static'' @ ''/'' @ ''../etc/keys.txt'') sample_get reply_new w_directory =
      Some (write_body_with (get_extension (''/srv/'' @ ''../etc/keys.txt''))
        \<lparr>bw_buffers = get_stream None (rest_of sample_get ''../etc/keys.txt'') (get_extension (''/srv/'' @ ''../etc/keys.txt'')) [''key''], bw_fails = False\<rparr> reply_new)"
    by simp
  then show ?thesis using e by (simp add: get_stream_def)
qed

text \<open>
  The directory itself is an error of the server: its path is empty, and has no first character to drop.
\<close>
theorem directory_itself_fails:
  assumes "serves_directory (str2type (req_method req)) u (directory_handler fs root tr) rt" and "u \<noteq> []" and "last u \<noteq> CHR ''/''"
    and "rt_exceptions rt = []"
  shows "\<exists>r. routes_handle (u @ ''/'') req rep rt = Some r \<and> rep_status r = St_internal_server_error"
proof -
  obtain c i where r: "rt_map rt (str2type (req_method req)) = Map.empty"
      "rt_rules rt (str2type (req_method req)) = [(c, rule_add_param ''path'' True (add_str u (match_rule_new i)))]"
      "rt_handlers rt i = directory_handler fs root tr" using assms(1) unfolding serves_directory_def by blast
  have n: "normalize_url (u @ ''/'') = u" using assms(2) by (cases u) (simp_all add: normalize_url_def)
  have "str_match u u 0 m = Some (Some (length u), m)" for m
    using str_match_eq [of 0 u u m] by (auto simp: at_boundary_def)
  then have "rule_get (rule_add_param ''path'' True (add_str u (match_rule_new i))) u m = Some (Some i, m(''path'' \<mapsto> []))" for m
    by (simp add: rule_get_def rule_add_param_def add_str_def add_matcher_def match_rule_new_def matcher_match_def param_match_def find_end_param_def)
  then have "routes_handle (u @ ''/'') req rep rt = Some (exception_reply (Other_exception ''sstring::substr out of range'') rt)"
    using r by (simp add: routes_handle_def get_handler_def n directory_handler_def param_get_def param_path_def substr_from_def Let_def)
  then show ?thesis
    by (simp add: exception_reply_def assms(4) reply_done_as_def reply_done_def set_content_type_def set_mime_type_def add_header_def set_status_def exn_status_def Let_def)
qed

lemma directory_itself_fails_witness:
  "\<exists>r. routes_handle ''/static/'' sample_get reply_new w_directory = Some r \<and> rep_status r = St_internal_server_error"
  using directory_itself_fails [OF w_serves, of sample_get reply_new] by (simp add: w_directory_def)

end
