(* ===== verification/Dhcp.thy ===== *)
theory Dhcp
  imports L4
begin

text \<open>
  The DHCP client, \<open>network/dhcp.cc\<close>: the messages it sends, the options it reads, and its states. It
  sees received packets as the packet filter of the IP layer, and sends through a UDP channel: what
  it hands to the channel is the list \<open>dh_sent\<close>. The random transaction numbers are arguments. Both
  timers are represented by whether they are armed, and the promise of a run by the results it was
  given.
\<close>

subsection \<open>Messages\<close>

datatype dhcp_state = D_none | D_discover | D_request | D_done | D_fail

abbreviation (input) "opt_subnet_mask \<equiv> 1 :: u8"
abbreviation (input) "opt_router \<equiv> 3 :: u8"
abbreviation (input) "opt_domain_name_servers \<equiv> 6 :: u8"
abbreviation (input) "opt_interface_mtu \<equiv> 26 :: u8"
abbreviation (input) "opt_broadcast_address \<equiv> 28 :: u8"
abbreviation (input) "opt_requested_address \<equiv> 50 :: u8"
abbreviation (input) "opt_lease_time \<equiv> 51 :: u8"
abbreviation (input) "opt_message_type \<equiv> 53 :: u8"
abbreviation (input) "opt_dhcp_server \<equiv> 54 :: u8"
abbreviation (input) "opt_parameter_request_list \<equiv> 55 :: u8"
abbreviation (input) "opt_renewal_time \<equiv> 58 :: u8"
abbreviation (input) "opt_rebinding_time \<equiv> 59 :: u8"
abbreviation (input) "opt_end \<equiv> 255 :: u8"

abbreviation (input) "msg_discover \<equiv> 1 :: u8"
abbreviation (input) "msg_offer \<equiv> 2 :: u8"
abbreviation (input) "msg_request \<equiv> 3 :: u8"
abbreviation (input) "msg_ack \<equiv> 5 :: u8"
abbreviation (input) "msg_nak \<equiv> 6 :: u8"

record dhcp_header =
  bp_op :: u8
  bp_htype :: u8
  bp_hlen :: u8
  bp_hops :: u8
  bp_xid :: u32
  bp_secs :: u16
  bp_flags :: u16
  bp_ciaddr :: ipv4_address
  bp_yiaddr :: ipv4_address
  bp_siaddr :: ipv4_address
  bp_giaddr :: ipv4_address
  bp_chaddr :: bytes
  bp_sname :: bytes
  bp_file :: bytes

definition dhcp_header_init :: dhcp_header where
  "dhcp_header_init = \<lparr>bp_op = 1, bp_htype = 1, bp_hlen = 6, bp_hops = 0, bp_xid = 0, bp_secs = 0, bp_flags = 0,
     bp_ciaddr = 0, bp_yiaddr = 0, bp_siaddr = 0, bp_giaddr = 0,
     bp_chaddr = replicate 16 0, bp_sname = replicate 64 0, bp_file = replicate 128 0\<rparr>"

definition dhcp_header_store :: "dhcp_header \<Rightarrow> bytes" where
  "dhcp_header_store h = [bp_op h, bp_htype h, bp_hlen h, bp_hops h] @ store32 (bp_xid h) @ store16 (bp_secs h) @ store16 (bp_flags h) @
     store32 (bp_ciaddr h) @ store32 (bp_yiaddr h) @ store32 (bp_siaddr h) @ store32 (bp_giaddr h) @
     bp_chaddr h @ bp_sname h @ bp_file h"

definition dhcp_header_load :: "bytes \<Rightarrow> dhcp_header" where
  "dhcp_header_load p = \<lparr>bp_op = p ! 0, bp_htype = p ! 1, bp_hlen = p ! 2, bp_hops = p ! 3, bp_xid = load32 (drop 4 p),
     bp_secs = load16 (drop 8 p), bp_flags = load16 (drop 10 p), bp_ciaddr = load32 (drop 12 p), bp_yiaddr = load32 (drop 16 p),
     bp_siaddr = load32 (drop 20 p), bp_giaddr = load32 (drop 24 p),
     bp_chaddr = take 16 (drop 28 p), bp_sname = take 64 (drop 44 p), bp_file = take 128 (drop 108 p)\<rparr>"

definition dhcp_header_hton :: "dhcp_header \<Rightarrow> dhcp_header" where
  "dhcp_header_hton h = h\<lparr>bp_xid := hton32 (bp_xid h), bp_secs := hton16 (bp_secs h), bp_flags := hton16 (bp_flags h),
     bp_ciaddr := hton32 (bp_ciaddr h), bp_yiaddr := hton32 (bp_yiaddr h), bp_siaddr := hton32 (bp_siaddr h), bp_giaddr := hton32 (bp_giaddr h)\<rparr>"

definition dhcp_header_ntoh :: "dhcp_header \<Rightarrow> dhcp_header" where
  "dhcp_header_ntoh h = h\<lparr>bp_xid := ntoh32 (bp_xid h), bp_secs := ntoh16 (bp_secs h), bp_flags := ntoh16 (bp_flags h),
     bp_ciaddr := ntoh32 (bp_ciaddr h), bp_yiaddr := ntoh32 (bp_yiaddr h), bp_siaddr := ntoh32 (bp_siaddr h), bp_giaddr := ntoh32 (bp_giaddr h)\<rparr>"

definition options_magic :: bytes where
  "options_magic = [0x63, 0x82, 0x53, 0x63]"

definition requested_options :: bytes where
  "requested_options = [opt_subnet_mask, opt_router, opt_domain_name_servers, opt_interface_mtu, opt_broadcast_address]"

definition type_option :: "u8 \<Rightarrow> bytes" where
  "type_option t = [opt_message_type, 1, t]"

definition ip_option :: "u8 \<Rightarrow> ipv4_address \<Rightarrow> bytes" where
  "ip_option t ip = [t, 4] @ store32 (hton32 ip)"

definition requested_option :: bytes where
  "requested_option = [opt_parameter_request_list, word_of_nat (length requested_options)] @ requested_options"

definition dhcp_payload_store :: "dhcp_header \<Rightarrow> bytes" where
  "dhcp_payload_store h = dhcp_header_store h @ options_magic"

subsection \<open>Options read\<close>

text \<open>The lease times have no initial value.\<close>

record lease =
  ls_ip :: ipv4_address
  ls_netmask :: ipv4_address
  ls_broadcast :: ipv4_address
  ls_gateway :: ipv4_address
  ls_dhcp_server :: ipv4_address
  ls_name_servers :: "ipv4_address list"
  ls_lease_time :: "u32 option"
  ls_renew_time :: "u32 option"
  ls_rebind_time :: "u32 option"
  ls_mtu :: u16

record ip_info =
  ii_lease :: lease
  ii_type :: u8

definition lease_init :: lease where
  "lease_init = \<lparr>ls_ip = 0, ls_netmask = 0, ls_broadcast = 0, ls_gateway = 0, ls_dhcp_server = 0, ls_name_servers = [],
     ls_lease_time = None, ls_renew_time = None, ls_rebind_time = None, ls_mtu = 0\<rparr>"

definition set_address :: "u8 \<Rightarrow> ipv4_address \<Rightarrow> lease \<Rightarrow> lease" where
  "set_address t ip l =
     (if t = opt_subnet_mask then l\<lparr>ls_netmask := ip\<rparr>
      else if t = opt_router then l\<lparr>ls_gateway := ip\<rparr>
      else if t = opt_broadcast_address then l\<lparr>ls_broadcast := ip\<rparr>
      else if t = opt_dhcp_server then l\<lparr>ls_dhcp_server := ip\<rparr>
      else if t = opt_domain_name_servers then l\<lparr>ls_name_servers := ls_name_servers l @ [ip]\<rparr>
      else l)"

definition set_time :: "u8 \<Rightarrow> u32 \<Rightarrow> lease \<Rightarrow> lease" where
  "set_time t s l =
     (if t = opt_lease_time then l\<lparr>ls_lease_time := Some s\<rparr>
      else if t = opt_renewal_time then l\<lparr>ls_renew_time := Some s\<rparr>
      else if t = opt_rebinding_time then l\<lparr>ls_rebind_time := Some s\<rparr>
      else l)"

definition address_options :: "u8 list" where
  "address_options = [opt_subnet_mask, opt_router, opt_broadcast_address, opt_dhcp_server, opt_domain_name_servers]"

definition time_options :: "u8 list" where
  "time_options = [opt_lease_time, opt_renewal_time, opt_rebinding_time]"

text \<open>The option at an offset, by its type; its own length is not looked at.\<close>

definition read_option :: "bytes \<Rightarrow> nat \<Rightarrow> u8 \<Rightarrow> ip_info \<Rightarrow> ip_info" where
  "read_option p off t info =
     (if t \<in> set address_options then
        (case v_get_header p off 6 of None \<Rightarrow> info
         | Some o6 \<Rightarrow> info\<lparr>ii_lease := set_address t (ntoh32 (load32 (drop 2 o6))) (ii_lease info)\<rparr>)
      else if t = opt_message_type then
        (case v_get_header p off 3 of None \<Rightarrow> info | Some o3 \<Rightarrow> info\<lparr>ii_type := o3 ! 2\<rparr>)
      else if t = opt_interface_mtu then
        (case v_get_header p off 4 of None \<Rightarrow> info
         | Some o4 \<Rightarrow> info\<lparr>ii_lease := ii_lease info\<lparr>ls_mtu := ntoh16 (load16 (drop 2 o4))\<rparr>\<rparr>)
      else if t \<in> set time_options then
        (case v_get_header p off 6 of None \<Rightarrow> info
         | Some o6 \<Rightarrow> info\<lparr>ii_lease := set_time t (ntoh32 (load32 (drop 2 o6))) (ii_lease info)\<rparr>)
      else info)"

function parse_options :: "bytes \<Rightarrow> nat \<Rightarrow> ip_info \<Rightarrow> ip_info" where
  "parse_options p off info =
     (case v_get_header p off 1 of
        None \<Rightarrow> info
      | Some m \<Rightarrow>
          if m ! 0 = opt_end then info
          else (case v_get_header p off 2 of
            None \<Rightarrow> info
          | Some ol \<Rightarrow> parse_options p (off + 2 + unat (ol ! 1)) (read_option p off (ol ! 0) info)))"
  by pat_completeness auto
termination
  by (relation "measure (\<lambda>(p, off, info). length p - off)") (auto simp: v_get_header_def split: if_splits)

declare parse_options.simps [simp del]

subsection \<open>The client\<close>

record dhcp =
  dh_state :: dhcp_state
  dh_xid :: u32
  dh_timer :: bool
  dh_retry :: bool
  dh_retry_ip :: ipv4_address
  dh_results :: "lease option list"
  dh_sent :: "(ipv4_address \<times> u16 \<times> bytes) list"

definition dhcp_init :: dhcp where
  "dhcp_init = \<lparr>dh_state = D_none, dh_xid = 0, dh_timer = False, dh_retry = False, dh_retry_ip = 0, dh_results = [], dh_sent = []\<rparr>"

definition dhcp_send :: "ethernet_address \<Rightarrow> bytes \<Rightarrow> dhcp \<Rightarrow> dhcp" where
  "dhcp_send mac options d =
     (let h = dhcp_header_init\<lparr>bp_xid := dh_xid d, bp_chaddr := ethernet_address_write mac @ drop 6 (bp_chaddr dhcp_header_init)\<rparr>
      in d\<lparr>dh_sent := dh_sent d @ [(0xffffffff, 67, dhcp_payload_store (dhcp_header_hton h) @ options)]\<rparr>)"

definition discover_options :: "ipv4_address \<Rightarrow> bytes" where
  "discover_options ip = type_option msg_discover @ ip_option opt_requested_address ip @ requested_option @ [opt_end]"

definition send_discover :: "ethernet_address \<Rightarrow> u32 \<Rightarrow> ipv4_address \<Rightarrow> dhcp \<Rightarrow> dhcp" where
  "send_discover mac xid ip d = dhcp_send mac (discover_options ip) (d\<lparr>dh_xid := xid, dh_state := D_discover\<rparr>)"

definition request_options :: "lease \<Rightarrow> bytes" where
  "request_options l = type_option msg_request @ ip_option opt_dhcp_server (ls_dhcp_server l) @
     ip_option opt_requested_address (ls_ip l) @ requested_option @ [opt_end]"

definition send_request :: "ethernet_address \<Rightarrow> lease \<Rightarrow> dhcp \<Rightarrow> dhcp" where
  "send_request mac l d = dhcp_send mac (request_options l) (d\<lparr>dh_state := D_request\<rparr>)"

definition dhcp_process :: "ethernet_address \<Rightarrow> u32 \<Rightarrow> bytes \<Rightarrow> bytes \<Rightarrow> nat \<Rightarrow> dhcp \<Rightarrow> dhcp" where
  "dhcp_process mac xid p dhp opt_off d =
     (let d1 = d\<lparr>dh_retry := False\<rparr>;
          h = dhcp_header_ntoh (dhcp_header_load dhp);
          info = parse_options p opt_off \<lparr>ii_lease = lease_init\<lparr>ls_ip := bp_yiaddr h\<rparr>, ii_type = 0\<rparr>
      in case dh_state d1 of
           D_discover \<Rightarrow> if ii_type info \<noteq> msg_offer then d1 else send_request mac (ii_lease info) d1
         | D_request \<Rightarrow>
             if ii_type info = msg_nak then send_discover mac xid 0 (d1\<lparr>dh_state := D_none\<rparr>)
             else if ii_type info \<noteq> msg_ack then d1
             else d1\<lparr>dh_state := D_done, dh_results := dh_results d1 @ [Some (ii_lease info)]\<rparr>
         | _ \<Rightarrow> d1)"

text \<open>The filter: the packet with its IP header. The header of the message and the offset of its options
  when it is for the client.\<close>

definition dhcp_accepts :: "bytes \<Rightarrow> ip_hdr \<Rightarrow> dhcp \<Rightarrow> (bytes \<times> nat) option" where
  "dhcp_accepts p iph d =
     (if dh_state d = D_none \<or> length p < 240 then None
      else let ipl = unat (ip_ihl iph) * 4; opt_off = ipl + 8 + 240
        in case (v_get_header p ipl 8, v_get_header p (ipl + 8) 240) of
             (Some u, Some dhp) \<Rightarrow>
               if ip_proto iph \<noteq> ip_protocol_code udp_num \<or> ntoh16 (uh_dst_port (udp_hdr_load u)) \<noteq> 68 \<or>
                  unat (ip_len iph) < opt_off + 1 \<or> drop 236 dhp \<noteq> options_magic
               then None else Some (dhp, opt_off)
           | _ \<Rightarrow> None)"

text \<open>On the first shard the message is processed at once, elsewhere it is passed to the first shard.\<close>

definition dhcp_handle :: "nat \<Rightarrow> ethernet_address \<Rightarrow> u32 \<Rightarrow> bytes \<Rightarrow> ip_hdr \<Rightarrow> dhcp \<Rightarrow> dhcp \<times> bool \<times> (bytes \<times> bytes \<times> nat) option" where
  "dhcp_handle shard mac xid p iph d =
     (case dhcp_accepts p iph d of
        None \<Rightarrow> (d, False, None)
      | Some (dhp, opt_off) \<Rightarrow>
          if shard = 0 then (dhcp_process mac xid p dhp opt_off d, True, None) else (d, True, Some (p, dhp, opt_off)))"

definition dhcp_run :: "ethernet_address \<Rightarrow> u32 \<Rightarrow> lease \<Rightarrow> nat \<Rightarrow> dhcp \<Rightarrow> dhcp" where
  "dhcp_run mac xid l timeout d =
     (let d1 = send_discover mac xid (ls_ip l) (d\<lparr>dh_state := D_none\<rparr>)
      in d1\<lparr>dh_timer := dh_timer d1 \<or> timeout \<noteq> 0, dh_retry := True, dh_retry_ip := ls_ip l\<rparr>)"

definition dhcp_discover :: "ethernet_address \<Rightarrow> u32 \<Rightarrow> nat \<Rightarrow> dhcp \<Rightarrow> dhcp" where
  "dhcp_discover mac xid timeout d = dhcp_run mac xid lease_init timeout d"

definition dhcp_renew :: "ethernet_address \<Rightarrow> u32 \<Rightarrow> lease \<Rightarrow> nat \<Rightarrow> dhcp \<Rightarrow> dhcp" where
  "dhcp_renew mac xid l timeout d = dhcp_run mac xid l timeout d"

definition dhcp_timeout :: "dhcp \<Rightarrow> dhcp" where
  "dhcp_timeout d = d\<lparr>dh_timer := False, dh_state := D_fail, dh_retry := False, dh_results := dh_results d @ [None]\<rparr>"

definition dhcp_retry :: "ethernet_address \<Rightarrow> u32 \<Rightarrow> dhcp \<Rightarrow> dhcp" where
  "dhcp_retry mac xid d = send_discover mac xid (dh_retry_ip d) d"

subsection \<open>What the network and the timers do to it\<close>

inductive dhcp_step :: "ethernet_address \<Rightarrow> dhcp \<Rightarrow> dhcp \<Rightarrow> bool" for mac where
  packet: "dhcp_step mac d (fst (dhcp_handle 0 mac xid p iph d))"
| timeout: "dh_timer d \<Longrightarrow> dhcp_step mac d (dhcp_timeout d)"
| retry: "dh_retry d \<Longrightarrow> dhcp_step mac d (dhcp_retry mac xid d)"

end
