(* ===== verification/DhcpProps.thy ===== *)
theory DhcpProps
  imports Dhcp
begin

text \<open>
  The DHCP client against the format of RFC 2132: how it reads the options of a message, and the
  exchange of an offer and an acknowledgement.
\<close>

subsection \<open>The format\<close>

text \<open>The options of a message as RFC 2132 has them: a pad is one byte, the end ends them.\<close>

function options_list :: "bytes \<Rightarrow> (u8 \<times> bytes) list" where
  "options_list bs =
     (case bs of
        [] \<Rightarrow> []
      | t # r \<Rightarrow>
          if t = 255 then []
          else if t = 0 then options_list r
          else (case r of [] \<Rightarrow> [] | n # d \<Rightarrow> (t, take (unat n) d) # options_list (drop (unat n) d)))"
  by pat_completeness auto
termination
  by (relation "measure length") auto

declare options_list.simps [simp del]

fun option_bytes :: "u8 \<times> bytes \<Rightarrow> bytes" where
  "option_bytes (t, d) = [t, word_of_nat (length d)] @ d"

fun option_ok :: "u8 \<times> bytes \<Rightarrow> bool" where
  "option_ok (t, d) \<longleftrightarrow> t \<noteq> 0 \<and> t \<noteq> 255 \<and> length d < 256 \<and>
     (t \<in> set address_options \<or> t \<in> set time_options \<longrightarrow> 4 \<le> length d) \<and>
     (t = opt_message_type \<longrightarrow> 1 \<le> length d) \<and> (t = opt_interface_mtu \<longrightarrow> 2 \<le> length d)"

text \<open>What an option tells.\<close>

fun tells :: "u8 \<times> bytes \<Rightarrow> ip_info \<Rightarrow> ip_info" where
  "tells (t, d) info =
     (if t \<in> set address_options then info\<lparr>ii_lease := set_address t (word_of_nat (be_nat (take 4 d))) (ii_lease info)\<rparr>
      else if t = opt_message_type then info\<lparr>ii_type := d ! 0\<rparr>
      else if t = opt_interface_mtu then info\<lparr>ii_lease := ii_lease info\<lparr>ls_mtu := word_of_nat (be_nat (take 2 d))\<rparr>\<rparr>
      else if t \<in> set time_options then info\<lparr>ii_lease := set_time t (word_of_nat (be_nat (take 4 d))) (ii_lease info)\<rparr>
      else info)"

definition told :: "dhcp_header \<Rightarrow> (u8 \<times> bytes) list \<Rightarrow> ip_info" where
  "told h opts = fold tells opts \<lparr>ii_lease = lease_init\<lparr>ls_ip := bp_yiaddr h\<rparr>, ii_type = 0\<rparr>"

definition option_area :: "(u8 \<times> bytes) list \<Rightarrow> bytes \<Rightarrow> bytes" where
  "option_area opts rest = concat (map option_bytes opts) @ [opt_end] @ rest"

lemma option_area_simps:
  "option_area [] rest = opt_end # rest"
  "option_area ((t, d) # opts) rest = t # word_of_nat (length d) # d @ option_area opts rest"
  by (simp_all add: option_area_def)

subsection \<open>Reading the options\<close>

lemma get_header_behind: "v_get_header (pre @ xs) (length pre) n = (if n \<le> length xs then Some (take n xs) else None)"
  by (auto simp: v_get_header_def slice_def)

lemma ntoh_load_be:
  "4 \<le> length d \<Longrightarrow> ntoh32 (load32 d) = word_of_nat (be_nat (take 4 d))"
  "2 \<le> length d \<Longrightarrow> ntoh16 (load16 d) = word_of_nat (be_nat (take 2 d))"
  by (simp_all add: ntoh32_def ntoh16_def bswap_def load32_def load16_def le_nat_less unsigned_of_nat take_bit_eq_mod
      le_nat_to_le to_le_le_nat min_def mod_less order.strict_trans2 [OF le_nat_less])

lemma unat_length_byte: "length d < 256 \<Longrightarrow> unat (word_of_nat (length d) :: u8) = length d"
  by (simp add: unsigned_of_nat take_bit_eq_mod)

lemma options_list_Cons:
  "t \<noteq> 0 \<Longrightarrow> t \<noteq> 255 \<Longrightarrow> length d < 256 \<Longrightarrow> options_list (t # word_of_nat (length d) # d @ r) = (t, d) # options_list r"
  by (subst options_list.simps) (simp add: unat_length_byte)

lemma options_list_end: "options_list (255 # r) = []"
  by (subst options_list.simps) simp

lemma options_list_area: "\<forall>p \<in> set opts. option_ok p \<Longrightarrow> options_list (option_area opts rest) = opts"
proof (induction opts)
  case Nil
  then show ?case by (simp add: option_area_simps options_list_end)
next
  case (Cons p opts)
  obtain t d where "p = (t, d)" by (cases p)
  then show ?case using Cons by (simp add: option_area_simps options_list_Cons)
qed

lemma header_fields:
  "v_get_header (pre @ t # n # d) (length pre) 2 = Some [t, n]"
  "v_get_header (pre @ t # n # d) (length pre) (Suc 0) = Some [t]"
  "1 \<le> length d \<Longrightarrow> v_get_header (pre @ t # n # d @ rest) (length pre) 3 = Some [t, n, d ! 0]"
  "2 \<le> length d \<Longrightarrow> v_get_header (pre @ t # n # d @ rest) (length pre) 4 = Some (t # n # take 2 d)"
  "4 \<le> length d \<Longrightarrow> v_get_header (pre @ t # n # d @ rest) (length pre) 6 = Some (t # n # take 4 d)"
  by (simp_all add: get_header_behind) (cases d; simp)

lemma read_option_tells:
  assumes "option_ok (t, d)"
  shows "read_option (pre @ t # n # d @ rest) (length pre) t info = tells (t, d) info"
  using assms ntoh_load_be(1) [of "take 4 d"] ntoh_load_be(2) [of "take 2 d"]
  by (auto simp: read_option_def header_fields)

lemma parse_option_area:
  "\<forall>p \<in> set opts. option_ok p \<Longrightarrow> parse_options (pre @ option_area opts rest) (length pre) info = fold tells opts info"
proof (induction opts arbitrary: pre info)
  case Nil
  then show ?case by (simp add: option_area_simps parse_options.simps get_header_behind)
next
  case (Cons p opts)
  obtain t d where p: "p = (t, d)" by (cases p)
  then have ok: "option_ok (t, d)" using Cons.prems by simp
  let ?n = "word_of_nat (length d) :: u8"
  let ?pre = "pre @ t # ?n # d"
  have "t \<noteq> opt_end" "length d < 256" using ok by simp_all
  then have "parse_options (pre @ option_area (p # opts) rest) (length pre) info =
      parse_options (?pre @ option_area opts rest) (length ?pre) (tells (t, d) info)"
    using read_option_tells [OF ok, of pre ?n "option_area opts rest" info]
    unfolding p option_area_simps
    by (subst parse_options.simps) (simp add: header_fields unat_length_byte ac_simps del: tells.simps)
  also have "\<dots> = fold tells opts (tells (t, d) info)" by (rule Cons.IH) (use Cons.prems in simp)
  finally show ?case by (simp add: p)
qed

subsection \<open>A message from a server\<close>

definition server_packet :: "bytes \<Rightarrow> udp_hdr \<Rightarrow> dhcp_header \<Rightarrow> (u8 \<times> bytes) list \<Rightarrow> bytes \<Rightarrow> bytes" where
  "server_packet ip u h opts rest =
     ip @ udp_hdr_store (udp_hdr_hton u) @ dhcp_payload_store (dhcp_header_hton h) @ option_area opts rest"

definition addressed :: "bytes \<Rightarrow> ip_hdr \<Rightarrow> udp_hdr \<Rightarrow> dhcp_header \<Rightarrow> (u8 \<times> bytes) list \<Rightarrow> bool" where
  "addressed ip iph u h opts \<longleftrightarrow> length ip = unat (ip_ihl iph) * 4 \<and> ip_proto iph = ip_protocol_code udp_num \<and>
     uh_dst_port u = 68 \<and> length ip + 249 \<le> unat (ip_len iph) \<and>
     length (bp_chaddr h) = 16 \<and> length (bp_sname h) = 64 \<and> length (bp_file h) = 128 \<and> (\<forall>p \<in> set opts. option_ok p)"

lemma addressedD:
  assumes "addressed ip iph u h opts"
  shows "length ip = unat (ip_ihl iph) * 4" "ip_proto iph = ip_protocol_code udp_num" "uh_dst_port u = 68"
    "length ip + 249 \<le> unat (ip_len iph)" "length (dhcp_header_store (dhcp_header_hton h)) = 236" "\<forall>p \<in> set opts. option_ok p"
  using assms by (auto simp: addressed_def dhcp_header_store_def dhcp_header_hton_def)

lemma stored_udp: "length (udp_hdr_store w) = 8" "uh_dst_port (udp_hdr_load (udp_hdr_store w)) = uh_dst_port w"
  by (simp_all add: udp_hdr_store_def udp_hdr_load_def)

lemma accepts_message:
  assumes a: "addressed ip iph u h opts" and d: "dh_state d \<noteq> D_none"
  shows "dhcp_accepts (server_packet ip u h opts rest) iph d = Some (dhcp_payload_store (dhcp_header_hton h), length ip + 248)"
proof -
  let ?u = "udp_hdr_store (udp_hdr_hton u)" and ?h = "dhcp_payload_store (dhcp_header_hton h)"
  let ?p = "server_packet ip u h opts rest"
  note f = addressedD [OF a]
  have h: "length ?h = 240" "drop 236 ?h = options_magic" using f(5) by (simp_all add: dhcp_payload_store_def options_magic_def)
  have "v_get_header ?p (length ip) 8 = Some ?u"
    by (simp add: server_packet_def get_header_behind stored_udp)
  moreover have "v_get_header ?p (length ip + 8) 240 = Some ?h"
    using get_header_behind [of "ip @ ?u" "?h @ option_area opts rest" 240] h(1)
    by (simp add: server_packet_def stored_udp)
  moreover have "ntoh16 (uh_dst_port (udp_hdr_load ?u)) = 68" using f(3) by (simp add: stored_udp udp_hdr_hton_def)
  moreover have "240 \<le> length ?p" using h(1) by (simp add: server_packet_def)
  ultimately show ?thesis using d h(2) f(1,2,4) by (simp add: dhcp_accepts_def Let_def)
qed

lemma yiaddr_read:
  "length (bp_chaddr h) = 16 \<Longrightarrow> bp_yiaddr (dhcp_header_ntoh (dhcp_header_load (dhcp_payload_store (dhcp_header_hton h)))) = bp_yiaddr h"
  by (simp add: dhcp_header_ntoh_def dhcp_header_load_def dhcp_payload_store_def dhcp_header_store_def dhcp_header_hton_def)

lemma parse_message:
  assumes "addressed ip iph u h opts"
  shows "parse_options (server_packet ip u h opts rest) (length ip + 248) info = fold tells opts info"
proof -
  let ?pre = "ip @ udp_hdr_store (udp_hdr_hton u) @ dhcp_payload_store (dhcp_header_hton h)"
  have "length ?pre = length ip + 248" using addressedD(5) [OF assms] by (simp add: stored_udp dhcp_payload_store_def options_magic_def)
  then show ?thesis
    using parse_option_area [OF addressedD(6) [OF assms], of ?pre rest info] by (simp add: server_packet_def)
qed

text \<open>What the client makes of a message.\<close>

lemma message_handled:
  assumes a: "addressed ip iph u h opts" and d: "dh_state d \<noteq> D_none"
  shows "dhcp_handle 0 mac xid (server_packet ip u h opts rest) iph d =
    ((let d1 = d\<lparr>dh_retry := False\<rparr>; info = told h opts in case dh_state d of
        D_discover \<Rightarrow> if ii_type info = msg_offer then send_request mac (ii_lease info) d1 else d1
      | D_request \<Rightarrow>
          if ii_type info = msg_nak then send_discover mac xid 0 (d1\<lparr>dh_state := D_none\<rparr>)
          else if ii_type info = msg_ack then d1\<lparr>dh_state := D_done, dh_results := dh_results d @ [Some (ii_lease info)]\<rparr>
          else d1
      | _ \<Rightarrow> d1), True, None)"
proof -
  have "length (bp_chaddr h) = 16" using a by (simp add: addressed_def)
  then show ?thesis
    using parse_message [OF a, of rest] yiaddr_read [of h]
    by (simp add: dhcp_handle_def accepts_message [OF a d] dhcp_process_def told_def Let_def split: dhcp_state.split)
qed

subsection \<open>What the client sends\<close>

text \<open>A message of the client as a server reads it: the transaction, the hardware address, and the options
  behind the magic bytes.\<close>

definition client_message :: "bytes \<Rightarrow> (u32 \<times> bytes \<times> (u8 \<times> bytes) list) option" where
  "client_message m =
     (let h = dhcp_header_ntoh (dhcp_header_load m)
      in if 240 \<le> length m \<and> bp_op h = 1 \<and> bp_htype h = 1 \<and> bp_hlen h = 6 \<and> take 4 (drop 236 m) = options_magic
         then Some (bp_xid h, take 6 (bp_chaddr h), options_list (drop 240 m)) else None)"

definition address_bytes :: "ipv4_address \<Rightarrow> bytes" where
  "address_bytes a = to_be 4 (unat a)"

lemma option_bytes_area:
  "type_option t @ r = option_bytes (53, [t]) @ r"
  "ip_option t ip = option_bytes (t, address_bytes ip)"
  "requested_option @ [opt_end] = option_area [(55, [1, 3, 6, 26, 28])] []"
  by (simp_all add: type_option_def ip_option_def requested_option_def requested_options_def option_area_def address_bytes_def codec)

lemma sent_options:
  "options_list (discover_options ip) = [(53, [msg_discover]), (50, address_bytes ip), (55, [1, 3, 6, 26, 28])]"
  "options_list (request_options l) = [(53, [msg_request]), (54, address_bytes (ls_dhcp_server l)),
     (50, address_bytes (ls_ip l)), (55, [1, 3, 6, 26, 28])]"
proof -
  have "discover_options ip = option_area [(53, [msg_discover]), (50, address_bytes ip), (55, [1, 3, 6, 26, 28])] []"
    by (simp add: discover_options_def option_bytes_area) (simp add: option_area_def)
  then show "options_list (discover_options ip) = [(53, [msg_discover]), (50, address_bytes ip), (55, [1, 3, 6, 26, 28])]"
    by (simp add: options_list_area address_bytes_def address_options_def time_options_def)
  have "request_options l = option_area [(53, [msg_request]), (54, address_bytes (ls_dhcp_server l)),
     (50, address_bytes (ls_ip l)), (55, [1, 3, 6, 26, 28])] []"
    by (simp add: request_options_def option_bytes_area) (simp add: option_area_def)
  then show "options_list (request_options l) = [(53, [msg_request]), (54, address_bytes (ls_dhcp_server l)),
     (50, address_bytes (ls_ip l)), (55, [1, 3, 6, 26, 28])]"
    by (simp add: options_list_area address_bytes_def address_options_def time_options_def)
qed

lemma client_message_sent:
  assumes "length (ethernet_address_write mac) = 6"
  shows "client_message (dhcp_payload_store (dhcp_header_hton (dhcp_header_init\<lparr>bp_xid := xid,
      bp_chaddr := ethernet_address_write mac @ drop 6 (bp_chaddr dhcp_header_init)\<rparr>)) @ options) =
    Some (xid, ethernet_address_write mac, options_list options)"
  using assms
  by (simp add: client_message_def dhcp_payload_store_def dhcp_header_store_def dhcp_header_hton_def dhcp_header_init_def
      dhcp_header_load_def dhcp_header_ntoh_def options_magic_def Let_def)

subsection \<open>Properties\<close>

lemma tells_keeps_ip: "ls_ip (ii_lease (tells p info)) = ls_ip (ii_lease info)"
  by (cases p) (simp add: set_address_def set_time_def)

lemma told_ip: "ls_ip (ii_lease (told h opts)) = bp_yiaddr h"
proof -
  have "ls_ip (ii_lease (fold tells opts info)) = ls_ip (ii_lease info)" for info
    by (induction opts arbitrary: info) (simp_all add: tells_keeps_ip)
  then show ?thesis by (simp add: told_def)
qed

text \<open>For options of the format of RFC 2132 without pads, the client reads what the options say, each in
  turn, and stops at the end mark, wherever they stand in the packet and whatever stands behind them.\<close>

theorem options_read_as_sent:
  assumes "\<forall>p \<in> set opts. option_ok p"
  shows "parse_options (pre @ option_area opts rest) (length pre) info = fold tells (options_list (option_area opts rest)) info
    \<and> options_list (option_area opts rest) = opts"
  using parse_option_area [OF assms] options_list_area [OF assms] by simp

theorem options_read_as_sent_witness:
  "parse_options ([9] @ option_area [(53, [5]), (26, [5, 220])] [0]) 1 \<lparr>ii_lease = lease_init, ii_type = 0\<rparr>
     = \<lparr>ii_lease = lease_init\<lparr>ls_mtu := 1500\<rparr>, ii_type = 5\<rparr>"
  using options_read_as_sent [of "[(53, [5]), (26, [5, 220])]" "[9]" "[0]" "\<lparr>ii_lease = lease_init, ii_type = 0\<rparr>"]
  by (simp add: address_options_def time_options_def be_nat_Cons)

text \<open>A pad is read as an option with a length: the byte behind it is taken for the length, and the
  options it covers are lost.\<close>

theorem pad_hides_options:
  "options_list [0, 53, 1, 5, 255] = [(53, [5])] \<and>
    parse_options [0, 53, 1, 5, 255] 0 info = info"
proof -
  have "options_list [0, 53, 1, 5, 255] = [(53, [5])]" by (simp add: options_list.simps)
  moreover have "v_get_header [0, 53, 1, 5, 255] 0 (Suc 0) = Some [0]" "v_get_header [0, 53, 1, 5, 255] 0 2 = Some [0, 53]"
    "v_get_header [0, 53, 1, 5, 255] 55 (Suc 0) = None"
    by (simp_all add: v_get_header_def slice_def)
  then have "parse_options [0, 53, 1, 5, 255] 0 info = info"
    by (subst parse_options.simps) (simp add: read_option_def address_options_def time_options_def parse_options.simps [of _ 55])
  ultimately show ?thesis by simp
qed

lemma exchange:
  assumes "addressed ip1 iph1 u1 h1 opts1" "ii_type (told h1 opts1) = msg_offer"
    and "addressed ip2 iph2 u2 h2 opts2" "ii_type (told h2 opts2) = msg_ack"
    and "dh_state d1 = D_discover"
    and "d2 = fst (dhcp_handle 0 mac x1 (server_packet ip1 u1 h1 opts1 rest1) iph1 d1)"
    and "d3 = fst (dhcp_handle 0 mac x2 (server_packet ip2 u2 h2 opts2 rest2) iph2 d2)"
  shows "d2 = send_request mac (ii_lease (told h1 opts1)) (d1\<lparr>dh_retry := False\<rparr>)"
    and "d3 = d2\<lparr>dh_retry := False, dh_state := D_done, dh_results := dh_results d2 @ [Some (ii_lease (told h2 opts2))]\<rparr>"
proof -
  show d2: "d2 = send_request mac (ii_lease (told h1 opts1)) (d1\<lparr>dh_retry := False\<rparr>)"
    using message_handled [OF assms(1), of d1 mac x1 rest1] assms(2,5,6) by (simp add: Let_def)
  then have "dh_state d2 = D_request" by (simp add: send_request_def dhcp_send_def Let_def)
  then show "d3 = d2\<lparr>dh_retry := False, dh_state := D_done, dh_results := dh_results d2 @ [Some (ii_lease (told h2 opts2))]\<rparr>"
    using message_handled [OF assms(3), of d2 mac x2 rest2] assms(4,7) by (simp add: Let_def)
qed

text \<open>C21. An offer and an acknowledgement make a lease: the client broadcasts a discovery, answers the offer
  with a request that names the server and the address of the offer, under the same transaction, and
  completes with the lease the options of the acknowledgement tell, once, with no more retries. A
  server reads its messages as such.\<close>

theorem dhcp_lease_obtained:
  assumes "addressed ip1 iph1 u1 h1 opts1" "ii_type (told h1 opts1) = msg_offer"
    and "addressed ip2 iph2 u2 h2 opts2" "ii_type (told h2 opts2) = msg_ack"
    and "d1 = dhcp_discover mac xid timeout dhcp_init"
    and "d2 = fst (dhcp_handle 0 mac x1 (server_packet ip1 u1 h1 opts1 rest1) iph1 d1)"
    and "d3 = fst (dhcp_handle 0 mac x2 (server_packet ip2 u2 h2 opts2 rest2) iph2 d2)"
  shows "dh_state d3 = D_done \<and> dh_results d3 = [Some (ii_lease (told h2 opts2))] \<and> \<not> dh_retry d3 \<and>
    map (\<lambda>(a, p, m). (a, p, client_message m)) (dh_sent d3) =
      [(0xffffffff, 67, Some (xid, ethernet_address_write mac,
          [(53, [msg_discover]), (50, address_bytes 0), (55, [1, 3, 6, 26, 28])])),
       (0xffffffff, 67, Some (xid, ethernet_address_write mac,
          [(53, [msg_request]), (54, address_bytes (ls_dhcp_server (ii_lease (told h1 opts1)))),
           (50, address_bytes (bp_yiaddr h1)), (55, [1, 3, 6, 26, 28])]))]"
proof -
  have s1: "dh_state d1 = D_discover" "dh_results d1 = []" "dh_xid d1 = xid"
    and m1: "map (\<lambda>(a, p, m). (a, p, client_message m)) (dh_sent d1) =
      [(0xffffffff, 67, Some (xid, ethernet_address_write mac, options_list (discover_options 0)))]"
    by (simp_all add: assms(5) dhcp_discover_def dhcp_run_def send_discover_def dhcp_send_def Let_def dhcp_init_def
        lease_init_def client_message_sent)
  note x = exchange [OF assms(1,2,3,4) s1(1) assms(6,7)]
  have "map (\<lambda>(a, p, m). (a, p, client_message m)) (dh_sent d2) =
      map (\<lambda>(a, p, m). (a, p, client_message m)) (dh_sent d1) @
      [(0xffffffff, 67, Some (xid, ethernet_address_write mac, options_list (request_options (ii_lease (told h1 opts1)))))]"
    using s1 by (simp add: x(1) send_request_def dhcp_send_def Let_def client_message_sent)
  moreover have "dh_results d2 = []" using s1 by (simp add: x(1) send_request_def dhcp_send_def Let_def)
  ultimately show ?thesis using m1 by (simp add: x(2) sent_options told_ip)
qed

definition sample_ip :: "ip_hdr" where
  "sample_ip = \<lparr>ip_ihl = 5, ip_ver = 4, ip_dscp = 0, ip_ecn = 0, ip_len = 300, ip_id = 0, ip_frag = 0, ip_ttl = 64,
     ip_proto = 17, ip_csum = 0, ip_src = 7, ip_dst = 9\<rparr>"

definition sample_udp :: udp_hdr where
  "sample_udp = \<lparr>uh_src_port = 67, uh_dst_port = 68, uh_len = 280, uh_cksum = 0\<rparr>"

definition sample_bootp :: dhcp_header where
  "sample_bootp = dhcp_header_init\<lparr>bp_op := 2, bp_yiaddr := 9\<rparr>"

lemma sample_addressed:
  "addressed (replicate 20 0) sample_ip sample_udp sample_bootp [(54, [0, 0, 0, 7]), (53, [2])]"
  "addressed (replicate 20 0) sample_ip sample_udp sample_bootp [(51, [0, 0, 1, 0]), (53, [5])]"
  by (simp_all add: addressed_def sample_ip_def sample_udp_def sample_bootp_def dhcp_header_init_def address_options_def time_options_def)

lemma sample_told:
  "told sample_bootp [(54, [0, 0, 0, 7]), (53, [2])] = \<lparr>ii_lease = lease_init\<lparr>ls_ip := 9, ls_dhcp_server := 7\<rparr>, ii_type = 2\<rparr>"
  "told sample_bootp [(51, [0, 0, 1, 0]), (53, [5])] = \<lparr>ii_lease = lease_init\<lparr>ls_ip := 9, ls_lease_time := Some 256\<rparr>, ii_type = 5\<rparr>"
  by (simp_all add: told_def sample_bootp_def address_options_def time_options_def set_address_def set_time_def be_nat_Cons)

theorem dhcp_lease_obtained_witness:
  "\<exists>d :: dhcp. dh_state d = D_done \<and> dh_results d = [Some (lease_init\<lparr>ls_ip := 9, ls_lease_time := Some 256\<rparr>)]"
proof -
  let ?m = ethernet_broadcast_address
  define d1 where "d1 = dhcp_discover ?m 5 1 dhcp_init"
  define d2 where "d2 = fst (dhcp_handle 0 ?m 0 (server_packet (replicate 20 0) sample_udp sample_bootp [(54, [0, 0, 0, 7]), (53, [2])] []) sample_ip d1)"
  define d3 where "d3 = fst (dhcp_handle 0 ?m 0 (server_packet (replicate 20 0) sample_udp sample_bootp [(51, [0, 0, 1, 0]), (53, [5])] []) sample_ip d2)"
  have "dh_state d3 = D_done \<and> dh_results d3 = [Some (lease_init\<lparr>ls_ip := 9, ls_lease_time := Some 256\<rparr>)]"
    using dhcp_lease_obtained [OF sample_addressed(1) _ sample_addressed(2) _ d1_def d2_def d3_def] by (simp add: sample_told)
  then show ?thesis by blast
qed

subsection \<open>Every run\<close>

inductive dhcp_reachable :: "ethernet_address \<Rightarrow> dhcp \<Rightarrow> bool" for mac where
  start: "dhcp_reachable mac (dhcp_discover mac xid timeout dhcp_init)"
| renewed: "dhcp_reachable mac (dhcp_renew mac xid l timeout dhcp_init)"
| move: "dhcp_reachable mac d \<Longrightarrow> dhcp_step mac d d' \<Longrightarrow> dhcp_reachable mac d'"

definition dhcp_inv :: "dhcp \<Rightarrow> bool" where
  "dhcp_inv d \<longleftrightarrow> (case dh_state d of
       D_none \<Rightarrow> False
     | D_discover \<Rightarrow> dh_results d = []
     | D_request \<Rightarrow> dh_results d = [] \<and> \<not> dh_retry d
     | D_done \<Rightarrow> (\<exists>l. dh_results d = [Some l]) \<and> \<not> dh_retry d
     | D_fail \<Rightarrow> (dh_results d = [None] \<or> (\<exists>l. dh_results d = [Some l, None])) \<and> \<not> dh_retry d \<and> \<not> dh_timer d)"

lemma dhcp_process_inv: "dhcp_inv d \<Longrightarrow> dhcp_inv (dhcp_process mac xid p dhp off d)"
  by (auto simp: dhcp_inv_def dhcp_process_def Let_def send_request_def send_discover_def dhcp_send_def split: dhcp_state.splits)

lemma dhcp_step_inv: "dhcp_step mac d d' \<Longrightarrow> dhcp_inv d \<Longrightarrow> dhcp_inv d'"
proof (induction rule: dhcp_step.induct)
  case (packet d xid p iph)
  then show ?case by (auto simp: dhcp_handle_def dhcp_process_inv split: option.split)
next
  case (timeout d)
  then show ?case by (auto simp: dhcp_inv_def dhcp_timeout_def split: dhcp_state.splits)
next
  case (retry d xid)
  then show ?case
    by (auto simp: dhcp_inv_def dhcp_retry_def send_discover_def dhcp_send_def Let_def split: dhcp_state.splits)
qed

lemma dhcp_reachable_inv: "dhcp_reachable mac d \<Longrightarrow> dhcp_inv d"
proof (induction rule: dhcp_reachable.induct)
  case (move d d')
  then show ?case using dhcp_step_inv by blast
qed (simp_all add: dhcp_inv_def dhcp_discover_def dhcp_renew_def dhcp_run_def send_discover_def dhcp_send_def Let_def dhcp_init_def)

text \<open>In every run, whatever packets come and whenever the timers fire: while the client discovers or
  requests, it has no result; when it is done its one result is a lease; it sends discoveries again
  only while it discovers; and it has a second result only when the timer, which a lease does not
  stop, fires behind it.\<close>

theorem dhcp_results:
  assumes "dhcp_reachable mac d"
  shows "(dh_results d = [] \<longleftrightarrow> dh_state d = D_discover \<or> dh_state d = D_request) \<and>
    (dh_state d = D_done \<longleftrightarrow> (\<exists>l. dh_results d = [Some l])) \<and>
    (dh_retry d \<longrightarrow> dh_state d = D_discover) \<and>
    (dh_state d = D_fail \<longleftrightarrow> dh_results d = [None] \<or> (\<exists>l. dh_results d = [Some l, None]))"
  using dhcp_reachable_inv [OF assms] by (auto simp: dhcp_inv_def split: dhcp_state.splits)

theorem dhcp_results_witness:
  "\<exists>d. dhcp_reachable ethernet_broadcast_address d \<and> dh_state d = D_fail \<and> length (dh_results d) = 2"
proof -
  let ?m = ethernet_broadcast_address
  define d1 where "d1 = dhcp_discover ?m 5 1 dhcp_init"
  define d2 where "d2 = fst (dhcp_handle 0 ?m 0 (server_packet (replicate 20 0) sample_udp sample_bootp [(54, [0, 0, 0, 7]), (53, [2])] []) sample_ip d1)"
  define d3 where "d3 = fst (dhcp_handle 0 ?m 0 (server_packet (replicate 20 0) sample_udp sample_bootp [(51, [0, 0, 1, 0]), (53, [5])] []) sample_ip d2)"
  have d1: "dh_state d1 = D_discover" "dh_results d1 = []"
    by (simp_all add: d1_def dhcp_discover_def dhcp_run_def send_discover_def dhcp_send_def Let_def dhcp_init_def)
  have d3: "length (dh_results d3) = 1"
    using exchange [OF sample_addressed(1) _ sample_addressed(2) _ d1(1) d2_def d3_def] d1(2)
    by (simp add: sample_told send_request_def dhcp_send_def Let_def)
  have t: "dh_timer d1" by (simp add: d1_def dhcp_discover_def dhcp_run_def Let_def)
  have keep: "dh_timer (fst (dhcp_handle 0 ?m x p i d)) = dh_timer d" for x p i d
    by (simp add: dhcp_handle_def dhcp_process_def Let_def send_request_def send_discover_def dhcp_send_def split: option.split dhcp_state.split)
  have "dh_timer d3" using t by (simp add: d3_def d2_def keep)
  have "dhcp_reachable ?m d3" unfolding d3_def d2_def d1_def
    by (intro dhcp_reachable.move [OF _ dhcp_step.packet] dhcp_reachable.start)
  then have r: "dhcp_reachable ?m (dhcp_timeout d3)"
    using dhcp_reachable.move dhcp_step.timeout \<open>dh_timer d3\<close> by blast
  moreover have "dh_state (dhcp_timeout d3) = D_fail" "length (dh_results (dhcp_timeout d3)) = 2"
    using d3 by (simp_all add: dhcp_timeout_def)
  ultimately show ?thesis using dhcp_results [OF r] by blast
qed

text \<open>Neither the transaction nor the hardware address of a message is compared with those of the
  client. So any message to its port that is no offer, also one that answers another client, stops
  the retries of a discovery for good: it stays in its state with nothing sent, and only a further
  message or the timeout moves it.\<close>

theorem foreign_message_stops_retries:
  assumes "addressed ip iph u h opts" "ii_type (told h opts) \<noteq> msg_offer" "dh_state d = D_discover"
    and "bp_xid h \<noteq> dh_xid d" "d' = fst (dhcp_handle 0 mac xid (server_packet ip u h opts rest) iph d)"
  shows "dh_state d' = D_discover \<and> dh_sent d' = dh_sent d \<and>
    (\<forall>d''. dhcp_step mac d' d'' \<longrightarrow> d'' = dhcp_timeout d' \<or> (\<exists>xid p iph. d'' = fst (dhcp_handle 0 mac xid p iph d')))"
proof -
  have "d' = d\<lparr>dh_retry := False\<rparr>"
    using message_handled [OF assms(1), of d mac xid rest] assms(2,3,5) by (simp add: Let_def)
  then have "dh_state d' = D_discover" "dh_sent d' = dh_sent d" "\<not> dh_retry d'" using assms(3) by simp_all
  moreover have "d'' = dhcp_timeout d' \<or> (\<exists>xid p iph. d'' = fst (dhcp_handle 0 mac xid p iph d'))" if "dhcp_step mac d' d''" for d''
    using that \<open>\<not> dh_retry d'\<close> by cases blast+
  ultimately show ?thesis by blast
qed

theorem foreign_message_stops_retries_witness:
  "\<exists>d'. dh_state d' = D_discover \<and>
     d' = fst (dhcp_handle 0 ethernet_broadcast_address 0 (server_packet (replicate 20 0) sample_udp sample_bootp [(51, [0, 0, 1, 0]), (53, [5])] [])
       sample_ip (dhcp_discover ethernet_broadcast_address 5 1 dhcp_init))"
proof -
  let ?d = "dhcp_discover ethernet_broadcast_address 5 1 dhcp_init"
  have "dh_state ?d = D_discover" "dh_xid ?d = 5"
    by (simp_all add: dhcp_discover_def dhcp_run_def send_discover_def dhcp_send_def Let_def)
  then show ?thesis
    using foreign_message_stops_retries [OF sample_addressed(2) _ _ _ refl, of ?d] by (simp add: sample_told) (simp add: sample_bootp_def dhcp_header_init_def)
qed

end
