(* ===== verification/Netif.thy ===== *)
theory Netif
  imports NetTypes
begin

text \<open>
  Network interfaces and device queues, \<open>network/net.hh\<close> and \<open>network/net.cc\<close>: the queue of packets to be
  sent, filled from packet providers; the provider of an interface, which asks its protocols in turn
  and puts the link layer header in front; the dispatch of received packets to the protocols and to
  other shards; and the choice of the shard by hash.

  A packet provider is a function of the state of its protocols. The redirection table is built with
  floating point numbers and is a given table here.
\<close>

subsection \<open>The interface as a packet provider\<close>

definition ethernet_frame :: "ethernet_address \<Rightarrow> l3packet \<Rightarrow> bytes" where
  "ethernet_frame hw p =
     eth_hdr_store (eth_hdr_hton \<lparr>dst_mac = l3_to p, src_mac = hw, eth_proto = eth_protocol_code (l3_proto_num p)\<rparr>) @ l3_p p"

text \<open>The loop over the providers from the next one on, at most \<open>n\<close> of them. The provider that gave the
  packet is part of the result.\<close>

fun iface_loop :: "nat \<Rightarrow> ('s \<Rightarrow> l3packet option \<times> 's) list \<Rightarrow> nat \<Rightarrow> 's \<Rightarrow> (nat \<times> l3packet) option \<times> nat \<times> 's" where
  "iface_loop 0 provs idx s = (None, idx, s)"
| "iface_loop (Suc n) provs idx s =
     (let (r, s1) = (provs ! idx) s; idx1 = (if idx + 1 = length provs then 0 else idx + 1)
      in case r of Some p \<Rightarrow> (Some (idx, p), idx1, s1) | None \<Rightarrow> iface_loop n provs idx1 s1)"

definition iface_poll :: "ethernet_address \<Rightarrow> ('s \<Rightarrow> l3packet option \<times> 's) list \<Rightarrow> nat \<times> 's \<Rightarrow> (bytes \<times> offload_info) option \<times> nat \<times> 's" where
  "iface_poll hw provs st =
     (let (r, st1) = iface_loop (length provs) provs (fst st) (snd st)
      in (map_option (\<lambda>(_, p). (ethernet_frame hw p, l3_oi p)) r, st1))"

subsection \<open>The queue of packets to be sent\<close>

text \<open>One round over the providers: a packet from each that has one, up to the full queue.\<close>

fun tx_round :: "('s \<Rightarrow> 'p option \<times> 's) list \<Rightarrow> 'p list \<Rightarrow> nat \<Rightarrow> 's \<Rightarrow> 'p list \<times> nat \<times> 's" where
  "tx_round [] q work s = (q, work, s)"
| "tx_round (pr # provs) q work s =
     (let (p, s1) = pr s in
      case p of
        None \<Rightarrow> tx_round provs q work s1
      | Some x \<Rightarrow> if length (q @ [x]) = 128 then (q @ [x], work + 1, s1) else tx_round provs (q @ [x]) (work + 1) s1)"

lemma tx_round_length: "tx_round provs q w s = (q', w', s') \<Longrightarrow> length q' + w = length q + w' \<and> w \<le> w'"
  by (induction provs q w s arbitrary: q' w' s' rule: tx_round.induct) (force split: prod.splits option.splits if_splits)+

function tx_fill :: "('s \<Rightarrow> 'p option \<times> 's) list \<Rightarrow> 'p list \<Rightarrow> 's \<Rightarrow> 'p list \<times> 's" where
  "tx_fill provs q s =
     (let (q1, work, s1) = tx_round provs q 0 s
      in if work \<noteq> 0 \<and> length q1 < 128 then tx_fill provs q1 s1 else (q1, s1))"
  by pat_completeness auto
termination
proof (relation "measure (\<lambda>(provs, q, s). 128 - length q)", goal_cases)
  case 1
  show ?case by simp
next
  case (2 provs q s x q1 y work s1)
  then have "tx_round provs q 0 s = (q1, work, s1)" by simp
  then show ?case using tx_round_length [of provs q 0 s q1 work s1] 2 by auto
qed

declare tx_fill.simps [simp del]

record qp_stats =
  st_packets :: u64
  st_last_bunch :: u64

definition update_pkts_bunch :: "u64 \<Rightarrow> qp_stats \<Rightarrow> qp_stats" where
  "update_pkts_bunch n st = st\<lparr>st_last_bunch := n, st_packets := st_packets st + n\<rparr>"

text \<open>A device takes packets from the front of the queue and says how many. This is what a device does that
  sends packets one at a time.\<close>

definition send_all :: "'p list \<Rightarrow> nat \<times> 'p list" where
  "send_all q = (length q, [])"

text \<open>\<open>poll_tx\<close>: whether there was something to send, the queue behind it, what the device was given, and
  the counters.\<close>

definition poll_tx :: "('p list \<Rightarrow> nat \<times> 'p list) \<Rightarrow> ('s \<Rightarrow> 'p option \<times> 's) list \<Rightarrow> 'p list \<Rightarrow> 's \<Rightarrow> qp_stats \<Rightarrow> bool \<times> 'p list \<times> 's \<times> qp_stats" where
  "poll_tx send provs q s st =
     (let (q1, s1) = (if length q < 16 then tx_fill provs q s else (q, s))
      in if q1 \<noteq> [] then (let (n, q2) = send q1 in (True, q2, s1, update_pkts_bunch (word_of_nat n) st))
         else (False, q1, s1, st))"

text \<open>The provider of the packets other shards send through this queue.\<close>

definition proxy_send :: "'p \<Rightarrow> 'p list \<Rightarrow> 'p list" where
  "proxy_send p q = q @ [p]"

definition proxy_provider :: "'p list \<Rightarrow> 'p option \<times> 'p list" where
  "proxy_provider q = (case q of [] \<Rightarrow> (None, []) | p # q' \<Rightarrow> (Some p, q'))"

subsection \<open>The shard of a packet\<close>

record device =
  dv_rss_table_bits :: nat
  dv_sw_reta :: "nat \<Rightarrow> u8 list option"
  dv_hw_queues_count :: u16
  dv_rss_key :: bytes

definition hash2qid :: "device \<Rightarrow> u32 \<Rightarrow> nat result" where
  "hash2qid dv hash =
     (if dv_hw_queues_count dv = 0 then Inl DivByZero else Inr (unat hash mod unat (dv_hw_queues_count dv)))"

text \<open>The hash function is only called when the queue has a table.\<close>

definition forward_dst :: "device \<Rightarrow> nat \<Rightarrow> u32 result \<Rightarrow> nat result" where
  "forward_dst dv src hashfn =
     (case dv_sw_reta dv src of
        None \<Rightarrow> Inr src
      | Some reta \<Rightarrow> andThen hashfn (\<lambda>h.
          if dv_rss_table_bits dv < 32
          then Inr (unat (reta ! (unat (drop_bit (dv_rss_table_bits dv) h) mod 128))) else Inl UndefinedShift))"

definition hash2cpu :: "device \<Rightarrow> u32 \<Rightarrow> nat result" where
  "hash2cpu dv hash = andThen (hash2qid dv hash) (\<lambda>q. forward_dst dv q (Inr hash))"

subsection \<open>Received packets\<close>

text \<open>A registered protocol: what it adds to the hash, which may end the program, and whether its stream is
  ready for the next packet.\<close>

record l3_rx =
  rx_forward :: "forward_hash \<Rightarrow> bytes \<Rightarrow> nat \<Rightarrow> (bool \<times> forward_hash) result"
  rx_ready :: bool

type_synonym proto_map = "u16 \<Rightarrow> l3_rx option"

definition register_l3 :: "u16 \<Rightarrow> l3_rx \<Rightarrow> proto_map \<Rightarrow> proto_map result" where
  "register_l3 proto rx m = andThen (assertion (m proto = None)) (\<lambda>_. Inr (m(proto \<mapsto> rx)))"

datatype dispatched = To_l3 u16 bytes ethernet_address | To_shard nat bytes | Dropped

definition packet_hash :: "device \<Rightarrow> u32 option \<Rightarrow> l3_rx \<Rightarrow> bytes \<Rightarrow> u32 result" where
  "packet_hash dv hwrss rx p =
     (case hwrss of
        Some h \<Rightarrow> Inr h
      | None \<Rightarrow> andThen (rx_forward rx [] p eth_hdr_len) (\<lambda>(ok, data).
          if ok then toeplitz_hash (dv_rss_key dv) data else Inr 0))"

text \<open>\<open>forward\<close> to another shard holds back at a thousand packets on their way.\<close>

definition forward_packet :: "nat \<Rightarrow> bytes \<Rightarrow> nat \<Rightarrow> dispatched \<times> nat" where
  "forward_packet cpu p depth = (if depth < 1000 then (To_shard cpu p, depth + 1) else (Dropped, depth))"

definition forwarded :: "nat \<Rightarrow> nat" where
  "forwarded depth = depth - 1"

definition dispatch_packet :: "device \<Rightarrow> nat \<Rightarrow> proto_map \<Rightarrow> u32 option \<Rightarrow> bytes \<Rightarrow> nat \<Rightarrow> (dispatched \<times> nat) result" where
  "dispatch_packet dv shard m hwrss p depth =
     (case v_get_header p 0 eth_hdr_len of
        None \<Rightarrow> Inr (Dropped, depth)
      | Some eh \<Rightarrow>
          (case m (ntoh16 (eth_proto (eth_hdr_load eh))) of
             None \<Rightarrow> Inr (Dropped, depth)
           | Some l3 \<Rightarrow> andThen (forward_dst dv shard (packet_hash dv hwrss l3 p)) (\<lambda>fw.
               if fw \<noteq> shard then Inr (forward_packet fw p depth)
               else (let h = eth_hdr_ntoh (eth_hdr_load eh) in
                 andThen (v_trim_front p eth_hdr_len) (\<lambda>p1.
                   if rx_ready l3 then Inr (To_l3 (eth_proto h) p1 (src_mac h), depth) else Inr (Dropped, depth))))))"

end
