(* ===== verification/NetifProps.thy ===== *)
theory NetifProps
  imports Netif
begin

text \<open>
  What interfaces and device queues promise: protocols are asked in turn, the queue of a device stays
  within its size and keeps the order, and a frame reaches the protocol it was sent by.
\<close>

subsection \<open>Turns\<close>

text \<open>How far the provider \<open>k\<close> is from the next one to be asked.\<close>

definition turns :: "nat \<Rightarrow> nat \<Rightarrow> nat \<Rightarrow> nat" where
  "turns n k idx = (if idx \<le> k then k - idx else n - idx + k)"

lemma turns_next:
  "idx < n \<Longrightarrow> k < n \<Longrightarrow> idx \<noteq> k \<Longrightarrow> Suc (turns n k (if idx + 1 = n then 0 else idx + 1)) = turns n k idx"
  by (auto simp: turns_def)

lemma turns_less: "idx < n \<Longrightarrow> k < n \<Longrightarrow> turns n k idx < n"
  by (auto simp: turns_def)

text \<open>A provider that has packets, and keeps them while others are asked.\<close>

definition keeps_packets :: "('s \<Rightarrow> l3packet option \<times> 's) list \<Rightarrow> nat \<Rightarrow> ('s \<Rightarrow> bool) \<Rightarrow> bool" where
  "keeps_packets provs k has \<longleftrightarrow> k < length provs \<and>
     (\<forall>s j. has s \<and> j < length provs \<and> j \<noteq> k \<longrightarrow> has (snd ((provs ! j) s))) \<and>
     (\<forall>s. has s \<longrightarrow> fst ((provs ! k) s) \<noteq> None)"

lemma keeps_packetsD:
  assumes "keeps_packets provs k has"
  shows "k < length provs" "has s \<Longrightarrow> j < length provs \<Longrightarrow> j \<noteq> k \<Longrightarrow> has (snd ((provs ! j) s))"
    "has s \<Longrightarrow> \<exists>p s'. (provs ! k) s = (Some p, s')"
  using assms unfolding keeps_packets_def by (auto simp: prod_eq_iff)

lemma iface_loop_turn:
  assumes k: "keeps_packets provs k has"
  shows "has s \<Longrightarrow> idx < length provs \<Longrightarrow> turns (length provs) k idx < n \<Longrightarrow>
    \<exists>j p idx' s'. iface_loop n provs idx s = (Some (j, p), idx', s') \<and>
      (j = k \<or> has s' \<and> idx' < length provs \<and> turns (length provs) k idx' < turns (length provs) k idx)"
proof (induction n arbitrary: idx s)
  case (Suc n)
  let ?next = "if idx + 1 = length provs then 0 else idx + 1"
  have kl: "k < length provs" by (rule keeps_packetsD(1) [OF k])
  have next_ok: "?next < length provs" using Suc.prems(2) by auto
  obtain r s1 where r: "(provs ! idx) s = (r, s1)" by (metis surj_pair)
  show ?case
  proof (cases "idx = k")
    case True
    then obtain p where "r = Some p" using keeps_packetsD(3) [OF k Suc.prems(1)] r by auto
    then show ?thesis using r True by (simp add: Let_def)
  next
    case False
    have t: "Suc (turns (length provs) k ?next) = turns (length provs) k idx" by (rule turns_next [OF Suc.prems(2) kl False])
    have h: "has s1" using keeps_packetsD(2) [OF k Suc.prems(1,2) False] r by simp
    show ?thesis
    proof (cases r)
      case (Some p)
      have "turns (length provs) k ?next < turns (length provs) k idx" using t by linarith
      then show ?thesis using r Some h next_ok by (simp add: Let_def)
    next
      case None
      have "turns (length provs) k ?next < n" using t Suc.prems(3) by linarith
      then obtain j p idx' s' where i: "iface_loop n provs ?next s1 = (Some (j, p), idx', s')"
        and j: "j = k \<or> has s' \<and> idx' < length provs \<and> turns (length provs) k idx' < turns (length provs) k ?next"
        using Suc.IH [OF h next_ok] by blast
      have "iface_loop (Suc n) provs idx s = (Some (j, p), idx', s')" using r None i by (simp add: Let_def)
      moreover have "j = k \<or> has s' \<and> idx' < length provs \<and> turns (length provs) k idx' < turns (length provs) k idx"
        using j t by linarith
      ultimately show ?thesis by blast
    qed
  qed
qed simp

text \<open>What a number of polls send, with the providers that gave it.\<close>

fun iface_polls :: "nat \<Rightarrow> ('s \<Rightarrow> l3packet option \<times> 's) list \<Rightarrow> nat \<times> 's \<Rightarrow> (nat \<times> l3packet) option list" where
  "iface_polls 0 provs st = []"
| "iface_polls (Suc n) provs st =
     (let (r, st1) = iface_loop (length provs) provs (fst st) (snd st) in r # iface_polls n provs st1)"

lemma polls_reach:
  assumes k: "keeps_packets provs k has"
  shows "has s \<Longrightarrow> idx < length provs \<Longrightarrow> turns (length provs) k idx < n \<Longrightarrow> \<exists>p. Some (k, p) \<in> set (iface_polls n provs (idx, s))"
proof (induction n arbitrary: idx s)
  case (Suc n)
  have "turns (length provs) k idx < length provs" by (rule turns_less [OF Suc.prems(2) keeps_packetsD(1) [OF k]])
  then obtain j p idx' s' where l: "iface_loop (length provs) provs idx s = (Some (j, p), idx', s')"
    and j: "j = k \<or> has s' \<and> idx' < length provs \<and> turns (length provs) k idx' < turns (length provs) k idx"
    using iface_loop_turn [OF k Suc.prems(1,2)] by blast
  have polls: "iface_polls (Suc n) provs (idx, s) = Some (j, p) # iface_polls n provs (idx', s')" using l by simp
  show ?case
  proof (cases "j = k")
    case True
    then show ?thesis unfolding polls by auto
  next
    case False
    then have "has s'" "idx' < length provs" "turns (length provs) k idx' < n" using j Suc.prems(3) by auto
    from Suc.IH [OF this] show ?thesis unfolding polls by auto
  qed
qed simp

text \<open>C26. No protocol of an interface waits for ever: one that has packets gets one of its packets sent within
  as many polls as there are protocols, whatever the others send and whichever is asked next.\<close>

theorem every_protocol_gets_its_turn:
  assumes "keeps_packets provs k has" "has s" "idx < length provs"
  shows "\<exists>p. Some (k, p) \<in> set (iface_polls (length provs) provs (idx, s))"
  using polls_reach [OF assms] turns_less [OF assms(3) keeps_packetsD(1) [OF assms(1)]] by blast

text \<open>For the witness: protocols with a queue each.\<close>

definition pops :: "nat \<Rightarrow> l3packet list list \<Rightarrow> l3packet option \<times> l3packet list list" where
  "pops i qs = (case qs ! i of [] \<Rightarrow> (None, qs) | p # q \<Rightarrow> (Some p, qs[i := q]))"

definition sample_l3 :: l3packet where
  "sample_l3 = \<lparr>l3_proto_num = arp_num, l3_to = ethernet_broadcast_address, l3_p = [1, 2], l3_oi = offload_info_init\<rparr>"

theorem every_protocol_gets_its_turn_witness:
  "\<exists>p. Some (1, p) \<in> set (iface_polls 2 [pops 0, pops 1] (0, [[sample_l3, sample_l3], [sample_l3]]))"
proof -
  have "keeps_packets [pops 0, pops 1] 1 (\<lambda>qs. length qs = 2 \<and> qs ! 1 \<noteq> [])"
    by (auto simp: keeps_packets_def pops_def less_Suc_eq numeral_2_eq_2 split: list.splits)
  moreover have "length [[sample_l3, sample_l3], [sample_l3]] = 2 \<and> [[sample_l3, sample_l3], [sample_l3]] ! 1 \<noteq> []"
    "0 < length [pops 0, pops 1]" by simp_all
  ultimately have "\<exists>p. Some (1, p) \<in> set (iface_polls (length [pops 0, pops 1]) [pops 0, pops 1] (0, [[sample_l3, sample_l3], [sample_l3]]))"
    by (rule every_protocol_gets_its_turn)
  then show ?thesis by (simp only: list.size add_0 numeral_2_eq_2 plus_nat.add_Suc)
qed

subsection \<open>The queue\<close>

fun calls :: "('s \<Rightarrow> 'p option \<times> 's) list \<Rightarrow> 's \<Rightarrow> 'p list \<times> 's" where
  "calls [] s = ([], s)"
| "calls (pr # prs) s = (let (p, s1) = pr s; (ps, s2) = calls prs s1 in ((case p of None \<Rightarrow> [] | Some x \<Rightarrow> [x]) @ ps, s2))"

lemma calls_append: "calls (xs @ ys) s = (let (ps, s1) = calls xs s; (qs, s2) = calls ys s1 in (ps @ qs, s2))"
  by (induction xs arbitrary: s) (simp_all split: prod.split)

lemma tx_round_calls:
  assumes "length q < 128" "tx_round provs q w s = (q', w', s')"
  shows "\<exists>m given. calls (take m provs) s = (given, s') \<and> q' = q @ given \<and> w' = w + length given \<and> length q' \<le> 128 \<and>
    (length q' = 128 \<or> m = length provs)"
  using assms
proof (induction provs q w s arbitrary: q' w' s' rule: tx_round.induct)
  case (1 q w s)
  then show ?case by simp
next
  case (2 pr provs q w s)
  obtain r s1 where r: "pr s = (r, s1)" by (metis surj_pair)
  show ?case
  proof (cases r)
    case None
    have "tx_round provs q w s1 = (q', w', s')" using 2(4) r None by simp
    from 2(1) [OF r [symmetric] refl None 2(3) this] obtain m given where "calls (take m provs) s1 = (given, s')" "q' = q @ given"
        "w' = w + length given" "length q' \<le> 128" "length q' = 128 \<or> m = length provs" by blast
    then show ?thesis using r None by (intro exI [of _ "Suc m"]) auto
  next
    case (Some x)
    show ?thesis
    proof (cases "length (q @ [x]) = 128")
      case True
      then show ?thesis using 2(4) r Some by (intro exI [of _ 1]) auto
    next
      case False
      then have "length (q @ [x]) < 128" using 2(3) by simp
      have "tx_round provs (q @ [x]) (w + 1) s1 = (q', w', s')" using 2(4) r Some False by simp
      from 2(2) [OF r [symmetric] refl Some False \<open>length (q @ [x]) < 128\<close> this] obtain m given where "calls (take m provs) s1 = (given, s')"
          "q' = (q @ [x]) @ given" "w' = w + 1 + length given" "length q' \<le> 128" "length q' = 128 \<or> m = length provs" by blast
      then show ?thesis using r Some by (intro exI [of _ "Suc m"]) auto
    qed
  qed
qed

lemma tx_fill_calls:
  assumes "length q < 128" "tx_fill provs q s = (q', s')"
  shows "\<exists>n m given. calls (concat (replicate n provs) @ take m provs) s = (given, s') \<and> q' = q @ given \<and> length q' \<le> 128 \<and>
    (length q' = 128 \<or> (\<exists>r. calls provs r = ([], s')))"
  using assms
proof (induction provs q s arbitrary: q' s' rule: tx_fill.induct)
  case (1 provs q s)
  obtain q1 w s1 where r: "tx_round provs q 0 s = (q1, w, s1)" by (metis prod_cases3)
  obtain m given where g: "calls (take m provs) s = (given, s1)" "q1 = q @ given" "w = length given" "length q1 \<le> 128"
      "length q1 = 128 \<or> m = length provs"
    using tx_round_calls [OF 1(2) r] unfolding add_0 by blast
  show ?case
  proof (cases "w \<noteq> 0 \<and> length q1 < 128")
    case True
    then have m: "calls provs s = (given, s1)" using g(1,5) by simp
    have "tx_fill provs q1 s1 = (q', s')" using 1(3) r True by (simp add: tx_fill.simps [of provs q s])
    then obtain n k more where "calls (concat (replicate n provs) @ take k provs) s1 = (more, s')" "q' = q1 @ more" "length q' \<le> 128"
        "length q' = 128 \<or> (\<exists>r. calls provs r = ([], s'))"
      using 1(1) [OF r [symmetric] refl refl True] True by blast
    moreover from this(1) have "calls (concat (replicate (Suc n) provs) @ take k provs) s = (given @ more, s')"
      using m by (simp add: calls_append)
    ultimately show ?thesis using g(2) by (metis append_assoc)
  next
    case False
    then have e: "q' = q1" "s' = s1" using 1(3) r by (auto simp: tx_fill.simps [of provs q s])
    have "length q1 = 128 \<or> calls provs s = ([], s1)" using False g by auto
    then have "length q' = 128 \<or> (\<exists>r. calls provs r = ([], s'))" using e by blast
    moreover have "calls (concat (replicate 0 provs) @ take m provs) s = (given, s')" using g(1) e(2) by simp
    ultimately show ?thesis using g(2,4) e(1) by blast
  qed
qed

text \<open>Polling a queue that is within its 128 packets keeps it so. The packets the device was given and those
  left are those that waited and then those the providers gave, asked in turn, in order; providers
  are asked until the queue is full or none of them has a packet in a whole round, and only when
  fewer than 16 wait; and the counter of packets grows by what was sent.\<close>

theorem poll_tx_in_order:
  assumes "length q \<le> 128" "\<And>q. snd (send q) = drop (fst (send q)) q \<and> fst (send q) \<le> length q"
    and "poll_tx send provs q s st = (busy, q', s', st')"
  shows "\<exists>n m given sent. calls (concat (replicate n provs) @ take m provs) s = (given, s') \<and> q @ given = sent @ q' \<and>
    length (q @ given) \<le> 128 \<and> (busy \<longleftrightarrow> q @ given \<noteq> []) \<and> st_packets st' = st_packets st + word_of_nat (length sent) \<and>
    (if length q < 16 then length (q @ given) = 128 \<or> (\<exists>r. calls provs r = ([], s')) else given = [])"
proof -
  obtain q1 s1 where f: "(if length q < 16 then tx_fill provs q s else (q, s)) = (q1, s1)" by (metis surj_pair)
  have "\<exists>n m given. calls (concat (replicate n provs) @ take m provs) s = (given, s1) \<and> q1 = q @ given \<and> length q1 \<le> 128 \<and>
    (if length q < 16 then length q1 = 128 \<or> (\<exists>r. calls provs r = ([], s1)) else given = [])"
  proof (cases "length q < 16")
    case True
    then show ?thesis using tx_fill_calls [of q provs s q1 s1] f by auto
  next
    case False
    then show ?thesis using f assms(1) by (intro exI [of _ 0]) auto
  qed
  then obtain n m given where g: "calls (concat (replicate n provs) @ take m provs) s = (given, s1)" "q1 = q @ given" "length q1 \<le> 128"
      "if length q < 16 then length q1 = 128 \<or> (\<exists>r. calls provs r = ([], s1)) else given = []" by blast
  show ?thesis
  proof (cases "q1 = []")
    case True
    then have "q' = []" "s' = s1" "st' = st" "\<not> busy" using assms(3) f by (auto simp: poll_tx_def)
    then show ?thesis using g True
      by - (rule exI [of _ n], rule exI [of _ m], rule exI [of _ given], rule exI [of _ "[]"], simp)
  next
    case False
    obtain k q2 where k: "send q1 = (k, q2)" by (metis surj_pair)
    have q2: "q2 = drop k q1" "k \<le> length q1" using assms(2) [of q1] k by simp_all
    have e: "busy" "q' = q2" "s' = s1" "st' = update_pkts_bunch (word_of_nat k) st"
      using assms(3) f False k by (auto simp: poll_tx_def)
    have "q1 = take k q1 @ q'" using e(2) q2(1) by simp
    then have "q @ given = take k q1 @ q'" by (simp only: g(2) [symmetric])
    moreover have "length (q @ given) \<le> 128" "busy \<longleftrightarrow> q @ given \<noteq> []" using g(2,3) False e(1) by simp_all
    moreover have "st_packets st' = st_packets st + word_of_nat (length (take k q1))"
      using e(4) q2(2) by (simp add: update_pkts_bunch_def)
    moreover have "if length q < 16 then length (q @ given) = 128 \<or> (\<exists>r. calls provs r = ([], s')) else given = []"
      using g(4) unfolding g(2) e(3) .
    moreover have "calls (concat (replicate n provs) @ take m provs) s = (given, s')" using g(1) e(3) by simp
    ultimately show ?thesis by blast
  qed
qed

theorem poll_tx_in_order_witness:
  "\<exists>given sent. [7 :: nat] @ given = sent @ [] \<and> length ([7] @ given) \<le> 128"
proof -
  let ?pr = "\<lambda>q :: nat list. case q of [] \<Rightarrow> (None, []) | p # q' \<Rightarrow> (Some p, q')"
  obtain s' st' where "poll_tx send_all [?pr] [7] [1, 2] \<lparr>st_packets = 0, st_last_bunch = 0\<rparr> = (True, [], s', st')"
    by (simp add: poll_tx_def send_all_def tx_fill.simps)
  from poll_tx_in_order [OF _ _ this] show ?thesis by (force simp: send_all_def)
qed

subsection \<open>Frames\<close>

lemma iface_loop_gives:
  "iface_loop n provs idx s = (Some (j, p), idx', s') \<Longrightarrow> idx < length provs \<Longrightarrow>
    j < length provs \<and> idx' < length provs \<and> (\<exists>r. fst ((provs ! j) r) = Some p)"
proof (induction n arbitrary: idx s)
  case (Suc n)
  obtain r s1 where r: "(provs ! idx) s = (r, s1)" by (metis surj_pair)
  have "(if idx + 1 = length provs then 0 else idx + 1) < length provs" using Suc.prems(2) by auto
  then show ?case
    using Suc.IH [of "if idx + 1 = length provs then 0 else idx + 1" s1] Suc.prems r
    by (cases r) (auto simp: Let_def simp del: One_nat_def intro: exI [of _ s])
qed simp

text \<open>A frame an interface sends is taken apart by any interface that receives it: with the protocol
  registered and its stream ready, the protocol of the packet gets exactly the packet, from the
  address of the sender; if the hash says so, the frame goes to the other shard unchanged, unless a
  thousand are on their way; without a protocol, or while its stream is busy, it is dropped.\<close>

theorem frame_dispatched:
  assumes "iface_poll hw provs (idx, s) = (Some (f, oi), st')" "idx < length provs"
  shows "\<exists>p r j. fst ((provs ! j) r) = Some p \<and> j < length provs \<and> oi = l3_oi p \<and>
    (case m (eth_protocol_code (l3_proto_num p)) of
       None \<Rightarrow> dispatch_packet dv shard m hwrss f depth = Inr (Dropped, depth)
     | Some l3 \<Rightarrow>
         (case forward_dst dv shard (packet_hash dv hwrss l3 f) of
            Inl e \<Rightarrow> dispatch_packet dv shard m hwrss f depth = Inl e
          | Inr fw \<Rightarrow> dispatch_packet dv shard m hwrss f depth = Inr
              (if fw \<noteq> shard then if depth < 1000 then (To_shard fw f, depth + 1) else (Dropped, depth)
               else if rx_ready l3 then (To_l3 (eth_protocol_code (l3_proto_num p)) (l3_p p) hw, depth) else (Dropped, depth))))"
proof -
  obtain j p where l: "iface_loop (length provs) provs idx s = (Some (j, p), st')" and f: "f = ethernet_frame hw p" "oi = l3_oi p"
    using assms(1) by (auto simp: iface_poll_def split: prod.splits)
  obtain idx' s' where "st' = (idx', s')" by (metis surj_pair)
  then obtain r where "fst ((provs ! j) r) = Some p" "j < length provs" using iface_loop_gives assms(2) l by metis
  moreover
  let ?h = "\<lparr>dst_mac = l3_to p, src_mac = hw, eth_proto = eth_protocol_code (l3_proto_num p)\<rparr>"
  have g: "v_get_header f 0 14 = Some (eth_hdr_store (eth_hdr_hton ?h))" "drop 14 f = l3_p p" "14 \<le> length f"
    by (simp_all add: f ethernet_frame_def v_get_header_def slice_def)
  have "eth_hdr_ntoh (eth_hdr_load (eth_hdr_store (eth_hdr_hton ?h))) = ?h" using eth_hdr_round_trip [of ?h "[]"] by simp
  moreover from this have "ntoh16 (eth_proto (eth_hdr_load (eth_hdr_store (eth_hdr_hton ?h)))) = eth_protocol_code (l3_proto_num p)"
    by (simp add: eth_hdr_ntoh_def eth_hdr_load_def eth_hdr_store_def eth_hdr_hton_def)
  ultimately show ?thesis
    using f(2) g by (intro exI [of _ p] exI [of _ r] exI [of _ j])
      (auto simp: dispatch_packet_def forward_packet_def split: option.split sum.split)
qed

theorem frame_dispatched_witness:
  "\<exists>p f oi st'. iface_poll ethernet_broadcast_address [pops 0] (0, [[sample_l3]]) = (Some (f, oi), st') \<and>
     dispatch_packet \<lparr>dv_rss_table_bits = 0, dv_sw_reta = (\<lambda>_. None), dv_hw_queues_count = 1, dv_rss_key = []\<rparr> 0 Map.empty None f 0
       = Inr (Dropped, 0) \<and> p = sample_l3"
proof -
  obtain f oi st' where i: "iface_poll ethernet_broadcast_address [pops 0] (0, [[sample_l3]]) = (Some (f, oi), st')"
    by (simp add: iface_poll_def pops_def)
  then show ?thesis using frame_dispatched [where m = Map.empty, OF i] by auto
qed

end
