(* ===== verification/Vring.thy ===== *)
theory Vring
  imports Netif
begin

text \<open>
  The rings of the virtio driver, class \<open>vring\<close> of \<open>network/virtio.cc\<close>: a table of descriptors shared
  with the host, the ring of available chains the driver writes, and the ring of used chains the host
  writes. Free descriptors form a list through their \<open>_next\<close> fields, between \<open>_free_head\<close> and
  \<open>_free_last\<close>; the buffers of one chain are linked through the same fields with \<open>has_next\<close> set. What
  the driver must get back with a chain is kept under the index of its first descriptor.

  The memory that is shared with the host is part of the record. The host's moves are steps of their
  own in the theory of the device queues. What is moved out of \<open>_buffer_chains\<close> leaves \<open>None\<close> behind.
  The semaphore of available descriptors belongs to the core library: here it is its count, and a
  wait is a decrement where the count is large enough. What a client does with a completed chain is a
  parameter; its only access to the ring is that semaphore.
\<close>

subsection \<open>The shared memory and the ring\<close>

record desc =
  d_paddr :: u64
  d_len :: u32
  d_has_next :: bool
  d_writeable :: bool
  d_indirect :: bool
  d_next :: u16

definition desc_zero :: desc where
  "desc_zero = \<lparr>d_paddr = 0, d_len = 0, d_has_next = False, d_writeable = False, d_indirect = False, d_next = 0\<rparr>"

record buffer =
  b_addr :: u64
  b_len :: u32
  b_writeable :: bool

record used_elem =
  ue_id :: u32
  ue_len :: u32

record 'c vring =
  vr_size :: nat
  vr_event_index :: bool
  vr_descs :: "desc list"
  vr_buffer_chains :: "'c option list"
  vr_avail_ring :: "u16 list"
  vr_avail_idx :: u16
  vr_avail_head :: u16
  vr_avail_added :: u16
  vr_used_flags :: u16
  vr_used_idx :: u16
  vr_used_elements :: "used_elem list"
  vr_used_tail :: u16
  vr_avail_event :: u16
  vr_available :: nat
  vr_free_head :: int
  vr_free_last :: int
  vr_kicks :: nat

subsection \<open>Construction\<close>

definition vring_setup :: "'c vring \<Rightarrow> 'c vring" where
  "vring_setup r = r\<lparr>vr_descs := map (\<lambda>i. (vr_descs r ! i)\<lparr>d_next := word_of_nat (i + 1)\<rparr>) [0..<vr_size r],
     vr_free_head := 0, vr_free_last := int (vr_size r) - 1, vr_available := vr_available r + vr_size r\<rparr>"

text \<open>The storage is cleared when it is allocated.\<close>

definition vring_new :: "nat \<Rightarrow> bool \<Rightarrow> 'c vring" where
  "vring_new n event_index = vring_setup
     \<lparr>vr_size = n, vr_event_index = event_index, vr_descs = replicate n desc_zero,
      vr_buffer_chains = replicate n None, vr_avail_ring = replicate n 0, vr_avail_idx = 0,
      vr_avail_head = 0, vr_avail_added = 0, vr_used_flags = 0, vr_used_idx = 0,
      vr_used_elements = replicate n \<lparr>ue_id = 0, ue_len = 0\<rparr>, vr_used_tail = 0, vr_avail_event = 0,
      vr_available = 0, vr_free_head = -1, vr_free_last = -1, vr_kicks = 0\<rparr>"

definition masked :: "'c vring \<Rightarrow> u16 \<Rightarrow> nat" where
  "masked r idx = unat ((ucast idx :: u64) AND (word_of_nat (vr_size r) - 1))"

subsection \<open>Posting chains\<close>

definition at_desc :: "nat \<Rightarrow> (desc \<Rightarrow> desc) \<Rightarrow> 'c vring \<Rightarrow> 'c vring result" where
  "at_desc i f r = (if i < length (vr_descs r) then Inr (r\<lparr>vr_descs := (vr_descs r)[i := f (vr_descs r ! i)]\<rparr>)
                    else Inl OutOfRange)"

definition allocate_desc :: "'c vring \<Rightarrow> (nat \<times> 'c vring) result" where
  "allocate_desc r = andThen (assertion (vr_free_head r \<noteq> -1)) (\<lambda>_.
     let desc = vr_free_head r in
     if desc = vr_free_last r then Inr (nat desc, r\<lparr>vr_free_last := -1, vr_free_head := -1\<rparr>)
     else if 0 \<le> desc \<and> nat desc < length (vr_descs r)
       then Inr (nat desc, r\<lparr>vr_free_head := int (unat (d_next (vr_descs r ! nat desc)))\<rparr>)
       else Inl OutOfRange)"

text \<open>The loop over the buffers of a chain. The pseudo head of the code is \<open>None\<close> with the \<open>_next\<close> it was
  given.\<close>

definition link_prev :: "nat option \<Rightarrow> nat \<Rightarrow> 'c vring \<Rightarrow> 'c vring result" where
  "link_prev prev i r =
     (case prev of None \<Rightarrow> Inr r
      | Some p \<Rightarrow> at_desc p (\<lambda>d. d\<lparr>d_has_next := True, d_next := word_of_nat i\<rparr>) r)"

definition fill_desc :: "nat \<Rightarrow> buffer \<Rightarrow> 'c vring \<Rightarrow> 'c vring result" where
  "fill_desc i b = at_desc i (\<lambda>d. d\<lparr>d_has_next := False, d_indirect := False,
     d_writeable := b_writeable b, d_paddr := b_addr b, d_len := b_len b\<rparr>)"

primrec post_buffers :: "u16 \<Rightarrow> nat option \<Rightarrow> buffer list \<Rightarrow> 'c vring \<Rightarrow> (u16 \<times> 'c vring) result" where
  "post_buffers pseudo prev [] r = Inr (pseudo, r)"
| "post_buffers pseudo prev (b # bs) r =
     andThen (allocate_desc r) (\<lambda>(i, r1).
     andThen (link_prev prev i r1) (\<lambda>r2.
     andThen (fill_desc i b r2)
       (post_buffers (if prev = None then word_of_nat i else pseudo) (Some i) bs)))"

definition post_chain :: "('c \<Rightarrow> buffer list) \<Rightarrow> 'c \<Rightarrow> 'c vring \<Rightarrow> 'c vring result" where
  "post_chain buffers_of bc r =
     andThen (post_buffers 0 None (buffers_of bc) r) (\<lambda>(head, r1).
       if unat head < length (vr_buffer_chains r1) \<and> masked r1 (vr_avail_head r1) < length (vr_avail_ring r1)
       then Inr (r1\<lparr>vr_buffer_chains := (vr_buffer_chains r1)[unat head := Some bc],
                    vr_avail_ring := (vr_avail_ring r1)[masked r1 (vr_avail_head r1) := head],
                    vr_avail_head := vr_avail_head r1 + 1,
                    vr_avail_added := vr_avail_added r1 + 1\<rparr>)
       else Inl OutOfRange)"

primrec post_chains :: "('c \<Rightarrow> buffer list) \<Rightarrow> 'c list \<Rightarrow> 'c vring \<Rightarrow> 'c vring result" where
  "post_chains buffers_of [] r = Inr r"
| "post_chains buffers_of (bc # bcs) r = andThen (post_chain buffers_of bc r) (post_chains buffers_of bcs)"

definition notifications_disabled :: "'c vring \<Rightarrow> bool" where
  "notifications_disabled r \<longleftrightarrow> vr_used_flags r AND 1 \<noteq> 0"

definition kick :: "'c vring \<Rightarrow> 'c vring" where
  "kick r =
     (if \<not> vr_event_index r \<and> notifications_disabled r then r
      else let need_kick = (if vr_event_index r
                            then vr_avail_idx r - vr_avail_event r - 1 < vr_avail_added r else True)
        in if need_kick \<or> vr_avail_added r \<ge> 0xFFFF div 2
           then r\<lparr>vr_kicks := vr_kicks r + 1, vr_avail_added := 0\<rparr> else r)"

definition post :: "('c \<Rightarrow> buffer list) \<Rightarrow> 'c list \<Rightarrow> 'c vring \<Rightarrow> 'c vring result" where
  "post buffers_of bcs r =
     andThen (post_chains buffers_of bcs r) (\<lambda>r1. Inr (kick (r1\<lparr>vr_avail_idx := vr_avail_head r1\<rparr>)))"

subsection \<open>Completing chains\<close>

text \<open>The end of a chain: the inner loop of \<open>do_complete\<close>, which does not end where the chain is a cycle.\<close>

partial_function (option) chain_end :: "desc list \<Rightarrow> nat \<Rightarrow> nat result option" where
  [code]: "chain_end ds i =
     (if i < length ds
      then if d_has_next (ds ! i) then chain_end ds (unat (d_next (ds ! i))) else Some (Inr i)
      else Some (Inl OutOfRange))"

definition free_append :: "u32 \<Rightarrow> 'c vring \<Rightarrow> 'c vring result" where
  "free_append i r =
     (if vr_free_last r \<noteq> -1
      then if 0 \<le> vr_free_last r then at_desc (nat (vr_free_last r)) (\<lambda>d. d\<lparr>d_next := ucast i\<rparr>) r
           else Inl OutOfRange
      else Inr (r\<lparr>vr_free_head := sint i\<rparr>))"

lemma free_append_tail: "free_append i r = Inr r' \<Longrightarrow> vr_used_tail r' = vr_used_tail r"
  by (auto simp: free_append_def at_desc_def split: if_splits)

text \<open>One round of the outer loop.\<close>

definition complete_one ::
  "('c \<Rightarrow> u32 \<Rightarrow> 's \<times> nat \<Rightarrow> ('s \<times> nat) result) \<Rightarrow> 'c vring \<Rightarrow> 's \<Rightarrow> ('c vring \<times> 's) result option" where
  "complete_one complete r s =
     (let i = masked r (vr_used_tail r); r1 = r\<lparr>vr_used_tail := vr_used_tail r + 1\<rparr> in
      if \<not> i < length (vr_used_elements r1) then Some (Inl OutOfRange)
      else let id = ue_id (vr_used_elements r1 ! i); len = ue_len (vr_used_elements r1 ! i) in
      if \<not> unat id < length (vr_buffer_chains r1) then Some (Inl OutOfRange)
      else case vr_buffer_chains r1 ! unat id of
        None \<Rightarrow> Some (Inl NullDeref)
      | Some bc \<Rightarrow>
          (case andThen (complete bc len (s, vr_available r1)) (\<lambda>(s', n).
                  andThen (free_append id (r1\<lparr>vr_buffer_chains := (vr_buffer_chains r1)[unat id := None],
                                             vr_available := n\<rparr>)) (\<lambda>r2. Inr (r2, s'))) of
             Inl e \<Rightarrow> Some (Inl e)
           | Inr (r2, s') \<Rightarrow>
               map_option (\<lambda>m. andThen m (\<lambda>last. Inr (r2\<lparr>vr_free_last := int last\<rparr>, s')))
                 (chain_end (vr_descs r2) (unat id))))"

lemma complete_one_tail:
  "complete_one complete r s = Some (Inr (r', s')) \<Longrightarrow> vr_used_tail r' = vr_used_tail r + 1"
  by (auto simp: complete_one_def Let_def free_append_tail split: if_splits option.splits sum.splits prod.splits)

function complete_loop ::
  "('c \<Rightarrow> u32 \<Rightarrow> 's \<times> nat \<Rightarrow> ('s \<times> nat) result) \<Rightarrow> u16 \<Rightarrow> 'c vring \<Rightarrow> 's \<Rightarrow> ('c vring \<times> 's) result option" where
  "complete_loop complete used_head r s =
     (if used_head = vr_used_tail r then Some (Inr (r, s))
      else case complete_one complete r s of
        None \<Rightarrow> None
      | Some (Inl e) \<Rightarrow> Some (Inl e)
      | Some (Inr rs) \<Rightarrow> complete_loop complete used_head (fst rs) (snd rs))"
  by pat_completeness auto
termination
proof (relation "measure (\<lambda>(complete, used_head, r, s). unat (used_head - vr_used_tail r))", goal_cases)
  case 1
  show ?case by simp
next
  case (2 complete used_head r s m rs)
  then have "vr_used_tail (fst rs) = vr_used_tail r + 1"
    using complete_one_tail [of complete r s "fst rs" "snd rs"] by simp
  moreover have "unat (used_head - vr_used_tail r - 1) < unat (used_head - vr_used_tail r)"
    using 2 by (intro unat_mono measure_unat) auto
  ultimately show ?case by (cases rs) (simp add: algebra_simps)
qed

declare complete_loop.simps [simp del]

definition do_complete ::
  "(u64 \<Rightarrow> 's \<Rightarrow> 's) \<Rightarrow> ('c \<Rightarrow> u32 \<Rightarrow> 's \<times> nat \<Rightarrow> ('s \<times> nat) result) \<Rightarrow> 'c vring \<Rightarrow> 's \<Rightarrow>
     (bool \<times> 'c vring \<times> 's) result option" where
  "do_complete bunch complete r s =
     (let used_head = vr_used_idx r; count = uint (vr_used_tail r) - uint used_head
      in map_option (\<lambda>m. andThen m (\<lambda>rs. Inr (count \<noteq> 0, rs)))
           (complete_loop complete used_head r (bunch (word_of_int count) s)))"

end
