(* ===== verification/Virtio.thy ===== *)
theory Virtio
  imports Vring
begin

text \<open>
  The virtio network device, \<open>network/virtio.cc\<close>: the features it asks for, and the send and receive queue
  over the rings. Packets to be sent get the virtio header in front, which tells the host what it has to
  fill in, and become chains of one buffer for each fragment. Buffers for packets to be received are
  chains of one buffer; what the host wrote into one or several of them is a packet.

  Physical addresses of fragments, the addresses \<open>malloc\<close> returns and the memory the host has written are
  parameters. The system calls of the vhost set up are not modelled.
\<close>

subsection \<open>Features\<close>

definition set_feature :: "bool \<Rightarrow> nat list \<Rightarrow> u64 \<Rightarrow> u64" where
  "set_feature on bits f = (if on then fold (\<lambda>b f. f OR push_bit b 1) bits f else f)"

text \<open>The options of the device: \<open>None\<close> for one that was not given.\<close>

definition setup_features :: "(string \<Rightarrow> string option) \<Rightarrow> hw_features \<Rightarrow> u64 \<times> hw_features" where
  "setup_features opts hw =
     (let on = (\<lambda>o'. opts o' \<noteq> Some ''off'');
          f = set_feature True [28, 15] 0;
          f = set_feature (on ''event-index'') [29] f;
          f = set_feature (on ''csum-offload'') [0, 1] f;
          f = set_feature (on ''tso'') [11] f;
          f = set_feature (on ''lro'') [7] f;
          f = set_feature (on ''ufo'') [14, 10] f
      in (set_feature True [5] f,
          hw\<lparr>tx_csum_l4_offload := on ''csum-offload'', rx_csum_offload := on ''csum-offload'',
             tx_tso := on ''tso'', rx_lro := on ''lro'', tx_ufo := on ''ufo''\<rparr>))"

definition config_ring_size :: "(string \<Rightarrow> string option) \<Rightarrow> (string \<Rightarrow> nat) \<Rightarrow> nat" where
  "config_ring_size opts as_unsigned =
     (if opts ''event-index'' \<noteq> None then as_unsigned ''virtio-ring-size'' else 256)"

subsection \<open>The header in front of each packet\<close>

record net_hdr_mrg =
  vh_needs_csum :: bool
  vh_gso_type :: u8
  vh_hdr_len :: u16
  vh_gso_size :: u16
  vh_csum_start :: u16
  vh_csum_offset :: u16
  vh_num_buffers :: u16

definition net_hdr_zero :: net_hdr_mrg where
  "net_hdr_zero = \<lparr>vh_needs_csum = False, vh_gso_type = 0, vh_hdr_len = 0, vh_gso_size = 0, vh_csum_start = 0,
     vh_csum_offset = 0, vh_num_buffers = 0\<rparr>"

text \<open>The bytes of the header in memory. Without mergeable buffers the last field is not sent.\<close>

definition net_hdr_store :: "net_hdr_mrg \<Rightarrow> bytes" where
  "net_hdr_store v = [if vh_needs_csum v then 1 else 0, vh_gso_type v] @ store16 (vh_hdr_len v) @ store16 (vh_gso_size v) @
     store16 (vh_csum_start v) @ store16 (vh_csum_offset v) @ store16 (vh_num_buffers v)"

definition header_csum :: "bool \<Rightarrow> nat \<Rightarrow> u16 \<Rightarrow> net_hdr_mrg \<Rightarrow> net_hdr_mrg" where
  "header_csum needs start offset v =
     (if needs then v\<lparr>vh_needs_csum := True, vh_csum_start := word_of_nat start, vh_csum_offset := offset\<rparr> else v)"

definition tx_header :: "hw_features \<Rightarrow> packet \<Rightarrow> net_hdr_mrg" where
  "tx_header hw p =
     (let oi = p_offload_info p; ip_hdr_len = unat (oi_ip_hdr_len oi); tcp_hdr_len = unat (oi_tcp_hdr_len oi);
          udp_hdr_len = unat (oi_udp_hdr_len oi) in
      if \<not> tx_csum_l4_offload hw then net_hdr_zero
      else if oi_protocol oi = tcp_num then
        (let v = header_csum (oi_needs_csum oi) (eth_hdr_len + ip_hdr_len) 16 net_hdr_zero in
         if oi_tso_seg_size oi \<noteq> 0
         then v\<lparr>vh_gso_type := 1, vh_hdr_len := word_of_nat (eth_hdr_len + ip_hdr_len + tcp_hdr_len), vh_gso_size := oi_tso_seg_size oi\<rparr>
         else v)
      else if oi_protocol oi = udp_num then
        (let v = header_csum (oi_needs_csum oi) (eth_hdr_len + ip_hdr_len) 6 net_hdr_zero in
         if tx_ufo hw \<and> p_len p > unat (mtu hw) + eth_hdr_len
         then v\<lparr>vh_gso_type := 3, vh_hdr_len := word_of_nat (eth_hdr_len + ip_hdr_len + udp_hdr_len),
                vh_gso_size := mtu hw - word_of_nat ip_hdr_len - word_of_nat udp_hdr_len\<rparr>
         else v)
      else net_hdr_zero)"

subsection \<open>Counters\<close>

record vq_stats =
  vs_pkts :: qp_stats
  vs_nr_frags :: u64
  vs_bytes :: u64

definition update_frags_stats :: "u64 \<Rightarrow> u64 \<Rightarrow> vq_stats \<Rightarrow> vq_stats" where
  "update_frags_stats nfrags nbytes st =
     st\<lparr>vs_nr_frags := vs_nr_frags st + nfrags, vs_bytes := vs_bytes st + nbytes\<rparr>"

subsection \<open>The send queue\<close>

text \<open>The buffers of a packet. The fragments in the packet's own data have an address of their own for each
  packet.\<close>

definition fragment_to_buffer :: "(ptr \<Rightarrow> u64) \<Rightarrow> fragment \<Rightarrow> buffer" where
  "fragment_to_buffer phys f = \<lparr>b_addr = phys (frag_base f), b_len = word_of_nat (frag_size f), b_writeable = False\<rparr>"

definition packet_buffers :: "(packet \<Rightarrow> ptr \<Rightarrow> u64) \<Rightarrow> packet \<Rightarrow> buffer list" where
  "packet_buffers phys p = map (fragment_to_buffer (phys p)) (p_frags p)"

definition txq_complete :: "packet \<Rightarrow> u32 \<Rightarrow> 's \<times> nat \<Rightarrow> ('s \<times> nat) result" where
  "txq_complete p len sn = Inr (fst sn, snd sn + length (p_frags p))"

definition txq_bunch :: "u64 \<Rightarrow> 's \<Rightarrow> 's" where
  "txq_bunch c s = s"

text \<open>The packets that are taken from the queue, as long as there are descriptors for one fragment more
  than the packet has.\<close>

fun txq_take :: "hw_features \<Rightarrow> nat \<Rightarrow> heap \<Rightarrow> nat \<Rightarrow> packet list \<Rightarrow>
    (heap \<times> nat \<times> packet list \<times> packet list \<times> nat \<times> nat) result" where
  "txq_take hw header_len h avail [] = Inr (h, avail, [], [], 0, 0)"
| "txq_take hw header_len h avail (p # pb) =
     (if length (p_frags p) + 1 \<le> avail then
        andThen (packet_prepend_copy h (take header_len (net_hdr_store (tx_header hw p))) p) (\<lambda>(h1, q).
        andThen (assertion (length (p_frags q) \<le> avail)) (\<lambda>_.
        andThen (txq_take hw header_len h1 (avail - length (p_frags q)) pb) (\<lambda>(h2, avail', qs, rest, nbytes, nfrags).
          Inr (h2, avail', q # qs, rest, p_len p + nbytes, length (p_frags p) + nfrags))))
      else Inr (h, avail, [], p # pb, 0, 0))"

text \<open>\<open>txq::post\<close>: the memory, the ring, the queue behind it, the counters and the number of packets sent.\<close>

definition txq_post :: "hw_features \<Rightarrow> nat \<Rightarrow> (packet \<Rightarrow> ptr \<Rightarrow> u64) \<Rightarrow> heap \<Rightarrow> vq_stats \<Rightarrow> packet vring \<Rightarrow> packet list \<Rightarrow>
    (heap \<times> packet vring \<times> packet list \<times> vq_stats \<times> nat) result" where
  "txq_post hw header_len phys h st r pb =
     andThen (txq_take hw header_len h (vr_available r) pb) (\<lambda>(h1, avail, qs, rest, nbytes, nfrags).
     andThen (post (packet_buffers phys) qs (r\<lparr>vr_available := avail\<rparr>)) (\<lambda>r1.
       Inr (h1, r1, rest, update_frags_stats (word_of_nat nfrags) (word_of_nat nbytes) st, length qs)))"

definition txq_poll :: "packet vring \<Rightarrow> (bool \<times> packet vring \<times> unit) result option" where
  "txq_poll r = do_complete txq_bunch txq_complete r ()"

subsection \<open>The receive queue\<close>

record rx_fragment =
  rf_addr :: u64
  rf_len :: u64

text \<open>\<open>rx_received\<close> are the packets that went to the interface, each with the buffers that are freed with it.\<close>

record rxq =
  rx_remaining :: u32
  rx_fragments :: "rx_fragment list"
  rx_buffers :: "u64 list"
  rx_received :: "(rx_fragment list \<times> u64 list) list"
  rx_stats :: vq_stats
  rx_mallocs :: nat

definition rxq_new :: rxq where
  "rxq_new = \<lparr>rx_remaining = 0, rx_fragments = [], rx_buffers = [], rx_received = [],
     rx_stats = \<lparr>vs_pkts = \<lparr>st_packets = 0, st_last_bunch = 0\<rparr>, vs_nr_frags = 0, vs_bytes = 0\<rparr>, rx_mallocs = 0\<rparr>"

definition make_buffer_chain :: "(nat \<Rightarrow> u64) \<Rightarrow> nat \<Rightarrow> buffer" where
  "make_buffer_chain malloc i = \<lparr>b_addr = malloc i, b_len = 4096, b_writeable = True\<rparr>"

definition single_buffer :: "buffer \<Rightarrow> buffer list" where
  "single_buffer b = [b]"

text \<open>\<open>prepare_buffers\<close> waits for one descriptor (\<open>None\<close>: it has to) and takes all that are there.\<close>

definition prepare_buffers :: "(nat \<Rightarrow> u64) \<Rightarrow> buffer vring \<Rightarrow> rxq \<Rightarrow> (buffer vring \<times> rxq) result option" where
  "prepare_buffers malloc r s =
     (if vr_available r < 1 then None
      else let opportunistic = vr_available r - 1; count = 1 + opportunistic
        in Some (andThen (post single_buffer (map (make_buffer_chain malloc) [rx_mallocs s..<rx_mallocs s + count])
                            (r\<lparr>vr_available := 0\<rparr>))
                   (\<lambda>r1. Inr (r1, s\<lparr>rx_mallocs := rx_mallocs s + count\<rparr>))))"

definition update_rx_count :: "u64 \<Rightarrow> rxq \<Rightarrow> rxq" where
  "update_rx_count c s = s\<lparr>rx_stats := (rx_stats s)\<lparr>vs_pkts := update_pkts_bunch c (vs_pkts (rx_stats s))\<rparr>\<rparr>"

definition deliver_packet :: "rxq \<times> nat \<Rightarrow> rxq \<times> nat" where
  "deliver_packet sn =
     (let s = fst sn in
      (s\<lparr>rx_received := rx_received s @ [(rx_fragments s, rx_buffers s)], rx_buffers := [],
         rx_stats := update_frags_stats (word_of_nat (length (rx_fragments s))) (sum_list (map rf_len (rx_fragments s))) (rx_stats s)\<rparr>,
       snd sn + length (rx_fragments s)))"

text \<open>\<open>mem a\<close> is what the host wrote into the buffer at \<open>a\<close>.\<close>

definition complete_buffer :: "nat \<Rightarrow> (u64 \<Rightarrow> bytes) \<Rightarrow> buffer \<Rightarrow> u32 \<Rightarrow> rxq \<times> nat \<Rightarrow> (rxq \<times> nat) result" where
  "complete_buffer header_len mem b len sn =
     (let s = fst sn; buf = b_addr b in
      andThen
        (if rx_remaining s = 0
         then let num_buffers = load16 (drop 10 (mem buf)) in
           andThen (assertion (num_buffers \<ge> 1)) (\<lambda>_.
             Inr (s\<lparr>rx_remaining := ucast num_buffers, rx_fragments := [], rx_buffers := []\<rparr>,
                  \<lparr>rf_addr = buf + word_of_nat header_len, rf_len = ucast len - word_of_nat header_len\<rparr>))
         else Inr (s, \<lparr>rf_addr = buf, rf_len = ucast len\<rparr>))
        (\<lambda>(s1, frag).
           let s2 = s1\<lparr>rx_fragments := rx_fragments s1 @ [frag], rx_buffers := rx_buffers s1 @ [buf],
                       rx_remaining := rx_remaining s1 - 1\<rparr>
           in Inr (if rx_remaining s2 = 0 then deliver_packet (s2, snd sn) else (s2, snd sn))))"

definition rxq_poll :: "nat \<Rightarrow> (u64 \<Rightarrow> bytes) \<Rightarrow> buffer vring \<Rightarrow> rxq \<Rightarrow> (bool \<times> buffer vring \<times> rxq) result option" where
  "rxq_poll header_len mem r s = do_complete update_rx_count (complete_buffer header_len mem) r s"

subsection \<open>The memory of a ring\<close>

definition vring_storage_size :: "nat \<Rightarrow> nat" where
  "vring_storage_size n = 3 * 4096 + n * (16 + 2 + 8)"

record ring_config =
  rc_descs :: nat
  rc_avail :: nat
  rc_used :: nat
  rc_size :: nat
  rc_event_index :: bool
  rc_indirect :: bool
  rc_mergable_buffers :: bool

definition common_config :: "(nat \<Rightarrow> nat \<Rightarrow> nat) \<Rightarrow> u64 \<Rightarrow> ring_config \<Rightarrow> ring_config" where
  "common_config align_up features r =
     (let avail = rc_descs r + 16 * rc_size r in
      r\<lparr>rc_avail := avail, rc_used := align_up (avail + 2 * rc_size r + 6) 4096,
        rc_event_index := (features AND push_bit 29 1 \<noteq> 0), rc_indirect := False\<rparr>)"

definition queue_config :: "(nat \<Rightarrow> nat \<Rightarrow> nat) \<Rightarrow> u64 \<Rightarrow> nat \<Rightarrow> nat \<Rightarrow> bool \<Rightarrow> ring_config" where
  "queue_config align_up features storage n mergable =
     common_config align_up features \<lparr>rc_descs = storage, rc_avail = 0, rc_used = 0, rc_size = n, rc_event_index = False,
       rc_indirect = False, rc_mergable_buffers = mergable\<rparr>"

end
