(* ===== verification/VringProps.thy ===== *)
theory VringProps
  imports Vring "HOL-Library.Multiset"
begin

text \<open>
  Correctness of the rings of the virtio driver. At any time each descriptor is in the free list or in
  exactly one chain, and each chain is available and not yet taken, held by the host, or used and not
  yet completed: \<open>ring_ok\<close> for the tables of the driver, \<open>sys_ok\<close> with the two rings and the host.

  The locale \<open>ring_client\<close> states what a ring and its client owe each other: a completion gives the
  descriptors of the chain back to the semaphore, at once or later. Inside it are the lemmas that every
  step of the driver and of the host keeps the invariant, and that the driver's own steps do not fail.
\<close>

subsection \<open>Stretches of a ring with free running indices\<close>

definition stretch :: "'a list \<Rightarrow> u16 \<Rightarrow> u16 \<Rightarrow> 'a list" where
  "stretch xs a b = map (\<lambda>k. xs ! (unat (a + word_of_nat k) mod length xs)) [0..<unat (b - a)]"

lemma stretch_empty [simp]: "stretch xs a a = []"
  by (simp add: stretch_def)

lemma length_stretch [simp]: "length (stretch xs a b) = unat (b - a)"
  by (simp add: stretch_def)

lemma stretch_eq_Nil: "stretch xs a b = [] \<longleftrightarrow> a = b"
  by (simp add: stretch_def unat_eq_0) metis

lemma unat_diff_Suc:
  fixes a b :: u16
  assumes "a \<noteq> b"
  shows "unat (b - a) = Suc (unat (b - (a + 1)))"
proof -
  have nz: "b - a \<noteq> 0" using assms by simp
  then have "unat (b - a) \<noteq> 0" by (simp add: unat_eq_0)
  moreover have "unat (b - a - 1) = unat (b - a) - 1" using nz by (rule unat_minus_one)
  ultimately show ?thesis by (simp add: algebra_simps)
qed

lemma stretch_take:
  assumes "a \<noteq> b"
  shows "stretch xs a b = xs ! (unat a mod length xs) # stretch xs (a + 1) b"
  unfolding stretch_def unat_diff_Suc [OF assms] upt_conv_Cons [OF zero_less_Suc] map_Suc_upt [symmetric]
  by (simp add: algebra_simps del: upt_Suc)

lemma mod_pow2_16:
  assumes "k \<le> 16"
  shows "unat (a + word_of_nat n :: u16) mod 2 ^ k = (unat a + n) mod 2 ^ k"
proof -
  have "(2::nat) ^ k dvd 2 ^ 16" using assms by (rule le_imp_power_dvd)
  then show ?thesis by (simp add: unat_word_ariths unsigned_of_nat take_bit_eq_mod mod_mod_cancel mod_simps)
qed

text \<open>Writing behind the end of a stretch that does not fill the ring makes it longer.\<close>

lemma stretch_put:
  assumes len: "length xs = 2 ^ k" "k \<le> 15" and room: "unat (b - a) < length xs"
  shows "stretch (xs[unat b mod length xs := x]) a (b + 1) = stretch xs a b @ [x]"
proof -
  define n where "n = unat (b - a)"
  have b: "b = a + word_of_nat n" by (simp add: n_def)
  have lt: "n < 2 ^ k" using room len by (simp add: n_def)
  have "(2::nat) ^ k \<le> 2 ^ 15" using len by (intro power_increasing) auto
  then have n16: "Suc n < 65536" using lt by simp
  have suc: "unat (b + 1 - a) = Suc n"
    using n16 by (simp add: b unat_word_ariths unsigned_of_nat take_bit_eq_mod n_def [symmetric])
  have idx: "unat b mod 2 ^ k \<noteq> unat (a + word_of_nat j) mod 2 ^ k" if "j < n" for j
  proof
    assume "unat b mod 2 ^ k = unat (a + word_of_nat j) mod 2 ^ k"
    then have "(unat a + n) mod 2 ^ k = (unat a + j) mod 2 ^ k"
      unfolding b using len by (simp add: mod_pow2_16)
    then have "2 ^ k dvd n - j" using that by (simp add: mod_eq_dvd_iff_nat)
    then show False using that lt by (auto dest: dvd_imp_le)
  qed
  have old: "xs[unat b mod 2 ^ k := x] ! (unat (a + word_of_nat j) mod 2 ^ k) = xs ! (unat (a + word_of_nat j) mod 2 ^ k)"
    if "j < n" for j using idx [OF that] by simp
  show ?thesis
    unfolding stretch_def suc n_def [symmetric] using len old
    by (simp add: b [symmetric])
qed

lemma masked_mod:
  assumes "vr_size r = 2 ^ k" "k \<le> 15"
  shows "masked r i = unat i mod vr_size r"
proof -
  have "(word_of_nat (2 ^ k) - 1 :: u64) = mask k" by (simp add: mask_eq_exp_minus_1)
  then have "masked r i = unat (take_bit k (ucast i :: u64))"
    using assms by (simp add: masked_def take_bit_eq_mask)
  also have "\<dots> = take_bit k (unat i)" using assms(2) by (simp add: unsigned_take_bit_eq unsigned_ucast_eq)
  also have "\<dots> = unat i mod 2 ^ k" by (rule take_bit_eq_mod)
  finally show ?thesis using assms by simp
qed

subsection \<open>Lists of descriptors\<close>

definition desc_holds :: "desc \<Rightarrow> buffer \<Rightarrow> bool" where
  "desc_holds d b \<longleftrightarrow> d_paddr d = b_addr b \<and> d_len d = b_len b \<and> d_writeable d = b_writeable b \<and> \<not> d_indirect d"

text \<open>The free list.\<close>

fun linked :: "desc list \<Rightarrow> nat list \<Rightarrow> bool" where
  "linked ds (i # j # is) \<longleftrightarrow> unat (d_next (ds ! i)) = j \<and> linked ds (j # is)"
| "linked ds _ \<longleftrightarrow> True"

text \<open>A chain and the buffers it describes.\<close>

fun describes :: "desc list \<Rightarrow> nat list \<Rightarrow> buffer list \<Rightarrow> bool" where
  "describes ds [i] [b] \<longleftrightarrow> desc_holds (ds ! i) b \<and> \<not> d_has_next (ds ! i)"
| "describes ds (i # j # is) (b # c # bs) \<longleftrightarrow>
     desc_holds (ds ! i) b \<and> d_has_next (ds ! i) \<and> unat (d_next (ds ! i)) = j \<and> describes ds (j # is) (c # bs)"
| "describes ds _ _ \<longleftrightarrow> False"

lemma describes_frame:
  "\<forall>i\<in>set is. ds' ! i = ds ! i \<Longrightarrow> describes ds is bs \<Longrightarrow> describes ds' is bs"
  by (induction ds "is" bs rule: describes.induct) auto

lemma describes_length: "describes ds is bs \<Longrightarrow> length is = length bs \<and> is \<noteq> []"
  by (induction ds "is" bs rule: describes.induct) auto

lemma describes_linked: "describes ds is bs \<Longrightarrow> linked ds is"
  by (induction ds "is" bs rule: describes.induct) auto

lemma linked_frame: "\<forall>i\<in>set (butlast is). ds' ! i = ds ! i \<Longrightarrow> linked ds is \<Longrightarrow> linked ds' is"
  by (induction ds "is" rule: linked.induct) auto

lemma linked_append:
  "linked ds is \<Longrightarrow> linked ds js \<Longrightarrow> (is \<noteq> [] \<Longrightarrow> js \<noteq> [] \<Longrightarrow> unat (d_next (ds ! last is)) = hd js) \<Longrightarrow> linked ds (is @ js)"
proof (induction ds "is" rule: linked.induct, goal_cases)
  case (3 ds i)
  then show ?case by (cases js) auto
qed auto

lemma linked_tl: "linked ds (i # is) \<Longrightarrow> linked ds is"
  by (cases "is") auto

lemma chain_end_last:
  "describes ds is bs \<Longrightarrow> \<forall>i\<in>set is. i < length ds \<Longrightarrow> chain_end ds (hd is) = Some (Inr (last is))"
  by (induction ds "is" bs rule: describes.induct) (simp_all add: chain_end.simps)

subsection \<open>The invariant of the tables\<close>

definition ring_shape :: "'c vring \<Rightarrow> bool" where
  "ring_shape r \<longleftrightarrow> (\<exists>k\<le>15. vr_size r = 2 ^ k) \<and> length (vr_descs r) = vr_size r \<and>
     length (vr_buffer_chains r) = vr_size r \<and> length (vr_avail_ring r) = vr_size r \<and>
     length (vr_used_elements r) = vr_size r"

definition free_ends :: "'c vring \<Rightarrow> nat list \<Rightarrow> bool" where
  "free_ends r free \<longleftrightarrow> vr_free_head r = (if free = [] then -1 else int (hd free)) \<and>
     vr_free_last r = (if free = [] then -1 else int (last free))"

text \<open>\<open>free\<close> is the free list, \<open>H\<close> are the first descriptors of the chains in flight and \<open>ch\<close> the
  chains. Together they are the table, each descriptor once.\<close>

definition ring_ok :: "('c \<Rightarrow> buffer list) \<Rightarrow> 'c vring \<Rightarrow> nat list \<Rightarrow> (nat \<Rightarrow> nat list) \<Rightarrow> nat multiset \<Rightarrow> bool" where
  "ring_ok bo r free ch H \<longleftrightarrow> ring_shape r \<and> linked (vr_descs r) free \<and> free_ends r free \<and>
     mset free + \<Sum>\<^sub># (image_mset (\<lambda>h. mset (ch h)) H) = mset [0..<vr_size r] \<and>
     (\<forall>h\<in>#H. \<exists>c. vr_buffer_chains r ! h = Some c \<and> describes (vr_descs r) (ch h) (bo c) \<and> hd (ch h) = h)"

lemma distinct_submset: "mset xs + M = mset ys \<Longrightarrow> distinct ys \<Longrightarrow> distinct xs"
proof -
  assume eq: "mset xs + M = mset ys" and d: "distinct ys"
  obtain zs where "M = mset zs" using ex_mset by metis
  then have "mset ys = mset (xs @ zs)" using eq by simp
  then show "distinct xs" using d mset_eq_imp_distinct_iff [of ys "xs @ zs"] by simp
qed

lemma chain_nonempty: "ring_ok bo r free ch H \<Longrightarrow> h \<in># H \<Longrightarrow> ch h \<noteq> []"
  unfolding ring_ok_def using describes_length by blast

lemma ring_ok_chain:
  assumes "ring_ok bo r free ch (add_mset h H)"
  shows "distinct (free @ ch h)" and "set (free @ ch h) \<subseteq> {..<vr_size r}"
    and "\<forall>g\<in>#H. set (ch g) \<inter> set (free @ ch h) = {}" and "h \<notin># H"
proof -
  have eq: "mset (free @ ch h) + \<Sum>\<^sub># (image_mset (\<lambda>h. mset (ch h)) H) = mset [0..<vr_size r]"
    using assms by (simp add: ring_ok_def ac_simps)
  show "distinct (free @ ch h)" by (rule distinct_submset [OF eq]) simp
  have "set_mset (mset (free @ ch h)) \<subseteq> set_mset (mset [0..<vr_size r])"
    unfolding eq [symmetric] by simp
  then show "set (free @ ch h) \<subseteq> {..<vr_size r}" by auto
  show disj: "\<forall>g\<in>#H. set (ch g) \<inter> set (free @ ch h) = {}"
  proof
    fix g assume "g \<in># H"
    then obtain H' where H': "H = add_mset g H'" by (rule mset_add)
    have "mset ((free @ ch h) @ ch g) + \<Sum>\<^sub># (image_mset (\<lambda>h. mset (ch h)) H') = mset [0..<vr_size r]"
      using eq by (simp add: H' ac_simps)
    from distinct_submset [OF this] show "set (ch g) \<inter> set (free @ ch h) = {}" by auto
  qed
  show "h \<notin># H"
  proof
    assume "h \<in># H"
    then have "set (ch h) = {}" using disj by auto
    then show False using chain_nonempty [OF assms, of h] by simp
  qed
qed

lemma ring_ok_free:
  assumes "ring_ok bo r free ch H"
  shows "distinct free" and "set free \<subseteq> {..<vr_size r}" and "\<forall>g\<in>#H. set (ch g) \<inter> set free = {}"
proof -
  have eq: "mset free + \<Sum>\<^sub># (image_mset (\<lambda>h. mset (ch h)) H) = mset [0..<vr_size r]"
    using assms by (simp add: ring_ok_def)
  show "distinct free" by (rule distinct_submset [OF eq]) simp
  have "set_mset (mset free) \<subseteq> set_mset (mset [0..<vr_size r])" unfolding eq [symmetric] by simp
  then show "set free \<subseteq> {..<vr_size r}" by auto
  show "\<forall>g\<in>#H. set (ch g) \<inter> set free = {}"
  proof
    fix g assume "g \<in># H"
    then obtain H' where H: "H = add_mset g H'" by (rule mset_add)
    then show "set (ch g) \<inter> set free = {}" using ring_ok_chain(1) [of bo r free ch g H'] assms by auto
  qed
qed

lemma ring_ok_head:
  assumes "ring_ok bo r free ch H" "h \<in># H"
  shows "h \<in> set (ch h)" and "h < vr_size r"
proof -
  obtain H' where H: "H = add_mset h H'" using assms(2) by (rule mset_add)
  have "hd (ch h) = h" using assms unfolding ring_ok_def by blast
  then show "h \<in> set (ch h)" using chain_nonempty [OF assms] hd_in_set by metis
  then show "h < vr_size r" using ring_ok_chain(2) [of bo r free ch h H'] assms(1) H by auto
qed

text \<open>Each chain in flight has a descriptor of its own.\<close>

lemma ring_ok_count:
  assumes "ring_ok bo r free ch H"
  shows "length free + size H \<le> vr_size r"
proof -
  have "\<forall>h\<in>#H. 1 \<le> length (ch h)"
    using chain_nonempty [OF assms] by (simp add: Suc_le_eq)
  then have le: "size H \<le> \<Sum>\<^sub># (image_mset (\<lambda>h. length (ch h)) H)"
    by (induction H) auto
  have "size (\<Sum>\<^sub># (image_mset (\<lambda>h. mset (ch h)) H)) = \<Sum>\<^sub># (image_mset (\<lambda>h. length (ch h)) H)"
    by (induction H) auto
  moreover have "size (mset free + \<Sum>\<^sub># (image_mset (\<lambda>h. mset (ch h)) H)) = vr_size r"
    using assms by (simp add: ring_ok_def)
  ultimately show ?thesis using le by simp
qed

subsection \<open>Allocation and posting\<close>

definition with_free :: "nat list \<Rightarrow> 'c vring \<Rightarrow> 'c vring" where
  "with_free free r = r\<lparr>vr_free_head := if free = [] then -1 else int (hd free),
     vr_free_last := if free = [] then -1 else int (last free)\<rparr>"

lemma with_free_simps [simp]:
  "vr_descs (with_free free r) = vr_descs r" "free_ends (with_free free r) free"
  "with_free free' (with_free free r) = with_free free' r"
  "with_free free (vr_descs_update f r) = vr_descs_update f (with_free free r)"
  "with_free free (vr_buffer_chains_update g r) = vr_buffer_chains_update g (with_free free r)"
  "with_free free (vr_avail_ring_update k r) = vr_avail_ring_update k (with_free free r)"
  "with_free free (vr_avail_head_update w r) = vr_avail_head_update w (with_free free r)"
  "with_free free (vr_avail_added_update w r) = vr_avail_added_update w (with_free free r)"
  "free_ends (vr_descs_update f r) free' \<longleftrightarrow> free_ends r free'"
  "free_ends (vr_buffer_chains_update g r) free' \<longleftrightarrow> free_ends r free'"
  "free_ends (vr_avail_ring_update k r) free' \<longleftrightarrow> free_ends r free'"
  "free_ends (vr_avail_head_update w r) free' \<longleftrightarrow> free_ends r free'"
  "free_ends (vr_avail_added_update w r) free' \<longleftrightarrow> free_ends r free'"
  by (simp_all add: with_free_def free_ends_def)

lemma with_free_fields [simp]:
  "vr_size (with_free free r) = vr_size r" "vr_event_index (with_free free r) = vr_event_index r"
  "vr_buffer_chains (with_free free r) = vr_buffer_chains r" "vr_avail_ring (with_free free r) = vr_avail_ring r"
  "vr_avail_idx (with_free free r) = vr_avail_idx r" "vr_avail_head (with_free free r) = vr_avail_head r"
  "vr_avail_added (with_free free r) = vr_avail_added r" "vr_used_flags (with_free free r) = vr_used_flags r"
  "vr_used_idx (with_free free r) = vr_used_idx r" "vr_used_elements (with_free free r) = vr_used_elements r"
  "vr_used_tail (with_free free r) = vr_used_tail r" "vr_avail_event (with_free free r) = vr_avail_event r"
  "vr_available (with_free free r) = vr_available r" "vr_kicks (with_free free r) = vr_kicks r"
  by (simp_all add: with_free_def)

lemma allocate_desc_free:
  assumes "free_ends r (i # free)" "linked (vr_descs r) (i # free)" "distinct (i # free)" "i < length (vr_descs r)"
  shows "allocate_desc r = Inr (i, with_free free r)"
  using assms by (cases free) (auto simp: allocate_desc_def free_ends_def with_free_def Let_def)

text \<open>The loop over the buffers behind the first: the chain that began at \<open>p\<close> goes on through the free
  list.\<close>

lemma post_buffers_rest:
  assumes "free_ends r free" "linked (vr_descs r) free" "distinct (p # free)"
    "\<forall>i\<in>set (p # free). i < length (vr_descs r)" "length (vr_descs r) \<le> 65536"
    "length bs \<le> length free" "desc_holds (vr_descs r ! p) b0" "\<not> d_has_next (vr_descs r ! p)"
  shows "\<exists>ds. post_buffers ps (Some p) bs r = Inr (ps, with_free (drop (length bs) free) (r\<lparr>vr_descs := ds\<rparr>)) \<and>
     length ds = length (vr_descs r) \<and> describes ds (p # take (length bs) free) (b0 # bs) \<and>
     linked ds (drop (length bs) free) \<and> (\<forall>i. i \<notin> set (p # take (length bs) free) \<longrightarrow> ds ! i = vr_descs r ! i)"
  using assms
proof (induction bs arbitrary: r p b0 free)
  case Nil
  have "with_free free r = r"
    using Nil.prems(1) by (simp add: with_free_def free_ends_def)
  then have "post_buffers ps (Some p) [] r = Inr (ps, with_free (drop (length []) free) (r\<lparr>vr_descs := vr_descs r\<rparr>))"
    by simp
  then show ?case using Nil.prems(2,7,8) by (intro exI [of _ "vr_descs r"] conjI) simp_all
next
  case (Cons b bs)
  then obtain i free' where f: "free = i # free'" by (cases free) auto
  define ds1 where "ds1 = (vr_descs r)[p := (vr_descs r ! p)\<lparr>d_has_next := True, d_next := word_of_nat i\<rparr>]"
  define ds2 where "ds2 = ds1[i := (ds1 ! i)\<lparr>d_has_next := False, d_indirect := False,
     d_writeable := b_writeable b, d_paddr := b_addr b, d_len := b_len b\<rparr>]"
  define r2 where "r2 = with_free free' (r\<lparr>vr_descs := ds2\<rparr>)"
  have ip: "i < length (vr_descs r)" "p < length (vr_descs r)" "p \<noteq> i" "i < 65536"
    using Cons.prems f by auto
  have step: "post_buffers ps (Some p) (b # bs) r = post_buffers ps (Some i) bs r2"
    using Cons.prems f ip
    by (simp add: allocate_desc_free link_prev_def fill_desc_def at_desc_def r2_def ds2_def ds1_def)
  have ds2_other: "ds2 ! j = vr_descs r ! j" if "j \<noteq> p" "j \<noteq> i" for j
    using that by (simp add: ds2_def ds1_def)
  have ds2_i: "desc_holds (ds2 ! i) b" "\<not> d_has_next (ds2 ! i)"
    using ip by (simp_all add: ds2_def ds1_def desc_holds_def)
  have ds2_p: "desc_holds (ds2 ! p) b0" "d_has_next (ds2 ! p)" "unat (d_next (ds2 ! p)) = i"
    using ip Cons.prems(7) by (simp_all add: ds2_def ds1_def desc_holds_def unsigned_of_nat take_bit_eq_mod)
  have l: "linked (vr_descs r) free'" using Cons.prems(2) f linked_tl by blast
  have "linked ds2 free'"
    using Cons.prems(3) f by (intro linked_frame [OF _ l]) (auto intro!: ds2_other dest: in_set_butlastD)
  moreover have "distinct (i # free')" "\<forall>j\<in>set (i # free'). j < length ds2" "length ds2 \<le> 65536" "length bs \<le> length free'"
    using Cons.prems f by (auto simp: ds2_def ds1_def)
  ultimately obtain ds where ds: "post_buffers ps (Some i) bs r2 =
        Inr (ps, with_free (drop (length bs) free') (r2\<lparr>vr_descs := ds\<rparr>))"
      "length ds = length ds2" "describes ds (i # take (length bs) free') (b # bs)"
      "linked ds (drop (length bs) free')" "\<forall>j. j \<notin> set (i # take (length bs) free') \<longrightarrow> ds ! j = ds2 ! j"
    using Cons.IH [of r2 free' i b] ds2_i by (auto simp: r2_def)
  have "p \<notin> set (i # take (length bs) free')" using Cons.prems(3) f by (auto dest: in_set_takeD)
  then have "ds ! p = ds2 ! p" using ds(5) by simp
  then have "describes ds (p # i # take (length bs) free') (b0 # b # bs)"
    using ds2_p ds(3) by simp
  moreover have "ds ! j = vr_descs r ! j" if "j \<notin> set (p # take (length (b # bs)) free)" for j
    using that ds(5) ds2_other [of j] f by simp
  ultimately show ?case
    using ds(1,2,4) step f by (intro exI [of _ ds]) (simp add: r2_def ds2_def ds1_def)
qed

lemma post_buffers_chain:
  assumes "free_ends r free" "linked (vr_descs r) free" "distinct free"
    "\<forall>i\<in>set free. i < length (vr_descs r)" "length (vr_descs r) \<le> 65536"
    "length bs \<le> length free" "bs \<noteq> []"
  shows "\<exists>ds. post_buffers 0 None bs r = Inr (word_of_nat (hd free), with_free (drop (length bs) free) (r\<lparr>vr_descs := ds\<rparr>)) \<and>
     length ds = length (vr_descs r) \<and> describes ds (take (length bs) free) bs \<and>
     linked ds (drop (length bs) free) \<and> (\<forall>i. i \<notin> set (take (length bs) free) \<longrightarrow> ds ! i = vr_descs r ! i)"
proof -
  obtain b bs' where bs: "bs = b # bs'" using assms(7) by (cases bs) auto
  then obtain i free' where f: "free = i # free'" using assms(6) by (cases free) auto
  define ds1 where "ds1 = (vr_descs r)[i := (vr_descs r ! i)\<lparr>d_has_next := False, d_indirect := False,
     d_writeable := b_writeable b, d_paddr := b_addr b, d_len := b_len b\<rparr>]"
  define r1 where "r1 = with_free free' (r\<lparr>vr_descs := ds1\<rparr>)"
  have step: "post_buffers 0 None bs r = post_buffers (word_of_nat i) (Some i) bs' r1"
    using assms f bs by (simp add: allocate_desc_free link_prev_def fill_desc_def at_desc_def r1_def ds1_def)
  have i: "i < length (vr_descs r)" "i \<notin> set free'" using assms f by auto
  have l: "linked (vr_descs r) free'" using assms(2) f linked_tl by blast
  have "linked ds1 free'"
    using i by (intro linked_frame [OF _ l]) (metis ds1_def in_set_butlastD nth_list_update_neq)
  moreover have "desc_holds (ds1 ! i) b" "\<not> d_has_next (ds1 ! i)"
    using i by (simp_all add: ds1_def desc_holds_def)
  ultimately obtain ds where ds: "post_buffers (word_of_nat i) (Some i) bs' r1 =
        Inr (word_of_nat i, with_free (drop (length bs') free') (r1\<lparr>vr_descs := ds\<rparr>))"
      "length ds = length ds1" "describes ds (i # take (length bs') free') (b # bs')"
      "linked ds (drop (length bs') free')" "\<forall>j. j \<notin> set (i # take (length bs') free') \<longrightarrow> ds ! j = ds1 ! j"
    using post_buffers_rest [of r1 free' i bs' b "word_of_nat i"] assms f bs by (auto simp: r1_def ds1_def)
  then show ?thesis
    using step f bs by (intro exI [of _ ds]) (auto simp: r1_def ds1_def)
qed

lemma ring_shape_le: "ring_shape r \<Longrightarrow> vr_size r \<le> 32768"
proof -
  assume "ring_shape r"
  then obtain k where k: "k \<le> 15" "vr_size r = 2 ^ k" by (auto simp: ring_shape_def)
  then have "(2::nat) ^ k \<le> 2 ^ 15" by (intro power_increasing) auto
  then show ?thesis using k by simp
qed

lemma ring_shape_pos: "ring_shape r \<Longrightarrow> 0 < vr_size r"
  by (auto simp: ring_shape_def)

lemma ring_masked: "ring_shape r \<Longrightarrow> masked r i = unat i mod vr_size r"
  by (auto simp: ring_shape_def masked_mod)

lemma masked_cong: "vr_size r' = vr_size r \<Longrightarrow> masked r' = masked r"
  by (simp add: masked_def fun_eq_iff)

lemma post_chain_ok:
  assumes ok: "ring_ok bo r free ch H" and n: "bo c \<noteq> []" "length (bo c) \<le> length free"
  defines "free' \<equiv> drop (length (bo c)) free" and "h \<equiv> hd free"
    and "i \<equiv> unat (vr_avail_head r) mod vr_size r"
  shows "\<exists>ds. let r' = with_free free' (r\<lparr>vr_descs := ds, vr_buffer_chains := (vr_buffer_chains r)[h := Some c],
                    vr_avail_ring := (vr_avail_ring r)[i := word_of_nat h],
                    vr_avail_head := vr_avail_head r + 1, vr_avail_added := vr_avail_added r + 1\<rparr>)
     in post_chain bo c r = Inr r' \<and> h < vr_size r \<and>
        ring_ok bo r' free' (ch(h := take (length (bo c)) free)) (add_mset h H)"
proof -
  note fr = ring_ok_free [OF ok]
  have shape: "ring_shape r" and l: "linked (vr_descs r) free" and e: "free_ends r free"
    and own: "mset free + \<Sum>\<^sub># (image_mset (\<lambda>h. mset (ch h)) H) = mset [0..<vr_size r]"
    and ch: "\<forall>h\<in>#H. \<exists>c. vr_buffer_chains r ! h = Some c \<and> describes (vr_descs r) (ch h) (bo c) \<and> hd (ch h) = h"
    using ok by (auto simp: ring_ok_def simp del: mset_upt)
  have ne: "free \<noteq> []" using n by auto
  have len: "length (vr_descs r) = vr_size r" "vr_size r \<le> 32768" "0 < vr_size r"
    using shape ring_shape_le ring_shape_pos by (auto simp: ring_shape_def)
  obtain ds where ds: "post_buffers 0 None (bo c) r = Inr (word_of_nat h, with_free free' (r\<lparr>vr_descs := ds\<rparr>))"
      "length ds = vr_size r" "describes ds (take (length (bo c)) free) (bo c)" "linked ds free'"
      "\<forall>i. i \<notin> set (take (length (bo c)) free) \<longrightarrow> ds ! i = vr_descs r ! i"
    using post_buffers_chain [OF e l fr(1) _ _ n(2) n(1)] fr(2) len unfolding free'_def h_def by auto
  define r' where "r' = with_free free' (r\<lparr>vr_descs := ds, vr_buffer_chains := (vr_buffer_chains r)[h := Some c],
                    vr_avail_ring := (vr_avail_ring r)[i := word_of_nat h],
                    vr_avail_head := vr_avail_head r + 1, vr_avail_added := vr_avail_added r + 1\<rparr>)"
  have h: "h \<in> set free" using ne by (simp add: h_def)
  have hs: "h < vr_size r" using h fr(2) by auto
  then have uh: "unat (word_of_nat h :: u16) = h" using len hs by (simp add: unsigned_of_nat take_bit_eq_mod)
  have m: "masked (with_free free' r\<lparr>vr_descs := ds\<rparr>) x = unat x mod vr_size r" for x
    by (subst masked_cong [of _ r]) (simp_all add: ring_masked [OF shape])
  have post: "post_chain bo c r = Inr r'"
    using ds(1) uh hs len shape by (simp add: post_chain_def m r'_def i_def ring_shape_def)
  have hH: "h \<notin># H" using fr(3) h ring_ok_head(1) [OF ok] by blast
  have tk: "mset free = mset free' + mset (take (length (bo c)) free)"
    unfolding free'_def by (metis append_take_drop_id mset_append union_commute)
  have "image_mset (\<lambda>g. mset ((ch(h := take (length (bo c)) free)) g)) H = image_mset (\<lambda>g. mset (ch g)) H"
    using hH by (intro image_mset_cong) auto
  then have own': "mset free' + \<Sum>\<^sub># (image_mset (\<lambda>g. mset ((ch(h := take (length (bo c)) free)) g)) (add_mset h H)) =
      mset [0..<vr_size r]"
    using own unfolding tk by (simp add: ac_simps del: mset_upt)
  have "\<forall>g\<in>#add_mset h H. \<exists>c'. vr_buffer_chains r' ! g = Some c' \<and>
      describes (vr_descs r') ((ch(h := take (length (bo c)) free)) g) (bo c') \<and>
      hd ((ch(h := take (length (bo c)) free)) g) = g"
  proof
    fix g assume g: "g \<in># add_mset h H"
    show "\<exists>c'. vr_buffer_chains r' ! g = Some c' \<and>
      describes (vr_descs r') ((ch(h := take (length (bo c)) free)) g) (bo c') \<and>
      hd ((ch(h := take (length (bo c)) free)) g) = g"
    proof (cases "g = h")
      case True
      then show ?thesis using ds(3) hs shape n ne by (auto simp: r'_def ring_shape_def h_def)
    next
      case False
      then have gH: "g \<in># H" using g by simp
      then obtain c' where c': "vr_buffer_chains r ! g = Some c'" "describes (vr_descs r) (ch g) (bo c')" "hd (ch g) = g"
        using ch by auto
      have "\<forall>i\<in>set (ch g). ds ! i = vr_descs r ! i"
        using ds(5) fr(3) gH by (metis disjoint_iff in_set_takeD)
      then have "describes ds (ch g) (bo c')" using c'(2) by (rule describes_frame)
      then show ?thesis using c' False by (simp add: r'_def)
    qed
  qed
  then have "ring_ok bo r' free' (ch(h := take (length (bo c)) free)) (add_mset h H)"
    using shape own' ds(2,4) by (simp add: ring_ok_def r'_def ring_shape_def del: mset_upt)
  with post hs show ?thesis unfolding Let_def r'_def by blast
qed

subsection \<open>Completion\<close>

lemma sint_chain_id: "unat i < 32768 \<Longrightarrow> sint i = int (unat i)" for i :: u32
proof -
  assume lt: "unat i < 32768"
  have "uint i < 32768" using lt of_nat_less_iff [of "unat i" 32768, where 'a = int] by simp
  then have "signed_take_bit 31 (uint i) = uint i" by (intro signed_take_bit_int_eq_self) (auto intro: order_trans [OF _ uint_ge_0])
  then show ?thesis by (simp add: sint_uint)
qed

text \<open>What \<open>free_append\<close> and the walk to the end of the chain make of the tables.\<close>

lemma free_append_chain:
  assumes e: "free_ends r free" and l: "linked (vr_descs r) free" and d: "distinct (free @ is)"
    and lt: "\<forall>i\<in>set (free @ is). i < length (vr_descs r)" and len: "length (vr_descs r) \<le> 32768"
    and desc: "describes (vr_descs r) is bs" and h: "unat i = hd is"
  shows "\<exists>r2. free_append i r = Inr r2 \<and> chain_end (vr_descs r2) (hd is) = Some (Inr (last is)) \<and>
     r2\<lparr>vr_free_last := int (last is)\<rparr> = with_free (free @ is) (r\<lparr>vr_descs := vr_descs r2\<rparr>) \<and>
     length (vr_descs r2) = length (vr_descs r) \<and> linked (vr_descs r2) (free @ is) \<and>
     (\<forall>j. j \<notin> set free \<longrightarrow> vr_descs r2 ! j = vr_descs r ! j)"
proof (cases "free = []")
  have "hd is \<in> set is" using describes_length [OF desc] by simp
  then have "hd is < length (vr_descs r)" using lt by simp
  then have i: "unat i < 32768" using h len by simp
  case True
  then show ?thesis
    using True i e lt h describes_length [OF desc] describes_linked [OF desc] chain_end_last [OF desc]
    by (simp add: free_append_def free_ends_def with_free_def sint_chain_id)
next
  case False
  define ds where "ds = (vr_descs r)[last free := (vr_descs r ! last free)\<lparr>d_next := ucast i\<rparr>]"
  have "last free \<in> set free" using False by simp
  then have last: "last free < length (vr_descs r)" "last free \<notin> set is" using lt d by auto
  have ne: "is \<noteq> []" using describes_length [OF desc] by simp
  have "hd is \<in> set is" using ne by simp
  then have "hd is < length (vr_descs r)" using lt by simp
  then have "unat i < 32768" using h len by simp
  then have nx: "unat (d_next (ds ! last free)) = hd is"
    using last h by (simp add: ds_def unsigned_ucast_eq take_bit_eq_mod)
  have desc': "describes ds is bs" using last by (intro describes_frame [OF _ desc] ballI) (metis ds_def nth_list_update_neq)
  have "last free \<notin> set (butlast free)"
    using d False by (metis distinct_append append_butlast_last_id not_distinct_conv_prefix)
  then have "linked ds free" by (intro linked_frame [OF _ l] ballI) (metis ds_def nth_list_update_neq)
  then have "linked ds (free @ is)" using describes_linked [OF desc'] nx by (intro linked_append) auto
  moreover have "free_append i r = Inr (r\<lparr>vr_descs := ds\<rparr>)"
    using e last False by (simp add: free_append_def free_ends_def at_desc_def ds_def)
  moreover have "chain_end ds (hd is) = Some (Inr (last is))"
    using lt by (intro chain_end_last [OF desc']) (simp add: ds_def)
  moreover have "ds ! j = vr_descs r ! j" if "j \<notin> set free" for j
  proof -
    have "j \<noteq> last free" using that False by auto
    then show ?thesis by (simp add: ds_def)
  qed
  ultimately show ?thesis
    using False ne e by (intro exI [of _ "r\<lparr>vr_descs := ds\<rparr>"]) (simp add: ds_def with_free_def free_ends_def)
qed

text \<open>One used chain. Its client gets it with the length the host wrote; when that does not fail the
  descriptors of the chain are free again.\<close>

lemma complete_one_ok:
  assumes ok: "ring_ok bo r free ch (add_mset h H)"
    and u: "u = vr_used_elements r ! (unat (vr_used_tail r) mod vr_size r)" "unat (ue_id u) = h"
    and c: "vr_buffer_chains r ! h = Some c"
    and dn: "complete c (ue_len u) (s, vr_available r) = Inr (s', n)"
  shows "\<exists>ds. let r' = with_free (free @ ch h) (r\<lparr>vr_used_tail := vr_used_tail r + 1,
         vr_buffer_chains := (vr_buffer_chains r)[h := None], vr_available := n, vr_descs := ds\<rparr>)
       in complete_one complete r s = Some (Inr (r', s')) \<and> ring_ok bo r' (free @ ch h) ch H"
proof -
  note own = ring_ok_chain [OF ok]
  have shape: "ring_shape r" and l: "linked (vr_descs r) free" and e: "free_ends r free"
    and all: "mset free + \<Sum>\<^sub># (image_mset (\<lambda>h. mset (ch h)) (add_mset h H)) = mset [0..<vr_size r]"
    and chs: "\<forall>g\<in>#add_mset h H. \<exists>c. vr_buffer_chains r ! g = Some c \<and> describes (vr_descs r) (ch g) (bo c) \<and> hd (ch g) = g"
    using ok unfolding ring_ok_def by blast+
  have len: "length (vr_descs r) = vr_size r" "length (vr_buffer_chains r) = vr_size r"
     "length (vr_used_elements r) = vr_size r" "vr_size r \<le> 32768" "0 < vr_size r" "h < vr_size r"
    using shape ring_shape_le ring_shape_pos ring_ok_head(2) [OF ok, of h] by (auto simp: ring_shape_def)
  have hd: "describes (vr_descs r) (ch h) (bo c)" "hd (ch h) = h" using chs c by auto
  define r1 where "r1 = r\<lparr>vr_used_tail := vr_used_tail r + 1,
         vr_buffer_chains := (vr_buffer_chains r)[h := None], vr_available := n\<rparr>"
  obtain r2 where r2: "free_append (ue_id u) r1 = Inr r2" "chain_end (vr_descs r2) h = Some (Inr (last (ch h)))"
     "r2\<lparr>vr_free_last := int (last (ch h))\<rparr> = with_free (free @ ch h) (r1\<lparr>vr_descs := vr_descs r2\<rparr>)"
     "length (vr_descs r2) = vr_size r" "linked (vr_descs r2) (free @ ch h)"
     "\<forall>j. j \<notin> set free \<longrightarrow> vr_descs r2 ! j = vr_descs r ! j"
    using free_append_chain [of r1 free "ch h" "bo c" "ue_id u"] e l own(1,2) hd u(2) len
    by (auto simp: r1_def free_ends_def subset_iff)
  define r' where "r' = with_free (free @ ch h) (r1\<lparr>vr_descs := vr_descs r2\<rparr>)"
  have "complete_one complete r s = Some (Inr (r', s'))"
    using len u c dn r2(1,2) unfolding r'_def r2(3) [symmetric]
    by (simp add: complete_one_def Let_def ring_masked [OF shape] r1_def)
  moreover have "\<forall>g\<in>#H. \<exists>c. vr_buffer_chains r' ! g = Some c \<and> describes (vr_descs r') (ch g) (bo c) \<and> hd (ch g) = g"
  proof
    fix g assume g: "g \<in># H"
    then have "g \<noteq> h" using own(4) by auto
    moreover have "\<forall>j\<in>set (ch g). vr_descs r' ! j = vr_descs r ! j"
      using own(3) g r2(6) by (auto simp: r'_def disjoint_iff)
    moreover obtain c' where "vr_buffer_chains r ! g = Some c'" "describes (vr_descs r) (ch g) (bo c')" "hd (ch g) = g"
      using chs g by auto
    ultimately show "\<exists>c. vr_buffer_chains r' ! g = Some c \<and> describes (vr_descs r') (ch g) (bo c) \<and> hd (ch g) = g"
      by (auto simp: r'_def r1_def intro: describes_frame)
  qed
  moreover have "ring_shape r'" "linked (vr_descs r') (free @ ch h)" "free_ends r' (free @ ch h)"
    using shape r2(4,5) by (simp_all add: r'_def r1_def ring_shape_def free_ends_def with_free_def)
  moreover have "mset (free @ ch h) + \<Sum>\<^sub># (image_mset (\<lambda>h. mset (ch h)) H) = mset [0..<vr_size r']"
    using all by (simp add: r'_def r1_def ac_simps del: mset_upt)
  ultimately show ?thesis
    by (intro exI [of _ "vr_descs r2"]) (simp add: ring_ok_def r'_def r1_def Let_def del: mset_upt)
qed

lemma complete_one_fails:
  assumes "ring_ok bo r free ch (add_mset h H)"
    and "u = vr_used_elements r ! (unat (vr_used_tail r) mod vr_size r)" "unat (ue_id u) = h"
    and "vr_buffer_chains r ! h = Some c"
    and "complete c (ue_len u) (s, vr_available r) = Inl e"
  shows "complete_one complete r s = Some (Inl e)"
proof -
  have "ring_shape r" using assms(1) by (simp add: ring_ok_def)
  moreover have "h < vr_size r" using ring_ok_head(2) [OF assms(1), of h] by simp
  ultimately show ?thesis
    using assms(2-) ring_shape_pos [of r] by (simp add: complete_one_def Let_def ring_masked ring_shape_def)
qed

text \<open>The client over all used chains.\<close>

primrec complete_all :: "('c \<Rightarrow> u32 \<Rightarrow> 's \<times> nat \<Rightarrow> ('s \<times> nat) result) \<Rightarrow> ('c \<times> u32) list \<Rightarrow> 's \<times> nat \<Rightarrow> ('s \<times> nat) result" where
  "complete_all complete [] x = Inr x"
| "complete_all complete (cl # cls) x = andThen (complete (fst cl) (snd cl) x) (complete_all complete cls)"

definition used_ids :: "'c vring \<Rightarrow> nat list" where
  "used_ids r = map (\<lambda>u. unat (ue_id u)) (stretch (vr_used_elements r) (vr_used_tail r) (vr_used_idx r))"

definition used_chains :: "'c vring \<Rightarrow> ('c \<times> u32) list" where
  "used_chains r = map (\<lambda>u. (the (vr_buffer_chains r ! unat (ue_id u)), ue_len u))
     (stretch (vr_used_elements r) (vr_used_tail r) (vr_used_idx r))"

text \<open>What completing leaves as it is.\<close>

definition rings_kept :: "'c vring \<Rightarrow> 'c vring \<Rightarrow> bool" where
  "rings_kept r r' \<longleftrightarrow> vr_size r' = vr_size r \<and> vr_event_index r' = vr_event_index r \<and>
     vr_avail_ring r' = vr_avail_ring r \<and> vr_avail_idx r' = vr_avail_idx r \<and>
     vr_avail_head r' = vr_avail_head r \<and> vr_avail_added r' = vr_avail_added r \<and>
     vr_used_flags r' = vr_used_flags r \<and> vr_used_idx r' = vr_used_idx r \<and>
     vr_used_elements r' = vr_used_elements r \<and> vr_avail_event r' = vr_avail_event r \<and> vr_kicks r' = vr_kicks r"

lemma rings_kept_trans: "rings_kept r1 r2 \<Longrightarrow> rings_kept r2 r3 \<Longrightarrow> rings_kept r1 r3"
  by (simp add: rings_kept_def)

lemma complete_loop_ok:
  assumes "ring_ok bo r free ch (mset (used_ids r) + H)"
  shows "case complete_all complete (used_chains r) (s, vr_available r) of
     Inl e \<Rightarrow> complete_loop complete (vr_used_idx r) r s = Some (Inl e)
   | Inr (s', n) \<Rightarrow> \<exists>r'. complete_loop complete (vr_used_idx r) r s = Some (Inr (r', s')) \<and>
       ring_ok bo r' (free @ concat (map ch (used_ids r))) ch H \<and> rings_kept r r' \<and>
       vr_available r' = n \<and> vr_used_tail r' = vr_used_idx r"
  using assms
proof (induction "unat (vr_used_idx r - vr_used_tail r)" arbitrary: r s free)
  case 0
  then have "vr_used_tail r = vr_used_idx r" by (simp add: unat_eq_0 flip: word_unat_eq_iff)
  then show ?case using 0(2) by (simp add: used_ids_def used_chains_def complete_loop.simps rings_kept_def)
next
  case (Suc m)
  then have ne: "vr_used_tail r \<noteq> vr_used_idx r" by auto
  have shape: "ring_shape r" using Suc.prems by (simp add: ring_ok_def)
  define u where "u = vr_used_elements r ! (unat (vr_used_tail r) mod vr_size r)"
  define h where "h = unat (ue_id u)"
  define us where "us = stretch (vr_used_elements r) (vr_used_tail r + 1) (vr_used_idx r)"
  have w: "stretch (vr_used_elements r) (vr_used_tail r) (vr_used_idx r) = u # us"
    using stretch_take [OF ne, of "vr_used_elements r"] shape by (simp add: u_def us_def ring_shape_def)
  define H' where "H' = mset (map (\<lambda>u. unat (ue_id u)) us) + H"
  have ok: "ring_ok bo r free ch (add_mset h H')"
    using Suc.prems by (simp add: used_ids_def w H'_def h_def)
  then have "\<exists>c. vr_buffer_chains r ! h = Some c" by (auto simp: ring_ok_def)
  then obtain c where c: "vr_buffer_chains r ! h = Some c" by blast
  have chains: "used_chains r = (c, ue_len u) # map (\<lambda>u. (the (vr_buffer_chains r ! unat (ue_id u)), ue_len u)) us"
    using c by (simp add: used_chains_def w h_def)
  show ?case
  proof (cases "complete c (ue_len u) (s, vr_available r)")
    case (Inl e)
    then show ?thesis
      using complete_one_fails [where complete = complete and s = s, OF ok u_def h_def [symmetric] c] ne
      by (simp add: chains complete_loop.simps)
  next
    case (Inr x)
    obtain s1 n1 where x: "x = (s1, n1)" by (cases x)
    obtain ds where one: "complete_one complete r s = Some (Inr (with_free (free @ ch h) (r\<lparr>vr_used_tail := vr_used_tail r + 1,
         vr_buffer_chains := (vr_buffer_chains r)[h := None], vr_available := n1, vr_descs := ds\<rparr>), s1))"
      "ring_ok bo (with_free (free @ ch h) (r\<lparr>vr_used_tail := vr_used_tail r + 1,
         vr_buffer_chains := (vr_buffer_chains r)[h := None], vr_available := n1, vr_descs := ds\<rparr>)) (free @ ch h) ch H'"
      using complete_one_ok [where complete = complete, OF ok u_def h_def [symmetric] c Inr [unfolded x]] by (auto simp: Let_def)
    define r1 where "r1 = with_free (free @ ch h) (r\<lparr>vr_used_tail := vr_used_tail r + 1,
         vr_buffer_chains := (vr_buffer_chains r)[h := None], vr_available := n1, vr_descs := ds\<rparr>)"
    have r1: "vr_used_idx r1 = vr_used_idx r" "vr_used_tail r1 = vr_used_tail r + 1"
        "vr_used_elements r1 = vr_used_elements r" "vr_available r1 = n1" "rings_kept r r1"
        "vr_buffer_chains r1 = (vr_buffer_chains r)[h := None]"
      by (simp_all add: r1_def rings_kept_def)
    have ids: "used_ids r1 = map (\<lambda>u. unat (ue_id u)) us" by (simp add: used_ids_def r1 us_def)
    have "unat (ue_id v) \<noteq> h" if "v \<in> set us" for v
      using that ring_ok_chain(4) [OF ok] by (auto simp: H'_def)
    then have "(vr_buffer_chains r)[h := None] ! unat (ue_id v) = vr_buffer_chains r ! unat (ue_id v)" if "v \<in> set us" for v
      using that by (metis nth_list_update_neq)
    then have chains1: "used_chains r1 = map (\<lambda>u. (the (vr_buffer_chains r ! unat (ue_id u)), ue_len u)) us"
      by (simp add: used_chains_def r1 us_def [symmetric])
    have "m = unat (vr_used_idx r1 - vr_used_tail r1)" using Suc.hyps(2) unat_diff_Suc [OF ne] by (simp add: r1)
    moreover have "ring_ok bo r1 (free @ ch h) ch (mset (used_ids r1) + H)"
      using one(2) unfolding r1_def [symmetric] ids H'_def .
    ultimately have IH: "case complete_all complete (used_chains r1) (s1, vr_available r1) of
         Inl e \<Rightarrow> complete_loop complete (vr_used_idx r1) r1 s1 = Some (Inl e)
       | Inr (s', n) \<Rightarrow> \<exists>r'. complete_loop complete (vr_used_idx r1) r1 s1 = Some (Inr (r', s')) \<and>
           ring_ok bo r' ((free @ ch h) @ concat (map ch (used_ids r1))) ch H \<and> rings_kept r1 r' \<and>
           vr_available r' = n \<and> vr_used_tail r' = vr_used_idx r1"
      by (rule Suc.hyps(1))
    have "complete_loop complete (vr_used_idx r) r s = complete_loop complete (vr_used_idx r1) r1 s1"
      using one(1) [folded r1_def] ne by (subst complete_loop.simps) (simp add: r1)
    moreover have "complete_all complete (used_chains r) (s, vr_available r) = complete_all complete (used_chains r1) (s1, vr_available r1)"
      by (simp add: chains chains1 Inr x r1)
    moreover have "concat (map ch (used_ids r)) = ch h @ concat (map ch (used_ids r1))"
      by (simp add: used_ids_def w ids [unfolded used_ids_def] h_def)
    ultimately show ?thesis
      using IH rings_kept_trans [OF r1(5)] by (auto simp: r1(1) split: sum.splits)
  qed
qed

lemma do_complete_ok:
  fixes bunch :: "u64 \<Rightarrow> 's \<Rightarrow> 's" and s :: 's
  assumes "ring_ok bo r free ch (mset (used_ids r) + H)"
  defines "s0 \<equiv> bunch (word_of_int (uint (vr_used_tail r) - uint (vr_used_idx r))) s"
  shows "case complete_all complete (used_chains r) (s0, vr_available r) of
     Inl e \<Rightarrow> do_complete bunch complete r s = Some (Inl e)
   | Inr (s', n) \<Rightarrow> \<exists>r'. do_complete bunch complete r s = Some (Inr (used_chains r \<noteq> [], r', s')) \<and>
       ring_ok bo r' (free @ concat (map ch (used_ids r))) ch H \<and> rings_kept r r' \<and>
       vr_available r' = n \<and> vr_used_tail r' = vr_used_idx r"
proof -
  have "used_chains r \<noteq> [] \<longleftrightarrow> uint (vr_used_tail r) - uint (vr_used_idx r) \<noteq> 0"
    by (auto simp: used_chains_def stretch_eq_Nil word_uint_eq_iff)
  then show ?thesis
    using complete_loop_ok [OF assms(1), of complete s0]
    by (auto simp: do_complete_def Let_def s0_def split: sum.splits)
qed

subsection \<open>Posting several chains\<close>

definition avail_ids :: "'c vring \<Rightarrow> u16 \<Rightarrow> nat list" where
  "avail_ids r seen = map unat (stretch (vr_avail_ring r) seen (vr_avail_head r))"

definition chains_at :: "'c vring \<Rightarrow> nat list \<Rightarrow> 'c option list" where
  "chains_at r hs = map (\<lambda>h. vr_buffer_chains r ! h) hs"

text \<open>What posting leaves as it is.\<close>

definition posting_kept :: "'c vring \<Rightarrow> 'c vring \<Rightarrow> bool" where
  "posting_kept r r' \<longleftrightarrow> vr_size r' = vr_size r \<and> vr_event_index r' = vr_event_index r \<and>
     vr_avail_idx r' = vr_avail_idx r \<and> vr_used_flags r' = vr_used_flags r \<and> vr_used_idx r' = vr_used_idx r \<and>
     vr_used_elements r' = vr_used_elements r \<and> vr_used_tail r' = vr_used_tail r \<and>
     vr_avail_event r' = vr_avail_event r \<and> vr_available r' = vr_available r \<and> vr_kicks r' = vr_kicks r"

lemma post_chain_queued:
  assumes ok: "ring_ok bo r free ch (mset (avail_ids r a) + X)"
    and n: "bo c \<noteq> []" "length (bo c) \<le> length free"
  shows "\<exists>r' ch'. post_chain bo c r = Inr r' \<and> posting_kept r r' \<and>
     ring_ok bo r' (drop (length (bo c)) free) ch' (mset (avail_ids r' a) + X) \<and>
     vr_avail_head r' = vr_avail_head r + 1 \<and> vr_avail_added r' = vr_avail_added r + 1 \<and>
     chains_at r' (avail_ids r' a) = chains_at r (avail_ids r a) @ [Some c] \<and>
     (\<forall>h\<in>#X. vr_buffer_chains r' ! h = vr_buffer_chains r ! h)"
proof -
  have shape: "ring_shape r" using ok by (simp add: ring_ok_def)
  define h where "h = hd free"
  define i where "i = unat (vr_avail_head r) mod vr_size r"
  obtain ds where post: "post_chain bo c r = Inr (with_free (drop (length (bo c)) free) (r\<lparr>vr_descs := ds,
        vr_buffer_chains := (vr_buffer_chains r)[h := Some c], vr_avail_ring := (vr_avail_ring r)[i := word_of_nat h],
        vr_avail_head := vr_avail_head r + 1, vr_avail_added := vr_avail_added r + 1\<rparr>))"
    and hs: "h < vr_size r"
    and ok': "ring_ok bo (with_free (drop (length (bo c)) free) (r\<lparr>vr_descs := ds,
        vr_buffer_chains := (vr_buffer_chains r)[h := Some c], vr_avail_ring := (vr_avail_ring r)[i := word_of_nat h],
        vr_avail_head := vr_avail_head r + 1, vr_avail_added := vr_avail_added r + 1\<rparr>)) (drop (length (bo c)) free)
        (ch(h := take (length (bo c)) free)) (add_mset h (mset (avail_ids r a) + X))"
    using post_chain_ok [OF ok n] unfolding h_def i_def Let_def by blast
  define r' where "r' = with_free (drop (length (bo c)) free) (r\<lparr>vr_descs := ds,
        vr_buffer_chains := (vr_buffer_chains r)[h := Some c], vr_avail_ring := (vr_avail_ring r)[i := word_of_nat h],
        vr_avail_head := vr_avail_head r + 1, vr_avail_added := vr_avail_added r + 1\<rparr>)"
  have "0 < length free" using n by (cases free) auto
  moreover have "length free + unat (vr_avail_head r - a) \<le> vr_size r"
    using ring_ok_count [OF ok] by (simp add: avail_ids_def)
  ultimately have room: "unat (vr_avail_head r - a) < vr_size r" by linarith
  have uh: "unat (word_of_nat h :: u16) = h"
    using hs ring_shape_le [OF shape] by (simp add: unsigned_of_nat take_bit_eq_mod)
  have "stretch (vr_avail_ring r') a (vr_avail_head r') = stretch (vr_avail_ring r) a (vr_avail_head r) @ [word_of_nat h]"
    using shape stretch_put [of "vr_avail_ring r" _ "vr_avail_head r" a "word_of_nat h"] room
    by (auto simp: r'_def i_def ring_shape_def)
  then have ids: "avail_ids r' a = avail_ids r a @ [h]" by (simp add: avail_ids_def uh)
  have "h \<notin># mset (avail_ids r a) + X" by (rule ring_ok_chain(4) [OF ok'])
  then have other: "vr_buffer_chains r' ! g = vr_buffer_chains r ! g" if "g \<in># mset (avail_ids r a) + X" for g
  proof -
    have "g \<noteq> h" using that \<open>h \<notin># mset (avail_ids r a) + X\<close> by metis
    then show ?thesis by (simp add: r'_def)
  qed
  have "vr_buffer_chains r' ! h = Some c" using hs shape by (simp add: r'_def ring_shape_def)
  then have chains: "chains_at r' (avail_ids r' a) = chains_at r (avail_ids r a) @ [Some c]"
    using other by (simp add: chains_at_def ids)
  have "ring_ok bo r' (drop (length (bo c)) free) (ch(h := take (length (bo c)) free)) (mset (avail_ids r' a) + X)"
    using ok' [folded r'_def] by (simp add: ids)
  moreover have "posting_kept r r'" "vr_avail_head r' = vr_avail_head r + 1" "vr_avail_added r' = vr_avail_added r + 1"
    by (simp_all add: r'_def posting_kept_def)
  ultimately show ?thesis using post [folded r'_def] chains other by auto
qed

lemma post_chains_queued:
  assumes "ring_ok bo r free ch (mset (avail_ids r a) + X)"
    and "\<forall>c\<in>set cs. bo c \<noteq> []" "sum_list (map (\<lambda>c. length (bo c)) cs) \<le> length free"
  shows "\<exists>r' ch'. post_chains bo cs r = Inr r' \<and> posting_kept r r' \<and>
     ring_ok bo r' (drop (sum_list (map (\<lambda>c. length (bo c)) cs)) free) ch' (mset (avail_ids r' a) + X) \<and>
     vr_avail_head r' = vr_avail_head r + word_of_nat (length cs) \<and>
     vr_avail_added r' = vr_avail_added r + word_of_nat (length cs) \<and>
     chains_at r' (avail_ids r' a) = chains_at r (avail_ids r a) @ map Some cs \<and>
     (\<forall>h\<in>#X. vr_buffer_chains r' ! h = vr_buffer_chains r ! h)"
  using assms
proof (induction cs arbitrary: r free ch)
  case Nil
  then show ?case by (auto simp: posting_kept_def)
next
  case (Cons c cs)
  then obtain r1 ch1 where r1: "post_chain bo c r = Inr r1" "posting_kept r r1"
     "ring_ok bo r1 (drop (length (bo c)) free) ch1 (mset (avail_ids r1 a) + X)"
     "vr_avail_head r1 = vr_avail_head r + 1" "vr_avail_added r1 = vr_avail_added r + 1"
     "chains_at r1 (avail_ids r1 a) = chains_at r (avail_ids r a) @ [Some c]"
     "\<forall>h\<in>#X. vr_buffer_chains r1 ! h = vr_buffer_chains r ! h"
    using post_chain_queued [OF Cons.prems(1), of c] by auto
  have "\<forall>c\<in>set cs. bo c \<noteq> []" "sum_list (map (\<lambda>c. length (bo c)) cs) \<le> length (drop (length (bo c)) free)"
    using Cons.prems by auto
  from Cons.IH [OF r1(3) this] show ?case
    using r1 by (force simp: posting_kept_def add.commute add.left_commute)
qed

end
