(* ===== verification/VringHost.thy ===== *)
theory VringHost
  imports VringProps
begin

text \<open>
  A ring with the host at its other end. The host takes the chains that were made available in their
  order, holds some of them, and gives them back as used, in any order; it may write its flags and the
  index it wants to be kicked at whenever it likes. \<open>sys_ok\<close> says where each descriptor is.

  The locale \<open>ring_client\<close> is what a ring and its client owe each other.
\<close>

subsection \<open>The host\<close>

record host =
  ho_seen :: u16
  ho_held :: "nat list"

inductive host_step :: "'c vring \<times> host \<Rightarrow> 'c vring \<times> host \<Rightarrow> bool" where
  take: "ho_seen h \<noteq> vr_avail_idx r \<Longrightarrow>
     host_step (r, h) (r, h\<lparr>ho_seen := ho_seen h + 1, ho_held := ho_held h @ [unat (vr_avail_ring r ! masked r (ho_seen h))]\<rparr>)"
| give: "ho_held h = xs @ g # ys \<Longrightarrow>
     host_step (r, h)
       (r\<lparr>vr_used_elements := (vr_used_elements r)[masked r (vr_used_idx r) := \<lparr>ue_id = word_of_nat g, ue_len = len\<rparr>],
          vr_used_idx := vr_used_idx r + 1\<rparr>, h\<lparr>ho_held := xs @ ys\<rparr>)"
| ask: "host_step (r, h) (r\<lparr>vr_avail_event := e, vr_used_flags := f\<rparr>, h)"

text \<open>What the host reads from the table: the buffers of the chain that begins at \<open>i\<close>, at most \<open>n\<close>.\<close>

primrec read_chain :: "nat \<Rightarrow> desc list \<Rightarrow> nat \<Rightarrow> buffer list" where
  "read_chain 0 ds i = []"
| "read_chain (Suc n) ds i =
     \<lparr>b_addr = d_paddr (ds ! i), b_len = d_len (ds ! i), b_writeable = d_writeable (ds ! i)\<rparr> #
     (if d_has_next (ds ! i) then read_chain n ds (unat (d_next (ds ! i))) else [])"

lemma read_chain_describes: "describes ds is bs \<Longrightarrow> length is \<le> n \<Longrightarrow> read_chain n ds (hd is) = bs"
proof (induction ds "is" bs arbitrary: n rule: describes.induct)
  case (1 ds i b)
  then show ?case by (cases n) (auto simp: desc_holds_def)
next
  case (2 ds i j "is" b c bs)
  then show ?case by (cases n) (auto simp: desc_holds_def)
qed auto

subsection \<open>The invariant of the system\<close>

definition in_flight :: "'c vring \<Rightarrow> host \<Rightarrow> nat multiset" where
  "in_flight r h = mset (avail_ids r (ho_seen h)) + (mset (ho_held h) + mset (used_ids r))"

definition sys_ok :: "('c \<Rightarrow> buffer list) \<Rightarrow> nat \<Rightarrow> 'c vring \<Rightarrow> host \<Rightarrow> bool" where
  "sys_ok bo owed r h \<longleftrightarrow> (\<exists>free ch. ring_ok bo r free ch (in_flight r h) \<and>
     vr_available r + owed = length free) \<and> vr_avail_idx r = vr_avail_head r"

lemma ring_ok_cong:
  assumes "vr_size r' = vr_size r" "vr_descs r' = vr_descs r" "vr_buffer_chains r' = vr_buffer_chains r"
    "vr_free_head r' = vr_free_head r" "vr_free_last r' = vr_free_last r"
    "length (vr_avail_ring r') = length (vr_avail_ring r)" "length (vr_used_elements r') = length (vr_used_elements r)"
  shows "ring_ok bo r' free ch H = ring_ok bo r free ch H"
  using assms by (simp add: ring_ok_def ring_shape_def free_ends_def)

lemma sys_ok_shape: "sys_ok bo owed r h \<Longrightarrow> ring_shape r"
  by (auto simp: sys_ok_def ring_ok_def)

lemma host_take_ok:
  assumes ok: "sys_ok bo owed r h" and ne: "ho_seen h \<noteq> vr_avail_idx r"
  defines "g \<equiv> unat (vr_avail_ring r ! masked r (ho_seen h))"
  shows "avail_ids r (ho_seen h) = g # avail_ids r (ho_seen h + 1)"
    and "sys_ok bo owed r (h\<lparr>ho_seen := ho_seen h + 1, ho_held := ho_held h @ [g]\<rparr>)"
proof -
  have shape: "ring_shape r" and idx: "vr_avail_idx r = vr_avail_head r"
    using ok by (auto simp: sys_ok_def sys_ok_shape [OF ok])
  show ids: "avail_ids r (ho_seen h) = g # avail_ids r (ho_seen h + 1)"
    using stretch_take [of "ho_seen h" "vr_avail_head r" "vr_avail_ring r"] ne idx shape
    by (simp add: avail_ids_def g_def ring_masked [OF shape] ring_shape_def)
  show "sys_ok bo owed r (h\<lparr>ho_seen := ho_seen h + 1, ho_held := ho_held h @ [g]\<rparr>)"
    using ok by (simp add: sys_ok_def in_flight_def ids)
qed

lemma host_give_ok:
  fixes len :: u32
  assumes ok: "sys_ok bo owed r h" and held: "ho_held h = xs @ g # ys"
  defines "r' \<equiv> r\<lparr>vr_used_elements := (vr_used_elements r)[masked r (vr_used_idx r) := \<lparr>ue_id = word_of_nat g, ue_len = len\<rparr>],
          vr_used_idx := vr_used_idx r + 1\<rparr>"
  shows "used_ids r' = used_ids r @ [g]" and "sys_ok bo owed r' (h\<lparr>ho_held := xs @ ys\<rparr>)"
proof -
  have shape: "ring_shape r" by (rule sys_ok_shape [OF ok])
  obtain free ch where ring: "ring_ok bo r free ch (in_flight r h)" and av: "vr_available r + owed = length free"
    and idx: "vr_avail_idx r = vr_avail_head r" using ok by (auto simp: sys_ok_def)
  have "g < vr_size r" using ring_ok_head(2) [OF ring] held by (simp add: in_flight_def)
  then have ug: "unat (word_of_nat g :: u32) = g"
    using ring_shape_le [OF shape] by (simp add: unsigned_of_nat take_bit_eq_mod)
  have "length free + size (in_flight r h) \<le> vr_size r" by (rule ring_ok_count [OF ring])
  then have room: "unat (vr_used_idx r - vr_used_tail r) < length (vr_used_elements r)"
    using shape by (simp add: in_flight_def held used_ids_def ring_shape_def)
  show used: "used_ids r' = used_ids r @ [g]"
    using shape stretch_put [of "vr_used_elements r" _ "vr_used_idx r" "vr_used_tail r", OF _ _ room]
    by (auto simp: used_ids_def r'_def ring_masked [OF shape] ring_shape_def ug)
  have "in_flight r' (h\<lparr>ho_held := xs @ ys\<rparr>) = in_flight r h"
    by (simp add: in_flight_def used held) (simp add: avail_ids_def r'_def)
  moreover have "ring_ok bo r' free ch (in_flight r h) = ring_ok bo r free ch (in_flight r h)"
    by (rule ring_ok_cong) (simp_all add: r'_def)
  ultimately show "sys_ok bo owed r' (h\<lparr>ho_held := xs @ ys\<rparr>)"
    using ring av idx by (auto simp: sys_ok_def r'_def)
qed

lemma host_ask_ok:
  assumes "sys_ok bo owed r h"
  shows "sys_ok bo owed (r\<lparr>vr_avail_event := e, vr_used_flags := f\<rparr>) h"
proof -
  have "ring_ok bo (r\<lparr>vr_avail_event := e, vr_used_flags := f\<rparr>) free ch H = ring_ok bo r free ch H" for free ch H
    by (rule ring_ok_cong) simp_all
  then show ?thesis using assms by (simp add: sys_ok_def in_flight_def avail_ids_def used_ids_def)
qed

inductive_cases host_stepE: "host_step (r, h) (r', h')"

lemma host_step_size: "host_step (r, h) (r', h') \<Longrightarrow> vr_size r' = vr_size r"
  by (erule host_stepE) auto

lemma host_step_ok: "host_step (r, h) (r', h') \<Longrightarrow> sys_ok bo owed r h \<Longrightarrow> sys_ok bo owed r' h'"
  by (erule host_stepE) (auto intro: host_take_ok host_give_ok host_ask_ok)

text \<open>A chain in flight is what the host reads.\<close>

lemma in_flight_read:
  assumes "sys_ok bo owed r h" "g \<in># in_flight r h"
  shows "\<exists>c. vr_buffer_chains r ! g = Some c \<and> read_chain (vr_size r) (vr_descs r) g = bo c"
proof -
  obtain free ch where ring: "ring_ok bo r free ch (in_flight r h)" using assms(1) by (auto simp: sys_ok_def)
  obtain H where H: "in_flight r h = add_mset g H" using assms(2) by (rule mset_add)
  have "distinct (ch g)" "set (ch g) \<subseteq> {..<vr_size r}"
    using ring_ok_chain(1,2) [OF ring [unfolded H]] by auto
  then have "length (ch g) \<le> vr_size r"
    using card_mono [of "{..<vr_size r}" "set (ch g)"] by (simp add: distinct_card)
  moreover obtain c where "vr_buffer_chains r ! g = Some c" "describes (vr_descs r) (ch g) (bo c)" "hd (ch g) = g"
    using ring assms(2) unfolding ring_ok_def by blast
  ultimately show ?thesis using read_chain_describes [of "vr_descs r" "ch g" "bo c" "vr_size r"] by auto
qed

subsection \<open>A new ring\<close>

lemma linked_upt: "n \<le> 65536 \<Longrightarrow> (\<And>i. i < n \<Longrightarrow> d_next (ds ! i) = word_of_nat (i + 1)) \<Longrightarrow> m \<le> n \<Longrightarrow> linked ds [m..<n]"
proof (induction "n - m" arbitrary: m)
  case (Suc k)
  then have m: "m < n" by simp
  then have IH: "linked ds [Suc m..<n]" using Suc by auto
  show ?case
  proof (cases "Suc m < n")
    case True
    have "unat (d_next (ds ! m)) = Suc m"
      using Suc.prems(1,2) m True by (simp add: unsigned_of_nat take_bit_eq_mod flip: of_nat_Suc)
    then show ?thesis using IH m True by (simp add: upt_conv_Cons)
  next
    case False
    then show ?thesis using m by (simp add: upt_conv_Cons)
  qed
qed simp

lemma vring_new_ring:
  assumes "k \<le> 15"
  shows "ring_ok bo (vring_new (2 ^ k) e) [0..<2 ^ k] ch {#}"
proof -
  have le: "(2::nat) ^ k \<le> 65536" using power_increasing [of k 16 "2::nat"] assms by simp
  have "linked (vr_descs (vring_new (2 ^ k) e)) [0..<2 ^ k]"
    by (rule linked_upt [OF le]) (simp_all add: vring_new_def vring_setup_def)
  moreover have "last [0..<(2::nat) ^ k] = 2 ^ k - 1" "hd [0..<(2::nat) ^ k] = 0" by (simp_all add: hd_upt)
  then have "free_ends (vring_new (2 ^ k) e) [0..<2 ^ k]"
    by (simp add: free_ends_def vring_new_def vring_setup_def of_nat_diff)
  moreover have "ring_shape (vring_new (2 ^ k) e)"
    using assms by (auto simp: ring_shape_def vring_new_def vring_setup_def)
  ultimately show ?thesis by (simp add: ring_ok_def) (simp add: vring_new_def vring_setup_def)
qed

lemma vring_new_ok:
  assumes "k \<le> 15"
  shows "sys_ok bo 0 (vring_new (2 ^ k) e) \<lparr>ho_seen = 0, ho_held = []\<rparr>"
proof -
  have "in_flight (vring_new (2 ^ k) e) \<lparr>ho_seen = 0, ho_held = []\<rparr> = {#}"
    by (simp add: in_flight_def avail_ids_def used_ids_def vring_new_def vring_setup_def)
  moreover have "vr_available (vring_new (2 ^ k) e) = 2 ^ k" "vr_avail_idx (vring_new (2 ^ k) e) = vr_avail_head (vring_new (2 ^ k) e)"
    by (simp_all add: vring_new_def vring_setup_def)
  ultimately show ?thesis
    using vring_new_ring [OF assms, of bo e "\<lambda>_. []"] unfolding sys_ok_def by (metis add.right_neutral length_upt minus_nat.diff_0)
qed

subsection \<open>What a ring and its client owe each other\<close>

text \<open>\<open>owed s\<close> is the number of descriptors the client has got back and has not yet given to the semaphore.\<close>

locale ring_client =
  fixes bo :: "'c \<Rightarrow> buffer list"
    and bunch :: "u64 \<Rightarrow> 's \<Rightarrow> 's"
    and complete :: "'c \<Rightarrow> u32 \<Rightarrow> 's \<times> nat \<Rightarrow> ('s \<times> nat) result"
    and owed :: "'s \<Rightarrow> nat"
  assumes credit: "complete c len (s, n) = Inr (s', n') \<Longrightarrow> n' + owed s' = n + owed s + length (bo c)"
    and bunch_owed: "owed (bunch k s) = owed s"
begin

lemma credit_all:
  "complete_all complete cls (s, n) = Inr (s', n') \<Longrightarrow>
     n' + owed s' = n + owed s + sum_list (map (\<lambda>cl. length (bo (fst cl))) cls)"
proof (induction cls arbitrary: s n)
  case (Cons cl cls)
  then obtain s1 n1 where "complete (fst cl) (snd cl) (s, n) = Inr (s1, n1)"
      "complete_all complete cls (s1, n1) = Inr (s', n')" by auto
  then show ?case using credit Cons.IH by fastforce
qed simp

text \<open>Posting chains the semaphore allows for does not fail. The host finds them behind what was available
  before, in their order.\<close>

lemma posting_succeeds:
  assumes ok: "sys_ok bo (owed s) r h" and ne: "\<forall>c\<in>set cs. bo c \<noteq> []"
    and n: "sum_list (map (\<lambda>c. length (bo c)) cs) \<le> vr_available r"
  shows "\<exists>r'. post bo cs (r\<lparr>vr_available := vr_available r - sum_list (map (\<lambda>c. length (bo c)) cs)\<rparr>) = Inr r' \<and>
     sys_ok bo (owed s) r' h \<and>
     chains_at r' (avail_ids r' (ho_seen h)) = chains_at r (avail_ids r (ho_seen h)) @ map Some cs \<and>
     chains_at r' (ho_held h) = chains_at r (ho_held h) \<and> used_chains r' = used_chains r \<and>
     vr_available r' = vr_available r - sum_list (map (\<lambda>c. length (bo c)) cs) \<and> vr_size r' = vr_size r"
proof -
  define N where "N = sum_list (map (\<lambda>c. length (bo c)) cs)"
  define r0 where "r0 = r\<lparr>vr_available := vr_available r - N\<rparr>"
  obtain free ch where ring: "ring_ok bo r free ch (in_flight r h)" and av: "vr_available r + owed s = length free"
    and idx: "vr_avail_idx r = vr_avail_head r" using ok by (auto simp: sys_ok_def)
  have "ring_ok bo r0 free ch (mset (avail_ids r0 (ho_seen h)) + (mset (ho_held h) + mset (used_ids r)))"
    using ring ring_ok_cong [of r0 r bo free ch] by (simp add: in_flight_def r0_def avail_ids_def)
  moreover have "N \<le> length free" using n av by (simp add: N_def)
  ultimately obtain r1 ch' where r1: "post_chains bo cs r0 = Inr r1" "posting_kept r0 r1"
     "ring_ok bo r1 (drop N free) ch' (mset (avail_ids r1 (ho_seen h)) + (mset (ho_held h) + mset (used_ids r)))"
     "chains_at r1 (avail_ids r1 (ho_seen h)) = chains_at r0 (avail_ids r0 (ho_seen h)) @ map Some cs"
     "\<forall>g\<in>#mset (ho_held h) + mset (used_ids r). vr_buffer_chains r1 ! g = vr_buffer_chains r0 ! g"
    using post_chains_queued [of bo r0 free ch "ho_seen h" _ cs] ne unfolding N_def by blast
  define r2 where "r2 = kick (r1\<lparr>vr_avail_idx := vr_avail_head r1\<rparr>)"
  have kick: "vr_size (kick q) = vr_size q" "vr_descs (kick q) = vr_descs q" "vr_buffer_chains (kick q) = vr_buffer_chains q"
     "vr_free_head (kick q) = vr_free_head q" "vr_free_last (kick q) = vr_free_last q" "vr_avail_ring (kick q) = vr_avail_ring q"
     "vr_used_elements (kick q) = vr_used_elements q" "vr_avail_idx (kick q) = vr_avail_idx q" "vr_avail_head (kick q) = vr_avail_head q"
     "vr_used_idx (kick q) = vr_used_idx q" "vr_used_tail (kick q) = vr_used_tail q" "vr_available (kick q) = vr_available q"
    for q :: "'c vring" by (simp_all add: kick_def Let_def)
  have used: "used_ids r2 = used_ids r" "vr_used_elements r2 = vr_used_elements r" "vr_used_tail r2 = vr_used_tail r"
      "vr_used_idx r2 = vr_used_idx r" "vr_available r2 = vr_available r - N"
    using r1(2) by (simp_all add: used_ids_def r2_def kick posting_kept_def r0_def)
  have avail: "avail_ids r2 a = avail_ids r1 a" "chains_at r2 gs = chains_at r1 gs" for a gs
    by (simp_all add: avail_ids_def chains_at_def r2_def kick)
  have "ring_ok bo r2 free' ch H = ring_ok bo r1 free' ch H" for free' ch H
    by (rule ring_ok_cong) (simp_all add: r2_def kick)
  then have "ring_ok bo r2 (drop N free) ch' (in_flight r2 h)"
    using r1(3) by (simp add: in_flight_def used avail)
  moreover have "vr_available r2 + owed s = length (drop N free)"
    using av n by (simp add: used N_def [symmetric])
  moreover have "vr_avail_idx r2 = vr_avail_head r2" by (simp add: r2_def kick)
  ultimately have "sys_ok bo (owed s) r2 h" unfolding sys_ok_def by blast
  moreover have "post bo cs r0 = Inr r2" by (simp add: post_def r1(1) r2_def)
  moreover have held: "vr_buffer_chains r2 ! unat (ue_id u) = vr_buffer_chains r ! unat (ue_id u)"
    if "u \<in> set (stretch (vr_used_elements r) (vr_used_tail r) (vr_used_idx r))" for u
    using r1(5) that by (simp add: used_ids_def r2_def kick r0_def)
  have "used_chains r2 = used_chains r"
    using held by (simp add: used_chains_def used)
  moreover have "chains_at r0 (avail_ids r0 (ho_seen h)) = chains_at r (avail_ids r (ho_seen h))"
    by (simp add: chains_at_def avail_ids_def r0_def)
  then have "chains_at r2 (avail_ids r2 (ho_seen h)) = chains_at r (avail_ids r (ho_seen h)) @ map Some cs"
    using r1(4) by (simp add: avail)
  moreover have "chains_at r2 (ho_held h) = chains_at r (ho_held h)"
    unfolding avail using r1(5) by (simp add: chains_at_def r0_def)
  moreover have "vr_size r2 = vr_size r" using r1(2) by (simp add: r2_def kick posting_kept_def r0_def)
  ultimately show ?thesis using used(5) unfolding r0_def N_def by blast
qed

text \<open>Completing returns. Unless the client fails, it has got all used chains in the order they came back,
  and their descriptors are free.\<close>

lemma completing_returns:
  assumes ok: "sys_ok bo (owed s) r h"
  defines "s0 \<equiv> bunch (word_of_int (uint (vr_used_tail r) - uint (vr_used_idx r))) s"
  shows "case complete_all complete (used_chains r) (s0, vr_available r) of
     Inl e \<Rightarrow> do_complete bunch complete r s = Some (Inl e)
   | Inr (s', n) \<Rightarrow> \<exists>r'. do_complete bunch complete r s = Some (Inr (used_chains r \<noteq> [], r', s')) \<and>
       sys_ok bo (owed s') r' h \<and> used_chains r' = [] \<and> vr_available r' = n \<and> rings_kept r r'"
proof -
  obtain free ch where ring: "ring_ok bo r free ch (in_flight r h)" and av: "vr_available r + owed s = length free"
    and idx: "vr_avail_idx r = vr_avail_head r" using ok by (auto simp: sys_ok_def)
  have ring': "ring_ok bo r free ch (mset (used_ids r) + (mset (avail_ids r (ho_seen h)) + mset (ho_held h)))"
    using ring by (simp add: in_flight_def ac_simps)
  have lengths: "length (ch g) = length (bo (the (vr_buffer_chains r ! g)))" if "g \<in> set (used_ids r)" for g
  proof -
    have "g \<in># mset (used_ids r) + (mset (avail_ids r (ho_seen h)) + mset (ho_held h))" using that by simp
    then obtain c where "vr_buffer_chains r ! g = Some c" "describes (vr_descs r) (ch g) (bo c)"
      using ring' unfolding ring_ok_def by blast
    then show ?thesis using describes_length by auto
  qed
  have total: "length (concat (map ch (used_ids r))) = sum_list (map (\<lambda>cl. length (bo (fst cl))) (used_chains r))"
    using lengths by (simp add: length_concat used_chains_def used_ids_def comp_def cong: map_cong)
  show ?thesis
  proof (cases "complete_all complete (used_chains r) (s0, vr_available r)")
    case (Inl e)
    then show ?thesis using do_complete_ok [where complete = complete and bunch = bunch and s = s, OF ring'] by (simp add: s0_def)
  next
    case (Inr x)
    obtain s' n where x: "x = (s', n)" by (cases x)
    obtain r' where r': "do_complete bunch complete r s = Some (Inr (used_chains r \<noteq> [], r', s'))"
       "ring_ok bo r' (free @ concat (map ch (used_ids r))) ch (mset (avail_ids r (ho_seen h)) + mset (ho_held h))"
       "rings_kept r r'" "vr_available r' = n" "vr_used_tail r' = vr_used_idx r"
      using do_complete_ok [where complete = complete and bunch = bunch and s = s, OF ring'] Inr x by (auto simp: s0_def)
    have none: "used_ids r' = []" "used_chains r' = []" "avail_ids r' = avail_ids r" "vr_avail_idx r' = vr_avail_head r'"
      using r'(3,5) idx by (auto simp: used_ids_def used_chains_def rings_kept_def avail_ids_def fun_eq_iff)
    have "n + owed s' = length (free @ concat (map ch (used_ids r)))"
      using credit_all [OF Inr [unfolded x]] av total by (simp add: s0_def bunch_owed)
    then have "sys_ok bo (owed s') r' h"
      using r'(2,4) none by (auto simp: sys_ok_def in_flight_def)
    then show ?thesis using r' Inr x none by auto
  qed
qed

end

end
