(* ===== verification/VirtioProps.thy ===== *)
theory VirtioProps
  imports Virtio VringHost
begin

text \<open>
  Correctness of the virtio device. Both queues are clients of their rings, so every descriptor is
  accounted for whatever the host does, sending and completing do not fail, and the semaphores do not
  drift. What the host reads of a packet is the virtio header and the packet; what it wrote into the
  buffers of a frame is the packet the interface gets. The host is kicked when it asked to be.
\<close>

subsection \<open>The header in front of a packet\<close>

lemma length_net_hdr_store: "length (net_hdr_store v) = 12"
  by (simp add: net_hdr_store_def)

lemma allocate_headroom_frags:
  assumes "packet_core h p" "length (p_frags p) + 1 < 32768" "allocate_headroom h p n = Inr (ok, q)"
  shows "length (p_frags q) \<le> length (p_frags p) + 1"
proof -
  have "packet_core h (p\<lparr>p_len := len32 (p_len p + n)\<rparr>)" using assms(1) by (simp add: packet_core_def)
  from allocate_if_needed_ok [OF this, of 1] assms(2)
  obtain p2 where p2: "allocate_if_needed h (p\<lparr>p_len := len32 (p_len p + n)\<rparr>) 1 = Inr p2" "p_frags p2 = p_frags p"
    by auto
  have "using_internal_data (p_frags p) \<Longrightarrow> p_frags p \<noteq> []" by auto
  then show ?thesis
    using assms(3) p2 by (cases "p_frags p") (auto simp: allocate_headroom_def Let_def split: if_splits)
qed

lemma store_front_frags: "store_front h p bs = Inr (h', q) \<Longrightarrow> p_frags q = p_frags p"
  by (auto simp: store_front_def split: list.splits ptr.splits if_splits)

lemma packet_prepend_copy_ok:
  assumes wf: "packet_wf h p" and n: "length (p_frags p) + 1 < 32768" and hdr: "hdr \<noteq> []"
  shows "\<exists>h' q. packet_prepend_copy h hdr p = Inr (h', q) \<and> heap_le h h' \<and> packet_wf h' q \<and>
    packet_bytes h' q = hdr @ packet_bytes h p \<and> length (p_frags q) \<le> length (p_frags p) + 1 \<and> p_frags q \<noteq> []"
proof -
  have core: "packet_core h p" using wf by (simp add: packet_wf_def)
  have ne: "packet_bytes h' q = hdr @ bs \<Longrightarrow> p_frags q \<noteq> []" for h' q bs
    using hdr by (auto simp: packet_bytes_def)
  show ?thesis
  proof (cases "length hdr \<le> p_headroom p")
    case True
    from allocate_headroom_ok [OF core True n] obtain q q' where q: "allocate_headroom h p (length hdr) = Inr (True, q)"
      "store_front h q hdr = Inr (h, q')" "packet_core h q'" "p_len q' = len32 (p_len p + length hdr)"
      "sum_list (map frag_size (p_frags q')) = length hdr + sum_list (map frag_size (p_frags p))"
      "packet_bytes h q' = hdr @ packet_bytes h p" by blast
    have "length (p_frags q') \<le> length (p_frags p) + 1"
      using allocate_headroom_frags [OF core n q(1)] store_front_frags [OF q(2)] by simp
    then show ?thesis using q wf ne by (auto simp: packet_prepend_copy_def packet_wf_def add.commute)
  next
    case False
    obtain h1 p1 where 1: "unuse_internal_data h p = Inr (h1, p1)" "heap_le h h1" "packet_core h1 p1"
       "p_headroom p1 = internal_data_size" "packet_bytes h1 p1 = packet_bytes h p"
       "map frag_size (p_frags p1) = map frag_size (p_frags p)" "p_len p1 = p_len p"
      using unuse_internal_data_ok [OF core] by blast
    have len: "length (p_frags p1) = length (p_frags p)" using arg_cong [OF 1(6), of length] by simp
    obtain p2 where 2: "allocate_if_needed h1 p1 1 = Inr p2" "packet_core h1 p2" "packet_bytes h1 p2 = packet_bytes h1 p1"
       "p_frags p2 = p_frags p1" "p_headroom p2 = p_headroom p1" "p_len p2 = p_len p1"
      using allocate_if_needed_ok [OF 1(3), of 1] n len by auto
    define f where "f = \<lparr>frag_base = Heap (length (bufs h1)) 0, frag_size = length hdr\<rparr>"
    define h2 where "h2 = h1\<lparr>bufs := bufs h1 @ [hdr]\<rparr>"
    define q where "q = p2\<lparr>p_len := len32 (p_len p2 + length hdr), p_frags := f # p_frags p2\<rparr>"
    have le: "heap_le h1 h2" by (simp add: heap_le_def h2_def)
    have plain: "list_all (plain_ok h1) (p_frags p2)" using 2(2,5) 1(4) by (simp add: packet_core_def)
    have "plain_ok h2 f" by (simp add: plain_ok_def f_def h2_def in_range_def)
    then have coreq: "packet_core h2 q"
      using 2(2,5) 1(4) list_plain_ok_mono [OF plain le] by (simp add: packet_core_def q_def)
    have "frag_bytes h2 d f = hdr" for d by (simp add: frag_bytes_def f_def h2_def slice_def)
    then have bytes: "packet_bytes h2 q = hdr @ packet_bytes h p"
      using concat_plain_bytes_frame [OF plain le, of "p_data p2" "p_data p2"] 2(3) 1(5)
      by (simp add: packet_bytes_def q_def)
    have "packet_wf h2 q" using coreq 1(6,7) 2(4,6) wf by (simp add: packet_wf_def q_def f_def add.commute)
    moreover have "packet_prepend_copy h hdr p = Inr (h2, q)"
      using False 1(1) 2(1)
      by (simp add: packet_prepend_copy_def allocate_headroom_def alloc_buf_def q_def f_def h2_def)
    ultimately show ?thesis
      using bytes heap_le_trans [OF 1(2) le] ne 2(4) len by (intro exI [of _ h2] exI [of _ q]) (simp add: q_def)
  qed
qed

subsection \<open>What is taken from the queue\<close>

definition with_header :: "hw_features \<Rightarrow> nat \<Rightarrow> heap \<Rightarrow> heap \<Rightarrow> packet \<Rightarrow> packet \<Rightarrow> bool" where
  "with_header hw header_len h h' p q \<longleftrightarrow> packet_wf h' q \<and> p_frags q \<noteq> [] \<and>
     packet_bytes h' q = take header_len (net_hdr_store (tx_header hw p)) @ packet_bytes h p"

definition sendable :: "heap \<Rightarrow> packet \<Rightarrow> bool" where
  "sendable h p \<longleftrightarrow> packet_wf h p \<and> length (p_frags p) + 1 < 32768"

lemma txq_take_ok:
  assumes "\<forall>p\<in>set pb. sendable h p" "0 < header_len"
  shows "\<exists>h' taken qs rest. txq_take hw header_len h avail pb =
       Inr (h', avail - sum_list (map (\<lambda>q. length (p_frags q)) qs), qs, rest,
            sum_list (map p_len taken), sum_list (map (\<lambda>p. length (p_frags p)) taken)) \<and>
     pb = taken @ rest \<and> heap_le h h' \<and> list_all2 (with_header hw header_len h h') taken qs \<and>
     sum_list (map (\<lambda>q. length (p_frags q)) qs) \<le> avail \<and>
     (rest \<noteq> [] \<longrightarrow> avail - sum_list (map (\<lambda>q. length (p_frags q)) qs) < length (p_frags (hd rest)) + 1)"
  using assms(1)
proof (induction pb arbitrary: h avail)
  case Nil
  show ?case by (intro exI [of _ h] exI [of _ "[]"]) simp
next
  case (Cons p pb)
  show ?case
  proof (cases "length (p_frags p) + 1 \<le> avail")
    case False
    then show ?thesis by (intro exI [of _ h] exI [of _ "[]"] exI [of _ "p # pb"]) simp
  next
    case True
    define hdr where "hdr = take header_len (net_hdr_store (tx_header hw p))"
    have "hdr \<noteq> []" using assms(2) length_net_hdr_store [of "tx_header hw p"] by (auto simp: hdr_def)
    then obtain h1 q where q: "packet_prepend_copy h hdr p = Inr (h1, q)" "heap_le h h1" "packet_wf h1 q"
        "packet_bytes h1 q = hdr @ packet_bytes h p" "length (p_frags q) \<le> length (p_frags p) + 1" "p_frags q \<noteq> []"
      using packet_prepend_copy_ok [of h p hdr] Cons.prems by (auto simp: sendable_def)
    have "\<forall>p\<in>set pb. sendable h1 p" using Cons.prems q(2) by (auto simp: sendable_def intro: packet_wf_mono)
    from Cons.IH [OF this, of "avail - length (p_frags q)"] obtain h2 taken qs rest where
      IH: "txq_take hw header_len h1 (avail - length (p_frags q)) pb =
         Inr (h2, avail - length (p_frags q) - sum_list (map (\<lambda>q. length (p_frags q)) qs), qs, rest,
              sum_list (map p_len taken), sum_list (map (\<lambda>p. length (p_frags p)) taken))"
        "pb = taken @ rest" "heap_le h1 h2" "list_all2 (with_header hw header_len h1 h2) taken qs"
        "sum_list (map (\<lambda>q. length (p_frags q)) qs) \<le> avail - length (p_frags q)"
        "rest \<noteq> [] \<longrightarrow> avail - length (p_frags q) - sum_list (map (\<lambda>q. length (p_frags q)) qs) < length (p_frags (hd rest)) + 1"
      by blast
    have "with_header hw header_len h h2 p q"
      using q packet_wf_mono [OF q(3) IH(3)] packet_bytes_frame [OF _ IH(3), of q]
      by (simp add: with_header_def hdr_def packet_wf_def)
    moreover have "list_all2 (with_header hw header_len h h2) taken qs"
    proof (rule list.rel_mono_strong [OF IH(4)])
      fix p' q' assume "p' \<in> set taken" "with_header hw header_len h1 h2 p' q'"
      then show "with_header hw header_len h h2 p' q'"
        using Cons.prems IH(2) packet_bytes_frame [OF _ q(2), of p'] by (auto simp: with_header_def sendable_def packet_wf_def)
    qed
    ultimately show ?thesis
      using True q IH heap_le_trans [OF q(2) IH(3)]
      by (intro exI [of _ h2] exI [of _ "p # taken"] exI [of _ "q # qs"] exI [of _ rest]) (simp add: hdr_def)
  qed
qed

subsection \<open>The queues as clients of their rings\<close>

interpretation tx: ring_client "packet_buffers phys" txq_bunch txq_complete "\<lambda>_. 0" for phys
  by unfold_locales (auto simp: txq_complete_def txq_bunch_def packet_buffers_def)

definition rx_owed :: "rxq \<Rightarrow> nat" where
  "rx_owed s = (if rx_remaining s = 0 then 0 else length (rx_fragments s))"

interpretation rx: ring_client single_buffer update_rx_count "complete_buffer header_len mem" rx_owed for header_len mem
proof unfold_locales
  fix c len s n s' n'
  assume "complete_buffer header_len mem c len (s, n) = Inr (s', n')"
  then show "n' + rx_owed s' = n + rx_owed s + length (single_buffer c)"
    by (auto simp: complete_buffer_def Let_def rx_owed_def single_buffer_def deliver_packet_def split: if_splits)
next
  show "rx_owed (update_rx_count k s) = rx_owed s" for k s
    by (simp add: rx_owed_def update_rx_count_def)
qed

abbreviation (input) host_new :: host where "host_new \<equiv> \<lparr>ho_seen = 0, ho_held = []\<rparr>"

subsection \<open>The send queue and its host\<close>

text \<open>What can become of the memory, the ring and the host: packets are sent, used chains are completed,
  the host moves, and other code allocates.\<close>

inductive tx_reach :: "hw_features \<Rightarrow> nat \<Rightarrow> (packet \<Rightarrow> ptr \<Rightarrow> u64) \<Rightarrow> nat \<Rightarrow> bool \<Rightarrow> heap \<Rightarrow> packet vring \<Rightarrow> host \<Rightarrow> bool"
  for hw header_len phys n e where
  start: "tx_reach hw header_len phys n e h (vring_new n e) host_new"
| memory: "tx_reach hw header_len phys n e h r ho \<Longrightarrow> heap_le h h' \<Longrightarrow> tx_reach hw header_len phys n e h' r ho"
| send: "tx_reach hw header_len phys n e h r ho \<Longrightarrow> \<forall>p\<in>set pb. sendable h p \<Longrightarrow>
     txq_post hw header_len phys h st r pb = Inr (h', r', rest, st', m) \<Longrightarrow> tx_reach hw header_len phys n e h' r' ho"
| poll: "tx_reach hw header_len phys n e h r ho \<Longrightarrow> txq_poll r = Some (Inr (b, r', u)) \<Longrightarrow> tx_reach hw header_len phys n e h r' ho"
| host: "tx_reach hw header_len phys n e h r ho \<Longrightarrow> host_step (r, ho) (r', ho') \<Longrightarrow> tx_reach hw header_len phys n e h r' ho'"

lemma txq_post_ok:
  assumes ok: "sys_ok (packet_buffers phys) 0 r ho" and pb: "\<forall>p\<in>set pb. sendable h p" and hl: "0 < header_len"
  shows "\<exists>h' r' taken qs rest. txq_post hw header_len phys h st r pb = Inr (h', r', rest,
       update_frags_stats (word_of_nat (sum_list (map (\<lambda>p. length (p_frags p)) taken)))
         (word_of_nat (sum_list (map p_len taken))) st, length qs) \<and>
     pb = taken @ rest \<and> list_all2 (with_header hw header_len h h') taken qs \<and>
     sys_ok (packet_buffers phys) 0 r' ho \<and>
     chains_at r' (avail_ids r' (ho_seen ho)) = chains_at r (avail_ids r (ho_seen ho)) @ map Some qs \<and>
     (rest \<noteq> [] \<longrightarrow> vr_available r' < length (p_frags (hd rest)) + 1) \<and> vr_size r' = vr_size r"
proof -
  from txq_take_ok [OF pb hl, of hw "vr_available r"] obtain h' taken qs rest where
    t: "txq_take hw header_len h (vr_available r) pb =
       Inr (h', vr_available r - sum_list (map (\<lambda>q. length (p_frags q)) qs), qs, rest,
            sum_list (map p_len taken), sum_list (map (\<lambda>p. length (p_frags p)) taken))"
     "pb = taken @ rest" "list_all2 (with_header hw header_len h h') taken qs"
     "sum_list (map (\<lambda>q. length (p_frags q)) qs) \<le> vr_available r"
     "rest \<noteq> [] \<longrightarrow> vr_available r - sum_list (map (\<lambda>q. length (p_frags q)) qs) < length (p_frags (hd rest)) + 1"
    by blast
  have len: "length (packet_buffers phys q) = length (p_frags q)" for q by (simp add: packet_buffers_def)
  have "\<forall>q\<in>set qs. packet_buffers phys q \<noteq> []"
    using t(3) by (auto simp: with_header_def packet_buffers_def list_all2_conv_all_nth in_set_conv_nth)
  from tx.posting_succeeds [OF ok this] t(4) obtain r' where
    "post (packet_buffers phys) qs (r\<lparr>vr_available := vr_available r - sum_list (map (\<lambda>q. length (p_frags q)) qs)\<rparr>) = Inr r'"
    "sys_ok (packet_buffers phys) 0 r' ho"
    "chains_at r' (avail_ids r' (ho_seen ho)) = chains_at r (avail_ids r (ho_seen ho)) @ map Some qs"
    "vr_available r' = vr_available r - sum_list (map (\<lambda>q. length (p_frags q)) qs)" "vr_size r' = vr_size r"
    by (auto simp: len)
  then show ?thesis using t
    by (intro exI [of _ h'] exI [of _ r'] exI [of _ taken] exI [of _ qs] exI [of _ rest]) (simp add: txq_post_def)
qed

lemma txq_poll_ok:
  assumes ok: "sys_ok (packet_buffers phys) 0 r ho"
  shows "\<exists>r'. txq_poll r = Some (Inr (used_chains r \<noteq> [], r', ())) \<and> sys_ok (packet_buffers phys) 0 r' ho \<and>
     used_chains r' = [] \<and> vr_available r' = vr_available r + sum_list (map (\<lambda>c. length (p_frags (fst c))) (used_chains r)) \<and>
     rings_kept r r'"
proof -
  have all: "complete_all txq_complete cls (s, n) = Inr (s, n + sum_list (map (\<lambda>c. length (p_frags (fst c))) cls))"
    for cls and s :: unit and n by (induction cls arbitrary: n) (auto simp: txq_complete_def)
  show ?thesis using tx.completing_returns [OF ok, of "()"] by (simp add: all txq_poll_def)
qed

lemma tx_reach_ok:
  assumes "tx_reach hw header_len phys (2 ^ k) e h r ho" "k \<le> 15" "0 < header_len"
  shows "sys_ok (packet_buffers phys) 0 r ho \<and> vr_size r = 2 ^ k"
  using assms(1)
proof (induction rule: tx_reach.induct)
  case (start h)
  show ?case using vring_new_ok [OF assms(2)] by (simp add: vring_new_def vring_setup_def)
next
  case (send h r ho pb st h' r' rest st' m)
  then show ?case using txq_post_ok [OF _ send.hyps(2) assms(3), of phys r ho hw st] by auto
next
  case (poll h r ho b r' u)
  then show ?case using txq_poll_ok [of phys r ho] by (auto simp: rings_kept_def)
next
  case (host h r ho r' ho')
  then show ?case using host_step_ok host_step_size by metis
qed

subsection \<open>The receive queue and its host\<close>

inductive rx_reach :: "nat \<Rightarrow> (nat \<Rightarrow> u64) \<Rightarrow> nat \<Rightarrow> bool \<Rightarrow> buffer vring \<Rightarrow> rxq \<Rightarrow> host \<Rightarrow> bool"
  for header_len malloc n e where
  start: "rx_reach header_len malloc n e (vring_new n e) rxq_new host_new"
| prepare: "rx_reach header_len malloc n e r s ho \<Longrightarrow> prepare_buffers malloc r s = Some (Inr (r', s')) \<Longrightarrow>
     rx_reach header_len malloc n e r' s' ho"
| poll: "rx_reach header_len malloc n e r s ho \<Longrightarrow> rxq_poll header_len mem r s = Some (Inr (b, r', s')) \<Longrightarrow>
     rx_reach header_len malloc n e r' s' ho"
| host: "rx_reach header_len malloc n e r s ho \<Longrightarrow> host_step (r, ho) (r', ho') \<Longrightarrow> rx_reach header_len malloc n e r' s ho'"

lemma prepare_buffers_ok:
  assumes ok: "sys_ok single_buffer (rx_owed s) r ho" and pos: "0 < vr_available r"
  shows "\<exists>r'. prepare_buffers malloc r s = Some (Inr (r', s\<lparr>rx_mallocs := rx_mallocs s + vr_available r\<rparr>)) \<and>
      sys_ok single_buffer (rx_owed s) r' ho \<and> vr_available r' = 0 \<and>
      chains_at r' (avail_ids r' (ho_seen ho)) = chains_at r (avail_ids r (ho_seen ho)) @
        map (\<lambda>i. Some (make_buffer_chain malloc i)) [rx_mallocs s..<rx_mallocs s + vr_available r]"
proof -
  define cs where "cs = map (make_buffer_chain malloc) [rx_mallocs s..<rx_mallocs s + vr_available r]"
  have sum: "sum_list (map (\<lambda>c. length (single_buffer c)) cs) = vr_available r"
    by (simp add: single_buffer_def cs_def comp_def sum_list_triv)
  have "\<forall>c\<in>set cs. single_buffer c \<noteq> []" by (simp add: single_buffer_def)
  from rx.posting_succeeds [OF ok this] sum obtain r' where
    "post single_buffer cs (r\<lparr>vr_available := 0\<rparr>) = Inr r'" "sys_ok single_buffer (rx_owed s) r' ho" "vr_available r' = 0"
    "chains_at r' (avail_ids r' (ho_seen ho)) = chains_at r (avail_ids r (ho_seen ho)) @ map Some cs" by auto
  then show ?thesis
    using pos by (intro exI [of _ r']) (simp add: prepare_buffers_def Let_def cs_def comp_def del: upt_Suc)
qed

lemma rx_reach_ok:
  assumes "rx_reach header_len malloc (2 ^ k) e r s ho" "k \<le> 15"
  shows "sys_ok single_buffer (rx_owed s) r ho"
  using assms(1)
proof (induction rule: rx_reach.induct)
  case start
  show ?case using vring_new_ok [OF assms(2)] by (simp add: rx_owed_def rxq_new_def)
next
  case (prepare r s ho r' s')
  have "0 < vr_available r" using prepare.hyps(2) by (cases "vr_available r") (auto simp: prepare_buffers_def)
  then show ?case using prepare_buffers_ok [OF prepare.IH, of malloc] prepare.hyps(2) by (auto simp: rx_owed_def)
next
  case (poll r s ho mem b r' s')
  then show ?case
    using rx.completing_returns [OF poll.IH, of header_len mem]
    by (auto simp: rxq_poll_def split: sum.splits prod.splits)
next
  case (host r s ho r' ho')
  then show ?case using host_step_ok by blast
qed

subsection \<open>Frames\<close>

text \<open>A frame is the buffers the host wrote it to with the lengths; the header in the first one says how
  many they are.\<close>

definition frame_ok :: "(u64 \<Rightarrow> bytes) \<Rightarrow> (buffer \<times> u32) list \<Rightarrow> bool" where
  "frame_ok mem fr \<longleftrightarrow> fr \<noteq> [] \<and> unat (load16 (drop 10 (mem (b_addr (fst (hd fr)))))) = length fr"

definition plain_fragment :: "buffer \<times> u32 \<Rightarrow> rx_fragment" where
  "plain_fragment bl = \<lparr>rf_addr = b_addr (fst bl), rf_len = ucast (snd bl)\<rparr>"

definition frame_packet :: "nat \<Rightarrow> (buffer \<times> u32) list \<Rightarrow> rx_fragment list \<times> u64 list" where
  "frame_packet header_len fr =
     (\<lparr>rf_addr = b_addr (fst (hd fr)) + word_of_nat header_len, rf_len = ucast (snd (hd fr)) - word_of_nat header_len\<rparr> #
        map plain_fragment (tl fr),
      map (\<lambda>bl. b_addr (fst bl)) fr)"

lemma length_word_0: "length xs < 2 ^ 32 \<Longrightarrow> (word_of_nat (length xs) :: u32) = 0 \<longleftrightarrow> xs = []"
  by (cases xs) (auto simp: word_of_nat_eq_0_iff simp del: of_nat_Suc dest: dvd_imp_le)

text \<open>The rest of a frame.\<close>

lemma complete_frame_rest:
  assumes "rx_remaining s = word_of_nat (length fr)" "fr \<noteq> []" "length fr < 2 ^ 32"
  shows "\<exists>s'. complete_all (complete_buffer header_len mem) fr (s, n) = Inr (s', n + length (rx_fragments s) + length fr) \<and>
     rx_remaining s' = 0 \<and> vs_pkts (rx_stats s') = vs_pkts (rx_stats s) \<and>
     rx_received s' = rx_received s @ [(rx_fragments s @ map plain_fragment fr, rx_buffers s @ map (\<lambda>bl. b_addr (fst bl)) fr)]"
  using assms
proof (induction fr arbitrary: s)
  case (Cons bl fr)
  have m: "unat (rx_remaining s) = Suc (length fr)"
    using Cons.prems(1,3) by (simp add: unsigned_of_nat take_bit_eq_mod del: of_nat_Suc)
  then have nz: "rx_remaining s \<noteq> 0" by auto
  have rem: "rx_remaining s - 1 = word_of_nat (length fr)" using Cons.prems(1) by simp
  have one: "rx_remaining s = 1 \<longleftrightarrow> fr = []"
  proof -
    have "length fr < 2 ^ 32" using Cons.prems(3) by simp
    then show ?thesis using rem length_word_0 [of fr] by (metis right_minus_eq)
  qed
  define s1 where "s1 = s\<lparr>rx_fragments := rx_fragments s @ [plain_fragment bl],
     rx_buffers := rx_buffers s @ [b_addr (fst bl)], rx_remaining := word_of_nat (length fr)\<rparr>"
  have step: "complete_buffer header_len mem (fst bl) (snd bl) (s, n) =
      Inr (if fr = [] then deliver_packet (s1, n) else (s1, n))"
    using nz rem one
    by (simp add: complete_buffer_def Let_def s1_def plain_fragment_def)
  show ?case
  proof (cases "fr = []")
    case True
    then show ?thesis
      by (simp add: step deliver_packet_def Let_def s1_def update_frags_stats_def)
  next
    case False
    then show ?thesis
      using Cons.IH [of s1] Cons.prems(3) step by (auto simp: s1_def)
  qed
qed simp

lemma complete_frame:
  assumes "rx_remaining s = 0" "frame_ok mem fr"
  shows "\<exists>s'. complete_all (complete_buffer header_len mem) fr (s, n) = Inr (s', n + length fr) \<and>
     rx_remaining s' = 0 \<and> vs_pkts (rx_stats s') = vs_pkts (rx_stats s) \<and>
     rx_received s' = rx_received s @ [frame_packet header_len fr]"
proof -
  obtain bl rest where fr: "fr = bl # rest" using assms(2) by (cases fr) (auto simp: frame_ok_def)
  define nb where "nb = load16 (drop 10 (mem (b_addr (fst bl))))"
  have nb: "unat nb = Suc (length rest)" using assms(2) by (simp add: frame_ok_def nb_def fr)
  then have "nb \<noteq> 0" by auto
  then have ge: "1 \<le> nb" by (simp add: word_le_nat_alt unat_gt_0 Suc_le_eq)
  have "unat nb < 2 ^ LENGTH(16)" by (rule unsigned_less)
  then have "Suc (length rest) < 65536" using nb by simp
  have "(ucast nb :: u32) = word_of_nat (unat nb)" by (simp add: unsigned_ucast_eq word_unat_eq_iff)
  then have cast: "(ucast nb :: u32) - 1 = word_of_nat (length rest)" by (simp add: nb)
  have one: "(ucast nb :: u32) = 1 \<longleftrightarrow> rest = []"
  proof -
    have "length rest < 2 ^ 32" using \<open>Suc (length rest) < 65536\<close> by simp
    then show ?thesis using cast length_word_0 [of rest] by (metis right_minus_eq)
  qed
  define frag where "frag = \<lparr>rf_addr = b_addr (fst bl) + word_of_nat header_len, rf_len = ucast (snd bl) - word_of_nat header_len\<rparr>"
  define s1 where "s1 = s\<lparr>rx_fragments := [frag], rx_buffers := [b_addr (fst bl)], rx_remaining := word_of_nat (length rest)\<rparr>"
  have step: "complete_buffer header_len mem (fst bl) (snd bl) (s, n) =
      Inr (if rest = [] then deliver_packet (s1, n) else (s1, n))"
    using assms(1) ge cast one
    by (simp add: complete_buffer_def Let_def nb_def [symmetric] s1_def frag_def)
  show ?thesis
  proof (cases "rest = []")
    case True
    then show ?thesis
      by (simp add: fr step deliver_packet_def Let_def s1_def update_frags_stats_def frame_packet_def frag_def)
  next
    case False
    then show ?thesis
      using complete_frame_rest [of s1 rest header_len mem n] \<open>Suc (length rest) < 65536\<close>
      by (auto simp: fr step s1_def frame_packet_def frag_def)
  qed
qed

lemma complete_all_append:
  "complete_all f (xs @ ys) x = andThen (complete_all f xs x) (complete_all f ys)"
proof (induction xs arbitrary: x)
  case (Cons a xs)
  then show ?case by (cases "f (fst a) (snd a) x") auto
qed simp

lemma complete_frames:
  assumes "rx_remaining s = 0" "\<forall>fr\<in>set frs. frame_ok mem fr"
  shows "\<exists>s'. complete_all (complete_buffer header_len mem) (concat frs) (s, n) = Inr (s', n + length (concat frs)) \<and>
     rx_remaining s' = 0 \<and> vs_pkts (rx_stats s') = vs_pkts (rx_stats s) \<and>
     rx_received s' = rx_received s @ map (frame_packet header_len) frs"
  using assms
proof (induction frs arbitrary: s n)
  case (Cons fr frs)
  then obtain s1 where s1: "complete_all (complete_buffer header_len mem) fr (s, n) = Inr (s1, n + length fr)"
     "rx_remaining s1 = 0" "vs_pkts (rx_stats s1) = vs_pkts (rx_stats s)"
     "rx_received s1 = rx_received s @ [frame_packet header_len fr]"
    using complete_frame [of s mem fr header_len n] by auto
  then show ?case
    using Cons.IH [OF s1(2), of "n + length fr"] Cons.prems(2) by (auto simp: complete_all_append add.assoc)
qed simp

subsection \<open>Every descriptor has one place\<close>

text \<open>C2. Whatever the host and the driver have done, the descriptors of a queue are the free list and the
  chains in flight, each descriptor once: the chains are available and not yet taken, held by the host, or
  used and not yet completed. The free list is linked from its head to its last, a chain in flight
  describes the buffers that are kept under its first descriptor, and the semaphore counts the free
  descriptors, less those whose packet is not yet complete.\<close>

theorem descriptors_accounted:
  assumes tx: "tx_reach hw header_len phys (2 ^ k) e h r ho" and rx: "rx_reach header_len malloc (2 ^ j) e' r2 s ho2"
    and "k \<le> 15" "j \<le> 15" "0 < header_len"
  shows "(\<exists>free ch. ring_ok (packet_buffers phys) r free ch (in_flight r ho) \<and> vr_available r = length free) \<and>
    (\<exists>free ch. ring_ok single_buffer r2 free ch (in_flight r2 ho2) \<and> vr_available r2 + rx_owed s = length free)"
  using tx_reach_ok [OF tx] rx_reach_ok [OF rx] assms(3-5) by (auto simp: sys_ok_def)

theorem descriptors_accounted_witness:
  "\<exists>free ch. ring_ok single_buffer (vring_new 4 True) free ch (in_flight (vring_new 4 True :: buffer vring) host_new) \<and>
     vr_available (vring_new 4 True :: buffer vring) = length free"
  using descriptors_accounted [of hw_features_init 12 "\<lambda>_ _. 0" 2 True sample_heap "vring_new 4 True" host_new
      "\<lambda>_. 0" 2 True "vring_new 4 True" rxq_new host_new]
    tx_reach.start [of hw_features_init 12 "\<lambda>_ _. 0" 4 True sample_heap] rx_reach.start [of 12 "\<lambda>_. 0" 4 True]
  by (simp add: rx_owed_def rxq_new_def)

subsection \<open>Sending\<close>

definition host_view :: "'c vring \<Rightarrow> host \<Rightarrow> buffer list list" where
  "host_view r ho = map (read_chain (vr_size r) (vr_descs r)) (avail_ids r (ho_seen ho))"

lemma host_view_chains:
  assumes "sys_ok bo owed r ho"
  shows "host_view r ho = map (\<lambda>c. bo (the c)) (chains_at r (avail_ids r (ho_seen ho)))"
proof -
  have "read_chain (vr_size r) (vr_descs r) g = bo (the (vr_buffer_chains r ! g))" if "g \<in> set (avail_ids r (ho_seen ho))" for g
    using in_flight_read [OF assms, of g] that by (auto simp: in_flight_def)
  then show ?thesis by (simp add: host_view_def chains_at_def)
qed

text \<open>C3. Packets that are sent never end the program, whatever the host has done. The queue loses packets at its
  front, as long as there are descriptors for them; what the host will read behind what it had not read yet
  is the virtio header and the bytes of each of them, in the fragments of a packet of its own.\<close>

theorem packets_reach_host:
  assumes "tx_reach hw header_len phys (2 ^ k) e h r ho" "k \<le> 15" "0 < header_len" "\<forall>p\<in>set pb. sendable h p"
  shows "\<exists>h' r' taken qs rest st'. txq_post hw header_len phys h st r pb = Inr (h', r', rest, st', length qs) \<and>
     pb = taken @ rest \<and> (rest \<noteq> [] \<longrightarrow> vr_available r' < length (p_frags (hd rest)) + 1) \<and>
     host_view r' ho = host_view r ho @ map (packet_buffers phys) qs \<and>
     list_all2 (\<lambda>p q. packet_wf h' q \<and>
       packet_bytes h' q = take header_len (net_hdr_store (tx_header hw p)) @ packet_bytes h p) taken qs"
proof -
  have ok: "sys_ok (packet_buffers phys) 0 r ho" using tx_reach_ok [OF assms(1-3)] by simp
  obtain h' r' taken qs rest where post: "txq_post hw header_len phys h st r pb = Inr (h', r', rest,
       update_frags_stats (word_of_nat (sum_list (map (\<lambda>p. length (p_frags p)) taken)))
         (word_of_nat (sum_list (map p_len taken))) st, length qs)"
     "pb = taken @ rest" "list_all2 (with_header hw header_len h h') taken qs"
     "sys_ok (packet_buffers phys) 0 r' ho"
     "chains_at r' (avail_ids r' (ho_seen ho)) = chains_at r (avail_ids r (ho_seen ho)) @ map Some qs"
     "rest \<noteq> [] \<longrightarrow> vr_available r' < length (p_frags (hd rest)) + 1"
    using txq_post_ok [OF ok assms(4,3), of hw st] by blast
  have "host_view r' ho = host_view r ho @ map (packet_buffers phys) qs"
    using host_view_chains [OF ok] host_view_chains [OF post(4)] post(5) by simp
  moreover have "list_all2 (\<lambda>p q. packet_wf h' q \<and>
       packet_bytes h' q = take header_len (net_hdr_store (tx_header hw p)) @ packet_bytes h p) taken qs"
    using post(3) by (rule list_all2_mono) (simp add: with_header_def)
  ultimately show ?thesis using post(1,2,6) by blast
qed

theorem packets_reach_host_witness:
  "\<exists>h' r' taken qs rest st'. txq_post hw_features_init 12 (\<lambda>_ _. 0) sample_heap (rx_stats rxq_new) (vring_new 4 True)
       [sample_packet [7, 8]] = Inr (h', r', rest, st', length qs) \<and> [sample_packet [7, 8]] = taken @ rest \<and>
     list_all2 (\<lambda>p q. packet_bytes h' q = [0, 0, 0, 0, 0, 0, 0, 0, 0, 0, 0, 0, 7, 8]) taken qs"
proof -
  have send: "\<forall>p\<in>set [sample_packet [7, 8]]. sendable sample_heap p"
    using sample_packet_wf(1) [of "[7, 8]"] by (simp add: sendable_def)
  have pre: "tx_reach hw_features_init 12 (\<lambda>_ _. 0) (2 ^ 2) True sample_heap (vring_new 4 True) host_new"
    using tx_reach.start [of hw_features_init 12 "\<lambda>_ _. 0" 4 True sample_heap] by simp
  have le: "(2 :: nat) \<le> 15" "(0 :: nat) < 12" by simp_all
  obtain h' r' taken qs rest st' where ex:
    "txq_post hw_features_init 12 (\<lambda>_ _. 0) sample_heap (rx_stats rxq_new) (vring_new 4 True)
       [sample_packet [7, 8]] = Inr (h', r', rest, st', length qs)" "[sample_packet [7, 8]] = taken @ rest"
     "list_all2 (\<lambda>p q. packet_wf h' q \<and>
       packet_bytes h' q = take 12 (net_hdr_store (tx_header hw_features_init p)) @ packet_bytes sample_heap p) taken qs"
    using packets_reach_host [OF pre le send, of "rx_stats rxq_new"] by blast
  have hdr: "net_hdr_store (tx_header hw_features_init p) = [0, 0, 0, 0, 0, 0, 0, 0, 0, 0, 0, 0]" for p
    by (simp add: tx_header_def hw_features_init_def net_hdr_store_def net_hdr_zero_def store16_def to_le_numeral)
  have "list_all2 (\<lambda>p q. packet_bytes h' q = [0, 0, 0, 0, 0, 0, 0, 0, 0, 0, 0, 0, 7, 8]) taken qs"
    using ex(2) sample_packet_wf(2) [of "[7, 8]"] 
    by (intro list.rel_mono_strong [OF ex(3)]) (auto simp: hdr Cons_eq_append_conv)
  then show ?thesis using ex(1,2) by blast
qed

text \<open>C39. Polling the send queue returns without a failure and gives the descriptors of all packets the host is
  done with back. When the host is done with everything, all descriptors are free again.\<close>

theorem sent_packets_come_back:
  assumes "tx_reach hw header_len phys (2 ^ k) e h r ho" "k \<le> 15" "0 < header_len"
  shows "\<exists>r'. txq_poll r = Some (Inr (used_chains r \<noteq> [], r', ())) \<and> used_chains r' = [] \<and>
     vr_available r' = vr_available r + sum_list (map (\<lambda>c. length (p_frags (fst c))) (used_chains r)) \<and>
     (ho_seen ho = vr_avail_idx r \<and> ho_held ho = [] \<longrightarrow> vr_available r' = 2 ^ k)"
proof -
  have ok: "sys_ok (packet_buffers phys) 0 r ho" "vr_size r = 2 ^ k" using tx_reach_ok [OF assms] by simp_all
  obtain r' where r': "txq_poll r = Some (Inr (used_chains r \<noteq> [], r', ()))" "sys_ok (packet_buffers phys) 0 r' ho"
     "used_chains r' = []" "vr_available r' = vr_available r + sum_list (map (\<lambda>c. length (p_frags (fst c))) (used_chains r))"
     "rings_kept r r'"
    using txq_poll_ok [OF ok(1)] by blast
  have "vr_available r' = 2 ^ k" if "ho_seen ho = vr_avail_idx r" "ho_held ho = []"
  proof -
    obtain free ch where fr: "ring_ok (packet_buffers phys) r' free ch (in_flight r' ho)" "vr_available r' = length free"
       "vr_avail_idx r' = vr_avail_head r'" using r'(2) by (auto simp: sys_ok_def)
    have "in_flight r' ho = {#}"
      using that r'(3,5) fr(3) by (simp add: in_flight_def avail_ids_def rings_kept_def used_chains_def used_ids_def)
    then have "size (mset free) = size (mset [0..<vr_size r'])" using fr(1) by (simp add: ring_ok_def)
    then show ?thesis using fr(2) r'(5) ok(2) by (simp add: rings_kept_def)
  qed
  then show ?thesis using r' by blast
qed

theorem sent_packets_come_back_witness:
  "\<exists>r'. txq_poll (vring_new 4 True) = Some (Inr (False, r', ())) \<and> vr_available r' = 4"
proof -
  have "tx_reach hw_features_init 12 (\<lambda>_ _. 0) (2 ^ 2) True sample_heap (vring_new 4 True) host_new"
    using tx_reach.start [of hw_features_init 12 "\<lambda>_ _. 0" 4 True sample_heap] by simp
  from sent_packets_come_back [OF this] show ?thesis
    by (auto simp: used_chains_def vring_new_def vring_setup_def)
qed

subsection \<open>Receiving\<close>

text \<open>A ring of one descriptor whose buffer the host has used for a frame of sixty bytes.\<close>

definition sample_rx_ring :: "buffer vring" where
  "sample_rx_ring = \<lparr>vr_size = 1, vr_event_index = False,
     vr_descs = [\<lparr>d_paddr = 4096, d_len = 4096, d_has_next = False, d_writeable = True, d_indirect = False, d_next = 1\<rparr>],
     vr_buffer_chains = [Some \<lparr>b_addr = 4096, b_len = 4096, b_writeable = True\<rparr>], vr_avail_ring = [0],
     vr_avail_idx = 1, vr_avail_head = 1, vr_avail_added = 0, vr_used_flags = 0, vr_used_idx = 0,
     vr_used_elements = [\<lparr>ue_id = 0, ue_len = 0\<rparr>], vr_used_tail = 0, vr_avail_event = 0, vr_available = 0,
     vr_free_head = - 1, vr_free_last = - 1, vr_kicks = 1\<rparr>"

definition sample_rx_used :: "buffer vring" where
  "sample_rx_used = sample_rx_ring\<lparr>vr_used_elements := [\<lparr>ue_id = 0, ue_len = 72\<rparr>], vr_used_idx := 1\<rparr>"

definition sample_rxq :: rxq where "sample_rxq = rxq_new\<lparr>rx_mallocs := 1\<rparr>"

definition sample_mem :: "u64 \<Rightarrow> bytes" where
  "sample_mem a = [0, 0, 0, 0, 0, 0, 0, 0, 0, 0, 1, 0]"

lemma sample_rx_reach: "rx_reach 12 (\<lambda>_. 4096) (2 ^ 0) False sample_rx_used sample_rxq \<lparr>ho_seen = 1, ho_held = []\<rparr>"
proof -
  have "prepare_buffers (\<lambda>_. 4096) (vring_new (2 ^ 0) False) rxq_new = Some (Inr (sample_rx_ring, sample_rxq))"
    by code_simp
  then have "rx_reach 12 (\<lambda>_. 4096) (2 ^ 0) False sample_rx_ring sample_rxq host_new"
    by (rule rx_reach.prepare [OF rx_reach.start])
  moreover have "host_step (sample_rx_ring, host_new) (sample_rx_ring, \<lparr>ho_seen = 1, ho_held = [0]\<rparr>)"
    using host_step.take [of host_new sample_rx_ring] by (simp add: sample_rx_ring_def masked_def)
  moreover have "host_step (sample_rx_ring, \<lparr>ho_seen = 1, ho_held = [0]\<rparr>) (sample_rx_used, \<lparr>ho_seen = 1, ho_held = []\<rparr>)"
    using host_step.give [of "\<lparr>ho_seen = 1, ho_held = [0]\<rparr>" "[]" 0 "[]" sample_rx_ring 72]
    by (simp add: sample_rx_used_def sample_rx_ring_def masked_def)
  ultimately show ?thesis by (metis rx_reach.host)
qed

lemma sample_rx_frames:
  "used_chains sample_rx_used = concat [[(\<lparr>b_addr = 4096, b_len = 4096, b_writeable = True\<rparr>, 72)]]"
  "\<forall>fr\<in>set [[(\<lparr>b_addr = 4096, b_len = 4096, b_writeable = True\<rparr>, 72)]]. frame_ok sample_mem fr"
  "rx_remaining sample_rxq = 0"
  by (simp_all add: used_chains_def stretch_def sample_rx_used_def sample_rx_ring_def frame_ok_def sample_mem_def
      load16_def sample_rxq_def rxq_new_def)

text \<open>C4. Polling the receive queue when the host has written whole frames does not fail. The interface gets one
  packet for each frame, in their order: the first buffer behind the virtio header, and the buffers that
  belong to it. All their descriptors are free again.\<close>

theorem frames_received:
  assumes "rx_reach header_len malloc (2 ^ k) e r s ho" "k \<le> 15"
    and "used_chains r = concat frames" "\<forall>fr\<in>set frames. frame_ok mem fr" "rx_remaining s = 0"
  shows "\<exists>r' s'. rxq_poll header_len mem r s = Some (Inr (frames \<noteq> [], r', s')) \<and> used_chains r' = [] \<and>
     rx_received s' = rx_received s @ map (frame_packet header_len) frames \<and> rx_remaining s' = 0 \<and>
     vr_available r' = vr_available r + length (concat frames)"
proof -
  define s0 where "s0 = update_rx_count (word_of_int (uint (vr_used_tail r) - uint (vr_used_idx r))) s"
  have s0: "rx_remaining s0 = 0" "rx_received s0 = rx_received s"
    using assms(5) by (simp_all add: s0_def update_rx_count_def)
  obtain s' where s': "complete_all (complete_buffer header_len mem) (used_chains r) (s0, vr_available r) =
       Inr (s', vr_available r + length (concat frames))" "rx_remaining s' = 0"
     "rx_received s' = rx_received s @ map (frame_packet header_len) frames"
    using complete_frames [OF s0(1) assms(4), of header_len "vr_available r"] assms(3) s0(2) by auto
  have "used_chains r \<noteq> [] \<longleftrightarrow> frames \<noteq> []" using assms(3,4) by (cases frames) (auto simp: frame_ok_def)
  moreover note rx.completing_returns [OF rx_reach_ok [OF assms(1,2)], of header_len mem, folded s0_def, unfolded s'(1)]
  ultimately show ?thesis using s'(2,3) by (auto simp: rxq_poll_def)
qed

theorem frames_received_witness:
  "\<exists>r' s'. rxq_poll 12 sample_mem sample_rx_used sample_rxq = Some (Inr (True, r', s')) \<and>
     rx_received s' = [([\<lparr>rf_addr = 4108, rf_len = 60\<rparr>], [4096])] \<and> vr_available r' = 1"
  using frames_received [OF sample_rx_reach _ sample_rx_frames]
  by (auto simp: frame_packet_def sample_rx_used_def sample_rx_ring_def sample_rxq_def rxq_new_def)

text \<open>The count of received packets goes down: the bunch is the difference of the indices with the wrong
  sign, or the size of the index space less the bunch when the index has wrapped around.\<close>

theorem received_count_goes_down:
  assumes "rx_reach header_len malloc (2 ^ k) e r s ho" "k \<le> 15"
    and "used_chains r = concat frames" "\<forall>fr\<in>set frames. frame_ok mem fr" "rx_remaining s = 0"
  shows "\<exists>b r' s'. rxq_poll header_len mem r s = Some (Inr (b, r', s')) \<and>
     st_packets (vs_pkts (rx_stats s')) =
       st_packets (vs_pkts (rx_stats s)) - word_of_nat (length (used_chains r)) +
       (if vr_used_idx r < vr_used_tail r then 65536 else 0)"
proof -
  define c :: u64 where "c = word_of_int (uint (vr_used_tail r) - uint (vr_used_idx r))"
  define s0 where "s0 = update_rx_count c s"
  have s0: "rx_remaining s0 = 0" "st_packets (vs_pkts (rx_stats s0)) = st_packets (vs_pkts (rx_stats s)) + c"
    using assms(5) by (simp_all add: s0_def update_rx_count_def update_pkts_bunch_def)
  obtain s' n where s': "complete_all (complete_buffer header_len mem) (used_chains r) (s0, vr_available r) = Inr (s', n)"
     "vs_pkts (rx_stats s') = vs_pkts (rx_stats s0)"
    using complete_frames [OF s0(1) assms(4), of header_len "vr_available r"] assms(3) by auto
  have len: "length (used_chains r) = unat (vr_used_idx r - vr_used_tail r)" by (simp add: used_chains_def)
  have c: "c = word_of_nat (unat (vr_used_tail r)) - word_of_nat (unat (vr_used_idx r))" by (simp add: c_def)
  have "c = - word_of_nat (length (used_chains r)) + (if vr_used_idx r < vr_used_tail r then 65536 else 0)"
  proof (cases "vr_used_idx r < vr_used_tail r")
    case True
    then have "length (used_chains r) = unat (vr_used_idx r) + 65536 - unat (vr_used_tail r)"
      unfolding len unat_sub_if' by (simp add: word_less_nat_alt)
    moreover have "unat (vr_used_tail r) \<le> 65536"
      by (rule less_imp_le) (rule order_less_le_trans [OF unsigned_less], simp)
    ultimately have "length (used_chains r) + unat (vr_used_tail r) = 65536 + unat (vr_used_idx r)" by linarith
    then have "(word_of_nat (length (used_chains r)) :: u64) + word_of_nat (unat (vr_used_tail r)) = 65536 + word_of_nat (unat (vr_used_idx r))"
      by (metis of_nat_add of_nat_numeral)
    then show ?thesis using True unfolding c by (simp add: algebra_simps)
  next
    case False
    then have "length (used_chains r) + unat (vr_used_tail r) = unat (vr_used_idx r)"
      unfolding len unat_sub_if' by (simp add: word_less_nat_alt)
    then have "(word_of_nat (length (used_chains r)) :: u64) + word_of_nat (unat (vr_used_tail r)) = word_of_nat (unat (vr_used_idx r))"
      by (metis of_nat_add)
    then show ?thesis using False unfolding c by (simp add: algebra_simps)
  qed
  moreover note rx.completing_returns [OF rx_reach_ok [OF assms(1,2)], of header_len mem, folded c_def, folded s0_def, unfolded s'(1)]
  ultimately show ?thesis using s'(2) s0(2) by (auto simp: rxq_poll_def)
qed

theorem received_count_goes_down_witness:
  "\<exists>b r' s'. rxq_poll 12 sample_mem sample_rx_used sample_rxq = Some (Inr (b, r', s')) \<and>
     st_packets (vs_pkts (rx_stats s')) = 0xFFFFFFFFFFFFFFFF"
  using received_count_goes_down [OF sample_rx_reach _ sample_rx_frames]
  by (auto simp: sample_rx_used_def sample_rx_ring_def sample_rxq_def rxq_new_def used_chains_def)

subsection \<open>Kicking the host\<close>

lemma word_mirror: "d < n \<Longrightarrow> n - 1 - d < n" for d n :: u16
  unfolding word_less_nat_alt unat_sub_if' by (auto split: if_splits)

text \<open>C38. A host with an event index is kicked when the entry it waits for is among those that were made available
  since the last kick, or when they are very many; another one unless it has set the flag.\<close>

theorem kicked_when_asked:
  assumes "vr_avail_idx r = old + vr_avail_added r"
  shows "kick r = (if (if vr_event_index r
       then (\<exists>i < unat (vr_avail_added r). vr_avail_event r = old + word_of_nat i) \<or> 32767 \<le> unat (vr_avail_added r)
       else vr_used_flags r AND 1 = 0)
     then r\<lparr>vr_kicks := vr_kicks r + 1, vr_avail_added := 0\<rparr> else r)"
proof -
  define n where "n = vr_avail_added r"
  define d where "d = vr_avail_idx r - vr_avail_event r - 1"
  have idx: "vr_avail_event r = old + (n - 1 - d)" using assms by (simp add: d_def n_def)
  have "d < n \<longleftrightarrow> (\<exists>i < unat n. vr_avail_event r = old + word_of_nat i)"
  proof
    assume "d < n"
    then have "n - 1 - d < n" by (rule word_mirror)
    then show "\<exists>i < unat n. vr_avail_event r = old + word_of_nat i"
      unfolding idx by (intro exI [of _ "unat (n - 1 - d)"]) (simp add: word_less_nat_alt)
  next
    assume "\<exists>i < unat n. vr_avail_event r = old + word_of_nat i"
    then obtain i where i: "i < unat n" "n - 1 - d = word_of_nat i" unfolding idx by auto
    have "unat (word_of_nat i :: u16) < unat n"
      unfolding unsigned_of_nat of_nat_id by (rule le_less_trans [OF take_bit_nat_less_eq_self i(1)])
    then have "n - 1 - d < n" by (simp only: i(2) word_less_nat_alt)
    from word_mirror [OF this] show "d < n" by simp
  qed
  moreover have "32767 \<le> n \<longleftrightarrow> 32767 \<le> unat n" by (simp add: word_le_nat_alt)
  ultimately show ?thesis
    by (cases "vr_event_index r") (auto simp: kick_def Let_def notifications_disabled_def n_def d_def)
qed

theorem kicked_when_asked_witness:
  "vr_kicks (kick ((vring_new 1 True)\<lparr>vr_avail_idx := 1, vr_avail_added := 1\<rparr> :: buffer vring)) = 1"
  using kicked_when_asked [of "(vring_new 1 True)\<lparr>vr_avail_idx := 1, vr_avail_added := 1\<rparr> :: buffer vring" 0]
  by (simp add: vring_new_def vring_setup_def)

subsection \<open>The memory of a ring\<close>

text \<open>\<open>align_up\<close> belongs to the core library; what is used of it is in the hypothesis.\<close>

lemma ring_fits_storage:
  fixes features :: u64 and storage n :: nat and mergable :: bool
  assumes "\<And>x. x \<le> align_up x 4096 \<and> align_up x 4096 < x + 4096"
  defines "rc \<equiv> queue_config align_up features storage n mergable"
  shows "rc_descs rc = storage" "rc_descs rc + 16 * n \<le> rc_avail rc" "rc_avail rc + (6 + 2 * n) \<le> rc_used rc"
    "rc_used rc + (6 + 8 * n) \<le> storage + vring_storage_size n"
  using assms(1) [of "storage + 16 * n + 2 * n + 6"]
  by (simp_all add: rc_def queue_config_def common_config_def Let_def vring_storage_size_def)

end
