(* ===== verification/RpcWire.thy ===== *)
theory RpcWire
  imports Byteorder
begin

text \<open>
  The wire format of remote procedure calls, \<open>rpc/rpc_types.hh\<close>, \<open>rpc/rpc_impl.hh\<close> and \<open>rpc/rpc.cc\<close>: send
  buffers, the headers of requests, responses and stream fragments, what the send loop does to a
  queued message, and how frames are read.

  The little endian accessors and the streams belong to the core library. The accessors are the
  parameter \<open>le_ops\<close>. An input stream is the bytes it will give; \<open>read_exactly\<close> takes as many as asked
  for, or all that are left; how many \<open>read_up_to\<close> takes of them is the parameter \<open>avail\<close>. A compressor
  is a parameter, too.
\<close>

subsection \<open>The core library's little endian accessors\<close>

record le_ops =
  read_le32 :: "bytes \<Rightarrow> u32"
  read_le64 :: "bytes \<Rightarrow> u64"
  write_le32 :: "u32 \<Rightarrow> bytes"
  write_le64 :: "u64 \<Rightarrow> bytes"

definition le_ok :: "le_ops \<Rightarrow> bool" where
  "le_ok le \<longleftrightarrow>
     (\<forall>bs. length bs \<ge> 4 \<longrightarrow> read_le32 le bs = word_of_nat (le_nat (take 4 bs))) \<and>
     (\<forall>bs. length bs \<ge> 8 \<longrightarrow> read_le64 le bs = word_of_nat (le_nat (take 8 bs))) \<and>
     (\<forall>x. write_le32 le x = to_le 4 (unat x)) \<and>
     (\<forall>x. write_le64 le x = to_le 8 (unat x))"

definition le_ref :: le_ops where
  "le_ref = \<lparr>read_le32 = (\<lambda>bs. word_of_nat (le_nat (take 4 bs))), read_le64 = (\<lambda>bs. word_of_nat (le_nat (take 8 bs))),
             write_le32 = (\<lambda>x. to_le 4 (unat x)), write_le64 = (\<lambda>x. to_le 8 (unat x))\<rparr>"

lemma le_ok_ref: "le_ok le_ref"
  by (simp add: le_ok_def le_ref_def)

lemma le_ok_length [simp]:
  "le_ok le \<Longrightarrow> length (write_le32 le x) = 4"
  "le_ok le \<Longrightarrow> length (write_le64 le y) = 8"
  by (simp_all add: le_ok_def)

lemma le_ok_read_write [simp]:
  "le_ok le \<Longrightarrow> read_le32 le (write_le32 le x @ bs) = x"
  "le_ok le \<Longrightarrow> read_le64 le (write_le64 le y @ bs) = y"
  "le_ok le \<Longrightarrow> read_le32 le (write_le32 le x) = x"
  "le_ok le \<Longrightarrow> read_le64 le (write_le64 le y) = y"
  by (simp_all add: le_ok_def le_nat_to_le)

subsection \<open>Errors\<close>

text \<open>An exception, or what leaves the language.\<close>

datatype rpc_error = ClosedError | RuntimeError | LogicError | Fault error

fun faulty :: "'a result \<Rightarrow> rpc_error + 'a" where
  "faulty (Inl e) = Inl (Fault e)"
| "faulty (Inr a) = Inr a"

fun rpc_then :: "rpc_error + 'a \<Rightarrow> ('a \<Rightarrow> rpc_error + 'b) \<Rightarrow> rpc_error + 'b" where
  "rpc_then (Inl e) f = Inl e"
| "rpc_then (Inr a) f = f a"

subsection \<open>Buffers\<close>

record snd_buf =
  sb_size :: u32
  sb_bufs :: "bytes list"

record rcv_buf =
  rb_size :: u32
  rb_bufs :: "bytes list"

abbreviation (input) snd_chunk_size :: nat where "snd_chunk_size \<equiv> 131072"

text \<open>The constructor: one buffer, or buffers of the chunk size and the rest. Which of them is decided on the
  size in 32 bits, so the one buffer is made with that size, and holds no more of the contents.\<close>

function pieces :: "nat \<Rightarrow> bytes \<Rightarrow> bytes list" where
  "pieces n bs = (if bs = [] \<or> n = 0 then [] else take n bs # pieces n (drop n bs))"
  by pat_completeness auto
termination by (relation "measure (\<lambda>(n, bs). length bs)") auto

declare pieces.simps [simp del]

definition snd_buf_of :: "bytes \<Rightarrow> snd_buf" where
  "snd_buf_of bs =
     (let size = word_of_nat (length bs)
      in \<lparr>sb_size = size,
          sb_bufs = (if unat size \<le> snd_chunk_size then [take (unat size) bs] else pieces snd_chunk_size bs)\<rparr>)"

definition rcv_buf_empty :: rcv_buf where
  "rcv_buf_empty = \<lparr>rb_size = 0, rb_bufs = []\<rparr>"

text \<open>Writing into the front buffer, and trimming it.\<close>

definition write_front :: "nat \<Rightarrow> bytes \<Rightarrow> snd_buf \<Rightarrow> snd_buf result" where
  "write_front off bs sb =
     (case sb_bufs sb of
        [] \<Rightarrow> Inl NullDeref
      | b # rest \<Rightarrow> if off + length bs \<le> length b
          then Inr (sb\<lparr>sb_bufs := (take off b @ bs @ drop (off + length bs) b) # rest\<rparr>) else Inl OutOfRange)"

definition trim_snd_front :: "nat \<Rightarrow> snd_buf \<Rightarrow> snd_buf result" where
  "trim_snd_front n sb =
     (case sb_bufs sb of
        [] \<Rightarrow> Inl NullDeref
      | b # rest \<Rightarrow> if n \<le> length b then Inr \<lparr>sb_size = sb_size sb - word_of_nat n, sb_bufs = drop n b # rest\<rparr> else Inl OutOfRange)"

text \<open>\<open>marshall\<close>: what the serializer writes, behind room for a header.\<close>

definition marshall :: "nat \<Rightarrow> bytes \<Rightarrow> snd_buf" where
  "marshall head_space payload = snd_buf_of (replicate head_space 0 @ payload)"

subsection \<open>Headers\<close>

definition request_message :: "le_ops \<Rightarrow> u64 \<Rightarrow> u64 \<Rightarrow> bytes \<Rightarrow> snd_buf result" where
  "request_message le t msg_id payload =
     (let sb = marshall 28 payload
      in andThen (write_front 8 (write_le64 le t) sb) (\<lambda>s1. andThen (write_front 16 (write_le64 le msg_id) s1)
           (\<lambda>s2. write_front 24 (write_le32 le (sb_size sb - 28)) s2)))"

text \<open>\<open>respond\<close>: the data already has room for the header.\<close>

definition respond_message :: "le_ops \<Rightarrow> u64 \<Rightarrow> snd_buf \<Rightarrow> snd_buf result" where
  "respond_message le msg_id sb =
     andThen (write_front 0 (write_le64 le msg_id) sb) (\<lambda>s1. write_front 8 (write_le32 le (sb_size sb - 12)) s1)"

definition stream_message :: "le_ops \<Rightarrow> bytes \<Rightarrow> snd_buf result" where
  "stream_message le payload = (let sb = marshall 4 payload in write_front 0 (write_le32 le (sb_size sb - 4)) sb)"

definition stream_end_message :: "le_ops \<Rightarrow> snd_buf result" where
  "stream_end_message le = write_front 0 (write_le32 le (- 1)) (marshall 4 [])"

text \<open>The body of a reply that carries an exception.\<close>

abbreviation (input) exn_user :: u32 where "exn_user \<equiv> 0"
abbreviation (input) exn_unknown_verb :: u32 where "exn_unknown_verb \<equiv> 1"

definition user_exception_message :: "le_ops \<Rightarrow> bytes \<Rightarrow> snd_buf" where
  "user_exception_message le what =
     snd_buf_of (replicate 12 0 @ write_le32 le exn_user @ write_le32 le (word_of_nat (length what)) @ what)"

definition unknown_verb_message :: "le_ops \<Rightarrow> u64 \<Rightarrow> snd_buf" where
  "unknown_verb_message le t = snd_buf_of (replicate 12 0 @ write_le32 le exn_unknown_verb @ write_le32 le 8 @ write_le64 le t)"

subsection \<open>The send loop\<close>

record compressor =
  cp_name :: bytes
  cp_compress :: "nat \<Rightarrow> snd_buf \<Rightarrow> rpc_error + snd_buf"
  cp_decompress :: "rcv_buf \<Rightarrow> rpc_error + rcv_buf"

definition connection_compress :: "le_ops \<Rightarrow> compressor option \<Rightarrow> snd_buf \<Rightarrow> rpc_error + snd_buf" where
  "connection_compress le cp sb =
     (case cp of
        None \<Rightarrow> Inr sb
      | Some c \<Rightarrow> rpc_then (cp_compress c 4 sb) (\<lambda>b. faulty (write_front 0 (write_le32 le (sb_size b - 4)) b)))"

datatype queue_type = Q_request | Q_response

text \<open>The time a request has left, in milliseconds.\<close>

definition time_left :: "int option \<Rightarrow> int \<Rightarrow> u64" where
  "time_left expire now = (case expire of None \<Rightarrow> 0 | Some t \<Rightarrow> word_of_int (t - now))"

text \<open>What is written to the connection for one entry of the queue.\<close>

definition send_entry :: "le_ops \<Rightarrow> queue_type \<Rightarrow> bool \<Rightarrow> u64 \<Rightarrow> compressor option \<Rightarrow> snd_buf \<Rightarrow> rpc_error + bytes" where
  "send_entry le qt timeout_negotiated left cp sb =
     rpc_then (faulty (if qt = Q_request then if timeout_negotiated then write_front 0 (write_le64 le left) sb else trim_snd_front 8 sb
              else Inr sb))
       (\<lambda>s1. rpc_then (connection_compress le cp s1) (\<lambda>s2. Inr (concat (sb_bufs s2))))"

subsection \<open>Reading frames\<close>

type_synonym avail = "nat \<Rightarrow> bytes \<Rightarrow> nat"

definition avail_ok :: "avail \<Rightarrow> bool" where
  "avail_ok avail \<longleftrightarrow> (\<forall>n s. avail n s \<le> n \<and> avail n s \<le> length s \<and> (0 < n \<and> s \<noteq> [] \<longrightarrow> 0 < avail n s))"

function read_more :: "avail \<Rightarrow> nat \<Rightarrow> bytes \<Rightarrow> bytes list \<Rightarrow> nat \<times> bytes list \<times> bytes" where
  "read_more avail left s bufs =
     (let data = take (avail left s) s; s1 = drop (avail left s) s
      in if data = [] then (left, bufs, s1)
         else if left - length data = 0 then (0, bufs @ [data], s1)
         else read_more avail (left - length data) s1 (bufs @ [data]))"
  by pat_completeness auto
termination by (relation "measure (\<lambda>(avail, left, s, bufs). left)") auto

declare read_more.simps [simp del]

definition read_rcv_buf :: "avail \<Rightarrow> u32 \<Rightarrow> bytes \<Rightarrow> rcv_buf \<times> bytes" where
  "read_rcv_buf avail n s =
     (let data = take (avail (unat n) s) s; s1 = drop (avail (unat n) s) s
      in if data = [] then (rcv_buf_empty, s1)
         else if length data = unat n then (\<lparr>rb_size = n, rb_bufs = [data]\<rparr>, s1)
         else (let (left, bufs, s2) = read_more avail (unat n - length data) s1 [data]
               in (\<lparr>rb_size = n - word_of_nat left, rb_bufs = bufs\<rparr>, s2)))"

text \<open>A frame type: the size of its header, and how it is decoded into what it says and the size of the data.\<close>

record 'h frame_type =
  ft_header_size :: nat
  ft_decode :: "bytes \<Rightarrow> 'h \<times> u32"

definition read_frame :: "avail \<Rightarrow> 'h frame_type \<Rightarrow> bytes \<Rightarrow> ('h \<times> rcv_buf) option \<times> bytes" where
  "read_frame avail ft s =
     (let header = take (ft_header_size ft) s; s1 = drop (ft_header_size ft) s
      in if length header \<noteq> ft_header_size ft then (None, s1)
         else (let (h, len) = ft_decode ft header
               in if len = 0 then (Some (h, rcv_buf_empty), s1)
                  else (let (rb, s2) = read_rcv_buf avail len s1
                        in if rb_size rb \<noteq> len then (None, s2) else (Some (h, rb), s2))))"

text \<open>A frame inside a compressed message.\<close>

definition read_frame_compressed :: "le_ops \<Rightarrow> avail \<Rightarrow> 'h frame_type \<Rightarrow> compressor option \<Rightarrow> bytes \<Rightarrow> rpc_error + (('h \<times> rcv_buf) option \<times> bytes)" where
  "read_frame_compressed le avail ft cp s =
     (case cp of
        None \<Rightarrow> Inr (read_frame avail ft s)
      | Some c \<Rightarrow>
          (let header = take 4 s; s1 = drop 4 s
           in if length header \<noteq> 4 then Inr (None, s1)
              else (let len = read_le32 le header; (rb, s2) = read_rcv_buf avail len s1
                    in if rb_size rb \<noteq> len then Inr (None, s2)
                       else (case cp_decompress c rb of
                               Inl x \<Rightarrow> Inl x
                             | Inr eb \<Rightarrow> Inr (fst (read_frame avail ft (concat (rb_bufs eb))), s2)))))"

definition request_frame :: "le_ops \<Rightarrow> (u64 option \<times> u64 \<times> u64) frame_type" where
  "request_frame le = \<lparr>ft_header_size = 20,
     ft_decode = (\<lambda>p. ((None, read_le64 le p, read_le64 le (drop 8 p)), read_le32 le (drop 16 p)))\<rparr>"

definition request_frame_with_timeout :: "le_ops \<Rightarrow> (u64 option \<times> u64 \<times> u64) frame_type" where
  "request_frame_with_timeout le = \<lparr>ft_header_size = 28,
     ft_decode = (\<lambda>p. (let ((_, t, msg_id), len) = ft_decode (request_frame le) (drop 8 p) in ((Some (read_le64 le p), t, msg_id), len)))\<rparr>"

definition response_frame :: "le_ops \<Rightarrow> u64 frame_type" where
  "response_frame le = \<lparr>ft_header_size = 12, ft_decode = (\<lambda>p. (read_le64 le p, read_le32 le (drop 8 p)))\<rparr>"

text \<open>A stream fragment says whether it is the end.\<close>

definition stream_frame :: "le_ops \<Rightarrow> bool frame_type" where
  "stream_frame le = \<lparr>ft_header_size = 4,
     ft_decode = (\<lambda>p. if read_le32 le p = - 1 then (True, 0) else (False, read_le32 le p))\<rparr>"

definition stream_value :: "bool \<times> rcv_buf \<Rightarrow> rcv_buf" where
  "stream_value v = (case v of (eos, data) \<Rightarrow> if eos then data\<lparr>rb_size := - 1\<rparr> else data)"

definition read_request_frame_compressed :: "le_ops \<Rightarrow> avail \<Rightarrow> bool \<Rightarrow> compressor option \<Rightarrow> bytes \<Rightarrow> rpc_error + (((u64 option \<times> u64 \<times> u64) \<times> rcv_buf) option \<times> bytes)" where
  "read_request_frame_compressed le avail timeout_negotiated cp s =
     (if timeout_negotiated then read_frame_compressed le avail (request_frame_with_timeout le) cp s
      else read_frame_compressed le avail (request_frame le) cp s)"

definition read_response_frame_compressed :: "le_ops \<Rightarrow> avail \<Rightarrow> compressor option \<Rightarrow> bytes \<Rightarrow> rpc_error + ((u64 \<times> rcv_buf) option \<times> bytes)" where
  "read_response_frame_compressed le avail cp s = read_frame_compressed le avail (response_frame le) cp s"

definition read_stream_frame_compressed :: "le_ops \<Rightarrow> avail \<Rightarrow> compressor option \<Rightarrow> bytes \<Rightarrow> rpc_error + (rcv_buf option \<times> bytes)" where
  "read_stream_frame_compressed le avail cp s =
     map_sum id (\<lambda>(f, s1). (map_option stream_value f, s1)) (read_frame_compressed le avail (stream_frame le) cp s)"

end
