(* ===== verification/RpcLz4.thy ===== *)
theory RpcLz4
  imports RpcWire "HOL-Library.Sublist"
begin

text \<open>
  The compressors of \<open>rpc/lz4_compressor.cc\<close> and \<open>rpc/lz4_fragmented_compressor.cc\<close>.

  LZ4 is a library, and a parameter (\<open>lz4_ops\<close>) with what it documents as hypotheses (\<open>lz4_ok\<close>). A block
  refers to bytes the stream has had before, no more than 64 kilobytes back, and where they are found is a matter
  of memory; this follows \<open>lz4.h\<close>. To the compressor, the data it had before must be present, unmodified and at the same
  address; a block that is elsewhere in memory depends on the stretch of memory before it only
  (``double-buffer'', ``ring-buffer''). The decompressor finds what is right before the block it writes, the prefix, and one
  stretch it has left, the external dictionary. So the functions of the parameter are given the bytes that are there to
  be found: \<open>lz_compress\<close> is given what the stream has compressed so far (its tables), the dictionary, the data
  and how much room there is; \<open>lz_decompress\<close> the bytes in reach, the block and the room. Which bytes these are depends on what the
  code of the program does with its buffers: \<open>compress_continue\<close> and \<open>decompress_continue\<close> keep account of it.
  \<open>lz_garbage\<close> is what memory holds that nobody has written.
\<close>

record lz4_ops =
  lz_compress :: "bytes list \<Rightarrow> bytes \<Rightarrow> bytes \<Rightarrow> nat \<Rightarrow> bytes option"
  lz_decompress :: "bytes \<Rightarrow> bytes \<Rightarrow> nat \<Rightarrow> bytes option"
  lz_garbage :: "nat \<Rightarrow> bytes"

definition compress_bound :: "nat \<Rightarrow> nat" where
  "compress_bound n = (if n > 0x7E000000 then 0 else n + n div 255 + 16)"

text \<open>
  What LZ4 documents: when the memory of the dictionary still holds the last bytes that were compressed,
  and there is room, a block comes out, and it gives the data back to a decompressor that
  still finds the bytes of the dictionary right before.
\<close>

definition lz4_ok :: "lz4_ops \<Rightarrow> bool" where
  "lz4_ok lz \<longleftrightarrow>
     (\<forall>prev d x cap. suffix d (concat prev) \<and> x \<noteq> [] \<and> length x \<le> 0x7E000000 \<and> compress_bound (length x) \<le> cap \<longrightarrow>
        (\<exists>z. lz_compress lz prev d x cap = Some z \<and> z \<noteq> [] \<and> length z \<le> compress_bound (length x) \<and>
          (\<forall>h n. suffix d h \<and> length x \<le> n \<longrightarrow> lz_decompress lz h z n = Some x))) \<and>
     (\<forall>h z n out. lz_decompress lz h z n = Some out \<longrightarrow> length out \<le> n) \<and>
     (\<forall>n. length (lz_garbage lz n) = n)"

subsection \<open>Buffers\<close>

text \<open>\<open>reusable_buffer\<close>: what was written to contiguous memory is handed out in buffers of the chunk size.\<close>

definition with_reserved :: "bytes \<Rightarrow> bytes list" where
  "with_reserved bs = (if length bs \<le> snd_chunk_size then [bs] else pieces snd_chunk_size bs)"

definition with_reserved_snd :: "bytes \<Rightarrow> snd_buf" where
  "with_reserved_snd bs = \<lparr>sb_size = word_of_nat (length bs), sb_bufs = with_reserved bs\<rparr>"

definition with_reserved_rcv :: "bytes \<Rightarrow> rcv_buf" where
  "with_reserved_rcv bs = \<lparr>rb_size = word_of_nat (length bs), rb_bufs = with_reserved bs\<rparr>"

text \<open>One buffer is used where it is; the fragments of a message are copied behind one another.\<close>

definition prepare :: "bytes list \<Rightarrow> u32 \<Rightarrow> bytes result" where
  "prepare bufs n =
     (let dst = (case bufs of [b] \<Rightarrow> b | _ \<Rightarrow> foldl (\<lambda>dst fragment. dst @ fragment) [] bufs)
      in if length dst < unat n then Inl OutOfRange else Inr (take (unat n) dst))"

subsection \<open>LZ4\<close>

definition lz4_compress :: "le_ops \<Rightarrow> lz4_ops \<Rightarrow> nat \<Rightarrow> snd_buf \<Rightarrow> rpc_error + snd_buf" where
  "lz4_compress le lz head_space sb =
     rpc_then (faulty (prepare (sb_bufs sb) (sb_size sb))) (\<lambda>src.
       (case lz_compress lz [] [] src (compress_bound (unat (sb_size sb))) of
          None \<Rightarrow> Inl RuntimeError
        | Some z \<Rightarrow> Inr (with_reserved_snd (lz_garbage lz head_space @ write_le32 le (sb_size sb) @ z))))"

text \<open>As many bytes as the message says are handed on, however many the library wrote.\<close>

definition lz4_decompress :: "le_ops \<Rightarrow> lz4_ops \<Rightarrow> rcv_buf \<Rightarrow> rpc_error + rcv_buf" where
  "lz4_decompress le lz rb =
     (if rb_size rb < 4 then Inr rcv_buf_empty
      else rpc_then (faulty (prepare (rb_bufs rb) (rb_size rb))) (\<lambda>src.
        (let dst_size = unat (read_le32 le src)
         in if dst_size = 0 then Inl RuntimeError
            else (case lz_decompress lz [] (drop 4 src) dst_size of
                    None \<Rightarrow> Inl RuntimeError
                  | Some out \<Rightarrow> Inr (with_reserved_rcv (out @ lz_garbage lz (dst_size - length out)))))))"

definition lz4_compressor :: "le_ops \<Rightarrow> lz4_ops \<Rightarrow> compressor" where
  "lz4_compressor le lz = \<lparr>cp_name = [0x4c, 0x5a, 0x34], cp_compress = lz4_compress le lz, cp_decompress = lz4_decompress le lz\<rparr>"

subsection \<open>LZ4 in fragments\<close>

abbreviation (input) chunk_size :: nat where "chunk_size \<equiv> 32768"
abbreviation (input) last_chunk_flag :: u32 where "last_chunk_flag \<equiv> 0x80000000"

text \<open>\<open>LZ4_DECODER_RING_BUFFER_SIZE\<close> of a chunk.\<close>

abbreviation (input) lin_buf_size :: nat where "lin_buf_size \<equiv> 65536 + 14 + chunk_size"

text \<open>A place in a message: the number of a buffer, and how far into it. What lies from there on.\<close>

type_synonym src_place = "nat \<times> nat"

definition src_rest :: "bytes list \<Rightarrow> src_place \<Rightarrow> bytes" where
  "src_rest bufs at = (if fst at < length bufs then drop (snd at) (bufs ! fst at) @ concat (drop (Suc (fst at)) bufs) else [])"

subsection \<open>The stream that compresses\<close>

text \<open>
  Data to compress lies in a buffer of the message, or in the ring \<open>temporary_chunk_data\<close>. A block that begins where
  the block before ended makes the dictionary longer, any other is the dictionary of the next one; of a dictionary, the last
  64 kilobytes count, as they are in memory when the block is compressed. No two buffers lie so that one begins
  where the other ends. A failure of the library is taken for a block of no bytes.
\<close>

datatype store = Source nat | Ring

fun store_bytes :: "bytes list \<Rightarrow> bytes \<Rightarrow> store \<Rightarrow> bytes" where
  "store_bytes bufs ring (Source i) = bufs ! i"
| "store_bytes bufs ring Ring = ring"

definition read_at :: "bytes list \<Rightarrow> bytes \<Rightarrow> store \<times> nat \<Rightarrow> nat \<Rightarrow> bytes" where
  "read_at bufs ring p n = take n (drop (snd p) (store_bytes bufs ring (fst p)))"

record lz_stream =
  ls_prev :: "bytes list"
  ls_dict :: "(store \<times> nat \<times> nat) option"

definition lz_stream_reset :: lz_stream where
  "lz_stream_reset = \<lparr>ls_prev = [], ls_dict = None\<rparr>"

definition dict_bytes :: "bytes list \<Rightarrow> bytes \<Rightarrow> lz_stream \<Rightarrow> bytes" where
  "dict_bytes bufs ring s =
     (case ls_dict s of None \<Rightarrow> [] | Some (st, off, n) \<Rightarrow> read_at bufs ring (st, off + n - min n 65536) (min n 65536))"

definition compress_continue :: "lz4_ops \<Rightarrow> bytes list \<Rightarrow> bytes \<Rightarrow> store \<times> nat \<Rightarrow> nat \<Rightarrow> nat \<Rightarrow> lz_stream \<Rightarrow> bytes \<times> lz_stream" where
  "compress_continue lz bufs ring p n cap s =
     (let x = read_at bufs ring p n;
          z = (case lz_compress lz (ls_prev s) (dict_bytes bufs ring s) x cap of Some z \<Rightarrow> z | None \<Rightarrow> []);
          dict = (case ls_dict s of
                    Some (st, off, k) \<Rightarrow> if p = (st, off + k) then (st, off, k + n) else (fst p, snd p, n)
                  | None \<Rightarrow> (fst p, snd p, n))
      in (z, \<lparr>ls_prev = ls_prev s @ [x], ls_dict = Some dict\<rparr>))"

subsection \<open>Compressing\<close>

record src_state =
  ss_at :: src_place
  ss_left :: nat
  ss_ring :: bytes
  ss_lin :: nat

definition advance_at :: "bytes list \<Rightarrow> src_place \<Rightarrow> nat \<Rightarrow> src_place" where
  "advance_at bufs at n = (if length (bufs ! fst at) \<le> snd at + n then (Suc (fst at), 0) else (fst at, snd at + n))"

text \<open>The loop that copies a chunk together.\<close>

function linearize_chunk :: "bytes list \<Rightarrow> src_place \<Rightarrow> nat \<Rightarrow> (bytes \<times> src_place) result" where
  "linearize_chunk bufs at left =
     (if left = 0 then Inr ([], at)
      else if length bufs \<le> fst at then Inl OutOfRange
      else (let this_size = min (length (bufs ! fst at) - snd at) left
            in andThen (linearize_chunk bufs (advance_at bufs at this_size) (left - this_size))
                 (\<lambda>(tmp, at'). Inr (take this_size (drop (snd at) (bufs ! fst at)) @ tmp, at'))))"
  by pat_completeness auto
termination by (relation "measure (\<lambda>(bufs, at, left). (length bufs - fst at) + left)") (auto simp: advance_at_def)

declare linearize_chunk.simps [simp del]

definition ring_write :: "nat \<Rightarrow> bytes \<Rightarrow> bytes \<Rightarrow> bytes" where
  "ring_write off x ring = take off ring @ x @ drop (off + length x) ring"

text \<open>
  A chunk that is in one piece is compressed where it is; \<open>advance_src\<close> then goes on by a whole chunk, also behind the
  last one, after which nothing is read any more.
\<close>

definition maybe_linearize :: "bytes list \<Rightarrow> nat \<Rightarrow> src_state \<Rightarrow> ((store \<times> nat) \<times> src_state) result" where
  "maybe_linearize bufs n s =
     (if length bufs \<le> fst (ss_at s) then Inl OutOfRange
      else if length (bufs ! fst (ss_at s)) - snd (ss_at s) < n then
        (let lin_off = (if lin_buf_size - ss_lin s < n then 0 else ss_lin s)
         in andThen (linearize_chunk bufs (ss_at s) n) (\<lambda>(tmp, at').
              Inr ((Ring, lin_off), \<lparr>ss_at = at', ss_left = ss_left s - n, ss_ring = ring_write lin_off tmp (ss_ring s), ss_lin = lin_off + n\<rparr>)))
      else Inr ((Source (fst (ss_at s)), snd (ss_at s)),
                s\<lparr>ss_at := advance_at bufs (ss_at s) chunk_size, ss_left := ss_left s - chunk_size, ss_lin := 0\<rparr>))"

text \<open>The destination: buffers that are full, and one with its capacity. A new one is taken when the largest the next chunk can be does not fit.\<close>

type_synonym dest = "bytes list \<times> bytes \<times> nat"

definition dest_room :: "nat \<Rightarrow> dest \<Rightarrow> dest" where
  "dest_room n d = (case d of (full, cur, cap) \<Rightarrow> if length cur + n > cap then (full @ [cur], [], snd_chunk_size) else d)"

definition dest_put :: "bytes \<Rightarrow> dest \<Rightarrow> dest" where
  "dest_put bs d = (case d of (full, cur, cap) \<Rightarrow> (full, cur @ bs, cap))"

lemma maybe_linearize_left: "maybe_linearize bufs n s = Inr (p, s') \<Longrightarrow> ss_left s' = ss_left s - n \<or> ss_left s' = ss_left s - chunk_size"
  by (auto simp: maybe_linearize_def Let_def split: if_splits)

function fragment_chunks :: "le_ops \<Rightarrow> lz4_ops \<Rightarrow> bytes list \<Rightarrow> src_state \<Rightarrow> lz_stream \<Rightarrow> dest \<Rightarrow> dest result" where
  "fragment_chunks le lz bufs s stream d =
     (if ss_left s > chunk_size then
        (let d1 = dest_room (compress_bound chunk_size + 4) d
         in (case maybe_linearize bufs chunk_size s of
               Inl e \<Rightarrow> Inl e
             | Inr (src_ptr, s1) \<Rightarrow>
                 (case compress_continue lz bufs (ss_ring s1) src_ptr chunk_size (compress_bound chunk_size) stream of
                    (z, stream1) \<Rightarrow> fragment_chunks le lz bufs s1 stream1 (dest_put (write_le32 le (word_of_nat (length z)) @ z) d1))))
      else (let rem = ss_left s; d1 = dest_room (compress_bound rem + 4) d
            in andThen (maybe_linearize bufs rem s) (\<lambda>(src_ptr, s1).
                 (case compress_continue lz bufs (ss_ring s1) src_ptr rem (compress_bound rem) stream of
                    (z, stream1) \<Rightarrow> Inr (dest_put (write_le32 le (last_chunk_flag OR word_of_nat rem) @ z) d1)))))"
  by pat_completeness auto
termination
  by (relation "measure (\<lambda>(le, lz, bufs, s, stream, d). ss_left s)") (auto dest!: sym [of "Inr _"] maybe_linearize_left)

declare fragment_chunks.simps [simp del]

definition fragmented_compress :: "le_ops \<Rightarrow> lz4_ops \<Rightarrow> nat \<Rightarrow> snd_buf \<Rightarrow> rpc_error + snd_buf" where
  "fragmented_compress le lz head_space sb =
     (case sb_bufs sb of
        [] \<Rightarrow> Inl (Fault NullDeref)
      | b # bs \<Rightarrow>
          (let n = unat (sb_size sb); single_chunk_size = compress_bound n + head_space + 4
           in if single_chunk_size \<le> chunk_size \<and> n \<le> chunk_size \<and> length b = n then
                (case compress_continue lz (sb_bufs sb) [] (Source 0, 0) n (compress_bound n) lz_stream_reset of
                   (z, stream) \<Rightarrow>
                     (let dst = lz_garbage lz head_space @ write_le32 le (last_chunk_flag OR sb_size sb) @ z
                      in Inr \<lparr>sb_size = word_of_nat (length dst), sb_bufs = [dst]\<rparr>))
              else rpc_then (faulty (fragment_chunks le lz (sb_bufs sb)
                       \<lparr>ss_at = (0, 0), ss_left = n, ss_ring = lz_garbage lz lin_buf_size, ss_lin = 0\<rparr> lz_stream_reset
                       ([], lz_garbage lz head_space, max head_space snd_chunk_size)))
                     (\<lambda>(full, cur, cap). Inr \<lparr>sb_size = word_of_nat (length (concat (full @ [cur]))), sb_bufs = full @ [cur]\<rparr>)))"

subsection \<open>The stream that decompresses\<close>

text \<open>
  A block that is written where the block before ended finds everything in that stretch of memory, and the stretch before
  it; a block that is written elsewhere finds the stretch it left. Nothing there is written a second time.
\<close>

record lz_history =
  lh_ext :: bytes
  lh_prefix :: bytes
  lh_end :: src_place

definition lz_history_reset :: lz_history where
  "lz_history_reset = \<lparr>lh_ext = [], lh_prefix = [], lh_end = (0, 0)\<rparr>"

definition decompress_continue :: "lz4_ops \<Rightarrow> src_place \<Rightarrow> bytes \<Rightarrow> nat \<Rightarrow> lz_history \<Rightarrow> (bytes \<times> lz_history) option" where
  "decompress_continue lz dst z n h =
     (let h1 = (if dst = lh_end h then h else \<lparr>lh_ext = lh_prefix h, lh_prefix = [], lh_end = dst\<rparr>)
      in (case lz_decompress lz (lh_ext h1 @ lh_prefix h1) z n of
            None \<Rightarrow> None
          | Some out \<Rightarrow> Some (out, h1\<lparr>lh_prefix := lh_prefix h1 @ out, lh_end := (fst dst, snd dst + length out)\<rparr>)))"

subsection \<open>Decompressing\<close>

text \<open>\<open>copy_src\<close>: bytes that lie in one buffer are used there, others are copied together.\<close>

function copy_fragments :: "bytes list \<Rightarrow> src_place \<Rightarrow> nat \<Rightarrow> (bytes \<times> src_place) result" where
  "copy_fragments bufs at n =
     (if n = 0 then Inr ([], at)
      else (let at1 = (if length (bufs ! fst at) \<le> snd at then (Suc (fst at), 0) else at)
            in if length bufs \<le> fst at1 then Inl OutOfRange
               else (let this_size = min n (length (bufs ! fst at1) - snd at1)
                     in andThen (copy_fragments bufs (fst at1, snd at1 + this_size) (n - this_size))
                          (\<lambda>(dst, at'). Inr (take this_size (drop (snd at1) (bufs ! fst at1)) @ dst, at')))))"
  by pat_completeness auto
termination by (relation "measure (\<lambda>(bufs, at, n). (length bufs - fst at) + n)") (auto split: if_splits)

declare copy_fragments.simps [simp del]

definition copy_src :: "bytes list \<Rightarrow> nat \<Rightarrow> src_place \<Rightarrow> (bytes \<times> src_place) result" where
  "copy_src bufs n at =
     (if length bufs \<le> fst at then Inl OutOfRange
      else if n \<le> length (bufs ! fst at) - snd at then Inr (take n (drop (snd at) (bufs ! fst at)), (fst at, snd at + n))
      else copy_fragments bufs at n)"

text \<open>
  Where the next chunk goes: into the last buffer, or a new one of 64 kilobytes, whatever the chunk needs.
  \<open>get_dest\<close> does not look at that, and LZ4 is told it may write as much; what it writes behind the buffer leaves the
  language. What it does not write is what the memory held.
\<close>

definition get_dest :: "nat \<Rightarrow> bytes list \<times> bytes \<Rightarrow> bytes list \<times> bytes" where
  "get_dest n d = (case d of (full, cur) \<Rightarrow> if 65536 - length cur < n then (full @ [cur], []) else d)"

definition decompress_chunk :: "lz4_ops \<Rightarrow> bytes \<Rightarrow> nat \<Rightarrow> lz_history \<times> bytes list \<times> bytes \<Rightarrow> rpc_error + (lz_history \<times> bytes list \<times> bytes)" where
  "decompress_chunk lz z n = (\<lambda>(h, d).
     (case get_dest n d of (full, cur) \<Rightarrow>
        (case decompress_continue lz (length full, length cur) z n h of
           None \<Rightarrow> Inl RuntimeError
         | Some (out, h1) \<Rightarrow>
             if 65536 < length cur + length out then Inl (Fault OutOfRange)
             else Inr (h1, full, cur @ out @ lz_garbage lz (n - length out)))))"

text \<open>What is copied is what comes next.\<close>

lemma src_rest_step:
  assumes "fst at < length bufs" "k \<le> length (bufs ! fst at) - snd at"
  shows "take k (src_rest bufs at) = take k (drop (snd at) (bufs ! fst at))"
    "src_rest bufs (fst at, snd at + k) = drop k (src_rest bufs at)" "k \<le> length (src_rest bufs at)"
  using assms by (simp_all add: src_rest_def add.commute)

lemma src_rest_buffer: "src_rest bufs (i, 0) = concat (drop i bufs)"
proof (cases "i < length bufs")
  case True
  then have "concat (drop i bufs) = concat (bufs ! i # drop (Suc i) bufs)" by (simp add: Cons_nth_drop_Suc)
  then show ?thesis using True by (simp add: src_rest_def)
qed (simp add: src_rest_def)

lemma src_rest_next:
  assumes "fst at < length bufs" "length (bufs ! fst at) \<le> snd at"
  shows "src_rest bufs (Suc (fst at), 0) = src_rest bufs at"
  unfolding src_rest_buffer using assms by (simp add: src_rest_def)

lemma copy_fragments_rest:
  "copy_fragments bufs at n = Inr (x, at') \<Longrightarrow> fst at < length bufs \<Longrightarrow>
     n \<le> length (src_rest bufs at) \<and> x = take n (src_rest bufs at) \<and> src_rest bufs at' = drop n (src_rest bufs at)"
proof (induction bufs at n arbitrary: x rule: copy_fragments.induct)
  case (1 bufs at n)
  show ?case
  proof (cases "n = 0")
    case True
    then show ?thesis using "1.prems" by (simp add: copy_fragments.simps)
  next
    case False
    define at1 where "at1 = (if length (bufs ! fst at) \<le> snd at then (Suc (fst at), 0) else at)"
    define k where "k = min n (length (bufs ! fst at1) - snd at1)"
    have unfold: "copy_fragments bufs at n =
        (if length bufs \<le> fst at1 then Inl OutOfRange
         else andThen (copy_fragments bufs (fst at1, snd at1 + k) (n - k)) (\<lambda>(dst, at'). Inr (take k (drop (snd at1) (bufs ! fst at1)) @ dst, at')))"
      using False by (simp add: copy_fragments.simps [of bufs at n] at1_def k_def Let_def)
    have i: "fst at1 < length bufs" using "1.prems"(1) unfolding unfold by (auto split: if_splits)
    then obtain y where y: "copy_fragments bufs (fst at1, snd at1 + k) (n - k) = Inr (y, at')" "x = take k (drop (snd at1) (bufs ! fst at1)) @ y"
      using "1.prems"(1) unfolding unfold by auto
    have ih: "n - k \<le> length (src_rest bufs (fst at1, snd at1 + k))" "y = take (n - k) (src_rest bufs (fst at1, snd at1 + k))"
        "src_rest bufs at' = drop (n - k) (src_rest bufs (fst at1, snd at1 + k))"
      using "1.IH" [OF False at1_def _ k_def y(1)] i by simp_all
    have r: "src_rest bufs at1 = src_rest bufs at" using src_rest_next [of at bufs] "1.prems"(2) by (simp add: at1_def)
    have k: "k \<le> length (bufs ! fst at1) - snd at1" "k \<le> n" by (simp_all add: k_def)
    note st = src_rest_step [OF i k(1), unfolded r]
    have "x = take k (src_rest bufs at) @ take (n - k) (drop k (src_rest bufs at))" using y(2) ih(2) st by simp
    also have "\<dots> = take n (src_rest bufs at)" using k(2) take_add [of k "n - k" "src_rest bufs at"] by simp
    finally have "x = take n (src_rest bufs at)" .
    moreover have "n \<le> length (src_rest bufs at)" using ih(1) st(2,3) k(2) by simp
    moreover have "src_rest bufs at' = drop n (src_rest bufs at)" using ih(3) st(2) k(2) by simp
    ultimately show ?thesis by blast
  qed
qed

lemma copy_src_rest:
  assumes "copy_src bufs n at = Inr (x, at')"
  shows "n \<le> length (src_rest bufs at) \<and> x = take n (src_rest bufs at) \<and> src_rest bufs at' = drop n (src_rest bufs at)"
proof (cases "fst at < length bufs \<and> n \<le> length (bufs ! fst at) - snd at")
  case True
  then show ?thesis using assms src_rest_step [of at bufs n] by (auto simp: copy_src_def src_rest_def)
next
  case False
  then show ?thesis using assms copy_fragments_rest [of bufs at n x at'] by (auto simp: copy_src_def split: if_splits)
qed

function fragmented_read :: "le_ops \<Rightarrow> lz4_ops \<Rightarrow> bytes list \<Rightarrow> src_place \<Rightarrow> u64 \<Rightarrow> lz_history \<times> bytes list \<times> bytes \<Rightarrow> rpc_error + (bytes list \<times> bytes)" where
  "fragmented_read le lz bufs at src_left st =
     (case copy_src bufs 4 at of
        Inl e \<Rightarrow> Inl (Fault e)
      | Inr (hdr, at1) \<Rightarrow>
          (let header = read_le32 le hdr; left1 = src_left - 4
           in if header AND last_chunk_flag = 0 then
                (case copy_src bufs (unat header) at1 of
                   Inl e \<Rightarrow> Inl (Fault e)
                 | Inr (z, at2) \<Rightarrow>
                     (case decompress_chunk lz z chunk_size st of
                        Inl e \<Rightarrow> Inl e
                      | Inr st1 \<Rightarrow> fragmented_read le lz bufs at2 (left1 - ucast header) st1))
              else (case copy_src bufs (unat left1) at1 of
                      Inl e \<Rightarrow> Inl (Fault e)
                    | Inr (z, at2) \<Rightarrow> rpc_then (decompress_chunk lz z (unat (header AND NOT last_chunk_flag)) st) (\<lambda>(h, d). Inr d))))"
  by pat_completeness auto
termination
  by (relation "measure (\<lambda>(le, lz, bufs, at, src_left, st). length (src_rest bufs at))") (auto dest!: copy_src_rest)

declare fragmented_read.simps [simp del]

definition fragmented_decompress :: "le_ops \<Rightarrow> lz4_ops \<Rightarrow> rcv_buf \<Rightarrow> rpc_error + rcv_buf" where
  "fragmented_decompress le lz rb =
     (if rb_size rb < 4 then Inr rcv_buf_empty
      else
        (let loop = rpc_then (fragmented_read le lz (rb_bufs rb) (0, 0) (ucast (rb_size rb)) (lz_history_reset, [], []))
                      (\<lambda>(full, cur). Inr \<lparr>rb_size = word_of_nat (length (concat (full @ [cur]))), rb_bufs = full @ [cur]\<rparr>)
         in (case rb_bufs rb of
               [src] \<Rightarrow>
                 (let header = read_le32 le src
                  in if length src < unat (rb_size rb) then Inl (Fault OutOfRange)
                     else if header AND last_chunk_flag \<noteq> 0 then
                       (let n = unat (header AND NOT last_chunk_flag)
                        in (case decompress_continue lz (0, 0) (take (unat (rb_size rb) - 4) (drop 4 src)) n lz_history_reset of
                              None \<Rightarrow> Inl RuntimeError
                            | Some (out, h) \<Rightarrow> Inr \<lparr>rb_size = word_of_nat n, rb_bufs = [out @ lz_garbage lz (n - length out)]\<rparr>))
                     else loop)
             | _ \<Rightarrow> loop)))"

definition lz4_fragmented_compressor :: "le_ops \<Rightarrow> lz4_ops \<Rightarrow> compressor" where
  "lz4_fragmented_compressor le lz =
     \<lparr>cp_name = [0x4c, 0x5a, 0x34, 0x5f, 0x46, 0x52, 0x41, 0x47, 0x4d, 0x45, 0x4e, 0x54, 0x45, 0x44],
      cp_compress = fragmented_compress le lz, cp_decompress = fragmented_decompress le lz\<rparr>"

end
