(* ===== verification/RpcWireProps.thy ===== *)
theory RpcWireProps
  imports RpcWire
begin

text \<open>
  Messages are read as they were sent: requests, replies and stream fragments, of any size, with and
  without compression, however the stream is read; and a message that is cut off is no message.
\<close>

subsection \<open>Buffers\<close>

text \<open>A buffer that holds the bytes, with at least so many of them in front.\<close>

definition holds :: "nat \<Rightarrow> snd_buf \<Rightarrow> bytes \<Rightarrow> bool" where
  "holds n sb bs \<longleftrightarrow> sb_bufs sb \<noteq> [] \<and> n \<le> length (hd (sb_bufs sb)) \<and> concat (sb_bufs sb) = bs \<and> unat (sb_size sb) = length bs"

lemma concat_pieces: "0 < n \<Longrightarrow> concat (pieces n bs) = bs"
  by (induction n bs rule: pieces.induct) (subst pieces.simps, simp)

lemma holds_snd_buf_of: "length bs < 2 ^ 32 \<Longrightarrow> n \<le> length bs \<Longrightarrow> n \<le> snd_chunk_size \<Longrightarrow> holds n (snd_buf_of bs) bs"
  using concat_pieces [of snd_chunk_size bs]
  by (auto simp: holds_def snd_buf_of_def Let_def pieces.simps [of snd_chunk_size bs] unsigned_of_nat take_bit_eq_mod)

lemma write_holds:
  assumes "holds n sb bs" "off + length x \<le> n"
  shows "\<exists>sb'. write_front off x sb = Inr sb' \<and> holds n sb' (take off bs @ x @ drop (off + length x) bs)"
proof -
  obtain b r where b: "sb_bufs sb = b # r" "n \<le> length b" "bs = b @ concat r" "unat (sb_size sb) = length bs"
    using assms(1) by (cases "sb_bufs sb") (auto simp: holds_def)
  then show ?thesis using assms(2) by (auto simp: write_front_def holds_def)
qed

lemma trim_holds:
  assumes "holds n sb bs" "k \<le> n"
  shows "\<exists>sb'. trim_snd_front k sb = Inr sb' \<and> holds (n - k) sb' (drop k bs)"
proof -
  obtain b r where b: "sb_bufs sb = b # r" "n \<le> length b" "bs = b @ concat r" "unat (sb_size sb) = length bs"
    using assms(1) by (cases "sb_bufs sb") (auto simp: holds_def)
  have "k < 2 ^ 32" using b assms(2) u32_less [of "sb_size sb"] by simp
  then have k: "unat (word_of_nat k :: u32) = k" by (simp add: unsigned_of_nat take_bit_eq_mod)
  then have "word_of_nat k \<le> sb_size sb" using b assms(2) by (simp add: word_le_nat_alt)
  then have "unat (sb_size sb - word_of_nat k) = length bs - k" using k b(4) by (simp add: unat_sub)
  then show ?thesis using b assms(2) by (auto simp: trim_snd_front_def holds_def)
qed

lemma word_size: "length bs < 2 ^ 32 \<Longrightarrow> unat (sb_size sb) = length bs \<Longrightarrow> n \<le> length bs \<Longrightarrow>
    unat (sb_size sb - word_of_nat n) = length bs - n"
  for bs :: bytes
  by (subst unat_sub) (auto simp: word_le_nat_alt unsigned_of_nat take_bit_eq_mod)

subsection \<open>Reading\<close>

lemma avail_okD:
  assumes "avail_ok avail"
  shows "avail n s \<le> n" "avail n s \<le> length s" "0 < n \<Longrightarrow> s \<noteq> [] \<Longrightarrow> 0 < avail n s"
  using assms by (auto simp: avail_ok_def)

lemma read_more_all:
  assumes a: "avail_ok avail"
  shows "0 < left \<Longrightarrow> left \<le> length s \<Longrightarrow>
    \<exists>bs. read_more avail left s bufs = (0, bufs @ bs, drop left s) \<and> concat bs = take left s"
proof (induction left arbitrary: s bufs rule: less_induct)
  case (less left)
  let ?n = "avail left s"
  have "s \<noteq> []" using less.prems by auto
  then have n: "?n \<le> left" "?n \<le> length s" "0 < ?n" using avail_okD [OF a] less.prems(1) by blast+
  show ?case
  proof (cases "?n = left")
    case True
    then have "read_more avail left s bufs = (0, bufs @ [take left s], drop left s)"
      using n less.prems by (subst read_more.simps) (auto simp: Let_def)
    then show ?thesis by (intro exI [of _ "[take left s]"]) simp
  next
    case False
    then have l: "left - ?n < left" "0 < left - ?n" "left - ?n \<le> length (drop ?n s)" using n less.prems by auto
    then obtain bs where b: "read_more avail (left - ?n) (drop ?n s) (bufs @ [take ?n s]) = (0, (bufs @ [take ?n s]) @ bs, drop (left - ?n) (drop ?n s))"
        "concat bs = take (left - ?n) (drop ?n s)"
      using less.IH [OF l] by blast
    have "read_more avail left s bufs = read_more avail (left - ?n) (drop ?n s) (bufs @ [take ?n s])"
      using n l by (subst read_more.simps) (auto simp: Let_def)
    moreover have "take ?n s @ take (left - ?n) (drop ?n s) = take left s" using n(1) by (metis le_add_diff_inverse take_add)
    ultimately show ?thesis using b n(1) by (intro exI [of _ "take ?n s # bs"]) simp
  qed
qed

lemma read_more_short:
  assumes a: "avail_ok avail"
  shows "length s < left \<Longrightarrow> \<exists>k bs. 0 < k \<and> k \<le> left \<and> read_more avail left s bufs = (k, bs, [])"
proof (induction left arbitrary: s bufs rule: less_induct)
  case (less left)
  let ?n = "avail left s"
  have n: "?n \<le> left" "?n \<le> length s" "s \<noteq> [] \<Longrightarrow> 0 < ?n"
    using avail_okD [OF a, of left s] less.prems by auto
  show ?case
  proof (cases "s = []")
    case True
    then show ?thesis using less.prems by (subst read_more.simps) (auto simp: Let_def)
  next
    case False
    then have l: "left - ?n < left" "length (drop ?n s) < left - ?n" using n less.prems by auto
    have "read_more avail left s bufs = read_more avail (left - ?n) (drop ?n s) (bufs @ [take ?n s])"
      using n l False by (subst read_more.simps) (auto simp: Let_def)
    then show ?thesis using less.IH [OF l, of "bufs @ [take ?n s]"] by auto
  qed
qed

lemma read_rcv_buf_enough:
  assumes a: "avail_ok avail" and l: "unat n \<le> length s"
  shows "\<exists>rb. read_rcv_buf avail n s = (rb, drop (unat n) s) \<and> rb_size rb = n \<and> concat (rb_bufs rb) = take (unat n) s"
proof (cases "n = 0")
  case True
  then show ?thesis using avail_okD(1) [OF a, of 0 s] by (auto simp: read_rcv_buf_def rcv_buf_empty_def)
next
  case False
  let ?k = "avail (unat n) s"
  have n: "0 < unat n" using False by (simp add: unat_gt_0)
  have ne: "s \<noteq> []" using n l by auto
  then have k: "?k \<le> unat n" "?k \<le> length s" "0 < ?k" using avail_okD [OF a] n by blast+
  have data: "length (take ?k s) = ?k" "take ?k s \<noteq> []" using k ne by auto
  show ?thesis
  proof (cases "?k = unat n")
    case True
    then show ?thesis using data by (simp add: read_rcv_buf_def Let_def)
  next
    case False
    then have "0 < unat n - ?k" "unat n - ?k \<le> length (drop ?k s)" using k l by auto
    then obtain bs where b: "read_more avail (unat n - ?k) (drop ?k s) [take ?k s] = (0, [take ?k s] @ bs, drop (unat n - ?k) (drop ?k s))"
        "concat bs = take (unat n - ?k) (drop ?k s)"
      using read_more_all [OF a] by blast
    have "take ?k s @ take (unat n - ?k) (drop ?k s) = take (unat n) s" using k(1) by (metis le_add_diff_inverse take_add)
    then have c: "concat ([take ?k s] @ bs) = take (unat n) s" using b(2) by simp
    have "drop (unat n - ?k) (drop ?k s) = drop (unat n) s" using k(1) by simp
    then have "read_rcv_buf avail n s = (\<lparr>rb_size = n, rb_bufs = [take ?k s] @ bs\<rparr>, drop (unat n) s)"
      using False b(1) data unfolding read_rcv_buf_def Let_def data(1) by simp
    then show ?thesis using c by simp
  qed
qed

lemma read_rcv_buf_all:
  assumes "avail_ok avail" and "length d = unat n"
  shows "\<exists>rb. read_rcv_buf avail n (d @ rest) = (rb, rest) \<and> rb_size rb = n \<and> concat (rb_bufs rb) = d"
  using read_rcv_buf_enough [OF assms(1), of n "d @ rest"] assms(2) by simp

lemma read_rcv_buf_short:
  assumes a: "avail_ok avail" and l: "length s < unat n"
  shows "rb_size (fst (read_rcv_buf avail n s)) \<noteq> n \<and> snd (read_rcv_buf avail n s) = []"
proof -
  let ?k = "avail (unat n) s"
  have k: "?k \<le> length s" "s \<noteq> [] \<Longrightarrow> 0 < ?k" using avail_okD [OF a, of "unat n" s] l by auto
  have n: "n \<noteq> 0" using l by auto
  show ?thesis
  proof (cases "s = []")
    case True
    then show ?thesis using n by (simp add: read_rcv_buf_def rcv_buf_empty_def)
  next
    case False
    then have "length (drop ?k s) < unat n - ?k" using l k by auto
    then obtain m bs where m: "0 < m" "m \<le> unat n - ?k" "read_more avail (unat n - ?k) (drop ?k s) [take ?k s] = (m, bs, [])"
      using read_more_short [OF a] by blast
    have "m < 4294967296" using m(2) u32_less [of n] by linarith
    then have "unat (word_of_nat m :: u32) = m" by (simp add: unsigned_of_nat take_bit_eq_mod)
    then have "(word_of_nat m :: u32) \<noteq> 0" using m(1) by auto
    then have "n - word_of_nat m \<noteq> n" by simp
    then show ?thesis using k False l m by (auto simp: read_rcv_buf_def Let_def)
  qed
qed

subsection \<open>Frames\<close>

lemma frame_read:
  assumes "avail_ok avail" "length hdr = ft_header_size ft" "ft_decode ft hdr = (h, n)" "unat n = length payload"
  shows "\<exists>rb. read_frame avail ft (hdr @ payload @ rest) = (Some (h, rb), rest) \<and> concat (rb_bufs rb) = payload \<and> rb_size rb = n"
proof -
  obtain rb where rb: "read_rcv_buf avail n (payload @ rest) = (rb, rest)" "rb_size rb = n" "concat (rb_bufs rb) = payload"
    using read_rcv_buf_all [OF assms(1), of payload n rest] assms(4) by auto
  show ?thesis
  proof (cases "n = 0")
    case True
    then show ?thesis using assms by (simp add: read_frame_def rcv_buf_empty_def)
  next
    case False
    then show ?thesis using assms(2,3) rb by (simp add: read_frame_def)
  qed
qed

lemma frame_cut:
  assumes "avail_ok avail" "length hdr = ft_header_size ft" "ft_decode ft hdr = (h, n)" "unat n = length payload"
    and "k < length (hdr @ payload)"
  shows "fst (read_frame avail ft (take k (hdr @ payload))) = None"
proof (cases "k < length hdr")
  case True
  then show ?thesis using assms(2) by (simp add: read_frame_def)
next
  case False
  then have "length (take (k - length hdr) payload) < unat n" using assms(4,5) by auto
  then have "rb_size (fst (read_rcv_buf avail n (take (k - length hdr) payload))) \<noteq> n" "n \<noteq> 0"
    using read_rcv_buf_short [OF assms(1)] by auto
  then show ?thesis using False assms(2,3) by (auto simp: read_frame_def split: prod.splits)
qed

text \<open>What a compressor promises for messages up to a size: room in front, and the message back.\<close>

definition compressor_ok :: "nat \<Rightarrow> compressor \<Rightarrow> bool" where
  "compressor_ok lim c \<longleftrightarrow> (\<forall>h sb bs. h \<le> 28 \<and> holds 0 sb bs \<and> bs \<noteq> [] \<and> length bs \<le> lim \<longrightarrow>
     (\<exists>b z. cp_compress c h sb = Inr b \<and> holds h b z \<and>
       (\<forall>rb. concat (rb_bufs rb) = drop h z \<and> unat (rb_size rb) = length (drop h z) \<longrightarrow>
         (\<exists>out. cp_decompress c rb = Inr out \<and> concat (rb_bufs out) = bs))))"

lemma compressor_okD:
  assumes "compressor_ok lim c" "h \<le> 28" "holds 0 sb bs" "bs \<noteq> []" "length bs \<le> lim"
  shows "\<exists>b z. cp_compress c h sb = Inr b \<and> holds h b z \<and>
    (\<forall>rb. concat (rb_bufs rb) = drop h z \<longrightarrow> unat (rb_size rb) = length (drop h z) \<longrightarrow>
      (\<exists>out. cp_decompress c rb = Inr out \<and> concat (rb_bufs out) = bs))"
  using assms unfolding compressor_ok_def by blast

text \<open>What stands behind the size of a compressed message, and how it is read.\<close>

lemma compressed_read:
  assumes le: "le_ok le" and a: "avail_ok avail" and z: "unat n = length z"
    and dec: "\<And>rb. concat (rb_bufs rb) = z \<Longrightarrow> unat (rb_size rb) = length z \<Longrightarrow>
      \<exists>out. cp_decompress c rb = Inr out \<and> concat (rb_bufs out) = m"
    and m: "read_frame avail ft m = (Some (h, rb'), [])"
  shows "read_frame_compressed le avail ft (Some c) (write_le32 le n @ z @ rest) = Inr (Some (h, rb'), rest)"
proof -
  obtain rb where rb: "read_rcv_buf avail n (z @ rest) = (rb, rest)" "rb_size rb = n" "concat (rb_bufs rb) = z"
    using read_rcv_buf_all [OF a z [symmetric], of rest] by blast
  then obtain out where o: "cp_decompress c rb = Inr out" "concat (rb_bufs out) = m" using dec [of rb] z by blast
  show ?thesis using rb o m le by (simp add: read_frame_compressed_def)
qed

lemma compressed_cut:
  assumes le: "le_ok le" and a: "avail_ok avail" and z: "unat n = length z" and k: "k < 4 + length z"
  shows "\<exists>s'. read_frame_compressed le avail ft (Some c) (take k (write_le32 le n @ z)) = Inr (None, s')"
proof (cases "k < 4")
  case True
  then show ?thesis using le by (simp add: read_frame_compressed_def)
next
  case False
  then have "length (take (k - 4) z) < unat n" using k z by auto
  from read_rcv_buf_short [OF a this] have "rb_size (fst (read_rcv_buf avail n (take (k - 4) z))) \<noteq> n" by blast
  then show ?thesis using False le by (simp add: read_frame_compressed_def case_prod_unfold)
qed

text \<open>What the frame of a message gives, sent with or without compression.\<close>

definition carried :: "le_ops \<Rightarrow> avail \<Rightarrow> 'h frame_type \<Rightarrow> compressor option \<Rightarrow> bytes \<Rightarrow> 'h \<Rightarrow> bytes \<Rightarrow> bool" where
  "carried le avail ft cp wire h payload \<longleftrightarrow>
     (\<forall>rest. \<exists>rb. read_frame_compressed le avail ft cp (wire @ rest) = Inr (Some (h, rb), rest) \<and>
       concat (rb_bufs rb) = payload \<and> unat (rb_size rb) = length payload) \<and>
     (\<forall>k < length wire. \<exists>s'. read_frame_compressed le avail ft cp (take k wire) = Inr (None, s'))"

lemma carried_plain:
  assumes "avail_ok avail" "length hdr = ft_header_size ft" "ft_decode ft hdr = (h, n)" "unat n = length payload"
  shows "carried le avail ft None (hdr @ payload) h payload"
  unfolding carried_def
proof (intro conjI allI impI)
  fix rest
  show "\<exists>rb. read_frame_compressed le avail ft None ((hdr @ payload) @ rest) = Inr (Some (h, rb), rest) \<and>
      concat (rb_bufs rb) = payload \<and> unat (rb_size rb) = length payload"
    using frame_read [OF assms, of rest] assms(4) by (auto simp: read_frame_compressed_def)
next
  fix k assume "k < length (hdr @ payload)"
  from frame_cut [OF assms this] show "\<exists>s'. read_frame_compressed le avail ft None (take k (hdr @ payload)) = Inr (None, s')"
    by (intro exI [of _ "snd (read_frame avail ft (take k (hdr @ payload)))"]) (simp add: read_frame_compressed_def prod_eq_iff)
qed

lemma connection_compress_some:
  assumes le: "le_ok le" and c: "cp_compress c 4 sb = Inr b" and z: "holds 4 b z"
  shows "\<exists>s2. connection_compress le (Some c) sb = Inr s2 \<and>
    concat (sb_bufs s2) = write_le32 le (sb_size b - 4) @ drop 4 z \<and> unat (sb_size b - 4) = length (drop 4 z)"
proof -
  let ?w = "write_le32 le (sb_size b - 4)"
  have len: "4 \<le> length z" using z by (cases "sb_bufs b") (auto simp: holds_def)
  have zs: "unat (sb_size b) = length z" "length z < 2 ^ 32" using z u32_less [of "sb_size b"] by (simp_all add: holds_def)
  have w: "length ?w = 4" "unat (sb_size b - 4) = length (drop 4 z)" using le word_size [OF zs(2,1) len] by simp_all
  obtain s2 where s2: "write_front 0 ?w b = Inr s2" "holds 4 s2 (take 0 z @ ?w @ drop (0 + length ?w) z)"
    using write_holds [OF z, of 0 ?w] w(1) by auto
  have "connection_compress le (Some c) sb = Inr s2" using s2(1) c by (simp add: connection_compress_def)
  moreover have "concat (sb_bufs s2) = ?w @ drop 4 z" using s2(2) w(1) by (simp add: holds_def)
  ultimately show ?thesis using w(2) by blast
qed

lemma message_carried:
  assumes le: "le_ok le" and a: "avail_ok avail" and cp: "\<forall>c. cp = Some c \<longrightarrow> compressor_ok lim c"
    and sb: "holds n sb (hdr @ payload)" "hdr \<noteq> []" "length (hdr @ payload) \<le> lim"
    and f: "length hdr = ft_header_size ft" "ft_decode ft hdr = (h, m)" "unat m = length payload"
  shows "\<exists>s2. connection_compress le cp sb = Inr s2 \<and> carried le avail ft cp (concat (sb_bufs s2)) h payload"
proof (cases cp)
  case None
  have "concat (sb_bufs sb) = hdr @ payload" using sb(1) by (simp add: holds_def)
  then show ?thesis using carried_plain [OF a f] None by (simp add: connection_compress_def)
next
  case (Some c)
  have c: "compressor_ok lim c" "(4::nat) \<le> 28" "holds 0 sb (hdr @ payload)" "hdr @ payload \<noteq> []"
    using cp Some sb by (simp_all add: holds_def)
  obtain b z where b: "cp_compress c 4 sb = Inr b" and z: "holds 4 b z"
    and d: "\<forall>rb. concat (rb_bufs rb) = drop 4 z \<longrightarrow> unat (rb_size rb) = length (drop 4 z) \<longrightarrow>
      (\<exists>out. cp_decompress c rb = Inr out \<and> concat (rb_bufs out) = hdr @ payload)"
    using compressor_okD [OF c sb(3)] by blast
  have dec: "\<exists>out. cp_decompress c rb = Inr out \<and> concat (rb_bufs out) = hdr @ payload"
    if "concat (rb_bufs rb) = drop 4 z" "unat (rb_size rb) = length (drop 4 z)" for rb
    using d that by blast
  let ?n = "sb_size b - 4"
  obtain s2 where s2: "connection_compress le (Some c) sb = Inr s2" "concat (sb_bufs s2) = write_le32 le ?n @ drop 4 z"
      "unat ?n = length (drop 4 z)"
    using connection_compress_some [OF le b z] by blast
  obtain rb' where rb': "read_frame avail ft (hdr @ payload) = (Some (h, rb'), [])" "concat (rb_bufs rb') = payload" "rb_size rb' = m"
    using frame_read [OF a f, of "[]"] by auto
  have "carried le avail ft (Some c) (write_le32 le ?n @ drop 4 z) h payload"
    unfolding carried_def
  proof (intro conjI allI impI)
    fix rest
    show "\<exists>rb. read_frame_compressed le avail ft (Some c) ((write_le32 le ?n @ drop 4 z) @ rest) = Inr (Some (h, rb), rest) \<and>
        concat (rb_bufs rb) = payload \<and> unat (rb_size rb) = length payload"
      using compressed_read [OF le a s2(3) dec rb'(1), of rest] rb'(2,3) f(3) by simp
  next
    fix k assume "k < length (write_le32 le ?n @ drop 4 z)"
    then have "k < 4 + length (drop 4 z)" using le by simp
    from compressed_cut [OF le a s2(3) this] show "\<exists>s'. read_frame_compressed le avail ft (Some c) (take k (write_le32 le ?n @ drop 4 z)) = Inr (None, s')" .
  qed
  then show ?thesis using s2 Some by auto
qed

subsection \<open>Requests, replies and stream fragments\<close>

lemma le_ok_nonempty [simp]: "le_ok le \<Longrightarrow> write_le64 le x \<noteq> []" "le_ok le \<Longrightarrow> write_le32 le y \<noteq> []"
  using le_ok_length [of le] by (metis list.size(3) zero_neq_numeral)+

lemma le_ok_word_size: "n < 2 ^ 32 \<Longrightarrow> unat (word_of_nat n :: u32) = n"
  by (simp add: unsigned_of_nat take_bit_eq_mod)

lemma marshall_holds: "n + length payload < 2 ^ 32 \<Longrightarrow> n \<le> snd_chunk_size \<Longrightarrow> holds n (marshall n payload) (replicate n 0 @ payload)"
  unfolding marshall_def by (rule holds_snd_buf_of) simp_all

lemma marshall_size:
  assumes "n + length payload < 2 ^ 32"
  shows "sb_size (marshall n payload) - word_of_nat n = word_of_nat (length payload)"
  using assms by (simp add: marshall_def snd_buf_of_def Let_def)

lemma request_written:
  assumes le: "le_ok le" and l: "28 + length payload < 2 ^ 32"
  shows "\<exists>sb. request_message le t i payload = Inr sb \<and>
    holds 28 sb (replicate 8 0 @ write_le64 le t @ write_le64 le i @ write_le32 le (word_of_nat (length payload)) @ payload)"
proof -
  have m: "holds 28 (marshall 28 payload) (replicate 28 0 @ payload)" using marshall_holds [of 28 payload] l by simp
  obtain s1 where s1: "write_front 8 (write_le64 le t) (marshall 28 payload) = Inr s1"
      "holds 28 s1 (replicate 8 0 @ write_le64 le t @ replicate 12 0 @ payload)"
    using write_holds [OF m, of 8 "write_le64 le t"] le by (auto simp: take_Cons' drop_Cons' numeral_eq_Suc)
  obtain s2 where s2: "write_front 16 (write_le64 le i) s1 = Inr s2"
      "holds 28 s2 (replicate 8 0 @ write_le64 le t @ write_le64 le i @ replicate 4 0 @ payload)"
    using write_holds [OF s1(2), of 16 "write_le64 le i"] le by (auto simp: numeral_eq_Suc)
  obtain s3 where s3: "write_front 24 (write_le32 le (sb_size (marshall 28 payload) - 28)) s2 = Inr s3"
      "holds 28 s3 (replicate 8 0 @ write_le64 le t @ write_le64 le i @ write_le32 le (sb_size (marshall 28 payload) - 28) @ payload)"
    using write_holds [OF s2(2), of 24 "write_le32 le (sb_size (marshall 28 payload) - 28)"] le by (auto simp: numeral_eq_Suc)
  show ?thesis using s1(1) s2(1) s3 marshall_size [of 28 payload] l by (simp add: request_message_def Let_def)
qed

lemma respond_written:
  assumes le: "le_ok le" and l: "12 + length payload < 2 ^ 32" and sb: "holds 12 sb (replicate 12 0 @ payload)"
  shows "\<exists>s2. respond_message le i sb = Inr s2 \<and> holds 12 s2 (write_le64 le i @ write_le32 le (word_of_nat (length payload)) @ payload)"
proof -
  have "unat (sb_size sb) = 12 + length payload" using sb by (simp add: holds_def)
  moreover have "word_of_nat (unat (sb_size sb)) = sb_size sb" by simp
  ultimately have "sb_size sb = word_of_nat (12 + length payload)" by simp
  then have n: "sb_size sb - 12 = word_of_nat (length payload)" by simp
  obtain s1 where s1: "write_front 0 (write_le64 le i) sb = Inr s1" "holds 12 s1 (write_le64 le i @ replicate 4 0 @ payload)"
    using write_holds [OF sb, of 0 "write_le64 le i"] le by (auto simp: numeral_eq_Suc)
  obtain s2 where s2: "write_front 8 (write_le32 le (word_of_nat (length payload))) s1 = Inr s2"
      "holds 12 s2 (write_le64 le i @ write_le32 le (word_of_nat (length payload)) @ payload)"
    using write_holds [OF s1(2), of 8 "write_le32 le (word_of_nat (length payload))"] le by (auto simp: numeral_eq_Suc)
  show ?thesis using s1(1) s2 n by (simp add: respond_message_def)
qed

text \<open>A request that is sent: with the time left in front when timeouts were negotiated, without it otherwise.\<close>

lemma request_sent:
  assumes le: "le_ok le" and a: "avail_ok avail" and cp: "\<forall>c. cp = Some c \<longrightarrow> compressor_ok lim c"
    and l: "28 + length payload < 2 ^ 32" "28 + length payload \<le> lim"
    and sb: "request_message le t i payload = Inr sb"
  shows "\<exists>wire. send_entry le Q_request to left cp sb = Inr wire \<and>
    carried le avail (if to then request_frame_with_timeout le else request_frame le) cp wire (if to then Some left else None, t, i) payload"
proof -
  let ?h = "write_le64 le t @ write_le64 le i @ write_le32 le (word_of_nat (length payload))"
  have h: "holds 28 sb (replicate 8 0 @ ?h @ payload)" using request_written [OF le l(1), of t i] sb by auto
  have n: "unat (word_of_nat (length payload) :: u32) = length payload" by (rule le_ok_word_size) (use l(1) in simp)
  show ?thesis
  proof (cases to)
    case True
    obtain s1 where s1: "write_front 0 (write_le64 le left) sb = Inr s1" "holds 28 s1 ((write_le64 le left @ ?h) @ payload)"
      using write_holds [OF h, of 0 "write_le64 le left"] le by auto
    have d: "ft_decode (request_frame_with_timeout le) (write_le64 le left @ ?h) = ((Some left, t, i), word_of_nat (length payload))"
      using le by (simp add: request_frame_with_timeout_def request_frame_def)
    have "length (write_le64 le left @ ?h) = ft_header_size (request_frame_with_timeout le)" "write_le64 le left @ ?h \<noteq> []"
        "length ((write_le64 le left @ ?h) @ payload) \<le> lim"
      using le l(2) by (auto simp: request_frame_with_timeout_def)
    from message_carried [OF le a cp s1(2) this(2,3,1) d n] show ?thesis using True s1(1) by (auto simp: send_entry_def)
  next
    case False
    obtain s1 where s1: "trim_snd_front 8 sb = Inr s1" "holds 20 s1 (?h @ payload)"
      using trim_holds [OF h, of 8] by auto
    have d: "ft_decode (request_frame le) ?h = ((None, t, i), word_of_nat (length payload))"
      using le by (simp add: request_frame_def)
    have "length ?h = ft_header_size (request_frame le)" "?h \<noteq> []" "length (?h @ payload) \<le> lim"
      using le l(2) by (auto simp: request_frame_def)
    from message_carried [OF le a cp s1(2) this(2,3,1) d n] show ?thesis using False s1(1) by (auto simp: send_entry_def)
  qed
qed

lemma response_sent:
  assumes le: "le_ok le" and a: "avail_ok avail" and cp: "\<forall>c. cp = Some c \<longrightarrow> compressor_ok lim c"
    and l: "12 + length payload < 2 ^ 32" "12 + length payload \<le> lim"
    and h: "holds 12 s (write_le64 le i @ write_le32 le (word_of_nat (length payload)) @ payload)"
  shows "\<exists>wire. send_entry le Q_response to left cp s = Inr wire \<and> carried le avail (response_frame le) cp wire i payload"
proof -
  let ?h = "write_le64 le i @ write_le32 le (word_of_nat (length payload))"
  have n: "unat (word_of_nat (length payload) :: u32) = length payload" by (rule le_ok_word_size) (use l(1) in simp)
  have d: "ft_decode (response_frame le) ?h = (i, word_of_nat (length payload))" using le by (simp add: response_frame_def)
  have h': "holds 12 s (?h @ payload)" using h by simp
  have "length ?h = ft_header_size (response_frame le)" "?h \<noteq> []" "length (?h @ payload) \<le> lim"
    using le l(2) by (auto simp: response_frame_def)
  from message_carried [OF le a cp h' this(2,3,1) d n] show ?thesis by (auto simp: send_entry_def)
qed

text \<open>A stream fragment, and the end of a stream.\<close>

lemma fragment_sent:
  assumes le: "le_ok le" and a: "avail_ok avail" and cp: "\<forall>c. cp = Some c \<longrightarrow> compressor_ok lim c"
    and l: "4 + length payload < 2 ^ 32" "4 + length payload \<le> lim"
  shows "\<exists>wire. rpc_then (faulty (stream_message le payload)) (send_entry le Q_response to left cp) = Inr wire \<and>
    carried le avail (stream_frame le) cp wire False payload"
proof -
  let ?n = "word_of_nat (length payload) :: u32"
  have m: "holds 4 (marshall 4 payload) (replicate 4 0 @ payload)" using marshall_holds [of 4 payload] l(1) by simp
  have n: "unat ?n = length payload" by (rule le_ok_word_size) (use l(1) in simp)
  have "unat (- 1 :: u32) = 2 ^ 32 - 1" by (simp add: unsigned_minus_1_eq_mask mask_eq_exp_minus_1)
  then have ne: "?n \<noteq> - 1" using n l(1) by auto
  obtain sb where sb: "write_front 0 (write_le32 le ?n) (marshall 4 payload) = Inr sb" "holds 4 sb (write_le32 le ?n @ payload)"
    using write_holds [OF m, of 0 "write_le32 le ?n"] le by auto
  have d: "ft_decode (stream_frame le) (write_le32 le ?n) = (False, ?n)" using le ne by (simp add: stream_frame_def)
  have s: "length (write_le32 le ?n) = ft_header_size (stream_frame le)" "write_le32 le ?n \<noteq> []" "length (write_le32 le ?n @ payload) \<le> lim"
    using le l(2) by (simp_all add: stream_frame_def)
  have "stream_message le payload = Inr sb" using sb(1) marshall_size [of 4 payload] l(1) by (simp add: stream_message_def Let_def)
  then show ?thesis using message_carried [OF le a cp sb(2) s(2,3,1) d n] by (auto simp: send_entry_def)
qed

lemma stream_end_sent:
  assumes le: "le_ok le" and a: "avail_ok avail" and cp: "\<forall>c. cp = Some c \<longrightarrow> compressor_ok lim c" and l: "4 \<le> lim"
  shows "\<exists>wire. rpc_then (faulty (stream_end_message le)) (send_entry le Q_response to left cp) = Inr wire \<and>
    carried le avail (stream_frame le) cp wire True []"
proof -
  have m: "holds 4 (marshall 4 []) (replicate 4 0)" using marshall_holds [of 4 "[]"] by simp
  obtain sb where sb: "write_front 0 (write_le32 le (- 1)) (marshall 4 []) = Inr sb" "holds 4 sb (write_le32 le (- 1) @ [])"
    using write_holds [OF m, of 0 "write_le32 le (- 1)"] le by auto
  have d: "ft_decode (stream_frame le) (write_le32 le (- 1)) = (True, 0)" using le by (simp add: stream_frame_def)
  have s: "length (write_le32 le (- 1)) = ft_header_size (stream_frame le)" "write_le32 le (- 1) \<noteq> []" "length (write_le32 le (- 1) @ []) \<le> lim"
    using le l by (simp_all add: stream_frame_def)
  have "unat (0 :: u32) = length ([] :: bytes)" by simp
  from message_carried [OF le a cp sb(2) s(2,3,1) d this] show ?thesis using sb(1) by (auto simp: stream_end_message_def send_entry_def)
qed

subsection \<open>Witness parameters\<close>

text \<open>A stream that gives three bytes at a time; a compressor that stores the message.\<close>

definition three_bytes :: avail where
  "three_bytes n s = min 3 (min n (length s))"

lemma avail_ok_three: "avail_ok three_bytes"
  by (auto simp: avail_ok_def three_bytes_def)

definition stored :: compressor where
  "stored = \<lparr>cp_name = [115], cp_compress = (\<lambda>h sb. Inr (snd_buf_of (replicate h 0 @ concat (sb_bufs sb)))), cp_decompress = Inr\<rparr>"

lemma compressor_ok_stored: "compressor_ok 1000000 stored"
proof -
  have "\<exists>b z. cp_compress stored h sb = Inr b \<and> holds h b z \<and>
       (\<forall>rb. concat (rb_bufs rb) = drop h z \<and> unat (rb_size rb) = length (drop h z) \<longrightarrow>
         (\<exists>out. cp_decompress stored rb = Inr out \<and> concat (rb_bufs out) = bs))"
    if "h \<le> 28 \<and> holds 0 sb bs \<and> bs \<noteq> [] \<and> length bs \<le> 1000000" for h sb and bs :: bytes
  proof (intro exI conjI allI impI)
    show "cp_compress stored h sb = Inr (snd_buf_of (replicate h 0 @ bs))" using that by (simp add: stored_def holds_def)
    show "holds h (snd_buf_of (replicate h 0 @ bs)) (replicate h 0 @ bs)"
      using that holds_snd_buf_of [of "replicate h 0 @ bs" h] by simp
  qed (auto simp: stored_def)
  then show ?thesis unfolding compressor_ok_def by blast
qed

subsection \<open>Messages are read as they were sent\<close>

lemma request_arrives:
  assumes "le_ok le" and "avail_ok avail" and "\<forall>c. cp = Some c \<longrightarrow> compressor_ok lim c"
    and "28 + length payload < 2 ^ 32" and "28 + length payload \<le> lim"
  shows "\<exists>sb wire. request_message le t i payload = Inr sb \<and> send_entry le Q_request to left cp sb = Inr wire \<and>
    (\<forall>rest. \<exists>rb. read_request_frame_compressed le avail to cp (wire @ rest) = Inr (Some ((if to then Some left else None, t, i), rb), rest) \<and>
      concat (rb_bufs rb) = payload \<and> unat (rb_size rb) = length payload) \<and>
    (\<forall>k < length wire. \<exists>s'. read_request_frame_compressed le avail to cp (take k wire) = Inr (None, s'))"
proof -
  obtain sb where sb: "request_message le t i payload = Inr sb" using request_written [OF assms(1,4)] by blast
  obtain wire where w: "send_entry le Q_request to left cp sb = Inr wire"
      "carried le avail (if to then request_frame_with_timeout le else request_frame le) cp wire (if to then Some left else None, t, i) payload"
    using request_sent [OF assms sb] by blast
  have "read_request_frame_compressed le avail to cp s = read_frame_compressed le avail (if to then request_frame_with_timeout le else request_frame le) cp s" for s
    by (simp add: read_request_frame_compressed_def)
  then show ?thesis using sb w unfolding carried_def by auto
qed

text \<open>C7. 
  A request that is put on the wire, with or without compression and however the stream hands out its
  bytes, is read with its type, its id, the time it has left if timeouts were negotiated, and its
  arguments, and nothing behind it is touched; whatever is missing of it, it is no request.
\<close>
theorem request_read_back:
  assumes "le_ok le" and "avail_ok avail" and "\<forall>c. cp = Some c \<longrightarrow> compressor_ok lim c"
    and "28 + length payload < 2 ^ 32" and "28 + length payload \<le> lim"
  shows "\<exists>sb wire. request_message le t i payload = Inr sb \<and> send_entry le Q_request to left cp sb = Inr wire \<and>
    (\<forall>rest. \<exists>rb. read_request_frame_compressed le avail to cp (wire @ rest) = Inr (Some ((if to then Some left else None, t, i), rb), rest) \<and>
      concat (rb_bufs rb) = payload \<and> unat (rb_size rb) = length payload) \<and>
    (\<forall>k < length wire. \<exists>s'. read_request_frame_compressed le avail to cp (take k wire) = Inr (None, s'))"
  using assms by (rule request_arrives)

lemma request_read_back_witness:
  "\<exists>sb wire. request_message le_ref 5 7 (replicate 10 1) = Inr sb \<and> send_entry le_ref Q_request True 250 (Some stored) sb = Inr wire \<and>
    (\<exists>rb. read_request_frame_compressed le_ref three_bytes True (Some stored) (wire @ [9]) = Inr (Some ((Some 250, 5, 7), rb), [9]) \<and>
      concat (rb_bufs rb) = replicate 10 1 \<and> unat (rb_size rb) = 10)"
  using request_read_back [OF le_ok_ref avail_ok_three, of "Some stored" 1000000 "replicate 10 1" 5 7 True 250]
  by (auto simp: compressor_ok_stored)

text \<open>
  A reply, with the id of its request or the negated id before an exception, is read with that id and
  the data that was sent.
\<close>
theorem reply_read_back:
  assumes "le_ok le" and "avail_ok avail" and "\<forall>c. cp = Some c \<longrightarrow> compressor_ok lim c"
    and "12 + length payload < 2 ^ 32" and "12 + length payload \<le> lim"
  shows "\<exists>sb wire. respond_message le i (marshall 12 payload) = Inr sb \<and> send_entry le Q_response to left cp sb = Inr wire \<and>
    (\<forall>rest. \<exists>rb. read_response_frame_compressed le avail cp (wire @ rest) = Inr (Some (i, rb), rest) \<and>
      concat (rb_bufs rb) = payload \<and> unat (rb_size rb) = length payload) \<and>
    (\<forall>k < length wire. \<exists>s'. read_response_frame_compressed le avail cp (take k wire) = Inr (None, s'))"
proof -
  have "holds 12 (marshall 12 payload) (replicate 12 0 @ payload)" using marshall_holds [of 12 payload] assms(4) by simp
  then obtain sb where sb: "respond_message le i (marshall 12 payload) = Inr sb"
      "holds 12 sb (write_le64 le i @ write_le32 le (word_of_nat (length payload)) @ payload)"
    using respond_written [OF assms(1,4)] by blast
  obtain wire where "send_entry le Q_response to left cp sb = Inr wire" "carried le avail (response_frame le) cp wire i payload"
    using response_sent [OF assms sb(2)] by blast
  then show ?thesis using sb(1) unfolding carried_def read_response_frame_compressed_def by auto
qed

lemma reply_read_back_witness:
  "\<exists>sb wire. respond_message le_ref (- 7) (marshall 12 (replicate 10 1)) = Inr sb \<and> send_entry le_ref Q_response True 0 None sb = Inr wire \<and>
    (\<exists>rb. read_response_frame_compressed le_ref three_bytes None (wire @ [9]) = Inr (Some (- 7, rb), [9]) \<and> concat (rb_bufs rb) = replicate 10 1 \<and> unat (rb_size rb) = 10)"
  using reply_read_back [OF le_ok_ref avail_ok_three, of None 1000 "replicate 10 1" "- 7" True 0]
  by (auto)

end
