(* ===== verification/RpcLz4Props.thy ===== *)
theory RpcLz4Props
  imports RpcLz4 RpcWireProps
begin

text \<open>
  Both compressors keep the contract the connection relies on, given that LZ4 gives back what it was
  given where it finds what it refers to: room for a header in front, and the message back from whatever buffers it comes in. For the
  compressor of fragments that is an argument about memory: the dictionary is still there when the next chunk is compressed,
  and the last 64 kilobytes are in reach when it is decompressed.
\<close>

lemma lz4_okD:
  assumes "lz4_ok lz" "x \<noteq> []" "length x \<le> 0x7E000000" "suffix d (concat prev)"
  obtains z where "lz_compress lz prev d x (compress_bound (length x)) = Some z" "z \<noteq> []" "length z \<le> compress_bound (length x)"
    "\<And>h n. suffix d h \<Longrightarrow> length x \<le> n \<Longrightarrow> lz_decompress lz h z n = Some x"
proof -
  have "\<exists>z. lz_compress lz prev d x (compress_bound (length x)) = Some z \<and> z \<noteq> [] \<and> length z \<le> compress_bound (length x) \<and>
      (\<forall>h n. suffix d h \<and> length x \<le> n \<longrightarrow> lz_decompress lz h z n = Some x)"
    using assms(1) [unfolded lz4_ok_def, THEN conjunct1, rule_format, of d prev x "compress_bound (length x)"] assms(2-4) by simp
  then show thesis using that by auto
qed

lemma lz4_garbage [simp]: "lz4_ok lz \<Longrightarrow> length (lz_garbage lz n) = n"
  by (simp add: lz4_ok_def)

lemma lz4_garbage_0 [simp]: "lz4_ok lz \<Longrightarrow> lz_garbage lz 0 = []"
  using lz4_garbage [of lz 0] by (simp del: lz4_garbage)

lemma foldl_append: "foldl (\<lambda>dst fragment. dst @ fragment) acc bufs = acc @ concat bufs"
  by (induction bufs arbitrary: acc) simp_all

lemma prepare_all: "unat n = length (concat bufs) \<Longrightarrow> prepare bufs n = Inr (concat bufs)"
  by (auto simp: prepare_def Let_def foldl_append split: list.split)

lemma less_4: "4 \<le> unat (n :: u32) \<Longrightarrow> \<not> n < 4"
  by (simp add: word_less_nat_alt)

lemma concat_with_reserved: "concat (rb_bufs (with_reserved_rcv bs)) = bs"
  using concat_pieces [of snd_chunk_size bs] by (simp add: with_reserved_rcv_def with_reserved_def)

lemma with_reserved_snd: "length bs < 2 ^ 32 \<Longrightarrow> with_reserved_snd bs = snd_buf_of bs"
  using le_ok_word_size [of "length bs"] by (simp add: with_reserved_snd_def with_reserved_def snd_buf_of_def)

lemma bound_le: "n \<le> 0x7E000000 \<Longrightarrow> compress_bound n \<le> n + n div 255 + 16"
  by (simp add: compress_bound_def)

subsection \<open>LZ4\<close>

lemma lz4_contract:
  assumes le: "le_ok le" and lz: "lz4_ok lz"
  shows "compressor_ok 0x7E000000 (lz4_compressor le lz)"
  unfolding compressor_ok_def
proof (intro allI impI)
  fix h :: nat and sb and bs :: bytes
  assume "h \<le> 28 \<and> holds 0 sb bs \<and> bs \<noteq> [] \<and> length bs \<le> 0x7E000000"
  then have h: "h \<le> 28" and sb: "concat (sb_bufs sb) = bs" "unat (sb_size sb) = length bs" and bs: "bs \<noteq> []" "length bs \<le> 0x7E000000"
    by (auto simp: holds_def)
  obtain z where z: "lz_compress lz [] [] bs (compress_bound (length bs)) = Some z" "z \<noteq> []" "length z \<le> compress_bound (length bs)"
      "\<And>h n. suffix [] h \<Longrightarrow> length bs \<le> n \<Longrightarrow> lz_decompress lz h z n = Some bs"
    by (rule lz4_okD [OF lz bs, of "[]" "[]"]) auto
  let ?out = "lz_garbage lz h @ write_le32 le (sb_size sb) @ z"
  have zl: "length z \<le> 0x7E000000 + 0x7E000000 div 255 + 16"
    using z(3) bound_le [OF bs(2)] bs(2) div_le_mono [OF bs(2), of 255] by linarith
  then have l: "length ?out < 2 ^ 32" using h le lz by simp
  have c: "cp_compress (lz4_compressor le lz) h sb = Inr (snd_buf_of ?out)"
    using prepare_all [of "sb_size sb" "sb_bufs sb"] sb z(1) with_reserved_snd [OF l]
    by (simp add: lz4_compressor_def lz4_compress_def)
  have ho: "holds h (snd_buf_of ?out) ?out" by (rule holds_snd_buf_of [OF l]) (use h le lz in simp_all)
  have d: "\<exists>out. cp_decompress (lz4_compressor le lz) rb = Inr out \<and> concat (rb_bufs out) = bs"
    if rb: "concat (rb_bufs rb) = drop h ?out" "unat (rb_size rb) = length (drop h ?out)" for rb
  proof -
    have src: "concat (rb_bufs rb) = write_le32 le (sb_size sb) @ z" using rb(1) lz by simp
    have n: "unat (rb_size rb) = 4 + length z" using rb(2) le lz by simp
    then have "\<not> rb_size rb < 4" using less_4 by simp
    moreover have "prepare (rb_bufs rb) (rb_size rb) = Inr (write_le32 le (sb_size sb) @ z)"
      using prepare_all [of "rb_size rb" "rb_bufs rb"] src n le by simp
    ultimately have "lz4_decompress le lz rb = Inr (with_reserved_rcv bs)"
      using z(4) [of "[]" "length bs"] sb(2) bs(1) le lz by (simp add: lz4_decompress_def Let_def)
    then show ?thesis using concat_with_reserved by (simp add: lz4_compressor_def)
  qed
  show "\<exists>b z. cp_compress (lz4_compressor le lz) h sb = Inr b \<and> holds h b z \<and>
      (\<forall>rb. concat (rb_bufs rb) = drop h z \<and> unat (rb_size rb) = length (drop h z) \<longrightarrow>
        (\<exists>out. cp_decompress (lz4_compressor le lz) rb = Inr out \<and> concat (rb_bufs out) = bs))"
    using c ho d by blast
qed

subsection \<open>Headers of fragments\<close>

lemma not_bit_31: "n < 2 ^ 31 \<Longrightarrow> \<not> bit (word_of_nat n :: u32) 31"
proof -
  assume n: "n < 2 ^ 31"
  then have "uint (word_of_nat n :: u32) = int n" using le_ok_word_size [of n] by (simp add: uint_nat)
  moreover have "int n div 2 ^ 31 = 0" using n by simp
  ultimately have "\<not> bit (uint (word_of_nat n :: u32)) 31" by (simp add: bit_iff_odd)
  then show "\<not> bit (word_of_nat n :: u32) 31" by (simp add: bit_uint_iff)
qed

lemma flag_bit_31: "(w AND last_chunk_flag = 0) = (\<not> bit w 31)" for w :: u32
  using and_exp_eq_0_iff_not_bit [of w 31] by simp

lemma chunk_header: "n < 2 ^ 31 \<Longrightarrow> (word_of_nat n :: u32) AND last_chunk_flag = 0"
  using not_bit_31 flag_bit_31 by blast

lemma last_header:
  assumes "n < 2 ^ 31"
  shows "(last_chunk_flag OR word_of_nat n) AND last_chunk_flag \<noteq> (0 :: u32)"
    "unat ((last_chunk_flag OR word_of_nat n) AND NOT last_chunk_flag :: u32) = n"
proof -
  have "bit (last_chunk_flag OR word_of_nat n :: u32) 31" by (simp add: bit_or_iff bit_numeral_word_iff)
  then show "(last_chunk_flag OR word_of_nat n) AND last_chunk_flag \<noteq> (0 :: u32)" using flag_bit_31 by blast
  have "(last_chunk_flag OR word_of_nat n) AND NOT last_chunk_flag = (word_of_nat n :: u32) AND NOT last_chunk_flag"
    by (simp add: bit.conj_disj_distrib2)
  also have "\<dots> = word_of_nat n"
  proof (rule bit_word_eqI)
    fix k assume k: "k < LENGTH(32)"
    show "bit ((word_of_nat n :: u32) AND NOT last_chunk_flag) k = bit (word_of_nat n :: u32) k"
    proof (cases "k = 31")
      case True
      then show ?thesis using not_bit_31 [OF assms] by (simp add: bit_and_iff)
    next
      case False
      have "(last_chunk_flag :: u32) = push_bit 31 1" by simp
      then have "\<not> bit (last_chunk_flag :: u32) k" using False by (simp only: bit_push_bit_iff bit_1_iff) simp
      then show ?thesis using k by (simp only: bit_and_iff bit_not_iff possible_bit_word simp_thms)
    qed
  qed
  finally show "unat ((last_chunk_flag OR word_of_nat n) AND NOT last_chunk_flag :: u32) = n"
    using assms le_ok_word_size [of n] by simp
qed

subsection \<open>What the fragments say\<close>

text \<open>
  The block of a chunk: it comes back where the last 64 kilobytes before it are in reach. And the bytes of a message,
  wherever the buffers end, after what was sent before.
\<close>

definition recent :: "bytes \<Rightarrow> bytes" where
  "recent bs = drop (length bs - 65536) bs"

definition block_of :: "lz4_ops \<Rightarrow> bytes \<Rightarrow> bytes \<Rightarrow> bytes \<Rightarrow> bool" where
  "block_of lz prev x z \<longleftrightarrow> z \<noteq> [] \<and> length z \<le> length x + 200 \<and>
     (\<forall>h n. suffix (recent prev) h \<and> length x \<le> n \<longrightarrow> lz_decompress lz h z n = Some x)"

inductive fragments :: "le_ops \<Rightarrow> lz4_ops \<Rightarrow> bytes \<Rightarrow> bytes \<Rightarrow> bytes \<Rightarrow> bool" for le lz where
  last: "src \<noteq> [] \<Longrightarrow> length src \<le> chunk_size \<Longrightarrow> block_of lz prev src z \<Longrightarrow>
    fragments le lz prev src (write_le32 le (last_chunk_flag OR word_of_nat (length src)) @ z)"
| intermediate: "chunk_size < length src \<Longrightarrow> block_of lz prev (take chunk_size src) z \<Longrightarrow>
    fragments le lz (prev @ take chunk_size src) (drop chunk_size src) m \<Longrightarrow>
    fragments le lz prev src (write_le32 le (word_of_nat (length z)) @ z @ m)"

inductive_cases fragments_cases: "fragments le lz prev src m"

lemma recent_suffix: "suffix d prev \<Longrightarrow> length d \<le> 65536 \<Longrightarrow> suffix d (recent prev)"
  unfolding suffix_def recent_def by auto

lemma recent_in_reach: "suffix h prev \<Longrightarrow> h = prev \<or> 65536 \<le> length h \<Longrightarrow> suffix (recent prev) h"
  unfolding suffix_def recent_def by (auto intro: exI [of _ "take (length h - 65536) h"] simp: suffix_def)

lemma fragments_length:
  assumes "le_ok le"
  shows "fragments le lz prev src m \<Longrightarrow> length m \<le> 2 * length src + 300"
  by (induction rule: fragments.induct) (use assms in \<open>auto simp: block_of_def\<close>)

lemma fragments_not_empty: "le_ok le \<Longrightarrow> fragments le lz prev src m \<Longrightarrow> 4 \<le> length m"
  by (erule fragments.cases) simp_all

subsection \<open>Where the dictionary lies\<close>

lemma read_at_drop: "n \<le> e \<Longrightarrow> read_at bufs ring (st, e - n) n = drop (e - n) (take e (store_bytes bufs ring st))"
  by (simp add: read_at_def take_drop)

text \<open>The dictionary is in memory, ends where the ring is written next when it is in the ring, and holds what was compressed last.\<close>

definition stream_ok :: "bytes list \<Rightarrow> bytes \<Rightarrow> nat \<Rightarrow> lz_stream \<Rightarrow> bool" where
  "stream_ok bufs ring lin s \<longleftrightarrow>
     (\<forall>st off n. ls_dict s = Some (st, off, n) \<longrightarrow> off + n \<le> length (store_bytes bufs ring st) \<and> (st = Ring \<longrightarrow> off + n = lin)) \<and>
     suffix (dict_bytes bufs ring s) (concat (ls_prev s))"

lemma dict_bytes_Some:
  "ls_dict s = Some (st, off, n) \<Longrightarrow> dict_bytes bufs ring s = drop (off + n - min n 65536) (take (off + n) (store_bytes bufs ring st))"
  using read_at_drop [of "min n 65536" "off + n"] by (simp add: dict_bytes_def)

lemma dict_bytes_length: "length (dict_bytes bufs ring s) \<le> 65536"
  by (auto simp: dict_bytes_def read_at_def min_le_iff_disj split: option.split)

lemma stream_reset_ok [simp]: "stream_ok bufs ring lin lz_stream_reset"
  by (simp add: stream_ok_def lz_stream_reset_def dict_bytes_def)

text \<open>A block that follows the dictionary makes it longer; of a longer one, the end stays what was compressed last.\<close>

lemma dict_grows:
  assumes "suffix (drop (e - min k 65536) (take e m)) p" "k \<le> e" "e + n \<le> length m" "n \<le> 65536"
  shows "suffix (drop (e + n - min (k + n) 65536) (take (e + n) m)) (p @ take n (drop e m))"
proof -
  have "take (e + n) m = take e m @ take n (drop e m)" by (rule take_add)
  then have d: "drop (e + n - min (k + n) 65536) (take (e + n) m) = drop (e + n - min (k + n) 65536) (take e m) @ take n (drop e m)"
    using assms by (simp add: min_def)
  define j where "j = (e + n - min (k + n) 65536) - (e - min k 65536)"
  have "e + n - min (k + n) 65536 = (e - min k 65536) + j" using assms by (simp add: j_def min_def)
  then have "suffix (drop (e + n - min (k + n) 65536) (take e m)) (drop (e - min k 65536) (take e m))"
    by (metis add.commute drop_drop suffix_drop)
  then show ?thesis using assms(1) unfolding d by (auto simp: suffix_def)
qed

lemma compress_continue_ok:
  assumes lz: "lz4_ok lz" and s: "stream_ok bufs ring lin s"
    and p: "snd p + n \<le> length (store_bytes bufs ring (fst p))" "fst p = Ring \<Longrightarrow> snd p + n = lin'" and n: "0 < n" "n \<le> chunk_size"
    and c: "compress_continue lz bufs ring p n (compress_bound n) s = (z, s')"
  shows "block_of lz (concat (ls_prev s)) (read_at bufs ring p n) z" "ls_prev s' = ls_prev s @ [read_at bufs ring p n]"
    "stream_ok bufs ring lin' s'"
proof -
  let ?x = "read_at bufs ring p n" and ?d = "dict_bytes bufs ring s"
  have x: "length ?x = n" using p(1) by (simp add: read_at_def)
  then have x1: "?x \<noteq> []" "length ?x \<le> 0x7E000000" using n by auto
  have d: "suffix ?d (concat (ls_prev s))" using s by (simp add: stream_ok_def)
  obtain z' where z': "lz_compress lz (ls_prev s) ?d ?x (compress_bound (length ?x)) = Some z'" "z' \<noteq> []" "length z' \<le> compress_bound (length ?x)"
      "\<And>h n. suffix ?d h \<Longrightarrow> length ?x \<le> n \<Longrightarrow> lz_decompress lz h z' n = Some ?x"
    by (rule lz4_okD [OF lz x1 d]) blast
  have zz: "z = z'" using c z'(1) x by (simp add: compress_continue_def Let_def)
  have "n div 255 \<le> 128" using div_le_mono [OF n(2), of 255] by simp
  then have l: "length z' \<le> length ?x + 200" using z'(3) bound_le [of n] n(2) x by simp
  have "suffix ?d h" if "suffix (recent (concat (ls_prev s))) h" for h
    using recent_suffix [OF d dict_bytes_length] that by (rule suffix_order.trans)
  then show "block_of lz (concat (ls_prev s)) ?x z" using z'(2,4) l unfolding zz block_of_def by blast
  show pr: "ls_prev s' = ls_prev s @ [?x]" using c by (auto simp: compress_continue_def Let_def)
  have new: "suffix (dict_bytes bufs ring s') (concat (ls_prev s'))" if "ls_dict s' = Some (fst p, snd p, n)"
  proof -
    have "dict_bytes bufs ring s' = ?x" using dict_bytes_Some [OF that] n(2) by (simp add: read_at_def take_drop add.commute)
    then show ?thesis using pr by (simp add: suffix_def)
  qed
  have new_ok: "stream_ok bufs ring lin' s'" if "ls_dict s' = Some (fst p, snd p, n)"
    using new [OF that] that p by (simp add: stream_ok_def)
  show "stream_ok bufs ring lin' s'"
  proof (cases "ls_dict s")
    case None
    then show ?thesis using c new_ok by (auto simp: compress_continue_def Let_def)
  next
    case (Some q)
    obtain st off k where q: "q = (st, off, k)" by (cases q)
    show ?thesis
    proof (cases "p = (st, off + k)")
      case False
      then show ?thesis using c new_ok Some q by (auto simp: compress_continue_def Let_def)
    next
      case True
      then have s': "ls_dict s' = Some (st, off, k + n)" using c Some q by (auto simp: compress_continue_def Let_def)
      have "suffix (drop (off + k - min k 65536) (take (off + k) (store_bytes bufs ring st))) (concat (ls_prev s))"
        using d dict_bytes_Some [of s st off k] Some q by simp
      from dict_grows [OF this, of n] have "suffix (dict_bytes bufs ring s') (concat (ls_prev s'))"
        using dict_bytes_Some [OF s'] pr True p(1) n(2) by (simp add: read_at_def add.assoc)
      then show ?thesis using s' p True by (simp add: stream_ok_def add.assoc)
    qed
  qed
qed

lemma read_source [simp]: "read_at bufs ring (Source i, off) n = take n (drop off (bufs ! i))"
  by (simp add: read_at_def)

text \<open>Writing into the ring leaves the dictionary as it is: it follows the dictionary, or starts again more than 64 kilobytes before its end.\<close>

lemma ring_write_length: "off + length x \<le> length ring \<Longrightarrow> length (ring_write off x ring) = length ring"
  by (simp add: ring_write_def)

lemma ring_write_read: "off + length x \<le> length ring \<Longrightarrow> read_at bufs (ring_write off x ring) (Ring, off) (length x) = x"
  by (simp add: ring_write_def read_at_def)

lemma ring_write_behind: "e \<le> off \<Longrightarrow> off \<le> length ring \<Longrightarrow> take e (ring_write off x ring) = take e ring"
  by (simp add: ring_write_def min_def)

lemma ring_write_before:
  assumes "length x \<le> i" "length x \<le> length ring" "i \<le> e"
  shows "drop i (take e (ring_write 0 x ring)) = drop i (take e ring)"
  using assms by (simp add: ring_write_def drop_take)

lemma stream_ok_store:
  assumes "stream_ok bufs ring lin s" "length ring' = length ring"
    and "\<And>off n. ls_dict s = Some (Ring, off, n) \<Longrightarrow> drop (off + n - min n 65536) (take (off + n) ring') = drop (off + n - min n 65536) (take (off + n) ring)"
    and "\<And>off n. ls_dict s = Some (Ring, off, n) \<Longrightarrow> lin' = lin"
  shows "stream_ok bufs ring' lin' s"
proof (cases "ls_dict s")
  case None
  then show ?thesis using assms(1) by (simp add: stream_ok_def dict_bytes_def)
next
  case (Some q)
  obtain st off n where q: "ls_dict s = Some (st, off, n)" using Some by (cases q) simp
  have "dict_bytes bufs ring' s = dict_bytes bufs ring s"
    using q assms(3) by (cases st) (simp_all add: dict_bytes_Some)
  then show ?thesis using assms q by (cases st) (simp_all add: stream_ok_def)
qed

subsection \<open>Compressing, chunk by chunk\<close>

lemma src_rest_advance:
  assumes "fst at < length bufs" "k \<le> length (bufs ! fst at) - snd at"
  shows "src_rest bufs (advance_at bufs at k) = drop k (src_rest bufs at)"
  using src_rest_step(2) [OF assms] src_rest_next [of "(fst at, snd at + k)" bufs] assms(1) by (auto simp: advance_at_def)

lemma src_rest_here: "0 < n \<Longrightarrow> n \<le> length (src_rest bufs at) \<Longrightarrow> fst at < length bufs"
  by (auto simp: src_rest_def split: if_splits)

lemma linearize_chunk_ok:
  "n \<le> length (src_rest bufs at) \<Longrightarrow> \<exists>at'. linearize_chunk bufs at n = Inr (take n (src_rest bufs at), at') \<and> src_rest bufs at' = drop n (src_rest bufs at)"
proof (induction bufs at n rule: linearize_chunk.induct)
  case (1 bufs at n)
  show ?case
  proof (cases "n = 0")
    case True
    then show ?thesis by (simp add: linearize_chunk.simps)
  next
    case False
    then have i: "fst at < length bufs" using "1.prems" src_rest_here [of n bufs at] by simp
    define k where "k = min (length (bufs ! fst at) - snd at) n"
    have k: "k \<le> length (bufs ! fst at) - snd at" "k \<le> n" by (simp_all add: k_def)
    have r: "src_rest bufs (advance_at bufs at k) = drop k (src_rest bufs at)" by (rule src_rest_advance [OF i k(1)])
    have "n - k \<le> length (src_rest bufs (advance_at bufs at k))" using r "1.prems" by simp
    moreover have "\<not> length bufs \<le> fst at" using i by simp
    ultimately obtain at' where at': "linearize_chunk bufs (advance_at bufs at k) (n - k) = Inr (take (n - k) (drop k (src_rest bufs at)), at')"
        "src_rest bufs at' = drop (n - k) (drop k (src_rest bufs at))"
      using "1.IH" [OF False _ k_def] r by auto
    have t: "take k (drop (snd at) (bufs ! fst at)) @ take (n - k) (drop k (src_rest bufs at)) = take n (src_rest bufs at)"
      using src_rest_step(1) [OF i k(1)] k(2) take_add [of k "n - k" "src_rest bufs at"] by simp
    have "linearize_chunk bufs at n = Inr (take n (src_rest bufs at), at')"
      using False i at'(1) t by (subst linearize_chunk.simps) (simp add: k_def Let_def)
    then show ?thesis using at'(2) k(2) by simp
  qed
qed

definition src_ok :: "bytes list \<Rightarrow> src_state \<Rightarrow> bool" where
  "src_ok bufs s \<longleftrightarrow> length (ss_ring s) = lin_buf_size \<and> ss_lin s \<in> {0, chunk_size, 2 * chunk_size, 3 * chunk_size} \<and>
     ss_left s = length (src_rest bufs (ss_at s))"

text \<open>Where the next chunk is put in the ring.\<close>

lemma ring_place:
  assumes s: "src_ok bufs s" "stream_ok bufs (ss_ring s) (ss_lin s) stream" and n: "0 < n" "n \<le> chunk_size" "length x = n"
    and lin: "lin = (if lin_buf_size - ss_lin s < n then 0 else ss_lin s)"
  shows "lin + n \<le> lin_buf_size" "n = chunk_size \<Longrightarrow> lin + n \<in> {0, chunk_size, 2 * chunk_size, 3 * chunk_size}"
    "stream_ok bufs (ring_write lin x (ss_ring s)) (ss_lin s) stream"
proof -
  have l: "ss_lin s \<in> {0, chunk_size, 2 * chunk_size, 3 * chunk_size}" "length (ss_ring s) = lin_buf_size" using s(1) by (simp_all add: src_ok_def)
  have wrap: "lin = ss_lin s \<or> lin = 0 \<and> ss_lin s = 3 * chunk_size" using l(1) n(2) lin by auto
  show fits: "lin + n \<le> lin_buf_size" using lin n(2) l(1) by auto
  show "lin + n \<in> {0, chunk_size, 2 * chunk_size, 3 * chunk_size}" if "n = chunk_size"
    using l(1) that lin by auto
  show "stream_ok bufs (ring_write lin x (ss_ring s)) (ss_lin s) stream"
  proof (rule stream_ok_store [OF s(2) ring_write_length])
    show "lin + length x \<le> length (ss_ring s)" using fits l(2) n(3) by simp
    fix off k assume d: "ls_dict stream = Some (Ring, off, k)"
    then have e: "off + k = ss_lin s" using s(2) by (simp add: stream_ok_def)
    show "drop (off + k - min k 65536) (take (off + k) (ring_write lin x (ss_ring s))) = drop (off + k - min k 65536) (take (off + k) (ss_ring s))"
    proof (cases "lin = ss_lin s")
      case True
      then show ?thesis using ring_write_behind [of "off + k" lin "ss_ring s" x] e fits l(2) by simp
    next
      case False
      then have "lin = 0" "ss_lin s = 3 * chunk_size" using wrap by auto
      then show ?thesis using ring_write_before [of x "off + k - min k 65536" "ss_ring s" "off + k"] e n(2,3) l(2) by simp
    qed
  qed simp
qed

lemma maybe_linearize_ok:
  assumes s: "src_ok bufs s" "stream_ok bufs (ss_ring s) (ss_lin s) stream" and n: "0 < n" "n \<le> chunk_size" "n \<le> ss_left s"
  obtains p s' where "maybe_linearize bufs n s = Inr (p, s')"
    "read_at bufs (ss_ring s') p n = take n (src_rest bufs (ss_at s))"
    "snd p + n \<le> length (store_bytes bufs (ss_ring s') (fst p))" "fst p = Ring \<Longrightarrow> snd p + n = ss_lin s'"
    "stream_ok bufs (ss_ring s') (ss_lin s) stream"
    "n = chunk_size \<Longrightarrow> src_ok bufs s' \<and> src_rest bufs (ss_at s') = drop chunk_size (src_rest bufs (ss_at s))"
proof -
  let ?r = "src_rest bufs (ss_at s)"
  have l: "ss_left s = length ?r" "length (ss_ring s) = lin_buf_size" using s(1) by (simp_all add: src_ok_def)
  then have i: "fst (ss_at s) < length bufs" using n src_rest_here [of n bufs "ss_at s"] by simp
  show thesis
  proof (cases "length (bufs ! fst (ss_at s)) - snd (ss_at s) < n")
    case True
    define lin where "lin = (if lin_buf_size - ss_lin s < n then 0 else ss_lin s)"
    obtain at' where at': "linearize_chunk bufs (ss_at s) n = Inr (take n ?r, at')" "src_rest bufs at' = drop n ?r"
      using linearize_chunk_ok [of n bufs "ss_at s"] n(3) l(1) by auto
    have x: "length (take n ?r) = n" using n(3) l(1) by simp
    note r = ring_place [OF s n(1,2) x lin_def]
    let ?s = "\<lparr>ss_at = at', ss_left = ss_left s - n, ss_ring = ring_write lin (take n ?r) (ss_ring s), ss_lin = lin + n\<rparr>"
    have rl: "length (ring_write lin (take n ?r) (ss_ring s)) = lin_buf_size"
      using ring_write_length [of lin "take n ?r" "ss_ring s"] r(1) x l(2) by simp
    show thesis
    proof (rule that [of "(Ring, lin)" ?s])
      show "maybe_linearize bufs n s = Inr ((Ring, lin), ?s)" using True i at'(1) by (simp add: maybe_linearize_def lin_def Let_def)
      show "read_at bufs (ss_ring ?s) (Ring, lin) n = take n ?r"
        using ring_write_read [of lin "take n ?r" "ss_ring s" bufs] r(1) x l(2) by simp
      show "src_ok bufs ?s \<and> src_rest bufs (ss_at ?s) = drop chunk_size ?r" if "n = chunk_size"
        using that r(2) rl at'(2) l(1) by (simp add: src_ok_def)
    qed (use r(1,3) rl in simp_all)
  next
    case False
    let ?s = "s\<lparr>ss_at := advance_at bufs (ss_at s) chunk_size, ss_left := ss_left s - chunk_size, ss_lin := 0\<rparr>"
    show thesis
    proof (rule that [of "(Source (fst (ss_at s)), snd (ss_at s))" ?s])
      show "maybe_linearize bufs n s = Inr ((Source (fst (ss_at s)), snd (ss_at s)), ?s)" using False i by (simp add: maybe_linearize_def)
      show "read_at bufs (ss_ring ?s) (Source (fst (ss_at s)), snd (ss_at s)) n = take n ?r"
        using src_rest_step(1) [OF i, of n] False by simp
      show "snd (Source (fst (ss_at s)), snd (ss_at s)) + n \<le> length (store_bytes bufs (ss_ring ?s) (fst (Source (fst (ss_at s)), snd (ss_at s))))"
        using False n(1) by simp
      show "src_ok bufs ?s \<and> src_rest bufs (ss_at ?s) = drop chunk_size ?r" if "n = chunk_size"
        using src_rest_advance [OF i, of n] False that l by (simp add: src_ok_def)
    qed (use s(2) in simp_all)
  qed
qed

text \<open>The destination.\<close>

definition dest_bytes :: "dest \<Rightarrow> bytes" where
  "dest_bytes d = (case d of (full, cur, cap) \<Rightarrow> concat full @ cur)"

definition dest_front :: "dest \<Rightarrow> nat" where
  "dest_front d = (case d of (full, cur, cap) \<Rightarrow> length (hd (full @ [cur])))"

lemma dest_room_bytes [simp]: "dest_bytes (dest_room n d) = dest_bytes d" "dest_front (dest_room n d) = dest_front d"
  by (auto simp: dest_room_def dest_bytes_def dest_front_def hd_append split: prod.splits)

lemma dest_put_bytes [simp]: "dest_bytes (dest_put bs d) = dest_bytes d @ bs"
  by (auto simp: dest_put_def dest_bytes_def split: prod.splits)

lemma dest_put_front: "h \<le> dest_front d \<Longrightarrow> h \<le> dest_front (dest_put bs d)"
  by (auto simp: dest_put_def dest_front_def hd_append split: prod.splits if_splits)

lemma fragment_chunks_made:
  assumes lz: "lz4_ok lz"
  shows "src_ok bufs s \<Longrightarrow> stream_ok bufs (ss_ring s) (ss_lin s) stream \<Longrightarrow> 0 < ss_left s \<Longrightarrow>
    \<exists>d' m. fragment_chunks le lz bufs s stream d = Inr d' \<and> dest_bytes d' = dest_bytes d @ m \<and>
      fragments le lz (concat (ls_prev stream)) (src_rest bufs (ss_at s)) m \<and> (h \<le> dest_front d \<longrightarrow> h \<le> dest_front d')"
proof (induction "ss_left s" arbitrary: s stream d rule: less_induct)
  case less
  let ?r = "src_rest bufs (ss_at s)"
  have l: "ss_left s = length ?r" using less.prems(1) by (simp add: src_ok_def)
  show ?case
  proof (cases "ss_left s > chunk_size")
    case True
    obtain p s' where p: "maybe_linearize bufs chunk_size s = Inr (p, s')" "read_at bufs (ss_ring s') p chunk_size = take chunk_size ?r"
        "snd p + chunk_size \<le> length (store_bytes bufs (ss_ring s') (fst p))" "fst p = Ring \<Longrightarrow> snd p + chunk_size = ss_lin s'"
        "stream_ok bufs (ss_ring s') (ss_lin s) stream" "src_ok bufs s'" "src_rest bufs (ss_at s') = drop chunk_size ?r"
      by (rule maybe_linearize_ok [OF less.prems(1,2), of chunk_size]) (use True in auto)
    obtain z stream' where c: "compress_continue lz bufs (ss_ring s') p chunk_size (compress_bound chunk_size) stream = (z, stream')" by fastforce
    note b = compress_continue_ok [OF lz p(5,3,4) _ _ c, simplified p(2)]
    have l': "ss_left s' < ss_left s" "0 < ss_left s'" using p(6,7) True l by (simp_all add: src_ok_def)
    let ?d = "dest_put (write_le32 le (word_of_nat (length z)) @ z) (dest_room (compress_bound chunk_size + 4) d)"
    obtain d' m where ih: "fragment_chunks le lz bufs s' stream' ?d = Inr d'" "dest_bytes d' = dest_bytes ?d @ m"
        "fragments le lz (concat (ls_prev stream')) (drop chunk_size ?r) m" "h \<le> dest_front ?d \<longrightarrow> h \<le> dest_front d'"
      using less.hyps [OF l'(1) p(6) _ l'(2), of stream' ?d] b(3) p(7) by auto
    have "fragment_chunks le lz bufs s stream d = Inr d'"
      using True p(1) c ih(1) by (subst fragment_chunks.simps) (simp add: Let_def)
    moreover have "fragments le lz (concat (ls_prev stream)) ?r (write_le32 le (word_of_nat (length z)) @ z @ m)"
      by (rule fragments.intermediate) (use True l b ih(3) in simp_all)
    ultimately show ?thesis using ih(2,4) dest_put_front [of h "dest_room (compress_bound chunk_size + 4) d"]
      by (intro exI [of _ d'] exI [of _ "write_le32 le (word_of_nat (length z)) @ z @ m"]) simp
  next
    case False
    let ?n = "ss_left s"
    have n: "?n \<le> chunk_size" using False by simp
    obtain p s' where p: "maybe_linearize bufs ?n s = Inr (p, s')" "read_at bufs (ss_ring s') p ?n = take ?n ?r"
        "snd p + ?n \<le> length (store_bytes bufs (ss_ring s') (fst p))" "fst p = Ring \<Longrightarrow> snd p + ?n = ss_lin s'"
        "stream_ok bufs (ss_ring s') (ss_lin s) stream"
      by (rule maybe_linearize_ok [OF less.prems(1-3) n]) auto
    obtain z stream' where c: "compress_continue lz bufs (ss_ring s') p ?n (compress_bound ?n) stream = (z, stream')" by fastforce
    have b: "block_of lz (concat (ls_prev stream)) ?r z"
      using compress_continue_ok(1) [OF lz p(5,3,4) less.prems(3) n c] p(2) l by simp
    let ?m = "write_le32 le (last_chunk_flag OR word_of_nat (length ?r)) @ z"
    have "fragment_chunks le lz bufs s stream d = Inr (dest_put ?m (dest_room (compress_bound ?n + 4) d))"
      using False p(1) c l by (subst fragment_chunks.simps) (simp add: Let_def)
    moreover have "fragments le lz (concat (ls_prev stream)) ?r ?m"
      by (rule fragments.last) (use less.prems(3) n l b in auto)
    ultimately show ?thesis using dest_put_front [of h "dest_room (compress_bound ?n + 4) d"] by simp
  qed
qed

subsection \<open>Reading, chunk by chunk\<close>

lemma copy_fragments_ok:
  "n \<le> length (src_rest bufs at) \<Longrightarrow> fst at < length bufs \<Longrightarrow> \<exists>x at'. copy_fragments bufs at n = Inr (x, at')"
proof (induction bufs at n rule: copy_fragments.induct)
  case (1 bufs at n)
  show ?case
  proof (cases "n = 0")
    case True
    then show ?thesis by (simp add: copy_fragments.simps)
  next
    case False
    define at1 where "at1 = (if length (bufs ! fst at) \<le> snd at then (Suc (fst at), 0) else at)"
    have r: "src_rest bufs at1 = src_rest bufs at" using src_rest_next [of at bufs] "1.prems"(2) by (simp add: at1_def)
    have i: "fst at1 < length bufs" using src_rest_here [of n bufs at1] "1.prems"(1) False r by simp
    define k where "k = min n (length (bufs ! fst at1) - snd at1)"
    have k: "k \<le> length (bufs ! fst at1) - snd at1" by (simp add: k_def)
    have "n - k \<le> length (src_rest bufs (fst at1, snd at1 + k))" using src_rest_step(2) [OF i k] r "1.prems"(1) by simp
    then obtain x at' where "copy_fragments bufs (fst at1, snd at1 + k) (n - k) = Inr (x, at')"
      using "1.IH" [OF False at1_def _ k_def] i by auto
    then show ?thesis using False i by (subst copy_fragments.simps) (simp add: at1_def [symmetric] k_def [symmetric] Let_def)
  qed
qed

lemma copy_src_ok:
  assumes "0 < n" "src_rest bufs at = x @ rest" "length x = n"
  obtains at' where "copy_src bufs n at = Inr (x, at')" "src_rest bufs at' = rest"
proof -
  have i: "fst at < length bufs" using src_rest_here [OF assms(1), of bufs at] assms(2,3) by simp
  have "\<exists>y at'. copy_src bufs n at = Inr (y, at')"
    using i copy_fragments_ok [of n bufs at] assms(2,3) by (simp add: copy_src_def)
  then obtain y at' where y: "copy_src bufs n at = Inr (y, at')" by blast
  then have "y = x" "src_rest bufs at' = rest" using copy_src_rest [OF y] assms(2,3) by simp_all
  then show thesis using that y by blast
qed

text \<open>What is in reach when a chunk is decompressed: everything, or the last buffer and what is before the chunk in its own.\<close>

definition reader_ok :: "bytes \<Rightarrow> lz_history \<times> bytes list \<times> bytes \<Rightarrow> bool" where
  "reader_ok prev st \<longleftrightarrow> (case st of (h, full, cur) \<Rightarrow>
     prev = concat full @ cur \<and> length cur \<in> {0, chunk_size, 65536} \<and> (cur = [] \<longrightarrow> full = []) \<and>
     (full = [] \<or> length (last full) = 65536) \<and>
     lh_end h = (length full, length cur) \<and> lh_prefix h = cur \<and> lh_ext h = (if full = [] then [] else last full))"

lemma in_reach:
  assumes "full = [] \<or> length (last full) = 65536"
  shows "suffix (recent (concat full @ cur)) ((if full = [] then [] else last full) @ cur)"
proof (rule recent_in_reach)
  show "suffix ((if full = [] then [] else last full) @ cur) (concat full @ cur)"
    by (cases full rule: rev_cases) (auto simp: suffix_def)
qed (use assms in auto)

lemma chunk_decompressed:
  assumes st: "reader_ok prev st" and b: "block_of lz prev x z" and x: "x \<noteq> []" "length x \<le> chunk_size" and lz: "lz4_ok lz"
  obtains h full cur where "decompress_chunk lz z (length x) st = Inr (h, full, cur)" "concat full @ cur = prev @ x"
    "length x = chunk_size \<Longrightarrow> reader_ok (prev @ x) (h, full, cur)"
proof -
  obtain h full cur where s: "st = (h, full, cur)" by (cases st)
  note r = st [unfolded reader_ok_def s, simplified]
  show thesis
  proof (cases "length cur = 65536")
    case True
    have "suffix (recent prev) cur" by (rule recent_in_reach) (use r True in \<open>simp_all add: suffix_def\<close>)
    then have z: "lz_decompress lz cur z (length x) = Some x" using b by (simp add: block_of_def)
    have l: "0 < length x" using x by simp
    show thesis
    proof (rule that)
      show "decompress_chunk lz z (length x) st = Inr (\<lparr>lh_ext = cur, lh_prefix = x, lh_end = (Suc (length full), length x)\<rparr>, full @ [cur], x)"
        using s r True l z x lz by (simp add: decompress_chunk_def get_dest_def decompress_continue_def Let_def)
    qed (use r True x in \<open>auto simp: reader_ok_def\<close>)
  next
    case False
    then have c: "length cur \<le> chunk_size" using r by auto
    have "suffix (recent prev) (lh_ext h @ lh_prefix h)" using in_reach [of full cur] r by simp
    then have z: "lz_decompress lz (lh_ext h @ cur) z (length x) = Some x" using b r by (simp add: block_of_def)
    have room: "\<not> 65536 - length cur < length x" "\<not> 65536 < length cur + length x" using c x(2) by auto
    show thesis
    proof (rule that)
      show "decompress_chunk lz z (length x) st = Inr (h\<lparr>lh_prefix := cur @ x, lh_end := (length full, length cur + length x)\<rparr>, full, cur @ x)"
        using s r room z lz by (simp add: decompress_chunk_def get_dest_def decompress_continue_def Let_def)
      show "reader_ok (prev @ x) (h\<lparr>lh_prefix := cur @ x, lh_end := (length full, length cur + length x)\<rparr>, full, cur @ x)"
        if "length x = chunk_size"
        using r that c False x by (auto simp: reader_ok_def)
    qed (use r in simp)
  qed
qed

lemma left_word: "n \<le> m \<Longrightarrow> (word_of_nat m :: u64) - word_of_nat n = word_of_nat (m - n)"
  by (simp add: of_nat_diff)

lemma unat_left: "n < 2 ^ 33 \<Longrightarrow> unat (word_of_nat n :: u64) = n"
  by (simp add: unsigned_of_nat take_bit_eq_mod)

lemma ucast_u32: "(ucast (w :: u32) :: u64) = word_of_nat (unat w)"
  by simp

text \<open>The chunks are read back one by one.\<close>

lemma read_fragments:
  assumes le: "le_ok le" and lz: "lz4_ok lz"
  shows "fragments le lz prev src m \<Longrightarrow> reader_ok prev st \<Longrightarrow> src_rest bufs at = m \<Longrightarrow> length m < 2 ^ 33 \<Longrightarrow>
    \<exists>full cur. fragmented_read le lz bufs at (word_of_nat (length m)) st = Inr (full, cur) \<and> concat full @ cur = prev @ src"
proof (induction arbitrary: at st rule: fragments.induct)
  case (last src prev z)
  let ?h = "last_chunk_flag OR word_of_nat (length src) :: u32"
  have n: "length src < 2 ^ 31" using last(2) by simp
  obtain at1 where h: "copy_src bufs 4 at = Inr (write_le32 le ?h, at1)" "src_rest bufs at1 = z"
    by (rule copy_src_ok [of 4 bufs at "write_le32 le ?h" z]) (use last.prems(2) le in auto)
  have z: "0 < length z" "length z < 2 ^ 33" using last(3) last.prems(3) le by (simp_all add: block_of_def)
  obtain at2 where c: "copy_src bufs (length z) at1 = Inr (z, at2)"
    by (rule copy_src_ok [of "length z" bufs at1 z "[]"]) (use h(2) z(1) in auto)
  have l: "unat ((word_of_nat (length (write_le32 le ?h @ z)) :: u64) - 4) = length z"
    using left_word [of 4 "length (write_le32 le ?h @ z)"] unat_left [OF z(2)] le by simp
  obtain h1 full cur where d: "decompress_chunk lz z (length src) st = Inr (h1, full, cur)" "concat full @ cur = prev @ src"
    by (rule chunk_decompressed [OF last.prems(1) last(3,1,2) lz])
  have "fragmented_read le lz bufs at (word_of_nat (length (write_le32 le ?h @ z))) st = Inr (full, cur)"
    using h(1) l c d(1) last_header [OF n] le by (subst fragmented_read.simps) (simp add: Let_def del: length_append)
  then show ?case using d(2) by blast
next
  case (intermediate src prev z m)
  let ?x = "take chunk_size src" and ?h = "word_of_nat (length z) :: u32"
  have x: "?x \<noteq> []" "length ?x \<le> chunk_size" "length ?x = chunk_size" using intermediate(1) by auto
  have z: "length z < 2 ^ 31" "0 < length z" using intermediate(2) x(3) by (simp_all add: block_of_def)
  have zu: "unat ?h = length z" by (rule le_ok_word_size) (use z in simp)
  obtain at1 where h: "copy_src bufs 4 at = Inr (write_le32 le ?h, at1)" "src_rest bufs at1 = z @ m"
    by (rule copy_src_ok [of 4 bufs at "write_le32 le ?h" "z @ m"]) (use intermediate.prems(2) le in auto)
  obtain at2 where c: "copy_src bufs (length z) at1 = Inr (z, at2)" "src_rest bufs at2 = m"
    by (rule copy_src_ok [of "length z" bufs at1 z m]) (use h(2) z(2) in auto)
  have l: "(word_of_nat (length (write_le32 le ?h @ z @ m)) :: u64) - 4 - ucast ?h = word_of_nat (length m)"
    using left_word [of "4 + length z" "length (write_le32 le ?h @ z @ m)"] le
    unfolding ucast_u32 zu by (simp add: algebra_simps)
  obtain h1 full1 cur1 where d: "decompress_chunk lz z chunk_size st = Inr (h1, full1, cur1)" "reader_ok (prev @ ?x) (h1, full1, cur1)"
    using chunk_decompressed [OF intermediate.prems(1) intermediate(2) x(1,2) lz] x(3) by metis
  have "length m < 2 ^ 33" using intermediate.prems(3) by simp
  then obtain full cur where r: "fragmented_read le lz bufs at2 (word_of_nat (length m)) (h1, full1, cur1) = Inr (full, cur)"
      "concat full @ cur = (prev @ ?x) @ drop chunk_size src"
    using intermediate.IH [OF d(2) c(2)] by blast
  have "fragmented_read le lz bufs at (word_of_nat (length (write_le32 le ?h @ z @ m))) st = Inr (full, cur)"
    using h(1) l c(1) d(1) r(1) chunk_header [OF z(1)] zu le
    by (subst fragmented_read.simps) (simp add: Let_def del: length_append of_nat_add)
  then show ?case using r(2) by auto
qed

lemma reader_ok_reset: "reader_ok [] (lz_history_reset, [], [])"
  by (simp add: reader_ok_def lz_history_reset_def)

lemma fragments_single:
  assumes le: "le_ok le" and f: "fragments le lz [] src m" and flag: "read_le32 le m AND last_chunk_flag \<noteq> 0"
  obtains z where "m = write_le32 le (last_chunk_flag OR word_of_nat (length src)) @ z" "length src \<le> chunk_size" "block_of lz [] src z"
  using f
proof (cases rule: fragments.cases)
  case (last z)
  then show thesis using that by blast
next
  case (intermediate z m')
  have "length z < 2 ^ 31" using intermediate(2,3) by (simp add: block_of_def)
  then have "read_le32 le m AND last_chunk_flag = 0" using chunk_header intermediate(1) le by simp
  then show thesis using flag by simp
qed

lemma fragmented_back:
  assumes le: "le_ok le" and lz: "lz4_ok lz" and f: "fragments le lz [] src m"
    and rb: "concat (rb_bufs rb) = m" "unat (rb_size rb) = length m"
  shows "\<exists>out. fragmented_decompress le lz rb = Inr out \<and> concat (rb_bufs out) = src"
proof -
  have n: "\<not> rb_size rb < 4" using rb(2) less_4 fragments_not_empty [OF le f] by simp
  have l: "length m < 2 ^ 33" using rb(2) u32_less [of "rb_size rb"] by simp
  have size: "(ucast (rb_size rb) :: u64) = word_of_nat (length m)" by (simp only: ucast_u32 rb(2))
  obtain full cur where r: "fragmented_read le lz (rb_bufs rb) (0, 0) (ucast (rb_size rb)) (lz_history_reset, [], []) = Inr (full, cur)"
      "concat full @ cur = src"
    using read_fragments [OF le lz f reader_ok_reset _ l, of "rb_bufs rb" "(0, 0)"] rb(1) unfolding size by (auto simp: src_rest_buffer)
  show ?thesis
  proof (cases "\<exists>b. rb_bufs rb = [b] \<and> read_le32 le b AND last_chunk_flag \<noteq> 0")
    case True
    then have b: "rb_bufs rb = [m]" "read_le32 le m AND last_chunk_flag \<noteq> 0" using rb(1) by auto
    obtain z where z: "m = write_le32 le (last_chunk_flag OR word_of_nat (length src)) @ z" "length src \<le> chunk_size" "block_of lz [] src z"
      by (rule fragments_single [OF le f b(2)])
    have u: "unat (read_le32 le m AND NOT last_chunk_flag) = length src" using last_header(2) [of "length src"] z le by simp
    have "lz_decompress lz [] z (length src) = Some src" using z(3) by (simp add: block_of_def recent_def)
    then have "fragmented_decompress le lz rb = Inr \<lparr>rb_size = word_of_nat (length src), rb_bufs = [src]\<rparr>"
      using n b u rb(2) z(1) le lz by (simp add: fragmented_decompress_def decompress_continue_def lz_history_reset_def Let_def)
    then show ?thesis by simp
  next
    case False
    have "fragmented_decompress le lz rb = Inr \<lparr>rb_size = word_of_nat (length (concat (full @ [cur]))), rb_bufs = full @ [cur]\<rparr>"
      using n r(1) False rb by (auto simp: fragmented_decompress_def Let_def split: list.split)
    then show ?thesis using r(2) by simp
  qed
qed

text \<open>The message a compressor makes, for a message of that many bytes at most.\<close>

lemma fragmented_made:
  assumes le: "le_ok le" and lz: "lz4_ok lz" and h: "h \<le> 28" and sb: "holds 0 sb src" and s: "src \<noteq> []" "length src \<le> 0x70000000"
  shows "\<exists>b g m. fragmented_compress le lz h sb = Inr b \<and> length g = h \<and> fragments le lz [] src m \<and> holds h b (g @ m)"
proof -
  obtain b bs where b: "sb_bufs sb = b # bs" "b @ concat bs = src" "unat (sb_size sb) = length src"
    using sb by (cases "sb_bufs sb") (auto simp: holds_def)
  let ?n = "length src" and ?g = "lz_garbage lz h"
  have size: "unat (word_of_nat (length (?g @ m)) :: u32) = length (?g @ m)" if "fragments le lz [] src m" for m
    using fragments_length [OF le that] s(2) h lz by (intro le_ok_word_size) simp
  have at: "src_rest (sb_bufs sb) (0, 0) = src" using b(1,2) by (simp add: src_rest_buffer)
  show ?thesis
  proof (cases "compress_bound ?n + h + 4 \<le> chunk_size \<and> ?n \<le> chunk_size \<and> length b = ?n")
    case True
    have "concat bs = []" using arg_cong [OF b(2), of length] True by (simp del: concat_eq_Nil_conv)
    then have bb: "b = src" using b(2) by (simp del: concat_eq_Nil_conv)
    obtain z stream where c: "compress_continue lz (sb_bufs sb) [] (Source 0, 0) ?n (compress_bound ?n) lz_stream_reset = (z, stream)" by fastforce
    have "block_of lz (concat (ls_prev lz_stream_reset)) (read_at (sb_bufs sb) [] (Source 0, 0) ?n) z"
    proof (rule compress_continue_ok(1) [OF lz stream_reset_ok _ _ _ _ c, of 0])
      show "snd (Source 0, 0) + ?n \<le> length (store_bytes (sb_bufs sb) [] (fst (Source 0, 0)))" using b(1) bb by simp
    qed (use True s(1) in simp_all)
    then have z: "block_of lz [] src z" using b(1) bb by (simp add: lz_stream_reset_def)
    let ?m = "write_le32 le (last_chunk_flag OR word_of_nat ?n) @ z"
    have f: "fragments le lz [] src ?m" by (rule fragments.last) (use s(1) True z in simp_all)
    have "word_of_nat (unat (sb_size sb)) = sb_size sb" by simp
    then have "sb_size sb = word_of_nat ?n" using b(3) by simp
    then have "fragmented_compress le lz h sb = Inr \<lparr>sb_size = word_of_nat (length (?g @ ?m)), sb_bufs = [?g @ ?m]\<rparr>"
      using b True c by (simp add: fragmented_compress_def Let_def)
    moreover have "holds h \<lparr>sb_size = word_of_nat (length (?g @ ?m)), sb_bufs = [?g @ ?m]\<rparr> (?g @ ?m)"
      using size [OF f] lz by (simp only: holds_def snd_buf.simps) simp
    ultimately show ?thesis using f lz4_garbage [OF lz] by blast
  next
    case False
    let ?s = "\<lparr>ss_at = (0, 0), ss_left = ?n, ss_ring = lz_garbage lz lin_buf_size, ss_lin = 0\<rparr>"
    let ?d = "([], ?g, max h snd_chunk_size) :: dest"
    have ok: "src_ok (sb_bufs sb) ?s" using at lz by (simp add: src_ok_def)
    have start: "concat (ls_prev lz_stream_reset) = []" "dest_bytes ?d = ?g" "h \<le> dest_front ?d"
      using lz by (simp_all add: lz_stream_reset_def dest_bytes_def dest_front_def)
    obtain d' m where d: "fragment_chunks le lz (sb_bufs sb) ?s lz_stream_reset ?d = Inr d'" "dest_bytes d' = ?g @ m"
        "fragments le lz [] src m" "h \<le> dest_front d'"
      using fragment_chunks_made [OF lz ok stream_reset_ok, of le ?d h] at s(1) start by auto
    obtain full cur cap where f: "d' = (full, cur, cap)" by (cases d')
    let ?b = "\<lparr>sb_size = word_of_nat (length (concat (full @ [cur]))), sb_bufs = full @ [cur]\<rparr>"
    have "fragmented_compress le lz h sb = Inr ?b"
      using b(1,3) False d(1) f by (auto simp: fragmented_compress_def Let_def)
    moreover have "concat (full @ [cur]) = ?g @ m" using d(2) f by (simp add: dest_bytes_def)
    then have "holds h ?b (?g @ m)" using size [OF d(3)] d(4) f by (simp only: holds_def snd_buf.simps) (simp add: dest_front_def)
    ultimately show ?thesis using d(3) lz4_garbage [OF lz] by blast
  qed
qed

lemma fragmented_contract:
  assumes le: "le_ok le" and lz: "lz4_ok lz"
  shows "compressor_ok 0x70000000 (lz4_fragmented_compressor le lz)"
  unfolding compressor_ok_def
proof (intro allI impI)
  fix h :: nat and sb and bs :: bytes
  assume a: "h \<le> 28 \<and> holds 0 sb bs \<and> bs \<noteq> [] \<and> length bs \<le> 0x70000000"
  then obtain b g m where b: "fragmented_compress le lz h sb = Inr b" "length g = h" "fragments le lz [] bs m" "holds h b (g @ m)"
    using fragmented_made [OF le lz] by blast
  have "drop h (g @ m) = m" using b(2) by simp
  then have "\<forall>rb. concat (rb_bufs rb) = drop h (g @ m) \<and> unat (rb_size rb) = length (drop h (g @ m)) \<longrightarrow>
      (\<exists>out. cp_decompress (lz4_fragmented_compressor le lz) rb = Inr out \<and> concat (rb_bufs out) = bs)"
    using fragmented_back [OF le lz b(3)] by (simp add: lz4_fragmented_compressor_def)
  moreover have "cp_compress (lz4_fragmented_compressor le lz) h sb = Inr b" using b(1) by (simp add: lz4_fragmented_compressor_def)
  ultimately show "\<exists>b z. cp_compress (lz4_fragmented_compressor le lz) h sb = Inr b \<and> holds h b z \<and>
      (\<forall>rb. concat (rb_bufs rb) = drop h z \<and> unat (rb_size rb) = length (drop h z) \<longrightarrow>
        (\<exists>out. cp_decompress (lz4_fragmented_compressor le lz) rb = Inr out \<and> concat (rb_bufs out) = bs))"
    using b(4) by blast
qed

subsection \<open>The compressors of a connection\<close>

text \<open>C5. 
  LZ4 and LZ4 in fragments are compressors a connection can use: for messages of up to two, or one and
  three quarters, gigabytes, in whatever buffers they lie before and come in, the message comes back, and there is room in front
  for the header. That the chunks of a message are where LZ4 wants them is part of it: when a chunk is compressed, the memory
  of the dictionary, be it in a buffer of the message or in the ring chunks are copied together in, still
  holds what was compressed last, and when it is decompressed, the last 64 kilobytes of the message are in the stretch
  of memory that is written and the one before it.
\<close>
theorem lz4_compressors_are_compressors:
  assumes "le_ok le" and "lz4_ok lz"
  shows "compressor_ok 0x7E000000 (lz4_compressor le lz) \<and> compressor_ok 0x70000000 (lz4_fragmented_compressor le lz)"
  using lz4_contract [OF assms] fragmented_contract [OF assms] by blast

text \<open>A library that does little: a block says whether the first byte is the last one of the dictionary, and leaves it out then.\<close>

definition lz4_ref :: lz4_ops where
  "lz4_ref = \<lparr>lz_compress = (\<lambda>prev d x cap.
       if cap \<le> length x then None else if d \<noteq> [] \<and> hd x = last d then Some (1 # tl x) else Some (0 # x)),
     lz_decompress = (\<lambda>h z n. case z of
         [] \<Rightarrow> None
       | b # bs \<Rightarrow> if b = 1 then (if h = [] \<or> n \<le> length bs then None else Some (last h # bs))
                   else if n < length bs then None else Some bs),
     lz_garbage = (\<lambda>n. replicate n 0)\<rparr>"

lemma lz4_ok_ref: "lz4_ok lz4_ref"
  unfolding lz4_ok_def
proof (intro conjI allI impI)
  fix prev and d x :: bytes and cap
  assume a: "suffix d (concat prev) \<and> x \<noteq> [] \<and> length x \<le> 0x7E000000 \<and> compress_bound (length x) \<le> cap"
  then obtain b bs where x: "x = b # bs" by (cases x) auto
  have cap: "length x + 16 \<le> cap" "length x + 16 \<le> compress_bound (length x)" using a by (auto simp: compress_bound_def)
  show "\<exists>z. lz_compress lz4_ref prev d x cap = Some z \<and> z \<noteq> [] \<and> length z \<le> compress_bound (length x) \<and>
      (\<forall>h n. suffix d h \<and> length x \<le> n \<longrightarrow> lz_decompress lz4_ref h z n = Some x)"
  proof (cases "d \<noteq> [] \<and> b = last d")
    case True
    then show ?thesis using cap x by (intro exI [of _ "1 # bs"]) (auto simp: lz4_ref_def suffix_def)
  next
    case False
    then show ?thesis using cap x by (intro exI [of _ "0 # x"]) (auto simp: lz4_ref_def)
  qed
qed (auto simp: lz4_ref_def split: list.splits if_splits)

lemma lz4_compressors_are_compressors_witness:
  "compressor_ok 0x7E000000 (lz4_compressor le_ref lz4_ref) \<and> compressor_ok 0x70000000 (lz4_fragmented_compressor le_ref lz4_ref)"
  by (rule lz4_compressors_are_compressors [OF le_ok_ref lz4_ok_ref])

end
