(* ===== verification/RpcNegotiate.thy ===== *)
theory RpcNegotiate
  imports RpcWire
begin

text \<open>
  How a client and a server of \<open>rpc/rpc.cc\<close> agree on what a connection does: the feature map and its
  frame, \<open>multi_algo_compressor_factory\<close>, \<open>client::negotiate\<close> and \<open>server::connection::negotiate\<close>.

  A compressor is the parameter of \<open>RpcWire\<close>. The servers of the other shards are the table \<open>world\<close>:
  of each shard that has a server of the streaming domain, the connections with their streams.
\<close>

subsection \<open>The feature map\<close>

text \<open>An ordered map from the feature to its data.\<close>

type_synonym features = "(u32 \<times> bytes) list"

abbreviation (input) f_compress :: u32 where "f_compress \<equiv> 0"
abbreviation (input) f_timeout :: u32 where "f_timeout \<equiv> 1"
abbreviation (input) f_connection_id :: u32 where "f_connection_id \<equiv> 2"
abbreviation (input) f_stream_parent :: u32 where "f_stream_parent \<equiv> 3"
abbreviation (input) f_isolation :: u32 where "f_isolation \<equiv> 4"

fun feature_set :: "u32 \<Rightarrow> bytes \<Rightarrow> features \<Rightarrow> features" where
  "feature_set k v [] = [(k, v)]"
| "feature_set k v ((k', v') # m) =
     (if k < k' then (k, v) # (k', v') # m else if k = k' then (k, v) # m else (k', v') # feature_set k v m)"

text \<open>\<open>emplace\<close> leaves an entry that is there.\<close>

fun feature_emplace :: "u32 \<Rightarrow> bytes \<Rightarrow> features \<Rightarrow> features" where
  "feature_emplace k v [] = [(k, v)]"
| "feature_emplace k v ((k', v') # m) =
     (if k < k' then (k, v) # (k', v') # m else if k = k' then (k', v') # m else (k', v') # feature_emplace k v m)"

subsection \<open>The negotiation frame\<close>

definition rpc_magic :: bytes where
  "rpc_magic = [0x53, 0x53, 0x54, 0x41, 0x52, 0x52, 0x50, 0x43]"

definition feature_record :: "le_ops \<Rightarrow> u32 \<times> bytes \<Rightarrow> bytes" where
  "feature_record le e = write_le32 le (fst e) @ write_le32 le (word_of_nat (length (snd e))) @ snd e"

text \<open>The length is summed up in 32 bits; the records are written behind it whatever it came to.\<close>

definition extra_len :: "features \<Rightarrow> u32" where
  "extra_len m = foldl (\<lambda>a e. a + word_of_nat (8 + length (snd e))) 0 m"

definition send_negotiation_frame :: "le_ops \<Rightarrow> features \<Rightarrow> bytes result" where
  "send_negotiation_frame le m =
     (let body = concat (map (feature_record le) m)
      in if length body \<le> unat (extra_len m) then Inr (rpc_magic @ write_le32 le (extra_len m) @ body) else Inl OutOfRange)"

function parse_features :: "le_ops \<Rightarrow> bytes \<Rightarrow> features \<Rightarrow> rpc_error + features" where
  "parse_features le bs m =
     (if bs = [] then Inr m
      else if length bs < 8 then Inl ClosedError
      else (let k = read_le32 le bs; n = unat (read_le32 le (drop 4 bs)); p = drop 8 bs
            in if n > length p then Inl ClosedError
               else parse_features le (drop n p) (feature_emplace k (take n p) m)))"
  by pat_completeness auto
termination by (relation "measure (\<lambda>(le, bs, m). length bs)") auto

declare parse_features.simps [simp del]

definition receive_negotiation_frame :: "le_ops \<Rightarrow> bytes \<Rightarrow> (rpc_error + features) \<times> bytes" where
  "receive_negotiation_frame le s =
     (let neg = take 12 s; s1 = drop 12 s
      in if length neg \<noteq> 12 then (Inl ClosedError, s1)
         else if take 8 neg \<noteq> rpc_magic then (Inl ClosedError, s1)
         else (let len = unat (read_le32 le (drop 8 neg)); extra = take len s1; s2 = drop len s1
               in if length extra \<noteq> len then (Inl ClosedError, s2) else (parse_features le extra [], s2)))"

subsection \<open>Connection ids\<close>

definition serialize_connection_id :: "le_ops \<Rightarrow> u64 \<Rightarrow> bytes" where
  "serialize_connection_id le cid = write_le64 le cid"

text \<open>Eight bytes of the string and the zero behind it, however long it is.\<close>

definition deserialize_connection_id :: "le_ops \<Rightarrow> bytes \<Rightarrow> u64 result" where
  "deserialize_connection_id le s = (if length s + 1 < 8 then Inl OutOfRange else Inr (read_le64 le (s @ [0])))"

definition make_connection_id :: "u64 \<Rightarrow> u16 \<Rightarrow> u64" where
  "make_connection_id i shard = push_bit 16 i OR ucast shard"

definition invalid_connection_id :: u64 where
  "invalid_connection_id = make_connection_id 0 0xffff"

definition connection_shard :: "u64 \<Rightarrow> nat" where
  "connection_shard cid = unat (cid AND 0xffff)"

definition connection_id_valid :: "u64 \<Rightarrow> bool" where
  "connection_id_valid cid \<longleftrightarrow> connection_shard cid \<noteq> 0xffff"

subsection \<open>Compressor factories\<close>

record factory =
  fy_supported :: bytes
  fy_negotiate :: "bytes \<Rightarrow> bool \<Rightarrow> compressor option"

text \<open>The factory of one algorithm: \<open>lz4_compressor\<close>, \<open>lz4_fragmented_compressor\<close>.\<close>

definition single_factory :: "compressor \<Rightarrow> factory" where
  "single_factory c = \<lparr>fy_supported = cp_name c, fy_negotiate = (\<lambda>feature is_server. if feature = cp_name c then Some c else None)\<rparr>"

fun split_comma :: "bytes \<Rightarrow> bytes list" where
  "split_comma [] = [[]]"
| "split_comma (c # s) = (if c = 44 then [] # split_comma s else (case split_comma s of w # ws \<Rightarrow> (c # w) # ws | [] \<Rightarrow> [[c]]))"

fun join_comma :: "bytes list \<Rightarrow> bytes" where
  "join_comma [] = []"
| "join_comma [w] = w"
| "join_comma (w # ws) = w @ 44 # join_comma ws"

fun first_some :: "('a \<Rightarrow> 'b option) \<Rightarrow> 'a list \<Rightarrow> 'b option" where
  "first_some f [] = None"
| "first_some f (x # xs) = (case f x of Some y \<Rightarrow> Some y | None \<Rightarrow> first_some f xs)"

definition multi_factory :: "factory list \<Rightarrow> factory" where
  "multi_factory fs = \<lparr>fy_supported = join_comma (map fy_supported fs),
     fy_negotiate = (\<lambda>feature is_server. let names = split_comma feature in
        if is_server then first_some (\<lambda>n. first_some (\<lambda>f. fy_negotiate f n is_server) fs) names
        else first_some (\<lambda>f. first_some (\<lambda>n. fy_negotiate f n is_server) names) fs)\<rparr>"

subsection \<open>The client's side\<close>

record client_options =
  co_factory :: "factory option"
  co_send_timeout_data :: bool
  co_stream_parent :: u64
  co_isolation_cookie :: bytes

definition client_features :: "le_ops \<Rightarrow> client_options \<Rightarrow> features" where
  "client_features le ops =
     (let m0 = (case co_factory ops of Some f \<Rightarrow> feature_set f_compress (fy_supported f) [] | None \<Rightarrow> []);
          m1 = (if co_send_timeout_data ops then feature_set f_timeout [] m0 else m0);
          m2 = (if connection_id_valid (co_stream_parent ops) then feature_set f_stream_parent (serialize_connection_id le (co_stream_parent ops)) m1 else m1)
      in if co_isolation_cookie ops \<noteq> [] then feature_set f_isolation (co_isolation_cookie ops) m2 else m2)"

record conn =
  cn_compressor :: "compressor option"
  cn_timeout :: bool
  cn_id :: u64

definition client_feature :: "le_ops \<Rightarrow> client_options \<Rightarrow> u32 \<times> bytes \<Rightarrow> conn \<Rightarrow> rpc_error + conn" where
  "client_feature le ops e c =
     (if fst e = f_compress then
        (let c1 = (case co_factory ops of Some f \<Rightarrow> c\<lparr>cn_compressor := fy_negotiate f (snd e) False\<rparr> | None \<Rightarrow> c)
         in if cn_compressor c1 = None then Inl RuntimeError else Inr c1)
      else if fst e = f_timeout then Inr (c\<lparr>cn_timeout := True\<rparr>)
      else if fst e = f_connection_id then
        (case deserialize_connection_id le (snd e) of Inl x \<Rightarrow> Inl (Fault x) | Inr i \<Rightarrow> Inr (c\<lparr>cn_id := i\<rparr>))
      else Inr c)"

fun client_negotiate :: "le_ops \<Rightarrow> client_options \<Rightarrow> features \<Rightarrow> conn \<Rightarrow> rpc_error + conn" where
  "client_negotiate le ops [] c = Inr c"
| "client_negotiate le ops (e # m) c = (case client_feature le ops e c of Inl x \<Rightarrow> Inl x | Inr c1 \<Rightarrow> client_negotiate le ops m c1)"

subsection \<open>The server's side\<close>

record 'i server_options =
  so_factory :: "factory option"
  so_streaming_domain :: bool
  so_isolate :: "bytes \<Rightarrow> 'i option"

type_synonym world = "nat \<Rightarrow> (u64 \<Rightarrow> u64 list option) option"

record 'i negotiation =
  ng_conn :: conn
  ng_ret :: features
  ng_fail :: "rpc_error option"
  ng_parent :: "u64 option"
  ng_isolation :: "'i option"
  ng_world :: world

definition drop_connection :: "nat \<Rightarrow> u64 \<Rightarrow> world \<Rightarrow> world" where
  "drop_connection shard cid w = w(shard := map_option (\<lambda>cs. cs(cid := None)) (w shard))"

definition register_stream :: "u64 \<Rightarrow> u64 \<Rightarrow> world \<Rightarrow> rpc_error + world" where
  "register_stream parent cid w =
     (case w (connection_shard parent) of
        None \<Rightarrow> Inl LogicError
      | Some cs \<Rightarrow> (case cs parent of
          None \<Rightarrow> Inl LogicError
        | Some streams \<Rightarrow> Inr (w(connection_shard parent := Some (cs(parent := Some (if cid \<in> set streams then streams else streams @ [cid])))))))"

text \<open>One requested feature. The connection runs on \<open>shard\<close>. Isolating a connection may throw.\<close>

definition server_feature :: "le_ops \<Rightarrow> 'i server_options \<Rightarrow> nat \<Rightarrow> u32 \<times> bytes \<Rightarrow> 'i negotiation \<Rightarrow> rpc_error + 'i negotiation" where
  "server_feature le ops shard e n =
     (if fst e = f_compress then
        Inr (case so_factory ops of
               None \<Rightarrow> n
             | Some f \<Rightarrow> (let c = fy_negotiate f (snd e) True; n1 = n\<lparr>ng_conn := (ng_conn n)\<lparr>cn_compressor := c\<rparr>\<rparr>
                         in (case c of None \<Rightarrow> n1 | Some z \<Rightarrow> n1\<lparr>ng_ret := feature_set f_compress (cp_name z) (ng_ret n)\<rparr>)))
      else if fst e = f_timeout then
        Inr (n\<lparr>ng_conn := (ng_conn n)\<lparr>cn_timeout := True\<rparr>, ng_ret := feature_set f_timeout [] (ng_ret n)\<rparr>)
      else if fst e = f_stream_parent then
        (if \<not> so_streaming_domain ops then Inr (n\<lparr>ng_fail := Some RuntimeError\<rparr>)
         else (case deserialize_connection_id le (snd e) of Inl x \<Rightarrow> Inl (Fault x) | Inr p \<Rightarrow>
           (let cid = cn_id (ng_conn n); w = drop_connection shard cid (ng_world n); n1 = n\<lparr>ng_parent := Some p, ng_world := w\<rparr>
            in Inr (case register_stream p cid w of Inl x \<Rightarrow> n1\<lparr>ng_fail := Some x\<rparr> | Inr w2 \<Rightarrow> n1\<lparr>ng_fail := None, ng_world := w2\<rparr>))))
      else if fst e = f_isolation then
        (case so_isolate ops (snd e) of
           None \<Rightarrow> Inl RuntimeError
         | Some i \<Rightarrow> Inr (n\<lparr>ng_isolation := Some i, ng_ret := feature_emplace f_isolation (snd e) (ng_ret n)\<rparr>))
      else Inr n)"

fun server_features :: "le_ops \<Rightarrow> 'i server_options \<Rightarrow> nat \<Rightarrow> features \<Rightarrow> 'i negotiation \<Rightarrow> rpc_error + 'i negotiation" where
  "server_features le ops shard [] n = Inr n"
| "server_features le ops shard (e # m) n =
     (case server_feature le ops shard e n of Inl x \<Rightarrow> Inl x | Inr n1 \<Rightarrow> server_features le ops shard m n1)"

text \<open>What is sent back, unless the connection is given up.\<close>

definition server_negotiate :: "le_ops \<Rightarrow> 'i server_options \<Rightarrow> nat \<Rightarrow> features \<Rightarrow> conn \<Rightarrow> world \<Rightarrow> rpc_error + ('i negotiation \<times> features)" where
  "server_negotiate le ops shard m c w =
     (case server_features le ops shard m \<lparr>ng_conn = c, ng_ret = [], ng_fail = None, ng_parent = None, ng_isolation = None, ng_world = w\<rparr> of
        Inl x \<Rightarrow> Inl x
      | Inr n \<Rightarrow>
          (let ret = (if so_streaming_domain ops then feature_set f_connection_id (serialize_connection_id le (cn_id (ng_conn n))) (ng_ret n) else ng_ret n)
           in (case ng_fail n of Some x \<Rightarrow> Inl x | None \<Rightarrow> Inr (n, ret))))"

subsection \<open>Negotiating\<close>

definition client_negotiate_protocol :: "le_ops \<Rightarrow> client_options \<Rightarrow> conn \<Rightarrow> bytes \<Rightarrow> (rpc_error + conn) \<times> bytes" where
  "client_negotiate_protocol le ops c s =
     (case receive_negotiation_frame le s of
        (Inl x, s1) \<Rightarrow> (Inl x, s1)
      | (Inr m, s1) \<Rightarrow> (client_negotiate le ops m c, s1))"

text \<open>The frame that is sent back is part of the result.\<close>

definition server_negotiate_protocol :: "le_ops \<Rightarrow> 'i server_options \<Rightarrow> nat \<Rightarrow> conn \<Rightarrow> world \<Rightarrow> bytes \<Rightarrow> (rpc_error + 'i negotiation \<times> bytes) \<times> bytes" where
  "server_negotiate_protocol le ops shard c w s =
     (case receive_negotiation_frame le s of
        (Inl x, s1) \<Rightarrow> (Inl x, s1)
      | (Inr m, s1) \<Rightarrow> (case server_negotiate le ops shard m c w of
            Inl x \<Rightarrow> (Inl x, s1)
          | Inr (n, ret) \<Rightarrow> (case send_negotiation_frame le ret of Inl x \<Rightarrow> (Inl (Fault x), s1) | Inr f \<Rightarrow> (Inr (n, f), s1))))"

end
