(* ===== verification/RpcNegotiateProps.thy ===== *)
theory RpcNegotiateProps
  imports RpcNegotiate RpcWireProps
begin

text \<open>
  Negotiation: the feature frame is read as it was sent, and both sides of a connection come to the
  same compressor and the same timeouts, so that what the client then sends is what the server reads.
\<close>

subsection \<open>The frame\<close>

definition feature_size :: "features \<Rightarrow> nat" where
  "feature_size m = sum_list (map (\<lambda>e. 8 + length (snd e)) m)"

definition ordered_features :: "features \<Rightarrow> bool" where
  "ordered_features m \<longleftrightarrow> sorted_wrt (\<lambda>a b. fst a < fst b) m"

lemma extra_len_sum: "foldl (\<lambda>a e. a + word_of_nat (8 + length (snd e))) a m = a + word_of_nat (feature_size m)"
  by (induction m arbitrary: a) (simp_all add: feature_size_def algebra_simps)

lemma extra_len_size: "feature_size m < 2 ^ 32 \<Longrightarrow> unat (extra_len m) = feature_size m"
  by (simp only: extra_len_def extra_len_sum) (simp add: unsigned_of_nat take_bit_eq_mod)

lemma feature_record_length [simp]: "le_ok le \<Longrightarrow> length (feature_record le e) = 8 + length (snd e)"
  by (simp add: feature_record_def)

lemma body_length: "le_ok le \<Longrightarrow> length (concat (map (feature_record le) m)) = feature_size m"
  by (induction m) (simp_all add: feature_size_def)

lemma emplace_last: "\<forall>e \<in> set acc. fst e < k \<Longrightarrow> feature_emplace k v acc = acc @ [(k, v)]"
  by (induction acc) (auto simp: less_imp_neq dest: less_asym)

lemma parse_step:
  assumes "le_ok le" "length v < 2 ^ 32"
  shows "parse_features le (feature_record le (k, v) @ bs) m = parse_features le bs (feature_emplace k v m)"
proof -
  have n: "unat (word_of_nat (length v) :: u32) = length v" using assms(2) by (rule le_ok_word_size)
  show ?thesis using assms n
    by (subst parse_features.simps) (simp add: feature_record_def Let_def)
qed

lemma parse_records:
  assumes le: "le_ok le"
  shows "ordered_features (acc @ m) \<Longrightarrow> feature_size m < 2 ^ 32 \<Longrightarrow>
    parse_features le (concat (map (feature_record le) m)) acc = Inr (acc @ m)"
proof (induction m arbitrary: acc)
  case Nil
  show ?case by (simp add: parse_features.simps)
next
  case (Cons e m)
  obtain k v where e: "e = (k, v)" by (cases e)
  have v: "length v < 2 ^ 32" "feature_size m < 2 ^ 32" using Cons.prems(2) by (simp_all add: feature_size_def e)
  have "\<forall>x \<in> set acc. fst x < k" using Cons.prems(1) by (auto simp: ordered_features_def sorted_wrt_append e)
  then have "feature_emplace k v acc = acc @ [e]" using emplace_last e by blast
  moreover have "ordered_features ((acc @ [e]) @ m)" using Cons.prems(1) by simp
  ultimately show ?case using Cons.IH [of "acc @ [e]"] v parse_step [OF le v(1), of k "concat (map (feature_record le) m)" acc]
    by (simp add: e)
qed

lemma receive_short: "length s < 12 \<Longrightarrow> fst (receive_negotiation_frame le s) = Inl ClosedError"
  by (simp add: receive_negotiation_frame_def)

lemma receive_cut:
  assumes "le_ok le" "length b < unat n"
  shows "fst (receive_negotiation_frame le (rpc_magic @ write_le32 le n @ b)) = Inl ClosedError"
proof -
  have "length rpc_magic = 8" by (simp add: rpc_magic_def)
  then show ?thesis using assms by (simp add: receive_negotiation_frame_def Let_def)
qed

lemma features_back:
  assumes "le_ok le" and "ordered_features m" and "feature_size m < 2 ^ 32"
  shows "\<exists>f. send_negotiation_frame le m = Inr f \<and> (\<forall>rest. receive_negotiation_frame le (f @ rest) = (Inr m, rest)) \<and>
    (\<forall>k < length f. fst (receive_negotiation_frame le (take k f)) = Inl ClosedError)"
proof -
  let ?body = "concat (map (feature_record le) m)"
  let ?f = "rpc_magic @ write_le32 le (extra_len m) @ ?body"
  have l: "length ?body = unat (extra_len m)" using body_length [OF assms(1), of m] extra_len_size [OF assms(3)] by simp
  have mg: "length rpc_magic = 8" by (simp add: rpc_magic_def)
  have "send_negotiation_frame le m = Inr ?f" using l by (simp add: send_negotiation_frame_def)
  moreover have "receive_negotiation_frame le (?f @ rest) = (Inr m, rest)" for rest
    using parse_records [OF assms(1), of "[]" m] assms l mg by (simp add: receive_negotiation_frame_def Let_def)
  moreover have "fst (receive_negotiation_frame le (take k ?f)) = Inl ClosedError" if "k < length ?f" for k
  proof (cases "k < 12")
    case True
    then have "length (take k ?f) < 12" by simp
    then show ?thesis by (rule receive_short)
  next
    case False
    then have t: "take k ?f = rpc_magic @ write_le32 le (extra_len m) @ take (k - 12) ?body" using assms(1) mg by simp
    have "length (take (k - 12) ?body) < unat (extra_len m)" using that l assms(1) mg False by simp
    then show ?thesis unfolding t by (rule receive_cut [OF assms(1)])
  qed
  ultimately show ?thesis by blast
qed

text \<open>
  The features of an ordered map are read from their frame as they were written, and what follows the
  frame is left; a frame that is cut off anywhere closes the connection.
\<close>
theorem features_read_as_sent:
  assumes "le_ok le" and "ordered_features m" and "feature_size m < 2 ^ 32"
  shows "\<exists>f. send_negotiation_frame le m = Inr f \<and> (\<forall>rest. receive_negotiation_frame le (f @ rest) = (Inr m, rest)) \<and>
    (\<forall>k < length f. fst (receive_negotiation_frame le (take k f)) = Inl ClosedError)"
  using assms by (rule features_back)

lemma features_read_as_sent_witness:
  "\<exists>f. send_negotiation_frame le_ref [(0, [76, 90]), (1, [])] = Inr f \<and> receive_negotiation_frame le_ref (f @ [7]) = (Inr [(0, [76, 90]), (1, [])], [7])"
  using features_read_as_sent [OF le_ok_ref, of "[(0, [76, 90]), (1, [])]"]
  by (auto simp: ordered_features_def feature_size_def)

subsection \<open>Compressors\<close>

text \<open>The names algorithms go by: not empty and without a comma.\<close>

definition plain_name :: "bytes \<Rightarrow> bool" where
  "plain_name w \<longleftrightarrow> w \<noteq> [] \<and> 44 \<notin> set w"

lemma split_comma_plain: "44 \<notin> set w \<Longrightarrow> split_comma w = [w]"
  by (induction w) auto

lemma split_comma_append: "44 \<notin> set w \<Longrightarrow> split_comma (w @ 44 # s) = w # split_comma s"
  by (induction w) auto

lemma split_join_comma: "ws \<noteq> [] \<Longrightarrow> \<forall>w \<in> set ws. 44 \<notin> set w \<Longrightarrow> split_comma (join_comma ws) = ws"
  by (induction ws rule: join_comma.induct) (simp_all add: split_comma_plain split_comma_append)

lemma first_some_None: "first_some f xs = None \<longleftrightarrow> (\<forall>x \<in> set xs. f x = None)"
  by (induction xs) (auto split: option.splits)

lemma first_some_find: "first_some (\<lambda>x. if P x then Some (g x) else None) xs = map_option g (find P xs)"
  by (induction xs) auto

lemma first_some_map: "first_some f (map g xs) = first_some (\<lambda>x. f (g x)) xs"
  by (induction xs) (auto split: option.splits)

definition algorithms :: "compressor list \<Rightarrow> factory" where
  "algorithms cs = multi_factory (map single_factory cs)"

lemma supported_algorithms: "fy_supported (algorithms cs) = join_comma (map cp_name cs)"
  by (simp add: algorithms_def multi_factory_def single_factory_def comp_def)

lemma server_choice:
  "fy_negotiate (algorithms ss) f True = first_some (\<lambda>n. find (\<lambda>c. cp_name c = n) ss) (split_comma f)"
proof -
  have "first_some (\<lambda>c. if n = cp_name c then Some c else None) ss = find (\<lambda>c. cp_name c = n) ss" for n
    by (induction ss) auto
  then show ?thesis by (simp add: algorithms_def multi_factory_def single_factory_def first_some_map)
qed

lemma client_choice:
  assumes "44 \<notin> set n"
  shows "fy_negotiate (algorithms cs) n False = find (\<lambda>c. cp_name c = n) cs"
proof -
  have "first_some (\<lambda>c. first_some (\<lambda>m. if m = cp_name c then Some c else None) [n]) cs = find (\<lambda>c. cp_name c = n) cs"
    by (induction cs) auto
  then show ?thesis using split_comma_plain [OF assms] by (simp add: algorithms_def multi_factory_def single_factory_def first_some_map)
qed

text \<open>The algorithm both sides have that the client would rather use: the first of its list that the server has.\<close>

definition common_algorithm :: "compressor list \<Rightarrow> compressor list \<Rightarrow> bytes option" where
  "common_algorithm cs ss = find (\<lambda>n. n \<in> cp_name ` set ss) (map cp_name cs)"

lemma find_name: "find (\<lambda>c. cp_name c = n) cs = Some c \<Longrightarrow> cp_name c = n \<and> c \<in> set cs"
  by (auto simp: find_Some_iff) 

lemma find_name_some: "n \<in> cp_name ` set cs \<Longrightarrow> \<exists>c. find (\<lambda>c. cp_name c = n) cs = Some c"
  by (cases "find (\<lambda>c. cp_name c = n) cs") (auto simp: find_None_iff)

lemma first_name: "map_option cp_name (first_some (\<lambda>n. find (\<lambda>c. cp_name c = n) ss) ns) = find (\<lambda>n. n \<in> cp_name ` set ss) ns"
proof (induction ns)
  case (Cons n ns)
  show ?case
  proof (cases "n \<in> cp_name ` set ss")
    case True
    then obtain c where "find (\<lambda>c. cp_name c = n) ss = Some c" using find_name_some by blast
    then show ?thesis using True find_name by fastforce
  next
    case False
    then have "find (\<lambda>c. cp_name c = n) ss = None" by (auto simp: find_None_iff)
    then show ?thesis using False Cons.IH by simp
  qed
qed simp

lemma server_algorithm:
  assumes "\<forall>c \<in> set cs. plain_name (cp_name c)" and "\<forall>c \<in> set ss. plain_name (cp_name c)"
  shows "map_option cp_name (fy_negotiate (algorithms ss) (fy_supported (algorithms cs)) True) = common_algorithm cs ss"
proof (cases "cs = []")
  case True
  have "[] \<notin> cp_name ` set ss" using assms(2) by (auto simp: plain_name_def)
  then show ?thesis using True first_name [of ss "[[]]"]
    by (simp add: server_choice supported_algorithms common_algorithm_def del: first_some.simps)
next
  case False
  have "split_comma (join_comma (map cp_name cs)) = map cp_name cs"
    by (rule split_join_comma) (use False assms(1) in \<open>auto simp: plain_name_def\<close>)
  then show ?thesis by (simp add: server_choice supported_algorithms first_name common_algorithm_def)
qed

subsection \<open>Both sides\<close>

definition offered :: "compressor list option \<Rightarrow> bool \<Rightarrow> bytes \<Rightarrow> features" where
  "offered cs t ck = (case cs of Some l \<Rightarrow> [(f_compress, join_comma (map cp_name l))] | None \<Rightarrow> []) @
     (if t then [(f_timeout, [])] else []) @ (if ck = [] then [] else [(f_isolation, ck)])"

definition answered :: "bytes option \<Rightarrow> bool \<Rightarrow> u64 option \<Rightarrow> bytes \<Rightarrow> le_ops \<Rightarrow> features" where
  "answered z t cid ck le = (case z of Some n \<Rightarrow> [(f_compress, n)] | None \<Rightarrow> []) @ (if t then [(f_timeout, [])] else []) @
     (case cid of Some i \<Rightarrow> [(f_connection_id, serialize_connection_id le i)] | None \<Rightarrow> []) @ (if ck = [] then [] else [(f_isolation, ck)])"

lemma client_offers:
  assumes "co_factory ops = map_option algorithms cs" "\<not> connection_id_valid (co_stream_parent ops)"
  shows "client_features le ops = offered cs (co_send_timeout_data ops) (co_isolation_cookie ops)"
  using assms by (cases cs) (simp_all add: client_features_def offered_def supported_algorithms)

lemma offered_ordered: "ordered_features (offered cs t ck)"
  by (auto simp: offered_def ordered_features_def split: option.splits)

lemma answered_ordered: "ordered_features (answered z t cid ck le)"
  by (auto simp: answered_def ordered_features_def split: option.splits)

definition chosen :: "compressor list option \<Rightarrow> compressor list option \<Rightarrow> compressor option" where
  "chosen cs ss = (case (cs, ss) of (Some a, Some b) \<Rightarrow> fy_negotiate (algorithms b) (join_comma (map cp_name a)) True | _ \<Rightarrow> None)"

lemma server_answers:
  assumes "so_factory ops = map_option algorithms ss" and "cn_compressor c = None" and "\<not> cn_timeout c" and "so_isolate ops ck \<noteq> None"
  shows "\<exists>n. server_negotiate le ops shard (offered cs t ck) c w =
      Inr (n, answered (map_option cp_name (chosen cs ss)) t (if so_streaming_domain ops then Some (cn_id c) else None) ck le) \<and>
    ng_conn n = c\<lparr>cn_compressor := chosen cs ss, cn_timeout := t\<rparr>"
  using assms
  by (cases c; cases cs; cases ss; cases "chosen cs ss"; cases "so_streaming_domain ops")
    (auto simp: server_negotiate_def offered_def answered_def chosen_def server_feature_def split: option.splits)

lemma connection_id_back: "le_ok le \<Longrightarrow> deserialize_connection_id le (serialize_connection_id le i) = Inr i"
  by (simp add: deserialize_connection_id_def serialize_connection_id_def)

lemma client_accepts:
  assumes le: "le_ok le" and f: "co_factory ops = map_option algorithms cs" and c: "cn_compressor c = None" "\<not> cn_timeout c"
    and z: "\<And>n. z = Some n \<Longrightarrow> \<exists>l. cs = Some l \<and> n \<in> cp_name ` set l \<and> 44 \<notin> set n"
  shows "\<exists>c'. client_negotiate le ops (answered z t cid ck le) c = Inr c' \<and> map_option cp_name (cn_compressor c') = z \<and>
    cn_timeout c' = t \<and> cn_id c' = (case cid of Some i \<Rightarrow> i | None \<Rightarrow> cn_id c) \<and>
    (\<forall>x. cn_compressor c' = Some x \<longrightarrow> (\<exists>l. cs = Some l \<and> x \<in> set l))"
proof (cases z)
  case None
  then show ?thesis using c connection_id_back [OF le]
    by (cases cid) (auto simp: answered_def client_feature_def)
next
  case (Some n)
  then obtain l where l: "cs = Some l" "n \<in> cp_name ` set l" "44 \<notin> set n" using z by blast
  obtain x where x: "find (\<lambda>c. cp_name c = n) l = Some x" using find_name_some [OF l(2)] by blast
  have "fy_negotiate (algorithms l) n False = Some x" "cp_name x = n" "x \<in> set l" using client_choice [OF l(3)] x find_name [OF x] by auto
  then show ?thesis using c connection_id_back [OF le] Some f l(1)
    by (cases cid) (auto simp: answered_def client_feature_def)
qed

lemma chosen_common:
  assumes "\<And>l. cs = Some l \<Longrightarrow> \<forall>c \<in> set l. plain_name (cp_name c)" and "\<And>l. ss = Some l \<Longrightarrow> \<forall>c \<in> set l. plain_name (cp_name c)"
  shows "map_option cp_name (chosen cs ss) = (case (cs, ss) of (Some a, Some b) \<Rightarrow> common_algorithm a b | _ \<Rightarrow> None)"
  using assms server_algorithm by (cases cs; cases ss) (auto simp: chosen_def supported_algorithms)

lemma chosen_member: "chosen cs ss = Some x \<Longrightarrow> \<exists>l. ss = Some l \<and> x \<in> set l"
proof -
  have "first_some (\<lambda>n. find (\<lambda>c. cp_name c = n) l) ns = Some x \<Longrightarrow> x \<in> set l" for l ns
    by (induction ns) (auto split: option.splits dest: find_name)
  then show "chosen cs ss = Some x \<Longrightarrow> \<exists>l. ss = Some l \<and> x \<in> set l"
    by (auto simp: chosen_def server_choice split: option.splits)
qed

lemma common_plain:
  assumes "common_algorithm a b = Some n" "\<forall>c \<in> set a. plain_name (cp_name c)"
  shows "n \<in> cp_name ` set a \<and> n \<in> cp_name ` set b \<and> 44 \<notin> set n"
  using assms by (auto simp: common_algorithm_def find_Some_iff plain_name_def) (metis nth_mem length_map nth_map image_eqI)+

lemma answered_size:
  assumes "le_ok le" "\<And>n. z = Some n \<Longrightarrow> length n < 1000" "feature_size (offered cs t ck) + 2048 < 2 ^ 32"
  shows "feature_size (answered z t cid ck le) < 2 ^ 32"
proof -
  have "feature_size (answered z t cid ck le) < feature_size (offered cs t ck) + 2048"
    using assms(1,2) by (cases z; cases cid; cases cs)
      (auto simp: answered_def offered_def feature_size_def serialize_connection_id_def intro: less_trans)
  then show ?thesis using assms(3) by simp
qed

definition names_plain :: "compressor list option \<Rightarrow> bool" where
  "names_plain cs \<longleftrightarrow> (case cs of None \<Rightarrow> True | Some l \<Rightarrow> \<forall>c \<in> set l. plain_name (cp_name c) \<and> length (cp_name c) < 1000)"

definition agreed :: "compressor list option \<Rightarrow> compressor list option \<Rightarrow> bytes option" where
  "agreed cs ss = (case (cs, ss) of (Some a, Some b) \<Rightarrow> common_algorithm a b | _ \<Rightarrow> None)"

lemma agreedD:
  assumes "names_plain cs" "agreed cs ss = Some n"
  shows "\<exists>l. cs = Some l \<and> n \<in> cp_name ` set l \<and> 44 \<notin> set n" "length n < 1000"
proof -
  obtain a b where ab: "cs = Some a" "ss = Some b" "common_algorithm a b = Some n"
    using assms(2) by (auto simp: agreed_def split: option.splits)
  have p: "\<forall>c \<in> set a. plain_name (cp_name c)" "\<forall>c \<in> set a. length (cp_name c) < 1000" using assms(1) ab(1) by (auto simp: names_plain_def)
  from common_plain [OF ab(3) p(1)] have n: "n \<in> cp_name ` set a" "44 \<notin> set n" by blast+
  then show "\<exists>l. cs = Some l \<and> n \<in> cp_name ` set l \<and> 44 \<notin> set n" using ab(1) by blast
  show "length n < 1000" using n(1) p(2) by auto
qed

lemma negotiation_outcome:
  assumes "le_ok le" and "co_factory cops = map_option algorithms cs" and "so_factory sops = map_option algorithms ss"
    and "names_plain cs" and "names_plain ss" and "\<not> connection_id_valid (co_stream_parent cops)"
    and "feature_size (client_features le cops) + 2048 < 2 ^ 32"
    and "cn_compressor c = None" and "\<not> cn_timeout c" and "cn_compressor s = None" and "\<not> cn_timeout s"
    and "so_isolate sops (co_isolation_cookie cops) \<noteq> None"
  shows "\<exists>f g n c'. send_negotiation_frame le (client_features le cops) = Inr f \<and>
    (\<forall>r. server_negotiate_protocol le sops shard s w (f @ r) = (Inr (n, g), r)) \<and>
    (\<forall>r. client_negotiate_protocol le cops c (g @ r) = (Inr c', r)) \<and>
    map_option cp_name (cn_compressor c') = agreed cs ss \<and> map_option cp_name (cn_compressor (ng_conn n)) = agreed cs ss \<and>
    cn_timeout c' = co_send_timeout_data cops \<and> cn_timeout (ng_conn n) = co_send_timeout_data cops \<and>
    cn_id c' = (if so_streaming_domain sops then cn_id s else cn_id c) \<and>
    (\<forall>x. cn_compressor c' = Some x \<longrightarrow> (\<exists>l. cs = Some l \<and> x \<in> set l)) \<and>
    (\<forall>x. cn_compressor (ng_conn n) = Some x \<longrightarrow> (\<exists>l. ss = Some l \<and> x \<in> set l))"
proof -
  let ?t = "co_send_timeout_data cops" and ?ck = "co_isolation_cookie cops"
  let ?cid = "if so_streaming_domain sops then Some (cn_id s) else None"
  have off: "client_features le cops = offered cs ?t ?ck" by (rule client_offers [OF assms(2,6)])
  have z: "map_option cp_name (chosen cs ss) = agreed cs ss"
    unfolding agreed_def by (rule chosen_common) (use assms(4,5) in \<open>auto simp: names_plain_def\<close>)
  let ?ans = "answered (agreed cs ss) ?t ?cid ?ck le"
  obtain f where f: "send_negotiation_frame le (offered cs ?t ?ck) = Inr f" "\<forall>r. receive_negotiation_frame le (f @ r) = (Inr (offered cs ?t ?ck), r)"
    using features_back [OF assms(1) offered_ordered, of cs ?t ?ck] assms(7) off by auto
  have "feature_size ?ans < 2 ^ 32"
    by (rule answered_size [OF assms(1), where cs = cs]) (use agreedD(2) [OF assms(4)] assms(7) off in auto)
  then obtain g where g: "send_negotiation_frame le ?ans = Inr g" "\<forall>r. receive_negotiation_frame le (g @ r) = (Inr ?ans, r)"
    using features_back [OF assms(1) answered_ordered] by blast
  obtain n where n: "server_negotiate le sops shard (offered cs ?t ?ck) s w = Inr (n, ?ans)"
      "ng_conn n = s\<lparr>cn_compressor := chosen cs ss, cn_timeout := ?t\<rparr>"
    using server_answers [OF assms(3,10,11,12), of le shard cs ?t w] z by auto
  obtain c' where c': "client_negotiate le cops ?ans c = Inr c'" "map_option cp_name (cn_compressor c') = agreed cs ss" "cn_timeout c' = ?t"
      "cn_id c' = (case ?cid of Some i \<Rightarrow> i | None \<Rightarrow> cn_id c)" "\<forall>x. cn_compressor c' = Some x \<longrightarrow> (\<exists>l. cs = Some l \<and> x \<in> set l)"
    using client_accepts [OF assms(1,2,8,9), of "agreed cs ss"] agreedD(1) [OF assms(4)] by blast
  have "\<forall>r. server_negotiate_protocol le sops shard s w (f @ r) = (Inr (n, g), r)"
    using f(2) n(1) g(1) by (simp add: server_negotiate_protocol_def)
  moreover have "\<forall>r. client_negotiate_protocol le cops c (g @ r) = (Inr c', r)"
    using g(2) c'(1) by (simp add: client_negotiate_protocol_def)
  ultimately show ?thesis using f(1) off n(2) z c' chosen_member [of cs ss] by (intro exI [of _ f] exI [of _ g] exI [of _ n] exI [of _ c']) auto
qed

text \<open>C6. 
  A client and a server that negotiate come to the same compression algorithm, the first of the client's
  that the server has, or to none if there is none; timeouts are sent exactly if the client asked for
  them; and the client learns the id the server gave its connection if the server streams.
\<close>
theorem negotiation_agrees:
  assumes "le_ok le" and "co_factory cops = map_option algorithms cs" and "so_factory sops = map_option algorithms ss"
    and "names_plain cs" and "names_plain ss" and "\<not> connection_id_valid (co_stream_parent cops)"
    and "feature_size (client_features le cops) + 2048 < 2 ^ 32"
    and "cn_compressor c = None" and "\<not> cn_timeout c" and "cn_compressor s = None" and "\<not> cn_timeout s"
    and "so_isolate sops (co_isolation_cookie cops) \<noteq> None"
  shows "\<exists>f g n c'. send_negotiation_frame le (client_features le cops) = Inr f \<and>
    (\<forall>r. server_negotiate_protocol le sops shard s w (f @ r) = (Inr (n, g), r)) \<and>
    (\<forall>r. client_negotiate_protocol le cops c (g @ r) = (Inr c', r)) \<and>
    map_option cp_name (cn_compressor c') = agreed cs ss \<and> map_option cp_name (cn_compressor (ng_conn n)) = agreed cs ss \<and>
    cn_timeout c' = co_send_timeout_data cops \<and> cn_timeout (ng_conn n) = co_send_timeout_data cops \<and>
    cn_id c' = (if so_streaming_domain sops then cn_id s else cn_id c)"
  using negotiation_outcome [OF assms, of shard w] by blast

definition deflating :: compressor where
  "deflating = stored\<lparr>cp_name := [100, 101]\<rparr>"

definition w_client_options :: client_options where
  "w_client_options = \<lparr>co_factory = Some (algorithms [deflating, stored]), co_send_timeout_data = True,
      co_stream_parent = invalid_connection_id, co_isolation_cookie = [7]\<rparr>"

definition w_server_options :: "bytes server_options" where
  "w_server_options = \<lparr>so_factory = Some (algorithms [stored]), so_streaming_domain = True, so_isolate = Some\<rparr>"

definition w_conn :: "u64 \<Rightarrow> conn" where
  "w_conn i = \<lparr>cn_compressor = None, cn_timeout = False, cn_id = i\<rparr>"

lemma negotiation_agrees_witness:
  "\<exists>f g n c'. send_negotiation_frame le_ref (client_features le_ref w_client_options) = Inr f \<and>
    server_negotiate_protocol le_ref w_server_options 0 (w_conn 0x30000) (\<lambda>_. None) (f @ [1]) = (Inr (n, g), [1]) \<and>
    client_negotiate_protocol le_ref w_client_options (w_conn 0) (g @ [2]) = (Inr c', [2]) \<and>
    map_option cp_name (cn_compressor c') = Some (cp_name stored) \<and> map_option cp_name (cn_compressor (ng_conn n)) = Some (cp_name stored) \<and>
    cn_timeout c' \<and> cn_timeout (ng_conn n) \<and> cn_id c' = 0x30000"
proof -
  have p: "names_plain (Some [deflating, stored])" "names_plain (Some [stored])"
    by (simp_all add: names_plain_def plain_name_def deflating_def stored_def)
  have v: "\<not> connection_id_valid (co_stream_parent w_client_options)"
    unfolding w_client_options_def by (simp add: connection_id_valid_def connection_shard_def invalid_connection_id_def make_connection_id_def)
  have o: "co_factory w_client_options = map_option algorithms (Some [deflating, stored])"
    by (simp add: w_client_options_def)
  have q: "so_factory w_server_options = map_option algorithms (Some [stored])" by (simp add: w_server_options_def)
  have z: "feature_size (client_features le_ref w_client_options) + 2048 < 2 ^ 32"
    unfolding client_offers [OF o v] by (simp add: offered_def feature_size_def deflating_def stored_def w_client_options_def)
  have a: "agreed (Some [deflating, stored]) (Some [stored]) = Some (cp_name stored)"
    by (simp add: agreed_def common_algorithm_def deflating_def stored_def)
  have w: "cn_compressor (w_conn i) = None" "\<not> cn_timeout (w_conn i)" "cn_id (w_conn i) = i" for i by (simp_all add: w_conn_def)
  have b: "co_send_timeout_data w_client_options" "so_streaming_domain w_server_options" by (simp_all add: w_client_options_def w_server_options_def)
  have iso: "so_isolate w_server_options (co_isolation_cookie w_client_options) \<noteq> None" by (simp add: w_server_options_def)
  obtain f g n c' where r: "send_negotiation_frame le_ref (client_features le_ref w_client_options) = Inr f"
    "\<forall>r. server_negotiate_protocol le_ref w_server_options 0 (w_conn 0x30000) (\<lambda>_. None) (f @ r) = (Inr (n, g), r)"
    "\<forall>r. client_negotiate_protocol le_ref w_client_options (w_conn 0) (g @ r) = (Inr c', r)"
    "map_option cp_name (cn_compressor c') = Some (cp_name stored)" "map_option cp_name (cn_compressor (ng_conn n)) = Some (cp_name stored)"
    "cn_timeout c'" "cn_timeout (ng_conn n)" "cn_id c' = 0x30000"
    using negotiation_agrees [OF le_ok_ref o q p v z w(1,2) [of 0] w(1,2) [of "0x30000"] iso, where shard = 0 and w = "\<lambda>_. None"] unfolding a w(3) using b by auto
  then show ?thesis by blast
qed

end
