(* ===== verification/RpcPeer.thy ===== *)
theory RpcPeer
  imports RpcNegotiate
begin

text \<open>
  The two ends of an rpc connection, \<open>rpc/rpc.cc\<close>, \<open>rpc/rpc.hh\<close> and \<open>rpc/rpc_impl.hh\<close>: the calls a
  client waits for and what becomes of them, what a server does with a request, and the queue of a
  stream.

  The serializer of the program is a parameter where it matters: \<open>unmarshal\<close> says whether the data of
  a reply can be read as the type that is waited for. Timers and cancellation are steps.
\<close>

subsection \<open>Exceptions on the wire\<close>

datatype remote_exception = Runtime_error bytes | Unknown_verb u64 | Unknown_exception

text \<open>Reading behind the end of the data throws; then there is no exception to give to the caller.\<close>

definition unmarshal_exception :: "le_ops \<Rightarrow> bytes \<Rightarrow> remote_exception option" where
  "unmarshal_exception le d =
     (if length d < 8 then None
      else (let ty = read_le32 le d; len = unat (read_le32 le (drop 4 d)); r = drop 8 d
            in if ty = 0 then (if length r < len then None else Some (Runtime_error (take len r)))
               else if ty = 1 then (if length r < 8 then None else Some (Unknown_verb (read_le64 le r)))
               else Some Unknown_exception))"

subsection \<open>The client\<close>

text \<open>What the future of a call comes to.\<close>

datatype call_result = Returned bytes | Thrown remote_exception | Timed_out | Canceled | Closed | Broken_promise

text \<open>Whether a timer is armed, and whether there is something to cancel it with: for an entry of the queue, and for a reply.\<close>

record handler =
  hd_timer :: bool
  hd_cancel :: bool

record client =
  cl_error :: bool
  cl_next :: nat
  cl_queue :: "(nat \<times> handler) list"
  cl_outstanding :: "nat \<Rightarrow> handler option"
  cl_done :: "(nat \<times> call_result) list"
  cl_stopped :: bool

definition client_start :: client where
  "client_start = \<lparr>cl_error = False, cl_next = 1, cl_queue = [], cl_outstanding = (\<lambda>_. None), cl_done = [], cl_stopped = False\<rparr>"

text \<open>
  \<open>send_helper\<close>, \<open>connection::send\<close> and \<open>client::wait_for_reply\<close>: the id of the call. A call that is
  made after an error gets none. A message whose time is over is not queued, but its reply is waited
  for until the timer fires.
\<close>

definition client_call :: "bool \<Rightarrow> bool \<Rightarrow> bool \<Rightarrow> bool \<Rightarrow> client \<Rightarrow> nat option \<times> client" where
  "client_call waits timed over canc c =
     (if cl_error c then (None, c)
      else (let i = cl_next c;
                c1 = c\<lparr>cl_next := i + 1\<rparr>;
                c2 = (if timed \<and> over then c1 else c1\<lparr>cl_queue := cl_queue c1 @ [(i, \<lparr>hd_timer = timed, hd_cancel = canc\<rparr>)]\<rparr>)
            in (Some i, if waits then c2\<lparr>cl_outstanding := (cl_outstanding c2)(i \<mapsto> \<lparr>hd_timer = timed, hd_cancel = canc\<rparr>)\<rparr> else c2)))"

definition complete :: "nat \<Rightarrow> call_result \<Rightarrow> client \<Rightarrow> client" where
  "complete i out c = c\<lparr>cl_outstanding := (cl_outstanding c)(i := None), cl_done := cl_done c @ [(i, out)]\<rparr>"

text \<open>The send loop takes the front of the queue.\<close>

definition client_send_front :: "client \<Rightarrow> nat option \<times> client" where
  "client_send_front c = (if cl_error c then (None, c) else (case cl_queue c of [] \<Rightarrow> (None, c) | e # q \<Rightarrow> (Some (fst e), c\<lparr>cl_queue := q\<rparr>)))"

text \<open>The timer of a queued entry, the timer of a reply handler, and a cancellation.\<close>

definition entry_expired :: "nat \<Rightarrow> client \<Rightarrow> client" where
  "entry_expired i c = c\<lparr>cl_queue := filter (\<lambda>(j, h). \<not> (j = i \<and> hd_timer h)) (cl_queue c)\<rparr>"

definition wait_timed_out :: "nat \<Rightarrow> client \<Rightarrow> client result" where
  "wait_timed_out i c = (case cl_outstanding c i of None \<Rightarrow> Inl NullDeref | Some h \<Rightarrow> Inr (complete i Timed_out c))"

definition cancel_call :: "nat \<Rightarrow> client \<Rightarrow> client result" where
  "cancel_call i c =
     (let c1 = c\<lparr>cl_queue := filter (\<lambda>(j, h). \<not> (j = i \<and> hd_cancel h)) (cl_queue c)\<rparr>
      in (case cl_outstanding c1 i of None \<Rightarrow> Inr c1 | Some h \<Rightarrow> if hd_cancel h then Inr (complete i Canceled c1) else Inr c1))"

text \<open>
  The reply handler. What is left of it without a value says that the connection is closed; an
  exception that cannot be read leaves a promise that was marked as done and never fulfilled.
\<close>

definition reply_outcome :: "le_ops \<Rightarrow> (bytes \<Rightarrow> bool) \<Rightarrow> int \<Rightarrow> bytes \<Rightarrow> call_result \<times> bool" where
  "reply_outcome le unmarshal msg_id d =
     (if msg_id \<ge> 0 then (if unmarshal d then (Returned d, True) else (Closed, False))
      else (case unmarshal_exception le d of Some x \<Rightarrow> (Thrown x, True) | None \<Rightarrow> (Broken_promise, False)))"

text \<open>
  A response frame has been read. The least message id has no absolute value. An exception ends the read
  loop.
\<close>

definition client_receive :: "le_ops \<Rightarrow> (nat \<Rightarrow> bytes \<Rightarrow> bool) \<Rightarrow> (u64 \<times> rcv_buf) option \<Rightarrow> client \<Rightarrow> (bool \<times> client) result" where
  "client_receive le unmarshal frame c =
     (case frame of
        None \<Rightarrow> Inr (True, c\<lparr>cl_error := True\<rparr>)
      | Some (m, rb) \<Rightarrow>
          (let msg_id = sint m; i = nat \<bar>msg_id\<bar>
           in if msg_id = - (2 ^ 63) then Inl OutOfRange
              else (case cl_outstanding c i of
                      None \<Rightarrow> Inr (True, c)
                    | Some h \<Rightarrow> (let (out, ok) = reply_outcome le (unmarshal i) msg_id (concat (rb_bufs rb))
                                in Inr (ok, complete i out c)))))"

text \<open>The end: the queue and the handlers that are left are destroyed.\<close>

definition client_stop :: "nat list \<Rightarrow> client \<Rightarrow> client" where
  "client_stop order c =
     c\<lparr>cl_error := True, cl_stopped := True, cl_queue := [], cl_outstanding := (\<lambda>_. None),
       cl_done := cl_done c @ map (\<lambda>i. (i, Closed)) order\<rparr>"

inductive client_step :: "le_ops \<Rightarrow> (nat \<Rightarrow> bytes \<Rightarrow> bool) \<Rightarrow> client \<Rightarrow> client \<Rightarrow> bool" for le unmarshal where
  call: "client_call waits timed over canc c = (r, c') \<Longrightarrow> client_step le unmarshal c c'"
| send_front: "client_send_front c = (r, c') \<Longrightarrow> client_step le unmarshal c c'"
| entry_timer: "client_step le unmarshal c (entry_expired i c)"
| wait_timer: "cl_outstanding c i = Some h \<Longrightarrow> hd_timer h \<Longrightarrow> wait_timed_out i c = Inr c' \<Longrightarrow> client_step le unmarshal c c'"
| cancel: "cancel_call i c = Inr c' \<Longrightarrow> client_step le unmarshal c c'"
| receive: "\<not> cl_stopped c \<Longrightarrow> client_receive le unmarshal frame c = Inr (ok, c') \<Longrightarrow> client_step le unmarshal c c'"
| stop: "\<not> cl_stopped c \<Longrightarrow> set order = dom (cl_outstanding c) \<Longrightarrow> distinct order \<Longrightarrow> client_step le unmarshal c (client_stop order c)"

inductive client_reachable :: "le_ops \<Rightarrow> (nat \<Rightarrow> bytes \<Rightarrow> bool) \<Rightarrow> client \<Rightarrow> bool" for le unmarshal where
  start: "client_reachable le unmarshal client_start"
| step: "client_reachable le unmarshal c \<Longrightarrow> client_step le unmarshal c c' \<Longrightarrow> client_reachable le unmarshal c'"

subsection \<open>The server\<close>

text \<open>How serving a request ends: what the handler's future holds, or what was thrown before there was one.\<close>

datatype served = Value bytes | Failed bytes | Failed_otherwise | Bad_arguments | Threw_runtime_error bytes | Threw_otherwise

record rpc_handler =
  rh_waits :: bool
  rh_open :: bool
  rh_serve :: "bytes \<Rightarrow> served"

record limits =
  lm_basic :: nat
  lm_bloat :: nat
  lm_max :: nat

definition estimate_request_size :: "limits \<Rightarrow> u32 \<Rightarrow> nat" where
  "estimate_request_size lm n = lm_basic lm + unat n * lm_bloat lm"

text \<open>The absolute time a request is good for. A time left of zero is none at all.\<close>

definition server_timeout :: "int \<Rightarrow> int \<Rightarrow> u64 option \<Rightarrow> int option" where
  "server_timeout now latest expire =
     (case expire of Some e \<Rightarrow> if e \<noteq> 0 then Some (now + min (sint e) (latest - now)) else None | None \<Rightarrow> None)"

definition rpc_get_handler :: "(u64 \<Rightarrow> rpc_handler option) \<Rightarrow> u64 \<Rightarrow> rpc_handler option" where
  "rpc_get_handler hs t = (case hs t of Some h \<Rightarrow> if rh_open h then Some h else None | None \<Rightarrow> None)"

text \<open>\<open>reply\<close>: what is handed to \<open>respond\<close>, with the id it is sent under.\<close>

datatype action = Reply u64 snd_buf | No_reply | Drop_connection

definition rpc_reply :: "le_ops \<Rightarrow> bool \<Rightarrow> u64 \<Rightarrow> served \<Rightarrow> action" where
  "rpc_reply le waits msg_id r =
     (if \<not> waits then No_reply
      else (case r of
              Value d \<Rightarrow> Reply msg_id (marshall 12 d)
            | Failed what \<Rightarrow> Reply (- msg_id) (user_exception_message le what)
            | Threw_runtime_error what \<Rightarrow> Reply (- msg_id) (user_exception_message le what)
            | _ \<Rightarrow> No_reply))"

text \<open>
  A request frame has been read. \<open>too_large\<close> is the text of the error; the resources that are waited for
  come, or the time is over first: that is caught in front of a handler, and nowhere if there is none.
\<close>

definition server_request ::
    "le_ops \<Rightarrow> limits \<Rightarrow> bytes \<Rightarrow> (u64 \<Rightarrow> rpc_handler option) \<Rightarrow> bool \<Rightarrow> u64 \<times> u64 \<Rightarrow> rcv_buf \<Rightarrow> action" where
  "server_request le lm too_large hs got_resources h rb =
     (let (t, msg_id) = h
      in (case rpc_get_handler hs t of
            None \<Rightarrow> if got_resources then Reply (- msg_id) (unknown_verb_message le t) else Drop_connection
          | Some rh \<Rightarrow>
              if estimate_request_size lm (rb_size rb) > lm_max lm then rpc_reply le (rh_waits rh) msg_id (Failed too_large)
              else if \<not> got_resources then No_reply
              else rpc_reply le (rh_waits rh) msg_id (rh_serve rh (concat (rb_bufs rb)))))"

text \<open>
  Whether the send loop takes a message that is handed to \<open>connection::send\<close> at some time: not after an
  error, not when its time is over by then, and not when its timer fires while it is in the queue.
\<close>

definition connection_send :: "bool \<Rightarrow> int option \<Rightarrow> int \<Rightarrow> bool \<Rightarrow> bool" where
  "connection_send err timeout now fired \<longleftrightarrow> \<not> err \<and> (case timeout of None \<Rightarrow> True | Some t \<Rightarrow> \<not> t \<le> now \<and> \<not> fired)"

text \<open>The bytes that go back, if any do: \<open>respond\<close> with the time the request is good for, and the send loop.\<close>

definition server_reply_bytes :: "le_ops \<Rightarrow> compressor option \<Rightarrow> bool \<Rightarrow> int option \<Rightarrow> int \<Rightarrow> bool \<Rightarrow> action \<Rightarrow> (rpc_error + bytes) option" where
  "server_reply_bytes le cp err timeout now fired r =
     (case r of
        Reply i sb \<Rightarrow>
          (case respond_message le i sb of
             Inl e \<Rightarrow> Some (Inl (Fault e))
           | Inr s \<Rightarrow> if connection_send err timeout now fired then Some (send_entry le Q_response False 0 cp s) else None)
      | _ \<Rightarrow> None)"

subsection \<open>Streams\<close>

text \<open>The frames of a stream are pushed to a queue, until one is cut off.\<close>

function stream_frames :: "le_ops \<Rightarrow> avail \<Rightarrow> compressor option \<Rightarrow> nat \<Rightarrow> bytes \<Rightarrow> rcv_buf list" where
  "stream_frames le avail cp 0 s = []"
| "stream_frames le avail cp (Suc n) s =
     (if s = [] then []
      else (case read_stream_frame_compressed le avail cp s of
              Inr (Some rb, s1) \<Rightarrow> rb # stream_frames le avail cp n s1
            | _ \<Rightarrow> []))"
  by pat_completeness auto
termination by (relation "measure (\<lambda>(le, avail, cp, n, s). n)") auto

text \<open>
  \<open>stream_receive\<close>: the fragments up to the end, which is put back if any came before it. No fragments
  are the end of the stream. An empty queue is waited for.
\<close>

fun consume_until_end :: "rcv_buf list \<Rightarrow> rcv_buf list \<times> bool \<times> rcv_buf list" where
  "consume_until_end [] = ([], False, [])"
| "consume_until_end (rb # q) =
     (if rb_size rb = - 1 then ([], True, q) else (let (bufs, eof, q1) = consume_until_end q in (rb # bufs, eof, q1)))"

definition stream_receive :: "rcv_buf list \<Rightarrow> (rcv_buf list \<times> rcv_buf list) result option" where
  "stream_receive q =
     (if q = [] then None
      else (let (bufs, eof, q1) = consume_until_end q
            in Some (if eof \<and> bufs \<noteq> [] then (if q1 = [] then Inr (bufs, [\<lparr>rb_size = - 1, rb_bufs = []\<rparr>]) else Inl AssertFailed)
                     else Inr (bufs, q1))))"

text \<open>What a sink writes: the fragments and the end.\<close>

fun stream_sent :: "le_ops \<Rightarrow> compressor option \<Rightarrow> bytes list \<Rightarrow> rpc_error + bytes" where
  "stream_sent le cp [] = rpc_then (faulty (stream_end_message le)) (send_entry le Q_response False 0 cp)"
| "stream_sent le cp (p # ps) =
     rpc_then (rpc_then (faulty (stream_message le p)) (send_entry le Q_response False 0 cp))
       (\<lambda>w. rpc_then (stream_sent le cp ps) (\<lambda>ws. Inr (w @ ws)))"

end
