(* ===== verification/RpcPeerProps.thy ===== *)
theory RpcPeerProps
  imports RpcPeer RpcWireProps
begin

text \<open>
  Calls and streams: every call that waits for a reply comes to exactly one outcome, what a handler
  returns or throws is what its caller gets, and the fragments of a stream arrive in order, then its end.
\<close>

subsection \<open>Calls of a client\<close>

definition client_ok :: "client \<Rightarrow> bool" where
  "client_ok c \<longleftrightarrow> distinct (map fst (cl_done c)) \<and> (\<forall>i \<in> set (map fst (cl_done c)). i < cl_next c \<and> cl_outstanding c i = None) \<and>
     (\<forall>i. cl_outstanding c i \<noteq> None \<longrightarrow> i < cl_next c) \<and> (cl_stopped c \<longrightarrow> cl_error c \<and> cl_outstanding c = (\<lambda>_. None))"

lemma complete_ok:
  assumes "client_ok c" "cl_outstanding c i = Some h"
  shows "client_ok (complete i out c)"
proof -
  have "i \<notin> set (map fst (cl_done c))" using assms by (auto simp: client_ok_def)
  then show ?thesis using assms by (auto simp: client_ok_def complete_def)
qed

lemma queue_ok: "client_ok c \<Longrightarrow> client_ok (c\<lparr>cl_queue := q\<rparr>)"
  by (simp add: client_ok_def)

lemma call_ok: "client_ok c \<Longrightarrow> client_ok (snd (client_call waits timed over canc c))"
  by (auto simp: client_ok_def client_call_def Let_def less_Suc_eq)

lemma receive_ok:
  assumes "client_ok c" "client_receive le um frame c = Inr (ok, c')" "\<not> cl_stopped c"
  shows "client_ok c'"
proof (cases frame)
  case None
  then have "c' = c\<lparr>cl_error := True\<rparr>" using assms(2) by (simp add: client_receive_def)
  then show ?thesis using assms(1,3) by (simp add: client_ok_def)
next
  case (Some f)
  then show ?thesis using assms(1,2) complete_ok [OF assms(1)]
    by (cases f) (auto simp: client_receive_def Let_def split: if_splits option.splits prod.splits)
qed

lemma stop_ok:
  assumes "client_ok c" "set order = dom (cl_outstanding c)" "distinct order"
  shows "client_ok (client_stop order c)"
proof -
  have "set order \<inter> set (map fst (cl_done c)) = {}" using assms(1,2) by (auto simp: client_ok_def)
  then show ?thesis using assms by (auto simp: client_ok_def client_stop_def comp_def)
qed

lemma step_ok: "client_step le um c c' \<Longrightarrow> client_ok c \<Longrightarrow> client_ok c'"
proof (induction rule: client_step.induct)
  case (call waits timed over canc c r c')
  then show ?case using call_ok [of c waits timed over canc] by simp
next
  case (send_front c r c')
  then show ?case by (auto simp: client_send_front_def queue_ok split: if_splits list.splits)
next
  case (entry_timer c i)
  then show ?case by (simp add: entry_expired_def queue_ok)
next
  case (wait_timer c i h c')
  then show ?case using complete_ok by (auto simp: wait_timed_out_def)
next
  case (cancel i c c')
  let ?c = "c\<lparr>cl_queue := filter (\<lambda>(j, h). \<not> (j = i \<and> hd_cancel h)) (cl_queue c)\<rparr>"
  have "client_ok ?c" using cancel queue_ok by blast
  then show ?case using cancel complete_ok [of ?c] queue_ok
    by (auto simp: cancel_call_def Let_def split: option.splits if_splits)
next
  case (receive c frame ok c')
  then show ?case using receive_ok by blast
next
  case (stop c order)
  then show ?case using stop_ok by blast
qed

lemma reachable_ok: "client_reachable le um c \<Longrightarrow> client_ok c"
proof (induction rule: client_reachable.induct)
  case start
  show ?case by (simp add: client_start_def client_ok_def)
next
  case (step c c')
  then show ?case using step_ok by blast
qed

text \<open>A client that has made one call, and stops.\<close>

definition one_call :: client where
  "one_call = snd (client_call True False False False client_start)"

lemma one_call:
  "client_reachable le_ref (\<lambda>_ _. True) one_call" "client_step le_ref (\<lambda>_ _. True) one_call (client_stop [1] one_call)"
proof -
  have "client_step le_ref (\<lambda>_ _. True) client_start one_call"
    unfolding one_call_def by (rule client_step.call [OF prod.collapse [symmetric]])
  then show "client_reachable le_ref (\<lambda>_ _. True) one_call" by (rule client_reachable.step [OF client_reachable.start])
  show "client_step le_ref (\<lambda>_ _. True) one_call (client_stop [1] one_call)"
    by (rule client_step.stop) (auto simp: one_call_def client_call_def client_start_def split: if_splits)
qed

text \<open>C8. 
  Whatever replies, timeouts, cancellations and errors come and in whatever order: no call has two
  outcomes, and one that is still waited for has none.
\<close>
theorem calls_complete_once:
  assumes "client_reachable le um c"
  shows "distinct (map fst (cl_done c)) \<and> (\<forall>i out. (i, out) \<in> set (cl_done c) \<longrightarrow> i < cl_next c \<and> cl_outstanding c i = None)"
  using reachable_ok [OF assms] by (fastforce simp: client_ok_def)

lemma calls_complete_once_witness:
  "distinct (map fst (cl_done (client_stop [1] (snd (client_call True False False False client_start)))))"
  using calls_complete_once [OF client_reachable.step [OF one_call]] unfolding one_call_def by blast

lemma step_keeps:
  assumes "client_step le um c c'"
  shows "(\<exists>zs. cl_done c' = cl_done c @ zs \<and>
    (\<forall>i. cl_outstanding c i \<noteq> None \<longrightarrow> cl_outstanding c' i \<noteq> None \<or> i \<in> set (map fst zs)))"
  using assms
proof (induction rule: client_step.induct)
  case (call waits timed over canc c r c')
  then have "c' = snd (client_call waits timed over canc c)" by simp
  then show ?case by (intro exI [of _ "[]"]) (simp add: client_call_def Let_def)
next
  case (send_front c r c')
  then show ?case by (intro exI [of _ "[]"]) (auto simp: client_send_front_def split: if_splits list.splits)
next
  case (entry_timer c i)
  show ?case by (intro exI [of _ "[]"]) (simp add: entry_expired_def)
next
  case (wait_timer c i h c')
  then have "c' = complete i Timed_out c" by (simp add: wait_timed_out_def)
  then show ?case by (intro exI [of _ "[(i, Timed_out)]"]) (simp add: complete_def)
next
  case (cancel i c c')
  then show ?case
    by (auto simp: cancel_call_def Let_def complete_def split: option.splits if_splits)
next
  case (receive c frame ok c')
  show ?case
  proof (cases "c' = c \<or> c' = c\<lparr>cl_error := True\<rparr>")
    case True
    then show ?thesis by (intro exI [of _ "[]"]) auto
  next
    case False
    then obtain i out where "c' = complete i out c" using receive(2)
      by (auto simp: client_receive_def Let_def split: option.splits if_splits prod.splits)
    then show ?thesis by (intro exI [of _ "[(i, out)]"]) (simp add: complete_def)
  qed
next
  case (stop c order)
  then show ?case by (intro exI [of _ "map (\<lambda>i. (i, Closed)) order"]) (auto simp: client_stop_def comp_def)
qed

text \<open>What becomes of a client: any number of steps.\<close>

inductive client_run :: "le_ops \<Rightarrow> (nat \<Rightarrow> bytes \<Rightarrow> bool) \<Rightarrow> client \<Rightarrow> client \<Rightarrow> bool" for le um where
  here: "client_run le um c c"
| more: "client_run le um c c' \<Longrightarrow> client_step le um c' c'' \<Longrightarrow> client_run le um c c''"

lemma run_reachable: "client_run le um c c' \<Longrightarrow> client_reachable le um c \<Longrightarrow> client_reachable le um c'"
  by (induction rule: client_run.induct) (auto intro: client_reachable.step)

lemma run_keeps:
  "client_run le um c c' \<Longrightarrow> cl_outstanding c i \<noteq> None \<Longrightarrow> cl_outstanding c' i \<noteq> None \<or> i \<in> set (map fst (cl_done c'))"
proof (induction rule: client_run.induct)
  case (more c c' c'')
  from step_keeps [OF more.hyps(2)] more.IH [OF more.prems] show ?case by fastforce
qed simp

text \<open>C9. 
  No call hangs: however a client is used after it, once the client has stopped each call that was
  waiting has come to one outcome and no other.
\<close>
theorem calls_never_hang:
  assumes "client_reachable le um c" and "cl_outstanding c i = Some h" and "client_run le um c c'" and "cl_stopped c'"
  shows "\<exists>!out. (i, out) \<in> set (cl_done c')"
proof -
  have ok: "client_ok c'" using reachable_ok run_reachable assms(1,3) by blast
  then have "cl_outstanding c' i = None" using assms(4) by (simp add: client_ok_def)
  then have "i \<in> set (map fst (cl_done c'))" using run_keeps [OF assms(3), of i] assms(2) by simp
  then obtain out where "(i, out) \<in> set (cl_done c')" by auto
  moreover have "distinct (map fst (cl_done c'))" using ok by (simp add: client_ok_def)
  ultimately show ?thesis using eq_key_imp_eq_value by fast
qed

lemma calls_never_hang_witness:
  "\<exists>!out. (1, out) \<in> set (cl_done (client_stop [1] (snd (client_call True False False False client_start))))"
proof -
  have "client_run le_ref (\<lambda>_ _. True) one_call (client_stop [1] one_call)" by (rule client_run.more [OF client_run.here one_call(2)])
  from calls_never_hang [OF one_call(1) _ this, of 1] show ?thesis by (simp add: client_stop_def client_call_def client_start_def one_call_def)
qed

subsection \<open>A call and its outcome\<close>

lemma sint_small: "- (2 ^ 63) \<le> k \<Longrightarrow> k < 2 ^ 63 \<Longrightarrow> sint (word_of_int k :: u64) = k"
  by (simp add: signed_of_int signed_take_bit_int_eq_self)

lemma sint_id:
  assumes "i < 2 ^ 63"
  shows "sint (word_of_nat i :: u64) = int i" "sint (- word_of_nat i :: u64) = - int i"
proof -
  have "int i < 2 ^ 63" using assms by simp
  then show "sint (word_of_nat i :: u64) = int i" "sint (- word_of_nat i :: u64) = - int i"
    using sint_small [of "int i"] sint_small [of "- int i"] by simp_all
qed

text \<open>What the caller is told, if it is told anything.\<close>

definition exception_body :: "le_ops \<Rightarrow> bytes \<Rightarrow> bytes" where
  "exception_body le what = write_le32 le 0 @ write_le32 le (word_of_nat (length what)) @ what"

definition verb_body :: "le_ops \<Rightarrow> u64 \<Rightarrow> bytes" where
  "verb_body le t = write_le32 le 1 @ write_le32 le 8 @ write_le64 le t"

lemma exception_back: "le_ok le \<Longrightarrow> length what < 2 ^ 32 \<Longrightarrow> unmarshal_exception le (exception_body le what) = Some (Runtime_error what)"
  using le_ok_word_size [of "length what"] by (simp add: unmarshal_exception_def exception_body_def Let_def)

lemma verb_back: "le_ok le \<Longrightarrow> unmarshal_exception le (verb_body le t) = Some (Unknown_verb t)"
  by (simp add: unmarshal_exception_def verb_body_def Let_def)

fun served_outcome :: "served \<Rightarrow> call_result option" where
  "served_outcome (Value d) = Some (Returned d)"
| "served_outcome (Failed what) = Some (Thrown (Runtime_error what))"
| "served_outcome (Threw_runtime_error what) = Some (Thrown (Runtime_error what))"
| "served_outcome _ = None"

definition call_outcome :: "limits \<Rightarrow> bytes \<Rightarrow> (u64 \<Rightarrow> rpc_handler option) \<Rightarrow> u64 \<Rightarrow> u32 \<Rightarrow> bytes \<Rightarrow> call_result option" where
  "call_outcome lm big hs t n args =
     (case rpc_get_handler hs t of
        None \<Rightarrow> Some (Thrown (Unknown_verb t))
      | Some rh \<Rightarrow> if \<not> rh_waits rh then None
          else if estimate_request_size lm n > lm_max lm then Some (Thrown (Runtime_error big))
          else served_outcome (rh_serve rh args))"

text \<open>The reply that carries an outcome, for the call with the id.\<close>

definition reply_of :: "le_ops \<Rightarrow> u64 \<Rightarrow> call_result \<Rightarrow> u64 \<times> bytes" where
  "reply_of le m out = (case out of
     Returned d \<Rightarrow> (m, d) | Thrown (Runtime_error what) \<Rightarrow> (- m, exception_body le what) | Thrown (Unknown_verb t) \<Rightarrow> (- m, verb_body le t) | _ \<Rightarrow> (m, []))"

lemma server_reply_of:
  assumes "call_outcome lm big hs t (rb_size rb) (concat (rb_bufs rb)) = Some out"
  shows "server_request le lm big hs True (t, m) rb = Reply (fst (reply_of le m out)) (marshall 12 (snd (reply_of le m out)))"
  using assms
  by (auto simp: call_outcome_def server_request_def rpc_reply_def reply_of_def exception_body_def verb_body_def
      user_exception_message_def unknown_verb_message_def marshall_def split: option.splits if_splits served.splits elim!: served_outcome.elims)

definition outcome_size :: "call_result \<Rightarrow> nat" where
  "outcome_size out = (case out of Returned d \<Rightarrow> length d | Thrown (Runtime_error what) \<Rightarrow> 8 + length what | Thrown (Unknown_verb t) \<Rightarrow> 16 | _ \<Rightarrow> 0)"

lemma reply_of_size: "le_ok le \<Longrightarrow> length (snd (reply_of le m out)) = outcome_size out"
  by (auto simp: reply_of_def outcome_size_def exception_body_def verb_body_def split: call_result.splits remote_exception.splits)

lemma call_outcome_cases:
  assumes "call_outcome lm big hs t n args = Some out"
  shows "(\<exists>d. out = Returned d) \<or> (\<exists>w. out = Thrown (Runtime_error w)) \<or> (\<exists>v. out = Thrown (Unknown_verb v))"
  using assms by (auto simp: call_outcome_def split: option.splits if_splits elim!: served_outcome.elims)

lemma outcome_received:
  assumes le: "le_ok le" and out: "call_outcome lm big hs t n args = Some out" and i: "0 < i" "i < 2 ^ 63"
    and s: "outcome_size out < 2 ^ 32" and um: "\<forall>d. out = Returned d \<longrightarrow> um i d" and h: "cl_outstanding c i = Some h"
    and rb: "concat (rb_bufs rb) = snd (reply_of le (word_of_nat i) out)"
  shows "client_receive le um (Some (fst (reply_of le (word_of_nat i) out), rb)) c = Inr (True, complete i out c)"
proof -
  have ids: "sint (word_of_nat i :: u64) = int i" "sint (- word_of_nat i :: u64) = - int i" using sint_id i(2) by blast+
  have j: "nat \<bar>int i\<bar> = i" "nat \<bar>- int i\<bar> = i" "int i \<noteq> - (2 ^ 63)" "- int i \<noteq> - (2 ^ 63)" "\<not> 0 \<le> - int i" using i by auto
  consider (v) d where "out = Returned d" | (x) w where "out = Thrown (Runtime_error w)" | (u) v where "out = Thrown (Unknown_verb v)"
    using call_outcome_cases [OF out] by blast
  then show ?thesis
  proof cases
    case v
    then show ?thesis using rb um h ids(1) j by (simp add: client_receive_def reply_of_def reply_outcome_def Let_def)
  next
    case x
    then have "unmarshal_exception le (concat (rb_bufs rb)) = Some (Runtime_error w)"
      using exception_back [OF le, of w] rb s by (simp add: reply_of_def outcome_size_def)
    then show ?thesis using x h ids(2) j by (simp add: client_receive_def reply_of_def reply_outcome_def Let_def)
  next
    case u
    then have "unmarshal_exception le (concat (rb_bufs rb)) = Some (Unknown_verb v)"
      using verb_back [OF le, of v] rb by (simp add: reply_of_def)
    then show ?thesis using u h ids(2) j by (simp add: client_receive_def reply_of_def reply_outcome_def Let_def)
  qed
qed

text \<open>What the server hands to \<open>respond\<close> is written, whether it is sent then or not; where there is no outcome, nothing is handed over.\<close>

lemma reply_expired:
  assumes "le_ok le" "call_outcome lm big hs t (rb_size rb) (concat (rb_bufs rb)) = Some out" "12 + outcome_size out < 2 ^ 32"
    and "\<not> connection_send False timeout now fired"
  shows "server_reply_bytes le cp False timeout now fired (server_request le lm big hs True (t, m) rb) = None"
proof -
  let ?r = "reply_of le m out"
  have l: "12 + length (snd ?r) < 2 ^ 32" using assms(3) reply_of_size [OF assms(1)] by simp
  have "holds 12 (marshall 12 (snd ?r)) (replicate 12 0 @ snd ?r)" using marshall_holds [of 12 "snd ?r"] l by simp
  from respond_written [OF assms(1) l this, of "fst ?r"] obtain sb where "respond_message le (fst ?r) (marshall 12 (snd ?r)) = Inr sb" by blast
  then show ?thesis unfolding server_reply_of [OF assms(2)] using assms(4) by (simp add: server_reply_bytes_def)
qed

lemma no_reply_due:
  assumes "call_outcome lm big hs t (rb_size rb) (concat (rb_bufs rb)) = None"
  shows "server_reply_bytes le cp err timeout now fired (server_request le lm big hs True (t, m) rb) = None"
proof (cases "rpc_get_handler hs t")
  case None
  then show ?thesis using assms by (simp add: call_outcome_def)
next
  case (Some rh)
  show ?thesis
  proof (cases "rh_waits rh")
    case False
    then show ?thesis using Some by (simp add: server_request_def rpc_reply_def server_reply_bytes_def)
  next
    case True
    then show ?thesis using Some assms
      by (cases "rh_serve rh (concat (rb_bufs rb))") (simp_all add: call_outcome_def server_request_def rpc_reply_def server_reply_bytes_def split: if_splits)
  qed
qed

lemma call_answered:
  assumes "le_ok le" and "avail_ok avail" and "\<forall>cmp. cp = Some cmp \<longrightarrow> compressor_ok lim cmp"
    and "call_outcome lm big hs t (rb_size rb) (concat (rb_bufs rb)) = Some out"
    and "12 + outcome_size out < 2 ^ 32" and "12 + outcome_size out \<le> lim"
    and "0 < i" and "i < 2 ^ 63" and "cl_outstanding c i = Some h" and "\<forall>d. out = Returned d \<longrightarrow> um i d"
    and "connection_send False timeout now fired"
  shows "\<exists>wire. server_reply_bytes le cp False timeout now fired (server_request le lm big hs True (t, word_of_nat i) rb) = Some (Inr wire) \<and>
    (\<forall>rest. \<exists>f. read_response_frame_compressed le avail cp (wire @ rest) = Inr (Some f, rest) \<and>
      client_receive le um (Some f) c = Inr (True, complete i out c))"
proof -
  let ?r = "reply_of le (word_of_nat i) out"
  have l: "12 + length (snd ?r) < 2 ^ 32" "12 + length (snd ?r) \<le> lim" using assms(5,6) reply_of_size [OF assms(1)] by simp_all
  have "holds 12 (marshall 12 (snd ?r)) (replicate 12 0 @ snd ?r)" using marshall_holds [of 12 "snd ?r"] l(1) by simp
  from respond_written [OF assms(1) l(1) this, of "fst ?r"] obtain sb where sb: "respond_message le (fst ?r) (marshall 12 (snd ?r)) = Inr sb"
    "holds 12 sb (write_le64 le (fst ?r) @ write_le32 le (word_of_nat (length (snd ?r))) @ snd ?r)" by blast
  from response_sent [OF assms(1,2,3) l sb(2), of False 0] obtain wire where w: "send_entry le Q_response False 0 cp sb = Inr wire"
    "carried le avail (response_frame le) cp wire (fst ?r) (snd ?r)" by blast
  have "\<exists>f. read_response_frame_compressed le avail cp (wire @ rest) = Inr (Some f, rest) \<and>
      client_receive le um (Some f) c = Inr (True, complete i out c)" for rest
  proof -
    obtain rb' where rb': "read_frame_compressed le avail (response_frame le) cp (wire @ rest) = Inr (Some (fst ?r, rb'), rest)"
        "concat (rb_bufs rb') = snd ?r" using w(2) unfolding carried_def by blast
    have "outcome_size out < 2 ^ 32" using assms(5) by simp
    from outcome_received [where um = um and i = i, OF assms(1,4,7,8) this assms(10,9) rb'(2)] rb'(1) show ?thesis
      unfolding read_response_frame_compressed_def by blast
  qed
  moreover have "server_reply_bytes le cp False timeout now fired (server_request le lm big hs True (t, word_of_nat i) rb) = Some (Inr wire)"
    unfolding server_reply_of [OF assms(4)] using sb(1) w(1) assms(11) by (simp add: server_reply_bytes_def)
  ultimately show ?thesis by blast
qed

text \<open>
  What a handler returns is what its caller's future gets; what it throws is thrown at the caller with the
  same text; a verb that has no handler is an unknown verb there, and a request that is too large an
  error. It comes back over the wire, compressed or not, under the id of the call.
\<close>
theorem calls_come_back:
  assumes "le_ok le" and "avail_ok avail" and "\<forall>cmp. cp = Some cmp \<longrightarrow> compressor_ok lim cmp"
    and "call_outcome lm big hs t (rb_size rb) (concat (rb_bufs rb)) = Some out"
    and "12 + outcome_size out < 2 ^ 32" and "12 + outcome_size out \<le> lim"
    and "0 < i" and "i < 2 ^ 63" and "cl_outstanding c i = Some h" and "\<forall>d. out = Returned d \<longrightarrow> um i d"
    and "connection_send False timeout now fired"
  shows "\<exists>wire. server_reply_bytes le cp False timeout now fired (server_request le lm big hs True (t, word_of_nat i) rb) = Some (Inr wire) \<and>
    (\<forall>rest. \<exists>f. read_response_frame_compressed le avail cp (wire @ rest) = Inr (Some f, rest) \<and>
      client_receive le um (Some f) c = Inr (True, complete i out c))"
  using assms by (rule call_answered)

text \<open>A server with one handler, which says what it was told is wrong.\<close>

definition complaining :: "u64 \<Rightarrow> rpc_handler option" where
  "complaining t = (if t = 5 then Some \<lparr>rh_waits = True, rh_open = True, rh_serve = Failed\<rparr> else None)"

lemma calls_come_back_witness:
  "\<exists>wire f. server_reply_bytes le_ref (Some stored) False (Some 10) 9 False (server_request le_ref \<lparr>lm_basic = 0, lm_bloat = 1, lm_max = 100\<rparr> [] complaining True (5, word_of_nat 1)
       \<lparr>rb_size = 2, rb_bufs = [[8, 9]]\<rparr>) = Some (Inr wire) \<and>
    read_response_frame_compressed le_ref three_bytes (Some stored) (wire @ [3]) = Inr (Some f, [3]) \<and>
    client_receive le_ref (\<lambda>_ _. True) (Some f) one_call = Inr (True, complete 1 (Thrown (Runtime_error [8, 9])) one_call)"
proof -
  have a: "call_outcome \<lparr>lm_basic = 0, lm_bloat = 1, lm_max = 100\<rparr> [] complaining 5 (rb_size \<lparr>rb_size = 2, rb_bufs = [[8, 9]]\<rparr>)
      (concat (rb_bufs \<lparr>rb_size = 2, rb_bufs = [[8, 9]]\<rparr>)) = Some (Thrown (Runtime_error [8, 9]))"
    by (simp add: call_outcome_def rpc_get_handler_def complaining_def estimate_request_size_def)
  have o: "cl_outstanding one_call 1 = Some \<lparr>hd_timer = False, hd_cancel = False\<rparr>"
    by (simp add: one_call_def client_call_def client_start_def)
  have c: "\<forall>cmp. Some stored = Some cmp \<longrightarrow> compressor_ok 1000000 cmp" by (simp add: compressor_ok_stored)
  have z: "12 + outcome_size (Thrown (Runtime_error [8, 9])) < 2 ^ 32" "12 + outcome_size (Thrown (Runtime_error [8, 9])) \<le> 1000000"
    by (simp_all add: outcome_size_def)
  have i: "(0::nat) < 1" "(1::nat) < 2 ^ 63" by simp_all
  have um: "\<forall>d. Thrown (Runtime_error [8, 9]) = Returned d \<longrightarrow> (\<lambda>_ _. True) (1::nat) d" by simp
  from calls_come_back [where um = "\<lambda>_ _. True" and i = 1, OF le_ok_ref avail_ok_three c a z i o um, of "Some 10" 9 False] show ?thesis by (auto simp: connection_send_def)
qed

text \<open>
  A call with less than a millisecond left is sent with no time left, and the server takes that for a
  call without a timeout.
\<close>
theorem last_millisecond_is_for_ever:
  "time_left (Some t) t = 0 \<and> server_timeout now latest (Some (time_left (Some t) t)) = None \<and>
   server_timeout now latest (Some (time_left (Some (t + 1)) t)) = Some (now + min 1 (latest - now))"
  by (simp add: time_left_def server_timeout_def)

subsection \<open>Streams\<close>

lemma fragment_read:
  assumes "carried le avail (stream_frame le) cp wire eos payload"
  shows "\<exists>rb. read_stream_frame_compressed le avail cp (wire @ rest) = Inr (Some rb, rest) \<and> concat (rb_bufs rb) = payload \<and>
    (if eos then rb_size rb = - 1 else unat (rb_size rb) = length payload)"
proof -
  obtain rb where rb: "read_frame_compressed le avail (stream_frame le) cp (wire @ rest) = Inr (Some (eos, rb), rest)"
      "concat (rb_bufs rb) = payload" "unat (rb_size rb) = length payload" using assms unfolding carried_def by blast
  then show ?thesis by (cases eos) (simp_all add: read_stream_frame_compressed_def stream_value_def)
qed

lemma stream_frames_step:
  "s \<noteq> [] \<Longrightarrow> read_stream_frame_compressed le avail cp s = Inr (Some rb, s1) \<Longrightarrow>
    stream_frames le avail cp (Suc n) s = rb # stream_frames le avail cp n s1"
  by simp

lemma carried_nonempty:
  assumes "carried le avail (stream_frame le) cp wire eos payload"
  shows "wire \<noteq> []"
proof
  assume "wire = []"
  then obtain rb where "read_frame_compressed le avail (stream_frame le) cp [] = Inr (Some (eos, rb), [])"
    using assms unfolding carried_def by (metis append_Nil)
  then show False by (auto simp: read_frame_compressed_def read_frame_def stream_frame_def split: option.splits)
qed

lemma stream_read:
  assumes le: "le_ok le" and a: "avail_ok avail" and cp: "\<forall>c. cp = Some c \<longrightarrow> compressor_ok lim c" and lim: "4 \<le> lim"
  shows "\<forall>p \<in> set ps. 4 + length p < 2 ^ 32 \<and> 4 + length p \<le> lim \<Longrightarrow>
    \<exists>w bufs e. stream_sent le cp ps = Inr w \<and> stream_frames le avail cp (Suc (length ps)) w = bufs @ [e] \<and>
      map (\<lambda>rb. concat (rb_bufs rb)) bufs = ps \<and> (\<forall>rb \<in> set bufs. rb_size rb \<noteq> - 1) \<and> rb_size e = - 1"
proof (induction ps)
  case Nil
  obtain w where w: "rpc_then (faulty (stream_end_message le)) (send_entry le Q_response False 0 cp) = Inr w"
      "carried le avail (stream_frame le) cp w True []"
    using stream_end_sent [OF le a cp lim, of False 0] by blast
  obtain rb where rb: "read_stream_frame_compressed le avail cp (w @ []) = Inr (Some rb, [])" "rb_size rb = - 1"
    using fragment_read [OF w(2), of "[]"] by auto
  then have "stream_frames le avail cp (Suc 0) w = [] @ [rb]" using stream_frames_step [OF carried_nonempty [OF w(2)]] by simp
  then show ?case using w(1) rb(2) by (intro exI [of _ w] exI [of _ "[]"] exI [of _ rb]) simp
next
  case (Cons p ps)
  obtain ws bufs e where ws: "stream_sent le cp ps = Inr ws" "stream_frames le avail cp (Suc (length ps)) ws = bufs @ [e]"
      "map (\<lambda>rb. concat (rb_bufs rb)) bufs = ps" "\<forall>rb \<in> set bufs. rb_size rb \<noteq> - 1" "rb_size e = - 1"
    using Cons.IH Cons.prems by auto
  have l: "4 + length p < 2 ^ 32" "4 + length p \<le> lim" using Cons.prems by auto
  obtain w where w: "rpc_then (faulty (stream_message le p)) (send_entry le Q_response False 0 cp) = Inr w"
      "carried le avail (stream_frame le) cp w False p"
    using fragment_sent [OF le a cp l, of False 0] by blast
  obtain rb where rb: "read_stream_frame_compressed le avail cp (w @ ws) = Inr (Some rb, ws)" "concat (rb_bufs rb) = p" "unat (rb_size rb) = length p"
    using fragment_read [OF w(2), of ws] by auto
  have "unat (- 1 :: u32) = 2 ^ 32 - 1" by (simp add: unsigned_minus_1_eq_mask mask_eq_exp_minus_1)
  then have "rb_size rb \<noteq> - 1" using rb(3) l(1) by auto
  moreover have "stream_frames le avail cp (Suc (length (p # ps))) (w @ ws) = (rb # bufs) @ [e]"
    using stream_frames_step [OF _ rb(1), of "Suc (length ps)"] carried_nonempty [OF w(2)] ws(2) by simp
  moreover have "stream_sent le cp (p # ps) = Inr (w @ ws)" using w(1) ws(1) by simp
  ultimately show ?case using ws(3-5) rb(2) by (intro exI [of _ "w @ ws"] exI [of _ "rb # bufs"] exI [of _ e]) simp
qed

lemma consume_all: "\<forall>rb \<in> set bufs. rb_size rb \<noteq> - 1 \<Longrightarrow> rb_size e = - 1 \<Longrightarrow> consume_until_end (bufs @ [e]) = (bufs, True, [])"
  by (induction bufs) auto

text \<open>C10. 
  What is put into a sink comes out of the source at the other end, fragment by fragment and in order,
  empty fragments too, and then the end of the stream and nothing else.
\<close>
theorem streams_arrive:
  assumes "le_ok le" and "avail_ok avail" and "\<forall>c. cp = Some c \<longrightarrow> compressor_ok lim c" and "4 \<le> lim"
    and "\<forall>p \<in> set ps. 4 + length p < 2 ^ 32 \<and> 4 + length p \<le> lim"
  shows "\<exists>w bufs q. stream_sent le cp ps = Inr w \<and> stream_receive (stream_frames le avail cp (Suc (length ps)) w) = Some (Inr (bufs, q)) \<and>
    map (\<lambda>rb. concat (rb_bufs rb)) bufs = ps \<and> (ps \<noteq> [] \<longrightarrow> stream_receive q = Some (Inr ([], [])))"
proof -
  obtain w bufs e where w: "stream_sent le cp ps = Inr w" "stream_frames le avail cp (Suc (length ps)) w = bufs @ [e]"
      "map (\<lambda>rb. concat (rb_bufs rb)) bufs = ps" "\<forall>rb \<in> set bufs. rb_size rb \<noteq> - 1" "rb_size e = - 1"
    using stream_read [OF assms] by blast
  have "stream_receive (bufs @ [e]) = Some (Inr (bufs, if bufs = [] then [] else [\<lparr>rb_size = - 1, rb_bufs = []\<rparr>]))"
    using consume_all [OF w(4,5)] by (simp add: stream_receive_def)
  moreover have "bufs \<noteq> [] \<Longrightarrow> stream_receive (if bufs = [] then [] else [\<lparr>rb_size = - 1, rb_bufs = []\<rparr>]) = Some (Inr ([], []))"
    by (simp add: stream_receive_def)
  ultimately show ?thesis using w(1-3) by auto
qed

lemma streams_arrive_witness:
  "\<exists>w bufs q. stream_sent le_ref (Some stored) [[1, 2], [], [3]] = Inr w \<and>
    stream_receive (stream_frames le_ref three_bytes (Some stored) 4 w) = Some (Inr (bufs, q)) \<and>
    map (\<lambda>rb. concat (rb_bufs rb)) bufs = [[1, 2], [], [3]] \<and> stream_receive q = Some (Inr ([], []))"
proof -
  let ?ps = "[[1, 2], [], [3]] :: bytes list"
  have c: "\<forall>cmp. Some stored = Some cmp \<longrightarrow> compressor_ok 1000000 cmp" by (simp add: compressor_ok_stored)
  have p: "(4::nat) \<le> 1000000" "\<forall>p \<in> set ?ps. 4 + length p < 2 ^ 32 \<and> 4 + length p \<le> 1000000" by auto
  have n: "Suc (length ?ps) = 4" by simp
  obtain w bufs q where r: "stream_sent le_ref (Some stored) ?ps = Inr w"
      "stream_receive (stream_frames le_ref three_bytes (Some stored) 4 w) = Some (Inr (bufs, q))"
      "map (\<lambda>rb. concat (rb_bufs rb)) bufs = ?ps" "?ps \<noteq> [] \<longrightarrow> stream_receive q = Some (Inr ([], []))"
    using streams_arrive [OF le_ok_ref avail_ok_three c p, unfolded n] by (elim exE conjE) (rule that)
  have "stream_receive q = Some (Inr ([], []))" using r(4) by simp
  with r(1-3) show ?thesis by (intro exI conjI)
qed

end
