(* ===== verification/RpcServed.thy ===== *)
theory RpcServed
  imports RpcLz4Props RpcNegotiateProps RpcPeerProps
begin

text \<open>
  A call from end to end: two peers negotiate with the factories of the program, the client calls, the
  server reads the request and serves it, and the client's future gets what came of it.
\<close>

text \<open>The compressors a factory of the program can offer.\<close>

definition lz4_only :: "le_ops \<Rightarrow> lz4_ops \<Rightarrow> compressor list option \<Rightarrow> bool" where
  "lz4_only le lz cs \<longleftrightarrow> (\<forall>l. cs = Some l \<longrightarrow> set l \<subseteq> {lz4_compressor le lz, lz4_fragmented_compressor le lz})"

lemma lz4_names:
  "plain_name (cp_name (lz4_compressor le lz))" "plain_name (cp_name (lz4_fragmented_compressor le lz))"
  "length (cp_name (lz4_compressor le lz)) < 1000" "length (cp_name (lz4_fragmented_compressor le lz)) < 1000"
  "cp_name (lz4_compressor le lz) \<noteq> cp_name (lz4_fragmented_compressor le lz)"
  by (simp_all add: lz4_compressor_def lz4_fragmented_compressor_def plain_name_def)

lemma lz4_only_plain:
  assumes "lz4_only le lz cs"
  shows "names_plain cs"
proof -
  have "plain_name (cp_name c) \<and> length (cp_name c) < 1000" if "cs = Some l" "c \<in> set l" for l c
  proof -
    have "c = lz4_compressor le lz \<or> c = lz4_fragmented_compressor le lz" using assms that unfolding lz4_only_def by blast
    then show ?thesis using lz4_names by metis
  qed
  then show ?thesis by (simp add: names_plain_def split: option.splits)
qed

lemma lz4_only_ok:
  assumes "le_ok le" "lz4_ok lz" "lz4_only le lz cs" "cs = Some l" "c \<in> set l"
  shows "compressor_ok 0x70000000 c"
proof -
  have less: "compressor_ok 0x70000000 c" if "compressor_ok 0x7E000000 c" for c
    using that unfolding compressor_ok_def by force
  have "c = lz4_compressor le lz \<or> c = lz4_fragmented_compressor le lz" using assms(3-5) unfolding lz4_only_def by blast
  then show ?thesis using lz4_contract [OF assms(1,2)] fragmented_contract [OF assms(1,2)] less by blast
qed

lemma lz4_same:
  assumes "lz4_only le lz cs" "lz4_only le lz ss" "map_option cp_name x = map_option cp_name y"
    and "\<forall>c. x = Some c \<longrightarrow> (\<exists>l. cs = Some l \<and> c \<in> set l)" "\<forall>c. y = Some c \<longrightarrow> (\<exists>l. ss = Some l \<and> c \<in> set l)"
  shows "x = y"
proof (cases x)
  case None
  then show ?thesis using assms(3) by simp
next
  case (Some c)
  then obtain d where d: "y = Some d" "cp_name c = cp_name d" using assms(3) by (cases y) auto
  have "c \<in> {lz4_compressor le lz, lz4_fragmented_compressor le lz}" using assms(1,4) Some unfolding lz4_only_def by blast
  moreover have "d \<in> {lz4_compressor le lz, lz4_fragmented_compressor le lz}" using assms(2,5) d(1) unfolding lz4_only_def by blast
  ultimately have "c = d" using d(2) lz4_names(5) [of le lz] by auto
  then show ?thesis using Some d(1) by simp
qed

lemma in_time: "connection_send False timeout now fired = (\<forall>d. timeout = Some d \<longrightarrow> now < d \<and> \<not> fired)"
  by (auto simp: connection_send_def split: option.splits)

text \<open>
  What the answer of a server is to a caller, given the outcome that is due: sent, and received as that
  outcome, when it is ready in time; none otherwise.
\<close>

definition answer_ok :: "le_ops \<Rightarrow> avail \<Rightarrow> compressor option \<Rightarrow> (nat \<Rightarrow> bytes \<Rightarrow> bool) \<Rightarrow> nat \<Rightarrow> client \<Rightarrow> call_result option \<Rightarrow>
    int option \<Rightarrow> int \<Rightarrow> bool \<Rightarrow> (rpc_error + bytes) option \<Rightarrow> bool" where
  "answer_ok le avail cp um i cl outcome timeout ready fired reply \<longleftrightarrow>
     (case outcome of
        None \<Rightarrow> reply = None
      | Some out \<Rightarrow>
          if \<forall>d. timeout = Some d \<longrightarrow> ready < d \<and> \<not> fired
          then \<exists>bs. reply = Some (Inr bs) \<and>
            (\<forall>rest'. \<exists>fr. read_response_frame_compressed le avail cp (bs @ rest') = Inr (Some fr, rest') \<and>
              client_receive le um (Some fr) cl = Inr (True, complete i out cl))
          else reply = None)"

lemma reply_answers:
  assumes le: "le_ok le" and a: "avail_ok avail" and cp: "\<forall>x. cp = Some x \<longrightarrow> compressor_ok 0x70000000 x"
    and out: "\<And>out. call_outcome lm big hs t (rb_size rb) (concat (rb_bufs rb)) = Some out \<Longrightarrow>
      12 + outcome_size out \<le> 0x70000000 \<and> (\<forall>d. out = Returned d \<longrightarrow> um i d)"
    and i: "0 < i" "i < 2 ^ 63" "cl_outstanding cl i = Some h"
  shows "answer_ok le avail cp um i cl (call_outcome lm big hs t (rb_size rb) (concat (rb_bufs rb))) timeout ready fired
    (server_reply_bytes le cp False timeout ready fired (server_request le lm big hs True (t, word_of_nat i) rb))"
proof (cases "call_outcome lm big hs t (rb_size rb) (concat (rb_bufs rb))")
  case None
  then show ?thesis using no_reply_due by (simp add: answer_ok_def)
next
  case (Some out)
  have l: "12 + outcome_size out < 2 ^ 32" "12 + outcome_size out \<le> 0x70000000" "\<forall>d. out = Returned d \<longrightarrow> um i d"
    using assms(4) [OF Some] by simp_all
  show ?thesis
  proof (cases "connection_send False timeout ready fired")
    case True
    show ?thesis using call_answered [where um = um and i = i, OF le a cp Some l(1,2) i l(3) True] True Some
      by (auto simp: answer_ok_def in_time)
  next
    case False
    then show ?thesis using reply_expired [OF le Some l(1) False] Some by (auto simp: answer_ok_def in_time)
  qed
qed

lemma timer_step: "cl_outstanding cl i = Some h \<Longrightarrow> hd_timer h \<longrightarrow> client_step le um cl (complete i Timed_out cl)"
  by (auto intro: client_step.wait_timer simp: wait_timed_out_def)

text \<open>C1. 
  Two peers that were built with any of the compressors of the program, in any order, or none, agree on
  how they talk, and a call of the client is read by the server with its arguments and the time it has left. When
  the resources for it come, the server answers as follows. A reply is due where the verb has no handler or its
  handler is closed, where the caller waits and the request is too large, and where the caller waits and the handler returns or
  throws something with a text (\<open>call_outcome\<close>): the reply that is ready while the time of the call is not
  over, or that has no time limit, is sent and is the outcome of the call. A reply that is too late, or is still queued when its
  timer fires, is not sent, and neither is anything where no reply is due: a caller that has a timeout gets that.
\<close>
theorem calls_are_served:
  assumes "le_ok le" and "avail_ok avail" and "lz4_ok lz"
    and "co_factory cops = map_option algorithms cs" and "so_factory sops = map_option algorithms ss"
    and "lz4_only le lz cs" and "lz4_only le lz ss" and "\<not> connection_id_valid (co_stream_parent cops)"
    and "feature_size (client_features le cops) + 2048 < 2 ^ 32"
    and "cn_compressor c = None" and "\<not> cn_timeout c" and "cn_compressor s = None" and "\<not> cn_timeout s"
    and "so_isolate sops (co_isolation_cookie cops) \<noteq> None"
    and "28 + length args \<le> 0x70000000"
    and "\<And>out. call_outcome lm big hs t (word_of_nat (length args)) args = Some out \<Longrightarrow>
      12 + outcome_size out \<le> 0x70000000 \<and> (\<forall>d. out = Returned d \<longrightarrow> um i d)"
    and "0 < i" and "i < 2 ^ 63" and "cl_outstanding cl i = Some h"
  shows "\<exists>f g n c'. send_negotiation_frame le (client_features le cops) = Inr f \<and>
    server_negotiate_protocol le sops shard s w f = (Inr (n, g), []) \<and> client_negotiate_protocol le cops c g = (Inr c', []) \<and>
    (\<exists>sb wire. request_message le t (word_of_nat i) args = Inr sb \<and> send_entry le Q_request (cn_timeout c') left (cn_compressor c') sb = Inr wire \<and>
      (\<forall>rest. \<exists>rb.
        read_request_frame_compressed le avail (cn_timeout (ng_conn n)) (cn_compressor (ng_conn n)) (wire @ rest) =
          Inr (Some ((if co_send_timeout_data cops then Some left else None, t, word_of_nat i), rb), rest) \<and> concat (rb_bufs rb) = args \<and>
        (let timeout = server_timeout arrived latest (if co_send_timeout_data cops then Some left else None)
         in answer_ok le avail (cn_compressor c') um i cl (call_outcome lm big hs t (word_of_nat (length args)) args) timeout ready fired
              (server_reply_bytes le (cn_compressor (ng_conn n)) False timeout ready fired
                (server_request le lm big hs True (t, word_of_nat i) rb))))) \<and>
    (hd_timer h \<longrightarrow> client_step le um cl (complete i Timed_out cl))"
proof -
  obtain f g n c' where f: "send_negotiation_frame le (client_features le cops) = Inr f"
    and g: "\<forall>r. server_negotiate_protocol le sops shard s w (f @ r) = (Inr (n, g), r)"
    and c': "\<forall>r. client_negotiate_protocol le cops c (g @ r) = (Inr c', r)"
    and names: "map_option cp_name (cn_compressor c') = map_option cp_name (cn_compressor (ng_conn n))"
    and times: "cn_timeout c' = co_send_timeout_data cops" "cn_timeout (ng_conn n) = co_send_timeout_data cops"
    and mem: "\<forall>x. cn_compressor c' = Some x \<longrightarrow> (\<exists>l. cs = Some l \<and> x \<in> set l)" "\<forall>x. cn_compressor (ng_conn n) = Some x \<longrightarrow> (\<exists>l. ss = Some l \<and> x \<in> set l)"
    using negotiation_outcome [OF assms(1,4,5) lz4_only_plain [OF assms(6)] lz4_only_plain [OF assms(7)] assms(8-14), of shard w]
    by (elim exE conjE) (rule that, assumption+, simp_all)
  let ?cp = "cn_compressor c'" and ?e = "if co_send_timeout_data cops then Some left else None"
  let ?out = "call_outcome lm big hs t (word_of_nat (length args)) args" and ?t = "server_timeout arrived latest ?e"
  have same: "cn_compressor (ng_conn n) = ?cp" using lz4_same [OF assms(6,7) names mem] by simp
  have ok: "\<forall>x. ?cp = Some x \<longrightarrow> compressor_ok 0x70000000 x" using lz4_only_ok [OF assms(1,3,6)] mem(1) by blast
  have l: "28 + length args < 2 ^ 32" using assms(15) by simp
  obtain sb wire where q: "request_message le t (word_of_nat i) args = Inr sb"
    "send_entry le Q_request (cn_timeout c') left ?cp sb = Inr wire"
    "\<And>rest. \<exists>rb. read_request_frame_compressed le avail (cn_timeout c') ?cp (wire @ rest) = Inr (Some ((if cn_timeout c' then Some left else None, t, word_of_nat i), rb), rest) \<and>
      concat (rb_bufs rb) = args \<and> unat (rb_size rb) = length args"
    using request_arrives [OF assms(1,2) ok l(1) assms(15), of t "word_of_nat i" "cn_timeout c'" left] by blast
  have "\<exists>rb. read_request_frame_compressed le avail (cn_timeout c') ?cp (wire @ rest) = Inr (Some ((?e, t, word_of_nat i), rb), rest) \<and>
      concat (rb_bufs rb) = args \<and>
      answer_ok le avail ?cp um i cl ?out ?t ready fired
        (server_reply_bytes le ?cp False ?t ready fired (server_request le lm big hs True (t, word_of_nat i) rb))" for rest
  proof -
    obtain rb where rb: "read_request_frame_compressed le avail (cn_timeout c') ?cp (wire @ rest) = Inr (Some ((?e, t, word_of_nat i), rb), rest)"
        "concat (rb_bufs rb) = args" "unat (rb_size rb) = length args" using q(3) [of rest] times(1) by auto
    have "word_of_nat (unat (rb_size rb)) = rb_size rb" by simp
    then have o: "call_outcome lm big hs t (rb_size rb) (concat (rb_bufs rb)) = ?out" using rb(2,3) by simp
    show ?thesis using rb(1,2) reply_answers [OF assms(1,2) ok, of lm big hs t rb um i cl h ?t ready fired] assms(16-19) unfolding o by blast
  qed
  then show ?thesis using f g [rule_format, of "[]"] c' [rule_format, of "[]"] q(1,2) same times timer_step [OF assms(19)]
    by (auto simp: Let_def)
qed

definition w_caller :: client_options where
  "w_caller = \<lparr>co_factory = Some (algorithms [lz4_fragmented_compressor le_ref lz4_ref, lz4_compressor le_ref lz4_ref]), co_send_timeout_data = True,
      co_stream_parent = invalid_connection_id, co_isolation_cookie = []\<rparr>"

definition w_callee :: "bytes server_options" where
  "w_callee = \<lparr>so_factory = Some (algorithms [lz4_compressor le_ref lz4_ref]), so_streaming_domain = False, so_isolate = Some\<rparr>"

lemma calls_are_served_witness:
  "\<exists>f g n c' sb wire rb reply fr. send_negotiation_frame le_ref (client_features le_ref w_caller) = Inr f \<and>
    server_negotiate_protocol le_ref w_callee 0 (w_conn 5) (\<lambda>_. None) f = (Inr (n, g), []) \<and>
    client_negotiate_protocol le_ref w_caller (w_conn 0) g = (Inr c', []) \<and>
    request_message le_ref 5 (word_of_nat 1) [8, 9] = Inr sb \<and> send_entry le_ref Q_request (cn_timeout c') 250 (cn_compressor c') sb = Inr wire \<and>
    read_request_frame_compressed le_ref three_bytes (cn_timeout (ng_conn n)) (cn_compressor (ng_conn n)) (wire @ []) =
      Inr (Some ((Some 250, 5, word_of_nat 1), rb), []) \<and>
    server_reply_bytes le_ref (cn_compressor (ng_conn n)) False (Some 1250) 1100 False
      (server_request le_ref \<lparr>lm_basic = 0, lm_bloat = 1, lm_max = 100\<rparr> [] complaining True (5, word_of_nat 1) rb) = Some (Inr reply) \<and>
    read_response_frame_compressed le_ref three_bytes (cn_compressor c') (reply @ []) = Inr (Some fr, []) \<and>
    client_receive le_ref (\<lambda>_ _. True) (Some fr) one_call = Inr (True, complete 1 (Thrown (Runtime_error [8, 9])) one_call)"
proof -
  let ?cs = "Some [lz4_fragmented_compressor le_ref lz4_ref, lz4_compressor le_ref lz4_ref]" and ?ss = "Some [lz4_compressor le_ref lz4_ref]"
  have o: "co_factory w_caller = map_option algorithms ?cs" "so_factory w_callee = map_option algorithms ?ss"
    by (simp_all add: w_caller_def w_callee_def)
  have lo: "lz4_only le_ref lz4_ref ?cs" "lz4_only le_ref lz4_ref ?ss" by (simp_all add: lz4_only_def)
  have v: "\<not> connection_id_valid (co_stream_parent w_caller)"
    unfolding w_caller_def by (simp add: connection_id_valid_def connection_shard_def invalid_connection_id_def make_connection_id_def)
  have z: "feature_size (client_features le_ref w_caller) + 2048 < 2 ^ 32"
    unfolding client_offers [OF o(1) v]
    by (simp add: offered_def feature_size_def w_caller_def lz4_compressor_def lz4_fragmented_compressor_def)
  have w: "cn_compressor (w_conn k) = None" "\<not> cn_timeout (w_conn k)" for k by (simp_all add: w_conn_def)
  have iso: "so_isolate w_callee (co_isolation_cookie w_caller) \<noteq> None" by (simp add: w_callee_def)
  have a: "call_outcome \<lparr>lm_basic = 0, lm_bloat = 1, lm_max = 100\<rparr> [] complaining 5 (word_of_nat (length [8, 9 :: byte])) [8, 9] =
      Some (Thrown (Runtime_error [8, 9]))"
    by (simp add: call_outcome_def rpc_get_handler_def complaining_def estimate_request_size_def)
  have one: "cl_outstanding one_call 1 = Some \<lparr>hd_timer = False, hd_cancel = False\<rparr>"
    by (simp add: one_call_def client_call_def client_start_def)
  have l: "28 + length [8, 9 :: byte] \<le> 0x70000000" by simp
  have i: "(0::nat) < 1" "(1::nat) < 2 ^ 63" by simp_all
  have um: "12 + outcome_size out \<le> 0x70000000 \<and> (\<forall>d. out = Returned d \<longrightarrow> (\<lambda>_ _. True) (1::nat) d)"
    if "call_outcome \<lparr>lm_basic = 0, lm_bloat = 1, lm_max = 100\<rparr> [] complaining 5 (word_of_nat (length [8, 9 :: byte])) [8, 9] = Some out" for out
    using that unfolding a by (auto simp: outcome_size_def)
  have t: "co_send_timeout_data w_caller" by (simp add: w_caller_def)
  have time: "server_timeout 1000 100000 (Some 250) = Some 1250" by (simp add: server_timeout_def)
  note calls_are_served [where um = "\<lambda>_ _. True" and i = 1 and left = 250 and shard = 0 and w = "\<lambda>_. None"
      and lm = "\<lparr>lm_basic = 0, lm_bloat = 1, lm_max = 100\<rparr>" and big = "[]" and hs = complaining and t = 5
      and arrived = 1000 and latest = 100000 and ready = 1100 and fired = False,
      OF le_ok_ref avail_ok_three lz4_ok_ref o lo v z w [of 0] w [of 5] iso l um i one, unfolded a]
  then obtain f g n c' sb wire where r: "send_negotiation_frame le_ref (client_features le_ref w_caller) = Inr f"
      "server_negotiate_protocol le_ref w_callee 0 (w_conn 5) (\<lambda>_. None) f = (Inr (n, g), [])"
      "client_negotiate_protocol le_ref w_caller (w_conn 0) g = (Inr c', [])"
      "request_message le_ref 5 (word_of_nat 1) [8, 9] = Inr sb" "send_entry le_ref Q_request (cn_timeout c') 250 (cn_compressor c') sb = Inr wire"
      "\<forall>rest. \<exists>rb. read_request_frame_compressed le_ref three_bytes (cn_timeout (ng_conn n)) (cn_compressor (ng_conn n)) (wire @ rest) =
          Inr (Some ((Some 250, 5, word_of_nat 1), rb), rest) \<and> concat (rb_bufs rb) = [8, 9] \<and>
        answer_ok le_ref three_bytes (cn_compressor c') (\<lambda>_ _. True) 1 one_call (Some (Thrown (Runtime_error [8, 9]))) (Some 1250) 1100 False
          (server_reply_bytes le_ref (cn_compressor (ng_conn n)) False (Some 1250) 1100 False
            (server_request le_ref \<lparr>lm_basic = 0, lm_bloat = 1, lm_max = 100\<rparr> [] complaining True (5, word_of_nat 1) rb))"
    unfolding Let_def if_P [OF t] time by blast
  obtain rb reply where r2: "read_request_frame_compressed le_ref three_bytes (cn_timeout (ng_conn n)) (cn_compressor (ng_conn n)) (wire @ []) =
        Inr (Some ((Some 250, 5, word_of_nat 1), rb), [])"
      "server_reply_bytes le_ref (cn_compressor (ng_conn n)) False (Some 1250) 1100 False
        (server_request le_ref \<lparr>lm_basic = 0, lm_bloat = 1, lm_max = 100\<rparr> [] complaining True (5, word_of_nat 1) rb) = Some (Inr reply)"
      "\<forall>rest'. \<exists>fr. read_response_frame_compressed le_ref three_bytes (cn_compressor c') (reply @ rest') = Inr (Some fr, rest') \<and>
          client_receive le_ref (\<lambda>_ _. True) (Some fr) one_call = Inr (True, complete 1 (Thrown (Runtime_error [8, 9])) one_call)"
    using r(6) [rule_format, of "[]"] by (auto simp: answer_ok_def)
  show ?thesis using r(1-5) r2(1,2) r2(3) [rule_format, of "[]"] by blast
qed

end
