(* ===== verification/Spec2Isabelle.thy ===== *)
theory Spec2Isabelle
  imports TcpProps HttpServed HttpReplaceProps HttpFilesProps DhcpProps NetifProps VirtioProps RpcServed
begin

text \<open>
  A verification of actor-network, the network part of an actor framework: a TCP/IP stack in user
  space, an HTTP server and remote procedure calls. File names below are those under
  \<open>include/nil/actor\<close> and \<open>src\<close>.

  \<^bold>\<open>The program and its model.\<close>

  A device gives received frames to a \<open>device\<close>, whose interface dispatches them by their link layer
  protocol: ARP learns addresses, IPv4 reassembles fragments and gives datagrams to ICMP, UDP, TCP or a
  packet filter (DHCP). In the other direction the protocols are packet providers that the device's
  queue polls. Over connections there is the HTTP server: a parser, a connection that reads requests and
  writes replies, routes that find the handler of a request, JSON for structured replies; and rpc:
  messages, negotiation, calls and streams.

  \<^item> \<open>Prelude\<close> (machine types, \<open>error\<close>, \<open>andThen\<close>), \<open>Byteorder\<close> (\<open>network/byteorder.hh\<close>, \<open>const.hh\<close>), \<open>Text\<close>
    (the string functions the HTTP code uses).
  \<^item> \<open>Checksum\<close> (\<open>network/ip_checksum.*\<close>), \<open>Packet\<close> (\<open>network/packet.*\<close>), \<open>PacketMerger\<close>
    (\<open>network/packet-util.hh\<close>), \<open>Rss\<close> (\<open>network/toeplitz.hh\<close>, hashing of connections), \<open>NetTypes\<close> (Ethernet,
    addresses, features), \<open>Netif\<close> (\<open>network/net.*\<close>), \<open>Vring\<close> and \<open>Virtio\<close> (\<open>network/virtio.cc\<close>: the rings a
    device shares with the host, its queues), \<open>VringHost\<close> (the host at the other end).
  \<^item> \<open>Arp\<close> (\<open>network/arp.*\<close>), \<open>Ip\<close> with \<open>IpSend\<close>, \<open>IpFrag\<close> and \<open>IpGather\<close> (\<open>network/ip.*\<close>), \<open>L4\<close> (ICMP; UDP of
    \<open>network/udp.*\<close>), \<open>Dhcp\<close> (\<open>network/dhcp.cc\<close>).
  \<^item> \<open>TcpHdr\<close> (sequence numbers, header, options), \<open>Tcb\<close>, \<open>TcbOutput\<close>, \<open>TcbInput\<close> (a connection, class
    \<open>tcb\<close>), \<open>TcpLayer\<close> (class \<open>tcp\<close>), all of \<open>network/tcp.hh\<close> and \<open>tcp.cc\<close>.
  \<^item> \<open>HttpUrl\<close>, \<open>HttpMatch\<close>, \<open>HttpReply\<close>, \<open>HttpRoutes\<close>, \<open>HttpConn\<close>, \<open>HttpReplace\<close>, \<open>HttpFiles\<close> (\<open>http/*\<close>: requests, matchers,
    replies, routes, connections, transformers, file handlers), \<open>Ragel\<close>, \<open>HttpRequestParser\<close>, \<open>HttpResponseParser\<close> (the
    generated machines, by their labels), \<open>Json\<close> (\<open>json/*\<close>).
  \<^item> \<open>RpcWire\<close>, \<open>RpcLz4\<close>, \<open>RpcNegotiate\<close>, \<open>RpcPeer\<close> (\<open>rpc/*\<close>: messages and frames; the two compressors; features and
    which compressor is used; the calls of a client, serving a request, streams).

  A class is a record or a datatype under its name, a member function a definition under its name, with
  the object as an argument and in the result. Functions that wait are cut where they wait: what runs
  after a future is a definition of its own, and the order in which such pieces run is a step relation
  (\<open>arp_step\<close>, \<open>ip_step\<close>, \<open>tcb_step\<close>, \<open>layer_step\<close>, \<open>routes_step\<close>, \<open>run_step\<close>, \<open>dhcp_step\<close>, \<open>client_step\<close>, \<open>host_step\<close>) with its
  reachable states. Integers have the width of the source and wrap as they do there. A failing
  \<open>assert\<close>, an access out of bounds or through null, and what C++ leaves undefined are values of \<open>error\<close>;
  exceptions and early returns are values of a sum or an option.

  \<^bold>\<open>What is shown.\<close>

  \<^item> Bytes: the sum of a packet in fragments, folded, is that of RFC 1071 (what \<open>get\<close> makes of it is a constant, because
    of the width \<open>htonq\<close> has there, and shown as such); the packet operations but \<open>trim_back\<close> refine
    those on byte strings, for packets below 4 GB; merging overlapping segments gives the stream; the Toeplitz hash is that of
    its definition; headers and options read back as they were written.
  \<^item> Layers: protocols of an interface get their turn, queues keep their order and bound; ARP keeps its
    promises; fragments that arrive in any order are delivered once, whole, and within the memory bound; a
    UDP datagram reaches the channel it is for; a lease is what the server offered.
  \<^item> Devices: every descriptor of a virtio queue is free or in one chain, whatever the host does; packets
    reach the host and frames the interface in order and whole; nothing that is sent or received ends the
    program but a host that counts no buffers; the host is kicked when it asked to be.
  \<^item> TCP: a connection only takes steps of the state diagram; what is sent is the user's bytes, within
    both windows; what arrives is delivered in order; timers stay in bounds; the tables of the protocol
    object stay sound; segments that belong to nothing are answered with a reset.
  \<^item> HTTP: parsing does not depend on how the bytes are cut; a request and a reply read back; the first
    rule that matches is taken, and taking one back restores the tables; whatever fails becomes a reply;
    each reply belongs to a request, and replies go out in order; a request is served from its bytes to the status, headers
    and body a reader finds in the bytes of its reply; JSON with keys that are strings reads back; replacing keys does not depend on the buffers.
  \<^item> rpc: messages are read as they were sent and in no other length; both ends agree on compression and
    timeouts; the compressors give back what they were given, with the chunks where the library looks for them; every call
    comes to exactly one outcome; the reply that is due and in time is that outcome, and no other is sent; streams arrive in order.

  The theories whose names end in \<open>Props\<close>, and \<open>TcbSend\<close>, \<open>TcbRecv\<close>, \<open>TcbStates\<close>, \<open>TcpTables\<close>,
  \<open>HttpWire\<close>, \<open>HttpErrors\<close>, \<open>HttpServed\<close>, \<open>RpcServed\<close>, \<open>HttpRequestText\<close>, \<open>HttpResponseText\<close>, \<open>JsonRead\<close>, hold the properties; the others the model and
  the facts the properties share. Three interfaces are locales: \<open>packet_cutting\<close>, what the protocols rely on when they
  cut packets, is discharged by the packet model; \<open>offset_order\<close>, what the merger relies on, by
  16 and 32 bit offsets and by sequence numbers; \<open>ring_client\<close>, what a ring and its client owe each other,
  by the send and the receive queue of the virtio device.

  \<^bold>\<open>Parameters.\<close>

  What is not in the repository is a parameter with its documented behaviour as a named predicate:
  semaphores and queues (\<open>sem_ops\<close>, \<open>queue_ops\<close> with \<open>sem_ok\<close>, \<open>queue_ok\<close>), big and little endian accessors
  (\<open>be_ops\<close>, \<open>le_ops\<close> with \<open>le_ok\<close>), how much of a stream a read gives (\<open>avail\<close> with \<open>avail_ok\<close>), the LZ4
  library (\<open>lz4_ops\<close> with \<open>lz4_ok\<close>), the compressors of rpc (\<open>compressor\<close> with \<open>compressor_ok\<close>, which both compressors of the program keep), clocks, random numbers, device features and the number of shards (\<open>ip_env\<close>,
  \<open>tcp_env\<close>). Each theorem that needs such a hypothesis has a witness with a concrete function.

  \<^bold>\<open>Termination.\<close>

  Every definition is total but three, which are \<open>None\<close> where the loop of the code does not end: \<open>chain_end\<close>, the walk along a
  chain of descriptors, on a cycle, which no reachable ring has; \<open>send_fragments\<close>, with an MTU that leaves no room
  for payload; \<open>pick_port\<close>, when no random port is suitable. Operations that can end the program
  or leave the language are total with \<open>error\<close> as a value. Loops of the code are structural or have a measure: the bytes, packets or rules
  that are left. The few with a counter (\<open>stream_frames\<close>, the rounds of an interface, the ports that are
  tried) count what the code counts, or the theorem says which number is enough.

  \<^bold>\<open>Not modelled.\<close>

  The DPDK driver (\<open>network/dpdk.cc\<close>), the set up of vhost in \<open>virtio.cc\<close>, the kernel stack (\<open>posix-stack.cc\<close>), TLS (\<open>tls.cc\<close>) and DNS
  (\<open>dns.cc\<close>) are calls into DPDK, the kernel, GnuTLS and c-ares through the reactor, which are not in the
  repository; \<open>metrics2.*\<close> is generated. \<open>native-stack.cc\<close>, \<open>stack.cc\<close> and \<open>api.hh\<close> wire the modelled parts to futures and
  sockets; \<open>config.cc\<close> reads YAML; \<open>inet_address.cc\<close> and \<open>socket_address.cc\<close> wrap the C library; \<open>api_docs.*\<close> declares
  classes. Of modelled components left out are statistics and logging, the cost of memory, moving objects
  between shards (a message to another shard is an event), the accept loops, and the flow control
  of rpc streams.
\<close>

end
